(* ===== verification/Prelude.thy ===== *)
theory Prelude
  imports Main "HOL-Library.Word"
begin

unbundle bit_operations_syntax

section \<open>Shared types, automation and lemmas\<close>

text \<open>
  The vocabulary every component uses: the C++ integer types as words, the
  power-of-two check of the queue constructors with the masking arithmetic it
  licenses, and the live slice of a circular array, which the ring buffers of
  \<^verbatim>\<open>src/pump/core\<close> and the TCP packet buffer all share.
  The collection \<open>ring_simps\<close> holds the rewrite rules the ring components use.
\<close>

type_synonym u8 = "8 word"
type_synonym u16 = "16 word"
type_synonym u32 = "32 word"
type_synonym u64 = "64 word"
type_synonym byte = "8 word"

named_theorems ring_simps

subsection \<open>Powers of two and masks\<close>

text \<open>\<open>pow2 c\<close>: the word \<open>c\<close> is a power of two (so \<open>c - 1\<close> is its mask).\<close>

definition pow2 :: "'a::len word \<Rightarrow> bool" where
  "pow2 c \<longleftrightarrow> (\<exists>k < LENGTH('a). c = 2 ^ k)"

lemma unat_power_two: "k < LENGTH('a::len) \<Longrightarrow> unat (2 ^ k :: 'a word) = 2 ^ k"
proof -
  assume "k < LENGTH('a)"
  then have "(2::nat) ^ k < 2 ^ LENGTH('a)" by simp
  then have "unat (of_nat (2 ^ k) :: 'a word) = 2 ^ k"
    by (simp only: unat_of_nat mod_less)
  then show ?thesis by simp
qed

lemma pow2_pos: "pow2 c \<Longrightarrow> 0 < unat c"
  by (auto simp: pow2_def unat_power_two)

lemma pow2_dvd: "pow2 (c :: 'a::len word) \<Longrightarrow> unat c dvd 2 ^ LENGTH('a)"
proof -
  assume "pow2 c"
  then obtain k where k: "k < LENGTH('a)" "c = 2 ^ k" by (auto simp: pow2_def)
  have "(2::nat) ^ k dvd 2 ^ LENGTH('a)" using k(1) by (intro le_imp_power_dvd) simp
  with k show ?thesis by (simp add: unat_power_two)
qed

lemma unat_and_mask:
  assumes "pow2 c"
  shows "unat (x AND (c - 1)) = unat x mod unat c"
proof -
  from assms obtain k where k: "k < LENGTH('a)" "c = 2 ^ k"
    by (auto simp: pow2_def)
  have "x AND (c - 1) = take_bit k x"
    by (simp add: k(2) take_bit_eq_mask mask_eq_exp_minus_1)
  then have "unat (x AND (c - 1)) = take_bit k (unat x)"
    by (simp add: unsigned_take_bit_eq)
  with k show ?thesis
    by (simp add: take_bit_eq_mod unat_power_two)
qed

lemma unat_add_and_mask [ring_simps]:
  assumes "pow2 c"
  shows "unat ((x + y) AND (c - 1)) = (unat x + unat y) mod unat c"
  using assms pow2_dvd [OF assms]
  by (simp add: unat_and_mask unat_word_ariths mod_mod_cancel)

text \<open>
  The constructors test \<^verbatim>\<open>(capacity & (capacity - 1)) != 0\<close>. For a non-zero
  capacity the test accepts exactly the powers of two.
\<close>

lemma highest_bit_nat:
  fixes n :: nat
  assumes "0 < n"
  obtains k where "2 ^ k \<le> n" "n < 2 ^ Suc k"
proof -
  have "\<exists>k. 2 ^ k \<le> n \<and> n < 2 ^ Suc k"
    using assms
  proof (induction n rule: less_induct)
    case (less n)
    show ?case
    proof (cases "n = 1")
      case True
      then show ?thesis by (intro exI [of _ 0]) simp
    next
      case False
      with less.prems have "n div 2 < n" "0 < n div 2" by auto
      from less.IH [OF this] obtain k where "2 ^ k \<le> n div 2" "n div 2 < 2 ^ Suc k"
        by blast
      then have "2 ^ Suc k \<le> n" "n < 2 ^ Suc (Suc k)" by auto
      then show ?thesis by blast
    qed
  qed
  then show ?thesis using that by blast
qed

lemma and_pred_zero_pow2:
  fixes c :: "'a::len word"
  assumes "c \<noteq> 0" and "c AND (c - 1) = 0"
  shows "pow2 c"
proof -
  have pos: "0 < unat c" using assms(1) by (simp add: unat_gt_0)
  then obtain k where k: "2 ^ k \<le> unat c" "unat c < 2 ^ Suc k"
    by (rule highest_bit_nat)
  have kl: "k < LENGTH('a)"
  proof (rule ccontr)
    assume "\<not> ?thesis"
    then have "(2::nat) ^ LENGTH('a) \<le> 2 ^ k" by simp
    with k(1) show False using unsigned_less [of c, where 'a = nat] by simp
  qed
  have pred: "unat (c - 1) = unat c - 1"
    using assms(1) by (simp add: unat_minus_one)
  have "unat c = 2 ^ k"
  proof (rule ccontr)
    assume "unat c \<noteq> 2 ^ k"
    with k(1) have "2 ^ k \<le> unat c - 1" by simp
    with k have "unat c div 2 ^ k = 1" "(unat c - 1) div 2 ^ k = 1"
      by (simp_all add: div_nat_eqI)
    then have "bit (unat c) k" "bit (unat (c - 1)) k"
      by (simp_all add: bit_iff_odd pred)
    then have "bit (unat (c AND (c - 1))) k"
      by (simp add: unsigned_and_eq bit_and_iff)
    with assms(2) show False by simp
  qed
  then have "c = 2 ^ k"
    using kl by (intro word_unat_eq_iff [THEN iffD2]) (simp add: unat_power_two)
  with kl show ?thesis by (auto simp: pow2_def)
qed

lemma pow2_and_pred: "pow2 c \<Longrightarrow> c AND (c - 1) = 0"
  using unat_and_mask [of c c] by (simp add: unat_eq_0)

subsection \<open>The live slice of a circular array\<close>

text \<open>
  \<open>ring_slice buf h n\<close> lists the \<open>n\<close> cells from index \<open>h\<close> on, wrapping at the
  end of \<open>buf\<close>.
\<close>

definition ring_slice :: "'a list \<Rightarrow> nat \<Rightarrow> nat \<Rightarrow> 'a list" where
  "ring_slice buf h n = map (\<lambda>i. buf ! ((h + i) mod length buf)) [0..<n]"

lemma length_ring_slice [simp]: "length (ring_slice buf h n) = n"
  by (simp add: ring_slice_def)

lemma ring_slice_0 [simp]: "ring_slice buf h 0 = []"
  by (simp add: ring_slice_def)

lemma ring_slice_nth: "i < n \<Longrightarrow> ring_slice buf h n ! i = buf ! ((h + i) mod length buf)"
  by (simp add: ring_slice_def)

lemma ring_slice_Suc: "ring_slice buf h (Suc n) = buf ! (h mod length buf) # ring_slice buf (Suc h) n"
  by (rule nth_equalityI) (auto simp: ring_slice_nth nth_Cons split: nat.split)

lemma ring_slice_mod [ring_simps]: "ring_slice buf (h mod length buf) n = ring_slice buf h n"
  by (rule nth_equalityI) (auto simp: ring_slice_nth mod_add_left_eq)

lemma ring_mod_eq_iff:
  fixes L :: nat
  assumes "i \<le> j" "j < i + L" "(h + i) mod L = (h + j) mod L"
  shows "i = j"
proof -
  have "L dvd (h + j) - (h + i)"
    using assms(3) mod_eq_dvd_iff_nat [of "h + i" "h + j" L] assms(1) by simp
  then have "L dvd j - i" by simp
  with assms(1,2) show ?thesis
    by (metis add.commute diff_is_0_eq dvd_imp_le le_antisym less_diff_conv2 linorder_not_less
        zero_less_diff)
qed

lemma ring_mod_inj:
  fixes L :: nat
  assumes "i < L" "j < L"
  shows "(h + i) mod L = (h + j) mod L \<longleftrightarrow> i = j"
  using ring_mod_eq_iff [of i j L h] ring_mod_eq_iff [of j i L h] assms
  by (cases "i \<le> j") auto

lemma map_ring_slice: "buf \<noteq> [] \<Longrightarrow> map f (ring_slice buf h n) = ring_slice (map f buf) h n"
  by (rule nth_equalityI) (auto simp: ring_slice_nth)

lemma ring_slice_append:
  assumes "n < length buf"
  shows "ring_slice (buf[(h + n) mod length buf := x]) h (Suc n) = ring_slice buf h n @ [x]"
proof (rule nth_equalityI)
  fix i assume i: "i < length (ring_slice (buf[(h + n) mod length buf := x]) h (Suc n))"
  show "ring_slice (buf[(h + n) mod length buf := x]) h (Suc n) ! i = (ring_slice buf h n @ [x]) ! i"
  proof (cases "i = n")
    case True
    have "(h + n) mod length buf < length buf"
      using assms by (intro mod_less_divisor) linarith
    then show ?thesis using True by (simp add: ring_slice_nth nth_append)
  next
    case False
    with i have "i < n" by simp
    with assms have "(h + i) mod length buf \<noteq> (h + n) mod length buf"
      using ring_mod_eq_iff [of i n "length buf" h] by auto
    with \<open>i < n\<close> show ?thesis by (simp add: ring_slice_nth nth_append)
  qed
qed simp

lemma ring_slice_split:
  assumes "h < length buf" "n \<le> length buf"
  shows "ring_slice buf h n = take n (drop h buf) @ take (n - (length buf - h)) buf"
proof (rule nth_equalityI)
  fix i assume "i < length (ring_slice buf h n)"
  then have i: "i < n" by simp
  have "(h + i) mod length buf = (if h + i < length buf then h + i else h + i - length buf)"
    using assms i by (simp add: le_mod_geq)
  with i assms show "ring_slice buf h n ! i = (take n (drop h buf) @ take (n - (length buf - h)) buf) ! i"
    by (auto simp: ring_slice_nth nth_append add.commute)
qed (use assms in auto)

lemma ring_slice_drop: "drop m (ring_slice buf h n) = ring_slice buf (h + m) (n - m)"
  by (rule nth_equalityI) (auto simp: ring_slice_nth ac_simps)

text \<open>Distances on the ring: how far \<open>t\<close> is ahead of \<open>h\<close> modulo \<open>L\<close>.\<close>

definition ring_dist :: "nat \<Rightarrow> nat \<Rightarrow> nat \<Rightarrow> nat" where
  "ring_dist L h t = (t + L - h) mod L"

lemma ring_dist_less: "0 < L \<Longrightarrow> ring_dist L h t < L"
  by (simp add: ring_dist_def)

lemma ring_dist_cases:
  assumes "h < L" "t < L"
  shows "ring_dist L h t = (if h \<le> t then t - h else t + L - h)"
proof (cases "h \<le> t")
  case True
  then have "t + L - h = L + (t - h)" by simp
  then have "ring_dist L h t = (t - h) mod L" by (simp add: ring_dist_def)
  with True assms show ?thesis by simp
next
  case False
  with assms show ?thesis by (simp add: ring_dist_def)
qed

lemma ring_dist_0: "h < L \<Longrightarrow> t < L \<Longrightarrow> ring_dist L h t = 0 \<longleftrightarrow> h = t"
  by (auto simp: ring_dist_cases)

lemma Suc_mod_cases: "t < L \<Longrightarrow> Suc t mod L = (if Suc t = L then 0 else Suc t)"
  by auto

lemma ring_dist_step:
  assumes "h < L" "t < L"
  shows "(t + 1) mod L = h \<longleftrightarrow> Suc (ring_dist L h t) = L"
    and "(t + 1) mod L \<noteq> h \<Longrightarrow> ring_dist L h ((t + 1) mod L) = Suc (ring_dist L h t)"
    and "(h + ring_dist L h t) mod L = t"
proof -
  have m: "(t + 1) mod L < L" using assms by simp
  show "(t + 1) mod L = h \<longleftrightarrow> Suc (ring_dist L h t) = L"
    using assms by (auto simp: ring_dist_cases Suc_mod_cases)
  show "(t + 1) mod L \<noteq> h \<Longrightarrow> ring_dist L h ((t + 1) mod L) = Suc (ring_dist L h t)"
    unfolding ring_dist_cases [OF assms] ring_dist_cases [OF assms(1) m]
    using assms by (auto simp: Suc_mod_cases split: if_splits)
  show "(h + ring_dist L h t) mod L = t"
    using assms by (auto simp: ring_dist_cases)
qed

lemma ring_dist_advance:
  assumes "h < L" "t < L" "h \<noteq> t"
  shows "Suc (ring_dist L ((h + 1) mod L) t) = ring_dist L h t"
proof -
  have m: "(h + 1) mod L < L" using assms by simp
  show ?thesis
    unfolding ring_dist_cases [OF assms(1,2)] ring_dist_cases [OF m assms(2)]
    using assms by (auto simp: Suc_mod_cases split: if_splits)
qed

subsection \<open>Elements of related lists\<close>

lemma list_all2_right: "list_all2 P xs ys \<Longrightarrow> y \<in> set ys \<Longrightarrow> \<exists>x \<in> set xs. P x y"
  by (induction rule: list_all2_induct) auto

lemma list_all2_left: "list_all2 P xs ys \<Longrightarrow> x \<in> set xs \<Longrightarrow> \<exists>y \<in> set ys. P x y"
  by (induction rule: list_all2_induct) auto

subsection \<open>Sums over a list with one entry changed\<close>

text \<open>\<open>drop_at i xs\<close> is \<open>xs\<close> without its entry \<open>i\<close>.\<close>

definition drop_at :: "nat \<Rightarrow> 'b list \<Rightarrow> 'b list" where
  "drop_at i xs = take i xs @ drop (Suc i) xs"

lemma sum_list_drop_at:
  fixes w :: "'b \<Rightarrow> 'm::comm_monoid_add"
  assumes "i < length xs" shows "sum_list (map w (drop_at i xs)) + w (xs ! i) = sum_list (map w xs)"
proof -
  have "xs = take i xs @ xs ! i # drop (Suc i) xs" using assms by (rule id_take_nth_drop)
  then have "sum_list (map w xs) = sum_list (map w (take i xs @ xs ! i # drop (Suc i) xs))" by simp
  then show ?thesis by (simp add: drop_at_def ac_simps)
qed

lemma sum_list_update_at:
  fixes w :: "'b \<Rightarrow> 'm::comm_monoid_add"
  assumes "i < length xs" shows "sum_list (map w (xs[i := y])) + w (xs ! i) = sum_list (map w xs) + w y"
proof -
  have "xs = take i xs @ xs ! i # drop (Suc i) xs" using assms by (rule id_take_nth_drop)
  then have "sum_list (map w xs) = sum_list (map w (take i xs @ xs ! i # drop (Suc i) xs))" by simp
  then show ?thesis using assms by (simp add: upd_conv_take_nth_drop ac_simps)
qed

end
