(* ===== verification/Bounded_Fifo.thy ===== *)
theory Bounded_Fifo
  imports Prelude
begin

section \<open>The bounded FIFO contract\<close>

text \<open>
  Every queue of \<^verbatim>\<open>src/pump/core\<close> offers \<^verbatim>\<open>try_enqueue\<close> and \<^verbatim>\<open>try_dequeue\<close>: an
  enqueue that reports whether it stored the item, and a dequeue that returns
  an item or nothing. The locale \<open>bounded_fifo\<close> states what a client may rely
  on; the provider theories interpret it on their own models. The clients'
  lemmas (whole operation sequences behave as the abstract list, the drain
  loop empties the queue in order) are proved here once.
\<close>

datatype 'a qop = Enq 'a | Deq
datatype 'a qres = Enq_Res bool | Deq_Res "'a option"

text \<open>The abstract queue: a list that holds at most \<open>cap\<close> items.\<close>

fun fifo_spec :: "nat \<Rightarrow> 'a list \<Rightarrow> 'a qop \<Rightarrow> 'a qres \<times> 'a list" where
  "fifo_spec cap xs (Enq x) =
     (if length xs < cap then (Enq_Res True, xs @ [x]) else (Enq_Res False, xs))"
| "fifo_spec cap [] Deq = (Deq_Res None, [])"
| "fifo_spec cap (x # xs) Deq = (Deq_Res (Some x), xs)"

fun queue_step ::
  "('a \<Rightarrow> 'q \<Rightarrow> bool \<times> 'q) \<Rightarrow> ('q \<Rightarrow> 'a option \<times> 'q) \<Rightarrow> 'q \<Rightarrow> 'a qop \<Rightarrow> 'a qres \<times> 'q" where
  "queue_step enq deq q (Enq x) = (let (ok, q') = enq x q in (Enq_Res ok, q'))"
| "queue_step enq deq q Deq = (let (r, q') = deq q in (Deq_Res r, q'))"

fun run_ops :: "('s \<Rightarrow> 'o \<Rightarrow> 'r \<times> 's) \<Rightarrow> 's \<Rightarrow> 'o list \<Rightarrow> 'r list \<times> 's" where
  "run_ops step s [] = ([], s)"
| "run_ops step s (x # xs) =
     (let (r, s') = step s x; (rs, s'') = run_ops step s' xs in (r # rs, s''))"

text \<open>
  The loop \<^verbatim>\<open>while (q.try_dequeue(item)) handler(item)\<close>: it yields the items in
  the order the handler sees them. The first argument bounds the iterations;
  \<open>drain_all\<close> below shows that one more than the length is enough.
\<close>

fun drain_loop :: "nat \<Rightarrow> ('q \<Rightarrow> 'a option \<times> 'q) \<Rightarrow> 'q \<Rightarrow> 'a list \<times> 'q" where
  "drain_loop 0 deq q = ([], q)"
| "drain_loop (Suc n) deq q =
     (case deq q of
        (None, q') \<Rightarrow> ([], q')
      | (Some x, q') \<Rightarrow> (let (xs, q'') = drain_loop n deq q' in (x # xs, q'')))"

locale bounded_fifo =
  fixes contents :: "'q \<Rightarrow> 'a list"
    and capacity :: "'q \<Rightarrow> nat"
    and invar :: "'q \<Rightarrow> bool"
    and enq :: "'a \<Rightarrow> 'q \<Rightarrow> bool \<times> 'q"
    and deq :: "'q \<Rightarrow> 'a option \<times> 'q"
  assumes enq_room: "invar q \<Longrightarrow> length (contents q) < capacity q \<Longrightarrow>
      \<exists>q'. enq x q = (True, q') \<and> invar q' \<and> contents q' = contents q @ [x] \<and> capacity q' = capacity q"
    and enq_full: "invar q \<Longrightarrow> \<not> length (contents q) < capacity q \<Longrightarrow>
      \<exists>q'. enq x q = (False, q') \<and> invar q' \<and> contents q' = contents q \<and> capacity q' = capacity q"
    and deq_none: "invar q \<Longrightarrow> contents q = [] \<Longrightarrow>
      \<exists>q'. deq q = (None, q') \<and> invar q' \<and> contents q' = [] \<and> capacity q' = capacity q"
    and deq_some: "invar q \<Longrightarrow> contents q = x # xs \<Longrightarrow>
      \<exists>q'. deq q = (Some x, q') \<and> invar q' \<and> contents q' = xs \<and> capacity q' = capacity q"
begin

lemma step_refines:
  assumes "invar q"
  shows "\<exists>q'. queue_step enq deq q op = (fst (fifo_spec (capacity q) (contents q) op), q')
     \<and> invar q' \<and> contents q' = snd (fifo_spec (capacity q) (contents q) op)
     \<and> capacity q' = capacity q"
proof (cases op)
  case (Enq x)
  then show ?thesis
    using enq_room [OF assms, of x] enq_full [OF assms, of x] by auto
next
  case Deq
  then show ?thesis
    using deq_none [OF assms] deq_some [OF assms]
    by (cases "contents q") auto
qed

lemma run_refines:
  assumes "invar q"
  shows "\<exists>q'. run_ops (queue_step enq deq) q ops
        = (fst (run_ops (fifo_spec (capacity q)) (contents q) ops), q')
     \<and> invar q' \<and> contents q' = snd (run_ops (fifo_spec (capacity q)) (contents q) ops)
     \<and> capacity q' = capacity q"
  using assms
proof (induction ops arbitrary: q)
  case Nil
  then show ?case by auto
next
  case (Cons op ops)
  from step_refines [OF Cons.prems, of op] obtain q1 where q1:
    "queue_step enq deq q op = (fst (fifo_spec (capacity q) (contents q) op), q1)"
    "invar q1" "contents q1 = snd (fifo_spec (capacity q) (contents q) op)"
    "capacity q1 = capacity q" by blast
  from Cons.IH [OF q1(2)] q1 show ?case
    by (auto simp: split_def Let_def)
qed

lemma drain_all:
  assumes "invar q" "length (contents q) < n"
  shows "\<exists>q'. drain_loop n deq q = (contents q, q') \<and> invar q' \<and> contents q' = []
     \<and> capacity q' = capacity q"
  using assms
proof (induction n arbitrary: q)
  case 0
  then show ?case by simp
next
  case (Suc n)
  show ?case
  proof (cases "contents q")
    case Nil
    with deq_none [OF Suc.prems(1)] show ?thesis by auto
  next
    case (Cons x xs)
    from deq_some [OF Suc.prems(1) Cons] obtain q1 where q1: "deq q = (Some x, q1)"
      "invar q1" "contents q1 = xs" "capacity q1 = capacity q" by blast
    from Suc.IH [OF q1(2)] q1 Suc.prems(2) Cons show ?thesis by auto
  qed
qed

lemma contents_bound_step:
  assumes "invar q" "length (contents q) \<le> capacity q"
  shows "length (contents (snd (queue_step enq deq q op))) \<le> capacity q"
proof -
  have "length (snd (fifo_spec cap xs op)) \<le> cap" if "length xs \<le> cap" for cap and xs :: "'a list"
    using that by (cases "(cap, xs, op)" rule: fifo_spec.cases) auto
  with step_refines [OF assms(1), of op] assms(2) show ?thesis by auto
qed

end

end
