(* ===== verification/Local_Queue.thy ===== *)
theory Local_Queue
  imports Bounded_Fifo
begin

section \<open>local::queue, the single-thread ring buffer\<close>

text \<open>
  \<^verbatim>\<open>src/pump/core/lock_free_queue.hh\<close>, namespace \<open>local\<close>: a ring buffer of
  \<open>capacity_\<close> cells whose indices are masked \<^verbatim>\<open>size_t\<close> values; one cell stays
  free, so it stores at most \<open>capacity_ - 1\<close> items. Cells keep their old value
  after a dequeue (the moved-from value of the code is never read).
\<close>

record 'a lqueue =
  lq_capacity :: u64
  lq_mask :: u64
  lq_head :: u64
  lq_tail :: u64
  lq_buffer :: "'a list"

text \<open>The constructor; \<open>None\<close> is the \<^verbatim>\<open>abort()\<close> of the power-of-two check, \<open>d\<close> is \<^verbatim>\<open>T{}\<close>.\<close>

definition lq_new :: "'a \<Rightarrow> u64 \<Rightarrow> 'a lqueue option" where
  "lq_new d cap =
     (if cap AND (cap - 1) \<noteq> 0 then None
      else Some \<lparr>lq_capacity = cap, lq_mask = cap - 1, lq_head = 0, lq_tail = 0,
                 lq_buffer = replicate (unat cap) d\<rparr>)"

definition lq_try_enqueue :: "'a \<Rightarrow> 'a lqueue \<Rightarrow> bool \<times> 'a lqueue" where
  "lq_try_enqueue x q =
     (let next = (lq_tail q + 1) AND lq_mask q in
      if next = lq_head q then (False, q)
      else (True, q\<lparr>lq_buffer := (lq_buffer q)[unat (lq_tail q) := x], lq_tail := next\<rparr>))"

definition lq_try_dequeue :: "'a lqueue \<Rightarrow> 'a option \<times> 'a lqueue" where
  "lq_try_dequeue q =
     (if lq_head q = lq_tail q then (None, q)
      else (Some (lq_buffer q ! unat (lq_head q)),
            q\<lparr>lq_head := (lq_head q + 1) AND lq_mask q\<rparr>))"

definition lq_empty :: "'a lqueue \<Rightarrow> bool" where
  "lq_empty q \<longleftrightarrow> lq_head q = lq_tail q"

definition lq_full :: "'a lqueue \<Rightarrow> bool" where
  "lq_full q \<longleftrightarrow> (lq_tail q + 1) AND lq_mask q = lq_head q"

definition lq_size :: "'a lqueue \<Rightarrow> u64" where
  "lq_size q = (lq_tail q + lq_capacity q - lq_head q) AND lq_mask q"

subsection \<open>Invariant and abstraction\<close>

definition lq_inv :: "'a lqueue \<Rightarrow> bool" where
  "lq_inv q \<longleftrightarrow> pow2 (lq_capacity q) \<and> lq_mask q = lq_capacity q - 1
     \<and> length (lq_buffer q) = unat (lq_capacity q)
     \<and> unat (lq_head q) < unat (lq_capacity q) \<and> unat (lq_tail q) < unat (lq_capacity q)"

definition lq_count :: "'a lqueue \<Rightarrow> nat" where
  "lq_count q = ring_dist (unat (lq_capacity q)) (unat (lq_head q)) (unat (lq_tail q))"

definition lq_contents :: "'a lqueue \<Rightarrow> 'a list" where
  "lq_contents q = ring_slice (lq_buffer q) (unat (lq_head q)) (lq_count q)"

definition lq_room :: "'a lqueue \<Rightarrow> nat" where
  "lq_room q = unat (lq_capacity q) - 1"

lemma lq_inv_next:
  assumes "lq_inv q"
  shows "unat ((x + 1) AND lq_mask q) = Suc (unat x) mod unat (lq_capacity q)"
  using assms unat_add_and_mask [of "lq_capacity q" x 1]
  by (simp add: lq_inv_def)

lemma lq_enqueue_room:
  assumes inv: "lq_inv q" and room: "length (lq_contents q) < lq_room q"
  shows "\<exists>q'. lq_try_enqueue x q = (True, q') \<and> lq_inv q' \<and> lq_contents q' = lq_contents q @ [x]
    \<and> lq_room q' = lq_room q"
proof -
  let ?L = "unat (lq_capacity q)" and ?h = "unat (lq_head q)" and ?t = "unat (lq_tail q)"
  from inv have ht: "?h < ?L" "?t < ?L" and len: "length (lq_buffer q) = ?L"
    by (auto simp: lq_inv_def)
  have ne: "(?t + 1) mod ?L \<noteq> ?h"
    using room ring_dist_step(1) [OF ht] by (auto simp: lq_contents_def lq_room_def lq_count_def)
  then have "(lq_tail q + 1) AND lq_mask q \<noteq> lq_head q"
    using lq_inv_next [OF inv, of "lq_tail q"] by auto
  moreover have "ring_slice ((lq_buffer q)[?t := x]) ?h (Suc (lq_count q))
      = ring_slice (lq_buffer q) ?h (lq_count q) @ [x]"
    using ring_slice_append [of "lq_count q" "lq_buffer q" ?h x] ring_dist_step(3) [OF ht]
      room len by (simp add: lq_count_def lq_contents_def lq_room_def)
  ultimately show ?thesis
    using inv ring_dist_step(2) [OF ht ne] lq_inv_next [OF inv, of "lq_tail q"] ht
    by (auto simp: lq_try_enqueue_def Let_def lq_inv_def lq_contents_def lq_count_def lq_room_def)
qed

lemma lq_enqueue_full:
  assumes inv: "lq_inv q" and full: "\<not> length (lq_contents q) < lq_room q"
  shows "\<exists>q'. lq_try_enqueue x q = (False, q') \<and> lq_inv q' \<and> lq_contents q' = lq_contents q
    \<and> lq_room q' = lq_room q"
proof -
  let ?L = "unat (lq_capacity q)" and ?h = "unat (lq_head q)" and ?t = "unat (lq_tail q)"
  from inv have ht: "?h < ?L" "?t < ?L" by (auto simp: lq_inv_def)
  have "Suc (ring_dist ?L ?h ?t) = ?L"
    using full ring_dist_less [of ?L ?h ?t] ht by (simp add: lq_contents_def lq_room_def lq_count_def)
  then have "(?t + 1) mod ?L = ?h" using ring_dist_step(1) [OF ht] by simp
  then have "(lq_tail q + 1) AND lq_mask q = lq_head q"
    using lq_inv_next [OF inv, of "lq_tail q"] by (simp add: word_unat_eq_iff)
  with inv show ?thesis by (simp add: lq_try_enqueue_def)
qed

lemma lq_contents_Nil_iff: "lq_inv q \<Longrightarrow> lq_contents q = [] \<longleftrightarrow> lq_head q = lq_tail q"
  using ring_dist_0 [of "unat (lq_head q)" "unat (lq_capacity q)" "unat (lq_tail q)"]
  by (auto simp: lq_inv_def word_unat_eq_iff lq_contents_def lq_count_def
      simp flip: length_0_conv)

lemma lq_dequeue_none:
  "lq_inv q \<Longrightarrow> lq_contents q = [] \<Longrightarrow>
    \<exists>q'. lq_try_dequeue q = (None, q') \<and> lq_inv q' \<and> lq_contents q' = [] \<and> lq_room q' = lq_room q"
  by (simp add: lq_contents_Nil_iff lq_try_dequeue_def)

lemma lq_dequeue_some:
  assumes inv: "lq_inv q" and c: "lq_contents q = x # xs"
  shows "\<exists>q'. lq_try_dequeue q = (Some x, q') \<and> lq_inv q' \<and> lq_contents q' = xs
    \<and> lq_room q' = lq_room q"
proof -
  let ?L = "unat (lq_capacity q)" and ?h = "unat (lq_head q)" and ?t = "unat (lq_tail q)"
  from inv have ht: "?h < ?L" "?t < ?L" and len: "length (lq_buffer q) = ?L"
    by (auto simp: lq_inv_def)
  have ne: "lq_head q \<noteq> lq_tail q" using lq_contents_Nil_iff [OF inv] c by auto
  then have d: "Suc (ring_dist ?L (Suc ?h mod ?L) ?t) = ring_dist ?L ?h ?t"
    using ring_dist_advance [OF ht] by (simp add: word_unat_eq_iff)
  then have "lq_contents q = lq_buffer q ! ?h # ring_slice (lq_buffer q) (Suc ?h mod ?L) (ring_dist ?L (Suc ?h mod ?L) ?t)"
    using ring_slice_Suc [of "lq_buffer q" ?h "ring_dist ?L (Suc ?h mod ?L) ?t"]
      ring_slice_mod [of "lq_buffer q" "Suc ?h"] len ht
    by (simp add: lq_contents_def lq_count_def)
  with c ne inv ht show ?thesis
    using lq_inv_next [OF inv, of "lq_head q"]
    by (auto simp: lq_try_dequeue_def lq_inv_def lq_contents_def lq_count_def lq_room_def)
qed

interpretation lq: bounded_fifo lq_contents lq_room lq_inv lq_try_enqueue lq_try_dequeue
  by unfold_locales (fact lq_enqueue_room lq_enqueue_full lq_dequeue_none lq_dequeue_some)+

lemma lq_new_inv: "lq_new d cap = Some q \<Longrightarrow> cap \<noteq> 0 \<Longrightarrow>
    lq_inv q \<and> lq_contents q = [] \<and> lq_room q = unat cap - 1"
  using and_pred_zero_pow2 [of cap] pow2_pos [of cap]
  by (auto simp: lq_new_def lq_inv_def lq_contents_def lq_count_def lq_room_def ring_dist_def
      split: if_splits)

text \<open>The observers agree with the contents.\<close>

lemma lq_size_contents: "lq_inv q \<Longrightarrow> unat (lq_size q) = length (lq_contents q)"
proof -
  assume inv: "lq_inv q"
  let ?L = "unat (lq_capacity q)" and ?h = "unat (lq_head q)" and ?t = "unat (lq_tail q)"
  from inv have ht: "?h < ?L" "?t < ?L" "pow2 (lq_capacity q)" by (auto simp: lq_inv_def)
  have "unat (lq_capacity q - lq_head q) = ?L - ?h"
    using ht(1) by (intro unat_sub) (simp add: word_le_nat_alt)
  moreover have m: "lq_mask q = lq_capacity q - 1" using inv by (simp add: lq_inv_def)
  have "lq_size q = (lq_tail q + (lq_capacity q - lq_head q)) AND (lq_capacity q - 1)"
    unfolding lq_size_def m by (simp add: algebra_simps)
  ultimately show ?thesis
    using unat_add_and_mask [OF ht(3)] ht(1)
    by (simp add: lq_contents_def lq_count_def ring_dist_def)
qed

lemma lq_full_contents: "lq_inv q \<Longrightarrow> lq_full q \<longleftrightarrow> length (lq_contents q) = lq_room q"
proof -
  assume inv: "lq_inv q"
  then have ht: "unat (lq_head q) < unat (lq_capacity q)" "unat (lq_tail q) < unat (lq_capacity q)"
    by (auto simp: lq_inv_def)
  show ?thesis
    using ring_dist_step(1) [OF ht] lq_inv_next [OF inv, of "lq_tail q"] ht
    by (auto simp: lq_full_def lq_contents_def lq_room_def lq_count_def word_unat_eq_iff)
qed

subsection \<open>The queue as its clients see it\<close>

text \<open>
  A \<open>local::queue\<close> built with a non-zero power-of-two capacity behaves, under
  every sequence of enqueues and dequeues, exactly as a FIFO list bounded by
  \<open>capacity - 1\<close>: same results, and \<open>size\<close>, \<open>empty\<close> and \<open>full\<close> report the
  list's length, emptiness and fullness afterwards.
\<close>

theorem local_queue_is_fifo:
  assumes "lq_new d cap = Some q0" "cap \<noteq> 0"
    and "run_ops (queue_step lq_try_enqueue lq_try_dequeue) q0 ops = (rs, q)"
    and "run_ops (fifo_spec (unat cap - 1)) [] ops = (rs', xs)"
  shows "rs = rs' \<and> unat (lq_size q) = length xs \<and> lq_empty q = (xs = [])
     \<and> lq_full q = (length xs = unat cap - 1)"
proof -
  have new: "lq_inv q0" "lq_contents q0 = []" "lq_room q0 = unat cap - 1"
    using lq_new_inv [OF assms(1,2)] by auto
  from lq.run_refines [OF new(1), of ops] have "rs = rs'" "lq_inv q" "lq_contents q = xs" "lq_room q = unat cap - 1"
    using assms(3,4) by (auto simp: new)
  then show ?thesis
    using lq_size_contents [of q] lq_full_contents [of q] lq_contents_Nil_iff [of q]
    by (auto simp: lq_empty_def)
qed

lemma local_queue_is_fifo_witness:
  "fst (run_ops (queue_step lq_try_enqueue lq_try_dequeue) (the (lq_new (0::nat) 2)) [Enq 5, Enq 6, Deq, Deq])
     = [Enq_Res True, Enq_Res False, Deq_Res (Some 5), Deq_Res None]"
  using local_queue_is_fifo [where d = "0::nat" and cap = 2 and ops = "[Enq 5, Enq 6, Deq, Deq]",
      OF _ _ prod.collapse [symmetric] prod.collapse [symmetric]]
  by (simp add: lq_new_def)

end
