(* ===== verification/Ring_Queue.thy ===== *)
theory Ring_Queue
  imports Bounded_Fifo
begin

section \<open>core::ring_queue, the counted ring\<close>

text \<open>
  \<^verbatim>\<open>src/pump/core/ring_queue.hh\<close>: a ring with an explicit element count, used by
  the NVMe scheduler for its local request queues. Any capacity is allowed and
  all cells are usable. The indices are \<^verbatim>\<open>size_t\<close> and advance modulo the capacity.
\<close>

record 'a ring_queue =
  rq_buffer :: "'a list"
  rq_capacity :: u64
  rq_head :: u64
  rq_tail :: u64
  rq_size :: u64

definition rq_new :: "'a \<Rightarrow> u64 \<Rightarrow> 'a ring_queue" where
  "rq_new d cap = \<lparr>rq_buffer = replicate (unat cap) d, rq_capacity = cap,
     rq_head = 0, rq_tail = 0, rq_size = 0\<rparr>"

definition rq_enqueue :: "'a \<Rightarrow> 'a ring_queue \<Rightarrow> bool \<times> 'a ring_queue" where
  "rq_enqueue x q =
     (if rq_capacity q \<le> rq_size q then (False, q)
      else (True, q\<lparr>rq_buffer := (rq_buffer q)[unat (rq_tail q) := x],
                    rq_tail := (rq_tail q + 1) mod rq_capacity q,
                    rq_size := rq_size q + 1\<rparr>))"

definition rq_dequeue :: "'a ring_queue \<Rightarrow> 'a option \<times> 'a ring_queue" where
  "rq_dequeue q =
     (if rq_size q = 0 then (None, q)
      else (Some (rq_buffer q ! unat (rq_head q)),
            q\<lparr>rq_head := (rq_head q + 1) mod rq_capacity q, rq_size := rq_size q - 1\<rparr>))"

definition rq_empty :: "'a ring_queue \<Rightarrow> bool" where
  "rq_empty q \<longleftrightarrow> rq_size q = 0"

text \<open>
  Access to the cells: \<open>front\<close> does not look at the count, \<open>tail_buffer\<close> points at the
  cell of the tail, \<open>tail_offset\<close> moves the tail. \<open>None\<close> is an access outside of the
  buffer or a division by the capacity 0.
\<close>

definition rq_front :: "'a ring_queue \<Rightarrow> 'a option" where
  "rq_front q = (if unat (rq_head q) < length (rq_buffer q) then Some (rq_buffer q ! unat (rq_head q)) else None)"

definition rq_tail_buffer :: "'a ring_queue \<Rightarrow> u64" where
  "rq_tail_buffer q = rq_tail q"

definition rq_tail_offset :: "u64 \<Rightarrow> 'a ring_queue \<Rightarrow> 'a ring_queue option" where
  "rq_tail_offset n q = (if rq_capacity q = 0 then None else Some (q\<lparr>rq_tail := (rq_tail q + n) mod rq_capacity q\<rparr>))"

subsection \<open>Invariant and abstraction\<close>

definition rq_inv :: "'a ring_queue \<Rightarrow> bool" where
  "rq_inv q \<longleftrightarrow> length (rq_buffer q) = unat (rq_capacity q)
     \<and> rq_size q \<le> rq_capacity q
     \<and> (rq_capacity q \<noteq> 0 \<longrightarrow> unat (rq_head q) < unat (rq_capacity q)
          \<and> unat (rq_tail q) = (unat (rq_head q) + unat (rq_size q)) mod unat (rq_capacity q))"

definition rq_contents :: "'a ring_queue \<Rightarrow> 'a list" where
  "rq_contents q = ring_slice (rq_buffer q) (unat (rq_head q)) (unat (rq_size q))"

definition rq_room :: "'a ring_queue \<Rightarrow> nat" where
  "rq_room q = unat (rq_capacity q)"

lemma unat_Suc_mod:
  "unat x < unat (c :: u64) \<Longrightarrow> unat ((x + 1) mod c) = Suc (unat x) mod unat c"
  using unsigned_less [of c, where 'a = nat]
  by (simp add: unat_mod unat_word_ariths)

lemma rq_enqueue_room:
  assumes inv: "rq_inv q" and room: "length (rq_contents q) < rq_room q"
  shows "\<exists>q'. rq_enqueue x q = (True, q') \<and> rq_inv q' \<and> rq_contents q' = rq_contents q @ [x]
    \<and> rq_room q' = rq_room q"
proof -
  let ?L = "unat (rq_capacity q)" and ?n = "unat (rq_size q)" and ?h = "unat (rq_head q)"
  have n: "?n < ?L" using room by (simp add: rq_contents_def rq_room_def)
  then have c: "rq_capacity q \<noteq> 0" "\<not> rq_capacity q \<le> rq_size q"
    by (auto simp: word_le_nat_alt)
  with inv have t: "unat (rq_tail q) = (?h + ?n) mod ?L" "?h < ?L" "length (rq_buffer q) = ?L"
    by (auto simp: rq_inv_def)
  have sz: "unat (rq_size q + 1) = Suc ?n"
    using n unsigned_less [of "rq_capacity q", where 'a = nat] by (simp add: unat_word_ariths)
  have "unat ((rq_tail q + 1) mod rq_capacity q) = (?h + Suc ?n) mod ?L"
    using t n unat_Suc_mod [of "rq_tail q" "rq_capacity q"] by (simp add: mod_Suc_eq)
  moreover have "ring_slice ((rq_buffer q)[unat (rq_tail q) := x]) ?h (Suc ?n) = rq_contents q @ [x]"
    using ring_slice_append [of ?n "rq_buffer q" ?h x] t n by (simp add: rq_contents_def)
  ultimately show ?thesis
    using c n sz t by (auto simp: rq_enqueue_def rq_inv_def rq_contents_def rq_room_def word_le_nat_alt)
qed

lemma rq_enqueue_full:
  "rq_inv q \<Longrightarrow> \<not> length (rq_contents q) < rq_room q \<Longrightarrow>
    \<exists>q'. rq_enqueue x q = (False, q') \<and> rq_inv q' \<and> rq_contents q' = rq_contents q
      \<and> rq_room q' = rq_room q"
  by (simp add: rq_enqueue_def rq_contents_def rq_room_def word_le_nat_alt)

lemma rq_dequeue_none:
  "rq_inv q \<Longrightarrow> rq_contents q = [] \<Longrightarrow>
    \<exists>q'. rq_dequeue q = (None, q') \<and> rq_inv q' \<and> rq_contents q' = [] \<and> rq_room q' = rq_room q"
  by (simp add: rq_dequeue_def rq_contents_def ring_slice_def unat_eq_0)

lemma rq_dequeue_some:
  assumes inv: "rq_inv q" and c: "rq_contents q = x # xs"
  shows "\<exists>q'. rq_dequeue q = (Some x, q') \<and> rq_inv q' \<and> rq_contents q' = xs
    \<and> rq_room q' = rq_room q"
proof -
  let ?L = "unat (rq_capacity q)" and ?h = "unat (rq_head q)"
  obtain n where n: "unat (rq_size q) = Suc n"
    using c by (cases "unat (rq_size q)") (auto simp: rq_contents_def)
  have le: "unat (rq_size q) \<le> ?L" using inv by (simp add: rq_inv_def word_le_nat_alt)
  have nz: "rq_size q \<noteq> 0" "rq_capacity q \<noteq> 0" using n le by auto
  with inv have t: "unat (rq_tail q) = (?h + unat (rq_size q)) mod ?L" "?h < ?L"
    "length (rq_buffer q) = ?L" by (auto simp: rq_inv_def)
  have sz: "unat (rq_size q - 1) = n" using nz n by (simp add: unat_minus_one)
  have h: "unat ((rq_head q + 1) mod rq_capacity q) = Suc ?h mod ?L"
    using t by (simp add: unat_Suc_mod)
  have "rq_contents q = rq_buffer q ! ?h # ring_slice (rq_buffer q) (Suc ?h mod ?L) n"
    using ring_slice_Suc [of "rq_buffer q" ?h n] ring_slice_mod [of "rq_buffer q" "Suc ?h"] t n
    by (simp add: rq_contents_def)
  moreover have "(Suc ?h mod ?L + n) mod ?L = (?h + unat (rq_size q)) mod ?L"
    by (simp add: n mod_add_left_eq)
  ultimately show ?thesis
    using c nz sz h t le n
    by (auto simp: rq_dequeue_def rq_inv_def rq_contents_def rq_room_def word_le_nat_alt)
qed

interpretation rq: bounded_fifo rq_contents rq_room rq_inv rq_enqueue rq_dequeue
  by unfold_locales (fact rq_enqueue_room rq_enqueue_full rq_dequeue_none rq_dequeue_some)+

lemma rq_new_inv: "rq_inv (rq_new d cap) \<and> rq_contents (rq_new d cap) = [] \<and> rq_room (rq_new d cap) = unat cap"
  by (auto simp: rq_new_def rq_inv_def rq_contents_def rq_room_def unat_gt_0)

text \<open>The size and emptiness observers agree with the contents.\<close>

lemma rq_size_contents: "unat (rq_size q) = length (rq_contents q)"
  by (simp add: rq_contents_def)

lemma rq_empty_contents: "rq_empty q \<longleftrightarrow> rq_contents q = []"
  by (auto simp: rq_empty_def rq_contents_def ring_slice_def unat_eq_0)

lemma rq_front_contents: "rq_inv q \<Longrightarrow> rq_contents q = x # xs \<Longrightarrow> rq_front q = Some x"
proof -
  assume inv: "rq_inv q" and c: "rq_contents q = x # xs"
  obtain n where n: "unat (rq_size q) = Suc n" using c by (cases "unat (rq_size q)") (auto simp: rq_contents_def)
  then have "rq_capacity q \<noteq> 0" using inv by (auto simp: rq_inv_def word_le_nat_alt)
  then have "unat (rq_head q) < length (rq_buffer q)" using inv by (simp add: rq_inv_def)
  with c n show ?thesis using ring_slice_Suc [of "rq_buffer q" "unat (rq_head q)" n] by (simp add: rq_front_def rq_contents_def)
qed

text \<open>\<open>tail_offset\<close> does not count what was written at the tail: the queue holds what it held before.\<close>

lemma rq_tail_offset_not_counted:
  "rq_tail_offset n (q\<lparr>rq_buffer := (rq_buffer q)[unat (rq_tail_buffer q) := x]\<rparr>) = Some q' \<Longrightarrow> rq_contents q = [] \<Longrightarrow>
     rq_empty q' \<and> fst (rq_dequeue q') = None"
  by (auto simp: rq_tail_offset_def rq_empty_def rq_dequeue_def rq_contents_def ring_slice_def unat_eq_0 split: if_splits)

subsection \<open>The queue as its clients see it\<close>

text \<open>
  A \<open>ring_queue\<close> of any capacity behaves, under every sequence of enqueues
  and dequeues, exactly as a FIFO list bounded by its capacity, and \<open>size\<close> and
  \<open>empty\<close> report that list.
\<close>

theorem ring_queue_is_fifo:
  assumes "run_ops (queue_step rq_enqueue rq_dequeue) (rq_new d cap) ops = (rs, q)"
    and "run_ops (fifo_spec (unat cap)) [] ops = (rs', xs)"
  shows "rs = rs' \<and> unat (rq_size q) = length xs \<and> rq_empty q = (xs = [])"
  using rq.run_refines [of "rq_new d cap" ops] rq_new_inv [of d cap] assms
    rq_size_contents [of q] rq_empty_contents [of q]
  by auto

lemma ring_queue_is_fifo_witness:
  "fst (run_ops (queue_step rq_enqueue rq_dequeue) (rq_new (0::nat) 3) [Enq 5, Enq 6, Deq, Enq 7, Enq 8, Enq 9])
     = [Enq_Res True, Enq_Res True, Deq_Res (Some 5), Enq_Res True, Enq_Res True, Enq_Res False]"
  using ring_queue_is_fifo [where d = "0::nat" and cap = 3 and ops = "[Enq 5, Enq 6, Deq, Enq 7, Enq 8, Enq 9]",
      OF prod.collapse [symmetric] prod.collapse [symmetric]]
  by simp

end
