(* ===== verification/Mpmc_Queue.thy ===== *)
theory Mpmc_Queue
  imports Bounded_Fifo
begin

section \<open>mpmc::queue and mpsc::queue, the sequence-number rings\<close>

text \<open>
  \<^verbatim>\<open>src/pump/core/lock_free_queue.hh\<close>, namespaces \<open>mpmc\<close> and \<open>mpsc\<close>: every cell
  carries a 32-bit sequence number that says for which position it is ready.
  Positions are free-running \<^verbatim>\<open>uint32_t\<close> counters that wrap; the cell of a
  position is selected by the mask. Here each operation runs undisturbed, so
  the compare-and-swap of the code succeeds when the position is current. The
  retry loop is a partial function: \<open>None\<close> is a loop that never returns, which for
  capacities from 2 on does not occur. The signed difference is taken as the
  wrapped 32-bit difference read as two's complement.
\<close>

record 'a mcell =
  cell_sequence :: u32
  cell_value :: 'a

record 'a mqueue =
  mq_capacity :: u32
  mq_mask :: u32
  mq_tail :: u32
  mq_head :: u32
  mq_buffer :: "'a mcell list"

text \<open>The constructor; the capacity argument is a \<^verbatim>\<open>size_t\<close> stored in 32 bits.\<close>

definition mq_new :: "'a \<Rightarrow> u64 \<Rightarrow> 'a mqueue option" where
  "mq_new d cap =
     (if cap AND (cap - 1) \<noteq> 0 then None
      else Some \<lparr>mq_capacity = ucast cap, mq_mask = ucast (cap - 1), mq_tail = 0, mq_head = 0,
             mq_buffer = map (\<lambda>i. \<lparr>cell_sequence = of_nat i, cell_value = d\<rparr>) [0..<unat cap]\<rparr>)"

definition mq_index :: "'a mqueue \<Rightarrow> u32 \<Rightarrow> nat" where
  "mq_index q pos = unat (pos AND mq_mask q)"

definition mq_dif :: "u32 \<Rightarrow> u32 \<Rightarrow> int" where
  "mq_dif seq pos = sint (seq - pos)"

partial_function (option) mpmc_enqueue_loop ::
  "'a \<Rightarrow> u32 \<Rightarrow> 'a mqueue \<Rightarrow> (bool \<times> 'a mqueue) option" where
  "mpmc_enqueue_loop x pos q =
     (let i = mq_index q pos; dif = mq_dif (cell_sequence (mq_buffer q ! i)) pos in
      if dif = 0 then
        (if mq_tail q = pos
         then Some (True, q\<lparr>mq_tail := pos + 1,
                            mq_buffer := (mq_buffer q)[i := \<lparr>cell_sequence = pos + 1, cell_value = x\<rparr>]\<rparr>)
         else mpmc_enqueue_loop x (mq_tail q) q)
      else if dif < 0 then Some (False, q)
      else mpmc_enqueue_loop x (mq_tail q) q)"

definition mpmc_try_enqueue :: "'a \<Rightarrow> 'a mqueue \<Rightarrow> (bool \<times> 'a mqueue) option" where
  "mpmc_try_enqueue x q = mpmc_enqueue_loop x (mq_tail q) q"

partial_function (option) mpmc_dequeue_loop ::
  "u32 \<Rightarrow> 'a mqueue \<Rightarrow> ('a option \<times> 'a mqueue) option" where
  "mpmc_dequeue_loop pos q =
     (let i = mq_index q pos; c = mq_buffer q ! i; dif = mq_dif (cell_sequence c) (pos + 1) in
      if dif = 0 then
        (if mq_head q = pos
         then Some (Some (cell_value c),
                    q\<lparr>mq_head := pos + 1,
                      mq_buffer := (mq_buffer q)[i := c\<lparr>cell_sequence := pos + mq_capacity q\<rparr>]\<rparr>)
         else mpmc_dequeue_loop (mq_head q) q)
      else if dif < 0 then Some (None, q)
      else mpmc_dequeue_loop (mq_head q) q)"

definition mpmc_try_dequeue :: "'a mqueue \<Rightarrow> ('a option \<times> 'a mqueue) option" where
  "mpmc_try_dequeue q = mpmc_dequeue_loop (mq_head q) q"

text \<open>The single consumer of \<open>mpsc\<close> neither loops nor swaps.\<close>

definition mpsc_try_dequeue :: "'a mqueue \<Rightarrow> 'a option \<times> 'a mqueue" where
  "mpsc_try_dequeue q =
     (let pos = mq_head q; i = mq_index q pos; c = mq_buffer q ! i in
      if mq_dif (cell_sequence c) (pos + 1) = 0
      then (Some (cell_value c),
            q\<lparr>mq_head := pos + 1,
              mq_buffer := (mq_buffer q)[i := c\<lparr>cell_sequence := pos + mq_capacity q\<rparr>]\<rparr>)
      else (None, q))"

definition mq_empty :: "'a mqueue \<Rightarrow> bool" where
  "mq_empty q \<longleftrightarrow> mq_head q = mq_tail q"

definition mq_size_approx :: "'a mqueue \<Rightarrow> u64" where
  "mq_size_approx q = ucast (mq_tail q - mq_head q)"

subsection \<open>Invariant and abstraction\<close>

definition mq_count :: "'a mqueue \<Rightarrow> nat" where
  "mq_count q = unat (mq_tail q - mq_head q)"

definition mq_cell :: "'a mqueue \<Rightarrow> nat \<Rightarrow> 'a mcell" where
  "mq_cell q i = mq_buffer q ! ((unat (mq_head q) + i) mod unat (mq_capacity q))"

definition mq_inv :: "'a mqueue \<Rightarrow> bool" where
  "mq_inv q \<longleftrightarrow> pow2 (mq_capacity q) \<and> 2 \<le> unat (mq_capacity q) \<and> mq_mask q = mq_capacity q - 1
     \<and> length (mq_buffer q) = unat (mq_capacity q) \<and> mq_count q \<le> unat (mq_capacity q)
     \<and> (\<forall>i < unat (mq_capacity q). cell_sequence (mq_cell q i)
          = mq_head q + of_nat i + (if i < mq_count q then 1 else 0))"

definition mq_contents :: "'a mqueue \<Rightarrow> 'a list" where
  "mq_contents q = map cell_value (ring_slice (mq_buffer q) (unat (mq_head q)) (mq_count q))"

definition mq_room :: "'a mqueue \<Rightarrow> nat" where
  "mq_room q = unat (mq_capacity q)"

lemma pow2_u32_bound: "pow2 (c :: u32) \<Longrightarrow> unat c \<le> 2 ^ 31"
proof -
  assume "pow2 c"
  then obtain k where k: "k < 32" "c = 2 ^ k" by (auto simp: pow2_def)
  then have "(2::nat) ^ k \<le> 2 ^ 31" by (intro power_increasing) auto
  with k show ?thesis by (simp add: unat_power_two)
qed

lemma mq_index_offset:
  assumes "mq_inv q"
  shows "mq_index q (mq_head q + of_nat i) = (unat (mq_head q) + i) mod unat (mq_capacity q)"
proof -
  from assms have p: "pow2 (mq_capacity q)" "mq_mask q = mq_capacity q - 1"
    by (auto simp: mq_inv_def)
  have "unat (of_nat i :: u32) mod unat (mq_capacity q) = i mod unat (mq_capacity q)"
    using pow2_dvd [OF p(1)] by (simp add: unat_of_nat mod_mod_cancel)
  then show ?thesis
    using unat_add_and_mask [OF p(1), of "mq_head q" "of_nat i"] p(2)
    by (simp add: mq_index_def) (metis mod_add_right_eq)
qed

lemma mq_tail_eq: "mq_tail q = mq_head q + of_nat (mq_count q)"
  by (simp add: mq_count_def)

lemma sint_neg_of_nat: "0 < n \<Longrightarrow> n \<le> 2 ^ 31 \<Longrightarrow> sint (- (of_nat n :: u32)) < 0"
proof -
  assume n: "0 < n" "n \<le> 2 ^ 31"
  have "- (of_nat n :: u32) = word_of_int (- int n)" by simp
  then have "sint (- (of_nat n :: u32)) = signed_take_bit (LENGTH(32) - 1) (- int n)"
    by (simp only: sint_sbintrunc')
  also have "\<dots> = - int n"
    using n by (intro signed_take_bit_int_eq_self) simp_all
  finally show ?thesis using n by simp
qed

lemma mq_head_cell:
  assumes "mq_inv q"
  shows "mq_buffer q ! mq_index q (mq_head q) = mq_cell q 0"
  using mq_index_offset [OF assms, of 0] by (simp add: mq_cell_def)

lemma mq_tail_cell:
  assumes "mq_inv q"
  shows "mq_buffer q ! mq_index q (mq_tail q) = mq_cell q (mq_count q)"
  using mq_index_offset [OF assms, of "mq_count q"] by (simp add: mq_cell_def mq_tail_eq [of q])

text \<open>The sequence number at the tail says whether there is room, the one at the head whether there is an item.\<close>

lemma mq_dif_tail:
  assumes inv: "mq_inv q"
  shows "mq_count q < unat (mq_capacity q) \<Longrightarrow>
      mq_dif (cell_sequence (mq_buffer q ! mq_index q (mq_tail q))) (mq_tail q) = 0"
    and "mq_count q = unat (mq_capacity q) \<Longrightarrow>
      mq_dif (cell_sequence (mq_buffer q ! mq_index q (mq_tail q))) (mq_tail q) < 0"
proof -
  assume "mq_count q < unat (mq_capacity q)"
  with inv show "mq_dif (cell_sequence (mq_buffer q ! mq_index q (mq_tail q))) (mq_tail q) = 0"
    by (simp add: mq_tail_cell [OF inv] mq_dif_def mq_inv_def) (simp add: mq_tail_eq [of q])
next
  assume full: "mq_count q = unat (mq_capacity q)"
  have c: "2 \<le> unat (mq_capacity q)" "unat (mq_capacity q) \<le> 2 ^ 31"
    using inv pow2_u32_bound [of "mq_capacity q"] by (auto simp: mq_inv_def)
  have "mq_cell q (mq_count q) = mq_cell q 0" by (simp add: mq_cell_def full)
  then have "cell_sequence (mq_buffer q ! mq_index q (mq_tail q)) = mq_head q + 1"
    using inv c full by (simp add: mq_tail_cell [OF inv] mq_inv_def)
  moreover have e: "mq_head q + 1 - mq_tail q = - of_nat (unat (mq_capacity q) - 1)"
    using c full by (subst mq_tail_eq) (simp add: of_nat_diff)
  have "sint (mq_head q + 1 - mq_tail q) < 0"
    unfolding e by (rule sint_neg_of_nat) (use c in auto)
  ultimately show "mq_dif (cell_sequence (mq_buffer q ! mq_index q (mq_tail q))) (mq_tail q) < 0"
    by (simp add: mq_dif_def)
qed

lemma mq_dif_head:
  assumes inv: "mq_inv q"
  shows "0 < mq_count q \<Longrightarrow>
      mq_dif (cell_sequence (mq_buffer q ! mq_index q (mq_head q))) (mq_head q + 1) = 0"
    and "mq_count q = 0 \<Longrightarrow>
      mq_dif (cell_sequence (mq_buffer q ! mq_index q (mq_head q))) (mq_head q + 1) < 0"
proof -
  have s: "cell_sequence (mq_cell q 0) = mq_head q + (if 0 < mq_count q then 1 else 0)"
    using inv unfolding mq_inv_def by (auto dest!: spec [of _ 0])
  then show "0 < mq_count q \<Longrightarrow>
      mq_dif (cell_sequence (mq_buffer q ! mq_index q (mq_head q))) (mq_head q + 1) = 0"
    by (simp add: mq_head_cell [OF inv] mq_dif_def)
  from s sint_neg_of_nat [of 1] show "mq_count q = 0 \<Longrightarrow>
      mq_dif (cell_sequence (mq_buffer q ! mq_index q (mq_head q))) (mq_head q + 1) < 0"
    by (simp add: mq_head_cell [OF inv] mq_dif_def)
qed

text \<open>Closed forms of the operations under the invariant: no retry happens.\<close>

lemma mpmc_try_enqueue_eq:
  assumes inv: "mq_inv q"
  shows "mpmc_try_enqueue x q = Some
    (if mq_count q < unat (mq_capacity q)
     then (True, q\<lparr>mq_tail := mq_tail q + 1, mq_buffer := (mq_buffer q)[mq_index q (mq_tail q) :=
             \<lparr>cell_sequence = mq_tail q + 1, cell_value = x\<rparr>]\<rparr>)
     else (False, q))"
proof (cases "mq_count q < unat (mq_capacity q)")
  case True
  with mq_dif_tail(1) [OF inv] show ?thesis
    unfolding mpmc_try_enqueue_def by (subst mpmc_enqueue_loop.simps) (simp add: Let_def)
next
  case False
  with inv have "mq_count q = unat (mq_capacity q)" by (simp add: mq_inv_def)
  with mq_dif_tail(2) [OF inv] False show ?thesis
    unfolding mpmc_try_enqueue_def by (subst mpmc_enqueue_loop.simps) (simp add: Let_def)
qed

lemma mpmc_try_dequeue_eq:
  assumes inv: "mq_inv q"
  shows "mpmc_try_dequeue q = Some (mpsc_try_dequeue q)"
  using mq_dif_head [OF inv]
  unfolding mpmc_try_dequeue_def mpsc_try_dequeue_def
  by (subst mpmc_dequeue_loop.simps) (cases "mq_count q = 0", simp_all add: Let_def)

subsection \<open>Refinement of the bounded FIFO\<close>

lemma mq_contents_values:
  "mq_inv q \<Longrightarrow> mq_contents q
     = ring_slice (map cell_value (mq_buffer q)) (unat (mq_head q)) (mq_count q)"
  unfolding mq_contents_def by (rule map_ring_slice) (auto simp: mq_inv_def)

lemma length_mq_contents [simp]: "length (mq_contents q) = mq_count q"
  by (simp add: mq_contents_def)

lemma mq_enqueue_state:
  assumes inv: "mq_inv q" and room: "mq_count q < unat (mq_capacity q)"
    and q': "q' = q\<lparr>mq_tail := mq_tail q + 1, mq_buffer := (mq_buffer q)[mq_index q (mq_tail q) :=
             \<lparr>cell_sequence = mq_tail q + 1, cell_value = x\<rparr>]\<rparr>"
  shows "mq_inv q' \<and> mq_contents q' = mq_contents q @ [x]"
proof -
  let ?L = "unat (mq_capacity q)" and ?h = "unat (mq_head q)" and ?n = "mq_count q"
  have L: "?L \<le> 2 ^ 31" "length (mq_buffer q) = ?L"
    using inv pow2_u32_bound [of "mq_capacity q"] by (auto simp: mq_inv_def)
  have idx: "mq_index q (mq_tail q) = (?h + ?n) mod ?L"
    using mq_index_offset [OF inv, of ?n] by (simp add: mq_tail_eq [of q])
  have "mq_tail q + 1 - mq_head q = of_nat (Suc ?n)" by (subst mq_tail_eq) simp
  moreover have "unat (of_nat (Suc ?n) :: u32) = Suc ?n"
    using room L(1) by (simp only: unat_of_nat) simp
  ultimately have cnt: "mq_count q' = Suc ?n" by (simp add: q' mq_count_def algebra_simps)
  have lt: "(?h + ?n) mod ?L < ?L" using room by (intro mod_less_divisor) linarith
  have cell: "mq_cell q' i = (if i = ?n then \<lparr>cell_sequence = mq_tail q + 1, cell_value = x\<rparr>
      else mq_cell q i)" if "i < ?L" for i
    using ring_mod_inj [OF that room, of ?h] lt L(2) by (auto simp: q' mq_cell_def idx)
  have "mq_inv q'"
    using inv room cell cnt L(2)
    by (auto simp: mq_inv_def q' mq_tail_eq [of q])
  moreover have "mq_contents q' = mq_contents q @ [x]"
    using ring_slice_append [of ?n "mq_buffer q" ?h "\<lparr>cell_sequence = mq_tail q + 1, cell_value = x\<rparr>"]
      room L(2) by (simp add: mq_contents_def cnt idx) (simp add: q' idx)
  ultimately show ?thesis ..
qed

lemma mq_dequeue_state:
  assumes inv: "mq_inv q" and some: "0 < mq_count q"
    and q': "q' = q\<lparr>mq_head := mq_head q + 1, mq_buffer := (mq_buffer q)[mq_index q (mq_head q) :=
             (mq_cell q 0)\<lparr>cell_sequence := mq_head q + mq_capacity q\<rparr>]\<rparr>"
  shows "mq_inv q' \<and> mq_contents q = cell_value (mq_cell q 0) # mq_contents q'"
proof -
  let ?L = "unat (mq_capacity q)" and ?h = "unat (mq_head q)" and ?n = "mq_count q"
  have L: "2 \<le> ?L" "length (mq_buffer q) = ?L" "?n \<le> ?L" "pow2 (mq_capacity q)"
    using inv by (auto simp: mq_inv_def)
  have idx: "mq_index q (mq_head q) = (?h + 0) mod ?L"
    using mq_index_offset [OF inv, of 0] by simp
  have adv: "(unat (mq_head q + 1) + i) mod ?L = (?h + Suc i) mod ?L" for i
  proof -
    have "(unat (mq_head q + 1) + i) mod ?L = (unat (mq_head q + 1) mod ?L + i) mod ?L"
      by (simp add: mod_add_left_eq)
    also have "unat (mq_head q + 1) mod ?L = (?h + 1) mod ?L"
      using pow2_dvd [OF L(4)] by (simp add: unat_word_ariths mod_mod_cancel)
    finally show ?thesis by (simp add: mod_add_left_eq)
  qed
  have "unat (mq_tail q - mq_head q - 1) = ?n - 1"
    using some by (subst unat_minus_one) (auto simp: mq_count_def)
  then have cnt: "mq_count q' = ?n - 1" by (simp add: q' mq_count_def algebra_simps)
  have wrap: "(?h + Suc (?L - 1)) mod ?L = (?h + 0) mod ?L" using L(1) by simp
  have lt: "(?h + 0) mod ?L < ?L" using L(1) by (intro mod_less_divisor) linarith
  have cell: "mq_cell q' i = (if i = ?L - 1
      then (mq_cell q 0)\<lparr>cell_sequence := mq_head q + mq_capacity q\<rparr> else mq_cell q (Suc i))"
    if i: "i < ?L" for i
  proof (cases "i = ?L - 1")
    case True
    have "mq_cell q' i = mq_buffer q' ! ((?h + 0) mod ?L)"
      using adv [of i] wrap True by (simp add: mq_cell_def q')
    with True lt L(2) show ?thesis by (simp add: q' idx)
  next
    case False
    with i have "Suc i < ?L" "(0::nat) < ?L" by auto
    then have "(?h + Suc i) mod ?L \<noteq> (?h + 0) mod ?L"
      using ring_mod_inj [of "Suc i" ?L 0 ?h] by blast
    with False adv [of i] show ?thesis by (simp add: mq_cell_def q' idx)
  qed
  have seq: "cell_sequence (mq_cell q' i) = mq_head q' + of_nat i + (if i < mq_count q' then 1 else 0)"
    if i: "i < ?L" for i
  proof (cases "i = ?L - 1")
    case True
    then have "mq_head q + mq_capacity q = mq_head q + 1 + of_nat i" using L(1) by (simp add: of_nat_diff)
    moreover have "\<not> i < mq_count q'" using True L(1,3) cnt by simp
    ultimately show ?thesis using cell [OF i] True by (simp add: q')
  next
    case False
    with i have "Suc i < ?L" by simp
    with inv have "cell_sequence (mq_cell q (Suc i)) = mq_head q + of_nat (Suc i)
        + (if Suc i < ?n then 1 else 0)" unfolding mq_inv_def by blast
    moreover have "Suc i < ?n \<longleftrightarrow> i < mq_count q'" using cnt some by auto
    ultimately show ?thesis using cell [OF i] False by (simp add: q')
  qed
  have "mq_inv q'"
    using inv seq cnt L by (auto simp: mq_inv_def q')
  moreover have "mq_contents q = cell_value (mq_cell q 0) # mq_contents q'"
  proof -
    let ?v = "map cell_value (mq_buffer q)"
    have v: "map cell_value (mq_buffer q') = ?v"
    proof -
      have "?v[?h mod ?L := cell_value (mq_cell q 0)] = ?v"
        using lt L(2) by (intro list_update_same_conv [THEN iffD2]) (auto simp: mq_cell_def)
      then show ?thesis by (simp add: q' idx map_update)
    qed
    have "mq_contents q = ?v ! (?h mod ?L) # ring_slice ?v (Suc ?h) (?n - 1)"
      using ring_slice_Suc [of ?v ?h "?n - 1"] some L(2) by (simp add: mq_contents_values [OF inv])
    moreover have "ring_slice ?v (Suc ?h) (?n - 1) = mq_contents q'"
      unfolding mq_contents_values [OF \<open>mq_inv q'\<close>] v cnt
      by (rule nth_equalityI) (use adv L(2) in \<open>auto simp: ring_slice_nth q'\<close>)
    ultimately show ?thesis using lt L(2) by (simp add: mq_cell_def)
  qed
  ultimately show ?thesis ..
qed

text \<open>
  What a caller of the returning operations sees. \<open>mpmc_try_enqueue_eq\<close> and
  \<open>mpmc_try_dequeue_eq\<close> show that the \<open>None\<close> case is never taken.
\<close>

definition mpmc_enq :: "'a \<Rightarrow> 'a mqueue \<Rightarrow> bool \<times> 'a mqueue" where
  "mpmc_enq x q = (case mpmc_try_enqueue x q of Some r \<Rightarrow> r | None \<Rightarrow> (False, q))"

definition mpmc_deq :: "'a mqueue \<Rightarrow> 'a option \<times> 'a mqueue" where
  "mpmc_deq q = (case mpmc_try_dequeue q of Some r \<Rightarrow> r | None \<Rightarrow> (None, q))"

lemma mpmc_enq_room:
  assumes "mq_inv q" "length (mq_contents q) < mq_room q"
  shows "\<exists>q'. mpmc_enq x q = (True, q') \<and> mq_inv q' \<and> mq_contents q' = mq_contents q @ [x]
    \<and> mq_room q' = mq_room q"
  using mq_enqueue_state [OF assms(1) _ refl, of x] assms
  by (simp add: mpmc_enq_def mpmc_try_enqueue_eq mq_room_def)

lemma mpmc_enq_full:
  assumes "mq_inv q" "\<not> length (mq_contents q) < mq_room q"
  shows "\<exists>q'. mpmc_enq x q = (False, q') \<and> mq_inv q' \<and> mq_contents q' = mq_contents q
    \<and> mq_room q' = mq_room q"
  using assms by (simp add: mpmc_enq_def mpmc_try_enqueue_eq mq_room_def)

lemma mpsc_deq_none:
  assumes "mq_inv q" "mq_contents q = []"
  shows "\<exists>q'. mpsc_try_dequeue q = (None, q') \<and> mq_inv q' \<and> mq_contents q' = [] \<and> mq_room q' = mq_room q"
proof -
  have "mq_count q = 0" using assms(2) length_mq_contents [of q] by simp
  with mq_dif_head(2) [OF assms(1)] assms show ?thesis by (simp add: mpsc_try_dequeue_def)
qed

lemma mpsc_deq_some:
  assumes "mq_inv q" "mq_contents q = x # xs"
  shows "\<exists>q'. mpsc_try_dequeue q = (Some x, q') \<and> mq_inv q' \<and> mq_contents q' = xs
    \<and> mq_room q' = mq_room q"
proof -
  have "0 < mq_count q" using assms(2) length_mq_contents [of q] by simp
  with mq_dif_head(1) [OF assms(1)] mq_dequeue_state [OF assms(1) _ refl] assms show ?thesis
    by (simp add: mpsc_try_dequeue_def Let_def mq_head_cell mq_room_def)
qed

lemma mpmc_deq_eq: "mq_inv q \<Longrightarrow> mpmc_deq q = mpsc_try_dequeue q"
  by (simp add: mpmc_deq_def mpmc_try_dequeue_eq)

interpretation mpsc: bounded_fifo mq_contents mq_room mq_inv mpmc_enq mpsc_try_dequeue
  by unfold_locales (fact mpmc_enq_room mpmc_enq_full mpsc_deq_none mpsc_deq_some)+

interpretation mpmc: bounded_fifo mq_contents mq_room mq_inv mpmc_enq mpmc_deq
  by unfold_locales
    (fact mpmc_enq_room mpmc_enq_full | simp add: mpmc_deq_eq mpsc_deq_none mpsc_deq_some)+

lemma mq_new_inv:
  assumes "mq_new d cap = Some q" "2 \<le> unat cap" "unat cap \<le> 2 ^ 31"
  shows "mq_inv q \<and> mq_contents q = [] \<and> mq_room q = unat cap"
proof -
  from assms(2) have nz: "cap \<noteq> 0" by auto
  then have p: "pow2 cap" and q: "q = \<lparr>mq_capacity = ucast cap, mq_mask = ucast (cap - 1), mq_tail = 0,
      mq_head = 0, mq_buffer = map (\<lambda>i. \<lparr>cell_sequence = of_nat i, cell_value = d\<rparr>) [0..<unat cap]\<rparr>"
    using assms and_pred_zero_pow2 [of cap] by (auto simp: mq_new_def split: if_splits)
  then obtain k where k: "cap = 2 ^ k" "k < 64" by (auto simp: pow2_def)
  then have "k < 32" using assms(3) power_increasing_iff [of "2::nat" 32 k]
    by (cases "k < 32") (auto simp: unat_power_two)
  have uc: "unat cap = 2 ^ k" using k by (simp add: unat_power_two)
  have "(ucast cap :: u32) = of_nat (unat cap)" by simp
  also have "\<dots> = 2 ^ k" by (simp add: uc del: of_nat_unat)
  finally have c: "(ucast cap :: u32) = 2 ^ k" .
  have c': "unat (2 ^ k :: u32) = unat cap" using \<open>k < 32\<close> uc by (simp add: unat_power_two)
  have m: "(ucast (cap - 1) :: u32) = ucast cap - 1"
  proof -
    have "(ucast (cap - 1) :: u32) = of_nat (unat (cap - 1))" by simp
    also have "\<dots> = of_nat (unat cap - 1)" by (simp only: unat_minus_one [OF nz])
    also have "\<dots> = of_nat (unat cap) - 1" using assms(2) by (subst of_nat_diff) auto
    finally show ?thesis by simp
  qed
  show ?thesis
    using c c' m \<open>k < 32\<close> assms(2)
    by (auto simp: q mq_inv_def mq_contents_def mq_room_def mq_count_def mq_cell_def pow2_def)
qed

subsection \<open>The queues as their clients see them\<close>

text \<open>
  Built with a capacity between 2 and 2^31, the MPMC ring behaves under every
  sequence of complete operations as a FIFO list bounded by its capacity, also
  when the 32-bit positions wrap, and in every state it reaches both retry
  loops return. The MPSC dequeue gives the same results.
\<close>

theorem mpmc_queue_is_fifo:
  assumes "mq_new d cap = Some q0" "2 \<le> unat cap" "unat cap \<le> 2 ^ 31"
    and "run_ops (queue_step mpmc_enq mpmc_deq) q0 ops = (rs, q)"
  shows "rs = fst (run_ops (fifo_spec (unat cap)) [] ops)
     \<and> rs = fst (run_ops (queue_step mpmc_enq mpsc_try_dequeue) q0 ops)
     \<and> mpmc_try_enqueue x q \<noteq> None \<and> mpmc_try_dequeue q \<noteq> None"
proof -
  have new: "mq_inv q0" "mq_contents q0 = []" "mq_room q0 = unat cap"
    using mq_new_inv [OF assms(1-3)] by auto
  have "mq_inv q" "rs = fst (run_ops (fifo_spec (unat cap)) [] ops)"
    using mpmc.run_refines [OF new(1), of ops] assms(4) by (auto simp: new)
  then show ?thesis
    using mpsc.run_refines [OF new(1), of ops]
    by (auto simp: new mpmc_try_enqueue_eq mpmc_try_dequeue_eq)
qed

lemma mpmc_queue_is_fifo_witness:
  "fst (run_ops (queue_step mpmc_enq mpmc_deq) (the (mq_new (0::nat) 2)) [Enq 5, Enq 6, Enq 7, Deq, Deq, Deq])
     = [Enq_Res True, Enq_Res True, Enq_Res False, Deq_Res (Some 5), Deq_Res (Some 6), Deq_Res None]"
  using mpmc_queue_is_fifo [where d = "0::nat" and cap = 2 and ops = "[Enq 5, Enq 6, Enq 7, Deq, Deq, Deq]",
      OF _ _ _ prod.collapse [symmetric]]
  by (simp add: mq_new_def)

text \<open>
  The constructor also accepts capacity 1, for which a cell that is full for one
  position is at once ready for the next one.
\<close>

definition mq_one :: "'a \<Rightarrow> u32 \<Rightarrow> 'a mqueue" where
  "mq_one x n = \<lparr>mq_capacity = 1, mq_mask = 0, mq_tail = n, mq_head = 0,
     mq_buffer = [\<lparr>cell_sequence = n, cell_value = x\<rparr>]\<rparr>"

lemma mpmc_dequeue_spins: "mpmc_dequeue_loop 0 (mq_one x 2) = None"
proof -
  have "\<not> (pos = 0 \<and> q = mq_one x 2)" if "mpmc_dequeue_loop pos q = Some r" for pos q r
    using that
  proof (rule mpmc_dequeue_loop.raw_induct [rotated])
    fix f pos' and q' :: "'a mqueue" and r'
    assume IH: "\<And>p q r. f p q = Some r \<Longrightarrow> \<not> (p = 0 \<and> q = mq_one x 2)"
      and eq: "(let i = mq_index q' pos'; c = mq_buffer q' ! i; dif = mq_dif (cell_sequence c) (pos' + 1) in
        if dif = 0 then
          if mq_head q' = pos' then Some (Some (cell_value c), q'\<lparr>mq_head := pos' + 1,
            mq_buffer := (mq_buffer q')[i := c\<lparr>cell_sequence := pos' + mq_capacity q'\<rparr>]\<rparr>)
          else f (mq_head q') q'
        else if dif < 0 then Some (None, q') else f (mq_head q') q') = Some r'"
    show "\<not> (pos' = 0 \<and> q' = mq_one x 2)"
      using IH [of 0 "mq_one x 2" r'] eq by (auto simp: mq_one_def mq_index_def mq_dif_def)
  qed
  then show ?thesis by (cases "mpmc_dequeue_loop 0 (mq_one x 2)") auto
qed

text \<open>
  With capacity 1 the second of two enqueues also reports success although the
  single cell is full, so the first item is lost, and the dequeue that follows
  retries for ever.
\<close>

theorem mpmc_capacity_one_breaks:
  "\<exists>q0 q1 q2. mq_new d 1 = Some q0 \<and> mpmc_try_enqueue x q0 = Some (True, q1)
     \<and> mpmc_try_enqueue y q1 = Some (True, q2) \<and> mpmc_try_dequeue q2 = None"
proof -
  have "mq_new d 1 = Some (mq_one d 0)" by (simp add: mq_new_def mq_one_def)
  moreover have "mpmc_try_enqueue x (mq_one d 0) = Some (True, mq_one x 1)"
    unfolding mpmc_try_enqueue_def
    by (subst mpmc_enqueue_loop.simps) (simp add: mq_one_def mq_index_def mq_dif_def)
  moreover have "mpmc_try_enqueue y (mq_one x 1) = Some (True, mq_one y 2)"
    unfolding mpmc_try_enqueue_def
    by (subst mpmc_enqueue_loop.simps) (simp add: mq_one_def mq_index_def mq_dif_def)
  moreover have "mpmc_try_dequeue (mq_one y 2) = None"
    using mpmc_dequeue_spins [of y] by (simp add: mpmc_try_dequeue_def mq_one_def)
  ultimately show ?thesis by blast
qed

end
