(* ===== verification/Mpmc_Threads.thy ===== *)
theory Mpmc_Threads
  imports Mpmc_Queue
begin

section \<open>mpmc::queue under concurrent producers and consumers\<close>

text \<open>
  The operations of \<^verbatim>\<open>mpmc::queue\<close> as a step relation: every load, store and
  compare-and-swap on a shared word and every access to a cell's value is a step, and
  any number of threads interleave. A weak compare-and-swap may fail without reason. A
  thread keeps the position it loaded as the code does, in 32 bits; beside it stands the
  unwrapped count, as history. \<open>ms_in\<close> lists the values in the order of the claimed
  positions, \<open>ms_taken\<close> counts the positions claimed by consumers, \<open>ms_out\<close> the positions
  and values returned. Acquire and release accesses are read as sequentially consistent.

  A thread that sleeps between two accesses while 2^31 operations complete would mistake
  a later round of a cell for its own (the positions wrap); the guard \<open>awake\<close> excludes it.
\<close>

datatype 'a mthread =
    M_Idle
  | Enq_Start 'a
  | Enq_Pos 'a u32 nat
  | Enq_Cas 'a u32 nat
  | Enq_Write 'a u32 nat
  | Enq_Publish u32 nat
  | Deq_Start
  | Deq_Pos u32 nat
  | Deq_Cas u32 nat
  | Deq_Read u32 nat
  | Deq_Release u32 nat 'a

record 'a mshared =
  ms_q :: "'a mqueue"
  ms_threads :: "'a mthread list"
  ms_in :: "'a list"
  ms_taken :: nat
  ms_out :: "(nat \<times> 'a) list"

definition awake :: "nat \<Rightarrow> nat \<Rightarrow> bool" where
  "awake now p \<longleftrightarrow> now < p + 2 ^ 31"

abbreviation cell_at :: "'a mshared \<Rightarrow> u32 \<Rightarrow> 'a mcell" where
  "cell_at s pos \<equiv> mq_buffer (ms_q s) ! mq_index (ms_q s) pos"

definition set_thread :: "nat \<Rightarrow> 'a mthread \<Rightarrow> 'a mshared \<Rightarrow> 'a mshared" where
  "set_thread j t s = s\<lparr>ms_threads := (ms_threads s)[j := t]\<rparr>"

definition set_cell :: "u32 \<Rightarrow> 'a mcell \<Rightarrow> 'a mshared \<Rightarrow> 'a mshared" where
  "set_cell pos c s = s\<lparr>ms_q := (ms_q s)\<lparr>mq_buffer := (mq_buffer (ms_q s))[mq_index (ms_q s) pos := c]\<rparr>\<rparr>"

definition enq_dif :: "'a mshared \<Rightarrow> u32 \<Rightarrow> int" where
  "enq_dif s pos = mq_dif (cell_sequence (cell_at s pos)) pos"

definition deq_dif :: "'a mshared \<Rightarrow> u32 \<Rightarrow> int" where
  "deq_dif s pos = mq_dif (cell_sequence (cell_at s pos)) (pos + 1)"

inductive mpmc_step :: "nat \<Rightarrow> 'a mthread \<Rightarrow> 'a mshared \<Rightarrow> 'a mshared \<Rightarrow> bool" for j where
  me_call: "mpmc_step j M_Idle s (set_thread j (Enq_Start x) s)"
| me_load: "mpmc_step j (Enq_Start x) s (set_thread j (Enq_Pos x (mq_tail (ms_q s)) (length (ms_in s))) s)"
| me_full: "awake (length (ms_in s)) p \<Longrightarrow> enq_dif s pos < 0 \<Longrightarrow> mpmc_step j (Enq_Pos x pos p) s (set_thread j M_Idle s)"
| me_seen: "awake (length (ms_in s)) p \<Longrightarrow> enq_dif s pos = 0 \<Longrightarrow> mpmc_step j (Enq_Pos x pos p) s (set_thread j (Enq_Cas x pos p) s)"
| me_behind: "awake (length (ms_in s)) p \<Longrightarrow> 0 < enq_dif s pos \<Longrightarrow> mpmc_step j (Enq_Pos x pos p) s (set_thread j (Enq_Start x) s)"
| me_claim: "awake (length (ms_in s)) p \<Longrightarrow> mq_tail (ms_q s) = pos \<Longrightarrow>
    mpmc_step j (Enq_Cas x pos p) s
      (set_thread j (Enq_Write x pos p) (s\<lparr>ms_q := (ms_q s)\<lparr>mq_tail := pos + 1\<rparr>, ms_in := ms_in s @ [x]\<rparr>))"
| me_lost: "mpmc_step j (Enq_Cas x pos p) s (set_thread j (Enq_Pos x (mq_tail (ms_q s)) (length (ms_in s))) s)"
| me_write: "mpmc_step j (Enq_Write x pos p) s
    (set_thread j (Enq_Publish pos p) (set_cell pos ((cell_at s pos)\<lparr>cell_value := x\<rparr>) s))"
| me_publish: "mpmc_step j (Enq_Publish pos p) s
    (set_thread j M_Idle (set_cell pos ((cell_at s pos)\<lparr>cell_sequence := pos + 1\<rparr>) s))"
| md_call: "mpmc_step j M_Idle s (set_thread j Deq_Start s)"
| md_load: "mpmc_step j Deq_Start s (set_thread j (Deq_Pos (mq_head (ms_q s)) (ms_taken s)) s)"
| md_none: "awake (ms_taken s) p \<Longrightarrow> deq_dif s pos < 0 \<Longrightarrow> mpmc_step j (Deq_Pos pos p) s (set_thread j M_Idle s)"
| md_seen: "awake (ms_taken s) p \<Longrightarrow> deq_dif s pos = 0 \<Longrightarrow> mpmc_step j (Deq_Pos pos p) s (set_thread j (Deq_Cas pos p) s)"
| md_behind: "awake (ms_taken s) p \<Longrightarrow> 0 < deq_dif s pos \<Longrightarrow> mpmc_step j (Deq_Pos pos p) s (set_thread j Deq_Start s)"
| md_claim: "awake (ms_taken s) p \<Longrightarrow> mq_head (ms_q s) = pos \<Longrightarrow>
    mpmc_step j (Deq_Cas pos p) s
      (set_thread j (Deq_Read pos p) (s\<lparr>ms_q := (ms_q s)\<lparr>mq_head := pos + 1\<rparr>, ms_taken := ms_taken s + 1\<rparr>))"
| md_lost: "mpmc_step j (Deq_Cas pos p) s (set_thread j (Deq_Pos (mq_head (ms_q s)) (ms_taken s)) s)"
| md_read: "mpmc_step j (Deq_Read pos p) s (set_thread j (Deq_Release pos p (cell_value (cell_at s pos))) s)"
| md_release: "mpmc_step j (Deq_Release pos p x) s
    (set_thread j M_Idle ((set_cell pos ((cell_at s pos)\<lparr>cell_sequence := pos + mq_capacity (ms_q s)\<rparr>) s)
      \<lparr>ms_out := ms_out s @ [(p, x)]\<rparr>))"

inductive mpmc_run :: "'a \<Rightarrow> u64 \<Rightarrow> nat \<Rightarrow> 'a mshared \<Rightarrow> bool" for d cap n where
  mr_start: "mq_new d cap = Some q \<Longrightarrow>
    mpmc_run d cap n \<lparr>ms_q = q, ms_threads = replicate n M_Idle, ms_in = [], ms_taken = 0, ms_out = []\<rparr>"
| mr_step: "mpmc_run d cap n s \<Longrightarrow> j < n \<Longrightarrow> mpmc_step j (ms_threads s ! j) s s' \<Longrightarrow> mpmc_run d cap n s'"

subsection \<open>The invariant\<close>

text \<open>The claimed position a thread works on, as a producer and as a consumer.\<close>

fun enq_at :: "'a mthread \<Rightarrow> nat option" where
  "enq_at (Enq_Write x pos p) = Some p"
| "enq_at (Enq_Publish pos p) = Some p"
| "enq_at _ = None"

fun deq_at :: "'a mthread \<Rightarrow> nat option" where
  "deq_at (Deq_Read pos p) = Some p"
| "deq_at (Deq_Release pos p x) = Some p"
| "deq_at _ = None"

text \<open>
  \<open>P i\<close> is the position cell \<open>i\<close> serves, \<open>F i\<close> whether its value is published. With \<open>C\<close>
  cells, \<open>T\<close> positions claimed by producers and \<open>H\<close> by consumers:
\<close>

definition cell_ok :: "(nat \<Rightarrow> nat) \<Rightarrow> (nat \<Rightarrow> bool) \<Rightarrow> nat \<Rightarrow> nat \<Rightarrow> nat \<Rightarrow> 'a list \<Rightarrow> 'a mcell list \<Rightarrow> nat \<Rightarrow> bool" where
  "cell_ok P F C T H ins buf i \<longleftrightarrow> P i mod C = i \<and> cell_sequence (buf ! i) = of_nat (P i + (if F i then 1 else 0))
     \<and> T \<le> P i + C \<and> P i < H + C \<and> (if F i then P i < T \<and> cell_value (buf ! i) = ins ! P i else H \<le> P i)"

fun thread_ok :: "(nat \<Rightarrow> nat) \<Rightarrow> (nat \<Rightarrow> bool) \<Rightarrow> nat \<Rightarrow> nat \<Rightarrow> nat \<Rightarrow> 'a list \<Rightarrow> 'a mcell list \<Rightarrow> 'a mthread \<Rightarrow> bool" where
  "thread_ok P F C T H ins buf (Enq_Pos x pos p) \<longleftrightarrow> pos = of_nat p \<and> p \<le> T"
| "thread_ok P F C T H ins buf (Enq_Cas x pos p) \<longleftrightarrow> pos = of_nat p \<and> p \<le> T \<and> (p = T \<longrightarrow> P (p mod C) = p \<and> \<not> F (p mod C))"
| "thread_ok P F C T H ins buf (Enq_Write x pos p) \<longleftrightarrow>
     pos = of_nat p \<and> p < T \<and> P (p mod C) = p \<and> \<not> F (p mod C) \<and> ins ! p = x"
| "thread_ok P F C T H ins buf (Enq_Publish pos p) \<longleftrightarrow>
     pos = of_nat p \<and> p < T \<and> P (p mod C) = p \<and> \<not> F (p mod C) \<and> cell_value (buf ! (p mod C)) = ins ! p"
| "thread_ok P F C T H ins buf (Deq_Pos pos p) \<longleftrightarrow> pos = of_nat p \<and> p \<le> H"
| "thread_ok P F C T H ins buf (Deq_Cas pos p) \<longleftrightarrow> pos = of_nat p \<and> p \<le> H \<and> (p = H \<longrightarrow> P (p mod C) = p \<and> F (p mod C))"
| "thread_ok P F C T H ins buf (Deq_Read pos p) \<longleftrightarrow> pos = of_nat p \<and> p < H \<and> P (p mod C) = p \<and> F (p mod C)"
| "thread_ok P F C T H ins buf (Deq_Release pos p x) \<longleftrightarrow>
     pos = of_nat p \<and> p < H \<and> P (p mod C) = p \<and> F (p mod C) \<and> x = ins ! p"
| "thread_ok P F C T H ins buf _ \<longleftrightarrow> True"

text \<open>The positions held by \<open>n\<close> threads, and that no two hold the same.\<close>

definition held :: "(nat \<Rightarrow> nat option) \<Rightarrow> nat \<Rightarrow> nat set" where
  "held f n = {p. \<exists>j < n. f j = Some p}"

definition apart :: "(nat \<Rightarrow> nat option) \<Rightarrow> nat \<Rightarrow> bool" where
  "apart f n \<longleftrightarrow> (\<forall>j k p. j < n \<and> k < n \<and> f j = Some p \<and> f k = Some p \<longrightarrow> j = k)"

definition owners_ok :: "(nat \<Rightarrow> nat) \<Rightarrow> (nat \<Rightarrow> bool) \<Rightarrow> nat \<Rightarrow> nat \<Rightarrow> (nat \<Rightarrow> nat option) \<Rightarrow> (nat \<Rightarrow> nat option) \<Rightarrow> nat \<Rightarrow> bool" where
  "owners_ok P F C T e d n \<longleftrightarrow> (\<forall>i < C. \<not> F i \<and> P i < T \<longrightarrow> P i \<in> held e n) \<and> apart e n \<and> apart d n"

definition out_ok :: "(nat \<Rightarrow> nat) \<Rightarrow> (nat \<Rightarrow> bool) \<Rightarrow> nat \<Rightarrow> nat \<Rightarrow> 'a list \<Rightarrow> (nat \<times> 'a) list \<Rightarrow> (nat \<Rightarrow> nat option) \<Rightarrow> nat \<Rightarrow> bool" where
  "out_ok P F C H ins out d n \<longleftrightarrow> distinct (map fst out) \<and> (\<forall>i < C. F i \<longrightarrow> P i \<notin> fst ` set out) \<and> (\<forall>(p, x) \<in> set out. x = ins ! p)
     \<and> fst ` set out \<union> held d n = {..<H} \<and> fst ` set out \<inter> held d n = {}"

definition queue_ok :: "nat \<Rightarrow> nat \<Rightarrow> nat \<Rightarrow> 'a mqueue \<Rightarrow> bool" where
  "queue_ok C T H q \<longleftrightarrow> pow2 (mq_capacity q) \<and> 2 \<le> C \<and> unat (mq_capacity q) = C \<and> mq_mask q = mq_capacity q - 1
     \<and> length (mq_buffer q) = C \<and> mq_tail q = of_nat T \<and> mq_head q = of_nat H \<and> H \<le> T \<and> T \<le> H + C"

definition ms_inv :: "(nat \<Rightarrow> nat) \<Rightarrow> (nat \<Rightarrow> bool) \<Rightarrow> nat \<Rightarrow> 'a mshared \<Rightarrow> bool" where
  "ms_inv P F C s \<longleftrightarrow> queue_ok C (length (ms_in s)) (ms_taken s) (ms_q s)
     \<and> (\<forall>i < C. cell_ok P F C (length (ms_in s)) (ms_taken s) (ms_in s) (mq_buffer (ms_q s)) i)
     \<and> (\<forall>k < length (ms_threads s).
          thread_ok P F C (length (ms_in s)) (ms_taken s) (ms_in s) (mq_buffer (ms_q s)) (ms_threads s ! k))
     \<and> owners_ok P F C (length (ms_in s)) (\<lambda>k. enq_at (ms_threads s ! k)) (\<lambda>k. deq_at (ms_threads s ! k)) (length (ms_threads s))
     \<and> out_ok P F C (ms_taken s) (ms_in s) (ms_out s) (\<lambda>k. deq_at (ms_threads s ! k)) (length (ms_threads s))"

lemma queue_ok_bounds:
  assumes "queue_ok C T H q"
  shows "C \<le> 2 ^ 31" "0 < C" "Suc 0 < C" "H \<le> T" "T \<le> H + C"
  using assms pow2_u32_bound [of "mq_capacity q"] by (auto simp: queue_ok_def)

lemma mq_index_of_nat:
  assumes "queue_ok C T H q"
  shows "mq_index q (of_nat p) = p mod C"
proof -
  have p: "pow2 (mq_capacity q)" "unat (mq_capacity q) = C" "mq_mask q = mq_capacity q - 1"
    using assms by (auto simp: queue_ok_def)
  have "unat (of_nat p :: u32) mod C = p mod C"
    using pow2_dvd [OF p(1)] p(2) by (simp add: unat_of_nat mod_mod_cancel)
  then show ?thesis using unat_and_mask [OF p(1), of "of_nat p"] p by (simp add: mq_index_def)
qed

lemma of_nat_near:
  assumes "a < b + 2 ^ 32" "b < a + 2 ^ 32" "(of_nat a :: u32) = of_nat b"
  shows "a = b"
proof -
  have m: "a mod 2 ^ 32 = b mod 2 ^ 32" using arg_cong [OF assms(3), of unat] by (simp add: unat_of_nat)
  show ?thesis
  proof (cases "a \<le> b")
    case True
    then have "(2 :: nat) ^ 32 dvd b - a" using m [symmetric] by (simp add: mod_eq_dvd_iff_nat)
    moreover have "b - a < 2 ^ 32" using assms(2) True by (simp add: less_diff_conv2 add.commute)
    ultimately show ?thesis using True by (auto dest!: nat_dvd_not_less [rotated])
  next
    case False
    then have "(2 :: nat) ^ 32 dvd a - b" using m by (simp add: mod_eq_dvd_iff_nat)
    moreover have "a - b < 2 ^ 32" using assms(1) False by (simp add: less_diff_conv2 add.commute)
    moreover have "0 < a - b" using False by simp
    ultimately show ?thesis using nat_dvd_not_less by blast
  qed
qed

lemma mod_Suc_neq: "Suc 0 < C \<Longrightarrow> Suc n mod C \<noteq> n mod C" for C n :: nat
  by (simp add: mod_Suc)

text \<open>A sequence number that matches says which round the cell is in.\<close>

lemma seen_free:
  assumes q: "queue_ok C T H q" and c: "cell_ok P F C T H ins buf (p mod C)" and p: "p \<le> T" "awake T p"
    and seq: "cell_sequence (buf ! (p mod C)) = of_nat p"
  shows "P (p mod C) = p \<and> \<not> F (p mod C)"
proof -
  let ?i = "p mod C"
  note b = queue_ok_bounds [OF q]
  have P: "P ?i mod C = ?i" "T \<le> P ?i + C" "P ?i < H + C" "cell_sequence (buf ! ?i) = of_nat (P ?i + (if F ?i then 1 else 0))"
    using c by (simp_all add: cell_ok_def)
  have "P ?i + (if F ?i then 1 else 0) = p"
    by (rule of_nat_near) (use P seq p b in \<open>auto simp: awake_def\<close>)
  with mod_Suc_neq [OF b(3), of "P ?i"] P(1) show ?thesis by (cases "F ?i") auto
qed

lemma seen_full:
  assumes q: "queue_ok C T H q" and c: "cell_ok P F C T H ins buf (p mod C)" and p: "p \<le> H" "awake H p"
    and seq: "cell_sequence (buf ! (p mod C)) = of_nat p + 1"
  shows "P (p mod C) = p \<and> F (p mod C)"
proof -
  let ?i = "p mod C"
  note b = queue_ok_bounds [OF q]
  have P: "P ?i mod C = ?i" "T \<le> P ?i + C" "P ?i < H + C" "cell_sequence (buf ! ?i) = of_nat (P ?i + (if F ?i then 1 else 0))"
    using c by (simp_all add: cell_ok_def)
  have "P ?i + (if F ?i then 1 else 0) = p + 1"
    by (rule of_nat_near) (use P seq p b in \<open>auto simp: awake_def add.commute\<close>)
  with mod_Suc_neq [OF b(3), of p] P(1) show ?thesis by (cases "F ?i") auto
qed

text \<open>Giving a position to a thread and taking it back.\<close>

lemma at_update: "j < length ts \<Longrightarrow> (\<lambda>k. g (ts[j := t] ! k)) = (\<lambda>k. g (ts ! k))(j := g t)"
  by (auto simp: fun_eq_iff nth_list_update)

lemma held_give: "j < n \<Longrightarrow> f j = None \<Longrightarrow> held (f(j := Some p)) n = insert p (held f n)"
  by (auto simp: held_def) (metis option.distinct(1))

lemma held_return: "j < n \<Longrightarrow> f j = Some p \<Longrightarrow> apart f n \<Longrightarrow> held (f(j := None)) n = held f n - {p}"
  by (auto simp: held_def apart_def) (metis option.inject)

lemma apart_give: "apart f n \<Longrightarrow> p \<notin> held f n \<Longrightarrow> apart (f(j := Some p)) n"
  by (auto simp: held_def apart_def)

lemma apart_return: "apart f n \<Longrightarrow> apart (f(j := None)) n"
  by (auto simp: apart_def)

lemma ms_inv_move:
  assumes inv: "ms_inv P F C s" and j: "j < length (ms_threads s)"
    and own: "enq_at t = enq_at (ms_threads s ! j)" "deq_at t = deq_at (ms_threads s ! j)"
    and t: "thread_ok P F C (length (ms_in s)) (ms_taken s) (ms_in s) (mq_buffer (ms_q s)) t"
  shows "ms_inv P F C (set_thread j t s)"
proof -
  have "(\<lambda>k. enq_at ((ms_threads s)[j := t] ! k)) = (\<lambda>k. enq_at (ms_threads s ! k))"
    "(\<lambda>k. deq_at ((ms_threads s)[j := t] ! k)) = (\<lambda>k. deq_at (ms_threads s ! k))"
    using own by (simp_all add: at_update [OF j] fun_upd_idem)
  with inv t j show ?thesis unfolding ms_inv_def set_thread_def by (auto simp: nth_list_update)
qed

text \<open>
  A producer that claims position \<open>T\<close>, a publication, a consumer's claim of position \<open>H\<close>
  and a release, as changes of the cells and of the other threads.
\<close>

lemma ms_inv_claim:
  assumes inv: "ms_inv P F C s" and j: "j < length (ms_threads s)" and t: "ms_threads s ! j = Enq_Cas x pos p"
    and tail: "mq_tail (ms_q s) = pos" and awake: "awake (length (ms_in s)) p"
  shows "ms_inv P F C (set_thread j (Enq_Write x pos p)
      (s\<lparr>ms_q := (ms_q s)\<lparr>mq_tail := pos + 1\<rparr>, ms_in := ms_in s @ [x]\<rparr>))"
proof -
  let ?T = "length (ms_in s)" and ?H = "ms_taken s" and ?ts = "ms_threads s" and ?buf = "mq_buffer (ms_q s)"
  let ?e = "\<lambda>k. enq_at (?ts ! k)" and ?d = "\<lambda>k. deq_at (?ts ! k)" and ?n = "length ?ts"
  have q: "queue_ok C ?T ?H (ms_q s)" and cells: "\<forall>i < C. cell_ok P F C ?T ?H (ms_in s) ?buf i"
    and threads: "\<forall>k < length ?ts. thread_ok P F C ?T ?H (ms_in s) ?buf (?ts ! k)"
    and owners: "owners_ok P F C ?T ?e ?d ?n" and out: "out_ok P F C ?H (ms_in s) (ms_out s) ?d ?n"
    using inv by (simp_all add: ms_inv_def)
  note b = queue_ok_bounds [OF q]
  have c: "pos = of_nat p" "p \<le> ?T" "p = ?T \<longrightarrow> P (p mod C) = p \<and> \<not> F (p mod C)" using threads j t by auto
  have "(of_nat ?T :: u32) = of_nat p" using q tail c(1) by (simp add: queue_ok_def)
  then have pT: "p = ?T" using of_nat_near [of ?T p] awake c(2) by (auto simp: awake_def)
  then have P: "P (?T mod C) = ?T" "\<not> F (?T mod C)" using c(3) by auto
  have i0: "?T mod C < C" using b by simp
  have other: "?T < P i + C" if "i < C" for i
  proof (rule ccontr)
    assume "\<not> ?T < P i + C"
    then have e: "?T = P i + C" using cells that by (auto simp: cell_ok_def)
    then have "?T mod C = i" using cells that by (auto simp: cell_ok_def)
    then show False using P e b by auto
  qed
  have "?T < ?H + C" using cells i0 P by (auto simp: cell_ok_def)
  then have q': "queue_ok C (Suc ?T) ?H ((ms_q s)\<lparr>mq_tail := pos + 1\<rparr>)"
    using q c(1) pT by (auto simp: queue_ok_def add.commute)
  have cells': "cell_ok P F C (Suc ?T) ?H (ms_in s @ [x]) ?buf i" if "i < C" for i
    using cells other [OF that] that by (auto simp: cell_ok_def nth_append)
  have "thread_ok P F C (Suc ?T) ?H (ms_in s @ [x]) ?buf (?ts ! k)" if "k < length ?ts" for k
    using threads [rule_format, OF that] by (cases "?ts ! k") (use out b in \<open>auto simp: nth_append\<close>)
  moreover have "thread_ok P F C (Suc ?T) ?H (ms_in s @ [x]) ?buf (Enq_Write x pos p)" using P c(1) pT by simp
  ultimately have threads': "\<forall>k < length ?ts. thread_ok P F C (Suc ?T) ?H (ms_in s @ [x]) ?buf (?ts[j := Enq_Write x pos p] ! k)"
    using j by (auto simp: nth_list_update)
  have fresh: "enq_at (?ts ! k) \<noteq> Some ?T" if "k < length ?ts" for k
    using threads [rule_format, OF that] by (cases "?ts ! k") auto
  have at: "(\<lambda>k. enq_at (?ts[j := Enq_Write x pos p] ! k)) = ?e(j := Some ?T)"
    "(\<lambda>k. deq_at (?ts[j := Enq_Write x pos p] ! k)) = ?d"
    using t pT j by (auto simp: fun_eq_iff nth_list_update)
  have "?T \<notin> held ?e ?n" using fresh by (auto simp: held_def)
  then have "owners_ok P F C (Suc ?T) (?e(j := Some ?T)) ?d ?n"
    using owners held_give [OF j, of ?e] apart_give [of ?e ?n] t by (auto simp: owners_ok_def less_Suc_eq)
  moreover have "\<forall>p \<in> fst ` set (ms_out s). p < ?H" using out by (auto simp: out_ok_def)
  then have "out_ok P F C ?H (ms_in s @ [x]) (ms_out s) ?d ?n"
    using out b(4) by (auto simp: out_ok_def nth_append split: prod.splits)
  ultimately show ?thesis
    using q' cells' threads' by (simp add: ms_inv_def set_thread_def at)
qed

lemma ms_inv_take:
  assumes inv: "ms_inv P F C s" and j: "j < length (ms_threads s)" and t: "ms_threads s ! j = Deq_Cas pos p"
    and head: "mq_head (ms_q s) = pos" and awake: "awake (ms_taken s) p"
  shows "ms_inv P F C (set_thread j (Deq_Read pos p)
      (s\<lparr>ms_q := (ms_q s)\<lparr>mq_head := pos + 1\<rparr>, ms_taken := ms_taken s + 1\<rparr>))"
proof -
  let ?T = "length (ms_in s)" and ?H = "ms_taken s" and ?ts = "ms_threads s" and ?buf = "mq_buffer (ms_q s)"
  let ?e = "\<lambda>k. enq_at (?ts ! k)" and ?d = "\<lambda>k. deq_at (?ts ! k)" and ?n = "length ?ts"
  have q: "queue_ok C ?T ?H (ms_q s)" and cells: "\<forall>i < C. cell_ok P F C ?T ?H (ms_in s) ?buf i"
    and threads: "\<forall>k < length ?ts. thread_ok P F C ?T ?H (ms_in s) ?buf (?ts ! k)"
    and owners: "owners_ok P F C ?T ?e ?d ?n" and out: "out_ok P F C ?H (ms_in s) (ms_out s) ?d ?n"
    using inv by (simp_all add: ms_inv_def)
  note b = queue_ok_bounds [OF q]
  have c: "pos = of_nat p" "p \<le> ?H" "p = ?H \<longrightarrow> P (p mod C) = p \<and> F (p mod C)" using threads j t by auto
  have "(of_nat ?H :: u32) = of_nat p" using q head c(1) by (simp add: queue_ok_def)
  then have pH: "p = ?H" using of_nat_near [of ?H p] awake c(2) by (auto simp: awake_def)
  then have P: "P (?H mod C) = ?H" "F (?H mod C)" using c(3) by auto
  have i0: "?H mod C < C" using b by simp
  have HT: "?H < ?T" using cells i0 P by (auto simp: cell_ok_def)
  have q': "queue_ok C ?T (Suc ?H) ((ms_q s)\<lparr>mq_head := pos + 1\<rparr>)"
    using q HT c(1) pH by (auto simp: queue_ok_def add.commute)
  have "Suc ?H \<le> P i" if "i < C" "\<not> F i" for i
  proof -
    have "?H \<le> P i" "P i mod C = i" using cells that by (auto simp: cell_ok_def)
    moreover have "P i \<noteq> ?H" using P that calculation(2) by auto
    ultimately show ?thesis by simp
  qed
  then have cells': "cell_ok P F C ?T (Suc ?H) (ms_in s) ?buf i" if "i < C" for i
    using cells that by (auto simp: cell_ok_def)
  have "thread_ok P F C ?T (Suc ?H) (ms_in s) ?buf (?ts ! k)" if "k < length ?ts" for k
    using threads [rule_format, OF that] by (cases "?ts ! k") auto
  moreover have "thread_ok P F C ?T (Suc ?H) (ms_in s) ?buf (Deq_Read pos p)" using P c(1) pH by simp
  ultimately have threads': "\<forall>k < length ?ts. thread_ok P F C ?T (Suc ?H) (ms_in s) ?buf (?ts[j := Deq_Read pos p] ! k)"
    using j by (auto simp: nth_list_update)
  have fresh: "deq_at (?ts ! k) \<noteq> Some ?H" if "k < length ?ts" for k
    using threads [rule_format, OF that] by (cases "?ts ! k") auto
  have at: "(\<lambda>k. enq_at (?ts[j := Deq_Read pos p] ! k)) = ?e"
    "(\<lambda>k. deq_at (?ts[j := Deq_Read pos p] ! k)) = ?d(j := Some ?H)"
    using t pH j by (auto simp: fun_eq_iff nth_list_update)
  have new: "?H \<notin> held ?d ?n" using fresh by (auto simp: held_def)
  have "owners_ok P F C ?T ?e (?d(j := Some ?H)) ?n"
    using owners apart_give [OF _ new] by (simp add: owners_ok_def)
  moreover have "held (?d(j := Some ?H)) ?n = insert ?H (held ?d ?n)" by (rule held_give [OF j]) (simp add: t)
  then have "out_ok P F C (Suc ?H) (ms_in s) (ms_out s) (?d(j := Some ?H)) ?n"
    using out new by (auto simp: out_ok_def)
  ultimately show ?thesis using q' cells' threads' by (simp add: ms_inv_def set_thread_def at)
qed

text \<open>Steps on the cell of position \<open>p\<close>: the other cells and the threads on them stay as they are.\<close>

lemma other_cell:
  assumes "cell_ok P F C T H ins buf i" "i \<noteq> p mod C" "P' i = P i" "F' i = F i"
  shows "cell_ok P' F' C T H ins (buf[p mod C := c]) i"
  using assms by (auto simp: cell_ok_def)

lemma other_thread:
  assumes t: "thread_ok P F C T H ins buf t" and enq: "enq_at t \<noteq> Some (P (p mod C))" and deq: "deq_at t \<noteq> Some (P (p mod C))"
    and cas: "\<And>x pos r. t = Enq_Cas x pos r \<Longrightarrow> r = T \<Longrightarrow> r mod C \<noteq> p mod C" "\<And>pos r. t = Deq_Cas pos r \<Longrightarrow> r = H \<Longrightarrow> r mod C \<noteq> p mod C"
    and same: "\<And>i. i \<noteq> p mod C \<Longrightarrow> P' i = P i \<and> F' i = F i"
  shows "thread_ok P' F' C T H ins (buf[p mod C := c]) t"
proof (cases t)
  case (Enq_Cas x pos r)
  with t cas(1) same show ?thesis by auto
next
  case (Deq_Cas pos r)
  with t cas(2) same show ?thesis by auto
next
  case (Enq_Write x pos r)
  with t enq have "r mod C \<noteq> p mod C" by auto
  with Enq_Write t same show ?thesis by simp
next
  case (Enq_Publish pos r)
  with t enq have "r mod C \<noteq> p mod C" by auto
  with Enq_Publish t same show ?thesis by simp
next
  case (Deq_Read pos r)
  with t deq have "r mod C \<noteq> p mod C" by auto
  with Deq_Read t same show ?thesis by simp
next
  case (Deq_Release pos r x)
  with t deq have "r mod C \<noteq> p mod C" by auto
  with Deq_Release t same show ?thesis by simp
qed (use t in auto)

lemma cells_step:
  assumes inv: "ms_inv P F C s" and j: "j < length (ms_threads s)" and p: "P (p mod C) = p" "p < length (ms_in s)" "pos = of_nat p"
    and busy: "\<not> F (p mod C) \<or> p < ms_taken s"
    and alone: "\<And>k. k < length (ms_threads s) \<Longrightarrow> k \<noteq> j \<Longrightarrow> enq_at (ms_threads s ! k) \<noteq> Some p \<and> deq_at (ms_threads s ! k) \<noteq> Some p"
    and same: "\<And>i. i \<noteq> p mod C \<Longrightarrow> P' i = P i \<and> F' i = F i"
    and cell: "cell_ok P' F' C (length (ms_in s)) (ms_taken s) (ms_in s) ((mq_buffer (ms_q s))[p mod C := c]) (p mod C)"
    and t: "thread_ok P' F' C (length (ms_in s)) (ms_taken s) (ms_in s) ((mq_buffer (ms_q s))[p mod C := c]) t"
  defines "s' \<equiv> set_thread j t (set_cell pos c s)"
  shows "queue_ok C (length (ms_in s')) (ms_taken s') (ms_q s')"
    and "\<forall>i < C. cell_ok P' F' C (length (ms_in s')) (ms_taken s') (ms_in s') (mq_buffer (ms_q s')) i"
    and "\<forall>k < length (ms_threads s'). thread_ok P' F' C (length (ms_in s')) (ms_taken s') (ms_in s') (mq_buffer (ms_q s')) (ms_threads s' ! k)"
proof -
  let ?T = "length (ms_in s)" and ?H = "ms_taken s" and ?ts = "ms_threads s" and ?buf = "mq_buffer (ms_q s)"
  have q: "queue_ok C ?T ?H (ms_q s)" and cells: "\<forall>i < C. cell_ok P F C ?T ?H (ms_in s) ?buf i"
    and threads: "\<forall>k < length ?ts. thread_ok P F C ?T ?H (ms_in s) ?buf (?ts ! k)"
    using inv by (simp_all add: ms_inv_def)
  have s': "s' = s\<lparr>ms_q := (ms_q s)\<lparr>mq_buffer := ?buf[p mod C := c]\<rparr>, ms_threads := ?ts[j := t]\<rparr>"
    by (simp add: s'_def set_thread_def set_cell_def p(3) mq_index_of_nat [OF q])
  show "queue_ok C (length (ms_in s')) (ms_taken s') (ms_q s')" using q by (simp add: s' queue_ok_def)
  have "cell_ok P' F' C ?T ?H (ms_in s) (?buf[p mod C := c]) i" if "i < C" for i
  proof (cases "i = p mod C")
    case False
    with cells that same [OF False] show ?thesis by (intro other_cell [of P F]) auto
  qed (use cell in simp)
  then show "\<forall>i < C. cell_ok P' F' C (length (ms_in s')) (ms_taken s') (ms_in s') (mq_buffer (ms_q s')) i" by (simp add: s')
  have "thread_ok P' F' C ?T ?H (ms_in s) (?buf[p mod C := c]) (?ts ! k)" if k: "k < length ?ts" "k \<noteq> j" for k
  proof (rule other_thread [OF threads [rule_format, OF k(1)]])
    show "enq_at (?ts ! k) \<noteq> Some (P (p mod C))" "deq_at (?ts ! k) \<noteq> Some (P (p mod C))" using alone [OF k] p(1) by auto
  next
    fix x pos r
    assume a: "?ts ! k = Enq_Cas x pos r" "r = ?T"
    then have "P (r mod C) = r" using threads k(1) by force
    then show "r mod C \<noteq> p mod C" using p a(2) by auto
  next
    fix pos r
    assume a: "?ts ! k = Deq_Cas pos r" "r = ?H"
    then have r: "P (r mod C) = r" "F (r mod C)" using threads k(1) by force+
    show "r mod C \<noteq> p mod C"
    proof
      assume e: "r mod C = p mod C"
      have "r = p" using r(1) p(1) unfolding e by simp
      moreover have "F (p mod C)" using r(2) unfolding e .
      ultimately show False using busy a(2) by simp
    qed
  qed (use same in auto)
  with t j show "\<forall>k < length (ms_threads s'). thread_ok P' F' C (length (ms_in s')) (ms_taken s') (ms_in s')
      (mq_buffer (ms_q s')) (ms_threads s' ! k)"
    by (auto simp: s' nth_list_update)
qed

text \<open>A producer's cell is held by no other thread, and neither is a consumer's.\<close>

lemma alone_enq:
  assumes inv: "ms_inv P F C s" and j: "j < length (ms_threads s)" "enq_at (ms_threads s ! j) = Some p"
    and k: "k < length (ms_threads s)" "k \<noteq> j"
  shows "enq_at (ms_threads s ! k) \<noteq> Some p \<and> deq_at (ms_threads s ! k) \<noteq> Some p"
proof -
  have "thread_ok P F C (length (ms_in s)) (ms_taken s) (ms_in s) (mq_buffer (ms_q s)) (ms_threads s ! i)"
    if "i < length (ms_threads s)" for i using inv that by (simp add: ms_inv_def)
  from this [OF j(1)] this [OF k(1)] j(2) have "deq_at (ms_threads s ! k) \<noteq> Some p"
    by (cases "ms_threads s ! j"; cases "ms_threads s ! k") auto
  moreover have "apart (\<lambda>k. enq_at (ms_threads s ! k)) (length (ms_threads s))" using inv by (simp add: ms_inv_def owners_ok_def)
  then have "enq_at (ms_threads s ! k) \<noteq> Some p" using j k by (auto simp: apart_def)
  ultimately show ?thesis by simp
qed

lemma alone_deq:
  assumes inv: "ms_inv P F C s" and j: "j < length (ms_threads s)" "deq_at (ms_threads s ! j) = Some p"
    and k: "k < length (ms_threads s)" "k \<noteq> j"
  shows "enq_at (ms_threads s ! k) \<noteq> Some p \<and> deq_at (ms_threads s ! k) \<noteq> Some p"
proof -
  have "thread_ok P F C (length (ms_in s)) (ms_taken s) (ms_in s) (mq_buffer (ms_q s)) (ms_threads s ! i)"
    if "i < length (ms_threads s)" for i using inv that by (simp add: ms_inv_def)
  from this [OF j(1)] this [OF k(1)] j(2) have "enq_at (ms_threads s ! k) \<noteq> Some p"
    by (cases "ms_threads s ! j"; cases "ms_threads s ! k") auto
  moreover have "apart (\<lambda>k. deq_at (ms_threads s ! k)) (length (ms_threads s))" using inv by (simp add: ms_inv_def owners_ok_def)
  then have "deq_at (ms_threads s ! k) \<noteq> Some p" using j k by (auto simp: apart_def)
  ultimately show ?thesis by simp
qed

lemma ms_inv_write:
  assumes inv: "ms_inv P F C s" and j: "j < length (ms_threads s)" and t: "ms_threads s ! j = Enq_Write x pos p"
  shows "ms_inv P F C (set_thread j (Enq_Publish pos p) (set_cell pos ((cell_at s pos)\<lparr>cell_value := x\<rparr>) s))"
proof -
  let ?T = "length (ms_in s)" and ?H = "ms_taken s" and ?ts = "ms_threads s" and ?buf = "mq_buffer (ms_q s)"
  have q: "queue_ok C ?T ?H (ms_q s)" and cells: "\<forall>i < C. cell_ok P F C ?T ?H (ms_in s) ?buf i"
    and threads: "\<forall>k < length ?ts. thread_ok P F C ?T ?H (ms_in s) ?buf (?ts ! k)"
    using inv by (simp_all add: ms_inv_def)
  have tj: "pos = of_nat p" "p < ?T" "P (p mod C) = p" "\<not> F (p mod C)" "ms_in s ! p = x" using threads j t by force+
  have i0: "p mod C < C" using queue_ok_bounds [OF q] by simp
  have len: "length ?buf = C" using q by (simp add: queue_ok_def)
  have alone: "enq_at (?ts ! k) \<noteq> Some p \<and> deq_at (?ts ! k) \<noteq> Some p" if "k < length ?ts" "k \<noteq> j" for k
    by (rule alone_enq [OF inv j _ that]) (simp add: t)
  have c: "cell_at s pos = ?buf ! (p mod C)" by (simp add: tj(1) mq_index_of_nat [OF q])
  let ?c = "(cell_at s pos)\<lparr>cell_value := x\<rparr>"
  have cell: "cell_ok P F C ?T ?H (ms_in s) (?buf[p mod C := ?c]) (p mod C)"
    using cells i0 len tj(4) c by (auto simp: cell_ok_def)
  have "thread_ok P F C ?T ?H (ms_in s) (?buf[p mod C := ?c]) (Enq_Publish pos p)" using tj i0 len by simp
  note steps = cells_step [OF inv j tj(3,2,1) disjI1 [OF tj(4)] alone _ cell this, simplified]
  have "(\<lambda>k. enq_at (?ts[j := Enq_Publish pos p] ! k)) = (\<lambda>k. enq_at (?ts ! k))"
    "(\<lambda>k. deq_at (?ts[j := Enq_Publish pos p] ! k)) = (\<lambda>k. deq_at (?ts ! k))"
    using t j by (auto simp: fun_eq_iff nth_list_update)
  with steps inv show ?thesis unfolding ms_inv_def by (simp add: set_thread_def set_cell_def)
qed

lemma ms_inv_publish:
  assumes inv: "ms_inv P F C s" and j: "j < length (ms_threads s)" and t: "ms_threads s ! j = Enq_Publish pos p"
  shows "ms_inv P (F(p mod C := True)) C
    (set_thread j M_Idle (set_cell pos ((cell_at s pos)\<lparr>cell_sequence := pos + 1\<rparr>) s))"
proof -
  let ?T = "length (ms_in s)" and ?H = "ms_taken s" and ?ts = "ms_threads s" and ?buf = "mq_buffer (ms_q s)"
  let ?e = "\<lambda>k. enq_at (?ts ! k)" and ?d = "\<lambda>k. deq_at (?ts ! k)" and ?n = "length ?ts"
  let ?F = "F(p mod C := True)"
  have q: "queue_ok C ?T ?H (ms_q s)" and cells: "\<forall>i < C. cell_ok P F C ?T ?H (ms_in s) ?buf i"
    and threads: "\<forall>k < length ?ts. thread_ok P F C ?T ?H (ms_in s) ?buf (?ts ! k)"
    and owners: "owners_ok P F C ?T ?e ?d ?n" and out: "out_ok P F C ?H (ms_in s) (ms_out s) ?d ?n"
    using inv by (simp_all add: ms_inv_def)
  have tj: "pos = of_nat p" "p < ?T" "P (p mod C) = p" "\<not> F (p mod C)" "cell_value (?buf ! (p mod C)) = ms_in s ! p"
    using threads j t by force+
  have i0: "p mod C < C" using queue_ok_bounds [OF q] by simp
  have len: "length ?buf = C" using q by (simp add: queue_ok_def)
  have alone: "?e k \<noteq> Some p \<and> ?d k \<noteq> Some p" if "k < length ?ts" "k \<noteq> j" for k
    by (rule alone_enq [OF inv j _ that]) (simp add: t)
  have c: "cell_at s pos = ?buf ! (p mod C)" by (simp add: tj(1) mq_index_of_nat [OF q])
  let ?c = "(cell_at s pos)\<lparr>cell_sequence := pos + 1\<rparr>"
  have cell: "cell_ok P ?F C ?T ?H (ms_in s) (?buf[p mod C := ?c]) (p mod C)"
    using cells [rule_format, OF i0] i0 len tj c by (simp add: cell_ok_def add.commute)
  have idle: "thread_ok P ?F C ?T ?H (ms_in s) (?buf[p mod C := ?c]) M_Idle" by simp
  have same: "P i = P i \<and> ?F i = F i" if "i \<noteq> p mod C" for i using that by simp
  note steps = cells_step [OF inv j tj(3,2,1) disjI1 [OF tj(4)] alone same cell idle]
  have at: "(\<lambda>k. enq_at (?ts[j := M_Idle] ! k)) = ?e(j := None)" "(\<lambda>k. deq_at (?ts[j := M_Idle] ! k)) = ?d"
    using t j by (auto simp: fun_eq_iff nth_list_update)
  have ej: "?e j = Some p" "apart ?e ?n" using t owners by (simp_all add: owners_ok_def)
  have "owners_ok P ?F C ?T (?e(j := None)) ?d ?n"
    unfolding owners_ok_def
  proof (intro conjI allI impI)
    fix i assume i: "i < C" "\<not> ?F i \<and> P i < ?T"
    then have "P i \<in> held ?e ?n" using owners by (auto simp: owners_ok_def split: if_splits)
    moreover have "P i mod C = i" using cells i(1) by (simp add: cell_ok_def)
    then have "P i \<noteq> p" using i(2) by auto
    ultimately show "P i \<in> held (?e(j := None)) ?n" by (simp add: held_return [OF j ej])
  qed (use owners ej apart_return in \<open>auto simp: owners_ok_def\<close>)
  moreover have pH: "?H \<le> p" using cells [rule_format, OF i0] tj(3,4) by (simp add: cell_ok_def)
  have "fst ` set (ms_out s) \<subseteq> {..<?H}" using out unfolding out_ok_def by blast
  then have "P (p mod C) \<notin> fst ` set (ms_out s)" using pH by (subst tj(3)) fastforce
  then have "out_ok P ?F C ?H (ms_in s) (ms_out s) ?d ?n" using out unfolding out_ok_def by simp
  ultimately show ?thesis using steps unfolding ms_inv_def by (simp add: set_thread_def set_cell_def at)
qed

lemma ms_inv_release:
  assumes inv: "ms_inv P F C s" and j: "j < length (ms_threads s)" and t: "ms_threads s ! j = Deq_Release pos p x"
  shows "ms_inv (P(p mod C := p + C)) (F(p mod C := False)) C
    (set_thread j M_Idle ((set_cell pos ((cell_at s pos)\<lparr>cell_sequence := pos + mq_capacity (ms_q s)\<rparr>) s)
      \<lparr>ms_out := ms_out s @ [(p, x)]\<rparr>))"
proof -
  let ?T = "length (ms_in s)" and ?H = "ms_taken s" and ?ts = "ms_threads s" and ?buf = "mq_buffer (ms_q s)"
  let ?e = "\<lambda>k. enq_at (?ts ! k)" and ?d = "\<lambda>k. deq_at (?ts ! k)" and ?n = "length ?ts"
  let ?P = "P(p mod C := p + C)" and ?F = "F(p mod C := False)"
  have q: "queue_ok C ?T ?H (ms_q s)" and cells: "\<forall>i < C. cell_ok P F C ?T ?H (ms_in s) ?buf i"
    and threads: "\<forall>k < length ?ts. thread_ok P F C ?T ?H (ms_in s) ?buf (?ts ! k)"
    and owners: "owners_ok P F C ?T ?e ?d ?n" and out: "out_ok P F C ?H (ms_in s) (ms_out s) ?d ?n"
    using inv by (simp_all add: ms_inv_def)
  note b = queue_ok_bounds [OF q]
  have tj: "pos = of_nat p" "p < ?H" "P (p mod C) = p" "F (p mod C)" "x = ms_in s ! p" using threads j t by force+
  have i0: "p mod C < C" using b by simp
  have pT: "p < ?T" using tj(2) b by simp
  have len: "length ?buf = C" using q by (simp add: queue_ok_def)
  have alone: "?e k \<noteq> Some p \<and> ?d k \<noteq> Some p" if "k < length ?ts" "k \<noteq> j" for k
    by (rule alone_deq [OF inv j _ that]) (simp add: t)
  have c: "cell_at s pos = ?buf ! (p mod C)" by (simp add: tj(1) mq_index_of_nat [OF q])
  let ?c = "(cell_at s pos)\<lparr>cell_sequence := pos + mq_capacity (ms_q s)\<rparr>"
  have "C = unat (mq_capacity (ms_q s))" using q by (simp add: queue_ok_def)
  then have cap: "mq_capacity (ms_q s) = of_nat C" by simp
  have pC: "?T \<le> p + C" using cells [rule_format, OF i0] tj(3) by (simp add: cell_ok_def)
  have cell: "cell_ok ?P ?F C ?T ?H (ms_in s) (?buf[p mod C := ?c]) (p mod C)"
    using i0 len tj(2) b(4) pC by (simp add: cell_ok_def tj(1) cap)
  have idle: "thread_ok ?P ?F C ?T ?H (ms_in s) (?buf[p mod C := ?c]) M_Idle" by simp
  have same: "?P i = P i \<and> ?F i = F i" if "i \<noteq> p mod C" for i using that by simp
  note steps = cells_step [OF inv j tj(3) pT tj(1) disjI2 [OF tj(2)] alone same cell idle]
  have at: "(\<lambda>k. enq_at (?ts[j := M_Idle] ! k)) = ?e" "(\<lambda>k. deq_at (?ts[j := M_Idle] ! k)) = ?d(j := None)"
    using t j by (auto simp: fun_eq_iff nth_list_update)
  have dj: "?d j = Some p" "apart ?d ?n" using t owners by (simp_all add: owners_ok_def)
  have "owners_ok ?P ?F C ?T ?e (?d(j := None)) ?n"
    using owners pC apart_return [OF dj(2)] unfolding owners_ok_def by auto
  moreover have other: "P i \<noteq> p" if "i < C" "i \<noteq> p mod C" for i using cells that by (auto simp: cell_ok_def)
  have "p \<in> held ?d ?n" using dj(1) j by (auto simp: held_def)
  then have "out_ok ?P ?F C ?H (ms_in s) (ms_out s @ [(p, x)]) (?d(j := None)) ?n"
    using out tj(5) other unfolding out_ok_def held_return [OF j dj] by auto
  ultimately show ?thesis using steps unfolding ms_inv_def by (simp add: set_thread_def set_cell_def at)
qed

text \<open>Every step keeps the invariant, for some assignment of positions to cells.\<close>

lemma mpmc_step_inv:
  assumes step: "mpmc_step j t s s'" and inv: "ms_inv P F C s" and j: "j < length (ms_threads s)" and t: "ms_threads s ! j = t"
  shows "\<exists>P' F'. ms_inv P' F' C s'"
proof -
  let ?T = "length (ms_in s)" and ?H = "ms_taken s" and ?buf = "mq_buffer (ms_q s)"
  have q: "queue_ok C ?T ?H (ms_q s)" and cells: "\<forall>i < C. cell_ok P F C ?T ?H (ms_in s) ?buf i"
    and tj: "thread_ok P F C ?T ?H (ms_in s) ?buf t"
    using inv j t by (auto simp: ms_inv_def)
  have q2: "mq_tail (ms_q s) = of_nat ?T" "mq_head (ms_q s) = of_nat ?H" using q by (simp_all add: queue_ok_def)
  have i: "p mod C < C" for p using queue_ok_bounds [OF q] by simp
  note move = ms_inv_move [OF inv j, unfolded t]
  from step show ?thesis
  proof cases
    case (me_seen p pos x)
    then have p: "pos = of_nat p" "p \<le> ?T" using tj by auto
    then have "cell_sequence (?buf ! (p mod C)) = of_nat p"
      using me_seen(4) by (simp add: enq_dif_def mq_dif_def mq_index_of_nat [OF q] signed_eq_0_iff)
    from seen_free [OF q cells [rule_format, OF i] p(2) me_seen(3) this] p me_seen(1,2) show ?thesis
      by (auto intro!: exI move)
  next
    case (md_seen p pos)
    then have p: "pos = of_nat p" "p \<le> ?H" using tj by auto
    then have "cell_sequence (?buf ! (p mod C)) = of_nat p + 1"
      using md_seen(4) by (simp add: deq_dif_def mq_dif_def mq_index_of_nat [OF q] signed_eq_0_iff)
    from seen_full [OF q cells [rule_format, OF i] p(2) md_seen(3) this] p md_seen(1,2) show ?thesis
      by (auto intro!: exI move)
  next
    case (me_claim p pos x)
    with ms_inv_claim [OF inv j] t show ?thesis by blast
  next
    case (md_claim p pos)
    with ms_inv_take [OF inv j] t show ?thesis by blast
  next
    case (me_write x pos p)
    with ms_inv_write [OF inv j] t show ?thesis by blast
  next
    case (me_publish pos p)
    with ms_inv_publish [OF inv j] t show ?thesis by blast
  next
    case (md_release pos p x)
    with ms_inv_release [OF inv j] t show ?thesis by blast
  next
    case (md_read pos p)
    have "pos = of_nat p" "p < ?H" "P (p mod C) = p" "F (p mod C)" using tj md_read by auto
    moreover from this have "cell_value (cell_at s pos) = ms_in s ! p"
      using cells [rule_format, OF i, of p] by (simp add: cell_ok_def mq_index_of_nat [OF q])
    ultimately show ?thesis using md_read by (auto intro!: exI move)
  qed (use q2 in \<open>auto intro!: exI move\<close>)
qed

subsection \<open>Nothing lost, nothing twice, first in first out\<close>

definition position :: "nat \<Rightarrow> nat" where "position i = i"

lemma mpmc_run_inv:
  assumes "mpmc_run d cap n s" "2 \<le> unat cap" "unat cap \<le> 2 ^ 31"
  shows "length (ms_threads s) = n \<and> (\<exists>P F. ms_inv P F (unat cap) s)"
  using assms(1)
proof (induction rule: mpmc_run.induct)
  case (mr_start q)
  have q: "mq_inv q" "mq_contents q = []" "mq_room q = unat cap" using mq_new_inv [OF mr_start assms(2,3)] by auto
  let ?s = "\<lparr>ms_q = q, ms_threads = replicate n M_Idle, ms_in = [], ms_taken = 0, ms_out = []\<rparr>"
  have new: "mq_tail q = 0" "mq_head q = 0" "\<forall>i < unat cap. cell_sequence (mq_buffer q ! i) = of_nat i"
    using mr_start by (auto simp: mq_new_def split: if_splits)
  have cap: "unat (mq_capacity q) = unat cap" using q(3) by (simp add: mq_room_def)
  have "ms_inv position (\<lambda>_. False) (unat cap) ?s"
    using q(1) new cap assms(2) unfolding ms_inv_def
    by (auto simp: queue_ok_def cell_ok_def owners_ok_def out_ok_def position_def mq_inv_def apart_def held_def)
  then show ?case by auto
next
  case (mr_step s j s')
  then obtain P F where "ms_inv P F (unat cap) s" "j < length (ms_threads s)" "length (ms_threads s) = n" by auto
  with mpmc_step_inv [OF mr_step(3) this(1,2) refl]
  have "\<exists>P F. ms_inv P F (unat cap) s'" by simp
  moreover have "length (ms_threads s') = length (ms_threads s)"
    using mr_step(3) by cases (simp_all add: set_thread_def set_cell_def)
  ultimately show ?case using \<open>length (ms_threads s) = n\<close> by simp
qed

text \<open>When no thread holds a position, the ring is in a state of the sequential model.\<close>

lemma ms_inv_quiet:
  assumes inv: "ms_inv P F C s" and quiet: "\<forall>t \<in> set (ms_threads s). enq_at t = None \<and> deq_at t = None"
  shows "mq_inv (ms_q s) \<and> mq_contents (ms_q s) = drop (ms_taken s) (ms_in s)"
proof -
  let ?T = "length (ms_in s)" and ?H = "ms_taken s" and ?q = "ms_q s" and ?buf = "mq_buffer (ms_q s)"
  have q: "queue_ok C ?T ?H ?q" and cells: "\<forall>i < C. cell_ok P F C ?T ?H (ms_in s) ?buf i"
    and owners: "owners_ok P F C ?T (\<lambda>k. enq_at (ms_threads s ! k)) (\<lambda>k. deq_at (ms_threads s ! k)) (length (ms_threads s))"
    and out: "out_ok P F C ?H (ms_in s) (ms_out s) (\<lambda>k. deq_at (ms_threads s ! k)) (length (ms_threads s))"
    using inv by (simp_all add: ms_inv_def)
  note b = queue_ok_bounds [OF q]
  have none: "held (\<lambda>k. enq_at (ms_threads s ! k)) (length (ms_threads s)) = {}"
    "held (\<lambda>k. deq_at (ms_threads s ! k)) (length (ms_threads s)) = {}" using quiet by (auto simp: held_def)
  have "mq_tail ?q - mq_head ?q = of_nat (?T - ?H)" using q b by (simp add: queue_ok_def of_nat_diff)
  moreover have "?T - ?H \<le> 2 ^ 31" using b by simp
  ultimately have count: "mq_count ?q = ?T - ?H" by (simp add: mq_count_def unat_of_nat del: of_nat_diff)
  have dvd: "C dvd 2 ^ 32" using q pow2_dvd [of "mq_capacity ?q"] by (simp add: queue_ok_def)
  have idx: "(unat (mq_head ?q) + i) mod C = (?H + i) mod C" for i
    using q dvd by (simp add: queue_ok_def unat_of_nat) (metis mod_add_left_eq mod_mod_cancel)
  have serves: "P ((?H + i) mod C) = ?H + i \<and> (F ((?H + i) mod C) \<longleftrightarrow> i < ?T - ?H)" if "i < C" for i
  proof -
    let ?i = "(?H + i) mod C"
    have i: "?i < C" using b by simp
    have c: "P ?i mod C = ?i" "?T \<le> P ?i + C" "P ?i < ?H + C" "F ?i \<longrightarrow> P ?i < ?T" "\<not> F ?i \<longrightarrow> ?H \<le> P ?i"
      using cells [rule_format, OF i] by (auto simp: cell_ok_def)
    have T: "\<not> F ?i \<Longrightarrow> ?T \<le> P ?i" using owners i none(1) by (auto simp: owners_ok_def not_less [symmetric])
    have gone: "fst ` set (ms_out s) = {..<?H}" using out none(2) by (simp add: out_ok_def)
    have "F ?i \<Longrightarrow> P ?i \<notin> fst ` set (ms_out s)" using out i unfolding out_ok_def by blast
    then have "?H \<le> P ?i" using c(5) gone by (cases "F ?i") auto
    then obtain k where k: "P ?i = ?H + k" using le_Suc_ex by blast
    then have "(?H + k) mod C = (?H + i) mod C" "k < C" using c(1,3) by auto
    then have "k = i" using ring_mod_eq_iff [of k i C ?H] ring_mod_eq_iff [of i k C ?H] that by (cases "k \<le> i") auto
    then show ?thesis using k c(4) T b(4) by (cases "F ?i") auto
  qed
  have cell: "mq_cell ?q i = ?buf ! ((?H + i) mod C)" for i using q idx by (simp add: mq_cell_def queue_ok_def)
  have pos: "(?H + i) mod C < C" for i using b by simp
  have seq: "cell_sequence (mq_cell ?q i) = mq_head ?q + of_nat i + (if i < mq_count ?q then 1 else 0)" if "i < C" for i
    using cells [rule_format, OF pos, of i] serves [OF that] q unfolding cell count
    by (simp add: cell_ok_def queue_ok_def)
  have "mq_inv ?q" using q b seq count unfolding mq_inv_def by (auto simp: queue_ok_def)
  moreover have "cell_value (?buf ! ((?H + i) mod C)) = ms_in s ! (?H + i)" if "i < ?T - ?H" for i
    using cells [rule_format, OF pos, of i] serves [of i] that b by (simp add: cell_ok_def)
  then have "mq_contents ?q = drop ?H (ms_in s)"
    using q idx by (intro nth_equalityI) (auto simp: mq_contents_def count ring_slice_nth queue_ok_def)
  ultimately show ?thesis by simp
qed

text \<open>The index of the cell a thread holds, between its claim of a position and its release.\<close>

fun cell_held :: "'a mthread \<Rightarrow> u32 option" where
  "cell_held (Enq_Write x pos p) = Some pos"
| "cell_held (Enq_Publish pos p) = Some pos"
| "cell_held (Deq_Read pos p) = Some pos"
| "cell_held (Deq_Release pos p x) = Some pos"
| "cell_held _ = None"

lemma cell_held_at:
  assumes inv: "ms_inv P F C s" and k: "k < length (ms_threads s)" and c: "cell_held (ms_threads s ! k) = Some a"
  shows "\<exists>p. (enq_at (ms_threads s ! k) = Some p \<or> deq_at (ms_threads s ! k) = Some p) \<and> P (p mod C) = p
    \<and> mq_index (ms_q s) a = p mod C"
proof -
  have q: "queue_ok C (length (ms_in s)) (ms_taken s) (ms_q s)" using inv by (simp add: ms_inv_def)
  have "thread_ok P F C (length (ms_in s)) (ms_taken s) (ms_in s) (mq_buffer (ms_q s)) (ms_threads s ! k)"
    using inv k by (simp add: ms_inv_def)
  then show ?thesis using c by (cases "ms_threads s ! k") (auto simp: mq_index_of_nat [OF q])
qed

text \<open>\<^verbatim>\<open>mpmc::queue\<close> is free of data races: under any interleaving of any number of
  producers and consumers, two threads between claim and release never work on the same cell.\<close>

theorem mpmc_threads_race_free:
  assumes "mpmc_run d cap n s" "2 \<le> unat cap" "unat cap \<le> 2 ^ 31"
    and "j < n" "k < n" "j \<noteq> k"
    and "cell_held (ms_threads s ! j) = Some a" "cell_held (ms_threads s ! k) = Some b"
  shows "mq_index (ms_q s) a \<noteq> mq_index (ms_q s) b"
proof -
  obtain P F where inv: "ms_inv P F (unat cap) s" and n: "length (ms_threads s) = n" using mpmc_run_inv [OF assms(1-3)] by blast
  obtain p where p: "enq_at (ms_threads s ! j) = Some p \<or> deq_at (ms_threads s ! j) = Some p"
    "P (p mod unat cap) = p" "mq_index (ms_q s) a = p mod unat cap"
    using cell_held_at [OF inv _ assms(7)] assms(4) n by blast
  obtain r where r: "enq_at (ms_threads s ! k) = Some r \<or> deq_at (ms_threads s ! k) = Some r"
    "P (r mod unat cap) = r" "mq_index (ms_q s) b = r mod unat cap"
    using cell_held_at [OF inv _ assms(8)] assms(5) n by blast
  have "p \<noteq> r" using alone_enq [OF inv, of j p k] alone_deq [OF inv, of j p k] p(1) r(1) assms(4-6) n by auto
  then show ?thesis using p(2,3) r(2,3) by metis
qed

text \<open>C2: \<^verbatim>\<open>mpmc::queue\<close> under any interleaving of producers and consumers: a consumer gets the value
  enqueued at the position it claimed, no position is delivered twice, every position that consumers
  claimed is delivered or still in the hands of one of them, at most a capacity of values is claimed
  ahead of the consumers, and when no thread is between claim and release the ring holds exactly the
  values not yet taken, in the order of their claims.\<close>

theorem mpmc_threads_fifo:
  assumes "mpmc_run d cap n s" "2 \<le> unat cap" "unat cap \<le> 2 ^ 31"
  shows "(\<forall>(p, x) \<in> set (ms_out s). p < ms_taken s \<and> x = ms_in s ! p) \<and> distinct (map fst (ms_out s))
    \<and> (\<forall>p < ms_taken s. p \<in> fst ` set (ms_out s) \<or> (\<exists>j < n. deq_at (ms_threads s ! j) = Some p))
    \<and> ms_taken s \<le> length (ms_in s) \<and> length (ms_in s) \<le> ms_taken s + unat cap
    \<and> ((\<forall>t \<in> set (ms_threads s). cell_held t = None) \<longrightarrow>
         mq_inv (ms_q s) \<and> mq_contents (ms_q s) = drop (ms_taken s) (ms_in s))"
proof -
  obtain P F where inv: "ms_inv P F (unat cap) s" and n: "length (ms_threads s) = n" using mpmc_run_inv [OF assms(1-3)] by blast
  have q: "queue_ok (unat cap) (length (ms_in s)) (ms_taken s) (ms_q s)"
    and out: "out_ok P F (unat cap) (ms_taken s) (ms_in s) (ms_out s) (\<lambda>k. deq_at (ms_threads s ! k)) n"
    using inv n by (simp_all add: ms_inv_def)
  have "fst ` set (ms_out s) \<union> held (\<lambda>k. deq_at (ms_threads s ! k)) n = {..<ms_taken s}" using out unfolding out_ok_def by blast
  then have "\<forall>p < ms_taken s. p \<in> fst ` set (ms_out s) \<or> (\<exists>j < n. deq_at (ms_threads s ! j) = Some p)"
    "\<forall>(p, x) \<in> set (ms_out s). p < ms_taken s" unfolding held_def by (blast, force)
  moreover have "enq_at t = None \<and> deq_at t = None" if "cell_held t = None" for t :: "'a mthread" using that by (cases t) auto
  then have "(\<forall>t \<in> set (ms_threads s). cell_held t = None) \<longrightarrow>
      mq_inv (ms_q s) \<and> mq_contents (ms_q s) = drop (ms_taken s) (ms_in s)" using ms_inv_quiet [OF inv] by blast
  ultimately show ?thesis using out queue_ok_bounds [OF q] unfolding out_ok_def by (auto split: prod.splits)
qed

text \<open>A run with a producer and a consumer on a ring of two cells.\<close>

definition demo :: "u32 \<Rightarrow> u32 \<Rightarrow> nat mcell list \<Rightarrow> nat mthread list \<Rightarrow> nat list \<Rightarrow> nat \<Rightarrow> (nat \<times> nat) list \<Rightarrow> nat mshared" where
  "demo tail head buf ts ins taken out = \<lparr>ms_q = \<lparr>mq_capacity = 2, mq_mask = 1, mq_tail = tail, mq_head = head, mq_buffer = buf\<rparr>,
     ms_threads = ts, ms_in = ins, ms_taken = taken, ms_out = out\<rparr>"

lemma run_step:
  assumes "mpmc_run d cap n s" "mpmc_step j t s s'" "j < n" "ms_threads s ! j = t" "s'' = s'"
  shows "mpmc_run d cap n s''"
  using mr_step [OF assms(1,3), of s'] assms by simp

lemmas demo_simps = demo_def set_thread_def set_cell_def mq_index_def enq_dif_def deq_dif_def mq_dif_def awake_def

lemma demo_claims: "mpmc_run 0 2 3 (demo 2 0 [\<lparr>cell_sequence = 0, cell_value = 0\<rparr>, \<lparr>cell_sequence = 1, cell_value = 0\<rparr>]
    [Enq_Write 7 0 0, Enq_Write 8 1 1, M_Idle] [7, 8] 0 [])"
proof -
  let ?buf = "[\<lparr>cell_sequence = 0, cell_value = 0\<rparr>, \<lparr>cell_sequence = 1, cell_value = 0\<rparr>] :: nat mcell list"
  have "mq_new 0 2 = Some \<lparr>mq_capacity = 2, mq_mask = 1, mq_tail = 0, mq_head = 0, mq_buffer = ?buf\<rparr>"
    by (simp add: mq_new_def upt_rec)
  from mr_start [OF this, of 3] have "mpmc_run 0 2 3 (demo 0 0 ?buf [M_Idle, M_Idle, M_Idle] [] 0 [])"
    by (simp add: demo_def numeral_3_eq_3)
  from run_step [OF this me_call [of 0 _ 7]] have "mpmc_run 0 2 3 (demo 0 0 ?buf [Enq_Start 7, M_Idle, M_Idle] [] 0 [])" by (simp add: demo_simps)
  from run_step [OF this me_call [of 1 _ 8]] have "mpmc_run 0 2 3 (demo 0 0 ?buf [Enq_Start 7, Enq_Start 8, M_Idle] [] 0 [])" by (simp add: demo_simps)
  from run_step [OF this me_load [of 0 7]] have "mpmc_run 0 2 3 (demo 0 0 ?buf [Enq_Pos 7 0 0, Enq_Start 8, M_Idle] [] 0 [])" by (simp add: demo_simps)
  from run_step [OF this me_seen [of _ 0 0 0 7]] have "mpmc_run 0 2 3 (demo 0 0 ?buf [Enq_Cas 7 0 0, Enq_Start 8, M_Idle] [] 0 [])" by (simp add: demo_simps)
  from run_step [OF this me_claim [of _ 0 0 0 7]] have "mpmc_run 0 2 3 (demo 1 0 ?buf [Enq_Write 7 0 0, Enq_Start 8, M_Idle] [7] 0 [])" by (simp add: demo_simps)
  from run_step [OF this me_load [of 1 8]] have "mpmc_run 0 2 3 (demo 1 0 ?buf [Enq_Write 7 0 0, Enq_Pos 8 1 1, M_Idle] [7] 0 [])" by (simp add: demo_simps)
  from run_step [OF this me_seen [of _ 1 1 1 8]] have "mpmc_run 0 2 3 (demo 1 0 ?buf [Enq_Write 7 0 0, Enq_Cas 8 1 1, M_Idle] [7] 0 [])" by (simp add: demo_simps)
  from run_step [OF this me_claim [of _ 1 1 1 8]] show ?thesis by (simp add: demo_simps)
qed

theorem mpmc_threads_race_free_witness:
  "mq_index (ms_q (demo 2 0 [\<lparr>cell_sequence = 0, cell_value = 0\<rparr>, \<lparr>cell_sequence = 1, cell_value = 0\<rparr>]
    [Enq_Write 7 0 0, Enq_Write 8 1 1, M_Idle] [7, 8] 0 [])) 0 \<noteq> mq_index (ms_q (demo 2 0
    [\<lparr>cell_sequence = 0, cell_value = 0\<rparr>, \<lparr>cell_sequence = 1, cell_value = 0\<rparr>] [Enq_Write 7 0 0, Enq_Write 8 1 1, M_Idle] [7, 8] 0 [])) 1"
  by (rule mpmc_threads_race_free [OF demo_claims, of 0 1]) (simp_all add: demo_def)

lemma demo_taken: "mpmc_run 0 2 3 (demo 2 1 [\<lparr>cell_sequence = 2, cell_value = 7\<rparr>, \<lparr>cell_sequence = 2, cell_value = 8\<rparr>]
    [M_Idle, M_Idle, M_Idle] [7, 8] 1 [(0, 7)])"
proof -
  let ?c = "\<lambda>s v. \<lparr>cell_sequence = s, cell_value = v\<rparr> :: nat mcell"
  from run_step [OF demo_claims me_write [of 1 8 1 1]]
  have "mpmc_run 0 2 3 (demo 2 0 [?c 0 0, ?c 1 8] [Enq_Write 7 0 0, Enq_Publish 1 1, M_Idle] [7, 8] 0 [])" by (simp add: demo_simps)
  from run_step [OF this me_publish [of 1 1 1]]
  have "mpmc_run 0 2 3 (demo 2 0 [?c 0 0, ?c 2 8] [Enq_Write 7 0 0, M_Idle, M_Idle] [7, 8] 0 [])" by (simp add: demo_simps)
  from run_step [OF this me_write [of 0 7 0 0]]
  have "mpmc_run 0 2 3 (demo 2 0 [?c 0 7, ?c 2 8] [Enq_Publish 0 0, M_Idle, M_Idle] [7, 8] 0 [])" by (simp add: demo_simps)
  from run_step [OF this me_publish [of 0 0 0]]
  have "mpmc_run 0 2 3 (demo 2 0 [?c 1 7, ?c 2 8] [M_Idle, M_Idle, M_Idle] [7, 8] 0 [])" by (simp add: demo_simps)
  from run_step [OF this md_call [of 2]]
  have "mpmc_run 0 2 3 (demo 2 0 [?c 1 7, ?c 2 8] [M_Idle, M_Idle, Deq_Start] [7, 8] 0 [])" by (simp add: demo_simps)
  from run_step [OF this md_load [of 2]]
  have "mpmc_run 0 2 3 (demo 2 0 [?c 1 7, ?c 2 8] [M_Idle, M_Idle, Deq_Pos 0 0] [7, 8] 0 [])" by (simp add: demo_simps)
  from run_step [OF this md_seen [of _ 0 0 2]]
  have "mpmc_run 0 2 3 (demo 2 0 [?c 1 7, ?c 2 8] [M_Idle, M_Idle, Deq_Cas 0 0] [7, 8] 0 [])" by (simp add: demo_simps)
  from run_step [OF this md_claim [of _ 0 0 2]]
  have "mpmc_run 0 2 3 (demo 2 1 [?c 1 7, ?c 2 8] [M_Idle, M_Idle, Deq_Read 0 0] [7, 8] 1 [])" by (simp add: demo_simps)
  from run_step [OF this md_read [of 2 0 0]]
  have "mpmc_run 0 2 3 (demo 2 1 [?c 1 7, ?c 2 8] [M_Idle, M_Idle, Deq_Release 0 0 7] [7, 8] 1 [])" by (simp add: demo_simps)
  from run_step [OF this md_release [of 2 0 0 7]] show ?thesis by (simp add: demo_simps)
qed

theorem mpmc_threads_fifo_witness:
  "mq_contents (ms_q (demo 2 1 [\<lparr>cell_sequence = 2, cell_value = 7\<rparr>, \<lparr>cell_sequence = 2, cell_value = 8\<rparr>]
    [M_Idle, M_Idle, M_Idle] [7, 8] 1 [(0, 7)])) = [8]"
  using mpmc_threads_fifo [OF demo_taken] by (simp add: demo_def)

end
