(* ===== verification/Spsc_Queue.thy ===== *)
theory Spsc_Queue
  imports Bounded_Fifo
begin

section \<open>spsc::queue, the two-thread ring with cached indices\<close>

text \<open>
  \<^verbatim>\<open>src/pump/core/lock_free_queue.hh\<close>, namespace \<open>spsc\<close>: one producer owns
  \<open>tail_\<close> and \<open>head_cache_\<close>, one consumer owns \<open>head_\<close> and \<open>tail_cache_\<close>. The
  caches are refreshed only when the queue looks full or empty. The theory has
  the two operations as functions (each running undisturbed) and as a step
  relation in which every access to a shared variable is one step, so that the
  threads interleave in any order. The acquire and release orders of the code
  are read as sequentially consistent accesses.
\<close>

record 'a spsc =
  sp_capacity :: u64
  sp_mask :: u64
  sp_tail :: u64
  sp_tail_cache :: u64
  sp_head :: u64
  sp_head_cache :: u64
  sp_buffer :: "'a list"

definition sp_new :: "'a \<Rightarrow> u64 \<Rightarrow> 'a spsc option" where
  "sp_new d cap =
     (if cap AND (cap - 1) \<noteq> 0 then None
      else Some \<lparr>sp_capacity = cap, sp_mask = cap - 1, sp_tail = 0, sp_tail_cache = 0,
                 sp_head = 0, sp_head_cache = 0, sp_buffer = replicate (unat cap) d\<rparr>)"

definition sp_next :: "'a spsc \<Rightarrow> u64 \<Rightarrow> u64" where
  "sp_next q i = (i + 1) AND sp_mask q"

definition sp_try_enqueue :: "'a \<Rightarrow> 'a spsc \<Rightarrow> bool \<times> 'a spsc" where
  "sp_try_enqueue x q =
     (let tail = sp_tail q; next = sp_next q tail;
          q1 = (if next = sp_head_cache q then q\<lparr>sp_head_cache := sp_head q\<rparr> else q) in
      if next = sp_head_cache q1 then (False, q1)
      else (True, q1\<lparr>sp_buffer := (sp_buffer q1)[unat tail := x], sp_tail := next\<rparr>))"

definition sp_try_dequeue :: "'a spsc \<Rightarrow> 'a option \<times> 'a spsc" where
  "sp_try_dequeue q =
     (let head = sp_head q;
          q1 = (if head = sp_tail_cache q then q\<lparr>sp_tail_cache := sp_tail q\<rparr> else q) in
      if head = sp_tail_cache q1 then (None, q1)
      else (Some (sp_buffer q1 ! unat head), q1\<lparr>sp_head := sp_next q1 head\<rparr>))"

definition sp_empty :: "'a spsc \<Rightarrow> bool" where
  "sp_empty q \<longleftrightarrow> sp_head q = sp_tail q"

definition sp_full :: "'a spsc \<Rightarrow> bool" where
  "sp_full q \<longleftrightarrow> (sp_tail q + 1) AND sp_mask q = sp_head q"

definition sp_size_approx :: "'a spsc \<Rightarrow> u64" where
  "sp_size_approx q = (sp_tail q + sp_capacity q - sp_head q) AND sp_mask q"

subsection \<open>Invariant and abstraction\<close>

text \<open>\<open>sp_dist q i j\<close>: how far index \<open>j\<close> is ahead of index \<open>i\<close> on the ring.\<close>

definition sp_dist :: "'a spsc \<Rightarrow> u64 \<Rightarrow> u64 \<Rightarrow> nat" where
  "sp_dist q i j = ring_dist (unat (sp_capacity q)) (unat i) (unat j)"

text \<open>
  Both caches lag: \<open>head_cache_ .. head_ .. tail_\<close> and \<open>head_ .. tail_cache_ .. tail_\<close>
  lie on the ring in this order.
\<close>

definition sp_inv :: "'a spsc \<Rightarrow> bool" where
  "sp_inv q \<longleftrightarrow> pow2 (sp_capacity q) \<and> sp_mask q = sp_capacity q - 1
     \<and> length (sp_buffer q) = unat (sp_capacity q)
     \<and> unat (sp_head q) < unat (sp_capacity q) \<and> unat (sp_tail q) < unat (sp_capacity q)
     \<and> unat (sp_head_cache q) < unat (sp_capacity q) \<and> unat (sp_tail_cache q) < unat (sp_capacity q)
     \<and> sp_dist q (sp_head_cache q) (sp_head q) + sp_dist q (sp_head q) (sp_tail q)
         = sp_dist q (sp_head_cache q) (sp_tail q)
     \<and> sp_dist q (sp_head q) (sp_tail_cache q) + sp_dist q (sp_tail_cache q) (sp_tail q)
         = sp_dist q (sp_head q) (sp_tail q)"

definition sp_contents :: "'a spsc \<Rightarrow> 'a list" where
  "sp_contents q = ring_slice (sp_buffer q) (unat (sp_head q)) (sp_dist q (sp_head q) (sp_tail q))"

definition sp_room :: "'a spsc \<Rightarrow> nat" where
  "sp_room q = unat (sp_capacity q) - 1"

lemma length_sp_contents [simp]: "length (sp_contents q) = sp_dist q (sp_head q) (sp_tail q)"
  by (simp add: sp_contents_def)

lemma sp_next_unat:
  "sp_inv q \<Longrightarrow> unat (sp_next q i) = Suc (unat i) mod unat (sp_capacity q)"
  using unat_add_and_mask [of "sp_capacity q" i 1] by (simp add: sp_inv_def sp_next_def)

lemma sp_dist_self: "unat i < unat (sp_capacity q) \<Longrightarrow> sp_dist q i i = 0"
  by (simp add: sp_dist_def ring_dist_0)

lemma sp_dist_0_iff:
  "unat i < unat (sp_capacity q) \<Longrightarrow> unat j < unat (sp_capacity q) \<Longrightarrow> sp_dist q i j = 0 \<longleftrightarrow> i = j"
  by (simp add: sp_dist_def ring_dist_0 word_unat_eq_iff)

lemma sp_dist_less: "sp_inv q \<Longrightarrow> sp_dist q i j < unat (sp_capacity q)"
  by (simp add: sp_inv_def sp_dist_def ring_dist_less)

text \<open>
  Advancing the far end of a distance, unless it would close the ring; and
  advancing the near end, unless the two ends meet.
\<close>

lemma sp_dist_next_right:
  assumes "sp_inv q" "unat i < unat (sp_capacity q)" "unat j < unat (sp_capacity q)" "sp_next q j \<noteq> i"
  shows "sp_dist q i (sp_next q j) = Suc (sp_dist q i j)"
  using ring_dist_step(2) [OF assms(2,3)] assms(4) sp_next_unat [OF assms(1), of j]
  by (simp add: sp_dist_def word_unat_eq_iff)

lemma sp_dist_next_left:
  assumes "sp_inv q" "unat i < unat (sp_capacity q)" "unat j < unat (sp_capacity q)" "i \<noteq> j"
  shows "Suc (sp_dist q (sp_next q i) j) = sp_dist q i j"
  using ring_dist_advance [OF assms(2,3)] assms(4) sp_next_unat [OF assms(1), of i]
  by (simp add: sp_dist_def word_unat_eq_iff)

lemma sp_next_full:
  assumes "sp_inv q" "unat i < unat (sp_capacity q)" "unat j < unat (sp_capacity q)"
  shows "sp_next q j = i \<longleftrightarrow> Suc (sp_dist q i j) = unat (sp_capacity q)"
  using ring_dist_step(1) [OF assms(2,3)] sp_next_unat [OF assms(1), of j]
  by (simp add: sp_dist_def word_unat_eq_iff)

text \<open>The four state changes of the queue, each preserving the invariant.\<close>

lemma sp_reload_head:
  assumes "sp_inv q"
  shows "sp_inv (q\<lparr>sp_head_cache := sp_head q\<rparr>)"
    and "sp_contents (q\<lparr>sp_head_cache := sp_head q\<rparr>) = sp_contents q"
  using assms sp_dist_self [of "sp_head q" q]
  by (auto simp: sp_inv_def sp_contents_def sp_dist_def)

lemma sp_reload_tail:
  assumes "sp_inv q"
  shows "sp_inv (q\<lparr>sp_tail_cache := sp_tail q\<rparr>)"
    and "sp_contents (q\<lparr>sp_tail_cache := sp_tail q\<rparr>) = sp_contents q"
  using assms sp_dist_self [of "sp_tail q" q]
  by (auto simp: sp_inv_def sp_contents_def sp_dist_def)

lemma sp_write_tail:
  assumes inv: "sp_inv q"
  shows "sp_inv (q\<lparr>sp_buffer := (sp_buffer q)[unat (sp_tail q) := x]\<rparr>)"
    and "sp_contents (q\<lparr>sp_buffer := (sp_buffer q)[unat (sp_tail q) := x]\<rparr>) = sp_contents q"
proof -
  let ?q = "q\<lparr>sp_buffer := (sp_buffer q)[unat (sp_tail q) := x]\<rparr>"
  let ?L = "unat (sp_capacity q)" and ?h = "unat (sp_head q)" and ?n = "sp_dist q (sp_head q) (sp_tail q)"
  show "sp_inv ?q" using inv by (simp add: sp_inv_def sp_dist_def)
  have t: "unat (sp_tail q) = (?h + ?n) mod ?L"
    using inv ring_dist_step(3) [of ?h ?L "unat (sp_tail q)"] by (simp add: sp_inv_def sp_dist_def)
  have n: "?n < ?L" using inv by (rule sp_dist_less)
  have "sp_buffer ?q ! ((?h + i) mod ?L) = sp_buffer q ! ((?h + i) mod ?L)" if "i < ?n" for i
    using ring_mod_inj [of i ?L ?n ?h] that n t by simp
  then show "sp_contents ?q = sp_contents q"
    using inv by (intro nth_equalityI) (auto simp: sp_contents_def ring_slice_nth sp_inv_def sp_dist_def)
qed

lemma sp_publish_tail:
  assumes inv: "sp_inv q" and room: "sp_next q (sp_tail q) \<noteq> sp_head_cache q"
  shows "sp_inv (q\<lparr>sp_tail := sp_next q (sp_tail q)\<rparr>)"
    and "sp_contents (q\<lparr>sp_tail := sp_next q (sp_tail q)\<rparr>)
       = sp_contents q @ [sp_buffer q ! unat (sp_tail q)]"
proof -
  let ?q = "q\<lparr>sp_tail := sp_next q (sp_tail q)\<rparr>" and ?t = "sp_next q (sp_tail q)"
  let ?L = "unat (sp_capacity q)" and ?h = "unat (sp_head q)"
  have b: "unat (sp_head q) < ?L" "unat (sp_tail q) < ?L" "unat (sp_head_cache q) < ?L"
    "unat (sp_tail_cache q) < ?L" and len: "length (sp_buffer q) = ?L"
    using inv by (auto simp: sp_inv_def)
  have d: "sp_dist ?q = sp_dist q" by (simp add: sp_dist_def fun_eq_iff)
  have hc: "sp_dist q (sp_head_cache q) (sp_head q) + sp_dist q (sp_head q) (sp_tail q)
       = sp_dist q (sp_head_cache q) (sp_tail q)"
    and tc: "sp_dist q (sp_head q) (sp_tail_cache q) + sp_dist q (sp_tail_cache q) (sp_tail q)
       = sp_dist q (sp_head q) (sp_tail q)" using inv by (auto simp: sp_inv_def)
  have lt: "Suc (sp_dist q (sp_head_cache q) (sp_tail q)) < ?L"
    using sp_next_full [OF inv b(3,2)] room sp_dist_less [OF inv, of "sp_head_cache q" "sp_tail q"] by simp
  then have "?t \<noteq> sp_head q" "?t \<noteq> sp_tail_cache q"
    using sp_next_full [OF inv b(1,2)] sp_next_full [OF inv b(4,2)] hc tc by auto
  then have s: "sp_dist q (sp_head q) ?t = Suc (sp_dist q (sp_head q) (sp_tail q))"
    "sp_dist q (sp_head_cache q) ?t = Suc (sp_dist q (sp_head_cache q) (sp_tail q))"
    "sp_dist q (sp_tail_cache q) ?t = Suc (sp_dist q (sp_tail_cache q) (sp_tail q))"
    using sp_dist_next_right [OF inv] b room by auto
  show "sp_inv ?q"
    using inv s hc tc sp_next_unat [OF inv, of "sp_tail q"] by (simp add: sp_inv_def d)
  have "unat (sp_tail q) = (?h + sp_dist q (sp_head q) (sp_tail q)) mod ?L"
    using ring_dist_step(3) [OF b(1,2)] by (simp add: sp_dist_def)
  then show "sp_contents ?q = sp_contents q @ [sp_buffer q ! unat (sp_tail q)]"
    using s(1) len by (simp add: sp_contents_def d ring_slice_def)
qed

lemma sp_publish_head:
  assumes inv: "sp_inv q" and some: "sp_head q \<noteq> sp_tail_cache q"
  shows "sp_inv (q\<lparr>sp_head := sp_next q (sp_head q)\<rparr>)"
    and "sp_contents q = sp_buffer q ! unat (sp_head q) # sp_contents (q\<lparr>sp_head := sp_next q (sp_head q)\<rparr>)"
proof -
  let ?q = "q\<lparr>sp_head := sp_next q (sp_head q)\<rparr>" and ?h = "sp_next q (sp_head q)"
  let ?L = "unat (sp_capacity q)"
  have b: "unat (sp_head q) < ?L" "unat (sp_tail q) < ?L" "unat (sp_head_cache q) < ?L"
    "unat (sp_tail_cache q) < ?L" and len: "length (sp_buffer q) = ?L"
    using inv by (auto simp: sp_inv_def)
  have d: "sp_dist ?q = sp_dist q" by (simp add: sp_dist_def fun_eq_iff)
  have hc: "sp_dist q (sp_head_cache q) (sp_head q) + sp_dist q (sp_head q) (sp_tail q)
       = sp_dist q (sp_head_cache q) (sp_tail q)"
    and tc: "sp_dist q (sp_head q) (sp_tail_cache q) + sp_dist q (sp_tail_cache q) (sp_tail q)
       = sp_dist q (sp_head q) (sp_tail q)" using inv by (auto simp: sp_inv_def)
  have pos: "0 < sp_dist q (sp_head q) (sp_tail_cache q)"
    using sp_dist_0_iff [OF b(1,4)] some by simp
  then have nt: "sp_head q \<noteq> sp_tail q" using tc sp_dist_self [OF b(1)] by auto
  have "Suc (sp_dist q (sp_head_cache q) (sp_head q)) < ?L"
    using pos hc tc sp_dist_less [OF inv, of "sp_head_cache q" "sp_tail q"] by simp
  then have "?h \<noteq> sp_head_cache q" using sp_next_full [OF inv b(3,1)] by simp
  then have s: "sp_dist q (sp_head_cache q) ?h = Suc (sp_dist q (sp_head_cache q) (sp_head q))"
    "Suc (sp_dist q ?h (sp_tail q)) = sp_dist q (sp_head q) (sp_tail q)"
    "Suc (sp_dist q ?h (sp_tail_cache q)) = sp_dist q (sp_head q) (sp_tail_cache q)"
    using sp_dist_next_right [OF inv b(3,1)] sp_dist_next_left [OF inv b(1,2) nt]
      sp_dist_next_left [OF inv b(1,4) some] by auto
  show "sp_inv ?q"
    using inv s hc tc sp_next_unat [OF inv, of "sp_head q"] by (simp add: sp_inv_def d)
  show "sp_contents q = sp_buffer q ! unat (sp_head q) # sp_contents ?q"
    using ring_slice_Suc [of "sp_buffer q" "unat (sp_head q)" "sp_dist q ?h (sp_tail q)"]
      ring_slice_mod [of "sp_buffer q" "Suc (unat (sp_head q))"] s(2) b len sp_next_unat [OF inv, of "sp_head q"]
    by (simp add: sp_contents_def d)
qed

subsection \<open>The undisturbed operations refine the bounded FIFO\<close>

lemma sp_dist_frame [simp]:
  "sp_dist (q\<lparr>sp_head_cache := a\<rparr>) = sp_dist q" "sp_dist (q\<lparr>sp_tail_cache := a\<rparr>) = sp_dist q"
  "sp_dist (q\<lparr>sp_tail := a\<rparr>) = sp_dist q" "sp_dist (q\<lparr>sp_head := a\<rparr>) = sp_dist q"
  "sp_dist (q\<lparr>sp_buffer := b\<rparr>) = sp_dist q"
  by (simp_all add: sp_dist_def fun_eq_iff)

lemma sp_next_frame [simp]:
  "sp_next (q\<lparr>sp_head_cache := a\<rparr>) = sp_next q" "sp_next (q\<lparr>sp_tail_cache := a\<rparr>) = sp_next q"
  "sp_next (q\<lparr>sp_tail := a\<rparr>) = sp_next q" "sp_next (q\<lparr>sp_head := a\<rparr>) = sp_next q"
  "sp_next (q\<lparr>sp_buffer := b\<rparr>) = sp_next q"
  by (simp_all add: sp_next_def fun_eq_iff)

lemma sp_store_tail:
  assumes "sp_inv q" "sp_next q (sp_tail q) \<noteq> sp_head_cache q"
  shows "sp_inv (q\<lparr>sp_buffer := (sp_buffer q)[unat (sp_tail q) := x], sp_tail := sp_next q (sp_tail q)\<rparr>)"
    and "sp_contents (q\<lparr>sp_buffer := (sp_buffer q)[unat (sp_tail q) := x], sp_tail := sp_next q (sp_tail q)\<rparr>)
      = sp_contents q @ [x]"
proof -
  let ?w = "q\<lparr>sp_buffer := (sp_buffer q)[unat (sp_tail q) := x]\<rparr>"
  have "unat (sp_tail q) < length (sp_buffer q)" using assms(1) by (simp add: sp_inv_def)
  then show "sp_inv (q\<lparr>sp_buffer := (sp_buffer q)[unat (sp_tail q) := x], sp_tail := sp_next q (sp_tail q)\<rparr>)"
    "sp_contents (q\<lparr>sp_buffer := (sp_buffer q)[unat (sp_tail q) := x], sp_tail := sp_next q (sp_tail q)\<rparr>)
      = sp_contents q @ [x]"
    using sp_publish_tail [of ?w] sp_write_tail [OF assms(1), of x] assms(2) by simp_all
qed

lemma sp_inv_bounds:
  assumes "sp_inv q"
  shows "unat (sp_head q) < unat (sp_capacity q)" "unat (sp_tail q) < unat (sp_capacity q)"
    "unat (sp_head_cache q) < unat (sp_capacity q)" "unat (sp_tail_cache q) < unat (sp_capacity q)"
  using assms by (auto simp: sp_inv_def)

lemma sp_head_cache_next:
  assumes "sp_inv q" "length (sp_contents q) < sp_room q"
  shows "sp_next q (sp_tail q) \<noteq> sp_head q"
  using sp_next_full [OF assms(1) sp_inv_bounds(1,2) [OF assms(1)]] assms(2)
  by (auto simp: sp_room_def)

lemma sp_enqueue_room:
  assumes "sp_inv q" "length (sp_contents q) < sp_room q"
  shows "\<exists>q'. sp_try_enqueue x q = (True, q') \<and> sp_inv q' \<and> sp_contents q' = sp_contents q @ [x]
    \<and> sp_room q' = sp_room q"
proof (cases "sp_next q (sp_tail q) = sp_head_cache q")
  case True
  with sp_store_tail [OF sp_reload_head(1) [OF assms(1)], of x] sp_reload_head(2) [OF assms(1)]
    sp_head_cache_next [OF assms] show ?thesis
    by (auto simp: sp_try_enqueue_def Let_def sp_room_def)
next
  case False
  with sp_store_tail [OF assms(1), of x] show ?thesis
    by (simp add: sp_try_enqueue_def Let_def sp_room_def)
qed

lemma sp_enqueue_full:
  assumes "sp_inv q" "\<not> length (sp_contents q) < sp_room q"
  shows "\<exists>q'. sp_try_enqueue x q = (False, q') \<and> sp_inv q' \<and> sp_contents q' = sp_contents q
    \<and> sp_room q' = sp_room q"
proof -
  note b = sp_inv_bounds [OF assms(1)]
  have full: "sp_next q (sp_tail q) = sp_head q"
    using sp_next_full [OF assms(1) b(1,2)] assms(2) sp_dist_less [OF assms(1), of "sp_head q" "sp_tail q"]
    by (simp add: sp_room_def)
  have "sp_next q (sp_tail q) = sp_head_cache q"
    using full assms(1) sp_next_full [OF assms(1) b(1,2)] sp_next_full [OF assms(1) b(3,2)]
      sp_dist_less [OF assms(1), of "sp_head_cache q" "sp_tail q"]
    by (simp add: sp_inv_def)
  with full sp_reload_head [OF assms(1)] show ?thesis
    by (simp add: sp_try_enqueue_def Let_def sp_room_def)
qed

lemma sp_contents_Nil_iff: "sp_inv q \<Longrightarrow> sp_contents q = [] \<longleftrightarrow> sp_head q = sp_tail q"
  using sp_dist_0_iff [OF sp_inv_bounds(1,2)] length_sp_contents [of q]
  by (metis length_0_conv)

lemma sp_tail_cache_behind:
  assumes inv: "sp_inv q" and eq: "sp_head q = sp_tail q"
  shows "sp_tail_cache q = sp_tail q"
proof -
  note b = sp_inv_bounds [OF inv]
  have "sp_dist q (sp_head q) (sp_tail_cache q) + sp_dist q (sp_tail_cache q) (sp_tail q) = 0"
    using inv sp_dist_self [OF b(1)] eq by (simp add: sp_inv_def)
  then have "sp_head q = sp_tail_cache q" using sp_dist_0_iff [OF b(1,4)] by simp
  with eq show ?thesis by simp
qed

lemma sp_dequeue_none:
  assumes "sp_inv q" "sp_contents q = []"
  shows "\<exists>q'. sp_try_dequeue q = (None, q') \<and> sp_inv q' \<and> sp_contents q' = [] \<and> sp_room q' = sp_room q"
  using assms sp_reload_tail [OF assms(1)] sp_tail_cache_behind [OF assms(1)]
  by (simp add: sp_try_dequeue_def Let_def sp_contents_Nil_iff sp_room_def)

lemma sp_dequeue_some:
  assumes "sp_inv q" "sp_contents q = x # xs"
  shows "\<exists>q'. sp_try_dequeue q = (Some x, q') \<and> sp_inv q' \<and> sp_contents q' = xs
    \<and> sp_room q' = sp_room q"
proof -
  have ne: "sp_head q \<noteq> sp_tail q" using sp_contents_Nil_iff [OF assms(1)] assms(2) by auto
  show ?thesis
  proof (cases "sp_head q = sp_tail_cache q")
    case True
    with ne sp_publish_head [OF sp_reload_tail(1) [OF assms(1)]] sp_reload_tail(2) [OF assms(1)] assms(2)
    show ?thesis by (auto simp: sp_try_dequeue_def Let_def sp_room_def)
  next
    case False
    with sp_publish_head [OF assms(1)] assms(2) show ?thesis
      by (simp add: sp_try_dequeue_def Let_def sp_room_def)
  qed
qed

interpretation sp: bounded_fifo sp_contents sp_room sp_inv sp_try_enqueue sp_try_dequeue
  by unfold_locales (fact sp_enqueue_room sp_enqueue_full sp_dequeue_none sp_dequeue_some)+

lemma sp_new_inv:
  "sp_new d cap = Some q \<Longrightarrow> cap \<noteq> 0 \<Longrightarrow> sp_inv q \<and> sp_contents q = [] \<and> sp_room q = unat cap - 1"
  using and_pred_zero_pow2 [of cap] pow2_pos [of cap]
  by (auto simp: sp_new_def sp_inv_def sp_contents_def sp_room_def sp_dist_def ring_dist_def
      split: if_splits)

subsection \<open>The two threads, step by step\<close>

text \<open>
  Where the producer and the consumer stand inside an operation, with their
  local variables. \<open>P_Publish\<close> and \<open>C_Publish\<close> stand before the release store.
\<close>

datatype 'a producer_pc =
    P_Idle
  | P_Reload 'a u64 u64
  | P_Write 'a u64 u64
  | P_Publish 'a u64

datatype 'a consumer_pc =
    C_Idle
  | C_Reload u64
  | C_Read u64
  | C_Publish u64 'a

text \<open>
  The system; \<open>sys_sent\<close> and \<open>sys_recv\<close> record the items of the completed
  operations in order and are not read by any step.
\<close>

record 'a spsc_sys =
  sys_queue :: "'a spsc"
  sys_prod :: "'a producer_pc"
  sys_cons :: "'a consumer_pc"
  sys_sent :: "'a list"
  sys_recv :: "'a list"

inductive spsc_step :: "'a spsc_sys \<Rightarrow> 'a spsc_sys \<Rightarrow> bool" where
  p_begin:
    "sys_prod s = P_Idle \<Longrightarrow> tail = sp_tail (sys_queue s) \<Longrightarrow> next = sp_next (sys_queue s) tail \<Longrightarrow>
     spsc_step s (s\<lparr>sys_prod := (if next = sp_head_cache (sys_queue s)
                                then P_Reload x tail next else P_Write x tail next)\<rparr>)"
| p_reload:
    "sys_prod s = P_Reload x tail next \<Longrightarrow> q' = (sys_queue s)\<lparr>sp_head_cache := sp_head (sys_queue s)\<rparr> \<Longrightarrow>
     spsc_step s (s\<lparr>sys_queue := q',
       sys_prod := (if next = sp_head_cache q' then P_Idle else P_Write x tail next)\<rparr>)"
| p_write:
    "sys_prod s = P_Write x tail next \<Longrightarrow>
     spsc_step s (s\<lparr>sys_queue := (sys_queue s)\<lparr>sp_buffer := (sp_buffer (sys_queue s))[unat tail := x]\<rparr>,
       sys_prod := P_Publish x next\<rparr>)"
| p_publish:
    "sys_prod s = P_Publish x next \<Longrightarrow>
     spsc_step s (s\<lparr>sys_queue := (sys_queue s)\<lparr>sp_tail := next\<rparr>, sys_prod := P_Idle,
       sys_sent := sys_sent s @ [x]\<rparr>)"
| c_begin:
    "sys_cons s = C_Idle \<Longrightarrow> head = sp_head (sys_queue s) \<Longrightarrow>
     spsc_step s (s\<lparr>sys_cons := (if head = sp_tail_cache (sys_queue s)
                                then C_Reload head else C_Read head)\<rparr>)"
| c_reload:
    "sys_cons s = C_Reload head \<Longrightarrow> q' = (sys_queue s)\<lparr>sp_tail_cache := sp_tail (sys_queue s)\<rparr> \<Longrightarrow>
     spsc_step s (s\<lparr>sys_queue := q',
       sys_cons := (if head = sp_tail_cache q' then C_Idle else C_Read head)\<rparr>)"
| c_read:
    "sys_cons s = C_Read head \<Longrightarrow>
     spsc_step s (s\<lparr>sys_cons := C_Publish head (sp_buffer (sys_queue s) ! unat head)\<rparr>)"
| c_publish:
    "sys_cons s = C_Publish head x \<Longrightarrow>
     spsc_step s (s\<lparr>sys_queue := (sys_queue s)\<lparr>sp_head := sp_next (sys_queue s) head\<rparr>,
       sys_cons := C_Idle, sys_recv := sys_recv s @ [x]\<rparr>)"

definition spsc_start :: "'a spsc \<Rightarrow> 'a spsc_sys" where
  "spsc_start q = \<lparr>sys_queue = q, sys_prod = P_Idle, sys_cons = C_Idle, sys_sent = [], sys_recv = []\<rparr>"

inductive spsc_reach :: "'a spsc \<Rightarrow> 'a spsc_sys \<Rightarrow> bool" for q0 where
  start: "spsc_reach q0 (spsc_start q0)"
| step: "spsc_reach q0 s \<Longrightarrow> spsc_step s t \<Longrightarrow> spsc_reach q0 t"

text \<open>What the local variables of a thread inside an operation still know.\<close>

fun prod_ok :: "'a spsc \<Rightarrow> 'a producer_pc \<Rightarrow> bool" where
  "prod_ok q P_Idle \<longleftrightarrow> True"
| "prod_ok q (P_Reload x tail next) \<longleftrightarrow> tail = sp_tail q \<and> next = sp_next q tail"
| "prod_ok q (P_Write x tail next) \<longleftrightarrow> tail = sp_tail q \<and> next = sp_next q tail \<and> next \<noteq> sp_head_cache q"
| "prod_ok q (P_Publish x next) \<longleftrightarrow> next = sp_next q (sp_tail q) \<and> next \<noteq> sp_head_cache q
     \<and> sp_buffer q ! unat (sp_tail q) = x"

fun cons_ok :: "'a spsc \<Rightarrow> 'a consumer_pc \<Rightarrow> bool" where
  "cons_ok q C_Idle \<longleftrightarrow> True"
| "cons_ok q (C_Reload head) \<longleftrightarrow> head = sp_head q"
| "cons_ok q (C_Read head) \<longleftrightarrow> head = sp_head q \<and> head \<noteq> sp_tail_cache q"
| "cons_ok q (C_Publish head x) \<longleftrightarrow> head = sp_head q \<and> head \<noteq> sp_tail_cache q
     \<and> sp_buffer q ! unat head = x"

definition spsc_sys_inv :: "'a spsc_sys \<Rightarrow> bool" where
  "spsc_sys_inv s \<longleftrightarrow> sp_inv (sys_queue s) \<and> sys_sent s = sys_recv s @ sp_contents (sys_queue s)
     \<and> prod_ok (sys_queue s) (sys_prod s) \<and> cons_ok (sys_queue s) (sys_cons s)"

lemma sp_tail_not_head: "sp_inv q \<Longrightarrow> sp_head q \<noteq> sp_tail_cache q \<Longrightarrow> sp_tail q \<noteq> sp_head q"
  using sp_tail_cache_behind [of q] by metis

lemma prod_ok_frame:
  "prod_ok (q\<lparr>sp_tail_cache := a\<rparr>) pc = prod_ok q pc" "prod_ok (q\<lparr>sp_head := a\<rparr>) pc = prod_ok q pc"
  by (cases pc; simp)+

lemma cons_ok_frame:
  "cons_ok (q\<lparr>sp_head_cache := a\<rparr>) pc = cons_ok q pc" "cons_ok (q\<lparr>sp_tail := a\<rparr>) pc = cons_ok q pc"
  by (cases pc; simp)+

lemma cons_ok_write:
  "sp_inv q \<Longrightarrow> cons_ok q pc \<Longrightarrow> cons_ok (q\<lparr>sp_buffer := (sp_buffer q)[unat (sp_tail q) := x]\<rparr>) pc"
  using sp_tail_not_head [of q] by (cases pc) (auto simp: word_unat_eq_iff)

lemma spsc_step_inv: "spsc_step s t \<Longrightarrow> spsc_sys_inv s \<Longrightarrow> spsc_sys_inv t"
proof (induction rule: spsc_step.induct)
  case (p_begin s tail "next" x)
  then show ?case by (auto simp: spsc_sys_inv_def)
next
  case (p_reload s x tail "next" q')
  with sp_reload_head [of "sys_queue s"] show ?case
    by (auto simp: spsc_sys_inv_def cons_ok_frame)
next
  case (p_write s x tail "next")
  then have inv: "sp_inv (sys_queue s)" and pc: "tail = sp_tail (sys_queue s)"
    "next = sp_next (sys_queue s) tail" "next \<noteq> sp_head_cache (sys_queue s)"
    and rest: "cons_ok (sys_queue s) (sys_cons s)" "sys_sent s = sys_recv s @ sp_contents (sys_queue s)"
    by (auto simp: spsc_sys_inv_def)
  have "unat tail < length (sp_buffer (sys_queue s))" using inv pc(1) by (simp add: sp_inv_def)
  with pc rest sp_write_tail [OF inv, of x] cons_ok_write [OF inv rest(1), of x] show ?case
    by (simp add: spsc_sys_inv_def)
next
  case (p_publish s x "next")
  with sp_publish_tail [of "sys_queue s"] show ?case
    by (auto simp: spsc_sys_inv_def cons_ok_frame)
next
  case (c_begin s head)
  then show ?case by (auto simp: spsc_sys_inv_def)
next
  case (c_reload s head q')
  with sp_reload_tail [of "sys_queue s"] show ?case
    by (auto simp: spsc_sys_inv_def prod_ok_frame)
next
  case (c_read s head)
  then show ?case by (auto simp: spsc_sys_inv_def)
next
  case (c_publish s head x)
  with sp_publish_head [of "sys_queue s"] show ?case
    by (auto simp: spsc_sys_inv_def prod_ok_frame)
qed

lemma spsc_reach_inv:
  assumes "spsc_reach q0 s" "sp_inv q0" "sp_contents q0 = []"
  shows "spsc_sys_inv s"
  using assms
proof (induction rule: spsc_reach.induct)
  case start
  then show ?case by (simp add: spsc_start_def spsc_sys_inv_def)
next
  case (step s t)
  then show ?case by (blast intro: spsc_step_inv)
qed

subsection \<open>What holds under every interleaving\<close>

text \<open>
  C31: however the accesses of the producer and the consumer interleave, the items
  the consumer has taken, followed by the items stored between head and tail,
  are exactly the items the producer has published, in order: nothing is lost,
  duplicated or reordered, and at most \<open>capacity - 1\<close> items are in flight.
\<close>

theorem spsc_fifo_under_interleaving:
  assumes "sp_new d cap = Some q0" "cap \<noteq> 0" "spsc_reach q0 s"
  shows "sys_sent s = sys_recv s @ sp_contents (sys_queue s)
     \<and> length (sp_contents (sys_queue s)) < unat (sp_capacity (sys_queue s))"
  using spsc_reach_inv [OF assms(3)] sp_new_inv [OF assms(1,2)] sp_dist_less
  by (auto simp: spsc_sys_inv_def)

text \<open>
  A run: the producer sends 7 and starts to send 8 while the consumer, which began
  in between, reads 7.
\<close>

definition spsc_race_demo :: "nat spsc_sys" where
  "spsc_race_demo = \<lparr>sys_queue = \<lparr>sp_capacity = 4, sp_mask = 3, sp_tail = 1, sp_tail_cache = 1, sp_head = 0,
       sp_head_cache = 0, sp_buffer = [7, 0, 0, 0]\<rparr>,
     sys_prod = P_Write 8 1 2, sys_cons = C_Read 0, sys_sent = [7], sys_recv = []\<rparr>"

definition spsc_demo :: "nat spsc_sys" where
  "spsc_demo = \<lparr>sys_queue = \<lparr>sp_capacity = 4, sp_mask = 3, sp_tail = 1, sp_tail_cache = 1, sp_head = 1,
       sp_head_cache = 0, sp_buffer = [7, 8, 0, 0]\<rparr>,
     sys_prod = P_Publish 8 2, sys_cons = C_Idle, sys_sent = [7], sys_recv = [7]\<rparr>"

lemma spsc_race_demo_reach: "spsc_reach (the (sp_new 0 4)) spsc_race_demo"
proof -
  let ?q = "\<lparr>sp_capacity = 4, sp_mask = 3, sp_tail = 0, sp_tail_cache = 0, sp_head = 0,
       sp_head_cache = 0, sp_buffer = [0, 0, 0, 0 :: nat]\<rparr>"
  have "replicate 4 (0::nat) = [0, 0, 0, 0]" by (simp add: numeral_eq_Suc)
  then have q0: "the (sp_new 0 4) = ?q" by (simp add: sp_new_def)
  let ?s = "\<lambda>q p c sent recv. \<lparr>sys_queue = q, sys_prod = p, sys_cons = c, sys_sent = sent, sys_recv = recv\<rparr>"
  let ?q1 = "?q\<lparr>sp_buffer := [7, 0, 0, 0]\<rparr>" and ?q2 = "?q\<lparr>sp_buffer := [7, 0, 0, 0], sp_tail := 1\<rparr>"
  let ?q3 = "?q2\<lparr>sp_tail_cache := 1\<rparr>"
  have "spsc_reach ?q (?s ?q P_Idle C_Idle [] [])"
    using spsc_reach.start [of ?q] by (simp add: spsc_start_def)
  then have "spsc_reach ?q (?s ?q (P_Write 7 0 1) C_Idle [] [])"
    by (rule spsc_reach.step) (use p_begin [of "?s ?q P_Idle C_Idle [] []" 0 1 7] in \<open>simp add: sp_next_def\<close>)
  then have "spsc_reach ?q (?s ?q (P_Write 7 0 1) (C_Reload 0) [] [])"
    by (rule spsc_reach.step) (use c_begin [of "?s ?q (P_Write 7 0 1) C_Idle [] []" 0] in simp)
  then have "spsc_reach ?q (?s ?q1 (P_Publish 7 1) (C_Reload 0) [] [])"
    by (rule spsc_reach.step) (use p_write [of "?s ?q (P_Write 7 0 1) (C_Reload 0) [] []" 7 0 1] in simp)
  then have "spsc_reach ?q (?s ?q2 P_Idle (C_Reload 0) [7] [])"
    by (rule spsc_reach.step) (use p_publish [of "?s ?q1 (P_Publish 7 1) (C_Reload 0) [] []" 7 1] in simp)
  then have "spsc_reach ?q (?s ?q3 P_Idle (C_Read 0) [7] [])"
    by (rule spsc_reach.step) (use c_reload [of "?s ?q2 P_Idle (C_Reload 0) [7] []" 0 ?q3] in simp)
  then have "spsc_reach ?q (?s ?q3 (P_Write 8 1 2) (C_Read 0) [7] [])"
    by (rule spsc_reach.step)
      (use p_begin [of "?s ?q3 P_Idle (C_Read 0) [7] []" 1 2 8] in \<open>simp add: sp_next_def\<close>)
  then show ?thesis by (simp add: q0 spsc_race_demo_def)
qed

lemma spsc_demo_reach: "spsc_reach (the (sp_new 0 4)) spsc_demo"
proof -
  let ?t = "spsc_race_demo\<lparr>sys_cons := C_Publish 0 7\<rparr>"
  let ?u = "?t\<lparr>sys_queue := (sys_queue ?t)\<lparr>sp_head := 1\<rparr>, sys_cons := C_Idle, sys_recv := [7]\<rparr>"
  have "spsc_reach (the (sp_new 0 4)) ?t"
    using spsc_race_demo_reach
    by (rule spsc_reach.step) (use c_read [of spsc_race_demo 0] in \<open>simp add: spsc_race_demo_def\<close>)
  then have "spsc_reach (the (sp_new 0 4)) ?u"
    by (rule spsc_reach.step)
      (use c_publish [of ?t 0 7] in \<open>simp add: spsc_race_demo_def sp_next_def\<close>)
  then show ?thesis
    by (rule spsc_reach.step) (use p_write [of ?u 8 1 2] in \<open>simp add: spsc_race_demo_def spsc_demo_def\<close>)
qed

lemma spsc_fifo_under_interleaving_witness:
  "sys_sent spsc_demo = sys_recv spsc_demo @ sp_contents (sys_queue spsc_demo)"
  using spsc_fifo_under_interleaving [of 0 4 "the (sp_new 0 4)" spsc_demo] spsc_demo_reach
  by (simp add: sp_new_def)

text \<open>
  The two threads never touch the same cell: when the producer is about to
  write cell \<open>tail\<close> while the consumer is about to read cell \<open>head\<close>, the two cells
  differ.
\<close>

theorem spsc_no_data_race:
  assumes "sp_new d cap = Some q0" "cap \<noteq> 0" "spsc_reach q0 s"
    and "sys_prod s = P_Write x tail next" "sys_cons s = C_Read head"
  shows "unat tail < length (sp_buffer (sys_queue s)) \<and> unat head < length (sp_buffer (sys_queue s))
    \<and> tail \<noteq> head"
proof -
  have inv: "spsc_sys_inv s"
    using spsc_reach_inv [OF assms(3)] sp_new_inv [OF assms(1,2)] by auto
  then have "sp_inv (sys_queue s)" "tail = sp_tail (sys_queue s)" "head = sp_head (sys_queue s)"
    "sp_head (sys_queue s) \<noteq> sp_tail_cache (sys_queue s)"
    using assms(4,5) by (auto simp: spsc_sys_inv_def)
  then show ?thesis using sp_tail_not_head [of "sys_queue s"] by (auto simp: sp_inv_def)
qed

lemma spsc_no_data_race_witness: "(1::u64) \<noteq> 0 \<and> 1 < length (sp_buffer (sys_queue spsc_race_demo))"
  using spsc_no_data_race [of 0 4 "the (sp_new 0 4)" spsc_race_demo 8 1 2 0] spsc_race_demo_reach
  by (simp add: sp_new_def spsc_race_demo_def)

end
