(* ===== verification/Per_Core_Queue.thy ===== *)
theory Per_Core_Queue
  imports Local_Queue Spsc_Queue
begin

section \<open>per_core::queue, one SPSC ring per source core and an activity bitmap\<close>

text \<open>
  \<^verbatim>\<open>src/pump/core/lock_free_queue.hh\<close>, namespace \<open>per_core\<close>: every source core has
  its own SPSC ring, the owner core a local ring, and a 128-bit bitmap says
  which rings may hold items. The thread-local \<^verbatim>\<open>this_core_id\<close> of the caller is an
  argument. The handler of \<open>drain\<close> is represented by the list of items it is
  given, in order; it does not touch this queue.
\<close>

definition MAX_CORES :: nat where "MAX_CORES = 128"
definition BITMAP_WORDS :: nat where "BITMAP_WORDS = (MAX_CORES + 63) div 64"

record 'a pcqueue =
  pc_capacity :: u64
  pc_queues :: "'a spsc list"
  pc_local :: "'a lqueue"
  pc_owner :: u32
  pc_active :: "u64 list"

text \<open>The outcome of an enqueue; \<open>Pc_Abort\<close> is the \<^verbatim>\<open>abort()\<close> of a queue built with \<^verbatim>\<open>abort_on_full\<close>.\<close>

datatype pc_result = Pc_Ok | Pc_Full | Pc_Abort

definition pc_new :: "'a \<Rightarrow> u64 \<Rightarrow> u32 \<Rightarrow> 'a pcqueue option" where
  "pc_new d cap owner =
     (case (lq_new d cap, sp_new d cap) of
        (Some l, Some s) \<Rightarrow> Some \<lparr>pc_capacity = cap, pc_queues = replicate MAX_CORES s,
           pc_local = l, pc_owner = owner, pc_active = replicate BITMAP_WORDS 0\<rparr>
      | _ \<Rightarrow> None)"

definition pc_try_enqueue :: "bool \<Rightarrow> u32 \<Rightarrow> 'a \<Rightarrow> 'a pcqueue \<Rightarrow> pc_result \<times> 'a pcqueue" where
  "pc_try_enqueue abort_on_full core x q =
     (if core = pc_owner q then
        (let (ok, l) = lq_try_enqueue x (pc_local q) in
         if ok then (Pc_Ok, q\<lparr>pc_local := l\<rparr>)
         else (if abort_on_full then Pc_Abort else Pc_Full, q\<lparr>pc_local := l\<rparr>))
      else
        (let i = unat core; (ok, s) = sp_try_enqueue x (pc_queues q ! i);
             q' = q\<lparr>pc_queues := (pc_queues q)[i := s]\<rparr> in
         if ok then
           (let w = i div 64; b = push_bit (i mod 64) 1 in
            (Pc_Ok, q'\<lparr>pc_active := (pc_active q)[w := (pc_active q ! w) OR b]\<rparr>))
         else (if abort_on_full then Pc_Abort else Pc_Full, q')))"

text \<open>
  The loop over the set bits of a bitmap word: \<^verbatim>\<open>bit = __builtin_ctzll(mask); mask &= mask - 1\<close>.
  \<^verbatim>\<open>__builtin_ctzll\<close> of a non-zero word is the index of its lowest set bit.
\<close>

definition ctzll :: "u64 \<Rightarrow> nat" where
  "ctzll m = (case find (bit m) [0..<64] of Some i \<Rightarrow> i | None \<Rightarrow> 64)"

function mask_bits :: "u64 \<Rightarrow> nat list" where
  "mask_bits m = (if m = 0 then [] else ctzll m # mask_bits (m AND (m - 1)))"
  by pat_completeness auto
termination
proof (relation "measure unat")
  fix m :: u64
  assume "m \<noteq> 0"
  have "unat (m AND (m - 1)) \<le> unat (m - 1)"
    using word_and_le1 [of m "m - 1"] by (simp add: word_le_nat_alt)
  also have "\<dots> < unat m" using \<open>m \<noteq> 0\<close> unat_minus_one [of m] unat_gt_0 [of m] by simp
  finally show "(m AND (m - 1), m) \<in> measure unat" by simp
qed simp

declare mask_bits.simps [simp del]

text \<open>Draining the rings of the listed cores, each until it is empty.\<close>

fun drain_cores :: "nat list \<Rightarrow> 'a pcqueue \<Rightarrow> 'a list \<times> 'a pcqueue" where
  "drain_cores [] q = ([], q)"
| "drain_cores (c # cs) q =
     (let (xs, s) = drain_loop (Suc (unat (pc_capacity q))) sp_try_dequeue (pc_queues q ! c);
          (ys, q') = drain_cores cs (q\<lparr>pc_queues := (pc_queues q)[c := s]\<rparr>)
      in (xs @ ys, q'))"

fun drain_words :: "nat list \<Rightarrow> 'a pcqueue \<Rightarrow> 'a list \<times> 'a pcqueue" where
  "drain_words [] q = ([], q)"
| "drain_words (w # ws) q =
     (let mask = pc_active q ! w;
          (xs, q1) = drain_cores (map (\<lambda>b. w * 64 + b) (mask_bits mask))
                       (q\<lparr>pc_active := (pc_active q)[w := 0]\<rparr>);
          (ys, q2) = drain_words ws q1
      in (xs @ ys, q2))"

text \<open>\<open>drain\<close>: the items in handler order, and whether there was any.\<close>

definition pc_drain :: "'a pcqueue \<Rightarrow> bool \<times> 'a list \<times> 'a pcqueue" where
  "pc_drain q =
     (let (xs, l) = drain_loop (Suc (unat (pc_capacity q))) lq_try_dequeue (pc_local q);
          (ys, q') = drain_words [0..<BITMAP_WORDS] (q\<lparr>pc_local := l\<rparr>)
      in (xs @ ys \<noteq> [], xs @ ys, q'))"

fun dequeue_cores :: "nat list \<Rightarrow> 'a pcqueue \<Rightarrow> 'a option \<times> 'a pcqueue" where
  "dequeue_cores [] q = (None, q)"
| "dequeue_cores (c # cs) q =
     (let (r, s) = sp_try_dequeue (pc_queues q ! c); q' = q\<lparr>pc_queues := (pc_queues q)[c := s]\<rparr> in
      case r of Some x \<Rightarrow> (Some x, q') | None \<Rightarrow> dequeue_cores cs q')"

text \<open>\<open>try_dequeue\<close> reads the bitmap without clearing it.\<close>

definition active_cores :: "'a pcqueue \<Rightarrow> nat list" where
  "active_cores q = concat (map (\<lambda>w. map (\<lambda>b. w * 64 + b) (mask_bits (pc_active q ! w))) [0..<BITMAP_WORDS])"

definition pc_try_dequeue :: "'a pcqueue \<Rightarrow> 'a option \<times> 'a pcqueue" where
  "pc_try_dequeue q =
     (let (r, l) = lq_try_dequeue (pc_local q); q' = q\<lparr>pc_local := l\<rparr> in
      case r of Some x \<Rightarrow> (Some x, q') | None \<Rightarrow> dequeue_cores (active_cores q') q')"

definition pc_empty :: "'a pcqueue \<Rightarrow> bool" where
  "pc_empty q \<longleftrightarrow> lq_empty (pc_local q) \<and> (\<forall>w \<in> set [0..<BITMAP_WORDS]. pc_active q ! w = 0)"

subsection \<open>The bit loop visits exactly the set bits, in order\<close>

lemma ctzll_bit:
  assumes "m \<noteq> 0"
  shows "ctzll m < 64 \<and> bit m (ctzll m) \<and> (\<forall>j < ctzll m. \<not> bit m j)"
proof -
  have "\<exists>j. j < 64 \<and> bit m j"
    using assms bit_imp_le_length [of m] by (auto simp: bit_eq_iff)
  then obtain j where j: "j < 64" "bit m j" by blast
  have "find (bit m) [0..<64] \<noteq> None" using j by (auto simp: find_None_iff)
  then obtain i where i: "find (bit m) [0..<64] = Some i" by blast
  then obtain k where k: "k < 64" "bit m k" "i = k" "\<forall>j<k. \<not> bit m j"
    by (auto simp: find_Some_iff)
  with i show ?thesis by (simp add: ctzll_def)
qed

text \<open>Clearing the lowest set bit: \<open>m AND (m - 1)\<close>.\<close>

lemma bit_clear_lowest:
  fixes m :: "'a::len word"
  assumes c: "bit m c" and low: "\<And>j. j < c \<Longrightarrow> \<not> bit m j"
  shows "bit (m AND (m - 1)) i \<longleftrightarrow> bit m i \<and> i \<noteq> c"
proof -
  let ?h = "unset_bit c m"
  have cl: "c < LENGTH('a)" using c bit_imp_le_length by blast
  have m: "m = ?h + 2 ^ c"
  proof -
    have "?h + 2 ^ c = ?h OR 2 ^ c"
      by (rule disjunctive_add_eq_or, rule bit_word_eqI)
        (auto simp: bit_and_iff bit_unset_bit_iff bit_exp_iff)
    also have "\<dots> = m"
      using c cl by (intro bit_word_eqI) (auto simp: bit_or_iff bit_unset_bit_iff bit_exp_iff)
    finally show ?thesis ..
  qed
  then have "m - 1 = ?h + mask c" by (simp add: mask_eq_exp_minus_1)
  also have "\<dots> = ?h OR mask c"
  proof (rule disjunctive_add_eq_or)
    show "?h AND mask c = 0"
      using low by (intro bit_word_eqI) (auto simp: bit_and_iff bit_unset_bit_iff bit_mask_iff)
  qed
  finally have "bit (m - 1) i \<longleftrightarrow> bit ?h i \<or> bit (mask c :: 'a word) i" by (simp add: bit_or_iff)
  then show ?thesis
    using low c by (auto simp: bit_and_iff bit_unset_bit_iff bit_mask_iff)
qed

lemma mask_bits_eq: "mask_bits m = filter (bit m) [0..<64]"
proof (induction m rule: mask_bits.induct)
  case (1 m)
  show ?case
  proof (cases "m = 0")
    case True
    then show ?thesis by (subst mask_bits.simps) simp
  next
    case False
    note z = ctzll_bit [OF False]
    have split: "[0..<64] = [0..<ctzll m] @ ctzll m # [Suc (ctzll m)..<64]"
      using z by (metis less_imp_le_nat upt_add_eq_append upt_conv_Cons le_add_diff_inverse zero_le)
    have "filter (bit m) [0..<64] = ctzll m # filter (bit m) [Suc (ctzll m)..<64]"
      using z by (simp add: split filter_False)
    moreover have "filter (bit (m AND (m - 1))) [0..<64] = filter (bit m) [Suc (ctzll m)..<64]"
    proof -
      have f: "bit (m AND (m - 1)) = (\<lambda>i. bit m i \<and> i \<noteq> ctzll m)"
        using bit_clear_lowest [of m "ctzll m"] z by (auto simp: fun_eq_iff)
      have "filter (bit m) [Suc (ctzll m)..<64] = filter (\<lambda>i. bit m i \<and> i \<noteq> ctzll m) [Suc (ctzll m)..<64]"
        by (intro filter_cong) auto
      then show ?thesis using z by (simp add: f split filter_False)
    qed
    ultimately show ?thesis using "1.IH" [OF False] False by (subst mask_bits.simps) simp
  qed
qed

subsection \<open>Invariant and abstraction\<close>

text \<open>
  A core whose ring holds an item has its bit set in the bitmap; a set bit may
  stand for an empty ring.
\<close>

definition pc_ring :: "'a pcqueue \<Rightarrow> nat \<Rightarrow> 'a list" where
  "pc_ring q c = sp_contents (pc_queues q ! c)"

definition pc_items :: "'a pcqueue \<Rightarrow> 'a list" where
  "pc_items q = lq_contents (pc_local q) @ concat (map (pc_ring q) [0..<MAX_CORES])"

definition pc_rings_ok :: "'a pcqueue \<Rightarrow> bool" where
  "pc_rings_ok q \<longleftrightarrow> length (pc_queues q) = MAX_CORES
     \<and> (\<forall>c < MAX_CORES. sp_inv (pc_queues q ! c) \<and> sp_room (pc_queues q ! c) = unat (pc_capacity q) - 1)"

definition pcq_inv :: "'a pcqueue \<Rightarrow> bool" where
  "pcq_inv q \<longleftrightarrow> pc_rings_ok q \<and> lq_inv (pc_local q) \<and> lq_room (pc_local q) = unat (pc_capacity q) - 1
     \<and> length (pc_active q) = BITMAP_WORDS
     \<and> (\<forall>c < MAX_CORES. pc_ring q c \<noteq> [] \<longrightarrow> bit (pc_active q ! (c div 64)) (c mod 64))"

lemma sp_contents_le_room: "sp_inv q \<Longrightarrow> length (sp_contents q) \<le> sp_room q"
  using sp_dist_less [of q "sp_head q" "sp_tail q"] by (simp add: sp_room_def)

lemma lq_contents_le_room: "lq_inv q \<Longrightarrow> length (lq_contents q) \<le> lq_room q"
  using ring_dist_less [of "unat (lq_capacity q)" "unat (lq_head q)" "unat (lq_tail q)"]
  by (simp add: lq_inv_def lq_contents_def lq_count_def lq_room_def)

lemma pc_ring_drain:
  assumes "pc_rings_ok q" "c < MAX_CORES"
  obtains s where "drain_loop (Suc (unat (pc_capacity q))) sp_try_dequeue (pc_queues q ! c) = (pc_ring q c, s)"
    "pc_rings_ok (q\<lparr>pc_queues := (pc_queues q)[c := s]\<rparr>)"
    "\<And>i. i < MAX_CORES \<Longrightarrow> pc_ring (q\<lparr>pc_queues := (pc_queues q)[c := s]\<rparr>) i = (if i = c then [] else pc_ring q i)"
proof -
  have inv: "sp_inv (pc_queues q ! c)" and room: "sp_room (pc_queues q ! c) = unat (pc_capacity q) - 1"
    and len: "length (pc_queues q) = MAX_CORES"
    using assms by (auto simp: pc_rings_ok_def)
  have "length (sp_contents (pc_queues q ! c)) < Suc (unat (pc_capacity q))"
    using sp_contents_le_room [OF inv] room by simp
  from sp.drain_all [OF inv this] obtain s where s:
    "drain_loop (Suc (unat (pc_capacity q))) sp_try_dequeue (pc_queues q ! c) = (pc_ring q c, s)"
    "sp_inv s" "sp_contents s = []" "sp_room s = unat (pc_capacity q) - 1"
    by (auto simp: pc_ring_def room)
  have "pc_rings_ok (q\<lparr>pc_queues := (pc_queues q)[c := s]\<rparr>)"
    using assms s len by (auto simp: pc_rings_ok_def nth_list_update)
  moreover have "pc_ring (q\<lparr>pc_queues := (pc_queues q)[c := s]\<rparr>) i = (if i = c then [] else pc_ring q i)"
    if "i < MAX_CORES" for i
    using that s len by (auto simp: pc_ring_def nth_list_update)
  ultimately show ?thesis using that s(1) by blast
qed

lemma drain_cores_spec:
  assumes "pc_rings_ok q" "set cs \<subseteq> {..<MAX_CORES}" "distinct cs"
  shows "\<exists>qs. drain_cores cs q = (concat (map (pc_ring q) cs), q\<lparr>pc_queues := qs\<rparr>)
     \<and> pc_rings_ok (q\<lparr>pc_queues := qs\<rparr>)
     \<and> (\<forall>i < MAX_CORES. pc_ring (q\<lparr>pc_queues := qs\<rparr>) i = (if i \<in> set cs then [] else pc_ring q i))"
  using assms
proof (induction cs arbitrary: q)
  case Nil
  then show ?case by (auto intro!: exI [of _ "pc_queues q"])
next
  case (Cons c cs)
  then have c: "c < MAX_CORES" by simp
  from pc_ring_drain [OF Cons.prems(1) c] obtain s where s:
    "drain_loop (Suc (unat (pc_capacity q))) sp_try_dequeue (pc_queues q ! c) = (pc_ring q c, s)"
    "pc_rings_ok (q\<lparr>pc_queues := (pc_queues q)[c := s]\<rparr>)"
    "\<And>i. i < MAX_CORES \<Longrightarrow> pc_ring (q\<lparr>pc_queues := (pc_queues q)[c := s]\<rparr>) i = (if i = c then [] else pc_ring q i)"
    by blast
  let ?q1 = "q\<lparr>pc_queues := (pc_queues q)[c := s]\<rparr>"
  from Cons.IH [OF s(2)] Cons.prems obtain qs where qs:
    "drain_cores cs ?q1 = (concat (map (pc_ring ?q1) cs), ?q1\<lparr>pc_queues := qs\<rparr>)"
    "pc_rings_ok (?q1\<lparr>pc_queues := qs\<rparr>)"
    "\<forall>i < MAX_CORES. pc_ring (?q1\<lparr>pc_queues := qs\<rparr>) i = (if i \<in> set cs then [] else pc_ring ?q1 i)"
    by auto
  have m: "map (pc_ring ?q1) cs = map (pc_ring q) cs"
    using Cons.prems(2,3) s(3) by (auto simp: subset_iff)
  show ?case
    using s(1) qs m s(3) by (intro exI [of _ qs]) auto
qed

lemma pc_word_cores:
  assumes "w < BITMAP_WORDS"
  shows "set (map (\<lambda>b. w * 64 + b) (mask_bits m)) = {c. c < MAX_CORES \<and> c div 64 = w \<and> bit m (c mod 64)}"
    and "distinct (map (\<lambda>b. w * 64 + b) (mask_bits m))"
proof -
  have "w < 2" using assms by (simp add: BITMAP_WORDS_def MAX_CORES_def)
  have "c \<in> (\<lambda>b. w * 64 + b) ` {b. b < 64 \<and> bit m b}"
    if "c < MAX_CORES" "c div 64 = w" "bit m (c mod 64)" for c
    using that div_mult_mod_eq [of c 64] by (intro image_eqI [of _ _ "c mod 64"]) auto
  moreover have "w * 64 + b < MAX_CORES" "(w * 64 + b) div 64 = w" "(w * 64 + b) mod 64 = b" if "b < 64" for b
    using that \<open>w < 2\<close> by (auto simp: MAX_CORES_def)
  ultimately show "set (map (\<lambda>b. w * 64 + b) (mask_bits m)) = {c. c < MAX_CORES \<and> c div 64 = w \<and> bit m (c mod 64)}"
    by (auto simp: mask_bits_eq)
  show "distinct (map (\<lambda>b. w * 64 + b) (mask_bits m))"
    by (auto simp: mask_bits_eq distinct_map inj_on_def)
qed

lemma concat_map_filter_Nil:
  "(\<And>x. x \<in> set xs \<Longrightarrow> \<not> P x \<Longrightarrow> f x = []) \<Longrightarrow> concat (map f (filter P xs)) = concat (map f xs)"
  by (induction xs) auto

lemma concat_map_single:
  "c < n \<Longrightarrow> (\<And>i. i < n \<Longrightarrow> i \<noteq> c \<Longrightarrow> f i = []) \<Longrightarrow> concat (map f [0..<n]) = f c"
proof (induction n)
  case (Suc n)
  then show ?case by (cases "c = n") auto
qed simp

lemma map_offset_upt: "map (\<lambda>b. f (k + b)) [0..<n] = map f [k..<k + n]"
  by (induction n) auto

lemma pc_word_items:
  assumes w: "w < BITMAP_WORDS" and bits: "\<And>c. c < MAX_CORES \<Longrightarrow> c div 64 = w \<Longrightarrow> f c \<noteq> [] \<Longrightarrow> bit m (c mod 64)"
  shows "concat (map f (map (\<lambda>b. w * 64 + b) (mask_bits m))) = concat (map f [w * 64..<w * 64 + 64])"
proof -
  have "w < 2" using w by (simp add: BITMAP_WORDS_def MAX_CORES_def)
  have "f (w * 64 + b) = []" if "b < 64" "\<not> bit m b" for b
    using bits [of "w * 64 + b"] that \<open>w < 2\<close> by (auto simp: MAX_CORES_def)
  then have "concat (map (\<lambda>b. f (w * 64 + b)) (mask_bits m)) = concat (map (\<lambda>b. f (w * 64 + b)) [0..<64])"
    unfolding mask_bits_eq by (intro concat_map_filter_Nil) auto
  then show ?thesis by (simp only: map_map comp_def map_offset_upt)
qed

text \<open>One bitmap word: exchange it with zero, then empty the rings it names.\<close>

lemma drain_word_spec:
  assumes inv: "pcq_inv q" and w: "w < BITMAP_WORDS"
  shows "\<exists>qs. drain_cores (map (\<lambda>b. w * 64 + b) (mask_bits (pc_active q ! w)))
        (q\<lparr>pc_active := (pc_active q)[w := 0]\<rparr>)
        = (concat (map (pc_ring q) [w * 64..<w * 64 + 64]), q\<lparr>pc_active := (pc_active q)[w := 0], pc_queues := qs\<rparr>)
     \<and> pcq_inv (q\<lparr>pc_active := (pc_active q)[w := 0], pc_queues := qs\<rparr>)
     \<and> (\<forall>i < MAX_CORES. pc_ring (q\<lparr>pc_active := (pc_active q)[w := 0], pc_queues := qs\<rparr>) i
          = (if i div 64 = w then [] else pc_ring q i))"
proof -
  let ?q0 = "q\<lparr>pc_active := (pc_active q)[w := 0]\<rparr>" and ?m = "pc_active q ! w"
  let ?cs = "map (\<lambda>b. w * 64 + b) (mask_bits ?m)"
  have ok: "pc_rings_ok ?q0" using inv by (simp add: pcq_inv_def pc_rings_ok_def)
  have ring0: "pc_ring ?q0 = pc_ring q" by (simp add: pc_ring_def fun_eq_iff)
  have set_cs: "set ?cs = {c. c < MAX_CORES \<and> c div 64 = w \<and> bit ?m (c mod 64)}"
    by (rule pc_word_cores [OF w])
  then have "set ?cs \<subseteq> {..<MAX_CORES}" by auto
  from drain_cores_spec [OF ok this pc_word_cores(2) [OF w]] obtain qs where qs:
    "drain_cores ?cs ?q0 = (concat (map (pc_ring q) ?cs), ?q0\<lparr>pc_queues := qs\<rparr>)"
    "pc_rings_ok (?q0\<lparr>pc_queues := qs\<rparr>)"
    and rest: "\<forall>i < MAX_CORES. pc_ring (?q0\<lparr>pc_queues := qs\<rparr>) i = (if i \<in> set ?cs then [] else pc_ring q i)"
    by (auto simp: ring0)
  have bits: "bit ?m (c mod 64)" if "c < MAX_CORES" "c div 64 = w" "pc_ring q c \<noteq> []" for c
    using inv that by (auto simp: pcq_inv_def)
  have items: "concat (map (pc_ring q) ?cs) = concat (map (pc_ring q) [w * 64..<w * 64 + 64])"
    by (rule pc_word_items [OF w bits])
  have emptied: "pc_ring (?q0\<lparr>pc_queues := qs\<rparr>) i = (if i div 64 = w then [] else pc_ring q i)"
    if "i < MAX_CORES" for i
    using rest that bits [of i] unfolding set_cs by auto
  moreover have "pcq_inv (?q0\<lparr>pc_queues := qs\<rparr>)"
    using inv qs(2) w emptied by (auto simp: pcq_inv_def nth_list_update)
  ultimately show ?thesis using qs(1) items by (intro exI [of _ qs]) auto
qed

lemma pc_drain_spec:
  assumes inv: "pcq_inv q"
  shows "\<exists>q'. pc_drain q = (pc_items q \<noteq> [], pc_items q, q') \<and> pcq_inv q' \<and> pc_items q' = []
     \<and> pc_empty q' \<and> pc_capacity q' = pc_capacity q \<and> pc_owner q' = pc_owner q"
proof -
  have lq: "lq_inv (pc_local q)" "lq_room (pc_local q) = unat (pc_capacity q) - 1"
    using inv by (auto simp: pcq_inv_def)
  have "length (lq_contents (pc_local q)) < Suc (unat (pc_capacity q))"
    using lq_contents_le_room [OF lq(1)] lq(2) by simp
  from lq.drain_all [OF lq(1) this] obtain l where l:
    "drain_loop (Suc (unat (pc_capacity q))) lq_try_dequeue (pc_local q) = (lq_contents (pc_local q), l)"
    "lq_inv l" "lq_contents l = []" "lq_room l = unat (pc_capacity q) - 1"
    by (auto simp: lq(2))
  let ?q0 = "q\<lparr>pc_local := l\<rparr>"
  have ring0: "pc_ring ?q0 = pc_ring q" by (simp add: pc_ring_def fun_eq_iff)
  have inv0: "pcq_inv ?q0"
    using inv l by (simp add: pcq_inv_def pc_rings_ok_def ring0)
  have bw: "0 < BITMAP_WORDS" "1 < BITMAP_WORDS" "[0..<BITMAP_WORDS] = [0, 1]" "MAX_CORES = 128"
    by (simp_all add: BITMAP_WORDS_def MAX_CORES_def upt_rec)
  from drain_word_spec [OF inv0 bw(1)] obtain qs0 where w0:
    "drain_cores (map (\<lambda>b. 0 * 64 + b) (mask_bits (pc_active ?q0 ! 0))) (?q0\<lparr>pc_active := (pc_active ?q0)[0 := 0]\<rparr>)
       = (concat (map (pc_ring q) [0..<64]), ?q0\<lparr>pc_active := (pc_active ?q0)[0 := 0], pc_queues := qs0\<rparr>)"
    "pcq_inv (?q0\<lparr>pc_active := (pc_active ?q0)[0 := 0], pc_queues := qs0\<rparr>)"
    "\<forall>i < MAX_CORES. pc_ring (?q0\<lparr>pc_active := (pc_active ?q0)[0 := 0], pc_queues := qs0\<rparr>) i
          = (if i div 64 = 0 then [] else pc_ring q i)"
    by (auto simp: ring0)
  let ?q1 = "?q0\<lparr>pc_active := (pc_active ?q0)[0 := 0], pc_queues := qs0\<rparr>"
  from drain_word_spec [OF w0(2) bw(2)] obtain qs1 where w1:
    "drain_cores (map (\<lambda>b. 1 * 64 + b) (mask_bits (pc_active ?q1 ! 1))) (?q1\<lparr>pc_active := (pc_active ?q1)[1 := 0]\<rparr>)
       = (concat (map (pc_ring ?q1) [64..<128]), ?q1\<lparr>pc_active := (pc_active ?q1)[1 := 0], pc_queues := qs1\<rparr>)"
    "pcq_inv (?q1\<lparr>pc_active := (pc_active ?q1)[1 := 0], pc_queues := qs1\<rparr>)"
    "\<forall>i < MAX_CORES. pc_ring (?q1\<lparr>pc_active := (pc_active ?q1)[1 := 0], pc_queues := qs1\<rparr>) i
          = (if i div 64 = 1 then [] else pc_ring ?q1 i)"
    by auto
  let ?q2 = "?q1\<lparr>pc_active := (pc_active ?q1)[1 := 0], pc_queues := qs1\<rparr>"
  have items1: "concat (map (pc_ring ?q1) [64..<128]) = concat (map (pc_ring q) [64..<128])"
    using w0(3) bw(4) by (intro arg_cong [of _ _ concat] map_cong) auto
  have split: "[0..<128] = [0..<64] @ [64..<(128::nat)]"
    using upt_add_eq_append [of 0 64 64] by (simp only: le0 mult_1 arith_simps)
  have dw: "drain_words [0..<BITMAP_WORDS] ?q0 = (concat (map (pc_ring q) [0..<128]), ?q2)"
    unfolding bw(3) drain_words.simps Let_def w0(1) w1(1) prod.case items1 split by simp
  have "pc_ring ?q2 i = []" if "i < 128" for i
    using w0(3) w1(3) that bw(4) by (auto simp: div_eq_0_iff)
  then have e: "pc_items ?q2 = []" using l bw(4) by (simp add: pc_items_def)
  have "length (pc_active q) = 2" using inv by (simp add: pcq_inv_def BITMAP_WORDS_def MAX_CORES_def)
  then have a: "pc_active ?q2 = [0, 0]" by (auto simp: length_Suc_conv numeral_2_eq_2)
  have "lq_empty l" using l lq_contents_Nil_iff [OF l(2)] by (simp add: lq_empty_def)
  then have "pc_empty ?q2" using a by (simp add: pc_empty_def bw(3))
  moreover have "pc_drain q = (pc_items q \<noteq> [], pc_items q, ?q2)"
    unfolding pc_drain_def l(1) prod.case Let_def dw by (simp add: pc_items_def bw(4))
  ultimately show ?thesis using w1(2) e by (intro exI [of _ ?q2]) auto
qed

subsection \<open>Enqueue, construction\<close>

text \<open>The items of the listed sends that go to the owner's own ring, and to the ring of core \<open>i\<close>.\<close>

definition sent_local :: "u32 \<Rightarrow> (u32 \<times> 'a) list \<Rightarrow> 'a list" where
  "sent_local owner es = map snd (filter (\<lambda>e. fst e = owner) es)"

definition sent_from :: "u32 \<Rightarrow> nat \<Rightarrow> (u32 \<times> 'a) list \<Rightarrow> 'a list" where
  "sent_from owner i es = map snd (filter (\<lambda>e. fst e \<noteq> owner \<and> unat (fst e) = i) es)"

lemma sent_append [simp]:
  "sent_local owner (es @ fs) = sent_local owner es @ sent_local owner fs"
  "sent_from owner i (es @ fs) = sent_from owner i es @ sent_from owner i fs"
  "sent_local owner [] = []" "sent_from owner i [] = []"
  by (simp_all add: sent_local_def sent_from_def)

definition pc_accepts :: "u32 \<Rightarrow> 'a pcqueue \<Rightarrow> bool" where
  "pc_accepts core q \<longleftrightarrow>
     length (if core = pc_owner q then lq_contents (pc_local q) else pc_ring q (unat core))
       < unat (pc_capacity q) - 1"

lemma pc_enqueue_spec:
  assumes inv: "pcq_inv q" and core: "core = pc_owner q \<or> unat core < MAX_CORES"
  shows "\<exists>q'. pc_try_enqueue ab core x q =
        (if pc_accepts core q then Pc_Ok else if ab then Pc_Abort else Pc_Full, q')
     \<and> pcq_inv q' \<and> pc_capacity q' = pc_capacity q \<and> pc_owner q' = pc_owner q
     \<and> lq_contents (pc_local q') = lq_contents (pc_local q)
         @ sent_local (pc_owner q) (if pc_accepts core q then [(core, x)] else [])
     \<and> (\<forall>i < MAX_CORES. pc_ring q' i = pc_ring q i
         @ sent_from (pc_owner q) i (if pc_accepts core q then [(core, x)] else []))"
proof (cases "core = pc_owner q")
  case True
  have lq: "lq_inv (pc_local q)" "lq_room (pc_local q) = unat (pc_capacity q) - 1"
    using inv by (auto simp: pcq_inv_def)
  have ring: "pc_ring (q\<lparr>pc_local := l\<rparr>) = pc_ring q" for l by (simp add: pc_ring_def fun_eq_iff)
  have inv': "pcq_inv (q\<lparr>pc_local := l\<rparr>)" if "lq_inv l" "lq_room l = lq_room (pc_local q)" for l
    using inv that lq(2) unfolding pcq_inv_def pc_rings_ok_def ring by simp
  show ?thesis
  proof (cases "pc_accepts core q")
    case room: True
    with True lq obtain l where "lq_try_enqueue x (pc_local q) = (True, l)" "lq_inv l"
      "lq_contents l = lq_contents (pc_local q) @ [x]" "lq_room l = lq_room (pc_local q)"
      using lq.enq_room [of "pc_local q" x] by (auto simp: pc_accepts_def)
    with True room inv' [of l] show ?thesis
      by (simp add: pc_try_enqueue_def ring sent_local_def sent_from_def)
  next
    case full: False
    with True lq obtain l where "lq_try_enqueue x (pc_local q) = (False, l)" "lq_inv l"
      "lq_contents l = lq_contents (pc_local q)" "lq_room l = lq_room (pc_local q)"
      using lq.enq_full [of "pc_local q" x] by (auto simp: pc_accepts_def)
    with True full inv' [of l] show ?thesis by (simp add: pc_try_enqueue_def ring)
  qed
next
  case False
  let ?i = "unat core"
  have i: "?i < MAX_CORES" using core False by simp
  have sp: "sp_inv (pc_queues q ! ?i)" "sp_room (pc_queues q ! ?i) = unat (pc_capacity q) - 1"
    and len: "length (pc_queues q) = MAX_CORES" "length (pc_active q) = BITMAP_WORDS"
    using inv i by (auto simp: pcq_inv_def pc_rings_ok_def)
  have w: "?i div 64 < BITMAP_WORDS" using i by (simp add: MAX_CORES_def BITMAP_WORDS_def)
  have ring: "pc_ring (q\<lparr>pc_queues := (pc_queues q)[?i := s], pc_active := a\<rparr>) c
      = (if c = ?i then sp_contents s else pc_ring q c)" if "c < MAX_CORES" for c s a
    using that len by (auto simp: pc_ring_def nth_list_update)
  have ok: "pc_rings_ok (q\<lparr>pc_queues := (pc_queues q)[?i := s], pc_active := a\<rparr>)"
    if "sp_inv s" "sp_room s = sp_room (pc_queues q ! ?i)" for s a
    using inv that sp len i by (auto simp: pcq_inv_def pc_rings_ok_def nth_list_update)
  show ?thesis
  proof (cases "pc_accepts core q")
    case room: True
    with False sp obtain s where s: "sp_try_enqueue x (pc_queues q ! ?i) = (True, s)" "sp_inv s"
      "sp_contents s = pc_ring q ?i @ [x]" "sp_room s = sp_room (pc_queues q ! ?i)"
      using sp.enq_room [of "pc_queues q ! ?i" x] by (auto simp: pc_accepts_def pc_ring_def)
    let ?a = "(pc_active q)[?i div 64 := (pc_active q ! (?i div 64)) OR push_bit (?i mod 64) 1]"
    let ?q = "q\<lparr>pc_queues := (pc_queues q)[?i := s], pc_active := ?a\<rparr>"
    have "bit (?a ! (c div 64)) (c mod 64)" if "c < MAX_CORES" "pc_ring ?q c \<noteq> []" for c
    proof (cases "c = ?i")
      case True
      then show ?thesis using w len by (simp add: bit_or_iff bit_exp_iff)
    next
      case False
      then have "bit (pc_active q ! (c div 64)) (c mod 64)"
        using inv that ring [OF that(1)] by (simp add: pcq_inv_def)
      then show ?thesis using w len by (simp add: nth_list_update bit_or_iff)
    qed
    then have "pcq_inv ?q" using inv ok [OF s(2,4)] by (simp add: pcq_inv_def)
    with False room s(1,3) ring [where s = s and a = ?a] show ?thesis
      by (simp add: pc_try_enqueue_def Let_def sent_local_def sent_from_def)
  next
    case full: False
    with False sp obtain s where s: "sp_try_enqueue x (pc_queues q ! ?i) = (False, s)" "sp_inv s"
      "sp_contents s = pc_ring q ?i" "sp_room s = sp_room (pc_queues q ! ?i)"
      using sp.enq_full [of "pc_queues q ! ?i" x] by (auto simp: pc_accepts_def pc_ring_def)
    let ?q = "q\<lparr>pc_queues := (pc_queues q)[?i := s]\<rparr>"
    have ring': "pc_ring ?q c = pc_ring q c" if "c < MAX_CORES" for c
      using ring [OF that, where s = s and a = "pc_active q"] s(3) by simp
    then have "pcq_inv ?q" using inv ok [OF s(2,4), where a = "pc_active q"] by (simp add: pcq_inv_def)
    with False full s(1) ring' show ?thesis by (simp add: pc_try_enqueue_def Let_def)
  qed
qed

lemma pc_new_inv:
  assumes "pc_new d cap owner = Some q" "cap \<noteq> 0"
  shows "pcq_inv q \<and> lq_contents (pc_local q) = [] \<and> (\<forall>i < MAX_CORES. pc_ring q i = [])
    \<and> pc_capacity q = cap \<and> pc_owner q = owner"
proof -
  from assms(1) obtain l s where ls: "lq_new d cap = Some l" "sp_new d cap = Some s"
    and q: "q = \<lparr>pc_capacity = cap, pc_queues = replicate MAX_CORES s, pc_local = l, pc_owner = owner,
      pc_active = replicate BITMAP_WORDS 0\<rparr>"
    by (auto simp: pc_new_def split: option.splits)
  have "pc_ring q i = []" if "i < MAX_CORES" for i
    using sp_new_inv [OF ls(2) assms(2)] that by (simp add: q pc_ring_def)
  then show ?thesis
    using lq_new_inv [OF ls(1) assms(2)] sp_new_inv [OF ls(2) assms(2)]
    by (simp add: q pcq_inv_def pc_rings_ok_def)
qed

text \<open>A sequence of sends from any cores; the first component lists the accepted ones.\<close>

fun pc_send_all :: "(u32 \<times> 'a) list \<Rightarrow> 'a pcqueue \<Rightarrow> (u32 \<times> 'a) list \<times> 'a pcqueue" where
  "pc_send_all [] q = ([], q)"
| "pc_send_all ((core, x) # es) q =
     (let (r, q1) = pc_try_enqueue False core x q; (acc, q2) = pc_send_all es q1
      in (if r = Pc_Ok then (core, x) # acc else acc, q2))"

lemma pc_send_all_spec:
  assumes "pcq_inv q" "\<And>e. e \<in> set es \<Longrightarrow> fst e = pc_owner q \<or> unat (fst e) < MAX_CORES"
  shows "\<exists>acc q'. pc_send_all es q = (acc, q') \<and> pcq_inv q' \<and> pc_owner q' = pc_owner q
     \<and> lq_contents (pc_local q') = lq_contents (pc_local q) @ sent_local (pc_owner q) acc
     \<and> (\<forall>i < MAX_CORES. pc_ring q' i = pc_ring q i @ sent_from (pc_owner q) i acc)"
  using assms
proof (induction es arbitrary: q)
  case Nil
  then show ?case by simp
next
  case (Cons e es)
  obtain core x where e: "e = (core, x)" by (cases e)
  let ?hd = "if pc_accepts core q then [(core, x)] else []"
  from Cons.prems(2) [of e] have core: "core = pc_owner q \<or> unat core < MAX_CORES" by (simp add: e)
  from pc_enqueue_spec [OF Cons.prems(1) core, of False x] obtain q1 where q1:
    "pc_try_enqueue False core x q = (if pc_accepts core q then Pc_Ok else Pc_Full, q1)"
    "pcq_inv q1" "pc_owner q1 = pc_owner q"
    "lq_contents (pc_local q1) = lq_contents (pc_local q) @ sent_local (pc_owner q) ?hd"
    "\<forall>i < MAX_CORES. pc_ring q1 i = pc_ring q i @ sent_from (pc_owner q) i ?hd"
    by auto
  from Cons.IH [OF q1(2)] Cons.prems(2) q1(3) obtain acc q2 where q2:
    "pc_send_all es q1 = (acc, q2)" "pcq_inv q2" "pc_owner q2 = pc_owner q"
    "lq_contents (pc_local q2) = lq_contents (pc_local q1) @ sent_local (pc_owner q) acc"
    "\<forall>i < MAX_CORES. pc_ring q2 i = pc_ring q1 i @ sent_from (pc_owner q) i acc"
    by auto
  have "pc_send_all (e # es) q = (?hd @ acc, q2)"
    using q1(1) q2(1) by (simp add: e)
  then show ?case
    unfolding e using q2 q1(4,5) by (intro exI conjI) (assumption | simp only: sent_append append_assoc | simp)+
qed

subsection \<open>Dequeue of one item\<close>

lemma pc_ring_dequeue:
  assumes "pc_rings_ok q" "c < MAX_CORES"
  obtains s where "sp_try_dequeue (pc_queues q ! c) = (case pc_ring q c of [] \<Rightarrow> None | x # _ \<Rightarrow> Some x, s)"
    "pc_rings_ok (q\<lparr>pc_queues := (pc_queues q)[c := s]\<rparr>)"
    "\<And>i. i < MAX_CORES \<Longrightarrow> pc_ring (q\<lparr>pc_queues := (pc_queues q)[c := s]\<rparr>) i = (if i = c then tl (pc_ring q c) else pc_ring q i)"
proof -
  have inv: "sp_inv (pc_queues q ! c)" and len: "length (pc_queues q) = MAX_CORES"
    using assms by (auto simp: pc_rings_ok_def)
  obtain s where s: "sp_try_dequeue (pc_queues q ! c) = (case pc_ring q c of [] \<Rightarrow> None | x # _ \<Rightarrow> Some x, s)"
    "sp_inv s" "sp_contents s = tl (pc_ring q c)" "sp_room s = sp_room (pc_queues q ! c)"
    using sp.deq_none [OF inv] sp.deq_some [OF inv]
    by (cases "pc_ring q c") (auto simp: pc_ring_def)
  have "pc_rings_ok (q\<lparr>pc_queues := (pc_queues q)[c := s]\<rparr>)"
    using assms s len by (auto simp: pc_rings_ok_def nth_list_update)
  moreover have "pc_ring (q\<lparr>pc_queues := (pc_queues q)[c := s]\<rparr>) i = (if i = c then tl (pc_ring q c) else pc_ring q i)"
    if "i < MAX_CORES" for i
    using that s len by (auto simp: pc_ring_def nth_list_update)
  ultimately show ?thesis using that s(1) by blast
qed

lemma dequeue_cores_spec:
  assumes "pc_rings_ok q" "set cs \<subseteq> {..<MAX_CORES}" "distinct cs"
  shows "\<exists>qs. dequeue_cores cs q =
        (case concat (map (pc_ring q) cs) of [] \<Rightarrow> None | x # _ \<Rightarrow> Some x, q\<lparr>pc_queues := qs\<rparr>)
     \<and> pc_rings_ok (q\<lparr>pc_queues := qs\<rparr>)
     \<and> concat (map (pc_ring (q\<lparr>pc_queues := qs\<rparr>)) cs) = tl (concat (map (pc_ring q) cs))
     \<and> (\<forall>i < MAX_CORES. pc_ring q i = [] \<longrightarrow> pc_ring (q\<lparr>pc_queues := qs\<rparr>) i = [])
     \<and> (\<forall>i < MAX_CORES. i \<notin> set cs \<longrightarrow> pc_ring (q\<lparr>pc_queues := qs\<rparr>) i = pc_ring q i)"
  using assms
proof (induction cs arbitrary: q)
  case Nil
  then show ?case by (auto intro!: exI [of _ "pc_queues q"])
next
  case (Cons c cs)
  then have c: "c < MAX_CORES" by simp
  from pc_ring_dequeue [OF Cons.prems(1) c] obtain s where s:
    "sp_try_dequeue (pc_queues q ! c) = (case pc_ring q c of [] \<Rightarrow> None | x # _ \<Rightarrow> Some x, s)"
    "pc_rings_ok (q\<lparr>pc_queues := (pc_queues q)[c := s]\<rparr>)"
    "\<And>i. i < MAX_CORES \<Longrightarrow> pc_ring (q\<lparr>pc_queues := (pc_queues q)[c := s]\<rparr>) i = (if i = c then tl (pc_ring q c) else pc_ring q i)"
    by blast
  let ?q1 = "q\<lparr>pc_queues := (pc_queues q)[c := s]\<rparr>"
  have m: "map (pc_ring ?q1) cs = map (pc_ring q) cs"
    using Cons.prems(2,3) s(3) by (auto simp: subset_iff)
  show ?case
  proof (cases "pc_ring q c")
    case (Cons x xs)
    with s m [THEN arg_cong [of _ _ concat]] c show ?thesis
      using \<open>distinct (c # cs)\<close> by (intro exI [of _ "(pc_queues q)[c := s]"]) auto
  next
    case Nil
    have cm: "concat (map (pc_ring ?q1) cs) = concat (map (pc_ring q) cs)" by (simp only: m)
    from Cons.IH [OF s(2)] Cons.prems obtain qs where qs:
      "dequeue_cores cs ?q1 = (case concat (map (pc_ring ?q1) cs) of [] \<Rightarrow> None | x # _ \<Rightarrow> Some x, ?q1\<lparr>pc_queues := qs\<rparr>)"
      "pc_rings_ok (?q1\<lparr>pc_queues := qs\<rparr>)"
      "concat (map (pc_ring (?q1\<lparr>pc_queues := qs\<rparr>)) cs) = tl (concat (map (pc_ring ?q1) cs))"
      "\<forall>i < MAX_CORES. pc_ring ?q1 i = [] \<longrightarrow> pc_ring (?q1\<lparr>pc_queues := qs\<rparr>) i = []"
      "\<forall>i < MAX_CORES. i \<notin> set cs \<longrightarrow> pc_ring (?q1\<lparr>pc_queues := qs\<rparr>) i = pc_ring ?q1 i"
      by auto
    note qs' = qs(1,3) [unfolded cm]
    from s qs' qs(2,4,5) c Nil show ?thesis by (intro exI [of _ qs]) auto
  qed
qed

lemma active_cores_spec:
  assumes inv: "pcq_inv q"
  shows "set (active_cores q) \<subseteq> {..<MAX_CORES}" "distinct (active_cores q)"
    and "\<And>i. i < MAX_CORES \<Longrightarrow> i \<notin> set (active_cores q) \<Longrightarrow> pc_ring q i = []"
    and "\<And>f. (\<And>i. i < MAX_CORES \<Longrightarrow> i \<notin> set (active_cores q) \<Longrightarrow> f i = []) \<Longrightarrow>
      concat (map f (active_cores q)) = concat (map f [0..<MAX_CORES])"
proof -
  have bw: "0 < BITMAP_WORDS" "1 < BITMAP_WORDS" "[0..<BITMAP_WORDS] = [0, 1]" "MAX_CORES = 128"
    by (simp_all add: BITMAP_WORDS_def MAX_CORES_def upt_rec)
  let ?cs = "\<lambda>w. map (\<lambda>b. w * 64 + b) (mask_bits (pc_active q ! w))"
  have a: "active_cores q = ?cs 0 @ ?cs 1"
    unfolding active_cores_def bw(3) by (simp only: list.map concat.simps append_Nil2)
  note w0 = pc_word_cores [OF bw(1), of "pc_active q ! 0"] and w1 = pc_word_cores [OF bw(2), of "pc_active q ! 1"]
  have set: "i \<in> set (active_cores q) \<longleftrightarrow> bit (pc_active q ! (i div 64)) (i mod 64)" if "i < MAX_CORES" for i
  proof -
    have "i div 64 = 0 \<or> i div 64 = 1" using that bw(4) by auto
    then show ?thesis unfolding a set_append w0(1) w1(1) using that by auto
  qed
  show "set (active_cores q) \<subseteq> {..<MAX_CORES}" unfolding a set_append w0(1) w1(1) by auto
  show "distinct (active_cores q)"
    unfolding a distinct_append w0(1) w1(1) by (intro conjI w0(2) w1(2)) auto
  show "pc_ring q i = []" if "i < MAX_CORES" "i \<notin> set (active_cores q)" for i
    using inv that set [of i] by (auto simp: pcq_inv_def)
  have split: "[0..<128] = [0..<64] @ [64..<(128::nat)]"
    using upt_add_eq_append [of 0 64 64] by (simp only: le0 mult_1 arith_simps)
  show "concat (map f (active_cores q)) = concat (map f [0..<MAX_CORES])"
    if e: "\<And>i. i < MAX_CORES \<Longrightarrow> i \<notin> set (active_cores q) \<Longrightarrow> f i = []" for f :: "nat \<Rightarrow> 'b list"
  proof -
    have b: "\<And>c. c < MAX_CORES \<Longrightarrow> c div 64 = w \<Longrightarrow> f c \<noteq> [] \<Longrightarrow> bit (pc_active q ! w) (c mod 64)" for w
      using e set by blast
    have "concat (map f (?cs 0)) = concat (map f [0 * 64..<0 * 64 + 64])"
      by (rule pc_word_items [OF bw(1)]) (rule b)
    then have "concat (map f (?cs 0)) = concat (map f [0..<64])" by (simp only: mult_zero_left add_0)
    moreover have "concat (map f (?cs 1)) = concat (map f [1 * 64..<1 * 64 + 64])"
      by (rule pc_word_items [OF bw(2)]) (rule b)
    then have "concat (map f (?cs 1)) = concat (map f [64..<128])" by (simp only: mult_1 arith_simps)
    ultimately show ?thesis unfolding a map_append concat_append bw(4) split by (simp only:)
  qed
qed

lemma pc_try_dequeue_spec:
  assumes inv: "pcq_inv q"
  shows "\<exists>q'. pc_try_dequeue q = (case pc_items q of [] \<Rightarrow> None | x # _ \<Rightarrow> Some x, q')
     \<and> pcq_inv q' \<and> pc_items q' = tl (pc_items q)"
proof -
  have lq: "lq_inv (pc_local q)" "lq_room (pc_local q) = unat (pc_capacity q) - 1"
    using inv by (auto simp: pcq_inv_def)
  have ring0: "pc_ring (q\<lparr>pc_local := l\<rparr>) = pc_ring q" for l by (simp add: pc_ring_def fun_eq_iff)
  have inv0: "pcq_inv (q\<lparr>pc_local := l\<rparr>)" if "lq_inv l" "lq_room l = lq_room (pc_local q)" for l
    using inv that lq by (simp add: pcq_inv_def pc_rings_ok_def ring0)
  show ?thesis
  proof (cases "lq_contents (pc_local q)")
    case (Cons x xs)
    from lq.deq_some [OF lq(1) Cons] obtain l where "lq_try_dequeue (pc_local q) = (Some x, l)" "lq_inv l"
      "lq_contents l = xs" "lq_room l = lq_room (pc_local q)" by blast
    with Cons inv0 [of l] show ?thesis by (simp add: pc_try_dequeue_def pc_items_def ring0)
  next
    case Nil
    from lq.deq_none [OF lq(1) Nil] obtain l where l: "lq_try_dequeue (pc_local q) = (None, l)" "lq_inv l"
      "lq_contents l = []" "lq_room l = lq_room (pc_local q)" by blast
    let ?q0 = "q\<lparr>pc_local := l\<rparr>"
    have i0: "pcq_inv ?q0" by (rule inv0 [OF l(2,4)])
    then have "pc_rings_ok ?q0" by (simp add: pcq_inv_def)
    note ac = active_cores_spec [OF i0]
    from dequeue_cores_spec [OF \<open>pc_rings_ok ?q0\<close> ac(1,2)] obtain qs where qs:
      "dequeue_cores (active_cores ?q0) ?q0 = (case concat (map (pc_ring q) (active_cores ?q0)) of [] \<Rightarrow> None | x # _ \<Rightarrow> Some x, ?q0\<lparr>pc_queues := qs\<rparr>)"
      "pc_rings_ok (?q0\<lparr>pc_queues := qs\<rparr>)"
      "concat (map (pc_ring (?q0\<lparr>pc_queues := qs\<rparr>)) (active_cores ?q0)) = tl (concat (map (pc_ring q) (active_cores ?q0)))"
      "\<forall>i < MAX_CORES. pc_ring q i = [] \<longrightarrow> pc_ring (?q0\<lparr>pc_queues := qs\<rparr>) i = []"
      by (auto simp: ring0)
    have items: "concat (map (pc_ring q) (active_cores ?q0)) = pc_items q"
      using ac(4) [of "pc_ring q"] ac(3) Nil by (simp add: ring0 pc_items_def)
    have items': "pc_items (?q0\<lparr>pc_queues := qs\<rparr>) = concat (map (pc_ring (?q0\<lparr>pc_queues := qs\<rparr>)) (active_cores ?q0))"
      using ac(4) [of "pc_ring (?q0\<lparr>pc_queues := qs\<rparr>)"] ac(3) qs(4) l(3) by (simp add: ring0 pc_items_def)
    have "pcq_inv (?q0\<lparr>pc_queues := qs\<rparr>)"
      using i0 qs(2,4) by (auto simp: pcq_inv_def ring0)
    with l(1) qs(1,3) items items' show ?thesis by (simp add: pc_try_dequeue_def Let_def)
  qed
qed

lemma dequeue_cores_active: "pc_active (snd (dequeue_cores cs q)) = pc_active q"
  by (induction cs arbitrary: q) (auto simp: Let_def split_def split: option.splits)

lemma pc_try_dequeue_active: "pc_active (snd (pc_try_dequeue q)) = pc_active q"
  by (auto simp: pc_try_dequeue_def Let_def split_def dequeue_cores_active split: option.splits)

subsection \<open>What the owner core sees\<close>

text \<open>
  C32: after any sequence of sends from any cores to a new queue, \<open>drain\<close> hands over
  exactly the accepted items: first the owner's own, then core by core, each
  source in its order of sending. It reports work exactly when there was any, and
  leaves every ring and the bitmap empty.
\<close>

theorem per_core_drain_delivers:
  assumes "pc_new d cap owner = Some q0" "cap \<noteq> 0"
    and "\<And>e. e \<in> set es \<Longrightarrow> fst e = owner \<or> unat (fst e) < MAX_CORES"
    and "pc_send_all es q0 = (acc, q)"
    and "items = sent_local owner acc @ concat (map (\<lambda>i. sent_from owner i acc) [0..<MAX_CORES])"
  shows "\<exists>q'. pc_drain q = (items \<noteq> [], items, q') \<and> pc_empty q' \<and> pc_items q' = []"
proof -
  have new: "pcq_inv q0" "lq_contents (pc_local q0) = []" "\<forall>i < MAX_CORES. pc_ring q0 i = []"
    "pc_owner q0 = owner"
    using pc_new_inv [OF assms(1,2)] by auto
  have "\<exists>acc q'. pc_send_all es q0 = (acc, q') \<and> pcq_inv q'
     \<and> lq_contents (pc_local q') = sent_local owner acc
     \<and> (\<forall>i < MAX_CORES. pc_ring q' i = sent_from owner i acc)"
    using pc_send_all_spec [OF new(1), of es] assms(3) by (auto simp: new)
  then have q: "pcq_inv q" "lq_contents (pc_local q) = sent_local owner acc"
    "\<forall>i < MAX_CORES. pc_ring q i = sent_from owner i acc"
    using assms(4) by auto
  have "map (pc_ring q) [0..<MAX_CORES] = map (\<lambda>i. sent_from owner i acc) [0..<MAX_CORES]"
    using q(3) by (intro map_cong) auto
  then have "pc_items q = items" using q(2) assms(5) by (simp only: pc_items_def)
  then show ?thesis using pc_drain_spec [OF q(1)] by auto
qed

text \<open>Core 5 sends twice to a queue of core 0 with capacity 2; the second item does not fit.\<close>

lemma per_core_drain_delivers_witness:
  "fst (snd (pc_drain (snd (pc_send_all [(5, 7), (0, 8), (5, 9)] (the (pc_new (0::nat) 2 0)))))) = [8, 7]"
proof -
  let ?q0 = "the (pc_new (0::nat) 2 0)" and ?es = "[(5, 7), (0, 8), (5, 9)] :: (u32 \<times> nat) list"
  have acc: "fst (pc_send_all ?es ?q0) = [(5, 7), (0, 8)]"
    by (simp add: pc_new_def lq_new_def sp_new_def pc_try_enqueue_def lq_try_enqueue_def sp_try_enqueue_def
        sp_next_def MAX_CORES_def Let_def)
  have "\<exists>q'. pc_drain (snd (pc_send_all ?es ?q0)) = ([8, 7] \<noteq> ([] :: nat list), [8, 7], q') \<and> pc_empty q' \<and> pc_items q' = []"
  proof (rule per_core_drain_delivers [where es = ?es and d = 0 and cap = 2 and owner = 0])
    show "pc_new 0 2 0 = Some ?q0" by (simp add: pc_new_def lq_new_def sp_new_def)
    show "pc_send_all ?es ?q0 = ([(5, 7), (0, 8)], snd (pc_send_all ?es ?q0))"
      using acc by (metis prod.collapse)
    show "[8, 7] = sent_local 0 [(5, 7), (0, 8)] @ concat (map (\<lambda>i. sent_from 0 i [(5, 7), (0, 8)]) [0..<MAX_CORES])"
      by (subst concat_map_single [of 5]) (auto simp: sent_local_def sent_from_def MAX_CORES_def)
  qed (auto simp: MAX_CORES_def)
  then show ?thesis by auto
qed

text \<open>
  \<open>try_dequeue\<close> takes the first item in the same order, and nothing when there
  is none.
\<close>

theorem per_core_try_dequeue_first:
  assumes "pcq_inv q"
  shows "\<exists>q'. pc_try_dequeue q = (case pc_items q of [] \<Rightarrow> None | x # _ \<Rightarrow> Some x, q')
     \<and> pcq_inv q' \<and> pc_items q' = tl (pc_items q)"
  by (rule pc_try_dequeue_spec [OF assms])

lemma per_core_try_dequeue_first_witness:
  "\<exists>q'. pc_try_dequeue (the (pc_new (0::nat) 2 0)) = (None, q') \<and> pcq_inv q'"
proof -
  have "pc_new (0::nat) 2 0 = Some (the (pc_new 0 2 0))" by (simp add: pc_new_def lq_new_def sp_new_def)
  from pc_new_inv [OF this] have "pcq_inv (the (pc_new (0::nat) 2 0))" "pc_items (the (pc_new (0::nat) 2 0)) = []"
    by (auto simp: pc_items_def)
  with per_core_try_dequeue_first [of "the (pc_new (0::nat) 2 0)"] show ?thesis by auto
qed

text \<open>
  \<open>try_dequeue\<close> leaves the bitmap as it is, so \<open>empty\<close> keeps answering no after
  the last item of another core has been taken with it.
\<close>

theorem per_core_empty_stays_false:
  assumes "w < BITMAP_WORDS" "pc_active q ! w \<noteq> 0" "pc_try_dequeue q = (r, q')"
  shows "\<not> pc_empty q'"
  using assms pc_try_dequeue_active [of q] by (auto simp: pc_empty_def)

lemma per_core_empty_stays_false_witness:
  "\<exists>q q'. pc_try_enqueue True 5 7 (the (pc_new (0::nat) 2 0)) = (Pc_Ok, q)
     \<and> pc_try_dequeue q = (Some 7, q') \<and> \<not> pc_empty q'"
proof -
  obtain q where q: "pc_try_enqueue True 5 7 (the (pc_new (0::nat) 2 0)) = (Pc_Ok, q)" "pcq_inv q"
    "pc_items q = [7]" "pc_active q ! 0 \<noteq> 0"
  proof -
    let ?q0 = "the (pc_new (0::nat) 2 0)"
    have "pc_new (0::nat) 2 0 = Some ?q0" by (simp add: pc_new_def lq_new_def sp_new_def)
    note n = pc_new_inv [OF this]
    then have ok: "pc_accepts 5 ?q0" by (simp add: pc_accepts_def MAX_CORES_def)
    obtain q where q: "pc_try_enqueue True 5 7 ?q0 = (Pc_Ok, q)" "pcq_inv q" "lq_contents (pc_local q) = []"
      "\<forall>i < MAX_CORES. pc_ring q i = sent_from 0 i [(5, 7)]"
      using pc_enqueue_spec [of ?q0 5 True 7] n ok by (auto simp: MAX_CORES_def sent_local_def)
    have m: "map (pc_ring q) [0..<MAX_CORES] = map (\<lambda>i. sent_from 0 i [(5, 7)]) [0..<MAX_CORES]"
      using q(4) by (intro map_cong) auto
    have "pc_items q = [7]" unfolding pc_items_def m q(3)
      by (subst concat_map_single [of 5]) (auto simp: sent_from_def MAX_CORES_def)
    have "pc_ring q 5 \<noteq> []" using q(4) by (simp add: MAX_CORES_def sent_from_def)
    moreover have "\<forall>c < MAX_CORES. pc_ring q c \<noteq> [] \<longrightarrow> bit (pc_active q ! (c div 64)) (c mod 64)"
      using q(2) by (simp add: pcq_inv_def)
    ultimately have "bit (pc_active q ! 0) 5" by (auto simp: MAX_CORES_def dest: spec [of _ 5])
    then have "pc_active q ! 0 \<noteq> 0" by auto
    with \<open>pc_items q = [7]\<close> show ?thesis using that q(1,2) by blast
  qed
  moreover obtain q' where "pc_try_dequeue q = (Some 7, q')"
    using pc_try_dequeue_spec [OF q(2)] q(3) by auto
  ultimately show ?thesis
    using per_core_empty_stays_false [of 0 q "Some 7" q'] by (auto simp: BITMAP_WORDS_def MAX_CORES_def)
qed

end
