(* ===== verification/Ikcp_Seg.thy ===== *)
theory Ikcp_Seg
  imports Prelude "HOL-Library.Signed_Division"
begin

section \<open>KCP segments and their wire format\<close>

text \<open>
  \<^verbatim>\<open>src/env/scheduler/net/kcp/common/ikcp.hh\<close>, lines 15-80: the constants, the
  segment and the 24-byte header. The code copies integers with \<^verbatim>\<open>memcpy\<close>; the
  bytes are written here in little-endian order, the order of the platforms the
  library runs on. The pointer that \<^verbatim>\<open>ikcp_encode_seg\<close> advances becomes the list
  of bytes written.
\<close>

unbundle bit_operations_syntax

definition IKCP_OVERHEAD :: nat where "IKCP_OVERHEAD = 24"
definition IKCP_MTU_DEF :: u32 where "IKCP_MTU_DEF = 1400"
definition IKCP_MSS_DEF :: u32 where "IKCP_MSS_DEF = IKCP_MTU_DEF - of_nat IKCP_OVERHEAD"
definition IKCP_RTO_DEF :: u32 where "IKCP_RTO_DEF = 200"
definition IKCP_RTO_MIN :: u32 where "IKCP_RTO_MIN = 100"
definition IKCP_RTO_MAX :: u32 where "IKCP_RTO_MAX = 60000"
definition IKCP_WND_SND :: u32 where "IKCP_WND_SND = 32"
definition IKCP_WND_RCV :: u32 where "IKCP_WND_RCV = 128"
definition IKCP_ASK_SEND :: u32 where "IKCP_ASK_SEND = 1"
definition IKCP_ASK_TELL :: u32 where "IKCP_ASK_TELL = 2"
definition IKCP_THRESH_INIT :: u32 where "IKCP_THRESH_INIT = 2"
definition IKCP_PROBE_INIT :: u32 where "IKCP_PROBE_INIT = 7000"
definition IKCP_PROBE_LIMIT :: u32 where "IKCP_PROBE_LIMIT = 120000"
definition IKCP_FASTACK_LIMIT :: u32 where "IKCP_FASTACK_LIMIT = 5"
definition IKCP_DEADLINK :: u32 where "IKCP_DEADLINK = 20"

definition IKCP_CMD_PUSH :: u8 where "IKCP_CMD_PUSH = 81"
definition IKCP_CMD_ACK :: u8 where "IKCP_CMD_ACK = 82"
definition IKCP_CMD_WASK :: u8 where "IKCP_CMD_WASK = 83"
definition IKCP_CMD_WINS :: u8 where "IKCP_CMD_WINS = 84"

lemmas ikcp_consts = IKCP_OVERHEAD_def IKCP_MTU_DEF_def IKCP_MSS_DEF_def IKCP_RTO_DEF_def
  IKCP_RTO_MIN_def IKCP_RTO_MAX_def IKCP_WND_SND_def IKCP_WND_RCV_def IKCP_ASK_SEND_def
  IKCP_ASK_TELL_def IKCP_THRESH_INIT_def IKCP_PROBE_INIT_def IKCP_PROBE_LIMIT_def
  IKCP_FASTACK_LIMIT_def IKCP_DEADLINK_def

lemmas ikcp_cmds = IKCP_CMD_PUSH_def IKCP_CMD_ACK_def IKCP_CMD_WASK_def IKCP_CMD_WINS_def

record ikcp_seg =
  seg_conv :: u32
  seg_cmd :: u8
  seg_frg :: u8
  seg_wnd :: u16
  seg_ts :: u32
  seg_sn :: u32
  seg_una :: u32
  seg_len :: u32
  seg_resendts :: u32
  seg_rto :: u32
  seg_fastack :: u32
  seg_xmit :: u32
  seg_data :: "byte list"

definition ikcp_seg0 :: ikcp_seg where
  "ikcp_seg0 = \<lparr>seg_conv = 0, seg_cmd = 0, seg_frg = 0, seg_wnd = 0, seg_ts = 0, seg_sn = 0,
     seg_una = 0, seg_len = 0, seg_resendts = 0, seg_rto = 0, seg_fastack = 0, seg_xmit = 0, seg_data = []\<rparr>"

definition encode32u :: "u32 \<Rightarrow> byte list" where
  "encode32u v = [ucast v, ucast (drop_bit 8 v), ucast (drop_bit 16 v), ucast (drop_bit 24 v)]"

definition encode16u :: "u16 \<Rightarrow> byte list" where
  "encode16u v = [ucast v, ucast (drop_bit 8 v)]"

definition encode8u :: "u8 \<Rightarrow> byte list" where
  "encode8u v = [v]"

definition decode32u :: "byte list \<Rightarrow> u32" where
  "decode32u p = ucast (p ! 0) OR push_bit 8 (ucast (p ! 1)) OR push_bit 16 (ucast (p ! 2))
     OR push_bit 24 (ucast (p ! 3))"

definition decode16u :: "byte list \<Rightarrow> u16" where
  "decode16u p = ucast (p ! 0) OR push_bit 8 (ucast (p ! 1))"

definition decode8u :: "byte list \<Rightarrow> u8" where
  "decode8u p = p ! 0"

text \<open>The signed 32-bit difference; it orders sequence numbers and times across wrap-around.\<close>

definition itimediff :: "u32 \<Rightarrow> u32 \<Rightarrow> int" where
  "itimediff later earlier = sint (later - earlier)"

definition ikcp_encode_seg :: "ikcp_seg \<Rightarrow> byte list" where
  "ikcp_encode_seg seg =
     encode32u (seg_conv seg) @ encode8u (seg_cmd seg) @ encode8u (seg_frg seg) @ encode16u (seg_wnd seg)
     @ encode32u (seg_ts seg) @ encode32u (seg_sn seg) @ encode32u (seg_una seg) @ encode32u (seg_len seg)"

subsection \<open>Round trips\<close>

lemma length_encode [simp]:
  "length (encode32u v) = 4" "length (encode16u w) = 2" "length (encode8u b) = 1"
  "length (ikcp_encode_seg seg) = IKCP_OVERHEAD"
  by (simp_all add: encode32u_def encode16u_def encode8u_def ikcp_encode_seg_def IKCP_OVERHEAD_def)

lemma decode32u_encode32u [simp]: "decode32u (encode32u v @ bs) = v"
proof (rule bit_word_eqI)
  fix n
  assume "n < LENGTH(32)"
  then have "n < 8 \<or> 8 \<le> n \<and> n < 16 \<or> 16 \<le> n \<and> n < 24 \<or> 24 \<le> n \<and> n < 32" by auto
  then show "bit (decode32u (encode32u v @ bs)) n = bit v n"
    by (auto simp: decode32u_def encode32u_def bit_or_iff bit_push_bit_iff bit_ucast_iff bit_drop_bit_eq)
qed

lemma decode16u_encode16u [simp]: "decode16u (encode16u v @ bs) = v"
proof (rule bit_word_eqI)
  fix n
  assume "n < LENGTH(16)"
  then have "n < 8 \<or> 8 \<le> n \<and> n < 16" by auto
  then show "bit (decode16u (encode16u v @ bs)) n = bit v n"
    by (auto simp: decode16u_def encode16u_def bit_or_iff bit_push_bit_iff bit_ucast_iff bit_drop_bit_eq)
qed

lemma decode8u_encode8u [simp]: "decode8u (encode8u v @ bs) = v"
  by (simp add: decode8u_def encode8u_def)

lemma drop_encode [simp]:
  "drop 4 (encode32u v @ bs) = bs" "drop 2 (encode16u w @ bs) = bs" "drop (Suc 0) (encode8u b @ bs) = bs"
  by (simp_all add: encode32u_def encode16u_def encode8u_def)

subsection \<open>The signed difference as distance\<close>

lemma itimediff_self [simp]: "itimediff a a = 0"
  by (simp add: itimediff_def)

lemma itimediff_offset:
  assumes "- (2 ^ 31) \<le> d" "d < 2 ^ 31"
  shows "itimediff (a + of_int d) a = d"
proof -
  have "itimediff (a + of_int d) a = sint (of_int d :: u32)" by (simp add: itimediff_def)
  also have "\<dots> = signed_take_bit 31 d" by (simp add: sint_sbintrunc')
  also have "\<dots> = d" using assms by (intro signed_take_bit_int_eq_self) auto
  finally show ?thesis .
qed

lemma itimediff_bounds: "- (2 ^ 31) \<le> itimediff a b" "itimediff a b < 2 ^ 31"
  using sint_greater_eq [of "a - b"] sint_less [of "a - b"] by (simp_all add: itimediff_def)

lemma itimediff_zero_iff: "itimediff a b = 0 \<longleftrightarrow> a = b"
  by (metis itimediff_def itimediff_self eq_iff_diff_eq_0 signed_0 signed_word_eqI)

end
