(* ===== verification/Ikcp.thy ===== *)
theory Ikcp
  imports Ikcp_Seg
begin

section \<open>The KCP control block and its operations\<close>

text \<open>
  \<^verbatim>\<open>src/env/scheduler/net/kcp/common/ikcp.hh\<close>, struct \<open>ikcp\<close>, one definition per
  member function. Deques, lists and vectors are lists; \<^verbatim>\<open>uint32_t\<close> arithmetic wraps;
  the callback \<open>output\<close> is represented by the list of datagrams it is called with,
  in order. The value \<open>int\<close> of the code is an integer (lengths stay below 2^31).
  The staging buffer of \<open>flush\<close> is the list of bytes before the write pointer.
\<close>

record ikcp =
  kcp_conv :: u32
  kcp_mtu :: u32
  kcp_mss :: u32
  kcp_state :: u32
  snd_una :: u32
  snd_nxt :: u32
  rcv_nxt :: u32
  ssthresh :: u32
  rx_rttval :: u32
  rx_srtt :: u32
  rx_rto :: u32
  rx_minrto :: u32
  snd_wnd :: u32
  rcv_wnd :: u32
  rmt_wnd :: u32
  cwnd :: u32
  kcp_probe :: u32
  kcp_current :: u32
  kcp_interval :: u32
  ts_flush :: u32
  kcp_xmit :: u32
  nodelay :: u32
  kcp_updated :: u32
  ts_probe :: u32
  probe_wait :: u32
  dead_link :: u32
  kcp_incr :: u32
  snd_queue :: "ikcp_seg list"
  snd_buf :: "ikcp_seg list"
  rcv_queue :: "ikcp_seg list"
  rcv_buf :: "ikcp_seg list"
  acklist :: "(u32 \<times> u32) list"
  fastresend :: u32
  fastlimit :: u32
  nocwnd :: u32

definition ikcp_create :: "u32 \<Rightarrow> ikcp" where
  "ikcp_create conv = \<lparr>kcp_conv = conv, kcp_mtu = IKCP_MTU_DEF, kcp_mss = IKCP_MSS_DEF, kcp_state = 0,
     snd_una = 0, snd_nxt = 0, rcv_nxt = 0, ssthresh = IKCP_THRESH_INIT, rx_rttval = 0, rx_srtt = 0,
     rx_rto = IKCP_RTO_DEF, rx_minrto = IKCP_RTO_MIN, snd_wnd = IKCP_WND_SND, rcv_wnd = IKCP_WND_RCV,
     rmt_wnd = IKCP_WND_RCV, cwnd = 0, kcp_probe = 0, kcp_current = 0, kcp_interval = 100, ts_flush = 0,
     kcp_xmit = 0, nodelay = 0, kcp_updated = 0, ts_probe = 0, probe_wait = 0, dead_link = IKCP_DEADLINK,
     kcp_incr = 0, snd_queue = [], snd_buf = [], rcv_queue = [], rcv_buf = [], acklist = [],
     fastresend = 0, fastlimit = IKCP_FASTACK_LIMIT, nocwnd = 0\<rparr>"

definition clamp_word :: "'a::linorder \<Rightarrow> 'a \<Rightarrow> 'a \<Rightarrow> 'a" where
  "clamp_word v lo hi = (if v < lo then lo else if hi < v then hi else v)"

definition set_nodelay :: "int \<Rightarrow> int \<Rightarrow> int \<Rightarrow> int \<Rightarrow> ikcp \<Rightarrow> ikcp" where
  "set_nodelay nd iv resend nc k =
     (let k1 = (if 0 \<le> nd then k\<lparr>nodelay := of_int nd,
                  rx_minrto := (if nd \<noteq> 0 then IKCP_RTO_MIN div 3 else IKCP_RTO_MIN)\<rparr> else k);
          k2 = (if 0 \<le> iv then k1\<lparr>kcp_interval := clamp_word (of_int iv) 10 5000\<rparr> else k1);
          k3 = (if 0 \<le> resend then k2\<lparr>fastresend := of_int resend\<rparr> else k2)
      in (if 0 \<le> nc then k3\<lparr>nocwnd := of_int nc\<rparr> else k3))"

definition set_wndsize :: "u32 \<Rightarrow> u32 \<Rightarrow> ikcp \<Rightarrow> ikcp" where
  "set_wndsize sndwnd rcvwnd k =
     (let k1 = (if 0 < sndwnd then k\<lparr>snd_wnd := sndwnd\<rparr> else k)
      in (if 0 < rcvwnd then k1\<lparr>rcv_wnd := max rcvwnd IKCP_WND_RCV\<rparr> else k1))"

subsection \<open>Sending: fragmentation\<close>

text \<open>The loop of \<open>send\<close>; the number of fragments left is \<open>count - i\<close>.\<close>

primrec send_loop :: "u32 \<Rightarrow> int \<Rightarrow> nat \<Rightarrow> byte list \<Rightarrow> ikcp_seg list" where
  "send_loop conv mss 0 data = []"
| "send_loop conv mss (Suc n) data =
     (let size = (if mss < int (length data) then mss else int (length data));
          seg = ikcp_seg0\<lparr>seg_conv := conv, seg_cmd := IKCP_CMD_PUSH, seg_frg := of_nat n\<rparr>;
          seg' = (if 0 < size then seg\<lparr>seg_data := take (nat size) data, seg_len := of_int size\<rparr> else seg)
      in seg' # send_loop conv mss n (drop (nat size) data))"

definition kcp_send :: "byte list \<Rightarrow> ikcp \<Rightarrow> int \<times> ikcp" where
  "kcp_send data k =
     (let len = int (length data); mss = sint (kcp_mss k) in
      if len \<le> 0 then (- 1, k)
      else
        (let count = (if len \<le> mss then 1 else (len + mss - 1) sdiv mss) in
         if 255 < count then (- 2, k)
         else
           (let count' = (if count = 0 then 1 else count) in
            (0, k\<lparr>snd_queue := snd_queue k @ send_loop (kcp_conv k) mss (nat count') data\<rparr>))))"

subsection \<open>Receiving: reassembly\<close>

fun frag_length :: "ikcp_seg list \<Rightarrow> int" where
  "frag_length [] = 0"
| "frag_length (s # ss) = sint (seg_len s) + (if seg_frg s = 0 then 0 else frag_length ss)"

definition peeksize :: "ikcp \<Rightarrow> int" where
  "peeksize k =
     (case rcv_queue k of
        [] \<Rightarrow> - 1
      | seg # _ \<Rightarrow>
          if seg_frg seg = 0 then sint (seg_len seg)
          else if length (rcv_queue k) < unat (seg_frg seg) + 1 then - 1
          else frag_length (rcv_queue k))"

text \<open>The pop loop of \<open>recv\<close>: the bytes copied out and the segments left.\<close>

fun recv_loop :: "ikcp_seg list \<Rightarrow> byte list \<times> ikcp_seg list" where
  "recv_loop [] = ([], [])"
| "recv_loop (seg # rest) =
     (let bytes = (if seg_data seg \<noteq> [] then take (unat (seg_len seg)) (seg_data seg) else []) in
      if seg_frg seg = 0 then (bytes, rest)
      else (let (bs, rest') = recv_loop rest in (bytes @ bs, rest')))"

text \<open>\<open>move_rcv_buf_to_queue\<close>: its loop over buffer, queue and next number.\<close>

fun move_loop :: "u32 \<Rightarrow> ikcp_seg list \<Rightarrow> ikcp_seg list \<Rightarrow> u32 \<Rightarrow> ikcp_seg list \<times> ikcp_seg list \<times> u32" where
  "move_loop wnd [] queue nxt = ([], queue, nxt)"
| "move_loop wnd (seg # buf) queue nxt =
     (if seg_sn seg \<noteq> nxt \<or> unat wnd \<le> length queue then (seg # buf, queue, nxt)
      else move_loop wnd buf (queue @ [seg]) (nxt + 1))"

definition move_rcv_buf_to_queue :: "ikcp \<Rightarrow> ikcp" where
  "move_rcv_buf_to_queue k =
     (let (buf, queue, nxt) = move_loop (rcv_wnd k) (rcv_buf k) (rcv_queue k) (rcv_nxt k)
      in k\<lparr>rcv_buf := buf, rcv_queue := queue, rcv_nxt := nxt\<rparr>)"

text \<open>\<open>recv\<close> with room for \<open>len\<close> bytes: the result, the bytes written, the new state.\<close>

definition kcp_recv :: "int \<Rightarrow> ikcp \<Rightarrow> int \<times> byte list \<times> ikcp" where
  "kcp_recv len k =
     (let peeklen = peeksize k in
      if peeklen < 0 then (- 1, [], k)
      else if len < peeklen then (- 2, [], k)
      else
        (let recover = (unat (rcv_wnd k) \<le> length (rcv_queue k));
             (bytes, rest) = recv_loop (rcv_queue k);
             k1 = move_rcv_buf_to_queue (k\<lparr>rcv_queue := rest\<rparr>);
             k2 = (if recover \<and> length (rcv_queue k1) < unat (rcv_wnd k1)
                   then k1\<lparr>kcp_probe := kcp_probe k1 OR IKCP_ASK_TELL\<rparr> else k1)
         in (int (length bytes), bytes, k2)))"

subsection \<open>Acknowledgements\<close>

definition parse_una :: "u32 \<Rightarrow> ikcp \<Rightarrow> ikcp" where
  "parse_una una k = k\<lparr>snd_buf := filter (\<lambda>seg. \<not> 0 < itimediff una (seg_sn seg)) (snd_buf k)\<rparr>"

definition shrink_buf :: "ikcp \<Rightarrow> ikcp" where
  "shrink_buf k = k\<lparr>snd_una := (case snd_buf k of [] \<Rightarrow> snd_nxt k | seg # _ \<Rightarrow> seg_sn seg)\<rparr>"

definition parse_ack :: "u32 \<Rightarrow> ikcp \<Rightarrow> ikcp" where
  "parse_ack sn k =
     (if itimediff sn (snd_una k) < 0 \<or> 0 \<le> itimediff sn (snd_nxt k) then k
      else k\<lparr>snd_buf := filter (\<lambda>seg. seg_sn seg \<noteq> sn) (snd_buf k)\<rparr>)"

fun fastack_loop :: "u32 \<Rightarrow> ikcp_seg list \<Rightarrow> ikcp_seg list" where
  "fastack_loop sn [] = []"
| "fastack_loop sn (seg # rest) =
     (if itimediff sn (seg_sn seg) < 0 then seg # rest
      else (if sn \<noteq> seg_sn seg then seg\<lparr>seg_fastack := seg_fastack seg + 1\<rparr> else seg)
        # fastack_loop sn rest)"

definition parse_fastack :: "u32 \<Rightarrow> ikcp \<Rightarrow> ikcp" where
  "parse_fastack sn k =
     (if itimediff sn (snd_una k) < 0 \<or> 0 \<le> itimediff sn (snd_nxt k) then k
      else k\<lparr>snd_buf := fastack_loop sn (snd_buf k)\<rparr>)"

text \<open>\<open>update_ack\<close>; \<open>rtt\<close> is the \<^verbatim>\<open>int32_t\<close> round-trip time.\<close>

definition update_ack :: "int \<Rightarrow> ikcp \<Rightarrow> ikcp" where
  "update_ack rtt k =
     (let k1 =
        (if rx_srtt k = 0 then k\<lparr>rx_srtt := of_int rtt, rx_rttval := of_int (rtt sdiv 2)\<rparr>
         else
           (let delta = rtt - sint (rx_srtt k); delta' = (if delta < 0 then - delta else delta);
                srtt = (7 * rx_srtt k + of_int rtt) div 8
            in k\<lparr>rx_rttval := (3 * rx_rttval k + of_int delta') div 4,
                 rx_srtt := (if srtt < 1 then 1 else srtt)\<rparr>));
        rto = rx_srtt k1 + max (kcp_interval k1) (4 * rx_rttval k1)
      in k1\<lparr>rx_rto := clamp_word rto (rx_minrto k1) IKCP_RTO_MAX\<rparr>)"

subsection \<open>Incoming data\<close>

text \<open>
  The search of \<open>parse_data\<close> from the back of the receive buffer, on the reversed
  list; \<open>None\<close> when the segment is a repetition.
\<close>

fun insert_back :: "ikcp_seg \<Rightarrow> ikcp_seg list \<Rightarrow> ikcp_seg list option" where
  "insert_back seg [] = Some [seg]"
| "insert_back seg (prev # before) =
     (if seg_sn prev = seg_sn seg then None
      else if itimediff (seg_sn prev) (seg_sn seg) < 0 then Some (seg # prev # before)
      else map_option (Cons prev) (insert_back seg before))"

definition parse_data :: "ikcp_seg \<Rightarrow> ikcp \<Rightarrow> ikcp" where
  "parse_data newseg k =
     (let sn = seg_sn newseg in
      if 0 \<le> itimediff sn (rcv_nxt k + rcv_wnd k) \<or> itimediff sn (rcv_nxt k) < 0 then k
      else move_rcv_buf_to_queue
        (case insert_back newseg (rev (rcv_buf k)) of
           Some buf \<Rightarrow> k\<lparr>rcv_buf := rev buf\<rparr>
         | None \<Rightarrow> k))"

text \<open>
  One segment of a datagram, after its header has been checked; \<open>data\<close> starts at the
  payload. The result says whether an acknowledgement was seen and the newest one.
\<close>

definition input_segment ::
  "ikcp_seg \<Rightarrow> byte list \<Rightarrow> bool \<times> u32 \<times> ikcp \<Rightarrow> bool \<times> u32 \<times> ikcp" where
  "input_segment h data st =
     (let (flag, maxack, k) = st;
          k1 = shrink_buf (parse_una (seg_una h) (k\<lparr>rmt_wnd := ucast (seg_wnd h)\<rparr>)) in
      if seg_cmd h = IKCP_CMD_ACK then
        (let k2 = (if 0 \<le> itimediff (kcp_current k1) (seg_ts h)
                   then update_ack (itimediff (kcp_current k1) (seg_ts h)) k1 else k1);
             k3 = shrink_buf (parse_ack (seg_sn h) k2)
         in if \<not> flag then (True, seg_sn h, k3)
            else if 0 < itimediff (seg_sn h) maxack then (flag, seg_sn h, k3)
            else (flag, maxack, k3))
      else if seg_cmd h = IKCP_CMD_PUSH then
        (if itimediff (seg_sn h) (rcv_nxt k1 + rcv_wnd k1) < 0 then
           (let k2 = k1\<lparr>acklist := acklist k1 @ [(seg_sn h, seg_ts h)]\<rparr> in
            if 0 \<le> itimediff (seg_sn h) (rcv_nxt k2) then
              (flag, maxack, parse_data
                 (h\<lparr>seg_data := (if 0 < seg_len h then take (unat (seg_len h)) data else [])\<rparr>) k2)
            else (flag, maxack, k2))
         else (flag, maxack, k1))
      else if seg_cmd h = IKCP_CMD_WASK then
        (flag, maxack, k1\<lparr>kcp_probe := kcp_probe k1 OR IKCP_ASK_TELL\<rparr>)
      else (flag, maxack, k1))"

text \<open>The header at the start of a datagram; the fields the code leaves at their default are 0.\<close>

definition decode_header :: "byte list \<Rightarrow> ikcp_seg" where
  "decode_header d = ikcp_seg0\<lparr>seg_conv := decode32u d, seg_cmd := decode8u (drop 4 d),
     seg_frg := decode8u (drop 5 d), seg_wnd := decode16u (drop 6 d), seg_ts := decode32u (drop 8 d),
     seg_sn := decode32u (drop 12 d), seg_una := decode32u (drop 16 d), seg_len := decode32u (drop 20 d)\<rparr>"

text \<open>
  The loop of \<open>input\<close> over the segments of a datagram. The first component is 0
  when the loop ends, or the error code of the early return, which keeps what the
  segments before it did.
\<close>

function input_loop :: "byte list \<Rightarrow> bool \<times> u32 \<times> ikcp \<Rightarrow> int \<times> bool \<times> u32 \<times> ikcp" where
  "input_loop d st =
     (if length d < IKCP_OVERHEAD then (0, st)
      else
        (let h = decode_header d; rest = drop IKCP_OVERHEAD d in
         if seg_conv h \<noteq> kcp_conv (snd (snd st)) then (- 1, st)
         else if length rest < unat (seg_len h) then (- 2, st)
         else if seg_cmd h \<notin> {IKCP_CMD_PUSH, IKCP_CMD_ACK, IKCP_CMD_WASK, IKCP_CMD_WINS} then (- 3, st)
         else input_loop (drop (unat (seg_len h)) rest) (input_segment h rest st)))"
  by pat_completeness auto
termination by (relation "measure (length \<circ> fst)") (auto simp: IKCP_OVERHEAD_def)

declare input_loop.simps [simp del]

definition grow_cwnd :: "ikcp \<Rightarrow> ikcp" where
  "grow_cwnd k =
     (if cwnd k < rmt_wnd k then
        (let k1 =
           (if cwnd k < ssthresh k then k\<lparr>cwnd := cwnd k + 1, kcp_incr := kcp_incr k + kcp_mss k\<rparr>
            else
              (let inc = (if kcp_incr k < kcp_mss k then kcp_mss k else kcp_incr k);
                   inc' = inc + ((kcp_mss k * kcp_mss k) div inc + kcp_mss k div 16)
               in k\<lparr>kcp_incr := inc',
                    cwnd := (if (cwnd k + 1) * kcp_mss k \<le> inc'
                             then (inc' + kcp_mss k - 1) div (if 0 < kcp_mss k then kcp_mss k else 1)
                             else cwnd k)\<rparr>))
         in (if rmt_wnd k1 < cwnd k1
             then k1\<lparr>cwnd := rmt_wnd k1, kcp_incr := rmt_wnd k1 * kcp_mss k1\<rparr> else k1))
      else k)"

definition kcp_input :: "byte list \<Rightarrow> ikcp \<Rightarrow> int \<times> ikcp" where
  "kcp_input d k =
     (if length d < IKCP_OVERHEAD then (- 1, k)
      else
        (let prev_una = snd_una k; (r, flag, maxack, k1) = input_loop d (False, 0, k) in
         if r \<noteq> 0 then (r, k1)
         else
           (let k2 = (if flag then parse_fastack maxack k1 else k1)
            in (0, if 0 < itimediff (snd_una k2) prev_una then grow_cwnd k2 else k2))))"

subsection \<open>Flush\<close>

text \<open>
  The writer of \<open>flush\<close>: the bytes staged before the write pointer and the
  datagrams given to \<open>output\<close> so far.
\<close>

type_synonym writer = "byte list \<times> byte list list"

definition make_room :: "u32 \<Rightarrow> nat \<Rightarrow> writer \<Rightarrow> writer" where
  "make_room mtu need w =
     (let (ptr, outs) = w in if sint mtu < int (length ptr + need) then ([], outs @ [ptr]) else (ptr, outs))"

definition put :: "u32 \<Rightarrow> byte list \<Rightarrow> writer \<Rightarrow> writer" where
  "put mtu bytes w = (let (ptr, outs) = make_room mtu (length bytes) w in (ptr @ bytes, outs))"

definition ack_seg :: "ikcp \<Rightarrow> ikcp_seg" where
  "ack_seg k = ikcp_seg0\<lparr>seg_conv := kcp_conv k, seg_cmd := IKCP_CMD_ACK,
     seg_wnd := ucast (min (rcv_wnd k - of_nat (length (rcv_queue k))) (rcv_wnd k)), seg_una := rcv_nxt k\<rparr>"

text \<open>The acknowledgement loop over \<open>acklist\<close>.\<close>

fun flush_acks :: "u32 \<Rightarrow> ikcp_seg \<Rightarrow> (u32 \<times> u32) list \<Rightarrow> writer \<Rightarrow> writer" where
  "flush_acks mtu seg [] w = w"
| "flush_acks mtu seg ((sn, ts) # rest) w =
     flush_acks mtu seg rest (put mtu (ikcp_encode_seg (seg\<lparr>seg_sn := sn, seg_ts := ts\<rparr>)) w)"

definition probe_window :: "ikcp \<Rightarrow> ikcp" where
  "probe_window k =
     (if rmt_wnd k = 0 then
        (if probe_wait k = 0 then
           k\<lparr>probe_wait := IKCP_PROBE_INIT, ts_probe := kcp_current k + IKCP_PROBE_INIT\<rparr>
         else if 0 \<le> itimediff (kcp_current k) (ts_probe k) then
           (let w = max (probe_wait k) IKCP_PROBE_INIT; w' = min (w + w div 2) IKCP_PROBE_LIMIT
            in k\<lparr>probe_wait := w', ts_probe := kcp_current k + w',
                 kcp_probe := kcp_probe k OR IKCP_ASK_SEND\<rparr>)
         else k)
      else k\<lparr>ts_probe := 0, probe_wait := 0\<rparr>)"

definition flush_probes :: "ikcp \<Rightarrow> u16 \<Rightarrow> writer \<Rightarrow> writer" where
  "flush_probes k wnd w =
     (let seg = ikcp_seg0\<lparr>seg_conv := kcp_conv k, seg_wnd := wnd, seg_una := rcv_nxt k\<rparr>;
          w1 = (if kcp_probe k AND IKCP_ASK_SEND \<noteq> 0
                then put (kcp_mtu k) (ikcp_encode_seg (seg\<lparr>seg_cmd := IKCP_CMD_WASK\<rparr>)) w else w)
      in (if kcp_probe k AND IKCP_ASK_TELL \<noteq> 0
          then put (kcp_mtu k) (ikcp_encode_seg (seg\<lparr>seg_cmd := IKCP_CMD_WINS\<rparr>)) w1 else w1))"

definition send_window :: "ikcp \<Rightarrow> u32" where
  "send_window k =
     (let c = min (snd_wnd k) (rmt_wnd k) in if nocwnd k = 0 then min (cwnd k) c else c)"

text \<open>Moving segments from \<open>snd_queue\<close> to \<open>snd_buf\<close> while the window is open.\<close>

fun admit_loop :: "u32 \<Rightarrow> u16 \<Rightarrow> ikcp_seg list \<Rightarrow> ikcp \<Rightarrow> ikcp" where
  "admit_loop win wnd [] k = k\<lparr>snd_queue := []\<rparr>"
| "admit_loop win wnd (seg # rest) k =
     (if itimediff (snd_nxt k) (snd_una k + win) < 0 then
        (let newseg = seg\<lparr>seg_conv := kcp_conv k, seg_cmd := IKCP_CMD_PUSH, seg_wnd := wnd,
               seg_ts := kcp_current k, seg_sn := snd_nxt k, seg_una := rcv_nxt k,
               seg_resendts := kcp_current k, seg_rto := rx_rto k, seg_fastack := 0, seg_xmit := 0\<rparr>
         in admit_loop win wnd rest (k\<lparr>snd_nxt := snd_nxt k + 1, snd_buf := snd_buf k @ [newseg]\<rparr>))
      else k\<lparr>snd_queue := seg # rest\<rparr>)"

text \<open>
  The decision for one segment of \<open>snd_buf\<close>: first transmission, timeout, fast
  retransmission, or nothing. \<open>None\<close> is \<open>needsend = false\<close>; otherwise the updated
  segment and which of the two kinds of loss was seen.
\<close>

datatype resend = First | Timeout | Fast

definition resend_seg :: "ikcp \<Rightarrow> u32 \<Rightarrow> u32 \<Rightarrow> ikcp_seg \<Rightarrow> (resend \<times> ikcp_seg) option" where
  "resend_seg k resent rtomin seg =
     (if seg_xmit seg = 0 then
        Some (First, seg\<lparr>seg_xmit := seg_xmit seg + 1, seg_rto := rx_rto k,
                         seg_resendts := kcp_current k + rx_rto k + rtomin\<rparr>)
      else if 0 \<le> itimediff (kcp_current k) (seg_resendts seg) then
        (let rto = (if nodelay k = 0 then seg_rto seg + max (seg_rto seg) (rx_rto k)
                    else seg_rto seg + (if nodelay k < 2 then seg_rto seg else rx_rto k) div 2);
             rto' = min rto IKCP_RTO_MAX
         in Some (Timeout, seg\<lparr>seg_xmit := seg_xmit seg + 1, seg_rto := rto',
                               seg_resendts := kcp_current k + rto'\<rparr>))
      else if resent \<le> seg_fastack seg \<and> (seg_xmit seg \<le> fastlimit k \<or> fastlimit k = 0) then
        Some (Fast, seg\<lparr>seg_xmit := seg_xmit seg + 1, seg_fastack := 0,
                        seg_resendts := kcp_current k + seg_rto seg\<rparr>)
      else None)"

record flush_acc =
  fa_writer :: writer
  fa_lost :: bool
  fa_change :: bool
  fa_xmit :: u32
  fa_state :: u32

definition flush_seg :: "ikcp \<Rightarrow> u32 \<Rightarrow> u32 \<Rightarrow> u16 \<Rightarrow> ikcp_seg \<Rightarrow> flush_acc \<Rightarrow> ikcp_seg \<times> flush_acc" where
  "flush_seg k resent rtomin wnd seg a =
     (case resend_seg k resent rtomin seg of
        None \<Rightarrow> (seg, a)
      | Some (why, seg1) \<Rightarrow>
          (let seg2 = seg1\<lparr>seg_ts := kcp_current k, seg_wnd := wnd, seg_una := rcv_nxt k\<rparr>;
               bytes = ikcp_encode_seg seg2 @ (if 0 < seg_len seg2 then take (unat (seg_len seg2)) (seg_data seg2) else [])
           in (seg2, \<lparr>fa_writer = put (kcp_mtu k) bytes (fa_writer a),
                 fa_lost = fa_lost a \<or> why = Timeout, fa_change = fa_change a \<or> why = Fast,
                 fa_xmit = fa_xmit a + (if why = Timeout then 1 else 0),
                 fa_state = (if dead_link k \<le> seg_xmit seg2 then - 1 else fa_state a)\<rparr>)))"

fun flush_segs :: "ikcp \<Rightarrow> u32 \<Rightarrow> u32 \<Rightarrow> u16 \<Rightarrow> ikcp_seg list \<Rightarrow> flush_acc \<Rightarrow> ikcp_seg list \<times> flush_acc" where
  "flush_segs k resent rtomin wnd [] a = ([], a)"
| "flush_segs k resent rtomin wnd (seg # rest) a =
     (let (seg', a1) = flush_seg k resent rtomin wnd seg a; (rest', a2) = flush_segs k resent rtomin wnd rest a1
      in (seg' # rest', a2))"

definition congestion :: "bool \<Rightarrow> bool \<Rightarrow> u32 \<Rightarrow> u32 \<Rightarrow> ikcp \<Rightarrow> ikcp" where
  "congestion lost change resent win k =
     (let k1 = (if change then
                  (let t = max ((snd_nxt k - snd_una k) div 2) 2
                   in k\<lparr>ssthresh := t, cwnd := t + resent, kcp_incr := (t + resent) * kcp_mss k\<rparr>)
                else k);
          k2 = (if lost then k1\<lparr>ssthresh := max (win div 2) 2, cwnd := 1, kcp_incr := kcp_mss k1\<rparr> else k1)
      in (if cwnd k2 < 1 then k2\<lparr>cwnd := 1, kcp_incr := kcp_mss k2\<rparr> else k2))"

text \<open>\<open>flush\<close>: the datagrams given to \<open>output\<close>, and the new state.\<close>

definition kcp_flush :: "ikcp \<Rightarrow> byte list list \<times> ikcp" where
  "kcp_flush k =
     (if kcp_updated k = 0 then ([], k)
      else
        (let ack = ack_seg k; wnd = seg_wnd ack;
             w1 = flush_acks (kcp_mtu k) ack (acklist k) ([], []);
             k1 = probe_window (k\<lparr>acklist := []\<rparr>);
             w2 = flush_probes k1 wnd w1;
             k2 = k1\<lparr>kcp_probe := 0\<rparr>;
             win = send_window k2;
             k3 = admit_loop win wnd (snd_queue k2) k2;
             resent = (if 0 < fastresend k3 then fastresend k3 else 0xffffffff);
             rtomin = (if nodelay k3 = 0 then drop_bit 3 (rx_rto k3) else 0);
             (buf, a) = flush_segs k3 resent rtomin wnd (snd_buf k3)
               \<lparr>fa_writer = w2, fa_lost = False, fa_change = False, fa_xmit = kcp_xmit k3, fa_state = kcp_state k3\<rparr>;
             (ptr, outs) = fa_writer a;
             outs' = (if ptr \<noteq> [] then outs @ [ptr] else outs);
             k4 = k3\<lparr>snd_buf := buf, kcp_xmit := fa_xmit a, kcp_state := fa_state a\<rparr>
         in (outs', congestion (fa_lost a) (fa_change a) resent win k4)))"

subsection \<open>The clock: update and check\<close>

definition kcp_update :: "u32 \<Rightarrow> ikcp \<Rightarrow> byte list list \<times> ikcp" where
  "kcp_update now k =
     (let k1 = k\<lparr>kcp_current := now\<rparr>;
          k2 = (if kcp_updated k1 = 0 then k1\<lparr>kcp_updated := 1, ts_flush := now\<rparr> else k1);
          slap = itimediff now (ts_flush k2);
          reset = (10000 \<le> slap \<or> slap < - 10000);
          k3 = (if reset then k2\<lparr>ts_flush := now\<rparr> else k2);
          slap' = (if reset then 0 else slap)
      in (if 0 \<le> slap' then
            (let k4 = k3\<lparr>ts_flush := ts_flush k3 + kcp_interval k3\<rparr>;
                 k5 = (if 0 \<le> itimediff now (ts_flush k4) then k4\<lparr>ts_flush := now + kcp_interval k4\<rparr> else k4)
             in kcp_flush k5)
          else ([], k3)))"

text \<open>The scan of \<open>check\<close> for the next retransmission; \<open>None\<close> when one is due now.\<close>

fun check_loop :: "u32 \<Rightarrow> ikcp_seg list \<Rightarrow> u32 \<Rightarrow> u32 option" where
  "check_loop now [] tm = Some tm"
| "check_loop now (seg # rest) tm =
     (let diff = itimediff (seg_resendts seg) now in
      if diff \<le> 0 then None
      else check_loop now rest (if (of_int diff :: u32) < tm then of_int diff else tm))"

definition kcp_check :: "u32 \<Rightarrow> ikcp \<Rightarrow> u32" where
  "kcp_check now k =
     (if kcp_updated k = 0 then now
      else
        (let slap = itimediff now (ts_flush k) in
         if 10000 \<le> slap \<or> slap < - 10000 then now
         else if 0 \<le> slap then now
         else
           (case check_loop now (snd_buf k) 0xffffffff of
              None \<Rightarrow> now
            | Some tm_packet \<Rightarrow>
                now + min (min (of_int (itimediff (ts_flush k) now)) tm_packet) (kcp_interval k))))"

definition kcp_waitsnd :: "ikcp \<Rightarrow> u32" where
  "kcp_waitsnd k = of_nat (length (snd_buf k) + length (snd_queue k))"

end
