(* ===== verification/Ikcp_Recv.thy ===== *)
theory Ikcp_Recv
  imports Ikcp
begin

section \<open>KCP: fragmentation, reordering and reassembly\<close>

text \<open>
  What a receiver hands to the application, whatever the network does. The
  sender's stream is the list \<open>fs\<close> of its fragments (fragment number and bytes);
  fragment \<open>i\<close> travels under the 32-bit number \<open>of_nat i\<close>, which wraps.
\<close>

subsection \<open>The fragments of a message\<close>

definition seg_frag :: "ikcp_seg \<Rightarrow> u8 \<times> byte list" where
  "seg_frag s = (seg_frg s, seg_data s)"

definition frag_count :: "int \<Rightarrow> byte list \<Rightarrow> nat" where
  "frag_count mss m = (if int (length m) \<le> mss then 1 else nat ((int (length m) + mss - 1) sdiv mss))"

definition msg_frags :: "int \<Rightarrow> byte list \<Rightarrow> (u8 \<times> byte list) list" where
  "msg_frags mss m = map seg_frag (send_loop 0 mss (frag_count mss m) m)"

lemma length_send_loop [simp]: "length (send_loop conv mss n m) = n"
  by (induction n arbitrary: m) (auto simp: Let_def)

lemma send_loop_seg:
  assumes "i < n" "0 < mss"
  shows "seg_frg (send_loop conv mss n m ! i) = of_nat (n - Suc i)
    \<and> seg_data (send_loop conv mss n m ! i) = take (nat mss) (drop (i * nat mss) m)
    \<and> seg_len (send_loop conv mss n m ! i) = of_nat (length (take (nat mss) (drop (i * nat mss) m)))"
  using assms(1)
proof (induction n arbitrary: i m)
  case (Suc n)
  let ?size = "if mss < int (length m) then mss else int (length m)"
  have tk: "take (nat ?size) m = take (nat mss) m" and dr: "drop (nat ?size) m = drop (nat mss) m"
    using assms(2) by (auto simp: nat_le_iff)
  have len: "nat ?size = min (length m) (nat mss)" using assms(2) by auto
  have "?size = int (min (length m) (nat mss))" using assms(2) by auto
  then have word: "(of_int ?size :: u32) = of_nat (min (length m) (nat mss))" by simp
  show ?case
  proof (cases i)
    case 0
    then show ?thesis
      using tk word assms(2) by (auto simp: Let_def ikcp_seg0_def min_def)
  next
    case (Suc j)
    then have "send_loop conv mss (Suc n) m ! i = send_loop conv mss n (drop (nat mss) m) ! j"
      by (simp only: send_loop.simps Let_def nth_Cons_Suc dr)
    then show ?thesis
      using Suc.IH [of j "drop (nat mss) m"] Suc.prems Suc by (simp add: add.commute)
  qed
qed simp

lemma send_loop_concat:
  "0 < mss \<Longrightarrow> length m \<le> n * nat mss \<Longrightarrow> concat (map seg_data (send_loop conv mss n m)) = m"
proof (induction n arbitrary: m)
  case (Suc n)
  let ?size = "if mss < int (length m) then mss else int (length m)"
  have tk: "take (nat ?size) m = take (nat mss) m" and dr: "drop (nat ?size) m = drop (nat mss) m"
    using Suc.prems(1) by (auto simp: nat_le_iff)
  have "concat (map seg_data (send_loop conv mss n (drop (nat mss) m))) = drop (nat mss) m"
    using Suc.prems by (intro Suc.IH) auto
  moreover have "seg_data (hd (send_loop conv mss (Suc n) m)) = take (nat mss) m"
    using tk Suc.prems(1) by (auto simp: Let_def ikcp_seg0_def)
  ultimately show ?case by (auto simp: Let_def dr tk simp del: nat_eq_iff)
qed simp

lemma frag_count_bounds:
  assumes "0 < mss"
  shows "length m \<le> frag_count mss m * nat mss" "0 < frag_count mss m"
proof -
  let ?l = "int (length m)"
  have "?l \<le> ((?l + mss - 1) div mss) * mss"
    using div_mult_mod_eq [of "?l + mss - 1" mss] pos_mod_bound [OF assms, of "?l + mss - 1"] by linarith
  moreover have "0 < (?l + mss - 1) div mss" if "mss < ?l"
  proof -
    have "mss \<le> ?l + mss - 1" using that assms by linarith
    then show ?thesis using assms by (simp only: pos_imp_zdiv_pos_iff)
  qed
  moreover have "(?l + mss - 1) sdiv mss = (?l + mss - 1) div mss"
    using assms by (simp add: signed_divide_int_def sgn_if)
  ultimately show "length m \<le> frag_count mss m * nat mss" "0 < frag_count mss m"
    using assms by (fastforce simp: frag_count_def zless_nat_eq_int_zless simp flip: zle_int)+
qed

lemma msg_frags_spec:
  assumes "0 < mss"
  shows "length (msg_frags mss m) = frag_count mss m" "concat (map snd (msg_frags mss m)) = m"
    and "i < frag_count mss m \<Longrightarrow> fst (msg_frags mss m ! i) = of_nat (frag_count mss m - Suc i)"
    and "i < frag_count mss m \<Longrightarrow> length (snd (msg_frags mss m ! i)) \<le> nat mss"
  using send_loop_concat [OF assms frag_count_bounds(1) [OF assms]]
    send_loop_seg [OF _ assms, of i "frag_count mss m" 0 m]
  by (auto simp: msg_frags_def seg_frag_def comp_def)

text \<open>What \<open>send\<close> queues are the fragments of the message.\<close>

lemma kcp_send_frags:
  assumes "kcp_send m k = (0, k')" "0 < sint (kcp_mss k)"
  shows "map seg_frag (snd_queue k') = map seg_frag (snd_queue k) @ msg_frags (sint (kcp_mss k)) m
    \<and> frag_count (sint (kcp_mss k)) m \<le> 255 \<and> m \<noteq> []"
proof -
  have conv: "map seg_frag (send_loop c mss n d) = map seg_frag (send_loop 0 mss n d)" for c mss n d
    by (induction n arbitrary: d) (auto simp: Let_def seg_frag_def ikcp_seg0_def)
  show ?thesis
    using assms frag_count_bounds(2) [OF assms(2), of m]
    by (auto simp: kcp_send_def Let_def msg_frags_def frag_count_def conv [of "kcp_conv k"]
        simp del: send_loop.simps split: if_splits)
qed

subsection \<open>The receiver's invariant\<close>

definition carries :: "(u8 \<times> byte list) list \<Rightarrow> nat \<Rightarrow> ikcp_seg \<Rightarrow> bool" where
  "carries fs i s \<longleftrightarrow> i < length fs \<and> seg_sn s = of_nat i \<and> seg_frag s = fs ! i
     \<and> unat (seg_len s) = length (seg_data s) \<and> length (seg_data s) < 2 ^ 31"

text \<open>Fragments \<open>m .. n - 1\<close> are queued; later ones wait in \<open>rcv_buf\<close> in order.\<close>

definition rx_inv :: "(u8 \<times> byte list) list \<Rightarrow> nat \<Rightarrow> nat \<Rightarrow> ikcp \<Rightarrow> bool" where
  "rx_inv fs m n k \<longleftrightarrow> unat (rcv_wnd k) < 2 ^ 31 \<and> rcv_nxt k = of_nat n \<and> m \<le> n
     \<and> list_all2 (carries fs) [m..<n] (rcv_queue k) \<and> length (rcv_queue k) \<le> unat (rcv_wnd k)
     \<and> (\<exists>is. list_all2 (carries fs) is (rcv_buf k) \<and> sorted_wrt (<) is
           \<and> (\<forall>i \<in> set is. n \<le> i \<and> i < n + unat (rcv_wnd k)))"

lemma itimediff_nat:
  assumes "i < j + 2 ^ 31" "j \<le> i + 2 ^ 31"
  shows "itimediff (of_nat i) (of_nat j) = int i - int j"
proof -
  have "int i < int (j + 2 ^ 31)" "int j \<le> int (i + 2 ^ 31)"
    using assms by (simp_all only: of_nat_less_iff of_nat_le_iff)
  then have "- (2 ^ 31) \<le> int i - int j" "int i - int j < 2 ^ 31" by simp_all
  from itimediff_offset [OF this, of "of_nat j"] show ?thesis by simp
qed

lemma insert_back_spec:
  assumes "list_all2 (carries fs) ds bs" "sorted_wrt (>) ds" "carries fs i s"
    and "\<forall>j \<in> set ds. i < j + 2 ^ 31 \<and> j < i + 2 ^ 31"
  shows "case insert_back s bs of None \<Rightarrow> i \<in> set ds
     | Some bs' \<Rightarrow> \<exists>ds'. list_all2 (carries fs) ds' bs' \<and> sorted_wrt (>) ds' \<and> set ds' = insert i (set ds)"
  using assms
proof (induction ds bs rule: list_all2_induct)
  case Nil
  then show ?case by (auto intro!: exI [of _ "[i]"])
next
  case (Cons d ds b bs)
  have sn: "seg_sn b = of_nat d" "seg_sn s = of_nat i" using Cons by (auto simp: carries_def)
  have it: "itimediff (seg_sn b) (seg_sn s) = int d - int i"
    using Cons.prems(3) by (simp add: sn itimediff_nat)
  then have eq: "seg_sn b = seg_sn s \<longleftrightarrow> d = i" using itimediff_zero_iff [of "seg_sn b" "seg_sn s"] by auto
  consider "d = i" | "d < i" | "i < d" by linarith
  then show ?case
  proof cases
    case 2
    then have "\<forall>x \<in> set ds. x < i" using Cons.prems(1) by auto
    with 2 show ?thesis
      using Cons eq it by (auto intro!: exI [of _ "i # d # ds"])
  next
    case 3
    with Cons.IH Cons.prems show ?thesis
    proof (cases "insert_back s bs")
      case (Some bs')
      with Cons.IH Cons.prems obtain ds' where ds': "list_all2 (carries fs) ds' bs'" "sorted_wrt (>) ds'"
        "set ds' = insert i (set ds)" by auto
      with 3 Some eq it Cons.hyps Cons.prems show ?thesis
        by (auto intro!: exI [of _ "d # ds'"])
    qed (use 3 eq it in auto)
  qed (use eq in simp)
qed

lemma of_nat_u32_eq: "(of_nat i :: u32) = of_nat j \<longleftrightarrow> i = j" if "i < j + 2 ^ 31" "j < i + 2 ^ 31"
  using itimediff_nat [of i j] that itimediff_zero_iff [of "of_nat i" "of_nat j"] by auto

lemma move_loop_spec:
  assumes "list_all2 (carries fs) is buf" "sorted_wrt (<) is" "\<forall>i \<in> set is. n \<le> i \<and> i < n + 2 ^ 31"
    and "list_all2 (carries fs) [m..<n] queue" "m \<le> n"
  shows "\<exists>n' is' buf' queue'. move_loop wnd buf queue (of_nat n) = (buf', queue', of_nat n')
     \<and> n \<le> n' \<and> is = [n..<n'] @ is' \<and> list_all2 (carries fs) is' buf'
     \<and> list_all2 (carries fs) [m..<n'] queue' \<and> (\<forall>i \<in> set is'. n' \<le> i)
     \<and> (n' \<in> set is' \<longrightarrow> unat wnd \<le> length queue')
     \<and> length queue' \<le> max (length queue) (unat wnd)"
  using assms
proof (induction "is" buf arbitrary: n queue rule: list_all2_induct)
  case Nil
  then show ?case by (auto intro!: exI [of _ n])
next
  case (Cons i "is" seg buf)
  have sn: "seg_sn seg = of_nat i" using Cons.hyps(1) by (simp add: carries_def)
  have ne: "seg_sn seg = of_nat n \<longleftrightarrow> i = n"
    unfolding sn using Cons.prems(2) by (intro of_nat_u32_eq) auto
  show ?case
  proof (cases "i = n \<and> length queue < unat wnd")
    case True
    then have "\<forall>j \<in> set is. Suc n \<le> j \<and> j < Suc n + 2 ^ 31" using Cons.prems(1,2) by auto
    moreover have "list_all2 (carries fs) [m..<Suc n] (queue @ [seg])"
      using Cons.prems(3,4) Cons.hyps(1) True by (simp add: list_all2_appendI)
    ultimately obtain n' is' buf' queue' where n':
      "move_loop wnd buf (queue @ [seg]) (of_nat (Suc n)) = (buf', queue', of_nat n')"
      "Suc n \<le> n'" "is = [Suc n..<n'] @ is'" "list_all2 (carries fs) is' buf'"
      "list_all2 (carries fs) [m..<n'] queue'" "\<forall>i \<in> set is'. n' \<le> i"
      "n' \<in> set is' \<longrightarrow> unat wnd \<le> length queue'" "length queue' \<le> max (Suc (length queue)) (unat wnd)"
      using Cons.IH [of "Suc n" "queue @ [seg]"] Cons.prems(1,4) by auto
    have "[n..<n'] = n # [Suc n..<n']" using n'(2) by (simp add: upt_conv_Cons)
    then show ?thesis
      using n' True ne by (intro exI [of _ n'] exI [of _ is'] exI [of _ buf'] exI [of _ queue']) (auto simp: add.commute)
  next
    case False
    have "move_loop wnd (seg # buf) queue (of_nat n) = (seg # buf, queue, of_nat n)"
      using False ne by auto
    moreover have "n \<in> set (i # is) \<longrightarrow> i = n" using Cons.prems(1,2) by auto
    ultimately show ?thesis
      using False Cons.prems Cons.hyps
      by (intro exI [of _ n] exI [of _ "i # is"] exI [of _ "seg # buf"] exI [of _ queue]) auto
  qed
qed

lemma move_inv:
  assumes "rx_inv fs m n k"
  shows "\<exists>n'. rx_inv fs m n' (move_rcv_buf_to_queue k) \<and> n \<le> n' \<and> n' \<le> max n (m + unat (rcv_wnd k))
     \<and> ((\<exists>s \<in> set (rcv_buf k). seg_sn s = rcv_nxt k) \<longrightarrow> length (rcv_queue k) < unat (rcv_wnd k) \<longrightarrow> n < n')"
proof -
  from assms obtain "is" where i: "unat (rcv_wnd k) < 2 ^ 31" "rcv_nxt k = of_nat n" "m \<le> n"
    "list_all2 (carries fs) [m..<n] (rcv_queue k)" "list_all2 (carries fs) is (rcv_buf k)"
    "sorted_wrt (<) is" "\<forall>i \<in> set is. n \<le> i \<and> i < n + unat (rcv_wnd k)"
    by (auto simp: rx_inv_def)
  have range: "\<forall>i \<in> set is. n \<le> i \<and> i < n + 2 ^ 31"
    using i(1,7) by (meson less_trans nat_add_left_cancel_less)
  from move_loop_spec [OF i(5,6) range i(4,3), of "rcv_wnd k"] obtain n' is' buf' queue' where n':
    "move_loop (rcv_wnd k) (rcv_buf k) (rcv_queue k) (of_nat n) = (buf', queue', of_nat n')"
    "n \<le> n'" "is = [n..<n'] @ is'" "list_all2 (carries fs) is' buf'"
    "list_all2 (carries fs) [m..<n'] queue'" "\<forall>i \<in> set is'. n' \<le> i"
    "n' \<in> set is' \<longrightarrow> unat (rcv_wnd k) \<le> length queue'"
    "length queue' \<le> max (length (rcv_queue k)) (unat (rcv_wnd k))" by blast
  have k': "move_rcv_buf_to_queue k = k\<lparr>rcv_buf := buf', rcv_queue := queue', rcv_nxt := of_nat n'\<rparr>"
    by (simp add: move_rcv_buf_to_queue_def i(2) n'(1))
  have "sorted_wrt (<) is'" using i(6) n'(3) by (simp add: sorted_wrt_append)
  moreover have "\<forall>i \<in> set is'. n' \<le> i \<and> i < n' + unat (rcv_wnd k)"
  proof
    fix j
    assume "j \<in> set is'"
    then have "j \<in> set is" "n' \<le> j" using n'(3,6) by auto
    then have "j < n + unat (rcv_wnd k)" using i(7) by blast
    then show "n' \<le> j \<and> j < n' + unat (rcv_wnd k)" using \<open>n' \<le> j\<close> n'(2) by linarith
  qed
  ultimately have "rx_inv fs m n' (move_rcv_buf_to_queue k)"
    using i(1,3) n'(2,4,5,8) assms unfolding k' rx_inv_def by auto
  moreover have "n < n'"
    if s: "s \<in> set (rcv_buf k)" "seg_sn s = rcv_nxt k" and room: "length (rcv_queue k) < unat (rcv_wnd k)" for s
  proof (rule ccontr)
    assume "\<not> n < n'"
    then have "n' = n" "is' = is" using n'(2,3) by auto
    obtain j where j: "j \<in> set is" "carries fs j s"
      using list_all2_right [OF i(5) s(1)] by blast
    then have "j = n" using s(2) i(2) range of_nat_u32_eq [of j n] by (auto simp: carries_def)
    then have "unat (rcv_wnd k) \<le> length queue'" using n'(7) j(1) \<open>n' = n\<close> \<open>is' = is\<close> by simp
    moreover have "length queue' = length (rcv_queue k)"
      using list_all2_lengthD [OF n'(5)] list_all2_lengthD [OF i(4)] \<open>n' = n\<close> by simp
    ultimately show False using room by simp
  qed
  moreover have "n' \<le> max n (m + unat (rcv_wnd k))"
    using list_all2_lengthD [OF n'(5)] list_all2_lengthD [OF i(4)] n'(2,8) i(3) by auto
  ultimately show ?thesis using n'(2) by blast
qed

text \<open>
  The 32-bit numbers tell fragments apart only while no segment is older or newer
  than half their range; \<open>fresh\<close> says so for fragment \<open>i\<close> when \<open>n\<close> is expected.
\<close>

definition fresh :: "nat \<Rightarrow> nat \<Rightarrow> ikcp \<Rightarrow> bool" where
  "fresh i n k \<longleftrightarrow> i < n + 2 ^ 31 \<and> n + unat (rcv_wnd k) < i + 2 ^ 31"

lemma window_tests:
  assumes "rx_inv fs m n k" "carries fs i s" "fresh i n k"
  shows "itimediff (seg_sn s) (rcv_nxt k) < 0 \<longleftrightarrow> i < n"
    and "itimediff (seg_sn s) (rcv_nxt k + rcv_wnd k) < 0 \<longleftrightarrow> i < n + unat (rcv_wnd k)"
proof -
  have e: "seg_sn s = of_nat i" "rcv_nxt k = of_nat n" "rcv_nxt k + rcv_wnd k = of_nat (n + unat (rcv_wnd k))"
    using assms by (auto simp: rx_inv_def carries_def)
  show "itimediff (seg_sn s) (rcv_nxt k) < 0 \<longleftrightarrow> i < n"
    unfolding e(1,2) using assms(3) by (subst itimediff_nat) (auto simp: fresh_def)
  show "itimediff (seg_sn s) (rcv_nxt k + rcv_wnd k) < 0 \<longleftrightarrow> i < n + unat (rcv_wnd k)"
  proof -
    have "itimediff (of_nat i) (of_nat (n + unat (rcv_wnd k))) = int i - int (n + unat (rcv_wnd k))"
      using assms(3) by (intro itimediff_nat) (auto simp: fresh_def)
    then show ?thesis unfolding e(1,3) by linarith
  qed
qed

lemma parse_data_inv:
  assumes inv: "rx_inv fs m n k" and s: "carries fs i s" and i: "fresh i n k"
  shows "\<exists>n'. rx_inv fs m n' (parse_data s k) \<and> n \<le> n' \<and> n' \<le> max n (m + unat (rcv_wnd k))
     \<and> (i = n \<longrightarrow> length (rcv_queue k) < unat (rcv_wnd k) \<longrightarrow> n < n')"
proof (cases "i < n \<or> n + unat (rcv_wnd k) \<le> i")
  case True
  then have "parse_data s k = k"
    using window_tests [OF assms] by (auto simp: parse_data_def)
  with True inv show ?thesis by (intro exI [of _ n]) auto
next
  case False
  from inv obtain "is" where is': "unat (rcv_wnd k) < 2 ^ 31" "rcv_nxt k = of_nat n" "m \<le> n"
    "list_all2 (carries fs) [m..<n] (rcv_queue k)" "list_all2 (carries fs) is (rcv_buf k)"
    "sorted_wrt (<) is" "\<forall>i \<in> set is. n \<le> i \<and> i < n + unat (rcv_wnd k)"
    by (auto simp: rx_inv_def)
  have r: "list_all2 (carries fs) (rev is) (rev (rcv_buf k))" "sorted_wrt (>) (rev is)"
    using is'(5,6) by (simp_all add: sorted_wrt_rev)
  have near: "\<forall>j \<in> set (rev is). i < j + 2 ^ 31 \<and> j < i + 2 ^ 31"
  proof
    fix j
    assume "j \<in> set (rev is)"
    then have "n \<le> j" "j < n + unat (rcv_wnd k)" using is'(7) by auto
    then show "i < j + 2 ^ 31 \<and> j < i + 2 ^ 31" using False is'(1) by linarith
  qed
  have pd: "parse_data s k = move_rcv_buf_to_queue
      (case insert_back s (rev (rcv_buf k)) of Some buf \<Rightarrow> k\<lparr>rcv_buf := rev buf\<rparr> | None \<Rightarrow> k)"
    using window_tests [OF assms] False by (simp add: parse_data_def not_le not_less)
  show ?thesis
  proof (cases "insert_back s (rev (rcv_buf k))")
    case None
    then have "i \<in> set is" using insert_back_spec [OF r s near] by simp
    then obtain b where "b \<in> set (rcv_buf k)" "carries fs i b"
      using list_all2_right [of "\<lambda>b i. carries fs i b" "rcv_buf k" "is" i] is'(5)
      by (auto simp: list_all2_conv_all_nth)
    then have "i = n \<longrightarrow> (\<exists>s \<in> set (rcv_buf k). seg_sn s = rcv_nxt k)"
      using is'(2) by (auto simp: carries_def)
    with move_inv [OF inv] show ?thesis by (auto simp: pd None)
  next
    case (Some buf)
    then obtain ds where ds: "list_all2 (carries fs) ds buf" "sorted_wrt (>) ds" "set ds = insert i (set is)"
      using insert_back_spec [OF r s near] by auto
    let ?k = "k\<lparr>rcv_buf := rev buf\<rparr>"
    have "rx_inv fs m n ?k"
      unfolding rx_inv_def
    proof (intro conjI exI [of _ "rev ds"])
      show "\<forall>j \<in> set (rev ds). n \<le> j \<and> j < n + unat (rcv_wnd ?k)"
        using ds(3) is'(7) False by auto
    qed (use is' ds inv in \<open>simp_all add: sorted_wrt_rev rx_inv_def\<close>)
    moreover obtain b where "b \<in> set buf" "carries fs i b"
      using list_all2_right [of "\<lambda>b i. carries fs i b" buf ds i] ds(1,3)
      by (auto simp: list_all2_conv_all_nth)
    then have "i = n \<longrightarrow> (\<exists>s \<in> set (rcv_buf ?k). seg_sn s = rcv_nxt ?k)"
      using is'(2) by (auto simp: carries_def)
    ultimately show ?thesis using move_inv [of fs m n ?k] by (auto simp: pd Some)
  qed
qed

subsection \<open>Reading a message\<close>

definition stream :: "int \<Rightarrow> byte list list \<Rightarrow> (u8 \<times> byte list) list" where
  "stream mss ms = concat (map (msg_frags mss) ms)"

lemma pop_fragments:
  assumes "list_all2 (carries fs) [m..<n] queue" "0 < c" "c \<le> n - m" "c \<le> 256"
    and "\<And>i. i < c \<Longrightarrow> fst (fs ! (m + i)) = of_nat (c - Suc i)"
  shows "frag_length queue = int (length (concat (map snd (take c (drop m fs)))))
     \<and> recv_loop queue = (concat (map snd (take c (drop m fs))), drop c queue)"
  using assms
proof (induction c arbitrary: m queue)
  case (Suc c)
  then have mn: "m < n" by simp
  then obtain s rest where q: "queue = s # rest" "carries fs m s" "list_all2 (carries fs) [Suc m..<n] rest"
    using Suc.prems(1) by (auto simp: upt_conv_Cons list_all2_Cons1)
  have "fs ! m = (seg_frg s, seg_data s)" using q(2) by (simp add: carries_def seg_frag_def)
  then have m: "m < length fs" "seg_frg s = of_nat c" "seg_data s = snd (fs ! m)"
    "seg_len s = of_nat (length (seg_data s))" "length (seg_data s) < 2 ^ 31"
    using q(2) Suc.prems(5) [of 0] by (auto simp: carries_def word_unat_eq_iff unat_of_nat)
  have len: "unat (seg_len s) = length (seg_data s)" "sint (seg_len s) = int (length (seg_data s))"
    using q(2) itimediff_nat [of "length (seg_data s)" 0] m(4,5)
    by (auto simp: carries_def itimediff_def)
  have step: "take (Suc c) (drop m fs) = fs ! m # take c (drop (Suc m) fs)"
    using m(1) by (simp add: Cons_nth_drop_Suc [symmetric])
  show ?case
  proof (cases "c = 0")
    case True
    then show ?thesis using q(1) m len step by auto
  next
    case False
    then have "0 < c" by simp
    have "(of_nat c :: u8) \<noteq> 0" using False Suc.prems(4) by (simp add: word_unat_eq_iff unat_of_nat)
    moreover have "fst (fs ! (Suc m + i)) = of_nat (c - Suc i)" if "i < c" for i
      using Suc.prems(5) [of "Suc i"] that by simp
    ultimately show ?thesis
      using Suc.IH [OF q(3) \<open>0 < c\<close>] Suc.prems(3,4) q(1) m len step by auto
  qed
qed simp

lemma stream_split:
  assumes "j < length ms"
  shows "stream mss ms = stream mss (take j ms) @ msg_frags mss (ms ! j) @ stream mss (drop (Suc j) ms)"
  using id_take_nth_drop [OF assms] by (metis stream_def map_append concat_append list.simps(9) concat.simps(2))

text \<open>The read position stands at the start of message \<open>j\<close>.\<close>

definition reads :: "int \<Rightarrow> byte list list \<Rightarrow> nat \<Rightarrow> nat \<Rightarrow> ikcp \<Rightarrow> bool" where
  "reads mss ms j n k \<longleftrightarrow> j \<le> length ms \<and> rx_inv (stream mss ms) (length (stream mss (take j ms))) n k"

definition sendable :: "int \<Rightarrow> byte list list \<Rightarrow> bool" where
  "sendable mss ms \<longleftrightarrow> 0 < mss \<and> (\<forall>m \<in> set ms. frag_count mss m \<le> 256)"

lemma length_stream_Suc:
  assumes "0 < mss" "j < length ms"
  shows "length (stream mss (take (Suc j) ms)) = length (stream mss (take j ms)) + frag_count mss (ms ! j)"
  using assms by (simp add: take_Suc_conv_app_nth stream_def msg_frags_spec(1))

lemma reads_front:
  assumes r: "reads mss ms j n k" and ok: "sendable mss ms" and ne: "rcv_queue k \<noteq> []"
  defines "m \<equiv> length (stream mss (take j ms))"
  shows "j < length ms" "unat (seg_frg (hd (rcv_queue k))) = frag_count mss (ms ! j) - 1"
    and "length (rcv_queue k) = n - m"
proof -
  have l2: "list_all2 (carries (stream mss ms)) [m..<n] (rcv_queue k)"
    using r by (simp add: reads_def rx_inv_def m_def)
  show len: "length (rcv_queue k) = n - m" using list_all2_lengthD [OF l2] by simp
  with ne have "m < n" by (cases "n - m") auto
  with l2 have hd: "carries (stream mss ms) m (hd (rcv_queue k))"
    by (cases "rcv_queue k") (auto simp: upt_conv_Cons list_all2_Cons1)
  have "j \<noteq> length ms" using hd by (auto simp: carries_def m_def)
  then show j: "j < length ms" using r by (simp add: reads_def)
  have mss: "0 < mss" "frag_count mss (ms ! j) \<le> 256" using ok j by (auto simp: sendable_def)
  have pos: "0 < frag_count mss (ms ! j)" by (rule frag_count_bounds(2) [OF mss(1)])
  have "stream mss ms ! m = msg_frags mss (ms ! j) ! 0"
    using pos mss(1) by (simp add: stream_split [OF j] m_def nth_append msg_frags_spec(1))
  then have "seg_frg (hd (rcv_queue k)) = of_nat (frag_count mss (ms ! j) - 1)"
    using hd msg_frags_spec(3) [OF mss(1) pos] by (auto simp: carries_def seg_frag_def prod_eq_iff)
  then show "unat (seg_frg (hd (rcv_queue k))) = frag_count mss (ms ! j) - 1"
    using mss(2) by (simp add: unat_of_nat)
qed

lemma carries_stream_len:
  assumes r: "reads mss ms j n k" and ok: "sendable mss ms"
    and full: "frag_count mss (ms ! j) \<le> length (rcv_queue k)" and ne: "rcv_queue k \<noteq> []"
  shows "peeksize k = int (length (ms ! j))"
    and "recv_loop (rcv_queue k) = (ms ! j, drop (frag_count mss (ms ! j)) (rcv_queue k))"
proof -
  let ?c = "frag_count mss (ms ! j)" and ?m = "length (stream mss (take j ms))"
  note front = reads_front [OF r ok ne]
  have mss: "0 < mss" "?c \<le> 256" using ok front(1) by (auto simp: sendable_def)
  have pos: "0 < ?c" by (rule frag_count_bounds(2) [OF mss(1)])
  have l2: "list_all2 (carries (stream mss ms)) [?m..<n] (rcv_queue k)"
    using r by (simp add: reads_def rx_inv_def)
  have nth: "stream mss ms ! (?m + i) = msg_frags mss (ms ! j) ! i" if "i < ?c" for i
    using that mss(1) by (simp add: stream_split [OF front(1)] nth_append msg_frags_spec(1))
  have "take ?c (drop ?m (stream mss ms)) = msg_frags mss (ms ! j)"
    using mss(1) by (simp add: stream_split [OF front(1)] msg_frags_spec(1))
  moreover have "?c \<le> n - ?m" using full front(3) by simp
  ultimately have p: "frag_length (rcv_queue k) = int (length (ms ! j))"
    "recv_loop (rcv_queue k) = (ms ! j, drop ?c (rcv_queue k))"
    using pop_fragments [OF l2 pos _ mss(2)] nth msg_frags_spec(2,3) [OF mss(1)] by auto
  show "recv_loop (rcv_queue k) = (ms ! j, drop ?c (rcv_queue k))" by (rule p(2))
  obtain s q where q: "rcv_queue k = s # q" using ne by (cases "rcv_queue k") auto
  have "frag_length (rcv_queue k) = sint (seg_len s)" if "seg_frg s = 0" using that q by simp
  moreover have "seg_frg s \<noteq> 0 \<Longrightarrow> \<not> length (rcv_queue k) < unat (seg_frg s) + 1"
    using front(2) full pos q by auto
  ultimately show "peeksize k = int (length (ms ! j))"
    using p(1) q by (auto simp: peeksize_def)
qed

lemma peeksize_incomplete:
  assumes r: "reads mss ms j n k" and ok: "sendable mss ms"
    and short: "length (rcv_queue k) < frag_count mss (ms ! j) \<or> rcv_queue k = []"
  shows "peeksize k = - 1"
proof (cases "rcv_queue k")
  case (Cons s q)
  then have "unat (seg_frg s) = frag_count mss (ms ! j) - 1" using reads_front(2) [OF r ok] by simp
  moreover from this have "seg_frg s \<noteq> 0" using short Cons by auto
  ultimately show ?thesis using short Cons by (auto simp: peeksize_def)
qed (simp add: peeksize_def)

lemma drop_upt_list_all2: "list_all2 P [m..<n] q \<Longrightarrow> list_all2 P [m + c..<n] (drop c q)"
  using list_all2_dropI [of P "[m..<n]" q c] by (simp add: drop_upt)

lemma kcp_recv_message:
  assumes r: "reads mss ms j n k" and ok: "sendable mss ms" and len: "int (length (ms ! j)) \<le> len"
    and full: "frag_count mss (ms ! j) \<le> length (rcv_queue k)" and ne: "rcv_queue k \<noteq> []"
  shows "\<exists>k' n'. kcp_recv len k = (int (length (ms ! j)), ms ! j, k') \<and> reads mss ms (Suc j) n' k' \<and> n \<le> n'
    \<and> n' \<le> n + unat (rcv_wnd k) \<and> rcv_wnd k' = rcv_wnd k"
proof -
  let ?c = "frag_count mss (ms ! j)" and ?m = "length (stream mss (take j ms))"
  note front = reads_front [OF r ok ne] and p = carries_stream_len [OF r ok full ne]
  have mss: "0 < mss" using ok by (simp add: sendable_def)
  let ?k = "k\<lparr>rcv_queue := drop ?c (rcv_queue k)\<rparr>"
  have "rx_inv (stream mss ms) (?m + ?c) n ?k"
    using r drop_upt_list_all2 [of _ ?m n "rcv_queue k" ?c] full front(3)
    by (auto simp: reads_def rx_inv_def)
  from move_inv [OF this] obtain n' where n': "n \<le> n'"
    "rx_inv (stream mss ms) (?m + ?c) n' (move_rcv_buf_to_queue ?k)" "n' \<le> max n (?m + ?c + unat (rcv_wnd k))" by auto
  have "?m + ?c \<le> n" using full front(3) ne by (cases "n - ?m") auto
  then have "n' \<le> n + unat (rcv_wnd k)" using n'(3) by linarith
  moreover from n'(2) have "rx_inv (stream mss ms) (?m + ?c) n' (snd (snd (kcp_recv len k)))"
    using p len by (auto simp: kcp_recv_def Let_def rx_inv_def)
  moreover have "kcp_recv len k = (int (length (ms ! j)), ms ! j, snd (snd (kcp_recv len k)))"
    using p len by (simp add: kcp_recv_def Let_def)
  moreover have "rcv_wnd (snd (snd (kcp_recv len k))) = rcv_wnd k"
    using p len by (simp add: kcp_recv_def Let_def move_rcv_buf_to_queue_def split_def)
  ultimately show ?thesis
    using n'(1) front(1) length_stream_Suc [OF mss front(1)]
    by (intro exI [of _ "snd (snd (kcp_recv len k))"] exI [of _ n']) (simp add: reads_def)
qed

end
