(* ===== verification/Ikcp_Link.thy ===== *)
theory Ikcp_Link
  imports Ikcp_Recv
begin

section \<open>KCP: what the application receives over any network\<close>

text \<open>
  The segments of a datagram as the loop of \<open>input\<close> finds them, apart from their
  effect, and the operations that leave the receiving side alone.
\<close>

function parse_segs :: "u32 \<Rightarrow> byte list \<Rightarrow> int \<times> (ikcp_seg \<times> byte list) list" where
  "parse_segs conv d =
     (if length d < IKCP_OVERHEAD then (0, [])
      else
        (let h = decode_header d; rest = drop IKCP_OVERHEAD d in
         if seg_conv h \<noteq> conv then (- 1, [])
         else if length rest < unat (seg_len h) then (- 2, [])
         else if seg_cmd h \<notin> {IKCP_CMD_PUSH, IKCP_CMD_ACK, IKCP_CMD_WASK, IKCP_CMD_WINS} then (- 3, [])
         else (let (r, segs) = parse_segs conv (drop (unat (seg_len h)) rest) in (r, (h, rest) # segs))))"
  by pat_completeness auto
termination by (relation "measure (length \<circ> snd)") (auto simp: IKCP_OVERHEAD_def)

declare parse_segs.simps [simp del]

lemma kcp_conv_frame [simp]:
  "kcp_conv (move_rcv_buf_to_queue k) = kcp_conv k" "kcp_conv (parse_data s k) = kcp_conv k"
  "kcp_conv (shrink_buf k) = kcp_conv k" "kcp_conv (parse_una u k) = kcp_conv k"
  "kcp_conv (parse_ack u k) = kcp_conv k" "kcp_conv (update_ack i k) = kcp_conv k"
  by (simp_all add: move_rcv_buf_to_queue_def parse_data_def shrink_buf_def parse_una_def parse_ack_def
      update_ack_def Let_def split_def split: option.splits)

lemma input_segment_conv: "kcp_conv (snd (snd (input_segment h p st))) = kcp_conv (snd (snd st))"
  by (cases st) (simp add: input_segment_def Let_def)

lemma input_loop_eq:
  "input_loop d st = (let (r, segs) = parse_segs (kcp_conv (snd (snd st))) d in
     (r, fold (\<lambda>hp. input_segment (fst hp) (snd hp)) segs st))"
proof (induction d st rule: input_loop.induct)
  case (1 d st)
  let ?h = "decode_header d" and ?rest = "drop IKCP_OVERHEAD d" and ?c = "kcp_conv (snd (snd st))"
  show ?case
  proof (cases "length d < IKCP_OVERHEAD \<or> seg_conv ?h \<noteq> ?c \<or> length ?rest < unat (seg_len ?h)
      \<or> seg_cmd ?h \<notin> {IKCP_CMD_PUSH, IKCP_CMD_ACK, IKCP_CMD_WASK, IKCP_CMD_WINS}")
    case True
    then show ?thesis
      by (subst input_loop.simps, subst parse_segs.simps) (auto simp: Let_def)
  next
    case False
    have IH: "input_loop (drop (unat (seg_len ?h)) ?rest) (input_segment ?h ?rest st)
      = (let (r, segs) = parse_segs ?c (drop (unat (seg_len ?h)) ?rest) in
         (r, fold (\<lambda>hp. input_segment (fst hp) (snd hp)) segs (input_segment ?h ?rest st)))"
      using "1.IH" [OF _ refl refl] False by (simp add: input_segment_conv)
    have "input_loop d st = input_loop (drop (unat (seg_len ?h)) ?rest) (input_segment ?h ?rest st)"
      using False by (subst input_loop.simps) (simp add: Let_def)
    moreover have "parse_segs ?c d =
        (let (r, segs) = parse_segs ?c (drop (unat (seg_len ?h)) ?rest) in (r, (?h, ?rest) # segs))"
      using False by (subst parse_segs.simps) (simp add: Let_def)
    ultimately show ?thesis using IH by (simp add: Let_def split_def)
  qed
qed

subsection \<open>Operations that leave the receiving side alone\<close>

definition rx_same :: "ikcp \<Rightarrow> ikcp \<Rightarrow> bool" where
  "rx_same k k' \<longleftrightarrow> rcv_nxt k' = rcv_nxt k \<and> rcv_queue k' = rcv_queue k \<and> rcv_buf k' = rcv_buf k
     \<and> rcv_wnd k' = rcv_wnd k"

lemma rx_same_refl [simp]: "rx_same k k" by (simp add: rx_same_def)

lemma rx_same_trans: "rx_same a b \<Longrightarrow> rx_same b c \<Longrightarrow> rx_same a c" by (simp add: rx_same_def)

lemma rx_inv_same: "rx_same k k' \<Longrightarrow> rx_inv fs m n k' = rx_inv fs m n k"
  by (auto simp: rx_same_def rx_inv_def)

lemma rx_same_ack:
  "rx_same k (shrink_buf k)" "rx_same k (parse_una u k)" "rx_same k (parse_ack u k)"
  "rx_same k (update_ack i k)" "rx_same k (parse_fastack u k)" "rx_same k (grow_cwnd k)"
  by (simp_all add: rx_same_def shrink_buf_def parse_una_def parse_ack_def update_ack_def parse_fastack_def
      grow_cwnd_def Let_def)

lemma rx_same_send: "rx_same k (snd (kcp_send m k))"
  by (simp add: rx_same_def kcp_send_def Let_def)

lemma rx_same_admit: "rx_same k (admit_loop win wnd segs k)"
  by (induction win wnd segs k rule: admit_loop.induct) (auto simp: rx_same_def Let_def)

lemma rx_same_congestion: "rx_same k (congestion l c r w k)"
  by (simp add: rx_same_def congestion_def Let_def)

lemma rx_same_flush: "rx_same k (snd (kcp_flush k))"
proof -
  have "rx_same k (probe_window (k\<lparr>acklist := []\<rparr>))" by (simp add: rx_same_def probe_window_def Let_def)
  then have "rx_same k (admit_loop win wnd q ((probe_window (k\<lparr>acklist := []\<rparr>))\<lparr>kcp_probe := 0\<rparr>))" for win wnd q
    using rx_same_admit [of "(probe_window (k\<lparr>acklist := []\<rparr>))\<lparr>kcp_probe := 0\<rparr>" win wnd q]
    by (simp add: rx_same_def)
  then have "rx_same k (congestion l c r w ((admit_loop win wnd q ((probe_window (k\<lparr>acklist := []\<rparr>))\<lparr>kcp_probe := 0\<rparr>))
      \<lparr>snd_buf := b, kcp_xmit := x, kcp_state := s\<rparr>))" for l c r w win wnd q b x s
    by (intro rx_same_trans [OF _ rx_same_congestion]) (simp add: rx_same_def)
  then show ?thesis by (simp add: kcp_flush_def Let_def split_def)
qed

lemma rx_same_update: "rx_same k (snd (kcp_update now k))"
proof -
  have "rx_same k (snd (kcp_flush k'))" if "rx_same k k'" for k'
    using that rx_same_flush by (rule rx_same_trans)
  then show ?thesis unfolding kcp_update_def Let_def by (simp add: rx_same_def split: if_split)
qed

subsection \<open>One datagram\<close>

text \<open>
  A datagram the network may deliver: each data segment in it is a fragment the
  sender sent, under its number, and is not out of date by half the number range.
  The network may still lose, repeat and reorder datagrams at will, and the other
  segments are arbitrary.
\<close>

definition data_segment :: "(u8 \<times> byte list) list \<Rightarrow> nat \<Rightarrow> ikcp_seg \<times> byte list \<Rightarrow> bool" where
  "data_segment fs i hp \<longleftrightarrow> seg_cmd (fst hp) = IKCP_CMD_PUSH
     \<and> carries fs i ((fst hp)\<lparr>seg_data := take (unat (seg_len (fst hp))) (snd hp)\<rparr>)"

definition honest :: "(u8 \<times> byte list) list \<Rightarrow> nat \<Rightarrow> byte list \<Rightarrow> ikcp \<Rightarrow> bool" where
  "honest fs n d k \<longleftrightarrow>
     (\<forall>hp \<in> set (snd (parse_segs (kcp_conv k) d)). seg_cmd (fst hp) = IKCP_CMD_PUSH \<longrightarrow>
        (\<exists>i. data_segment fs i hp \<and> i < n + 2 ^ 31 \<and> n + 2 * unat (rcv_wnd k) < i + 2 ^ 31))"

lemma input_segment_inv:
  assumes inv: "rx_inv fs m n (snd (snd st))"
    and h: "seg_cmd h = IKCP_CMD_PUSH \<Longrightarrow> \<exists>i. carries fs i (h\<lparr>seg_data := take (unat (seg_len h)) p\<rparr>)
        \<and> fresh i n (snd (snd st))"
  shows "\<exists>n'. rx_inv fs m n' (snd (snd (input_segment h p st))) \<and> n \<le> n'
    \<and> n' \<le> max n (m + unat (rcv_wnd (snd (snd st))))
    \<and> rcv_wnd (snd (snd (input_segment h p st))) = rcv_wnd (snd (snd st))
    \<and> (seg_cmd h = IKCP_CMD_PUSH \<longrightarrow> carries fs n (h\<lparr>seg_data := take (unat (seg_len h)) p\<rparr>) \<longrightarrow>
         n < m + unat (rcv_wnd (snd (snd st))) \<longrightarrow> n < n')"
proof -
  obtain flag maxack k where st: "st = (flag, maxack, k)" by (cases st)
  let ?k1 = "shrink_buf (parse_una (seg_una h) (k\<lparr>rmt_wnd := ucast (seg_wnd h)\<rparr>))"
  have same1: "rx_same k ?k1"
    using rx_same_ack(1,2) by (intro rx_same_trans [OF _ rx_same_ack(1)] rx_same_trans [OF _ rx_same_ack(2)])
      (simp add: rx_same_def)
  have id: "\<exists>n'. rx_inv fs m n' k' \<and> n \<le> n' \<and> n' \<le> max n (m + unat (rcv_wnd k)) \<and> rcv_wnd k' = rcv_wnd k"
    if "rx_same k k'" for k'
    using inv that rx_inv_same [OF that] by (auto simp: st rx_same_def)
  show ?thesis
  proof (cases "seg_cmd h = IKCP_CMD_PUSH")
    case False
    have "rx_same k (snd (snd (input_segment h p st)))"
    proof (cases "seg_cmd h = IKCP_CMD_ACK")
      case True
      let ?k2 = "if 0 \<le> itimediff (kcp_current ?k1) (seg_ts h)
        then update_ack (itimediff (kcp_current ?k1) (seg_ts h)) ?k1 else ?k1"
      have "rx_same k (shrink_buf (parse_ack (seg_sn h) ?k2))"
        using same1 rx_same_ack
        by (intro rx_same_trans [OF _ rx_same_ack(1)] rx_same_trans [OF _ rx_same_ack(3)])
          (auto intro: rx_same_trans)
      then show ?thesis using True by (simp add: input_segment_def st Let_def)
    next
      case not_ack: False
      then show ?thesis using False same1 by (simp add: input_segment_def st Let_def rx_same_def)
    qed
    with id False show ?thesis by (simp add: st)
  next
    case True
    then obtain i where i: "carries fs i (h\<lparr>seg_data := take (unat (seg_len h)) p\<rparr>)" "fresh i n k"
      using h by (auto simp: st)
    let ?s = "h\<lparr>seg_data := take (unat (seg_len h)) p\<rparr>"
    let ?k2 = "?k1\<lparr>acklist := acklist ?k1 @ [(seg_sn h, seg_ts h)]\<rparr>"
    have s: "h\<lparr>seg_data := (if 0 < seg_len h then take (unat (seg_len h)) p else [])\<rparr> = ?s"
      by (simp add: word_gt_0)
    have same2: "rx_same k ?k2" using same1 by (simp add: rx_same_def)
    have inv2: "rx_inv fs m n ?k2" using inv rx_inv_same [OF same2] by (simp add: st)
    have wnd: "rcv_wnd ?k2 = rcv_wnd k" using same2 by (simp add: rx_same_def)
    then have fr: "fresh i n ?k2" using i(2) by (simp only: fresh_def)
    have eq: "i = n" if "carries fs n ?s"
    proof -
      have "(of_nat i :: u32) = of_nat n" using that i(1) by (simp add: carries_def)
      moreover have "i < n + 2 ^ 31" "n < i + 2 ^ 31" using i(2) by (auto simp: fresh_def)
      ultimately show ?thesis using of_nat_u32_eq [of i n] by blast
    qed
    have len: "length (rcv_queue ?k2) = n - m"
      using inv2 by (auto simp: rx_inv_def dest: list_all2_lengthD)
    from parse_data_inv [OF inv2 i(1) fr, unfolded wnd len] obtain n' where n': "rx_inv fs m n' (parse_data ?s ?k2)"
      "n \<le> n'" "n' \<le> max n (m + unat (rcv_wnd k))" "i = n \<longrightarrow> n - m < unat (rcv_wnd k) \<longrightarrow> n < n'"
      by blast
    have mn: "n < m + unat (rcv_wnd k) \<Longrightarrow> n - m < unat (rcv_wnd k)" using inv2 by (simp add: rx_inv_def less_diff_conv2 add.commute)
    have wnd': "rcv_wnd (parse_data ?s ?k2) = rcv_wnd k"
      using wnd by (simp add: parse_data_def move_rcv_buf_to_queue_def Let_def split_def split: option.split)
    have c: "IKCP_CMD_PUSH \<noteq> IKCP_CMD_ACK" by (simp add: ikcp_cmds)
    note tests = window_tests [OF inv2 i(1) fr]
    show ?thesis
    proof (cases "itimediff (seg_sn h) (rcv_nxt ?k1 + rcv_wnd ?k1) < 0 \<and> 0 \<le> itimediff (seg_sn h) (rcv_nxt ?k1)")
      case True
      then have "snd (snd (input_segment h p st)) = parse_data ?s ?k2"
        using \<open>seg_cmd h = IKCP_CMD_PUSH\<close> c unfolding input_segment_def st s Let_def by simp
      with n' wnd' eq mn show ?thesis by (intro exI [of _ n']) (auto simp: st)
    next
      case False
      then have "snd (snd (input_segment h p st)) \<in> {?k1, ?k2}"
        using \<open>seg_cmd h = IKCP_CMD_PUSH\<close> c unfolding input_segment_def st s Let_def by (simp split: if_split)
      moreover have "i < n \<or> n + unat (rcv_wnd k) \<le> i" using False tests wnd by (auto simp: not_less)
      then have "carries fs n ?s \<longrightarrow> \<not> n < m + unat (rcv_wnd k)"
        using eq inv2 by (auto simp: rx_inv_def)
      ultimately show ?thesis using id [OF same1] id [OF same2] inv2 rx_inv_same [OF same1] inv
        by (intro exI [of _ n]) (auto simp: st rx_same_def)
    qed
  qed
qed

lemma segments_inv:
  assumes "rx_inv fs m n (snd (snd st))" "n0 \<le> n" "n \<le> max n0 (m + unat (rcv_wnd (snd (snd st))))" "m \<le> n0"
    and "\<forall>hp \<in> set segs. seg_cmd (fst hp) = IKCP_CMD_PUSH \<longrightarrow>
        (\<exists>i. data_segment fs i hp \<and> i < n0 + 2 ^ 31 \<and> n0 + 2 * unat (rcv_wnd (snd (snd st))) < i + 2 ^ 31)"
  shows "\<exists>n'. rx_inv fs m n' (snd (snd (fold (\<lambda>hp. input_segment (fst hp) (snd hp)) segs st))) \<and> n \<le> n'
    \<and> n' \<le> max n0 (m + unat (rcv_wnd (snd (snd st))))
    \<and> rcv_wnd (snd (snd (fold (\<lambda>hp. input_segment (fst hp) (snd hp)) segs st))) = rcv_wnd (snd (snd st))
    \<and> ((\<exists>hp \<in> set segs. data_segment fs n0 hp) \<longrightarrow> n0 < m + unat (rcv_wnd (snd (snd st))) \<longrightarrow> n0 < n')"
  using assms
proof (induction segs arbitrary: st n)
  case (Cons hp segs)
  let ?k = "snd (snd st)" and ?st = "input_segment (fst hp) (snd hp) st"
  let ?fold = "fold (\<lambda>hp. input_segment (fst hp) (snd hp)) segs ?st"
  have "n \<le> n0 + unat (rcv_wnd ?k)" using Cons.prems(3,4) by simp
  then have "seg_cmd (fst hp) = IKCP_CMD_PUSH \<Longrightarrow>
      \<exists>i. carries fs i ((fst hp)\<lparr>seg_data := take (unat (seg_len (fst hp))) (snd hp)\<rparr>) \<and> fresh i n ?k"
    using Cons.prems(2,5) unfolding fresh_def data_segment_def by fastforce
  from input_segment_inv [OF Cons.prems(1) this] obtain n1 where n1: "rx_inv fs m n1 (snd (snd ?st))"
    "n \<le> n1" "n1 \<le> max n (m + unat (rcv_wnd ?k))" "rcv_wnd (snd (snd ?st)) = rcv_wnd ?k"
    "data_segment fs n hp \<longrightarrow> n < m + unat (rcv_wnd ?k) \<longrightarrow> n < n1"
    unfolding data_segment_def by blast
  have "\<exists>n'. rx_inv fs m n' (snd (snd ?fold)) \<and> n1 \<le> n' \<and> n' \<le> max n0 (m + unat (rcv_wnd (snd (snd ?st))))
    \<and> rcv_wnd (snd (snd ?fold)) = rcv_wnd (snd (snd ?st))
    \<and> ((\<exists>hp \<in> set segs. data_segment fs n0 hp) \<longrightarrow> n0 < m + unat (rcv_wnd (snd (snd ?st))) \<longrightarrow> n0 < n')"
    by (rule Cons.IH [OF n1(1)]) (use n1 Cons.prems(2-5) in auto)
  then obtain n' where n': "rx_inv fs m n' (snd (snd ?fold))" "n1 \<le> n'" "n' \<le> max n0 (m + unat (rcv_wnd ?k))"
    "rcv_wnd (snd (snd ?fold)) = rcv_wnd ?k"
    "(\<exists>hp \<in> set segs. data_segment fs n0 hp) \<longrightarrow> n0 < m + unat (rcv_wnd ?k) \<longrightarrow> n0 < n'"
    unfolding n1(4) by blast
  have "data_segment fs n0 hp \<Longrightarrow> n0 < m + unat (rcv_wnd ?k) \<Longrightarrow> n0 < n'"
    using n1(2,5) n'(2) Cons.prems(2) by (cases "n = n0") auto
  with n' n1(2) show ?case by (intro exI [of _ n']) auto
qed auto

lemma kcp_input_inv:
  assumes inv: "rx_inv fs m n k" and h: "honest fs n d k" and k': "kcp_input d k = (r, k')"
  shows "\<exists>n'. rx_inv fs m n' k' \<and> n \<le> n' \<and> n' \<le> n + unat (rcv_wnd k) \<and> rcv_wnd k' = rcv_wnd k
    \<and> (IKCP_OVERHEAD \<le> length d \<longrightarrow> (\<exists>hp \<in> set (snd (parse_segs (kcp_conv k) d)). data_segment fs n hp) \<longrightarrow>
        n < m + unat (rcv_wnd k) \<longrightarrow> n < n')"
proof (cases "length d < IKCP_OVERHEAD")
  case True
  then have "k' = k" using k' by (simp add: kcp_input_def)
  with inv True show ?thesis by auto
next
  case False
  obtain c segs where p: "parse_segs (kcp_conv k) d = (c, segs)" by (cases "parse_segs (kcp_conv k) d")
  define st where "st = fold (\<lambda>hp. input_segment (fst hp) (snd hp)) segs (False, 0, k)"
  have mn: "m \<le> n" using inv by (simp add: rx_inv_def)
  have "\<exists>n'. rx_inv fs m n' (snd (snd st)) \<and> n \<le> n' \<and> n' \<le> max n (m + unat (rcv_wnd k))
      \<and> rcv_wnd (snd (snd st)) = rcv_wnd k
      \<and> ((\<exists>hp \<in> set segs. data_segment fs n hp) \<longrightarrow> n < m + unat (rcv_wnd k) \<longrightarrow> n < n')"
    using segments_inv [of fs m n "(False, 0, k)" n segs] inv mn h by (simp add: st_def honest_def p)
  then obtain n' where n': "rx_inv fs m n' (snd (snd st))" "n \<le> n'" "n' \<le> max n (m + unat (rcv_wnd k))"
    "rcv_wnd (snd (snd st)) = rcv_wnd k"
    "(\<exists>hp \<in> set segs. data_segment fs n hp) \<longrightarrow> n < m + unat (rcv_wnd k) \<longrightarrow> n < n'" by blast
  let ?k1 = "snd (snd st)" and ?k2 = "if fst st then parse_fastack (fst (snd st)) (snd (snd st)) else snd (snd st)"
  have "rx_same ?k1 ?k2" by (simp add: rx_same_ack)
  moreover from this have "rx_same ?k1 (grow_cwnd ?k2)" by (rule rx_same_trans [OF _ rx_same_ack(6)])
  moreover have "k' \<in> {?k1, ?k2, grow_cwnd ?k2}"
    using k' False by (auto simp: kcp_input_def input_loop_eq p Let_def split_def st_def split: if_splits)
  ultimately have s: "rx_same ?k1 k'" by auto
  then have "rcv_wnd k' = rcv_wnd k" using n'(4) by (simp add: rx_same_def)
  with n' mn rx_inv_same [OF s] show ?thesis by (intro exI [of _ n']) (auto simp: p)
qed

subsection \<open>Runs of a receiver\<close>

text \<open>
  A receiver whose peer sends the messages \<open>ms\<close>, fragmented for \<open>mss\<close>. \<open>n\<close> counts the
  fragments accepted in order, \<open>got\<close> lists what \<open>recv\<close> returned. Any number of
  datagrams arrive; the application reads with any buffer size, sends, and the
  timer runs, in any order.
\<close>

inductive kcp_run :: "int \<Rightarrow> byte list list \<Rightarrow> nat \<Rightarrow> byte list list \<Rightarrow> ikcp \<Rightarrow> bool" for mss ms where
  kr_start: "rcv_nxt k = 0 \<Longrightarrow> rcv_queue k = [] \<Longrightarrow> rcv_buf k = [] \<Longrightarrow> unat (rcv_wnd k) < 2 ^ 31 \<Longrightarrow>
    kcp_run mss ms 0 [] k"
| kr_input: "kcp_run mss ms n got k \<Longrightarrow> honest (stream mss ms) n d k \<Longrightarrow> kcp_input d k = (r, k') \<Longrightarrow>
    kcp_run mss ms (n + unat (rcv_nxt k' - rcv_nxt k)) got k'"
| kr_recv: "kcp_run mss ms n got k \<Longrightarrow> kcp_recv len k = (r, bytes, k') \<Longrightarrow>
    kcp_run mss ms (n + unat (rcv_nxt k' - rcv_nxt k)) (if 0 \<le> r then got @ [bytes] else got) k'"
| kr_send: "kcp_run mss ms n got k \<Longrightarrow> kcp_send m k = (r, k') \<Longrightarrow> kcp_run mss ms n got k'"
| kr_update: "kcp_run mss ms n got k \<Longrightarrow> kcp_update now k = (outs, k') \<Longrightarrow> kcp_run mss ms n got k'"

lemma advance_eq:
  assumes "rx_inv fs m n k" "rx_inv fs' m' n' k'" "n \<le> n'" "n' \<le> n + unat (rcv_wnd k)"
  shows "n + unat (rcv_nxt k' - rcv_nxt k) = n'"
proof -
  have "rcv_nxt k' - rcv_nxt k = of_nat (n' - n)" using assms by (simp add: rx_inv_def of_nat_diff)
  moreover have "unat (rcv_wnd k) < 2 ^ 31" using assms(1) by (simp add: rx_inv_def)
  then have "n' - n < 2 ^ 31" using assms(4) by linarith
  then have "unat (of_nat (n' - n) :: u32) = n' - n" by (simp add: unat_of_nat del: of_nat_diff)
  ultimately have "unat (rcv_nxt k' - rcv_nxt k) = n' - n" by (simp only:)
  then show ?thesis using assms(3) by simp
qed

lemma reads_same: "rx_same k k' \<Longrightarrow> reads mss ms j n k' = reads mss ms j n k"
  by (simp add: reads_def rx_inv_same)

text \<open>How the two operations that touch the receiving side move the read position.\<close>

lemma reads_input:
  assumes r: "reads mss ms j n k" and h: "honest (stream mss ms) n d k" and k': "kcp_input d k = (c, k')"
  shows "reads mss ms j (n + unat (rcv_nxt k' - rcv_nxt k)) k'"
proof -
  have inv: "rx_inv (stream mss ms) (length (stream mss (take j ms))) n k" and j: "j \<le> length ms"
    using r unfolding reads_def by blast+
  from kcp_input_inv [OF inv h k'] obtain n' where n':
    "rx_inv (stream mss ms) (length (stream mss (take j ms))) n' k'" "n \<le> n'" "n' \<le> n + unat (rcv_wnd k)" by blast
  then show ?thesis using j unfolding reads_def advance_eq [OF inv n'] by blast
qed

lemma reads_recv:
  assumes r: "reads mss ms (length got) n k" and got: "got = take (length got) ms" and ok: "sendable mss ms"
    and k': "kcp_recv len k = (c, bytes, k')"
  defines "got' \<equiv> if 0 \<le> c then got @ [bytes] else got"
  shows "reads mss ms (length got') (n + unat (rcv_nxt k' - rcv_nxt k)) k' \<and> got' = take (length got') ms"
proof -
  let ?j = "length got"
  show ?thesis
  proof (cases "peeksize k < 0 \<or> len < peeksize k")
    case True
    then have "kcp_recv len k = (if peeksize k < 0 then - 1 else - 2, [], k)"
      by (cases "peeksize k < 0") (simp_all add: kcp_recv_def Let_def)
    then have "k' = k" "got' = got" using k' by (auto simp: got'_def split: if_splits)
    then show ?thesis using r got by simp
  next
    case False
    then have ne: "rcv_queue k \<noteq> []" and full: "frag_count mss (ms ! ?j) \<le> length (rcv_queue k)"
      using peeksize_incomplete [OF r ok] by (force simp: not_less)+
    have len: "int (length (ms ! ?j)) \<le> len"
      using False carries_stream_len(1) [OF r ok full ne] by simp
    from kcp_recv_message [OF r ok len full ne] k' obtain n' where n':
      "c = int (length (ms ! ?j))" "bytes = ms ! ?j" "reads mss ms (Suc ?j) n' k'" "n \<le> n'"
      "n' \<le> n + unat (rcv_wnd k)" by auto
    have j: "?j < length ms" using reads_front(1) [OF r ok ne] .
    have adv: "n + unat (rcv_nxt k' - rcv_nxt k) = n'"
      by (rule advance_eq [OF r [unfolded reads_def, THEN conjunct2] n'(3) [unfolded reads_def, THEN conjunct2] n'(4,5)])
    have e: "got' = got @ [ms ! ?j]" using n'(1,2) by (simp add: got'_def)
    have l: "length (got @ [ms ! ?j]) = Suc ?j" by simp
    have "got @ [ms ! ?j] = take (Suc ?j) ms" using got j by (simp add: take_Suc_conv_app_nth)
    with n'(3) show ?thesis unfolding e l adv by blast
  qed
qed

lemma kcp_run_reads:
  assumes "kcp_run mss ms n got k" "sendable mss ms"
  shows "reads mss ms (length got) n k \<and> got = take (length got) ms"
  using assms(1)
proof (induction rule: kcp_run.induct)
  case (kr_start k)
  then show ?case by (auto simp: reads_def rx_inv_def stream_def intro!: exI [of _ "[]"])
next
  case (kr_input n got k d r k')
  then show ?case using reads_input [OF _ kr_input.hyps(2,3)] by blast
next
  case (kr_recv n got k len r bytes k')
  then show ?case using reads_recv [OF _ _ assms(2) kr_recv.hyps(2)] by blast
next
  case (kr_send n got k m r k')
  then have "rx_same k k'" using rx_same_send [of k m] by simp
  with kr_send.IH reads_same show ?case by blast
next
  case (kr_update n got k now outs k')
  then have "rx_same k k'" using rx_same_update [of k now] by simp
  with kr_update.IH reads_same show ?case by blast
qed

lemma kcp_run_queue:
  assumes "kcp_run mss ms n got k" "sendable mss ms"
  shows "length (stream mss (take (length got) ms)) + length (rcv_queue k) = n"
  using kcp_run_reads [OF assms] by (auto simp: reads_def rx_inv_def dest!: list_all2_lengthD)

subsection \<open>The wire format read back\<close>

definition header_of :: "ikcp_seg \<Rightarrow> ikcp_seg" where
  "header_of s = s\<lparr>seg_resendts := 0, seg_rto := 0, seg_fastack := 0, seg_xmit := 0, seg_data := []\<rparr>"

lemma drop_encode_more:
  "drop (n + 4) (encode32u v @ bs) = drop n bs" "drop (n + 2) (encode16u w @ bs) = drop n bs"
  "drop (n + 1) (encode8u b @ bs) = drop n bs"
  by (simp_all add: encode32u_def encode16u_def encode8u_def numeral_eq_Suc)

lemma decode_header_encode: "decode_header (ikcp_encode_seg s @ p) = header_of s"
proof -
  let ?d = "ikcp_encode_seg s @ p"
  note ed = ikcp_encode_seg_def append_assoc
  have "drop 4 ?d = encode8u (seg_cmd s) @ encode8u (seg_frg s) @ encode16u (seg_wnd s)
     @ encode32u (seg_ts s) @ encode32u (seg_sn s) @ encode32u (seg_una s) @ encode32u (seg_len s) @ p"
    by (simp only: ed drop_encode)
  moreover from this have "drop 5 ?d = encode8u (seg_frg s) @ encode16u (seg_wnd s)
     @ encode32u (seg_ts s) @ encode32u (seg_sn s) @ encode32u (seg_una s) @ encode32u (seg_len s) @ p"
    using drop_drop [of 1 4 ?d] by (simp add: encode8u_def)
  moreover from this have "drop 6 ?d = encode16u (seg_wnd s)
     @ encode32u (seg_ts s) @ encode32u (seg_sn s) @ encode32u (seg_una s) @ encode32u (seg_len s) @ p"
    using drop_drop [of 1 5 ?d] by (simp add: encode8u_def)
  moreover from this have "drop 8 ?d = encode32u (seg_ts s) @ encode32u (seg_sn s) @ encode32u (seg_una s)
     @ encode32u (seg_len s) @ p"
    using drop_drop [of 2 6 ?d] by simp
  moreover from this have "drop 12 ?d = encode32u (seg_sn s) @ encode32u (seg_una s) @ encode32u (seg_len s) @ p"
    using drop_drop [of 4 8 ?d] by simp
  moreover from this have "drop 16 ?d = encode32u (seg_una s) @ encode32u (seg_len s) @ p"
    using drop_drop [of 4 12 ?d] by simp
  moreover from this have "drop 20 ?d = encode32u (seg_len s) @ p"
    using drop_drop [of 4 16 ?d] by simp
  moreover have "decode32u ?d = seg_conv s" by (simp only: ed decode32u_encode32u)
  ultimately show ?thesis by (simp add: decode_header_def header_of_def ikcp_seg0_def)
qed

lemma parse_segs_encode:
  assumes "seg_conv s = conv" "seg_cmd s \<in> {IKCP_CMD_PUSH, IKCP_CMD_ACK, IKCP_CMD_WASK, IKCP_CMD_WINS}"
    and "unat (seg_len s) = length data"
  shows "parse_segs conv (ikcp_encode_seg s @ data @ rest)
    = (let (r, segs) = parse_segs conv rest in (r, (header_of s, data @ rest) # segs))"
  using assms
  by (subst parse_segs.simps) (auto simp: decode_header_encode header_of_def Let_def)

lemma parse_segs_Nil [simp]: "parse_segs conv [] = (0, [])"
  by (subst parse_segs.simps) (simp add: IKCP_OVERHEAD_def)

subsection \<open>The properties of the receiver\<close>

text \<open>
  Whatever datagrams the network loses, repeats, reorders or splits, and
  however the application interleaves its calls, the messages \<open>recv\<close> has returned
  are exactly the first messages the peer sent, whole and in order, across the
  wrap-around of the 32-bit numbers.
\<close>

theorem kcp_delivers_in_order:
  assumes "kcp_run mss ms n got k" "sendable mss ms"
  shows "got = take (length got) ms"
  using kcp_run_reads [OF assms] by blast

text \<open>A receiver of the two messages \<open>[1, 2]\<close> and \<open>[3]\<close> gets the datagram of the second one first.\<close>

definition demo_seg :: "nat \<Rightarrow> byte list \<Rightarrow> ikcp_seg" where
  "demo_seg i data = ikcp_seg0\<lparr>seg_conv := 9, seg_cmd := IKCP_CMD_PUSH, seg_wnd := 128, seg_sn := of_nat i,
     seg_len := of_nat (length data), seg_data := data\<rparr>"

definition demo_ms :: "byte list list" where
  "demo_ms = [[1, 2], [3]]"

lemma demo_stream: "stream 1376 demo_ms = [(0, [1, 2]), (0, [3])]"
  by (simp add: stream_def demo_ms_def msg_frags_def frag_count_def seg_frag_def ikcp_seg0_def Let_def)

lemma demo_sendable: "sendable 1376 demo_ms"
  by (simp add: sendable_def demo_ms_def frag_count_def)

abbreviation demo_dgram :: "nat \<Rightarrow> byte list" where
  "demo_dgram i \<equiv> ikcp_encode_seg (demo_seg i (demo_ms ! i)) @ demo_ms ! i"

lemma demo_parse:
  assumes "i < 2"
  shows "parse_segs 9 (demo_dgram i) = (0, [(header_of (demo_seg i (demo_ms ! i)), demo_ms ! i)])"
proof -
  have "parse_segs 9 (ikcp_encode_seg (demo_seg i (demo_ms ! i)) @ demo_ms ! i @ [])
     = (0, [(header_of (demo_seg i (demo_ms ! i)), demo_ms ! i @ [])])"
    using assms by (subst parse_segs_encode) (auto simp: demo_seg_def demo_ms_def less_2_cases_iff)
  then show ?thesis by simp
qed

lemma demo_honest:
  assumes "i < 2" "n \<le> 2" "kcp_conv k = 9" "rcv_wnd k = 128"
  shows "honest (stream 1376 demo_ms) n (demo_dgram i) k"
proof -
  have "honest (stream 1376 demo_ms) n (demo_dgram i) k \<longleftrightarrow>
    (\<exists>j. data_segment (stream 1376 demo_ms) j (header_of (demo_seg i (demo_ms ! i)), demo_ms ! i)
       \<and> j < n + 2 ^ 31 \<and> n + 2 * unat (rcv_wnd k) < j + 2 ^ 31)"
    unfolding honest_def assms(3) demo_parse [OF assms(1)] by (simp add: header_of_def demo_seg_def)
  moreover have "data_segment (stream 1376 demo_ms) i (header_of (demo_seg i (demo_ms ! i)), demo_ms ! i)"
    using assms(1) unfolding data_segment_def demo_stream carries_def
    by (auto simp: less_2_cases_iff header_of_def demo_seg_def demo_ms_def seg_frag_def ikcp_seg0_def)
  moreover have "i < n + 2 ^ 31" "n + 2 * unat (rcv_wnd k) < i + 2 ^ 31" using assms by auto
  ultimately show ?thesis by blast
qed

lemma demo_input:
  assumes "i < 2" "kcp_conv k = 9"
  shows "kcp_input (demo_dgram i) k =
    (let k1 = snd (snd (input_segment (header_of (demo_seg i (demo_ms ! i))) (demo_ms ! i) (False, 0, k)));
         f = fst (input_segment (header_of (demo_seg i (demo_ms ! i))) (demo_ms ! i) (False, 0, k));
         m = fst (snd (input_segment (header_of (demo_seg i (demo_ms ! i))) (demo_ms ! i) (False, 0, k)));
         k2 = (if f then parse_fastack m k1 else k1)
     in (0, if 0 < itimediff (snd_una k2) (snd_una k) then grow_cwnd k2 else k2))"
  using assms(2) by (simp add: kcp_input_def input_loop_eq demo_parse [OF assms(1)] Let_def split_def)

lemmas demo_eval = demo_seg_def demo_ms_def header_of_def input_segment_def ikcp_seg0_def ikcp_cmds
  ikcp_create_def parse_una_def shrink_buf_def parse_data_def move_rcv_buf_to_queue_def itimediff_def ikcp_consts
  kcp_recv_def peeksize_def

lemma demo_k0: "kcp_input (demo_dgram 1) (ikcp_create 9) =
    (0, (ikcp_create 9)\<lparr>rcv_buf := [(demo_seg 1 [3])], acklist := [(1, 0)]\<rparr>)"
proof -
  have "kcp_conv (ikcp_create 9) = 9" by (simp add: ikcp_create_def)
  then show ?thesis by (simp add: demo_input) (simp add: demo_eval Let_def)
qed

lemma demo_k1: "kcp_input (demo_dgram 0) ((ikcp_create 9)\<lparr>rcv_buf := [(demo_seg 1 [3])], acklist := [(1, 0)]\<rparr>) =
    (0, (ikcp_create 9)\<lparr>rcv_queue := [demo_seg 0 [1, 2], demo_seg 1 [3]], rcv_nxt := 2, acklist := [(1, 0), (0, 0)]\<rparr>)"
proof -
  have "kcp_conv ((ikcp_create 9)\<lparr>rcv_buf := [(demo_seg 1 [3])], acklist := [(1, 0)]\<rparr>) = 9"
    by (simp add: ikcp_create_def)
  then show ?thesis by (simp add: demo_input) (simp add: demo_eval Let_def)
qed

lemma demo_k2: "kcp_recv 10 ((ikcp_create 9)\<lparr>rcv_queue := [demo_seg 0 [1, 2], demo_seg 1 [3]], rcv_nxt := 2, acklist := a\<rparr>) =
    (2, [1, 2], (ikcp_create 9)\<lparr>rcv_queue := [demo_seg 1 [3]], rcv_nxt := 2, acklist := a\<rparr>)"
  by (simp add: demo_eval Let_def)

lemma demo_run: "kcp_run 1376 demo_ms 2 []
    ((ikcp_create 9)\<lparr>rcv_queue := [demo_seg 0 [1, 2], demo_seg 1 [3]], rcv_nxt := 2, acklist := [(1, 0), (0, 0)]\<rparr>)"
proof -
  have "kcp_run 1376 demo_ms 0 [] (ikcp_create 9)"
    by (rule kr_start) (simp_all add: ikcp_create_def ikcp_consts)
  from kr_input [OF this demo_honest demo_k0]
  have "kcp_run 1376 demo_ms 0 [] ((ikcp_create 9)\<lparr>rcv_buf := [(demo_seg 1 [3])], acklist := [(1, 0)]\<rparr>)"
    by (simp add: ikcp_create_def ikcp_consts)
  from kr_input [OF this demo_honest demo_k1] show ?thesis
    by (simp add: ikcp_create_def ikcp_consts flip: numeral_2_eq_2)
qed

lemma kcp_delivers_in_order_witness: "[[1, 2]] = take 1 demo_ms"
  using kcp_delivers_in_order [OF kr_recv [OF demo_run demo_k2] demo_sendable] by simp

text \<open>
  As soon as all fragments of the next message have arrived, \<open>recv\<close> with room for
  it returns exactly this message, and \<open>peeksize\<close> its length.
\<close>

theorem kcp_recv_complete_message:
  assumes "kcp_run mss ms n got k" "sendable mss ms" "length got < length ms"
    and "length (stream mss (take (Suc (length got)) ms)) \<le> n" "int (length (ms ! length got)) \<le> len"
  shows "peeksize k = int (length (ms ! length got))
    \<and> (\<exists>k'. kcp_recv len k = (int (length (ms ! length got)), ms ! length got, k'))"
proof -
  have r: "reads mss ms (length got) n k" using kcp_run_reads [OF assms(1,2)] by blast
  have mss: "0 < mss" using assms(2) by (simp add: sendable_def)
  have full: "frag_count mss (ms ! length got) \<le> length (rcv_queue k)"
    using kcp_run_queue [OF assms(1,2)] assms(4) length_stream_Suc [OF mss assms(3)] by linarith
  then have ne: "rcv_queue k \<noteq> []" using frag_count_bounds(2) [OF mss, of "ms ! length got"] by auto
  show ?thesis
    using carries_stream_len(1) [OF r assms(2) full ne] kcp_recv_message [OF r assms(2,5) full ne] by blast
qed

lemma kcp_recv_complete_message_witness:
  "\<exists>k'. kcp_recv 10 ((ikcp_create 9)\<lparr>rcv_queue := [demo_seg 0 [1, 2], demo_seg 1 [3]], rcv_nxt := 2,
     acklist := [(1, 0), (0, 0)]\<rparr>) = (2, [1, 2], k')"
proof -
  have "length (stream 1376 (take 1 demo_ms)) \<le> 2"
    by (simp add: stream_def demo_ms_def msg_frags_def frag_count_def)
  then show ?thesis
    using kcp_recv_complete_message [OF demo_run demo_sendable, of 10]
    by (simp add: demo_ms_def del: take_Suc_Cons)
qed

text \<open>
  C27: while the receive queue has room, a datagram that contains the next expected
  fragment makes the receiver advance, also when it repeats older fragments.
\<close>

theorem kcp_next_fragment_advances:
  assumes "kcp_run mss ms n got k" "sendable mss ms" "honest (stream mss ms) n d k"
    and "hp \<in> set (snd (parse_segs (kcp_conv k) d))" "data_segment (stream mss ms) n hp"
    and "length (rcv_queue k) < unat (rcv_wnd k)" "kcp_input d k = (r, k')"
  shows "0 < unat (rcv_nxt k' - rcv_nxt k)"
proof -
  let ?m = "length (stream mss (take (length got) ms))"
  have inv: "rx_inv (stream mss ms) ?m n k" using kcp_run_reads [OF assms(1,2)] unfolding reads_def by blast
  have "IKCP_OVERHEAD \<le> length d"
    using assms(4) by (subst (asm) parse_segs.simps) (auto split: if_splits)
  moreover have "n < ?m + unat (rcv_wnd k)" using kcp_run_queue [OF assms(1,2)] assms(6) by linarith
  ultimately obtain n' where n': "rx_inv (stream mss ms) ?m n' k'" "n \<le> n'" "n' \<le> n + unat (rcv_wnd k)" "n < n'"
    using kcp_input_inv [OF inv assms(3,7)] assms(4,5) by blast
  show ?thesis using advance_eq [OF inv n'(1-3)] n'(4) by linarith
qed

lemma kcp_next_fragment_advances_witness:
  "0 < unat (rcv_nxt (snd (kcp_input (demo_dgram 0) (ikcp_create 9))) - rcv_nxt (ikcp_create 9))"
proof (rule kcp_next_fragment_advances [where n = 0 and got = "[]" and mss = 1376 and ms = demo_ms])
  show "kcp_run 1376 demo_ms 0 [] (ikcp_create 9)"
    by (rule kr_start) (simp_all add: ikcp_create_def ikcp_consts)
  show "honest (stream 1376 demo_ms) 0 (demo_dgram 0) (ikcp_create 9)"
    by (rule demo_honest) (simp_all add: ikcp_create_def ikcp_consts)
  show "(header_of (demo_seg 0 (demo_ms ! 0)), demo_ms ! 0) \<in> set (snd (parse_segs (kcp_conv (ikcp_create 9)) (demo_dgram 0)))"
    using demo_parse [of 0] by (simp add: ikcp_create_def)
  show "data_segment (stream 1376 demo_ms) 0 (header_of (demo_seg 0 (demo_ms ! 0)), demo_ms ! 0)"
    unfolding data_segment_def demo_stream carries_def
    by (auto simp: header_of_def demo_seg_def demo_ms_def seg_frag_def ikcp_seg0_def)
  show "kcp_input (demo_dgram 0) (ikcp_create 9) = (fst (kcp_input (demo_dgram 0) (ikcp_create 9)),
      snd (kcp_input (demo_dgram 0) (ikcp_create 9)))" by simp
qed (simp_all add: demo_sendable ikcp_create_def ikcp_consts)

text \<open>
  \<open>send\<close> accepts messages of up to 255 fragments whatever the window; a message of
  more fragments than the receive window (128 by default) is never complete in the
  peer's queue, so \<open>recv\<close> answers "nothing" for ever and with it every later message.
\<close>

theorem kcp_long_message_stalls:
  assumes "kcp_run mss ms n got k" "sendable mss ms" "length got < length ms"
    and "unat (rcv_wnd k) < frag_count mss (ms ! length got)"
  shows "kcp_recv len k = (- 1, [], k)"
proof -
  have r: "reads mss ms (length got) n k" using kcp_run_reads [OF assms(1,2)] by blast
  then have "length (rcv_queue k) \<le> unat (rcv_wnd k)" by (simp add: reads_def rx_inv_def)
  then have "peeksize k = - 1" using peeksize_incomplete [OF r assms(2)] assms(4) by simp
  then show ?thesis by (simp add: kcp_recv_def)
qed

lemma kcp_long_message_stalls_witness:
  "fst (kcp_send (replicate 129 7) ((ikcp_create 9)\<lparr>kcp_mss := 1\<rparr>)) = 0
   \<and> kcp_recv 1000 (ikcp_create 9) = (- 1, [], ikcp_create 9)"
proof
  have run: "kcp_run 1 [replicate 129 7] 0 [] (ikcp_create 9)"
    by (rule kr_start) (simp_all add: ikcp_create_def ikcp_consts)
  have "unat (rcv_wnd (ikcp_create 9)) < frag_count 1 (replicate 129 7)"
    by (simp add: ikcp_create_def ikcp_consts frag_count_def)
  then show "kcp_recv 1000 (ikcp_create 9) = (- 1, [], ikcp_create 9)"
    using kcp_long_message_stalls [OF run, of 1000] by (simp add: sendable_def frag_count_def)
  show "fst (kcp_send (replicate 129 7) ((ikcp_create 9)\<lparr>kcp_mss := 1\<rparr>)) = 0"
    by (simp add: kcp_send_def Let_def)
qed

end
