(* ===== verification/Ikcp_Send.thy ===== *)
theory Ikcp_Send
  imports Ikcp_Link
begin

section \<open>KCP: what the sender puts on the wire\<close>

subsection \<open>Segments in a datagram\<close>

definition wire :: "ikcp_seg \<Rightarrow> byte list" where
  "wire s = ikcp_encode_seg s @ seg_data s"

definition wf_seg :: "u32 \<Rightarrow> ikcp_seg \<Rightarrow> bool" where
  "wf_seg conv s \<longleftrightarrow> seg_conv s = conv \<and> unat (seg_len s) = length (seg_data s)
     \<and> seg_cmd s \<in> {IKCP_CMD_PUSH, IKCP_CMD_ACK, IKCP_CMD_WASK, IKCP_CMD_WINS}"

lemma length_wire: "wf_seg conv s \<Longrightarrow> length (wire s) = IKCP_OVERHEAD + unat (seg_len s)"
  by (simp add: wire_def wf_seg_def)

lemma input_segment_payload:
  "unat (seg_len h) = length data \<Longrightarrow> input_segment h (data @ rest) st = input_segment h data st"
  by (cases st) (simp add: input_segment_def Let_def)

lemma parse_segs_wire:
  "(\<And>s. s \<in> set ss \<Longrightarrow> wf_seg conv s) \<Longrightarrow>
   fst (parse_segs conv (concat (map wire ss))) = 0
   \<and> list_all2 (\<lambda>hp s. fst hp = header_of s \<and> (\<exists>rest. snd hp = seg_data s @ rest))
       (snd (parse_segs conv (concat (map wire ss)))) ss"
proof (induction ss)
  case (Cons s ss)
  then have "wf_seg conv s" by simp
  then have "parse_segs conv (wire s @ concat (map wire ss))
     = (let (r, segs) = parse_segs conv (concat (map wire ss)) in (r, (header_of s, seg_data s @ concat (map wire ss)) # segs))"
    unfolding wire_def append_assoc by (intro parse_segs_encode) (auto simp: wf_seg_def)
  with Cons show ?case by (auto simp: split_def Let_def)
qed simp

text \<open>
  C29: a datagram made of encoded segments is read back as exactly these segments:
  \<open>input\<close> processes their headers and payloads in order and reports no error.
\<close>

theorem kcp_datagram_roundtrip:
  assumes "\<And>s. s \<in> set ss \<Longrightarrow> wf_seg (kcp_conv (snd (snd st))) s"
  shows "input_loop (concat (map wire ss)) st
    = (0, fold (\<lambda>s. input_segment (header_of s) (seg_data s)) ss st)"
proof -
  let ?conv = "kcp_conv (snd (snd st))"
  obtain r segs where p: "parse_segs ?conv (concat (map wire ss)) = (r, segs)"
    by (cases "parse_segs ?conv (concat (map wire ss))")
  note w = parse_segs_wire [of ss ?conv, OF assms, unfolded p, simplified]
  have "fold (\<lambda>hp. input_segment (fst hp) (snd hp)) segs st'
      = fold (\<lambda>s. input_segment (header_of s) (seg_data s)) ss st'" for st'
    using w [THEN conjunct2] assms
  proof (induction segs ss arbitrary: st' rule: list_all2_induct)
    case (Cons hp segs s ss)
    then obtain rest where "fst hp = header_of s" "snd hp = seg_data s @ rest" by blast
    moreover have "unat (seg_len (header_of s)) = length (seg_data s)"
      using Cons.prems [of s] by (simp add: wf_seg_def header_of_def)
    ultimately show ?case using Cons by (simp add: input_segment_payload)
  qed simp
  with w show ?thesis by (simp add: input_loop_eq p)
qed

lemma kcp_datagram_roundtrip_witness:
  "fst (input_loop (concat (map wire [demo_seg 1 [3], demo_seg 0 [1, 2]])) (False, 0, ikcp_create 9)) = 0"
  by (subst kcp_datagram_roundtrip) (auto simp: wf_seg_def demo_seg_def ikcp_seg0_def ikcp_create_def)

subsection \<open>The writer of flush\<close>

text \<open>
  \<open>staged mtu conv w parts\<close>: the writer holds the segments of \<open>parts\<close>, grouped into the
  datagrams already output and, last, the one being staged.
\<close>

definition staged :: "u32 \<Rightarrow> u32 \<Rightarrow> writer \<Rightarrow> ikcp_seg list list \<Rightarrow> bool" where
  "staged mtu conv w parts \<longleftrightarrow> snd w @ [fst w] = map (\<lambda>ss. concat (map wire ss)) parts
     \<and> (\<forall>ss \<in> set parts. \<forall>s \<in> set ss. wf_seg conv s)
     \<and> (\<forall>d \<in> set (snd w @ [fst w]). int (length d) \<le> sint mtu) \<and> [] \<notin> set (snd w)"

lemma staged_put:
  assumes st: "staged mtu conv w parts" and s: "wf_seg conv s" "int (length (wire s)) \<le> sint mtu"
  shows "\<exists>parts'. staged mtu conv (put mtu (wire s) w) parts' \<and> concat parts' = concat parts @ [s]"
proof -
  obtain ptr outs where w: "w = (ptr, outs)" by (cases w)
  have ne: "parts \<noteq> []" using st by (auto simp: staged_def)
  then obtain init cur where parts: "parts = init @ [cur]" by (cases parts rule: rev_cases) auto
  have pieces: "outs = map (\<lambda>ss. concat (map wire ss)) init" "ptr = concat (map wire cur)"
    using st by (auto simp: staged_def w parts)
  show ?thesis
  proof (cases "sint mtu < int (length ptr + length (wire s))")
    case True
    then have "put mtu (wire s) w = (wire s, outs @ [ptr])" by (simp add: put_def make_room_def w)
    moreover have "ptr \<noteq> []" using True s(2) by auto
    ultimately have "staged mtu conv (put mtu (wire s) w) (parts @ [[s]])"
      using st s pieces by (auto simp: staged_def w parts)
    then show ?thesis by (intro exI [of _ "parts @ [[s]]"]) simp
  next
    case False
    then have "put mtu (wire s) w = (ptr @ wire s, outs)" by (simp add: put_def make_room_def w)
    then have "staged mtu conv (put mtu (wire s) w) (init @ [cur @ [s]])"
      using st s pieces False by (auto simp: staged_def w parts)
    then show ?thesis by (intro exI [of _ "init @ [cur @ [s]]"]) (simp add: parts)
  qed
qed

text \<open>The segments of the acknowledgement and probe parts of \<open>flush\<close>.\<close>

definition ack_segs :: "ikcp \<Rightarrow> ikcp_seg list" where
  "ack_segs k = map (\<lambda>(sn, ts). (ack_seg k)\<lparr>seg_sn := sn, seg_ts := ts\<rparr>) (acklist k)"

definition probe_segs :: "ikcp \<Rightarrow> u16 \<Rightarrow> ikcp_seg list" where
  "probe_segs k wnd =
     (let seg = ikcp_seg0\<lparr>seg_conv := kcp_conv k, seg_wnd := wnd, seg_una := rcv_nxt k\<rparr> in
      (if kcp_probe k AND IKCP_ASK_SEND \<noteq> 0 then [seg\<lparr>seg_cmd := IKCP_CMD_WASK\<rparr>] else [])
      @ (if kcp_probe k AND IKCP_ASK_TELL \<noteq> 0 then [seg\<lparr>seg_cmd := IKCP_CMD_WINS\<rparr>] else []))"

lemma staged_puts:
  "staged mtu conv w parts \<Longrightarrow> (\<And>s. s \<in> set ss \<Longrightarrow> wf_seg conv s \<and> int (length (wire s)) \<le> sint mtu) \<Longrightarrow>
   \<exists>parts'. staged mtu conv (fold (\<lambda>s. put mtu (wire s)) ss w) parts' \<and> concat parts' = concat parts @ ss"
proof (induction ss arbitrary: w parts)
  case (Cons s ss)
  from staged_put [OF Cons.prems(1)] Cons.prems(2) obtain parts1 where
    p1: "staged mtu conv (put mtu (wire s) w) parts1" "concat parts1 = concat parts @ [s]"
    by (metis list.set_intros(1))
  from Cons.IH [OF p1(1)] Cons.prems(2) obtain parts2 where
    "staged mtu conv (fold (\<lambda>s. put mtu (wire s)) ss (put mtu (wire s) w)) parts2" "concat parts2 = concat parts1 @ ss"
    by auto
  with p1(2) show ?case by auto
qed auto

lemma flush_acks_fold:
  "seg_data seg = [] \<Longrightarrow> flush_acks mtu seg acks w
    = fold (\<lambda>s. put mtu (wire s)) (map (\<lambda>(sn, ts). seg\<lparr>seg_sn := sn, seg_ts := ts\<rparr>) acks) w"
  by (induction mtu seg acks w rule: flush_acks.induct) (auto simp: wire_def)

lemma flush_probes_fold:
  "flush_probes k wnd w = fold (\<lambda>s. put (kcp_mtu k) (wire s)) (probe_segs k wnd) w"
  by (simp add: flush_probes_def probe_segs_def Let_def wire_def ikcp_seg0_def)

text \<open>The data segments one \<open>flush\<close> sends: those of \<open>snd_buf\<close> whose \<open>needsend\<close> is set, as updated.\<close>

definition sent_segs :: "ikcp \<Rightarrow> u32 \<Rightarrow> u32 \<Rightarrow> u16 \<Rightarrow> ikcp_seg list \<Rightarrow> ikcp_seg list" where
  "sent_segs k resent rtomin wnd segs = List.map_filter (\<lambda>seg. map_option
     (\<lambda>r. (snd r)\<lparr>seg_ts := kcp_current k, seg_wnd := wnd, seg_una := rcv_nxt k\<rparr>)
     (resend_seg k resent rtomin seg)) segs"

lemma resend_seg_frame:
  "resend_seg k resent rtomin seg = Some (why, seg') \<Longrightarrow> seg_len seg' = seg_len seg \<and> seg_data seg' = seg_data seg
     \<and> seg_conv seg' = seg_conv seg \<and> seg_cmd seg' = seg_cmd seg \<and> seg_sn seg' = seg_sn seg \<and> seg_frg seg' = seg_frg seg"
  by (auto simp: resend_seg_def Let_def split: if_splits)

lemma flush_segs_writer:
  assumes "\<And>s. s \<in> set segs \<Longrightarrow> unat (seg_len s) = length (seg_data s)"
  shows "fa_writer (snd (flush_segs k resent rtomin wnd segs a))
    = fold (\<lambda>s. put (kcp_mtu k) (wire s)) (sent_segs k resent rtomin wnd segs) (fa_writer a)"
  using assms
proof (induction segs arbitrary: a)
  case (Cons seg segs)
  show ?case
  proof (cases "resend_seg k resent rtomin seg")
    case (Some r)
    obtain why seg' where r: "r = (why, seg')" by (cases r)
    have "unat (seg_len seg') = length (seg_data seg')"
      using resend_seg_frame [OF Some [unfolded r]] Cons.prems [of seg] by simp
    then have "(if 0 < seg_len seg' then take (unat (seg_len seg')) (seg_data seg') else []) = seg_data seg'"
      by (auto simp: word_gt_0)
    then have bytes: "ikcp_encode_seg s @ (if 0 < seg_len s then take (unat (seg_len s)) (seg_data s) else []) = wire s"
      if "seg_len s = seg_len seg'" "seg_data s = seg_data seg'" for s
      using that unfolding wire_def by (simp only:)
    let ?s = "seg'\<lparr>seg_ts := kcp_current k, seg_wnd := wnd, seg_una := rcv_nxt k\<rparr>"
    have "fa_writer (snd (flush_seg k resent rtomin wnd seg a)) = put (kcp_mtu k) (wire ?s) (fa_writer a)"
      unfolding flush_seg_def Some r option.case prod.case Let_def snd_conv flush_acc.simps
      by (subst bytes) simp_all
    with Some r Cons show ?thesis by (simp add: sent_segs_def map_filter_simps split_def Let_def)
  qed (use Cons in \<open>simp add: flush_seg_def sent_segs_def map_filter_simps Let_def split_def\<close>)
qed (simp add: sent_segs_def map_filter_simps)

subsection \<open>Well-formed sender state\<close>

definition fits :: "ikcp \<Rightarrow> ikcp_seg \<Rightarrow> bool" where
  "fits k s \<longleftrightarrow> unat (seg_len s) = length (seg_data s) \<and> int (length (seg_data s)) \<le> sint (kcp_mss k)"

definition tx_wf :: "ikcp \<Rightarrow> bool" where
  "tx_wf k \<longleftrightarrow> 0 < sint (kcp_mss k) \<and> int IKCP_OVERHEAD + sint (kcp_mss k) \<le> sint (kcp_mtu k)
     \<and> (\<forall>s \<in> set (snd_queue k). fits k s)
     \<and> (\<forall>s \<in> set (snd_buf k). fits k s \<and> wf_seg (kcp_conv k) s)"

lemma tx_wf_create: "tx_wf (ikcp_create conv)"
  by (simp add: tx_wf_def ikcp_create_def ikcp_consts)

lemma tx_wf_wire: "tx_wf k \<Longrightarrow> fits k s \<Longrightarrow> wf_seg conv s \<Longrightarrow> int (length (wire s)) \<le> sint (kcp_mtu k)"
  by (simp add: tx_wf_def fits_def length_wire)

lemma tx_wf_send:
  assumes "tx_wf k" "kcp_send m k = (r, k')"
  shows "tx_wf k'"
proof -
  have mss: "0 < sint (kcp_mss k)" using assms(1) by (simp add: tx_wf_def)
  have "fits k s" if elem: "s \<in> set (send_loop c (sint (kcp_mss k)) n m)" for s c n
  proof -
    obtain i where i: "i < n" "s = send_loop c (sint (kcp_mss k)) n m ! i"
      using elem by (auto simp: in_set_conv_nth)
    let ?d = "take (nat (sint (kcp_mss k))) (drop (i * nat (sint (kcp_mss k))) m)"
    have le: "length ?d \<le> nat (sint (kcp_mss k))" by simp
    then have "int (length ?d) \<le> sint (kcp_mss k)" using mss by (simp only: le_nat_iff)
    moreover have "nat (sint (kcp_mss k)) < 2 ^ 32"
      using sint_less [of "kcp_mss k"] by (simp add: nat_less_iff)
    then have "length ?d < 2 ^ 32" using le by linarith
    then have "unat (of_nat (length ?d) :: u32) = length ?d" by (simp add: unat_of_nat)
    moreover have "seg_data s = ?d" "seg_len s = of_nat (length ?d)"
      using send_loop_seg [OF i(1) mss, of c m] i(2) by blast+
    ultimately show ?thesis by (simp only: fits_def)
  qed
  with assms show ?thesis
    by (auto simp: tx_wf_def kcp_send_def Let_def fits_def simp del: send_loop.simps split: if_splits)
qed

lemma admit_loop_wf:
  assumes "tx_wf k" "\<forall>s \<in> set q. fits k s"
  shows "tx_wf (admit_loop win wnd q k) \<and> kcp_mss (admit_loop win wnd q k) = kcp_mss k
    \<and> kcp_mtu (admit_loop win wnd q k) = kcp_mtu k \<and> kcp_conv (admit_loop win wnd q k) = kcp_conv k"
  using assms
proof (induction win wnd q k rule: admit_loop.induct)
  case (1 win wnd k)
  then show ?case by (simp add: tx_wf_def fits_def)
next
  case (2 win wnd seg rest k)
  show ?case
  proof (cases "itimediff (snd_nxt k) (snd_una k + win) < 0")
    case True
    let ?seg = "seg\<lparr>seg_conv := kcp_conv k, seg_cmd := IKCP_CMD_PUSH, seg_wnd := wnd,
               seg_ts := kcp_current k, seg_sn := snd_nxt k, seg_una := rcv_nxt k,
               seg_resendts := kcp_current k, seg_rto := rx_rto k, seg_fastack := 0, seg_xmit := 0\<rparr>"
    let ?k = "k\<lparr>snd_nxt := snd_nxt k + 1, snd_buf := snd_buf k @ [?seg]\<rparr>"
    have "fits k ?seg \<and> wf_seg (kcp_conv k) ?seg" using "2.prems"(2) by (simp add: fits_def wf_seg_def)
    then have "tx_wf ?k" using "2.prems"(1) by (auto simp: tx_wf_def fits_def)
    then show ?thesis
      using "2.IH" [OF True refl] "2.prems"(2) True by (auto simp: fits_def Let_def)
  next
    case False
    then show ?thesis using "2.prems" by (simp add: tx_wf_def fits_def)
  qed
qed

lemma flush_segs_buf:
  "fst (flush_segs k resent rtomin wnd segs a) = map (\<lambda>seg. case resend_seg k resent rtomin seg of
     None \<Rightarrow> seg | Some r \<Rightarrow> (snd r)\<lparr>seg_ts := kcp_current k, seg_wnd := wnd, seg_una := rcv_nxt k\<rparr>) segs"
  by (induction segs arbitrary: a) (auto simp: flush_seg_def Let_def split_def split: option.splits)

lemma congestion_frame [simp]:
  "snd_buf (congestion l c r w k) = snd_buf k" "snd_queue (congestion l c r w k) = snd_queue k"
  "kcp_mss (congestion l c r w k) = kcp_mss k" "kcp_mtu (congestion l c r w k) = kcp_mtu k"
  "kcp_conv (congestion l c r w k) = kcp_conv k" "snd_una (congestion l c r w k) = snd_una k"
  "snd_nxt (congestion l c r w k) = snd_nxt k" "acklist (congestion l c r w k) = acklist k"
  "kcp_probe (congestion l c r w k) = kcp_probe k"
  by (simp_all add: congestion_def Let_def)

text \<open>The parts of \<open>flush\<close> named, for the lemmas about it.\<close>

definition flush_mid :: "ikcp \<Rightarrow> ikcp" where
  "flush_mid k = (let k2 = (probe_window (k\<lparr>acklist := []\<rparr>))\<lparr>kcp_probe := 0\<rparr>
     in admit_loop (send_window k2) (seg_wnd (ack_seg k)) (snd_queue k2) k2)"

definition resent_of :: "ikcp \<Rightarrow> u32" where
  "resent_of k = (if 0 < fastresend k then fastresend k else 0xffffffff)"

definition rtomin_of :: "ikcp \<Rightarrow> u32" where
  "rtomin_of k = (if nodelay k = 0 then drop_bit 3 (rx_rto k) else 0)"

definition flush_result :: "ikcp \<Rightarrow> ikcp_seg list \<times> flush_acc" where
  "flush_result k =
     (let k1 = probe_window (k\<lparr>acklist := []\<rparr>); k3 = flush_mid k; wnd = seg_wnd (ack_seg k);
          w1 = flush_acks (kcp_mtu k) (ack_seg k) (acklist k) ([], [])
      in flush_segs k3 (resent_of k3) (rtomin_of k3) wnd (snd_buf k3)
           \<lparr>fa_writer = flush_probes k1 wnd w1, fa_lost = False, fa_change = False,
             fa_xmit = kcp_xmit k3, fa_state = kcp_state k3\<rparr>)"

lemma kcp_flush_eq:
  assumes "kcp_updated k \<noteq> 0"
  shows "kcp_flush k =
    (let a = snd (flush_result k); (ptr, outs) = fa_writer a in
     (if ptr \<noteq> [] then outs @ [ptr] else outs,
      congestion (fa_lost a) (fa_change a) (resent_of (flush_mid k))
        (send_window ((probe_window (k\<lparr>acklist := []\<rparr>))\<lparr>kcp_probe := 0\<rparr>))
        ((flush_mid k)\<lparr>snd_buf := fst (flush_result k), kcp_xmit := fa_xmit a, kcp_state := fa_state a\<rparr>)))"
  using assms
  by (simp add: kcp_flush_def flush_result_def flush_mid_def resent_of_def rtomin_of_def Let_def split_def)

lemma probe_window_frame [simp]:
  "snd_buf (probe_window k) = snd_buf k" "snd_queue (probe_window k) = snd_queue k"
  "kcp_mss (probe_window k) = kcp_mss k" "kcp_mtu (probe_window k) = kcp_mtu k"
  "kcp_conv (probe_window k) = kcp_conv k" "snd_una (probe_window k) = snd_una k"
  "snd_nxt (probe_window k) = snd_nxt k" "acklist (probe_window k) = acklist k"
  "kcp_current (probe_window k) = kcp_current k" "rcv_nxt (probe_window k) = rcv_nxt k"
  "snd_wnd (probe_window k) = snd_wnd k" "rmt_wnd (probe_window k) = rmt_wnd k"
  "cwnd (probe_window k) = cwnd k" "nocwnd (probe_window k) = nocwnd k"
  "rx_rto (probe_window k) = rx_rto k" "rx_minrto (probe_window k) = rx_minrto k"
  by (simp_all add: probe_window_def Let_def)

lemma flush_mid_wf:
  assumes "tx_wf k"
  shows "tx_wf (flush_mid k)" "kcp_mss (flush_mid k) = kcp_mss k" "kcp_mtu (flush_mid k) = kcp_mtu k"
    "kcp_conv (flush_mid k) = kcp_conv k"
proof -
  let ?k2 = "(probe_window (k\<lparr>acklist := []\<rparr>))\<lparr>kcp_probe := 0\<rparr>"
  have "tx_wf ?k2" using assms by (simp add: tx_wf_def fits_def)
  moreover have "\<forall>s \<in> set (snd_queue ?k2). fits ?k2 s" using assms by (simp add: tx_wf_def fits_def)
  ultimately show "tx_wf (flush_mid k)" "kcp_mss (flush_mid k) = kcp_mss k" "kcp_mtu (flush_mid k) = kcp_mtu k"
    "kcp_conv (flush_mid k) = kcp_conv k"
    using admit_loop_wf [of ?k2 "snd_queue ?k2"] by (auto simp: flush_mid_def Let_def)
qed

lemma tx_wf_flush:
  assumes "tx_wf k"
  shows "tx_wf (snd (kcp_flush k))"
proof (cases "kcp_updated k = 0")
  case True
  with assms show ?thesis by (simp add: kcp_flush_def)
next
  case False
  have seg: "fits k' s' \<and> wf_seg c s'"
    if "fits k' s" "wf_seg c s" "resend_seg k3 resent rtomin s = Some (why, s')" for k' s s' c k3 resent rtomin why
    using that resend_seg_frame [OF that(3)] by (simp add: fits_def wf_seg_def)
  have "\<forall>s \<in> set (fst (flush_result k)). fits (flush_mid k) s \<and> wf_seg (kcp_conv (flush_mid k)) s"
  proof
    fix s
    assume "s \<in> set (fst (flush_result k))"
    then obtain s0 where s0: "s0 \<in> set (snd_buf (flush_mid k))"
      "s = (case resend_seg (flush_mid k) (resent_of (flush_mid k)) (rtomin_of (flush_mid k)) s0 of
        None \<Rightarrow> s0 | Some r \<Rightarrow> (snd r)\<lparr>seg_ts := kcp_current (flush_mid k), seg_wnd := seg_wnd (ack_seg k),
          seg_una := rcv_nxt (flush_mid k)\<rparr>)"
      by (auto simp: flush_result_def flush_segs_buf Let_def)
    have "fits (flush_mid k) s0" "wf_seg (kcp_conv (flush_mid k)) s0"
      using s0(1) flush_mid_wf(1) [OF assms] by (auto simp: tx_wf_def)
    note s0' = seg [OF this]
    show "fits (flush_mid k) s \<and> wf_seg (kcp_conv (flush_mid k)) s"
    proof (cases "resend_seg (flush_mid k) (resent_of (flush_mid k)) (rtomin_of (flush_mid k)) s0")
      case None
      then show ?thesis using s0(2) \<open>fits (flush_mid k) s0\<close> \<open>wf_seg (kcp_conv (flush_mid k)) s0\<close> by simp
    next
      case (Some r)
      then have "fits (flush_mid k) (snd r) \<and> wf_seg (kcp_conv (flush_mid k)) (snd r)"
        by (intro s0' [of _ _ _ "fst r"]) simp
      then show ?thesis using s0(2) Some by (simp add: fits_def wf_seg_def)
    qed
  qed
  moreover have "snd_buf (snd (kcp_flush k)) = fst (flush_result k)"
    "snd_queue (snd (kcp_flush k)) = snd_queue (flush_mid k)" "kcp_mss (snd (kcp_flush k)) = kcp_mss (flush_mid k)"
    "kcp_mtu (snd (kcp_flush k)) = kcp_mtu (flush_mid k)" "kcp_conv (snd (kcp_flush k)) = kcp_conv (flush_mid k)"
    using False by (simp_all add: kcp_flush_eq Let_def split_def)
  ultimately show ?thesis
    using flush_mid_wf(1) [OF assms] unfolding tx_wf_def fits_def by (simp only:) blast
qed

lemma tx_frame [simp]:
  "kcp_mss (move_rcv_buf_to_queue k) = kcp_mss k" "kcp_mtu (move_rcv_buf_to_queue k) = kcp_mtu k"
  "snd_queue (move_rcv_buf_to_queue k) = snd_queue k" "snd_buf (move_rcv_buf_to_queue k) = snd_buf k"
  "kcp_mss (parse_data s k) = kcp_mss k" "kcp_mtu (parse_data s k) = kcp_mtu k"
  "snd_queue (parse_data s k) = snd_queue k" "snd_buf (parse_data s k) = snd_buf k"
  "kcp_mss (shrink_buf k) = kcp_mss k" "kcp_mtu (shrink_buf k) = kcp_mtu k"
  "snd_queue (shrink_buf k) = snd_queue k" "snd_buf (shrink_buf k) = snd_buf k"
  "kcp_mss (update_ack i k) = kcp_mss k" "kcp_mtu (update_ack i k) = kcp_mtu k"
  "snd_queue (update_ack i k) = snd_queue k" "snd_buf (update_ack i k) = snd_buf k"
  "kcp_mss (grow_cwnd k) = kcp_mss k" "kcp_mtu (grow_cwnd k) = kcp_mtu k"
  "snd_queue (grow_cwnd k) = snd_queue k" "snd_buf (grow_cwnd k) = snd_buf k"
  "kcp_conv (grow_cwnd k) = kcp_conv k" "kcp_conv (parse_fastack u k) = kcp_conv k"
  by (simp_all add: move_rcv_buf_to_queue_def parse_data_def shrink_buf_def update_ack_def grow_cwnd_def
      parse_fastack_def Let_def split_def split: option.splits)

lemma tx_wf_frame:
  assumes "tx_wf k" "kcp_mss k' = kcp_mss k" "kcp_mtu k' = kcp_mtu k" "kcp_conv k' = kcp_conv k"
    "snd_queue k' = snd_queue k" "set (snd_buf k') \<subseteq> set (snd_buf k)"
  shows "tx_wf k'"
  using assms by (auto simp: tx_wf_def fits_def)

lemma tx_wf_parse:
  "tx_wf k \<Longrightarrow> tx_wf (parse_una u k)" "tx_wf k \<Longrightarrow> tx_wf (parse_ack u k)" "tx_wf k \<Longrightarrow> tx_wf (shrink_buf k)"
  "tx_wf k \<Longrightarrow> tx_wf (update_ack i k)" "tx_wf k \<Longrightarrow> tx_wf (parse_data s k)" "tx_wf k \<Longrightarrow> tx_wf (grow_cwnd k)"
proof -
  show "tx_wf k \<Longrightarrow> tx_wf (parse_una u k)" by (erule tx_wf_frame) (auto simp: parse_una_def)
  show "tx_wf k \<Longrightarrow> tx_wf (parse_ack u k)" by (erule tx_wf_frame) (auto simp: parse_ack_def)
  show "tx_wf k \<Longrightarrow> tx_wf (shrink_buf k)" by (erule tx_wf_frame) auto
  show "tx_wf k \<Longrightarrow> tx_wf (update_ack i k)" by (erule tx_wf_frame) auto
  show "tx_wf k \<Longrightarrow> tx_wf (parse_data s k)" by (erule tx_wf_frame) auto
  show "tx_wf k \<Longrightarrow> tx_wf (grow_cwnd k)" by (erule tx_wf_frame) auto
qed

lemma fastack_loop_elem: "s \<in> set (fastack_loop sn segs) \<Longrightarrow> \<exists>s0 \<in> set segs. \<exists>n. s = s0\<lparr>seg_fastack := n\<rparr>"
proof (induction sn segs rule: fastack_loop.induct)
  case (2 sn seg rest)
  have id: "t = t\<lparr>seg_fastack := seg_fastack t\<rparr>" for t :: ikcp_seg by simp
  from 2 id show ?case
    by (auto split: if_splits) (metis id)+
qed simp

lemma tx_wf_fastack: "tx_wf k \<Longrightarrow> tx_wf (parse_fastack u k)"
  by (auto simp: tx_wf_def parse_fastack_def fits_def wf_seg_def dest!: fastack_loop_elem)

lemma tx_wf_segment: "tx_wf (snd (snd st)) \<Longrightarrow> tx_wf (snd (snd (input_segment h p st)))"
proof -
  assume wf: "tx_wf (snd (snd st))"
  obtain flag maxack k where st: "st = (flag, maxack, k)" by (cases st)
  have k1: "tx_wf (shrink_buf (parse_una (seg_una h) (k\<lparr>rmt_wnd := ucast (seg_wnd h)\<rparr>)))"
    using wf by (intro tx_wf_parse(1,3)) (simp add: st tx_wf_def fits_def)
  have acks: "tx_wf (k'\<lparr>acklist := a\<rparr>)" "tx_wf (k'\<lparr>kcp_probe := p\<rparr>)" if "tx_wf k'" for k' a p
    using that by (simp_all add: tx_wf_def fits_def)
  show ?thesis
    unfolding input_segment_def st Let_def using k1 by (auto intro!: tx_wf_parse acks)
qed

lemma tx_wf_input:
  assumes "tx_wf k" "kcp_input d k = (r, k')"
  shows "tx_wf k'"
proof -
  have fold: "tx_wf (snd (snd st)) \<Longrightarrow> tx_wf (snd (snd (fold (\<lambda>hp. input_segment (fst hp) (snd hp)) segs st)))" for segs st
  proof (induction segs arbitrary: st)
    case (Cons hp segs)
    from Cons.IH [OF tx_wf_segment [OF Cons.prems]] show ?case by simp
  qed simp
  obtain c segs where p: "parse_segs (kcp_conv k) d = (c, segs)" by (cases "parse_segs (kcp_conv k) d")
  let ?st = "fold (\<lambda>hp. input_segment (fst hp) (snd hp)) segs (False, 0, k)"
  let ?k2 = "if fst ?st then parse_fastack (fst (snd ?st)) (snd (snd ?st)) else snd (snd ?st)"
  have "k' \<in> {k, snd (snd ?st), ?k2, grow_cwnd ?k2}"
    using assms(2) by (auto simp: kcp_input_def input_loop_eq p Let_def split_def split: if_splits)
  moreover have "tx_wf (snd (snd ?st))" using fold [of "(False, 0, k)" segs] assms(1) by simp
  ultimately show ?thesis using assms(1) tx_wf_fastack tx_wf_parse(6) by (elim insertE emptyE) simp_all
qed

lemma tx_wf_recv:
  assumes "tx_wf k" "kcp_recv len k = (r, b, k')"
  shows "tx_wf k'"
  using assms by (intro tx_wf_frame [OF assms(1)]) (auto simp: kcp_recv_def Let_def split_def split: if_splits)

lemma tx_wf_update:
  assumes "tx_wf k" "kcp_update now k = (outs, k')"
  shows "tx_wf k'"
proof -
  have clock: "tx_wf (k'\<lparr>kcp_current := a\<rparr>) = tx_wf k'" "tx_wf (k'\<lparr>ts_flush := a\<rparr>) = tx_wf k'"
    "tx_wf (k'\<lparr>kcp_updated := a\<rparr>) = tx_wf k'" for k' a
    by (simp_all add: tx_wf_def fits_def)
  have "tx_wf (snd (kcp_update now k))"
    unfolding kcp_update_def Let_def using assms(1)
    by (simp add: tx_wf_flush clock)
  with assms(2) show ?thesis by simp
qed

subsection \<open>What flush outputs\<close>

lemma ack_segs_wf:
  "s \<in> set (ack_segs k) \<Longrightarrow> wf_seg (kcp_conv k) s \<and> seg_len s = 0"
  by (auto simp: ack_segs_def ack_seg_def wf_seg_def ikcp_seg0_def)

lemma probe_segs_wf:
  "s \<in> set (probe_segs k wnd) \<Longrightarrow> wf_seg (kcp_conv k) s \<and> seg_len s = 0"
  by (auto simp: probe_segs_def Let_def wf_seg_def ikcp_seg0_def split: if_splits)

lemma sent_segs_elem:
  "s \<in> set (sent_segs k resent rtomin wnd segs) \<Longrightarrow> \<exists>s0 \<in> set segs. seg_len s = seg_len s0 \<and> seg_data s = seg_data s0
     \<and> seg_conv s = seg_conv s0 \<and> seg_cmd s = seg_cmd s0 \<and> seg_sn s = seg_sn s0 \<and> seg_frg s = seg_frg s0"
proof -
  assume "s \<in> set (sent_segs k resent rtomin wnd segs)"
  then obtain s0 r where "s0 \<in> set segs" "resend_seg k resent rtomin s0 = Some r"
    "s = (snd r)\<lparr>seg_ts := kcp_current k, seg_wnd := wnd, seg_una := rcv_nxt k\<rparr>"
    by (auto simp: sent_segs_def List.map_filter_def)
  then show ?thesis using resend_seg_frame [of k resent rtomin s0 "fst r" "snd r"]
    by (intro bexI [of _ s0]) auto
qed

lemma sent_segs_subset:
  "set (sent_segs k resent rtomin wnd segs) \<subseteq> set (fst (flush_segs k resent rtomin wnd segs a))"
  by (force simp: sent_segs_def List.map_filter_def flush_segs_buf image_iff)

definition flush_data :: "ikcp \<Rightarrow> ikcp_seg list" where
  "flush_data k = sent_segs (flush_mid k) (resent_of (flush_mid k)) (rtomin_of (flush_mid k))
     (seg_wnd (ack_seg k)) (snd_buf (flush_mid k))"

lemma flush_writer:
  assumes "tx_wf k"
  shows "\<exists>parts. staged (kcp_mtu k) (kcp_conv k) (fa_writer (snd (flush_result k))) parts
    \<and> concat parts = ack_segs k @ probe_segs (probe_window (k\<lparr>acklist := []\<rparr>)) (seg_wnd (ack_seg k)) @ flush_data k"
proof -
  let ?k1 = "probe_window (k\<lparr>acklist := []\<rparr>)" and ?wnd = "seg_wnd (ack_seg k)" and ?mtu = "kcp_mtu k"
  let ?put = "\<lambda>ss w. fold (\<lambda>s. put ?mtu (wire s)) ss w"
  note mid = flush_mid_wf [OF assms]
  have mtu: "int IKCP_OVERHEAD \<le> sint ?mtu" using assms by (simp add: tx_wf_def)
  have small: "int (length (wire s)) \<le> sint ?mtu" if "wf_seg (kcp_conv k) s" "seg_len s = 0" for s
    using that mtu by (simp add: length_wire)
  have data: "wf_seg (kcp_conv k) s \<and> int (length (wire s)) \<le> sint ?mtu" if elem: "s \<in> set (flush_data k)" for s
  proof -
    obtain s0 where s0: "s0 \<in> set (snd_buf (flush_mid k))" "seg_len s = seg_len s0" "seg_data s = seg_data s0"
      "seg_conv s = seg_conv s0" "seg_cmd s = seg_cmd s0"
      using sent_segs_elem elem unfolding flush_data_def by blast
    then have "fits (flush_mid k) s" "wf_seg (kcp_conv k) s"
      using mid by (auto simp: tx_wf_def fits_def wf_seg_def)
    then show ?thesis using tx_wf_wire [OF mid(1)] mid(3) by metis
  qed
  have start: "staged ?mtu (kcp_conv k) ([], []) [[]]" using mtu by (simp add: staged_def)
  have "\<exists>parts. staged ?mtu (kcp_conv k) (?put (ack_segs k) ([], [])) parts \<and> concat parts = ack_segs k"
    using staged_puts [OF start, of "ack_segs k"] ack_segs_wf small by auto
  then obtain p1 where p1: "staged ?mtu (kcp_conv k) (?put (ack_segs k) ([], [])) p1" "concat p1 = ack_segs k" by blast
  have "\<And>s. s \<in> set (probe_segs ?k1 ?wnd) \<Longrightarrow> wf_seg (kcp_conv k) s \<and> int (length (wire s)) \<le> sint ?mtu"
    using probe_segs_wf [of _ ?k1] small by fastforce
  from staged_puts [OF p1(1) this] obtain p2 where
    p2: "staged ?mtu (kcp_conv k) (?put (probe_segs ?k1 ?wnd) (?put (ack_segs k) ([], []))) p2"
      "concat p2 = ack_segs k @ probe_segs ?k1 ?wnd" by (auto simp: p1(2))
  from staged_puts [OF p2(1) data] obtain p3 where
    p3: "staged ?mtu (kcp_conv k) (?put (flush_data k) (?put (probe_segs ?k1 ?wnd) (?put (ack_segs k) ([], [])))) p3"
      "concat p3 = ack_segs k @ probe_segs ?k1 ?wnd @ flush_data k" by (auto simp: p2(2))
  have "unat (seg_len s) = length (seg_data s)" if "s \<in> set (snd_buf (flush_mid k))" for s
    using mid(1) that by (simp add: tx_wf_def fits_def)
  note fs = flush_segs_writer [OF this]
  have acks: "flush_acks ?mtu (ack_seg k) (acklist k) ([], []) = ?put (ack_segs k) ([], [])"
    unfolding ack_segs_def by (rule flush_acks_fold) (simp add: ack_seg_def ikcp_seg0_def)
  have "fa_writer (snd (flush_result k)) = ?put (flush_data k) (?put (probe_segs ?k1 ?wnd) (?put (ack_segs k) ([], [])))"
    unfolding flush_result_def Let_def
    by (subst fs) (simp_all add: flush_data_def acks flush_probes_fold mid(3))
  with p3 show ?thesis by auto
qed

lemma flush_datagrams:
  assumes "tx_wf k" "kcp_updated k \<noteq> 0" "kcp_flush k = (outs, k')"
  shows "\<exists>parts. outs = map (\<lambda>ss. concat (map wire ss)) parts
     \<and> concat parts = ack_segs k @ probe_segs (probe_window (k\<lparr>acklist := []\<rparr>)) (seg_wnd (ack_seg k)) @ flush_data k
     \<and> (\<forall>s \<in> set (concat parts). wf_seg (kcp_conv k) s)
     \<and> (\<forall>d \<in> set outs. d \<noteq> [] \<and> int (length d) \<le> sint (kcp_mtu k))
     \<and> set (flush_data k) \<subseteq> set (snd_buf k') \<and> acklist k' = []"
proof -
  obtain ptr o' where w: "fa_writer (snd (flush_result k)) = (ptr, o')"
    by (cases "fa_writer (snd (flush_result k))")
  from flush_writer [OF assms(1)] obtain parts where parts:
    "o' @ [ptr] = map (\<lambda>ss. concat (map wire ss)) parts" "\<forall>ss \<in> set parts. \<forall>s \<in> set ss. wf_seg (kcp_conv k) s"
    "\<forall>d \<in> set (o' @ [ptr]). int (length d) \<le> sint (kcp_mtu k)" "[] \<notin> set o'"
    "concat parts = ack_segs k @ probe_segs (probe_window (k\<lparr>acklist := []\<rparr>)) (seg_wnd (ack_seg k)) @ flush_data k"
    unfolding staged_def w fst_conv snd_conv by blast
  have "parts \<noteq> []" using parts(1) by auto
  then obtain init cur where ic: "parts = init @ [cur]" by (cases parts rule: rev_cases) auto
  have k': "outs = (if ptr \<noteq> [] then o' @ [ptr] else o')" "snd_buf k' = fst (flush_result k)"
    "acklist k' = acklist (flush_mid k)"
    using assms(2,3) by (auto simp: kcp_flush_eq Let_def w)
  have "acklist (admit_loop win wnd q k2) = acklist k2" for win wnd q k2
    by (induction win wnd q k2 rule: admit_loop.induct) (auto simp: Let_def)
  then have "acklist k' = []" by (simp add: k'(3) flush_mid_def Let_def)
  moreover have "set (flush_data k) \<subseteq> set (snd_buf k')"
    unfolding k'(2) flush_data_def flush_result_def Let_def by (rule sent_segs_subset)
  moreover have "\<exists>parts'. outs = map (\<lambda>ss. concat (map wire ss)) parts' \<and> concat parts' = concat parts"
  proof (cases "ptr = []")
    case True
    then have "concat (map wire cur) = []" using parts(1) ic by auto
    then have "cur = []" by (cases cur) (auto simp: wire_def dest: arg_cong [of _ _ length] simp: IKCP_OVERHEAD_def simp flip: length_0_conv)
    then show ?thesis using True k'(1) parts(1) ic by (intro exI [of _ init]) auto
  next
    case False
    then show ?thesis using k'(1) parts(1) by auto
  qed
  then obtain parts' where p': "outs = map (\<lambda>ss. concat (map wire ss)) parts'" "concat parts' = concat parts" by blast
  moreover have "\<forall>s \<in> set (concat parts'). wf_seg (kcp_conv k) s" unfolding p'(2) using parts(2) by auto
  moreover have "\<forall>d \<in> set outs. d \<noteq> [] \<and> int (length d) \<le> sint (kcp_mtu k)"
    using parts(3,4) k'(1) by auto
  ultimately show ?thesis using parts(5) by (intro exI [of _ parts']) (simp only: simp_thms)
qed

text \<open>
  C24: every \<open>flush\<close> of a well-formed control block outputs non-empty datagrams of at
  most \<open>mtu\<close> bytes. Together they hold, in this order, one acknowledgement for each
  received segment, the window probes and the due data segments, each complete and
  encoded for this connection; the data segments stay in \<open>snd_buf\<close> and the
  acknowledgement list is empty afterwards.
\<close>

theorem kcp_flush_datagrams:
  assumes "tx_wf k" "kcp_updated k \<noteq> 0" "kcp_flush k = (outs, k')"
  shows "\<exists>parts. outs = map (\<lambda>ss. concat (map wire ss)) parts
     \<and> concat parts = ack_segs k @ probe_segs (probe_window (k\<lparr>acklist := []\<rparr>)) (seg_wnd (ack_seg k)) @ flush_data k
     \<and> (\<forall>s \<in> set (concat parts). wf_seg (kcp_conv k) s)
     \<and> (\<forall>d \<in> set outs. d \<noteq> [] \<and> int (length d) \<le> sint (kcp_mtu k))
     \<and> set (flush_data k) \<subseteq> set (snd_buf k') \<and> acklist k' = []"
  by (rule flush_datagrams [OF assms])

text \<open>A block that owes an acknowledgement and has a segment to send puts both into one datagram.\<close>

definition demo_tx :: ikcp where
  "demo_tx = (ikcp_create 9)\<lparr>kcp_updated := 1, nocwnd := 1, acklist := [(4, 2)],
     snd_queue := [demo_seg 0 [5, 6]]\<rparr>"

lemma demo_tx_wf: "tx_wf demo_tx"
  by (simp add: demo_tx_def tx_wf_def ikcp_create_def ikcp_consts fits_def demo_seg_def ikcp_seg0_def)

lemma kcp_flush_datagrams_witness:
  "\<exists>parts. fst (kcp_flush demo_tx) = map (\<lambda>ss. concat (map wire ss)) parts \<and> 0 < length (concat parts)"
proof -
  have up: "kcp_updated demo_tx \<noteq> 0" by (simp add: demo_tx_def)
  have ne: "ack_segs demo_tx \<noteq> []" by (simp add: ack_segs_def demo_tx_def)
  obtain parts where "fst (kcp_flush demo_tx) = map (\<lambda>ss. concat (map wire ss)) parts"
    "concat parts = ack_segs demo_tx @ probe_segs (probe_window (demo_tx\<lparr>acklist := []\<rparr>))
       (seg_wnd (ack_seg demo_tx)) @ flush_data demo_tx"
    using kcp_flush_datagrams [OF demo_tx_wf up prod.collapse [symmetric]] by blast
  with ne show ?thesis by (intro exI [of _ parts]) (simp only: length_greater_0_conv append_is_Nil_conv simp_thms)
qed

end
