(* ===== verification/Ikcp_Window.thy ===== *)
theory Ikcp_Window
  imports Ikcp_Send
begin

section \<open>KCP: the send window and acknowledgements\<close>

text \<open>
  The sender numbers its fragments \<open>0, 1, 2, \<dots>\<close> modulo 2^32. \<open>tx_seq a b is k\<close>:
  fragments below \<open>b\<close> have been given a number, those of \<open>is\<close> wait in \<open>snd_buf\<close>
  unacknowledged, and \<open>snd_una\<close> is the first of them.
\<close>

definition tx_seq :: "nat \<Rightarrow> nat \<Rightarrow> nat list \<Rightarrow> ikcp \<Rightarrow> bool" where
  "tx_seq a b is k \<longleftrightarrow> snd_una k = of_nat a \<and> snd_nxt k = of_nat b
     \<and> map seg_sn (snd_buf k) = map of_nat is \<and> sorted_wrt (<) is
     \<and> (\<forall>i \<in> set is. a \<le> i \<and> i < b) \<and> a \<le> b \<and> b \<le> a + 2 ^ 16
     \<and> (case is of [] \<Rightarrow> a = b | i # _ \<Rightarrow> i = a) \<and> unat (rmt_wnd k) < 2 ^ 16"

lemma tx_seq_create: "tx_seq 0 0 [] (ikcp_create conv)"
  by (simp add: tx_seq_def ikcp_create_def ikcp_consts)

subsection \<open>Admission\<close>

lemma send_window_bound: "unat (send_window k) \<le> unat (rmt_wnd k)"
  by (auto simp: send_window_def Let_def min_def word_le_nat_alt)

lemma admit_frame [simp]:
  "snd_una (admit_loop win wnd q k) = snd_una k" "rmt_wnd (admit_loop win wnd q k) = rmt_wnd k"
  "rx_rto (admit_loop win wnd q k) = rx_rto k" "rx_minrto (admit_loop win wnd q k) = rx_minrto k"
  by (induction win wnd q k rule: admit_loop.induct) (auto simp: Let_def)

text \<open>How many of \<open>len\<close> queued fragments the window \<open>win\<close> admits.\<close>

definition admitted :: "nat \<Rightarrow> nat \<Rightarrow> u32 \<Rightarrow> nat \<Rightarrow> nat" where
  "admitted a b win len = min len (a + unat win - b)"

lemma admit_loop_spec:
  assumes "snd_una k = of_nat a" "snd_nxt k = of_nat b" "a \<le> b" "b \<le> a + 2 ^ 16" "unat win < 2 ^ 16"
  shows "snd_nxt (admit_loop win wnd q k) = of_nat (b + admitted a b win (length q))
    \<and> snd_queue (admit_loop win wnd q k) = drop (admitted a b win (length q)) q
    \<and> map seg_sn (snd_buf (admit_loop win wnd q k))
        = map seg_sn (snd_buf k) @ map of_nat [b..<b + admitted a b win (length q)]
    \<and> map seg_frag (snd_buf (admit_loop win wnd q k)) = map seg_frag (snd_buf k @ take (admitted a b win (length q)) q)"
  using assms
proof (induction win wnd q k arbitrary: b rule: admit_loop.induct)
  case (1 win wnd k)
  then show ?case by (simp add: admitted_def)
next
  case (2 win wnd seg rest k)
  have una: "snd_una k + win = of_nat (a + unat win)" using "2.prems"(1) by simp
  have "b \<le> a + 65536" "unat win < 65536" "(2::nat) ^ 31 = 2147483648"
    using "2.prems"(4,5) by simp_all
  then have "b < (a + unat win) + 2 ^ 31" "a + unat win \<le> b + 2 ^ 31" using "2.prems"(3) by linarith+
  then have "itimediff (of_nat b) (of_nat (a + unat win)) = int b - int (a + unat win)" by (rule itimediff_nat)
  then have test: "itimediff (snd_nxt k) (snd_una k + win) < 0 \<longleftrightarrow> b < a + unat win"
    unfolding una "2.prems"(2) by linarith
  show ?case
  proof (cases "b < a + unat win")
    case True
    let ?seg = "seg\<lparr>seg_conv := kcp_conv k, seg_cmd := IKCP_CMD_PUSH, seg_wnd := wnd,
               seg_ts := kcp_current k, seg_sn := snd_nxt k, seg_una := rcv_nxt k,
               seg_resendts := kcp_current k, seg_rto := rx_rto k, seg_fastack := 0, seg_xmit := 0\<rparr>"
    let ?k = "k\<lparr>snd_nxt := snd_nxt k + 1, snd_buf := snd_buf k @ [?seg]\<rparr>" and ?c = "admitted a (Suc b) win (length rest)"
    have nxt: "snd_nxt ?k = of_nat (Suc b)" using "2.prems"(2) by (simp add: add.commute)
    have "Suc b \<le> a + 2 ^ 16" using True "2.prems"(5) by simp
    note IH = "2.IH" [OF test [THEN iffD2, OF True] refl _ nxt _ this "2.prems"(5)]
    have c: "admitted a b win (length (seg # rest)) = Suc ?c" using True by (simp add: admitted_def)
    have step: "admit_loop win wnd (seg # rest) k = admit_loop win wnd rest ?k"
      using test True by (simp add: Let_def)
    have "[b..<b + Suc ?c] = b # [Suc b..<Suc b + ?c]" by (simp add: upt_conv_Cons)
    moreover have "seg_frag ?seg = seg_frag seg" by (simp add: seg_frag_def)
    ultimately show ?thesis
      unfolding step c using IH "2.prems" by simp
  next
    case False
    then have "admitted a b win (length (seg # rest)) = 0" by (simp add: admitted_def)
    with False test "2.prems"(2) show ?thesis by simp
  qed
qed

lemma flush_segs_frag:
  "map seg_sn (fst (flush_segs k resent rtomin wnd segs a)) = map seg_sn segs"
  "map seg_frag (fst (flush_segs k resent rtomin wnd segs a)) = map seg_frag segs"
proof -
  have "seg_sn (case resend_seg k resent rtomin s of None \<Rightarrow> s
      | Some r \<Rightarrow> (snd r)\<lparr>seg_ts := kcp_current k, seg_wnd := wnd, seg_una := rcv_nxt k\<rparr>) = seg_sn s
    \<and> seg_frag (case resend_seg k resent rtomin s of None \<Rightarrow> s
      | Some r \<Rightarrow> (snd r)\<lparr>seg_ts := kcp_current k, seg_wnd := wnd, seg_una := rcv_nxt k\<rparr>) = seg_frag s" for s
  proof (cases "resend_seg k resent rtomin s")
    case (Some r)
    then show ?thesis using resend_seg_frame [of k resent rtomin s "fst r" "snd r"] by (simp add: seg_frag_def)
  qed simp
  then show "map seg_sn (fst (flush_segs k resent rtomin wnd segs a)) = map seg_sn segs"
    "map seg_frag (fst (flush_segs k resent rtomin wnd segs a)) = map seg_frag segs"
    by (simp_all add: flush_segs_buf)
qed

lemma tx_seq_flush:
  assumes tx: "tx_seq a b is k" and up: "kcp_updated k \<noteq> 0"
  defines "c \<equiv> admitted a b (send_window k) (length (snd_queue k))"
  shows "tx_seq a (b + c) (is @ [b..<b + c]) (snd (kcp_flush k))
    \<and> snd_queue (snd (kcp_flush k)) = drop c (snd_queue k)
    \<and> map seg_frag (snd_buf (snd (kcp_flush k))) = map seg_frag (snd_buf k @ take c (snd_queue k))"
proof -
  let ?k2 = "(probe_window (k\<lparr>acklist := []\<rparr>))\<lparr>kcp_probe := 0\<rparr>"
  have sw: "send_window ?k2 = send_window k" by (simp add: send_window_def Let_def)
  have win: "unat (send_window k) < 2 ^ 16" using tx send_window_bound [of k] by (simp add: tx_seq_def)
  have s: "snd_una k = of_nat a" "snd_nxt k = of_nat b" "a \<le> b" "b \<le> a + 2 ^ 16"
    using tx by (auto simp: tx_seq_def)
  have mid: "snd_nxt (flush_mid k) = of_nat (b + c)" "snd_queue (flush_mid k) = drop c (snd_queue k)"
    "map seg_sn (snd_buf (flush_mid k)) = map seg_sn (snd_buf k) @ map of_nat [b..<b + c]"
    "map seg_frag (snd_buf (flush_mid k)) = map seg_frag (snd_buf k @ take c (snd_queue k))"
    "snd_una (flush_mid k) = of_nat a" "rmt_wnd (flush_mid k) = rmt_wnd k"
    using admit_loop_spec [of ?k2 a b "send_window k" "seg_wnd (ack_seg k)" "snd_queue k"] s win
    by (simp_all add: flush_mid_def Let_def sw c_def)
  let ?k' = "snd (kcp_flush k)"
  have rw: "rmt_wnd (congestion l ch r w x) = rmt_wnd x" for l ch r w x by (simp add: congestion_def Let_def)
  have k': "snd_una ?k' = of_nat a" "snd_nxt ?k' = of_nat (b + c)" "snd_queue ?k' = drop c (snd_queue k)"
    "rmt_wnd ?k' = rmt_wnd k" "snd_buf ?k' = fst (flush_result k)"
    using up mid by (simp_all add: kcp_flush_eq Let_def split_def rw)
  have buf: "map seg_sn (snd_buf ?k') = map of_nat (is @ [b..<b + c])"
    "map seg_frag (snd_buf ?k') = map seg_frag (snd_buf k @ take c (snd_queue k))"
    using mid(3,4) tx unfolding k'(5) by (simp_all add: flush_result_def Let_def flush_segs_frag tx_seq_def)
  have "b + c \<le> a + 2 ^ 16" using s(4) win by (auto simp: c_def admitted_def)
  moreover have "sorted_wrt (<) (is @ [b..<b + c])"
    using tx by (auto simp: tx_seq_def sorted_wrt_append)
  moreover have "case is @ [b..<b + c] of [] \<Rightarrow> a = b + c | i # _ \<Rightarrow> i = a"
  proof (cases "is")
    case Nil
    then have "a = b" using tx by (simp add: tx_seq_def)
    then show ?thesis using Nil by (cases "c = 0") (simp_all add: upt_conv_Cons)
  qed (use tx in \<open>simp add: tx_seq_def\<close>)
  moreover have "\<forall>i \<in> set (is @ [b..<b + c]). a \<le> i \<and> i < b + c" using tx by (auto simp: tx_seq_def)
  ultimately have "tx_seq a (b + c) (is @ [b..<b + c]) ?k'"
    using tx k' buf(1) unfolding tx_seq_def by simp
  with k'(3) buf(2) show ?thesis by blast
qed

subsection \<open>Acknowledgement\<close>

text \<open>The segment \<open>h\<close> acknowledges fragment \<open>i\<close>, cumulatively or by its number.\<close>

definition acknowledges :: "ikcp_seg \<Rightarrow> nat \<Rightarrow> bool" where
  "acknowledges h i \<longleftrightarrow> 0 < itimediff (seg_una h) (of_nat i) \<or> seg_cmd h = IKCP_CMD_ACK \<and> seg_sn h = of_nat i"

lemma filter_sns:
  "map seg_sn buf = map of_nat is \<Longrightarrow>
   map seg_sn (filter (\<lambda>s. Q (seg_sn s)) buf) = map of_nat (filter (\<lambda>i. Q (of_nat i)) is)"
proof (induction buf arbitrary: "is")
  case (Cons s buf)
  then show ?case by (cases "is") auto
qed simp

lemma shrink_tx:
  assumes "map seg_sn (snd_buf k) = map of_nat is" "sorted_wrt (<) is" "\<forall>i \<in> set is. a \<le> i \<and> i < b"
    and "a \<le> b" "b \<le> a + 2 ^ 16" "snd_nxt k = of_nat b" "unat (rmt_wnd k) < 2 ^ 16"
  shows "\<exists>a'. tx_seq a' b is (shrink_buf k) \<and> a \<le> a'"
proof (cases "is")
  case Nil
  then show ?thesis using assms by (intro exI [of _ b]) (simp add: tx_seq_def shrink_buf_def)
next
  case (Cons i rest)
  then obtain s buf where "snd_buf k = s # buf" "seg_sn s = of_nat i" using assms(1) by auto
  with Cons assms show ?thesis by (intro exI [of _ i]) (auto simp: tx_seq_def shrink_buf_def)
qed

lemma una_tx:
  assumes "tx_seq a b is k"
  shows "\<exists>a'. tx_seq a' b (filter (\<lambda>i. \<not> 0 < itimediff una (of_nat i)) is)
      (shrink_buf (parse_una una (k\<lparr>rmt_wnd := ucast (w :: u16)\<rparr>))) \<and> a \<le> a'"
proof (rule shrink_tx)
  let ?k = "parse_una una (k\<lparr>rmt_wnd := ucast w\<rparr>)" and ?is = "filter (\<lambda>i. \<not> 0 < itimediff una (of_nat i)) is"
  show "map seg_sn (snd_buf ?k) = map of_nat ?is"
    using assms filter_sns [of "snd_buf k" "is" "\<lambda>sn. \<not> 0 < itimediff una sn"]
    by (simp add: parse_una_def tx_seq_def)
  show "unat (rmt_wnd ?k) < 2 ^ 16"
    using unsigned_less [of w, where 'a = nat] by (simp add: parse_una_def unsigned_ucast_eq take_bit_nat_eq_self)
qed (use assms in \<open>auto simp: tx_seq_def parse_una_def intro: sorted_wrt_filter\<close>)

lemma ack_tx:
  assumes tx: "tx_seq a b is k"
  shows "\<exists>a'. tx_seq a' b (filter (\<lambda>i. sn \<noteq> of_nat i) is) (shrink_buf (parse_ack sn k)) \<and> a \<le> a'"
proof (rule shrink_tx)
  show "map seg_sn (snd_buf (parse_ack sn k)) = map of_nat (filter (\<lambda>i. sn \<noteq> of_nat i) is)"
  proof (cases "itimediff sn (snd_una k) < 0 \<or> 0 \<le> itimediff sn (snd_nxt k)")
    case True
    have "sn \<noteq> of_nat i" if i: "i \<in> set is" for i
    proof
      assume sn: "sn = of_nat i"
      have r: "a \<le> i" "i < b" "b \<le> a + 2 ^ 16" using tx i by (auto simp: tx_seq_def)
      then have "i < a + 2 ^ 31" "a \<le> i + 2 ^ 31" "i < b + 2 ^ 31" "b \<le> i + 2 ^ 31" by simp_all
      then have "itimediff sn (snd_una k) = int i - int a" "itimediff sn (snd_nxt k) = int i - int b"
        using tx itimediff_nat [of i a] itimediff_nat [of i b] by (simp_all add: sn tx_seq_def)
      with True r show False by simp
    qed
    then have "filter (\<lambda>i. sn \<noteq> of_nat i) is = is" by (simp add: filter_id_conv)
    with True tx show ?thesis by (simp add: parse_ack_def tx_seq_def)
  next
    case False
    have "filter (\<lambda>s. seg_sn s \<noteq> sn) (snd_buf k) = filter (\<lambda>s. sn \<noteq> seg_sn s) (snd_buf k)"
      by (intro filter_cong) auto
    with False tx filter_sns [of "snd_buf k" "is" "\<lambda>x. sn \<noteq> x"] show ?thesis
      by (simp add: parse_ack_def tx_seq_def)
  qed
qed (use tx in \<open>auto simp: tx_seq_def parse_ack_def intro: sorted_wrt_filter\<close>)

lemma tx_seq_frame:
  assumes "snd_una k' = snd_una k" "snd_nxt k' = snd_nxt k" "map seg_sn (snd_buf k') = map seg_sn (snd_buf k)"
    "rmt_wnd k' = rmt_wnd k"
  shows "tx_seq a b is k' = tx_seq a b is k"
  using assms by (simp add: tx_seq_def)

lemma una_frame [simp]:
  "snd_una (parse_data s k) = snd_una k" "snd_nxt (parse_data s k) = snd_nxt k" "rmt_wnd (parse_data s k) = rmt_wnd k"
  "snd_una (update_ack i k) = snd_una k" "snd_nxt (update_ack i k) = snd_nxt k" "rmt_wnd (update_ack i k) = rmt_wnd k"
  "snd_una (grow_cwnd k) = snd_una k" "snd_nxt (grow_cwnd k) = snd_nxt k" "rmt_wnd (grow_cwnd k) = rmt_wnd k"
  "snd_una (parse_fastack u k) = snd_una k" "snd_nxt (parse_fastack u k) = snd_nxt k"
  "rmt_wnd (parse_fastack u k) = rmt_wnd k"
  by (simp_all add: parse_data_def move_rcv_buf_to_queue_def update_ack_def grow_cwnd_def parse_fastack_def
      Let_def split_def split: option.splits)

lemma tx_seq_segment:
  assumes "tx_seq a b is (snd (snd st))"
  shows "\<exists>a'. tx_seq a' b (filter (\<lambda>i. \<not> acknowledges h i) is) (snd (snd (input_segment h p st))) \<and> a \<le> a'"
proof -
  obtain flag maxack k where st: "st = (flag, maxack, k)" by (cases st)
  let ?k1 = "shrink_buf (parse_una (seg_una h) (k\<lparr>rmt_wnd := ucast (seg_wnd h)\<rparr>))"
  let ?is1 = "filter (\<lambda>i. \<not> 0 < itimediff (seg_una h) (of_nat i)) is"
  obtain a1 where a1: "tx_seq a1 b ?is1 ?k1" "a \<le> a1" using una_tx assms by (force simp: st)
  show ?thesis
  proof (cases "seg_cmd h = IKCP_CMD_ACK")
    case True
    let ?k2 = "if 0 \<le> itimediff (kcp_current ?k1) (seg_ts h)
        then update_ack (itimediff (kcp_current ?k1) (seg_ts h)) ?k1 else ?k1"
    have "tx_seq a1 b ?is1 ?k2" using a1(1) tx_seq_frame [of ?k2 ?k1] by auto
    from ack_tx [OF this, of "seg_sn h"] obtain a2 where a2: "a1 \<le> a2"
      "tx_seq a2 b (filter (\<lambda>i. seg_sn h \<noteq> of_nat i) ?is1) (shrink_buf (parse_ack (seg_sn h) ?k2))" by blast
    have "filter (\<lambda>i. seg_sn h \<noteq> of_nat i) ?is1 = filter (\<lambda>i. \<not> acknowledges h i) is"
      using True by (auto simp: acknowledges_def filter_filter intro!: filter_cong)
    moreover have "snd (snd (input_segment h p st)) = shrink_buf (parse_ack (seg_sn h) ?k2)"
      using True by (simp add: input_segment_def st Let_def)
    ultimately show ?thesis using a1(2) a2 by (intro exI [of _ a2]) simp
  next
    case False
    then have is1: "filter (\<lambda>i. \<not> acknowledges h i) is = ?is1"
      by (auto simp: acknowledges_def intro!: filter_cong)
    have "tx_seq a1 b ?is1 (snd (snd (input_segment h p st)))"
      using False a1(1) unfolding input_segment_def st Let_def
      by (auto simp: tx_seq_def)
    then show ?thesis using a1(2) unfolding is1 by blast
  qed
qed

lemma fastack_sns: "map seg_sn (fastack_loop sn segs) = map seg_sn segs"
  "map seg_frag (fastack_loop sn segs) = map seg_frag segs"
  by (induction sn segs rule: fastack_loop.induct) (auto simp: seg_frag_def)

lemma tx_seq_input:
  assumes tx: "tx_seq a b is k" and k': "kcp_input d k = (r, k')"
  defines "hs \<equiv> fst ` set (snd (parse_segs (kcp_conv k) d))"
  shows "\<exists>a'. tx_seq a' b (filter (\<lambda>i. \<forall>h \<in> hs. \<not> acknowledges h i) is) k' \<and> a \<le> a'"
proof -
  obtain c segs where p: "parse_segs (kcp_conv k) d = (c, segs)" by (cases "parse_segs (kcp_conv k) d")
  have fold: "\<exists>a'. tx_seq a' b (filter (\<lambda>i. \<forall>h \<in> fst ` set segs. \<not> acknowledges h i) is)
      (snd (snd (fold (\<lambda>hp. input_segment (fst hp) (snd hp)) segs st))) \<and> a \<le> a'"
    if "tx_seq a b is (snd (snd st))" for segs st a "is"
    using that
  proof (induction segs arbitrary: st a "is")
    case (Cons hp segs)
    from tx_seq_segment [OF Cons.prems] obtain a1 where a1: "a \<le> a1"
      "tx_seq a1 b (filter (\<lambda>i. \<not> acknowledges (fst hp) i) is) (snd (snd (input_segment (fst hp) (snd hp) st)))"
      by blast
    from Cons.IH [OF a1(2)] obtain a2 where "a1 \<le> a2"
      "tx_seq a2 b (filter (\<lambda>i. \<forall>h \<in> fst ` set segs. \<not> acknowledges h i)
         (filter (\<lambda>i. \<not> acknowledges (fst hp) i) is))
         (snd (snd (fold (\<lambda>hp. input_segment (fst hp) (snd hp)) segs (input_segment (fst hp) (snd hp) st))))"
      by blast
    with a1(1) show ?case by (intro exI [of _ a2]) (auto simp: conj_commute)
  qed auto
  let ?st = "fold (\<lambda>hp. input_segment (fst hp) (snd hp)) segs (False, 0, k)"
  let ?k2 = "if fst ?st then parse_fastack (fst (snd ?st)) (snd (snd ?st)) else snd (snd ?st)"
  obtain a' where a': "tx_seq a' b (filter (\<lambda>i. \<forall>h \<in> hs. \<not> acknowledges h i) is) (snd (snd ?st))" "a \<le> a'"
    using fold [of a "is" "(False, 0, k)" segs] tx by (auto simp: hs_def p)
  have "tx_seq x b js (parse_fastack u y) = tx_seq x b js y" for x js u y
    by (intro tx_seq_frame) (simp_all add: parse_fastack_def fastack_sns)
  moreover have "tx_seq x b js (grow_cwnd y) = tx_seq x b js y" for x js y
    by (intro tx_seq_frame) simp_all
  ultimately have all: "tx_seq a' b (filter (\<lambda>i. \<forall>h \<in> hs. \<not> acknowledges h i) is) x"
    if "x \<in> {snd (snd ?st), ?k2, grow_cwnd ?k2}" for x
    using that a'(1) by auto
  show ?thesis
  proof (cases "length d < IKCP_OVERHEAD")
    case True
    then have "hs = {}" unfolding hs_def by (subst parse_segs.simps) simp
    moreover have "k' = k" using True k' by (simp add: kcp_input_def)
    ultimately show ?thesis using tx by auto
  next
    case False
    then have "k' \<in> {snd (snd ?st), ?k2, grow_cwnd ?k2}"
      using k' by (auto simp: kcp_input_def input_loop_eq p Let_def split_def split: if_splits)
    with all a'(2) show ?thesis by blast
  qed
qed

subsection \<open>The properties of the sender\<close>

text \<open>
  C22: a fragment leaves \<open>snd_buf\<close> only when a segment of the peer acknowledges it:
  after any datagram, also a malformed one, the unacknowledged fragments are those
  of before that no segment in it acknowledges, in the same order, and \<open>snd_una\<close> has
  moved to the first of them and never back.
\<close>

theorem kcp_keeps_unacknowledged:
  assumes "tx_seq a b is k" "kcp_input d k = (r, k')"
    and "is' = filter (\<lambda>i. \<forall>h \<in> fst ` set (snd (parse_segs (kcp_conv k) d)). \<not> acknowledges h i) is"
  shows "\<exists>a'. tx_seq a' b is' k' \<and> a \<le> a'"
  unfolding assms(3) by (rule tx_seq_input [OF assms(1,2)])

text \<open>Two fragments are on their way and an acknowledgement of the first arrives: it leaves, the second stays.\<close>

lemma kcp_keeps_unacknowledged_witness:
  "let k = (ikcp_create 9)\<lparr>snd_buf := [demo_seg 0 [1, 2], demo_seg 1 [3]], snd_nxt := 2\<rparr>;
       ack = ikcp_seg0\<lparr>seg_conv := 9, seg_cmd := IKCP_CMD_ACK, seg_wnd := 128\<rparr>
   in tx_seq 0 2 [0, 1] k \<and> (\<exists>a'. tx_seq a' 2 [1] (snd (kcp_input (ikcp_encode_seg ack) k)) \<and> 0 \<le> a')"
proof -
  let ?k = "(ikcp_create 9)\<lparr>snd_buf := [demo_seg 0 [1, 2], demo_seg 1 [3]], snd_nxt := 2\<rparr>"
  let ?ack = "ikcp_seg0\<lparr>seg_conv := 9, seg_cmd := IKCP_CMD_ACK, seg_wnd := 128\<rparr>"
  have tx: "tx_seq 0 2 [0, 1] ?k" by (simp add: tx_seq_def demo_seg_def ikcp_create_def ikcp_consts ikcp_seg0_def)
  have "parse_segs 9 (ikcp_encode_seg ?ack @ [] @ []) = (0, [(header_of ?ack, [])])"
    by (subst parse_segs_encode) (auto simp: ikcp_seg0_def ikcp_cmds)
  then have p: "parse_segs (kcp_conv ?k) (ikcp_encode_seg ?ack) = (0, [(header_of ?ack, [])])"
    by (simp add: ikcp_create_def)
  have "filter (\<lambda>i. \<forall>h \<in> fst ` set (snd (parse_segs (kcp_conv ?k) (ikcp_encode_seg ?ack))). \<not> acknowledges h i) [0, 1] = [1]"
    unfolding p by (simp add: acknowledges_def header_of_def ikcp_seg0_def ikcp_cmds itimediff_def)
  from kcp_keeps_unacknowledged [OF tx prod.collapse [symmetric] this [symmetric]] tx show ?thesis by (simp add: Let_def)
qed

text \<open>
  C28: \<open>flush\<close> numbers and takes over from \<open>snd_queue\<close>, in order, exactly as many
  fragments as fit between \<open>snd_una\<close> and the window, which is the smallest of
  \<open>snd_wnd\<close>, the peer's window and, unless disabled, the congestion window.
\<close>

theorem kcp_flush_respects_window:
  assumes "tx_seq a b is k" "kcp_updated k \<noteq> 0"
    and "c = min (length (snd_queue k)) (a + unat (send_window k) - b)"
  shows "tx_seq a (b + c) (is @ [b..<b + c]) (snd (kcp_flush k))
    \<and> snd_queue (snd (kcp_flush k)) = drop c (snd_queue k)
    \<and> map seg_frag (snd_buf (snd (kcp_flush k))) = map seg_frag (snd_buf k @ take c (snd_queue k))
    \<and> b + c \<le> max b (a + unat (min (snd_wnd k) (rmt_wnd k)))
    \<and> (nocwnd k = 0 \<longrightarrow> b + c \<le> max b (a + unat (cwnd k)))"
proof -
  have "unat (send_window k) \<le> unat (min (snd_wnd k) (rmt_wnd k))"
    "nocwnd k = 0 \<longrightarrow> unat (send_window k) \<le> unat (cwnd k)"
    by (auto simp: send_window_def Let_def min_def word_le_nat_alt)
  then show ?thesis
    using tx_seq_flush [OF assms(1,2)] by (auto simp: admitted_def assms(3))
qed

lemma kcp_flush_respects_window_witness:
  "tx_seq 0 1 [0] (snd (kcp_flush demo_tx)) \<and> snd_queue (snd (kcp_flush demo_tx)) = []"
proof -
  have "tx_seq 0 0 [] demo_tx" by (simp add: tx_seq_def demo_tx_def ikcp_create_def ikcp_consts)
  from kcp_flush_respects_window [OF this, of 1] show ?thesis
    by (simp add: demo_tx_def send_window_def ikcp_create_def ikcp_consts)
qed

end
