(* ===== verification/Ikcp_Connection.thy ===== *)
theory Ikcp_Connection
  imports Ikcp_Window
begin

section \<open>KCP: two peers over an unreliable network\<close>

text \<open>
  The system of a sending peer \<open>A\<close>, a receiving peer \<open>B\<close> and a network that may lose,
  duplicate, delay and reorder the datagrams of \<open>A\<close>. What \<open>A\<close> receives is arbitrary,
  so the direction from \<open>B\<close> to \<open>A\<close> may also be forged. The network remembers every
  datagram ever sent, with the number of fragments \<open>A\<close> had numbered by then; this
  count and the count \<open>acc\<close> of fragments \<open>B\<close> has accepted are read only by the guard
  of \<open>b_input\<close>, which excludes a datagram that is about 2^31 fragments out of date.
\<close>

record kcp_sys =
  side_a :: ikcp
  side_b :: ikcp
  net :: "(nat \<times> byte list) set"
  msgs :: "byte list list"
  got :: "byte list list"
  numbered :: nat
  acc :: nat

definition not_stale :: "nat \<Rightarrow> nat \<Rightarrow> ikcp \<Rightarrow> bool" where
  "not_stale sent n k \<longleftrightarrow> n + 2 * unat (rcv_wnd k) + 2 ^ 16 < sent + 2 ^ 31 \<and> sent < n + 2 ^ 31"

inductive conn_step :: "kcp_sys \<Rightarrow> kcp_sys \<Rightarrow> bool" where
  a_send: "kcp_send m (side_a s) = (r, k) \<Longrightarrow>
    conn_step s (s\<lparr>side_a := k, msgs := if r = 0 then msgs s @ [m] else msgs s\<rparr>)"
| a_update: "kcp_update now (side_a s) = (outs, k) \<Longrightarrow>
    b = numbered s + unat (snd_nxt k - snd_nxt (side_a s)) \<Longrightarrow>
    conn_step s (s\<lparr>side_a := k, numbered := b, net := net s \<union> {b} \<times> set outs\<rparr>)"
| a_input: "kcp_input d (side_a s) = (r, k) \<Longrightarrow> conn_step s (s\<lparr>side_a := k\<rparr>)"
| a_recv: "kcp_recv len (side_a s) = (r, bytes, k) \<Longrightarrow> conn_step s (s\<lparr>side_a := k\<rparr>)"
| b_input: "(sent, d) \<in> net s \<Longrightarrow> not_stale sent (acc s) (side_b s) \<Longrightarrow> kcp_input d (side_b s) = (r, k) \<Longrightarrow>
    conn_step s (s\<lparr>side_b := k, acc := acc s + unat (rcv_nxt k - rcv_nxt (side_b s))\<rparr>)"
| b_recv: "kcp_recv len (side_b s) = (r, bytes, k) \<Longrightarrow>
    conn_step s (s\<lparr>side_b := k, got := if 0 \<le> r then got s @ [bytes] else got s,
      acc := acc s + unat (rcv_nxt k - rcv_nxt (side_b s))\<rparr>)"
| b_update: "kcp_update now (side_b s) = (outs, k) \<Longrightarrow> conn_step s (s\<lparr>side_b := k\<rparr>)"
| b_send: "kcp_send m (side_b s) = (r, k) \<Longrightarrow> conn_step s (s\<lparr>side_b := k\<rparr>)"

definition conn_start :: "ikcp \<Rightarrow> ikcp \<Rightarrow> kcp_sys" where
  "conn_start a b = \<lparr>side_a = a, side_b = b, net = {}, msgs = [], got = [], numbered = 0, acc = 0\<rparr>"

text \<open>Both peers are newly created, with any timer and window settings.\<close>

inductive conn_reach :: "u32 \<Rightarrow> kcp_sys \<Rightarrow> bool" for conv where
  start: "a = set_wndsize w1 w2 (set_nodelay x1 x2 x3 x4 (ikcp_create conv)) \<Longrightarrow>
    b = set_wndsize w3 w4 (set_nodelay y1 y2 y3 y4 (ikcp_create conv)) \<Longrightarrow> unat w4 < 2 ^ 31 \<Longrightarrow>
    conn_reach conv (conn_start a b)"
| step: "conn_reach conv s \<Longrightarrow> conn_step s t \<Longrightarrow> conn_reach conv t"

subsection \<open>The invariant\<close>

definition MSS :: int where "MSS = 1376"

definition tx_stream :: "byte list list \<Rightarrow> nat \<Rightarrow> nat list \<Rightarrow> ikcp \<Rightarrow> bool" where
  "tx_stream ms b is k \<longleftrightarrow> b \<le> length (stream MSS ms) \<and> map seg_frag (snd_queue k) = drop b (stream MSS ms)
     \<and> map seg_frag (snd_buf k) = map (\<lambda>i. stream MSS ms ! i) is"

text \<open>A datagram that holds segments of connection \<open>conv\<close>, the data among them from the stream.\<close>

definition authentic :: "u32 \<Rightarrow> byte list list \<Rightarrow> nat \<Rightarrow> byte list \<Rightarrow> bool" where
  "authentic conv ms sent d \<longleftrightarrow> (\<exists>ss. d = concat (map wire ss) \<and> (\<forall>s \<in> set ss. wf_seg conv s
     \<and> (seg_cmd s = IKCP_CMD_PUSH \<longrightarrow> (\<exists>i. carries (stream MSS ms) i s \<and> i < sent \<and> sent \<le> i + 2 ^ 16))))"

definition conn_inv :: "u32 \<Rightarrow> kcp_sys \<Rightarrow> bool" where
  "conn_inv conv s \<longleftrightarrow> kcp_conv (side_a s) = conv \<and> kcp_conv (side_b s) = conv \<and> sint (kcp_mss (side_a s)) = MSS
     \<and> sendable MSS (msgs s) \<and> tx_wf (side_a s)
     \<and> (\<exists>a is. tx_seq a (numbered s) is (side_a s) \<and> tx_stream (msgs s) (numbered s) is (side_a s))
     \<and> (\<forall>(sent, d) \<in> net s. authentic conv (msgs s) sent d)
     \<and> reads MSS (msgs s) (length (got s)) (acc s) (side_b s) \<and> got s = take (length (got s)) (msgs s)"

lemma stream_append: "stream mss (ms @ ms') = stream mss ms @ stream mss ms'"
  by (simp add: stream_def)

lemma carries_append: "carries fs i s \<Longrightarrow> carries (fs @ gs) i s"
  by (auto simp: carries_def nth_append)

lemma authentic_append: "authentic conv ms sent d \<Longrightarrow> authentic conv (ms @ ms') sent d"
  unfolding authentic_def stream_append using carries_append by metis

lemma rx_inv_append: "rx_inv fs m n k \<Longrightarrow> rx_inv (fs @ gs) m n k"
proof -
  assume inv: "rx_inv fs m n k"
  have mono: "list_all2 (carries fs) xs ys \<Longrightarrow> list_all2 (carries (fs @ gs)) xs ys" for xs ys
    by (erule list_all2_mono) (rule carries_append)
  show ?thesis using inv mono unfolding rx_inv_def by blast
qed

lemma reads_append:
  assumes "reads mss ms j n k"
  shows "reads mss (ms @ ms') j n k"
  using assms rx_inv_append by (auto simp: reads_def stream_append)

lemma authentic_honest:
  assumes "authentic conv ms sent d" "kcp_conv k = conv" "not_stale sent n k"
  shows "honest (stream MSS ms) n d k"
proof -
  obtain ss where ss: "d = concat (map wire ss)" "\<And>s. s \<in> set ss \<Longrightarrow> wf_seg conv s"
    "\<And>s. s \<in> set ss \<Longrightarrow> seg_cmd s = IKCP_CMD_PUSH \<Longrightarrow>
       \<exists>i. carries (stream MSS ms) i s \<and> i < sent \<and> sent \<le> i + 2 ^ 16"
    using assms(1) by (auto simp: authentic_def)
  have all2: "list_all2 (\<lambda>hp s. fst hp = header_of s \<and> (\<exists>rest. snd hp = seg_data s @ rest))
       (snd (parse_segs conv d)) ss"
    using parse_segs_wire [of ss conv] ss(1,2) by simp
  show ?thesis
    unfolding honest_def assms(2)
  proof (intro ballI impI)
    fix hp
    assume hp: "hp \<in> set (snd (parse_segs conv d))" "seg_cmd (fst hp) = IKCP_CMD_PUSH"
    obtain s rest where s: "s \<in> set ss" "fst hp = header_of s" "snd hp = seg_data s @ rest"
      using list_all2_left [OF all2 hp(1)] by blast
    with hp(2) have "seg_cmd s = IKCP_CMD_PUSH" by (simp add: header_of_def)
    then obtain i where i: "carries (stream MSS ms) i s" "i < sent" "sent \<le> i + 2 ^ 16" using ss(3) s(1) by blast
    have "carries (stream MSS ms) i ((fst hp)\<lparr>seg_data := take (unat (seg_len (fst hp))) (snd hp)\<rparr>)"
      using i(1) s ss(2) [OF s(1)] by (simp add: carries_def header_of_def wf_seg_def seg_frag_def)
    then have "data_segment (stream MSS ms) i hp" using hp(2) by (simp add: data_segment_def)
    moreover have "i < n + 2 ^ 31" "n + 2 * unat (rcv_wnd k) < i + 2 ^ 31"
      using assms(3) i(2,3) unfolding not_stale_def by linarith+
    ultimately show "\<exists>i. data_segment (stream MSS ms) i hp \<and> i < n + 2 ^ 31 \<and> n + 2 * unat (rcv_wnd k) < i + 2 ^ 31"
      by blast
  qed
qed

subsection \<open>The sender's steps\<close>

lemma update_form:
  obtains u t where "u \<noteq> 0" "kcp_update now k = ([], k\<lparr>kcp_current := now, kcp_updated := u, ts_flush := t\<rparr>)
    \<or> kcp_update now k = kcp_flush (k\<lparr>kcp_current := now, kcp_updated := u, ts_flush := t\<rparr>)"
proof (cases "kcp_updated k = 0")
  case True
  then have "kcp_update now k = kcp_flush (k\<lparr>kcp_current := now, kcp_updated := 1, ts_flush := now + kcp_interval k\<rparr>)"
    by (simp add: kcp_update_def Let_def)
  with that [of 1 "now + kcp_interval k"] show thesis by simp
next
  case False
  have e: "k\<lparr>kcp_current := now, ts_flush := t\<rparr> = k\<lparr>kcp_current := now, kcp_updated := kcp_updated k, ts_flush := t\<rparr>"
    "k\<lparr>kcp_current := now\<rparr> = k\<lparr>kcp_current := now, kcp_updated := kcp_updated k, ts_flush := ts_flush k\<rparr>" for t
    by simp_all
  let ?t = "if 0 \<le> itimediff now (ts_flush k + kcp_interval k) then now + kcp_interval k else ts_flush k + kcp_interval k"
  consider "10000 \<le> itimediff now (ts_flush k) \<or> itimediff now (ts_flush k) < - 10000"
    | "0 \<le> itimediff now (ts_flush k)" "itimediff now (ts_flush k) < 10000"
    | "itimediff now (ts_flush k) < 0" "- 10000 \<le> itimediff now (ts_flush k)" by linarith
  then show thesis
  proof cases
    case 1
    then have "kcp_update now k = kcp_flush (k\<lparr>kcp_current := now, ts_flush := now + kcp_interval k\<rparr>)"
      using False by (simp add: kcp_update_def Let_def)
    from that [OF False, of "now + kcp_interval k"] this [unfolded e(1)] show thesis by blast
  next
    case 2
    then have "kcp_update now k = kcp_flush (k\<lparr>kcp_current := now, ts_flush := ?t\<rparr>)"
      using False by (simp add: kcp_update_def Let_def)
    from that [OF False, of ?t] this [unfolded e(1)] show thesis by blast
  next
    case 3
    then have "kcp_update now k = ([], k\<lparr>kcp_current := now\<rparr>)"
      using False by (simp add: kcp_update_def Let_def)
    from that [OF False, of "ts_flush k", folded e(2)] this show thesis by blast
  qed
qed

lemma buf_carries:
  assumes "tx_wf k" "tx_seq a b is k" "tx_stream ms b is k" "s \<in> set (snd_buf k)"
  shows "\<exists>i. carries (stream MSS ms) i s \<and> i < b \<and> b \<le> i + 2 ^ 16"
proof -
  obtain j where j: "j < length (snd_buf k)" "s = snd_buf k ! j" using assms(4) by (auto simp: in_set_conv_nth)
  have len: "length is = length (snd_buf k)" using assms(2) by (metis tx_seq_def length_map)
  let ?i = "is ! j"
  have i: "a \<le> ?i" "?i < b" "b \<le> a + 2 ^ 16" using assms(2) j len by (auto simp: tx_seq_def)
  have "map seg_sn (snd_buf k) ! j = map of_nat is ! j" "map seg_frag (snd_buf k) ! j = map ((!) (stream MSS ms)) is ! j"
    using assms(2,3) by (simp_all only: tx_seq_def tx_stream_def)
  then have "seg_sn s = of_nat ?i" "seg_frag s = stream MSS ms ! ?i" using j len by simp_all
  moreover have "unat (seg_len s) = length (seg_data s)" "int (length (seg_data s)) \<le> sint (kcp_mss k)"
    using assms(1,4) by (auto simp: tx_wf_def fits_def)
  moreover have "length (seg_data s) < 2 ^ 31"
    using calculation(4) sint_less [of "kcp_mss k"] by simp
  moreover have "?i < length (stream MSS ms)" using i assms(3) by (simp add: tx_stream_def)
  ultimately show ?thesis using i by (intro exI [of _ ?i]) (simp add: carries_def)
qed

lemma flush_step:
  assumes wf: "tx_wf k" and tx: "tx_seq a b is k" and st: "tx_stream ms b is k" and up: "kcp_updated k \<noteq> 0"
    and f: "kcp_flush k = (outs, k')"
  shows "\<exists>b' is'. b \<le> b' \<and> b' \<le> b + 2 ^ 16 \<and> tx_seq a b' is' k' \<and> tx_stream ms b' is' k' \<and> tx_wf k'
    \<and> (\<forall>d \<in> set outs. authentic (kcp_conv k) ms b' d)"
proof -
  define c where "c = admitted a b (send_window k) (length (snd_queue k))"
  have k': "k' = snd (kcp_flush k)" using f by simp
  note fl = tx_seq_flush [OF tx up, folded c_def k']
  have len: "length (snd_queue k) = length (stream MSS ms) - b"
    using st by (metis tx_stream_def length_map length_drop)
  have c: "c \<le> length (stream MSS ms) - b" using len by (simp add: c_def admitted_def)
  have wf': "tx_wf k'" unfolding k' by (rule tx_wf_flush [OF wf])
  have "map seg_frag (take c (snd_queue k)) = map ((!) (stream MSS ms)) [b..<b + c]"
    using st c by (auto simp: tx_stream_def take_map [symmetric] intro!: nth_equalityI)
  then have st': "tx_stream ms (b + c) (is @ [b..<b + c]) k'"
    using fl st c unfolding tx_stream_def by (simp add: drop_map [symmetric] add.commute le_diff_conv2)
  have "c \<le> 2 ^ 16" using fl tx by (auto simp: tx_seq_def)
  moreover have "authentic (kcp_conv k) ms (b + c) d" if d: "d \<in> set outs" for d
  proof -
    obtain parts where parts: "outs = map (\<lambda>ss. concat (map wire ss)) parts"
      "concat parts = ack_segs k @ probe_segs (probe_window (k\<lparr>acklist := []\<rparr>)) (seg_wnd (ack_seg k)) @ flush_data k"
      "\<forall>s \<in> set (concat parts). wf_seg (kcp_conv k) s" "set (flush_data k) \<subseteq> set (snd_buf k')"
      using flush_datagrams [OF wf up f] by blast
    obtain ss where ss: "ss \<in> set parts" "d = concat (map wire ss)" using d parts(1) by auto
    have "\<exists>i. carries (stream MSS ms) i s \<and> i < b + c \<and> b + c \<le> i + 2 ^ 16"
      if s: "s \<in> set ss" "seg_cmd s = IKCP_CMD_PUSH" for s
    proof -
      have "s \<in> set (concat parts)" using ss(1) s(1) by auto
      then have "s \<in> set (flush_data k)"
        using s(2) unfolding parts(2)
        by (auto simp: ack_segs_def ack_seg_def probe_segs_def Let_def ikcp_cmds ikcp_seg0_def split: if_splits)
      then have "s \<in> set (snd_buf k')" using parts(4) by blast
      then show ?thesis using buf_carries [OF wf' _ st'] fl by blast
    qed
    then show ?thesis unfolding authentic_def using ss parts(3) by (intro exI [of _ ss]) auto
  qed
  ultimately show ?thesis using fl st' wf' by (intro exI [of _ "b + c"] exI [of _ "is @ [b..<b + c]"]) auto
qed

lemma update_step:
  assumes wf: "tx_wf k" and tx: "tx_seq a b is k" and st: "tx_stream ms b is k"
    and up: "kcp_update now k = (outs, k')"
  shows "\<exists>b' is'. b \<le> b' \<and> b' \<le> b + 2 ^ 16 \<and> tx_seq a b' is' k' \<and> tx_stream ms b' is' k' \<and> tx_wf k'
    \<and> (\<forall>d \<in> set outs. authentic (kcp_conv k) ms b' d)"
proof -
  obtain u t where ut: "u \<noteq> 0" "kcp_update now k = ([], k\<lparr>kcp_current := now, kcp_updated := u, ts_flush := t\<rparr>)
    \<or> kcp_update now k = kcp_flush (k\<lparr>kcp_current := now, kcp_updated := u, ts_flush := t\<rparr>)"
    by (rule update_form)
  let ?k = "k\<lparr>kcp_current := now, kcp_updated := u, ts_flush := t\<rparr>"
  have inv: "tx_wf ?k" "tx_seq a b is ?k" "tx_stream ms b is ?k"
    using wf tx st by (simp_all add: tx_wf_def fits_def tx_seq_def tx_stream_def)
  show ?thesis
  proof (cases "kcp_update now k = ([], ?k)")
    case True
    with up inv show ?thesis by (intro exI [of _ b] exI [of _ "is"]) auto
  next
    case False
    then have "kcp_flush ?k = (outs, k')" using ut(2) up by metis
    from flush_step [OF inv _ this] ut(1) show ?thesis by simp
  qed
qed

text \<open>What input leaves in the sending side: some of the same segments, and the same queue.\<close>

definition tx_sub :: "ikcp \<Rightarrow> ikcp \<Rightarrow> bool" where
  "tx_sub k k' \<longleftrightarrow> snd_queue k' = snd_queue k
     \<and> (\<forall>s' \<in> set (snd_buf k'). \<exists>s \<in> set (snd_buf k). \<exists>x. s' = s\<lparr>seg_fastack := x\<rparr>)"

lemma tx_subI:
  assumes "snd_queue k' = snd_queue k" "set (snd_buf k') \<subseteq> set (snd_buf k)"
  shows "tx_sub k k'"
proof -
  have "s = s\<lparr>seg_fastack := seg_fastack s\<rparr>" for s :: ikcp_seg by simp
  with assms show ?thesis unfolding tx_sub_def by blast
qed

lemma tx_sub_refl [simp]: "tx_sub k k" by (rule tx_subI) auto

lemma tx_sub_trans:
  assumes "tx_sub k1 k2" "tx_sub k2 k3"
  shows "tx_sub k1 k3"
  unfolding tx_sub_def
proof (intro conjI ballI)
  fix s
  assume "s \<in> set (snd_buf k3)"
  then obtain s2 x where "s2 \<in> set (snd_buf k2)" "s = s2\<lparr>seg_fastack := x\<rparr>" using assms(2) by (auto simp: tx_sub_def)
  moreover from this obtain s1 y where "s1 \<in> set (snd_buf k1)" "s2 = s1\<lparr>seg_fastack := y\<rparr>"
    using assms(1) by (auto simp: tx_sub_def)
  ultimately show "\<exists>s' \<in> set (snd_buf k1). \<exists>x. s = s'\<lparr>seg_fastack := x\<rparr>" by auto
qed (use assms in \<open>simp add: tx_sub_def\<close>)

lemma tx_sub_parse:
  "tx_sub k (shrink_buf k)" "tx_sub k (parse_una u k)" "tx_sub k (parse_ack u k)" "tx_sub k (update_ack i k)"
  "tx_sub k (parse_data s k)" "tx_sub k (grow_cwnd k)"
  by (rule tx_subI; auto simp: parse_una_def parse_ack_def)+

lemma tx_sub_fastack: "tx_sub k (parse_fastack u k)"
proof (cases "itimediff u (snd_una k) < 0 \<or> 0 \<le> itimediff u (snd_nxt k)")
  case False
  then show ?thesis using fastack_loop_elem [of _ u "snd_buf k"] by (auto simp: tx_sub_def parse_fastack_def)
qed (simp add: parse_fastack_def)

lemma tx_sub_segment: "tx_sub (snd (snd st)) (snd (snd (input_segment h p st)))"
proof -
  obtain flag maxack k where st: "st = (flag, maxack, k)" by (cases st)
  let ?k1 = "shrink_buf (parse_una (seg_una h) (k\<lparr>rmt_wnd := ucast (seg_wnd h)\<rparr>))"
  have "tx_sub k (k\<lparr>rmt_wnd := ucast (seg_wnd h)\<rparr>)" by (rule tx_subI) simp_all
  then have k1: "tx_sub k ?k1" using tx_sub_parse(1,2) tx_sub_trans by meson
  have upd: "tx_sub k (x\<lparr>acklist := a\<rparr>) = tx_sub k x" "tx_sub k (x\<lparr>kcp_probe := p\<rparr>) = tx_sub k x" for x a p
    by (simp_all add: tx_sub_def)
  have comp: "tx_sub k x \<Longrightarrow> tx_sub k (shrink_buf x)" "tx_sub k x \<Longrightarrow> tx_sub k (parse_ack u x)"
    "tx_sub k x \<Longrightarrow> tx_sub k (update_ack i x)" "tx_sub k x \<Longrightarrow> tx_sub k (parse_data s x)" for x u i s
    using tx_sub_parse tx_sub_trans by blast+
  show ?thesis unfolding input_segment_def st Let_def using k1 by (simp add: comp upd)
qed

lemma tx_sub_input:
  assumes "kcp_input d k = (r, k')"
  shows "tx_sub k k'"
proof -
  have fold: "tx_sub (snd (snd st)) (snd (snd (fold (\<lambda>hp. input_segment (fst hp) (snd hp)) segs st)))" for segs st
  proof (induction segs arbitrary: st)
    case (Cons hp segs)
    show ?case using tx_sub_trans [OF tx_sub_segment Cons.IH] by simp
  qed simp
  obtain c segs where p: "parse_segs (kcp_conv k) d = (c, segs)" by (cases "parse_segs (kcp_conv k) d")
  let ?st = "fold (\<lambda>hp. input_segment (fst hp) (snd hp)) segs (False, 0, k)"
  let ?k2 = "if fst ?st then parse_fastack (fst (snd ?st)) (snd (snd ?st)) else snd (snd ?st)"
  have st: "tx_sub k (snd (snd ?st))" using fold [of "(False, 0, k)" segs] by simp
  then have "tx_sub k ?k2" using tx_sub_trans [OF _ tx_sub_fastack] by simp
  moreover from this have "tx_sub k (grow_cwnd ?k2)" by (rule tx_sub_trans [OF _ tx_sub_parse(6)])
  moreover have "k' \<in> {k, snd (snd ?st), ?k2, grow_cwnd ?k2}"
    using assms by (auto simp: kcp_input_def input_loop_eq p Let_def split_def split: if_splits)
  ultimately show ?thesis using st by auto
qed

text \<open>Under arbitrary input the sender renumbers nothing.\<close>

lemma input_step:
  assumes wf: "tx_wf k" and tx: "tx_seq a b is k" and st: "tx_stream ms b is k" and k': "kcp_input d k = (r, k')"
  shows "\<exists>a' is'. tx_seq a' b is' k' \<and> tx_stream ms b is' k' \<and> tx_wf k'"
proof -
  define is' where "is' = filter (\<lambda>i. \<forall>h \<in> fst ` set (snd (parse_segs (kcp_conv k) d)). \<not> acknowledges h i) is"
  obtain a' where t': "tx_seq a' b is' k'" using tx_seq_input [OF tx k'] unfolding is'_def by blast
  have subset: "set is' \<subseteq> set is" by (simp add: is'_def)
  have sub: "tx_sub k k'" by (rule tx_sub_input [OF k'])
  have len: "length is' = length (snd_buf k')" "length is = length (snd_buf k)"
    using t' tx by (metis tx_seq_def length_map)+
  have "seg_frag (snd_buf k' ! j) = stream MSS ms ! (is' ! j)" if j: "j < length is'" for j
  proof -
    have "map seg_sn (snd_buf k') ! j = map of_nat is' ! j" using t' by (simp only: tx_seq_def)
    then have sn: "seg_sn (snd_buf k' ! j) = of_nat (is' ! j)" using j len by simp
    obtain s where s: "s \<in> set (snd_buf k)" "seg_sn (snd_buf k' ! j) = seg_sn s"
      "seg_frag (snd_buf k' ! j) = seg_frag s"
      using sub j len(1) nth_mem [of j "snd_buf k'"] unfolding tx_sub_def by (fastforce simp: seg_frag_def)
    then obtain l where l: "l < length is" "s = snd_buf k ! l" using len by (auto simp: in_set_conv_nth)
    have "map seg_sn (snd_buf k) ! l = map of_nat is ! l" "map seg_frag (snd_buf k) ! l = map ((!) (stream MSS ms)) is ! l"
      using tx st by (simp_all only: tx_seq_def tx_stream_def)
    then have ls: "seg_sn s = of_nat (is ! l)" "seg_frag s = stream MSS ms ! (is ! l)" using l len by simp_all
    have "is' ! j \<in> set is" "is ! l \<in> set is" using subset j l(1) by auto
    then have "a \<le> is' ! j" "is' ! j < b" "a \<le> is ! l" "is ! l < b" "b \<le> a + 2 ^ 16"
      using tx by (auto simp: tx_seq_def)
    moreover have "(2::nat) ^ 16 < 2 ^ 31" by simp
    ultimately have "is' ! j < is ! l + 2 ^ 31" "is ! l < is' ! j + 2 ^ 31" by linarith+
    moreover have "(of_nat (is' ! j) :: u32) = of_nat (is ! l)" using sn s(2) ls(1) by simp
    ultimately have "is' ! j = is ! l" using of_nat_u32_eq by blast
    with s(3) ls(2) show ?thesis by simp
  qed
  then have "map seg_frag (snd_buf k') = map ((!) (stream MSS ms)) is'"
    using len(1) by (intro nth_equalityI) simp_all
  moreover have "snd_queue k' = snd_queue k" using sub by (simp add: tx_sub_def)
  ultimately have "tx_stream ms b is' k'" using st by (simp add: tx_stream_def)
  with t' tx_wf_input [OF wf k'] show ?thesis by blast
qed

lemma send_step:
  assumes wf: "tx_wf k" and tx: "tx_seq a b is k" and st: "tx_stream ms b is k" and mss: "sint (kcp_mss k) = MSS"
    and ok: "sendable MSS ms" and k': "kcp_send m k = (r, k')"
  shows "tx_wf k' \<and> tx_seq a b is k' \<and> tx_stream (if r = 0 then ms @ [m] else ms) b is k'
    \<and> sendable MSS (if r = 0 then ms @ [m] else ms)"
proof (cases "r = 0")
  case False
  then have "k' = k" using k' by (auto simp: kcp_send_def Let_def split: if_splits)
  with False assms show ?thesis by simp
next
  case True
  then have s: "map seg_frag (snd_queue k') = map seg_frag (snd_queue k) @ msg_frags MSS m" "frag_count MSS m \<le> 255"
    using kcp_send_frags [of m k k'] k' mss by (auto simp: MSS_def)
  have same: "snd_una k' = snd_una k" "snd_nxt k' = snd_nxt k" "snd_buf k' = snd_buf k" "rmt_wnd k' = rmt_wnd k"
    using k' by (auto simp: kcp_send_def Let_def split: if_splits)
  have nth: "stream MSS (ms @ [m]) ! i = stream MSS ms ! i" if "i \<in> set is" for i
    using that tx st by (auto simp: tx_seq_def tx_stream_def stream_append nth_append)
  have "tx_stream (ms @ [m]) b is k'"
    using st s(1) nth by (simp add: tx_stream_def same stream_append) (simp add: stream_def)
  moreover have "tx_seq a b is k'" using tx by (simp add: tx_seq_def same)
  moreover have "sendable MSS (ms @ [m])" using ok s(2) by (auto simp: sendable_def)
  ultimately show ?thesis using True tx_wf_send [OF wf k'] by simp
qed

lemma conv_mss_frame [simp]:
  "kcp_conv (snd (kcp_send m k)) = kcp_conv k" "kcp_mss (snd (kcp_send m k)) = kcp_mss k"
  "kcp_conv (snd (snd (kcp_recv len k))) = kcp_conv k" "kcp_mss (snd (snd (kcp_recv len k))) = kcp_mss k"
  by (simp_all add: kcp_send_def kcp_recv_def Let_def split_def)

lemma conv_mss_flush:
  "kcp_conv (snd (kcp_flush k)) = kcp_conv k \<and> kcp_mss (snd (kcp_flush k)) = kcp_mss k"
proof -
  have "kcp_conv (admit_loop win wnd q x) = kcp_conv x \<and> kcp_mss (admit_loop win wnd q x) = kcp_mss x" for win wnd q x
    by (induction win wnd q x rule: admit_loop.induct) (auto simp: Let_def)
  then show ?thesis by (simp add: kcp_flush_def Let_def split_def)
qed

lemma conv_mss_update:
  "kcp_conv (snd (kcp_update now k)) = kcp_conv k \<and> kcp_mss (snd (kcp_update now k)) = kcp_mss k"
  using conv_mss_flush by (auto intro: update_form [of now k])

lemma conv_mss_input:
  "kcp_conv (snd (kcp_input d k)) = kcp_conv k \<and> kcp_mss (snd (kcp_input d k)) = kcp_mss k"
proof -
  have seg: "kcp_mss (snd (snd (input_segment h p st))) = kcp_mss (snd (snd st))" for h p st
    by (cases st) (simp add: input_segment_def Let_def parse_una_def parse_ack_def)
  have "kcp_conv (snd (snd (fold (\<lambda>hp. input_segment (fst hp) (snd hp)) segs st))) = kcp_conv (snd (snd st))
    \<and> kcp_mss (snd (snd (fold (\<lambda>hp. input_segment (fst hp) (snd hp)) segs st))) = kcp_mss (snd (snd st))" for segs st
    by (induction segs arbitrary: st) (auto simp: seg input_segment_conv)
  then show ?thesis
    by (auto simp: kcp_input_def input_loop_eq Let_def split_def parse_fastack_def)
qed

subsection \<open>Preservation\<close>

lemma conn_inv_a:
  assumes inv: "conn_inv conv s" and k: "kcp_conv k = conv" "sint (kcp_mss k) = MSS" "tx_wf k"
    and tx: "tx_seq a (numbered s) is k" "tx_stream (msgs s) (numbered s) is k"
  shows "conn_inv conv (s\<lparr>side_a := k\<rparr>)"
  using assms unfolding conn_inv_def by auto

lemma conn_step_inv:
  assumes "conn_step s t" "conn_inv conv s"
  shows "conn_inv conv t"
  using assms
proof (cases rule: conn_step.cases)
  case (a_send m r k)
  from assms(2) obtain a "is" where tx: "tx_seq a (numbered s) is (side_a s)" "tx_stream (msgs s) (numbered s) is (side_a s)"
    by (auto simp: conn_inv_def)
  let ?ms = "if r = 0 then msgs s @ [m] else msgs s"
  have st: "tx_wf k \<and> tx_seq a (numbered s) is k \<and> tx_stream ?ms (numbered s) is k \<and> sendable MSS ?ms"
    using assms(2) by (intro send_step [OF _ tx _ _ a_send(2)]) (auto simp: conn_inv_def)
  have conv: "kcp_conv k = conv" "sint (kcp_mss k) = MSS"
    using conv_mss_frame(1,2) [of m "side_a s"] a_send(2) assms(2) by (auto simp: conn_inv_def)
  have "\<forall>(sent, d) \<in> net s. authentic conv ?ms sent d"
    using assms(2) authentic_append by (auto simp: conn_inv_def)
  moreover have "reads MSS ?ms (length (got s)) (acc s) (side_b s)"
    using assms(2) reads_append by (auto simp: conn_inv_def)
  moreover have "got s = take (length (got s)) ?ms"
    using assms(2) by (auto simp: conn_inv_def reads_def)
  moreover have "\<exists>a is. tx_seq a (numbered s) is k \<and> tx_stream ?ms (numbered s) is k" using st by blast
  moreover have "kcp_conv (side_b s) = conv" using assms(2) by (simp add: conn_inv_def)
  ultimately show ?thesis using st conv unfolding a_send(1) conn_inv_def by simp
next
  case (a_update now outs k b)
  from assms(2) obtain a "is" where tx: "tx_seq a (numbered s) is (side_a s)" "tx_stream (msgs s) (numbered s) is (side_a s)"
    by (auto simp: conn_inv_def)
  have wf: "tx_wf (side_a s)" using assms(2) by (simp add: conn_inv_def)
  from update_step [OF wf tx a_update(2)] obtain b' is' where b': "numbered s \<le> b'" "b' \<le> numbered s + 2 ^ 16"
    "tx_seq a b' is' k" "tx_stream (msgs s) b' is' k" "tx_wf k" "\<forall>d \<in> set outs. authentic (kcp_conv (side_a s)) (msgs s) b' d"
    by blast
  have "snd_nxt k - snd_nxt (side_a s) = of_nat (b' - numbered s)"
    using tx(1) b'(1,3) by (simp add: tx_seq_def of_nat_diff)
  moreover have "unat (of_nat (b' - numbered s) :: u32) = b' - numbered s"
    using b'(2) by (simp add: unat_of_nat del: of_nat_diff)
  ultimately have "b = b'" using a_update(3) b'(1) by simp
  then show ?thesis
    using assms(2) b' conv_mss_update [of now "side_a s"] a_update(2)
    unfolding a_update(1) conn_inv_def by auto
next
  case (a_input d r k)
  from assms(2) obtain a "is" where tx: "tx_seq a (numbered s) is (side_a s)" "tx_stream (msgs s) (numbered s) is (side_a s)"
    by (auto simp: conn_inv_def)
  have wf: "tx_wf (side_a s)" using assms(2) by (simp add: conn_inv_def)
  from input_step [OF wf tx a_input(2)] show ?thesis
    using conn_inv_a [OF assms(2)] conv_mss_input [of d "side_a s"] a_input(2) assms(2)
    unfolding a_input(1) by (auto simp: conn_inv_def)
next
  case (a_recv len r bytes k)
  from assms(2) obtain a "is" where tx: "tx_seq a (numbered s) is (side_a s)" "tx_stream (msgs s) (numbered s) is (side_a s)"
    by (auto simp: conn_inv_def)
  have same: "snd_una k = snd_una (side_a s)" "snd_nxt k = snd_nxt (side_a s)" "snd_buf k = snd_buf (side_a s)"
    "rmt_wnd k = rmt_wnd (side_a s)" "snd_queue k = snd_queue (side_a s)"
    using a_recv(2) by (auto simp: kcp_recv_def Let_def split_def move_rcv_buf_to_queue_def split: if_splits)
  then have "tx_seq a (numbered s) is k" "tx_stream (msgs s) (numbered s) is k"
    using tx by (simp_all add: tx_seq_def tx_stream_def)
  then show ?thesis
    using conn_inv_a [OF assms(2)] conv_mss_frame(3,4) [of len "side_a s"] a_recv(2) assms(2)
      tx_wf_recv [OF _ a_recv(2)]
    unfolding a_recv(1) by (auto simp: conn_inv_def)
next
  case (b_input sent d r k)
  have r: "reads MSS (msgs s) (length (got s)) (acc s) (side_b s)" "kcp_conv (side_b s) = conv"
    "authentic conv (msgs s) sent d"
    using assms(2) b_input(2) by (auto simp: conn_inv_def)
  have "honest (stream MSS (msgs s)) (acc s) d (side_b s)" by (rule authentic_honest [OF r(3,2) b_input(3)])
  from reads_input [OF r(1) this b_input(4)] show ?thesis
    using assms(2) conv_mss_input [of d "side_b s"] b_input(4) unfolding b_input(1) conn_inv_def by auto
next
  case (b_recv len r bytes k)
  have "reads MSS (msgs s) (length (got s)) (acc s) (side_b s)" "got s = take (length (got s)) (msgs s)" "sendable MSS (msgs s)"
    using assms(2) by (auto simp: conn_inv_def)
  from reads_recv [OF this b_recv(2)] show ?thesis
    using assms(2) conv_mss_frame(3) [of len "side_b s"] b_recv(2) unfolding b_recv(1) conn_inv_def by auto
next
  case (b_update now outs k)
  have "rx_same (side_b s) k" using rx_same_update [of "side_b s" now] b_update(2) by simp
  from reads_same [OF this] show ?thesis
    using assms(2) conv_mss_update [of now "side_b s"] b_update(2) unfolding b_update(1) conn_inv_def by auto
next
  case (b_send m r k)
  have "rx_same (side_b s) k" using rx_same_send [of "side_b s" m] b_send(2) by simp
  from reads_same [OF this] show ?thesis
    using assms(2) conv_mss_frame(1) [of m "side_b s"] b_send(2) unfolding b_send(1) conn_inv_def by auto
qed

lemma conn_start_inv:
  assumes "a = set_wndsize w1 w2 (set_nodelay x1 x2 x3 x4 (ikcp_create conv))"
    and "b = set_wndsize w3 w4 (set_nodelay y1 y2 y3 y4 (ikcp_create conv))" and "unat w4 < 2 ^ 31"
  shows "conn_inv conv (conn_start a b)"
proof -
  have "unat (max w4 IKCP_WND_RCV) < 2 ^ 31" using assms(3) by (simp add: max_def ikcp_consts)
  then have "unat (rcv_wnd b) < 2 ^ 31"
    by (auto simp: assms(2) set_wndsize_def set_nodelay_def ikcp_create_def Let_def ikcp_consts)
  moreover have "rcv_nxt b = 0" "rcv_queue b = []" "rcv_buf b = []" "kcp_conv b = conv"
    by (simp_all add: assms(2) set_wndsize_def set_nodelay_def ikcp_create_def Let_def)
  ultimately have "reads MSS [] 0 0 b" by (simp add: reads_def rx_inv_def stream_def)
  moreover have "kcp_conv a = conv" "sint (kcp_mss a) = MSS" "tx_wf a" "tx_seq 0 0 [] a" "tx_stream [] 0 [] a"
    by (simp_all add: assms(1) set_wndsize_def set_nodelay_def ikcp_create_def Let_def ikcp_consts MSS_def
        tx_wf_def tx_seq_def tx_stream_def stream_def)
  ultimately show ?thesis
    using \<open>kcp_conv b = conv\<close> by (auto simp: conn_inv_def conn_start_def sendable_def MSS_def)
qed

lemma conn_reach_inv: "conn_reach conv s \<Longrightarrow> conn_inv conv s"
proof (induction rule: conn_reach.induct)
  case (start a w1 w2 x1 x2 x3 x4 b w3 w4 y1 y2 y3 y4)
  then show ?case by (rule conn_start_inv)
next
  case (step s t)
  then show ?case by (blast intro: conn_step_inv)
qed

text \<open>
  C3: whatever the two applications and timers do and however the network treats the
  datagrams of \<open>A\<close> (loss, duplication, reordering, delay), and whatever \<open>A\<close> is sent
  in return, \<open>B\<close>'s \<open>recv\<close> has returned exactly the first messages that \<open>A\<close>'s \<open>send\<close>
  accepted: whole, in order, none twice and none invented.
\<close>

theorem kcp_connection_in_order:
  assumes "conn_reach conv s"
  shows "got s = take (length (got s)) (msgs s)"
  using conn_reach_inv [OF assms] unfolding conn_inv_def by blast

text \<open>A run: \<open>A\<close> sends the byte 7, its timer fires, the datagram arrives, \<open>B\<close> reads it.\<close>

definition run_a :: ikcp where
  "run_a = set_wndsize 0 0 (set_nodelay 1 10 2 1 (ikcp_create 9))"

definition run_b :: ikcp where
  "run_b = set_wndsize 0 0 (set_nodelay 1 10 2 1 (ikcp_create 9))"

definition run_seg :: ikcp_seg where
  "run_seg = ikcp_seg0\<lparr>seg_conv := 9, seg_cmd := IKCP_CMD_PUSH, seg_wnd := 128, seg_len := 1, seg_data := [7],
     seg_resendts := 200, seg_rto := 200, seg_xmit := 1\<rparr>"

lemma run_send: "kcp_send [7] run_a = (0, run_a\<lparr>snd_queue :=
    [ikcp_seg0\<lparr>seg_conv := 9, seg_cmd := IKCP_CMD_PUSH, seg_len := 1, seg_data := [7]\<rparr>]\<rparr>)"
  by (simp add: kcp_send_def run_a_def set_wndsize_def set_nodelay_def ikcp_create_def Let_def ikcp_consts ikcp_seg0_def)

lemma run_flush: "fst (kcp_update 0 (run_a\<lparr>snd_queue :=
    [ikcp_seg0\<lparr>seg_conv := 9, seg_cmd := IKCP_CMD_PUSH, seg_len := 1, seg_data := [7]\<rparr>]\<rparr>)) = [wire run_seg]"
  by (simp add: kcp_update_def kcp_flush_def run_a_def set_wndsize_def set_nodelay_def ikcp_create_def Let_def
      ikcp_consts ikcp_seg0_def ack_seg_def probe_window_def flush_probes_def send_window_def itimediff_def
      flush_seg_def resend_seg_def put_def make_room_def run_seg_def wire_def clamp_word_def)

lemma run_numbered: "snd_nxt (snd (kcp_update 0 (run_a\<lparr>snd_queue :=
    [ikcp_seg0\<lparr>seg_conv := 9, seg_cmd := IKCP_CMD_PUSH, seg_len := 1, seg_data := [7]\<rparr>]\<rparr>))) = 1 \<and> snd_nxt run_a = 0"
  by (simp add: kcp_update_def kcp_flush_def run_a_def set_wndsize_def set_nodelay_def ikcp_create_def Let_def
      ikcp_consts ikcp_seg0_def ack_seg_def probe_window_def flush_probes_def send_window_def itimediff_def
      flush_seg_def resend_seg_def put_def make_room_def congestion_def clamp_word_def)

lemma run_input: "kcp_input (wire run_seg) run_b =
   (0, run_b\<lparr>rcv_queue := [header_of run_seg\<lparr>seg_data := [7]\<rparr>], rcv_nxt := 1, acklist := [(0, 0)]\<rparr>)"
proof -
  have "parse_segs 9 (ikcp_encode_seg run_seg @ [7] @ []) = (0, [(header_of run_seg, [7] @ [])])"
    by (subst parse_segs_encode) (simp_all add: run_seg_def)
  then have p: "parse_segs 9 (wire run_seg) = (0, [(header_of run_seg, [7])])" by (simp add: wire_def run_seg_def)
  have "kcp_conv run_b = 9" by (simp add: run_b_def set_wndsize_def set_nodelay_def ikcp_create_def Let_def)
  then have "kcp_input (wire run_seg) run_b =
    (let st = input_segment (header_of run_seg) [7] (False, 0, run_b);
         k2 = (if fst st then parse_fastack (fst (snd st)) (snd (snd st)) else snd (snd st))
     in (0, if 0 < itimediff (snd_una k2) (snd_una run_b) then grow_cwnd k2 else k2))"
    by (simp add: kcp_input_def input_loop_eq p Let_def split_def) (simp add: wire_def)
  then show ?thesis
    by (simp add: run_b_def set_wndsize_def set_nodelay_def Let_def run_seg_def demo_eval clamp_word_def)
qed

lemma run_recv: "kcp_recv 10 (run_b\<lparr>rcv_queue := [header_of run_seg\<lparr>seg_data := [7]\<rparr>], rcv_nxt := 1, acklist := [(0, 0)]\<rparr>)
   = (1, [7], run_b\<lparr>rcv_queue := [], rcv_nxt := 1, acklist := [(0, 0)]\<rparr>)"
  by (simp add: run_b_def set_wndsize_def set_nodelay_def Let_def run_seg_def demo_eval clamp_word_def)

lemma run_reach: "\<exists>s. conn_reach 9 s \<and> msgs s = [[7]] \<and> got s = [[7]]"
proof -
  let ?q = "[ikcp_seg0\<lparr>seg_conv := 9, seg_cmd := IKCP_CMD_PUSH, seg_len := 1, seg_data := [7]\<rparr>]"
  let ?s0 = "conn_start run_a run_b"
  let ?s1 = "?s0\<lparr>side_a := run_a\<lparr>snd_queue := ?q\<rparr>, msgs := [[7]]\<rparr>"
  let ?k = "snd (kcp_update 0 (run_a\<lparr>snd_queue := ?q\<rparr>))"
  let ?s2 = "?s1\<lparr>side_a := ?k, numbered := 1, net := {(1, wire run_seg)}\<rparr>"
  let ?b1 = "run_b\<lparr>rcv_queue := [header_of run_seg\<lparr>seg_data := [7]\<rparr>], rcv_nxt := 1, acklist := [(0, 0)]\<rparr>"
  let ?s3 = "?s2\<lparr>side_b := ?b1, acc := 1\<rparr>"
  let ?b2 = "run_b\<lparr>rcv_queue := [], rcv_nxt := 1, acklist := [(0, 0)]\<rparr>"
  have s0: "conn_reach 9 ?s0" by (rule conn_reach.start [OF run_a_def run_b_def]) simp
  have "conn_step ?s0 ?s1" using a_send [of "[7]" ?s0 0 "run_a\<lparr>snd_queue := ?q\<rparr>"] run_send
    by (simp add: conn_start_def)
  with s0 have s1: "conn_reach 9 ?s1" by (rule conn_reach.step)
  have "kcp_update 0 (side_a ?s1) = ([wire run_seg], ?k)" using run_flush by (simp add: prod_eq_iff)
  moreover have "1 = numbered ?s1 + unat (snd_nxt ?k - snd_nxt (side_a ?s1))"
    using run_numbered by (simp add: conn_start_def)
  ultimately have "conn_step ?s1 ?s2" using a_update [of 0 ?s1 "[wire run_seg]" ?k 1] by (simp add: conn_start_def)
  with s1 have s2: "conn_reach 9 ?s2" by (rule conn_reach.step)
  have "rcv_wnd run_b = 128" "rcv_nxt run_b = 0"
    by (simp_all add: run_b_def set_wndsize_def set_nodelay_def ikcp_create_def Let_def ikcp_consts)
  then have "conn_step ?s2 ?s3"
    using b_input [of 1 "wire run_seg" ?s2 0 ?b1] run_input by (simp add: conn_start_def not_stale_def)
  with s2 have s3: "conn_reach 9 ?s3" by (rule conn_reach.step)
  have "conn_step ?s3 (?s3\<lparr>side_b := ?b2, got := [[7]]\<rparr>)"
    using b_recv [of 10 ?s3 1 "[7]" ?b2] run_recv by (simp add: conn_start_def)
  with s3 have "conn_reach 9 (?s3\<lparr>side_b := ?b2, got := [[7]]\<rparr>)" by (rule conn_reach.step)
  then show ?thesis by (intro exI conjI) (assumption | simp)+
qed

lemma kcp_connection_in_order_witness:
  "\<exists>s. conn_reach 9 s \<and> got s = [[7]] \<and> got s = take (length (got s)) (msgs s)"
proof -
  obtain s where "conn_reach 9 s" "got s = [[7]]" using run_reach by blast
  with kcp_connection_in_order [OF this(1)] show ?thesis by blast
qed

end
