(* ===== verification/Ikcp_Clock.thy ===== *)
theory Ikcp_Clock
  imports Ikcp_Connection
begin

section \<open>KCP: retransmission timeouts and the timer\<close>

subsection \<open>Retransmission timeouts stay bounded\<close>

definition rto_ok :: "ikcp \<Rightarrow> bool" where
  "rto_ok k \<longleftrightarrow> rx_minrto k \<le> rx_rto k \<and> rx_rto k \<le> IKCP_RTO_MAX \<and> (\<forall>s \<in> set (snd_buf k). seg_rto s \<le> IKCP_RTO_MAX)"

lemma rto_ok_create: "rto_ok (ikcp_create conv)"
  by (simp add: rto_ok_def ikcp_create_def ikcp_consts)

lemma update_ack_rto:
  assumes "rx_minrto k \<le> IKCP_RTO_MAX"
  shows "rx_minrto (update_ack i k) = rx_minrto k \<and> rx_minrto k \<le> rx_rto (update_ack i k)
    \<and> rx_rto (update_ack i k) \<le> IKCP_RTO_MAX"
  using assms by (auto simp: update_ack_def Let_def clamp_word_def)

lemma rto_ok_segment:
  assumes "rto_ok (snd (snd st))"
  shows "rto_ok (snd (snd (input_segment h p st))) \<and> rx_minrto (snd (snd (input_segment h p st))) = rx_minrto (snd (snd st))"
proof -
  obtain flag maxack k where st: "st = (flag, maxack, k)" by (cases st)
  have ok: "rto_ok k" using assms by (simp add: st)
  have min: "rx_minrto k \<le> IKCP_RTO_MAX" using ok by (auto simp: rto_ok_def)
  define good where "good x \<longleftrightarrow> rx_minrto x = rx_minrto k \<and> rx_minrto k \<le> rx_rto x \<and> rx_rto x \<le> IKCP_RTO_MAX" for x :: ikcp
  have fr: "good (shrink_buf x) = good x" "good (parse_una u x) = good x" "good (parse_ack u x) = good x"
    "good (parse_data s x) = good x" "good (x\<lparr>acklist := al\<rparr>) = good x" "good (x\<lparr>kcp_probe := pr\<rparr>) = good x"
    "good (x\<lparr>rmt_wnd := rw\<rparr>) = good x" for x u s al pr rw
    by (simp_all add: good_def shrink_buf_def parse_una_def parse_ack_def parse_data_def move_rcv_buf_to_queue_def
        Let_def split_def split: option.splits)
  have upd: "good x \<Longrightarrow> good (update_ack i x)" for x i
    using update_ack_rto [of x i] min by (simp add: good_def)
  have "good k" using ok by (simp add: good_def rto_ok_def)
  then have "good (snd (snd (input_segment h p st)))"
    unfolding input_segment_def st Let_def by (simp add: fr upd)
  then have r: "rx_minrto (snd (snd (input_segment h p st))) = rx_minrto k"
    "rx_minrto k \<le> rx_rto (snd (snd (input_segment h p st)))" "rx_rto (snd (snd (input_segment h p st))) \<le> IKCP_RTO_MAX"
    by (simp_all add: good_def)
  have "\<forall>s \<in> set (snd_buf (snd (snd (input_segment h p st)))). seg_rto s \<le> IKCP_RTO_MAX"
    using tx_sub_segment [of st h p] ok by (force simp: tx_sub_def rto_ok_def st)
  with r show ?thesis by (simp add: rto_ok_def st)
qed

lemma rto_ok_input:
  assumes "rto_ok k" "kcp_input d k = (r, k')"
  shows "rto_ok k'"
proof -
  have fold: "rto_ok (snd (snd st)) \<Longrightarrow> rto_ok (snd (snd (fold (\<lambda>hp. input_segment (fst hp) (snd hp)) segs st)))" for segs st
  proof (induction segs arbitrary: st)
    case (Cons hp segs)
    from Cons.IH rto_ok_segment [OF Cons.prems] show ?case by simp
  qed simp
  obtain c segs where p: "parse_segs (kcp_conv k) d = (c, segs)" by (cases "parse_segs (kcp_conv k) d")
  let ?st = "fold (\<lambda>hp. input_segment (fst hp) (snd hp)) segs (False, 0, k)"
  let ?k2 = "if fst ?st then parse_fastack (fst (snd ?st)) (snd (snd ?st)) else snd (snd ?st)"
  have st: "rto_ok (snd (snd ?st))" using fold [of "(False, 0, k)" segs] assms(1) by simp
  have "rto_ok (parse_fastack u x)" if "rto_ok x" for u x
    using that tx_sub_fastack [of x u] by (force simp: rto_ok_def tx_sub_def parse_fastack_def)
  then have k2: "rto_ok ?k2" using st by simp
  moreover have "rto_ok (grow_cwnd x) = rto_ok x" for x by (simp add: rto_ok_def grow_cwnd_def Let_def)
  ultimately have "rto_ok (grow_cwnd ?k2)" by simp
  moreover have "k' \<in> {k, snd (snd ?st), ?k2, grow_cwnd ?k2}"
    using assms(2) by (auto simp: kcp_input_def input_loop_eq p Let_def split_def split: if_splits)
  ultimately show ?thesis using st assms(1) k2 by (elim insertE emptyE) simp_all
qed

lemma resend_rto:
  assumes "seg_rto s \<le> IKCP_RTO_MAX" "rx_rto k \<le> IKCP_RTO_MAX" "resend_seg k resent rtomin s = Some (why, s')"
  shows "seg_rto s' \<le> IKCP_RTO_MAX"
  using assms by (auto simp: resend_seg_def Let_def split: if_splits)

lemma rto_ok_flush:
  assumes "rto_ok k"
  shows "rto_ok (snd (kcp_flush k))"
proof (cases "kcp_updated k = 0")
  case True
  with assms show ?thesis by (simp add: kcp_flush_def)
next
  case False
  have admit: "rto_ok x \<Longrightarrow> rto_ok (admit_loop win wnd q x)" for win wnd q x
  proof (induction win wnd q x rule: admit_loop.induct)
    case (2 win wnd seg rest k)
    then show ?case by (auto simp: rto_ok_def Let_def)
  qed (simp add: rto_ok_def)
  have mid: "rto_ok (flush_mid k)" unfolding flush_mid_def Let_def
    using assms by (intro admit) (simp add: rto_ok_def)
  have "seg_rto s \<le> IKCP_RTO_MAX" if elem: "s \<in> set (fst (flush_result k))" for s
  proof -
    obtain s0 where s0: "s0 \<in> set (snd_buf (flush_mid k))"
      "s = (case resend_seg (flush_mid k) (resent_of (flush_mid k)) (rtomin_of (flush_mid k)) s0 of
        None \<Rightarrow> s0 | Some r \<Rightarrow> (snd r)\<lparr>seg_ts := kcp_current (flush_mid k), seg_wnd := seg_wnd (ack_seg k),
          seg_una := rcv_nxt (flush_mid k)\<rparr>)"
      using elem by (auto simp: flush_result_def flush_segs_buf Let_def)
    have old: "seg_rto s0 \<le> IKCP_RTO_MAX" "rx_rto (flush_mid k) \<le> IKCP_RTO_MAX"
      using mid s0(1) by (auto simp: rto_ok_def)
    show ?thesis
    proof (cases "resend_seg (flush_mid k) (resent_of (flush_mid k)) (rtomin_of (flush_mid k)) s0")
      case (Some r)
      then show ?thesis using resend_rto [OF old, of _ _ "fst r" "snd r"] s0(2) by simp
    qed (use s0(2) old(1) in simp)
  qed
  moreover have "rx_rto (congestion l c r w x) = rx_rto x" "rx_minrto (congestion l c r w x) = rx_minrto x" for l c r w x
    by (simp_all add: congestion_def Let_def)
  ultimately show ?thesis using False mid by (simp add: kcp_flush_eq Let_def split_def rto_ok_def)
qed

lemma rto_ok_update: "rto_ok k \<Longrightarrow> rto_ok (snd (kcp_update now k))"
proof -
  assume ok: "rto_ok k"
  have upd: "rto_ok (k\<lparr>kcp_current := now, kcp_updated := u, ts_flush := t\<rparr>)" for u t
    using ok by (simp add: rto_ok_def)
  show ?thesis
    by (rule update_form [of now k]) (use upd rto_ok_flush in auto)
qed

text \<open>The growth of a segment's timeout at an expiry: its own timeout or the estimate in normal mode,
  half of its own with \<open>nodelay = 1\<close>, which is what every scheduler sets, half of the estimate beyond.\<close>

lemma resend_timeout_step:
  assumes "rto_ok k" "s \<in> set (snd_buf k)" "resend_seg k resent rtomin s = Some (Timeout, s')"
  shows "unat (seg_rto s') = min (unat (seg_rto s) +
    (if nodelay k = 0 then max (unat (seg_rto s)) (unat (rx_rto k))
     else unat (if nodelay k = 1 then seg_rto s else rx_rto k) div 2)) 60000"
proof -
  let ?d = "if nodelay k = 0 then max (seg_rto s) (rx_rto k) else (if nodelay k < 2 then seg_rto s else rx_rto k) div 2"
  have le: "unat (seg_rto s) \<le> 60000" "unat (rx_rto k) \<le> 60000"
    using assms(1,2) by (auto simp: rto_ok_def IKCP_RTO_MAX_def word_le_nat_alt)
  have one: "nodelay k < 2 \<longleftrightarrow> nodelay k = 0 \<or> nodelay k = 1"
    by (simp add: word_less_nat_alt word_unat_eq_iff less_2_cases_iff)
  have d: "unat ?d = (if nodelay k = 0 then max (unat (seg_rto s)) (unat (rx_rto k))
     else unat (if nodelay k = 1 then seg_rto s else rx_rto k) div 2)"
    by (auto simp: one unat_div max_def word_le_nat_alt)
  then have "unat ?d \<le> 60000" using le by auto
  then have sum: "unat (seg_rto s + ?d) = unat (seg_rto s) + unat ?d"
    using le(1) by (subst unat_add_lem [THEN iffD1]) auto
  have "seg_rto s' = min (seg_rto s + ?d) IKCP_RTO_MAX"
    using assms(3) by (simp add: resend_seg_def Let_def split: if_splits) auto
  then have "unat (seg_rto s') = min (unat (seg_rto s + ?d)) 60000"
    by (auto simp: min_def word_le_nat_alt IKCP_RTO_MAX_def)
  then show ?thesis unfolding sum d .
qed

text \<open>
  C30: the estimate \<open>rx_rto\<close> stays between \<open>rx_minrto\<close> and 60000 ms and every
  segment's timeout below 60000 ms, under any datagram and any timer call. Each expiry
  lets the segment's timeout grow until that cap: it at least doubles in normal mode
  (\<open>nodelay = 0\<close>), grows by half of itself with \<open>nodelay = 1\<close>, the mode of every KCP
  scheduler of the program, and by half of the estimate in the modes above.
\<close>

theorem kcp_rto_bounded:
  assumes "rto_ok k"
  shows "rto_ok (snd (kcp_input d k)) \<and> rto_ok (snd (kcp_update now k))
    \<and> (\<forall>s \<in> set (snd_buf k). \<forall>s'. resend_seg k resent rtomin s = Some (Timeout, s') \<longrightarrow>
         unat (seg_rto s') \<le> 60000
         \<and> (nodelay k = 0 \<longrightarrow> min (2 * unat (seg_rto s)) 60000 \<le> unat (seg_rto s'))
         \<and> (nodelay k = 1 \<longrightarrow> unat (seg_rto s') = min (unat (seg_rto s) + unat (seg_rto s) div 2) 60000)
         \<and> (1 < nodelay k \<longrightarrow> unat (seg_rto s') = min (unat (seg_rto s) + unat (rx_rto k) div 2) 60000))"
proof (intro conjI ballI allI impI)
  show "rto_ok (snd (kcp_input d k))" by (rule rto_ok_input [OF assms prod.collapse [symmetric]])
  show "rto_ok (snd (kcp_update now k))" by (rule rto_ok_update [OF assms])
next
  fix s s'
  assume "s \<in> set (snd_buf k)" "resend_seg k resent rtomin s = Some (Timeout, s')"
  note step = resend_timeout_step [OF assms this]
  show "unat (seg_rto s') \<le> 60000" unfolding step by simp
  show "min (2 * unat (seg_rto s)) 60000 \<le> unat (seg_rto s')" if "nodelay k = 0" unfolding step using that by simp
  show "unat (seg_rto s') = min (unat (seg_rto s) + unat (seg_rto s) div 2) 60000" if "nodelay k = 1"
    unfolding step using that by simp
  show "unat (seg_rto s') = min (unat (seg_rto s) + unat (rx_rto k) div 2) 60000" if "1 < nodelay k"
    unfolding step using that by auto
qed

text \<open>A block as the schedulers make it sends one byte at time 0; at time 200 the timeout of the fragment
  grows from 200 to 300.\<close>

lemma rto_ok_scheduler: "rto_ok (set_wndsize w1 w2 (set_nodelay 1 10 2 1 (ikcp_create conv)))"
  by (simp add: rto_ok_def set_wndsize_def set_nodelay_def ikcp_create_def Let_def ikcp_consts)

lemma kcp_rto_bounded_witness:
  "let k = (snd (kcp_update 0 (run_a\<lparr>snd_queue := [ikcp_seg0\<lparr>seg_conv := 9, seg_cmd := IKCP_CMD_PUSH, seg_len := 1, seg_data := [7]\<rparr>]\<rparr>)))\<lparr>kcp_current := 200\<rparr>
   in rto_ok (snd (kcp_update 200 k)) \<and> (\<exists>s'. snd_buf k = [run_seg] \<and> resend_seg k 2 0 run_seg = Some (Timeout, s') \<and> unat (seg_rto s') = 300)"
proof -
  let ?k0 = "run_a\<lparr>snd_queue := [ikcp_seg0\<lparr>seg_conv := 9, seg_cmd := IKCP_CMD_PUSH, seg_len := 1, seg_data := [7]\<rparr>]\<rparr>"
  let ?k1 = "snd (kcp_update 0 ?k0)" and ?s' = "run_seg\<lparr>seg_xmit := 2, seg_rto := 300, seg_resendts := 500\<rparr>"
  have "rto_ok ?k0" using rto_ok_scheduler [of 0 0 9] by (simp add: rto_ok_def run_a_def)
  then have ok: "rto_ok (?k1\<lparr>kcp_current := 200\<rparr>)" using rto_ok_update [of ?k0 0] by (simp add: rto_ok_def)
  have k: "snd_buf ?k1 = [run_seg]" "nodelay ?k1 = 1"
    by (simp_all add: kcp_update_def kcp_flush_def run_a_def set_wndsize_def set_nodelay_def ikcp_create_def Let_def
      ikcp_consts ikcp_seg0_def ack_seg_def probe_window_def flush_probes_def send_window_def itimediff_def
      flush_seg_def resend_seg_def put_def make_room_def congestion_def clamp_word_def run_seg_def)
  then have r: "resend_seg (?k1\<lparr>kcp_current := 200\<rparr>) 2 0 run_seg = Some (Timeout, ?s')"
    by (simp add: resend_seg_def run_seg_def ikcp_seg0_def itimediff_def Let_def IKCP_RTO_MAX_def)
  from kcp_rto_bounded [OF ok, of _ 200 2 0] have "rto_ok (snd (kcp_update 200 (?k1\<lparr>kcp_current := 200\<rparr>)))"
    "unat (seg_rto ?s') = min (unat (seg_rto run_seg) + unat (seg_rto run_seg) div 2) 60000"
    using r k by (simp_all add: run_seg_def)
  then have "rto_ok (snd (kcp_update 200 (?k1\<lparr>kcp_current := 200\<rparr>)))" "unat (seg_rto ?s') = 300"
    by (simp_all add: run_seg_def)
  with r k show ?thesis unfolding Let_def by auto
qed

subsection \<open>When the timer runs next\<close>

text \<open>The delay \<open>check\<close> asks for never passes a retransmission that is not yet due.\<close>

lemma check_loop_spec:
  assumes "check_loop now segs tm = Some tm'"
  shows "tm' \<le> tm \<and> (\<forall>s \<in> set segs. 0 < itimediff (seg_resendts s) now \<and> int (unat tm') \<le> itimediff (seg_resendts s) now)
    \<and> (0 < tm \<longrightarrow> 0 < tm')"
  using assms
proof (induction now segs tm rule: check_loop.induct)
  case (2 now seg rest tm)
  let ?d = "itimediff (seg_resendts seg) now"
  have d: "0 < ?d" using "2.prems" by (auto simp: Let_def not_le split: if_splits)
  have ud: "int (unat (of_int ?d :: u32)) = ?d"
    using d itimediff_bounds(2) [of "seg_resendts seg" now] by (simp add: unsigned_of_int take_bit_int_eq_self)
  let ?tm = "if (of_int ?d :: u32) < tm then of_int ?d else tm"
  have rec: "check_loop now rest ?tm = Some tm'" using "2.prems" d by (simp add: Let_def split: if_splits)
  have IH: "tm' \<le> ?tm" "\<forall>s \<in> set rest. 0 < itimediff (seg_resendts s) now \<and> int (unat tm') \<le> itimediff (seg_resendts s) now"
    "0 < ?tm \<longrightarrow> 0 < tm'"
    using "2.IH" [OF refl _ rec] d by auto
  have "unat tm' \<le> unat (of_int ?d :: u32)"
    using IH(1) by (auto simp: word_le_nat_alt word_less_nat_alt split: if_splits)
  then have hd: "int (unat tm') \<le> ?d" using ud by linarith
  have "0 < (of_int ?d :: u32)" using ud d by (metis of_nat_0_less_iff unat_gt_0 word_gt_0)
  then have "0 < tm \<longrightarrow> 0 < tm'" using IH(3) by (auto split: if_splits)
  moreover have "tm' \<le> tm" using IH(1) by (auto split: if_splits)
  moreover have "\<forall>s \<in> set (seg # rest). 0 < itimediff (seg_resendts s) now \<and> int (unat tm') \<le> itimediff (seg_resendts s) now"
    using IH(2) hd d unfolding list.set by blast
  ultimately show ?case by blast
qed simp

lemma itimediff_swap:
  assumes "- (2 ^ 31) < itimediff a b"
  shows "itimediff b a = - itimediff a b"
proof -
  let ?d = "itimediff a b"
  have "b = a + of_int (- ?d)" by (simp add: itimediff_def)
  moreover have "itimediff (a + of_int (- ?d)) a = - ?d"
    using assms itimediff_bounds(2) [of a b] by (intro itimediff_offset) linarith+
  ultimately show ?thesis by metis
qed

lemma unat_itimediff: "0 \<le> itimediff a b \<Longrightarrow> int (unat (of_int (itimediff a b) :: u32)) = itimediff a b"
  using itimediff_bounds(2) [of a b] by (simp add: unsigned_of_int take_bit_int_eq_self)

text \<open>
  The time \<open>check\<close> returns is at most one interval ahead, is now when a flush or a
  retransmission is due, and otherwise passes neither the next flush nor any
  retransmission: a caller that sleeps until then is never late.
\<close>

theorem kcp_check_in_time:
  assumes "kcp_updated k \<noteq> 0" "t = kcp_check now k"
  shows "t - now \<le> kcp_interval k \<and> (0 \<le> itimediff now (ts_flush k) \<longrightarrow> t = now)
    \<and> (itimediff now (ts_flush k) < 0 \<longrightarrow> int (unat (t - now)) \<le> - itimediff now (ts_flush k))
    \<and> (\<forall>s \<in> set (snd_buf k). int (unat (t - now)) \<le> max 0 (itimediff (seg_resendts s) now))"
proof (cases "t = now")
  case False
  let ?slap = "itimediff now (ts_flush k)"
  have slap: "- 10000 \<le> ?slap" "?slap < 0"
    using False assms by (auto simp: kcp_check_def Let_def split: if_splits)
  obtain tm where tm: "check_loop now (snd_buf k) 0xffffffff = Some tm"
    using False assms slap by (auto simp: kcp_check_def Let_def split: option.splits)
  have sw: "itimediff (ts_flush k) now = - ?slap" using slap by (intro itimediff_swap) simp
  let ?f = "of_int (itimediff (ts_flush k) now) :: u32"
  have w: "t - now = min (min ?f tm) (kcp_interval k)"
    using False assms slap tm by (simp add: kcp_check_def Let_def)
  have "unat (t - now) \<le> unat ?f" "unat (t - now) \<le> unat tm" "t - now \<le> kcp_interval k"
    unfolding w by (auto simp: min_def word_le_nat_alt)
  moreover have "int (unat ?f) = - ?slap" using unat_itimediff [of "ts_flush k" now] sw slap by simp
  moreover have "\<forall>s \<in> set (snd_buf k). int (unat (t - now)) \<le> itimediff (seg_resendts s) now"
  proof
    fix s
    assume "s \<in> set (snd_buf k)"
    then have "int (unat tm) \<le> itimediff (seg_resendts s) now" using check_loop_spec [OF tm] by blast
    with \<open>unat (t - now) \<le> unat tm\<close> show "int (unat (t - now)) \<le> itimediff (seg_resendts s) now" by linarith
  qed
  ultimately have le: "t - now \<le> kcp_interval k" "int (unat (t - now)) \<le> - ?slap"
    "\<forall>s \<in> set (snd_buf k). int (unat (t - now)) \<le> itimediff (seg_resendts s) now"
    by (blast | linarith)+
  then show ?thesis using slap by (meson le_max_iff_disj not_le)
qed simp

lemma kcp_check_in_time_witness:
  "kcp_check 5 ((ikcp_create 9)\<lparr>kcp_updated := 1, ts_flush := 40\<rparr>) - 5 \<le> 100"
  using kcp_check_in_time [of "(ikcp_create 9)\<lparr>kcp_updated := 1, ts_flush := 40\<rparr>", OF _ refl, of 5]
  by (simp add: ikcp_create_def)

end
