(* ===== verification/Packet_Buffer.thy ===== *)
theory Packet_Buffer
  imports Prelude
begin

section \<open>The TCP receive buffer\<close>

text \<open>
  \<^verbatim>\<open>src/env/scheduler/net/tcp/common/struct.hh\<close>, lines 21-142: a ring of bytes
  whose \<open>_head\<close> and \<open>_tail\<close> are free-running \<^verbatim>\<open>size_t\<close> counters, masked only to
  address the bytes. \<open>make_iovec\<close> yields the free space for \<^verbatim>\<open>readv\<close> as at most
  two (offset, length) pairs, \<open>handle_data\<close> shows the first bytes to a callback
  as no, one or two spans. \<open>scatter\<close> is what \<^verbatim>\<open>readv\<close> documents: it fills the
  spans in order with the bytes that arrived.
\<close>

record packet_buffer =
  pb_data :: "byte list"
  pb_size :: u64
  pb_head :: u64
  pb_tail :: u64

text \<open>The constructor with the (unspecified) fresh memory; \<open>None\<close> is the failed assertion.\<close>

definition pb_new :: "byte list \<Rightarrow> u32 \<Rightarrow> packet_buffer option" where
  "pb_new mem sz =
     (if sz AND (sz - 1) \<noteq> 0 then None
      else Some \<lparr>pb_data = take (unat sz) mem, pb_size = ucast sz, pb_head = 0, pb_tail = 0\<rparr>)"

definition pb_available :: "packet_buffer \<Rightarrow> u64" where
  "pb_available b = pb_size b - (pb_tail b - pb_head b)"

definition pb_used :: "packet_buffer \<Rightarrow> u64" where
  "pb_used b = pb_tail b - pb_head b"

definition pb_head_at :: "packet_buffer \<Rightarrow> u64" where
  "pb_head_at b = pb_head b AND (pb_size b - 1)"

definition pb_tail_at :: "packet_buffer \<Rightarrow> u64" where
  "pb_tail_at b = pb_tail b AND (pb_size b - 1)"

definition make_iovec :: "packet_buffer \<Rightarrow> (u64 \<times> u64) list" where
  "make_iovec b =
     (let t = pb_tail_at b; avail = pb_available b; first_len = pb_size b - t in
      if avail \<le> first_len then [(t, avail)]
      else [(t, first_len), (0, avail - first_len)])"

text \<open>The three calls a callback of \<open>handle_data\<close> has to answer.\<close>

datatype view = No_View | View1 "byte list" | View2 "byte list" "byte list"

definition handle_data :: "u64 \<Rightarrow> u64 \<Rightarrow> (view \<Rightarrow> 'r) \<Rightarrow> packet_buffer \<Rightarrow> 'r" where
  "handle_data start len f b =
     (let h = unat (pb_head_at b) in
      if pb_used b < len then f No_View
      else if start + len \<le> pb_size b then f (View1 (take (unat len) (drop h (pb_data b))))
      else f (View2 (take (unat (pb_size b - pb_head_at b)) (drop h (pb_data b)))
                    (take (unat (len - (pb_size b - pb_head_at b))) (pb_data b))))"

definition handle_front :: "u64 \<Rightarrow> (view \<Rightarrow> 'r) \<Rightarrow> packet_buffer \<Rightarrow> 'r" where
  "handle_front len f b = handle_data (pb_head_at b) len f b"

definition forward_head :: "u64 \<Rightarrow> packet_buffer \<Rightarrow> packet_buffer" where
  "forward_head len b = b\<lparr>pb_head := pb_head b + len\<rparr>"

definition forward_tail :: "u64 \<Rightarrow> packet_buffer \<Rightarrow> packet_buffer" where
  "forward_tail len b = b\<lparr>pb_tail := pb_tail b + len\<rparr>"

definition overwrite :: "byte list \<Rightarrow> nat \<Rightarrow> byte list \<Rightarrow> byte list" where
  "overwrite mem i bs = take i mem @ bs @ drop (i + length bs) mem"

fun scatter :: "byte list \<Rightarrow> (u64 \<times> u64) list \<Rightarrow> byte list \<Rightarrow> byte list" where
  "scatter mem [] bs = mem"
| "scatter mem ((ofs, len) # vs) bs =
     scatter (overwrite mem (unat ofs) (take (unat len) bs)) vs (drop (unat len) bs)"

definition pb_readv :: "byte list \<Rightarrow> packet_buffer \<Rightarrow> packet_buffer" where
  "pb_readv bs b = b\<lparr>pb_data := scatter (pb_data b) (make_iovec b) bs\<rparr>"

subsection \<open>Invariant and contents\<close>

definition pb_inv :: "packet_buffer \<Rightarrow> bool" where
  "pb_inv b \<longleftrightarrow> pow2 (pb_size b) \<and> unat (pb_size b) \<le> 2 ^ 31
     \<and> length (pb_data b) = unat (pb_size b) \<and> unat (pb_used b) \<le> unat (pb_size b)"

definition pb_contents :: "packet_buffer \<Rightarrow> byte list" where
  "pb_contents b = ring_slice (pb_data b) (unat (pb_head b)) (unat (pb_used b))"

definition view_bytes :: "view \<Rightarrow> byte list" where
  "view_bytes v = (case v of No_View \<Rightarrow> [] | View1 d \<Rightarrow> d | View2 d e \<Rightarrow> d @ e)"

lemma length_pb_contents [simp]: "length (pb_contents b) = unat (pb_used b)"
  by (simp add: pb_contents_def)

lemma pb_new_inv:
  assumes "pb_new mem sz = Some b" "sz \<noteq> 0" "length mem = unat sz"
  shows "pb_inv b \<and> pb_contents b = [] \<and> unat (pb_size b) = unat sz"
proof -
  have and0: "sz AND (sz - 1) = 0" and b: "b = \<lparr>pb_data = mem, pb_size = ucast sz, pb_head = 0, pb_tail = 0\<rparr>"
    using assms by (auto simp: pb_new_def split: if_splits)
  from and_pred_zero_pow2 [OF assms(2) and0] obtain k where k: "k < 32" "sz = 2 ^ k"
    by (auto simp: pow2_def)
  have "(ucast sz :: u64) = 2 ^ k"
    using k by (intro word_unat_eq_iff [THEN iffD2]) (simp add: unat_power_two unsigned_ucast_eq take_bit_nat_eq_self)
  moreover have "unat (ucast sz :: u64) = unat sz"
    using unsigned_less [of sz, where 'a = nat] by (simp add: unsigned_ucast_eq take_bit_nat_eq_self)
  moreover have "unat sz \<le> 2 ^ 31" using k power_increasing [of k 31 "2::nat"] by (simp add: unat_power_two)
  ultimately show ?thesis
    using k assms(3) by (auto simp: b pb_inv_def pb_used_def pb_contents_def pow2_def intro!: exI [of _ k])
qed

lemma unat_head_at: "pb_inv b \<Longrightarrow> unat (pb_head_at b) = unat (pb_head b) mod unat (pb_size b)"
  by (simp add: pb_head_at_def pb_inv_def unat_and_mask)

lemma unat_tail_at:
  assumes "pb_inv b"
  shows "unat (pb_tail_at b) = (unat (pb_head b) + unat (pb_used b)) mod unat (pb_size b)"
  using assms unat_add_and_mask [of "pb_size b" "pb_head b" "pb_used b"]
  by (simp add: pb_tail_at_def pb_inv_def pb_used_def)

lemma unat_available:
  assumes "pb_inv b"
  shows "unat (pb_available b) = unat (pb_size b) - length (pb_contents b)"
  using assms unat_sub [of "pb_used b" "pb_size b"]
  by (simp add: pb_available_def pb_inv_def word_le_nat_alt pb_used_def)

subsection \<open>Reading the front of the buffer\<close>

lemma handle_front_eq: "handle_front len f b = f (handle_front len id b)"
  by (simp add: handle_front_def handle_data_def Let_def)

lemma front_short: "unat (pb_used b) < unat len \<Longrightarrow> handle_front len id b = No_View"
  by (simp add: handle_front_def handle_data_def word_less_nat_alt)

lemma front_view:
  assumes inv: "pb_inv b" and len: "unat len \<le> unat (pb_used b)"
  shows "handle_front len id b \<noteq> No_View
    \<and> view_bytes (handle_front len id b) = take (unat len) (pb_contents b)"
proof -
  let ?h = "unat (pb_head_at b)" and ?L = "unat (pb_size b)"
  from inv have L: "?L < 2 ^ 32" "length (pb_data b) = ?L" "0 < ?L" "unat (pb_used b) \<le> ?L"
    by (auto simp: pb_inv_def pow2_pos)
  have h: "?h < ?L" using L(3) unat_head_at [OF inv] by simp
  have sum: "unat (pb_head_at b + len) = ?h + unat len"
    using h L len by (intro unat_add_lem [THEN iffD1]) simp
  have rest: "unat (pb_size b - pb_head_at b) = ?L - ?h"
    using h by (intro unat_sub) (simp add: word_le_nat_alt)
  have "take (unat len) (pb_contents b) = ring_slice (pb_data b) ?h (unat len)"
    using len L by (simp add: pb_contents_def unat_head_at [OF inv] ring_slice_def take_map mod_add_left_eq)
  also have "\<dots> = take (unat len) (drop ?h (pb_data b)) @ take (unat len - (?L - ?h)) (pb_data b)"
    using ring_slice_split [of ?h "pb_data b" "unat len"] h L len by simp
  finally have c: "take (unat len) (pb_contents b) = \<dots>" .
  show ?thesis
  proof (cases "?h + unat len \<le> ?L")
    case True
    with len c show ?thesis
      by (simp add: handle_front_def handle_data_def Let_def word_less_nat_alt word_le_nat_alt sum view_bytes_def)
  next
    case False
    have "unat (len - (pb_size b - pb_head_at b)) = unat len - (?L - ?h)"
      using False h by (subst unat_sub) (simp_all add: word_le_nat_alt rest)
    moreover have "take (unat len) (drop ?h (pb_data b)) = take (?L - ?h) (drop ?h (pb_data b))"
      using False L h by simp
    ultimately show ?thesis using False len c
      by (simp add: handle_front_def handle_data_def Let_def word_less_nat_alt word_le_nat_alt sum rest view_bytes_def)
  qed
qed

lemma forward_head_used: "pb_used (forward_head n b) = pb_used b - n"
  by (simp add: forward_head_def pb_used_def)

lemma forward_head_consumes:
  assumes inv: "pb_inv b" and n: "unat n \<le> unat (pb_used b)"
  shows "pb_inv (forward_head n b)" "pb_contents (forward_head n b) = drop (unat n) (pb_contents b)"
    "pb_size (forward_head n b) = pb_size b"
proof -
  have used: "unat (pb_used (forward_head n b)) = unat (pb_used b) - unat n"
    using n by (simp add: forward_head_used unat_sub word_le_nat_alt)
  show "pb_inv (forward_head n b)" using inv used by (auto simp: pb_inv_def forward_head_def)
  have d: "unat (pb_size b) dvd 2 ^ 64" using inv pow2_dvd [of "pb_size b"] by (simp add: pb_inv_def)
  have "unat (pb_head b + n) mod unat (pb_size b) = (unat (pb_head b) + unat n) mod unat (pb_size b)"
    using d by (simp add: unat_word_ariths mod_mod_cancel)
  then have "ring_slice (pb_data b) (unat (pb_head b + n)) m = ring_slice (pb_data b) (unat (pb_head b) + unat n) m" for m
    using inv ring_slice_mod [of "pb_data b" "unat (pb_head b + n)" m]
      ring_slice_mod [of "pb_data b" "unat (pb_head b) + unat n" m] by (simp add: pb_inv_def)
  then show "pb_contents (forward_head n b) = drop (unat n) (pb_contents b)"
    using n used by (simp add: pb_contents_def forward_head_def ring_slice_drop)
  show "pb_size (forward_head n b) = pb_size b" by (simp add: forward_head_def)
qed

subsection \<open>Filling the free space\<close>

lemma overwrite_length [simp]: "i + length bs \<le> length mem \<Longrightarrow> length (overwrite mem i bs) = length mem"
  by (simp add: overwrite_def)

lemma overwrite_nth:
  "i + length bs \<le> length mem \<Longrightarrow> j < length mem \<Longrightarrow>
    overwrite mem i bs ! j = (if i \<le> j \<and> j < i + length bs then bs ! (j - i) else mem ! j)"
  by (auto simp: overwrite_def nth_append)

lemma overwrite_Nil [simp]: "overwrite mem i [] = mem"
  by (simp add: overwrite_def)

definition wrap_write :: "byte list \<Rightarrow> nat \<Rightarrow> byte list \<Rightarrow> byte list" where
  "wrap_write mem t bs =
     overwrite (overwrite mem t (take (length mem - t) bs)) 0 (drop (length mem - t) bs)"

lemma wrap_write_length: "t < length mem \<Longrightarrow> length bs \<le> length mem \<Longrightarrow> length (wrap_write mem t bs) = length mem"
  by (simp add: wrap_write_def)

lemma wrap_write_nth:
  assumes t: "t < length mem" and bs: "length bs \<le> length mem" and j: "j < length mem"
  shows "wrap_write mem t bs ! j =
    (if t \<le> j \<and> j < t + length bs then bs ! (j - t)
     else if j + (length mem - t) < length bs then bs ! (j + (length mem - t)) else mem ! j)"
proof -
  let ?d = "length mem - t"
  have 1: "overwrite mem t (take ?d bs) ! j = (if t \<le> j \<and> j < t + length bs then bs ! (j - t) else mem ! j)"
    using t j by (subst overwrite_nth) auto
  have "overwrite (overwrite mem t (take ?d bs)) 0 (drop ?d bs) ! j
      = (if j < length bs - ?d then drop ?d bs ! j else overwrite mem t (take ?d bs) ! j)"
    using t j bs by (subst overwrite_nth) auto
  then show ?thesis unfolding wrap_write_def 1 using t bs by (auto simp: add.commute)
qed

lemma mod_wrap: "a < L \<Longrightarrow> k \<le> L \<Longrightarrow> (a + k) mod L = (if a + k < L then a + k else a + k - L)"
  for a k L :: nat
  by (simp add: le_mod_geq)

lemma wrap_write_slice:
  assumes h: "length mem = L" "n + length bs \<le> L" "0 < L"
  shows "ring_slice (wrap_write mem ((h + n) mod L) bs) h (n + length bs) = ring_slice mem h n @ bs"
proof (rule nth_equalityI)
  let ?t = "(h + n) mod L" and ?W = "wrap_write mem ((h + n) mod L) bs"
  have t: "?t < length mem" "length bs \<le> length mem" using h by simp_all
  have W: "length ?W = L" using wrap_write_length [OF t] h by simp
  fix i assume "i < length (ring_slice ?W h (n + length bs))"
  then have i: "i < n + length bs" by simp
  let ?j = "(h + i) mod L"
  have j: "?j < length mem" using h by simp
  have nth: "ring_slice ?W h (n + length bs) ! i = ?W ! ?j" using i W by (simp add: ring_slice_nth)
  show "ring_slice ?W h (n + length bs) ! i = (ring_slice mem h n @ bs) ! i"
  proof (cases "i < n")
    case True
    have ne: "?j \<noteq> (?t + k) mod L" if "k < length bs" for k
      using ring_mod_eq_iff [of i "n + k" L h] True that h by (auto simp: mod_add_left_eq add.assoc)
    have "\<not> (?t \<le> ?j \<and> ?j < ?t + length bs)"
    proof
      assume *: "?t \<le> ?j \<and> ?j < ?t + length bs"
      then have "?t + (?j - ?t) = ?j" by simp
      with ne [of "?j - ?t"] * h(1) j show False by simp
    qed
    moreover have "\<not> ?j + (L - ?t) < length bs"
      using ne [of "?j + (L - ?t)"] t h by auto
    ultimately show ?thesis
      using True h by (auto simp: nth wrap_write_nth [OF t j] nth_append ring_slice_nth)
  next
    case False
    then obtain k where k: "i = n + k" "k < length bs" using i by (metis le_add_diff_inverse nat_add_left_cancel_less not_less)
    have "?j = (?t + k) mod L" by (simp add: k mod_add_left_eq add.assoc)
    then have "?j = (if ?t + k < L then ?t + k else ?t + k - L)"
      using mod_wrap [of ?t L k] t h k by simp
    then show ?thesis
      unfolding nth wrap_write_nth [OF t j]
      using k t h by (auto simp: nth_append split: if_splits)
  qed
qed simp

lemma readv_wrap_write:
  assumes inv: "pb_inv b" and bs: "length bs \<le> unat (pb_available b)"
  shows "pb_data (pb_readv bs b) = wrap_write (pb_data b) (unat (pb_tail_at b)) bs"
proof -
  let ?t = "unat (pb_tail_at b)" and ?L = "unat (pb_size b)"
  have L: "length (pb_data b) = ?L" "0 < ?L" using inv by (auto simp: pb_inv_def pow2_pos)
  have t: "?t < ?L" using L(2) unat_tail_at [OF inv] by simp
  have first: "unat (pb_size b - pb_tail_at b) = ?L - ?t"
    using t by (intro unat_sub) (simp add: word_le_nat_alt)
  show ?thesis
  proof (cases "pb_available b \<le> pb_size b - pb_tail_at b")
    case True
    then have "length bs \<le> ?L - ?t" using bs first by (simp add: word_le_nat_alt)
    then show ?thesis using True bs L
      by (simp add: pb_readv_def make_iovec_def Let_def wrap_write_def)
  next
    case False
    then have "unat (pb_available b - (pb_size b - pb_tail_at b)) = unat (pb_available b) - (?L - ?t)"
      by (subst unat_sub) (simp_all add: word_le_nat_alt first)
    then show ?thesis using False bs L first
      by (simp add: pb_readv_def make_iovec_def Let_def wrap_write_def)
  qed
qed

lemma readv_appends:
  assumes inv: "pb_inv b" and bs: "length bs \<le> unat (pb_available b)" and n: "unat n = length bs"
  shows "pb_inv (forward_tail n (pb_readv bs b))"
    "pb_contents (forward_tail n (pb_readv bs b)) = pb_contents b @ bs"
    "pb_size (forward_tail n (pb_readv bs b)) = pb_size b"
proof -
  let ?b = "forward_tail n (pb_readv bs b)" and ?L = "unat (pb_size b)" and ?u = "unat (pb_used b)"
  from inv have L: "?L < 2 ^ 32" "length (pb_data b) = ?L" "0 < ?L" "?u \<le> ?L"
    by (auto simp: pb_inv_def pow2_pos)
  have room: "?u + length bs \<le> ?L" using bs unat_available [OF inv] L by simp
  have "pb_used ?b = pb_used b + n" by (simp add: forward_tail_def pb_readv_def pb_used_def)
  then have used: "unat (pb_used ?b) = ?u + length bs"
    using n room L by (simp add: unat_add_lem [THEN iffD1])
  have data: "pb_data ?b = wrap_write (pb_data b) (unat (pb_tail_at b)) bs"
    using readv_wrap_write [OF inv bs] by (simp add: forward_tail_def)
  have t: "unat (pb_tail_at b) < length (pb_data b)" "length bs \<le> length (pb_data b)"
    using L room unat_tail_at [OF inv] by simp_all
  show size: "pb_size ?b = pb_size b" by (simp add: forward_tail_def pb_readv_def)
  show "pb_inv ?b"
    using inv used room data wrap_write_length [OF t] by (simp add: pb_inv_def size)
  show "pb_contents ?b = pb_contents b @ bs"
    using wrap_write_slice [of "pb_data b" ?L ?u bs "unat (pb_head b)"] L room used data unat_tail_at [OF inv]
    by (simp add: pb_contents_def) (simp add: forward_tail_def pb_readv_def)
qed

end
