(* ===== verification/Tcp_Framing.thy ===== *)
theory Tcp_Framing
  imports Packet_Buffer Ikcp_Seg
begin

section \<open>TCP framing: unpackers, ring buffer layer, send requests\<close>

text \<open>
  \<^verbatim>\<open>src/env/scheduler/net/tcp/common/detail.hh\<close> (the unpackers) and
  \<^verbatim>\<open>layers.hh\<close> (\<open>tcp_ring_buffer\<close>, \<open>tcp_bind\<close>). A frame is its bytes with the
  32-bit length the code keeps beside them; a span of a send request is the
  bytes it points to. \<open>tcp_on_recv\<close> returns the frames in the order the layer
  hands them to \<^verbatim>\<open>on_frame\<close>. The specification \<open>deframe\<close> is the parser of
  length-prefixed byte streams; the round trip is stated over \<open>tcp_reads\<close>, the
  read loop of the schedulers fed from a byte stream with arbitrary read sizes.
\<close>

record net_frame =
  nf_data :: "byte list"
  nf_len :: u32

definition nf_none :: net_frame where
  "nf_none = \<lparr>nf_data = [], nf_len = 0\<rparr>"

definition read_pkt_len :: "view \<Rightarrow> u32" where
  "read_pkt_len v =
     (case v of
        No_View \<Rightarrow> 0xffffffff
      | View1 d \<Rightarrow> decode32u d
      | View2 d1 d2 \<Rightarrow> decode32u (d1 @ d2))"

definition frame_copier :: "view \<Rightarrow> net_frame" where
  "frame_copier v =
     (case v of
        No_View \<Rightarrow> nf_none
      | View1 d \<Rightarrow> \<lparr>nf_data = d, nf_len = of_nat (length d)\<rparr>
      | View2 d1 d2 \<Rightarrow> \<lparr>nf_data = d1 @ d2, nf_len = of_nat (length d1 + length d2)\<rparr>)"

text \<open>\<open>copy_out_frame\<close>: the length in the header counts the header itself.\<close>

definition copy_out_frame :: "packet_buffer \<Rightarrow> net_frame \<times> packet_buffer" where
  "copy_out_frame b =
     (let len = handle_front 4 read_pkt_len b in
      if len = 0xffffffff then (nf_none, b)
      else if pb_used b < ucast len then (nf_none, b)
      else let b1 = forward_head 4 b;
               payload_len = (ucast len :: u64) - 4;
               frame = handle_front payload_len frame_copier b1
           in (frame, if 0 < nf_len frame then forward_head payload_len b1 else b1))"

definition stream_unpack :: "packet_buffer \<Rightarrow> net_frame \<times> packet_buffer" where
  "stream_unpack b =
     (let used = pb_used b in
      if used = 0 then (nf_none, b)
      else let frame = handle_front used frame_copier b
           in (frame, if 0 < nf_len frame then forward_head used b else b))"

text \<open>Send requests; \<open>sr_vec\<close> holds the spans in use, \<open>sr_cnt\<close> their number.\<close>

record send_req =
  sr_fd :: int
  sr_frame :: net_frame
  sr_vec :: "byte list list"
  sr_cnt :: nat
  sr_hdr :: "byte list"

definition length_prefix_prepare_send :: "send_req \<Rightarrow> send_req" where
  "length_prefix_prepare_send r =
     (let len = nf_len (sr_frame r) + 4; hdr = encode32u len @ drop 4 (sr_hdr r) in
      r\<lparr>sr_hdr := hdr, sr_vec := [take 4 hdr, nf_data (sr_frame r)], sr_cnt := 2\<rparr>)"

definition stream_prepare_send :: "send_req \<Rightarrow> send_req" where
  "stream_prepare_send r = r\<lparr>sr_vec := [nf_data (sr_frame r)], sr_cnt := 1\<rparr>"

datatype session_status = St_Normal | St_Closed | St_Errors

record tcp_bind =
  tb_fd :: int
  tb_status :: session_status

definition tcp_bind_close :: "tcp_bind \<Rightarrow> tcp_bind" where
  "tcp_bind_close t =
     (let t1 = (if 0 \<le> tb_fd t then t\<lparr>tb_fd := - 1\<rparr> else t) in t1\<lparr>tb_status := St_Closed\<rparr>)"

definition tcp_bind_error :: "tcp_bind \<Rightarrow> tcp_bind" where
  "tcp_bind_error t = t\<lparr>tb_status := St_Errors\<rparr>"

text \<open>
  \<open>tcp_bind\<close>'s \<open>do_send\<close>: the request given to \<open>schedule_send\<close>. \<open>vecs\<close> are the
  caller's pre-built spans, used instead of \<open>prepare\<close> when there are any.
\<close>

definition tcp_do_send :: "(send_req \<Rightarrow> send_req) \<Rightarrow> tcp_bind \<Rightarrow> byte list \<Rightarrow> byte list list \<Rightarrow> send_req" where
  "tcp_do_send prepare t payload vecs =
     (let send = \<lparr>sr_fd = tb_fd t, sr_frame = \<lparr>nf_data = payload, nf_len = of_nat (length payload)\<rparr>,
                  sr_vec = [], sr_cnt = 0, sr_hdr = replicate 8 0\<rparr> in
      if 0 < length vecs then send\<lparr>sr_vec := vecs, sr_cnt := length vecs\<rparr> else prepare send)"

definition send_bytes :: "send_req \<Rightarrow> byte list" where
  "send_bytes r = concat (take (sr_cnt r) (sr_vec r))"

text \<open>The unpack loop of \<open>on_recv\<close>; \<open>None\<close> would be a loop that does not end.\<close>

partial_function (option) unpack_loop ::
  "(packet_buffer \<Rightarrow> net_frame \<times> packet_buffer) \<Rightarrow> packet_buffer \<Rightarrow> (net_frame list \<times> packet_buffer) option"
where
  "unpack_loop unpack b =
     (case unpack b of (frame, b1) \<Rightarrow>
        if nf_len frame = 0 then Some ([], b1)
        else Option.bind (unpack_loop unpack b1) (\<lambda>(frames, b2). Some (frame # frames, b2)))"

definition tcp_on_recv ::
  "(packet_buffer \<Rightarrow> net_frame \<times> packet_buffer) \<Rightarrow> 32 word \<Rightarrow> packet_buffer \<Rightarrow> (net_frame list \<times> packet_buffer) option"
where
  "tcp_on_recv unpack bytes b = unpack_loop unpack (forward_tail (scast bytes) b)"

text \<open>
  One turn of the schedulers' read loop (\<open>get_read_iov\<close>, \<open>readv\<close>, \<open>on_recv\<close>) on
  the pending byte stream: \<open>readv\<close> returns at most \<open>n\<close> bytes and never more than
  the spans hold. Several turns in a row.
\<close>

definition tcp_read ::
  "(packet_buffer \<Rightarrow> net_frame \<times> packet_buffer) \<Rightarrow> nat \<Rightarrow> byte list \<Rightarrow> packet_buffer
    \<Rightarrow> (net_frame list \<times> byte list \<times> packet_buffer) option" where
  "tcp_read unpack n stream b =
     (let bs = take (min n (sum_list (map (unat \<circ> snd) (make_iovec b)))) stream in
      Option.bind (tcp_on_recv unpack (of_nat (length bs)) (pb_readv bs b))
        (\<lambda>(frames, b1). Some (frames, drop (length bs) stream, b1)))"

fun tcp_reads ::
  "(packet_buffer \<Rightarrow> net_frame \<times> packet_buffer) \<Rightarrow> nat list \<Rightarrow> byte list \<Rightarrow> packet_buffer
    \<Rightarrow> (net_frame list \<times> byte list \<times> packet_buffer) option" where
  "tcp_reads unpack [] stream b = Some ([], stream, b)"
| "tcp_reads unpack (n # ns) stream b =
     Option.bind (tcp_read unpack n stream b) (\<lambda>(frames, stream1, b1).
       Option.bind (tcp_reads unpack ns stream1 b1) (\<lambda>(more, stream2, b2).
         Some (frames @ more, stream2, b2)))"

subsection \<open>The stream parser the unpacker implements\<close>

text \<open>
  \<open>deframe\<close> parses a byte string into payloads and the unconsumed rest. A header
  below 5 consumes itself and stops the parse, as the code does.
\<close>

function deframe :: "byte list \<Rightarrow> byte list list \<times> byte list" where
  "deframe bs =
     (let n = unat (decode32u bs) in
      if length bs < 4 \<or> length bs < n then ([], bs)
      else if n \<le> 4 then ([], drop 4 bs)
      else (let (ps, rest) = deframe (drop n bs) in (take (n - 4) (drop 4 bs) # ps, rest)))"
  by pat_completeness auto
termination by (relation "measure length") (auto simp: Let_def)

declare deframe.simps [simp del]

definition frame_of :: "byte list \<Rightarrow> net_frame" where
  "frame_of p = \<lparr>nf_data = p, nf_len = of_nat (length p)\<rparr>"

lemma decode32u_take: "4 \<le> n \<Longrightarrow> 4 \<le> length bs \<Longrightarrow> decode32u (take n bs) = decode32u bs"
  by (simp add: decode32u_def)

lemma read_pkt_len_view: "v \<noteq> No_View \<Longrightarrow> read_pkt_len v = decode32u (view_bytes v)"
  by (cases v) (auto simp: read_pkt_len_def view_bytes_def)

lemma frame_copier_view: "v \<noteq> No_View \<Longrightarrow> frame_copier v = frame_of (view_bytes v)"
  by (cases v) (auto simp: frame_copier_def view_bytes_def frame_of_def)

lemma u32_max: "unat (0xffffffff :: u32) = 2 ^ 32 - 1"
  by simp

lemma unat_ucast_u64 [simp]: "unat (ucast (w :: u32) :: u64) = unat w"
  using unsigned_less [of w, where 'a = nat] by (simp add: unsigned_ucast_eq take_bit_nat_eq_self)

lemma header_length:
  assumes inv: "pb_inv b" and len: "4 \<le> length (pb_contents b)"
  shows "handle_front 4 read_pkt_len b = decode32u (pb_contents b)"
proof -
  have "unat (4 :: u64) \<le> unat (pb_used b)" using len by simp
  from front_view [OF inv this] show ?thesis
    using len by (subst handle_front_eq) (simp add: read_pkt_len_view decode32u_take)
qed

lemma copy_out_incomplete:
  assumes inv: "pb_inv b"
    and c: "length (pb_contents b) < 4 \<or> length (pb_contents b) < unat (decode32u (pb_contents b))"
  shows "copy_out_frame b = (nf_none, b)"
proof (cases "length (pb_contents b) < 4")
  case True
  then have "handle_front 4 id b = No_View" using front_short [of b 4] by simp
  then show ?thesis
    by (simp add: copy_out_frame_def handle_front_eq [of 4 read_pkt_len] read_pkt_len_def)
next
  case False
  with c header_length [OF inv] show ?thesis
    by (simp add: copy_out_frame_def word_less_nat_alt Let_def)
qed

lemma frame_of_len: "length p < 2 ^ 32 \<Longrightarrow> nf_len (frame_of p) = 0 \<longleftrightarrow> p = []"
  by (auto simp: frame_of_def word_unat_eq_iff unat_of_nat take_bit_nat_eq_self)

lemma copy_out_complete:
  assumes inv: "pb_inv b" and len: "4 \<le> length (pb_contents b)"
    and n: "n = unat (decode32u (pb_contents b))" "n \<le> length (pb_contents b)" "4 < n"
  shows "\<exists>b1. copy_out_frame b = (frame_of (take (n - 4) (drop 4 (pb_contents b))), b1) \<and> pb_inv b1
    \<and> pb_size b1 = pb_size b \<and> pb_contents b1 = drop n (pb_contents b)"
proof -
  let ?c = "pb_contents b" and ?b1 = "forward_head 4 b" and ?p = "ucast (decode32u (pb_contents b)) - 4 :: u64"
  have lt: "length ?c \<le> 2 ^ 31" using inv by (simp add: pb_inv_def)
  have ne: "decode32u ?c \<noteq> 0xffffffff" using n lt by auto
  have p: "unat ?p = n - 4" using n by (subst unat_sub) (simp_all add: word_le_nat_alt)
  have four: "unat (4 :: u64) \<le> unat (pb_used b)" using len by simp
  from forward_head_consumes [OF inv four]
  have b1: "pb_inv ?b1" "pb_contents ?b1 = drop 4 ?c" "pb_size ?b1 = pb_size b" by simp_all
  have "length (pb_contents ?b1) = unat (pb_used ?b1)" by simp
  then have le: "unat ?p \<le> unat (pb_used ?b1)" unfolding b1(2) p using n by simp
  have frame: "handle_front ?p frame_copier ?b1 = frame_of (take (n - 4) (drop 4 ?c))"
    using front_view [OF b1(1) le] p b1(2) by (subst handle_front_eq) (simp add: frame_copier_view)
  have pos: "0 < nf_len (frame_of (take (n - 4) (drop 4 ?c)))"
    using n lt frame_of_len [of "take (n - 4) (drop 4 ?c)"] by (simp add: word_neq_0_conv [symmetric])
  have "copy_out_frame b = (frame_of (take (n - 4) (drop 4 ?c)), forward_head ?p ?b1)"
    using header_length [OF inv len] ne n frame pos
    by (simp add: copy_out_frame_def Let_def word_less_nat_alt)
  moreover have "pb_contents (forward_head ?p ?b1) = drop n ?c"
    using forward_head_consumes(2) [OF b1(1) le] p b1(2) n by simp
  ultimately show ?thesis
    using forward_head_consumes(1,3) [OF b1(1) le] b1(3) by simp
qed

lemma copy_out_small:
  assumes inv: "pb_inv b" and len: "4 \<le> length (pb_contents b)"
    and n: "unat (decode32u (pb_contents b)) \<le> 4"
  shows "\<exists>f. copy_out_frame b = (f, forward_head 4 b) \<and> nf_len f = 0
    \<and> pb_inv (forward_head 4 b) \<and> pb_contents (forward_head 4 b) = drop 4 (pb_contents b)"
proof -
  let ?c = "pb_contents b" and ?b1 = "forward_head 4 b" and ?p = "ucast (decode32u (pb_contents b)) - 4 :: u64"
  have four: "unat (4 :: u64) \<le> unat (pb_used b)" using len by simp
  from forward_head_consumes [OF inv four]
  have b1: "pb_inv ?b1" "pb_contents ?b1 = drop 4 ?c" by simp_all
  have "nf_len (handle_front ?p frame_copier ?b1) = 0"
  proof (cases "unat (decode32u ?c) = 4")
    case True
    then have "unat ?p = 0" by (subst unat_sub) (simp_all add: word_le_nat_alt)
    then have p: "?p = 0" by (simp add: unat_eq_0)
    show ?thesis using front_view [OF b1(1), of 0] unfolding p
      by (subst handle_front_eq) (simp add: frame_copier_view frame_of_def)
  next
    case False
    with n have "decode32u ?c < 4" by (simp add: word_less_nat_alt)
    then have "(ucast (decode32u ?c) :: u64) < 4" by (simp add: word_less_nat_alt)
    then have "2 ^ 63 < unat ?p"
      by (simp add: unat_sub_if' word_less_nat_alt)
    then have "handle_front ?p id ?b1 = No_View"
      using b1(1) by (intro front_short) (auto simp: pb_inv_def)
    then show ?thesis by (subst handle_front_eq) (simp add: frame_copier_def nf_none_def)
  qed
  moreover have "decode32u ?c \<noteq> 0xffffffff" "\<not> pb_used b < ucast (decode32u ?c)"
    using n len by (auto simp: word_less_nat_alt)
  ultimately show ?thesis
    using header_length [OF inv len] b1 by (simp add: copy_out_frame_def Let_def)
qed

subsection \<open>The receive loop implements the parser\<close>

lemma deframe_length: "length (snd (deframe bs)) \<le> length bs"
  by (induction bs rule: deframe.induct)
    (subst deframe.simps, auto simp: Let_def split: prod.splits)

lemma unpack_loop_deframe:
  assumes "pb_inv b"
  shows "\<exists>b1. unpack_loop copy_out_frame b = Some (map frame_of (fst (deframe (pb_contents b))), b1)
    \<and> pb_inv b1 \<and> pb_size b1 = pb_size b \<and> pb_contents b1 = snd (deframe (pb_contents b))"
  using assms
proof (induction "length (pb_contents b)" arbitrary: b rule: less_induct)
  case less
  let ?c = "pb_contents b" and ?n = "unat (decode32u (pb_contents b))"
  consider "length ?c < 4 \<or> length ?c < ?n" | "4 \<le> length ?c" "?n \<le> length ?c" "?n \<le> 4"
    | "4 \<le> length ?c" "?n \<le> length ?c" "4 < ?n" by linarith
  then show ?case
  proof cases
    case 1
    then have "copy_out_frame b = (nf_none, b)" using copy_out_incomplete [OF less.prems] by simp
    moreover have "deframe ?c = ([], ?c)" using 1 by (subst deframe.simps) (simp add: Let_def)
    ultimately show ?thesis using less.prems by (subst unpack_loop.simps) (simp add: nf_none_def)
  next
    case 2
    from copy_out_small [OF less.prems 2(1,3)] obtain f where
      f: "copy_out_frame b = (f, forward_head 4 b)" "nf_len f = 0" "pb_inv (forward_head 4 b)"
        "pb_contents (forward_head 4 b) = drop 4 ?c" by blast
    moreover have "deframe ?c = ([], drop 4 ?c)" using 2 by (subst deframe.simps) (simp add: Let_def)
    ultimately show ?thesis by (subst unpack_loop.simps) (simp add: forward_head_def)
  next
    case 3
    let ?p = "take (?n - 4) (drop 4 ?c)"
    from copy_out_complete [OF less.prems 3(1) refl 3(2,3)] obtain b1 where
      b1: "copy_out_frame b = (frame_of ?p, b1)" "pb_inv b1" "pb_size b1 = pb_size b"
        "pb_contents b1 = drop ?n ?c" by blast
    have "length ?c < 2 ^ 32" using less.prems by (simp add: pb_inv_def)
    then have ne: "nf_len (frame_of ?p) \<noteq> 0" using 3 by (subst frame_of_len) auto
    have "length (pb_contents b1) < length ?c" unfolding b1(4) using 3 by simp
    from less.hyps [OF this b1(2)] obtain b2 where
      b2: "unpack_loop copy_out_frame b1 = Some (map frame_of (fst (deframe (drop ?n ?c))), b2)"
        "pb_inv b2" "pb_size b2 = pb_size b" "pb_contents b2 = snd (deframe (drop ?n ?c))"
      using b1 by auto
    have "deframe ?c = (?p # fst (deframe (drop ?n ?c)), snd (deframe (drop ?n ?c)))"
      using 3 by (subst deframe.simps) (simp add: Let_def split_def)
    then show ?thesis using b1(1) b2 ne by (subst unpack_loop.simps) simp
  qed
qed

subsection \<open>Framed streams\<close>

definition tcp_wire :: "byte list \<Rightarrow> byte list" where
  "tcp_wire p = encode32u (of_nat (length p) + 4) @ p"

lemma tcp_do_send_bytes:
  "send_bytes (tcp_do_send length_prefix_prepare_send t p []) = tcp_wire p"
  by (simp add: tcp_do_send_def length_prefix_prepare_send_def send_bytes_def Let_def tcp_wire_def numeral_2_eq_2)

lemma tcp_wire_header:
  "length p + 4 < 2 ^ 32 \<Longrightarrow> unat (decode32u (tcp_wire p @ bs)) = length p + 4"
  using unat_of_nat [of "length p + 4", where 'a = 32] by (simp add: tcp_wire_def take_bit_nat_eq_self)

lemma deframe_wire:
  assumes "p \<noteq> []" "length p + 4 < 2 ^ 32"
  shows "deframe (tcp_wire p @ bs) = (p # fst (deframe bs), snd (deframe bs))"
proof -
  have "length (tcp_wire p) = length p + 4" "drop 4 (tcp_wire p @ bs) = p @ bs"
    by (simp_all add: tcp_wire_def)
  then show ?thesis
    using assms tcp_wire_header [OF assms(2), of bs]
    by (subst deframe.simps) (simp add: Let_def split_def)
qed

text \<open>Any prefix of a framed stream parses into the first payloads, with less than one frame left.\<close>

lemma deframe_prefix:
  assumes "c @ rest = concat (map tcp_wire qs)"
    and "\<forall>q \<in> set qs. q \<noteq> [] \<and> length q + 4 < 2 ^ 32"
  shows "\<exists>k \<le> length qs. fst (deframe c) = take k qs
    \<and> snd (deframe c) @ rest = concat (map tcp_wire (drop k qs))
    \<and> (if k < length qs then length (snd (deframe c)) < length (qs ! k) + 4 else snd (deframe c) = [])"
  using assms
proof (induction qs arbitrary: c)
  case Nil
  then show ?case by (subst (1 2 3 4) deframe.simps) simp
next
  case (Cons q qs)
  have q: "q \<noteq> []" "length q + 4 < 2 ^ 32" using Cons.prems(2) by auto
  have lenw: "length (tcp_wire q) = length q + 4" by (simp add: tcp_wire_def)
  show ?case
  proof (cases "length c < length q + 4")
    case True
    have "decode32u c = decode32u (tcp_wire q @ concat (map tcp_wire qs))" if "4 \<le> length c"
    proof -
      have "decode32u c = decode32u (c @ rest)"
        using that by (cases "c = []") (auto simp: decode32u_def nth_append)
      with Cons.prems(1) show ?thesis by simp
    qed
    then have "deframe c = ([], c)"
      using True tcp_wire_header [OF q(2)] by (subst deframe.simps) (auto simp: Let_def)
    with True Cons.prems(1) show ?thesis by (intro exI [of _ 0]) simp
  next
    case False
    then have c: "c = tcp_wire q @ drop (length q + 4) c"
      using Cons.prems(1) lenw append_take_drop_id [of "length q + 4" c]
      by (auto simp: append_eq_append_conv_if simp del: append_take_drop_id split: if_splits)
    let ?d = "drop (length q + 4) c"
    have "?d @ rest = concat (map tcp_wire qs)"
    proof -
      have "(tcp_wire q @ ?d) @ rest = concat (map tcp_wire (q # qs))"
        using Cons.prems(1) by (simp only: c [symmetric])
      then show ?thesis by simp
    qed
    from Cons.IH [OF this] Cons.prems(2) obtain k where k: "k \<le> length qs" "fst (deframe ?d) = take k qs"
      "snd (deframe ?d) @ rest = concat (map tcp_wire (drop k qs))"
      "if k < length qs then length (snd (deframe ?d)) < length (qs ! k) + 4 else snd (deframe ?d) = []"
      by auto
    have "deframe c = (q # fst (deframe ?d), snd (deframe ?d))"
      using deframe_wire [OF q, of ?d] c by simp
    with k show ?thesis by (intro exI [of _ "Suc k"]) simp
  qed
qed

subsection \<open>Reading a framed stream\<close>

lemma iovec_room:
  assumes inv: "pb_inv b"
  shows "sum_list (map (unat \<circ> snd) (make_iovec b)) = unat (pb_available b)"
proof (cases "pb_available b \<le> pb_size b - pb_tail_at b")
  case False
  then have "unat (pb_available b - (pb_size b - pb_tail_at b))
      = unat (pb_available b) - unat (pb_size b - pb_tail_at b)"
    by (intro unat_sub) simp
  with False show ?thesis by (simp add: make_iovec_def Let_def word_le_nat_alt)
qed (simp add: make_iovec_def Let_def)

lemma unat_scast_of_nat: "k < 2 ^ 31 \<Longrightarrow> unat (scast (of_nat k :: 32 word) :: u64) = k"
proof -
  assume k: "k < 2 ^ 31"
  have "(scast (of_nat k :: 32 word) :: u64) = of_int (sint (of_nat k :: 32 word))" by simp
  also have "sint (of_nat k :: 32 word) = int k"
    using k by (simp add: signed_of_nat signed_take_bit_int_eq_self)
  finally have "(scast (of_nat k :: 32 word) :: u64) = of_nat k" by simp
  with k show ?thesis by (simp add: unat_of_nat take_bit_nat_eq_self)
qed

definition fits :: "packet_buffer \<Rightarrow> byte list list \<Rightarrow> bool" where
  "fits b qs \<longleftrightarrow> (\<forall>q \<in> set qs. q \<noteq> [] \<and> length q + 4 \<le> unat (pb_size b))"

definition pending :: "byte list list \<Rightarrow> byte list \<Rightarrow> packet_buffer \<Rightarrow> bool" where
  "pending qs stream b \<longleftrightarrow> pb_inv b \<and> unat (pb_size b) < 2 ^ 31
     \<and> pb_contents b @ stream = concat (map tcp_wire qs)
     \<and> (case qs of [] \<Rightarrow> pb_contents b = [] | q # _ \<Rightarrow> length (pb_contents b) < length q + 4)"

lemma take_drop_length: "take k xs @ drop (length (take k xs)) xs = xs"
  by (cases "k \<le> length xs") auto

lemma tcp_read_pending:
  assumes p: "pending qs stream b" and f: "fits b qs" and n: "0 < n"
  shows "\<exists>k m b1. tcp_read copy_out_frame n stream b = Some (map frame_of (take k qs), drop m stream, b1)
    \<and> pending (drop k qs) (drop m stream) b1 \<and> fits b1 (drop k qs) \<and> (stream \<noteq> [] \<longrightarrow> 0 < m)"
proof -
  let ?bs = "take (min n (unat (pb_available b))) stream"
  let ?b1 = "forward_tail (scast (of_nat (length ?bs) :: 32 word)) (pb_readv ?bs b)"
  from p have inv: "pb_inv b" and sz: "unat (pb_size b) < 2 ^ 31"
    and str: "pb_contents b @ stream = concat (map tcp_wire qs)" by (auto simp: pending_def)
  have "unat (pb_available b) < 2 ^ 31" using unat_available [OF inv] sz by simp
  then have len: "unat (scast (of_nat (length ?bs) :: 32 word) :: u64) = length ?bs"
    by (intro unat_scast_of_nat) simp
  have "length ?bs \<le> unat (pb_available b)" by simp
  from readv_appends [OF inv this len]
  have b1: "pb_inv ?b1" "pb_contents ?b1 = pb_contents b @ ?bs" "pb_size ?b1 = pb_size b" by blast+
  from unpack_loop_deframe [OF b1(1)] obtain b2 where
    b2: "unpack_loop copy_out_frame ?b1 = Some (map frame_of (fst (deframe (pb_contents b @ ?bs))), b2)"
      "pb_inv b2" "pb_size b2 = pb_size b" "pb_contents b2 = snd (deframe (pb_contents b @ ?bs))"
    using b1(2,3) by auto
  let ?m = "length ?bs"
  have rest: "(pb_contents b @ ?bs) @ drop ?m stream = concat (map tcp_wire qs)"
    using str take_drop_length [of "min n (unat (pb_available b))" stream] by (simp only: append.assoc)
  have "\<forall>q \<in> set qs. q \<noteq> [] \<and> length q + 4 < 2 ^ 32"
    using f sz by (auto simp: fits_def)
  from deframe_prefix [OF rest this] obtain k where k: "k \<le> length qs"
    "fst (deframe (pb_contents b @ ?bs)) = take k qs"
    "snd (deframe (pb_contents b @ ?bs)) @ drop ?m stream = concat (map tcp_wire (drop k qs))"
    "if k < length qs then length (snd (deframe (pb_contents b @ ?bs))) < length (qs ! k) + 4
     else snd (deframe (pb_contents b @ ?bs)) = []" by blast
  have "pending (drop k qs) (drop ?m stream) b2"
  proof (cases "k < length qs")
    case True
    then show ?thesis using b2 sz k by (simp add: pending_def Cons_nth_drop_Suc [symmetric])
  next
    case False
    then show ?thesis using b2 sz k by (simp add: pending_def)
  qed
  moreover have "fits b2 (drop k qs)"
    using f b2(3) by (auto simp: fits_def dest: in_set_dropD)
  moreover have "0 < ?m" if "stream \<noteq> []"
  proof -
    from that str obtain q qs' where qs: "qs = q # qs'" by (cases qs) auto
    then have "length (pb_contents b) < unat (pb_size b)" using p f by (auto simp: pending_def fits_def)
    then have "0 < unat (pb_available b)" using unat_available [OF inv] by simp
    with n that show ?thesis by simp
  qed
  moreover have "tcp_read copy_out_frame n stream b = Some (map frame_of (take k qs), drop ?m stream, b2)"
    unfolding tcp_read_def iovec_room [OF inv] Let_def tcp_on_recv_def b2(1) k(2) by simp
  ultimately show ?thesis by blast
qed

lemma tcp_reads_pending:
  assumes "pending qs stream b" "fits b qs" "\<forall>n \<in> set ns. 0 < n"
  shows "\<exists>k stream1 b1. tcp_reads copy_out_frame ns stream b = Some (map frame_of (take k qs), stream1, b1)
    \<and> pending (drop k qs) stream1 b1 \<and> length stream1 \<le> length stream - length ns"
  using assms
proof (induction ns arbitrary: qs stream b)
  case Nil
  then show ?case by (auto intro!: exI [of _ 0])
next
  case (Cons n ns)
  have "0 < n" using Cons.prems(3) by simp
  from tcp_read_pending [OF Cons.prems(1,2) this] obtain k m b1 where
    1: "tcp_read copy_out_frame n stream b = Some (map frame_of (take k qs), drop m stream, b1)"
      "pending (drop k qs) (drop m stream) b1" "fits b1 (drop k qs)" "stream \<noteq> [] \<longrightarrow> 0 < m"
    by blast
  from Cons.IH [OF 1(2,3)] Cons.prems(3) obtain j stream1 b2 where
    2: "tcp_reads copy_out_frame ns (drop m stream) b1 = Some (map frame_of (take j (drop k qs)), stream1, b2)"
      "pending (drop j (drop k qs)) stream1 b2" "length stream1 \<le> length (drop m stream) - length ns" by auto
  have "tcp_reads copy_out_frame (n # ns) stream b = Some (map frame_of (take (k + j) qs), stream1, b2)"
    using 1(1) 2(1) by (simp add: take_add)
  moreover have "length stream1 \<le> length stream - length (n # ns)"
    using 2(3) 1(4) by (cases stream) auto
  moreover have "pending (drop (k + j) qs) stream1 b2" using 2(2) by (simp add: add.commute)
  ultimately show ?case by blast
qed

text \<open>
  C36: payloads that are not empty and fit the receive buffer with their header of four
  bytes, sent through \<open>tcp_bind\<close> with the length-prefix framing and read back with any positive read sizes, whatever way the ring of the receiver wraps and
  the stream is cut: the frames handed to \<open>on_frame\<close> are always exactly the
  first payloads in order, the loop always ends, and after as many reads as
  there are bytes every payload has been delivered and the buffer is empty. Neither
  condition on the payloads can be dropped: the library sends an empty payload like any
  other, and its frame stalls those behind it (\<open>tcp_empty_payload_stalls\<close>); for a
  payload that does not fit, \<open>make_iovec\<close> runs out of space before the frame is complete.
\<close>

theorem tcp_framing_roundtrip:
  assumes "pb_new mem sz = Some b" "sz \<noteq> 0" "length mem = unat sz" "unat sz < 2 ^ 31"
    and "\<forall>p \<in> set ps. p \<noteq> [] \<and> length p + 4 \<le> unat sz" "\<forall>n \<in> set ns. 0 < n"
    and "stream = concat (map (\<lambda>p. send_bytes (tcp_do_send length_prefix_prepare_send t p [])) ps)"
  shows "\<exists>k rest b1. tcp_reads copy_out_frame ns stream b = Some (map frame_of (take k ps), rest, b1)
    \<and> (length stream \<le> length ns \<longrightarrow> take k ps = ps \<and> rest = [] \<and> pb_used b1 = 0)"
proof -
  from pb_new_inv [OF assms(1-3)] have b: "pb_inv b" "pb_contents b = []" "unat (pb_size b) = unat sz" by auto
  have "pending ps stream b"
    using b assms(4,7) by (auto simp: pending_def tcp_do_send_bytes split: list.split)
  moreover have "fits b ps" using assms(5) b(3) by (simp add: fits_def)
  ultimately obtain k rest b1 where
    r: "tcp_reads copy_out_frame ns stream b = Some (map frame_of (take k ps), rest, b1)"
      "pending (drop k ps) rest b1" "length rest \<le> length stream - length ns"
    using tcp_reads_pending [OF _ _ assms(6)] by blast
  have "take k ps = ps \<and> rest = [] \<and> pb_used b1 = 0" if "length stream \<le> length ns"
  proof -
    from that r(3) have rest: "rest = []" by simp
    have "drop k ps = []"
    proof (rule ccontr)
      assume "drop k ps \<noteq> []"
      then obtain q qs where q: "drop k ps = q # qs" by (cases "drop k ps") auto
      have "length (pb_contents b1) < length q + 4" "pb_contents b1 @ rest = concat (map tcp_wire (q # qs))"
        using r(2) unfolding pending_def q list.case by blast+
      then have "length (concat (map tcp_wire (q # qs))) < length q + 4" by (simp only: rest append_Nil2)
      then show False by (simp add: tcp_wire_def)
    qed
    with r(2) rest show ?thesis by (auto simp: pending_def simp flip: unat_eq_0 length_pb_contents)
  qed
  with r(1) show ?thesis by blast
qed

lemma tcp_framing_roundtrip_witness:
  "\<exists>b1. tcp_reads copy_out_frame (replicate 11 1)
     (concat (map (\<lambda>p. send_bytes (tcp_do_send length_prefix_prepare_send \<lparr>tb_fd = 3, tb_status = St_Normal\<rparr> p [])) [[7], [8, 9]]))
     (the (pb_new (replicate 8 0) 8)) = Some ([frame_of [7], frame_of [8, 9]], [], b1)"
  using tcp_framing_roundtrip [where mem = "replicate 8 0" and sz = 8 and b = "the (pb_new (replicate 8 0) 8)"
      and ps = "[[7], [8, 9]]" and ns = "replicate 11 1" and t = "\<lparr>tb_fd = 3, tb_status = St_Normal\<rparr>", OF _ _ _ _ _ _ refl]
  by (auto simp: pb_new_def tcp_do_send_bytes tcp_wire_def encode32u_def)

text \<open>
  An empty payload breaks the framing. The frame of an empty payload, which
  \<open>prepare_send\<close> builds like any other, ends the receive loop: nothing is
  delivered for it, and every complete frame behind it stays in the buffer until
  more bytes happen to arrive.
\<close>

theorem tcp_empty_payload_stalls:
  assumes "pb_inv b" "pb_contents b = send_bytes (tcp_do_send length_prefix_prepare_send t [] []) @ bs"
  shows "\<exists>b1. unpack_loop copy_out_frame b = Some ([], b1) \<and> pb_contents b1 = bs"
proof -
  have "deframe (tcp_wire [] @ bs) = ([], bs)"
    using tcp_wire_header [of "[]" bs] by (subst deframe.simps) (simp add: Let_def tcp_wire_def)
  with unpack_loop_deframe [OF assms(1)] assms(2) show ?thesis
    by (auto simp: tcp_do_send_bytes)
qed

lemma tcp_empty_payload_stalls_witness:
  "\<exists>b1. unpack_loop copy_out_frame \<lparr>pb_data = [4, 0, 0, 0, 5, 0, 0, 0, 42, 0, 0, 0, 0, 0, 0, 0],
       pb_size = 16, pb_head = 0, pb_tail = 9\<rparr> = Some ([], b1) \<and> pb_contents b1 = tcp_wire [42]"
  using tcp_empty_payload_stalls [where b = "\<lparr>pb_data = [4, 0, 0, 0, 5, 0, 0, 0, 42, 0, 0, 0, 0, 0, 0, 0],
       pb_size = 16, pb_head = 0, pb_tail = 9\<rparr>" and t = "\<lparr>tb_fd = 3, tb_status = St_Normal\<rparr>" and bs = "tcp_wire [42]"]
  by (simp add: tcp_do_send_bytes tcp_wire_def encode32u_def pb_inv_def pb_contents_def pb_used_def
      ring_slice_def upt_rec pow2_def exI [of _ 4])

end
