(* ===== verification/Frame_Receiver.thy ===== *)
theory Frame_Receiver
  imports Local_Queue Tcp_Framing "HOL-Library.Multiset"
begin

section \<open>Frame receiver and session lifecycle\<close>

text \<open>
  \<^verbatim>\<open>src/env/scheduler/net/common\<close>: \<open>frame_receiver.hh\<close>, the session layer that
  matches frames coming up from the transport with \<open>recv\<close> requests coming down
  from the pipeline; \<open>session_lifecycle.hh\<close>, the layer that deletes the session
  when both its users are done; \<open>session.hh\<close>, the dispatch over the layers.
  A request is named by an identifier, and the callbacks of the code are events
  in the order of the calls. The two queues are the \<open>local::queue\<close> of the core,
  used through its \<open>bounded_fifo\<close> contract only.
\<close>

datatype 'r recv_event =
    Recv_Value 'r net_frame
  | Recv_Closed 'r
  | Recv_Failed 'r

record 'r frame_receiver =
  recv_q :: "'r lqueue"
  ready_q :: "net_frame lqueue"
  fr_closed :: bool

definition fr_new :: "'r \<Rightarrow> 'r frame_receiver" where
  "fr_new d = \<lparr>recv_q = the (lq_new d 1024), ready_q = the (lq_new nf_none 1024), fr_closed = False\<rparr>"

definition fr_on_frame :: "net_frame \<Rightarrow> 'r frame_receiver \<Rightarrow> 'r recv_event list \<times> 'r frame_receiver" where
  "fr_on_frame f s =
     (case lq_try_dequeue (recv_q s) of
        (Some r, q) \<Rightarrow> ([Recv_Value r f], s\<lparr>recv_q := q\<rparr>)
      | (None, q) \<Rightarrow> ([], s\<lparr>recv_q := q, ready_q := snd (lq_try_enqueue f (ready_q s))\<rparr>))"

definition fr_do_recv :: "'r \<Rightarrow> 'r frame_receiver \<Rightarrow> 'r recv_event list \<times> 'r frame_receiver" where
  "fr_do_recv r s =
     (if fr_closed s then ([Recv_Closed r], s)
      else case lq_try_dequeue (ready_q s) of
        (Some f, q) \<Rightarrow> ([Recv_Value r f], s\<lparr>ready_q := q\<rparr>)
      | (None, q) \<Rightarrow>
          (case lq_try_enqueue r (recv_q s) of
             (True, q') \<Rightarrow> ([], s\<lparr>ready_q := q, recv_q := q'\<rparr>)
           | (False, q') \<Rightarrow> ([Recv_Failed r], s\<lparr>ready_q := q, recv_q := q'\<rparr>)))"

text \<open>The two loops of \<open>on_error\<close>; a ring of capacity \<open>c\<close> is empty after less than \<open>c\<close> turns.\<close>

definition fr_on_error :: "'r frame_receiver \<Rightarrow> 'r recv_event list \<times> 'r frame_receiver" where
  "fr_on_error s =
     (let (rs, q1) = drain_loop (unat (lq_capacity (recv_q s))) lq_try_dequeue (recv_q s);
          (fs, q2) = drain_loop (unat (lq_capacity (ready_q s))) lq_try_dequeue (ready_q s) in
      (map Recv_Closed rs, s\<lparr>fr_closed := True, recv_q := q1, ready_q := q2\<rparr>))"

datatype 'r fr_op = Fr_Frame net_frame | Fr_Recv 'r | Fr_Error

fun fr_step :: "'r frame_receiver \<Rightarrow> 'r fr_op \<Rightarrow> 'r recv_event list \<times> 'r frame_receiver" where
  "fr_step s (Fr_Frame f) = fr_on_frame f s"
| "fr_step s (Fr_Recv r) = fr_do_recv r s"
| "fr_step s Fr_Error = fr_on_error s"

definition fr_run :: "'r frame_receiver \<Rightarrow> 'r fr_op list \<Rightarrow> 'r recv_event list \<times> 'r frame_receiver" where
  "fr_run s ops = (let (ess, s') = run_ops fr_step s ops in (concat ess, s'))"

subsection \<open>Session composition and lifecycle\<close>

text \<open>
  \<open>session_t\<close>: a layer answers a tag or does not; \<open>invoke\<close> dispatches to the
  first layer that does (\<open>None\<close> is the static assertion), \<open>broadcast\<close> to all.
\<close>

fun session_invoke :: "('t \<Rightarrow> ('s \<Rightarrow> 's) option) list \<Rightarrow> 't \<Rightarrow> 's \<Rightarrow> 's option" where
  "session_invoke [] tag s = None"
| "session_invoke (l # ls) tag s =
     (case l tag of Some h \<Rightarrow> Some (h s) | None \<Rightarrow> session_invoke ls tag s)"

fun session_broadcast :: "('t \<Rightarrow> ('s \<Rightarrow> 's) option) list \<Rightarrow> 't \<Rightarrow> 's \<Rightarrow> 's" where
  "session_broadcast [] tag s = s"
| "session_broadcast (l # ls) tag s =
     session_broadcast ls tag (case l tag of Some h \<Rightarrow> h s | None \<Rightarrow> s)"

record session_lifecycle =
  pipeline_active :: bool
  read_active :: bool

definition sl_new :: session_lifecycle where
  "sl_new = \<lparr>pipeline_active = True, read_active = True\<rparr>"

text \<open>\<open>True\<close> beside the new state: \<open>do_close\<close> was invoked and the session deleted.\<close>

definition sl_pipeline_end :: "session_lifecycle \<Rightarrow> bool \<times> session_lifecycle" where
  "sl_pipeline_end s =
     (if \<not> pipeline_active s then (False, s)
      else (\<not> read_active s, s\<lparr>pipeline_active := False\<rparr>))"

definition sl_read_end :: "session_lifecycle \<Rightarrow> bool \<times> session_lifecycle" where
  "sl_read_end s =
     (if \<not> read_active s then (False, s)
      else (\<not> pipeline_active s, s\<lparr>read_active := False\<rparr>))"

subsection \<open>The invariant and the events\<close>

abbreviation waiting :: "'r frame_receiver \<Rightarrow> 'r list" where
  "waiting s \<equiv> lq_contents (recv_q s)"

abbreviation ready :: "'r frame_receiver \<Rightarrow> net_frame list" where
  "ready s \<equiv> lq_contents (ready_q s)"

definition fr_inv :: "'r frame_receiver \<Rightarrow> bool" where
  "fr_inv s \<longleftrightarrow> lq_inv (recv_q s) \<and> lq_inv (ready_q s)
     \<and> length (waiting s) \<le> lq_room (recv_q s) \<and> length (ready s) \<le> lq_room (ready_q s)
     \<and> (waiting s = [] \<or> ready s = [])"

fun event_req :: "'r recv_event \<Rightarrow> 'r" where
  "event_req (Recv_Value r f) = r"
| "event_req (Recv_Closed r) = r"
| "event_req (Recv_Failed r) = r"

fun event_pair :: "'r recv_event \<Rightarrow> ('r \<times> net_frame) list" where
  "event_pair (Recv_Value r f) = [(r, f)]"
| "event_pair e = []"

definition delivered :: "'r recv_event list \<Rightarrow> ('r \<times> net_frame) list" where
  "delivered es = concat (map event_pair es)"

fun op_reqs :: "'r fr_op \<Rightarrow> 'r list" where
  "op_reqs (Fr_Recv r) = [r]"
| "op_reqs _ = []"

fun op_frames :: "'r fr_op \<Rightarrow> net_frame list" where
  "op_frames (Fr_Frame f) = [f]"
| "op_frames _ = []"

lemma lq_drain:
  assumes "lq_inv q" "length (lq_contents q) \<le> lq_room q"
  shows "\<exists>q'. drain_loop (unat (lq_capacity q)) lq_try_dequeue q = (lq_contents q, q') \<and> lq_inv q'
    \<and> lq_contents q' = [] \<and> lq_room q' = lq_room q"
proof -
  have "0 < unat (lq_capacity q)" using assms(1) pow2_pos [of "lq_capacity q"] by (auto simp: lq_inv_def)
  then have "length (lq_contents q) < unat (lq_capacity q)" using assms(2) by (simp add: lq_room_def)
  from lq.drain_all [OF assms(1) this] show ?thesis .
qed

text \<open>The three handlers in terms of the two lists.\<close>

lemma fr_on_frame_cases:
  assumes inv: "fr_inv s" and e: "fr_on_frame f s = (es, s')"
  shows "fr_inv s' \<and> lq_room (recv_q s') = lq_room (recv_q s) \<and> lq_room (ready_q s') = lq_room (ready_q s)
    \<and> fr_closed s' = fr_closed s
    \<and> (case waiting s of
         r # rs \<Rightarrow> es = [Recv_Value r f] \<and> waiting s' = rs \<and> ready s' = ready s
       | [] \<Rightarrow> es = [] \<and> waiting s' = []
           \<and> ready s' = (if length (ready s) < lq_room (ready_q s) then ready s @ [f] else ready s))"
proof (cases "waiting s")
  case Nil
  from inv have i: "lq_inv (recv_q s)" "lq_inv (ready_q s)" by (auto simp: fr_inv_def)
  from lq.deq_none [OF i(1) Nil] lq.enq_room [OF i(2), of f] lq.enq_full [OF i(2), of f]
  show ?thesis using Nil inv e by (cases "length (ready s) < lq_room (ready_q s)") (auto simp: fr_on_frame_def fr_inv_def)
next
  case (Cons r rs)
  from inv have i: "lq_inv (recv_q s)" by (auto simp: fr_inv_def)
  from lq.deq_some [OF i Cons] show ?thesis using Cons inv e by (auto simp: fr_on_frame_def fr_inv_def)
qed

lemma fr_do_recv_cases:
  assumes inv: "fr_inv s" and e: "fr_do_recv r s = (es, s')"
  shows "fr_inv s' \<and> lq_room (recv_q s') = lq_room (recv_q s) \<and> lq_room (ready_q s') = lq_room (ready_q s)
    \<and> fr_closed s' = fr_closed s
    \<and> (if fr_closed s then es = [Recv_Closed r] \<and> waiting s' = waiting s \<and> ready s' = ready s
       else case ready s of
         f # fs \<Rightarrow> es = [Recv_Value r f] \<and> waiting s' = waiting s \<and> ready s' = fs
       | [] \<Rightarrow> ready s' = [] \<and> (if length (waiting s) < lq_room (recv_q s)
             then es = [] \<and> waiting s' = waiting s @ [r] else es = [Recv_Failed r] \<and> waiting s' = waiting s))"
proof (cases "fr_closed s")
  case True
  with inv e show ?thesis by (auto simp: fr_do_recv_def)
next
  case open': False
  from inv have i: "lq_inv (recv_q s)" "lq_inv (ready_q s)" by (auto simp: fr_inv_def)
  show ?thesis
  proof (cases "ready s")
    case Nil
    from lq.deq_none [OF i(2) Nil] lq.enq_room [OF i(1), of r] lq.enq_full [OF i(1), of r]
    show ?thesis using Nil inv e open'
      by (cases "length (waiting s) < lq_room (recv_q s)") (auto simp: fr_do_recv_def fr_inv_def)
  next
    case (Cons f fs)
    from lq.deq_some [OF i(2) Cons] show ?thesis using Cons inv e open' by (auto simp: fr_do_recv_def fr_inv_def)
  qed
qed

lemma fr_on_error_cases:
  assumes inv: "fr_inv s" and e: "fr_on_error s = (es, s')"
  shows "fr_inv s' \<and> lq_room (recv_q s') = lq_room (recv_q s) \<and> lq_room (ready_q s') = lq_room (ready_q s)
    \<and> fr_closed s' \<and> es = map Recv_Closed (waiting s) \<and> waiting s' = [] \<and> ready s' = []"
  using inv e lq_drain [of "recv_q s"] lq_drain [of "ready_q s"]
  by (auto simp: fr_inv_def fr_on_error_def)

subsection \<open>Whole runs\<close>

lemma fr_run_simps:
  "fr_run s [] = ([], s)"
  "fr_run s (x # xs) = (let (es, s1) = fr_step s x; (es', s2) = fr_run s1 xs in (es @ es', s2))"
  by (auto simp: fr_run_def split_def Let_def)

lemma fr_new_inv:
  "fr_inv (fr_new d) \<and> waiting (fr_new d) = [] \<and> ready (fr_new d) = [] \<and> \<not> fr_closed (fr_new d)
    \<and> lq_room (recv_q (fr_new d)) = 1023 \<and> lq_room (ready_q (fr_new d)) = 1023"
proof -
  have "\<exists>q. lq_new x 1024 = Some q \<and> lq_inv q \<and> lq_contents q = [] \<and> lq_room q = 1023" for x :: 'x
    using lq_new_inv [of x 1024] by (auto simp: lq_new_def)
  from this [of d] this [of nf_none] show ?thesis by (auto simp: fr_new_def fr_inv_def)
qed

definition reqs :: "'r fr_op list \<Rightarrow> 'r list" where
  "reqs ops = concat (map op_reqs ops)"

definition frames :: "'r fr_op list \<Rightarrow> net_frame list" where
  "frames ops = concat (map op_frames ops)"

lemma reqs_frames_simps [simp]:
  "reqs [] = []" "frames [] = []" "reqs (x # xs) = op_reqs x @ reqs xs" "frames (x # xs) = op_frames x @ frames xs"
  "reqs (xs @ ys) = reqs xs @ reqs ys"
  by (simp_all add: reqs_def frames_def)

lemma delivered_simps [simp]:
  "delivered [] = []" "delivered (e # es) = event_pair e @ delivered es" "delivered (es @ es') = delivered es @ delivered es'"
  by (simp_all add: delivered_def)

lemma fr_run_matches:
  assumes "fr_inv s" "\<not> fr_closed s" "Fr_Error \<notin> set ops" "fr_run s ops = (es, s')"
    and "lq_room (recv_q s) = m" "lq_room (ready_q s) = m"
    and "\<And>k. length (ready s) + length (frames (take k ops)) \<le> length (waiting s) + length (reqs (take k ops)) + m"
    and "\<And>k. length (waiting s) + length (reqs (take k ops)) \<le> length (ready s) + length (frames (take k ops)) + m"
  shows "map fst (delivered es) @ waiting s' = waiting s @ reqs ops
    \<and> map snd (delivered es) @ ready s' = ready s @ frames ops \<and> fr_inv s'"
  using assms
proof (induction ops arbitrary: s es)
  case Nil
  then show ?case by (simp add: fr_run_simps)
next
  case (Cons x ops)
  obtain es1 s1 where 1: "fr_step s x = (es1, s1)" by (cases "fr_step s x")
  obtain es2 where 2: "fr_run s1 ops = (es2, s')" "es = es1 @ es2"
    using Cons.prems(4) 1 by (auto simp: fr_run_simps Let_def split: prod.splits)
  have k1: "length (ready s) + length (op_frames x) \<le> length (waiting s) + length (op_reqs x) + m"
    "length (waiting s) + length (op_reqs x) \<le> length (ready s) + length (op_frames x) + m"
    using Cons.prems(7) [of 1] Cons.prems(8) [of 1] by simp_all
  have one: "waiting s = [] \<or> ready s = []" using Cons.prems(1) by (simp add: fr_inv_def)
  have step: "fr_inv s1 \<and> \<not> fr_closed s1 \<and> lq_room (recv_q s1) = m \<and> lq_room (ready_q s1) = m
    \<and> map fst (delivered es1) @ waiting s1 = waiting s @ op_reqs x
    \<and> map snd (delivered es1) @ ready s1 = ready s @ op_frames x"
  proof (cases x)
    case (Fr_Frame f)
    with 1 fr_on_frame_cases [OF Cons.prems(1), of f es1 s1] Cons.prems(2,5,6) k1 one show ?thesis
      by (cases "waiting s") auto
  next
    case (Fr_Recv r)
    with 1 fr_do_recv_cases [OF Cons.prems(1), of r es1 s1] Cons.prems(2,5,6) k1 one show ?thesis
      by (cases "ready s") auto
  next
    case Fr_Error
    with Cons.prems(3) show ?thesis by simp
  qed
  have len: "length (delivered es1) + length (waiting s1) = length (waiting s) + length (op_reqs x)"
    "length (delivered es1) + length (ready s1) = length (ready s) + length (op_frames x)"
    using step by (metis length_append length_map)+
  have "length (ready s1) + length (frames (take k ops)) \<le> length (waiting s1) + length (reqs (take k ops)) + m" for k
    using Cons.prems(7) [of "Suc k"] len by simp
  moreover have "length (waiting s1) + length (reqs (take k ops)) \<le> length (ready s1) + length (frames (take k ops)) + m" for k
    using Cons.prems(8) [of "Suc k"] len by simp
  ultimately have "map fst (delivered es2) @ waiting s' = waiting s1 @ reqs ops
    \<and> map snd (delivered es2) @ ready s' = ready s1 @ frames ops \<and> fr_inv s'"
    using Cons.IH [of s1 es2] step Cons.prems(3) 2(1) by simp
  then show ?case using step 2(2) by simp
qed

lemma fr_run_answers:
  assumes "fr_inv s" "fr_run s ops = (es, s')"
  shows "mset (map event_req es) + mset (waiting s') = mset (waiting s) + mset (reqs ops) \<and> fr_inv s'
    \<and> (fr_closed s \<longrightarrow> fr_closed s')
    \<and> (fr_closed s \<and> waiting s = [] \<longrightarrow> waiting s' = [])"
  using assms
proof (induction ops arbitrary: s es)
  case Nil
  then show ?case by (simp add: fr_run_simps)
next
  case (Cons x ops)
  obtain es1 s1 where 1: "fr_step s x = (es1, s1)" by (cases "fr_step s x")
  obtain es2 where 2: "fr_run s1 ops = (es2, s')" "es = es1 @ es2"
    using Cons.prems(2) 1 by (auto simp: fr_run_simps Let_def split: prod.splits)
  have step: "mset (map event_req es1) + mset (waiting s1) = mset (waiting s) + mset (op_reqs x) \<and> fr_inv s1
    \<and> (fr_closed s \<longrightarrow> fr_closed s1) \<and> (fr_closed s \<and> waiting s = [] \<longrightarrow> waiting s1 = [])"
  proof (cases x)
    case (Fr_Frame f)
    with 1 fr_on_frame_cases [OF Cons.prems(1), of f es1 s1] show ?thesis by (cases "waiting s") auto
  next
    case (Fr_Recv r)
    with 1 fr_do_recv_cases [OF Cons.prems(1), of r es1 s1] show ?thesis
      by (cases "ready s") (auto split: if_splits)
  next
    case Fr_Error
    with 1 fr_on_error_cases [OF Cons.prems(1), of es1 s1] show ?thesis by (simp add: comp_def)
  qed
  from Cons.IH [OF _ 2(1)] step have ih: "mset (map event_req es2) + mset (waiting s') = mset (waiting s1) + mset (reqs ops)"
    "fr_inv s'" "fr_closed s1 \<longrightarrow> fr_closed s'" "fr_closed s1 \<and> waiting s1 = [] \<longrightarrow> waiting s' = []" by blast+
  have "mset (map event_req es) + mset (waiting s') = mset (map event_req es1) + (mset (waiting s1) + mset (reqs ops))"
    unfolding ih(1) [symmetric] by (simp add: 2(2))
  also have "\<dots> = mset (waiting s) + mset (reqs (x # ops))"
    using step by (simp flip: add.assoc)
  finally show ?case using ih step by blast
qed

lemma fr_run_append:
  "fr_run s (xs @ ys) = (let (es, s1) = fr_run s xs; (es', s2) = fr_run s1 ys in (es @ es', s2))"
  by (induction xs arbitrary: s) (auto simp: fr_run_simps Let_def split: prod.splits)

text \<open>
  Until an error closes the session, requests and frames are matched in order
  and none is lost or duplicated: the pairs delivered are the first requests
  with the first frames, the rest waits, and not both kinds wait at once. The
  hypothesis is that neither side ever runs more than the 1023 places of its
  queue ahead of the other.
\<close>

theorem frame_receiver_matches_in_order:
  assumes "Fr_Error \<notin> set ops" "fr_run (fr_new d) ops = (es, s)"
    and "\<And>k. length (frames (take k ops)) \<le> length (reqs (take k ops)) + 1023"
    and "\<And>k. length (reqs (take k ops)) \<le> length (frames (take k ops)) + 1023"
  shows "map fst (delivered es) @ waiting s = reqs ops \<and> map snd (delivered es) @ ready s = frames ops
    \<and> (waiting s = [] \<or> ready s = [])"
  using fr_run_matches [OF _ _ assms(1,2)] fr_new_inv [of d] assms(3,4) by (auto simp: fr_inv_def)

lemma frame_receiver_matches_in_order_witness:
  "case fr_run (fr_new (0::nat)) [Fr_Frame (frame_of [1]), Fr_Recv 5, Fr_Recv 6, Fr_Recv 7, Fr_Frame (frame_of [2])] of
     (es, s) \<Rightarrow> map fst (delivered es) @ waiting s = [5, 6, 7]
       \<and> map snd (delivered es) @ ready s = [frame_of [1], frame_of [2]]"
  using frame_receiver_matches_in_order [where d = "0::nat"
      and ops = "[Fr_Frame (frame_of [1]), Fr_Recv 5, Fr_Recv 6, Fr_Recv 7, Fr_Frame (frame_of [2])]",
      OF _ prod.collapse [symmetric]]
  by (simp add: take_Cons' split_def)

text \<open>
  C37: every \<open>recv\<close> request is answered exactly once, whatever happens: the answers
  of a run that contains a session error are the requests issued before and
  after it, each once, with the frames arriving in any order and any queue
  overflowing.
\<close>

theorem frame_receiver_answers_once:
  assumes "fr_run (fr_new d) (ops @ Fr_Error # later) = (es, s)"
  shows "mset (map event_req es) = mset (reqs (ops @ later))"
proof -
  obtain es1 s1 where 1: "fr_run (fr_new d) ops = (es1, s1)" by (cases "fr_run (fr_new d) ops")
  obtain es2 s2 where 2: "fr_on_error s1 = (es2, s2)" by (cases "fr_on_error s1")
  obtain es3 where 3: "fr_run s2 later = (es3, s)" "es = es1 @ es2 @ es3"
    using assms 1 2 by (auto simp: fr_run_append fr_run_simps Let_def split: prod.splits)
  have a1: "mset (map event_req es1) + mset (waiting s1) = mset (reqs ops)" "fr_inv s1"
    using fr_run_answers [OF _ 1] fr_new_inv [of d] by auto
  have a2: "fr_inv s2" "fr_closed s2" "waiting s2 = []" "map event_req es2 = waiting s1"
    using fr_on_error_cases [OF a1(2) 2] by (auto simp: comp_def)
  have a3: "mset (map event_req es3) = mset (reqs later)"
    using fr_run_answers [OF a2(1) 3(1)] a2 by auto
  show ?thesis using a1 a2 a3 3(2) by simp
qed

lemma frame_receiver_answers_once_witness:
  "mset (map event_req (fst (fr_run (fr_new (0::nat))
      ([Fr_Recv 5, Fr_Recv 6, Fr_Frame (frame_of [1])] @ Fr_Error # [Fr_Recv 7])))) = {#5, 6, 7#}"
  using frame_receiver_answers_once [where d = "0::nat"
      and ops = "[Fr_Recv 5, Fr_Recv 6, Fr_Frame (frame_of [1])]" and later = "[Fr_Recv 7]", OF prod.collapse [symmetric]]
  by simp

text \<open>
  The lifecycle layer deletes the session exactly when the second of the two
  ends arrives, and repeated ends before that change nothing.
\<close>

fun sl_run :: "session_lifecycle \<Rightarrow> bool list \<Rightarrow> bool" where
  "sl_run s [] = False"
| "sl_run s (pipeline # es) =
     (let (deleted, s') = (if pipeline then sl_pipeline_end s else sl_read_end s) in
      deleted \<or> sl_run s' es)"

lemma sl_run_state:
  "pipeline_active s \<or> read_active s \<Longrightarrow>
    sl_run s es \<longleftrightarrow> (pipeline_active s \<longrightarrow> True \<in> set es) \<and> (read_active s \<longrightarrow> False \<in> set es)"
  by (induction es arbitrary: s)
    (auto simp: sl_pipeline_end_def sl_read_end_def Let_def split: if_splits)

lemma sl_deletes_once: "sl_run sl_new es \<longleftrightarrow> True \<in> set es \<and> False \<in> set es"
  by (subst sl_run_state) (auto simp: sl_new_def)

end
