(* ===== verification/Rpc_Frame.thy ===== *)
theory Rpc_Frame
  imports Ikcp_Seg
begin

section \<open>RPC frames and the server\<close>

text \<open>
  \<^verbatim>\<open>src/env/scheduler/net/rpc/common/struct.hh\<close>, \<^verbatim>\<open>common/service.hh\<close> and
  \<^verbatim>\<open>server/serv.hh\<close>. A frame is its packed 13-byte header and the bytes that
  follow it in its allocation; \<open>rpc_bytes\<close> is its memory image and \<open>rpc_view\<close> the
  \<^verbatim>\<open>reinterpret_cast\<close> of received bytes. The handlers of the services are user
  code: the parameter \<open>handle\<close> gives, for a service and a request, the exception
  it ends with, if any, and the response frame it leaves behind.
\<close>

record rpc_frame =
  rf_total_len :: u16
  rf_request_id :: u64
  rf_service_id :: u16
  rf_flags :: u8
  rf_payload :: "byte list"

definition rpc_header_size :: nat where "rpc_header_size = 13"

definition flag_request :: u8 where "flag_request = 0"
definition flag_response :: u8 where "flag_response = 1"
definition flag_error :: u8 where "flag_error = 2"

definition unknown_service :: u16 where "unknown_service = 1"
definition handler_exception :: u16 where "handler_exception = 2"

lemmas rpc_consts = rpc_header_size_def flag_request_def flag_response_def flag_error_def
  unknown_service_def handler_exception_def

definition encode64u :: "u64 \<Rightarrow> byte list" where
  "encode64u v = encode32u (ucast v) @ encode32u (ucast (drop_bit 32 v))"

definition decode64u :: "byte list \<Rightarrow> u64" where
  "decode64u p = ucast (decode32u p) OR push_bit 32 (ucast (decode32u (drop 4 p)))"

definition rpc_bytes :: "rpc_frame \<Rightarrow> byte list" where
  "rpc_bytes f = encode16u (rf_total_len f) @ encode64u (rf_request_id f) @ encode16u (rf_service_id f)
     @ encode8u (rf_flags f) @ rf_payload f"

definition rpc_view :: "byte list \<Rightarrow> rpc_frame" where
  "rpc_view bs = \<lparr>rf_total_len = decode16u bs, rf_request_id = decode64u (drop 2 bs),
     rf_service_id = decode16u (drop 10 bs), rf_flags = decode8u (drop 12 bs), rf_payload = drop 13 bs\<rparr>"

text \<open>
  \<open>realloc_frame\<close>: \<open>fresh\<close> is the uninitialised memory of \<^verbatim>\<open>new char[total]\<close>. The
  size is truncated to the 16 bits of \<open>total_len\<close>.
\<close>

definition realloc_frame :: "rpc_frame \<Rightarrow> u32 \<Rightarrow> rpc_frame option \<Rightarrow> rpc_frame" where
  "realloc_frame fresh new_size fo =
     (let total = ucast (new_size + of_nat rpc_header_size) :: u16;
          room = unat total - rpc_header_size;
          junk = take room (rf_payload fresh @ replicate room 0) in
      case fo of
        None \<Rightarrow> fresh\<lparr>rf_total_len := total, rf_payload := junk\<rparr>
      | Some f \<Rightarrow>
          if rf_total_len f < total
          then (let old = take (unat (rf_total_len f) - rpc_header_size) (rf_payload f)
                in f\<lparr>rf_total_len := total, rf_payload := old @ drop (length old) junk\<rparr>)
          else f\<lparr>rf_total_len := total\<rparr>)"

text \<open>The bytes handed to \<^verbatim>\<open>net::send(session, frame, frame->get_len())\<close>.\<close>

definition rpc_sent :: "rpc_frame \<Rightarrow> byte list" where
  "rpc_sent f = take (unat (rf_total_len f)) (rpc_bytes f)"

text \<open>
  \<open>request_id\<close>: the index of the thread and its counter, which it advances.
\<close>

definition request_id :: "u16 \<Rightarrow> u64 \<Rightarrow> u64 \<times> u64" where
  "request_id thread counter = (push_bit 48 (ucast thread) OR counter, counter + 1)"

subsection \<open>The server\<close>

datatype exn = Logic_Error | Other_Error

text \<open>\<open>get_service_class_by_id\<close>: the fold over the listed services stops at the first match.\<close>

fun get_service_class_by_id :: "u16 list \<Rightarrow> u16 \<Rightarrow> u16 option" where
  "get_service_class_by_id [] sid = None"
| "get_service_class_by_id (s # ss) sid =
     (if sid = s then Some s else get_service_class_by_id ss sid)"

type_synonym handler = "u16 \<Rightarrow> rpc_frame \<Rightarrow> exn option \<times> rpc_frame option"

definition dispatch :: "u16 list \<Rightarrow> handler \<Rightarrow> rpc_frame \<Rightarrow> exn option \<times> rpc_frame option" where
  "dispatch services handle req =
     (case get_service_class_by_id services (rf_service_id req) of
        None \<Rightarrow> (Some Logic_Error, None)
      | Some s \<Rightarrow>
          (case handle s req of
             (None, Some res) \<Rightarrow>
               (None, Some (res\<lparr>rf_flags := flag_response, rf_request_id := rf_request_id req,
                                rf_service_id := rf_service_id req\<rparr>))
           | r \<Rightarrow> r))"

definition build_error_response :: "rpc_frame \<Rightarrow> rpc_frame \<Rightarrow> rpc_frame option \<Rightarrow> exn \<Rightarrow> rpc_frame" where
  "build_error_response fresh req res e =
     (let code = (case e of Logic_Error \<Rightarrow> unknown_service | Other_Error \<Rightarrow> handler_exception);
          f = realloc_frame fresh 2 res in
      f\<lparr>rf_payload := encode16u code @ drop 2 (rf_payload f), rf_flags := flag_error,
        rf_request_id := rf_request_id req, rf_service_id := rf_service_id req\<rparr>)"

text \<open>One turn of \<open>serv_proc\<close>: \<open>recv_req\<close>, \<open>dispatch\<close>, the error branch, \<open>send_res\<close>.\<close>

definition serve_frame :: "rpc_frame \<Rightarrow> u16 list \<Rightarrow> handler \<Rightarrow> byte list \<Rightarrow> byte list" where
  "serve_frame fresh services handle bs =
     (let req = rpc_view bs in
      case dispatch services handle req of
        (None, res) \<Rightarrow> rpc_sent (the res)
      | (Some e, res) \<Rightarrow> rpc_sent (build_error_response fresh req res e))"

text \<open>
  The loop: \<open>check_rpc_state\<close> ends it when the session is closed; a failed
  \<open>recv\<close> closes the state and ends the loop with its exception. Inputs are the
  results of \<open>recv\<close>, outputs the responses sent.
\<close>

fun serv_proc ::
  "rpc_frame \<Rightarrow> u16 list \<Rightarrow> handler \<Rightarrow> bool \<Rightarrow> (exn + byte list) list \<Rightarrow> byte list list \<times> bool \<times> exn option" where
  "serv_proc fresh services handle closed [] = ([], closed, None)"
| "serv_proc fresh services handle closed (r # rs) =
     (if closed then ([], closed, None)
      else case r of
        Inl e \<Rightarrow> ([], True, Some e)
      | Inr bs \<Rightarrow>
          (let (out, closed', e) = serv_proc fresh services handle closed rs
           in (serve_frame fresh services handle bs # out, closed', e)))"

subsection \<open>The client's end of a call\<close>

text \<open>\<open>send_req\<close>: \<open>body\<close> is the frame \<^verbatim>\<open>service::req_to_pkt\<close> built.\<close>

definition send_req_bytes :: "u16 \<Rightarrow> u64 \<Rightarrow> rpc_frame \<Rightarrow> byte list" where
  "send_req_bytes sid rid body =
     rpc_sent (body\<lparr>rf_service_id := sid, rf_request_id := rid, rf_flags := flag_request\<rparr>)"

text \<open>The end of \<open>wait_res\<close>: the error code the peer sent, or the response for \<open>pkt_to_res\<close>.\<close>

definition read_result :: "byte list \<Rightarrow> u16 + rpc_frame" where
  "read_result bs =
     (let f = rpc_view bs in
      if rf_flags f = flag_error then Inl (decode16u (rf_payload f)) else Inr f)"

definition get_request_id_from :: "byte list \<Rightarrow> u64" where
  "get_request_id_from bs = rf_request_id (rpc_view bs)"

subsection \<open>Round trips\<close>

lemma decode64u_encode64u [simp]: "decode64u (encode64u v @ bs) = v"
proof -
  have "decode32u (drop 4 (encode64u v @ bs)) = ucast (drop_bit 32 v)" by (simp add: encode64u_def)
  moreover have "decode32u (encode64u v @ bs) = ucast v" by (simp add: encode64u_def)
  ultimately have d: "decode64u (encode64u v @ bs) = ucast (ucast v :: u32) OR push_bit 32 (ucast (ucast (drop_bit 32 v) :: u32))"
    by (simp add: decode64u_def)
  show ?thesis
  proof (rule bit_word_eqI)
    fix n assume "n < LENGTH(64)"
    then have "n < 32 \<or> 32 \<le> n \<and> n < 64" by auto
    then show "bit (decode64u (encode64u v @ bs)) n = bit v n"
      unfolding d by (auto simp: bit_or_iff bit_push_bit_iff bit_ucast_iff bit_drop_bit_eq)
  qed
qed

lemma length_encode64u [simp]: "length (encode64u v) = 8"
  by (simp add: encode64u_def)

lemma length_rpc_bytes [simp]: "length (rpc_bytes f) = 13 + length (rf_payload f)"
  by (simp add: rpc_bytes_def)

lemma rpc_view_bytes: "rpc_view (rpc_bytes f) = f"
  by (simp add: rpc_view_def rpc_bytes_def)

definition rpc_wf :: "rpc_frame \<Rightarrow> bool" where
  "rpc_wf f \<longleftrightarrow> unat (rf_total_len f) = 13 + length (rf_payload f)"

lemma rpc_sent_wf: "rpc_wf f \<Longrightarrow> rpc_sent f = rpc_bytes f"
  by (simp add: rpc_sent_def rpc_wf_def)

lemma realloc_new:
  assumes "unat n + 13 < 2 ^ 16"
  shows "rpc_wf (realloc_frame fresh n None)" "length (rf_payload (realloc_frame fresh n None)) = unat n"
proof -
  have "unat (ucast (n + 13) :: u16) = unat n + 13"
    using assms by (simp add: unsigned_ucast_eq unat_word_ariths take_bit_nat_eq_self)
  then show "rpc_wf (realloc_frame fresh n None)" "length (rf_payload (realloc_frame fresh n None)) = unat n"
    by (simp_all add: realloc_frame_def rpc_wf_def rpc_header_size_def)
qed

lemma error_response:
  fixes req fresh :: rpc_frame and e :: exn
  assumes "case res of None \<Rightarrow> True | Some r \<Rightarrow> rpc_wf r"
  defines "f \<equiv> build_error_response fresh req res e"
  shows "rpc_view (rpc_sent f) = \<lparr>rf_total_len = 15, rf_request_id = rf_request_id req,
      rf_service_id = rf_service_id req, rf_flags = flag_error,
      rf_payload = encode16u (case e of Logic_Error \<Rightarrow> unknown_service | Other_Error \<Rightarrow> handler_exception)\<rparr>"
proof -
  let ?code = "case e of Logic_Error \<Rightarrow> unknown_service | Other_Error \<Rightarrow> handler_exception"
  have tot: "rf_total_len f = 15"
    by (cases res) (auto simp: f_def build_error_response_def realloc_frame_def rpc_header_size_def Let_def)
  have len: "2 \<le> length (rf_payload (realloc_frame fresh 2 res))"
  proof (cases res)
    case (Some r)
    then show ?thesis using assms(1)
      by (auto simp: realloc_frame_def rpc_header_size_def Let_def rpc_wf_def word_less_nat_alt)
  qed (simp add: realloc_frame_def rpc_header_size_def)
  have "rpc_sent f = rpc_bytes (f\<lparr>rf_payload := take 2 (rf_payload f)\<rparr>)"
    by (simp add: rpc_sent_def tot rpc_bytes_def encode64u_def encode16u_def encode32u_def encode8u_def)
  moreover have "rf_payload f = encode16u ?code @ drop 2 (rf_payload (realloc_frame fresh 2 res))"
    by (simp add: f_def build_error_response_def Let_def)
  ultimately have "rpc_view (rpc_sent f) = f\<lparr>rf_payload := encode16u ?code\<rparr>"
    by (simp add: rpc_view_bytes)
  with tot show ?thesis
    by (simp add: f_def build_error_response_def Let_def)
qed

lemma service_lookup: "get_service_class_by_id services sid = (if sid \<in> set services then Some sid else None)"
  by (induction services) auto

text \<open>
  C39: a call round-trips through the server. The server answers a request with a
  frame of the same request id, and what the client reads from it is the
  handler's response payload; the code \<open>handler_exception\<close> when the handler threw
  anything but a \<^verbatim>\<open>logic_error\<close>; and \<open>unknown_service\<close> when the service is not
  registered, but also when a registered handler threw a \<^verbatim>\<open>logic_error\<close>, which the
  documentation (RPC_DETAIL, sections 3 and 4) wants to be a \<open>handler_exception\<close>: the
  client cannot tell the two apart.
\<close>

theorem rpc_call_roundtrip:
  fixes body fresh :: rpc_frame and services :: "u16 list" and handle :: handler and sid :: u16 and rid :: u64
  assumes "rpc_wf body"
    and "\<And>s rq e r. handle s rq = (e, Some r) \<Longrightarrow> rpc_wf r" "\<And>s rq. handle s rq \<noteq> (None, None)"
    and req_def: "req = body\<lparr>rf_service_id := sid, rf_request_id := rid, rf_flags := flag_request\<rparr>"
    and reply_def: "reply = serve_frame fresh services handle (send_req_bytes sid rid body)"
  shows "get_request_id_from reply = rid \<and>
    read_result reply =
      (if sid \<notin> set services then Inl unknown_service
       else case handle sid req of
         (None, Some res) \<Rightarrow> Inr (res\<lparr>rf_flags := flag_response, rf_request_id := rid, rf_service_id := sid\<rparr>)
       | (Some Logic_Error, _) \<Rightarrow> Inl unknown_service
       | (_, _) \<Rightarrow> Inl handler_exception)"
proof -
  have wf: "rpc_wf req" using assms(1) by (simp add: req_def rpc_wf_def)
  have view: "rpc_view (send_req_bytes sid rid body) = req"
    using rpc_sent_wf [OF wf] rpc_view_bytes [of req] by (simp add: send_req_bytes_def req_def)
  have reply: "reply = (case dispatch services handle req of
      (None, res) \<Rightarrow> rpc_sent (the res) | (Some e, res) \<Rightarrow> rpc_sent (build_error_response fresh req res e))"
    by (simp add: reply_def serve_frame_def view)
  have ids: "rf_request_id req = rid" "rf_service_id req = sid" by (simp_all add: req_def)
  have fail: "get_request_id_from (rpc_sent (build_error_response fresh req res e)) = rid \<and>
      read_result (rpc_sent (build_error_response fresh req res e))
        = Inl (case e of Logic_Error \<Rightarrow> unknown_service | Other_Error \<Rightarrow> handler_exception)"
    if "case res of None \<Rightarrow> True | Some r \<Rightarrow> rpc_wf r" for res e
    using error_response [OF that, of fresh req e] ids decode16u_encode16u [where bs = "[]"]
    by (simp add: read_result_def get_request_id_from_def)
  show ?thesis
  proof (cases "sid \<in> set services")
    case False
    then show ?thesis using fail [of None Logic_Error]
      by (simp add: reply dispatch_def service_lookup ids)
  next
    case True
    obtain e r where h: "handle sid req = (e, r)" by (cases "handle sid req")
    show ?thesis
    proof (cases e)
      case (Some x)
      have "case r of None \<Rightarrow> True | Some r \<Rightarrow> rpc_wf r" using assms(2) h by (auto split: option.split)
      from fail [OF this, of x] show ?thesis
        using True h Some by (cases x) (simp_all add: reply dispatch_def service_lookup ids)
    next
      case None
      then obtain res where r: "r = Some res" using h assms(3) by (cases r) auto
      let ?f = "res\<lparr>rf_flags := flag_response, rf_request_id := rid, rf_service_id := sid\<rparr>"
      have "rpc_wf ?f" using assms(2) [of sid req None res] h None r by (simp add: rpc_wf_def)
      then have "rpc_view (rpc_sent ?f) = ?f" by (simp add: rpc_sent_wf rpc_view_bytes)
      moreover have "reply = rpc_sent ?f"
        using True h None r by (simp add: reply dispatch_def service_lookup ids)
      ultimately show ?thesis
        using True h None r by (simp add: read_result_def get_request_id_from_def flag_response_def flag_error_def)
    qed
  qed
qed

lemma rpc_call_roundtrip_witness:
  "read_result (serve_frame \<lparr>rf_total_len = 0, rf_request_id = 0, rf_service_id = 0, rf_flags = 0, rf_payload = []\<rparr> [3]
      (\<lambda>s rq. (None, Some \<lparr>rf_total_len = 14, rf_request_id = 0, rf_service_id = 0, rf_flags = 0, rf_payload = [9]\<rparr>))
      (send_req_bytes 3 77 \<lparr>rf_total_len = 15, rf_request_id = 0, rf_service_id = 0, rf_flags = 0, rf_payload = [1, 2]\<rparr>))
   = Inr \<lparr>rf_total_len = 14, rf_request_id = 77, rf_service_id = 3, rf_flags = 1, rf_payload = [9]\<rparr>"
  using rpc_call_roundtrip [where services = "[3]" and sid = 3 and rid = 77
      and handle = "\<lambda>s rq. (None, Some \<lparr>rf_total_len = 14, rf_request_id = 0, rf_service_id = 0, rf_flags = 0, rf_payload = [9]\<rparr>)"
      and body = "\<lparr>rf_total_len = 15, rf_request_id = 0, rf_service_id = 0, rf_flags = 0, rf_payload = [1, 2]\<rparr>",
      OF _ _ _ refl refl]
  by (auto simp: rpc_wf_def rpc_consts)

text \<open>The server's loop answers every request, in order, until the session fails or closes.\<close>

lemma serv_proc_answers:
  "serv_proc fresh services handle False (map Inr bss @ Inl e # rs)
    = (map (serve_frame fresh services handle) bss, True, Some e)"
  by (induction bss) simp_all

text \<open>A payload whose size does not fit 16 bits is cut: 65530 bytes leave a total of 7.\<close>

lemma realloc_frame_truncates: "rf_total_len (realloc_frame fresh 65530 None) = 7"
  by (simp add: realloc_frame_def rpc_header_size_def Let_def)

end
