(* ===== verification/Rpc_Client.thy ===== *)
theory Rpc_Client
  imports Rpc_Frame "HOL-Library.Multiset"
begin

section \<open>RPC client: matching responses with calls\<close>

text \<open>
  \<^verbatim>\<open>src/env/scheduler/net/rpc/common/rpc_state.hh\<close> (\<open>pending_requests_map\<close>),
  \<^verbatim>\<open>client/trigger.hh\<close> and the receiving half of \<^verbatim>\<open>client/call.hh\<close>. Several calls
  share a session: each of them receives one frame, which may answer another
  call; that frame is left in the map for its owner, and the call waits there
  for its own. A callback is named by the request id of its call, a completion
  is an event. A thrown exception is the left value of a sum.
\<close>

datatype completion = Comp_Frame "byte list" | Comp_Error exn

datatype slot_state = Slot_Empty | Slot_Wait_Frame | Slot_Wait_Callback

record slot =
  slot_state :: slot_state
  slot_frame :: "byte list"
  slot_cb :: "u64 option"
  slot_session :: u64

definition slot0 :: slot where
  "slot0 = \<lparr>slot_state = Slot_Empty, slot_frame = [], slot_cb = None, slot_session = 0\<rparr>"

datatype map_error = Duplicate_Callback | Duplicate_Frame

type_synonym pending_map = "slot list"

definition slot_index :: "pending_map \<Rightarrow> u64 \<Rightarrow> nat" where
  "slot_index m rid = unat rid mod length m"

definition on_callback ::
  "u64 \<Rightarrow> u64 \<Rightarrow> u64 \<Rightarrow> pending_map \<Rightarrow> map_error + slot option \<times> pending_map" where
  "on_callback rid session cb m =
     (let idx = slot_index m rid in
      case slot_state (m ! idx) of
        Slot_Empty \<Rightarrow> Inr (None, m[idx := \<lparr>slot_state = Slot_Wait_Frame, slot_frame = [], slot_cb = Some cb,
                                          slot_session = session\<rparr>])
      | Slot_Wait_Frame \<Rightarrow> Inl Duplicate_Callback
      | Slot_Wait_Callback \<Rightarrow>
          Inr (Some \<lparr>slot_state = Slot_Empty, slot_frame = slot_frame (m ! idx), slot_cb = Some cb,
                     slot_session = session\<rparr>, m[idx := slot0]))"

definition on_frame :: "u64 \<Rightarrow> byte list \<Rightarrow> pending_map \<Rightarrow> map_error + slot option \<times> pending_map" where
  "on_frame rid frame m =
     (let idx = slot_index m rid in
      case slot_state (m ! idx) of
        Slot_Empty \<Rightarrow> Inr (None, m[idx := \<lparr>slot_state = Slot_Wait_Callback, slot_frame = frame, slot_cb = None,
                                          slot_session = 0\<rparr>])
      | Slot_Wait_Callback \<Rightarrow> Inl Duplicate_Frame
      | Slot_Wait_Frame \<Rightarrow>
          Inr (Some \<lparr>slot_state = Slot_Empty, slot_frame = frame, slot_cb = slot_cb (m ! idx), slot_session = 0\<rparr>,
               m[idx := slot0]))"

fun fail_all :: "exn \<Rightarrow> pending_map \<Rightarrow> (u64 \<times> completion) list \<times> pending_map" where
  "fail_all e [] = ([], [])"
| "fail_all e (s # m) =
     (let (es, m') = fail_all e m in
      (if slot_state s = Slot_Wait_Frame then (case slot_cb s of Some c \<Rightarrow> (c, Comp_Error e) # es | None \<Rightarrow> es) else es,
       (if slot_state s \<noteq> Slot_Empty then slot0 else s) # m'))"

fun fail_session :: "u64 \<Rightarrow> exn \<Rightarrow> pending_map \<Rightarrow> (u64 \<times> completion) list \<times> pending_map" where
  "fail_session session e [] = ([], [])"
| "fail_session session e (s # m) =
     (let (es, m') = fail_session session e m in
      if slot_session s = session \<and> slot_state s \<noteq> Slot_Empty
      then (if slot_state s = Slot_Wait_Frame then (case slot_cb s of Some c \<Rightarrow> (c, Comp_Error e) # es | None \<Rightarrow> es) else es,
            slot0 # m')
      else (es, s # m'))"

text \<open>The trigger: a completed slot runs its callback with its frame.\<close>

definition run_slot :: "map_error + slot option \<times> pending_map \<Rightarrow> map_error + (u64 \<times> completion) list \<times> pending_map" where
  "run_slot r =
     (case r of
        Inl e \<Rightarrow> Inl e
      | Inr (None, m) \<Rightarrow> Inr ([], m)
      | Inr (Some s, m) \<Rightarrow> Inr ([(the (slot_cb s), Comp_Frame (slot_frame s))], m))"

definition wait_activate :: "u64 \<Rightarrow> u64 \<Rightarrow> u64 \<Rightarrow> pending_map \<Rightarrow> map_error + (u64 \<times> completion) list \<times> pending_map" where
  "wait_activate rid session cb m = run_slot (on_callback rid session cb m)"

definition on_response :: "u64 \<Rightarrow> byte list \<Rightarrow> pending_map \<Rightarrow> map_error + (u64 \<times> completion) list \<times> pending_map" where
  "on_response rid frame m = run_slot (on_frame rid frame m)"

text \<open>
  The client of one thread and one type of session: the map of the \<open>trigger\<close> in the
  \<open>flat_map\<close> of \<open>wait_res\<close>, and the one of the \<open>trigger\<close> in its \<open>any_exception\<close>. Both are
  function-local statics of two different lambdas in a template over the service id (and the
  session type), so each service has a pair of its own.
\<close>

record rpc_client =
  resp_map :: "u16 \<Rightarrow> pending_map"
  fail_map :: "u16 \<Rightarrow> pending_map"

definition rpc_client_new :: rpc_client where
  "rpc_client_new = \<lparr>resp_map = (\<lambda>_. replicate 2048 slot0), fail_map = (\<lambda>_. replicate 2048 slot0)\<rparr>"

text \<open>\<open>wait_res\<close> of call \<open>rid\<close> of service \<open>sid\<close> after its \<open>recv\<close> gave \<open>frame\<close>.\<close>

definition call_recv ::
  "u64 \<Rightarrow> u16 \<Rightarrow> u64 \<Rightarrow> byte list \<Rightarrow> rpc_client \<Rightarrow> map_error + (u64 \<times> completion) list \<times> rpc_client" where
  "call_recv session sid rid frame c =
     (if get_request_id_from frame = rid then Inr ([(rid, Comp_Frame frame)], c)
      else case on_response (get_request_id_from frame) frame (resp_map c sid) of
        Inl e \<Rightarrow> Inl e
      | Inr (es, m) \<Rightarrow>
          (case wait_activate rid session rid m of
             Inl e \<Rightarrow> Inl e
           | Inr (es', m') \<Rightarrow> Inr (es @ es', c\<lparr>resp_map := (resp_map c)(sid := m')\<rparr>)))"

text \<open>The exception branch of a call: \<open>send\<close> or \<open>recv\<close> failed, or the peer sent an error code.\<close>

definition call_failed :: "u64 \<Rightarrow> u16 \<Rightarrow> exn \<Rightarrow> rpc_client \<Rightarrow> (u64 \<times> completion) list \<times> rpc_client" where
  "call_failed session sid e c =
     (let (es, m) = fail_session session e (fail_map c sid) in (es, c\<lparr>fail_map := (fail_map c)(sid := m)\<rparr>))"

text \<open>Calls, by their services and request ids, receive one frame each, one after the other.\<close>

fun call_recvs ::
  "u64 \<Rightarrow> (u16 \<times> u64 \<times> byte list) list \<Rightarrow> rpc_client \<Rightarrow> map_error + (u64 \<times> completion) list \<times> rpc_client" where
  "call_recvs session [] c = Inr ([], c)"
| "call_recvs session ((sid, rid, frame) # ps) c =
     (case call_recv session sid rid frame c of
        Inl e \<Rightarrow> Inl e
      | Inr (es, c1) \<Rightarrow>
          (case call_recvs session ps c1 of
             Inl e \<Rightarrow> Inl e
           | Inr (es', c2) \<Rightarrow> Inr (es @ es', c2)))"

subsection \<open>What a map holds\<close>

text \<open>
  \<open>A\<close> are the calls that wait or have finished, \<open>G\<close> the frames that arrived.
\<close>

definition slot_for :: "u64 \<Rightarrow> bool \<Rightarrow> byte list option \<Rightarrow> u64 \<Rightarrow> slot" where
  "slot_for session asked arrived rid =
     (case arrived of
        None \<Rightarrow> if asked then \<lparr>slot_state = Slot_Wait_Frame, slot_frame = [], slot_cb = Some rid,
                              slot_session = session\<rparr> else slot0
      | Some f \<Rightarrow> if asked then slot0
                  else \<lparr>slot_state = Slot_Wait_Callback, slot_frame = f, slot_cb = None, slot_session = 0\<rparr>)"

definition holds :: "u64 \<Rightarrow> u64 set \<Rightarrow> u64 set \<Rightarrow> (u64 \<rightharpoonup> byte list) \<Rightarrow> pending_map \<Rightarrow> bool" where
  "holds session R A G m \<longleftrightarrow> m \<noteq> [] \<and> inj_on (slot_index m) R
     \<and> (\<forall>r \<in> R. m ! slot_index m r = slot_for session (r \<in> A) (G r) r)"

definition completed :: "u64 set \<Rightarrow> u64 set \<Rightarrow> (u64 \<rightharpoonup> byte list) \<Rightarrow> (u64 \<times> completion) multiset" where
  "completed R A G =
     image_mset (\<lambda>r. (r, Comp_Frame (the (G r)))) (mset_set {r \<in> R. r \<in> A \<and> G r \<noteq> None})"

lemma slot_index_update [simp]: "slot_index (m[i := s]) r = slot_index m r"
  by (simp add: slot_index_def)

lemma slot_index_bound: "m \<noteq> [] \<Longrightarrow> slot_index m r < length m"
  by (simp add: slot_index_def)

lemma holds_update:
  assumes h: "holds session R A G m" and r: "r \<in> R"
    and s: "s = slot_for session (r \<in> A') (G' r) r" and other: "\<And>q. q \<noteq> r \<Longrightarrow> (q \<in> A') = (q \<in> A) \<and> G' q = G q"
  shows "holds session R A' G' (m[slot_index m r := s])"
  unfolding holds_def
proof (intro conjI ballI)
  from h have m: "m \<noteq> []" "inj_on (slot_index m) R" by (auto simp: holds_def)
  show "m[slot_index m r := s] \<noteq> []" using m(1) by simp
  show "inj_on (slot_index (m[slot_index m r := s])) R" using m(2) by (simp add: inj_on_def)
  fix q assume q: "q \<in> R"
  show "m[slot_index m r := s] ! slot_index (m[slot_index m r := s]) q = slot_for session (q \<in> A') (G' q) q"
  proof (cases "q = r")
    case True
    then show ?thesis using s slot_index_bound [OF m(1)] by simp
  next
    case False
    then have "slot_index m q \<noteq> slot_index m r" using m(2) q r by (auto simp: inj_on_def)
    then show ?thesis using h q other [OF False] by (simp add: holds_def)
  qed
qed

lemma completed_both:
  assumes "finite R" "r \<in> R" "r \<notin> A \<or> G r = None" "r \<in> A'" "G' r = Some f"
    "\<And>q. q \<noteq> r \<Longrightarrow> (q \<in> A') = (q \<in> A) \<and> G' q = G q"
  shows "completed R A' G' = add_mset (r, Comp_Frame f) (completed R A G)"
proof -
  have set: "{q \<in> R. q \<in> A' \<and> G' q \<noteq> None} = insert r {q \<in> R. q \<in> A \<and> G q \<noteq> None}"
  proof (rule set_eqI)
    fix q
    show "q \<in> {q \<in> R. q \<in> A' \<and> G' q \<noteq> None} \<longleftrightarrow> q \<in> insert r {q \<in> R. q \<in> A \<and> G q \<noteq> None}"
      using assms(2,4,5) assms(6) [of q] by (cases "q = r") auto
  qed
  have "G' q = G q" if "q \<in> A" "G q \<noteq> None" for q using that assms(3,6) by metis
  then have "image_mset (\<lambda>q. (q, Comp_Frame (the (G' q)))) (mset_set {q \<in> R. q \<in> A \<and> G q \<noteq> None})
      = completed R A G"
    unfolding completed_def using assms(1)
    by (intro image_mset_cong) (auto simp: elem_mset_set)
  then show ?thesis
    unfolding completed_def set using assms by (subst mset_set.insert) auto
qed

lemma completed_same:
  assumes "finite R" "\<not> (r \<in> A' \<and> G' r \<noteq> None)" "\<not> (r \<in> A \<and> G r \<noteq> None)"
    "\<And>q. q \<noteq> r \<Longrightarrow> (q \<in> A') = (q \<in> A) \<and> G' q = G q"
  shows "completed R A' G' = completed R A G"
proof -
  have "{q \<in> R. q \<in> A' \<and> G' q \<noteq> None} = {q \<in> R. q \<in> A \<and> G q \<noteq> None}"
  proof (rule set_eqI)
    fix q
    show "q \<in> {q \<in> R. q \<in> A' \<and> G' q \<noteq> None} \<longleftrightarrow> q \<in> {q \<in> R. q \<in> A \<and> G q \<noteq> None}"
      using assms(2,3) assms(4) [of q] by (cases "q = r") auto
  qed
  note set = this
  have "G' q = G q" if "q \<in> A" "G q \<noteq> None" for q using that assms(3,4) by metis
  then show ?thesis
    unfolding completed_def set using assms(1) by (intro image_mset_cong) (auto simp: elem_mset_set)
qed

subsection \<open>Steps\<close>

lemma holds_cong:
  "holds session R A G m \<Longrightarrow> (\<And>r. r \<in> R \<Longrightarrow> (r \<in> A') = (r \<in> A) \<and> G' r = G r) \<Longrightarrow> holds session R A' G' m"
  by (simp add: holds_def)

lemma on_response_step:
  assumes h: "holds session R A G m" and R: "r \<in> R" and U: "finite U" "r \<in> U" and G: "G r = None"
  shows "\<exists>es m'. on_response r f m = Inr (es, m') \<and> holds session R A (G(r \<mapsto> f)) m'
    \<and> completed U A (G(r \<mapsto> f)) = mset es + completed U A G"
proof -
  from h R have s: "m ! slot_index m r = slot_for session (r \<in> A) None r" using G by (simp add: holds_def)
  show ?thesis
  proof (cases "r \<in> A")
    case True
    have "holds session R A (G(r \<mapsto> f)) (m[slot_index m r := slot0])"
      using True by (intro holds_update [OF h R]) (simp_all add: slot_for_def)
    moreover have "completed U A (G(r \<mapsto> f)) = add_mset (r, Comp_Frame f) (completed U A G)"
      using True G U by (intro completed_both) auto
    ultimately show ?thesis
      using s True by (simp add: on_response_def on_frame_def run_slot_def Let_def slot_for_def)
  next
    case False
    let ?s = "\<lparr>slot_state = Slot_Wait_Callback, slot_frame = f, slot_cb = None, slot_session = 0\<rparr>"
    have "holds session R A (G(r \<mapsto> f)) (m[slot_index m r := ?s])"
      using False by (intro holds_update [OF h R]) (simp_all add: slot_for_def)
    moreover have "completed U A (G(r \<mapsto> f)) = completed U A G"
      using False U by (intro completed_same [where r = r]) auto
    ultimately show ?thesis
      using s False by (simp add: on_response_def on_frame_def run_slot_def Let_def slot_for_def slot0_def)
  qed
qed

lemma wait_activate_step:
  assumes h: "holds session R A G m" and R: "r \<in> R" and U: "finite U" "r \<in> U" and A: "r \<notin> A"
  shows "\<exists>es m'. wait_activate r session r m = Inr (es, m') \<and> holds session R (insert r A) G m'
    \<and> completed U (insert r A) G = mset es + completed U A G"
proof -
  from h R have s: "m ! slot_index m r = slot_for session False (G r) r" using A by (simp add: holds_def)
  show ?thesis
  proof (cases "G r")
    case (Some f)
    have "holds session R (insert r A) G (m[slot_index m r := slot0])"
      using Some by (intro holds_update [OF h R]) (simp_all add: slot_for_def)
    moreover have "completed U (insert r A) G = add_mset (r, Comp_Frame f) (completed U A G)"
      using Some A U by (intro completed_both) auto
    ultimately show ?thesis
      using s Some by (simp add: wait_activate_def on_callback_def run_slot_def Let_def slot_for_def)
  next
    case None
    let ?s = "\<lparr>slot_state = Slot_Wait_Frame, slot_frame = [], slot_cb = Some r, slot_session = session\<rparr>"
    have "holds session R (insert r A) G (m[slot_index m r := ?s])"
      using None by (intro holds_update [OF h R]) (simp_all add: slot_for_def)
    moreover have "completed U (insert r A) G = completed U A G"
      using None U by (intro completed_same [where r = r]) auto
    ultimately show ?thesis
      using s None by (simp add: wait_activate_def on_callback_def run_slot_def Let_def slot_for_def slot0_def)
  qed
qed

lemma call_recv_step:
  assumes h: "holds session R A G (resp_map c s)" and R: "r \<in> R" "get_request_id_from f \<in> R"
    and U: "finite U" "R \<subseteq> U" and new: "r \<notin> A" "G (get_request_id_from f) = None"
  shows "\<exists>es c'. call_recv session s r f c = Inr (es, c') \<and> fail_map c' = fail_map c
    \<and> (\<forall>s'. s' \<noteq> s \<longrightarrow> resp_map c' s' = resp_map c s')
    \<and> holds session R (insert r A) (G(get_request_id_from f \<mapsto> f)) (resp_map c' s)
    \<and> completed U (insert r A) (G(get_request_id_from f \<mapsto> f)) = mset es + completed U A G"
proof (cases "get_request_id_from f = r")
  case True
  let ?m = "resp_map c s"
  have G: "G r = None" using new(2) True by simp
  have "holds session R (insert r A) (G(r \<mapsto> f)) (?m[slot_index ?m r := slot0])"
    by (intro holds_update [OF h R(1)]) (simp_all add: slot_for_def)
  moreover have "?m ! slot_index ?m r = slot0" using h R(1) new(1) G by (simp add: holds_def slot_for_def)
  then have "?m[slot_index ?m r := slot0] = ?m" using list_update_id [of ?m "slot_index ?m r"] by simp
  moreover have "completed U (insert r A) (G(r \<mapsto> f)) = add_mset (r, Comp_Frame f) (completed U A G)"
    using G R U by (intro completed_both) auto
  ultimately show ?thesis using True by (simp add: call_recv_def)
next
  case False
  let ?q = "get_request_id_from f"
  have u: "r \<in> U" "?q \<in> U" using R U(2) by auto
  from on_response_step [where f = f, OF h R(2) U(1) u(2) new(2)] obtain es m where
    1: "on_response ?q f (resp_map c s) = Inr (es, m)" "holds session R A (G(?q \<mapsto> f)) m"
      "completed U A (G(?q \<mapsto> f)) = mset es + completed U A G" by blast
  from wait_activate_step [OF 1(2) R(1) U(1) u(1) new(1)] obtain es' m' where
    2: "wait_activate r session r m = Inr (es', m')" "holds session R (insert r A) (G(?q \<mapsto> f)) m'"
      "completed U (insert r A) (G(?q \<mapsto> f)) = mset es' + completed U A (G(?q \<mapsto> f))" by blast
  let ?c = "c\<lparr>resp_map := (resp_map c)(s := m')\<rparr>"
  have "completed U (insert r A) (G(?q \<mapsto> f)) = mset (es @ es') + completed U A G"
    unfolding 2(3) 1(3) by (simp add: add.commute add.left_commute)
  moreover have "call_recv session s r f c = Inr (es @ es', ?c)" using False 1(1) 2(1) by (simp add: call_recv_def)
  ultimately show ?thesis using 2(2) by (intro exI [of _ "es @ es'"] exI [of _ ?c]) simp
qed

text \<open>The service, the request id of the call, and the id of the frame the call receives.\<close>

abbreviation call_service :: "u16 \<times> u64 \<times> byte list \<Rightarrow> u16" where "call_service p \<equiv> fst p"
abbreviation call_id :: "u16 \<times> u64 \<times> byte list \<Rightarrow> u64" where "call_id p \<equiv> fst (snd p)"
abbreviation call_frame :: "u16 \<times> u64 \<times> byte list \<Rightarrow> byte list" where "call_frame p \<equiv> snd (snd p)"
abbreviation frame_id :: "u16 \<times> u64 \<times> byte list \<Rightarrow> u64" where "frame_id p \<equiv> get_request_id_from (call_frame p)"

definition arrived :: "(u16 \<times> u64 \<times> byte list) list \<Rightarrow> u64 \<rightharpoonup> byte list" where
  "arrived ps = map_of (map (\<lambda>p. (frame_id p, call_frame p)) ps)"

text \<open>\<open>R s\<close> are the calls of service \<open>s\<close>; a frame is received by a call of the service it answers.\<close>

lemma call_recvs_steps:
  assumes "\<forall>s. holds session (R s) A G (resp_map c s)" "finite U" "\<forall>s. R s \<subseteq> U" "\<forall>s s'. s \<noteq> s' \<longrightarrow> R s \<inter> R s' = {}"
    "distinct (map call_id ps)" "distinct (map frame_id ps)"
    "\<forall>p \<in> set ps. call_id p \<in> R (call_service p) \<and> frame_id p \<in> R (call_service p) \<and> call_id p \<notin> A \<and> G (frame_id p) = None"
  shows "\<exists>es c'. call_recvs session ps c = Inr (es, c')
    \<and> completed U (A \<union> set (map call_id ps)) (G ++ arrived ps) = mset es + completed U A G"
  using assms
proof (induction ps arbitrary: A G c)
  case Nil
  then show ?case by (simp add: arrived_def)
next
  case (Cons p ps)
  obtain s r f where p: "p = (s, r, f)" by (metis prod_cases3)
  let ?q = "get_request_id_from f"
  have pre: "r \<in> R s" "?q \<in> R s" "r \<notin> A" "G ?q = None" using Cons.prems(7) by (auto simp: p)
  from call_recv_step [where f = f and c = c, OF Cons.prems(1) [THEN spec] pre(1,2) Cons.prems(2) _ pre(3,4)] Cons.prems(3)
  obtain es c1 where
    1: "call_recv session s r f c = Inr (es, c1)" "\<forall>s'. s' \<noteq> s \<longrightarrow> resp_map c1 s' = resp_map c s'"
      "holds session (R s) (insert r A) (G(?q \<mapsto> f)) (resp_map c1 s)"
      "completed U (insert r A) (G(?q \<mapsto> f)) = mset es + completed U A G" by blast
  have "\<forall>s'. holds session (R s') (insert r A) (G(?q \<mapsto> f)) (resp_map c1 s')"
  proof
    fix s'
    show "holds session (R s') (insert r A) (G(?q \<mapsto> f)) (resp_map c1 s')"
    proof (cases "s' = s")
      case False
      then have "r \<notin> R s'" "?q \<notin> R s'" using Cons.prems(4) pre(1,2) by (metis disjoint_iff)+
      then have "(x \<in> insert r A) = (x \<in> A) \<and> (G(?q \<mapsto> f)) x = G x" if "x \<in> R s'" for x using that by auto
      with holds_cong [OF Cons.prems(1) [THEN spec, of s']] False 1(2) show ?thesis by simp
    qed (simp add: 1(3))
  qed
  note held = this
  have fresh: "?q \<notin> set (map frame_id ps)" "r \<notin> set (map call_id ps)" using Cons.prems(5,6) by (auto simp: p)
  then have comm: "G(?q \<mapsto> f) ++ arrived ps = G ++ arrived (p # ps)"
    by (simp add: p arrived_def map_add_upd_left dom_map_of_conv_image_fst image_image)
  have "\<forall>p \<in> set ps. call_id p \<in> R (call_service p) \<and> frame_id p \<in> R (call_service p)
      \<and> call_id p \<notin> insert r A \<and> (G(?q \<mapsto> f)) (frame_id p) = None"
    using Cons.prems(7) fresh by force
  note rest = this
  have "distinct (map call_id ps)" "distinct (map frame_id ps)" using Cons.prems(5,6) by simp_all
  from Cons.IH [OF held Cons.prems(2-4) this rest] obtain es' c2 where
    2: "call_recvs session ps c1 = Inr (es', c2)"
      "completed U (insert r A \<union> set (map call_id ps)) (G(?q \<mapsto> f) ++ arrived ps)
         = mset es' + completed U (insert r A) (G(?q \<mapsto> f))" by blast
  have "call_recvs session (p # ps) c = Inr (es @ es', c2)" using 1(1) 2(1) by (simp add: p)
  moreover have "insert r A \<union> set (map call_id ps) = A \<union> set (map call_id (p # ps))" by (simp add: p)
  moreover have "mset es' + (mset es + completed U A G) = mset (es @ es') + completed U A G" by (simp add: ac_simps)
  ultimately show ?case using 2(2) unfolding comm 1(4) by metis
qed

subsection \<open>The calls of one thread\<close>

definition call_ids :: "u16 \<Rightarrow> u64 \<Rightarrow> nat \<Rightarrow> u64 list" where
  "call_ids thread counter n = map (\<lambda>i. fst (request_id thread (counter + of_nat i))) [0..<n]"

lemma request_id_slot: "unat (fst (request_id t c)) mod 2048 = unat c mod 2048"
proof -
  have "take_bit 11 (fst (request_id t c)) = take_bit 11 c"
    by (rule bit_word_eqI) (auto simp: request_id_def bit_take_bit_iff bit_or_iff bit_push_bit_iff)
  then have "unat (take_bit 11 (fst (request_id t c))) = unat (take_bit 11 c)" by (rule arg_cong)
  then have "take_bit 11 (unat (fst (request_id t c))) = take_bit 11 (unat c)"
    by (simp only: unsigned_take_bit_eq)
  then show ?thesis by (simp add: take_bit_eq_mod)
qed

lemma call_ids_slots:
  assumes "n \<le> 2048"
  shows "inj_on (\<lambda>r. unat r mod 2048) (set (call_ids t c n))" "distinct (call_ids t c n)"
proof -
  have "unat (fst (request_id t (c + of_nat i))) mod 2048 = (unat c + i) mod 2048" if "i < n" for i
  proof -
    have "unat (c + of_nat i) mod 2048 = (unat c + unat (of_nat i :: u64)) mod 2048"
      by (simp add: unat_word_ariths mod_mod_cancel)
    moreover have "unat (of_nat i :: u64) = i" using that assms by (simp add: unat_of_nat take_bit_nat_eq_self)
    ultimately show ?thesis by (simp add: request_id_slot)
  qed
  then have slot: "i = j" if "i < n" "j < n"
    "unat (fst (request_id t (c + of_nat i))) mod 2048 = unat (fst (request_id t (c + of_nat j))) mod 2048" for i j
    using that assms ring_mod_inj [of i 2048 j "unat c"] by simp
  show "inj_on (\<lambda>r. unat r mod 2048) (set (call_ids t c n))"
    by (intro inj_onI) (auto simp: call_ids_def dest: slot)
  have "i = j" if "i < n" "j < n" "fst (request_id t (c + of_nat i)) = fst (request_id t (c + of_nat j))" for i j
    using slot [OF that(1,2)] that(3) by simp
  then show "distinct (call_ids t c n)"
    by (auto simp: call_ids_def distinct_map inj_on_def)
qed

lemma new_holds:
  "n \<le> 2048 \<Longrightarrow> R \<subseteq> set (call_ids t c n) \<Longrightarrow> holds session R {} Map.empty (resp_map rpc_client_new s)"
  using call_ids_slots(1) [of n t c, THEN inj_on_subset, of R] slot_index_bound [of "replicate 2048 slot0"]
  by (auto simp: holds_def rpc_client_new_def slot_for_def slot_index_def inj_on_def)

text \<open>
  C38: responses find their calls. Up to 2048 calls of one thread, of any services, share a
  session; each receives one frame, in any order, and the frames are the responses of these
  calls in any order, with one condition: the call that receives a frame is of the same service
  as the call the frame answers, as it always is when all the calls are of one service (the
  pending map is one per service; \<open>rpc_services_swap_responses\<close> below shows what happens
  otherwise). Then no call fails, and every call completes exactly once, with the frame that
  carries its own request id.
\<close>

theorem rpc_responses_find_their_calls:
  assumes "n \<le> 2048" and "mset (map (\<lambda>(s, r, f). r) ps) = mset (call_ids t c n)"
    and "mset (map (\<lambda>(s, r, f). get_request_id_from f) ps) = mset (call_ids t c n)"
    and "\<forall>(s, r, f) \<in> set ps. \<forall>(s', r', f') \<in> set ps. get_request_id_from f = r' \<longrightarrow> s = s'"
  shows "\<exists>es cl. call_recvs session ps rpc_client_new = Inr (es, cl)
    \<and> mset es = mset (map (\<lambda>(s, r, f). (get_request_id_from f, Comp_Frame f)) ps)"
proof -
  let ?U = "set (call_ids t c n)" and ?R = "\<lambda>s. call_id ` {p \<in> set ps. call_service p = s}"
  have eq: "mset (map call_id ps) = mset (call_ids t c n)" "mset (map frame_id ps) = mset (call_ids t c n)"
    using assms(2,3) by (simp_all add: split_def)
  have sets: "set (map call_id ps) = ?U" "set (map frame_id ps) = ?U" using eq by (metis set_mset_mset)+
  have dist: "distinct (map call_id ps)" "distinct (map frame_id ps)"
    using mset_eq_imp_distinct_iff [OF eq(1)] mset_eq_imp_distinct_iff [OF eq(2)]
      call_ids_slots(2) [OF assms(1), of t c] by simp_all
  have own: "\<forall>p \<in> set ps. call_id p \<in> ?R (call_service p) \<and> frame_id p \<in> ?R (call_service p)
      \<and> call_id p \<notin> {} \<and> Map.empty (frame_id p) = None"
  proof
    fix p assume p: "p \<in> set ps"
    then have "frame_id p \<in> call_id ` set ps" using sets by (auto simp: image_def)
    then obtain p' where "p' \<in> set ps" "frame_id p = call_id p'" by blast
    moreover from this have "call_service p = call_service p'" using assms(4) p by fastforce
    ultimately show "call_id p \<in> ?R (call_service p) \<and> frame_id p \<in> ?R (call_service p)
      \<and> call_id p \<notin> {} \<and> Map.empty (frame_id p) = None" using p by auto
  qed
  have R: "\<forall>s. ?R s \<subseteq> ?U" using sets(1) by auto
  have "\<forall>s s'. s \<noteq> s' \<longrightarrow> ?R s \<inter> ?R s' = {}" using dist(1) by (auto simp: distinct_map inj_on_def)
  note disj = this
  have "\<forall>s. holds session (?R s) {} Map.empty (resp_map rpc_client_new s)"
    using new_holds [OF assms(1)] R by blast
  from call_recvs_steps [OF this _ R disj dist own] obtain es cl where
    r: "call_recvs session ps rpc_client_new = Inr (es, cl)"
      "completed ?U (set (map call_id ps)) (arrived ps) = mset es + completed ?U {} Map.empty"
    by (auto simp del: set_map)
  have dom: "r \<in> ?U \<Longrightarrow> arrived ps r \<noteq> None" for r
    using sets(2) unfolding arrived_def by (auto simp: map_of_eq_None_iff image_image)
  have val: "arrived ps (frame_id p) = Some (call_frame p)" if "p \<in> set ps" for p
    using that dist(2) unfolding arrived_def by (intro map_of_is_SomeI) (auto simp: comp_def image_image)
  have "mset es = image_mset (\<lambda>r. (r, Comp_Frame (the (arrived ps r)))) (mset_set ?U)"
  proof -
    have "{r \<in> ?U. r \<in> set (map call_id ps) \<and> arrived ps r \<noteq> None} = ?U" using dom sets(1) by auto
    with r(2) show ?thesis by (simp add: completed_def)
  qed
  also have "mset_set ?U = mset (map frame_id ps)" using dist(2) sets(2) by (metis mset_set_set)
  also have "image_mset (\<lambda>r. (r, Comp_Frame (the (arrived ps r)))) (mset (map frame_id ps))
      = mset (map (\<lambda>p. (frame_id p, Comp_Frame (call_frame p))) ps)"
    using val by (auto simp: image_mset.compositionality comp_def intro!: image_mset_cong)
  finally show ?thesis using r(1) by (simp add: split_def)
qed

text \<open>Two calls of service 3 receive each other's responses, and one of service 4 its own.\<close>

lemma rpc_responses_find_their_calls_witness:
  "\<exists>es cl. call_recvs 9 (zip [3, 3, 4] (zip (call_ids 1 5 3) (map (\<lambda>r. rpc_bytes \<lparr>rf_total_len = 13, rf_request_id = r,
        rf_service_id = 0, rf_flags = 1, rf_payload = []\<rparr>) (map ((!) (call_ids 1 5 3)) [1, 0, 2])))) rpc_client_new = Inr (es, cl)
     \<and> length es = 3"
proof -
  let ?f = "\<lambda>r. rpc_bytes \<lparr>rf_total_len = 13, rf_request_id = r, rf_service_id = 0, rf_flags = 1, rf_payload = []\<rparr>"
  let ?ps = "zip [3 :: u16, 3, 4] (zip (call_ids 1 5 3) (map ?f (map ((!) (call_ids 1 5 3)) [1, 0, 2])))"
  let ?a = "fst (request_id 1 5)" and ?b = "fst (request_id 1 6)" and ?c = "fst (request_id 1 7)"
  have ids: "call_ids 1 5 3 = [?a, ?b, ?c]" by (simp add: call_ids_def eval_nat_numeral)
  have ps: "?ps = [(3, ?a, ?f ?b), (3, ?b, ?f ?a), (4, ?c, ?f ?c)]" by (simp add: ids)
  have fid: "get_request_id_from (?f r) = r" for r by (simp add: get_request_id_from_def rpc_view_bytes)
  have "?a \<noteq> ?c" "?b \<noteq> ?c" using call_ids_slots(2) [of 3 1 5] by (simp_all add: ids)
  then have "\<forall>(s, r, f) \<in> set ?ps. \<forall>(s', r', f') \<in> set ?ps. get_request_id_from f = r' \<longrightarrow> s = s'"
    unfolding ps by (auto simp: fid)
  note serv = this
  have m1: "mset (map (\<lambda>(s, r, f). r) ?ps) = mset (call_ids 1 5 3)" unfolding ps ids by simp
  have m2: "mset (map (\<lambda>(s, r, f). get_request_id_from f) ?ps) = mset (call_ids 1 5 3)"
    unfolding ps ids by (simp add: fid add_mset_commute)
  have "(3::nat) \<le> 2048" by simp
  from rpc_responses_find_their_calls [OF this m1 m2 serv, of 9]
  obtain es cl where r: "call_recvs 9 ?ps rpc_client_new = Inr (es, cl)"
      "mset es = mset (map (\<lambda>(s, r, f). (get_request_id_from f, Comp_Frame f)) ?ps)"
    by (elim exE conjE) (rule that)
  have "length es = length ?ps" using arg_cong [OF r(2), of size] by (simp only: size_mset length_map)
  then have "length es = 3" unfolding ps by simp
  with r(1) show ?thesis by blast
qed

subsection \<open>Where the matching breaks\<close>

text \<open>
  The map compares slots, not request ids. A frame for the request 2048 ahead
  of a waiting one is handed to the waiting call as its response.
\<close>

theorem rpc_slot_collision:
  "\<exists>m'. wait_activate rid session rid (replicate 2048 slot0) = Inr ([], m')
    \<and> (\<exists>m''. on_response (rid + 2048) frame m' = Inr ([(rid, Comp_Frame frame)], m''))"
proof -
  obtain m where m: "m = replicate 2048 slot0" by blast
  then have len: "length m = 2048" and "\<forall>i < 2048. m ! i = slot0" by (auto simp only: length_replicate nth_replicate)
  then have "m ! (unat rid mod 2048) = slot0" by simp
  moreover have "unat (rid + 2048) mod 2048 = unat rid mod 2048" by (simp add: unat_word_ariths mod_mod_cancel)
  ultimately show ?thesis
    unfolding m [symmetric]
    by (simp add: wait_activate_def on_callback_def on_response_def on_frame_def run_slot_def slot_index_def
        Let_def slot0_def len)
qed

text \<open>
  Each service has a map of its own: when a call receives the response of a call of another
  service, it leaves the frame where the other call never looks. Two calls of different
  services that receive each other's responses both wait for ever.
\<close>

lemma rpc_services_swap_responses:
  assumes "s \<noteq> s'" "unat r mod 2048 \<noteq> unat r' mod 2048" "get_request_id_from f = r" "get_request_id_from f' = r'"
  shows "\<exists>cl. call_recvs session [(s, r, f'), (s', r', f)] rpc_client_new = Inr ([], cl)"
proof -
  define m where "m = replicate 2048 slot0"
  then have len: "length m = 2048" and empty: "\<forall>i < 2048. m ! i = slot0" by (auto simp only: length_replicate nth_replicate)
  have new: "rpc_client_new = \<lparr>resp_map = (\<lambda>_. m), fail_map = (\<lambda>_. m)\<rparr>" by (simp only: rpc_client_new_def m_def)
  have park: "on_response q g m = Inr ([], m[unat q mod 2048 :=
      \<lparr>slot_state = Slot_Wait_Callback, slot_frame = g, slot_cb = None, slot_session = 0\<rparr>])" for q g
    using empty by (simp add: on_response_def on_frame_def run_slot_def slot_index_def len slot0_def)
  have wait: "\<exists>m'. wait_activate p session p (m[unat q mod 2048 := x]) = Inr ([], m')"
    if "unat p mod 2048 \<noteq> unat q mod 2048" for p q x
    using empty that by (simp add: wait_activate_def on_callback_def run_slot_def slot_index_def len slot0_def Let_def)
  have "r \<noteq> r'" using assms(2) by auto
  let ?m = "\<lambda>q g. m[unat q mod 2048 := \<lparr>slot_state = Slot_Wait_Callback, slot_frame = g, slot_cb = None, slot_session = 0\<rparr>]"
  obtain m1 where m1: "wait_activate r session r (?m r' f') = Inr ([], m1)" using wait [OF assms(2)] by blast
  obtain m2 where m2: "wait_activate r' session r' (?m r f) = Inr ([], m2)" using wait [OF assms(2) [symmetric]] by blast
  show ?thesis using m1 m2 assms(1,3,4) \<open>r \<noteq> r'\<close> by (simp add: call_recv_def new park)
qed

lemma fail_session_empty: "\<forall>s \<in> set m. slot_state s = Slot_Empty \<Longrightarrow> fail_session session e m = ([], m)"
  by (induction m) (auto simp: Let_def)

lemma call_recv_fail_map: "call_recv session sid rid frame c = Inr (es, c') \<Longrightarrow> fail_map c' = fail_map c"
  unfolding call_recv_def
  by (cases "get_request_id_from frame = rid"; cases "on_response (get_request_id_from frame) frame (resp_map c sid)")
    (auto split: sum.split_asm prod.split_asm)

lemma call_recvs_fail_map: "call_recvs session ps c = Inr (es, c') \<Longrightarrow> fail_map c' = fail_map c"
proof (induction ps arbitrary: c es)
  case Nil
  then show ?case by simp
next
  case (Cons p ps)
  obtain s r f where p: "p = (s, r, f)" by (metis prod_cases3)
  from Cons.prems obtain es1 c1 es2 where
    1: "call_recv session s r f c = Inr (es1, c1)" and 2: "call_recvs session ps c1 = Inr (es2, c')"
    unfolding p call_recvs.simps by (fastforce split: sum.split_asm prod.split_asm)
  show ?case using Cons.IH [OF 2] call_recv_fail_map [OF 1] by (rule trans)
qed

text \<open>
  A failing call reaches nobody. The exception branch fails the calls in a map
  of its own, in which no call ever waits: after any calls, the calls that
  wait for their response in the other map get no completion.
\<close>

theorem rpc_failure_reaches_nobody:
  assumes "call_recvs session ps rpc_client_new = Inr (es, c)"
  shows "call_failed session sid e c = ([], c)"
proof -
  have "fail_map c = (\<lambda>_. replicate 2048 slot0)"
    using call_recvs_fail_map [OF assms] by (simp only: rpc_client_new_def rpc_client.simps)
  moreover have "\<forall>s \<in> set (replicate k slot0). slot_state s = Slot_Empty" for k
    by (simp add: slot0_def)
  ultimately have "\<forall>s \<in> set (fail_map c sid). slot_state s = Slot_Empty" by (simp only:)
  from fail_session_empty [OF this] show ?thesis by (simp add: call_failed_def)
qed

lemma rpc_failure_reaches_nobody_witness:
  "call_failed 9 3 Other_Error (snd (projr (call_recvs 9 [] rpc_client_new))) = ([], rpc_client_new)"
  using rpc_failure_reaches_nobody [of 9 "[]" "[]" rpc_client_new 3 Other_Error] by simp

end
