(* ===== verification/Pipeline.thy ===== *)
theory Pipeline
  imports Main "HOL-Library.Sublist"
begin

section \<open>Pipelines: operators and the signals they push\<close>

text \<open>
  \<^verbatim>\<open>src/pump/core/op_pusher.hh\<close>, \<^verbatim>\<open>core/context.hh\<close> and the single-value senders
  of \<^verbatim>\<open>src/pump/sender\<close> (\<open>just\<close>, \<open>then\<close>, \<open>flat_map\<close>, \<open>maybe\<close>, \<open>visit\<close>,
  \<open>any_exception\<close>, \<open>when_skipped\<close>, \<open>push_context\<close>, \<open>pop_context\<close>,
  \<open>get_context\<close>, \<open>submit\<close>). An operator pushes a signal to the operator at the
  next position; here it is a function from the continuation at that position
  and from the incoming signal. An outcome is the list of events the push leads to (for a
  pipeline without waiting operators the signals that reach the receiver, with their
  contexts) and the C++ exception, if any, that leaves the push; \<open>None\<close> stands
  for a pipeline that a \<^verbatim>\<open>static_assert\<close> rejects. A nested sender is the operator
  list that its \<open>connect\<close> builds; the operator \<open>pop_pusher_scope_op\<close> at its end
  continues at the position behind the parent, so the nested list runs on the
  parent's continuation.
\<close>

datatype exc = Std_Exc nat | Raw_Exc nat

datatype val =
    V_Int int
  | V_Bool bool
  | V_True
  | V_False
  | V_Null
  | V_Mono
  | V_Ptr nat
  | V_Opt "val option"
  | V_Variant val
  | V_Exc exc
  | V_Obj nat int

text \<open>
  A context is the stack of its pushed frames over the root frame, innermost
  first; a frame is the compile-time id of its \<open>push_context\<close> and its data.
  \<open>has_type\<close> stands for the type equality of \<^verbatim>\<open>std::is_same_v\<close>: objects carry a
  type tag.
\<close>

type_synonym frame = "nat \<times> val list"
type_synonym context_stack = "frame list \<times> val list"

datatype signal = S_Value "val list" | S_Exc exc | S_Skip | S_Done

type_synonym 'a outcome = "('a list \<times> exc option) option"
type_synonym 'a cont = "context_stack \<Rightarrow> signal \<Rightarrow> 'a outcome"
type_synonym delivery = "context_stack \<times> signal"

declare split_paired_All [simp del] split_paired_Ex [simp del]

definition has_id :: "nat \<Rightarrow> context_stack \<Rightarrow> bool" where
  "has_id i ctx \<longleftrightarrow> i \<in> fst ` set (fst ctx)"

fun has_type :: "nat \<Rightarrow> val \<Rightarrow> bool" where
  "has_type t (V_Obj t' _) \<longleftrightarrow> t = t'"
| "has_type t _ \<longleftrightarrow> False"

definition get_frame :: "nat \<Rightarrow> val list \<Rightarrow> val option" where
  "get_frame t ds = List.find (has_type t) ds"

fun get_pushed :: "nat \<Rightarrow> frame list \<Rightarrow> val list \<Rightarrow> val option" where
  "get_pushed t [] root = get_frame t root"
| "get_pushed t ((i, ds) # fs) root =
     (case get_frame t ds of Some v \<Rightarrow> Some v | None \<Rightarrow> get_pushed t fs root)"

fun get_all_from_context :: "nat list \<Rightarrow> context_stack \<Rightarrow> val list option" where
  "get_all_from_context [] ctx = Some []"
| "get_all_from_context (t # ts) ctx =
     (case (get_pushed t (fst ctx) (snd ctx), get_all_from_context ts ctx) of
        (Some v, Some vs) \<Rightarrow> Some (v # vs)
      | _ \<Rightarrow> None)"

subsection \<open>The operators\<close>

datatype pop =
    Op_Just "val list"
  | Op_Then "val list \<Rightarrow> exc + val list"
  | Op_Flat_Map "val list \<Rightarrow> exc + pop list"
  | Op_Any_Exception "exc \<Rightarrow> exc + pop list"
  | Op_When_Skipped "context_stack \<Rightarrow> exc + pop list"
  | Op_Maybe
  | Op_Maybe_Not
  | Op_Visit
  | Op_Visit_With val
  | Op_Push_Context nat "val list"
  | Op_Push_Result nat
  | Op_Pop_Context nat
  | Op_Get_Context "nat list"

text \<open>\<^verbatim>\<open>try { push } catch (...) { handler }\<close>.\<close>

definition try_catch :: "'a outcome \<Rightarrow> (exc \<Rightarrow> 'a outcome) \<Rightarrow> 'a outcome" where
  "try_catch out handler =
     (case out of
        Some (tr, Some e) \<Rightarrow>
          (case handler e of None \<Rightarrow> None | Some (tr', thrown) \<Rightarrow> Some (tr @ tr', thrown))
      | _ \<Rightarrow> out)"

text \<open>\<^verbatim>\<open>catch (std::exception exp)\<close>: other exceptions pass through.\<close>

definition try_catch_std :: "'a outcome \<Rightarrow> (exc \<Rightarrow> 'a outcome) \<Rightarrow> 'a outcome" where
  "try_catch_std out handler =
     try_catch out (\<lambda>e. case e of Std_Exc _ \<Rightarrow> handler e | Raw_Exc _ \<Rightarrow> Some ([], Some e))"

definition chain :: "('a cont \<Rightarrow> 'a cont) list \<Rightarrow> 'a cont \<Rightarrow> 'a cont" where
  "chain ps k = foldr (\<lambda>p. p) ps k"

definition base_push :: "'a cont \<Rightarrow> 'a cont" where
  "base_push k ctx s = k ctx s"

definition just_push :: "val list \<Rightarrow> 'a cont \<Rightarrow> 'a cont" where
  "just_push vs k ctx s =
     (case s of
        S_Value [] \<Rightarrow>
          (case vs of
             [] \<Rightarrow> k ctx (S_Value [])
           | [V_Exc e] \<Rightarrow> k ctx (S_Exc e)
           | _ \<Rightarrow> k ctx (S_Value vs))
      | S_Value _ \<Rightarrow> None
      | _ \<Rightarrow> base_push k ctx s)"

definition then_push :: "(val list \<Rightarrow> exc + val list) \<Rightarrow> 'a cont \<Rightarrow> 'a cont" where
  "then_push f k ctx s =
     (case s of
        S_Value vs \<Rightarrow>
          (case f vs of
             Inl e \<Rightarrow> k ctx (S_Exc e)
           | Inr ws \<Rightarrow> try_catch (k ctx (S_Value ws)) (\<lambda>e. k ctx (S_Exc e)))
      | _ \<Rightarrow> base_push k ctx s)"

definition flat_push :: "('a cont \<Rightarrow> 'a cont) list \<Rightarrow> 'a cont \<Rightarrow> context_stack \<Rightarrow> 'a outcome" where
  "flat_push inner k ctx = chain inner k ctx (S_Value [])"

definition flat_map_push :: "(val list \<Rightarrow> exc + ('a cont \<Rightarrow> 'a cont) list) \<Rightarrow> 'a cont \<Rightarrow> 'a cont" where
  "flat_map_push f k ctx s =
     (case s of
        S_Value vs \<Rightarrow>
          (case f vs of
             Inl e \<Rightarrow> k ctx (S_Exc e)
           | Inr inner \<Rightarrow> try_catch (flat_push inner k ctx) (\<lambda>e. k ctx (S_Exc e)))
      | _ \<Rightarrow> base_push k ctx s)"

definition any_exception_push :: "(exc \<Rightarrow> exc + ('a cont \<Rightarrow> 'a cont) list) \<Rightarrow> 'a cont \<Rightarrow> 'a cont" where
  "any_exception_push f k ctx s =
     (case s of
        S_Exc e \<Rightarrow>
          try_catch_std (case f e of Inl e' \<Rightarrow> Some ([], Some e') | Inr inner \<Rightarrow> flat_push inner k ctx)
            (\<lambda>e'. k ctx (S_Exc e'))
      | _ \<Rightarrow> base_push k ctx s)"

definition when_skipped_push :: "(context_stack \<Rightarrow> exc + ('a cont \<Rightarrow> 'a cont) list) \<Rightarrow> 'a cont \<Rightarrow> 'a cont" where
  "when_skipped_push f k ctx s =
     (case s of
        S_Skip \<Rightarrow> (case f ctx of Inl e \<Rightarrow> Some ([], Some e) | Inr inner \<Rightarrow> flat_push inner k ctx)
      | _ \<Rightarrow> base_push k ctx s)"

definition maybe_push :: "'a cont \<Rightarrow> 'a cont" where
  "maybe_push k ctx s =
     (case s of
        S_Value [V_Opt (Some v)] \<Rightarrow> k ctx (S_Value [v])
      | S_Value [V_Opt None] \<Rightarrow> k ctx S_Skip
      | S_Value _ \<Rightarrow> None
      | _ \<Rightarrow> base_push k ctx s)"

definition maybe_not_push :: "'a cont \<Rightarrow> 'a cont" where
  "maybe_not_push k ctx s =
     (case s of
        S_Value [V_Opt None] \<Rightarrow> k ctx (S_Value [])
      | S_Value [V_Opt (Some v)] \<Rightarrow> k ctx S_Skip
      | S_Value _ \<Rightarrow> None
      | _ \<Rightarrow> base_push k ctx s)"

text \<open>\<open>visit()\<close> of a bool, a pointer or a variant.\<close>

fun visit_value :: "val \<Rightarrow> val option" where
  "visit_value (V_Bool b) = Some (if b then V_True else V_False)"
| "visit_value (V_Ptr p) = Some (if p \<noteq> 0 then V_Ptr p else V_Null)"
| "visit_value (V_Variant v) = Some v"
| "visit_value _ = None"

definition visit_push :: "'a cont \<Rightarrow> 'a cont" where
  "visit_push k ctx s =
     (case s of
        S_Value [v] \<Rightarrow> (case visit_value v of Some w \<Rightarrow> k ctx (S_Value [w]) | None \<Rightarrow> None)
      | S_Value _ \<Rightarrow> None
      | _ \<Rightarrow> base_push k ctx s)"

fun truth :: "val \<Rightarrow> bool option" where
  "truth (V_Bool b) = Some b"
| "truth (V_Int n) = Some (n \<noteq> 0)"
| "truth (V_Ptr p) = Some (p \<noteq> 0)"
| "truth _ = None"

text \<open>
  \<open>visit(value)\<close>: the value of the operator chooses the branch, the flowing value
  rides along. The overload for a pointer and a flowing value tests the flowing
  value. Alone, a pointer converts to \<^verbatim>\<open>bool\<close>.
\<close>

fun visit_with_values :: "val \<Rightarrow> val list \<Rightarrow> val list option" where
  "visit_with_values (V_Bool b) [] = Some [if b then V_True else V_False]"
| "visit_with_values (V_Bool b) [v] = Some [if b then V_True else V_False, v]"
| "visit_with_values (V_Ptr p) [] = Some [if p \<noteq> 0 then V_True else V_False]"
| "visit_with_values (V_Ptr p) [v] =
     (case truth v of Some b \<Rightarrow> Some [if b then V_Ptr p else V_Null, v] | None \<Rightarrow> None)"
| "visit_with_values (V_Variant u) [] = Some [u]"
| "visit_with_values (V_Variant u) [v] = Some [u, v]"
| "visit_with_values _ _ = None"

definition visit_with_push :: "val \<Rightarrow> 'a cont \<Rightarrow> 'a cont" where
  "visit_with_push u k ctx s =
     (case s of
        S_Value vs \<Rightarrow> (case visit_with_values u vs of Some ws \<Rightarrow> k ctx (S_Value ws) | None \<Rightarrow> None)
      | _ \<Rightarrow> base_push k ctx s)"

definition push_frame :: "nat \<Rightarrow> val list \<Rightarrow> context_stack \<Rightarrow> context_stack" where
  "push_frame i ds ctx = ((i, ds) # fst ctx, snd ctx)"

definition push_context_push :: "nat \<Rightarrow> val list \<Rightarrow> 'a cont \<Rightarrow> 'a cont" where
  "push_context_push i contents k ctx s =
     (if has_id i ctx then None
      else case s of
        S_Value vs \<Rightarrow> k (push_frame i contents ctx) (S_Value vs)
      | _ \<Rightarrow> k ctx s)"

definition push_result_push :: "nat \<Rightarrow> 'a cont \<Rightarrow> 'a cont" where
  "push_result_push i k ctx s =
     (if has_id i ctx then None
      else case s of
        S_Value vs \<Rightarrow> if vs = [] then None else k (push_frame i vs ctx) (S_Value [])
      | _ \<Rightarrow> k ctx s)"

definition pop_context_push :: "nat \<Rightarrow> 'a cont \<Rightarrow> 'a cont" where
  "pop_context_push i k ctx s =
     (if has_id i ctx then k (tl (fst ctx), snd ctx) s
      else case s of S_Value _ \<Rightarrow> None | _ \<Rightarrow> k ctx s)"

definition get_context_push :: "nat list \<Rightarrow> 'a cont \<Rightarrow> 'a cont" where
  "get_context_push ts k ctx s =
     (case s of
        S_Value vs \<Rightarrow>
          (case get_all_from_context ts ctx of Some ds \<Rightarrow> k ctx (S_Value (ds @ vs)) | None \<Rightarrow> None)
      | _ \<Rightarrow> base_push k ctx s)"

primrec push_op :: "pop \<Rightarrow> 'a cont \<Rightarrow> 'a cont" where
  "push_op (Op_Just vs) = just_push vs"
| "push_op (Op_Then f) = then_push f"
| "push_op (Op_Flat_Map f) = flat_map_push (map_sum id (map push_op) \<circ> f)"
| "push_op (Op_Any_Exception f) = any_exception_push (map_sum id (map push_op) \<circ> f)"
| "push_op (Op_When_Skipped f) = when_skipped_push (map_sum id (map push_op) \<circ> f)"
| "push_op Op_Maybe = maybe_push"
| "push_op Op_Maybe_Not = maybe_not_push"
| "push_op Op_Visit = visit_push"
| "push_op (Op_Visit_With v) = visit_with_push v"
| "push_op (Op_Push_Context i ds) = push_context_push i ds"
| "push_op (Op_Push_Result i) = push_result_push i"
| "push_op (Op_Pop_Context i) = pop_context_push i"
| "push_op (Op_Get_Context ts) = get_context_push ts"

text \<open>The receiver at the end of a submitted pipeline: the context must be the root.\<close>

definition null_receiver :: "delivery cont" where
  "null_receiver ctx s = (if fst ctx = [] then Some ([(ctx, s)], None) else None)"

definition submit :: "pop list \<Rightarrow> val list \<Rightarrow> delivery outcome" where
  "submit ops root = chain (map push_op ops) null_receiver ([], root) (S_Value [])"

subsection \<open>The direct reading of a pipeline\<close>

text \<open>
  \<open>flow_op\<close> is the specification: an operator turns a context and a signal into
  a context and a signal, and a pipeline composes its operators from left to
  right. No exception handling of the host language appears in it.
\<close>

type_synonym flow = "context_stack \<Rightarrow> signal \<Rightarrow> (context_stack \<times> signal) option"

fun seq_flow :: "flow list \<Rightarrow> flow" where
  "seq_flow [] ctx s = Some (ctx, s)"
| "seq_flow (p # ps) ctx s =
     (case p ctx s of None \<Rightarrow> None | Some (ctx', s') \<Rightarrow> seq_flow ps ctx' s')"

definition on_value :: "(context_stack \<Rightarrow> val list \<Rightarrow> (context_stack \<times> signal) option) \<Rightarrow> flow" where
  "on_value g ctx s = (case s of S_Value vs \<Rightarrow> g ctx vs | _ \<Rightarrow> Some (ctx, s))"

primrec flow_op :: "pop \<Rightarrow> flow" where
  "flow_op (Op_Just vs) = on_value (\<lambda>ctx us. if us \<noteq> [] then None else
      Some (ctx, case vs of [V_Exc e] \<Rightarrow> S_Exc e | _ \<Rightarrow> S_Value vs))"
| "flow_op (Op_Then f) = on_value (\<lambda>ctx vs. Some (ctx, case f vs of Inl e \<Rightarrow> S_Exc e | Inr ws \<Rightarrow> S_Value ws))"
| "flow_op (Op_Flat_Map f) = on_value (\<lambda>ctx vs. case (map_sum id (map flow_op) \<circ> f) vs of
      Inl e \<Rightarrow> Some (ctx, S_Exc e) | Inr inner \<Rightarrow> seq_flow inner ctx (S_Value []))"
| "flow_op (Op_Any_Exception f) = (\<lambda>ctx s. case s of
      S_Exc e \<Rightarrow> (case (map_sum id (map flow_op) \<circ> f) e of
         Inl e' \<Rightarrow> Some (ctx, S_Exc e') | Inr inner \<Rightarrow> seq_flow inner ctx (S_Value []))
    | _ \<Rightarrow> Some (ctx, s))"
| "flow_op (Op_When_Skipped f) = (\<lambda>ctx s. case s of
      S_Skip \<Rightarrow> (case (map_sum id (map flow_op) \<circ> f) ctx of
         Inl e \<Rightarrow> None | Inr inner \<Rightarrow> seq_flow inner ctx (S_Value []))
    | _ \<Rightarrow> Some (ctx, s))"
| "flow_op Op_Maybe = on_value (\<lambda>ctx vs. case vs of
      [V_Opt (Some v)] \<Rightarrow> Some (ctx, S_Value [v]) | [V_Opt None] \<Rightarrow> Some (ctx, S_Skip) | _ \<Rightarrow> None)"
| "flow_op Op_Maybe_Not = on_value (\<lambda>ctx vs. case vs of
      [V_Opt None] \<Rightarrow> Some (ctx, S_Value []) | [V_Opt (Some v)] \<Rightarrow> Some (ctx, S_Skip) | _ \<Rightarrow> None)"
| "flow_op Op_Visit = on_value (\<lambda>ctx vs. case vs of
      [v] \<Rightarrow> map_option (\<lambda>w. (ctx, S_Value [w])) (visit_value v) | _ \<Rightarrow> None)"
| "flow_op (Op_Visit_With u) = on_value (\<lambda>ctx vs. map_option (\<lambda>ws. (ctx, S_Value ws)) (visit_with_values u vs))"
| "flow_op (Op_Push_Context i ds) = (\<lambda>ctx s. if has_id i ctx then None else
      Some (case s of S_Value vs \<Rightarrow> (push_frame i ds ctx, s) | _ \<Rightarrow> (ctx, s)))"
| "flow_op (Op_Push_Result i) = (\<lambda>ctx s. if has_id i ctx \<or> s = S_Value [] then None else
      Some (case s of S_Value vs \<Rightarrow> (push_frame i vs ctx, S_Value []) | _ \<Rightarrow> (ctx, s)))"
| "flow_op (Op_Pop_Context i) = (\<lambda>ctx s. if has_id i ctx then Some ((tl (fst ctx), snd ctx), s) else
      on_value (\<lambda>_ _. None) ctx s)"
| "flow_op (Op_Get_Context ts) = on_value (\<lambda>ctx vs.
      map_option (\<lambda>ds. (ctx, S_Value (ds @ vs))) (get_all_from_context ts ctx))"

text \<open>
  Pipelines whose user functions stay within what the operators catch: the
  handlers of \<open>any_exception\<close> leave only exceptions derived from
  \<^verbatim>\<open>std::exception\<close>, the functions of \<open>when_skipped\<close> none.
\<close>

primrec exc_safe :: "pop \<Rightarrow> bool" where
  "exc_safe (Op_Just vs) = True"
| "exc_safe (Op_Then f) = True"
| "exc_safe (Op_Flat_Map f) = (\<forall>vs. case (map_sum id (map exc_safe) \<circ> f) vs of
      Inl e \<Rightarrow> True | Inr bs \<Rightarrow> \<forall>b \<in> set bs. b)"
| "exc_safe (Op_Any_Exception f) = (\<forall>x. case (map_sum id (map exc_safe) \<circ> f) x of
      Inl e \<Rightarrow> (case e of Std_Exc n \<Rightarrow> True | Raw_Exc n \<Rightarrow> False) | Inr bs \<Rightarrow> \<forall>b \<in> set bs. b)"
| "exc_safe (Op_When_Skipped f) = (\<forall>c. case (map_sum id (map exc_safe) \<circ> f) c of
      Inl e \<Rightarrow> False | Inr bs \<Rightarrow> \<forall>b \<in> set bs. b)"
| "exc_safe Op_Maybe = True"
| "exc_safe Op_Maybe_Not = True"
| "exc_safe Op_Visit = True"
| "exc_safe (Op_Visit_With v) = True"
| "exc_safe (Op_Push_Context i ds) = True"
| "exc_safe (Op_Push_Result i) = True"
| "exc_safe (Op_Pop_Context i) = True"
| "exc_safe (Op_Get_Context ts) = True"

definition quiet :: "'a cont \<Rightarrow> bool" where
  "quiet k \<longleftrightarrow> (\<forall>ctx s tr e. k ctx s \<noteq> Some (tr, Some e))"

definition continue :: "(context_stack \<times> signal) option \<Rightarrow> 'a cont \<Rightarrow> 'a outcome" where
  "continue r k = (case r of None \<Rightarrow> None | Some (ctx, s) \<Rightarrow> k ctx s)"

definition implements :: "('a cont \<Rightarrow> 'a cont) \<Rightarrow> flow \<Rightarrow> bool" where
  "implements p g \<longleftrightarrow> (\<forall>k ctx s. quiet k \<longrightarrow> p k ctx s = continue (g ctx s) k)"

lemma continue_simps [simp]: "continue None k = None" "continue (Some (ctx, s)) k = k ctx s"
  by (simp_all add: continue_def)

lemma try_catch_quiet: "quiet k \<Longrightarrow> try_catch (k ctx s) h = k ctx s"
  by (auto simp: try_catch_def quiet_def split: option.split)

lemma try_catch_continue: "quiet k \<Longrightarrow> try_catch (continue r k) h = continue r k"
  by (cases r) (auto simp: try_catch_quiet, simp add: try_catch_def)

lemma quiet_continue: "quiet k \<Longrightarrow> implements p g \<Longrightarrow> quiet (p k)"
  by (auto simp: implements_def quiet_def continue_def split: option.splits)

lemma chain_implements:
  assumes "list_all2 implements ps gs"
  shows "implements (chain ps) (seq_flow gs)"
  using assms
proof (induction rule: list_all2_induct)
  case Nil
  then show ?case by (simp add: implements_def chain_def)
next
  case (Cons p ps g gs)
  have "p (chain ps k) ctx s = continue (seq_flow (g # gs) ctx s) k" if "quiet k" for k ctx s
  proof -
    have "quiet (chain ps k)" using quiet_continue [OF that Cons.IH] .
    then have "p (chain ps k) ctx s = continue (g ctx s) (chain ps k)" using Cons.hyps(1) by (simp add: implements_def)
    also have "\<dots> = continue (seq_flow (g # gs) ctx s) k"
      using Cons.IH that by (cases "g ctx s") (auto simp: implements_def)
    finally show ?thesis .
  qed
  then show ?case by (simp add: implements_def chain_def)
qed

lemma push_op_implements: "exc_safe p \<Longrightarrow> implements (push_op p :: 'a cont \<Rightarrow> 'a cont) (flow_op p)"
proof (induction p)
  case (Op_Flat_Map f)
  have inner: "implements (chain (map push_op ops) :: 'a cont \<Rightarrow> 'a cont) (seq_flow (map flow_op ops))" if "f vs = Inr ops" for vs ops
  proof (rule chain_implements)
    have "Inr ops \<in> range f" using that by (metis rangeI)
    moreover have "\<forall>p \<in> set ops. exc_safe p"
      using spec [OF Op_Flat_Map.prems [unfolded exc_safe.simps comp_def], of vs] that by simp
    ultimately have "implements (push_op p :: 'a cont \<Rightarrow> 'a cont) (flow_op p)" if "p \<in> set ops" for p
      using Op_Flat_Map.IH [of "Inr ops" ops p] that by (simp add: setr.intros)
    then show "list_all2 implements (map push_op ops :: ('a cont \<Rightarrow> 'a cont) list) (map flow_op ops)"
      by (auto simp: list_all2_conv_all_nth)
  qed
  show ?case unfolding implements_def
  proof (intro allI impI)
    fix k :: "'a cont" and ctx s assume k: "quiet k"
    show "push_op (Op_Flat_Map f) k ctx s = continue (flow_op (Op_Flat_Map f) ctx s) k"
    proof (cases s)
      case (S_Value vs)
      show ?thesis using inner [of vs] k try_catch_continue [OF k]
        by (cases "f vs") (auto simp: S_Value flat_map_push_def flat_push_def on_value_def implements_def)
    qed (simp_all add: flat_map_push_def base_push_def on_value_def)
  qed
next
  case (Op_Any_Exception f)
  have inner: "implements (chain (map push_op ops) :: 'a cont \<Rightarrow> 'a cont) (seq_flow (map flow_op ops))" if "f e = Inr ops" for e ops
  proof (rule chain_implements)
    have "Inr ops \<in> range f" using that by (metis rangeI)
    moreover have "\<forall>p \<in> set ops. exc_safe p"
      using spec [OF Op_Any_Exception.prems [unfolded exc_safe.simps comp_def], of e] that by simp
    ultimately have "implements (push_op p :: 'a cont \<Rightarrow> 'a cont) (flow_op p)" if "p \<in> set ops" for p
      using Op_Any_Exception.IH [of "Inr ops" ops p] that by (simp add: setr.intros)
    then show "list_all2 implements (map push_op ops :: ('a cont \<Rightarrow> 'a cont) list) (map flow_op ops)"
      by (auto simp: list_all2_conv_all_nth)
  qed
  have std: "\<exists>n. e' = Std_Exc n" if "f e = Inl e'" for e e'
    using Op_Any_Exception.prems that by (cases e') (auto dest: spec [of _ e])
  show ?case unfolding implements_def
  proof (intro allI impI)
    fix k :: "'a cont" and ctx s assume k: "quiet k"
    show "push_op (Op_Any_Exception f) k ctx s = continue (flow_op (Op_Any_Exception f) ctx s) k"
    proof (cases s)
      case (S_Exc e)
      show ?thesis using inner [of e] std [of e] k try_catch_continue [OF k] try_catch_quiet [OF k]
        by (cases "f e") (auto simp: S_Exc any_exception_push_def try_catch_std_def flat_push_def implements_def,
            auto simp: try_catch_def split: option.split)
    qed (simp_all add: any_exception_push_def base_push_def)
  qed
next
  case (Op_When_Skipped f)
  have inner: "implements (chain (map push_op ops) :: 'a cont \<Rightarrow> 'a cont) (seq_flow (map flow_op ops))" if "f c = Inr ops" for c ops
  proof (rule chain_implements)
    have "Inr ops \<in> range f" using that by (metis rangeI)
    moreover have "\<forall>p \<in> set ops. exc_safe p"
      using spec [OF Op_When_Skipped.prems [unfolded exc_safe.simps comp_def], of c] that by simp
    ultimately have "implements (push_op p :: 'a cont \<Rightarrow> 'a cont) (flow_op p)" if "p \<in> set ops" for p
      using Op_When_Skipped.IH [of "Inr ops" ops p] that by (simp add: setr.intros)
    then show "list_all2 implements (map push_op ops :: ('a cont \<Rightarrow> 'a cont) list) (map flow_op ops)"
      by (auto simp: list_all2_conv_all_nth)
  qed
  have ok: "\<exists>ops. f c = Inr ops" for c
    using Op_When_Skipped.prems by (cases "f c") (auto dest: spec [of _ c])
  show ?case unfolding implements_def
  proof (intro allI impI)
    fix k :: "'a cont" and ctx s assume k: "quiet k"
    show "push_op (Op_When_Skipped f) k ctx s = continue (flow_op (Op_When_Skipped f) ctx s) k"
    proof (cases s)
      case S_Skip
      then show ?thesis using inner [of ctx] ok [of ctx] k
        by (auto simp: when_skipped_push_def flat_push_def implements_def)
    qed (simp_all add: when_skipped_push_def base_push_def)
  qed
qed (auto simp: implements_def then_push_def just_push_def maybe_push_def maybe_not_push_def visit_push_def
    visit_with_push_def push_context_push_def push_result_push_def pop_context_push_def get_context_push_def
    base_push_def on_value_def try_catch_quiet split: signal.splits list.splits sum.splits val.splits option.splits)

lemma chain_implements_ops:
  "\<forall>p \<in> set ops. exc_safe p \<Longrightarrow> implements (chain (map push_op ops) :: 'a cont \<Rightarrow> 'a cont) (seq_flow (map flow_op ops))"
  by (intro chain_implements) (auto simp: list_all2_conv_all_nth intro: push_op_implements)

lemma quiet_null_receiver: "quiet null_receiver"
  by (auto simp: quiet_def null_receiver_def)

lemma seq_root_kept:
  assumes "\<And>g ctx s ctx' s'. g \<in> set gs \<Longrightarrow> g ctx s = Some (ctx', s') \<Longrightarrow> snd ctx' = snd ctx"
    and "seq_flow gs ctx s = Some (ctx', s')"
  shows "snd ctx' = snd ctx"
  using assms
proof (induction gs arbitrary: ctx s)
  case (Cons g gs)
  from Cons.prems(2) obtain ctx1 s1 where 1: "g ctx s = Some (ctx1, s1)" "seq_flow gs ctx1 s1 = Some (ctx', s')"
    by (auto split: option.splits prod.splits)
  have "snd ctx' = snd ctx1"
  proof (rule Cons.IH [OF _ 1(2)])
    fix h c u c' u' assume "h \<in> set gs" "h c u = Some (c', u')"
    then show "snd c' = snd c" using Cons.prems(1) [of h c u c' u'] by simp
  qed
  moreover have "snd ctx1 = snd ctx" by (rule Cons.prems(1) [of g ctx s ctx1 s1]) (simp_all add: 1)
  ultimately show ?case by simp
qed simp

lemma root_kept_op: "flow_op p ctx s = Some (ctx', s') \<Longrightarrow> snd ctx' = snd ctx"
proof (induction p arbitrary: ctx s ctx' s')
  case (Op_Flat_Map f)
  show ?case
  proof (cases s)
    case (S_Value vs)
    show ?thesis
    proof (cases "f vs")
      case (Inr ops)
      have "Inr ops \<in> range f" using Inr by (metis rangeI)
      then have "flow_op q c u = Some (c', u') \<Longrightarrow> snd c' = snd c" if "q \<in> set ops" for q c u c' u'
        using Op_Flat_Map.IH [of "Inr ops" ops q] that by (simp add: setr.intros)
      then show ?thesis using Op_Flat_Map.prems S_Value Inr
        by (intro seq_root_kept [of "map flow_op ops" ctx "S_Value []" ctx' s']) (auto simp: on_value_def)
    qed (use Op_Flat_Map.prems S_Value in \<open>auto simp: on_value_def\<close>)
  qed (use Op_Flat_Map.prems in \<open>auto simp: on_value_def\<close>)
next
  case (Op_Any_Exception f)
  show ?case
  proof (cases s)
    case (S_Exc e)
    show ?thesis
    proof (cases "f e")
      case (Inr ops)
      have "Inr ops \<in> range f" using Inr by (metis rangeI)
      then have "flow_op q c u = Some (c', u') \<Longrightarrow> snd c' = snd c" if "q \<in> set ops" for q c u c' u'
        using Op_Any_Exception.IH [of "Inr ops" ops q] that by (simp add: setr.intros)
      then show ?thesis using Op_Any_Exception.prems S_Exc Inr
        by (intro seq_root_kept [of "map flow_op ops" ctx "S_Value []" ctx' s']) auto
    qed (use Op_Any_Exception.prems S_Exc in auto)
  qed (use Op_Any_Exception.prems in auto)
next
  case (Op_When_Skipped f)
  show ?case
  proof (cases s)
    case S_Skip
    show ?thesis
    proof (cases "f ctx")
      case (Inr ops)
      have "Inr ops \<in> range f" using Inr by (metis rangeI)
      then have "flow_op q c u = Some (c', u') \<Longrightarrow> snd c' = snd c" if "q \<in> set ops" for q c u c' u'
        using Op_When_Skipped.IH [of "Inr ops" ops q] that by (simp add: setr.intros)
      then show ?thesis using Op_When_Skipped.prems S_Skip Inr
        by (intro seq_root_kept [of "map flow_op ops" ctx "S_Value []" ctx' s']) auto
    qed (use Op_When_Skipped.prems S_Skip in auto)
  qed (use Op_When_Skipped.prems in auto)
qed (auto simp: on_value_def push_frame_def split: signal.splits list.splits val.splits option.splits if_splits)

lemma root_kept: "seq_flow (map flow_op ops) ctx s = Some (ctx', s') \<Longrightarrow> snd ctx' = snd ctx"
  by (rule seq_root_kept [of "map flow_op ops"]) (auto dest: root_kept_op)

text \<open>
  C4: a submitted pipeline does what its direct reading says, and completes
  exactly once. When the handlers stay within the exceptions the operators
  catch, the pushes of \<open>submit\<close> deliver one single signal to the receiver, the
  one the left-to-right composition of the operators computes, in the root
  context, and no exception escapes.
\<close>

theorem pipeline_completes_once:
  assumes "\<forall>p \<in> set ops. exc_safe p" and "submit ops root \<noteq> None"
  shows "\<exists>s. submit ops root = Some ([(([], root), s)], None)
    \<and> seq_flow (map flow_op ops) ([], root) (S_Value []) = Some (([], root), s)"
proof -
  have "submit ops root = continue (seq_flow (map flow_op ops) ([], root) (S_Value [])) null_receiver"
    using chain_implements_ops [OF assms(1), where 'a = delivery] quiet_null_receiver by (simp add: submit_def implements_def)
  moreover obtain ctx s where r: "seq_flow (map flow_op ops) ([], root) (S_Value []) = Some (ctx, s)"
    using calculation assms(2) by (cases "seq_flow (map flow_op ops) ([], root) (S_Value [])") auto
  moreover have "snd ctx = root"
    using root_kept [OF r] by simp
  ultimately show ?thesis using assms(2) by (cases ctx) (auto simp: null_receiver_def split: if_splits)
qed

lemma pipeline_completes_once_witness:
  "submit [Op_Just [V_Int 6], Op_Then (\<lambda>vs. case vs of [V_Int n] \<Rightarrow> if n = 6 then Inl (Raw_Exc 1) else Inr [] | _ \<Rightarrow> Inr []),
      Op_Any_Exception (\<lambda>e. Inr [Op_Just [V_Bool True]])] []
    = Some ([(([], []), S_Value [V_Bool True])], None)"
  using pipeline_completes_once [where ops = "[Op_Just [V_Int 6],
      Op_Then (\<lambda>vs. case vs of [V_Int n] \<Rightarrow> if n = 6 then Inl (Raw_Exc 1) else Inr [] | _ \<Rightarrow> Inr []),
      Op_Any_Exception (\<lambda>e. Inr [Op_Just [V_Bool True]])]" and root = "[]"]
  by (simp add: submit_def chain_def just_push_def then_push_def any_exception_push_def flat_push_def
      try_catch_std_def try_catch_def null_receiver_def on_value_def)

subsection \<open>Contexts\<close>

text \<open>
  The matching that \<open>compute_matching_context_compile_id\<close> computes on the types of
  the senders: pushes and pops of a pipeline are brackets, and a nested sender
  is bracketed in itself.
\<close>

fun run_brackets :: "(nat list \<Rightarrow> nat list option) list \<Rightarrow> nat list \<Rightarrow> nat list option" where
  "run_brackets [] st = Some st"
| "run_brackets (b # bs) st = (case b st of None \<Rightarrow> None | Some st' \<Rightarrow> run_brackets bs st')"

primrec bracket_op :: "pop \<Rightarrow> nat list \<Rightarrow> nat list option" where
  "bracket_op (Op_Just vs) = Some"
| "bracket_op (Op_Then f) = Some"
| "bracket_op (Op_Flat_Map f) = (\<lambda>st. if (\<forall>vs. case (map_sum id (map bracket_op) \<circ> f) vs of
      Inl e \<Rightarrow> True | Inr bs \<Rightarrow> run_brackets bs [] = Some []) then Some st else None)"
| "bracket_op (Op_Any_Exception f) = (\<lambda>st. if (\<forall>e. case (map_sum id (map bracket_op) \<circ> f) e of
      Inl e \<Rightarrow> True | Inr bs \<Rightarrow> run_brackets bs [] = Some []) then Some st else None)"
| "bracket_op (Op_When_Skipped f) = (\<lambda>st. if (\<forall>c. case (map_sum id (map bracket_op) \<circ> f) c of
      Inl e \<Rightarrow> True | Inr bs \<Rightarrow> run_brackets bs [] = Some []) then Some st else None)"
| "bracket_op Op_Maybe = Some"
| "bracket_op Op_Maybe_Not = Some"
| "bracket_op Op_Visit = Some"
| "bracket_op (Op_Visit_With v) = Some"
| "bracket_op (Op_Push_Context i ds) = (\<lambda>st. if i \<in> set st then None else Some (i # st))"
| "bracket_op (Op_Push_Result i) = (\<lambda>st. if i \<in> set st then None else Some (i # st))"
| "bracket_op (Op_Pop_Context i) = (\<lambda>st. case st of j # st' \<Rightarrow> if i = j then Some st' else None | [] \<Rightarrow> None)"
| "bracket_op (Op_Get_Context ts) = Some"

text \<open>
  The context of a signal relative to the one the pipeline started in: the frames
  on top belong to open brackets. A push that an exception or a skip flew past
  is missing.
\<close>

definition within :: "context_stack \<Rightarrow> nat list \<Rightarrow> context_stack \<Rightarrow> bool" where
  "within base st ctx \<longleftrightarrow> snd ctx = snd base \<and> distinct st \<and> set st \<inter> fst ` set (fst base) = {}
     \<and> (\<exists>fs. fst ctx = fs @ fst base \<and> subseq (map fst fs) st)"

definition keeps_context :: "flow \<Rightarrow> (nat list \<Rightarrow> nat list option) \<Rightarrow> bool" where
  "keeps_context g b \<longleftrightarrow> (\<forall>base st st' ctx s ctx' s'. within base st ctx \<longrightarrow> b st = Some st' \<longrightarrow>
     g ctx s = Some (ctx', s') \<longrightarrow> within base st' ctx')"

lemma seq_keeps_context:
  assumes "list_all2 keeps_context gs bs"
  shows "keeps_context (seq_flow gs) (run_brackets bs)"
  using assms
proof (induction rule: list_all2_induct)
  case Nil
  then show ?case by (simp add: keeps_context_def)
next
  case (Cons g gs b bs)
  show ?case unfolding keeps_context_def
  proof (intro allI impI)
    fix base st st' ctx s ctx' s'
    assume a: "within base st ctx" "run_brackets (b # bs) st = Some st'" "seq_flow (g # gs) ctx s = Some (ctx', s')"
    then obtain st1 ctx1 s1 where 1: "b st = Some st1" "run_brackets bs st1 = Some st'"
      "g ctx s = Some (ctx1, s1)" "seq_flow gs ctx1 s1 = Some (ctx', s')"
      by (auto split: option.splits prod.splits)
    then have "within base st1 ctx1" using Cons.hyps(1) a(1) unfolding keeps_context_def by blast
    then show "within base st' ctx'" using Cons.IH 1(2,4) unfolding keeps_context_def by blast
  qed
qed

lemma within_self: "within base [] ctx \<longleftrightarrow> ctx = base"
  by (cases ctx; cases base) (auto simp: within_def dest: list_emb_Nil2)

lemma nested_restores:
  assumes "list_all2 keeps_context gs bs" "run_brackets bs [] = Some []" "seq_flow gs ctx s = Some (ctx', s')"
  shows "ctx' = ctx"
  using seq_keeps_context [OF assms(1)] assms(2,3) within_self unfolding keeps_context_def by blast

lemma nested_keeps:
  assumes "\<forall>q \<in> set ops. keeps_context (flow_op q) (bracket_op q)"
    and "run_brackets (map bracket_op ops) [] = Some []" "seq_flow (map flow_op ops) ctx s = Some (ctx', s')"
  shows "ctx' = ctx"
  using assms(2,3)
  by (rule nested_restores [rotated]) (use assms(1) in \<open>auto simp: list_all2_conv_all_nth\<close>)

lemma within_push:
  assumes "within base st ctx" "\<not> has_id i ctx" "i \<notin> set st"
  shows "within base (i # st) (push_frame i ds ctx)" "within base (i # st) ctx"
proof -
  from assms(1) obtain fs where fs: "fst ctx = fs @ fst base" "subseq (map fst fs) st"
    by (auto simp: within_def)
  have "i \<notin> fst ` set (fst base)" using assms(2) fs(1) by (auto simp: has_id_def)
  with assms fs show "within base (i # st) (push_frame i ds ctx)" "within base (i # st) ctx"
    by (auto simp: within_def push_frame_def intro!: exI [of _ "(i, ds) # fs"] exI [of _ fs])
qed

lemma within_pop:
  assumes w: "within base (i # st) ctx"
  shows "has_id i ctx \<Longrightarrow> within base st (tl (fst ctx), snd ctx)" "\<not> has_id i ctx \<Longrightarrow> within base st ctx"
proof -
  from w obtain fs where fs: "fst ctx = fs @ fst base" "subseq (map fst fs) (i # st)" "distinct (i # st)"
    "set (i # st) \<inter> fst ` set (fst base) = {}" "snd ctx = snd base"
    by (auto simp: within_def)
  show "within base st (tl (fst ctx), snd ctx)" if "has_id i ctx"
  proof -
    have "i \<in> set (map fst fs)" using that fs(1,4) by (auto simp: has_id_def)
    then obtain f gs where f: "fs = f # gs" by (cases fs) auto
    have "fst f = i"
    proof (rule ccontr)
      assume "fst f \<noteq> i"
      then have "subseq (map fst fs) st" using fs(2) f by (auto elim: list_emb.cases)
      then have "i \<in> set st" using list_emb_set [OF _ \<open>i \<in> set (map fst fs)\<close>] by blast
      with fs(3) show False by simp
    qed
    then have "subseq (map fst gs) st" using fs(2) f by simp
    with fs f show ?thesis by (auto simp: within_def)
  qed
  show "within base st ctx" if "\<not> has_id i ctx"
  proof -
    have "i \<notin> set (map fst fs)" using that fs(1) by (auto simp: has_id_def)
    then have "subseq (map fst fs) st" using fs(2) by (cases fs) (auto elim: list_emb.cases)
    with fs show ?thesis by (auto simp: within_def)
  qed
qed

lemma same_context: "(\<And>ctx s ctx' s'. g ctx s = Some (ctx', s') \<Longrightarrow> ctx' = ctx) \<Longrightarrow> keeps_context g Some"
  unfolding keeps_context_def by (metis option.inject)

lemma keeps_same:
  assumes "\<And>st st'. b st = Some st' \<Longrightarrow> st' = st"
    and "\<And>st st' ctx s ctx' s'. b st = Some st' \<Longrightarrow> g ctx s = Some (ctx', s') \<Longrightarrow> ctx' = ctx"
  shows "keeps_context g b"
  unfolding keeps_context_def using assms by metis

lemma flow_op_keeps_context: "keeps_context (flow_op p) (bracket_op p)"
proof (induction p)
  case (Op_Flat_Map f)
  have "ctx' = ctx" if "bracket_op (Op_Flat_Map f) st = Some st'" "flow_op (Op_Flat_Map f) ctx s = Some (ctx', s')" for st st' ctx s ctx' s'
  proof (cases s)
    case (S_Value vs)
    show ?thesis
    proof (cases "f vs")
      case (Inr ops)
      have "Inr ops \<in> range f" using Inr by (metis rangeI)
      then have "\<forall>q \<in> set ops. keeps_context (flow_op q) (bracket_op q)"
        using Op_Flat_Map.IH [of "Inr ops" ops] by (simp add: setr.intros)
      moreover have "run_brackets (map bracket_op ops) [] = Some []"
        using that(1) Inr by (auto split: if_splits dest: spec [of _ vs])
      ultimately show ?thesis
        by (rule nested_keeps) (use that(2) S_Value Inr in \<open>auto simp: on_value_def\<close>)
    qed (use that S_Value in \<open>auto simp: on_value_def\<close>)
  qed (use that in \<open>auto simp: on_value_def\<close>)
  then show ?case by (intro keeps_same) (simp_all split: if_split_asm)
next
  case (Op_Any_Exception f)
  have "ctx' = ctx" if "bracket_op (Op_Any_Exception f) st = Some st'" "flow_op (Op_Any_Exception f) ctx s = Some (ctx', s')" for st st' ctx s ctx' s'
  proof (cases s)
    case (S_Exc e)
    show ?thesis
    proof (cases "f e")
      case (Inr ops)
      have "Inr ops \<in> range f" using Inr by (metis rangeI)
      then have "\<forall>q \<in> set ops. keeps_context (flow_op q) (bracket_op q)"
        using Op_Any_Exception.IH [of "Inr ops" ops] by (simp add: setr.intros)
      moreover have "run_brackets (map bracket_op ops) [] = Some []"
        using that(1) Inr by (auto split: if_splits dest: spec [of _ e])
      ultimately show ?thesis by (rule nested_keeps) (use that(2) S_Exc Inr in auto)
    qed (use that S_Exc in auto)
  qed (use that in auto)
  then show ?case by (intro keeps_same) (simp_all split: if_split_asm)
next
  case (Op_When_Skipped f)
  have "ctx' = ctx" if "bracket_op (Op_When_Skipped f) st = Some st'" "flow_op (Op_When_Skipped f) ctx s = Some (ctx', s')" for st st' ctx s ctx' s'
  proof (cases s)
    case S_Skip
    show ?thesis
    proof (cases "f ctx")
      case (Inr ops)
      have "Inr ops \<in> range f" using Inr by (metis rangeI)
      then have "\<forall>q \<in> set ops. keeps_context (flow_op q) (bracket_op q)"
        using Op_When_Skipped.IH [of "Inr ops" ops] by (simp add: setr.intros)
      moreover have "run_brackets (map bracket_op ops) [] = Some []"
        using that(1) Inr by (auto split: if_splits dest: spec [of _ ctx])
      ultimately show ?thesis by (rule nested_keeps) (use that(2) S_Skip Inr in auto)
    qed (use that S_Skip in auto)
  qed (use that in auto)
  then show ?case by (intro keeps_same) (simp_all split: if_split_asm)
next
  case (Op_Push_Context i ds)
  show ?case unfolding keeps_context_def using within_push
    by (auto split: if_splits signal.splits)
next
  case (Op_Push_Result i)
  show ?case unfolding keeps_context_def using within_push
    by (auto split: if_splits signal.splits)
next
  case (Op_Pop_Context i)
  show ?case unfolding keeps_context_def using within_pop
    by (auto simp: on_value_def split: if_splits signal.splits list.splits)
qed (auto simp: on_value_def intro!: same_context split: signal.splits list.splits val.splits option.splits if_splits)

text \<open>
  C6: contexts are restored. Let the pushes and pops of contexts of a pipeline match
  as brackets, nested senders included, and let its handlers stay within the
  exceptions the operators catch. Then whatever signal enters it and wherever an
  exception or a skip flies past a push or a pop, the pushers hand exactly one
  signal to the continuation behind the pipeline, in exactly the context the
  pipeline was entered in (unless a \<^verbatim>\<open>static_assert\<close> rejects it).
\<close>

theorem pipeline_restores_context:
  assumes "\<forall>p \<in> set ops. exc_safe p" and "run_brackets (map bracket_op ops) [] = Some []"
    and "\<forall>ctx s tr e. k ctx s \<noteq> Some (tr, Some e)"
  shows "chain (map push_op ops) k ctx s = None \<or> (\<exists>s'. chain (map push_op ops) k ctx s = k ctx s')"
proof -
  have "chain (map push_op ops) k ctx s = continue (seq_flow (map flow_op ops) ctx s) k"
    using chain_implements_ops [OF assms(1), where 'a = 'a] assms(3) by (simp add: implements_def quiet_def)
  moreover have "ctx' = ctx" if "seq_flow (map flow_op ops) ctx s = Some (ctx', s')" for ctx' s'
    using assms(2) that flow_op_keeps_context by (intro nested_keeps) auto
  ultimately show ?thesis
    by (cases "seq_flow (map flow_op ops) ctx s") auto
qed

lemma pipeline_restores_context_witness:
  "chain (map push_op [Op_Push_Context 1 [V_Obj 4 7], Op_Then (\<lambda>vs. Inl (Std_Exc 0)),
      Op_Push_Context 2 [V_Obj 5 8], Op_Get_Context [5], Op_Pop_Context 2, Op_Pop_Context 1])
      (\<lambda>ctx s. Some ([(ctx, s)], None)) ([(9, [])], []) (S_Value [])
    = Some ([(([(9, [])], []), S_Exc (Std_Exc 0))], None)"
  using pipeline_restores_context [where ops = "[Op_Push_Context 1 [V_Obj 4 7], Op_Then (\<lambda>vs. Inl (Std_Exc 0)),
      Op_Push_Context 2 [V_Obj 5 8], Op_Get_Context [5], Op_Pop_Context 2, Op_Pop_Context 1]"
      and ctx = "([(9, [])], [])" and s = "S_Value []" and k = "\<lambda>ctx s. Some ([(ctx, s)], None)"]
  by (simp add: chain_def push_context_push_def then_push_def get_context_push_def pop_context_push_def base_push_def
      has_id_def push_frame_def)

text \<open>
  Where the catch clauses end: a handler that leaves an exception not derived
  from \<^verbatim>\<open>std::exception\<close> is not caught by \<open>any_exception\<close>. The exception leaves
  \<open>submit\<close>, and the receiver never gets a signal.
\<close>

lemma raw_exception_is_lost:
  "submit [Op_Just [], Op_Then (\<lambda>vs. Inl (Std_Exc 0)), Op_Any_Exception (\<lambda>e. Inl (Raw_Exc 1))] root
    = Some ([], Some (Raw_Exc 1))"
  by (simp add: submit_def chain_def just_push_def then_push_def any_exception_push_def flat_push_def
      try_catch_std_def try_catch_def null_receiver_def)

text \<open>\<open>visit(pointer)\<close> chooses its branch by the flowing value, not by the pointer.\<close>

lemma visit_pointer_tests_value:
  "visit_with_values (V_Ptr 0) [V_Int 5] = Some [V_Ptr 0, V_Int 5]"
  "visit_with_values (V_Ptr 8) [V_Int 0] = Some [V_Null, V_Int 0]"
  by simp_all

end
