(* ===== verification/Senders.thy ===== *)
theory Senders
  imports Pipeline
begin

section \<open>Senders and how pipelines are composed\<close>

text \<open>
  The sender types of \<^verbatim>\<open>src/pump/sender\<close> (each holds its predecessor), the operator
  list that \<open>connect\<close> builds from them (\<^verbatim>\<open>core/op_tuple_builder.hh\<close>), the operator
  \<^verbatim>\<open>>>\<close> on senders and unapplied stages (\<^verbatim>\<open>core/bind_back.hh\<close>), the stages that the
  headers derive from the basic ones, and the search over sender types by which
  \<open>pop_context\<close> finds the push it closes. A stage of a pipeline is a function
  from the predecessor; \<open>None\<close> is a stage that does not compile.
\<close>

datatype sender =
    Just "val list"
  | Then sender "val list \<Rightarrow> exc + val list"
  | Flat_Map sender "val list \<Rightarrow> exc + sender"
  | Any_Exception sender "exc \<Rightarrow> exc + sender"
  | When_Skipped sender "context_stack \<Rightarrow> exc + sender"
  | Maybe sender
  | Maybe_Not sender
  | Visit sender
  | Visit_With sender val
  | Push_Context sender nat "val list"
  | Push_Result sender nat
  | Pop_Context sender nat
  | Get_Context sender "nat list"

subsection \<open>connect\<close>

definition push_back :: "pop list \<Rightarrow> pop \<Rightarrow> pop list" where
  "push_back ops p = ops @ [p]"

definition just_connect :: "val list \<Rightarrow> pop list" where
  "just_connect vs = push_back [] (Op_Just vs)"

definition then_connect :: "pop list \<Rightarrow> (val list \<Rightarrow> exc + val list) \<Rightarrow> pop list" where
  "then_connect prev f = push_back prev (Op_Then f)"

definition flat_connect :: "pop list \<Rightarrow> (val list \<Rightarrow> exc + pop list) \<Rightarrow> pop list" where
  "flat_connect prev f = push_back prev (Op_Flat_Map f)"

definition any_exception_connect :: "pop list \<Rightarrow> (exc \<Rightarrow> exc + pop list) \<Rightarrow> pop list" where
  "any_exception_connect prev f = push_back prev (Op_Any_Exception f)"

definition when_skipped_connect :: "pop list \<Rightarrow> (context_stack \<Rightarrow> exc + pop list) \<Rightarrow> pop list" where
  "when_skipped_connect prev f = push_back prev (Op_When_Skipped f)"

definition maybe_connect :: "bool \<Rightarrow> pop list \<Rightarrow> pop list" where
  "maybe_connect need_value prev = push_back prev (if need_value then Op_Maybe else Op_Maybe_Not)"

definition visit_connect :: "pop list \<Rightarrow> pop list" where
  "visit_connect prev = push_back prev Op_Visit"

definition visit_with_connect :: "pop list \<Rightarrow> val \<Rightarrow> pop list" where
  "visit_with_connect prev v = push_back prev (Op_Visit_With v)"

text \<open>Without contents, \<open>push_context\<close> pushes the values that flow through it (\<open>is_push_value\<close>).\<close>

definition push_context_connect :: "nat \<Rightarrow> pop list \<Rightarrow> val list \<Rightarrow> pop list" where
  "push_context_connect i prev contents =
     push_back prev (if contents = [] then Op_Push_Result i else Op_Push_Context i contents)"

definition pop_context_connect :: "nat \<Rightarrow> pop list \<Rightarrow> pop list" where
  "pop_context_connect i prev = push_back prev (Op_Pop_Context i)"

definition get_context_connect :: "nat list \<Rightarrow> pop list \<Rightarrow> pop list" where
  "get_context_connect ts prev = push_back prev (Op_Get_Context ts)"

primrec connect :: "sender \<Rightarrow> pop list" where
  "connect (Just vs) = just_connect vs"
| "connect (Then s f) = then_connect (connect s) f"
| "connect (Flat_Map s f) = flat_connect (connect s) (map_sum id connect \<circ> f)"
| "connect (Any_Exception s f) = any_exception_connect (connect s) (map_sum id connect \<circ> f)"
| "connect (When_Skipped s f) = when_skipped_connect (connect s) (map_sum id connect \<circ> f)"
| "connect (Maybe s) = maybe_connect True (connect s)"
| "connect (Maybe_Not s) = maybe_connect False (connect s)"
| "connect (Visit s) = visit_connect (connect s)"
| "connect (Visit_With s v) = visit_with_connect (connect s) v"
| "connect (Push_Context s i ds) = push_context_connect i (connect s) ds"
| "connect (Push_Result s i) = push_context_connect i (connect s) []"
| "connect (Pop_Context s i) = pop_context_connect i (connect s)"
| "connect (Get_Context s ts) = get_context_connect ts (connect s)"

named_theorems connect_defs
lemmas connects [connect_defs] = push_back_def just_connect_def then_connect_def flat_connect_def any_exception_connect_def
  when_skipped_connect_def maybe_connect_def visit_connect_def visit_with_connect_def push_context_connect_def
  pop_context_connect_def get_context_connect_def

subsection \<open>Matching pushes and pops\<close>

fun compute_matching_context_compile_id :: "nat \<Rightarrow> sender \<Rightarrow> nat option" where
  "compute_matching_context_compile_id c (Push_Context s i ds) =
     (if c = 0 then Some i else compute_matching_context_compile_id (c - 1) s)"
| "compute_matching_context_compile_id c (Push_Result s i) =
     (if c = 0 then Some i else compute_matching_context_compile_id (c - 1) s)"
| "compute_matching_context_compile_id c (Pop_Context s i) = compute_matching_context_compile_id (c + 1) s"
| "compute_matching_context_compile_id c (Just vs) = None"
| "compute_matching_context_compile_id c (Then s f) = compute_matching_context_compile_id c s"
| "compute_matching_context_compile_id c (Flat_Map s f2) = compute_matching_context_compile_id c s"
| "compute_matching_context_compile_id c (Any_Exception s f3) = compute_matching_context_compile_id c s"
| "compute_matching_context_compile_id c (When_Skipped s f4) = compute_matching_context_compile_id c s"
| "compute_matching_context_compile_id c (Maybe s) = compute_matching_context_compile_id c s"
| "compute_matching_context_compile_id c (Maybe_Not s) = compute_matching_context_compile_id c s"
| "compute_matching_context_compile_id c (Visit s) = compute_matching_context_compile_id c s"
| "compute_matching_context_compile_id c (Visit_With s v) = compute_matching_context_compile_id c s"
| "compute_matching_context_compile_id c (Get_Context s ts) = compute_matching_context_compile_id c s"

subsection \<open>Stages\<close>

type_synonym stage = "sender \<Rightarrow> sender option"

definition then_stage :: "(val list \<Rightarrow> exc + val list) \<Rightarrow> stage" where
  "then_stage f s = Some (Then s f)"

definition flat_map_stage :: "(val list \<Rightarrow> exc + sender) \<Rightarrow> stage" where
  "flat_map_stage f s = Some (Flat_Map s f)"

definition any_exception_stage :: "(exc \<Rightarrow> exc + sender) \<Rightarrow> stage" where
  "any_exception_stage f s = Some (Any_Exception s f)"

definition when_skipped_stage :: "(context_stack \<Rightarrow> exc + sender) \<Rightarrow> stage" where
  "when_skipped_stage f s = Some (When_Skipped s f)"

definition maybe_stage :: "stage" where
  "maybe_stage s = Some (Maybe s)"

definition maybe_not_stage :: "stage" where
  "maybe_not_stage s = Some (Maybe_Not s)"

definition visit_stage :: "val option \<Rightarrow> stage" where
  "visit_stage v s = Some (case v of None \<Rightarrow> Visit s | Some u \<Rightarrow> Visit_With s u)"

definition push_context_stage :: "nat \<Rightarrow> val list \<Rightarrow> stage" where
  "push_context_stage i contents s = Some (if contents = [] then Push_Result s i else Push_Context s i contents)"

definition pop_context_stage :: "stage" where
  "pop_context_stage s = map_option (Pop_Context s) (compute_matching_context_compile_id 0 s)"

definition get_context_stage :: "nat list \<Rightarrow> stage" where
  "get_context_stage ts s = Some (Get_Context s ts)"

text \<open>
  \<open>bind_back_tuple\<close>: stages composed before a sender is at hand. \<open>bind_impl\<close> folds
  them over the sender; \<open>bind_push_front\<close> and \<open>bind_pair\<close> are the overloads of \<^verbatim>\<open>>>\<close>
  whose left operand is a stage itself.
\<close>

fun bind_impl :: "sender \<Rightarrow> stage list \<Rightarrow> sender option" where
  "bind_impl s [] = Some s"
| "bind_impl s (b # bs) = (case b s of None \<Rightarrow> None | Some s' \<Rightarrow> bind_impl s' bs)"

definition bind_push_front :: "stage \<Rightarrow> stage list \<Rightarrow> stage list" where
  "bind_push_front b bs = b # bs"

definition bind_fn :: "sender \<Rightarrow> stage \<Rightarrow> sender option" where
  "bind_fn s b = b s"

definition bind_pair :: "stage \<Rightarrow> stage \<Rightarrow> stage list" where
  "bind_pair a b = [a, b]"

text \<open>
  The derived stages. \<open>false_to_exception\<close> takes a value that converts to \<^verbatim>\<open>bool\<close>; the
  compiler rejects others.
\<close>

definition ignore_args :: stage where
  "ignore_args = then_stage (\<lambda>vs. Inr [])"

definition ignore_results :: stage where
  "ignore_results = ignore_args"

definition forward_value :: "val list \<Rightarrow> stage" where
  "forward_value vs = then_stage (\<lambda>us. Inr vs)"

definition just_exception :: "exc \<Rightarrow> sender option" where
  "just_exception e = bind_impl (Just []) [then_stage (\<lambda>us. Inl e)]"

definition then_exception :: "exc \<Rightarrow> stage" where
  "then_exception e = then_stage (\<lambda>us. Inl e)"

definition transform :: "(val list \<Rightarrow> exc + val list) \<Rightarrow> stage" where
  "transform f = then_stage (\<lambda>vs. f vs)"

definition false_to_exception :: "exc \<Rightarrow> stage" where
  "false_to_exception e =
     then_stage (\<lambda>vs. case vs of
       [v] \<Rightarrow> (case truth v of Some False \<Rightarrow> Inl e | _ \<Rightarrow> Inr [V_Bool True])
     | _ \<Rightarrow> Inr [V_Bool True])"

definition catch_exception :: "(exc \<Rightarrow> bool) \<Rightarrow> (exc \<Rightarrow> exc + sender) \<Rightarrow> stage" where
  "catch_exception is_exception_t f =
     any_exception_stage (\<lambda>e. if is_exception_t e then f e else Inl e)"

definition ignore_all_exception :: stage where
  "ignore_all_exception =
     any_exception_stage (\<lambda>e. case e of Std_Exc n \<Rightarrow> Inr (Just []) | Raw_Exc n \<Rightarrow> Inl e)"

definition ignore_inner_exception :: "stage list \<Rightarrow> stage" where
  "ignore_inner_exception bb s =
     (case bind_impl (Just []) (forward_value [] # bb @ [ignore_all_exception]) of
        None \<Rightarrow> None
      | Some _ \<Rightarrow> flat_map_stage (\<lambda>vs. Inr (the (bind_impl (Just []) (forward_value vs # bb @ [ignore_all_exception])))) s)"

definition on :: "sender \<Rightarrow> stage" where
  "on target = flat_map_stage (\<lambda>vs. Inr (Then target (\<lambda>us. Inr vs)))"

definition with_context :: "nat \<Rightarrow> val list \<Rightarrow> stage list \<Rightarrow> stage list" where
  "with_context i contents bind_t = push_context_stage i contents # bind_t @ [pop_context_stage]"

text \<open>\<open>submit(context)\<close> of a sender, and of stages alone, which start at \<open>just()\<close>.\<close>

definition submit_sender :: "sender \<Rightarrow> val list \<Rightarrow> delivery outcome" where
  "submit_sender s root = submit (connect s) root"

definition submit_stages :: "stage list \<Rightarrow> val list \<Rightarrow> delivery outcome" where
  "submit_stages bb root = Option.bind (bind_impl (Just []) bb) (\<lambda>s. submit_sender s root)"

subsection \<open>Composition\<close>

lemma bind_impl_append: "bind_impl s (as @ bs) = Option.bind (bind_impl s as) (\<lambda>s'. bind_impl s' bs)"
  by (induction s as rule: bind_impl.induct) (auto split: option.split)

text \<open>Composing stages first and composing them onto a sender one by one is the same.\<close>

lemma bind_back_assoc:
  "bind_impl s (bind_pair a b) = Option.bind (bind_fn s a) (\<lambda>s'. bind_fn s' b)"
  "bind_impl s (bind_push_front a bs) = Option.bind (bind_fn s a) (\<lambda>s'. bind_impl s' bs)"
  by (auto simp: bind_pair_def bind_push_front_def bind_fn_def split: option.split)

subsection \<open>The search for the matching push\<close>

definition open_ids :: "sender \<Rightarrow> nat list option" where
  "open_ids s = run_brackets (map bracket_op (connect s)) []"

lemma run_brackets_append:
  "run_brackets (as @ bs) st = Option.bind (run_brackets as st) (run_brackets bs)"
  by (induction as st rule: run_brackets.induct) (auto split: option.split)

lemma matching_is_nth_open:
  "open_ids s = Some st \<Longrightarrow>
     compute_matching_context_compile_id c s = (if c < length st then Some (st ! c) else None)"
proof (induction s arbitrary: c st)
  case (Push_Context s i ds)
  then obtain st0 where "open_ids s = Some st0" "st = i # st0"
    by (auto simp: connect_defs open_ids_def run_brackets_append bind_eq_Some_conv
        split: if_splits)
  then show ?case using Push_Context.IH by (auto simp: nth_Cons')
next
  case (Push_Result s i)
  then obtain st0 where "open_ids s = Some st0" "st = i # st0"
    by (auto simp: connect_defs open_ids_def run_brackets_append bind_eq_Some_conv
        split: if_splits)
  then show ?case using Push_Result.IH by (auto simp: nth_Cons')
next
  case (Pop_Context s i)
  then obtain st0 where st0: "open_ids s = Some st0" "bracket_op (Op_Pop_Context i) st0 = Some st"
    by (auto simp: connect_defs open_ids_def run_brackets_append bind_eq_Some_conv split: option.splits)
  then have "open_ids s = Some (i # st)"
    by (cases st0) (auto split: if_splits)
  then show ?case using Pop_Context.IH by auto
next
  case (Just vs)
  then show ?case by (simp add: connect_defs open_ids_def)
qed (auto simp: connect_defs open_ids_def run_brackets_append bind_eq_Some_conv
        split: if_splits option.splits)

text \<open>
  C40: \<open>pop_context\<close> closes the innermost open push. The search over the sender types
  yields no id exactly when no push is open (the stage does not compile), and
  otherwise the id of the push that was opened last and not closed, so that the
  stages of a pipeline nest as brackets.
\<close>

theorem pop_context_closes_innermost:
  assumes "open_ids s = Some st"
  shows "case st of [] \<Rightarrow> pop_context_stage s = None
    | i # st' \<Rightarrow> pop_context_stage s = Some (Pop_Context s i) \<and> open_ids (Pop_Context s i) = Some st'"
  using assms matching_is_nth_open [OF assms, of 0]
  by (auto simp: pop_context_stage_def connect_defs open_ids_def run_brackets_append split: list.split)

lemma pop_context_closes_innermost_witness:
  "pop_context_stage (Push_Result (Pop_Context (Push_Context (Push_Result (Just [V_Int 1]) 1) 2 [V_Int 5]) 2) 3)
     = Some (Pop_Context (Push_Result (Pop_Context (Push_Context (Push_Result (Just [V_Int 1]) 1) 2 [V_Int 5]) 2) 3) 3)"
  using pop_context_closes_innermost [where st = "[3, 1]"
      and s = "Push_Result (Pop_Context (Push_Context (Push_Result (Just [V_Int 1]) 1) 2 [V_Int 5]) 2) 3"]
  by (simp add: open_ids_def connect_defs)

text \<open>\<open>with_context\<close> closes what it opens, when the stages inside close theirs.\<close>

lemma with_context_restores:
  assumes "open_ids s = Some st" "i \<notin> set st"
    and "Option.bind (push_context_stage i contents s) (\<lambda>s'. bind_impl s' bb) = Some s2"
    and "open_ids s2 = Some (i # st)"
  obtains s' where "bind_impl s (with_context i contents bb) = Some s'" "open_ids s' = Some st"
proof -
  from assms(4) have "pop_context_stage s2 = Some (Pop_Context s2 i)" "open_ids (Pop_Context s2 i) = Some st"
    using matching_is_nth_open [OF assms(4), of 0]
    by (auto simp: pop_context_stage_def connect_defs open_ids_def run_brackets_append)
  with assms(3) show ?thesis
    by (intro that [of "Pop_Context s2 i"])
      (auto simp: with_context_def bind_impl_append push_context_stage_def)
qed

end
