(* ===== verification/For_Each.thy ===== *)
theory For_Each
  imports Prelude Pipeline
begin

section \<open>for_each and reduce\<close>

text \<open>
  \<^verbatim>\<open>src/pump/sender/for_each.hh\<close> and \<^verbatim>\<open>reduce.hh\<close>. The runner of a stream hands
  out one element per \<open>poll_next\<close>; polls may come from inside the push of an
  element or from another thread, and a packed word \<open>poll_next_flag\<close> (pending
  polls in the upper half, a token in the lower) lets one of them run the push
  loop. The iterator is the list of elements it still has to yield. The
  compare-and-swap loops of the flag are single atomic steps. \<open>stream_step\<close>
  interleaves the push loops with the arrivals of pushed elements at the reduce
  operator, which may happen inside the push or later, on any thread.
\<close>

record 'a runner =
  rn_rest :: "'a list"
  rn_push_count :: u32
  rn_flag :: u64

definition rn_new :: "'a list \<Rightarrow> 'a runner" where
  "rn_new src = \<lparr>rn_rest = src, rn_push_count = 0, rn_flag = 0\<rparr>"

definition pack_flag :: "u32 \<Rightarrow> u32 \<Rightarrow> u64" where
  "pack_flag pending token = push_bit 32 (ucast pending) OR ucast token"

definition flag_pending :: "u64 \<Rightarrow> u32" where
  "flag_pending v = ucast (drop_bit 32 v)"

definition flag_token :: "u64 \<Rightarrow> u32" where
  "flag_token v = ucast (v AND 0xFFFFFFFF)"

definition try_acquire_for_poll :: "'a runner \<Rightarrow> bool \<times> 'a runner" where
  "try_acquire_for_poll r =
     (let pending = flag_pending (rn_flag r) + 1; token = flag_token (rn_flag r);
          acquired = (token = 0);
          token' = (if token = 0 then 1 else token) in
      (acquired, r\<lparr>rn_flag := pack_flag pending token'\<rparr>))"

definition consume_and_continue :: "'a runner \<Rightarrow> bool \<times> 'a runner" where
  "consume_and_continue r =
     (let pending = flag_pending (rn_flag r) - 1 in
      if 0 < pending then (True, r\<lparr>rn_flag := pack_flag pending 1\<rparr>)
      else (False, r\<lparr>rn_flag := 0\<rparr>))"

definition force_release_token :: "'a runner \<Rightarrow> 'a runner" where
  "force_release_token r = r\<lparr>rn_flag := 0\<rparr>"

definition is_end :: "'a runner \<Rightarrow> bool" where
  "is_end r \<longleftrightarrow> rn_rest r = []"

definition poll_one :: "'a runner \<Rightarrow> 'a \<times> 'a runner" where
  "poll_one r = (hd (rn_rest r), r\<lparr>rn_rest := tl (rn_rest r)\<rparr>)"

subsection \<open>The flag\<close>

lemma flag_pack [simp]:
  "flag_pending (pack_flag p t) = p" "flag_token (pack_flag p t) = t"
proof -
  show "flag_pending (pack_flag p t) = p"
    by (rule bit_word_eqI) (auto simp: flag_pending_def pack_flag_def bit_ucast_iff bit_drop_bit_eq bit_or_iff
        bit_push_bit_iff dest: bit_imp_le_length)
  have m: "(0xFFFFFFFF :: u64) = mask 32" by (simp add: mask_eq_exp_minus_1)
  have "bit (0xFFFFFFFF :: u64) n \<longleftrightarrow> n < 32" for n by (simp only: m bit_mask_iff) auto
  then show "flag_token (pack_flag p t) = t"
    by (intro bit_word_eqI) (auto simp: flag_token_def pack_flag_def bit_ucast_iff bit_and_iff bit_or_iff
        bit_push_bit_iff)
qed

lemma flag_zero [simp]: "flag_pending 0 = 0" "flag_token 0 = 0"
  by (simp_all add: flag_pending_def flag_token_def)

lemma pack_zero [simp]: "pack_flag 0 0 = 0"
  by (simp add: pack_flag_def)

subsection \<open>The reduce operator\<close>

record 'r reduce_op =
  initial_value :: 'r
  red_result :: 'r

definition reduce_new :: "'r \<Rightarrow> 'r reduce_op" where
  "reduce_new r = \<lparr>initial_value = r, red_result = r\<rparr>"

definition reduce_concurrent_copy :: "'r reduce_op \<Rightarrow> 'r reduce_op" where
  "reduce_concurrent_copy op = reduce_new (initial_value op)"

text \<open>The value a function returns (\<open>reduce_done\<close>) is not used by \<open>run\<close>.\<close>

definition reduce_run :: "('r \<Rightarrow> val list \<Rightarrow> 'r) \<Rightarrow> val list \<Rightarrow> 'r reduce_op \<Rightarrow> 'r reduce_op" where
  "reduce_run f vs op = op\<lparr>red_result := f (red_result op) vs\<rparr>"

text \<open>\<open>take\<close> moves the result out; \<open>moved\<close> is what the move leaves behind (a scalar keeps its value).\<close>

definition reduce_take :: "('r \<Rightarrow> 'r) \<Rightarrow> 'r reduce_op \<Rightarrow> 'r \<times> 'r reduce_op" where
  "reduce_take moved op = (red_result op, op\<lparr>red_result := moved (red_result op)\<rparr>)"

definition reduce_reset :: "'r reduce_op \<Rightarrow> 'r reduce_op" where
  "reduce_reset op = op"

text \<open>
  The arguments of the function for the signal that arrives: \<open>push_value\<close>, \<open>push_exception\<close>,
  \<open>push_skip\<close>. \<open>push_done\<close> does not run the function: it ends the stream (\<open>stream_done\<close>
  here, \<open>counter_push_done\<close> of \<open>Concurrent\<close>), and no stage pushes it for an element; the
  last equation only makes the function total.
\<close>

fun reduce_args :: "signal \<Rightarrow> val list" where
  "reduce_args (S_Value vs) = vs"
| "reduce_args (S_Exc e) = [V_Exc e]"
| "reduce_args S_Skip = [V_Mono]"
| "reduce_args S_Done = []"

fun is_failure :: "val \<Rightarrow> bool" where
  "is_failure V_Mono \<longleftrightarrow> True"
| "is_failure (V_Exc e) \<longleftrightarrow> True"
| "is_failure v \<longleftrightarrow> False"

fun is_bool :: "val \<Rightarrow> bool" where
  "is_bool (V_Bool b) \<longleftrightarrow> True"
| "is_bool v \<longleftrightarrow> False"

definition reduce_default :: "bool \<Rightarrow> val list \<Rightarrow> bool" where
  "reduce_default b vs = (case vs of [v] \<Rightarrow> if is_failure v then False else b | _ \<Rightarrow> b)"

definition all_with :: "(val list \<Rightarrow> bool) \<Rightarrow> bool \<Rightarrow> val list \<Rightarrow> bool" where
  "all_with f b vs =
     (case vs of
        [v] \<Rightarrow> if is_failure v then False else b \<and> f vs
      | _ \<Rightarrow> b \<and> f vs)"

definition all_values :: "bool \<Rightarrow> val list \<Rightarrow> bool" where
  "all_values b vs =
     (case vs of
        [v] \<Rightarrow> if is_failure v then False else if is_bool v then b \<and> v = V_Bool True else b
      | _ \<Rightarrow>
          if list_ex is_failure vs then False
          else if list_all is_bool vs then b \<and> list_all (\<lambda>v. v = V_Bool True) vs
          else b)"

definition count_values :: "u64 \<Rightarrow> val list \<Rightarrow> u64" where
  "count_values c vs = c + 1"

definition to_container_func :: "val list list \<Rightarrow> val list \<Rightarrow> val list list" where
  "to_container_func res vs = res @ [vs]"

subsection \<open>A stream\<close>

text \<open>
  A running push loop is at the test of its body, inside the push of an element,
  at the \<open>consume_and_continue\<close> of its condition, or between the forced release
  and the \<open>push_stream_done\<close>. A pushed element is on its way to the reduce operator,
  or the function has run on it and the poll for the next one is due. \<open>arr\<close> is
  the signal as which an element arrives behind the operators in between.
\<close>

datatype loop_phase = L_Check | L_Pushing | L_Consume | L_Done u32
datatype 'a flight = F_Pushed 'a | F_Ran

record ('a, 'r) stream_state =
  st_runner :: "'a runner"
  st_loops :: "loop_phase list"
  st_flight :: "'a flight list"
  st_reduce :: "'r reduce_op"
  st_out :: "'r list"

definition stream_start :: "'a list \<Rightarrow> 'r reduce_op \<Rightarrow> ('a, 'r) stream_state" where
  "stream_start src op =
     (let (_, r) = try_acquire_for_poll (rn_new src) in
      \<lparr>st_runner = r, st_loops = [L_Check], st_flight = [], st_reduce = reduce_reset op, st_out = []\<rparr>)"

definition stream_poll_next :: "('a, 'r) stream_state \<Rightarrow> ('a, 'r) stream_state" where
  "stream_poll_next s =
     (let (acquired, r) = try_acquire_for_poll (st_runner s) in
      s\<lparr>st_runner := r, st_loops := (if acquired then st_loops s @ [L_Check] else st_loops s)\<rparr>)"

definition stream_done :: "('r \<Rightarrow> 'r) \<Rightarrow> ('a, 'r) stream_state \<Rightarrow> ('a, 'r) stream_state" where
  "stream_done moved s =
     (let (res, op) = reduce_take moved (st_reduce s) in s\<lparr>st_reduce := op, st_out := st_out s @ [res]\<rparr>)"

definition loop_turn :: "('r \<Rightarrow> 'r) \<Rightarrow> nat \<Rightarrow> ('a, 'r) stream_state \<Rightarrow> ('a, 'r) stream_state" where
  "loop_turn moved i s =
     (case st_loops s ! i of
        L_Check \<Rightarrow>
          if \<not> is_end (st_runner s)
          then let r = (st_runner s)\<lparr>rn_push_count := rn_push_count (st_runner s) + 1\<rparr>; (x, r') = poll_one r in
               s\<lparr>st_runner := r', st_flight := st_flight s @ [F_Pushed x], st_loops := (st_loops s)[i := L_Pushing]\<rparr>
          else let count = rn_push_count (st_runner s) in
               s\<lparr>st_runner := force_release_token (st_runner s), st_loops := (st_loops s)[i := L_Done count]\<rparr>
      | L_Pushing \<Rightarrow> s\<lparr>st_loops := (st_loops s)[i := L_Consume]\<rparr>
      | L_Consume \<Rightarrow>
          (let (continue, r) = consume_and_continue (st_runner s) in
           s\<lparr>st_runner := r,
             st_loops := (if continue then (st_loops s)[i := L_Check] else drop_at i (st_loops s))\<rparr>)
      | L_Done count \<Rightarrow> stream_done moved (s\<lparr>st_loops := drop_at i (st_loops s)\<rparr>))"

definition reduce_turn :: "('r \<Rightarrow> val list \<Rightarrow> 'r) \<Rightarrow> ('a \<Rightarrow> signal) \<Rightarrow> nat \<Rightarrow> ('a, 'r) stream_state \<Rightarrow> ('a, 'r) stream_state" where
  "reduce_turn f arr i s =
     (case st_flight s ! i of
        F_Pushed x \<Rightarrow> s\<lparr>st_reduce := reduce_run f (reduce_args (arr x)) (st_reduce s), st_flight := (st_flight s)[i := F_Ran]\<rparr>
      | F_Ran \<Rightarrow> stream_poll_next (s\<lparr>st_flight := drop_at i (st_flight s)\<rparr>))"

inductive stream_step :: "('r \<Rightarrow> 'r) \<Rightarrow> ('r \<Rightarrow> val list \<Rightarrow> 'r) \<Rightarrow> ('a \<Rightarrow> signal)
    \<Rightarrow> ('a, 'r) stream_state \<Rightarrow> ('a, 'r) stream_state \<Rightarrow> bool" for moved f arr where
  step_loop: "i < length (st_loops s) \<Longrightarrow> stream_step moved f arr s (loop_turn moved i s)"
| step_reduce: "i < length (st_flight s) \<Longrightarrow> stream_step moved f arr s (reduce_turn f arr i s)"

inductive_cases stream_stepE: "stream_step moved f arr s t"

subsection \<open>Termination\<close>

fun loop_weight :: "loop_phase \<Rightarrow> nat" where
  "loop_weight (L_Done c) = 1"
| "loop_weight L_Check = 2"
| "loop_weight L_Consume = 3"
| "loop_weight L_Pushing = 4"

fun flight_weight :: "'a flight \<Rightarrow> nat" where
  "flight_weight F_Ran = 3"
| "flight_weight (F_Pushed x) = 4"

definition stream_measure :: "('a, 'r) stream_state \<Rightarrow> nat" where
  "stream_measure s = 8 * length (rn_rest (st_runner s))
     + sum_list (map loop_weight (st_loops s)) + sum_list (map flight_weight (st_flight s))"

lemma stream_poll_next_measure:
  "stream_measure (stream_poll_next s) \<le> stream_measure s + 2"
  by (auto simp: stream_measure_def stream_poll_next_def try_acquire_for_poll_def Let_def split: if_splits)

lemma consume_keeps_rest: "consume_and_continue r = (c, r') \<Longrightarrow> rn_rest r' = rn_rest r"
  by (auto simp: consume_and_continue_def Let_def split: if_splits)

lemma loop_turn_decreases:
  assumes i: "i < length (st_loops s)"
  shows "stream_measure (loop_turn moved i s) < stream_measure s"
proof (cases "st_loops s ! i")
  case L_Check
  show ?thesis
  proof (cases "rn_rest (st_runner s)")
    case Nil
    with L_Check show ?thesis using sum_list_update_at [OF i, of loop_weight "L_Done (rn_push_count (st_runner s))"]
      by (simp add: loop_turn_def stream_measure_def is_end_def force_release_token_def Let_def)
  next
    case (Cons x xs)
    with L_Check show ?thesis using sum_list_update_at [OF i, of loop_weight L_Pushing]
      by (simp add: loop_turn_def stream_measure_def is_end_def poll_one_def Let_def)
  qed
next
  case L_Pushing
  then show ?thesis using sum_list_update_at [OF i, of loop_weight L_Consume]
    by (simp add: loop_turn_def stream_measure_def)
next
  case L_Consume
  then show ?thesis
    using sum_list_update_at [OF i, of loop_weight L_Check] sum_list_drop_at [OF i, of loop_weight]
    by (cases "consume_and_continue (st_runner s)") (auto simp: loop_turn_def stream_measure_def consume_keeps_rest)
next
  case (L_Done c)
  then show ?thesis using sum_list_drop_at [OF i, of loop_weight]
    by (simp add: loop_turn_def stream_measure_def stream_done_def reduce_take_def)
qed

lemma reduce_turn_decreases:
  assumes i: "i < length (st_flight s)"
  shows "stream_measure (reduce_turn f arr i s) < stream_measure s"
proof (cases "st_flight s ! i")
  case (F_Pushed x)
  then show ?thesis using sum_list_update_at [OF i, of flight_weight F_Ran]
    by (simp add: reduce_turn_def stream_measure_def)
next
  case F_Ran
  define t where "t = s\<lparr>st_flight := drop_at i (st_flight s)\<rparr>"
  have "stream_measure t + 3 = stream_measure s"
    using sum_list_drop_at [OF i, of flight_weight] F_Ran by (simp add: t_def stream_measure_def)
  moreover have "reduce_turn f arr i s = stream_poll_next t" by (simp add: reduce_turn_def F_Ran t_def)
  ultimately show ?thesis using stream_poll_next_measure [of t] by simp
qed

text \<open>
  C17: streams terminate. There is no infinite run of the push loops and of the
  reduce operator of a finite range, however the threads interleave and
  whatever state they start in.
\<close>

theorem stream_terminates: "wf {(t, s). stream_step moved f arr s t}"
proof (rule wf_subset)
  show "wf (measure stream_measure)" by (rule wf_measure)
  show "{(t, s). stream_step moved f arr s t} \<subseteq> measure stream_measure"
    by (auto elim!: stream_stepE intro: loop_turn_decreases reduce_turn_decreases)
qed

subsection \<open>What a stream computes\<close>

text \<open>
  The configurations of a stream over \<open>src\<close> whose reduce operator starts at \<open>r0\<close>.
  At most one push loop runs, at most one element is on its way, and the flag
  counts the element on its way or the poll after it.
\<close>

definition run_reduce :: "('r \<Rightarrow> val list \<Rightarrow> 'r) \<Rightarrow> ('a \<Rightarrow> signal) \<Rightarrow> 'a list \<Rightarrow> 'r \<Rightarrow> 'r" where
  "run_reduce f arr xs r = foldl (\<lambda>r x. f r (reduce_args (arr x))) r xs"

definition conf :: "'a list \<Rightarrow> 'a list \<Rightarrow> u64 \<Rightarrow> loop_phase list \<Rightarrow> 'a flight list \<Rightarrow> 'r \<Rightarrow> 'r list
    \<Rightarrow> ('a, 'r) stream_state \<Rightarrow> bool" where
  "conf src rest flag loops fl res out s \<longleftrightarrow> (\<exists>pre. src = pre @ rest \<and> rn_push_count (st_runner s) = of_nat (length pre))
     \<and> rn_rest (st_runner s) = rest \<and> rn_flag (st_runner s) = flag \<and> st_loops s = loops \<and> st_flight s = fl
     \<and> red_result (st_reduce s) = res \<and> st_out s = out"

inductive stream_conf :: "('r \<Rightarrow> 'r) \<Rightarrow> ('r \<Rightarrow> val list \<Rightarrow> 'r) \<Rightarrow> ('a \<Rightarrow> signal) \<Rightarrow> 'a list \<Rightarrow> 'r \<Rightarrow> ('a, 'r) stream_state \<Rightarrow> bool"
  for moved f arr src r0 where
  at_check: "src = pre @ rest \<Longrightarrow> conf src rest (pack_flag 1 1) [L_Check] [] (run_reduce f arr pre r0) [] s
    \<Longrightarrow> stream_conf moved f arr src r0 s"
| in_push: "src = pre @ x # rest \<Longrightarrow> p \<in> {L_Pushing, L_Consume} \<Longrightarrow>
    conf src rest (pack_flag 1 1) [p] [F_Pushed x] (run_reduce f arr pre r0) [] s \<Longrightarrow> stream_conf moved f arr src r0 s"
| in_run: "src = pre @ rest \<Longrightarrow> p \<in> {L_Pushing, L_Consume} \<Longrightarrow>
    conf src rest (pack_flag 1 1) [p] [F_Ran] (run_reduce f arr pre r0) [] s \<Longrightarrow> stream_conf moved f arr src r0 s"
| polled: "src = pre @ rest \<Longrightarrow> p \<in> {L_Pushing, L_Consume} \<Longrightarrow>
    conf src rest (pack_flag 2 1) [p] [] (run_reduce f arr pre r0) [] s \<Longrightarrow> stream_conf moved f arr src r0 s"
| away: "src = pre @ x # rest \<Longrightarrow> conf src rest 0 [] [F_Pushed x] (run_reduce f arr pre r0) [] s
    \<Longrightarrow> stream_conf moved f arr src r0 s"
| away_run: "src = pre @ rest \<Longrightarrow> conf src rest 0 [] [F_Ran] (run_reduce f arr pre r0) [] s
    \<Longrightarrow> stream_conf moved f arr src r0 s"
| ended: "conf src [] 0 [L_Done (of_nat (length src))] [] (run_reduce f arr src r0) [] s \<Longrightarrow> stream_conf moved f arr src r0 s"
| finished: "conf src [] 0 [] [] (moved (run_reduce f arr src r0)) [run_reduce f arr src r0] s \<Longrightarrow> stream_conf moved f arr src r0 s"

lemma run_reduce_snoc [simp]: "run_reduce f arr (xs @ [x]) r = f (run_reduce f arr xs r) (reduce_args (arr x))"
  by (simp add: run_reduce_def)

lemma stream_start_conf: "stream_conf moved f arr src (red_result op) (stream_start src op)"
  by (rule at_check [of _ "[]" src])
    (auto simp: conf_def stream_start_def try_acquire_for_poll_def rn_new_def reduce_reset_def run_reduce_def Let_def)

lemma drop_at_single [simp]: "drop_at 0 [x] = []"
  by (simp add: drop_at_def)

lemma conf_push_count: "conf src [] flag loops fl res out s \<Longrightarrow> rn_push_count (st_runner s) = of_nat (length src)"
  by (auto simp: conf_def)

lemma conf_pushed:
  assumes "conf src (x # rest) flag loops fl res out s"
  shows "\<exists>pre. src = pre @ rest \<and> rn_push_count (st_runner s) + 1 = of_nat (length pre)"
proof -
  from assms obtain pre where "src = pre @ x # rest" "rn_push_count (st_runner s) = of_nat (length pre)"
    by (auto simp: conf_def)
  then show ?thesis by (intro exI [of _ "pre @ [x]"]) simp
qed

lemma check_turn:
  assumes "conf src rest (pack_flag 1 1) [L_Check] [] res [] s" "src = pre @ rest" "res = run_reduce f arr pre r0"
  shows "stream_conf moved f arr src r0 (loop_turn moved 0 s)"
proof (cases rest)
  case Nil
  have "conf src [] 0 [L_Done (of_nat (length src))] [] res [] (loop_turn moved 0 s)"
    using assms(1) conf_push_count [of src] Nil
    by (auto simp: conf_def loop_turn_def is_end_def force_release_token_def Let_def)
  then show ?thesis using assms Nil by (auto intro: ended)
next
  case (Cons x xs)
  have "conf src xs (pack_flag 1 1) [L_Pushing] [F_Pushed x] res [] (loop_turn moved 0 s)"
    using assms(1) conf_pushed [of src x xs] unfolding Cons
    by (auto simp: conf_def loop_turn_def is_end_def poll_one_def Let_def)
  then show ?thesis using assms Cons by (auto intro: in_push)
qed

lemma consume_turn:
  assumes "conf src rest (pack_flag n 1) [p] fl res out s" "p \<in> {L_Pushing, L_Consume}"
  shows "conf src rest (pack_flag n 1) [L_Consume] fl res out (loop_turn moved 0 s)
    \<or> conf src rest (if 0 < n - 1 then pack_flag (n - 1) 1 else 0) (if 0 < n - 1 then [L_Check] else []) fl res out
         (loop_turn moved 0 s)"
  using assms by (auto simp: conf_def loop_turn_def consume_and_continue_def Let_def)

lemma done_turn:
  assumes "conf src [] 0 [L_Done c] [] res [] s"
  shows "conf src [] 0 [] [] (moved res) [res] (loop_turn moved 0 s)"
  using assms by (auto simp: conf_def loop_turn_def stream_done_def reduce_take_def)

lemma run_turn:
  assumes "conf src rest flag loops [F_Pushed x] res out s"
  shows "conf src rest flag loops [F_Ran] (f res (reduce_args (arr x))) out (reduce_turn f arr 0 s)"
  using assms by (auto simp: conf_def reduce_turn_def reduce_run_def)

lemma poll_turn:
  assumes "conf src rest (pack_flag n t) loops [F_Ran] res out s"
  shows "conf src rest (pack_flag (n + 1) (if t = 0 then 1 else t)) (if t = 0 then loops @ [L_Check] else loops) [] res out
    (reduce_turn f arr 0 s)"
  using assms by (auto simp: conf_def reduce_turn_def stream_poll_next_def try_acquire_for_poll_def Let_def)

lemma conf_step:
  assumes "conf src rest flag loops fl res out s" "stream_step moved f arr s t"
  obtains i where "i < length loops" "t = loop_turn moved i s" | i where "i < length fl" "t = reduce_turn f arr i s"
  using assms by (auto simp: conf_def elim!: stream_stepE)

lemma conf_step1:
  assumes "conf src rest flag [p] [e] res out s" "stream_step moved f arr s t"
  obtains "t = loop_turn moved 0 s" | "t = reduce_turn f arr 0 s"
  using assms by (elim conf_step) auto

lemma loop_only_step:
  "conf src rest flag [p] [] res out s \<Longrightarrow> stream_step moved f arr s t \<Longrightarrow> t = loop_turn moved 0 s"
  by (elim conf_step) auto

lemma flight_only_step:
  "conf src rest flag [] [e] res out s \<Longrightarrow> stream_step moved f arr s t \<Longrightarrow> t = reduce_turn f arr 0 s"
  by (elim conf_step) auto

lemma stream_conf_step:
  assumes "stream_conf moved f arr src r0 s" "stream_step moved f arr s t"
  shows "stream_conf moved f arr src r0 t"
  using assms(1)
proof cases
  case (at_check pre rest)
  then show ?thesis using loop_only_step [OF at_check(2) assms(2)] check_turn [OF at_check(2,1)] by simp
next
  case (in_push pre x rest p)
  show ?thesis using in_push(3) assms(2)
  proof (cases rule: conf_step1)
    case 1
    then show ?thesis using consume_turn [OF in_push(3,2), of moved] in_push(1)
      by (auto intro: stream_conf.in_push stream_conf.away)
  next
    case 2
    then show ?thesis using run_turn [OF in_push(3), of f arr] in_push(1,2)
      by (auto intro!: stream_conf.in_run [of _ "pre @ [x]" rest p])
  qed
next
  case (in_run pre rest p)
  show ?thesis using in_run(3) assms(2)
  proof (cases rule: conf_step1)
    case 1
    then show ?thesis using consume_turn [OF in_run(3,2), of moved] in_run(1)
      by (auto intro: stream_conf.in_run stream_conf.away_run)
  next
    case 2
    then show ?thesis using poll_turn [OF in_run(3), of f arr] in_run(1,2)
      by (auto intro!: stream_conf.polled [of _ pre rest p])
  qed
next
  case (polled pre rest p)
  then show ?thesis using loop_only_step [OF polled(3) assms(2)] consume_turn [OF polled(3,2), of moved]
    by (auto intro: stream_conf.polled stream_conf.at_check)
next
  case (away pre x rest)
  then show ?thesis using flight_only_step [OF away(2) assms(2)] run_turn [OF away(2), of f arr]
    by (auto intro!: stream_conf.away_run [of _ "pre @ [x]" rest])
next
  case (away_run pre rest)
  then show ?thesis using flight_only_step [OF away_run(2) assms(2)]
      poll_turn [of src rest 0 0 "[]" "run_reduce f arr pre r0" "[]" s f arr]
    by (auto intro!: stream_conf.at_check [of _ pre rest])
next
  case ended
  then show ?thesis using loop_only_step [OF ended assms(2)] done_turn [OF ended, of moved]
    by (auto intro: stream_conf.finished)
next
  case finished
  then show ?thesis using assms(2) by (auto elim: conf_step)
qed

lemma stream_conf_outputs:
  assumes "stream_conf moved f arr src r0 s"
  shows "length (st_loops s) \<le> 1" "length (st_flight s) \<le> 1" "st_out s = [] \<or> st_out s = [run_reduce f arr src r0]"
    "st_loops s = [] \<Longrightarrow> st_flight s = [] \<Longrightarrow> st_out s = [run_reduce f arr src r0]
       \<and> red_result (st_reduce s) = moved (run_reduce f arr src r0)"
  using assms by (cases; force simp: conf_def)+

lemma stuck_is_empty:
  assumes "\<nexists>t. stream_step moved f arr s t" shows "st_loops s = []" "st_flight s = []"
  using assms step_loop [of 0 s moved f arr] step_reduce [of 0 s moved f arr] by blast+

lemma run_loop: "(stream_step moved f arr)\<^sup>*\<^sup>* a s \<Longrightarrow> st_loops s \<noteq> [] \<Longrightarrow> (stream_step moved f arr)\<^sup>*\<^sup>* a (loop_turn moved 0 s)"
  by (erule rtranclp.rtrancl_into_rtrancl) (simp add: step_loop)

lemma run_arrival: "(stream_step moved f arr)\<^sup>*\<^sup>* a s \<Longrightarrow> st_flight s \<noteq> [] \<Longrightarrow> (stream_step moved f arr)\<^sup>*\<^sup>* a (reduce_turn f arr 0 s)"
  by (erule rtranclp.rtrancl_into_rtrancl) (simp add: step_reduce)

lemmas stream_turns = loop_turn_def reduce_turn_def is_end_def poll_one_def stream_poll_next_def try_acquire_for_poll_def
  consume_and_continue_def force_release_token_def stream_done_def reduce_take_def reduce_run_def count_values_def

lemma stream_reaches_conf:
  "(stream_step moved f arr)\<^sup>*\<^sup>* (stream_start src op) s \<Longrightarrow> stream_conf moved f arr src (red_result op) s"
  by (induction rule: rtranclp_induct) (auto intro: stream_start_conf stream_conf_step)

text \<open>
  C15: a stream computes the fold of its range. However the push loops, the polls
  and the arrivals of elements at the reduce operator interleave, at most one
  push loop runs and at most one element is on its way; the stream pushes
  nothing, or exactly one value to its parent, the left fold of the function
  over the whole range in order; and a stream that cannot step any more has
  pushed that value.
\<close>

theorem for_each_reduce_folds:
  assumes "(stream_step moved f arr)\<^sup>*\<^sup>* (stream_start src op) s"
  shows "length (st_loops s) \<le> 1 \<and> length (st_flight s) \<le> 1
    \<and> (st_out s = [] \<or> st_out s = [foldl (\<lambda>r x. f r (reduce_args (arr x))) (red_result op) src])
    \<and> ((\<nexists>t. stream_step moved f arr s t) \<longrightarrow>
         st_out s = [foldl (\<lambda>r x. f r (reduce_args (arr x))) (red_result op) src])"
  using stream_conf_outputs [OF stream_reaches_conf [OF assms]] stuck_is_empty [of moved f arr s]
  unfolding run_reduce_def by blast

lemma for_each_reduce_folds_witness:
  "\<exists>s. (stream_step id count_values (\<lambda>x. S_Value [x]))\<^sup>*\<^sup>* (stream_start [V_Int 7] (reduce_new 0)) s
     \<and> length (st_loops s) \<le> 1 \<and> st_out s = [1]"
proof -
  let ?run = "(stream_step id count_values (\<lambda>x. S_Value [x]))\<^sup>*\<^sup>* (stream_start [V_Int 7] (reduce_new 0))"
  have r0: "?run (\<lparr>st_runner = \<lparr>rn_rest = [V_Int 7], rn_push_count = 0, rn_flag = pack_flag 1 1\<rparr>, st_loops = [L_Check], st_flight = [], st_reduce = \<lparr>initial_value = 0, red_result = 0\<rparr>, st_out = []\<rparr>)"
    by (simp add: stream_start_def rn_new_def try_acquire_for_poll_def reduce_reset_def reduce_new_def)
  have r1: "?run (\<lparr>st_runner = \<lparr>rn_rest = [], rn_push_count = 1, rn_flag = pack_flag 1 1\<rparr>, st_loops = [L_Pushing], st_flight = [F_Pushed (V_Int 7)], st_reduce = \<lparr>initial_value = 0, red_result = 0\<rparr>, st_out = []\<rparr>)"
    using run_loop [OF r0] by (simp add: stream_turns)
  have r2: "?run (\<lparr>st_runner = \<lparr>rn_rest = [], rn_push_count = 1, rn_flag = pack_flag 1 1\<rparr>, st_loops = [L_Pushing], st_flight = [F_Ran], st_reduce = \<lparr>initial_value = 0, red_result = 1\<rparr>, st_out = []\<rparr>)"
    using run_arrival [OF r1] by (simp add: stream_turns)
  have r3: "?run (\<lparr>st_runner = \<lparr>rn_rest = [], rn_push_count = 1, rn_flag = pack_flag 2 1\<rparr>, st_loops = [L_Pushing], st_flight = [], st_reduce = \<lparr>initial_value = 0, red_result = 1\<rparr>, st_out = []\<rparr>)"
    using run_arrival [OF r2] by (simp add: stream_turns)
  have r4: "?run (\<lparr>st_runner = \<lparr>rn_rest = [], rn_push_count = 1, rn_flag = pack_flag 2 1\<rparr>, st_loops = [L_Consume], st_flight = [], st_reduce = \<lparr>initial_value = 0, red_result = 1\<rparr>, st_out = []\<rparr>)"
    using run_loop [OF r3] by (simp add: stream_turns)
  have r5: "?run (\<lparr>st_runner = \<lparr>rn_rest = [], rn_push_count = 1, rn_flag = pack_flag 1 1\<rparr>, st_loops = [L_Check], st_flight = [], st_reduce = \<lparr>initial_value = 0, red_result = 1\<rparr>, st_out = []\<rparr>)"
    using run_loop [OF r4] by (simp add: stream_turns)
  have r6: "?run (\<lparr>st_runner = \<lparr>rn_rest = [], rn_push_count = 1, rn_flag = 0\<rparr>, st_loops = [L_Done 1], st_flight = [], st_reduce = \<lparr>initial_value = 0, red_result = 1\<rparr>, st_out = []\<rparr>)"
    using run_loop [OF r5] by (simp add: stream_turns)
  have r7: "?run (\<lparr>st_runner = \<lparr>rn_rest = [], rn_push_count = 1, rn_flag = 0\<rparr>, st_loops = [], st_flight = [], st_reduce = \<lparr>initial_value = 0, red_result = 1\<rparr>, st_out = [1]\<rparr>)"
    using run_loop [OF r6] by (simp add: stream_turns)
  show ?thesis
    by (intro exI conjI, rule r7, rule for_each_reduce_folds [OF r7, THEN conjunct1]) simp
qed

subsection \<open>Derived reductions\<close>

text \<open>\<open>all(f)\<close> is the conjunction over the elements, \<open>count()\<close> their number, \<open>to_vector\<close> the list of them.\<close>

lemma all_is_conjunction:
  "foldl (\<lambda>r x. all_with f r (reduce_args (arr x))) b xs
    \<longleftrightarrow> b \<and> (\<forall>x \<in> set xs. all_with f True (reduce_args (arr x)))"
proof (induction xs rule: rev_induct)
  case (snoc x xs)
  have "all_with f c vs \<longleftrightarrow> c \<and> all_with f True vs" for c vs
    by (auto simp: all_with_def split: list.splits)
  from this [of "foldl (\<lambda>r x. all_with f r (reduce_args (arr x))) b xs" "reduce_args (arr x)"] show ?case
    using snoc by auto
qed simp

lemma count_is_length: "foldl (\<lambda>r x. count_values r (reduce_args (arr x))) c xs = c + of_nat (length xs)"
  by (induction xs rule: rev_induct) (simp_all add: count_values_def)

lemma to_vector_is_map: "foldl (\<lambda>r x. to_container_func r (reduce_args (arr x))) v xs = v @ map (reduce_args \<circ> arr) xs"
  by (induction xs rule: rev_induct) (simp_all add: to_container_func_def)

text \<open>
  A stream that is started again, as the inner of two nested streams is for every
  element of the outer one, starts from what the last run left behind, because
  the reset of the operator keeps the result: \<open>count()\<close> goes on counting.
\<close>

lemma restarted_count_accumulates:
  assumes "(stream_step id count_values arr)\<^sup>*\<^sup>* (stream_start src (reduce_new 0)) s"
    and "\<nexists>t. stream_step id count_values arr s t"
    and "(stream_step id count_values arr)\<^sup>*\<^sup>* (stream_start src (st_reduce s)) s'"
    and "\<nexists>t. stream_step id count_values arr s' t"
  shows "st_out s = [of_nat (length src)]" "st_out s' = [of_nat (length src) + of_nat (length src)]"
  using stream_conf_outputs(4) [OF stream_reaches_conf [OF assms(1)] stuck_is_empty [OF assms(2)]]
    stream_conf_outputs(4) [OF stream_reaches_conf [OF assms(3)] stuck_is_empty [OF assms(4)]]
  by (simp_all add: run_reduce_def count_is_length reduce_new_def)

end
