(* ===== verification/Concurrent.thy ===== *)
theory Concurrent
  imports For_Each "HOL-Library.Multiset"
begin

section \<open>concurrent\<close>

text \<open>
  \<^verbatim>\<open>src/pump/sender/concurrent.hh\<close>: a stream whose elements are processed
  concurrently, up to a maximum. \<open>add_now_pending_and_check\<close> and
  \<open>sub_now_pending_and_check\<close> keep a packed word of started and finished elements
  and decide who polls the runner for the next element; the packed counter
  decides who signals the end. Both are single atomic operations. The step
  relation interleaves the push loops, the elements on their way, their runs of
  the reduce function, their polls and the counting of their completion. The reduce
  operator has no lock and no atomic result: a run reads the result and writes it
  back in two steps, and the runs of elements that arrive on different threads may
  overlap; \<open>cn_overlap\<close> records that some did.
\<close>

subsection \<open>The counter\<close>

definition set_total :: "u32 \<Rightarrow> u64 \<Rightarrow> bool \<times> u64" where
  "set_total tot c =
     (let total_field = push_bit 32 (ucast (tot + 1)); done = flag_token c in (done = tot, c + total_field))"

definition add_done :: "u64 \<Rightarrow> bool \<times> u64" where
  "add_done c =
     (let new_v = c + 1; total_plus_one = flag_pending new_v; done = flag_token new_v in
      (0 < total_plus_one \<and> done = total_plus_one - 1, new_v))"

lemma pack_flag_plus: "pack_flag p t = push_bit 32 (ucast p) + ucast t"
proof -
  have "push_bit 32 (ucast p) AND ucast t = (0 :: u64)"
  proof (rule bit_word_eqI)
    fix n
    show "bit (push_bit 32 (ucast p) AND ucast t :: u64) n \<longleftrightarrow> bit (0 :: u64) n"
    proof (cases "n < 32")
      case False
      have "\<not> bit t n"
      proof
        assume "bit t n"
        then have "n < LENGTH(32)" by (rule bit_imp_le_length)
        with False show False by simp
      qed
      then show ?thesis by (simp only: bit_and_iff bit_ucast_iff bit_0_eq simp_thms bot_apply bot_bool_def)
    qed (simp add: bit_and_iff bit_push_bit_iff)
  qed
  then show ?thesis
    using word_plus_and_or [of "push_bit 32 (ucast p)" "ucast t :: u64"] by (simp only: pack_flag_def add_0_left)
qed

lemma unat_pack_flag: "unat (pack_flag p t) = unat p * 2 ^ 32 + unat t"
proof -
  have p: "unat p < 2 ^ 32" and t: "unat t < 2 ^ 32"
    using unsigned_less [of p, where 'a = nat] unsigned_less [of t, where 'a = nat] by simp_all
  have "unat (ucast p :: u64) = unat p" "unat (ucast t :: u64) = unat t"
    using p t by (simp_all add: unsigned_ucast_eq take_bit_nat_eq_self less_trans [of _ "2 ^ 32"])
  then have "unat (push_bit 32 (ucast p) :: u64) = unat p * 2 ^ 32"
    using p by (simp add: push_bit_eq_mult unat_word_ariths)
  moreover have "unat p * 2 ^ 32 + unat t < 2 ^ 64"
    using p t by simp
  ultimately show ?thesis unfolding pack_flag_plus
    using \<open>unat (ucast t :: u64) = unat t\<close> by (simp add: unat_word_ariths)
qed

lemma pack_flag_eqI: "unat c = unat p * 2 ^ 32 + unat t \<Longrightarrow> c = pack_flag p t"
  by (simp add: word_unat_eq_iff unat_pack_flag)

lemma add_done_pack:
  assumes "t + 1 \<noteq> 0"
  shows "add_done (pack_flag p t) = (0 < p \<and> t + 1 = p - 1, pack_flag p (t + 1))"
proof -
  have "pack_flag p t + 1 = pack_flag p (t + 1)"
  proof (rule pack_flag_eqI)
    have "unat (t + 1) = unat t + 1" using unatSuc [of t] assms by (simp add: add.commute)
    moreover have "unat p * 2 ^ 32 + unat (t + 1) < 2 ^ 64"
      using unsigned_less [of p, where 'a = nat] unsigned_less [of "t + 1", where 'a = nat] by simp
    ultimately show "unat (pack_flag p t + 1) = unat p * 2 ^ 32 + unat (t + 1)"
      by (simp add: unat_word_ariths unat_pack_flag)
  qed
  then show ?thesis by (simp add: add_done_def Let_def)
qed

lemma set_total_pack: "set_total n (pack_flag 0 t) = (t = n, pack_flag (n + 1) t)"
proof -
  have "pack_flag 0 t + push_bit 32 (ucast (n + 1)) = pack_flag (n + 1) t"
    by (simp add: pack_flag_plus)
  then show ?thesis by (simp add: set_total_def Let_def)
qed

subsection \<open>The pending elements\<close>

text \<open>The upper half of the status counts started elements (\<open>wait\<close>), the lower finished ones (\<open>done\<close>).\<close>

definition below_limit :: "u32 \<Rightarrow> u32 \<Rightarrow> u64 \<Rightarrow> bool" where
  "below_limit wait done max_pending \<longleftrightarrow> (ucast wait :: u64) < ucast done + max_pending"

definition sub_now_pending_and_check :: "u64 \<Rightarrow> u64 \<Rightarrow> (bool \<times> bool) \<times> u64" where
  "sub_now_pending_and_check max_pending status =
     (let done = flag_token status; wait = flag_pending status; temp = min done wait;
          done = done - temp; wait = wait - temp;
          old_res = below_limit wait done max_pending;
          done = done + 1;
          new_res = below_limit wait done max_pending in
      ((old_res, new_res), pack_flag wait done))"

definition add_now_pending_and_check :: "u64 \<Rightarrow> u64 \<Rightarrow> (bool \<times> bool) \<times> u64" where
  "add_now_pending_and_check max_pending status =
     (let done = flag_token status; wait = flag_pending status; temp = min done wait;
          done = done - temp; wait = wait - temp;
          old_res = below_limit wait done max_pending;
          wait = wait + 1;
          new_res = below_limit wait done max_pending in
      ((old_res, new_res), pack_flag wait done))"

text \<open>The status stands for the number of started less the number of finished elements.\<close>

definition pend :: "u64 \<Rightarrow> int \<Rightarrow> bool" where
  "pend status w \<longleftrightarrow> w = int (unat (flag_pending status)) - int (unat (flag_token status))"

lemma normalized:
  fixes wait dn :: u32
  assumes "w = int (unat wait) - int (unat dn)"
  shows "int (unat (wait - min dn wait)) = max w 0" "int (unat (dn - min dn wait)) = max (- w) 0"
proof -
  have "unat (wait - min dn wait) = unat wait - unat (min dn wait)"
    "unat (dn - min dn wait) = unat dn - unat (min dn wait)"
    by (rule unat_sub, simp)+
  moreover have "unat (min dn wait) = min (unat dn) (unat wait)"
    by (simp add: min_def word_le_nat_alt)
  ultimately show "int (unat (wait - min dn wait)) = max w 0" "int (unat (dn - min dn wait)) = max (- w) 0"
    using assms by linarith+
qed

lemma below_limit_iff:
  assumes "unat mx < 2 ^ 63"
  shows "below_limit wait dn mx \<longleftrightarrow> int (unat wait) - int (unat dn) < uint mx"
proof -
  have w: "unat (ucast wait :: u64) = unat wait" "unat (ucast dn :: u64) = unat dn"
    using unsigned_less [of wait, where 'a = nat] unsigned_less [of dn, where 'a = nat]
    by (simp_all add: unsigned_ucast_eq take_bit_nat_eq_self)
  have "unat (ucast dn + mx) = unat dn + unat mx"
    using assms unsigned_less [of dn, where 'a = nat] w(2) by (simp add: unat_word_ariths)
  then have "below_limit wait dn mx \<longleftrightarrow> unat wait < unat dn + unat mx"
    by (simp only: below_limit_def word_less_nat_alt w)
  then show ?thesis unfolding uint_nat by linarith
qed

lemma unat_inc: "unat x < 4294967295 \<Longrightarrow> unat (x + 1 :: u32) = unat x + 1"
  by (simp add: unat_word_ariths)

lemma add_pend:
  assumes "pend status w" "unat mx < 2 ^ 63" "w < 4294967295"
    and "add_now_pending_and_check mx status = ((old_res, new_res), status')"
  shows "pend status' (w + 1)" "old_res \<longleftrightarrow> w < uint mx" "new_res \<longleftrightarrow> w + 1 < uint mx"
proof -
  define wait dn where wd: "wait = flag_pending status - min (flag_token status) (flag_pending status)"
    "dn = flag_token status - min (flag_token status) (flag_pending status)"
  have n: "int (unat wait) = max w 0" "int (unat dn) = max (- w) 0"
    using normalized [of w "flag_pending status" "flag_token status"] assms(1) by (simp_all add: wd pend_def)
  have r: "old_res = below_limit wait dn mx" "new_res = below_limit (wait + 1) dn mx"
    "status' = pack_flag (wait + 1) dn"
    using assms(4) by (simp_all add: add_now_pending_and_check_def wd Let_def)
  have i: "unat (wait + 1) = unat wait + 1" using n(1) assms(3) by (intro unat_inc) linarith
  show "pend status' (w + 1)" unfolding r pend_def i flag_pack using n by linarith
  show "old_res \<longleftrightarrow> w < uint mx" using n by (simp only: r below_limit_iff [OF assms(2)]) linarith
  show "new_res \<longleftrightarrow> w + 1 < uint mx" using n by (simp only: r below_limit_iff [OF assms(2)] i) linarith
qed

lemma sub_pend:
  assumes "pend status w" "unat mx < 2 ^ 63" "- 4294967295 < w"
    and "sub_now_pending_and_check mx status = ((old_res, new_res), status')"
  shows "pend status' (w - 1)" "old_res \<longleftrightarrow> w < uint mx" "new_res \<longleftrightarrow> w - 1 < uint mx"
proof -
  define wait dn where wd: "wait = flag_pending status - min (flag_token status) (flag_pending status)"
    "dn = flag_token status - min (flag_token status) (flag_pending status)"
  have n: "int (unat wait) = max w 0" "int (unat dn) = max (- w) 0"
    using normalized [of w "flag_pending status" "flag_token status"] assms(1) by (simp_all add: wd pend_def)
  have r: "old_res = below_limit wait dn mx" "new_res = below_limit wait (dn + 1) mx"
    "status' = pack_flag wait (dn + 1)"
    using assms(4) by (simp_all add: sub_now_pending_and_check_def wd Let_def)
  have i: "unat (dn + 1) = unat dn + 1" using n(2) assms(3) by (intro unat_inc) linarith
  show "pend status' (w - 1)" unfolding r pend_def i flag_pack using n by linarith
  show "old_res \<longleftrightarrow> w < uint mx" using n by (simp only: r below_limit_iff [OF assms(2)]) linarith
  show "new_res \<longleftrightarrow> w - 1 < uint mx" using n by (simp only: r below_limit_iff [OF assms(2)] i) linarith
qed

text \<open>
  Without finished elements the limit is final: after \<open>max\<close> elements nobody polls
  for the next one. This is the case when a \<open>sequential\<close> stage follows, whose
  \<open>poll_next\<close> drains its own cache and does not reach \<open>sub_now_pending_and_check\<close>.
\<close>

lemma adds_without_subs:
  assumes "unat mx < 2 ^ 63" "k < 4294967295"
  shows "pend (((\<lambda>st. snd (add_now_pending_and_check mx st)) ^^ k) 0) (int k)"
  using assms(2)
proof (induction k)
  case 0
  then show ?case by (simp add: pend_def)
next
  case (Suc k)
  let ?st = "((\<lambda>st. snd (add_now_pending_and_check mx st)) ^^ k) 0"
  obtain r st where r: "add_now_pending_and_check mx ?st = (r, st)" by (metis prod.exhaust)
  obtain old_res new_res where "r = (old_res, new_res)" by (metis prod.exhaust)
  then have "pend st (int k + 1)" using add_pend(1) [of ?st "int k" mx old_res new_res st] Suc assms(1) r by simp
  then show ?case by (simp add: r add.commute)
qed

lemma limit_without_subs_is_final:
  assumes "unat mx < 4294967295" "unat mx = Suc k"
  shows "snd (fst (add_now_pending_and_check mx (((\<lambda>st. snd (add_now_pending_and_check mx st)) ^^ k) 0))) = False"
proof -
  let ?st = "((\<lambda>st. snd (add_now_pending_and_check mx st)) ^^ k) 0"
  have p: "pend ?st (int k)" using assms by (intro adds_without_subs) simp_all
  obtain old_res new_res st where r: "add_now_pending_and_check mx ?st = ((old_res, new_res), st)" by (metis prod.exhaust)
  have "new_res \<longleftrightarrow> int k + 1 < uint mx" using add_pend(3) [OF p _ _ r] assms by simp
  moreover have "uint mx = int k + 1" unfolding uint_nat assms(2) by simp
  ultimately show ?thesis by (simp add: r)
qed

subsection \<open>The step relation\<close>

text \<open>
  A push loop of the runner is at its test, inside the push of an element, at
  \<open>add_now_pending_and_check\<close>, about to poll for the next element, at
  \<open>consume_and_continue\<close>, or between the forced release and \<open>set_total\<close>. An element is on
  its way to the reduce operator, has been run by it (\<open>sub_now_pending_and_check\<close> is next), is about
  to poll the runner, or is about to be counted by \<open>add_done\<close>; while the reduce operator runs it, it
  holds the result the function has read. \<open>cn_arrived\<close> records the order in which
  the runs of the reduce operator end, \<open>cn_overlap\<close> whether one began during another.
\<close>

datatype con_loop = C_Check | C_Pushing | C_Add | C_Poll | C_Consume | C_Done u32
datatype ('a, 'r) con_flight = E_Pushed 'a | E_Running 'a 'r | E_Ran | E_Poll | E_Polled

record concurrent_starter =
  cs_counter :: u64
  pending_status :: u64
  max_pending :: u64

record ('a, 'r) con_state =
  cn_runner :: "'a runner"
  cn_loops :: "con_loop multiset"
  cn_flight :: "('a, 'r) con_flight multiset"
  cn_starter :: concurrent_starter
  cn_reduce :: "'r reduce_op"
  cn_out :: "'r list"
  cn_arrived :: "'a list"
  cn_overlap :: bool

definition starter_new :: "u64 \<Rightarrow> concurrent_starter" where
  "starter_new max_count = \<lparr>cs_counter = 0, pending_status = 0, max_pending = max_count\<rparr>"

definition starter_reset :: "concurrent_starter \<Rightarrow> concurrent_starter" where
  "starter_reset st = st\<lparr>cs_counter := 0, pending_status := 0\<rparr>"

definition unlimited :: "concurrent_starter \<Rightarrow> bool" where
  "unlimited st \<longleftrightarrow> max_pending st = 0"

definition con_start :: "'a list \<Rightarrow> concurrent_starter \<Rightarrow> 'r reduce_op \<Rightarrow> ('a, 'r) con_state" where
  "con_start src st op =
     (let (_, r) = try_acquire_for_poll (rn_new src) in
      \<lparr>cn_runner = r, cn_loops = {#C_Check#}, cn_flight = {#}, cn_starter = starter_reset st,
       cn_reduce = reduce_reset op, cn_out = [], cn_arrived = [], cn_overlap = False\<rparr>)"

definition con_poll_next :: "('a, 'r) con_state \<Rightarrow> ('a, 'r) con_state" where
  "con_poll_next s =
     (let (acquired, r) = try_acquire_for_poll (cn_runner s) in
      s\<lparr>cn_runner := r, cn_loops := (if acquired then add_mset C_Check (cn_loops s) else cn_loops s)\<rparr>)"

text \<open>\<open>counter_push_done\<close>: the reduce operator takes its result and pushes it to the parent.\<close>

definition counter_push_done :: "('r \<Rightarrow> 'r) \<Rightarrow> ('a, 'r) con_state \<Rightarrow> ('a, 'r) con_state" where
  "counter_push_done moved s =
     (let (res, op) = reduce_take moved (cn_reduce s) in s\<lparr>cn_reduce := op, cn_out := cn_out s @ [res]\<rparr>)"

definition con_stream_done :: "('r \<Rightarrow> 'r) \<Rightarrow> u32 \<Rightarrow> ('a, 'r) con_state \<Rightarrow> ('a, 'r) con_state" where
  "con_stream_done moved n s =
     (let (fire, c) = set_total n (cs_counter (cn_starter s));
          s = s\<lparr>cn_starter := (cn_starter s)\<lparr>cs_counter := c\<rparr>\<rparr> in
      if fire then counter_push_done moved s else s)"

definition con_count_done :: "('r \<Rightarrow> 'r) \<Rightarrow> ('a, 'r) con_state \<Rightarrow> ('a, 'r) con_state" where
  "con_count_done moved s =
     (let (fire, c) = add_done (cs_counter (cn_starter s));
          s = s\<lparr>cn_starter := (cn_starter s)\<lparr>cs_counter := c\<rparr>\<rparr> in
      if fire then counter_push_done moved s else s)"

definition con_loop_turn :: "('r \<Rightarrow> 'r) \<Rightarrow> con_loop \<Rightarrow> ('a, 'r) con_state \<Rightarrow> ('a, 'r) con_state" where
  "con_loop_turn moved p s =
     (let others = cn_loops s - {#p#} in
      case p of
        C_Check \<Rightarrow>
          if \<not> is_end (cn_runner s)
          then let r = (cn_runner s)\<lparr>rn_push_count := rn_push_count (cn_runner s) + 1\<rparr>; (x, r') = poll_one r in
               s\<lparr>cn_runner := r', cn_flight := add_mset (E_Pushed x) (cn_flight s), cn_loops := add_mset C_Pushing others\<rparr>
          else let n = rn_push_count (cn_runner s) in
               s\<lparr>cn_runner := force_release_token (cn_runner s), cn_loops := add_mset (C_Done n) others\<rparr>
      | C_Pushing \<Rightarrow> s\<lparr>cn_loops := add_mset (if unlimited (cn_starter s) then C_Poll else C_Add) others\<rparr>
      | C_Add \<Rightarrow>
          (let ((old_res, new_res), st) =
                 add_now_pending_and_check (max_pending (cn_starter s)) (pending_status (cn_starter s)) in
           s\<lparr>cn_starter := (cn_starter s)\<lparr>pending_status := st\<rparr>,
             cn_loops := add_mset (if new_res then C_Poll else C_Consume) others\<rparr>)
      | C_Poll \<Rightarrow> con_poll_next (s\<lparr>cn_loops := add_mset C_Consume others\<rparr>)
      | C_Consume \<Rightarrow>
          (let (continue, r) = consume_and_continue (cn_runner s) in
           s\<lparr>cn_runner := r, cn_loops := (if continue then add_mset C_Check others else others)\<rparr>)
      | C_Done n \<Rightarrow> con_stream_done moved n (s\<lparr>cn_loops := others\<rparr>))"

text \<open>
  \<open>op::run\<close> hands the function a reference to the result: the function reads it and
  writes the new one back, and another thread may do the same in between.
\<close>

fun running :: "('a, 'r) con_flight \<Rightarrow> bool" where
  "running (E_Running x r) \<longleftrightarrow> True"
| "running e \<longleftrightarrow> False"

definition con_flight_turn :: "('r \<Rightarrow> 'r) \<Rightarrow> ('r \<Rightarrow> val list \<Rightarrow> 'r) \<Rightarrow> ('a \<Rightarrow> signal) \<Rightarrow> ('a, 'r) con_flight
    \<Rightarrow> ('a, 'r) con_state \<Rightarrow> ('a, 'r) con_state" where
  "con_flight_turn moved f arr e s =
     (let others = cn_flight s - {#e#} in
      case e of
        E_Pushed x \<Rightarrow>
          s\<lparr>cn_flight := add_mset (E_Running x (red_result (cn_reduce s))) others,
            cn_overlap := cn_overlap s \<or> filter_mset running others \<noteq> {#}\<rparr>
      | E_Running x r \<Rightarrow>
          s\<lparr>cn_reduce := (cn_reduce s)\<lparr>red_result := f r (reduce_args (arr x))\<rparr>, cn_arrived := cn_arrived s @ [x],
            cn_flight := add_mset E_Ran others\<rparr>
      | E_Ran \<Rightarrow>
          if unlimited (cn_starter s) then s\<lparr>cn_flight := add_mset E_Polled others\<rparr>
          else (let ((old_res, new_res), st) =
                      sub_now_pending_and_check (max_pending (cn_starter s)) (pending_status (cn_starter s)) in
                s\<lparr>cn_starter := (cn_starter s)\<lparr>pending_status := st\<rparr>,
                  cn_flight := add_mset (if \<not> old_res \<and> new_res then E_Poll else E_Polled) others\<rparr>)
      | E_Poll \<Rightarrow> con_poll_next (s\<lparr>cn_flight := add_mset E_Polled others\<rparr>)
      | E_Polled \<Rightarrow> con_count_done moved (s\<lparr>cn_flight := others\<rparr>))"

inductive con_step :: "('r \<Rightarrow> 'r) \<Rightarrow> ('r \<Rightarrow> val list \<Rightarrow> 'r) \<Rightarrow> ('a \<Rightarrow> signal)
    \<Rightarrow> ('a, 'r) con_state \<Rightarrow> ('a, 'r) con_state \<Rightarrow> bool" for moved f arr where
  con_loop: "p \<in># cn_loops s \<Longrightarrow> con_step moved f arr s (con_loop_turn moved p s)"
| con_flight: "e \<in># cn_flight s \<Longrightarrow> con_step moved f arr s (con_flight_turn moved f arr e s)"

inductive_cases con_stepE: "con_step moved f arr s t"

subsection \<open>Termination\<close>

fun con_loop_weight :: "con_loop \<Rightarrow> nat" where
  "con_loop_weight (C_Done n) = 1"
| "con_loop_weight C_Check = 2"
| "con_loop_weight C_Consume = 3"
| "con_loop_weight C_Poll = 6"
| "con_loop_weight C_Add = 7"
| "con_loop_weight C_Pushing = 8"

fun con_flight_weight :: "('a, 'r) con_flight \<Rightarrow> nat" where
  "con_flight_weight E_Polled = 1"
| "con_flight_weight E_Poll = 4"
| "con_flight_weight E_Ran = 5"
| "con_flight_weight (E_Running x r) = 6"
| "con_flight_weight (E_Pushed x) = 7"

definition con_measure :: "('a, 'r) con_state \<Rightarrow> nat" where
  "con_measure s = 14 * length (rn_rest (cn_runner s))
     + sum_mset (image_mset con_loop_weight (cn_loops s)) + sum_mset (image_mset con_flight_weight (cn_flight s))"

lemma sum_mset_take_out:
  fixes w :: "'b \<Rightarrow> nat"
  shows "e \<in># M \<Longrightarrow> sum_mset (image_mset w M) = w e + sum_mset (image_mset w (M - {#e#}))"
  by (metis image_mset_add_mset insert_DiffM sum_mset.insert)

lemma con_poll_next_measure: "con_measure (con_poll_next s) \<le> con_measure s + 2"
  by (auto simp: con_measure_def con_poll_next_def try_acquire_for_poll_def Let_def split: if_splits)

lemma push_done_measure [simp]: "con_measure (counter_push_done moved s) = con_measure s"
  by (simp add: con_measure_def counter_push_done_def reduce_take_def)

lemma stream_done_measure [simp]: "con_measure (con_stream_done moved n s) = con_measure s"
  "con_measure (con_count_done moved s) = con_measure s"
  by (auto simp: con_stream_done_def con_count_done_def Let_def split: prod.split) (auto simp: con_measure_def)

lemma con_loop_turn_decreases:
  assumes "p \<in># cn_loops s"
  shows "con_measure (con_loop_turn moved p s) < con_measure s"
proof -
  note w = sum_mset_take_out [OF assms, of con_loop_weight]
  show ?thesis
  proof (cases p)
    case C_Check
    with w show ?thesis
      by (cases "rn_rest (cn_runner s)")
        (simp_all add: con_loop_turn_def con_measure_def is_end_def poll_one_def force_release_token_def Let_def)
  next
    case C_Poll
    define t where "t = s\<lparr>cn_loops := add_mset C_Consume (cn_loops s - {#C_Poll#})\<rparr>"
    have "con_loop_turn moved p s = con_poll_next t" using C_Poll by (simp add: con_loop_turn_def t_def Let_def)
    moreover have "con_measure t + 3 = con_measure s" using w C_Poll by (simp add: con_measure_def t_def)
    ultimately show ?thesis using con_poll_next_measure [of t] by simp
  next
    case C_Consume
    with w show ?thesis
      by (cases "consume_and_continue (cn_runner s)") (auto simp: con_loop_turn_def con_measure_def consume_keeps_rest Let_def)
  next
    case C_Add
    with w show ?thesis by (auto simp: con_loop_turn_def con_measure_def Let_def split: prod.split)
  next
    case (C_Done n)
    with w show ?thesis by (simp add: con_loop_turn_def Let_def) (simp add: con_measure_def)
  qed (use w in \<open>simp_all add: con_loop_turn_def con_measure_def Let_def\<close>)
qed

lemma con_flight_turn_decreases:
  assumes "e \<in># cn_flight s"
  shows "con_measure (con_flight_turn moved f arr e s) < con_measure s"
proof -
  note w = sum_mset_take_out [OF assms, of con_flight_weight]
  show ?thesis
  proof (cases e)
    case E_Poll
    define t where "t = s\<lparr>cn_flight := add_mset E_Polled (cn_flight s - {#E_Poll#})\<rparr>"
    have "con_flight_turn moved f arr e s = con_poll_next t" using E_Poll by (simp add: con_flight_turn_def t_def Let_def)
    moreover have "con_measure t + 3 = con_measure s" using w E_Poll by (simp add: con_measure_def t_def)
    ultimately show ?thesis using con_poll_next_measure [of t] by simp
  next
    case E_Ran
    with w show ?thesis by (auto simp: con_flight_turn_def con_measure_def Let_def split: prod.split)
  next
    case E_Polled
    with w show ?thesis by (simp add: con_flight_turn_def Let_def) (simp add: con_measure_def)
  qed (use w in \<open>simp_all add: con_flight_turn_def con_measure_def Let_def\<close>)
qed

lemma concurrent_terminates: "wf {(t, s). con_step moved f arr s t}"
  by (rule wf_subset [OF wf_measure [of con_measure]])
    (auto elim!: con_stepE intro: con_loop_turn_decreases con_flight_turn_decreases)

subsection \<open>The invariant\<close>

fun unsub :: "('a, 'r) con_flight \<Rightarrow> bool" where
  "unsub (E_Pushed x) \<longleftrightarrow> True"
| "unsub (E_Running x r) \<longleftrightarrow> True"
| "unsub E_Ran \<longleftrightarrow> True"
| "unsub e \<longleftrightarrow> False"

fun on_way :: "('a, 'r) con_flight \<Rightarrow> 'a multiset" where
  "on_way (E_Pushed x) = {#x#}"
| "on_way (E_Running x r) = {#x#}"
| "on_way e = {#}"

definition way :: "('a, 'r) con_flight multiset \<Rightarrow> 'a multiset" where
  "way M = sum_mset (image_mset on_way M)"

definition unsubs :: "('a, 'r) con_flight multiset \<Rightarrow> nat" where
  "unsubs M = size (filter_mset unsub M)"

definition polls :: "('a, 'r) con_flight multiset \<Rightarrow> nat" where
  "polls M = count M E_Poll"

text \<open>As long as no runs have overlapped, at most one is under way, and the result it has read still stands.\<close>

definition run_alone :: "('a, 'r) con_state \<Rightarrow> bool" where
  "run_alone s \<longleftrightarrow> cn_overlap s \<or> filter_mset running (cn_flight s) = {#}
     \<or> (\<exists>x. filter_mset running (cn_flight s) = {#E_Running x (red_result (cn_reduce s))#})"

text \<open>
  The elements and the counter: every element of the range is still to come, on
  its way or has arrived; the counter holds the number of counted elements, and
  the total once the end of the range was signalled; unless runs have overlapped,
  the result is the fold over the arrived elements.
\<close>

definition con_data :: "('r \<Rightarrow> val list \<Rightarrow> 'r) \<Rightarrow> ('a \<Rightarrow> signal) \<Rightarrow> 'a list \<Rightarrow> 'r \<Rightarrow> bool \<Rightarrow> ('a, 'r) con_state \<Rightarrow> bool" where
  "con_data f arr src r0 tot s \<longleftrightarrow>
     (let rest = rn_rest (cn_runner s); n = length src; res = run_reduce f arr (cn_arrived s) r0 in
      (\<exists>d. n = length rest + size (cn_flight s) + d
         \<and> cs_counter (cn_starter s) = pack_flag (if tot then of_nat (n + 1) else 0) (of_nat d)
         \<and> (if tot \<and> d = n then \<exists>v. cn_out s = [v] \<and> (\<not> cn_overlap s \<longrightarrow> v = res)
             else cn_out s = [] \<and> (\<not> cn_overlap s \<longrightarrow> red_result (cn_reduce s) = res)))
      \<and> run_alone s
      \<and> mset src = mset rest + way (cn_flight s) + mset (cn_arrived s)
      \<and> rn_push_count (cn_runner s) = of_nat (n - length rest) \<and> length rest \<le> n)"

text \<open>
  The control: exactly one of a push loop at its test, an element between its
  push and \<open>add_now_pending_and_check\<close>, a promised or a pending poll, a full set of pending
  elements, and the signalled end.
\<close>

definition flag_idle :: "'a runner \<Rightarrow> con_loop multiset \<Rightarrow> bool" where
  "flag_idle r loops \<longleftrightarrow> loops = {#C_Consume#} \<and> rn_flag r = pack_flag 1 1 \<or> loops = {#} \<and> rn_flag r = 0"

definition pend_is :: "concurrent_starter \<Rightarrow> (int \<Rightarrow> bool) \<Rightarrow> bool" where
  "pend_is st P \<longleftrightarrow> max_pending st = 0 \<or> (\<exists>w. pend (pending_status st) w \<and> P w)"

inductive con_control :: "'a list \<Rightarrow> u64 \<Rightarrow> bool \<Rightarrow> ('a, 'r) con_state \<Rightarrow> bool" for src mx where
  k_check: "max_pending (cn_starter s) = mx \<Longrightarrow> cn_loops s = {#C_Check#} \<Longrightarrow> rn_flag (cn_runner s) = pack_flag 1 1
    \<Longrightarrow> polls (cn_flight s) = 0
    \<Longrightarrow> pend_is (cn_starter s) (\<lambda>w. w = int (unsubs (cn_flight s)) \<and> w < uint mx) \<Longrightarrow> con_control src mx False s"
| k_push: "max_pending (cn_starter s) = mx \<Longrightarrow> cn_loops s = {#p#} \<Longrightarrow> p = C_Pushing \<or> p = C_Add \<and> mx \<noteq> 0
    \<Longrightarrow> rn_flag (cn_runner s) = pack_flag 1 1 \<Longrightarrow> polls (cn_flight s) = 0
    \<Longrightarrow> pend_is (cn_starter s) (\<lambda>w. w = int (unsubs (cn_flight s)) - 1 \<and> w < uint mx) \<Longrightarrow> con_control src mx False s"
| k_poll: "max_pending (cn_starter s) = mx \<Longrightarrow> cn_loops s = {#C_Poll#} \<Longrightarrow> rn_flag (cn_runner s) = pack_flag 1 1
    \<Longrightarrow> polls (cn_flight s) = 0
    \<Longrightarrow> pend_is (cn_starter s) (\<lambda>w. w = int (unsubs (cn_flight s)) \<and> w < uint mx) \<Longrightarrow> con_control src mx False s"
| k_polled: "max_pending (cn_starter s) = mx \<Longrightarrow> cn_loops s = {#C_Consume#} \<Longrightarrow> rn_flag (cn_runner s) = pack_flag 2 1
    \<Longrightarrow> polls (cn_flight s) = 0
    \<Longrightarrow> pend_is (cn_starter s) (\<lambda>w. w = int (unsubs (cn_flight s)) \<and> w < uint mx) \<Longrightarrow> con_control src mx False s"
| k_promised: "max_pending (cn_starter s) = mx \<Longrightarrow> mx \<noteq> 0 \<Longrightarrow> flag_idle (cn_runner s) (cn_loops s)
    \<Longrightarrow> polls (cn_flight s) = 1
    \<Longrightarrow> pend_is (cn_starter s) (\<lambda>w. w = int (unsubs (cn_flight s)) \<and> w < uint mx) \<Longrightarrow> con_control src mx False s"
| k_full: "max_pending (cn_starter s) = mx \<Longrightarrow> mx \<noteq> 0 \<Longrightarrow> flag_idle (cn_runner s) (cn_loops s)
    \<Longrightarrow> polls (cn_flight s) = 0
    \<Longrightarrow> pend_is (cn_starter s) (\<lambda>w. w = int (unsubs (cn_flight s)) \<and> w = uint mx) \<Longrightarrow> con_control src mx False s"
| k_end: "max_pending (cn_starter s) = mx
    \<Longrightarrow> cn_loops s = (if tot then {#} else {#C_Done (of_nat (length src))#}) \<Longrightarrow> rn_rest (cn_runner s) = []
    \<Longrightarrow> polls (cn_flight s) = 0
    \<Longrightarrow> pend_is (cn_starter s) (\<lambda>w. w = int (unsubs (cn_flight s)) \<and> w < uint mx) \<Longrightarrow> con_control src mx tot s"

definition con_inv :: "('r \<Rightarrow> val list \<Rightarrow> 'r) \<Rightarrow> ('a \<Rightarrow> signal) \<Rightarrow> 'a list \<Rightarrow> u64 \<Rightarrow> 'r \<Rightarrow> ('a, 'r) con_state \<Rightarrow> bool" where
  "con_inv f arr src mx r0 s \<longleftrightarrow> (\<exists>tot. con_data f arr src r0 tot s \<and> con_control src mx tot s)"

lemma flight_counts [simp]:
  "way {#} = {#}" "way (add_mset e M) = on_way e + way M"
  "unsubs {#} = 0" "unsubs (add_mset e M) = (if unsub e then 1 else 0) + unsubs M"
  "polls {#} = 0" "polls (add_mset e M) = (if e = E_Poll then 1 else 0) + polls M"
  by (simp_all add: way_def unsubs_def polls_def)

lemma unsubs_le: "unsubs M \<le> size M"
  by (simp add: unsubs_def size_filter_mset_lesseq)

lemma pos_uint: "w \<noteq> 0 \<Longrightarrow> 0 < uint (w :: 'b::len word)"
  using uint_0_iff [of w] uint_ge_0 [of w] by linarith

lemma con_start_inv:
  assumes "length src + 1 < 2 ^ 32"
  shows "con_inv f arr src (max_pending st) (red_result op) (con_start src st op)"
proof -
  let ?s = "con_start src st op :: ('a, 'b) con_state"
  have s: "cn_runner ?s = \<lparr>rn_rest = src, rn_push_count = 0, rn_flag = pack_flag 1 1\<rparr>" "cn_loops ?s = {#C_Check#}"
    "cn_flight ?s = {#}" "cn_starter ?s = starter_reset st" "cn_reduce ?s = op" "cn_out ?s = []" "cn_arrived ?s = []"
    "\<not> cn_overlap ?s"
    by (simp_all add: con_start_def try_acquire_for_poll_def rn_new_def reduce_reset_def Let_def)
  have "con_data f arr src (red_result op) False ?s"
    by (simp add: con_data_def run_alone_def s starter_reset_def run_reduce_def)
  moreover have "con_control src (max_pending st) False ?s"
  proof (rule k_check)
    show "pend_is (cn_starter ?s) (\<lambda>w. w = int (unsubs (cn_flight ?s)) \<and> w < uint (max_pending st))"
      by (cases "max_pending st = 0") (auto simp: s starter_reset_def pend_is_def pend_def pos_uint)
  qed (simp_all add: s starter_reset_def)
  ultimately show ?thesis by (auto simp: con_inv_def)
qed

subsection \<open>The elements under a step\<close>

lemma con_dataI:
  assumes "length src = length (rn_rest (cn_runner s)) + size (cn_flight s) + d"
    and "cs_counter (cn_starter s) = pack_flag (if tot then of_nat (length src + 1) else 0) (of_nat d)"
    and "if tot \<and> d = length src then \<exists>v. cn_out s = [v] \<and> (\<not> cn_overlap s \<longrightarrow> v = run_reduce f arr (cn_arrived s) r0)
      else cn_out s = [] \<and> (\<not> cn_overlap s \<longrightarrow> red_result (cn_reduce s) = run_reduce f arr (cn_arrived s) r0)"
    and "mset src = mset (rn_rest (cn_runner s)) + way (cn_flight s) + mset (cn_arrived s)"
    and "rn_push_count (cn_runner s) = of_nat (length src - length (rn_rest (cn_runner s)))"
    and "run_alone s"
  shows "con_data f arr src r0 tot s"
proof -
  have "length (rn_rest (cn_runner s)) \<le> length src" using assms(1) by simp
  with assms show ?thesis unfolding con_data_def Let_def by blast
qed

lemma con_dataE:
  assumes "con_data f arr src r0 tot s"
  obtains d where "length src = length (rn_rest (cn_runner s)) + size (cn_flight s) + d"
    and "cs_counter (cn_starter s) = pack_flag (if tot then of_nat (length src + 1) else 0) (of_nat d)"
    and "if tot \<and> d = length src then \<exists>v. cn_out s = [v] \<and> (\<not> cn_overlap s \<longrightarrow> v = run_reduce f arr (cn_arrived s) r0)
      else cn_out s = [] \<and> (\<not> cn_overlap s \<longrightarrow> red_result (cn_reduce s) = run_reduce f arr (cn_arrived s) r0)"
    and "mset src = mset (rn_rest (cn_runner s)) + way (cn_flight s) + mset (cn_arrived s)"
    and "rn_push_count (cn_runner s) = of_nat (length src - length (rn_rest (cn_runner s)))"
    and "run_alone s"
  using assms unfolding con_data_def Let_def by blast

lemma con_data_cong:
  assumes "con_data f arr src r0 tot s" "rn_rest (cn_runner t) = rn_rest (cn_runner s)" "size (cn_flight t) = size (cn_flight s)"
    "way (cn_flight t) = way (cn_flight s)" "cs_counter (cn_starter t) = cs_counter (cn_starter s)" "cn_out t = cn_out s"
    "cn_reduce t = cn_reduce s" "cn_arrived t = cn_arrived s" "rn_push_count (cn_runner t) = rn_push_count (cn_runner s)"
    "filter_mset running (cn_flight t) = filter_mset running (cn_flight s)" "cn_overlap t = cn_overlap s"
  shows "con_data f arr src r0 tot t"
  using assms(1) by (simp only: con_data_def run_alone_def assms(2-11))

lemma con_data_poll: "con_data f arr src r0 tot s \<Longrightarrow> con_data f arr src r0 tot (con_poll_next s)"
  by (erule con_data_cong) (auto simp: con_poll_next_def try_acquire_for_poll_def Let_def)

lemma con_data_arrive:
  assumes d: "con_data f arr src r0 tot s" and M: "cn_flight s = add_mset (E_Pushed x) M"
  shows "con_data f arr src r0 tot (con_flight_turn moved f arr (E_Pushed x) s)"
  using d
proof (rule con_dataE)
  fix d assume a: "length src = length (rn_rest (cn_runner s)) + size (cn_flight s) + d"
    "cs_counter (cn_starter s) = pack_flag (if tot then of_nat (length src + 1) else 0) (of_nat d)"
    "if tot \<and> d = length src then \<exists>v. cn_out s = [v] \<and> (\<not> cn_overlap s \<longrightarrow> v = run_reduce f arr (cn_arrived s) r0)
      else cn_out s = [] \<and> (\<not> cn_overlap s \<longrightarrow> red_result (cn_reduce s) = run_reduce f arr (cn_arrived s) r0)"
    "mset src = mset (rn_rest (cn_runner s)) + way (cn_flight s) + mset (cn_arrived s)"
    "rn_push_count (cn_runner s) = of_nat (length src - length (rn_rest (cn_runner s)))" "run_alone s"
  have "d \<noteq> length src" using a(1) M by simp
  moreover have "run_alone (con_flight_turn moved f arr (E_Pushed x) s)"
    by (auto simp: run_alone_def con_flight_turn_def M)
  ultimately show ?thesis using a
    by (intro con_dataI [of _ _ d]) (simp_all add: con_flight_turn_def M)
qed

lemma con_data_run:
  assumes d: "con_data f arr src r0 tot s" and M: "cn_flight s = add_mset (E_Running x r) M"
  shows "con_data f arr src r0 tot (con_flight_turn moved f arr (E_Running x r) s)"
  using d
proof (rule con_dataE)
  fix d assume a: "length src = length (rn_rest (cn_runner s)) + size (cn_flight s) + d"
    "cs_counter (cn_starter s) = pack_flag (if tot then of_nat (length src + 1) else 0) (of_nat d)"
    "if tot \<and> d = length src then \<exists>v. cn_out s = [v] \<and> (\<not> cn_overlap s \<longrightarrow> v = run_reduce f arr (cn_arrived s) r0)
      else cn_out s = [] \<and> (\<not> cn_overlap s \<longrightarrow> red_result (cn_reduce s) = run_reduce f arr (cn_arrived s) r0)"
    "mset src = mset (rn_rest (cn_runner s)) + way (cn_flight s) + mset (cn_arrived s)"
    "rn_push_count (cn_runner s) = of_nat (length src - length (rn_rest (cn_runner s)))" "run_alone s"
  have "d \<noteq> length src" using a(1) M by simp
  moreover have alone: "r = red_result (cn_reduce s) \<and> filter_mset running M = {#}" if "\<not> cn_overlap s"
    using a(6) that by (auto simp: run_alone_def M)
  moreover have "run_alone (con_flight_turn moved f arr (E_Running x r) s)"
    using alone by (auto simp: run_alone_def con_flight_turn_def M)
  ultimately show ?thesis using a
    by (intro con_dataI [of _ _ d]) (simp_all add: con_flight_turn_def M run_reduce_def)
qed

lemma con_data_ran:
  assumes d: "con_data f arr src r0 tot s" and M: "cn_flight s = add_mset E_Ran M"
  shows "con_data f arr src r0 tot (con_flight_turn moved f arr E_Ran s)"
  using d by (rule con_data_cong) (auto simp: con_flight_turn_def M Let_def split: prod.split)

lemma con_data_promise:
  assumes d: "con_data f arr src r0 tot s" and M: "cn_flight s = add_mset E_Poll M"
  shows "con_data f arr src r0 tot (con_flight_turn moved f arr E_Poll s)"
proof -
  have "con_data f arr src r0 tot (s\<lparr>cn_flight := add_mset E_Polled M\<rparr>)"
    using d by (rule con_data_cong) (simp_all add: M)
  then show ?thesis using con_data_poll by (simp add: con_flight_turn_def M)
qed

lemma of_nat_below_u32_eq: "m < 2 ^ 32 \<Longrightarrow> n < 2 ^ 32 \<Longrightarrow> (of_nat m :: u32) = of_nat n \<longleftrightarrow> m = n"
  by (simp add: word_of_nat_eq_iff take_bit_nat_eq_self)

lemma con_data_count:
  assumes d: "con_data f arr src r0 tot s" and M: "cn_flight s = add_mset E_Polled M" and n: "length src + 1 < 2 ^ 32"
  shows "con_data f arr src r0 tot (con_flight_turn moved f arr E_Polled s)"
  using d
proof (rule con_dataE)
  fix d assume a: "length src = length (rn_rest (cn_runner s)) + size (cn_flight s) + d"
    "cs_counter (cn_starter s) = pack_flag (if tot then of_nat (length src + 1) else 0) (of_nat d)"
    "if tot \<and> d = length src then \<exists>v. cn_out s = [v] \<and> (\<not> cn_overlap s \<longrightarrow> v = run_reduce f arr (cn_arrived s) r0)
      else cn_out s = [] \<and> (\<not> cn_overlap s \<longrightarrow> red_result (cn_reduce s) = run_reduce f arr (cn_arrived s) r0)"
    "mset src = mset (rn_rest (cn_runner s)) + way (cn_flight s) + mset (cn_arrived s)"
    "rn_push_count (cn_runner s) = of_nat (length src - length (rn_rest (cn_runner s)))" "run_alone s"
  let ?p = "if tot then of_nat (length src + 1) else 0 :: u32"
  have dn: "d < length src" using a(1) M by simp
  have d1: "(of_nat d :: u32) + 1 = of_nat (d + 1)" by simp
  have "(of_nat (d + 1) :: u32) \<noteq> of_nat 0" using dn n by (subst of_nat_below_u32_eq) simp_all
  then have nz: "(of_nat d :: u32) + 1 \<noteq> 0" by (simp add: add.commute)
  have "(of_nat (length src + 1) :: u32) \<noteq> of_nat 0" using n by (subst of_nat_below_u32_eq) simp_all
  then have "0 < (of_nat (length src + 1) :: u32)" by (simp add: word_neq_0_conv)
  moreover have "(of_nat (length src + 1) :: u32) - 1 = of_nat (length src)" by simp
  moreover have "(of_nat (d + 1) :: u32) = of_nat (length src) \<longleftrightarrow> d + 1 = length src"
    using dn n by (intro of_nat_below_u32_eq) simp_all
  ultimately have fire: "add_done (cs_counter (cn_starter s)) = (tot \<and> d + 1 = length src, pack_flag ?p (of_nat (d + 1)))"
    unfolding a(2) by (subst add_done_pack [OF nz]) (auto simp: d1 simp del: of_nat_Suc of_nat_add)
  have o: "cn_out s = []" "\<not> cn_overlap s \<longrightarrow> red_result (cn_reduce s) = run_reduce f arr (cn_arrived s) r0" using a(3) dn by auto
  define s' where "s' = s\<lparr>cn_flight := M, cn_starter := (cn_starter s)\<lparr>cs_counter := pack_flag ?p (of_nat (d + 1))\<rparr>\<rparr>"
  have t: "con_flight_turn moved f arr E_Polled s = (if tot \<and> d + 1 = length src then counter_push_done moved s' else s')"
    by (simp add: con_flight_turn_def M con_count_done_def fire s'_def del: of_nat_Suc of_nat_add)
  have "con_data f arr src r0 tot (counter_push_done moved s')" if "tot \<and> d + 1 = length src"
    by (rule con_dataI [of _ _ "d + 1"])
      (use that a dn o in
        \<open>simp_all add: s'_def M counter_push_done_def reduce_take_def run_alone_def del: of_nat_Suc of_nat_add\<close>)
  moreover have "con_data f arr src r0 tot s'" if "\<not> (tot \<and> d + 1 = length src)"
    by (rule con_dataI [of _ _ "d + 1"])
      (use that a dn o in
        \<open>auto simp: s'_def M run_alone_def simp del: of_nat_Suc of_nat_add\<close>)
  ultimately show ?thesis unfolding t by simp
qed

lemma con_data_check:
  assumes d: "con_data f arr src r0 tot s"
  shows "con_data f arr src r0 tot (con_loop_turn moved C_Check s)"
proof (cases "rn_rest (cn_runner s)")
  case Nil
  then show ?thesis using d
    by (intro con_data_cong [OF d]) (simp_all add: con_loop_turn_def is_end_def force_release_token_def Let_def)
next
  case (Cons x xs)
  show ?thesis using d
  proof (rule con_dataE)
    fix d assume a: "length src = length (rn_rest (cn_runner s)) + size (cn_flight s) + d"
      "cs_counter (cn_starter s) = pack_flag (if tot then of_nat (length src + 1) else 0) (of_nat d)"
      "if tot \<and> d = length src then \<exists>v. cn_out s = [v] \<and> (\<not> cn_overlap s \<longrightarrow> v = run_reduce f arr (cn_arrived s) r0)
        else cn_out s = [] \<and> (\<not> cn_overlap s \<longrightarrow> red_result (cn_reduce s) = run_reduce f arr (cn_arrived s) r0)"
      "mset src = mset (rn_rest (cn_runner s)) + way (cn_flight s) + mset (cn_arrived s)"
      "rn_push_count (cn_runner s) = of_nat (length src - length (rn_rest (cn_runner s)))" "run_alone s"
    have "(of_nat (length src - length (rn_rest (cn_runner s))) :: u32) + 1 = of_nat (length src - length xs)"
      using a(1) Cons by (simp add: of_nat_diff)
    with a Cons show ?thesis
      by (intro con_dataI [of _ _ d]) (simp_all add: con_loop_turn_def is_end_def poll_one_def run_alone_def Let_def)
  qed
qed

lemma con_data_loop:
  assumes d: "con_data f arr src r0 tot s" and p: "p \<in> {C_Pushing, C_Add, C_Poll, C_Consume}"
  shows "con_data f arr src r0 tot (con_loop_turn moved p s)"
proof (cases "p = C_Poll")
  case True
  have "con_data f arr src r0 tot (s\<lparr>cn_loops := add_mset C_Consume (cn_loops s - {#C_Poll#})\<rparr>)"
    using d by (rule con_data_cong) simp_all
  then show ?thesis using True con_data_poll by (simp add: con_loop_turn_def Let_def)
next
  case False
  with p show ?thesis
    by (intro con_data_cong [OF d])
      (auto simp: con_loop_turn_def consume_and_continue_def Let_def split: prod.splits if_splits)
qed

lemma con_data_done:
  assumes d: "con_data f arr src r0 False s" and r: "rn_rest (cn_runner s) = []" and n: "length src + 1 < 2 ^ 32"
  shows "con_data f arr src r0 True (con_loop_turn moved (C_Done (of_nat (length src))) s)"
  using d
proof (rule con_dataE)
  fix d assume a: "length src = length (rn_rest (cn_runner s)) + size (cn_flight s) + d"
    "cs_counter (cn_starter s) = pack_flag (if False then of_nat (length src + 1) else 0) (of_nat d)"
    "if False \<and> d = length src then \<exists>v. cn_out s = [v] \<and> (\<not> cn_overlap s \<longrightarrow> v = run_reduce f arr (cn_arrived s) r0)
      else cn_out s = [] \<and> (\<not> cn_overlap s \<longrightarrow> red_result (cn_reduce s) = run_reduce f arr (cn_arrived s) r0)"
    "mset src = mset (rn_rest (cn_runner s)) + way (cn_flight s) + mset (cn_arrived s)"
    "rn_push_count (cn_runner s) = of_nat (length src - length (rn_rest (cn_runner s)))" "run_alone s"
  have "(of_nat d :: u32) = of_nat (length src) \<longleftrightarrow> d = length src"
    using a(1) n by (intro of_nat_below_u32_eq) simp_all
  then have fire: "set_total (of_nat (length src)) (cs_counter (cn_starter s))
      = (d = length src, pack_flag (of_nat (length src + 1)) (of_nat d))"
    using a(2) by (simp add: set_total_pack add.commute)
  with a r show ?thesis
    by (intro con_dataI [of _ _ d])
      (auto simp: con_loop_turn_def con_stream_done_def fire counter_push_done_def reduce_take_def run_alone_def Let_def
        simp del: of_nat_Suc of_nat_add)
qed

subsection \<open>The control under a step\<close>

lemma pend_is_add:
  assumes "pend_is st (\<lambda>w. w = a \<and> P w)" "max_pending st \<noteq> 0" "unat (max_pending st) < 2 ^ 63" "a < 4294967295"
    and "add_now_pending_and_check (max_pending st) (pending_status st) = ((old_res, new_res), ps)"
  shows "pend ps (a + 1)" "new_res \<longleftrightarrow> a + 1 < uint (max_pending st)"
  using assms add_pend [of "pending_status st" a "max_pending st"] by (auto simp: pend_is_def)

lemma pend_is_sub:
  assumes "pend_is st (\<lambda>w. w = a \<and> P w)" "max_pending st \<noteq> 0" "unat (max_pending st) < 2 ^ 63" "- 4294967295 < a"
    and "sub_now_pending_and_check (max_pending st) (pending_status st) = ((old_res, new_res), ps)"
  shows "pend ps (a - 1)" "old_res \<longleftrightarrow> a < uint (max_pending st)" "new_res \<longleftrightarrow> a - 1 < uint (max_pending st)"
  using assms sub_pend [of "pending_status st" a "max_pending st"] by (auto simp: pend_is_def)

lemma pend_is_cong: "pend_is st P \<Longrightarrow> (\<And>w. P w \<Longrightarrow> Q w) \<Longrightarrow> pend_is st Q"
  by (auto simp: pend_is_def)

lemma con_poll_taken:
  assumes "cn_loops s = {#C_Consume#}" "rn_flag (cn_runner s) = pack_flag 1 1"
  shows "cn_loops (con_poll_next s) = {#C_Consume#}" "rn_flag (cn_runner (con_poll_next s)) = pack_flag 2 1"
    "cn_flight (con_poll_next s) = cn_flight s" "cn_starter (con_poll_next s) = cn_starter s"
  using assms by (simp_all add: con_poll_next_def try_acquire_for_poll_def Let_def)

lemma con_poll_acquired:
  assumes "cn_loops s = {#}" "rn_flag (cn_runner s) = 0"
  shows "cn_loops (con_poll_next s) = {#C_Check#}" "rn_flag (cn_runner (con_poll_next s)) = pack_flag 1 1"
    "cn_flight (con_poll_next s) = cn_flight s" "cn_starter (con_poll_next s) = cn_starter s"
  using assms by (simp_all add: con_poll_next_def try_acquire_for_poll_def Let_def)

lemma control_check:
  assumes "con_control src mx tot s" "cn_loops s = {#C_Check#}"
    and "rn_rest (cn_runner s) = [] \<Longrightarrow> rn_push_count (cn_runner s) = of_nat (length src)"
  shows "con_control src mx tot (con_loop_turn moved C_Check s)"
proof -
  from assms(1,2) have c: "tot = False" "max_pending (cn_starter s) = mx" "rn_flag (cn_runner s) = pack_flag 1 1"
    "polls (cn_flight s) = 0" "pend_is (cn_starter s) (\<lambda>w. w = int (unsubs (cn_flight s)) \<and> w < uint mx)"
    by (cases; auto simp: flag_idle_def split: if_splits)+
  show ?thesis
  proof (cases "rn_rest (cn_runner s)")
    case Nil
    show ?thesis unfolding c(1)
      by (rule k_end) (simp_all add: con_loop_turn_def is_end_def force_release_token_def assms(2,3) Nil c Let_def)
  next
    case (Cons x xs)
    show ?thesis unfolding c(1)
      by (rule k_push [where p = C_Pushing])
        (simp_all add: con_loop_turn_def is_end_def poll_one_def assms(2) Cons c Let_def)
  qed
qed

lemma control_push:
  assumes "con_control src mx tot s" "cn_loops s = {#C_Pushing#}"
  shows "con_control src mx tot (con_loop_turn moved C_Pushing s)"
proof -
  from assms have c: "tot = False" "max_pending (cn_starter s) = mx" "rn_flag (cn_runner s) = pack_flag 1 1"
    "polls (cn_flight s) = 0" "pend_is (cn_starter s) (\<lambda>w. w = int (unsubs (cn_flight s)) - 1 \<and> w < uint mx)"
    by (cases; auto simp: flag_idle_def split: if_splits)+
  show ?thesis
  proof (cases "mx = 0")
    case True
    show ?thesis unfolding c(1)
      by (rule k_poll) (simp_all add: con_loop_turn_def unlimited_def assms(2) c True pend_is_def)
  next
    case False
    show ?thesis unfolding c(1)
      by (rule k_push [where p = C_Add]) (simp_all add: con_loop_turn_def unlimited_def assms(2) c False)
  qed
qed

lemma control_add:
  assumes "con_control src mx tot s" "cn_loops s = {#C_Add#}" "unat mx < 2 ^ 63" "unsubs (cn_flight s) < 4294967295"
  shows "con_control src mx tot (con_loop_turn moved C_Add s)"
proof -
  from assms(1,2) have c: "tot = False" "mx \<noteq> 0" "max_pending (cn_starter s) = mx" "rn_flag (cn_runner s) = pack_flag 1 1"
    "polls (cn_flight s) = 0" "pend_is (cn_starter s) (\<lambda>w. w = int (unsubs (cn_flight s)) - 1 \<and> w < uint mx)"
    by (cases; auto simp: flag_idle_def split: if_splits)+
  obtain old_res new_res ps where e: "add_now_pending_and_check mx (pending_status (cn_starter s)) = ((old_res, new_res), ps)"
    by (metis prod.exhaust)
  have a: "pend ps (int (unsubs (cn_flight s)))" "new_res \<longleftrightarrow> int (unsubs (cn_flight s)) < uint mx"
    using pend_is_add [OF c(6), of old_res new_res ps] c(2,3) assms(3,4) e by auto
  have w: "int (unsubs (cn_flight s)) \<le> uint mx"
    using c(2,3,6) by (auto simp: pend_is_def)
  show ?thesis
  proof (cases new_res)
    case True
    show ?thesis unfolding c(1)
      by (rule k_poll) (use a True in \<open>simp_all add: con_loop_turn_def assms(2) c e pend_is_def\<close>)
  next
    case False
    show ?thesis unfolding c(1)
      by (rule k_full) (use a False w in \<open>simp_all add: con_loop_turn_def assms(2) c e pend_is_def flag_idle_def\<close>)
  qed
qed

lemma control_poll:
  assumes "con_control src mx tot s" "cn_loops s = {#C_Poll#}"
  shows "con_control src mx tot (con_loop_turn moved C_Poll s)"
proof -
  from assms have c: "tot = False" "max_pending (cn_starter s) = mx" "rn_flag (cn_runner s) = pack_flag 1 1"
    "polls (cn_flight s) = 0" "pend_is (cn_starter s) (\<lambda>w. w = int (unsubs (cn_flight s)) \<and> w < uint mx)"
    by (cases; auto simp: flag_idle_def split: if_splits)+
  define t where "t = s\<lparr>cn_loops := {#C_Consume#}\<rparr>"
  have t: "cn_loops t = {#C_Consume#}" "rn_flag (cn_runner t) = pack_flag 1 1" "cn_flight t = cn_flight s" "cn_starter t = cn_starter s"
    by (simp_all add: t_def c)
  have "con_control src mx False (con_poll_next t)"
    by (rule k_polled) (simp_all add: con_poll_taken [OF t(1,2)] t(3,4) c)
  then show ?thesis by (simp add: c(1) con_loop_turn_def assms(2) t_def)
qed

lemma control_consume:
  assumes "con_control src mx tot s" "cn_loops s = {#C_Consume#}"
  shows "con_control src mx tot (con_loop_turn moved C_Consume s)"
  using assms(1)
proof cases
  case k_polled
  show ?thesis unfolding k_polled(1)
    by (rule k_check) (use k_polled assms(2) in \<open>simp_all add: con_loop_turn_def consume_and_continue_def Let_def\<close>)
next
  case k_promised
  show ?thesis unfolding k_promised(1)
    by (rule con_control.k_promised)
      (use k_promised assms(2) in \<open>auto simp: con_loop_turn_def consume_and_continue_def flag_idle_def Let_def\<close>)
next
  case k_full
  show ?thesis unfolding k_full(1)
    by (rule con_control.k_full)
      (use k_full assms(2) in \<open>auto simp: con_loop_turn_def consume_and_continue_def flag_idle_def Let_def\<close>)
qed (use assms(2) in \<open>auto split: if_splits\<close>)

lemma control_done:
  assumes "con_control src mx tot s" "cn_loops s = {#C_Done n#}"
  shows "tot = False" "n = of_nat (length src)" "rn_rest (cn_runner s) = []"
    "con_control src mx True (con_loop_turn moved (C_Done n) s)"
proof -
  from assms have c: "tot = False" "max_pending (cn_starter s) = mx" "n = of_nat (length src)" "rn_rest (cn_runner s) = []"
    "polls (cn_flight s) = 0" "pend_is (cn_starter s) (\<lambda>w. w = int (unsubs (cn_flight s)) \<and> w < uint mx)"
    by (cases; auto simp: flag_idle_def split: if_splits)+
  then show "tot = False" "n = of_nat (length src)" "rn_rest (cn_runner s) = []" by simp_all
  show "con_control src mx True (con_loop_turn moved (C_Done n) s)"
    by (rule k_end) (use c in \<open>auto simp: con_loop_turn_def con_stream_done_def counter_push_done_def assms(2)
      reduce_take_def pend_is_def Let_def split: prod.splits\<close>)
qed

lemma con_control_cong:
  assumes "con_control src mx tot s" "cn_runner t = cn_runner s" "cn_loops t = cn_loops s"
    and "max_pending (cn_starter t) = max_pending (cn_starter s)" "pending_status (cn_starter t) = pending_status (cn_starter s)"
    and "polls (cn_flight t) = polls (cn_flight s)" "unsubs (cn_flight t) = unsubs (cn_flight s)"
  shows "con_control src mx tot t"
proof -
  have p: "pend_is (cn_starter t) = pend_is (cn_starter s)" using assms(4,5) by (auto simp: pend_is_def)
  show ?thesis using assms(1)
  proof cases
    case k_check then show ?thesis unfolding k_check(1) by (intro con_control.k_check) (simp_all add: assms(2-) p)
  next
    case (k_push q) then show ?thesis unfolding k_push(1) by (intro con_control.k_push [of _ _ q]) (simp_all add: assms(2-) p)
  next
    case k_poll then show ?thesis unfolding k_poll(1) by (intro con_control.k_poll) (simp_all add: assms(2-) p)
  next
    case k_polled then show ?thesis unfolding k_polled(1) by (intro con_control.k_polled) (simp_all add: assms(2-) p)
  next
    case k_promised then show ?thesis unfolding k_promised(1) by (intro con_control.k_promised) (simp_all add: assms(2-) p)
  next
    case k_full then show ?thesis unfolding k_full(1) by (intro con_control.k_full) (simp_all add: assms(2-) p)
  next
    case k_end then show ?thesis by (intro con_control.k_end) (simp_all add: assms(2-) p)
  qed
qed

lemma control_arrive:
  "con_control src mx tot s \<Longrightarrow> cn_flight s = add_mset (E_Pushed x) M \<Longrightarrow>
     con_control src mx tot (con_flight_turn moved f arr (E_Pushed x) s)"
  by (erule con_control_cong) (simp_all add: con_flight_turn_def)

lemma control_run:
  "con_control src mx tot s \<Longrightarrow> cn_flight s = add_mset (E_Running x r) M \<Longrightarrow>
     con_control src mx tot (con_flight_turn moved f arr (E_Running x r) s)"
  by (erule con_control_cong) (simp_all add: con_flight_turn_def)

lemma control_count:
  "con_control src mx tot s \<Longrightarrow> cn_flight s = add_mset E_Polled M \<Longrightarrow>
     con_control src mx tot (con_flight_turn moved f arr E_Polled s)"
  by (erule con_control_cong)
    (auto simp: con_flight_turn_def con_count_done_def counter_push_done_def reduce_take_def Let_def split: prod.splits)

lemma control_promise:
  assumes "con_control src mx tot s" "cn_flight s = add_mset E_Poll M"
  shows "con_control src mx tot (con_flight_turn moved f arr E_Poll s)"
  using assms(1)
proof cases
  case k_promised
  define t where "t = s\<lparr>cn_flight := add_mset E_Polled M\<rparr>"
  have e: "con_flight_turn moved f arr E_Poll s = con_poll_next t"
    by (simp add: con_flight_turn_def assms(2) t_def)
  have t: "cn_runner t = cn_runner s" "cn_loops t = cn_loops s" "cn_starter t = cn_starter s"
    "polls (cn_flight t) = 0" "unsubs (cn_flight t) = unsubs (cn_flight s)"
    using k_promised(5) by (simp_all add: t_def assms(2))
  from k_promised(4) consider "cn_loops s = {#C_Consume#}" "rn_flag (cn_runner s) = pack_flag 1 1"
    | "cn_loops s = {#}" "rn_flag (cn_runner s) = 0"
    by (auto simp: flag_idle_def)
  then show ?thesis
  proof cases
    case 1
    then have l: "cn_loops t = {#C_Consume#}" "rn_flag (cn_runner t) = pack_flag 1 1" by (simp_all add: t)
    show ?thesis unfolding k_promised(1) e
      by (rule k_polled) (use k_promised in \<open>simp_all add: con_poll_taken [OF l] t\<close>)
  next
    case 2
    then have l: "cn_loops t = {#}" "rn_flag (cn_runner t) = 0" by (simp_all add: t)
    show ?thesis unfolding k_promised(1) e
      by (rule k_check) (use k_promised in \<open>simp_all add: con_poll_acquired [OF l] t\<close>)
  qed
qed (use assms(2) in auto)

lemma control_ran:
  assumes "con_control src mx tot s" "cn_flight s = add_mset E_Ran M" "unat mx < 2 ^ 63"
  shows "con_control src mx tot (con_flight_turn moved f arr E_Ran s)"
proof (cases "mx = 0")
  case True
  have m: "max_pending (cn_starter s) = 0" using assms(1) True by cases auto
  have e: "con_flight_turn moved f arr E_Ran s = s\<lparr>cn_flight := add_mset E_Polled M\<rparr>"
    by (simp add: con_flight_turn_def unlimited_def m assms(2))
  show ?thesis using assms(1)
  proof cases
    case k_check then show ?thesis unfolding k_check(1) by (intro con_control.k_check) (simp_all add: e assms(2) pend_is_def m)
  next
    case (k_push q) then show ?thesis unfolding k_push(1) by (intro con_control.k_push [of _ _ q]) (simp_all add: e assms(2) pend_is_def m)
  next
    case k_poll then show ?thesis unfolding k_poll(1) by (intro con_control.k_poll) (simp_all add: e assms(2) pend_is_def m)
  next
    case k_polled then show ?thesis unfolding k_polled(1) by (intro con_control.k_polled) (simp_all add: e assms(2) pend_is_def m)
  next
    case k_end then show ?thesis by (intro con_control.k_end) (simp_all add: e assms(2) pend_is_def m)
  qed (use True in auto)
next
  case False
  have m: "max_pending (cn_starter s) = mx" using assms(1) by cases auto
  obtain old_res new_res ps where e: "sub_now_pending_and_check mx (pending_status (cn_starter s)) = ((old_res, new_res), ps)"
    by (metis prod.exhaust)
  define t where "t = s\<lparr>cn_starter := (cn_starter s)\<lparr>pending_status := ps\<rparr>,
    cn_flight := add_mset (if \<not> old_res \<and> new_res then E_Poll else E_Polled) M\<rparr>"
  have t: "con_flight_turn moved f arr E_Ran s = t"
    by (simp add: con_flight_turn_def unlimited_def m False e assms(2) t_def)
  have s': "cn_runner t = cn_runner s" "cn_loops t = cn_loops s" "max_pending (cn_starter t) = mx"
    "unsubs (cn_flight s) = Suc (unsubs (cn_flight t))" "pending_status (cn_starter t) = ps"
    "polls (cn_flight t) = (if \<not> old_res \<and> new_res then 1 else 0) + polls (cn_flight s)"
    by (simp_all add: t_def assms(2) m)
  have sub: "pend ps (a - 1)" "old_res \<longleftrightarrow> a < uint mx" "new_res \<longleftrightarrow> a - 1 < uint mx"
    if "pend_is (cn_starter s) (\<lambda>w. w = a \<and> P w)" "0 \<le> a" for a P
    using pend_is_sub [OF that(1), of old_res new_res ps] m False assms(3) that(2) e by auto
  have lt: "uint mx \<le> a \<longleftrightarrow> \<not> a < uint mx" for a by auto
  let ?u = "int (unsubs (cn_flight s))"
  have lim: "a < uint mx" if "pend_is (cn_starter s) (\<lambda>w. w = a \<and> w < uint mx)" for a
    using that False m by (auto simp: pend_is_def)
  show ?thesis using assms(1)
  proof cases
    case k_check
    note r = sub [OF k_check(6)] lim [OF k_check(6)]
    show ?thesis unfolding k_check(1)
      by (rule con_control.k_check) (use k_check r in \<open>auto simp: t s' pend_is_def\<close>)
  next
    case (k_push q)
    note r = sub [OF k_push(7)] lim [OF k_push(7)]
    show ?thesis unfolding k_push(1)
      by (rule con_control.k_push [where p = q]) (use k_push r in \<open>auto simp: t s' pend_is_def\<close>)
  next
    case k_poll
    note r = sub [OF k_poll(6)] lim [OF k_poll(6)]
    show ?thesis unfolding k_poll(1)
      by (rule con_control.k_poll) (use k_poll r in \<open>auto simp: t s' pend_is_def\<close>)
  next
    case k_polled
    note r = sub [OF k_polled(6)] lim [OF k_polled(6)]
    show ?thesis unfolding k_polled(1)
      by (rule con_control.k_polled) (use k_polled r in \<open>auto simp: t s' pend_is_def\<close>)
  next
    case k_promised
    note r = sub [OF k_promised(6)] lim [OF k_promised(6)]
    show ?thesis unfolding k_promised(1)
      by (rule con_control.k_promised) (use k_promised r in \<open>auto simp: t s' pend_is_def\<close>)
  next
    case k_full
    note r = sub [OF k_full(6)]
    have u: "?u = uint mx" using k_full(6) False m by (auto simp: pend_is_def)
    have q: "pend ps (int (unsubs (cn_flight t)))" using r(1) s'(4) by simp
    have "\<not> old_res" "new_res" "int (unsubs (cn_flight t)) < uint mx" using r u s'(4) by auto
    with q show ?thesis unfolding k_full(1)
      by (intro con_control.k_promised) (use k_full in \<open>auto simp: t s' pend_is_def\<close>)
  next
    case k_end
    note r = sub [OF k_end(5)] lim [OF k_end(5)]
    show ?thesis
      by (rule con_control.k_end) (use k_end r in \<open>auto simp: t s' pend_is_def\<close>)
  qed
qed

subsection \<open>What a concurrent stream does\<close>

lemma con_inv_step:
  assumes "con_inv f arr src mx r0 s" "con_step moved f arr s t" "length src + 1 < 2 ^ 32" "unat mx < 2 ^ 63"
  shows "con_inv f arr src mx r0 t"
proof -
  from assms(1) obtain tot where d: "con_data f arr src r0 tot s" and c: "con_control src mx tot s"
    by (auto simp: con_inv_def)
  have cnt: "length src = length (rn_rest (cn_runner s)) + size (cn_flight s) + (length src - length (rn_rest (cn_runner s)) - size (cn_flight s))"
    and pc: "rn_push_count (cn_runner s) = of_nat (length src - length (rn_rest (cn_runner s)))"
    using d by (auto elim!: con_dataE)
  have u: "unsubs (cn_flight s) < 4294967295"
    using unsubs_le [of "cn_flight s"] cnt assms(3) by simp
  from assms(2) show ?thesis
  proof cases
    case (con_loop p)
    note 1 = con_loop
    have l: "cn_loops s = {#p#}" using c 1(2) by cases (auto simp: flag_idle_def split: if_splits)
    show ?thesis
    proof (cases p)
      case (C_Done n)
      note k = control_done [OF c l [unfolded C_Done]]
      show ?thesis using k(4) con_data_done [OF d [unfolded k(1)] k(3) assms(3), of moved]
        unfolding 1(1) C_Done k(2) con_inv_def by blast
    next
      case C_Check
      have "con_control src mx tot t" using control_check [OF c] l pc 1 C_Check by simp
      then show ?thesis using con_data_check [OF d, of moved] 1 C_Check by (auto simp: con_inv_def)
    next
      case C_Pushing
      then show ?thesis using control_push [OF c, of moved] con_data_loop [OF d, of p moved] l 1 by (auto simp: con_inv_def)
    next
      case C_Add
      then show ?thesis using control_add [OF c, of moved] con_data_loop [OF d, of p moved] l 1 u assms(4) by (auto simp: con_inv_def)
    next
      case C_Poll
      then show ?thesis using control_poll [OF c, of moved] con_data_loop [OF d, of p moved] l 1 by (auto simp: con_inv_def)
    next
      case C_Consume
      then show ?thesis using control_consume [OF c, of moved] con_data_loop [OF d, of p moved] l 1 by (auto simp: con_inv_def)
    qed
  next
    case (con_flight e)
    note 2 = con_flight
    then obtain M where M: "cn_flight s = add_mset e M" by (meson mset_add)
    show ?thesis
    proof (cases e)
      case (E_Pushed x)
      show ?thesis using control_arrive [OF c M [unfolded E_Pushed]] con_data_arrive [OF d M [unfolded E_Pushed]]
        unfolding 2(1) E_Pushed con_inv_def by blast
    next
      case (E_Running x r)
      show ?thesis using control_run [OF c M [unfolded E_Running]] con_data_run [OF d M [unfolded E_Running]]
        unfolding 2(1) E_Running con_inv_def by blast
    next
      case E_Ran
      show ?thesis using control_ran [OF c M [unfolded E_Ran] assms(4)] con_data_ran [OF d M [unfolded E_Ran]]
        unfolding 2(1) E_Ran con_inv_def by blast
    next
      case E_Poll
      show ?thesis using control_promise [OF c M [unfolded E_Poll]] con_data_promise [OF d M [unfolded E_Poll]]
        unfolding 2(1) E_Poll con_inv_def by blast
    next
      case E_Polled
      show ?thesis using control_count [OF c M [unfolded E_Polled]] con_data_count [OF d M [unfolded E_Polled] assms(3)]
        unfolding 2(1) E_Polled con_inv_def by blast
    qed
  qed
qed

lemma con_reaches_inv:
  assumes "(con_step moved f arr)\<^sup>*\<^sup>* (con_start src st op) s" "length src + 1 < 2 ^ 32" "unat (max_pending st) < 2 ^ 63"
  shows "con_inv f arr src (max_pending st) (red_result op) s"
  using assms(1)
  by (induction rule: rtranclp_induct) (auto intro: con_start_inv [OF assms(2)] con_inv_step [OF _ _ assms(2,3)])

lemma con_inv_limit:
  assumes "con_inv f arr src mx r0 s" "mx \<noteq> 0"
  shows "unsubs (cn_flight s) \<le> unat mx"
proof -
  from assms(1) obtain tot where "con_control src mx tot s" by (auto simp: con_inv_def)
  then have "int (unsubs (cn_flight s)) \<le> uint mx"
    using assms(2) by cases (auto simp: pend_is_def)
  then show ?thesis unfolding uint_nat by linarith
qed

lemma way_empty: "way {#} = {#}" by simp

lemma con_inv_output:
  assumes "con_inv f arr src mx r0 s"
  shows "cn_out s = [] \<or> (\<exists>v. cn_out s = [v] \<and> (\<not> cn_overlap s \<longrightarrow> v = run_reduce f arr (cn_arrived s) r0))
    \<and> mset (cn_arrived s) = mset src"
proof -
  from assms obtain tot where "con_data f arr src r0 tot s" by (auto simp: con_inv_def)
  then show ?thesis
  proof (rule con_dataE)
    fix d assume a: "length src = length (rn_rest (cn_runner s)) + size (cn_flight s) + d"
      "if tot \<and> d = length src then \<exists>v. cn_out s = [v] \<and> (\<not> cn_overlap s \<longrightarrow> v = run_reduce f arr (cn_arrived s) r0)
        else cn_out s = [] \<and> (\<not> cn_overlap s \<longrightarrow> red_result (cn_reduce s) = run_reduce f arr (cn_arrived s) r0)"
      "mset src = mset (rn_rest (cn_runner s)) + way (cn_flight s) + mset (cn_arrived s)"
    show ?thesis
    proof (cases "tot \<and> d = length src")
      case True
      then have "rn_rest (cn_runner s) = []" "cn_flight s = {#}" using a(1) by auto
      with a True show ?thesis by simp
    qed (use a(2) in auto)
  qed
qed

lemma con_stuck_output:
  assumes "con_inv f arr src mx r0 s" "\<nexists>t. con_step moved f arr s t"
  shows "cn_out s \<noteq> []"
proof -
  have l: "cn_loops s = {#}" using assms(2) con_loop [of _ s moved f arr] by (meson multiset_nonemptyE)
  have fl: "cn_flight s = {#}" using assms(2) con_flight [of _ s moved f arr] by (meson multiset_nonemptyE)
  from assms(1) obtain tot where d: "con_data f arr src r0 tot s" and c: "con_control src mx tot s"
    by (auto simp: con_inv_def)
  from c have "tot \<and> rn_rest (cn_runner s) = []"
    by cases (use l fl in \<open>auto simp: pend_is_def uint_0_iff split: if_splits\<close>)
  with d fl show ?thesis by (auto elim!: con_dataE)
qed

text \<open>With a limit of one the runs follow each other: an element is only started after the last one has run.\<close>

lemma overlap_step:
  assumes "con_step moved f arr s t" "con_inv f arr src 1 r0 s" "\<not> cn_overlap s"
  shows "\<not> cn_overlap t"
  using assms(1)
proof cases
  case (con_loop p)
  then show ?thesis using assms(3)
    by (cases p)
      (auto simp: con_loop_turn_def con_poll_next_def con_stream_done_def counter_push_done_def reduce_take_def Let_def
        split: prod.split)
next
  case (con_flight e)
  show ?thesis
  proof (cases e)
    case (E_Pushed x)
    obtain M where M: "cn_flight s = add_mset (E_Pushed x) M" using con_flight(2) E_Pushed by (meson mset_add)
    have "unsubs M = 0" using con_inv_limit [OF assms(2)] by (simp add: M)
    then have u: "\<not> unsub e'" if "e' \<in># M" for e' using that by (auto simp: unsubs_def)
    have "\<not> running e'" if "e' \<in># M" for e' using u [OF that] by (cases e') simp_all
    then have "filter_mset running M = {#}" by simp
    then show ?thesis using assms(3) by (simp add: con_flight(1) E_Pushed con_flight_turn_def M)
  qed (use assms(3) in \<open>auto simp: con_flight(1) con_flight_turn_def con_poll_next_def con_count_done_def counter_push_done_def
      reduce_take_def Let_def split: prod.split\<close>)
qed

lemma limit_one_runs_alone:
  assumes "(con_step moved f arr)\<^sup>*\<^sup>* (con_start src st op) s" "length src + 1 < 2 ^ 32" "max_pending st = 1"
  shows "\<not> cn_overlap s"
  using assms(1)
proof (induction rule: rtranclp_induct)
  case base
  show ?case by (simp add: con_start_def split: prod.split)
next
  case (step s t)
  have "con_inv f arr src 1 (red_result op) s" using con_reaches_inv [OF step.hyps(1) assms(2)] assms(3) by simp
  then show ?case by (rule overlap_step [OF step.hyps(2) _ step.IH])
qed

text \<open>
  C14: a concurrent stream is complete and bounded. However its threads
  interleave, at most \<open>max\<close> elements are between their push and the end of their
  run (with a limit), the stream pushes nothing or exactly one value to its
  parent, after every element of the range has been run exactly once, and a stream
  that cannot step any more has pushed it. The reduce operator reads and writes its
  result without a lock: the value is the fold of the function over all elements, in
  the order in which they were run, unless two runs overlapped on different threads,
  which they cannot with a limit of one.
\<close>

theorem concurrent_bounded_and_complete:
  assumes "(con_step moved f arr)\<^sup>*\<^sup>* (con_start src st op) s"
    and "length src + 1 < 2 ^ 32" and "unat (max_pending st) < 2 ^ 63"
  shows "(max_pending st \<noteq> 0 \<longrightarrow> size (filter_mset unsub (cn_flight s)) \<le> unat (max_pending st))
    \<and> (cn_out s = [] \<or> (\<exists>v. cn_out s = [v]
         \<and> (\<not> cn_overlap s \<longrightarrow> v = foldl (\<lambda>r x. f r (reduce_args (arr x))) (red_result op) (cn_arrived s)))
         \<and> mset (cn_arrived s) = mset src)
    \<and> (max_pending st = 1 \<longrightarrow> \<not> cn_overlap s)
    \<and> ((\<nexists>t. con_step moved f arr s t) \<longrightarrow> cn_out s \<noteq> [])"
proof -
  note inv = con_reaches_inv [OF assms]
  show ?thesis
    using con_inv_limit [OF inv] con_inv_output [OF inv] con_stuck_output [OF inv, of moved]
      limit_one_runs_alone [OF assms(1,2)]
    unfolding unsubs_def run_reduce_def by blast
qed

lemma run_con_loop: "(con_step moved f arr)\<^sup>*\<^sup>* a s \<Longrightarrow> p \<in># cn_loops s \<Longrightarrow> (con_step moved f arr)\<^sup>*\<^sup>* a (con_loop_turn moved p s)"
  by (erule rtranclp.rtrancl_into_rtrancl) (rule con_loop)

lemma run_con_flight: "(con_step moved f arr)\<^sup>*\<^sup>* a s \<Longrightarrow> e \<in># cn_flight s \<Longrightarrow> (con_step moved f arr)\<^sup>*\<^sup>* a (con_flight_turn moved f arr e s)"
  by (erule rtranclp.rtrancl_into_rtrancl) (rule con_flight)

lemma counter_evals:
  "add_done 0 = (False, pack_flag 0 1)" "set_total 1 (pack_flag 0 1) = (True, pack_flag 2 1)"
  using add_done_pack [of 0 0] by (simp_all add: set_total_pack)

lemmas con_turns = con_loop_turn_def con_flight_turn_def is_end_def poll_one_def con_poll_next_def try_acquire_for_poll_def
  consume_and_continue_def force_release_token_def counter_push_done_def con_stream_done_def con_count_done_def
  reduce_take_def reduce_run_def count_values_def unlimited_def add_now_pending_and_check_def
  sub_now_pending_and_check_def below_limit_def counter_evals

lemma concurrent_bounded_and_complete_witness:
  "\<exists>s. (con_step id count_values (\<lambda>x. S_Value [x]))\<^sup>*\<^sup>* (con_start [V_Int 7] (starter_new 1) (reduce_new 0)) s
     \<and> size (filter_mset unsub (cn_flight s)) \<le> 1
     \<and> cn_out s = [foldl (\<lambda>r x. count_values r (reduce_args (S_Value [x]))) 0 (cn_arrived s)] \<and> cn_out s = [1]"
proof -
  let ?run = "(con_step id count_values (\<lambda>x. S_Value [x]))\<^sup>*\<^sup>* (con_start [V_Int 7] (starter_new 1) (reduce_new 0))"
  have r0: "?run (\<lparr>cn_runner = \<lparr>rn_rest = [V_Int 7], rn_push_count = 0, rn_flag = pack_flag 1 1\<rparr>, cn_loops = {#C_Check#}, cn_flight = {#},
      cn_starter = \<lparr>cs_counter = 0, pending_status = 0, max_pending = 1\<rparr>, cn_reduce = \<lparr>initial_value = 0, red_result = 0\<rparr>, cn_out = [], cn_arrived = [], cn_overlap = False\<rparr>)"
    by (simp add: con_start_def rn_new_def try_acquire_for_poll_def reduce_reset_def reduce_new_def starter_new_def starter_reset_def)
  have r1: "?run (\<lparr>cn_runner = \<lparr>rn_rest = [], rn_push_count = 1, rn_flag = pack_flag 1 1\<rparr>, cn_loops = {#C_Pushing#}, cn_flight = {#E_Pushed (V_Int 7)#},
      cn_starter = \<lparr>cs_counter = 0, pending_status = 0, max_pending = 1\<rparr>, cn_reduce = \<lparr>initial_value = 0, red_result = 0\<rparr>, cn_out = [], cn_arrived = [], cn_overlap = False\<rparr>)"
    using run_con_loop [OF r0, of "C_Check"] by (simp add: con_turns)
  have r2: "?run (\<lparr>cn_runner = \<lparr>rn_rest = [], rn_push_count = 1, rn_flag = pack_flag 1 1\<rparr>, cn_loops = {#C_Add#}, cn_flight = {#E_Pushed (V_Int 7)#},
      cn_starter = \<lparr>cs_counter = 0, pending_status = 0, max_pending = 1\<rparr>, cn_reduce = \<lparr>initial_value = 0, red_result = 0\<rparr>, cn_out = [], cn_arrived = [], cn_overlap = False\<rparr>)"
    using run_con_loop [OF r1, of "C_Pushing"] by (simp add: con_turns)
  have r3: "?run (\<lparr>cn_runner = \<lparr>rn_rest = [], rn_push_count = 1, rn_flag = pack_flag 1 1\<rparr>, cn_loops = {#C_Consume#}, cn_flight = {#E_Pushed (V_Int 7)#},
      cn_starter = \<lparr>cs_counter = 0, pending_status = pack_flag 1 0, max_pending = 1\<rparr>, cn_reduce = \<lparr>initial_value = 0, red_result = 0\<rparr>, cn_out = [], cn_arrived = [], cn_overlap = False\<rparr>)"
    using run_con_loop [OF r2, of "C_Add"] by (simp add: con_turns)
  have r4: "?run (\<lparr>cn_runner = \<lparr>rn_rest = [], rn_push_count = 1, rn_flag = 0\<rparr>, cn_loops = {#}, cn_flight = {#E_Pushed (V_Int 7)#},
      cn_starter = \<lparr>cs_counter = 0, pending_status = pack_flag 1 0, max_pending = 1\<rparr>, cn_reduce = \<lparr>initial_value = 0, red_result = 0\<rparr>, cn_out = [], cn_arrived = [], cn_overlap = False\<rparr>)"
    using run_con_loop [OF r3, of "C_Consume"] by (simp add: con_turns)
  have r4r: "?run (\<lparr>cn_runner = \<lparr>rn_rest = [], rn_push_count = 1, rn_flag = 0\<rparr>, cn_loops = {#}, cn_flight = {#E_Running (V_Int 7) 0#},
      cn_starter = \<lparr>cs_counter = 0, pending_status = pack_flag 1 0, max_pending = 1\<rparr>, cn_reduce = \<lparr>initial_value = 0, red_result = 0\<rparr>, cn_out = [], cn_arrived = [], cn_overlap = False\<rparr>)"
    using run_con_flight [OF r4, of "E_Pushed (V_Int 7)"] by (simp add: con_turns)
  have r5: "?run (\<lparr>cn_runner = \<lparr>rn_rest = [], rn_push_count = 1, rn_flag = 0\<rparr>, cn_loops = {#}, cn_flight = {#E_Ran#},
      cn_starter = \<lparr>cs_counter = 0, pending_status = pack_flag 1 0, max_pending = 1\<rparr>, cn_reduce = \<lparr>initial_value = 0, red_result = 1\<rparr>, cn_out = [], cn_arrived = [V_Int 7], cn_overlap = False\<rparr>)"
    using run_con_flight [OF r4r, of "E_Running (V_Int 7) 0"] by (simp add: con_turns)
  have r6: "?run (\<lparr>cn_runner = \<lparr>rn_rest = [], rn_push_count = 1, rn_flag = 0\<rparr>, cn_loops = {#}, cn_flight = {#E_Poll#},
      cn_starter = \<lparr>cs_counter = 0, pending_status = pack_flag 1 1, max_pending = 1\<rparr>, cn_reduce = \<lparr>initial_value = 0, red_result = 1\<rparr>, cn_out = [], cn_arrived = [V_Int 7], cn_overlap = False\<rparr>)"
    using run_con_flight [OF r5, of "E_Ran"] by (simp add: con_turns)
  have r7: "?run (\<lparr>cn_runner = \<lparr>rn_rest = [], rn_push_count = 1, rn_flag = pack_flag 1 1\<rparr>, cn_loops = {#C_Check#}, cn_flight = {#E_Polled#},
      cn_starter = \<lparr>cs_counter = 0, pending_status = pack_flag 1 1, max_pending = 1\<rparr>, cn_reduce = \<lparr>initial_value = 0, red_result = 1\<rparr>, cn_out = [], cn_arrived = [V_Int 7], cn_overlap = False\<rparr>)"
    using run_con_flight [OF r6, of "E_Poll"] by (simp add: con_turns)
  have r8: "?run (\<lparr>cn_runner = \<lparr>rn_rest = [], rn_push_count = 1, rn_flag = pack_flag 1 1\<rparr>, cn_loops = {#C_Check#}, cn_flight = {#},
      cn_starter = \<lparr>cs_counter = pack_flag 0 1, pending_status = pack_flag 1 1, max_pending = 1\<rparr>, cn_reduce = \<lparr>initial_value = 0, red_result = 1\<rparr>, cn_out = [], cn_arrived = [V_Int 7], cn_overlap = False\<rparr>)"
    using run_con_flight [OF r7, of "E_Polled"] by (simp add: con_turns)
  have r9: "?run (\<lparr>cn_runner = \<lparr>rn_rest = [], rn_push_count = 1, rn_flag = 0\<rparr>, cn_loops = {#C_Done 1#}, cn_flight = {#},
      cn_starter = \<lparr>cs_counter = pack_flag 0 1, pending_status = pack_flag 1 1, max_pending = 1\<rparr>, cn_reduce = \<lparr>initial_value = 0, red_result = 1\<rparr>, cn_out = [], cn_arrived = [V_Int 7], cn_overlap = False\<rparr>)"
    using run_con_loop [OF r8, of "C_Check"] by (simp add: con_turns)
  have r10: "?run (\<lparr>cn_runner = \<lparr>rn_rest = [], rn_push_count = 1, rn_flag = 0\<rparr>, cn_loops = {#}, cn_flight = {#},
      cn_starter = \<lparr>cs_counter = pack_flag 2 1, pending_status = pack_flag 1 1, max_pending = 1\<rparr>, cn_reduce = \<lparr>initial_value = 0, red_result = 1\<rparr>, cn_out = [1], cn_arrived = [V_Int 7], cn_overlap = False\<rparr>)"
    using run_con_loop [OF r9, of "C_Done 1"] by (simp add: con_turns)
  note c = concurrent_bounded_and_complete [OF r10]
  show ?thesis
    by (intro exI conjI, rule r10)
      (use c [THEN conjunct1] c [THEN conjunct2, THEN conjunct1] in \<open>simp_all add: starter_new_def reduce_new_def\<close>)
qed

text \<open>
  Overlapping runs lose an element: of two elements whose runs both read the result
  before either writes it, only the second counts. The count of a range of two
  elements that arrive on different threads can be one.
\<close>

lemma overlapping_runs_lose_an_element:
  assumes "cn_flight s = {#E_Pushed x, E_Pushed y#}" "x \<noteq> y"
  shows "\<exists>t. (con_step moved f arr)\<^sup>*\<^sup>* s t \<and> cn_arrived t = cn_arrived s @ [x, y]
    \<and> red_result (cn_reduce t) = f (red_result (cn_reduce s)) (reduce_args (arr y)) \<and> cn_overlap t"
proof -
  let ?r = "red_result (cn_reduce s)" and ?run = "(con_step moved f arr)\<^sup>*\<^sup>* s"
  define a where "a = con_flight_turn moved f arr (E_Pushed x) s"
  define b where "b = con_flight_turn moved f arr (E_Pushed y) a"
  define c where "c = con_flight_turn moved f arr (E_Running x ?r) b"
  define t where "t = con_flight_turn moved f arr (E_Running y ?r) c"
  have "?run a" using run_con_flight [of moved f arr s s "E_Pushed x"] assms(1) by (simp add: a_def)
  moreover have A: "cn_flight a = {#E_Running x ?r, E_Pushed y#}" "cn_reduce a = cn_reduce s" "cn_arrived a = cn_arrived s"
    by (simp_all add: a_def con_flight_turn_def assms(1))
  ultimately have "?run b" using run_con_flight [of moved f arr s a "E_Pushed y"] by (simp add: b_def)
  moreover have B: "cn_flight b = {#E_Running y ?r, E_Running x ?r#}" "cn_reduce b = cn_reduce s" "cn_arrived b = cn_arrived s"
    "cn_overlap b"
    by (simp_all add: b_def con_flight_turn_def A)
  ultimately have "?run c" using run_con_flight [of moved f arr s b "E_Running x ?r"] by (simp add: c_def)
  moreover have C: "cn_flight c = {#E_Ran, E_Running y ?r#}" "cn_arrived c = cn_arrived s @ [x]" "cn_overlap c"
    using assms(2) by (simp_all add: c_def con_flight_turn_def B)
  ultimately have "?run t" using run_con_flight [of moved f arr s c "E_Running y ?r"] by (simp add: t_def)
  then show ?thesis by (intro exI [of _ t]) (simp add: t_def con_flight_turn_def C)
qed

lemma concurrent_count_loses_an_element:
  "\<exists>s. (con_step id count_values (\<lambda>x. S_Value [x]))\<^sup>*\<^sup>* (con_start [V_Int 7, V_Int 8] (starter_new 0) (reduce_new 0)) s
     \<and> cn_arrived s = [V_Int 7, V_Int 8] \<and> red_result (cn_reduce s) = 1"
proof -
  let ?run = "(con_step id count_values (\<lambda>x. S_Value [x]))\<^sup>*\<^sup>* (con_start [V_Int 7, V_Int 8] (starter_new 0) (reduce_new 0))"
  have r0: "?run (\<lparr>cn_runner = \<lparr>rn_rest = [V_Int 7, V_Int 8], rn_push_count = 0, rn_flag = pack_flag 1 1\<rparr>, cn_loops = {#C_Check#}, cn_flight = {#},
      cn_starter = \<lparr>cs_counter = 0, pending_status = 0, max_pending = 0\<rparr>, cn_reduce = \<lparr>initial_value = 0, red_result = 0\<rparr>, cn_out = [], cn_arrived = [], cn_overlap = False\<rparr>)"
    by (simp add: con_start_def rn_new_def try_acquire_for_poll_def reduce_reset_def reduce_new_def starter_new_def starter_reset_def)
  have r1: "?run (\<lparr>cn_runner = \<lparr>rn_rest = [V_Int 8], rn_push_count = 1, rn_flag = pack_flag 1 1\<rparr>, cn_loops = {#C_Pushing#}, cn_flight = {#E_Pushed (V_Int 7)#},
      cn_starter = \<lparr>cs_counter = 0, pending_status = 0, max_pending = 0\<rparr>, cn_reduce = \<lparr>initial_value = 0, red_result = 0\<rparr>, cn_out = [], cn_arrived = [], cn_overlap = False\<rparr>)"
    using run_con_loop [OF r0, of C_Check] by (simp add: con_turns add_mset_commute)
  have r2: "?run (\<lparr>cn_runner = \<lparr>rn_rest = [V_Int 8], rn_push_count = 1, rn_flag = pack_flag 1 1\<rparr>, cn_loops = {#C_Poll#}, cn_flight = {#E_Pushed (V_Int 7)#},
      cn_starter = \<lparr>cs_counter = 0, pending_status = 0, max_pending = 0\<rparr>, cn_reduce = \<lparr>initial_value = 0, red_result = 0\<rparr>, cn_out = [], cn_arrived = [], cn_overlap = False\<rparr>)"
    using run_con_loop [OF r1, of C_Pushing] by (simp add: con_turns add_mset_commute)
  have r3: "?run (\<lparr>cn_runner = \<lparr>rn_rest = [V_Int 8], rn_push_count = 1, rn_flag = pack_flag 2 1\<rparr>, cn_loops = {#C_Consume#}, cn_flight = {#E_Pushed (V_Int 7)#},
      cn_starter = \<lparr>cs_counter = 0, pending_status = 0, max_pending = 0\<rparr>, cn_reduce = \<lparr>initial_value = 0, red_result = 0\<rparr>, cn_out = [], cn_arrived = [], cn_overlap = False\<rparr>)"
    using run_con_loop [OF r2, of C_Poll] by (simp add: con_turns add_mset_commute)
  have r4: "?run (\<lparr>cn_runner = \<lparr>rn_rest = [V_Int 8], rn_push_count = 1, rn_flag = pack_flag 1 1\<rparr>, cn_loops = {#C_Check#}, cn_flight = {#E_Pushed (V_Int 7)#},
      cn_starter = \<lparr>cs_counter = 0, pending_status = 0, max_pending = 0\<rparr>, cn_reduce = \<lparr>initial_value = 0, red_result = 0\<rparr>, cn_out = [], cn_arrived = [], cn_overlap = False\<rparr>)"
    using run_con_loop [OF r3, of C_Consume] by (simp add: con_turns add_mset_commute)
  have r5: "?run (\<lparr>cn_runner = \<lparr>rn_rest = [], rn_push_count = 2, rn_flag = pack_flag 1 1\<rparr>, cn_loops = {#C_Pushing#}, cn_flight = {#E_Pushed (V_Int 7), E_Pushed (V_Int 8)#},
      cn_starter = \<lparr>cs_counter = 0, pending_status = 0, max_pending = 0\<rparr>, cn_reduce = \<lparr>initial_value = 0, red_result = 0\<rparr>, cn_out = [], cn_arrived = [], cn_overlap = False\<rparr>)"
    using run_con_loop [OF r4, of C_Check] by (simp add: con_turns add_mset_commute)
  have "?run s \<Longrightarrow> cn_flight s = {#E_Pushed (V_Int 7), E_Pushed (V_Int 8)#} \<Longrightarrow> cn_arrived s = []
      \<Longrightarrow> red_result (cn_reduce s) = 0 \<Longrightarrow> ?thesis" for s
    using overlapping_runs_lose_an_element [of s "V_Int 7" "V_Int 8" id count_values "\<lambda>x. S_Value [x]"]
    by (auto simp: count_values_def intro: rtranclp_trans)
  from this [OF r5] show ?thesis by simp
qed

end
