(* ===== verification/Sequential.thy ===== *)
theory Sequential
  imports Prelude "HOL-Library.Multiset"
begin

section \<open>sequential\<close>

text \<open>
  \<^verbatim>\<open>src/pump/sender/sequential.hh\<close>: elements that arrive concurrently are cached and
  handed downstream one at a time. A state word (idle, busy, done, finished) and
  the flag word \<open>drain_flag\<close> decide which thread drains the cache. The model is a
  step relation over the program points of \<open>enqueue_and_drain\<close>, \<open>drain_single\<close>
  and \<open>push_done\<close>, one step per access to a shared word; the cache is the bounded
  FIFO queue that \<open>Mpmc_Queue\<close> shows the \<^verbatim>\<open>mpmc::queue\<close> to be. Every element downstream
  polls when it is done with, on whatever thread. \<open>sq_todo\<close> are the elements still
  to arrive, \<open>sq_dropped\<close> those that found the cache full, \<open>sq_entered\<close> the others.
\<close>

definition STATE_IDLE :: u32 where "STATE_IDLE = 0"
definition STATE_BUSY :: u32 where "STATE_BUSY = 1"
definition STATE_DONE :: u32 where "STATE_DONE = 2"
definition DRAIN_ACTIVE :: u32 where "DRAIN_ACTIVE = 1"
definition DRAIN_REQUESTED :: u32 where "DRAIN_REQUESTED = 2"

lemmas seq_consts = STATE_IDLE_def STATE_BUSY_def STATE_DONE_def DRAIN_ACTIVE_def DRAIN_REQUESTED_def

text \<open>
  \<open>P_Try\<close> is behind the enqueue; the \<open>D_\<close> points are those of \<open>drain_single\<close> in program
  order; \<open>W_Going x\<close> is the element \<open>x\<close> downstream.
\<close>

datatype 'a seq_agent =
    P_Try
  | D_Start
  | D_Loop
  | D_Mark 'a
  | D_Push 'a
  | D_Clear
  | D_Empty
  | D_Late
  | D_Final
  | D_Idle u32
  | D_Recheck
  | D_Recheck_State
  | D_Retake
  | W_Going 'a

record 'a source_cache =
  sq_cache :: "'a list"
  sq_state :: u32
  sq_drain_flag :: u32

record 'a seq_state = "'a source_cache" +
  sq_agents :: "'a seq_agent multiset"
  sq_todo :: "'a multiset"
  sq_entered :: "'a list"
  sq_dropped :: "'a list"
  sq_delivered :: "'a list"
  sq_signalled :: bool
  sq_dones :: nat

definition source_cache_reset :: "'a seq_state \<Rightarrow> 'a seq_state" where
  "source_cache_reset s = s\<lparr>sq_state := STATE_IDLE, sq_drain_flag := 0\<rparr>"

definition seq_new :: "'a multiset \<Rightarrow> 'a seq_state" where
  "seq_new todo =
     source_cache_reset \<lparr>sq_cache = [], sq_state = 0, sq_drain_flag = 0, sq_agents = {#}, sq_todo = todo,
       sq_entered = [], sq_dropped = [], sq_delivered = [], sq_signalled = False, sq_dones = 0\<rparr>"

text \<open>\<open>enqueue_and_drain\<close> up to the enqueue, whose result is not looked at.\<close>

definition enqueue_to_cache :: "nat \<Rightarrow> 'a \<Rightarrow> 'a seq_state \<Rightarrow> bool \<times> 'a seq_state" where
  "enqueue_to_cache max_cache_size x s =
     (if length (sq_cache s) < max_cache_size
      then (True, s\<lparr>sq_cache := sq_cache s @ [x], sq_entered := sq_entered s @ [x]\<rparr>)
      else (False, s\<lparr>sq_dropped := sq_dropped s @ [x]\<rparr>))"

definition enqueue_and_drain :: "nat \<Rightarrow> 'a \<Rightarrow> 'a seq_state \<Rightarrow> 'a seq_state" where
  "enqueue_and_drain max_cache_size x s =
     (let (_, s) = enqueue_to_cache max_cache_size x (s\<lparr>sq_todo := sq_todo s - {#x#}\<rparr>) in
      s\<lparr>sq_agents := add_mset P_Try (sq_agents s)\<rparr>)"

definition cache_try_dequeue :: "'a seq_state \<Rightarrow> 'a option \<times> 'a seq_state" where
  "cache_try_dequeue s =
     (case sq_cache s of [] \<Rightarrow> (None, s) | x # xs \<Rightarrow> (Some x, s\<lparr>sq_cache := xs\<rparr>))"

definition goto :: "'a seq_agent \<Rightarrow> 'a seq_state \<Rightarrow> 'a seq_state" where
  "goto p s = s\<lparr>sq_agents := add_mset p (sq_agents s)\<rparr>"

definition push_done :: "'a seq_state \<Rightarrow> 'a seq_state" where
  "push_done s =
     (let prev = sq_state s; s = s\<lparr>sq_state := STATE_DONE, sq_signalled := True\<rparr> in
      if prev = STATE_IDLE then goto D_Start s else s)"

definition seq_turn :: "'a seq_agent \<Rightarrow> 'a seq_state \<Rightarrow> 'a seq_state" where
  "seq_turn p s =
     (let s = s\<lparr>sq_agents := sq_agents s - {#p#}\<rparr> in
      case p of
        P_Try \<Rightarrow> if sq_state s = STATE_IDLE then goto D_Start (s\<lparr>sq_state := STATE_BUSY\<rparr>) else s
      | D_Start \<Rightarrow>
          if sq_drain_flag s AND DRAIN_ACTIVE \<noteq> 0
          then s\<lparr>sq_drain_flag := sq_drain_flag s OR DRAIN_REQUESTED\<rparr>
          else goto D_Loop s
      | D_Loop \<Rightarrow>
          (case cache_try_dequeue s of
             (Some x, s) \<Rightarrow> goto (D_Mark x) s
           | (None, s) \<Rightarrow> goto D_Empty s)
      | D_Mark x \<Rightarrow> goto (D_Push x) (s\<lparr>sq_drain_flag := DRAIN_ACTIVE\<rparr>)
      | D_Push x \<Rightarrow> goto D_Clear (goto (W_Going x) s)
      | D_Clear \<Rightarrow>
          (let df = sq_drain_flag s; s = s\<lparr>sq_drain_flag := 0\<rparr> in
           if df AND DRAIN_REQUESTED \<noteq> 0 then goto D_Loop s else s)
      | D_Empty \<Rightarrow> if STATE_DONE \<le> sq_state s then goto D_Late s else goto (D_Idle (sq_state s)) s
      | D_Late \<Rightarrow>
          (case cache_try_dequeue s of
             (Some x, s) \<Rightarrow> goto (D_Mark x) s
           | (None, s) \<Rightarrow> goto D_Final s)
      | D_Final \<Rightarrow>
          if sq_state s = STATE_DONE
          then s\<lparr>sq_state := STATE_DONE OR STATE_BUSY, sq_dones := Suc (sq_dones s)\<rparr>
          else s
      | D_Idle st \<Rightarrow>
          if sq_state s = st then goto D_Recheck (s\<lparr>sq_state := STATE_IDLE\<rparr>) else goto D_Loop s
      | D_Recheck \<Rightarrow> if sq_cache s \<noteq> [] then goto D_Retake s else goto D_Recheck_State s
      | D_Recheck_State \<Rightarrow> if STATE_DONE \<le> sq_state s then goto D_Retake s else s
      | D_Retake \<Rightarrow> if sq_state s = STATE_IDLE then goto D_Loop (s\<lparr>sq_state := STATE_BUSY\<rparr>) else s
      | W_Going x \<Rightarrow> goto D_Start (s\<lparr>sq_delivered := sq_delivered s @ [x]\<rparr>))"

text \<open>The end of the stream comes once, after every element has arrived.\<close>

inductive seq_reach :: "nat \<Rightarrow> 'a multiset \<Rightarrow> 'a seq_state \<Rightarrow> bool" for cap src where
  seq_init: "seq_reach cap src (seq_new src)"
| seq_arrive: "seq_reach cap src s \<Longrightarrow> x \<in># sq_todo s \<Longrightarrow> seq_reach cap src (enqueue_and_drain cap x s)"
| seq_done: "seq_reach cap src s \<Longrightarrow> sq_todo s = {#} \<Longrightarrow> \<not> sq_signalled s \<Longrightarrow> seq_reach cap src (push_done s)"
| seq_agent: "seq_reach cap src s \<Longrightarrow> p \<in># sq_agents s \<Longrightarrow> seq_reach cap src (seq_turn p s)"

subsection \<open>The right to drain\<close>

text \<open>
  The right to drain is held by one drain loop, by the element downstream, or by
  a request noted in the flag; nobody holds it exactly while the state is idle
  or finished. A loop between its push and the clearing of its flag has handed the
  right to the element.
\<close>

fun holder :: "'a seq_agent \<Rightarrow> bool" where
  "holder P_Try \<longleftrightarrow> False"
| "holder D_Clear \<longleftrightarrow> False"
| "holder D_Recheck \<longleftrightarrow> False"
| "holder D_Recheck_State \<longleftrightarrow> False"
| "holder D_Retake \<longleftrightarrow> False"
| "holder p \<longleftrightarrow> True"

fun marked :: "'a seq_agent \<Rightarrow> bool" where
  "marked (D_Push x) \<longleftrightarrow> True"
| "marked D_Clear \<longleftrightarrow> True"
| "marked p \<longleftrightarrow> False"

fun carried :: "'a seq_agent \<Rightarrow> 'a list" where
  "carried (D_Mark x) = [x]"
| "carried (D_Push x) = [x]"
| "carried (W_Going x) = [x]"
| "carried p = []"

fun late :: "'a seq_agent \<Rightarrow> bool" where
  "late D_Late \<longleftrightarrow> True"
| "late D_Final \<longleftrightarrow> True"
| "late p \<longleftrightarrow> False"

definition waiting :: "'a seq_agent \<Rightarrow> bool" where
  "waiting p \<longleftrightarrow> (case p of D_Start \<Rightarrow> True | W_Going x \<Rightarrow> True | _ \<Rightarrow> False)"

definition holders :: "'a seq_agent multiset \<Rightarrow> 'a seq_agent multiset" where
  "holders A = filter_mset holder A"

definition marks :: "'a seq_agent multiset \<Rightarrow> nat" where
  "marks A = size (filter_mset marked A)"

lemma agent_counts [simp]:
  "holders {#} = {#}" "holders (add_mset p A) = (if holder p then add_mset p (holders A) else holders A)"
  "marks {#} = 0" "marks (add_mset p A) = (if marked p then 1 else 0) + marks A"
  by (simp_all add: holders_def marks_def)

definition seq_data :: "nat \<Rightarrow> 'a multiset \<Rightarrow> 'a list \<Rightarrow> 'a seq_state \<Rightarrow> bool" where
  "seq_data cap src it s \<longleftrightarrow> sq_entered s = sq_delivered s @ it @ sq_cache s
     \<and> mset (sq_entered s) + mset (sq_dropped s) + sq_todo s = src
     \<and> (sq_signalled s \<longleftrightarrow> 2 \<le> sq_state s) \<and> (sq_signalled s \<longrightarrow> sq_todo s = {#})
     \<and> sq_dones s = (if sq_state s = 3 then 1 else 0)
     \<and> (size src \<le> cap \<longrightarrow> sq_dropped s = [])"

inductive seq_conf :: "nat \<Rightarrow> 'a multiset \<Rightarrow> 'a seq_state \<Rightarrow> bool" for cap src where
  nobody: "holders (sq_agents s) = {#} \<Longrightarrow> sq_drain_flag s = 0 \<Longrightarrow> marks (sq_agents s) = 0
    \<Longrightarrow> sq_state s = 0 \<or> sq_state s = 3 \<and> sq_cache s = [] \<Longrightarrow> seq_data cap src [] s \<Longrightarrow> seq_conf cap src s"
| running: "holders (sq_agents s) = {#h#} \<Longrightarrow> marks (sq_agents s) \<le> 1
    \<Longrightarrow> sq_drain_flag s = (if marks (sq_agents s) = 1 then 1 else 0)
    \<Longrightarrow> D_Clear \<in># sq_agents s \<longrightarrow> waiting h \<Longrightarrow> sq_state s = 1 \<or> sq_state s = 2
    \<Longrightarrow> late h \<longrightarrow> sq_state s = 2 \<Longrightarrow> h = D_Final \<longrightarrow> sq_cache s = [] \<Longrightarrow> \<forall>v. h = D_Idle v \<longrightarrow> v = 1
    \<Longrightarrow> seq_data cap src (carried h) s \<Longrightarrow> seq_conf cap src s"
| requested: "holders (sq_agents s) = {#} \<Longrightarrow> sq_drain_flag s = 3 \<Longrightarrow> marks (sq_agents s) = 1
    \<Longrightarrow> sq_state s = 1 \<or> sq_state s = 2 \<Longrightarrow> seq_data cap src [] s \<Longrightarrow> seq_conf cap src s"

lemma marks_no_clear: "marks A = 0 \<Longrightarrow> D_Clear \<notin># A"
  by (auto simp: marks_def dest: multi_member_split)

lemma seq_new_conf: "seq_conf cap src (seq_new src)"
  by (rule nobody) (simp_all add: seq_new_def source_cache_reset_def seq_consts seq_data_def)

lemma enqueue_data:
  assumes "seq_data cap src it s" "x \<in># sq_todo s"
  shows "seq_data cap src it (enqueue_and_drain cap x s)"
proof -
  obtain M where M: "sq_todo s = add_mset x M" using assms(2) by (meson mset_add)
  have e: "sq_entered s = sq_delivered s @ it @ sq_cache s" "src = mset (sq_entered s) + mset (sq_dropped s) + add_mset x M"
    using assms(1) M by (auto simp: seq_data_def)
  have len: "size src = length (sq_entered s) + length (sq_dropped s) + Suc (size M)" "length (sq_cache s) \<le> length (sq_entered s)"
    using e by simp_all
  show ?thesis
  proof (cases "length (sq_cache s) < cap")
    case True
    with assms(1) M show ?thesis
      by (auto simp: seq_data_def enqueue_and_drain_def enqueue_to_cache_def)
  next
    case False
    then have "\<not> size src \<le> cap" using len by linarith
    with assms(1) M False show ?thesis
      by (auto simp: seq_data_def enqueue_and_drain_def enqueue_to_cache_def)
  qed
qed

lemma enqueue_fields:
  "sq_agents (enqueue_and_drain cap x s) = add_mset P_Try (sq_agents s)"
  "sq_state (enqueue_and_drain cap x s) = sq_state s" "sq_drain_flag (enqueue_and_drain cap x s) = sq_drain_flag s"
  by (simp_all add: enqueue_and_drain_def enqueue_to_cache_def)

lemma seq_data_open: "seq_data cap src it s \<Longrightarrow> sq_todo s \<noteq> {#} \<Longrightarrow> \<not> 2 \<le> sq_state s"
  by (auto simp: seq_data_def)

lemma enqueue_conf:
  assumes "seq_conf cap src s" "x \<in># sq_todo s"
  shows "seq_conf cap src (enqueue_and_drain cap x s)"
proof -
  have n: "sq_todo s \<noteq> {#}" using assms(2) by auto
  show ?thesis using assms(1)
  proof cases
    case nobody
    with n seq_data_open [of cap src "[]" s] have "sq_state s = 0" by auto
    with nobody show ?thesis by (intro seq_conf.nobody) (simp_all add: enqueue_fields enqueue_data assms(2))
  next
    case (running h)
    then have 1: "sq_state s = 1" using n seq_data_open [of cap src "carried h" s] by auto
    with running have "h \<noteq> D_Final" by auto
    with running 1 show ?thesis
      by (intro seq_conf.running [of _ h]) (simp_all add: enqueue_fields enqueue_data assms(2))
  next
    case requested
    then show ?thesis by (intro seq_conf.requested) (simp_all add: enqueue_fields enqueue_data assms(2))
  qed
qed

lemma push_done_conf:
  assumes "seq_conf cap src s" "sq_todo s = {#}" "\<not> sq_signalled s"
  shows "seq_conf cap src (push_done s)"
  using assms(1)
proof cases
  case nobody
  with assms(3) have "sq_state s = 0" by (auto simp: seq_data_def)
  with nobody assms(2) show ?thesis
    by (intro seq_conf.running [of _ D_Start])
      (auto simp: push_done_def goto_def seq_consts seq_data_def dest: marks_no_clear)
next
  case (running h)
  with assms(3) have "sq_state s = 1" by (auto simp: seq_data_def)
  with running assms(2) show ?thesis
    by (intro seq_conf.running [of _ h]) (auto simp: push_done_def seq_consts seq_data_def)
next
  case requested
  with assms(3) have "sq_state s = 1" by (auto simp: seq_data_def)
  with requested assms(2) show ?thesis
    by (intro seq_conf.requested) (auto simp: push_done_def seq_consts seq_data_def)
qed

lemmas seq_turns = seq_turn_def goto_def cache_try_dequeue_def seq_consts Let_def

lemma state_below_done [simp]: "\<not> (2 :: u32) \<le> 1"
  by (simp add: word_le_nat_alt)

lemma no_marks: "holders M = {#} \<Longrightarrow> D_Clear \<notin># M \<Longrightarrow> marks M = 0"
proof (induction M)
  case (add p M)
  then show ?case by (cases p) auto
qed simp

text \<open>The holder of the right steps.\<close>

lemma holder_turn:
  assumes A: "sq_agents s = add_mset h M" and h: "holder h" and c: "seq_conf cap src s"
  shows "seq_conf cap src (seq_turn h s)"
proof -
  have m: "holders M = {#}" "marks (sq_agents s) \<le> 1" "sq_drain_flag s = (if marks (sq_agents s) = 1 then 1 else 0)"
    "D_Clear \<in># sq_agents s \<longrightarrow> waiting h" "sq_state s = 1 \<or> sq_state s = 2" "late h \<longrightarrow> sq_state s = 2"
    "h = D_Final \<longrightarrow> sq_cache s = []" "\<forall>v. h = D_Idle v \<longrightarrow> v = 1" "seq_data cap src (carried h) s"
    using c by (cases; use A h in \<open>auto\<close>)+
  have nc: "D_Clear \<notin># M" if "\<not> waiting h" using m(4) A that by auto
  show ?thesis
  proof (cases h)
    case D_Start
    show ?thesis
    proof (cases "marks M = 1")
      case True
      with m A D_Start show ?thesis
        by (intro requested) (auto simp: seq_turns seq_data_def)
    next
      case False
      with m(2) A D_Start have "marks M = 0" by simp
      with m A D_Start show ?thesis
        by (intro running [of _ D_Loop]) (auto simp: seq_turns seq_data_def dest: marks_no_clear)
    qed
  next
    case D_Loop
    show ?thesis
    proof (cases "sq_cache s")
      case Nil
      with m A D_Loop nc show ?thesis
        by (intro running [of _ D_Empty]) (auto simp: seq_turns seq_data_def waiting_def)
    next
      case (Cons x xs)
      with m A D_Loop nc show ?thesis
        by (intro running [of _ "D_Mark x"]) (auto simp: seq_turns seq_data_def waiting_def)
    qed
  next
    case (D_Mark x)
    have "marks M = 0" using no_marks [OF m(1)] nc D_Mark by (auto simp: waiting_def)
    with m A D_Mark nc show ?thesis
      by (intro running [of _ "D_Push x"]) (auto simp: seq_turns seq_data_def waiting_def)
  next
    case (D_Push x)
    with m A have "marks M = 0" by simp
    with m A D_Push nc show ?thesis
      by (intro running [of _ "W_Going x"]) (auto simp: seq_turns seq_data_def waiting_def)
  next
    case D_Empty
    show ?thesis
    proof (cases "sq_state s = 2")
      case True
      with m A D_Empty nc show ?thesis
        by (intro running [of _ D_Late]) (auto simp: seq_turns seq_data_def waiting_def)
    next
      case False
      with m(5) have "sq_state s = 1" by simp
      with m A D_Empty nc show ?thesis
        by (intro running [of _ "D_Idle 1"]) (auto simp: seq_turns seq_data_def waiting_def)
    qed
  next
    case D_Late
    show ?thesis
    proof (cases "sq_cache s")
      case Nil
      with m A D_Late nc show ?thesis
        by (intro running [of _ D_Final]) (auto simp: seq_turns seq_data_def waiting_def)
    next
      case (Cons x xs)
      with m A D_Late nc show ?thesis
        by (intro running [of _ "D_Mark x"]) (auto simp: seq_turns seq_data_def waiting_def)
    qed
  next
    case (D_Idle v)
    show ?thesis
    proof (cases "sq_state s = 1")
      case True
      have "marks M = 0" using no_marks [OF m(1)] nc D_Idle by (auto simp: waiting_def)
      with m A D_Idle True show ?thesis
        by (intro nobody) (auto simp: seq_turns seq_data_def)
    next
      case False
      with m A D_Idle nc show ?thesis
        by (intro running [of _ D_Loop]) (auto simp: seq_turns seq_data_def waiting_def)
    qed
  next
    case (W_Going x)
    with m A show ?thesis
      by (intro running [of _ D_Start]) (auto simp: seq_turns seq_data_def waiting_def)
  next
    case D_Final
    have "marks M = 0" using no_marks [OF m(1)] nc D_Final by (auto simp: waiting_def)
    with m A D_Final show ?thesis
      by (intro nobody) (auto simp: seq_turns seq_data_def)
  qed (use h in auto)
qed

text \<open>The other program points step.\<close>

lemma drop_idle_agent:
  assumes A: "sq_agents s = add_mset p M" and p: "\<not> holder p" "\<not> marked p" and q: "\<not> holder q" "\<not> marked q"
    and c: "seq_conf cap src s"
  shows "seq_conf cap src (s\<lparr>sq_agents := M\<rparr>)" "seq_conf cap src (s\<lparr>sq_agents := add_mset q M\<rparr>)"
proof -
  have n: "p \<noteq> D_Clear" "q \<noteq> D_Clear" using p q by auto
  have "seq_conf cap src (s\<lparr>sq_agents := M\<rparr>) \<and> seq_conf cap src (s\<lparr>sq_agents := add_mset q M\<rparr>)"
    using c
  proof cases
    case nobody
    then show ?thesis using A p q by (intro conjI seq_conf.nobody) (auto simp: seq_data_def)
  next
    case (running h)
    then show ?thesis using A p q n
      by (intro conjI seq_conf.running [of _ h]) (auto simp: seq_data_def)
  next
    case requested
    then show ?thesis using A p q by (intro conjI seq_conf.requested) (auto simp: seq_data_def)
  qed
  then show "seq_conf cap src (s\<lparr>sq_agents := M\<rparr>)" "seq_conf cap src (s\<lparr>sq_agents := add_mset q M\<rparr>)" by simp_all
qed

lemma seize:
  assumes A: "sq_agents s = add_mset p M" and p: "\<not> holder p" "\<not> marked p" and st: "sq_state s = 0"
    and q: "q = D_Start \<or> q = D_Loop" and c: "seq_conf cap src s"
  shows "seq_conf cap src (s\<lparr>sq_state := 1, sq_agents := add_mset q M\<rparr>)"
  using c
proof cases
  case nobody
  then show ?thesis using A p q st
    by (intro seq_conf.running [of _ q]) (auto simp: seq_data_def dest: marks_no_clear)
qed (use st in auto)

lemma other_turn:
  assumes A: "sq_agents s = add_mset p M" and p: "\<not> holder p" and c: "seq_conf cap src s"
  shows "seq_conf cap src (seq_turn p s)"
proof (cases p)
  case P_Try
  have "seq_conf cap src (s\<lparr>sq_state := 1, sq_agents := add_mset D_Start M\<rparr>)" if "sq_state s = 0"
    using seize [OF A _ _ that _ c] P_Try by simp
  then show ?thesis using drop_idle_agent(1) [OF A _ _ _ _ c, of P_Try] A P_Try by (simp add: seq_turns)
next
  case D_Clear
  show ?thesis using c
  proof cases
    case nobody
    then show ?thesis using A D_Clear by simp
  next
    case (running h)
    then have "marks M = 0" using A D_Clear by simp
    then show ?thesis using running A D_Clear
      by (intro seq_conf.running [of _ h]) (auto simp: seq_turns seq_data_def dest: marks_no_clear)
  next
    case requested
    then have "marks M = 0" using A D_Clear by simp
    then show ?thesis using requested A D_Clear
      by (intro seq_conf.running [of _ D_Loop]) (auto simp: seq_turns seq_data_def dest: marks_no_clear)
  qed
next
  case D_Recheck
  then show ?thesis
    using drop_idle_agent(2) [OF A _ _ _ _ c, of D_Retake] drop_idle_agent(2) [OF A _ _ _ _ c, of D_Recheck_State] A
    by (simp add: seq_turns)
next
  case D_Recheck_State
  then show ?thesis
    using drop_idle_agent(2) [OF A _ _ _ _ c, of D_Retake] drop_idle_agent(1) [OF A _ _ _ _ c, of D_Retake] A
    by (simp add: seq_turns)
next
  case D_Retake
  have "seq_conf cap src (s\<lparr>sq_state := 1, sq_agents := add_mset D_Loop M\<rparr>)" if "sq_state s = 0"
    using seize [OF A _ _ that _ c] D_Retake by simp
  then show ?thesis using drop_idle_agent(1) [OF A _ _ _ _ c, of P_Try] A D_Retake by (simp add: seq_turns)
qed (use p in auto)

lemma seq_reach_conf: "seq_reach cap src s \<Longrightarrow> seq_conf cap src s"
proof (induction rule: seq_reach.induct)
  case seq_init
  show ?case by (rule seq_new_conf)
next
  case (seq_arrive s x)
  then show ?case by (intro enqueue_conf)
next
  case (seq_done s)
  then show ?case by (intro push_done_conf)
next
  case (seq_agent s p)
  then obtain M where "sq_agents s = add_mset p M" by (meson mset_add)
  then show ?case using seq_agent.IH holder_turn other_turn by blast
qed

fun is_going :: "'a seq_agent \<Rightarrow> bool" where
  "is_going (W_Going x) \<longleftrightarrow> True"
| "is_going p \<longleftrightarrow> False"

lemma going_holder: "is_going p \<Longrightarrow> holder p"
  by (cases p) auto

lemma going_le_holders: "size (filter_mset is_going A) \<le> size (holders A)"
  by (induction A) (auto simp: holders_def dest: going_holder)

lemma one_going: "seq_conf cap src s \<Longrightarrow> size (filter_mset is_going (sq_agents s)) \<le> 1"
  by (rule le_trans [OF going_le_holders]) (auto elim: seq_conf.cases)

text \<open>
  C16: the sequential stage delivers in order and completely. Under every
  interleaving of arrivals, drain loops, polls and the end of the stream, the
  elements delivered are a prefix of those that entered the cache, in the order
  they entered; at most one element is downstream; the end is signalled at most
  once, and only when everything that entered was delivered; nothing is dropped
  while the stream fits the cache; and when no thread has a step left after the
  end of the stream, the end was signalled.
\<close>

theorem sequential_in_order:
  assumes "seq_reach cap src s"
  shows "(\<exists>rest. sq_entered s = sq_delivered s @ rest)
    \<and> size (filter_mset is_going (sq_agents s)) \<le> 1
    \<and> sq_dones s \<le> 1
    \<and> (sq_dones s = 1 \<longrightarrow> sq_delivered s = sq_entered s \<and> mset (sq_entered s) + mset (sq_dropped s) = src)
    \<and> (size src \<le> cap \<longrightarrow> sq_dropped s = [])
    \<and> (sq_agents s = {#} \<and> sq_signalled s \<longrightarrow> sq_dones s = 1)"
proof -
  note c = seq_reach_conf [OF assms]
  have g: "size (filter_mset is_going (sq_agents s)) \<le> 1" by (rule one_going [OF c])
  from c show ?thesis
  proof cases
    case nobody
    then show ?thesis using g by (auto simp: seq_data_def simp del: One_nat_def)
  next
    case (running h)
    then show ?thesis using g by (auto simp: seq_data_def simp del: One_nat_def)
  next
    case requested
    then show ?thesis using g by (auto simp: seq_data_def simp del: One_nat_def)
  qed
qed

lemma sequential_in_order_witness:
  "\<exists>s. seq_reach 1024 {#5 :: nat#} s \<and> sq_delivered s = [5] \<and> sq_dones s \<le> 1"
proof -
  let ?s = "\<lambda>st df A td en dl. \<lparr>sq_cache = [], sq_state = st, sq_drain_flag = df, sq_agents = A, sq_todo = td,
    sq_entered = en, sq_dropped = [], sq_delivered = dl, sq_signalled = False, sq_dones = 0\<rparr> :: nat seq_state"
  have "seq_reach 1024 {#5 :: nat#} (seq_new {#5#})" by (rule seq_init)
  from seq_arrive [OF this, of 5]
  have "seq_reach 1024 {#5 :: nat#} ((?s 0 0 {#P_Try#} {#} [5] [])\<lparr>sq_cache := [5]\<rparr>)"
    by (simp add: seq_new_def source_cache_reset_def enqueue_and_drain_def enqueue_to_cache_def seq_consts)
  from seq_agent [OF this, of P_Try]
  have "seq_reach 1024 {#5 :: nat#} ((?s 1 0 {#D_Start#} {#} [5] [])\<lparr>sq_cache := [5]\<rparr>)" by (simp add: seq_turns)
  from seq_agent [OF this, of D_Start]
  have "seq_reach 1024 {#5 :: nat#} ((?s 1 0 {#D_Loop#} {#} [5] [])\<lparr>sq_cache := [5]\<rparr>)" by (simp add: seq_turns)
  from seq_agent [OF this, of D_Loop]
  have "seq_reach 1024 {#5 :: nat#} (?s 1 0 {#D_Mark 5#} {#} [5] [])" by (simp add: seq_turns)
  from seq_agent [OF this, of "D_Mark 5"]
  have "seq_reach 1024 {#5 :: nat#} (?s 1 1 {#D_Push 5#} {#} [5] [])" by (simp add: seq_turns)
  from seq_agent [OF this, of "D_Push 5"]
  have "seq_reach 1024 {#5 :: nat#} (?s 1 1 {#D_Clear, W_Going 5#} {#} [5] [])" by (simp add: seq_turns)
  from seq_agent [OF this, of "W_Going 5"]
  have r: "seq_reach 1024 {#5 :: nat#} (?s 1 1 {#D_Clear, D_Start#} {#} [5] [5])"
    by (simp add: seq_turns add_mset_commute)
  show ?thesis
    by (intro exI conjI, rule r) (use sequential_in_order [OF r] in simp_all)
qed

text \<open>
  An element is lost when the cache is full: the result of the enqueue is
  not looked at, and the element is never delivered.
\<close>

lemma full_cache_drops:
  "length (sq_cache s) = max_cache_size \<Longrightarrow>
     sq_dropped (enqueue_and_drain max_cache_size x s) = sq_dropped s @ [x]
     \<and> sq_entered (enqueue_and_drain max_cache_size x s) = sq_entered s"
  by (simp add: enqueue_and_drain_def enqueue_to_cache_def)

text \<open>
  The end of the stream can overtake a drain loop that has just given up the
  right: the end is pushed downstream, which deletes the stream's scope and lets
  the pipeline complete and free its operators, while the loop still has to look
  at the cache and at the state.
\<close>

lemma done_while_rechecking:
  "\<exists>s. seq_reach 1024 {#5 :: nat#} s \<and> sq_dones s = 1 \<and> D_Recheck \<in># sq_agents s"
proof -
  let ?s = "\<lambda>st df A td en dl sg dn. \<lparr>sq_cache = [], sq_state = st, sq_drain_flag = df, sq_agents = A, sq_todo = td,
    sq_entered = en, sq_dropped = [], sq_delivered = dl, sq_signalled = sg, sq_dones = dn\<rparr> :: nat seq_state"
  have "seq_reach 1024 {#5 :: nat#} (seq_new {#5#})" by (rule seq_init)
  from seq_arrive [OF this, of 5]
  have "seq_reach 1024 {#5 :: nat#} ((?s 0 0 {#P_Try#} {#} [5] [] False 0)\<lparr>sq_cache := [5]\<rparr>)"
    by (simp add: seq_new_def source_cache_reset_def enqueue_and_drain_def enqueue_to_cache_def seq_consts)
  from seq_agent [OF this, of P_Try]
  have "seq_reach 1024 {#5 :: nat#} ((?s 1 0 {#D_Start#} {#} [5] [] False 0)\<lparr>sq_cache := [5]\<rparr>)" by (simp add: seq_turns)
  from seq_agent [OF this, of D_Start]
  have "seq_reach 1024 {#5 :: nat#} ((?s 1 0 {#D_Loop#} {#} [5] [] False 0)\<lparr>sq_cache := [5]\<rparr>)" by (simp add: seq_turns)
  from seq_agent [OF this, of D_Loop]
  have "seq_reach 1024 {#5 :: nat#} (?s 1 0 {#D_Mark 5#} {#} [5] [] False 0)" by (simp add: seq_turns)
  from seq_agent [OF this, of "D_Mark 5"]
  have "seq_reach 1024 {#5 :: nat#} (?s 1 1 {#D_Push 5#} {#} [5] [] False 0)" by (simp add: seq_turns)
  from seq_agent [OF this, of "D_Push 5"]
  have "seq_reach 1024 {#5 :: nat#} (?s 1 1 {#D_Clear, W_Going 5#} {#} [5] [] False 0)" by (simp add: seq_turns)
  from seq_agent [OF this, of D_Clear]
  have "seq_reach 1024 {#5 :: nat#} (?s 1 0 {#W_Going 5#} {#} [5] [] False 0)" by (simp add: seq_turns)
  from seq_agent [OF this, of "W_Going 5"]
  have "seq_reach 1024 {#5 :: nat#} (?s 1 0 {#D_Start#} {#} [5] [5] False 0)" by (simp add: seq_turns)
  from seq_agent [OF this, of D_Start]
  have "seq_reach 1024 {#5 :: nat#} (?s 1 0 {#D_Loop#} {#} [5] [5] False 0)" by (simp add: seq_turns)
  from seq_agent [OF this, of D_Loop]
  have "seq_reach 1024 {#5 :: nat#} (?s 1 0 {#D_Empty#} {#} [5] [5] False 0)" by (simp add: seq_turns)
  from seq_agent [OF this, of D_Empty]
  have "seq_reach 1024 {#5 :: nat#} (?s 1 0 {#D_Idle 1#} {#} [5] [5] False 0)" by (simp add: seq_turns)
  from seq_agent [OF this, of "D_Idle 1"]
  have "seq_reach 1024 {#5 :: nat#} (?s 0 0 {#D_Recheck#} {#} [5] [5] False 0)" by (simp add: seq_turns)
  from seq_done [OF this]
  have "seq_reach 1024 {#5 :: nat#} (?s 2 0 {#D_Start, D_Recheck#} {#} [5] [5] True 0)"
    by (simp add: push_done_def goto_def seq_consts)
  from seq_agent [OF this, of D_Start]
  have "seq_reach 1024 {#5 :: nat#} (?s 2 0 {#D_Loop, D_Recheck#} {#} [5] [5] True 0)" by (simp add: seq_turns)
  from seq_agent [OF this, of D_Loop]
  have "seq_reach 1024 {#5 :: nat#} (?s 2 0 {#D_Empty, D_Recheck#} {#} [5] [5] True 0)" by (simp add: seq_turns)
  from seq_agent [OF this, of D_Empty]
  have "seq_reach 1024 {#5 :: nat#} (?s 2 0 {#D_Late, D_Recheck#} {#} [5] [5] True 0)" by (simp add: seq_turns)
  from seq_agent [OF this, of D_Late]
  have "seq_reach 1024 {#5 :: nat#} (?s 2 0 {#D_Final, D_Recheck#} {#} [5] [5] True 0)" by (simp add: seq_turns)
  from seq_agent [OF this, of D_Final]
  have "seq_reach 1024 {#5 :: nat#} (?s 3 0 {#D_Recheck#} {#} [5] [5] True 1)" by (simp add: seq_turns)
  then show ?thesis by (intro exI conjI) (assumption, simp_all)
qed

end
