(* ===== verification/When_All.thy ===== *)
theory When_All
  imports Prelude Pipeline "HOL-Library.Multiset"
begin

section \<open>when_all\<close>

text \<open>
  \<^verbatim>\<open>src/pump/sender/when_all.hh\<close>: the branches of a \<open>when_all\<close> run concurrently and
  put their results into one collector; an atomic countdown lets the last one
  push all results to the parent and delete the collector. The steps are those
  of the branches and of the starter, which may still be starting branches while
  others have finished. \<open>sigs\<close> are the signals with which the branches end; a
  branch produces at most one value.
\<close>

fun branch_result :: "signal \<Rightarrow> val" where
  "branch_result (S_Value []) = V_Null"
| "branch_result (S_Value (v # vs)) = v"
| "branch_result (S_Exc e) = V_Exc e"
| "branch_result S_Done = V_Mono"
| "branch_result S_Skip = V_Mono"

text \<open>
  \<open>A_Submit k\<close> starts the branch \<open>k\<close> next; \<open>A_Branch k\<close> runs; \<open>A_Set\<close> has stored its result and is
  about to count down.
\<close>

datatype all_agent = A_Submit nat | A_Branch nat | A_Set

record collector_wrapper =
  co_values :: "val list"
  done_count :: int

record all_state = collector_wrapper +
  al_agents :: "all_agent multiset"
  al_pushed :: "val list list"
  al_deleted :: nat

definition collector_new :: "nat \<Rightarrow> collector_wrapper" where
  "collector_new n = \<lparr>co_values = replicate n V_Mono, done_count = int n\<rparr>"

definition all_start :: "signal list \<Rightarrow> all_state" where
  "all_start sigs =
     collector_wrapper.extend (collector_new (length sigs)) \<lparr>al_agents = {#A_Submit 0#}, al_pushed = [], al_deleted = 0\<rparr>"

definition collect :: "nat \<Rightarrow> signal \<Rightarrow> all_state \<Rightarrow> all_state" where
  "collect i sig s = s\<lparr>co_values := (co_values s)[i := branch_result sig]\<rparr>"

definition on_set :: "all_state \<Rightarrow> all_state" where
  "on_set s =
     (let old = done_count s; s = s\<lparr>done_count := old - 1\<rparr> in
      if old = 1 then s\<lparr>al_pushed := al_pushed s @ [co_values s], al_deleted := Suc (al_deleted s)\<rparr> else s)"

definition submit_senders :: "nat \<Rightarrow> nat \<Rightarrow> all_state \<Rightarrow> all_state" where
  "submit_senders n k s =
     s\<lparr>al_agents := add_mset (A_Branch k) (if k + 1 < n then add_mset (A_Submit (k + 1)) (al_agents s) else al_agents s)\<rparr>"

definition all_turn :: "signal list \<Rightarrow> all_agent \<Rightarrow> all_state \<Rightarrow> all_state" where
  "all_turn sigs p s =
     (let s = s\<lparr>al_agents := al_agents s - {#p#}\<rparr> in
      case p of
        A_Submit k \<Rightarrow> submit_senders (length sigs) k s
      | A_Branch i \<Rightarrow> (collect i (sigs ! i) s)\<lparr>al_agents := add_mset A_Set (al_agents s)\<rparr>
      | A_Set \<Rightarrow> on_set s)"

inductive all_reach :: "signal list \<Rightarrow> all_state \<Rightarrow> bool" for sigs where
  all_init: "all_reach sigs (all_start sigs)"
| all_agent: "all_reach sigs s \<Longrightarrow> p \<in># al_agents s \<Longrightarrow> all_reach sigs (all_turn sigs p s)"

subsection \<open>The invariant\<close>

text \<open>
  \<open>unstarted\<close>, \<open>running\<close> and \<open>setting\<close> partition the branches that have not counted down; \<open>D\<close> are
  the indices whose result is stored.
\<close>

fun all_weight :: "nat \<Rightarrow> all_agent \<Rightarrow> nat" where
  "all_weight n (A_Submit k) = n - k"
| "all_weight n (A_Branch i) = 1"
| "all_weight n A_Set = 1"

definition open_branches :: "nat \<Rightarrow> all_agent multiset \<Rightarrow> nat" where
  "open_branches n A = sum_mset (image_mset (all_weight n) A)"

definition unset :: "nat \<Rightarrow> all_agent multiset \<Rightarrow> nat set" where
  "unset n A = {i. A_Branch i \<in># A \<or> (\<exists>k. A_Submit k \<in># A \<and> k \<le> i \<and> i < n)}"

definition all_inv :: "signal list \<Rightarrow> all_state \<Rightarrow> bool" where
  "all_inv sigs s \<longleftrightarrow>
     (let n = length sigs; A = al_agents s in
      length (co_values s) = n
      \<and> (\<forall>i < n. i \<notin> unset n A \<longrightarrow> co_values s ! i = branch_result (sigs ! i))
      \<and> (\<forall>k. A_Submit k \<in># A \<longrightarrow> k < n)
      \<and> (\<forall>i. A_Branch i \<in># A \<longrightarrow> i < n)
      \<and> done_count s = int (open_branches n A)
      \<and> al_pushed s = (if open_branches n A = 0 then [map branch_result sigs] else [])
      \<and> al_deleted s = (if open_branches n A = 0 then 1 else 0))"

lemma open_branches_add [simp]:
  "open_branches n {#} = 0" "open_branches n (add_mset p A) = all_weight n p + open_branches n A"
  by (simp_all add: open_branches_def)

lemma all_start_inv:
  assumes "sigs \<noteq> []" shows "all_inv sigs (all_start sigs)"
  using assms by (auto simp: all_inv_def all_start_def collector_new_def collector_wrapper.defs unset_def Let_def)

lemma all_turn_inv:
  assumes inv: "all_inv sigs s" and p: "p \<in># al_agents s"
  shows "all_inv sigs (all_turn sigs p s)"
proof -
  obtain M where M: "al_agents s = add_mset p M" using p by (meson mset_add)
  show ?thesis
  proof (cases p)
    case (A_Submit k)
    have k: "k < length sigs" using inv M A_Submit by (auto simp: all_inv_def Let_def)
    have u: "unset (length sigs) (al_agents (all_turn sigs p s)) = unset (length sigs) (al_agents s)"
      using k by (auto simp: unset_def all_turn_def submit_senders_def M A_Submit Let_def le_Suc_eq)
    have o: "open_branches (length sigs) (al_agents (all_turn sigs p s)) = open_branches (length sigs) (al_agents s)"
      using k by (auto simp: all_turn_def submit_senders_def M A_Submit Let_def)
    have f: "co_values (all_turn sigs p s) = co_values s" "done_count (all_turn sigs p s) = done_count s"
      "al_pushed (all_turn sigs p s) = al_pushed s" "al_deleted (all_turn sigs p s) = al_deleted s"
      by (simp_all add: all_turn_def submit_senders_def A_Submit Let_def)
    have "\<forall>j. A_Submit j \<in># al_agents (all_turn sigs p s) \<longrightarrow> j < length sigs"
      "\<forall>i. A_Branch i \<in># al_agents (all_turn sigs p s) \<longrightarrow> i < length sigs"
      using inv k by (auto simp: all_inv_def all_turn_def submit_senders_def M A_Submit Let_def split: if_splits)
    with inv show ?thesis unfolding all_inv_def Let_def u o f by blast
  next
    case (A_Branch i)
    have i: "i < length sigs" using inv M A_Branch by (auto simp: all_inv_def Let_def)
    have "j \<notin> unset (length sigs) (add_mset p M)" if "j \<notin> unset (length sigs) (add_mset A_Set M)" "j \<noteq> i" for j
      using that A_Branch by (auto simp: unset_def)
    with inv i show ?thesis
      by (auto simp: all_inv_def all_turn_def collect_def M A_Branch Let_def nth_list_update)
  next
    case A_Set
    have u: "unset (length sigs) (add_mset p M) = unset (length sigs) M" using A_Set by (auto simp: unset_def)
    show ?thesis
    proof (cases "open_branches (length sigs) M = 0")
      case True
      have "unset (length sigs) M = {}"
      proof -
        have "all_weight (length sigs) q = 0" if "q \<in># M" for q
          using True that by (auto simp: open_branches_def)
        moreover have "\<forall>k. A_Submit k \<in># M \<longrightarrow> k < length sigs" using inv M by (auto simp: all_inv_def Let_def)
        ultimately show ?thesis by (auto simp: unset_def) (fastforce, fastforce)
      qed
      then have "co_values s = map branch_result sigs"
        using inv u by (intro nth_equalityI) (auto simp: all_inv_def M Let_def)
      with inv u True A_Set show ?thesis
        by (auto simp: all_inv_def all_turn_def on_set_def M Let_def)
    next
      case False
      with inv u A_Set show ?thesis
        by (auto simp: all_inv_def all_turn_def on_set_def M Let_def)
    qed
  qed
qed

lemma all_reach_inv: "all_reach sigs s \<Longrightarrow> sigs \<noteq> [] \<Longrightarrow> all_inv sigs s"
  by (induction rule: all_reach.induct) (auto intro: all_start_inv all_turn_inv)

text \<open>
  C18: \<open>when_all\<close> completes once, with everything. However its branches interleave
  with each other and with the starting of the later ones, nothing is pushed to
  the parent while a branch is still to count down, then exactly one push
  happens, with the results of all branches in their order (a value, an exception
  or the empty result of a skip each), and the collector is deleted exactly once,
  when no branch can touch it any more.
\<close>

theorem when_all_collects:
  assumes "all_reach sigs s" and "sigs \<noteq> []"
  shows "(al_pushed s, al_deleted s) =
    (if al_agents s = {#} then ([map branch_result sigs], 1) else ([], 0))"
proof -
  have inv: "all_inv sigs s" using all_reach_inv [OF assms] .
  have "open_branches (length sigs) (al_agents s) = 0 \<longleftrightarrow> al_agents s = {#}"
  proof
    assume o: "open_branches (length sigs) (al_agents s) = 0"
    have "all_weight (length sigs) q \<noteq> 0" if "q \<in># al_agents s" for q
      using inv that by (cases q) (auto simp: all_inv_def Let_def)
    with o show "al_agents s = {#}" by (auto simp: open_branches_def)
  qed simp
  with inv show ?thesis by (simp add: all_inv_def Let_def)
qed

lemma when_all_collects_witness:
  "\<exists>s. all_reach [S_Value [V_Int 4], S_Skip] s \<and> al_pushed s = [[V_Int 4, V_Mono]] \<and> al_deleted s = 1"
proof -
  let ?s = "\<lambda>vs d A. \<lparr>co_values = vs, done_count = d, al_agents = A, al_pushed = [], al_deleted = 0\<rparr> :: all_state"
  let ?sigs = "[S_Value [V_Int 4], S_Skip]"
  have "all_reach ?sigs (?s [V_Mono, V_Mono] 2 {#A_Submit 0#})"
    using all_init [of ?sigs] by (simp add: all_start_def collector_new_def collector_wrapper.defs)
  from all_agent [OF this, of "A_Submit 0"]
  have "all_reach ?sigs (?s [V_Mono, V_Mono] 2 {#A_Branch 0, A_Submit 1#})" by (simp add: all_turn_def submit_senders_def)
  from all_agent [OF this, of "A_Branch 0"]
  have "all_reach ?sigs (?s [V_Int 4, V_Mono] 2 {#A_Set, A_Submit 1#})" by (simp add: all_turn_def collect_def)
  from all_agent [OF this, of A_Set]
  have "all_reach ?sigs (?s [V_Int 4, V_Mono] 1 {#A_Submit 1#})" by (simp add: all_turn_def on_set_def)
  from all_agent [OF this, of "A_Submit 1"]
  have "all_reach ?sigs (?s [V_Int 4, V_Mono] 1 {#A_Branch 1#})" by (simp add: all_turn_def submit_senders_def)
  from all_agent [OF this, of "A_Branch 1"]
  have "all_reach ?sigs (?s [V_Int 4, V_Mono] 1 {#A_Set#})" by (simp add: all_turn_def collect_def)
  from all_agent [OF this, of A_Set]
  have r: "all_reach ?sigs (all_turn ?sigs A_Set (?s [V_Int 4, V_Mono] 1 {#A_Set#}))" by simp
  have e: "al_agents (all_turn ?sigs A_Set (?s [V_Int 4, V_Mono] 1 {#A_Set#})) = {#}"
    by (simp add: all_turn_def on_set_def)
  show ?thesis by (intro exI conjI, rule r) (use when_all_collects [OF r] e in simp_all)
qed

end
