(* ===== verification/When_Any.thy ===== *)
theory When_Any
  imports Prelude When_All
begin

section \<open>when_any\<close>

text \<open>
  \<^verbatim>\<open>src/pump/sender/when_any.hh\<close>: the branches of a \<open>when_any\<close> race. One packed word
  holds a bit for the decided race, a bit for the stored result, a bit for the
  end of the starting phase and the number of references; the winner or the
  starter pushes, whichever comes second, and the last reference deletes the
  wrapper. \<open>ra_order\<close> records the order in which the branches signal. An exception
  that escapes while a branch is being started is the operation \<open>submit_throws\<close>.
\<close>

definition FINISHED_BIT :: u64 where "FINISHED_BIT = 2 ^ 63"
definition READY_BIT :: u64 where "READY_BIT = 2 ^ 62"
definition SUBMITTED_BIT :: u64 where "SUBMITTED_BIT = 2 ^ 61"
definition REF_MASK :: u64 where "REF_MASK = NOT (FINISHED_BIT OR READY_BIT OR SUBMITTED_BIT)"

datatype any_agent =
    R_Submit nat
  | R_Complete
  | R_Branch nat
  | R_Store nat
  | R_Ready
  | R_Release

record race_wrapper =
  ra_state :: u64
  winner_index :: u32
  ra_result :: val

record any_state = race_wrapper +
  ra_agents :: "any_agent multiset"
  ra_pushed :: "(u32 \<times> val) list"
  ra_deleted :: nat
  ra_order :: "nat list"

definition race_new :: "nat \<Rightarrow> race_wrapper" where
  "race_new branch_count = \<lparr>ra_state = of_nat branch_count + 1, winner_index = 0, ra_result = V_Mono\<rparr>"

definition any_start :: "signal list \<Rightarrow> any_state" where
  "any_start sigs =
     race_wrapper.extend (race_new (length sigs))
       \<lparr>ra_agents = {#R_Submit 0#}, ra_pushed = [], ra_deleted = 0, ra_order = []\<rparr>"

definition push_to_parent :: "any_state \<Rightarrow> any_state" where
  "push_to_parent s = s\<lparr>ra_pushed := ra_pushed s @ [(winner_index s, ra_result s)]\<rparr>"

definition release_ref :: "any_state \<Rightarrow> any_state" where
  "release_ref s =
     (let old = ra_state s; s = s\<lparr>ra_state := old - 1\<rparr> in
      if old AND REF_MASK = 1 then s\<lparr>ra_deleted := Suc (ra_deleted s)\<rparr> else s)"

definition signal_ready :: "any_state \<Rightarrow> any_state" where
  "signal_ready s =
     (let old = ra_state s; s = s\<lparr>ra_state := old OR READY_BIT\<rparr> in
      if old AND SUBMITTED_BIT \<noteq> 0 then push_to_parent s else s)"

text \<open>\<open>complete_submit\<close> up to its \<open>release_ref\<close>, which is the next step of the starter.\<close>

definition complete_submit :: "any_state \<Rightarrow> any_state" where
  "complete_submit s =
     (let old = ra_state s; s = s\<lparr>ra_state := old OR SUBMITTED_BIT\<rparr> in
      if old AND READY_BIT \<noteq> 0 then push_to_parent s else s)"

text \<open>\<open>set_value\<close>, \<open>set_error\<close>, \<open>set_done\<close> and \<open>set_skip\<close>: entering the race, and storing the result.\<close>

definition race_enter :: "nat \<Rightarrow> any_state \<Rightarrow> any_state" where
  "race_enter i s =
     (let old = ra_state s in
      s\<lparr>ra_state := old OR FINISHED_BIT, ra_order := ra_order s @ [i],
        ra_agents := add_mset (if old AND FINISHED_BIT = 0 then R_Store i else R_Release) (ra_agents s)\<rparr>)"

definition race_store :: "nat \<Rightarrow> signal \<Rightarrow> any_state \<Rightarrow> any_state" where
  "race_store i sig s = s\<lparr>winner_index := of_nat i, ra_result := branch_result sig\<rparr>"

definition any_goto :: "any_agent \<Rightarrow> any_state \<Rightarrow> any_state" where
  "any_goto p s = s\<lparr>ra_agents := add_mset p (ra_agents s)\<rparr>"

definition any_turn :: "signal list \<Rightarrow> any_agent \<Rightarrow> any_state \<Rightarrow> any_state" where
  "any_turn sigs p s =
     (let s = s\<lparr>ra_agents := ra_agents s - {#p#}\<rparr> in
      case p of
        R_Submit k \<Rightarrow>
          any_goto (R_Branch k) (any_goto (if k + 1 < length sigs then R_Submit (k + 1) else R_Complete) s)
      | R_Branch i \<Rightarrow> race_enter i s
      | R_Store i \<Rightarrow> any_goto R_Ready (race_store i (sigs ! i) s)
      | R_Ready \<Rightarrow> any_goto R_Release (signal_ready s)
      | R_Complete \<Rightarrow> any_goto R_Release (complete_submit s)
      | R_Release \<Rightarrow> release_ref s)"

inductive any_reach :: "signal list \<Rightarrow> any_state \<Rightarrow> bool" for sigs where
  any_init: "any_reach sigs (any_start sigs)"
| any_agent: "any_reach sigs s \<Longrightarrow> p \<in># ra_agents s \<Longrightarrow> any_reach sigs (any_turn sigs p s)"

subsection \<open>The packed word\<close>

definition race_word :: "bool \<Rightarrow> bool \<Rightarrow> bool \<Rightarrow> nat \<Rightarrow> u64" where
  "race_word fin rdy sub n =
     (if fin then FINISHED_BIT else 0) OR (if rdy then READY_BIT else 0) OR (if sub then SUBMITTED_BIT else 0) OR of_nat n"

lemma bit_of_nat_high: "n < 2 ^ 61 \<Longrightarrow> 61 \<le> i \<Longrightarrow> \<not> bit (of_nat n :: u64) i"
proof
  assume n: "n < 2 ^ 61" and i: "61 \<le> i" and b: "bit (of_nat n :: u64) i"
  from b have "bit n i" by (simp add: bit_of_nat_iff)
  moreover have "n div 2 ^ i = 0" using n i power_increasing [of 61 i "2 :: nat"] by simp
  ultimately show False by (simp add: bit_iff_odd)
qed

lemma bit_powers:
  "bit (2 ^ 63 :: u64) i \<longleftrightarrow> i = 63" "bit (2 ^ 62 :: u64) i \<longleftrightarrow> i = 62" "bit (2 ^ 61 :: u64) i \<longleftrightarrow> i = 61"
  using bit_imp_le_length [of "2 ^ 63 :: u64" i] bit_imp_le_length [of "2 ^ 62 :: u64" i] bit_imp_le_length [of "2 ^ 61 :: u64" i]
  by (auto simp only: bit_exp_iff possible_bit_word len_bit0 len_num1)

lemma race_word_tests:
  assumes "n < 2 ^ 61"
  shows "race_word fin rdy sub n AND FINISHED_BIT = 0 \<longleftrightarrow> \<not> fin" "race_word fin rdy sub n AND READY_BIT = 0 \<longleftrightarrow> \<not> rdy"
    "race_word fin rdy sub n AND SUBMITTED_BIT = 0 \<longleftrightarrow> \<not> sub"
proof -
  have b: "bit (race_word fin rdy sub n) 63 \<longleftrightarrow> fin" "bit (race_word fin rdy sub n) 62 \<longleftrightarrow> rdy"
    "bit (race_word fin rdy sub n) 61 \<longleftrightarrow> sub"
    unfolding race_word_def FINISHED_BIT_def READY_BIT_def SUBMITTED_BIT_def
    using bit_of_nat_high [OF assms] by (auto simp only: bit_or_iff bit_powers bit_0_eq bot_apply split: if_splits) auto
  show "race_word fin rdy sub n AND FINISHED_BIT = 0 \<longleftrightarrow> \<not> fin" "race_word fin rdy sub n AND READY_BIT = 0 \<longleftrightarrow> \<not> rdy"
    "race_word fin rdy sub n AND SUBMITTED_BIT = 0 \<longleftrightarrow> \<not> sub"
    unfolding FINISHED_BIT_def READY_BIT_def SUBMITTED_BIT_def and_exp_eq_0_iff_not_bit b by simp_all
qed

lemma race_word_set:
  "race_word fin rdy sub n OR FINISHED_BIT = race_word True rdy sub n"
  "race_word fin rdy sub n OR READY_BIT = race_word fin True sub n"
  "race_word fin rdy sub n OR SUBMITTED_BIT = race_word fin rdy True n"
  by (auto simp: race_word_def or.assoc or.commute or.left_commute)

text \<open>The reference count lies below the three bits, so counting down does not touch them.\<close>

lemma race_word_plus:
  assumes "n < 2 ^ 61"
  shows "race_word fin rdy sub n = race_word fin rdy sub 0 + of_nat n"
proof -
  have "race_word fin rdy sub 0 AND of_nat n = 0"
  proof (rule bit_word_eqI)
    fix i assume "i < LENGTH(64)"
    show "bit (race_word fin rdy sub 0 AND of_nat n) i \<longleftrightarrow> bit (0 :: u64) i"
      unfolding race_word_def FINISHED_BIT_def READY_BIT_def SUBMITTED_BIT_def
      using bit_of_nat_high [OF assms, of i]
      by (auto simp only: bit_or_iff bit_and_iff bit_powers bit_0_eq bot_apply of_nat_0 split: if_splits) auto
  qed
  moreover have "race_word fin rdy sub n = race_word fin rdy sub 0 OR of_nat n"
    by (simp add: race_word_def or.assoc)
  ultimately show ?thesis
    using word_plus_and_or [of "race_word fin rdy sub 0" "of_nat n"] by simp
qed

lemma race_word_sub:
  assumes "Suc n < 2 ^ 61"
  shows "race_word fin rdy sub (Suc n) - 1 = race_word fin rdy sub n"
  using race_word_plus [of n fin rdy sub] race_word_plus [of "Suc n" fin rdy sub] assms by simp

lemma race_word_refs:
  assumes "n < 2 ^ 61"
  shows "race_word fin rdy sub n AND REF_MASK = of_nat n"
proof (rule bit_word_eqI)
  fix i assume i: "i < LENGTH(64)"
  show "bit (race_word fin rdy sub n AND REF_MASK) i \<longleftrightarrow> bit (of_nat n :: u64) i"
    unfolding race_word_def REF_MASK_def FINISHED_BIT_def READY_BIT_def SUBMITTED_BIT_def
    using bit_of_nat_high [OF assms, of i] i
    by (auto simp only: bit_or_iff bit_and_iff bit_not_iff bit_powers bit_0_eq bot_apply possible_bit_word split: if_splits) auto
qed

lemma race_last_ref:
  assumes "n < 2 ^ 61"
  shows "race_word fin rdy sub n AND REF_MASK = 1 \<longleftrightarrow> n = 1"
proof -
  have "(of_nat n :: u64) = of_nat 1 \<longleftrightarrow> n = 1"
    unfolding word_of_nat_eq_iff using assms by (simp add: take_bit_nat_eq_self)
  then show ?thesis using race_word_refs [OF assms] by simp
qed

subsection \<open>The invariant\<close>

fun starter :: "any_agent \<Rightarrow> bool" where
  "starter (R_Submit k) \<longleftrightarrow> True"
| "starter R_Complete \<longleftrightarrow> True"
| "starter p \<longleftrightarrow> False"

fun winner :: "any_agent \<Rightarrow> bool" where
  "winner (R_Store i) \<longleftrightarrow> True"
| "winner R_Ready \<longleftrightarrow> True"
| "winner p \<longleftrightarrow> False"

fun ref_weight :: "nat \<Rightarrow> any_agent \<Rightarrow> nat" where
  "ref_weight n (R_Submit k) = 1 + (n - k)"
| "ref_weight n p = 1"

fun racing_weight :: "nat \<Rightarrow> any_agent \<Rightarrow> nat" where
  "racing_weight n (R_Submit k) = n - k"
| "racing_weight n (R_Branch i) = 1"
| "racing_weight n p = 0"

definition refs :: "nat \<Rightarrow> any_agent multiset \<Rightarrow> nat" where
  "refs n A = sum_mset (image_mset (ref_weight n) A)"

definition racing :: "nat \<Rightarrow> any_agent multiset \<Rightarrow> nat" where
  "racing n A = sum_mset (image_mset (racing_weight n) A)"

definition agents_of :: "(any_agent \<Rightarrow> bool) \<Rightarrow> any_agent multiset \<Rightarrow> nat" where
  "agents_of P A = size (filter_mset P A)"

lemma race_counts [simp]:
  "refs n {#} = 0" "refs n (add_mset p A) = ref_weight n p + refs n A"
  "racing n {#} = 0" "racing n (add_mset p A) = racing_weight n p + racing n A"
  "agents_of P {#} = 0" "agents_of P (add_mset p A) = (if P p then 1 else 0) + agents_of P A"
  by (simp_all add: refs_def racing_def agents_of_def)

definition first_result :: "signal list \<Rightarrow> nat list \<Rightarrow> u32 \<times> val" where
  "first_result sigs order = (of_nat (hd order), branch_result (sigs ! hd order))"

definition any_conf :: "signal list \<Rightarrow> bool \<Rightarrow> bool \<Rightarrow> bool \<Rightarrow> any_state \<Rightarrow> bool" where
  "any_conf sigs fin rdy sub s \<longleftrightarrow>
     ra_state s = race_word fin rdy sub (refs (length sigs) (ra_agents s))
     \<and> refs (length sigs) (ra_agents s) \<le> length sigs + 1
     \<and> (\<forall>k. R_Submit k \<in># ra_agents s \<longrightarrow> k < length sigs)
     \<and> agents_of starter (ra_agents s) = (if sub then 0 else 1)
     \<and> agents_of winner (ra_agents s) = (if fin \<and> \<not> rdy then 1 else 0)
     \<and> (rdy \<longrightarrow> fin) \<and> (fin \<longleftrightarrow> ra_order s \<noteq> [])
     \<and> (\<not> fin \<longrightarrow> racing (length sigs) (ra_agents s) = length sigs)
     \<and> (\<forall>i. R_Store i \<in># ra_agents s \<longrightarrow> i = hd (ra_order s))
     \<and> (rdy \<or> R_Ready \<in># ra_agents s \<longrightarrow> (winner_index s, ra_result s) = first_result sigs (ra_order s))
     \<and> ra_pushed s = (if rdy \<and> sub then [first_result sigs (ra_order s)] else [])
     \<and> ra_deleted s = (if refs (length sigs) (ra_agents s) = 0 then 1 else 0)"

lemma any_confI:
  assumes "ra_state s = race_word fin rdy sub (refs (length sigs) (ra_agents s))"
    and "refs (length sigs) (ra_agents s) \<le> length sigs + 1"
    and "\<And>k. R_Submit k \<in># ra_agents s \<Longrightarrow> k < length sigs"
    and "agents_of starter (ra_agents s) = (if sub then 0 else 1)"
    and "agents_of winner (ra_agents s) = (if fin \<and> \<not> rdy then 1 else 0)"
    and "rdy \<Longrightarrow> fin" "fin \<longleftrightarrow> ra_order s \<noteq> []"
    and "\<not> fin \<Longrightarrow> racing (length sigs) (ra_agents s) = length sigs"
    and "\<And>i. R_Store i \<in># ra_agents s \<Longrightarrow> i = hd (ra_order s)"
    and "rdy \<or> R_Ready \<in># ra_agents s \<Longrightarrow> (winner_index s, ra_result s) = first_result sigs (ra_order s)"
    and "ra_pushed s = (if rdy \<and> sub then [first_result sigs (ra_order s)] else [])"
    and "ra_deleted s = (if refs (length sigs) (ra_agents s) = 0 then 1 else 0)"
  shows "any_conf sigs fin rdy sub s"
  using assms unfolding any_conf_def by blast

definition any_inv :: "signal list \<Rightarrow> any_state \<Rightarrow> bool" where
  "any_inv sigs s \<longleftrightarrow> (\<exists>fin rdy sub. any_conf sigs fin rdy sub s)"

lemma any_start_inv:
  assumes "sigs \<noteq> []" shows "any_inv sigs (any_start sigs)"
proof -
  have "any_conf sigs False False False (any_start sigs)"
    using assms by (simp add: any_conf_def any_start_def race_new_def race_wrapper.defs race_word_def add.commute)
  then show ?thesis by (auto simp: any_inv_def)
qed

lemma agents_of_member: "p \<in># A \<Longrightarrow> P p \<Longrightarrow> agents_of P A \<noteq> 0"
  by (auto simp: agents_of_def)

lemma no_winner: "agents_of winner M = 0 \<Longrightarrow> R_Store j \<notin># M" "agents_of winner M = 0 \<Longrightarrow> R_Ready \<notin># M"
  using agents_of_member [of "R_Store j" M winner] agents_of_member [of R_Ready M winner] by auto

lemma any_turn_inv:
  assumes inv: "any_inv sigs s" and p: "p \<in># ra_agents s" and n: "length sigs < 2 ^ 32"
  shows "any_inv sigs (any_turn sigs p s)"
proof -
  obtain M where M: "ra_agents s = add_mset p M" using p by (meson mset_add)
  from inv obtain fin rdy sub where c: "any_conf sigs fin rdy sub s" by (auto simp: any_inv_def)
  let ?n = "length sigs"
  have st: "ra_state s = race_word fin rdy sub (refs ?n (add_mset p M))" and le: "refs ?n (add_mset p M) \<le> ?n + 1"
    using c M by (simp_all add: any_conf_def)
  have small: "refs ?n (add_mset p M) < 2 ^ 61"
    using le n by simp
  note tests = race_word_tests [OF small, of fin rdy sub]
  show ?thesis
  proof (cases p)
    case (R_Submit k)
    have k: "k < ?n" using c M R_Submit by (auto simp: any_conf_def)
    define q where "q = (if k + 1 < ?n then R_Submit (k + 1) else R_Complete)"
    define A where "A = add_mset (R_Branch k) (add_mset q M)"
    have t: "any_turn sigs p s = s\<lparr>ra_agents := A\<rparr>"
      by (simp add: any_turn_def any_goto_def M R_Submit A_def q_def Let_def)
    have q: "ref_weight ?n q = ?n - k" "racing_weight ?n q = ?n - k - 1" "starter q" "\<not> winner q"
      using k by (auto simp: q_def)
    have e: "refs ?n A = refs ?n (ra_agents s)" "racing ?n A = racing ?n (ra_agents s)"
      "agents_of starter A = agents_of starter (ra_agents s)" "agents_of winner A = agents_of winner (ra_agents s)"
      using k q by (simp_all add: A_def M R_Submit)
    have m: "R_Submit j \<in># A \<Longrightarrow> j < ?n" "R_Store i \<in># A \<Longrightarrow> R_Store i \<in># ra_agents s" "R_Ready \<in># A \<Longrightarrow> R_Ready \<in># ra_agents s" for i j
      using c M by (auto simp: A_def q_def any_conf_def split: if_splits)
    have "any_conf sigs fin rdy sub (s\<lparr>ra_agents := A\<rparr>)"
      using c m unfolding any_conf_def by (simp add: e) blast
    then have "any_conf sigs fin rdy sub (any_turn sigs p s)" unfolding t .
    then show ?thesis by (auto simp: any_inv_def)
  next
    case (R_Branch i)
    have d: "ra_deleted s = 0" using c M R_Branch by (simp add: any_conf_def)
    show ?thesis
    proof (cases fin)
      case True
      then have t: "any_turn sigs p s = s\<lparr>ra_order := ra_order s @ [i], ra_agents := add_mset R_Release M\<rparr>"
        using tests(1) by (simp add: any_turn_def race_enter_def st M R_Branch race_word_set Let_def)
      have o: "ra_order s \<noteq> []" "first_result sigs (ra_order s @ [i]) = first_result sigs (ra_order s)"
        using c True by (simp_all add: any_conf_def first_result_def)
      have "any_conf sigs fin rdy sub (any_turn sigs p s)" unfolding t
        by (rule any_confI) (use c M R_Branch True o in \<open>simp_all add: any_conf_def\<close>)
      then show ?thesis by (auto simp: any_inv_def)
    next
      case False
      then have t: "any_turn sigs p s = s\<lparr>ra_state := race_word True rdy sub (refs ?n (add_mset p M)),
          ra_order := ra_order s @ [i], ra_agents := add_mset (R_Store i) M\<rparr>"
        using tests(1) by (simp add: any_turn_def race_enter_def st M R_Branch race_word_set Let_def)
      have o: "ra_order s = []" "\<not> rdy" "agents_of winner M = 0"
        using c False M R_Branch by (auto simp: any_conf_def)
      have m: "R_Store j \<notin># M" "R_Ready \<notin># M" for j
        using o(3) no_winner by auto
      have "any_conf sigs True False sub (any_turn sigs p s)" unfolding t
        by (rule any_confI) (use c M R_Branch False o m in \<open>simp_all add: any_conf_def\<close>)
      then show ?thesis by (auto simp: any_inv_def)
    qed
  next
    case (R_Store i)
    have w: "fin" "\<not> rdy" "agents_of winner M = 0" "i = hd (ra_order s)" "ra_deleted s = 0"
      using c M R_Store by (auto simp: any_conf_def split: if_splits)
    then have m: "R_Store j \<notin># M" "R_Ready \<notin># M" for j
      using no_winner by auto
    have t: "any_turn sigs p s = s\<lparr>winner_index := of_nat i, ra_result := branch_result (sigs ! i), ra_agents := add_mset R_Ready M\<rparr>"
      by (simp add: any_turn_def any_goto_def race_store_def M R_Store Let_def)
    have "any_conf sigs fin rdy sub (any_turn sigs p s)" unfolding t
      by (rule any_confI) (use c M R_Store w m in \<open>simp_all add: any_conf_def first_result_def\<close>)
    then show ?thesis by (auto simp: any_inv_def)
  next
    case R_Ready
    have w: "fin" "\<not> rdy" "agents_of winner M = 0" "(winner_index s, ra_result s) = first_result sigs (ra_order s)"
      "ra_pushed s = []" "ra_deleted s = 0"
      using c M R_Ready by (auto simp: any_conf_def split: if_splits)
    then have m: "R_Store j \<notin># M" "R_Ready \<notin># M" for j
      using no_winner by auto
    have t: "any_turn sigs p s = s\<lparr>ra_state := race_word fin True sub (refs ?n (add_mset p M)),
        ra_pushed := (if sub then [first_result sigs (ra_order s)] else []), ra_agents := add_mset R_Release M\<rparr>"
      using tests(3) w
      by (simp add: any_turn_def any_goto_def signal_ready_def push_to_parent_def st M R_Ready race_word_set Let_def)
    have "any_conf sigs fin True sub (any_turn sigs p s)" unfolding t
      by (rule any_confI) (use c M R_Ready w m in \<open>simp_all add: any_conf_def\<close>)
    then show ?thesis by (auto simp: any_inv_def)
  next
    case R_Complete
    have w: "\<not> sub" "ra_pushed s = []" "ra_deleted s = 0" "rdy \<Longrightarrow> (winner_index s, ra_result s) = first_result sigs (ra_order s)"
      using c M R_Complete by (auto simp: any_conf_def split: if_splits)
    have t: "any_turn sigs p s = s\<lparr>ra_state := race_word fin rdy True (refs ?n (add_mset p M)),
        ra_pushed := (if rdy then [first_result sigs (ra_order s)] else []), ra_agents := add_mset R_Release M\<rparr>"
      using tests(2) w
      by (simp add: any_turn_def any_goto_def complete_submit_def push_to_parent_def st M R_Complete race_word_set Let_def)
    have "any_conf sigs fin rdy True (any_turn sigs p s)" unfolding t
      by (rule any_confI) (use c M R_Complete w in \<open>simp_all add: any_conf_def\<close>)
    then show ?thesis by (auto simp: any_inv_def)
  next
    case R_Release
    have r: "race_word fin rdy sub (refs ?n (add_mset p M)) - 1 = race_word fin rdy sub (refs ?n M)"
      using race_word_sub [of "refs ?n M" fin rdy sub] small R_Release by simp
    have d: "ra_deleted s = 0" using c M R_Release by (simp add: any_conf_def)
    have t: "any_turn sigs p s = s\<lparr>ra_state := race_word fin rdy sub (refs ?n M),
        ra_deleted := (if refs ?n M = 0 then 1 else 0), ra_agents := M\<rparr>"
      using race_last_ref [OF small, of fin rdy sub] r R_Release d
      by (cases "refs ?n M = 0") (simp_all add: any_turn_def release_ref_def st M Let_def)
    have "any_conf sigs fin rdy sub (any_turn sigs p s)" unfolding t
      by (rule any_confI) (use c M R_Release in \<open>simp_all add: any_conf_def\<close>)
    then show ?thesis by (auto simp: any_inv_def)
  qed
qed

lemma any_reach_inv: "any_reach sigs s \<Longrightarrow> sigs \<noteq> [] \<Longrightarrow> length sigs < 2 ^ 32 \<Longrightarrow> any_inv sigs s"
  by (induction rule: any_reach.induct) (auto intro: any_start_inv any_turn_inv)

text \<open>
  C19: \<open>when_any\<close> completes once, with its first branch. However the branches
  interleave with each other and with the starting of the later ones, at most one
  push to the parent happens, with the index and the result of the branch that
  signalled first; when nobody holds a reference any more it has happened, and
  the wrapper was deleted exactly once and not before.
\<close>

theorem when_any_first_wins:
  assumes "any_reach sigs s" and "sigs \<noteq> []" and "length sigs < 2 ^ 32"
  shows "(ra_pushed s = [] \<or> ra_pushed s = [(of_nat (hd (ra_order s)), branch_result (sigs ! hd (ra_order s)))])
    \<and> (ra_agents s = {#} \<longrightarrow> ra_pushed s \<noteq> [])
    \<and> ra_deleted s = (if ra_agents s = {#} then 1 else 0)"
proof -
  from any_reach_inv [OF assms] obtain fin rdy sub where c: "any_conf sigs fin rdy sub s" by (auto simp: any_inv_def)
  have e: "refs (length sigs) (ra_agents s) = 0 \<longleftrightarrow> ra_agents s = {#}"
  proof
    assume "refs (length sigs) (ra_agents s) = 0"
    moreover have "ref_weight (length sigs) q \<noteq> 0" for q by (cases q) auto
    ultimately show "ra_agents s = {#}" by (auto simp: refs_def)
  qed simp
  have "rdy \<and> sub" if "ra_agents s = {#}"
    using c that assms(2) by (auto simp: any_conf_def split: if_splits)
  with c e show ?thesis by (auto simp: any_conf_def first_result_def)
qed

lemma when_any_first_wins_witness:
  "\<exists>s. any_reach [S_Value [V_Int 4], S_Value [V_Int 5]] s \<and> ra_pushed s = [(1, V_Int 5)] \<and> R_Branch 0 \<in># ra_agents s
     \<and> ra_deleted s = 0"
proof -
  let ?s = "\<lambda>st w r A ps od. \<lparr>ra_state = st, winner_index = w, ra_result = r, ra_agents = A, ra_pushed = ps,
    ra_deleted = 0, ra_order = od\<rparr> :: any_state"
  let ?sigs = "[S_Value [V_Int 4], S_Value [V_Int 5]]"
  note turns = any_turn_def any_goto_def race_enter_def race_store_def signal_ready_def complete_submit_def
    push_to_parent_def FINISHED_BIT_def READY_BIT_def SUBMITTED_BIT_def
  have "any_reach ?sigs (?s 3 0 V_Mono {#R_Submit 0#} [] [])"
    using any_init [of ?sigs] by (simp add: any_start_def race_new_def race_wrapper.defs)
  from any_agent [OF this, of "R_Submit 0"]
  have "any_reach ?sigs (?s 3 0 V_Mono {#R_Branch 0, R_Submit 1#} [] [])" by (simp add: turns)
  from any_agent [OF this, of "R_Submit 1"]
  have "any_reach ?sigs (?s 3 0 V_Mono {#R_Branch 0, R_Branch 1, R_Complete#} [] [])"
    by (simp add: turns add_mset_commute)
  from any_agent [OF this, of "R_Branch 1"]
  have "any_reach ?sigs (?s (2 ^ 63 + 3) 0 V_Mono {#R_Branch 0, R_Store 1, R_Complete#} [] [1])"
    by (simp add: turns add_mset_commute)
  from any_agent [OF this, of "R_Store 1"]
  have "any_reach ?sigs (?s (2 ^ 63 + 3) 1 (V_Int 5) {#R_Branch 0, R_Ready, R_Complete#} [] [1])"
    by (simp add: turns add_mset_commute)
  from any_agent [OF this, of R_Ready]
  have "any_reach ?sigs (?s (2 ^ 63 + 2 ^ 62 + 3) 1 (V_Int 5) {#R_Branch 0, R_Release, R_Complete#} [] [1])"
    by (simp add: turns add_mset_commute)
  from any_agent [OF this, of R_Complete]
  have r: "any_reach ?sigs (?s (2 ^ 63 + 2 ^ 62 + 2 ^ 61 + 3) 1 (V_Int 5) {#R_Branch 0, R_Release, R_Release#} [(1, V_Int 5)] [1])"
    by (simp add: turns add_mset_commute)
  show ?thesis by (intro exI conjI, rule r) (use when_any_first_wins [OF r] in simp_all)
qed

text \<open>
  The witness also shows what outlives a \<open>when_any\<close>: the parent goes on while the
  branch 0 still runs, whose operators lie in the starter, that is in the scope
  that is freed when the parent's pipeline ends.
\<close>


subsection \<open>A branch throws while it is started\<close>

text \<open>
  The catch clause of \<open>submit_senders\<close>: branch \<open>k\<close> threw before it signalled; the references
  of this branch and of those not started are released, and the exception leaves \<open>start\<close>, so
  that \<open>complete_submit\<close> is not reached.
\<close>

definition submit_throws :: "signal list \<Rightarrow> nat \<Rightarrow> any_state \<Rightarrow> any_state" where
  "submit_throws sigs k s = (release_ref ^^ (length sigs - k)) (s\<lparr>ra_agents := ra_agents s - {#R_Submit k#}\<rparr>)"

text \<open>
  The reference of the starter itself stays: the count is one more than the branches still
  have, and the starting phase never ends.
\<close>

definition start_failed :: "signal list \<Rightarrow> any_state \<Rightarrow> bool" where
  "start_failed sigs s \<longleftrightarrow>
     (\<exists>fin rdy. ra_state s = race_word fin rdy False (Suc (refs (length sigs) (ra_agents s))))
     \<and> refs (length sigs) (ra_agents s) \<le> length sigs \<and> agents_of starter (ra_agents s) = 0
     \<and> ra_pushed s = [] \<and> ra_deleted s = 0"

lemma release_ref_inner:
  assumes "ra_state s = race_word fin rdy sub (Suc (Suc n))" "Suc (Suc n) < 2 ^ 61"
  shows "release_ref s = s\<lparr>ra_state := race_word fin rdy sub (Suc n)\<rparr>"
  using race_last_ref [OF assms(2), of fin rdy sub] race_word_sub [OF assms(2), of fin rdy sub] assms(1)
  by (simp add: release_ref_def Let_def)

lemma release_refs:
  "ra_state s = race_word fin rdy sub (Suc (m + n)) \<Longrightarrow> Suc (m + n) < 2 ^ 61 \<Longrightarrow>
     (release_ref ^^ m) s = s\<lparr>ra_state := race_word fin rdy sub (Suc n)\<rparr>"
proof (induction m arbitrary: s)
  case (Suc m)
  then have "release_ref s = s\<lparr>ra_state := race_word fin rdy sub (Suc (m + n))\<rparr>"
    using release_ref_inner [of s fin rdy sub "m + n"] by simp
  with Suc.IH [of "s\<lparr>ra_state := race_word fin rdy sub (Suc (m + n))\<rparr>"] Suc.prems(2) show ?case by (simp add: funpow_swap1)
qed (cases s; simp)

lemma submit_throws_fails:
  assumes inv: "any_inv sigs s" and k: "R_Submit k \<in># ra_agents s" and n: "length sigs < 2 ^ 32"
  shows "start_failed sigs (submit_throws sigs k s)"
proof -
  obtain M where M: "ra_agents s = add_mset (R_Submit k) M" using k by (meson mset_add)
  from inv obtain fin rdy sub where c: "any_conf sigs fin rdy sub s" by (auto simp: any_inv_def)
  then have sub: "\<not> sub" "k < length sigs" "agents_of starter M = 0" "refs (length sigs) (add_mset (R_Submit k) M) \<le> length sigs + 1"
    using M by (auto simp: any_conf_def split: if_splits)
  let ?s = "s\<lparr>ra_agents := M\<rparr>" and ?m = "length sigs - k" and ?n = "refs (length sigs) M"
  have "ra_state ?s = race_word fin rdy False (Suc (?m + ?n))" using c sub by (simp add: any_conf_def M)
  from release_refs [OF this] sub n have "(release_ref ^^ ?m) ?s = ?s\<lparr>ra_state := race_word fin rdy False (Suc ?n)\<rparr>" by simp
  then have t: "submit_throws sigs k s = ?s\<lparr>ra_state := race_word fin rdy False (Suc ?n)\<rparr>" by (simp add: submit_throws_def M)
  have "ra_pushed s = []" "ra_deleted s = 0" using c sub by (simp_all add: any_conf_def M)
  with sub show ?thesis by (auto simp: start_failed_def t)
qed

lemma start_failed_turn:
  assumes f: "start_failed sigs s" and p: "p \<in># ra_agents s" and n: "length sigs < 2 ^ 32"
  shows "start_failed sigs (any_turn sigs p s)"
proof -
  obtain M where M: "ra_agents s = add_mset p M" using p by (meson mset_add)
  from f obtain fin rdy where w: "ra_state s = race_word fin rdy False (Suc (refs (length sigs) (add_mset p M)))"
    and r: "refs (length sigs) (add_mset p M) \<le> length sigs" "\<not> starter p" "agents_of starter M = 0" "ra_pushed s = []" "ra_deleted s = 0"
    by (auto simp: start_failed_def M split: if_splits)
  have small: "Suc (refs (length sigs) (add_mset p M)) < 2 ^ 61" using r(1) n by simp
  note sub = race_word_tests(3) [OF small, of fin rdy False]
  show ?thesis
  proof (cases p)
    case (R_Branch i)
    then show ?thesis using w r
      by (auto simp: start_failed_def any_turn_def race_enter_def M Let_def race_word_set)
  next
    case (R_Store i)
    then show ?thesis using w r by (auto simp: start_failed_def any_turn_def race_store_def any_goto_def M Let_def)
  next
    case R_Ready
    then show ?thesis using w r sub
      by (auto simp: start_failed_def any_turn_def signal_ready_def any_goto_def M Let_def race_word_set)
  next
    case R_Release
    have "release_ref (s\<lparr>ra_agents := M\<rparr>) = s\<lparr>ra_agents := M, ra_state := race_word fin rdy False (Suc (refs (length sigs) M))\<rparr>"
      using release_ref_inner [of "s\<lparr>ra_agents := M\<rparr>" fin rdy False "refs (length sigs) M"] w small R_Release by simp
    then show ?thesis using r R_Release by (auto simp: start_failed_def any_turn_def M Let_def)
  qed (use r in simp_all)
qed

text \<open>
  So after such an exception, whatever the branches that were started do, nothing is pushed
  any more and the wrapper is never deleted.
\<close>

inductive failed_reach :: "signal list \<Rightarrow> any_state \<Rightarrow> bool" for sigs where
  failed_init: "any_reach sigs s \<Longrightarrow> R_Submit k \<in># ra_agents s \<Longrightarrow> failed_reach sigs (submit_throws sigs k s)"
| failed_turn: "failed_reach sigs s \<Longrightarrow> p \<in># ra_agents s \<Longrightarrow> failed_reach sigs (any_turn sigs p s)"

lemma failed_start_leaks:
  assumes "failed_reach sigs s" "sigs \<noteq> []" "length sigs < 2 ^ 32"
  shows "ra_pushed s = [] \<and> ra_deleted s = 0"
proof -
  have "start_failed sigs s" using assms(1)
  proof (induction rule: failed_reach.induct)
    case (failed_init s k)
    have "any_inv sigs s" using failed_init(1) any_start_inv [OF assms(2)] any_turn_inv [OF _ _ assms(3)]
      by (induction rule: any_reach.induct) auto
    then show ?case using submit_throws_fails failed_init(2) assms(3) by blast
  next
    case (failed_turn s p)
    then show ?case using start_failed_turn assms(3) by blast
  qed
  then show ?thesis by (simp add: start_failed_def)
qed

end
