(* ===== verification/Nvme_Merge.thy ===== *)
theory Nvme_Merge
  imports Per_Core_Queue "HOL-Library.Multiset"
begin

section \<open>The merge table of in-flight NVMe reads\<close>

text \<open>
  \<^verbatim>\<open>merge_table\<close> of \<^verbatim>\<open>src/env/scheduler/nvme/scheduler.hh\<close>: an open-addressing hash
  table from a page position to the read requests that wait for the read in
  flight at that position. A lookup probes at most eight cells, linearly from
  the hash, and stops at a cell that was never used; an erased cell is marked
  \<open>M_DELETED\<close> and reused. A slot pointer is the index of its cell, the waiters
  array with its counter is a list.
\<close>

definition TABLE_SIZE :: nat where "TABLE_SIZE = 1024"
definition MAX_WAITERS :: nat where "MAX_WAITERS = 16"

datatype mslot_state = M_EMPTY | M_OCCUPIED | M_DELETED

record 'r mslot =
  sl_pos :: u64
  sl_state :: mslot_state
  sl_waiters :: "'r list"

record 'r merge_table =
  mt_slots :: "'r mslot list"
  mt_occupied_count :: u32
  mt_merge_count :: u64
  mt_total_get_count :: u64

definition mt_new :: "'r merge_table" where
  "mt_new = \<lparr>mt_slots = replicate TABLE_SIZE \<lparr>sl_pos = 0, sl_state = M_EMPTY, sl_waiters = []\<rparr>,
     mt_occupied_count = 0, mt_merge_count = 0, mt_total_get_count = 0\<rparr>"

definition mt_index :: "u64 \<Rightarrow> u32" where
  "mt_index pos = ucast (drop_bit (64 - ctzll (of_nat TABLE_SIZE)) (pos * 0x9E3779B97F4A7C15))"

text \<open>The cells the loops visit, in their order.\<close>

definition mt_probes :: "u64 \<Rightarrow> nat list" where
  "mt_probes pos = map (\<lambda>i. unat ((mt_index pos + of_nat i) AND (of_nat TABLE_SIZE - 1))) [0..<8]"

fun mt_find_in :: "'r mslot list \<Rightarrow> u64 \<Rightarrow> nat list \<Rightarrow> nat option" where
  "mt_find_in ss pos [] = None"
| "mt_find_in ss pos (j # js) =
     (if sl_state (ss ! j) = M_EMPTY then None
      else if sl_state (ss ! j) = M_OCCUPIED \<and> sl_pos (ss ! j) = pos then Some j
      else mt_find_in ss pos js)"

definition mt_find :: "u64 \<Rightarrow> 'r merge_table \<Rightarrow> nat option" where
  "mt_find pos t = mt_find_in (mt_slots t) pos (mt_probes pos)"

fun mt_free_in :: "'r mslot list \<Rightarrow> nat list \<Rightarrow> nat option" where
  "mt_free_in ss [] = None"
| "mt_free_in ss (j # js) = (if sl_state (ss ! j) \<noteq> M_OCCUPIED then Some j else mt_free_in ss js)"

definition mt_insert :: "u64 \<Rightarrow> 'r merge_table \<Rightarrow> nat option \<times> 'r merge_table" where
  "mt_insert pos t =
     (case mt_free_in (mt_slots t) (mt_probes pos) of
        None \<Rightarrow> (None, t)
      | Some j \<Rightarrow> (Some j, t\<lparr>mt_slots := (mt_slots t)[j := \<lparr>sl_pos = pos, sl_state = M_OCCUPIED, sl_waiters = []\<rparr>],
                           mt_occupied_count := mt_occupied_count t + 1\<rparr>))"

definition mt_add_waiter :: "nat \<Rightarrow> 'r \<Rightarrow> 'r merge_table \<Rightarrow> bool \<times> 'r merge_table" where
  "mt_add_waiter j r t =
     (let s = mt_slots t ! j in
      if MAX_WAITERS \<le> length (sl_waiters s) then (False, t)
      else (True, t\<lparr>mt_slots := (mt_slots t)[j := s\<lparr>sl_waiters := sl_waiters s @ [r]\<rparr>],
                    mt_merge_count := mt_merge_count t + 1\<rparr>))"

definition mt_erase :: "nat \<Rightarrow> 'r merge_table \<Rightarrow> 'r merge_table" where
  "mt_erase j t = t\<lparr>mt_slots := (mt_slots t)[j := (mt_slots t ! j)\<lparr>sl_state := M_DELETED\<rparr>],
     mt_occupied_count := mt_occupied_count t - 1\<rparr>"

definition mt_empty :: "'r merge_table \<Rightarrow> bool" where
  "mt_empty t \<longleftrightarrow> mt_occupied_count t = 0"

subsection \<open>What the table holds\<close>

definition sl_live :: "'r mslot \<Rightarrow> bool" where
  "sl_live s \<longleftrightarrow> sl_state s = M_OCCUPIED"

text \<open>The number of live slots of a position, and all requests that wait in live slots.\<close>

definition slots_of :: "u64 \<Rightarrow> 'r merge_table \<Rightarrow> nat" where
  "slots_of pos t = sum_list (map (\<lambda>s. if sl_live s \<and> sl_pos s = pos then 1 else 0) (mt_slots t))"

definition live_slots :: "'r merge_table \<Rightarrow> nat" where
  "live_slots t = sum_list (map (\<lambda>s. if sl_live s then 1 else 0) (mt_slots t))"

definition mt_waiting :: "'r merge_table \<Rightarrow> 'r multiset" where
  "mt_waiting t = sum_list (map (\<lambda>s. if sl_live s then mset (sl_waiters s) else {#}) (mt_slots t))"

text \<open>
  \<open>probe_reaches\<close>: the loop of \<open>find\<close> for \<open>pos\<close> gets as far as cell \<open>j\<close>, because no
  cell it visits before is \<open>M_EMPTY\<close>.
\<close>

definition probe_reaches :: "'r mslot list \<Rightarrow> u64 \<Rightarrow> nat \<Rightarrow> bool" where
  "probe_reaches ss pos j \<longleftrightarrow> (\<exists>i < 8. mt_probes pos ! i = j \<and> (\<forall>k < i. sl_state (ss ! (mt_probes pos ! k)) \<noteq> M_EMPTY))"

definition mt_inv :: "('r \<Rightarrow> u64) \<Rightarrow> 'r merge_table \<Rightarrow> bool" where
  "mt_inv pos_of t \<longleftrightarrow> length (mt_slots t) = TABLE_SIZE \<and> mt_occupied_count t = of_nat (live_slots t)
     \<and> (\<forall>j < TABLE_SIZE. sl_live (mt_slots t ! j) \<longrightarrow>
          probe_reaches (mt_slots t) (sl_pos (mt_slots t ! j)) j
          \<and> length (sl_waiters (mt_slots t ! j)) \<le> MAX_WAITERS
          \<and> (\<forall>r \<in> set (sl_waiters (mt_slots t ! j)). pos_of r = sl_pos (mt_slots t ! j)))"

lemma mt_probes_length [simp]: "length (mt_probes pos) = 8"
  by (simp add: mt_probes_def)

lemma pow2_table: "pow2 (of_nat TABLE_SIZE :: u32)"
  by (auto simp: pow2_def TABLE_SIZE_def intro: exI [of _ 10])

lemma mt_probe_bound: "j \<in> set (mt_probes pos) \<Longrightarrow> j < TABLE_SIZE"
proof -
  assume "j \<in> set (mt_probes pos)"
  then obtain x :: u32 where "j = unat (x AND (of_nat TABLE_SIZE - 1))" by (auto simp: mt_probes_def)
  then have "j = unat x mod unat (of_nat TABLE_SIZE :: u32)" by (simp only: unat_and_mask [OF pow2_table])
  then show ?thesis by (simp add: TABLE_SIZE_def)
qed

lemma mt_find_in_Some:
  "mt_find_in ss pos js = Some j \<Longrightarrow> j \<in> set js \<and> sl_live (ss ! j) \<and> sl_pos (ss ! j) = pos"
  by (induction js) (auto simp: sl_live_def split: if_splits)

lemma mt_find_in_reaches:
  assumes "i < length js" "\<forall>k < i. sl_state (ss ! (js ! k)) \<noteq> M_EMPTY"
    and "sl_live (ss ! (js ! i))" "sl_pos (ss ! (js ! i)) = pos"
  shows "mt_find_in ss pos js \<noteq> None"
  using assms
proof (induction js arbitrary: i)
  case (Cons a js)
  show ?case
  proof (cases i)
    case (Suc i')
    then have "sl_state (ss ! a) \<noteq> M_EMPTY" "\<forall>k < i'. sl_state (ss ! (js ! k)) \<noteq> M_EMPTY" using Cons.prems(2) by fastforce+
    with Cons.IH [of i'] Suc Cons.prems show ?thesis by auto
  qed (use Cons.prems in \<open>auto simp: sl_live_def\<close>)
qed simp

lemma mt_free_in_Some:
  "mt_free_in ss js = Some j \<Longrightarrow> \<exists>i < length js. js ! i = j \<and> \<not> sl_live (ss ! j)
     \<and> (\<forall>k < i. sl_state (ss ! (js ! k)) \<noteq> M_EMPTY)"
proof (induction js)
  case (Cons a js)
  show ?case
  proof (cases "sl_state (ss ! a) = M_OCCUPIED")
    case True
    with Cons obtain i where "i < length js" "js ! i = j" "\<not> sl_live (ss ! j)"
      "\<forall>k < i. sl_state (ss ! (js ! k)) \<noteq> M_EMPTY" by auto
    with True show ?thesis by (intro exI [of _ "Suc i"]) (auto simp: less_Suc_eq_0_disj)
  qed (use Cons.prems in \<open>auto simp: sl_live_def intro!: exI [of _ 0]\<close>)
qed simp

lemma mt_find_Some:
  "mt_find pos t = Some j \<Longrightarrow> j < TABLE_SIZE \<and> sl_live (mt_slots t ! j) \<and> sl_pos (mt_slots t ! j) = pos"
  using mt_find_in_Some [of "mt_slots t" pos "mt_probes pos" j] mt_probe_bound by (auto simp: mt_find_def)

lemma sum_list_pos_nth: "sum_list xs \<noteq> (0::nat) \<Longrightarrow> \<exists>j < length xs. xs ! j \<noteq> 0"
  by (metis in_set_conv_nth sum_list_eq_0_iff)

text \<open>Under the invariant the bounded, early-stopping search misses no slot.\<close>

lemma mt_find_complete:
  assumes "mt_inv f t" "slots_of pos t \<noteq> 0" shows "\<exists>j. mt_find pos t = Some j"
proof -
  obtain j where j: "j < TABLE_SIZE" "sl_live (mt_slots t ! j)" "sl_pos (mt_slots t ! j) = pos"
    using sum_list_pos_nth [of "map (\<lambda>s. if sl_live s \<and> sl_pos s = pos then 1 else 0) (mt_slots t)"] assms
    by (auto simp: slots_of_def mt_inv_def split: if_splits)
  with assms(1) have "probe_reaches (mt_slots t) pos j" by (auto simp: mt_inv_def)
  then obtain i where "i < 8" "mt_probes pos ! i = j" "\<forall>k < i. sl_state (mt_slots t ! (mt_probes pos ! k)) \<noteq> M_EMPTY"
    by (auto simp: probe_reaches_def)
  with j mt_find_in_reaches [of i "mt_probes pos" "mt_slots t" pos] show ?thesis by (auto simp: mt_find_def)
qed

lemma mt_find_None: "mt_inv f t \<Longrightarrow> mt_find pos t = None \<longleftrightarrow> slots_of pos t = 0"
proof
  assume "mt_inv f t" "mt_find pos t = None"
  then show "slots_of pos t = 0" using mt_find_complete by fastforce
next
  assume i: "mt_inv f t" and z: "slots_of pos t = 0"
  show "mt_find pos t = None"
  proof (rule ccontr)
    assume "mt_find pos t \<noteq> None"
    then obtain j where "mt_find pos t = Some j" by auto
    note j = mt_find_Some [OF this]
    have "length (mt_slots t) = TABLE_SIZE" using i by (simp add: mt_inv_def)
    with j have "mt_slots t ! j \<in> set (mt_slots t)" by simp
    with z j show False by (auto simp: slots_of_def split: if_splits)
  qed
qed

subsection \<open>What the operations change\<close>

lemma probe_reaches_update:
  assumes "probe_reaches ss pos j" "sl_state s' \<noteq> M_EMPTY \<or> sl_state s' = sl_state (ss ! i)"
  shows "probe_reaches (ss[i := s']) pos j"
proof -
  from assms(1) obtain n where n: "n < 8" "mt_probes pos ! n = j" "\<forall>k < n. sl_state (ss ! (mt_probes pos ! k)) \<noteq> M_EMPTY"
    by (auto simp: probe_reaches_def)
  have "sl_state (ss[i := s'] ! (mt_probes pos ! k)) \<noteq> M_EMPTY" if "k < n" for k
    using n(3) that assms(2) by (cases "i < length ss") (auto simp: nth_list_update list_update_beyond not_less)
  with n show ?thesis by (auto simp: probe_reaches_def)
qed

lemma live_slots_le: "live_slots t \<le> length (mt_slots t)"
proof -
  have "sum_list (map (\<lambda>s. if sl_live s then 1 else 0) ss) \<le> length ss" for ss :: "'a mslot list"
    by (induction ss) auto
  then show ?thesis by (simp add: live_slots_def)
qed

text \<open>Changing one cell changes the counts and the waiting requests by that cell.\<close>

lemma slots_of_update:
  "j < length (mt_slots t) \<Longrightarrow> slots_of pos (t\<lparr>mt_slots := (mt_slots t)[j := s]\<rparr>)
      + (if sl_live (mt_slots t ! j) \<and> sl_pos (mt_slots t ! j) = pos then 1 else 0)
    = slots_of pos t + (if sl_live s \<and> sl_pos s = pos then 1 else 0)"
  using sum_list_update_at [of j "mt_slots t" "\<lambda>s. if sl_live s \<and> sl_pos s = pos then 1 else 0 :: nat" s]
  by (simp add: slots_of_def)

lemma live_slots_update:
  "j < length (mt_slots t) \<Longrightarrow> live_slots (t\<lparr>mt_slots := (mt_slots t)[j := s]\<rparr>)
      + (if sl_live (mt_slots t ! j) then 1 else 0)
    = live_slots t + (if sl_live s then 1 else 0)"
  using sum_list_update_at [of j "mt_slots t" "\<lambda>s. if sl_live s then 1 else 0 :: nat" s]
  by (simp add: live_slots_def)

lemma mt_waiting_update:
  "j < length (mt_slots t) \<Longrightarrow> mt_waiting (t\<lparr>mt_slots := (mt_slots t)[j := s]\<rparr>)
      + (if sl_live (mt_slots t ! j) then mset (sl_waiters (mt_slots t ! j)) else {#})
    = mt_waiting t + (if sl_live s then mset (sl_waiters s) else {#})"
  using sum_list_update_at [of j "mt_slots t" "\<lambda>s. if sl_live s then mset (sl_waiters s) else {#}" s]
  by (simp add: mt_waiting_def)

lemma table_cong [simp]:
  "slots_of pos (t\<lparr>mt_occupied_count := n\<rparr>) = slots_of pos t"
  "slots_of pos (t\<lparr>mt_merge_count := m\<rparr>) = slots_of pos t"
  "slots_of pos (t\<lparr>mt_total_get_count := m\<rparr>) = slots_of pos t"
  "live_slots (t\<lparr>mt_occupied_count := n\<rparr>) = live_slots t"
  "live_slots (t\<lparr>mt_merge_count := m\<rparr>) = live_slots t"
  "live_slots (t\<lparr>mt_total_get_count := m\<rparr>) = live_slots t"
  "mt_waiting (t\<lparr>mt_occupied_count := n\<rparr>) = mt_waiting t"
  "mt_waiting (t\<lparr>mt_merge_count := m\<rparr>) = mt_waiting t"
  "mt_waiting (t\<lparr>mt_total_get_count := m\<rparr>) = mt_waiting t"
  by (simp_all add: slots_of_def live_slots_def mt_waiting_def)

text \<open>
  One rule for the invariant: a cell is replaced by one that is not \<open>M_EMPTY\<close> and, when
  live, is reached by the probes of its own position.
\<close>

lemma mt_inv_update:
  assumes inv: "mt_inv f t" and j: "j < TABLE_SIZE" and ne: "sl_state s \<noteq> M_EMPTY"
    and live: "sl_live s \<Longrightarrow> probe_reaches (mt_slots t) (sl_pos s) j \<and> length (sl_waiters s) \<le> MAX_WAITERS
        \<and> (\<forall>r \<in> set (sl_waiters s). f r = sl_pos s)"
    and n: "t' = t\<lparr>mt_slots := (mt_slots t)[j := s], mt_occupied_count := n, mt_merge_count := m\<rparr>"
    and cnt: "n = of_nat (live_slots (t\<lparr>mt_slots := (mt_slots t)[j := s]\<rparr>))"
  shows "mt_inv f t'"
proof -
  have len: "length (mt_slots t) = TABLE_SIZE" using inv by (simp add: mt_inv_def)
  have "probe_reaches ((mt_slots t)[j := s]) (sl_pos ((mt_slots t)[j := s] ! k)) k
      \<and> length (sl_waiters ((mt_slots t)[j := s] ! k)) \<le> MAX_WAITERS
      \<and> (\<forall>r \<in> set (sl_waiters ((mt_slots t)[j := s] ! k)). f r = sl_pos ((mt_slots t)[j := s] ! k))"
    if "k < TABLE_SIZE" "sl_live ((mt_slots t)[j := s] ! k)" for k
  proof (cases "k = j")
    case True
    with live that len j ne show ?thesis by (simp add: probe_reaches_update)
  next
    case False
    then show ?thesis using inv that ne probe_reaches_update [of "mt_slots t" "sl_pos (mt_slots t ! k)" k s j]
      by (simp add: mt_inv_def)
  qed
  with len show ?thesis by (simp add: n mt_inv_def cnt live_slots_def)
qed

lemma mt_insert_effect:
  assumes inv: "mt_inv f t"
  shows "mt_inv f (snd (mt_insert pos t)) \<and> mt_waiting (snd (mt_insert pos t)) = mt_waiting t
    \<and> slots_of p (snd (mt_insert pos t)) \<le> slots_of p t + (if p = pos then 1 else 0)"
proof (cases "mt_free_in (mt_slots t) (mt_probes pos)")
  case None
  with inv show ?thesis by (simp add: mt_insert_def)
next
  case (Some j)
  let ?s = "\<lparr>sl_pos = pos, sl_state = M_OCCUPIED, sl_waiters = []\<rparr> :: 'a mslot"
  from mt_free_in_Some [OF Some] obtain i where i: "i < 8" "mt_probes pos ! i = j" "\<not> sl_live (mt_slots t ! j)"
    "\<forall>k < i. sl_state (mt_slots t ! (mt_probes pos ! k)) \<noteq> M_EMPTY" by auto
  have j: "j < TABLE_SIZE" using i(1,2) mt_probe_bound [of "mt_probes pos ! i" pos] nth_mem [of i "mt_probes pos"] by simp
  have len: "j < length (mt_slots t)" using inv j by (simp add: mt_inv_def)
  have reach: "probe_reaches (mt_slots t) pos j" using i by (auto simp: probe_reaches_def)
  have "mt_occupied_count t + 1 = of_nat (live_slots (t\<lparr>mt_slots := (mt_slots t)[j := ?s]\<rparr>))"
    using live_slots_update [OF len, of ?s] i(3) inv by (simp add: sl_live_def mt_inv_def)
  then have "mt_inv f (snd (mt_insert pos t))"
    by (intro mt_inv_update [OF inv j, where s = ?s and m = "mt_merge_count t"]) (auto simp: mt_insert_def Some reach)
  then show ?thesis
    using slots_of_update [OF len, of p ?s] mt_waiting_update [OF len, of ?s] i(3)
    by (auto simp: mt_insert_def Some sl_live_def)
qed

lemma mt_add_waiter_effect:
  assumes inv: "mt_inv f t" and j: "j < TABLE_SIZE" "sl_live (mt_slots t ! j)" "sl_pos (mt_slots t ! j) = f r"
    and add: "mt_add_waiter j r t = (True, t')"
  shows "mt_inv f t' \<and> mt_waiting t' = add_mset r (mt_waiting t) \<and> slots_of p t' = slots_of p t"
proof -
  let ?s = "(mt_slots t ! j)\<lparr>sl_waiters := sl_waiters (mt_slots t ! j) @ [r]\<rparr>"
  have len: "j < length (mt_slots t)" using inv j by (simp add: mt_inv_def)
  have t': "t' = t\<lparr>mt_slots := (mt_slots t)[j := ?s], mt_merge_count := mt_merge_count t + 1\<rparr>"
    and room: "length (sl_waiters (mt_slots t ! j)) < MAX_WAITERS"
    using add by (auto simp: mt_add_waiter_def Let_def split: if_splits)
  have live: "sl_live ?s" using j(2) by (simp add: sl_live_def)
  have occ: "mt_occupied_count t = of_nat (live_slots (t\<lparr>mt_slots := (mt_slots t)[j := ?s]\<rparr>))"
    using live_slots_update [OF len, of ?s] j(2) live inv by (simp add: mt_inv_def)
  have "mt_inv f t'"
    by (rule mt_inv_update [OF inv j(1), where s = ?s and m = "mt_merge_count t + 1", OF _ _ _ occ])
      (use live room inv j in \<open>auto simp: mt_inv_def t' sl_live_def\<close>)
  moreover have "mt_waiting t' + mset (sl_waiters (mt_slots t ! j)) = mt_waiting t + mset (sl_waiters (mt_slots t ! j)) + {#r#}"
    using mt_waiting_update [OF len, of ?s] j(2) live by (simp add: t' ac_simps)
  moreover have "slots_of p t' = slots_of p t"
    using slots_of_update [OF len, of p ?s] j(2) live by (simp add: t')
  ultimately show ?thesis by simp
qed

lemma mt_erase_effect:
  assumes inv: "mt_inv f t" and j: "j < TABLE_SIZE" "sl_live (mt_slots t ! j)"
  shows "mt_inv f (mt_erase j t) \<and> mt_waiting (mt_erase j t) + mset (sl_waiters (mt_slots t ! j)) = mt_waiting t
    \<and> slots_of p (mt_erase j t) + (if p = sl_pos (mt_slots t ! j) then 1 else 0) = slots_of p t"
proof -
  let ?s = "(mt_slots t ! j)\<lparr>sl_state := M_DELETED\<rparr>"
  have len: "j < length (mt_slots t)" using inv j by (simp add: mt_inv_def)
  have dead: "\<not> sl_live ?s" by (simp add: sl_live_def)
  have live: "live_slots t = Suc (live_slots (t\<lparr>mt_slots := (mt_slots t)[j := ?s]\<rparr>))"
    using live_slots_update [OF len, of ?s] j(2) dead by simp
  have "mt_inv f (mt_erase j t)"
    by (rule mt_inv_update [OF inv j(1), where s = ?s and m = "mt_merge_count t"])
      (use inv live dead in \<open>auto simp: mt_erase_def mt_inv_def\<close>)
  then show ?thesis
    using slots_of_update [OF len, of p ?s] mt_waiting_update [OF len, of ?s] j(2) dead
    by (auto simp: mt_erase_def)
qed

lemma sum_list_replicate_empty [simp]: "sum_list (replicate n {#}) = {#}"
  by (induction n) auto

lemma mt_new_inv: "mt_inv f mt_new \<and> mt_waiting mt_new = {#} \<and> slots_of p mt_new = 0"
  by (simp add: mt_inv_def mt_new_def live_slots_def mt_waiting_def slots_of_def sl_live_def sum_list_replicate)

lemma mt_total_inv [simp]: "mt_inv f (t\<lparr>mt_total_get_count := n\<rparr>) = mt_inv f t"
  by (simp add: mt_inv_def live_slots_def)

lemma mt_find_total [simp]: "mt_find pos (t\<lparr>mt_total_get_count := n\<rparr>) = mt_find pos t"
  by (simp add: mt_find_def)

text \<open>The fast path of the scheduler is sound: an empty table has no slot to find.\<close>

lemma mt_empty_iff: "mt_inv f t \<Longrightarrow> mt_empty t \<longleftrightarrow> live_slots t = 0"
proof -
  assume i: "mt_inv f t"
  then have "live_slots t < 2 ^ 32" using live_slots_le [of t] by (simp add: mt_inv_def TABLE_SIZE_def)
  then have "unat (of_nat (live_slots t) :: u32) = live_slots t" by (simp add: unat_of_nat)
  with i show ?thesis by (metis mt_empty_def mt_inv_def unat_0 unat_eq_0)
qed

lemma live_slots_zero: "live_slots t = 0 \<Longrightarrow> slots_of pos t = 0"
  by (auto simp: live_slots_def slots_of_def split: if_splits)

lemma mt_empty_find: "mt_inv f t \<Longrightarrow> mt_empty t \<Longrightarrow> mt_find pos t = None"
  by (simp add: mt_empty_iff mt_find_None live_slots_zero)

text \<open>A waiting request sits in a live slot of its own position.\<close>

lemma mt_waiting_slot:
  assumes "mt_inv f t" "r \<in># mt_waiting t" shows "slots_of (f r) t \<noteq> 0"
proof -
  obtain s where s: "s \<in> set (mt_slots t)" "sl_live s" "r \<in> set (sl_waiters s)"
    using assms(2) by (auto simp: mt_waiting_def set_mset_sum_list split: if_splits)
  then obtain j where "j < length (mt_slots t)" "mt_slots t ! j = s" by (auto simp: in_set_conv_nth)
  with s assms(1) have "sl_pos s = f r" by (auto simp: mt_inv_def)
  with s show ?thesis by (auto simp: slots_of_def)
qed

end
