(* ===== verification/Request_Contract.thy ===== *)
theory Request_Contract
  imports "HOL-Library.Multiset"
begin

section \<open>What a scheduler promises its requests\<close>

text \<open>
  The contract the schedulers share. A scheduler in a state reached from a good one owes an answer
  to exactly the requests that were issued and not yet answered: \<open>issued\<close>, \<open>answered\<close> and
  \<open>owed\<close> are the requests (by their callbacks) as multisets, \<open>inv\<close> is the scheduler's invariant.
  \<open>shutdown_contract\<close> adds a last turn that answers everything. Each scheduler interprets one
  of them on its model.
\<close>

locale request_contract =
  fixes reach :: "'s \<Rightarrow> 's \<Rightarrow> bool"
    and inv :: "'s \<Rightarrow> bool"
    and issued :: "'s \<Rightarrow> 'c multiset"
    and answered :: "'s \<Rightarrow> 'c multiset"
    and owed :: "'s \<Rightarrow> 'c multiset"
  assumes reach_inv: "reach s0 s \<Longrightarrow> inv s0 \<Longrightarrow> inv s"
    and balance: "inv s \<Longrightarrow> answered s + owed s = issued s"
begin

lemma settled: "reach s0 s \<Longrightarrow> inv s0 \<Longrightarrow> answered s + owed s = issued s"
  by (rule balance [OF reach_inv])

text \<open>Nobody is answered who did not ask.\<close>

lemma only_issued: "inv s \<Longrightarrow> answered s \<subseteq># issued s"
  by (metis balance mset_subset_eq_add_left)

text \<open>A request that was issued once is answered once or waits, and not both.\<close>

lemma answered_once:
  assumes "reach s0 s" "inv s0" "count (issued s) c = 1"
  shows "count (answered s) c = 1 \<and> c \<notin># owed s \<or> c \<notin># answered s \<and> count (owed s) c = 1"
proof -
  have "count (answered s) c + count (owed s) c = 1" using settled [OF assms(1,2)] assms(3) by (metis count_union)
  then show ?thesis by (auto simp: not_in_iff add_is_1)
qed

lemma none_left: "inv s \<Longrightarrow> owed s = {#} \<Longrightarrow> answered s = issued s"
  using balance by fastforce

end

locale shutdown_contract = request_contract +
  fixes last_turn :: "'s \<Rightarrow> 's"
  assumes last_inv: "inv s \<Longrightarrow> inv (last_turn s)"
    and last_owed: "inv s \<Longrightarrow> owed (last_turn s) = {#}"
    and last_issued: "inv s \<Longrightarrow> issued (last_turn s) = issued s"
begin

text \<open>After the last turn every request has its answer.\<close>

lemma all_answered: "reach s0 s \<Longrightarrow> inv s0 \<Longrightarrow> answered (last_turn s) = issued s"
  using reach_inv last_inv last_owed last_issued none_left by metis

lemma nobody_waits:
  assumes "reach s0 s" "inv s0" "count (issued s) c = 1"
  shows "count (answered (last_turn s)) c = 1"
  using all_answered [OF assms(1,2)] assms(3) by simp

end

end
