(* ===== verification/Queue_Accounting.thy ===== *)
theory Queue_Accounting
  imports Per_Core_Queue Mpmc_Queue Request_Contract
begin

section \<open>Accounting for the items of per-core queues\<close>

text \<open>
  What the schedulers' accounting arguments share: the items of a per-core queue as
  a multiset, and lists with one entry taken out.
\<close>

definition core_ok :: "'r pcqueue \<Rightarrow> u32 \<Rightarrow> bool" where
  "core_ok q core \<longleftrightarrow> core = pc_owner q \<or> unat core < MAX_CORES"

lemma mset_drop_at: "i < length xs \<Longrightarrow> add_mset (xs ! i) (mset (drop_at i xs)) = mset xs"
proof -
  assume "i < length xs"
  then have "mset xs = mset (take i xs @ xs ! i # drop (Suc i) xs)" using id_take_nth_drop by metis
  then show ?thesis by (simp add: drop_at_def)
qed

lemma length_drop_at: "i < length xs \<Longrightarrow> Suc (length (drop_at i xs)) = length xs"
  by (simp add: drop_at_def)

lemma mset_concat_append:
  "mset (concat (map (\<lambda>i. f i @ g i) xs)) = mset (concat (map f xs)) + mset (concat (map g xs))"
  by (induction xs) (simp_all add: ac_simps)

lemma pc_try_enqueue_items:
  assumes inv: "pcq_inv q" and core: "core_ok q core"
    and res: "pc_try_enqueue ab core x q = (res, q')"
  shows "pcq_inv q' \<and> pc_owner q' = pc_owner q
    \<and> mset (pc_items q') = mset (pc_items q) + (if res = Pc_Ok then {#x#} else {#})"
proof -
  have core': "core = pc_owner q \<or> unat core < MAX_CORES" using core by (simp add: core_ok_def)
  let ?es = "if pc_accepts core q then [(core, x)] else []"
  from pc_enqueue_spec [OF inv core', of ab x] res have r: "res = (if pc_accepts core q then Pc_Ok else if ab then Pc_Abort else Pc_Full)"
    and q': "pcq_inv q'" "pc_owner q' = pc_owner q"
    "lq_contents (pc_local q') = lq_contents (pc_local q) @ sent_local (pc_owner q) ?es"
    "\<forall>i < MAX_CORES. pc_ring q' i = pc_ring q i @ sent_from (pc_owner q) i ?es" by auto
  have "map (pc_ring q') [0..<MAX_CORES] = map (\<lambda>i. pc_ring q i @ sent_from (pc_owner q) i ?es) [0..<MAX_CORES]"
    using q'(4) by (intro map_cong) auto
  then have "mset (pc_items q') = mset (pc_items q) + mset (sent_local (pc_owner q) ?es)
      + mset (concat (map (\<lambda>i. sent_from (pc_owner q) i ?es) [0..<MAX_CORES]))"
    by (simp only: pc_items_def q'(3) mset_append mset_concat_append ac_simps)
  moreover have "concat (map (\<lambda>i. sent_from (pc_owner q) i [(core, x)]) [0..<MAX_CORES]) = (if core = pc_owner q then [] else [x])"
    using core' concat_map_single [of "unat core" MAX_CORES "\<lambda>i. sent_from (pc_owner q) i [(core, x)]"]
    by (cases "core = pc_owner q") (auto simp: sent_from_def)
  ultimately have "mset (pc_items q') = mset (pc_items q) + (if res = Pc_Ok then {#x#} else {#})"
    by (cases "pc_accepts core q") (auto simp: r sent_local_def sent_from_def)
  with q' show ?thesis by simp
qed

text \<open>A queue that aborts when it is full never reports it.\<close>

lemma pc_enqueue_aborts: "pc_try_enqueue True core x q = (res, q') \<Longrightarrow> res \<noteq> Pc_Full"
  by (auto simp: pc_try_enqueue_def Let_def split: if_splits prod.splits)

text \<open>A drain hands over exactly the items, and leaves none.\<close>

lemma pc_drain_items:
  assumes "pcq_inv q" "pc_drain q = (worked, items, q')"
  shows "items = pc_items q \<and> worked = (items \<noteq> []) \<and> pcq_inv q' \<and> pc_items q' = [] \<and> pc_owner q' = pc_owner q"
  using pc_drain_spec [OF assms(1)] assms(2) by auto

lemma pc_new_items:
  "pc_new d cap owner = Some q \<Longrightarrow> cap \<noteq> 0 \<Longrightarrow> pcq_inv q \<and> pc_items q = [] \<and> pc_owner q = owner
    \<and> pc_capacity q = cap"
  using pc_new_inv [of d cap owner q] by (auto simp: pc_items_def)

text \<open>A queue with no active core and an empty local ring gives nothing and stays as it is.\<close>

lemma pc_idle_dequeue:
  assumes "\<And>w. w < BITMAP_WORDS \<Longrightarrow> pc_active q ! w = 0" "lq_head (pc_local q) = lq_tail (pc_local q)"
  shows "pc_try_dequeue q = (None, q)"
proof -
  have "mask_bits 0 = []" by (subst mask_bits.simps) simp
  then have "active_cores q = []" using assms(1) by (simp add: active_cores_def)
  then show ?thesis using assms(2) by (simp add: pc_try_dequeue_def lq_try_dequeue_def)
qed

lemma pc_new_idle: "pc_new d cap owner = Some q \<Longrightarrow> pc_try_dequeue q = (None, q)"
  by (rule pc_idle_dequeue) (auto simp: pc_new_def lq_new_def split: option.splits if_splits)

text \<open>The dequeues and enqueues as changes of the contents, through the queues' contracts.\<close>

lemma mpmc_deq_contents:
  assumes "mq_inv q" "mpmc_deq q = (res, q')"
  shows "mq_inv q' \<and> (case res of None \<Rightarrow> mq_contents q = [] \<and> mq_contents q' = [] | Some x \<Rightarrow> mq_contents q = x # mq_contents q')"
  using mpmc.deq_none [OF assms(1)] mpmc.deq_some [OF assms(1)] assms(2)
  by (cases "mq_contents q") auto

lemma mpmc_enq_contents:
  assumes "mq_inv q" "mpmc_enq x q = (ok, q')"
  shows "mq_inv q' \<and> mq_contents q' = mq_contents q @ (if ok then [x] else [])"
  using mpmc.enq_room [OF assms(1), of x] mpmc.enq_full [OF assms(1), of x] assms(2)
  by (cases "length (mq_contents q) < mq_room q") auto

lemma pc_dequeue_items:
  assumes "pcq_inv q" "pc_try_dequeue q = (res, q')"
  shows "pcq_inv q' \<and> (case res of None \<Rightarrow> pc_items q = [] \<and> pc_items q' = [] | Some x \<Rightarrow> pc_items q = x # pc_items q')"
  using pc_try_dequeue_spec [OF assms(1)] assms(2) by (cases "pc_items q") auto

lemma pc_drain_loop:
  "pcq_inv q \<Longrightarrow> length (pc_items q) < n \<Longrightarrow> \<exists>q'. drain_loop n pc_try_dequeue q = (pc_items q, q') \<and> pcq_inv q' \<and> pc_items q' = []"
proof (induction n arbitrary: q)
  case (Suc n)
  obtain res q1 where d: "pc_try_dequeue q = (res, q1)" by (cases "pc_try_dequeue q")
  note q1 = pc_dequeue_items [OF Suc.prems(1) d]
  show ?case
  proof (cases res)
    case (Some x)
    with q1 Suc.IH [of q1] Suc.prems(2) d show ?thesis by auto
  qed (use q1 d in auto)
qed simp

text \<open>While a queue holds fewer items than one ring, every core's enqueue succeeds.\<close>

lemma length_concat_ge: "x \<in> set xs \<Longrightarrow> length (f x) \<le> length (concat (map f xs))"
  by (induction xs) auto

lemma pc_enqueue_room:
  assumes inv: "pcq_inv q" and core: "core_ok q core" and room: "Suc (length (pc_items q)) < unat (pc_capacity q)"
  shows "\<exists>q'. pc_try_enqueue ab core x q = (Pc_Ok, q') \<and> pcq_inv q' \<and> pc_owner q' = pc_owner q
    \<and> pc_capacity q' = pc_capacity q \<and> length (pc_items q') = Suc (length (pc_items q))"
proof -
  have "length (pc_ring q (unat core)) \<le> length (pc_items q)" if "unat core < MAX_CORES"
    using length_concat_ge [of "unat core" "[0..<MAX_CORES]" "pc_ring q"] that by (simp add: pc_items_def)
  moreover have "length (lq_contents (pc_local q)) \<le> length (pc_items q)" by (simp add: pc_items_def)
  ultimately have "pc_accepts core q" using core room by (auto simp: pc_accepts_def core_ok_def)
  with pc_enqueue_spec [OF inv core [unfolded core_ok_def], of ab x] obtain q' where
    q': "pc_try_enqueue ab core x q = (Pc_Ok, q')" "pc_capacity q' = pc_capacity q" by auto
  from pc_try_enqueue_items [OF inv core q'(1)] have "mset (pc_items q') = add_mset x (mset (pc_items q))"
    "pcq_inv q'" "pc_owner q' = pc_owner q" by auto
  with q' show ?thesis by (metis size_add_mset size_mset)
qed

lemma pc_new_capacity: "pc_new d cap owner = Some q \<Longrightarrow> pc_capacity q = cap"
  by (auto simp: pc_new_def split: option.splits)

end
