(* ===== verification/Nvme.thy ===== *)
theory Nvme
  imports Nvme_Merge Ring_Queue Queue_Accounting
begin

section \<open>The NVMe scheduler\<close>

text \<open>
  \<^verbatim>\<open>src/env/scheduler/nvme/scheduler.hh\<close>: page reads and writes, flushes and trims
  arrive through one per-core queue each, move to a local ring, and are submitted
  to the SPDK queue pair while it is not busy. A read of a page that is already
  being read waits for that read (\<^verbatim>\<open>merge_\<close>). SPDK is a parameter: \<open>dev n\<close> is the
  result of the \<open>n\<close>-th submission, negative when the command was not accepted (and
  then its callback is not called by SPDK), and the completions of a poll name
  commands in flight, in any order, with success or error and the data read.

  A request object is a record, its callback \<open>cb\<close> an identifier, and calling it
  appends to \<open>nv_answers\<close>. A page pointer is a number; \<open>get_pos\<close>, \<open>get_size\<close> and
  the payload bytes are maps on it. \<open>nv_flight\<close> and \<open>nv_accepted\<close> are history: the
  commands SPDK holds, and the callbacks of the requests the queues took.
\<close>

record page_req =
  pg_flags :: u32
  pg_page :: nat
  pg_cb :: nat

record flush_req =
  fl_cb :: nat

record trim_req =
  tr_lba :: u64
  tr_lba_count :: u32
  tr_cb :: nat

datatype nv_cmd = Read page_req bool | Write page_req | Flush_Cmd flush_req | Trim_Cmd trim_req

datatype nv_answer = Got nat nat u8 | Was_Put nat nat u8 | Flushed nat u8 | Trimmed nat u8

record nv_state =
  nv_put_in :: "page_req pcqueue"
  nv_get_in :: "page_req pcqueue"
  nv_flush_in :: "flush_req pcqueue"
  nv_trim_in :: "trim_req pcqueue"
  nv_put_q :: "page_req ring_queue"
  nv_get_q :: "page_req ring_queue"
  nv_flush_q :: "flush_req ring_queue"
  nv_trim_q :: "trim_req ring_queue"
  nv_merge :: "page_req merge_table"
  nv_depth :: u32
  nv_used :: u32
  nv_page_pos :: "nat \<Rightarrow> u64"
  nv_page_size :: "nat \<Rightarrow> nat"
  nv_payload :: "nat \<Rightarrow> byte list"
  nv_answers :: "nv_answer list"
  nv_flight :: "nv_cmd list"
  nv_submits :: nat
  nv_accepted :: "nat list"

text \<open>
  The constructor, on a queue pair with nothing submitted. The queues are built with the
  default \<^verbatim>\<open>owner_core = UINT32_MAX\<close>, so every core, the scheduler's own included, goes
  through its ring.
\<close>

definition nv_new :: "u64 \<Rightarrow> u64 \<Rightarrow> u32 \<Rightarrow> (nat \<Rightarrow> u64) \<Rightarrow> (nat \<Rightarrow> nat) \<Rightarrow> (nat \<Rightarrow> byte list) \<Rightarrow> nv_state option" where
  "nv_new queue_depth local_depth depth pos sz bytes =
     (let pr = \<lparr>pg_flags = 0, pg_page = 0, pg_cb = 0\<rparr>; fr = \<lparr>fl_cb = 0\<rparr>;
          tr = \<lparr>tr_lba = 0, tr_lba_count = 0, tr_cb = 0\<rparr> in
      case (pc_new pr queue_depth (- 1), pc_new fr queue_depth (- 1), pc_new tr queue_depth (- 1)) of
        (Some pq, Some fq, Some tq) \<Rightarrow>
          Some \<lparr>nv_put_in = pq, nv_get_in = pq, nv_flush_in = fq, nv_trim_in = tq,
            nv_put_q = rq_new pr local_depth, nv_get_q = rq_new pr local_depth,
            nv_flush_q = rq_new fr local_depth, nv_trim_q = rq_new tr local_depth,
            nv_merge = mt_new, nv_depth = depth, nv_used = 0,
            nv_page_pos = pos, nv_page_size = sz, nv_payload = bytes, nv_answers = [],
            nv_flight = [], nv_submits = 0, nv_accepted = []\<rparr>
      | _ \<Rightarrow> None)"

text \<open>\<^verbatim>\<open>qpair::busy\<close> and \<^verbatim>\<open>qpair::empty\<close> of \<^verbatim>\<open>ssd.hh\<close>.\<close>

definition qp_busy :: "nv_state \<Rightarrow> bool" where
  "qp_busy s \<longleftrightarrow> nv_depth s < nv_used s"

definition qp_empty :: "nv_state \<Rightarrow> bool" where
  "qp_empty s \<longleftrightarrow> nv_used s = 0"

subsection \<open>Completion callbacks\<close>

definition cpl_status :: "bool \<Rightarrow> u8" where
  "cpl_status ok = (if ok then 0 else 1)"

definition memcpy_page :: "nat \<Rightarrow> nat \<Rightarrow> nat \<Rightarrow> (nat \<Rightarrow> byte list) \<Rightarrow> nat \<Rightarrow> byte list" where
  "memcpy_page dst src n bytes = bytes(dst := take n (bytes src) @ drop n (bytes dst))"

text \<open>
  The loop over the waiters of a slot. A callback may schedule new requests, which
  only touches the per-core queues; it cannot reach the slot.
\<close>

fun answer_waiters :: "page_req list \<Rightarrow> page_req \<Rightarrow> u8 \<Rightarrow> nv_state \<Rightarrow> nv_state" where
  "answer_waiters [] req status s = s"
| "answer_waiters (w # ws) req status s =
     (let s1 = (if status = 0
                then s\<lparr>nv_payload := memcpy_page (pg_page w) (pg_page req) (nv_page_size s (pg_page req)) (nv_payload s)\<rparr>
                else s)
      in answer_waiters ws req status (s1\<lparr>nv_answers := nv_answers s1 @ [Got (pg_cb w) (pg_page w) status]\<rparr>))"

definition on_get_data_done :: "page_req \<Rightarrow> bool \<Rightarrow> bool \<Rightarrow> nv_state \<Rightarrow> nv_state" where
  "on_get_data_done req sched ok s =
     (let s1 = s\<lparr>nv_used := nv_used s - 1\<rparr>;
          status = cpl_status ok;
          s2 = (if sched then
                  (case mt_find (nv_page_pos s1 (pg_page req)) (nv_merge s1) of
                     None \<Rightarrow> s1
                   | Some j \<Rightarrow>
                       (let s' = answer_waiters (sl_waiters (mt_slots (nv_merge s1) ! j)) req status s1
                        in s'\<lparr>nv_merge := mt_erase j (nv_merge s')\<rparr>))
                else s1)
      in s2\<lparr>nv_answers := nv_answers s2 @ [Got (pg_cb req) (pg_page req) status]\<rparr>)"

definition on_put_data_done :: "page_req \<Rightarrow> bool \<Rightarrow> nv_state \<Rightarrow> nv_state" where
  "on_put_data_done req ok s =
     s\<lparr>nv_used := nv_used s - 1, nv_answers := nv_answers s @ [Was_Put (pg_cb req) (pg_page req) (cpl_status ok)]\<rparr>"

definition on_flush_done :: "flush_req \<Rightarrow> bool \<Rightarrow> nv_state \<Rightarrow> nv_state" where
  "on_flush_done req ok s =
     s\<lparr>nv_used := nv_used s - 1, nv_answers := nv_answers s @ [Flushed (fl_cb req) (cpl_status ok)]\<rparr>"

definition on_trim_done :: "trim_req \<Rightarrow> bool \<Rightarrow> nv_state \<Rightarrow> nv_state" where
  "on_trim_done req ok s =
     s\<lparr>nv_used := nv_used s - 1, nv_answers := nv_answers s @ [Trimmed (tr_cb req) (cpl_status ok)]\<rparr>"

subsection \<open>Submissions\<close>

definition nv_submit :: "nv_cmd \<Rightarrow> nv_state \<Rightarrow> nv_state" where
  "nv_submit c s = s\<lparr>nv_flight := nv_flight s @ [c]\<rparr>"

definition spdk_get :: "(nat \<Rightarrow> int) \<Rightarrow> page_req \<Rightarrow> bool \<Rightarrow> nv_state \<Rightarrow> nv_state" where
  "spdk_get dev req sched s =
     (let s1 = s\<lparr>nv_used := nv_used s + 1, nv_submits := Suc (nv_submits s)\<rparr> in
      if dev (nv_submits s) < 0 then on_get_data_done req sched False s1
      else nv_submit (Read req sched) s1)"

definition spdk_put :: "(nat \<Rightarrow> int) \<Rightarrow> page_req \<Rightarrow> nv_state \<Rightarrow> nv_state" where
  "spdk_put dev req s =
     (let s1 = s\<lparr>nv_used := nv_used s + 1, nv_submits := Suc (nv_submits s)\<rparr> in
      if dev (nv_submits s) < 0 then on_put_data_done req False s1
      else nv_submit (Write req) s1)"

definition spdk_flush :: "(nat \<Rightarrow> int) \<Rightarrow> flush_req \<Rightarrow> nv_state \<Rightarrow> nv_state" where
  "spdk_flush dev req s =
     (let s1 = s\<lparr>nv_used := nv_used s + 1, nv_submits := Suc (nv_submits s)\<rparr> in
      if dev (nv_submits s) < 0 then on_flush_done req False s1
      else nv_submit (Flush_Cmd req) s1)"

definition spdk_trim :: "(nat \<Rightarrow> int) \<Rightarrow> trim_req \<Rightarrow> nv_state \<Rightarrow> nv_state" where
  "spdk_trim dev req s =
     (let s1 = s\<lparr>nv_used := nv_used s + 1, nv_submits := Suc (nv_submits s)\<rparr> in
      if dev (nv_submits s) < 0 then on_trim_done req False s1
      else nv_submit (Trim_Cmd req) s1)"

text \<open>SPDK completes the \<open>i\<close>-th command it holds; a successful read leaves \<open>bytes\<close> in the page.\<close>

definition nv_complete :: "nat \<Rightarrow> bool \<Rightarrow> byte list \<Rightarrow> nv_state \<Rightarrow> nv_state" where
  "nv_complete i ok bytes s =
     (let s1 = s\<lparr>nv_flight := drop_at i (nv_flight s)\<rparr> in
      case nv_flight s ! i of
        Read req sched \<Rightarrow>
          on_get_data_done req sched ok
            (if ok then s1\<lparr>nv_payload := (nv_payload s1)(pg_page req := bytes)\<rparr> else s1)
      | Write req \<Rightarrow> on_put_data_done req ok s1
      | Flush_Cmd req \<Rightarrow> on_flush_done req ok s1
      | Trim_Cmd req \<Rightarrow> on_trim_done req ok s1)"

text \<open>\<^verbatim>\<open>spdk_poll\<close>: the completions SPDK reports, as indices into what it then holds.\<close>

fun spdk_poll :: "(nat \<times> bool \<times> byte list) list \<Rightarrow> nv_state \<Rightarrow> nv_state" where
  "spdk_poll [] s = s"
| "spdk_poll ((i, ok, bytes) # cs) s =
     (if i < length (nv_flight s) then spdk_poll cs (nv_complete i ok bytes s) else spdk_poll cs s)"

subsection \<open>Scheduling and the local queues\<close>

definition nv_note :: "pc_result \<Rightarrow> nat \<Rightarrow> nv_state \<Rightarrow> nv_state" where
  "nv_note res cb s = (if res = Pc_Ok then s\<lparr>nv_accepted := nv_accepted s @ [cb]\<rparr> else s)"

definition schedule_put :: "u32 \<Rightarrow> page_req \<Rightarrow> nv_state \<Rightarrow> pc_result \<times> nv_state" where
  "schedule_put core r s =
     (let (res, q) = pc_try_enqueue True core r (nv_put_in s) in (res, nv_note res (pg_cb r) (s\<lparr>nv_put_in := q\<rparr>)))"

definition schedule_get :: "u32 \<Rightarrow> page_req \<Rightarrow> nv_state \<Rightarrow> pc_result \<times> nv_state" where
  "schedule_get core r s =
     (let (res, q) = pc_try_enqueue True core r (nv_get_in s) in (res, nv_note res (pg_cb r) (s\<lparr>nv_get_in := q\<rparr>)))"

definition schedule_flush :: "u32 \<Rightarrow> flush_req \<Rightarrow> nv_state \<Rightarrow> pc_result \<times> nv_state" where
  "schedule_flush core r s =
     (let (res, q) = pc_try_enqueue True core r (nv_flush_in s) in (res, nv_note res (fl_cb r) (s\<lparr>nv_flush_in := q\<rparr>)))"

definition schedule_trim :: "u32 \<Rightarrow> trim_req \<Rightarrow> nv_state \<Rightarrow> pc_result \<times> nv_state" where
  "schedule_trim core r s =
     (let (res, q) = pc_try_enqueue True core r (nv_trim_in s) in (res, nv_note res (tr_cb r) (s\<lparr>nv_trim_in := q\<rparr>)))"

text \<open>One turn of the loops at the start of \<^verbatim>\<open>advance\<close>, which move requests to the local queue.\<close>

definition fetch_one :: "'r pcqueue \<Rightarrow> 'r ring_queue \<Rightarrow> bool \<times> 'r pcqueue \<times> 'r ring_queue" where
  "fetch_one q l =
     (if rq_size l < rq_capacity l then
        (case pc_try_dequeue q of
           (None, q') \<Rightarrow> (False, q', l)
         | (Some r, q') \<Rightarrow> (True, q', snd (rq_enqueue r l)))
      else (False, q, l))"

text \<open>The body of the loop of \<^verbatim>\<open>handle_get_queue\<close> for the dequeued request \<open>r\<close>.\<close>

definition merge_or_read :: "(nat \<Rightarrow> int) \<Rightarrow> page_req \<Rightarrow> nv_state \<Rightarrow> nv_state" where
  "merge_or_read dev r s =
     (let pos = nv_page_pos s (pg_page r);
          m = (nv_merge s)\<lparr>mt_total_get_count := mt_total_get_count (nv_merge s) + 1\<rparr>;
          s1 = s\<lparr>nv_merge := m\<rparr>;
          joined = (if mt_empty m then None
                    else case mt_find pos m of
                      None \<Rightarrow> None
                    | Some j \<Rightarrow> (let (ok, m') = mt_add_waiter j r m in if ok then Some m' else None))
      in case joined of
           Some m' \<Rightarrow> s1\<lparr>nv_merge := m'\<rparr>
         | None \<Rightarrow> spdk_get dev r True (s1\<lparr>nv_merge := snd (mt_insert pos m)\<rparr>))"

text \<open>The loop bodies: dequeue one request and serve it.\<close>

definition serve_put :: "(nat \<Rightarrow> int) \<Rightarrow> nv_state \<Rightarrow> nv_state" where
  "serve_put dev s =
     (case rq_dequeue (nv_put_q s) of
        (Some r, q) \<Rightarrow> spdk_put dev r (s\<lparr>nv_put_q := q\<rparr>) | (None, q) \<Rightarrow> s\<lparr>nv_put_q := q\<rparr>)"

definition serve_get :: "(nat \<Rightarrow> int) \<Rightarrow> nv_state \<Rightarrow> nv_state" where
  "serve_get dev s =
     (case rq_dequeue (nv_get_q s) of
        (Some r, q) \<Rightarrow> merge_or_read dev r (s\<lparr>nv_get_q := q\<rparr>) | (None, q) \<Rightarrow> s\<lparr>nv_get_q := q\<rparr>)"

definition serve_flush :: "(nat \<Rightarrow> int) \<Rightarrow> nv_state \<Rightarrow> nv_state" where
  "serve_flush dev s =
     (case rq_dequeue (nv_flush_q s) of
        (Some r, q) \<Rightarrow> spdk_flush dev r (s\<lparr>nv_flush_q := q\<rparr>) | (None, q) \<Rightarrow> s\<lparr>nv_flush_q := q\<rparr>)"

definition serve_trim :: "(nat \<Rightarrow> int) \<Rightarrow> nv_state \<Rightarrow> nv_state" where
  "serve_trim dev s =
     (case rq_dequeue (nv_trim_q s) of
        (Some r, q) \<Rightarrow> spdk_trim dev r (s\<lparr>nv_trim_q := q\<rparr>) | (None, q) \<Rightarrow> s\<lparr>nv_trim_q := q\<rparr>)"

subsection \<open>The loops and advance\<close>

lemma rq_size_enqueue:
  "rq_size l < rq_capacity l \<Longrightarrow> unat (rq_size (snd (rq_enqueue r l))) = Suc (unat (rq_size l))
     \<and> rq_capacity (snd (rq_enqueue r l)) = rq_capacity l"
  using unsigned_less [of "rq_capacity l", where 'a = nat]
  by (simp add: rq_enqueue_def word_less_nat_alt word_le_nat_alt unat_word_ariths)

lemma rq_size_dequeue:
  "\<not> rq_empty l \<Longrightarrow> \<exists>r l'. rq_dequeue l = (Some r, l') \<and> Suc (unat (rq_size l')) = unat (rq_size l)"
  by (auto simp: rq_dequeue_def rq_empty_def unat_minus_one unat_gt_0 Suc_leI)

function fetch_loop :: "'r pcqueue \<Rightarrow> 'r ring_queue \<Rightarrow> 'r pcqueue \<times> 'r ring_queue" where
  "fetch_loop q l =
     (let (again, q', l') = fetch_one q l in if again then fetch_loop q' l' else (q', l'))"
  by pat_completeness auto

termination
  by (relation "measure (\<lambda>(q, l). unat (rq_capacity l) - unat (rq_size l))")
    (auto simp: fetch_one_def rq_size_enqueue word_less_nat_alt split: if_splits option.splits prod.splits
      dest!: sym [of "(True, _)"])

declare fetch_loop.simps [simp del]

lemma answer_waiters_keeps [simp]:
  "nv_put_q (answer_waiters ws r st s) = nv_put_q s" "nv_get_q (answer_waiters ws r st s) = nv_get_q s"
  "nv_flush_q (answer_waiters ws r st s) = nv_flush_q s" "nv_trim_q (answer_waiters ws r st s) = nv_trim_q s"
  "nv_put_in (answer_waiters ws r st s) = nv_put_in s" "nv_get_in (answer_waiters ws r st s) = nv_get_in s"
  "nv_flush_in (answer_waiters ws r st s) = nv_flush_in s" "nv_trim_in (answer_waiters ws r st s) = nv_trim_in s"
  "nv_merge (answer_waiters ws r st s) = nv_merge s" "nv_flight (answer_waiters ws r st s) = nv_flight s"
  "nv_depth (answer_waiters ws r st s) = nv_depth s" "nv_used (answer_waiters ws r st s) = nv_used s"
  "nv_page_pos (answer_waiters ws r st s) = nv_page_pos s" "nv_page_size (answer_waiters ws r st s) = nv_page_size s"
  "nv_accepted (answer_waiters ws r st s) = nv_accepted s" "nv_submits (answer_waiters ws r st s) = nv_submits s"
  by (induction ws arbitrary: s) (simp_all add: Let_def)

lemma get_done_keeps [simp]:
  "nv_put_q (on_get_data_done r m ok s) = nv_put_q s" "nv_get_q (on_get_data_done r m ok s) = nv_get_q s"
  "nv_flush_q (on_get_data_done r m ok s) = nv_flush_q s" "nv_trim_q (on_get_data_done r m ok s) = nv_trim_q s"
  "nv_put_in (on_get_data_done r m ok s) = nv_put_in s" "nv_get_in (on_get_data_done r m ok s) = nv_get_in s"
  "nv_flush_in (on_get_data_done r m ok s) = nv_flush_in s" "nv_trim_in (on_get_data_done r m ok s) = nv_trim_in s"
  "nv_flight (on_get_data_done r m ok s) = nv_flight s" "nv_depth (on_get_data_done r m ok s) = nv_depth s"
  "nv_used (on_get_data_done r m ok s) = nv_used s - 1"
  "nv_page_pos (on_get_data_done r m ok s) = nv_page_pos s" "nv_page_size (on_get_data_done r m ok s) = nv_page_size s"
  "nv_accepted (on_get_data_done r m ok s) = nv_accepted s" "nv_submits (on_get_data_done r m ok s) = nv_submits s"
  by (auto simp: on_get_data_done_def Let_def split: option.splits)

lemmas spdk_defs = spdk_get_def spdk_put_def spdk_flush_def spdk_trim_def on_put_data_done_def
  on_flush_done_def on_trim_done_def nv_submit_def

lemma merge_or_read_keeps [simp]:
  "nv_put_q (merge_or_read dev r s) = nv_put_q s" "nv_get_q (merge_or_read dev r s) = nv_get_q s"
  "nv_flush_q (merge_or_read dev r s) = nv_flush_q s" "nv_trim_q (merge_or_read dev r s) = nv_trim_q s"
  "nv_put_in (merge_or_read dev r s) = nv_put_in s" "nv_get_in (merge_or_read dev r s) = nv_get_in s"
  "nv_flush_in (merge_or_read dev r s) = nv_flush_in s" "nv_trim_in (merge_or_read dev r s) = nv_trim_in s"
  "nv_depth (merge_or_read dev r s) = nv_depth s" "nv_page_pos (merge_or_read dev r s) = nv_page_pos s"
  "nv_accepted (merge_or_read dev r s) = nv_accepted s"
  by (simp_all add: merge_or_read_def spdk_defs Let_def split: option.split prod.split)

function handle_put_queue :: "(nat \<Rightarrow> int) \<Rightarrow> nv_state \<Rightarrow> nv_state" where
  "handle_put_queue dev s =
     (if rq_empty (nv_put_q s) \<or> qp_busy s then s else handle_put_queue dev (serve_put dev s))"
  by pat_completeness auto
termination
  by (relation "measure (\<lambda>(dev, s). unat (rq_size (nv_put_q s)))")
    (auto simp: serve_put_def spdk_defs Let_def dest!: rq_size_dequeue)

function handle_get_queue :: "(nat \<Rightarrow> int) \<Rightarrow> nv_state \<Rightarrow> nv_state" where
  "handle_get_queue dev s =
     (if rq_empty (nv_get_q s) \<or> qp_busy s then s else handle_get_queue dev (serve_get dev s))"
  by pat_completeness auto
termination
  by (relation "measure (\<lambda>(dev, s). unat (rq_size (nv_get_q s)))")
    (auto simp: serve_get_def dest!: rq_size_dequeue)

function handle_flush_queue :: "(nat \<Rightarrow> int) \<Rightarrow> nv_state \<Rightarrow> nv_state" where
  "handle_flush_queue dev s =
     (if rq_empty (nv_flush_q s) \<or> qp_busy s then s else handle_flush_queue dev (serve_flush dev s))"
  by pat_completeness auto
termination
  by (relation "measure (\<lambda>(dev, s). unat (rq_size (nv_flush_q s)))")
    (auto simp: serve_flush_def spdk_defs Let_def dest!: rq_size_dequeue)

function handle_trim_queue :: "(nat \<Rightarrow> int) \<Rightarrow> nv_state \<Rightarrow> nv_state" where
  "handle_trim_queue dev s =
     (if rq_empty (nv_trim_q s) \<or> qp_busy s then s else handle_trim_queue dev (serve_trim dev s))"
  by pat_completeness auto
termination
  by (relation "measure (\<lambda>(dev, s). unat (rq_size (nv_trim_q s)))")
    (auto simp: serve_trim_def spdk_defs Let_def dest!: rq_size_dequeue)

declare handle_put_queue.simps [simp del] handle_get_queue.simps [simp del]
  handle_flush_queue.simps [simp del] handle_trim_queue.simps [simp del]

definition nv_fetch :: "nv_state \<Rightarrow> nv_state" where
  "nv_fetch s =
     (let (pi, pq) = fetch_loop (nv_put_in s) (nv_put_q s); (gi, gq) = fetch_loop (nv_get_in s) (nv_get_q s);
          (fi, fq) = fetch_loop (nv_flush_in s) (nv_flush_q s); (ti, tq) = fetch_loop (nv_trim_in s) (nv_trim_q s) in
      s\<lparr>nv_put_in := pi, nv_put_q := pq, nv_get_in := gi, nv_get_q := gq,
        nv_flush_in := fi, nv_flush_q := fq, nv_trim_in := ti, nv_trim_q := tq\<rparr>)"

definition nv_advance :: "(nat \<Rightarrow> int) \<Rightarrow> (nat \<times> bool \<times> byte list) list \<Rightarrow> nv_state \<Rightarrow> bool \<times> nv_state" where
  "nv_advance dev completions s =
     (let s1 = handle_trim_queue dev (handle_flush_queue dev (handle_get_queue dev (handle_put_queue dev (nv_fetch s)))) in
      if qp_empty s1 then (False, s1) else (True, spdk_poll completions s1))"

subsection \<open>What is owed\<close>

fun cmd_cb :: "nv_cmd \<Rightarrow> nat" where
  "cmd_cb (Read r _) = pg_cb r"
| "cmd_cb (Write r) = pg_cb r"
| "cmd_cb (Flush_Cmd r) = fl_cb r"
| "cmd_cb (Trim_Cmd r) = tr_cb r"

fun answer_cb :: "nv_answer \<Rightarrow> nat" where
  "answer_cb (Got c _ _) = c"
| "answer_cb (Was_Put c _ _) = c"
| "answer_cb (Flushed c _) = c"
| "answer_cb (Trimmed c _) = c"

definition queued :: "('r \<Rightarrow> nat) \<Rightarrow> 'r pcqueue \<Rightarrow> 'r ring_queue \<Rightarrow> nat multiset" where
  "queued cb q l = image_mset cb (mset (pc_items q) + mset (rq_contents l))"

definition nv_queued :: "nv_state \<Rightarrow> nat multiset" where
  "nv_queued s = queued pg_cb (nv_put_in s) (nv_put_q s) + queued pg_cb (nv_get_in s) (nv_get_q s)
     + queued fl_cb (nv_flush_in s) (nv_flush_q s) + queued tr_cb (nv_trim_in s) (nv_trim_q s)"

definition nv_busy_with :: "nv_state \<Rightarrow> nat multiset" where
  "nv_busy_with s = image_mset cmd_cb (mset (nv_flight s)) + image_mset pg_cb (mt_waiting (nv_merge s))"

definition nv_answered :: "nv_state \<Rightarrow> nat multiset" where
  "nv_answered s = image_mset answer_cb (mset (nv_answers s))"

fun read_at :: "(nat \<Rightarrow> u64) \<Rightarrow> u64 \<Rightarrow> nv_cmd \<Rightarrow> nat" where
  "read_at pos p (Read r m) = (if m \<and> pos (pg_page r) = p then 1 else 0)"
| "read_at pos p (Write r) = 0"
| "read_at pos p (Flush_Cmd r) = 0"
| "read_at pos p (Trim_Cmd r) = 0"

definition reads_of :: "u64 \<Rightarrow> nv_state \<Rightarrow> nat" where
  "reads_of p s = sum_list (map (read_at (nv_page_pos s) p) (nv_flight s))"

subsection \<open>The invariant\<close>

definition nv_queues_ok :: "nv_state \<Rightarrow> bool" where
  "nv_queues_ok s \<longleftrightarrow> pcq_inv (nv_put_in s) \<and> pcq_inv (nv_get_in s) \<and> pcq_inv (nv_flush_in s) \<and> pcq_inv (nv_trim_in s)
     \<and> rq_inv (nv_put_q s) \<and> rq_inv (nv_get_q s) \<and> rq_inv (nv_flush_q s) \<and> rq_inv (nv_trim_q s)"

text \<open>
  The table agrees with the device: a position has no more live slots than reads in
  flight that will look for a slot; \<open>x\<close> more are allowed in the middle of an operation.
\<close>

definition nv_table_ok :: "(u64 \<Rightarrow> nat) \<Rightarrow> nv_state \<Rightarrow> bool" where
  "nv_table_ok x s \<longleftrightarrow> mt_inv (\<lambda>r. nv_page_pos s (pg_page r)) (nv_merge s)
     \<and> (\<forall>p. slots_of p (nv_merge s) \<le> reads_of p s + x p)"

definition nv_counted :: "nv_state \<Rightarrow> bool" where
  "nv_counted s \<longleftrightarrow> unat (nv_used s) = length (nv_flight s) \<and> length (nv_flight s) \<le> Suc (unat (nv_depth s))
     \<and> Suc (unat (nv_depth s)) < 2 ^ 32"

definition nv_inv :: "nv_state \<Rightarrow> bool" where
  "nv_inv s \<longleftrightarrow> nv_queues_ok s \<and> nv_table_ok (\<lambda>_. 0) s \<and> nv_counted s
     \<and> nv_answered s + nv_queued s + nv_busy_with s = mset (nv_accepted s)"

subsection \<open>Completions keep the table and answer what they take\<close>

lemma answer_waiters_answered:
  "nv_answered (answer_waiters ws r st s) = nv_answered s + image_mset pg_cb (mset ws)"
  by (induction ws arbitrary: s) (simp_all add: Let_def nv_answered_def)

definition one_at :: "bool \<Rightarrow> u64 \<Rightarrow> u64 \<Rightarrow> nat" where
  "one_at m q = (\<lambda>p. if m \<and> p = q then 1 else 0)"

lemma reads_of_done [simp]: "reads_of p (on_get_data_done r m ok s) = reads_of p s"
  by (simp add: reads_of_def)

lemma get_done_effect:
  assumes "nv_table_ok (one_at m (nv_page_pos s (pg_page r))) s"
  shows "nv_table_ok (\<lambda>_. 0) (on_get_data_done r m ok s)
    \<and> nv_answered (on_get_data_done r m ok s) + nv_busy_with (on_get_data_done r m ok s)
      = add_mset (pg_cb r) (nv_answered s + nv_busy_with s)"
proof -
  let ?pos = "nv_page_pos s (pg_page r)" and ?f = "\<lambda>r. nv_page_pos s (pg_page r)"
  have inv: "mt_inv ?f (nv_merge s)" and le: "\<And>p. slots_of p (nv_merge s) \<le> reads_of p s + one_at m ?pos p"
    using assms by (auto simp: nv_table_ok_def)
  show ?thesis
  proof (cases "m \<and> mt_find ?pos (nv_merge s) \<noteq> None")
    case False
    then have "nv_merge (on_get_data_done r m ok s) = nv_merge s"
      "nv_answers (on_get_data_done r m ok s) = nv_answers s @ [Got (pg_cb r) (pg_page r) (cpl_status ok)]"
      by (auto simp: on_get_data_done_def Let_def)
    moreover have "slots_of p (nv_merge s) \<le> reads_of p s" for p
      using False le [of p] mt_find_None [OF inv, of ?pos] by (auto simp: one_at_def split: if_splits)
    ultimately show ?thesis using inv by (simp add: nv_table_ok_def nv_answered_def nv_busy_with_def)
  next
    case True
    then obtain j where j: "mt_find ?pos (nv_merge s) = Some j" by auto
    note live = mt_find_Some [OF j]
    let ?ws = "sl_waiters (mt_slots (nv_merge s) ! j)"
    let ?s1 = "answer_waiters ?ws r (cpl_status ok) (s\<lparr>nv_used := nv_used s - 1\<rparr>)"
    have out: "on_get_data_done r m ok s = ?s1\<lparr>nv_merge := mt_erase j (nv_merge s),
        nv_answers := nv_answers ?s1 @ [Got (pg_cb r) (pg_page r) (cpl_status ok)]\<rparr>"
      using True j by (simp add: on_get_data_done_def Let_def)
    note e = mt_erase_effect [OF inv, of j]
    have le': "slots_of p (mt_erase j (nv_merge s)) \<le> reads_of p s" for p
      using e [of p] live le [of p] by (auto simp: one_at_def split: if_splits)
    have "mt_inv ?f (mt_erase j (nv_merge s))" using e live by blast
    with le' have "nv_table_ok (\<lambda>_. 0) (on_get_data_done r m ok s)"
      by (simp add: nv_table_ok_def out reads_of_def)
    moreover have "nv_answered ?s1 = nv_answered s + image_mset pg_cb (mset ?ws)"
      by (simp add: answer_waiters_answered) (simp add: nv_answered_def)
    moreover have "image_mset pg_cb (mt_waiting (nv_merge s))
        = image_mset pg_cb (mt_waiting (mt_erase j (nv_merge s))) + image_mset pg_cb (mset ?ws)"
      using e live by (metis image_mset_union)
    ultimately show ?thesis by (simp add: out nv_busy_with_def) (simp add: nv_answered_def ac_simps)
  qed
qed

lemma table_ok_cong:
  "nv_merge s' = nv_merge s \<Longrightarrow> nv_page_pos s' = nv_page_pos s \<Longrightarrow> (\<And>p. reads_of p s + x p \<le> reads_of p s' + y p) \<Longrightarrow>
    nv_table_ok x s \<Longrightarrow> nv_table_ok y s'"
  unfolding nv_table_ok_def by (metis le_trans)

text \<open>A command in flight is completed: it and the requests merged onto it are answered.\<close>

lemma reads_of_drop:
  "i < length (nv_flight s) \<Longrightarrow> reads_of p (s\<lparr>nv_flight := drop_at i (nv_flight s), nv_payload := b\<rparr>)
     + read_at (nv_page_pos s) p (nv_flight s ! i) = reads_of p s"
  using sum_list_drop_at [of i "nv_flight s" "read_at (nv_page_pos s) p"] by (simp add: reads_of_def)

lemma nv_complete_effect:
  assumes i: "i < length (nv_flight s)" and ok: "nv_table_ok (\<lambda>_. 0) s" "nv_counted s"
  shows "nv_table_ok (\<lambda>_. 0) (nv_complete i ok bytes s) \<and> nv_counted (nv_complete i ok bytes s)
    \<and> nv_answered (nv_complete i ok bytes s) + nv_busy_with (nv_complete i ok bytes s) = nv_answered s + nv_busy_with s"
proof -
  let ?b = "\<lambda>r. if ok then (nv_payload s)(pg_page r := bytes) else nv_payload s"
  let ?s1 = "\<lambda>b. s\<lparr>nv_flight := drop_at i (nv_flight s), nv_payload := b\<rparr>"
  have "nv_used s \<noteq> 0" using i ok(2) by (auto simp: nv_counted_def)
  then have used: "unat (nv_used s - 1) = length (drop_at i (nv_flight s))"
    using ok(2) length_drop_at [OF i] by (simp add: nv_counted_def unat_minus_one)
  then have counted: "nv_counted s'" if "nv_used s' = nv_used s - 1" "nv_flight s' = drop_at i (nv_flight s)" "nv_depth s' = nv_depth s" for s'
    using that ok(2) length_drop_at [OF i] by (simp add: nv_counted_def)
  have busy: "image_mset cmd_cb (mset (nv_flight s)) = add_mset (cmd_cb (nv_flight s ! i)) (image_mset cmd_cb (mset (drop_at i (nv_flight s))))"
    using mset_drop_at [OF i] by (metis image_mset_add_mset)
  have other: "nv_table_ok (\<lambda>_. 0) s'"
    if "nv_merge s' = nv_merge s" "nv_page_pos s' = nv_page_pos s" "nv_flight s' = drop_at i (nv_flight s)"
      "\<And>p. read_at (nv_page_pos s) p (nv_flight s ! i) = 0" for s'
    using reads_of_drop [OF i] that by (intro table_ok_cong [OF _ _ _ ok(1)]) (simp_all add: reads_of_def)
  show ?thesis
  proof (cases "nv_flight s ! i")
    case (Read r m)
    let ?t = "?s1 (?b r)"
    have c: "nv_complete i ok bytes s = on_get_data_done r m ok ?t"
      by (simp add: nv_complete_def Read)
    have "reads_of p s \<le> reads_of p ?t + one_at m (nv_page_pos s (pg_page r)) p" for p
      using reads_of_drop [OF i, of p "?b r"]
      by (cases "m \<and> nv_page_pos s (pg_page r) = p") (auto simp: Read one_at_def)
    then have "nv_table_ok (one_at m (nv_page_pos ?t (pg_page r))) ?t"
      by (intro table_ok_cong [OF _ _ _ ok(1)]) simp_all
    note e = get_done_effect [OF this, of ok]
    have "nv_counted (on_get_data_done r m ok ?t)" by (rule counted) simp_all
    moreover have "add_mset (pg_cb r) (nv_answered ?t + nv_busy_with ?t) = nv_answered s + nv_busy_with s"
      by (simp add: nv_answered_def nv_busy_with_def busy Read)
    ultimately show ?thesis using e by (simp add: c)
  qed (auto simp: nv_complete_def on_put_data_done_def on_flush_done_def on_trim_done_def nv_answered_def
      nv_busy_with_def busy intro!: counted other)
qed

subsection \<open>Submissions\<close>

lemma counted_next:
  assumes "nv_counted s" "\<not> qp_busy s"
  shows "unat (nv_used s + 1) = Suc (length (nv_flight s)) \<and> length (nv_flight s) \<le> unat (nv_depth s)"
  using assms by (auto simp: nv_counted_def qp_busy_def word_less_nat_alt unat_word_ariths)

lemma spdk_get_effect:
  assumes ok: "nv_table_ok (one_at m (nv_page_pos s (pg_page r))) s" "nv_counted s" "\<not> qp_busy s"
  shows "nv_table_ok (\<lambda>_. 0) (spdk_get dev r m s) \<and> nv_counted (spdk_get dev r m s)
    \<and> nv_answered (spdk_get dev r m s) + nv_busy_with (spdk_get dev r m s) = add_mset (pg_cb r) (nv_answered s + nv_busy_with s)"
proof (cases "dev (nv_submits s) < 0")
  case True
  let ?s = "s\<lparr>nv_used := nv_used s + 1, nv_submits := Suc (nv_submits s)\<rparr>"
  have "nv_table_ok (one_at m (nv_page_pos ?s (pg_page r))) ?s"
    using ok(1) by (rule table_ok_cong [rotated -1]) (simp_all add: reads_of_def)
  from get_done_effect [OF this, of False] show ?thesis
    using True ok(2) by (simp add: spdk_get_def Let_def nv_counted_def) (simp add: nv_answered_def nv_busy_with_def)
next
  case False
  have "nv_table_ok (\<lambda>_. 0) (spdk_get dev r m s)"
    using ok(1) False by (elim table_ok_cong [rotated -1]) (simp_all add: spdk_get_def nv_submit_def Let_def reads_of_def one_at_def)
  then show ?thesis
    using counted_next [OF ok(2,3)] ok(2) False
    by (simp add: spdk_get_def nv_submit_def Let_def nv_counted_def nv_answered_def nv_busy_with_def)
qed

lemma spdk_other_effect:
  assumes ok: "nv_table_ok (\<lambda>_. 0) s" "nv_counted s" "\<not> qp_busy s"
    and s': "(s', c) = (spdk_put dev pr s, pg_cb pr) \<or> (s', c) = (spdk_flush dev fr s, fl_cb fr) \<or> (s', c) = (spdk_trim dev tr s, tr_cb tr)"
  shows "nv_table_ok (\<lambda>_. 0) s' \<and> nv_counted s'
    \<and> nv_answered s' + nv_busy_with s' = add_mset c (nv_answered s + nv_busy_with s)"
proof (intro conjI)
  show "nv_table_ok (\<lambda>_. 0) s'"
    using ok(1) by (rule table_ok_cong [rotated -1]) (use s' in \<open>auto simp: spdk_defs Let_def reads_of_def\<close>)
  show "nv_counted s'"
    using s' counted_next [OF ok(2,3)] ok(2) by (auto simp: spdk_defs Let_def nv_counted_def)
  show "nv_answered s' + nv_busy_with s' = add_mset c (nv_answered s + nv_busy_with s)"
    using s' by (auto simp: spdk_defs Let_def nv_answered_def nv_busy_with_def)
qed

lemma merge_or_read_effect:
  assumes ok: "nv_table_ok (\<lambda>_. 0) s" "nv_counted s" "\<not> qp_busy s"
  shows "nv_table_ok (\<lambda>_. 0) (merge_or_read dev r s) \<and> nv_counted (merge_or_read dev r s)
    \<and> nv_answered (merge_or_read dev r s) + nv_busy_with (merge_or_read dev r s)
      = add_mset (pg_cb r) (nv_answered s + nv_busy_with s)"
proof -
  let ?pos = "nv_page_pos s (pg_page r)" and ?f = "\<lambda>r. nv_page_pos s (pg_page r)"
  define m where "m = (nv_merge s)\<lparr>mt_total_get_count := mt_total_get_count (nv_merge s) + 1\<rparr>"
  define joined where "joined = (if mt_empty m then None else case mt_find ?pos m of None \<Rightarrow> None
      | Some j \<Rightarrow> (let (ok, m') = mt_add_waiter j r m in if ok then Some m' else None))"
  have inv: "mt_inv ?f m" and le: "\<And>p. slots_of p m \<le> reads_of p s" and wait: "mt_waiting m = mt_waiting (nv_merge s)"
    using ok(1) by (auto simp: nv_table_ok_def m_def)
  have step: "merge_or_read dev r s = (case joined of Some m' \<Rightarrow> s\<lparr>nv_merge := m'\<rparr>
      | None \<Rightarrow> spdk_get dev r True (s\<lparr>nv_merge := snd (mt_insert ?pos m)\<rparr>))"
    unfolding merge_or_read_def joined_def m_def Let_def by (simp cong: option.case_cong)
  show ?thesis
  proof (cases joined)
    case (Some m')
    then obtain j where "mt_find ?pos m = Some j" "mt_add_waiter j r m = (True, m')"
      by (auto simp: joined_def split: if_splits option.splits prod.splits)
    with mt_find_Some [of ?pos m j] mt_add_waiter_effect [OF inv, of j r m']
    have "mt_inv ?f m'" "mt_waiting m' = add_mset r (mt_waiting m)" "\<And>p. slots_of p m' = slots_of p m" by auto
    then show ?thesis using ok le
      by (simp add: step Some nv_table_ok_def reads_of_def nv_counted_def nv_answered_def nv_busy_with_def wait)
  next
    case None
    let ?s = "s\<lparr>nv_merge := snd (mt_insert ?pos m)\<rparr>"
    note i = mt_insert_effect [OF inv, of ?pos]
    have "slots_of p (snd (mt_insert ?pos m)) \<le> reads_of p s + one_at True ?pos p" for p
      using i [of p] le [of p] by (auto simp: one_at_def)
    then have "nv_table_ok (one_at True (nv_page_pos ?s (pg_page r))) ?s"
      using i by (simp add: nv_table_ok_def reads_of_def)
    moreover have "nv_counted ?s" "\<not> qp_busy ?s" using ok by (simp_all add: nv_counted_def qp_busy_def)
    ultimately have "nv_table_ok (\<lambda>_. 0) (spdk_get dev r True ?s) \<and> nv_counted (spdk_get dev r True ?s)
      \<and> nv_answered (spdk_get dev r True ?s) + nv_busy_with (spdk_get dev r True ?s) = add_mset (pg_cb r) (nv_answered ?s + nv_busy_with ?s)"
      by (rule spdk_get_effect)
    moreover have "nv_answered ?s + nv_busy_with ?s = nv_answered s + nv_busy_with s"
      using i wait by (simp add: nv_answered_def nv_busy_with_def)
    ultimately show ?thesis by (simp add: step None)
  qed
qed

subsection \<open>Every step keeps the invariant\<close>

lemma fetch_one_effect:
  assumes "pcq_inv q" "rq_inv l" "fetch_one q l = (again, q', l')"
  shows "pcq_inv q' \<and> rq_inv l' \<and> rq_contents l' @ pc_items q' = rq_contents l @ pc_items q"
proof -
  obtain r q1 where d: "pc_try_dequeue q = (r, q1)" by (cases "pc_try_dequeue q")
  with pc_try_dequeue_spec [OF assms(1)] have q1: "pcq_inv q1" "pc_items q1 = tl (pc_items q)"
    "r = (case pc_items q of [] \<Rightarrow> None | x # _ \<Rightarrow> Some x)" by auto
  show ?thesis
  proof (cases "rq_size l < rq_capacity l \<and> pc_items q \<noteq> []")
    case True
    then obtain x xs where x: "pc_items q = x # xs" by (cases "pc_items q") auto
    have "length (rq_contents l) < rq_room l" using True by (simp add: rq_contents_def rq_room_def word_less_nat_alt)
    from rq.enq_room [OF assms(2) this, of x] obtain l1 where
      "rq_enqueue x l = (True, l1)" "rq_inv l1" "rq_contents l1 = rq_contents l @ [x]" by blast
    with assms(3) d q1 True x show ?thesis by (auto simp: fetch_one_def)
  next
    case False
    then show ?thesis using assms d q1 by (auto simp: fetch_one_def split: if_splits option.splits list.splits)
  qed
qed

lemma fetch_one_queued:
  "pcq_inv q \<Longrightarrow> rq_inv l \<Longrightarrow> fetch_one q l = (again, q', l') \<Longrightarrow>
    pcq_inv q' \<and> rq_inv l' \<and> queued cb q' l' = queued cb q l"
  using fetch_one_effect [of q l again q' l']
  by (metis add.commute mset_append queued_def)

lemma rq_dequeue_queued:
  assumes "rq_inv l" "\<not> rq_empty l"
  shows "\<exists>r l'. rq_dequeue l = (Some r, l') \<and> rq_inv l' \<and> queued cb q l = add_mset (cb r) (queued cb q l')"
proof -
  obtain x xs where x: "rq_contents l = x # xs" using assms(2) rq_empty_contents [of l] by (cases "rq_contents l") auto
  from rq.deq_some [OF assms(1) x] x show ?thesis by (auto simp: queued_def)
qed

text \<open>The steps of any cores, in any order.\<close>

inductive nv_step :: "(nat \<Rightarrow> int) \<Rightarrow> nv_state \<Rightarrow> nv_state \<Rightarrow> bool" for dev where
  arrive_put: "core_ok (nv_put_in s) core \<Longrightarrow> schedule_put core r s = (res, s') \<Longrightarrow> nv_step dev s s'"
| arrive_get: "core_ok (nv_get_in s) core \<Longrightarrow> schedule_get core r s = (res, s') \<Longrightarrow> nv_step dev s s'"
| arrive_flush: "core_ok (nv_flush_in s) core \<Longrightarrow> schedule_flush core fr s = (res, s') \<Longrightarrow> nv_step dev s s'"
| arrive_trim: "core_ok (nv_trim_in s) core \<Longrightarrow> schedule_trim core tr s = (res, s') \<Longrightarrow> nv_step dev s s'"
| fetch_put: "fetch_one (nv_put_in s) (nv_put_q s) = (again, q, l) \<Longrightarrow> nv_step dev s (s\<lparr>nv_put_in := q, nv_put_q := l\<rparr>)"
| fetch_get: "fetch_one (nv_get_in s) (nv_get_q s) = (again, q, l) \<Longrightarrow> nv_step dev s (s\<lparr>nv_get_in := q, nv_get_q := l\<rparr>)"
| fetch_flush: "fetch_one (nv_flush_in s) (nv_flush_q s) = (again, fq, fl) \<Longrightarrow> nv_step dev s (s\<lparr>nv_flush_in := fq, nv_flush_q := fl\<rparr>)"
| fetch_trim: "fetch_one (nv_trim_in s) (nv_trim_q s) = (again, tq, tl') \<Longrightarrow> nv_step dev s (s\<lparr>nv_trim_in := tq, nv_trim_q := tl'\<rparr>)"
| turn_put: "\<not> rq_empty (nv_put_q s) \<Longrightarrow> \<not> qp_busy s \<Longrightarrow> nv_step dev s (serve_put dev s)"
| turn_get: "\<not> rq_empty (nv_get_q s) \<Longrightarrow> \<not> qp_busy s \<Longrightarrow> nv_step dev s (serve_get dev s)"
| turn_flush: "\<not> rq_empty (nv_flush_q s) \<Longrightarrow> \<not> qp_busy s \<Longrightarrow> nv_step dev s (serve_flush dev s)"
| turn_trim: "\<not> rq_empty (nv_trim_q s) \<Longrightarrow> \<not> qp_busy s \<Longrightarrow> nv_step dev s (serve_trim dev s)"
| device: "i < length (nv_flight s) \<Longrightarrow> nv_step dev s (nv_complete i ok bytes s)"

inductive nv_reach :: "(nat \<Rightarrow> int) \<Rightarrow> nv_state \<Rightarrow> nv_state \<Rightarrow> bool" for dev s0 where
  nv_start: "nv_reach dev s0 s0"
| nv_go: "nv_reach dev s0 s \<Longrightarrow> nv_step dev s s' \<Longrightarrow> nv_reach dev s0 s'"

lemma table_ok_queues [simp]:
  "nv_table_ok x (s\<lparr>nv_put_in := a\<rparr>) = nv_table_ok x s" "nv_table_ok x (s\<lparr>nv_put_q := b\<rparr>) = nv_table_ok x s"
  "nv_table_ok x (s\<lparr>nv_get_in := a\<rparr>) = nv_table_ok x s" "nv_table_ok x (s\<lparr>nv_get_q := b\<rparr>) = nv_table_ok x s"
  "nv_table_ok x (s\<lparr>nv_flush_in := fa\<rparr>) = nv_table_ok x s" "nv_table_ok x (s\<lparr>nv_flush_q := fb\<rparr>) = nv_table_ok x s"
  "nv_table_ok x (s\<lparr>nv_trim_in := ta\<rparr>) = nv_table_ok x s" "nv_table_ok x (s\<lparr>nv_trim_q := tb\<rparr>) = nv_table_ok x s"
  "nv_table_ok x (s\<lparr>nv_accepted := c\<rparr>) = nv_table_ok x s"
  by (simp_all add: nv_table_ok_def reads_of_def)

lemmas nv_account = nv_inv_def nv_queues_ok_def nv_counted_def nv_answered_def nv_queued_def nv_busy_with_def

lemma arrive_inv:
  assumes inv: "nv_inv s"
    and s': "core_ok (nv_put_in s) core \<and> schedule_put core r s = (res, s')
      \<or> core_ok (nv_get_in s) core \<and> schedule_get core r s = (res, s')
      \<or> core_ok (nv_flush_in s) core \<and> schedule_flush core fr s = (res, s')
      \<or> core_ok (nv_trim_in s) core \<and> schedule_trim core tr s = (res, s')"
  shows "nv_inv s'"
  using s'
proof (elim disjE conjE)
  assume c: "core_ok (nv_put_in s) core" "schedule_put core r s = (res, s')"
  obtain q where q: "pc_try_enqueue True core r (nv_put_in s) = (res, q)" "s' = nv_note res (pg_cb r) (s\<lparr>nv_put_in := q\<rparr>)"
    using c(2) by (auto simp: schedule_put_def split: prod.splits)
  have "pcq_inv (nv_put_in s)" using inv by (simp add: nv_inv_def nv_queues_ok_def)
  from pc_try_enqueue_items [OF this _ q(1)] c(1) inv show ?thesis
    by (auto simp: q(2) core_ok_def nv_note_def queued_def nv_account)
next
  assume c: "core_ok (nv_get_in s) core" "schedule_get core r s = (res, s')"
  obtain q where q: "pc_try_enqueue True core r (nv_get_in s) = (res, q)" "s' = nv_note res (pg_cb r) (s\<lparr>nv_get_in := q\<rparr>)"
    using c(2) by (auto simp: schedule_get_def split: prod.splits)
  have "pcq_inv (nv_get_in s)" using inv by (simp add: nv_inv_def nv_queues_ok_def)
  from pc_try_enqueue_items [OF this _ q(1)] c(1) inv show ?thesis
    by (auto simp: q(2) core_ok_def nv_note_def queued_def nv_account)
next
  assume c: "core_ok (nv_flush_in s) core" "schedule_flush core fr s = (res, s')"
  obtain q where q: "pc_try_enqueue True core fr (nv_flush_in s) = (res, q)" "s' = nv_note res (fl_cb fr) (s\<lparr>nv_flush_in := q\<rparr>)"
    using c(2) by (auto simp: schedule_flush_def split: prod.splits)
  have "pcq_inv (nv_flush_in s)" using inv by (simp add: nv_inv_def nv_queues_ok_def)
  from pc_try_enqueue_items [OF this _ q(1)] c(1) inv show ?thesis
    by (auto simp: q(2) core_ok_def nv_note_def queued_def nv_account)
next
  assume c: "core_ok (nv_trim_in s) core" "schedule_trim core tr s = (res, s')"
  obtain q where q: "pc_try_enqueue True core tr (nv_trim_in s) = (res, q)" "s' = nv_note res (tr_cb tr) (s\<lparr>nv_trim_in := q\<rparr>)"
    using c(2) by (auto simp: schedule_trim_def split: prod.splits)
  have "pcq_inv (nv_trim_in s)" using inv by (simp add: nv_inv_def nv_queues_ok_def)
  from pc_try_enqueue_items [OF this _ q(1)] c(1) inv show ?thesis
    by (auto simp: q(2) core_ok_def nv_note_def queued_def nv_account)
qed

lemma fetch_inv:
  assumes inv: "nv_inv s"
  shows "fetch_one (nv_put_in s) (nv_put_q s) = (again, q, l) \<Longrightarrow> nv_inv (s\<lparr>nv_put_in := q, nv_put_q := l\<rparr>)"
    and "fetch_one (nv_get_in s) (nv_get_q s) = (again, q, l) \<Longrightarrow> nv_inv (s\<lparr>nv_get_in := q, nv_get_q := l\<rparr>)"
    and "fetch_one (nv_flush_in s) (nv_flush_q s) = (again, fq, fl) \<Longrightarrow> nv_inv (s\<lparr>nv_flush_in := fq, nv_flush_q := fl\<rparr>)"
    and "fetch_one (nv_trim_in s) (nv_trim_q s) = (again, tq, tl') \<Longrightarrow> nv_inv (s\<lparr>nv_trim_in := tq, nv_trim_q := tl'\<rparr>)"
  using inv fetch_one_queued [of "nv_put_in s" "nv_put_q s" again q l pg_cb]
    fetch_one_queued [of "nv_get_in s" "nv_get_q s" again q l pg_cb]
    fetch_one_queued [of "nv_flush_in s" "nv_flush_q s" again fq fl fl_cb]
    fetch_one_queued [of "nv_trim_in s" "nv_trim_q s" again tq tl' tr_cb]
  by (simp_all add: nv_account)

lemma served_inv:
  assumes "nv_inv s" "nv_table_ok (\<lambda>_. 0) t" "nv_counted t"
    "nv_answered t + nv_busy_with t = add_mset c (nv_answered s + nv_busy_with s)"
    "nv_queues_ok t" "nv_accepted t = nv_accepted s" "nv_queued s = add_mset c (nv_queued t)"
  shows "nv_inv t"
  using assms by (simp add: nv_inv_def) (metis add_mset_add_single union_assoc union_commute)

lemma serve_put_inv:
  assumes inv: "nv_inv s" and go: "\<not> rq_empty (nv_put_q s)" "\<not> qp_busy s"
  shows "nv_inv (serve_put dev s)"
proof -
  have "rq_inv (nv_put_q s)" using inv by (simp add: nv_account)
  from rq_dequeue_queued [OF this go(1), of pg_cb "nv_put_in s"] obtain r l where
    l: "rq_dequeue (nv_put_q s) = (Some r, l)" "rq_inv l" "queued pg_cb (nv_put_in s) (nv_put_q s) = add_mset (pg_cb r) (queued pg_cb (nv_put_in s) l)"
    by blast
  let ?s = "s\<lparr>nv_put_q := l\<rparr>" and ?t = "spdk_put dev r (s\<lparr>nv_put_q := l\<rparr>)"
  have "nv_table_ok (\<lambda>_. 0) ?s" "nv_counted ?s" "\<not> qp_busy ?s" using inv go(2) by (simp_all add: nv_account qp_busy_def)
  from spdk_other_effect [OF this, of ?t "pg_cb r" dev r] have e: "nv_table_ok (\<lambda>_. 0) ?t" "nv_counted ?t"
    "nv_answered ?t + nv_busy_with ?t = add_mset (pg_cb r) (nv_answered s + nv_busy_with s)"
    by (auto simp: nv_account)
  have "nv_queues_ok ?t" "nv_accepted ?t = nv_accepted s" "nv_queued s = add_mset (pg_cb r) (nv_queued ?t)"
    using inv l by (simp_all add: nv_queued_def nv_queues_ok_def spdk_defs Let_def nv_inv_def)
  with inv e have "nv_inv ?t" by (rule served_inv)
  then show ?thesis by (simp add: serve_put_def l)
qed

lemma serve_get_inv:
  assumes inv: "nv_inv s" and go: "\<not> rq_empty (nv_get_q s)" "\<not> qp_busy s"
  shows "nv_inv (serve_get dev s)"
proof -
  have "rq_inv (nv_get_q s)" using inv by (simp add: nv_account)
  from rq_dequeue_queued [OF this go(1), of pg_cb "nv_get_in s"] obtain r l where
    l: "rq_dequeue (nv_get_q s) = (Some r, l)" "rq_inv l" "queued pg_cb (nv_get_in s) (nv_get_q s) = add_mset (pg_cb r) (queued pg_cb (nv_get_in s) l)"
    by blast
  let ?s = "s\<lparr>nv_get_q := l\<rparr>" and ?t = "merge_or_read dev r (s\<lparr>nv_get_q := l\<rparr>)"
  have "nv_table_ok (\<lambda>_. 0) ?s" "nv_counted ?s" "\<not> qp_busy ?s" using inv go(2) by (simp_all add: nv_account qp_busy_def)
  from merge_or_read_effect [OF this, of dev r] have e: "nv_table_ok (\<lambda>_. 0) ?t" "nv_counted ?t"
    "nv_answered ?t + nv_busy_with ?t = add_mset (pg_cb r) (nv_answered s + nv_busy_with s)"
    by (auto simp: nv_account)
  have "nv_queues_ok ?t" "nv_accepted ?t = nv_accepted s" "nv_queued s = add_mset (pg_cb r) (nv_queued ?t)"
    using inv l by (simp_all add: nv_queued_def nv_queues_ok_def nv_inv_def)
  with inv e have "nv_inv ?t" by (rule served_inv)
  then show ?thesis by (simp add: serve_get_def l)
qed

lemma serve_flush_inv:
  assumes inv: "nv_inv s" and go: "\<not> rq_empty (nv_flush_q s)" "\<not> qp_busy s"
  shows "nv_inv (serve_flush dev s)"
proof -
  have "rq_inv (nv_flush_q s)" using inv by (simp add: nv_account)
  from rq_dequeue_queued [OF this go(1), of fl_cb "nv_flush_in s"] obtain r l where
    l: "rq_dequeue (nv_flush_q s) = (Some r, l)" "rq_inv l" "queued fl_cb (nv_flush_in s) (nv_flush_q s) = add_mset (fl_cb r) (queued fl_cb (nv_flush_in s) l)"
    by blast
  let ?s = "s\<lparr>nv_flush_q := l\<rparr>" and ?t = "spdk_flush dev r (s\<lparr>nv_flush_q := l\<rparr>)"
  have "nv_table_ok (\<lambda>_. 0) ?s" "nv_counted ?s" "\<not> qp_busy ?s" using inv go(2) by (simp_all add: nv_account qp_busy_def)
  from spdk_other_effect [OF this, of ?t "fl_cb r" dev \<open>\<lparr>pg_flags = 0, pg_page = 0, pg_cb = 0\<rparr>\<close> r] have e: "nv_table_ok (\<lambda>_. 0) ?t" "nv_counted ?t"
    "nv_answered ?t + nv_busy_with ?t = add_mset (fl_cb r) (nv_answered s + nv_busy_with s)"
    by (auto simp: nv_account)
  have "nv_queues_ok ?t" "nv_accepted ?t = nv_accepted s" "nv_queued s = add_mset (fl_cb r) (nv_queued ?t)"
    using inv l by (simp_all add: nv_queued_def nv_queues_ok_def spdk_defs Let_def nv_inv_def)
  with inv e have "nv_inv ?t" by (rule served_inv)
  then show ?thesis by (simp add: serve_flush_def l)
qed

lemma serve_trim_inv:
  assumes inv: "nv_inv s" and go: "\<not> rq_empty (nv_trim_q s)" "\<not> qp_busy s"
  shows "nv_inv (serve_trim dev s)"
proof -
  have "rq_inv (nv_trim_q s)" using inv by (simp add: nv_account)
  from rq_dequeue_queued [OF this go(1), of tr_cb "nv_trim_in s"] obtain r l where
    l: "rq_dequeue (nv_trim_q s) = (Some r, l)" "rq_inv l" "queued tr_cb (nv_trim_in s) (nv_trim_q s) = add_mset (tr_cb r) (queued tr_cb (nv_trim_in s) l)"
    by blast
  let ?s = "s\<lparr>nv_trim_q := l\<rparr>" and ?t = "spdk_trim dev r (s\<lparr>nv_trim_q := l\<rparr>)"
  have "nv_table_ok (\<lambda>_. 0) ?s" "nv_counted ?s" "\<not> qp_busy ?s" using inv go(2) by (simp_all add: nv_account qp_busy_def)
  from spdk_other_effect [OF this, of ?t "tr_cb r" dev \<open>\<lparr>pg_flags = 0, pg_page = 0, pg_cb = 0\<rparr>\<close> \<open>\<lparr>fl_cb = 0\<rparr>\<close> r] have e: "nv_table_ok (\<lambda>_. 0) ?t" "nv_counted ?t"
    "nv_answered ?t + nv_busy_with ?t = add_mset (tr_cb r) (nv_answered s + nv_busy_with s)"
    by (auto simp: nv_account)
  have "nv_queues_ok ?t" "nv_accepted ?t = nv_accepted s" "nv_queued s = add_mset (tr_cb r) (nv_queued ?t)"
    using inv l by (simp_all add: nv_queued_def nv_queues_ok_def spdk_defs Let_def nv_inv_def)
  with inv e have "nv_inv ?t" by (rule served_inv)
  then show ?thesis by (simp add: serve_trim_def l)
qed

lemma device_inv:
  assumes "nv_inv s" "i < length (nv_flight s)" shows "nv_inv (nv_complete i ok bytes s)"
proof -
  let ?t = "nv_complete i ok bytes s"
  have e: "nv_table_ok (\<lambda>_. 0) ?t" "nv_counted ?t" "nv_answered ?t + nv_busy_with ?t = nv_answered s + nv_busy_with s"
    using nv_complete_effect [OF assms(2), of ok bytes] assms(1) by (auto simp: nv_inv_def)
  have "nv_queues_ok ?t = nv_queues_ok s" "nv_accepted ?t = nv_accepted s" "nv_queued ?t = nv_queued s"
    by (simp_all add: nv_complete_def Let_def on_put_data_done_def on_flush_done_def on_trim_done_def nv_queues_ok_def
        nv_queued_def split: nv_cmd.split)
  with e assms(1) show ?thesis by (simp add: nv_inv_def) (metis union_assoc union_commute)
qed

lemma nv_step_inv: "nv_step dev s s' \<Longrightarrow> nv_inv s \<Longrightarrow> nv_inv s'"
  by (induction rule: nv_step.induct)
    (blast intro: arrive_inv fetch_inv serve_put_inv serve_get_inv serve_flush_inv serve_trim_inv device_inv)+

lemma nv_reach_inv: "nv_reach dev s0 s \<Longrightarrow> nv_inv s0 \<Longrightarrow> nv_inv s"
  by (induction rule: nv_reach.induct) (auto intro: nv_step_inv)

interpretation nv: request_contract "nv_reach dev" nv_inv "\<lambda>s. mset (nv_accepted s)" nv_answered
    "\<lambda>s. nv_queued s + nv_busy_with s" for dev
  by unfold_locales (erule (1) nv_reach_inv, simp add: nv_inv_def ac_simps)

lemma nv_new_inv:
  assumes "nv_new queue_depth local_depth depth pos sz bytes = Some s" "queue_depth \<noteq> 0" "Suc (unat depth) < 2 ^ 32"
  shows "nv_inv s"
proof -
  have items: "pcq_inv q \<and> pc_items q = []" if "pc_new d queue_depth (- 1) = Some q" for d :: 'r and q
    using pc_new_inv [OF that assms(2)] by (auto simp: pc_items_def)
  show ?thesis
    using assms(1,3)
    by (auto simp: nv_new_def Let_def nv_account nv_table_ok_def reads_of_def mt_new_inv queued_def rq_new_inv
        split: option.splits dest!: items)
qed

subsection \<open>advance is a sequence of these steps\<close>

lemma nv_reach_trans: "nv_reach dev s1 s2 \<Longrightarrow> nv_reach dev s0 s1 \<Longrightarrow> nv_reach dev s0 s2"
  by (induction rule: nv_reach.induct) (auto intro: nv_go)

lemma handle_put_reach: "nv_reach dev s (handle_put_queue dev s)"
proof (induction dev s rule: handle_put_queue.induct)
  case (1 dev s)
  show ?case
  proof (cases "rq_empty (nv_put_q s) \<or> qp_busy s")
    case False
    with 1 have "nv_reach dev (serve_put dev s) (handle_put_queue dev (serve_put dev s))" by simp
    from nv_reach_trans [OF this nv_go [OF nv_start turn_put]] False show ?thesis by (simp add: handle_put_queue.simps [of dev s])
  qed (simp add: handle_put_queue.simps nv_start)
qed

lemma handle_get_reach: "nv_reach dev s (handle_get_queue dev s)"
proof (induction dev s rule: handle_get_queue.induct)
  case (1 dev s)
  show ?case
  proof (cases "rq_empty (nv_get_q s) \<or> qp_busy s")
    case False
    with 1 have "nv_reach dev (serve_get dev s) (handle_get_queue dev (serve_get dev s))" by simp
    from nv_reach_trans [OF this nv_go [OF nv_start turn_get]] False show ?thesis by (simp add: handle_get_queue.simps [of dev s])
  qed (simp add: handle_get_queue.simps nv_start)
qed

lemma handle_flush_reach: "nv_reach dev s (handle_flush_queue dev s)"
proof (induction dev s rule: handle_flush_queue.induct)
  case (1 dev s)
  show ?case
  proof (cases "rq_empty (nv_flush_q s) \<or> qp_busy s")
    case False
    with 1 have "nv_reach dev (serve_flush dev s) (handle_flush_queue dev (serve_flush dev s))" by simp
    from nv_reach_trans [OF this nv_go [OF nv_start turn_flush]] False show ?thesis by (simp add: handle_flush_queue.simps [of dev s])
  qed (simp add: handle_flush_queue.simps nv_start)
qed

lemma handle_trim_reach: "nv_reach dev s (handle_trim_queue dev s)"
proof (induction dev s rule: handle_trim_queue.induct)
  case (1 dev s)
  show ?case
  proof (cases "rq_empty (nv_trim_q s) \<or> qp_busy s")
    case False
    with 1 have "nv_reach dev (serve_trim dev s) (handle_trim_queue dev (serve_trim dev s))" by simp
    from nv_reach_trans [OF this nv_go [OF nv_start turn_trim]] False show ?thesis by (simp add: handle_trim_queue.simps [of dev s])
  qed (simp add: handle_trim_queue.simps nv_start)
qed

lemma fetch_loop_reach:
  assumes "\<And>q l again q' l'. fetch_one q l = (again, q', l') \<Longrightarrow> nv_step dev (upd q l) (upd q' l')"
  shows "nv_reach dev (upd q l) (upd (fst (fetch_loop q l)) (snd (fetch_loop q l)))"
proof (induction q l rule: fetch_loop.induct)
  case (1 q l)
  obtain again q' l' where o: "fetch_one q l = (again, q', l')" by (cases "fetch_one q l") auto
  have s: "nv_reach dev (upd q l) (upd q' l')" by (rule nv_go [OF nv_start assms [OF o]])
  show ?case
  proof (cases again)
    case True
    with 1 [OF o [symmetric] refl] o have "nv_reach dev (upd q' l') (upd (fst (fetch_loop q' l')) (snd (fetch_loop q' l')))" by simp
    from nv_reach_trans [OF this s] True o show ?thesis by (simp add: fetch_loop.simps [of q l])
  qed (use o s in \<open>simp add: fetch_loop.simps [of q l]\<close>)
qed

lemma nv_fetch_reach: "nv_reach dev s (nv_fetch s)"
proof -
  note steps = fetch_put fetch_get fetch_flush fetch_trim
  let ?p = "\<lambda>s. fetch_loop (nv_put_in s) (nv_put_q s)" and ?g = "\<lambda>s. fetch_loop (nv_get_in s) (nv_get_q s)"
    and ?f = "\<lambda>s. fetch_loop (nv_flush_in s) (nv_flush_q s)" and ?t = "\<lambda>s. fetch_loop (nv_trim_in s) (nv_trim_q s)"
  have p: "nv_reach dev s (s\<lparr>nv_put_in := fst (?p s), nv_put_q := snd (?p s)\<rparr>)" for s
    using fetch_loop_reach [of dev "\<lambda>q l. s\<lparr>nv_put_in := q, nv_put_q := l\<rparr>" "nv_put_in s" "nv_put_q s"]
      fetch_put [where s = "s\<lparr>nv_put_in := _, nv_put_q := _\<rparr>" and dev = dev] by fastforce
  have g: "nv_reach dev s (s\<lparr>nv_get_in := fst (?g s), nv_get_q := snd (?g s)\<rparr>)" for s
    using fetch_loop_reach [of dev "\<lambda>q l. s\<lparr>nv_get_in := q, nv_get_q := l\<rparr>" "nv_get_in s" "nv_get_q s"]
      fetch_get [where s = "s\<lparr>nv_get_in := _, nv_get_q := _\<rparr>" and dev = dev] by fastforce
  have f: "nv_reach dev s (s\<lparr>nv_flush_in := fst (?f s), nv_flush_q := snd (?f s)\<rparr>)" for s
    using fetch_loop_reach [of dev "\<lambda>q l. s\<lparr>nv_flush_in := q, nv_flush_q := l\<rparr>" "nv_flush_in s" "nv_flush_q s"]
      fetch_flush [where s = "s\<lparr>nv_flush_in := _, nv_flush_q := _\<rparr>" and dev = dev] by fastforce
  have t: "nv_reach dev s (s\<lparr>nv_trim_in := fst (?t s), nv_trim_q := snd (?t s)\<rparr>)" for s
    using fetch_loop_reach [of dev "\<lambda>q l. s\<lparr>nv_trim_in := q, nv_trim_q := l\<rparr>" "nv_trim_in s" "nv_trim_q s"]
      fetch_trim [where s = "s\<lparr>nv_trim_in := _, nv_trim_q := _\<rparr>" and dev = dev] by fastforce
  let ?s1 = "s\<lparr>nv_put_in := fst (?p s), nv_put_q := snd (?p s)\<rparr>"
  let ?s2 = "?s1\<lparr>nv_get_in := fst (?g s), nv_get_q := snd (?g s)\<rparr>"
  let ?s3 = "?s2\<lparr>nv_flush_in := fst (?f s), nv_flush_q := snd (?f s)\<rparr>"
  have 2: "nv_reach dev s ?s2" using nv_reach_trans [OF g [of ?s1] p] by simp
  have 3: "nv_reach dev s ?s3" using nv_reach_trans [OF f [of ?s2] 2] by simp
  have "nv_reach dev s (?s3\<lparr>nv_trim_in := fst (?t s), nv_trim_q := snd (?t s)\<rparr>)"
    using nv_reach_trans [OF t [of ?s3] 3] by simp
  then show ?thesis by (simp add: nv_fetch_def split_def Let_def)
qed

lemma spdk_poll_reach: "nv_reach dev s (spdk_poll cs s)"
  by (induction cs s rule: spdk_poll.induct) (auto intro: nv_start nv_reach_trans [OF _ nv_go [OF nv_start device]])

lemma nv_advance_reach: "nv_reach dev s (snd (nv_advance dev cs s))"
proof -
  let ?s1 = "handle_trim_queue dev (handle_flush_queue dev (handle_get_queue dev (handle_put_queue dev (nv_fetch s))))"
  have "nv_reach dev s ?s1"
    by (intro nv_reach_trans [OF handle_trim_reach] nv_reach_trans [OF handle_flush_reach]
        nv_reach_trans [OF handle_get_reach] nv_reach_trans [OF handle_put_reach] nv_fetch_reach)
  then show ?thesis using nv_reach_trans [OF spdk_poll_reach] by (auto simp: nv_advance_def Let_def)
qed

subsection \<open>What the application relies on\<close>

lemma waiting_read_in_flight:
  assumes "nv_inv s" "r \<in># mt_waiting (nv_merge s)"
  shows "\<exists>r'. Read r' True \<in> set (nv_flight s) \<and> nv_page_pos s (pg_page r') = nv_page_pos s (pg_page r)"
proof -
  have t: "nv_table_ok (\<lambda>_. 0) s" using assms(1) by (simp add: nv_inv_def)
  then have "slots_of (nv_page_pos s (pg_page r)) (nv_merge s) \<noteq> 0"
    using mt_waiting_slot [OF _ assms(2), of "\<lambda>r. nv_page_pos s (pg_page r)"] by (simp add: nv_table_ok_def)
  with t have "reads_of (nv_page_pos s (pg_page r)) s \<noteq> 0"
    unfolding nv_table_ok_def by (metis add_0_right le_zero_eq)
  then obtain c where "c \<in> set (nv_flight s)" "read_at (nv_page_pos s) (nv_page_pos s (pg_page r)) c \<noteq> 0"
    by (auto simp: reads_of_def)
  then show ?thesis by - (cases c, auto split: if_splits)
qed

lemma nothing_in_flight:
  assumes "nv_inv s" "nv_flight s = []" shows "nv_busy_with s = {#}"
proof -
  have "mt_waiting (nv_merge s) = {#}"
    using waiting_read_in_flight [OF assms(1)] assms(2) by (metis list.set(1) empty_iff multiset_nonemptyE)
  then show ?thesis by (simp add: nv_busy_with_def assms(2))
qed

text \<open>advance serves requests and accepts none.\<close>

lemma serve_accepted [simp]:
  "nv_accepted (serve_put dev s) = nv_accepted s" "nv_accepted (serve_get dev s) = nv_accepted s"
  "nv_accepted (serve_flush dev s) = nv_accepted s" "nv_accepted (serve_trim dev s) = nv_accepted s"
  "nv_accepted (nv_complete i ok bytes s) = nv_accepted s"
  by (simp_all add: serve_put_def serve_get_def serve_flush_def serve_trim_def nv_complete_def spdk_defs Let_def
      split: option.split prod.split nv_cmd.split)

lemma handle_put_accepted [simp]: "nv_accepted (handle_put_queue dev s) = nv_accepted s"
  by (induction dev s rule: handle_put_queue.induct) (subst handle_put_queue.simps, simp)

lemma handle_get_accepted [simp]: "nv_accepted (handle_get_queue dev s) = nv_accepted s"
  by (induction dev s rule: handle_get_queue.induct) (subst handle_get_queue.simps, simp)

lemma handle_flush_accepted [simp]: "nv_accepted (handle_flush_queue dev s) = nv_accepted s"
  by (induction dev s rule: handle_flush_queue.induct) (subst handle_flush_queue.simps, simp)

lemma handle_trim_accepted [simp]: "nv_accepted (handle_trim_queue dev s) = nv_accepted s"
  by (induction dev s rule: handle_trim_queue.induct) (subst handle_trim_queue.simps, simp)

lemma nv_advance_accepted: "nv_accepted (snd (nv_advance dev cs s)) = nv_accepted s"
proof -
  have "nv_accepted (spdk_poll cs s) = nv_accepted s" for s
    by (induction cs s rule: spdk_poll.induct) auto
  moreover have "nv_accepted (nv_fetch s) = nv_accepted s" by (simp add: nv_fetch_def split_def Let_def)
  ultimately show ?thesis by (simp add: nv_advance_def Let_def)
qed

text \<open>
  C7: every request the NVMe scheduler accepted is answered exactly once or still
  owed: in every reachable state the callbacks called, together with the requests in
  the queues, in flight and merged onto a read in flight, are exactly the accepted
  ones. A merged read always waits for a read of the same page that is in flight, so
  when the queues are empty and the device holds nothing, all have been answered.
  The device never holds more than one command above the configured depth.
\<close>

theorem nvme_requests_answered_once:
  assumes "nv_new queue_depth local_depth depth pos sz bytes = Some s0" "queue_depth \<noteq> 0"
    "Suc (unat depth) < 2 ^ 32" "nv_reach dev s0 s"
  shows "nv_answered s + nv_queued s + nv_busy_with s = mset (nv_accepted s)
    \<and> (\<forall>r. r \<in># mt_waiting (nv_merge s) \<longrightarrow>
        (\<exists>r'. Read r' True \<in> set (nv_flight s) \<and> nv_page_pos s (pg_page r') = nv_page_pos s (pg_page r)))
    \<and> (nv_flight s = [] \<and> nv_queued s = {#} \<longrightarrow> nv_answered s = mset (nv_accepted s))
    \<and> unat (nv_used s) = length (nv_flight s) \<and> length (nv_flight s) \<le> Suc (unat (nv_depth s))"
proof -
  have inv: "nv_inv s" using nv_reach_inv [OF assms(4)] nv_new_inv [OF assms(1-3)] by blast
  then show ?thesis
    using waiting_read_in_flight [OF inv] nothing_in_flight [OF inv]
    by (auto simp: nv_inv_def nv_counted_def)
qed

text \<open>Two reads of the same page arrive, then the scheduler advances.\<close>

lemma nvme_requests_answered_once_witness:
  "\<exists>s0 s. nv_reach (\<lambda>_. 0) s0 s \<and> nv_accepted s = [7, 8]
     \<and> nv_answered s + nv_queued s + nv_busy_with s = {#7, 8#} \<and> length (nv_flight s) \<le> Suc (unat (nv_depth s))"
proof -
  have "nv_new 4 4 1 (\<lambda>_. 0) (\<lambda>_. 1) (\<lambda>_. [0]) \<noteq> None"
    by (simp add: nv_new_def pc_new_def lq_new_def sp_new_def Let_def)
  then obtain s0 where s0: "nv_new 4 4 1 (\<lambda>_. 0) (\<lambda>_. 1) (\<lambda>_. [0]) = Some s0" by blast
  let ?r = "\<lambda>c. \<lparr>pg_flags = 0, pg_page = 3, pg_cb = c\<rparr>"
  let ?q0 = "nv_get_in s0"
  have f: "pcq_inv ?q0" "pc_items ?q0 = []" "pc_capacity ?q0 = 4" "nv_accepted s0 = []"
    using s0 by (auto simp: nv_new_def Let_def dest!: pc_new_items split: option.splits)
  have c: "core_ok q 0" for q :: "page_req pcqueue" by (simp add: core_ok_def MAX_CORES_def)
  obtain a where a: "pc_try_enqueue True 0 (?r 7) ?q0 = (Pc_Ok, a)" "pcq_inv a" "pc_capacity a = 4" "length (pc_items a) = 1"
    using pc_enqueue_room [OF f(1) c, of True "?r 7"] f by auto
  obtain b where b: "pc_try_enqueue True 0 (?r 8) a = (Pc_Ok, b)"
    using pc_enqueue_room [OF a(2) c, of True "?r 8"] a by auto
  note e = a(1) b f(4)
  let ?s1 = "s0\<lparr>nv_get_in := a, nv_accepted := [7]\<rparr>"
  let ?s2 = "?s1\<lparr>nv_get_in := b, nv_accepted := [7, 8]\<rparr>"
  have "schedule_get 0 (?r 7) s0 = (Pc_Ok, ?s1)" "schedule_get 0 (?r 8) ?s1 = (Pc_Ok, ?s2)"
    by (simp_all add: schedule_get_def nv_note_def e)
  then have r: "nv_reach (\<lambda>_. 0) s0 ?s2"
    by (intro nv_go [OF nv_go [OF nv_start arrive_get] arrive_get]) (simp_all add: c)
  let ?s = "snd (nv_advance (\<lambda>_. 0) [] ?s2)"
  have reach: "nv_reach (\<lambda>_. 0) s0 ?s" by (rule nv_reach_trans [OF nv_advance_reach r])
  have "nv_accepted ?s = [7, 8]" by (simp add: nv_advance_accepted)
  moreover have "nv_answered ?s + nv_queued ?s + nv_busy_with ?s = mset (nv_accepted ?s)"
    "length (nv_flight ?s) \<le> Suc (unat (nv_depth ?s))"
    using nvme_requests_answered_once [OF s0 _ _ reach] by auto
  ultimately show ?thesis using reach by (intro exI [of _ s0] exI [of _ ?s]) (simp add: ac_simps)
qed

end
