(* ===== verification/Tcp_Session.thy ===== *)
theory Tcp_Session
  imports Frame_Receiver
begin

section \<open>The TCP session\<close>

text \<open>
  A TCP session is the composition \<^verbatim>\<open>session_t<tcp_bind, tcp_ring_buffer, frame_receiver,
  session_lifecycle>\<close> (\<^verbatim>\<open>src/env/scheduler/net/common/session.hh\<close> and
  \<^verbatim>\<open>tcp/common/layers.hh\<close>): a tag goes to the first layer that answers it
  (\<open>invoke\<close>) or to all of them (\<open>broadcast\<close>). The callbacks a session makes
  are recorded in their order in \<open>ts_events\<close>; \<open>ts_deleted\<close> is the \<^verbatim>\<open>delete &self\<close>
  of the lifecycle layer. The unpacker is the default one, \<^verbatim>\<open>length_prefix_unpacker\<close>.
\<close>

record tcp_session =
  ts_bind :: tcp_bind
  ts_buf :: packet_buffer
  ts_recv :: "nat frame_receiver"
  ts_life :: session_lifecycle
  ts_deleted :: bool
  ts_events :: "nat recv_event list"

datatype net_tag = On_Frame net_frame | On_Error | Do_Close | Do_Recv nat | Pipeline_End | Read_End

fun bind_layer :: "net_tag \<Rightarrow> (tcp_session \<Rightarrow> tcp_session) option" where
  "bind_layer Do_Close = Some (\<lambda>s. s\<lparr>ts_bind := tcp_bind_close (ts_bind s)\<rparr>)"
| "bind_layer On_Error = Some (\<lambda>s. s\<lparr>ts_bind := tcp_bind_error (ts_bind s)\<rparr>)"
| "bind_layer _ = None"

definition recv_step :: "nat fr_op \<Rightarrow> tcp_session \<Rightarrow> tcp_session" where
  "recv_step op s = (let (es, r) = fr_step (ts_recv s) op in s\<lparr>ts_recv := r, ts_events := ts_events s @ es\<rparr>)"

fun recv_layer :: "net_tag \<Rightarrow> (tcp_session \<Rightarrow> tcp_session) option" where
  "recv_layer (On_Frame f) = Some (recv_step (Fr_Frame f))"
| "recv_layer (Do_Recv r) = Some (recv_step (Fr_Recv r))"
| "recv_layer On_Error = Some (recv_step Fr_Error)"
| "recv_layer _ = None"

text \<open>
  The lifecycle layer closes the session through its owner (the \<open>bind_layer\<close>) before it
  deletes it.
\<close>

definition close_and_delete :: "tcp_session \<Rightarrow> tcp_session" where
  "close_and_delete s =
     (case session_invoke [bind_layer] Do_Close s of Some s' \<Rightarrow> s'\<lparr>ts_deleted := True\<rparr> | None \<Rightarrow> s)"

fun life_layer :: "net_tag \<Rightarrow> (tcp_session \<Rightarrow> tcp_session) option" where
  "life_layer Pipeline_End = Some (\<lambda>s. let (del, l) = sl_pipeline_end (ts_life s); s' = s\<lparr>ts_life := l\<rparr> in
     if del then close_and_delete s' else s')"
| "life_layer Read_End = Some (\<lambda>s. let (del, l) = sl_read_end (ts_life s); s' = s\<lparr>ts_life := l\<rparr> in
     if del then close_and_delete s' else s')"
| "life_layer _ = None"

text \<open>\<open>tcp_ring_buffer\<close> answers only the tags of the read loop, which \<open>ts_read\<close> below models.\<close>

definition tcp_layers :: "(net_tag \<Rightarrow> (tcp_session \<Rightarrow> tcp_session) option) list" where
  "tcp_layers = [bind_layer, recv_layer, life_layer]"

definition ts_new :: "int \<Rightarrow> packet_buffer \<Rightarrow> tcp_session" where
  "ts_new fd buf = \<lparr>ts_bind = \<lparr>tb_fd = fd, tb_status = St_Normal\<rparr>, ts_buf = buf, ts_recv = fr_new 0,
     ts_life = sl_new, ts_deleted = False, ts_events = []\<rparr>"

definition ts_broadcast :: "net_tag \<Rightarrow> tcp_session \<Rightarrow> tcp_session" where
  "ts_broadcast tag s = session_broadcast tcp_layers tag s"

definition ts_invoke :: "net_tag \<Rightarrow> tcp_session \<Rightarrow> tcp_session" where
  "ts_invoke tag s = (case session_invoke tcp_layers tag s of Some s' \<Rightarrow> s' | None \<Rightarrow> s)"

text \<open>\<^verbatim>\<open>handle_session_error\<close> of the schedulers.\<close>

definition handle_session_error :: "tcp_session \<Rightarrow> tcp_session" where
  "handle_session_error s = ts_invoke Do_Close (ts_broadcast On_Error s)"

text \<open>
  \<open>on_recv\<close> with \<open>n\<close> bytes just read into the buffer: the unpacked frames go up one
  by one.
\<close>

definition ts_on_recv :: "32 word \<Rightarrow> tcp_session \<Rightarrow> tcp_session option" where
  "ts_on_recv n s =
     Option.bind (tcp_on_recv copy_out_frame n (ts_buf s))
       (\<lambda>(frames, b). Some (fold (\<lambda>f. ts_invoke (On_Frame f)) frames (s\<lparr>ts_buf := b\<rparr>)))"

subsection \<open>The tags on a session\<close>

lemma recv_step_keeps [simp]:
  "ts_bind (recv_step x s) = ts_bind s" "ts_buf (recv_step x s) = ts_buf s" "ts_life (recv_step x s) = ts_life s"
  "ts_deleted (recv_step x s) = ts_deleted s"
  by (simp_all add: recv_step_def split_def Let_def)

lemma ts_tags [simp]:
  "ts_invoke Do_Close s = s\<lparr>ts_bind := tcp_bind_close (ts_bind s)\<rparr>"
  "ts_invoke (On_Frame f) s = recv_step (Fr_Frame f) s"
  "ts_invoke (Do_Recv r) s = recv_step (Fr_Recv r) s"
  "ts_broadcast On_Error s = recv_step Fr_Error (s\<lparr>ts_bind := tcp_bind_error (ts_bind s)\<rparr>)"
  by (simp_all add: ts_invoke_def ts_broadcast_def tcp_layers_def)

lemma handle_session_error_closes:
  "tb_status (ts_bind (handle_session_error s)) = St_Closed \<and> tb_fd (ts_bind (handle_session_error s)) < 0"
  by (simp add: handle_session_error_def tcp_bind_close_def tcp_bind_error_def Let_def)

text \<open>The unpack loop of the default unpacker ends on every buffer.\<close>

lemma used_forward: "unat n \<le> unat (pb_used b) \<Longrightarrow> unat (pb_used (forward_head n b)) = unat (pb_used b) - unat n"
  by (simp add: forward_head_used unat_sub word_le_nat_alt)

lemma copy_out_progress:
  assumes "copy_out_frame b = (f, b')" "nf_len f \<noteq> 0"
  shows "unat (pb_used b') < unat (pb_used b)"
proof -
  let ?len = "handle_front 4 read_pkt_len b"
  let ?b1 = "forward_head 4 b" and ?p = "(ucast ?len :: u64) - 4"
  have ok: "?len \<noteq> 0xffffffff" "f = handle_front ?p frame_copier ?b1" "b' = forward_head ?p ?b1"
    using assms by (auto simp: copy_out_frame_def Let_def nf_none_def word_neq_0_conv split: if_splits)
  have four: "unat (4 :: u64) \<le> unat (pb_used b)"
    using ok(1) front_short [of b 4] handle_front_eq [of 4 read_pkt_len b]
    by (cases "unat (pb_used b) < unat (4 :: u64)") (auto simp: read_pkt_len_def)
  have "\<not> unat (pb_used ?b1) < unat ?p"
    using assms(2) ok(2) front_short [of ?b1 ?p] handle_front_eq [of ?p frame_copier ?b1]
    by (auto simp: frame_copier_def nf_none_def)
  then show ?thesis using four used_forward [OF four] used_forward [of ?p ?b1] ok(3) by simp
qed

lemma unpack_ends: "\<exists>fs b'. unpack_loop copy_out_frame b = Some (fs, b')"
proof (induction "unat (pb_used b)" arbitrary: b rule: less_induct)
  case less
  obtain f b1 where f: "copy_out_frame b = (f, b1)" by (cases "copy_out_frame b")
  show ?case
  proof (cases "nf_len f = 0")
    case True
    with f show ?thesis by (subst unpack_loop.simps) simp
  next
    case False
    from less [OF copy_out_progress [OF f False]] obtain fs b' where "unpack_loop copy_out_frame b1 = Some (fs, b')" by blast
    with f False show ?thesis by (subst unpack_loop.simps) simp
  qed
qed

lemma fold_recv_keeps [simp]:
  "ts_bind (fold (\<lambda>f. ts_invoke (On_Frame f)) fs s) = ts_bind s"
  "ts_life (fold (\<lambda>f. ts_invoke (On_Frame f)) fs s) = ts_life s"
  "ts_deleted (fold (\<lambda>f. ts_invoke (On_Frame f)) fs s) = ts_deleted s"
  by (induction fs arbitrary: s) simp_all

lemma ts_on_recv_total: "\<exists>s'. ts_on_recv n s = Some s' \<and> ts_bind s' = ts_bind s \<and> ts_life s' = ts_life s \<and> ts_deleted s' = ts_deleted s"
proof -
  obtain fs b where "unpack_loop copy_out_frame (forward_tail (scast n) (ts_buf s)) = Some (fs, b)"
    using unpack_ends by blast
  then show ?thesis by (simp add: ts_on_recv_def tcp_on_recv_def)
qed

end
