(* ===== verification/Tcp_Epoll.thy ===== *)
theory Tcp_Epoll
  imports Tcp_Session Queue_Accounting
begin

section \<open>The epoll session scheduler\<close>

text \<open>
  \<^verbatim>\<open>src/env/scheduler/net/tcp/epoll/scheduler.hh\<close>, \<open>session_scheduler\<close>: join, stop and
  send requests reach the scheduler's core through per-core queues; \<^verbatim>\<open>advance\<close> serves
  them, writes the requests of \<open>send_list\<close> and reads the sessions epoll reports.
  The kernel is a parameter: the results of \<^verbatim>\<open>epoll_ctl\<close> and \<^verbatim>\<open>writev\<close> are functions of
  a call counter, the events of a poll with the results of their reads an argument.
  A session pointer is a number (\<open>None\<close> the null pointer), a callback \<open>cb\<close> an
  identifier; calling it appends to \<open>es_answers\<close>. \<open>es_wire\<close> lists what \<^verbatim>\<open>writev\<close>
  took, \<open>es_issued\<close> the requests made. A callback may issue new requests; in the
  model these are separate steps.
\<close>

record session_req =
  sq_session :: "nat option"
  sq_cb :: nat

record sched_send = send_req +
  ss_cb :: nat

datatype write_result = W_Sent nat | W_Again | W_Error
datatype readv_result = R_Eof | R_Again | R_Error

record io_event =
  ev_session :: "nat option"
  ev_err :: bool
  ev_in :: bool
  ev_reads :: "byte list list"
  ev_last :: readv_result

record kernel =
  k_add :: "nat \<Rightarrow> bool"
  k_writev :: "nat \<Rightarrow> write_result"

record epoll_sched =
  es_join_q :: "session_req pcqueue"
  es_send_q :: "sched_send pcqueue"
  es_stop_q :: "session_req pcqueue"
  es_send_list :: "sched_send list"
  es_shutdown :: bool
  es_sessions :: "nat \<Rightarrow> tcp_session"
  es_calls :: nat
  es_answers :: "(nat \<times> bool) list"
  es_wire :: "(int \<times> byte list) list"
  es_issued :: "nat list"

definition no_send :: sched_send where
  "no_send = \<lparr>sr_fd = 0, sr_frame = nf_none, sr_vec = [], sr_cnt = 0, sr_hdr = [], ss_cb = 0\<rparr>"

definition es_new :: "u64 \<Rightarrow> (nat \<Rightarrow> tcp_session) \<Rightarrow> epoll_sched option" where
  "es_new depth sessions =
     (case (pc_new \<lparr>sq_session = None, sq_cb = 0\<rparr> depth (- 1), pc_new no_send depth (- 1)) of
        (Some q, Some sq) \<Rightarrow>
          Some \<lparr>es_join_q = q, es_send_q = sq, es_stop_q = q, es_send_list = [], es_shutdown = False,
            es_sessions = sessions, es_calls = 0, es_answers = [], es_wire = [], es_issued = []\<rparr>
      | _ \<Rightarrow> None)"

definition es_answer :: "nat \<Rightarrow> bool \<Rightarrow> epoll_sched \<Rightarrow> epoll_sched" where
  "es_answer cb ok s = s\<lparr>es_answers := es_answers s @ [(cb, ok)]\<rparr>"

subsection \<open>Requests from other cores\<close>

text \<open>
  The queues are declared with the default \<^verbatim>\<open>abort_on_full\<close>, so a full queue ends the
  process (\<open>None\<close>) and the branch that answers \<^verbatim>\<open>false\<close> is reached only with \<open>ab = False\<close>.
\<close>

definition issue :: "pc_result \<Rightarrow> nat \<Rightarrow> epoll_sched \<Rightarrow> epoll_sched option" where
  "issue res cb s =
     (let s1 = s\<lparr>es_issued := es_issued s @ [cb]\<rparr> in
      case res of Pc_Ok \<Rightarrow> Some s1 | Pc_Full \<Rightarrow> Some (es_answer cb False s1) | Pc_Abort \<Rightarrow> None)"

definition schedule_join :: "bool \<Rightarrow> u32 \<Rightarrow> session_req \<Rightarrow> epoll_sched \<Rightarrow> epoll_sched option" where
  "schedule_join ab core r s =
     (let (res, q) = pc_try_enqueue ab core r (es_join_q s) in issue res (sq_cb r) (s\<lparr>es_join_q := q\<rparr>))"

definition schedule_send :: "bool \<Rightarrow> u32 \<Rightarrow> sched_send \<Rightarrow> epoll_sched \<Rightarrow> epoll_sched option" where
  "schedule_send ab core r s =
     (let (res, q) = pc_try_enqueue ab core r (es_send_q s) in issue res (ss_cb r) (s\<lparr>es_send_q := q\<rparr>))"

definition schedule_stop :: "bool \<Rightarrow> u32 \<Rightarrow> session_req \<Rightarrow> epoll_sched \<Rightarrow> epoll_sched option" where
  "schedule_stop ab core r s =
     (let (res, q) = pc_try_enqueue ab core r (es_stop_q s) in issue res (sq_cb r) (s\<lparr>es_stop_q := q\<rparr>))"

definition es_shut_down :: "epoll_sched \<Rightarrow> epoll_sched" where
  "es_shut_down s = s\<lparr>es_shutdown := True\<rparr>"

subsection \<open>Joining and stopping\<close>

definition session_usable :: "nat option \<Rightarrow> epoll_sched \<Rightarrow> bool" where
  "session_usable p s \<longleftrightarrow> (case p of None \<Rightarrow> False | Some i \<Rightarrow> tb_status (ts_bind (es_sessions s i)) = St_Normal)"

definition handle_join :: "kernel \<Rightarrow> session_req \<Rightarrow> epoll_sched \<Rightarrow> epoll_sched" where
  "handle_join k r s =
     (if \<not> session_usable (sq_session r) s then es_answer (sq_cb r) False s
      else es_answer (sq_cb r) (k_add k (es_calls s)) (s\<lparr>es_calls := Suc (es_calls s)\<rparr>))"

definition handle_join_req :: "kernel \<Rightarrow> epoll_sched \<Rightarrow> epoll_sched" where
  "handle_join_req k s =
     (let (_, rs, q) = pc_drain (es_join_q s) in fold (handle_join k) rs (s\<lparr>es_join_q := q\<rparr>))"

definition on_session :: "nat \<Rightarrow> (tcp_session \<Rightarrow> tcp_session) \<Rightarrow> epoll_sched \<Rightarrow> epoll_sched" where
  "on_session p f s = s\<lparr>es_sessions := (es_sessions s)(p := f (es_sessions s p))\<rparr>"

definition handle_stop :: "session_req \<Rightarrow> epoll_sched \<Rightarrow> epoll_sched" where
  "handle_stop r s =
     (case sq_session r of
        None \<Rightarrow> es_answer (sq_cb r) False s
      | Some p \<Rightarrow>
          (if \<not> session_usable (Some p) s then es_answer (sq_cb r) False s
           else es_answer (sq_cb r) True (on_session p (ts_broadcast Read_End \<circ> handle_session_error) s)))"

definition handle_stop_req :: "epoll_sched \<Rightarrow> epoll_sched" where
  "handle_stop_req s =
     (let (_, rs, q) = pc_drain (es_stop_q s) in fold handle_stop rs (s\<lparr>es_stop_q := q\<rparr>))"

subsection \<open>Sending\<close>

definition send_len :: "sched_send \<Rightarrow> nat" where
  "send_len r = sum_list (map length (take (sr_cnt r) (sr_vec r)))"

text \<open>One pass over \<open>send_list\<close>: the requests that stay, and the new state.\<close>

fun send_pass :: "kernel \<Rightarrow> sched_send list \<Rightarrow> epoll_sched \<Rightarrow> sched_send list \<times> epoll_sched" where
  "send_pass k [] s = ([], s)"
| "send_pass k (r # rs) s =
     (let s1 = s\<lparr>es_calls := Suc (es_calls s)\<rparr> in
      case k_writev k (es_calls s) of
        W_Again \<Rightarrow> (let (kept, s') = send_pass k rs s1 in (r # kept, s'))
      | W_Error \<Rightarrow> send_pass k rs (es_answer (ss_cb r) False s1)
      | W_Sent n \<Rightarrow>
          (let res = min n (send_len r) in
           send_pass k rs (es_answer (ss_cb r) (res = send_len r)
             (s1\<lparr>es_wire := es_wire s1 @ [(sr_fd r, take res (send_bytes (send_req.truncate r)))]\<rparr>))))"

definition handle_send_request :: "kernel \<Rightarrow> epoll_sched \<Rightarrow> epoll_sched" where
  "handle_send_request k s =
     (let (_, rs, q) = pc_drain (es_send_q s);
          (kept, s') = send_pass k (es_send_list s @ rs) (s\<lparr>es_send_q := q, es_send_list := es_send_list s @ rs\<rparr>) in
      s'\<lparr>es_send_list := kept\<rparr>)"

subsection \<open>Reading\<close>

text \<open>
  The read loop of an edge-triggered session. \<open>chunks\<close> are the bytes the kernel has
  for the successive calls of \<^verbatim>\<open>readv\<close> (each returns what fits in the free space),
  \<open>fin\<close> the result of the call after them. \<^verbatim>\<open>readv\<close> returns 0 at the end of the
  stream, and also when the buffer has no free space.
\<close>

fun try_read_session :: "byte list list \<Rightarrow> readv_result \<Rightarrow> tcp_session \<Rightarrow> (bool \<times> tcp_session) option" where
  "try_read_session [] fin s =
     (if fin = R_Again then Some (True, s) else Some (False, handle_session_error s))"
| "try_read_session (c # cs) fin s =
     (let bs = take (sum_list (map (unat \<circ> snd) (make_iovec (ts_buf s)))) c in
      if bs = [] then Some (False, handle_session_error s)
      else Option.bind (ts_on_recv (of_nat (length bs)) (s\<lparr>ts_buf := pb_readv bs (ts_buf s)\<rparr>)) (\<lambda>s1.
        if tb_status (ts_bind s1) \<noteq> St_Normal then Some (False, handle_session_error s1)
        else try_read_session cs fin s1))"

definition handle_event :: "io_event \<Rightarrow> epoll_sched \<Rightarrow> epoll_sched option" where
  "handle_event e s =
     (case ev_session e of
        None \<Rightarrow> Some s
      | Some p \<Rightarrow>
          (if ev_err e then Some (on_session p (ts_broadcast Read_End \<circ> handle_session_error) s)
           else if ev_in e then
             Option.bind (try_read_session (ev_reads e) (ev_last e) (es_sessions s p)) (\<lambda>(ok, t).
               Some (on_session p (\<lambda>_. if ok then t else ts_broadcast Read_End t) s))
           else Some s))"

fun handle_events :: "io_event list \<Rightarrow> epoll_sched \<Rightarrow> epoll_sched option" where
  "handle_events [] s = Some s"
| "handle_events (e # es) s = Option.bind (handle_event e s) (handle_events es)"

subsection \<open>Shutdown and advance\<close>

definition drain_on_shutdown :: "epoll_sched \<Rightarrow> epoll_sched" where
  "drain_on_shutdown s =
     (let (_, js, jq) = pc_drain (es_join_q s); (_, ts, tq) = pc_drain (es_stop_q s); (_, ss, sq) = pc_drain (es_send_q s);
          fail = (\<lambda>cb. es_answer cb False) in
      (fold (fail \<circ> ss_cb) (es_send_list s)
        (fold (fail \<circ> ss_cb) ss (fold (fail \<circ> sq_cb) ts (fold (fail \<circ> sq_cb) js s))))
       \<lparr>es_join_q := jq, es_stop_q := tq, es_send_q := sq, es_send_list := []\<rparr>)"

definition es_advance :: "kernel \<Rightarrow> io_event list \<Rightarrow> epoll_sched \<Rightarrow> (bool \<times> epoll_sched) option" where
  "es_advance k events s =
     (if es_shutdown s then Some (False, drain_on_shutdown s)
      else Option.bind (handle_events events (handle_send_request k (handle_stop_req (handle_join_req k s))))
        (\<lambda>s'. Some (True, s')))"

subsection \<open>What is owed\<close>

definition es_owed :: "epoll_sched \<Rightarrow> nat multiset" where
  "es_owed s = image_mset sq_cb (mset (pc_items (es_join_q s))) + image_mset sq_cb (mset (pc_items (es_stop_q s)))
     + image_mset ss_cb (mset (pc_items (es_send_q s))) + image_mset ss_cb (mset (es_send_list s))"

definition es_answered :: "epoll_sched \<Rightarrow> nat multiset" where
  "es_answered s = image_mset fst (mset (es_answers s))"

definition es_inv :: "epoll_sched \<Rightarrow> bool" where
  "es_inv s \<longleftrightarrow> pcq_inv (es_join_q s) \<and> pcq_inv (es_stop_q s) \<and> pcq_inv (es_send_q s)
     \<and> es_answered s + es_owed s = mset (es_issued s)"

text \<open>\<open>answers_only cbs s s'\<close>: between \<open>s\<close> and \<open>s'\<close> the requests \<open>cbs\<close> are answered and the queues stay.\<close>

definition answers_only :: "nat multiset \<Rightarrow> epoll_sched \<Rightarrow> epoll_sched \<Rightarrow> bool" where
  "answers_only cbs s s' \<longleftrightarrow> es_answered s' = es_answered s + cbs \<and> es_join_q s' = es_join_q s
     \<and> es_stop_q s' = es_stop_q s \<and> es_send_q s' = es_send_q s \<and> es_send_list s' = es_send_list s
     \<and> es_issued s' = es_issued s \<and> es_shutdown s' = es_shutdown s"

lemma answers_only_refl [simp]: "answers_only {#} s s"
  by (simp add: answers_only_def)

lemma answers_only_trans: "answers_only a s s1 \<Longrightarrow> answers_only b s1 s2 \<Longrightarrow> answers_only (a + b) s s2"
  by (simp add: answers_only_def)

lemma answers_only_fold:
  assumes "\<And>r s. answers_only {#cb r#} s (f r s)"
  shows "answers_only (image_mset cb (mset rs)) s (fold f rs s)"
proof (induction rs arbitrary: s)
  case (Cons r rs)
  from answers_only_trans [OF assms [of r s] Cons.IH [of "f r s"]] show ?case by simp
qed simp

lemma es_answer_only: "answers_only {#cb#} s (es_answer cb ok s)"
  by (simp add: answers_only_def es_answer_def es_answered_def)

lemma on_session_only [simp]: "answers_only cbs s (on_session p f s') = answers_only cbs s s'"
  by (simp add: answers_only_def on_session_def es_answered_def)

lemma handle_join_only: "answers_only {#sq_cb r#} s (handle_join k r s)"
  using es_answer_only [of "sq_cb r" s False] es_answer_only [of "sq_cb r" "s\<lparr>es_calls := Suc (es_calls s)\<rparr>"]
  by (simp add: handle_join_def answers_only_def es_answered_def)

lemma handle_stop_only: "answers_only {#sq_cb r#} s (handle_stop r s)"
proof -
  have "answers_only {#sq_cb r#} s (es_answer (sq_cb r) ok (on_session p f s))" for ok p f
    by (simp add: answers_only_def es_answer_def es_answered_def on_session_def)
  then show ?thesis using es_answer_only by (simp add: handle_stop_def split: option.split)
qed

lemma send_pass_only:
  "send_pass k rs s = (kept, s') \<Longrightarrow>
    \<exists>cbs. answers_only cbs s s' \<and> cbs + image_mset ss_cb (mset kept) = image_mset ss_cb (mset rs)"
proof (induction rs arbitrary: s kept)
  case (Cons r rs)
  let ?s1 = "s\<lparr>es_calls := Suc (es_calls s)\<rparr>"
  have s1: "answers_only c ?s1 x = answers_only c s x" for c x by (simp add: answers_only_def es_answered_def)
  have ans: ?case if "send_pass k rs (es_answer (ss_cb r) ok s2) = (kept, s')" "answers_only {#} s s2" for ok s2
  proof -
    from Cons.IH [OF that(1)] obtain cbs where c: "answers_only cbs (es_answer (ss_cb r) ok s2) s'"
      "cbs + image_mset ss_cb (mset kept) = image_mset ss_cb (mset rs)" by blast
    have "answers_only ({#} + {#ss_cb r#} + cbs) s s'"
      by (rule answers_only_trans [OF answers_only_trans [OF that(2) es_answer_only] c(1)])
    with c(2) show ?thesis by (intro exI [of _ "add_mset (ss_cb r) cbs"]) simp
  qed
  show ?case
  proof (cases "k_writev k (es_calls s)")
    case (W_Sent n)
    let ?s2 = "?s1\<lparr>es_wire := es_wire s @ [(sr_fd r, take (min n (send_len r)) (send_bytes (send_req.truncate r)))]\<rparr>"
    have "send_pass k rs (es_answer (ss_cb r) (min n (send_len r) = send_len r) ?s2) = (kept, s')"
      using Cons.prems W_Sent by (simp add: Let_def)
    then show ?thesis by (rule ans) (simp add: answers_only_def es_answered_def)
  next
    case W_Again
    then obtain kept' where "send_pass k rs ?s1 = (kept', s')" "kept = r # kept'"
      using Cons.prems by (auto split: prod.splits)
    with Cons.IH [of ?s1 kept'] s1 show ?thesis by auto
  next
    case W_Error
    then show ?thesis using Cons.prems by (intro ans [of False ?s1]) (auto simp: answers_only_def es_answered_def)
  qed
qed simp

subsection \<open>The steps and the invariant\<close>

text \<open>
  Requests from any core, the shutdown flag, the application using the sessions
  (which leaves the scheduler's queues alone), and \<open>advance\<close> with any events.
\<close>

inductive es_step :: "bool \<Rightarrow> kernel \<Rightarrow> epoll_sched \<Rightarrow> epoll_sched \<Rightarrow> bool" for ab k where
  es_join: "core_ok (es_join_q s) core \<Longrightarrow> schedule_join ab core r s = Some s' \<Longrightarrow> es_step ab k s s'"
| es_stop: "core_ok (es_stop_q s) core \<Longrightarrow> schedule_stop ab core r s = Some s' \<Longrightarrow> es_step ab k s s'"
| es_send: "core_ok (es_send_q s) core \<Longrightarrow> schedule_send ab core sr s = Some s' \<Longrightarrow> es_step ab k s s'"
| es_shut: "es_step ab k s (es_shut_down s)"
| es_app: "es_step ab k s (s\<lparr>es_sessions := sessions\<rparr>)"
| es_turn: "es_advance k events s = Some (alive, s') \<Longrightarrow> es_step ab k s s'"

inductive es_reach :: "bool \<Rightarrow> kernel \<Rightarrow> epoll_sched \<Rightarrow> epoll_sched \<Rightarrow> bool" for ab k s0 where
  es_start: "es_reach ab k s0 s0"
| es_go: "es_reach ab k s0 s \<Longrightarrow> es_step ab k s s' \<Longrightarrow> es_reach ab k s0 s'"

lemmas es_account = es_inv_def es_owed_def es_answered_def

lemma issue_inv:
  assumes "pcq_inv q" "core_ok q core" "pc_try_enqueue ab core x q = (res, q')"
  shows "pcq_inv q' \<and> mset (pc_items q') = mset (pc_items q) + (if res = Pc_Ok then {#x#} else {#})"
  using pc_try_enqueue_items [OF assms(1,2)] assms(3) by simp

lemma arrive_keeps_inv:
  assumes inv: "es_inv s"
    and s': "core_ok (es_join_q s) core \<and> schedule_join ab core r s = Some s'
      \<or> core_ok (es_stop_q s) core \<and> schedule_stop ab core r s = Some s'
      \<or> core_ok (es_send_q s) core \<and> schedule_send ab core sr s = Some s'"
  shows "es_inv s'"
  using s'
proof (elim disjE conjE)
  assume c: "core_ok (es_join_q s) core" "schedule_join ab core r s = Some s'"
  then obtain res q where q: "pc_try_enqueue ab core r (es_join_q s) = (res, q)" "issue res (sq_cb r) (s\<lparr>es_join_q := q\<rparr>) = Some s'"
    by (auto simp: schedule_join_def split: prod.splits)
  from issue_inv [OF _ c(1) q(1)] q(2) inv show ?thesis
    by (cases res) (auto simp: issue_def Let_def es_answer_def es_account)
next
  assume c: "core_ok (es_stop_q s) core" "schedule_stop ab core r s = Some s'"
  then obtain res q where q: "pc_try_enqueue ab core r (es_stop_q s) = (res, q)" "issue res (sq_cb r) (s\<lparr>es_stop_q := q\<rparr>) = Some s'"
    by (auto simp: schedule_stop_def split: prod.splits)
  from issue_inv [OF _ c(1) q(1)] q(2) inv show ?thesis
    by (cases res) (auto simp: issue_def Let_def es_answer_def es_account)
next
  assume c: "core_ok (es_send_q s) core" "schedule_send ab core sr s = Some s'"
  then obtain res q where q: "pc_try_enqueue ab core sr (es_send_q s) = (res, q)" "issue res (ss_cb sr) (s\<lparr>es_send_q := q\<rparr>) = Some s'"
    by (auto simp: schedule_send_def split: prod.splits)
  from issue_inv [OF _ c(1) q(1)] q(2) inv show ?thesis
    by (cases res) (auto simp: issue_def Let_def es_answer_def es_account)
qed

lemma handle_join_req_inv: "es_inv s \<Longrightarrow> es_inv (handle_join_req k s)"
proof -
  assume inv: "es_inv s"
  obtain w rs q where d: "pc_drain (es_join_q s) = (w, rs, q)" by (cases "pc_drain (es_join_q s)")
  note q = pc_drain_items [OF _ d]
  have "answers_only (image_mset sq_cb (mset rs)) (s\<lparr>es_join_q := q\<rparr>) (handle_join_req k s)"
    using answers_only_fold [of sq_cb "handle_join k", OF handle_join_only] by (simp add: handle_join_req_def d)
  with q inv show ?thesis by (simp add: answers_only_def es_account ac_simps)
qed

lemma handle_stop_req_inv: "es_inv s \<Longrightarrow> es_inv (handle_stop_req s)"
proof -
  assume inv: "es_inv s"
  obtain w rs q where d: "pc_drain (es_stop_q s) = (w, rs, q)" by (cases "pc_drain (es_stop_q s)")
  note q = pc_drain_items [OF _ d]
  have "answers_only (image_mset sq_cb (mset rs)) (s\<lparr>es_stop_q := q\<rparr>) (handle_stop_req s)"
    using answers_only_fold [of sq_cb handle_stop, OF handle_stop_only] by (simp add: handle_stop_req_def d)
  with q inv show ?thesis by (simp add: answers_only_def es_account ac_simps)
qed

lemma handle_send_request_inv: "es_inv s \<Longrightarrow> es_inv (handle_send_request k s)"
proof -
  assume inv: "es_inv s"
  obtain w rs q where d: "pc_drain (es_send_q s) = (w, rs, q)" by (cases "pc_drain (es_send_q s)")
  note q = pc_drain_items [OF _ d]
  let ?s = "s\<lparr>es_send_q := q, es_send_list := es_send_list s @ rs\<rparr>"
  obtain kept t where p: "send_pass k (es_send_list s @ rs) ?s = (kept, t)" by (cases "send_pass k (es_send_list s @ rs) ?s")
  from send_pass_only [OF p] obtain cbs where c: "answers_only cbs ?s t"
    "cbs + image_mset ss_cb (mset kept) = image_mset ss_cb (mset (es_send_list s @ rs))" by blast
  have r: "handle_send_request k s = t\<lparr>es_send_list := kept\<rparr>" by (simp add: handle_send_request_def d p)
  let ?jt = "image_mset sq_cb (mset (pc_items (es_join_q s))) + image_mset sq_cb (mset (pc_items (es_stop_q s)))"
  have items: "rs = pc_items (es_send_q s)" "pcq_inv q" "pc_items q = []" using q inv by (simp_all add: es_inv_def)
  have "es_owed s = ?jt + (cbs + image_mset ss_cb (mset kept))"
    unfolding c(2) by (simp add: es_owed_def items ac_simps)
  moreover have "es_owed (t\<lparr>es_send_list := kept\<rparr>) = ?jt + image_mset ss_cb (mset kept)"
    using c(1) by (simp add: es_owed_def answers_only_def items)
  moreover have "es_answered (t\<lparr>es_send_list := kept\<rparr>) = es_answered s + cbs"
    using c(1) by (simp add: es_answered_def answers_only_def)
  moreover have "es_issued t = es_issued s" "es_join_q t = es_join_q s" "es_stop_q t = es_stop_q s" "es_send_q t = q"
    using c(1) by (simp_all add: answers_only_def)
  ultimately show ?thesis using inv items by (simp add: r es_inv_def ac_simps)
qed

text \<open>Reading always comes back, whatever the kernel delivers, and touches only the sessions.\<close>

lemma ex_bool [simp]: "\<exists>b. \<not> b" "\<exists>b. b"
  by auto

lemma try_read_total: "\<exists>ok t'. try_read_session chunks fin t = Some (ok, t')"
proof (induction chunks arbitrary: t)
  case (Cons c cs)
  let ?bs = "take (sum_list (map (unat \<circ> snd) (make_iovec (ts_buf t)))) c"
  obtain t1 where "ts_on_recv (of_nat (length ?bs)) (t\<lparr>ts_buf := pb_readv ?bs (ts_buf t)\<rparr>) = Some t1"
    using ts_on_recv_total by blast
  with Cons.IH [of t1] show ?case by (simp add: Let_def)
qed simp

lemma handle_event_only: "\<exists>s'. handle_event e s = Some s' \<and> answers_only {#} s s'"
proof (cases "ev_session e")
  case (Some p)
  obtain ok t' where "try_read_session (ev_reads e) (ev_last e) (es_sessions s p) = Some (ok, t')"
    using try_read_total by blast
  with Some show ?thesis by (simp add: handle_event_def)
qed (simp add: handle_event_def)

lemma handle_events_only: "\<exists>s'. handle_events es s = Some s' \<and> answers_only {#} s s'"
proof (induction es arbitrary: s)
  case (Cons e es)
  obtain s1 where s1: "handle_event e s = Some s1" "answers_only {#} s s1" using handle_event_only by blast
  obtain s2 where s2: "handle_events es s1 = Some s2" "answers_only {#} s1 s2" using Cons.IH by blast
  from answers_only_trans [OF s1(2) s2(2)] s1(1) s2(1) show ?case by simp
qed simp

lemma drain_on_shutdown_answers:
  assumes inv: "pcq_inv (es_join_q s)" "pcq_inv (es_stop_q s)" "pcq_inv (es_send_q s)"
  defines "s' \<equiv> drain_on_shutdown s"
  shows "pcq_inv (es_join_q s') \<and> pcq_inv (es_stop_q s') \<and> pcq_inv (es_send_q s') \<and> es_owed s' = {#}
    \<and> es_answered s' = es_answered s + es_owed s \<and> es_issued s' = es_issued s"
proof -
  obtain wj js jq where j: "pc_drain (es_join_q s) = (wj, js, jq)" by (cases "pc_drain (es_join_q s)")
  obtain wt ts tq where t: "pc_drain (es_stop_q s) = (wt, ts, tq)" by (cases "pc_drain (es_stop_q s)")
  obtain ws ss sq where s: "pc_drain (es_send_q s) = (ws, ss, sq)" by (cases "pc_drain (es_send_q s)")
  note d = pc_drain_items [OF _ j] pc_drain_items [OF _ t] pc_drain_items [OF _ s]
  have "answers_only (image_mset cb (mset rs)) s (fold ((\<lambda>cb. es_answer cb False) \<circ> cb) rs s)" for cb :: "'r \<Rightarrow> nat" and rs s
    by (rule answers_only_fold) (simp add: es_answer_only)
  note f = this
  let ?t1 = "fold ((\<lambda>cb. es_answer cb False) \<circ> sq_cb) js s"
  let ?t2 = "fold ((\<lambda>cb. es_answer cb False) \<circ> sq_cb) ts ?t1"
  let ?t3 = "fold ((\<lambda>cb. es_answer cb False) \<circ> ss_cb) ss ?t2"
  let ?t4 = "fold ((\<lambda>cb. es_answer cb False) \<circ> ss_cb) (es_send_list s) ?t3"
  have a: "answers_only (image_mset sq_cb (mset js) + image_mset sq_cb (mset ts) + image_mset ss_cb (mset ss)
      + image_mset ss_cb (mset (es_send_list s))) s ?t4"
    by (intro answers_only_trans) (rule f)+
  have "drain_on_shutdown s = ?t4\<lparr>es_join_q := jq, es_stop_q := tq, es_send_q := sq, es_send_list := []\<rparr>"
    by (simp add: drain_on_shutdown_def j t s Let_def)
  with a d inv show ?thesis by (simp add: s'_def answers_only_def es_account ac_simps)
qed

lemma drain_on_shutdown_inv:
  "es_inv s \<Longrightarrow> es_inv (drain_on_shutdown s) \<and> es_owed (drain_on_shutdown s) = {#} \<and> es_issued (drain_on_shutdown s) = es_issued s"
  using drain_on_shutdown_answers [of s] by (simp add: es_inv_def)

lemma es_advance_inv:
  assumes inv: "es_inv s"
  shows "\<exists>alive s'. es_advance k events s = Some (alive, s') \<and> es_inv s' \<and> (es_shutdown s \<longrightarrow> es_owed s' = {#})"
proof (cases "es_shutdown s")
  case True
  with drain_on_shutdown_inv [OF inv] show ?thesis by (simp add: es_advance_def)
next
  case False
  let ?s = "handle_send_request k (handle_stop_req (handle_join_req k s))"
  have "es_inv ?s" using inv by (intro handle_send_request_inv handle_stop_req_inv handle_join_req_inv)
  moreover obtain s' where "handle_events events ?s = Some s'" "answers_only {#} ?s s'" using handle_events_only by blast
  ultimately show ?thesis using False by (simp add: es_advance_def answers_only_def es_account)
qed

lemma es_step_inv: "es_step ab k s s' \<Longrightarrow> es_inv s \<Longrightarrow> es_inv s'"
proof (induction rule: es_step.induct)
  case (es_turn events s alive s')
  with es_advance_inv [of s k events] show ?case by auto
next
  case (es_shut s)
  then show ?case by (simp add: es_shut_down_def es_account)
next
  case (es_app s sessions)
  then show ?case by (simp add: es_account)
qed (blast intro: arrive_keeps_inv)+

lemma es_reach_inv: "es_reach ab k s0 s \<Longrightarrow> es_inv s0 \<Longrightarrow> es_inv s"
  by (induction rule: es_reach.induct) (auto intro: es_step_inv)

interpretation es: shutdown_contract "es_reach ab k" es_inv "\<lambda>s. mset (es_issued s)" es_answered es_owed drain_on_shutdown for ab k
  by unfold_locales (erule (1) es_reach_inv, use drain_on_shutdown_answers in \<open>simp_all add: es_inv_def\<close>)

lemma es_new_inv: "es_new depth sessions = Some s \<Longrightarrow> depth \<noteq> 0 \<Longrightarrow> es_inv s"
  by (auto simp: es_new_def es_account dest!: pc_new_items split: option.splits)

text \<open>
  C9: every join, stop and send request given to the TCP scheduler is answered
  exactly once or still owed, in every reachable state; \<open>advance\<close> always comes back,
  whatever the kernel reports; and after \<open>shutdown\<close> one \<open>advance\<close> answers all that
  is owed.
\<close>

theorem tcp_requests_answered_once:
  assumes "es_new depth sessions = Some s0" "depth \<noteq> 0" "es_reach ab k s0 s"
  shows "es_answered s + es_owed s = mset (es_issued s)
    \<and> (\<exists>alive s'. es_advance k events s = Some (alive, s')
        \<and> (es_shutdown s \<longrightarrow> es_answered s' = mset (es_issued s')))"
proof -
  have new: "es_inv s0" by (rule es_new_inv [OF assms(1,2)])
  have "es_inv s" by (rule es.reach_inv [OF assms(3) new])
  with es_advance_inv [OF this, of k events] es.none_left es.settled [OF assms(3) new] show ?thesis by fastforce
qed

text \<open>A send request arrives and the scheduler is shut down; the next \<open>advance\<close> answers it.\<close>

lemma tcp_requests_answered_once_witness:
  "\<exists>s0 s. es_reach True \<lparr>k_add = \<lambda>_. True, k_writev = \<lambda>_. W_Again\<rparr> s0 s \<and> es_issued s = [9]
     \<and> es_answered s + es_owed s = {#9#}
     \<and> (\<exists>alive s'. es_advance \<lparr>k_add = \<lambda>_. True, k_writev = \<lambda>_. W_Again\<rparr> [] s = Some (alive, s')
          \<and> es_answered s' = mset (es_issued s'))"
proof -
  let ?k = "\<lparr>k_add = \<lambda>_. True, k_writev = \<lambda>_. W_Again\<rparr>" and ?r = "no_send\<lparr>ss_cb := 9\<rparr>"
  let ?t = "ts_new 3 \<lparr>pb_data = [], pb_size = 0, pb_head = 0, pb_tail = 0\<rparr>"
  obtain s0 where s0: "es_new 4 (\<lambda>_. ?t) = Some s0"
    by (simp add: es_new_def pc_new_def lq_new_def sp_new_def)
  then have f: "pcq_inv (es_send_q s0)" "pc_items (es_send_q s0) = []" "pc_capacity (es_send_q s0) = 4" "es_issued s0 = []"
    by (auto simp: es_new_def dest!: pc_new_items split: option.splits)
  then have c: "core_ok (es_send_q s0) 0" by (simp add: core_ok_def MAX_CORES_def)
  have q: "pc_try_enqueue True 0 ?r (es_send_q s0) = (Pc_Ok, snd (pc_try_enqueue True 0 ?r (es_send_q s0)))"
    using pc_enqueue_room [OF f(1) c, of True ?r] f by auto
  let ?s1 = "s0\<lparr>es_send_q := snd (pc_try_enqueue True 0 ?r (es_send_q s0)), es_issued := [9]\<rparr>"
  have "schedule_send True 0 ?r s0 = Some ?s1"
    unfolding schedule_send_def by (subst q) (simp add: issue_def f(4))
  then have "es_reach True ?k s0 (es_shut_down ?s1)"
    by (intro es_go [OF es_go [OF es_start es_send] es_shut]) (simp_all add: c)
  note r = this tcp_requests_answered_once [OF s0 _ this, of "[]"]
  then show ?thesis by (intro exI [of _ s0] exI [of _ "es_shut_down ?s1"]) (simp add: es_shut_down_def)
qed

subsection \<open>The bytes of a connection\<close>

text \<open>
  What one file descriptor has been given, and the bytes of the requests for it. A
  pass is \<open>orderly\<close> when \<^verbatim>\<open>writev\<close> takes whole requests and, once it has refused a
  file descriptor, refuses it until the end of the pass.
\<close>

definition wire_of :: "int \<Rightarrow> epoll_sched \<Rightarrow> byte list" where
  "wire_of fd s = concat (map snd (filter (\<lambda>w. fst w = fd) (es_wire s)))"

definition bytes_of :: "int \<Rightarrow> sched_send list \<Rightarrow> byte list" where
  "bytes_of fd rs = concat (map (\<lambda>r. send_bytes (send_req.truncate r)) (filter (\<lambda>r. sr_fd r = fd) rs))"

fun orderly :: "kernel \<Rightarrow> nat \<Rightarrow> int set \<Rightarrow> sched_send list \<Rightarrow> bool" where
  "orderly k c refused [] = True"
| "orderly k c refused (r # rs) =
     (case k_writev k c of
        W_Again \<Rightarrow> orderly k (Suc c) (insert (sr_fd r) refused) rs
      | W_Error \<Rightarrow> False
      | W_Sent n \<Rightarrow> sr_fd r \<notin> refused \<and> send_len r \<le> n \<and> orderly k (Suc c) refused rs)"

lemma send_len_bytes: "length (send_bytes (send_req.truncate r)) = send_len r"
  by (simp add: send_bytes_def send_len_def length_concat send_req.truncate_def)

lemma es_answer_wire [simp]: "es_wire (es_answer cb ok s) = es_wire s" "es_calls (es_answer cb ok s) = es_calls s"
  by (simp_all add: es_answer_def)

lemma send_pass_wire:
  assumes "orderly k (es_calls s) refused rs" "send_pass k rs s = (kept, s')"
  shows "wire_of fd s' @ bytes_of fd kept = wire_of fd s @ bytes_of fd rs
    \<and> (fd \<in> refused \<longrightarrow> wire_of fd s' = wire_of fd s)"
  using assms
proof (induction rs arbitrary: s kept refused)
  case (Cons r rs)
  let ?s1 = "s\<lparr>es_calls := Suc (es_calls s)\<rparr>" and ?b = "send_bytes (send_req.truncate r)"
  show ?case
  proof (cases "k_writev k (es_calls s)")
    case (W_Sent n)
    let ?s2 = "es_answer (ss_cb r) True (?s1\<lparr>es_wire := es_wire s @ [(sr_fd r, ?b)]\<rparr>)"
    have o: "sr_fd r \<notin> refused" "send_len r \<le> n" "orderly k (es_calls ?s2) refused rs"
      using Cons.prems(1) W_Sent by auto
    then have "send_pass k rs ?s2 = (kept, s')"
      using Cons.prems(2) W_Sent send_len_bytes [of r] by (simp add: Let_def)
    from Cons.IH [OF o(3) this] o(1) show ?thesis by (auto simp: wire_of_def bytes_of_def)
  next
    case W_Again
    then obtain kept' where k: "send_pass k rs ?s1 = (kept', s')" "kept = r # kept'"
      using Cons.prems(2) by (auto split: prod.splits)
    have "orderly k (es_calls ?s1) (insert (sr_fd r) refused) rs" using Cons.prems(1) W_Again by simp
    from Cons.IH [OF this k(1)] have ih: "wire_of fd s' @ bytes_of fd kept' = wire_of fd s @ bytes_of fd rs"
      "fd = sr_fd r \<or> fd \<in> refused \<longrightarrow> wire_of fd s' = wire_of fd s" by (auto simp: wire_of_def)
    then show ?thesis by (cases "sr_fd r = fd") (auto simp: k(2) bytes_of_def)
  next
    case W_Error
    with Cons.prems(1) show ?thesis by simp
  qed
qed (simp add: wire_of_def bytes_of_def)

lemma deframe_wires:
  "(\<forall>p \<in> set ps. p \<noteq> [] \<and> length p + 4 < 2 ^ 32) \<Longrightarrow> deframe (concat (map tcp_wire ps)) = (ps, [])"
proof (induction ps)
  case Nil
  show ?case by (subst deframe.simps) simp
next
  case (Cons p ps)
  then show ?case using deframe_wire [of p "concat (map tcp_wire ps)"] by simp
qed

text \<open>
  C11: in an orderly pass the scheduler gives every connection its requests in the
  order they were queued: what \<^verbatim>\<open>writev\<close> took followed by what is still to be sent is
  what was taken and queued before, whatever the payloads are. So when the sends of a new
  connection all left and none of their payloads is empty, the peer's parser of the
  length-prefixed stream finds exactly the payloads sent. An empty payload is sent like any
  other but stops the parser (\<open>tcp_empty_payload_stalls\<close>), hence the condition.
\<close>

theorem tcp_sends_in_order:
  assumes "es_inv s" "orderly k (es_calls s) {} (es_send_list s @ pc_items (es_send_q s))"
    and "s' = handle_send_request k s"
  shows "wire_of fd s' @ bytes_of fd (es_send_list s')
      = wire_of fd s @ bytes_of fd (es_send_list s @ pc_items (es_send_q s))
    \<and> (wire_of fd s = [] \<and> bytes_of fd (es_send_list s') = [] \<and> (\<forall>p \<in> set ps. p \<noteq> [] \<and> length p + 4 < 2 ^ 32)
        \<and> map send_req.truncate (filter (\<lambda>r. sr_fd r = fd) (es_send_list s @ pc_items (es_send_q s)))
          = map (\<lambda>p. tcp_do_send length_prefix_prepare_send bind p []) ps
       \<longrightarrow> deframe (wire_of fd s') = (ps, []))"
proof -
  let ?rs = "es_send_list s @ pc_items (es_send_q s)"
  obtain w rs q where d: "pc_drain (es_send_q s) = (w, rs, q)" by (cases "pc_drain (es_send_q s)")
  have rs: "rs = pc_items (es_send_q s)" using pc_drain_items [OF _ d] assms(1) by (simp add: es_inv_def)
  let ?s = "s\<lparr>es_send_q := q, es_send_list := ?rs\<rparr>"
  obtain kept t where p: "send_pass k ?rs ?s = (kept, t)" by (cases "send_pass k ?rs ?s")
  have "orderly k (es_calls ?s) {} ?rs" using assms(2) by simp
  from send_pass_wire [OF this p, of fd] have w: "wire_of fd t @ bytes_of fd kept = wire_of fd s @ bytes_of fd ?rs"
    by (simp add: wire_of_def)
  have s': "wire_of fd s' = wire_of fd t" "es_send_list s' = kept"
    using p by (simp_all add: assms(3) handle_send_request_def d rs wire_of_def)
  have "bytes_of fd ?rs = concat (map tcp_wire ps)"
    if "map send_req.truncate (filter (\<lambda>r. sr_fd r = fd) ?rs) = map (\<lambda>p. tcp_do_send length_prefix_prepare_send bind p []) ps"
  proof -
    have "bytes_of fd ?rs = concat (map send_bytes (map send_req.truncate (filter (\<lambda>r. sr_fd r = fd) ?rs)))"
      by (simp add: bytes_of_def comp_def)
    also have "\<dots> = concat (map tcp_wire ps)" unfolding that by (simp add: comp_def tcp_do_send_bytes)
    finally show ?thesis .
  qed
  with w s' deframe_wires [of ps] show ?thesis by auto
qed

lemma tcp_sends_in_order_witness:
  "\<exists>s s'. s' = handle_send_request \<lparr>k_add = \<lambda>_. True, k_writev = \<lambda>_. W_Sent 100\<rparr> s
     \<and> wire_of 3 s' @ bytes_of 3 (es_send_list s') = [5, 0, 0, 0, 7]"
proof -
  let ?k = "\<lparr>k_add = \<lambda>_. True, k_writev = \<lambda>_. W_Sent 100\<rparr>"
  let ?t = "ts_new 3 \<lparr>pb_data = [], pb_size = 0, pb_head = 0, pb_tail = 0\<rparr>"
  let ?r = "send_req.extend (tcp_do_send length_prefix_prepare_send (ts_bind ?t) [7] []) \<lparr>ss_cb = 9\<rparr>"
  obtain s0 where s0: "es_new 4 (\<lambda>_. ?t) = Some s0"
    by (simp add: es_new_def pc_new_def lq_new_def sp_new_def)
  let ?s = "s0\<lparr>es_send_list := [?r], es_issued := [9]\<rparr>"
  have e: "pc_items (es_send_q s0) = []" "es_wire s0 = []"
    using s0 by (auto simp: es_new_def dest!: pc_new_items split: option.splits)
  have r: "sr_fd ?r = 3" "ss_cb ?r = 9" "send_req.truncate ?r = tcp_do_send length_prefix_prepare_send (ts_bind ?t) [7] []"
    by (simp_all add: send_req.defs tcp_do_send_def length_prefix_prepare_send_def ts_new_def Let_def)
  then have bytes: "send_bytes (send_req.truncate ?r) = [5, 0, 0, 0, 7]"
    by (simp only: tcp_do_send_bytes) (simp add: tcp_wire_def encode32u_def)
  have inv: "es_inv ?s"
    using es_new_inv [OF s0] s0 by (auto simp: es_account e r(2) es_new_def split: option.splits)
  have "orderly ?k (es_calls ?s) {} (es_send_list ?s @ pc_items (es_send_q ?s))"
    using send_len_bytes [of ?r] by (simp add: e bytes)
  from tcp_sends_in_order [OF inv this refl, of 3 "[]" "ts_bind ?t"]
  have "wire_of 3 (handle_send_request ?k ?s) @ bytes_of 3 (es_send_list (handle_send_request ?k ?s)) = [5, 0, 0, 0, 7]"
    by (simp add: wire_of_def bytes_of_def e r(1) bytes)
  then show ?thesis by blast
qed

text \<open>
  Without that assumption the order is not kept: when \<^verbatim>\<open>writev\<close> refuses a request and
  accepts the next one of the same connection in the same pass, the later bytes leave
  first. A write that takes part of a request is reported as failed, and the rest of
  the request is never sent although its beginning is on the wire.
\<close>

lemma send_pass_overtakes:
  assumes "k_writev k 0 = W_Again" "k_writev k 1 = W_Sent (send_len r2)" "es_calls s = 0" "es_wire s = []"
  shows "fst (send_pass k [r1, r2] s) = [r1]
    \<and> es_wire (snd (send_pass k [r1, r2] s)) = [(sr_fd r2, send_bytes (send_req.truncate r2))]"
  using assms send_len_bytes [of r2] by (simp add: Let_def)

lemma send_pass_partial:
  assumes "k_writev k (es_calls s) = W_Sent n" "n < send_len r"
  shows "fst (send_pass k [r] s) = [] \<and> es_answers (snd (send_pass k [r] s)) = es_answers s @ [(ss_cb r, False)]
    \<and> es_wire (snd (send_pass k [r] s)) = es_wire s @ [(sr_fd r, take n (send_bytes (send_req.truncate r)))]"
  using assms by (simp add: Let_def es_answer_def)

end
