(* ===== verification/Tcp_Accept.thy ===== *)
theory Tcp_Accept
  imports Queue_Accounting
begin

section \<open>The accept and connect schedulers\<close>

text \<open>
  \<^verbatim>\<open>accept_scheduler\<close> (\<^verbatim>\<open>src/env/scheduler/net/tcp/epoll/scheduler.hh\<close>) matches
  connection requests with accepted file descriptors. A request first looks for a
  waiting descriptor and only then enters the request queue, both on the caller's
  core; these are two steps here (\<open>ac_deciding\<close> holds the requests in between).
  The kernel's descriptors are arguments, the queue of descriptors is the
  \<open>mpmc::queue\<close> model. \<open>connect_scheduler\<close> (\<^verbatim>\<open>connect_scheduler.hh\<close>) opens a socket
  per request and answers when epoll reports its outcome. \<open>ac_issued\<close>,
  \<open>ac_accepted\<close>, \<open>cn_issued\<close> and \<open>cn_opened\<close> are history.
\<close>

record accept_sched =
  ac_request_q :: "nat pcqueue"
  ac_fd_q :: "int mqueue"
  ac_shutdown :: bool
  ac_deciding :: "nat list"
  ac_answers :: "(nat \<times> int) list"
  ac_closed :: "int list"
  ac_issued :: "nat list"
  ac_accepted :: "int list"

definition ac_new :: "u64 \<Rightarrow> accept_sched option" where
  "ac_new depth =
     (case (pc_new 0 depth (- 1), mq_new 0 depth) of
        (Some rq, Some fq) \<Rightarrow>
          Some \<lparr>ac_request_q = rq, ac_fd_q = fq, ac_shutdown = False, ac_deciding = [], ac_answers = [],
            ac_closed = [], ac_issued = [], ac_accepted = []\<rparr>
      | _ \<Rightarrow> None)"

definition ac_answer :: "nat \<Rightarrow> int \<Rightarrow> accept_sched \<Rightarrow> accept_sched" where
  "ac_answer cb fd s = s\<lparr>ac_answers := ac_answers s @ [(cb, fd)]\<rparr>"

text \<open>The first half of \<open>schedule\<close>, and the second half for a request that found nothing.\<close>

definition ac_look :: "nat \<Rightarrow> accept_sched \<Rightarrow> accept_sched" where
  "ac_look cb s =
     (let (res, q) = mpmc_deq (ac_fd_q s); s1 = s\<lparr>ac_fd_q := q, ac_issued := ac_issued s @ [cb]\<rparr> in
      case res of
        Some fd \<Rightarrow> ac_answer cb fd s1
      | None \<Rightarrow> s1\<lparr>ac_deciding := ac_deciding s1 @ [cb]\<rparr>)"

definition ac_queue :: "bool \<Rightarrow> u32 \<Rightarrow> nat \<Rightarrow> accept_sched \<Rightarrow> accept_sched option" where
  "ac_queue ab core i s =
     (let cb = ac_deciding s ! i; s1 = s\<lparr>ac_deciding := drop_at i (ac_deciding s)\<rparr>;
          (res, q) = pc_try_enqueue ab core cb (ac_request_q s1); s2 = s1\<lparr>ac_request_q := q\<rparr> in
      case res of Pc_Ok \<Rightarrow> Some s2 | Pc_Full \<Rightarrow> Some (ac_answer cb (- 1) s2) | Pc_Abort \<Rightarrow> None)"

definition maybe_accept :: "int \<Rightarrow> accept_sched \<Rightarrow> bool \<times> accept_sched" where
  "maybe_accept fd s =
     (let (res, q) = pc_try_dequeue (ac_request_q s); s1 = s\<lparr>ac_request_q := q\<rparr> in
      case res of Some cb \<Rightarrow> (True, ac_answer cb fd s1) | None \<Rightarrow> (False, s1))"

text \<open>\<open>conn_sock\<close> is what \<^verbatim>\<open>accept\<close> returned.\<close>

definition handle_new_connections :: "int \<Rightarrow> accept_sched \<Rightarrow> accept_sched" where
  "handle_new_connections conn_sock s =
     (if 0 < conn_sock then
        (let s0 = s\<lparr>ac_accepted := ac_accepted s @ [conn_sock]\<rparr>; (matched, s1) = maybe_accept conn_sock s0 in
         if matched then s1
         else (let (ok, q) = mpmc_enq conn_sock (ac_fd_q s1); s2 = s1\<lparr>ac_fd_q := q\<rparr> in
               if ok then s2 else s2\<lparr>ac_closed := ac_closed s2 @ [conn_sock]\<rparr>))
      else s)"

text \<open>
  The loop \<^verbatim>\<open>while (auto opt = conn_request_q.try_dequeue())\<close>; the rings of all cores hold
  less than the fuel.
\<close>

definition ac_drain_on_shutdown :: "accept_sched \<Rightarrow> accept_sched" where
  "ac_drain_on_shutdown s =
     (let (cbs, q) = drain_loop (Suc (length (pc_items (ac_request_q s)))) pc_try_dequeue (ac_request_q s) in
      fold (\<lambda>cb. ac_answer cb (- 1)) cbs (s\<lparr>ac_request_q := q\<rparr>))"

definition ac_advance :: "int list \<Rightarrow> accept_sched \<Rightarrow> bool \<times> accept_sched" where
  "ac_advance socks s =
     (if ac_shutdown s then (False, ac_drain_on_shutdown s) else (True, fold handle_new_connections socks s))"

inductive ac_step :: "bool \<Rightarrow> accept_sched \<Rightarrow> accept_sched \<Rightarrow> bool" for ab where
  ac_looks: "ac_step ab s (ac_look cb s)"
| ac_queues: "i < length (ac_deciding s) \<Longrightarrow> core_ok (ac_request_q s) core \<Longrightarrow> ac_queue ab core i s = Some s' \<Longrightarrow> ac_step ab s s'"
| ac_shut: "ac_step ab s (s\<lparr>ac_shutdown := True\<rparr>)"
| ac_turn: "ac_advance socks s = (alive, s') \<Longrightarrow> ac_step ab s s'"

inductive ac_reach :: "bool \<Rightarrow> accept_sched \<Rightarrow> accept_sched \<Rightarrow> bool" for ab s0 where
  ac_start: "ac_reach ab s0 s0"
| ac_go: "ac_reach ab s0 s \<Longrightarrow> ac_step ab s s' \<Longrightarrow> ac_reach ab s0 s'"

subsection \<open>Accounting for requests and descriptors\<close>

definition ac_owed :: "accept_sched \<Rightarrow> nat multiset" where
  "ac_owed s = mset (pc_items (ac_request_q s)) + mset (ac_deciding s)"

definition handed :: "(nat \<times> int) list \<Rightarrow> int multiset" where
  "handed as = filter_mset (\<lambda>fd. 0 \<le> fd) (image_mset snd (mset as))"

definition ac_inv :: "accept_sched \<Rightarrow> bool" where
  "ac_inv s \<longleftrightarrow> pcq_inv (ac_request_q s) \<and> mq_inv (ac_fd_q s)
     \<and> image_mset fst (mset (ac_answers s)) + ac_owed s = mset (ac_issued s)
     \<and> handed (ac_answers s) + mset (mq_contents (ac_fd_q s)) + mset (ac_closed s) = mset (ac_accepted s)
     \<and> (\<forall>fd \<in> set (mq_contents (ac_fd_q s)). 0 < fd)"

lemma handed_append [simp]: "handed (as @ [(cb, fd)]) = handed as + (if 0 \<le> fd then {#fd#} else {#})"
  by (simp add: handed_def)

lemma ac_look_inv: "ac_inv s \<Longrightarrow> ac_inv (ac_look cb s)"
proof -
  assume inv: "ac_inv s"
  obtain res q where d: "mpmc_deq (ac_fd_q s) = (res, q)" by (cases "mpmc_deq (ac_fd_q s)")
  have "mq_inv (ac_fd_q s)" using inv by (simp add: ac_inv_def)
  from mpmc_deq_contents [OF this d] inv show ?thesis
    by (cases res) (auto simp: ac_look_def d ac_answer_def ac_inv_def ac_owed_def ac_simps)
qed

lemma ac_queue_inv:
  assumes inv: "ac_inv s" and i: "i < length (ac_deciding s)" and core: "core_ok (ac_request_q s) core"
    and s': "ac_queue ab core i s = Some s'"
  shows "ac_inv s'"
proof -
  obtain res q where e: "pc_try_enqueue ab core (ac_deciding s ! i) (ac_request_q s) = (res, q)"
    by (cases "pc_try_enqueue ab core (ac_deciding s ! i) (ac_request_q s)")
  have "pcq_inv (ac_request_q s)" using inv by (simp add: ac_inv_def)
  from pc_try_enqueue_items [OF this core e] inv s' show ?thesis
    using mset_drop_at [OF i, symmetric]
    by (cases res) (auto simp: ac_queue_def e Let_def ac_answer_def ac_inv_def ac_owed_def)
qed

lemma handle_new_connections_inv: "ac_inv s \<Longrightarrow> ac_inv (handle_new_connections fd s)"
proof -
  assume inv: "ac_inv s"
  obtain res q where d: "pc_try_dequeue (ac_request_q s) = (res, q)" by (cases "pc_try_dequeue (ac_request_q s)")
  obtain ok fq where e: "mpmc_enq fd (ac_fd_q s) = (ok, fq)" by (cases "mpmc_enq fd (ac_fd_q s)")
  have "pcq_inv (ac_request_q s)" "mq_inv (ac_fd_q s)" using inv by (simp_all add: ac_inv_def)
  from pc_dequeue_items [OF this(1) d] mpmc_enq_contents [OF this(2) e] inv show ?thesis
    by (cases res; cases ok) (auto simp: handle_new_connections_def maybe_accept_def d e Let_def ac_answer_def ac_inv_def ac_owed_def)
qed

lemma ac_answers_inv:
  "ac_answers (fold (\<lambda>cb. ac_answer cb (- 1)) cbs s) = ac_answers s @ map (\<lambda>cb. (cb, - 1)) cbs"
  "ac_request_q (fold (\<lambda>cb. ac_answer cb (- 1)) cbs s) = ac_request_q s"
  "ac_fd_q (fold (\<lambda>cb. ac_answer cb (- 1)) cbs s) = ac_fd_q s"
  "ac_deciding (fold (\<lambda>cb. ac_answer cb (- 1)) cbs s) = ac_deciding s"
  "ac_closed (fold (\<lambda>cb. ac_answer cb (- 1)) cbs s) = ac_closed s"
  "ac_issued (fold (\<lambda>cb. ac_answer cb (- 1)) cbs s) = ac_issued s"
  "ac_accepted (fold (\<lambda>cb. ac_answer cb (- 1)) cbs s) = ac_accepted s"
  by (induction cbs arbitrary: s) (simp_all add: ac_answer_def)

lemma ac_drain_inv:
  assumes inv: "ac_inv s"
  shows "ac_inv (ac_drain_on_shutdown s) \<and> pc_items (ac_request_q (ac_drain_on_shutdown s)) = []"
proof -
  have "pcq_inv (ac_request_q s)" using inv by (simp add: ac_inv_def)
  from pc_drain_loop [OF this, of "Suc (length (pc_items (ac_request_q s)))"] obtain q where
    q: "drain_loop (Suc (length (pc_items (ac_request_q s)))) pc_try_dequeue (ac_request_q s) = (pc_items (ac_request_q s), q)"
      "pcq_inv q" "pc_items q = []" by auto
  have "handed (map (\<lambda>cb. (cb, - 1)) cbs) = {#}" for cbs by (induction cbs) (simp_all add: handed_def)
  then have "handed (ac_answers s @ map (\<lambda>cb. (cb, - 1)) cbs) = handed (ac_answers s)" for cbs
    by (simp add: handed_def)
  with inv q show ?thesis
    by (simp add: ac_drain_on_shutdown_def ac_inv_def ac_owed_def ac_answers_inv multiset.map_comp comp_def
        ac_simps del: drain_loop.simps)
qed

lemma ac_step_inv: "ac_step ab s s' \<Longrightarrow> ac_inv s \<Longrightarrow> ac_inv s'"
proof (induction rule: ac_step.induct)
  case (ac_turn socks s alive s')
  have "ac_inv (fold handle_new_connections socks s)" using ac_turn.prems
    by (induction socks arbitrary: s) (auto intro: handle_new_connections_inv)
  with ac_turn ac_drain_inv show ?case by (auto simp: ac_advance_def split: if_splits)
next
  case (ac_shut s)
  then show ?case by (simp add: ac_inv_def ac_owed_def)
qed (auto intro: ac_look_inv ac_queue_inv)

lemma ac_reach_inv: "ac_reach ab s0 s \<Longrightarrow> ac_inv s0 \<Longrightarrow> ac_inv s"
  by (induction rule: ac_reach.induct) (auto intro: ac_step_inv)

interpretation ac: request_contract "ac_reach ab" ac_inv "\<lambda>s. mset (ac_issued s)"
    "\<lambda>s. image_mset fst (mset (ac_answers s))" ac_owed for ab
  by unfold_locales (erule (1) ac_reach_inv, simp add: ac_inv_def)

lemma ac_new_inv:
  assumes "ac_new depth = Some s" "2 \<le> unat depth" "unat depth \<le> 2 ^ 31"
  shows "ac_inv s"
proof -
  have "depth \<noteq> 0" using assms(2) by auto
  with assms show ?thesis
    by (auto simp: ac_new_def ac_inv_def ac_owed_def handed_def dest!: pc_new_items mq_new_inv split: option.splits)
qed

text \<open>
  A run for the examples: a request of another core finds no descriptor; before it
  enters the queue the scheduler accepts a connection, finds no request and stores
  the descriptor.
\<close>

lemma accept_race:
  "\<exists>s0 s. ac_new 4 = Some s0 \<and> ac_reach True s0 s \<and> ac_deciding s = [] \<and> ac_issued s = [7] \<and> ac_accepted s = [4]
     \<and> pc_items (ac_request_q s) = [7] \<and> mq_contents (ac_fd_q s) = [4] \<and> \<not> ac_shutdown s"
proof -
  have "pc_new 0 4 (- 1) \<noteq> (None :: nat pcqueue option)" "mq_new 0 4 \<noteq> (None :: int mqueue option)"
    by (simp_all add: pc_new_def lq_new_def sp_new_def mq_new_def)
  then obtain rq :: "nat pcqueue" and fq :: "int mqueue" where new: "pc_new 0 4 (- 1) = Some rq" "mq_new 0 4 = Some fq" by blast
  define s0 where "s0 = \<lparr>ac_request_q = rq, ac_fd_q = fq, ac_shutdown = False, ac_deciding = [], ac_answers = [],
            ac_closed = [], ac_issued = [], ac_accepted = []\<rparr>"
  have s0: "ac_new 4 = Some s0" by (simp add: ac_new_def new s0_def)
  note rq = pc_new_items [OF new(1)] and fq = mq_new_inv [OF new(2)]
  obtain fq1 where f1: "mpmc_deq fq = (None, fq1)" "mq_inv fq1" "mq_contents fq1 = []" "mq_room fq1 = 4"
    using mpmc.deq_none [of fq] fq by auto
  note r1 = pc_new_idle [OF new(1)]
  obtain fq2 where f2: "mpmc_enq 4 fq1 = (True, fq2)" "mq_inv fq2" "mq_contents fq2 = [4]"
    using mpmc.enq_room [OF f1(2), of 4] f1 by auto
  obtain rq2 where r2: "pc_try_enqueue True 0 7 rq = (Pc_Ok, rq2)"
    using pc_enqueue_room [of rq 0 True 7] rq pc_new_capacity [OF new(1)] by (auto simp: core_ok_def MAX_CORES_def)
  have "mset (pc_items rq2) = {#7#}"
    using pc_try_enqueue_items [OF _ _ r2] rq by (simp add: core_ok_def MAX_CORES_def)
  then have items: "pc_items rq2 = [7]" by (simp add: mset_single_iff_right)
  let ?s1 = "s0\<lparr>ac_fd_q := fq1, ac_issued := [7], ac_deciding := [7]\<rparr>"
  let ?s2 = "?s1\<lparr>ac_accepted := [4], ac_fd_q := fq2\<rparr>"
  let ?s3 = "?s2\<lparr>ac_deciding := [], ac_request_q := rq2\<rparr>"
  have "ac_look 7 s0 = ?s1" by (simp add: ac_look_def s0_def f1(1))
  then have 1: "ac_reach True s0 ?s1" using ac_go [OF ac_start ac_looks [of True s0 7]] by simp
  have "ac_advance [4] ?s1 = (True, ?s2)"
    by (simp add: ac_advance_def handle_new_connections_def maybe_accept_def s0_def r1 f2(1) Let_def)
  from ac_go [OF 1 ac_turn [OF this]] have 2: "ac_reach True s0 ?s2" .
  have "ac_queue True 0 0 ?s2 = Some ?s3" "core_ok (ac_request_q ?s2) 0"
    using rq by (simp_all add: ac_queue_def s0_def r2 Let_def drop_at_def core_ok_def MAX_CORES_def)
  from ac_go [OF 2 ac_queues [OF _ this(2,1)]] have "ac_reach True s0 ?s3" by simp
  then show ?thesis
    by (intro exI [of _ s0] exI [of _ ?s3]) (simp add: s0 items f2 s0_def)
qed

text \<open>
  C34: the accept scheduler answers every connection request at most once, and hands
  every accepted descriptor to exactly one request, keeps it waiting or closes it:
  answers and waiting requests are the requests made, and the descriptors handed
  over, waiting and closed are the accepted ones, under every interleaving of the
  two halves of \<open>schedule\<close> with the scheduler.
\<close>

theorem accept_hands_over_once:
  assumes "ac_new depth = Some s0" "2 \<le> unat depth" "unat depth \<le> 2 ^ 31" "ac_reach ab s0 s"
  shows "image_mset fst (mset (ac_answers s)) + ac_owed s = mset (ac_issued s)
    \<and> handed (ac_answers s) + mset (mq_contents (ac_fd_q s)) + mset (ac_closed s) = mset (ac_accepted s)"
  using ac.settled [OF assms(4) ac_new_inv [OF assms(1-3)]] ac_reach_inv [OF assms(4) ac_new_inv [OF assms(1-3)]]
  by (simp add: ac_inv_def)

lemma accept_hands_over_once_witness:
  "\<exists>s0 s. ac_reach True s0 s \<and> image_mset fst (mset (ac_answers s)) + ac_owed s = {#7#}
     \<and> handed (ac_answers s) + mset (mq_contents (ac_fd_q s)) + mset (ac_closed s) = {#4#}"
proof -
  obtain s0 s where r: "ac_new 4 = Some s0" "ac_reach True s0 s" "ac_issued s = [7]" "ac_accepted s = [4]"
    using accept_race by blast
  from accept_hands_over_once [OF r(1) _ _ r(2)] r show ?thesis by (intro exI [of _ s0] exI [of _ s]) simp
qed

text \<open>
  In the run above the request and the descriptor miss each other: both wait, and
  \<open>advance\<close> does nothing for them until another connection arrives.
\<close>

lemma accept_lost_wakeup:
  "\<exists>s0 s. ac_reach True s0 s \<and> ac_deciding s = [] \<and> pc_items (ac_request_q s) = [7] \<and> mq_contents (ac_fd_q s) = [4]
     \<and> ac_advance [] s = (True, s)"
proof -
  obtain s0 s where r: "ac_reach True s0 s" "ac_deciding s = []" "pc_items (ac_request_q s) = [7]"
    "mq_contents (ac_fd_q s) = [4]" "\<not> ac_shutdown s" using accept_race by blast
  then show ?thesis by (intro exI [of _ s0] exI [of _ s]) (simp add: ac_advance_def)
qed

subsection \<open>The connect scheduler\<close>

text \<open>
  \<open>sock\<close> is what \<^verbatim>\<open>socket\<close> returned, \<open>res\<close> what \<^verbatim>\<open>connect\<close> did, \<open>so_error\<close> the socket's
  error when epoll reports it writable. Nothing of the code fills the two queues;
  they are modelled as they are used.
\<close>

datatype connect_result = C_Done | C_In_Progress | C_Failed

record connect_sched =
  cn_request_q :: "nat pcqueue"
  cn_fd_q :: "int mqueue"
  cn_shutdown :: bool
  cn_pending :: "(int \<times> nat) list"
  cn_answers :: "(nat \<times> int) list"
  cn_closed :: "int list"
  cn_issued :: "nat list"
  cn_opened :: "int list"

definition cn_new :: "u64 \<Rightarrow> connect_sched option" where
  "cn_new depth =
     (case (pc_new 0 depth (- 1), mq_new 0 depth) of
        (Some rq, Some fq) \<Rightarrow>
          Some \<lparr>cn_request_q = rq, cn_fd_q = fq, cn_shutdown = False, cn_pending = [], cn_answers = [],
            cn_closed = [], cn_issued = [], cn_opened = []\<rparr>
      | _ \<Rightarrow> None)"

definition cn_answer :: "nat \<Rightarrow> int \<Rightarrow> connect_sched \<Rightarrow> connect_sched" where
  "cn_answer cb fd s = s\<lparr>cn_answers := cn_answers s @ [(cb, fd)]\<rparr>"

definition cn_close :: "int \<Rightarrow> connect_sched \<Rightarrow> connect_sched" where
  "cn_close fd s = s\<lparr>cn_closed := cn_closed s @ [fd]\<rparr>"

definition initiate_connect :: "nat \<Rightarrow> int \<Rightarrow> connect_result \<Rightarrow> connect_sched \<Rightarrow> connect_sched" where
  "initiate_connect cb sock res s =
     (if sock < 0 then cn_answer cb (- 1) s
      else (let s1 = s\<lparr>cn_opened := cn_opened s @ [sock]\<rparr> in
        case res of
          C_Done \<Rightarrow> cn_answer cb sock s1
        | C_In_Progress \<Rightarrow> s1\<lparr>cn_pending := cn_pending s1 @ [(sock, cb)]\<rparr>
        | C_Failed \<Rightarrow> cn_close sock (cn_answer cb (- 1) s1)))"

definition cn_schedule :: "nat \<Rightarrow> int \<Rightarrow> connect_result \<Rightarrow> connect_sched \<Rightarrow> connect_sched" where
  "cn_schedule cb sock res s =
     (let (found, q) = mpmc_deq (cn_fd_q s); s1 = s\<lparr>cn_fd_q := q, cn_issued := cn_issued s @ [cb]\<rparr> in
      case found of Some fd \<Rightarrow> cn_answer cb fd s1 | None \<Rightarrow> initiate_connect cb sock res s1)"

definition handle_connect_completion :: "int \<Rightarrow> int \<Rightarrow> connect_sched \<Rightarrow> connect_sched" where
  "handle_connect_completion fd so_error s =
     (case find (\<lambda>i. fst (cn_pending s ! i) = fd) [0..<length (cn_pending s)] of
        None \<Rightarrow> s
      | Some i \<Rightarrow>
          (let cb = snd (cn_pending s ! i);
               s1 = (if so_error = 0 then cn_answer cb fd s else cn_close fd (cn_answer cb (- 1) s)) in
           s1\<lparr>cn_pending := drop_at i (cn_pending s1)\<rparr>))"

definition cn_fail :: "int \<times> nat \<Rightarrow> connect_sched \<Rightarrow> connect_sched" where
  "cn_fail p s = cn_close (fst p) (cn_answer (snd p) (- 1) s)"

definition cn_drain_on_shutdown :: "connect_sched \<Rightarrow> connect_sched" where
  "cn_drain_on_shutdown s =
     (let (cbs, q) = drain_loop (Suc (length (pc_items (cn_request_q s)))) pc_try_dequeue (cn_request_q s);
          s1 = fold (\<lambda>cb. cn_answer cb (- 1)) cbs (s\<lparr>cn_request_q := q\<rparr>) in
      (fold cn_fail (cn_pending s1) s1)\<lparr>cn_pending := []\<rparr>)"

definition cn_advance :: "(int \<times> int) list \<Rightarrow> connect_sched \<Rightarrow> bool \<times> connect_sched" where
  "cn_advance events s =
     (if cn_shutdown s then (False, cn_drain_on_shutdown s)
      else (True, fold (\<lambda>(fd, so_error). handle_connect_completion fd so_error) events s))"

datatype cn_op = Cn_Request nat int connect_result | Cn_Shutdown | Cn_Advance "(int \<times> int) list"

fun cn_run :: "cn_op list \<Rightarrow> connect_sched \<Rightarrow> connect_sched" where
  "cn_run [] s = s"
| "cn_run (Cn_Request cb sock res # xs) s = cn_run xs (cn_schedule cb sock res s)"
| "cn_run (Cn_Shutdown # xs) s = cn_run xs (s\<lparr>cn_shutdown := True\<rparr>)"
| "cn_run (Cn_Advance events # xs) s = cn_run xs (snd (cn_advance events s))"

definition cn_inv :: "connect_sched \<Rightarrow> bool" where
  "cn_inv s \<longleftrightarrow> pcq_inv (cn_request_q s) \<and> pc_items (cn_request_q s) = [] \<and> mq_inv (cn_fd_q s) \<and> mq_contents (cn_fd_q s) = []
     \<and> image_mset fst (mset (cn_answers s)) + image_mset snd (mset (cn_pending s)) = mset (cn_issued s)
     \<and> handed (cn_answers s) + image_mset fst (mset (cn_pending s)) + mset (cn_closed s) = mset (cn_opened s)
     \<and> (\<forall>p \<in> set (cn_pending s). 0 \<le> fst p)"

lemma cn_schedule_inv:
  assumes "cn_inv s" shows "cn_inv (cn_schedule cb sock res s)"
proof -
  obtain found q where d: "mpmc_deq (cn_fd_q s) = (found, q)" by (cases "mpmc_deq (cn_fd_q s)")
  have "mq_inv (cn_fd_q s)" "mq_contents (cn_fd_q s) = []" using assms by (simp_all add: cn_inv_def)
  with mpmc_deq_contents [OF this(1) d] have "found = None" "mq_inv q" "mq_contents q = []" by (auto split: option.splits)
  with d assms show ?thesis
    by (cases res) (auto simp: cn_schedule_def initiate_connect_def Let_def cn_answer_def cn_close_def cn_inv_def ac_simps)
qed

lemma handle_connect_completion_inv:
  assumes inv: "cn_inv s" shows "cn_inv (handle_connect_completion fd so_error s)"
proof (cases "find (\<lambda>i. fst (cn_pending s ! i) = fd) [0..<length (cn_pending s)]")
  case (Some i)
  then have i: "i < length (cn_pending s)" "fst (cn_pending s ! i) = fd" by (auto simp: find_Some_iff)
  then have mem: "cn_pending s ! i \<in> set (cn_pending s)" by simp
  then have pos: "0 \<le> fd" using inv i(2) by (auto simp: cn_inv_def)
  have p: "mset (cn_pending s) = add_mset (fd, snd (cn_pending s ! i)) (mset (drop_at i (cn_pending s)))"
    using mset_drop_at [OF i(1)] i(2) by (metis prod.collapse)
  have "set (drop_at i (cn_pending s)) \<subseteq> set (cn_pending s)"
    by (auto simp: drop_at_def dest: in_set_takeD in_set_dropD)
  with inv pos p show ?thesis
    by (auto simp: handle_connect_completion_def Some Let_def cn_answer_def cn_close_def cn_inv_def)
qed (simp add: handle_connect_completion_def inv)

lemma cn_fail_pending:
  "cn_answers (fold cn_fail ps s) = cn_answers s @ map (\<lambda>p. (snd p, - 1)) ps"
  "cn_closed (fold cn_fail ps s) = cn_closed s @ map fst ps"
  "cn_request_q (fold cn_fail ps s) = cn_request_q s" "cn_fd_q (fold cn_fail ps s) = cn_fd_q s"
  "cn_issued (fold cn_fail ps s) = cn_issued s" "cn_opened (fold cn_fail ps s) = cn_opened s"
  by (induction ps arbitrary: s) (auto simp: cn_fail_def cn_answer_def cn_close_def)

lemma cn_drain_inv: "cn_inv s \<Longrightarrow> cn_inv (cn_drain_on_shutdown s) \<and> cn_pending (cn_drain_on_shutdown s) = []"
proof -
  assume inv: "cn_inv s"
  then have "pcq_inv (cn_request_q s)" "pc_items (cn_request_q s) = []" by (simp_all add: cn_inv_def)
  from pc_drain_loop [OF this(1), of 1] this(2) obtain q where
    q: "drain_loop 1 pc_try_dequeue (cn_request_q s) = ([], q)" "pcq_inv q" "pc_items q = []" by auto
  let ?s1 = "s\<lparr>cn_request_q := q\<rparr>"
  have e: "cn_drain_on_shutdown s = (fold cn_fail (cn_pending s) ?s1)\<lparr>cn_pending := []\<rparr>"
    using q(1) \<open>pc_items (cn_request_q s) = []\<close> by (simp add: cn_drain_on_shutdown_def del: drain_loop.simps)
  have "handed (cn_answers s @ map (\<lambda>p. (snd p, - 1)) ps) = handed (cn_answers s)" for ps :: "(int \<times> nat) list"
  proof -
    have "filter_mset ((\<le>) 0) (image_mset snd (mset (map (\<lambda>p. (snd p, - 1 :: int)) ps))) = {#}" for ps :: "(int \<times> nat) list"
      by (induction ps) auto
    then show ?thesis by (simp add: handed_def)
  qed
  with inv q show ?thesis
    by (simp add: e cn_inv_def cn_fail_pending multiset.map_comp comp_def ac_simps)
qed

lemma cn_run_inv: "cn_inv s \<Longrightarrow> cn_inv (cn_run xs s)"
proof (induction xs s rule: cn_run.induct)
  case (4 events xs s)
  have "cn_inv (fold (\<lambda>(fd, so_error). handle_connect_completion fd so_error) events s)" using 4(2)
    by (induction events arbitrary: s) (auto intro: handle_connect_completion_inv)
  with 4 cn_drain_inv [OF 4(2)] show ?case by (simp add: cn_advance_def)
next
  case (3 xs s)
  then show ?case by (simp add: cn_inv_def)
qed (simp_all add: cn_schedule_inv)

lemma cn_drain_issued: "cn_issued (cn_drain_on_shutdown s) = cn_issued s"
proof -
  have keep: "cn_issued (fold f xs t) = cn_issued t" if "\<And>x t. cn_issued (f x t) = cn_issued t"
    for f :: "'x \<Rightarrow> connect_sched \<Rightarrow> connect_sched" and xs t
    using that by (induction xs arbitrary: t) simp_all
  have "cn_issued (fold cn_fail ps t) = cn_issued t" "cn_issued (fold (\<lambda>cb. cn_answer cb (- 1)) cbs t) = cn_issued t" for ps cbs t
    by (rule keep, simp add: cn_fail_def cn_answer_def cn_close_def)+
  then show ?thesis by (simp add: cn_drain_on_shutdown_def Let_def split: prod.split del: drain_loop.simps)
qed

lemma cn_last_turn:
  assumes "cn_inv s"
  shows "cn_inv (cn_drain_on_shutdown s)" "image_mset snd (mset (cn_pending (cn_drain_on_shutdown s))) = {#}"
  using cn_drain_inv [OF assms] by simp_all

lemma cn_balance: "cn_inv s \<Longrightarrow> image_mset fst (mset (cn_answers s)) + image_mset snd (mset (cn_pending s)) = mset (cn_issued s)"
  by (simp add: cn_inv_def)

interpretation cn: shutdown_contract "\<lambda>s0 s. \<exists>xs. s = cn_run xs s0" cn_inv "\<lambda>s. mset (cn_issued s)"
    "\<lambda>s. image_mset fst (mset (cn_answers s))" "\<lambda>s. image_mset snd (mset (cn_pending s))" cn_drain_on_shutdown
proof
  show "cn_inv s" if "\<exists>xs. s = cn_run xs s0" "cn_inv s0" for s0 s using that cn_run_inv by blast
qed (fact cn_balance cn_last_turn | simp only: cn_drain_issued)+

lemma cn_new_inv:
  assumes "cn_new depth = Some s" "2 \<le> unat depth" "unat depth \<le> 2 ^ 31"
  shows "cn_inv s"
proof -
  have "depth \<noteq> 0" using assms(2) by auto
  with assms show ?thesis
    by (auto simp: cn_new_def cn_inv_def handed_def dest!: pc_new_items mq_new_inv split: option.splits)
qed

text \<open>
  The connect scheduler answers every request exactly once: the requests made are
  those answered and those whose connection is pending, every socket it opened has
  been handed to one request, is pending or was closed, and \<open>advance\<close> after
  \<open>shutdown\<close> leaves nothing pending.
\<close>

theorem connect_answers_once:
  assumes "cn_new depth = Some s0" "2 \<le> unat depth" "unat depth \<le> 2 ^ 31" "s = cn_run xs s0"
  shows "image_mset fst (mset (cn_answers s)) + image_mset snd (mset (cn_pending s)) = mset (cn_issued s)
    \<and> handed (cn_answers s) + image_mset fst (mset (cn_pending s)) + mset (cn_closed s) = mset (cn_opened s)
    \<and> (cn_shutdown s \<longrightarrow> cn_pending (snd (cn_advance events s)) = [])"
proof -
  have "cn_inv s" unfolding assms(4) by (rule cn_run_inv [OF cn_new_inv [OF assms(1-3)]])
  with cn_drain_inv [OF this] show ?thesis by (simp add: cn_inv_def cn_advance_def)
qed

text \<open>One connection succeeds, one is refused, one is still pending.\<close>

lemma connect_answers_once_witness:
  "\<exists>s0 s. s = cn_run [Cn_Request 1 5 C_In_Progress, Cn_Request 2 6 C_Failed, Cn_Advance [(5, 0)], Cn_Request 3 7 C_In_Progress] s0
     \<and> image_mset fst (mset (cn_answers s)) + image_mset snd (mset (cn_pending s)) = mset (cn_issued s)"
proof -
  obtain s0 where "cn_new 4 = Some s0" by (simp add: cn_new_def pc_new_def lq_new_def sp_new_def mq_new_def)
  note c = connect_answers_once [OF this _ _ refl, of
      "[Cn_Request 1 5 C_In_Progress, Cn_Request 2 6 C_Failed, Cn_Advance [(5, 0)], Cn_Request 3 7 C_In_Progress]"]
  show ?thesis by (rule exI, rule exI, rule conjI [OF refl], rule c [THEN conjunct1]) simp_all
qed

end
