(* ===== verification/Task.thy ===== *)
theory Task
  imports Queue_Accounting
begin

section \<open>The task scheduler\<close>

text \<open>
  \<^verbatim>\<open>src/env/scheduler/task/tasks_scheduler.hh\<close>: \<open>scheduler\<close> runs the tasks and timers given
  to its core, and takes one request of the process-wide \<open>preemptive_scheduler\<close> when
  it had nothing else to do. A request is an object at an address; calling its \<open>cb\<close>
  appends to \<open>tk_ran\<close>. \<^verbatim>\<open>std::set<_timer::req*>\<close> keeps the timers in the order of their
  addresses, here a list sorted by \<open>tm_ptr\<close>. \<open>clock n\<close> is the result of the \<open>n\<close>-th
  call of \<^verbatim>\<open>now_ms\<close>; \<open>tk_clock\<close> counts them. As history, \<open>tk_issued\<close> lists the requests made,
  \<open>tk_lost\<close> those of them that a preemptive queue refused, and \<open>tk_fired\<close> the timers run with
  the time read before. What a callback
  schedules while it runs is a step of its own, except in the section on draining.
\<close>

record timer_req =
  tm_ptr :: nat
  tm_timestamp :: u64
  tm_cb :: nat

record preemptive =
  pe_tasks :: "nat mqueue"
  pe_timers :: "timer_req mqueue"

record task_sched =
  tk_tasks :: "nat pcqueue"
  tk_timers :: "timer_req pcqueue"
  tk_timer_set :: "timer_req list"
  tk_pre :: preemptive
  tk_clock :: nat
  tk_ran :: "nat list"
  tk_fired :: "(timer_req \<times> u64) list"
  tk_issued :: "nat list"
  tk_lost :: "nat list"

text \<open>
  \<open>_timer::sender\<close> stores the time a request is due, but its \<open>make_op\<close> constructs the
  operation from the scheduler alone: the operation's \<open>timestamp\<close> is value-initialised.
\<close>

record timer_sender =
  sd_timestamp :: u64

record timer_op =
  op_timestamp :: u64

definition sched_delay :: "u64 \<Rightarrow> u64 \<Rightarrow> timer_sender" where
  "sched_delay now ms = \<lparr>sd_timestamp = now + ms\<rparr>"

definition timer_make_op :: "timer_sender \<Rightarrow> timer_op" where
  "timer_make_op _ = \<lparr>op_timestamp = 0\<rparr>"

text \<open>The request the operation makes, at the address \<open>p\<close> the allocator returns.\<close>

definition timer_start :: "nat \<Rightarrow> nat \<Rightarrow> timer_op \<Rightarrow> timer_req" where
  "timer_start p cb op = \<lparr>tm_ptr = p, tm_timestamp = op_timestamp op, tm_cb = cb\<rparr>"

definition no_timer :: timer_req where
  "no_timer = \<lparr>tm_ptr = 0, tm_timestamp = 0, tm_cb = 0\<rparr>"

definition pe_new :: "u64 \<Rightarrow> preemptive option" where
  "pe_new depth =
     (case (mq_new 0 depth, mq_new no_timer depth) of
        (Some tq, Some mq) \<Rightarrow> Some \<lparr>pe_tasks = tq, pe_timers = mq\<rparr> | _ \<Rightarrow> None)"

definition tk_new :: "u32 \<Rightarrow> u64 \<Rightarrow> preemptive \<Rightarrow> task_sched option" where
  "tk_new c depth pre =
     (case (pc_new 0 depth c, pc_new no_timer depth c) of
        (Some tq, Some mq) \<Rightarrow>
          Some \<lparr>tk_tasks = tq, tk_timers = mq, tk_timer_set = [], tk_pre = pre, tk_clock = 0,
            tk_ran = [], tk_fired = [], tk_issued = [], tk_lost = []\<rparr>
      | _ \<Rightarrow> None)"

definition tk_run :: "nat \<Rightarrow> task_sched \<Rightarrow> task_sched" where
  "tk_run cb s = s\<lparr>tk_ran := tk_ran s @ [cb]\<rparr>"

subsection \<open>Requests\<close>

text \<open>
  The per-core queues end the process when they are full; the result of the
  preemptive queues' \<^verbatim>\<open>try_enqueue\<close> is ignored by \<open>op::start\<close>, so a request that finds
  the queue full is lost (and leaked): nobody ever answers it.
\<close>

definition schedule_task :: "u32 \<Rightarrow> nat \<Rightarrow> task_sched \<Rightarrow> task_sched option" where
  "schedule_task core cb s =
     (let (res, q) = pc_try_enqueue True core cb (tk_tasks s) in
      if res = Pc_Abort then None
      else Some (s\<lparr>tk_tasks := q, tk_issued := tk_issued s @ [cb]\<rparr>))"

definition schedule_timer :: "u32 \<Rightarrow> timer_req \<Rightarrow> task_sched \<Rightarrow> task_sched option" where
  "schedule_timer core r s =
     (let (res, q) = pc_try_enqueue True core r (tk_timers s) in
      if res = Pc_Abort then None
      else Some (s\<lparr>tk_timers := q, tk_issued := tk_issued s @ [tm_cb r]\<rparr>))"

definition pre_schedule_task :: "nat \<Rightarrow> task_sched \<Rightarrow> bool \<times> task_sched" where
  "pre_schedule_task cb s =
     (let (ok, q) = mpmc_enq cb (pe_tasks (tk_pre s)); s1 = s\<lparr>tk_pre := (tk_pre s)\<lparr>pe_tasks := q\<rparr>, tk_issued := tk_issued s @ [cb]\<rparr> in
      (ok, if ok then s1 else s1\<lparr>tk_lost := tk_lost s1 @ [cb]\<rparr>))"

definition pre_schedule_timer :: "timer_req \<Rightarrow> task_sched \<Rightarrow> bool \<times> task_sched" where
  "pre_schedule_timer r s =
     (let (ok, q) = mpmc_enq r (pe_timers (tk_pre s)); s1 = s\<lparr>tk_pre := (tk_pre s)\<lparr>pe_timers := q\<rparr>, tk_issued := tk_issued s @ [tm_cb r]\<rparr> in
      (ok, if ok then s1 else s1\<lparr>tk_lost := tk_lost s1 @ [tm_cb r]\<rparr>))"

subsection \<open>Running\<close>

definition handle_tasks :: "task_sched \<Rightarrow> bool \<times> task_sched" where
  "handle_tasks s =
     (let (worked, cbs, q) = pc_drain (tk_tasks s) in (worked, fold tk_run cbs (s\<lparr>tk_tasks := q\<rparr>)))"

text \<open>\<^verbatim>\<open>emplace\<close> on the ordered set of pointers.\<close>

fun timer_emplace :: "timer_req \<Rightarrow> timer_req list \<Rightarrow> timer_req list" where
  "timer_emplace r [] = [r]"
| "timer_emplace r (t # ts) =
     (if tm_ptr r < tm_ptr t then r # t # ts
      else if tm_ptr r = tm_ptr t then t # ts
      else t # timer_emplace r ts)"

text \<open>The loop of \<open>handle_timer\<close> over the set, with the number of clock readings before it.\<close>

fun fire_timers :: "(nat \<Rightarrow> u64) \<Rightarrow> timer_req list \<Rightarrow> bool \<Rightarrow> task_sched \<Rightarrow> bool \<times> task_sched" where
  "fire_timers clock [] worked s = (worked, s\<lparr>tk_timer_set := []\<rparr>)"
| "fire_timers clock (t # ts) worked s =
     (let now = clock (tk_clock s); s1 = s\<lparr>tk_clock := Suc (tk_clock s)\<rparr> in
      if now < tm_timestamp t then (worked, s1\<lparr>tk_timer_set := t # ts\<rparr>)
      else fire_timers clock ts True (tk_run (tm_cb t) (s1\<lparr>tk_fired := tk_fired s1 @ [(t, now)]\<rparr>)))"

definition handle_timer :: "(nat \<Rightarrow> u64) \<Rightarrow> task_sched \<Rightarrow> bool \<times> task_sched" where
  "handle_timer clock s =
     (let (worked, rs, q) = pc_drain (tk_timers s);
          set1 = fold timer_emplace rs (tk_timer_set s) in
      fire_timers clock set1 worked (s\<lparr>tk_timers := q, tk_timer_set := set1\<rparr>))"

definition handle_preemptive :: "task_sched \<Rightarrow> bool \<times> task_sched" where
  "handle_preemptive s =
     (let (t, tq) = mpmc_deq (pe_tasks (tk_pre s)); s1 = s\<lparr>tk_pre := (tk_pre s)\<lparr>pe_tasks := tq\<rparr>\<rparr> in
      case t of
        Some cb \<Rightarrow> (True, tk_run cb s1)
      | None \<Rightarrow>
          (let (m, mq) = mpmc_deq (pe_timers (tk_pre s1)); s2 = s1\<lparr>tk_pre := (tk_pre s1)\<lparr>pe_timers := mq\<rparr>\<rparr> in
           case m of
             Some r \<Rightarrow> (True, s2\<lparr>tk_timer_set := timer_emplace r (tk_timer_set s2)\<rparr>)
           | None \<Rightarrow> (False, s2)))"

definition tk_advance :: "(nat \<Rightarrow> u64) \<Rightarrow> task_sched \<Rightarrow> bool \<times> task_sched" where
  "tk_advance clock s =
     (let (w1, s1) = handle_timer clock s; (w2, s2) = handle_tasks s1 in (w1 \<or> w2, s2))"

text \<open>\<open>advance(rt)\<close> of a runtime with (\<open>True\<close>) or without a preemptive queue.\<close>

definition tk_advance_rt :: "bool \<Rightarrow> (nat \<Rightarrow> u64) \<Rightarrow> task_sched \<Rightarrow> bool \<times> task_sched" where
  "tk_advance_rt has_pre clock s =
     (let (worked, s1) = tk_advance clock s in
      if worked then (True, s1) else if has_pre then handle_preemptive s1 else (False, s1))"

text \<open>
  The steps of one scheduler and its users. The allocator gives a new timer request an
  address that no live timer request has.
\<close>

definition live_timers :: "task_sched \<Rightarrow> timer_req multiset" where
  "live_timers s = mset (pc_items (tk_timers s)) + mset (tk_timer_set s) + mset (mq_contents (pe_timers (tk_pre s)))"

definition live_ptrs :: "task_sched \<Rightarrow> nat multiset" where
  "live_ptrs s = image_mset tm_ptr (live_timers s)"

inductive tk_step :: "(nat \<Rightarrow> u64) \<Rightarrow> task_sched \<Rightarrow> task_sched \<Rightarrow> bool" for clock where
  tk_task: "core_ok (tk_tasks s) core \<Longrightarrow> schedule_task core cb s = Some s' \<Longrightarrow> tk_step clock s s'"
| tk_timer: "core_ok (tk_timers s) core \<Longrightarrow> tm_ptr r \<notin># live_ptrs s \<Longrightarrow> schedule_timer core r s = Some s' \<Longrightarrow> tk_step clock s s'"
| tk_pre_task: "pre_schedule_task cb s = (ok, s') \<Longrightarrow> tk_step clock s s'"
| tk_pre_timer: "tm_ptr r \<notin># live_ptrs s \<Longrightarrow> pre_schedule_timer r s = (ok, s') \<Longrightarrow> tk_step clock s s'"
| tk_turn: "tk_advance_rt has_pre clock s = (worked, s') \<Longrightarrow> tk_step clock s s'"

inductive tk_reach :: "(nat \<Rightarrow> u64) \<Rightarrow> task_sched \<Rightarrow> task_sched \<Rightarrow> bool" for clock s0 where
  tk_start: "tk_reach clock s0 s0"
| tk_go: "tk_reach clock s0 s \<Longrightarrow> tk_step clock s s' \<Longrightarrow> tk_reach clock s0 s'"

subsection \<open>The invariant\<close>

definition tk_pending :: "task_sched \<Rightarrow> nat multiset" where
  "tk_pending s = mset (pc_items (tk_tasks s)) + mset (mq_contents (pe_tasks (tk_pre s)))
     + image_mset tm_cb (live_timers s)"

definition one_each :: "'a multiset \<Rightarrow> bool" where
  "one_each M \<longleftrightarrow> (\<forall>x. count M x \<le> 1)"

definition tk_inv :: "task_sched \<Rightarrow> bool" where
  "tk_inv s \<longleftrightarrow> pcq_inv (tk_tasks s) \<and> pcq_inv (tk_timers s) \<and> mq_inv (pe_tasks (tk_pre s)) \<and> mq_inv (pe_timers (tk_pre s))
     \<and> one_each (live_ptrs s) \<and> mset (tk_ran s) + tk_pending s + mset (tk_lost s) = mset (tk_issued s)
     \<and> (\<forall>(t, now) \<in> set (tk_fired s). tm_timestamp t \<le> now)"

lemma one_each_add: "one_each (add_mset x M) \<longleftrightarrow> x \<notin># M \<and> one_each M"
  by (auto simp: one_each_def not_in_iff le_Suc_eq split: if_splits)

lemma one_each_sub: "one_each (M + N) \<Longrightarrow> one_each M"
  unfolding one_each_def by (metis count_union add_leD1)

lemma emplace_mset: "tm_ptr r \<notin> tm_ptr ` set ts \<Longrightarrow> mset (timer_emplace r ts) = add_mset r (mset ts)"
  by (induction ts) auto

lemma emplace_all_mset:
  "one_each (image_mset tm_ptr (mset rs + mset ts)) \<Longrightarrow> mset (fold timer_emplace rs ts) = mset rs + mset ts"
proof (induction rs arbitrary: ts)
  case (Cons r rs)
  have "tm_ptr r \<notin> tm_ptr ` set ts" using Cons.prems by (auto simp: one_each_add)
  then have e: "mset (timer_emplace r ts) = add_mset r (mset ts)" by (rule emplace_mset)
  with Cons show ?case by simp
qed simp

lemma fire_timers_effect:
  "fire_timers clock ts worked s = (w, s') \<Longrightarrow>
    mset (tk_ran s') + image_mset tm_cb (mset (tk_timer_set s')) = mset (tk_ran s) + image_mset tm_cb (mset ts)
    \<and> (\<exists>N. mset ts = mset (tk_timer_set s') + N)
    \<and> ((\<forall>(t, now) \<in> set (tk_fired s). tm_timestamp t \<le> now) \<longrightarrow> (\<forall>(t, now) \<in> set (tk_fired s'). tm_timestamp t \<le> now))
    \<and> tk_tasks s' = tk_tasks s \<and> tk_timers s' = tk_timers s \<and> tk_pre s' = tk_pre s \<and> tk_issued s' = tk_issued s
    \<and> tk_lost s' = tk_lost s"
proof (induction clock ts worked s rule: fire_timers.induct)
  case (2 clock t ts worked s)
  show ?case
  proof (cases "clock (tk_clock s) < tm_timestamp t")
    case True
    with 2(2) show ?thesis by (auto simp: Let_def)
  next
    case False
    define u where "u = tk_run (tm_cb t) (s\<lparr>tk_clock := Suc (tk_clock s), tk_fired := tk_fired s @ [(t, clock (tk_clock s))]\<rparr>)"
    have "fire_timers clock ts True u = (w, s')" using 2(2) False by (simp add: Let_def u_def)
    from 2(1) [OF refl refl False, simplified, folded u_def, OF this]
    have ih: "mset (tk_ran s') + image_mset tm_cb (mset (tk_timer_set s')) = mset (tk_ran u) + image_mset tm_cb (mset ts)"
      "\<exists>N. mset ts = mset (tk_timer_set s') + N"
      "(\<forall>(t, now) \<in> set (tk_fired u). tm_timestamp t \<le> now) \<longrightarrow> (\<forall>(t, now) \<in> set (tk_fired s'). tm_timestamp t \<le> now)"
      "tk_tasks s' = tk_tasks u \<and> tk_timers s' = tk_timers u \<and> tk_pre s' = tk_pre u \<and> tk_issued s' = tk_issued u
        \<and> tk_lost s' = tk_lost u"
      by blast+
    have u: "mset (tk_ran u) = add_mset (tm_cb t) (mset (tk_ran s))" "tk_fired u = tk_fired s @ [(t, clock (tk_clock s))]"
      "tk_tasks u = tk_tasks s" "tk_timers u = tk_timers s" "tk_pre u = tk_pre s" "tk_issued u = tk_issued s" "tk_lost u = tk_lost s"
      by (simp_all add: u_def tk_run_def)
    from ih(2) obtain N where "mset ts = mset (tk_timer_set s') + N" by blast
    then have "\<exists>N. mset (t # ts) = mset (tk_timer_set s') + N" by (intro exI [of _ "add_mset t N"]) simp
    moreover have "mset (tk_ran s') + image_mset tm_cb (mset (tk_timer_set s')) = mset (tk_ran s) + image_mset tm_cb (mset (t # ts))"
      unfolding ih(1) u(1) by simp
    moreover have "(\<forall>(t, now) \<in> set (tk_fired s). tm_timestamp t \<le> now) \<longrightarrow> (\<forall>(t, now) \<in> set (tk_fired s'). tm_timestamp t \<le> now)"
      using ih(3) False unfolding u(2) by auto
    moreover note ih(4) [unfolded u(3-7)]
    ultimately show ?thesis by blast
  qed
qed (auto simp: Let_def)

lemma run_all: "fold tk_run cbs s = s\<lparr>tk_ran := tk_ran s @ cbs\<rparr>"
  by (induction cbs arbitrary: s) (simp_all add: tk_run_def)

lemmas tk_account = tk_inv_def tk_pending_def live_ptrs_def live_timers_def

lemma handle_tasks_inv: "tk_inv s \<Longrightarrow> handle_tasks s = (w, s') \<Longrightarrow> tk_inv s'"
proof -
  assume inv: "tk_inv s" and h: "handle_tasks s = (w, s')"
  obtain w' cbs q where d: "pc_drain (tk_tasks s) = (w', cbs, q)" by (cases "pc_drain (tk_tasks s)")
  note q = pc_drain_items [OF _ d]
  have "s' = s\<lparr>tk_tasks := q, tk_ran := tk_ran s @ cbs\<rparr>" using h by (auto simp: handle_tasks_def d run_all)
  with inv q show ?thesis by (simp add: tk_account ac_simps)
qed

lemma handle_timer_inv: "tk_inv s \<Longrightarrow> handle_timer clock s = (w, s') \<Longrightarrow> tk_inv s'"
proof -
  assume inv: "tk_inv s" and h: "handle_timer clock s = (w, s')"
  obtain w' rs q where d: "pc_drain (tk_timers s) = (w', rs, q)" by (cases "pc_drain (tk_timers s)")
  have q: "rs = pc_items (tk_timers s)" "pcq_inv q" "pc_items q = []"
    using pc_drain_items [OF _ d] inv by (auto simp: tk_inv_def)
  let ?set = "fold timer_emplace rs (tk_timer_set s)" and ?P = "mset (mq_contents (pe_timers (tk_pre s)))"
  let ?s = "s\<lparr>tk_timers := q, tk_timer_set := ?set\<rparr>"
  have live: "live_timers s = (mset rs + mset (tk_timer_set s)) + ?P" by (simp add: live_timers_def q)
  have "one_each (image_mset tm_ptr (mset rs + mset (tk_timer_set s)))"
    using inv one_each_sub by (auto simp: tk_inv_def live_ptrs_def live)
  then have set: "mset ?set = mset rs + mset (tk_timer_set s)" by (rule emplace_all_mset)
  have f: "fire_timers clock ?set w' ?s = (w, s')" using h by (simp add: handle_timer_def d Let_def)
  from fire_timers_effect [OF f] obtain N where
    e: "mset (tk_ran s') + image_mset tm_cb (mset (tk_timer_set s')) = mset (tk_ran s) + image_mset tm_cb (mset ?set)"
    "mset ?set = mset (tk_timer_set s') + N" "\<forall>(t, now) \<in> set (tk_fired s'). tm_timestamp t \<le> now"
    "tk_tasks s' = tk_tasks s" "tk_timers s' = q" "tk_pre s' = tk_pre s" "tk_issued s' = tk_issued s" "tk_lost s' = tk_lost s"
    using inv by (auto simp: tk_inv_def)
  have live': "live_timers s' = mset (tk_timer_set s') + ?P" by (simp add: live_timers_def e q)
  have "live_timers s = live_timers s' + N" using set e(2) by (simp add: live live' ac_simps)
  then have "one_each (live_ptrs s')" using inv one_each_sub by (auto simp: tk_inv_def live_ptrs_def)
  moreover have "mset (tk_ran s') + tk_pending s' = mset (tk_ran s) + tk_pending s"
  proof -
    have "mset (tk_ran s') + image_mset tm_cb (live_timers s') = mset (tk_ran s) + image_mset tm_cb (live_timers s)"
      using e(1) by (simp add: live live' set ac_simps)
    then show ?thesis by (simp add: tk_pending_def e ac_simps)
  qed
  ultimately show ?thesis using inv e(3-) q by (simp add: tk_inv_def)
qed

lemma handle_preemptive_inv: "tk_inv s \<Longrightarrow> handle_preemptive s = (w, s') \<Longrightarrow> tk_inv s'"
proof -
  assume inv: "tk_inv s" and h: "handle_preemptive s = (w, s')"
  obtain x tq where d: "mpmc_deq (pe_tasks (tk_pre s)) = (x, tq)" by (cases "mpmc_deq (pe_tasks (tk_pre s))")
  obtain y mq where e: "mpmc_deq (pe_timers (tk_pre s)) = (y, mq)" by (cases "mpmc_deq (pe_timers (tk_pre s))")
  have q: "mq_inv (pe_tasks (tk_pre s))" "mq_inv (pe_timers (tk_pre s))" using inv by (simp_all add: tk_inv_def)
  note dq = mpmc_deq_contents [OF q(1) d] and eq = mpmc_deq_contents [OF q(2) e]
  show ?thesis
  proof (cases x)
    case (Some cb)
    with inv h d dq show ?thesis by (auto simp: handle_preemptive_def tk_run_def tk_account)
  next
    case None
    show ?thesis
    proof (cases y)
      case (Some r)
      have "one_each (live_ptrs s)" using inv by (simp add: tk_inv_def)
      then have "tm_ptr r \<notin> tm_ptr ` set (tk_timer_set s)"
        using eq Some by (auto simp: live_ptrs_def live_timers_def one_each_add)
      note em = emplace_mset [OF this]
      from None Some inv h d dq e eq em show ?thesis
        by (auto simp: handle_preemptive_def tk_account Let_def)
    next
      case None': None
      with None inv h d dq e eq show ?thesis by (auto simp: handle_preemptive_def tk_account Let_def)
    qed
  qed
qed

lemma schedule_task_inv:
  "tk_inv s \<Longrightarrow> core_ok (tk_tasks s) core \<Longrightarrow> schedule_task core cb s = Some s' \<Longrightarrow> tk_inv s'"
proof -
  assume inv: "tk_inv s" and c: "core_ok (tk_tasks s) core" "schedule_task core cb s = Some s'"
  obtain res q where e: "pc_try_enqueue True core cb (tk_tasks s) = (res, q)" by (cases "pc_try_enqueue True core cb (tk_tasks s)")
  have q: "pcq_inv (tk_tasks s)" using inv by (simp add: tk_inv_def)
  have "res \<noteq> Pc_Full" using pc_enqueue_spec [OF q c(1) [unfolded core_ok_def], of True cb] e by (auto split: if_splits)
  with pc_try_enqueue_items [OF q c(1) e] c(2) inv show ?thesis
    by (cases res) (auto simp: schedule_task_def e tk_account)
qed

lemma schedule_timer_inv:
  "tk_inv s \<Longrightarrow> core_ok (tk_timers s) core \<Longrightarrow> tm_ptr r \<notin># live_ptrs s \<Longrightarrow> schedule_timer core r s = Some s' \<Longrightarrow> tk_inv s'"
proof -
  assume inv: "tk_inv s" and c: "core_ok (tk_timers s) core" "tm_ptr r \<notin># live_ptrs s" "schedule_timer core r s = Some s'"
  obtain res q where e: "pc_try_enqueue True core r (tk_timers s) = (res, q)" by (cases "pc_try_enqueue True core r (tk_timers s)")
  have q: "pcq_inv (tk_timers s)" using inv by (simp add: tk_inv_def)
  have "res \<noteq> Pc_Full" using pc_enqueue_spec [OF q c(1) [unfolded core_ok_def], of True r] e by (auto split: if_splits)
  with pc_try_enqueue_items [OF q c(1) e] c(2,3) inv show ?thesis
    by (cases res) (auto simp: schedule_timer_def e tk_account one_each_add)
qed

lemma pre_schedule_inv:
  assumes inv: "tk_inv s"
  shows "pre_schedule_task cb s = (ok, s') \<Longrightarrow> tk_inv s'"
    and "tm_ptr r \<notin># live_ptrs s \<Longrightarrow> pre_schedule_timer r s = (ok, s') \<Longrightarrow> tk_inv s'"
proof -
  have q: "mq_inv (pe_tasks (tk_pre s))" "mq_inv (pe_timers (tk_pre s))" using inv by (simp_all add: tk_inv_def)
  show "pre_schedule_task cb s = (ok, s') \<Longrightarrow> tk_inv s'"
    using mpmc_enq_contents [OF q(1), of cb] inv
    by (cases ok) (auto simp: pre_schedule_task_def Let_def tk_account split: prod.splits)
  show "tm_ptr r \<notin># live_ptrs s \<Longrightarrow> pre_schedule_timer r s = (ok, s') \<Longrightarrow> tk_inv s'"
    using mpmc_enq_contents [OF q(2), of r] inv
    by (cases ok) (auto simp: pre_schedule_timer_def Let_def tk_account one_each_add split: prod.splits)
qed

lemma tk_advance_rt_inv: "tk_inv s \<Longrightarrow> tk_advance_rt has_pre clock s = (w, s') \<Longrightarrow> tk_inv s'"
proof -
  assume inv: "tk_inv s" and a: "tk_advance_rt has_pre clock s = (w, s')"
  obtain w1 s1 where 1: "handle_timer clock s = (w1, s1)" by (cases "handle_timer clock s")
  obtain w2 s2 where 2: "handle_tasks s1 = (w2, s2)" by (cases "handle_tasks s1")
  have "tk_inv s2" using handle_tasks_inv [OF handle_timer_inv [OF inv 1] 2] .
  with a 1 2 handle_preemptive_inv [of s2 w s'] show ?thesis
    by (auto simp: tk_advance_rt_def tk_advance_def split: if_splits)
qed

lemma tk_step_inv: "tk_step clock s s' \<Longrightarrow> tk_inv s \<Longrightarrow> tk_inv s'"
  by (induction rule: tk_step.induct)
    (blast intro: schedule_task_inv schedule_timer_inv pre_schedule_inv tk_advance_rt_inv)+

lemma tk_reach_inv: "tk_reach clock s0 s \<Longrightarrow> tk_inv s0 \<Longrightarrow> tk_inv s"
  by (induction rule: tk_reach.induct) (auto intro: tk_step_inv)

interpretation tk: request_contract "tk_reach clock" tk_inv "\<lambda>s. mset (tk_issued s)" "\<lambda>s. mset (tk_ran s)"
    "\<lambda>s. tk_pending s + mset (tk_lost s)" for clock
  by unfold_locales (erule (1) tk_reach_inv, simp add: tk_inv_def ac_simps)

lemma tk_new_inv:
  assumes "pe_new pdepth = Some pre" "tk_new c depth pre = Some s" "2 \<le> unat pdepth" "unat pdepth \<le> 2 ^ 31" "depth \<noteq> 0"
  shows "tk_inv s"
  using assms by (auto simp: pe_new_def tk_new_def tk_account one_each_def dest!: pc_new_items mq_new_inv split: option.splits)

text \<open>Only the preemptive queues lose requests, and only when they are full.\<close>

lemma turn_loses_nothing: "tk_advance_rt has_pre clock s = (w, s') \<Longrightarrow> tk_lost s' = tk_lost s"
proof -
  assume a: "tk_advance_rt has_pre clock s = (w, s')"
  have "tk_lost (snd (handle_timer clock s)) = tk_lost s" for s
    using fire_timers_effect [OF surjective_pairing] by (simp add: handle_timer_def split_def Let_def)
  then have t: "handle_timer clock s = (w, s') \<Longrightarrow> tk_lost s' = tk_lost s" for w s s' by (metis snd_conv)
  have h: "handle_tasks s = (w, s') \<Longrightarrow> tk_lost s' = tk_lost s" for w s s'
    by (auto simp: handle_tasks_def run_all split: prod.splits)
  have p: "handle_preemptive s = (w, s') \<Longrightarrow> tk_lost s' = tk_lost s" for w s s'
    by (auto simp: handle_preemptive_def tk_run_def Let_def split: prod.splits option.splits)
  obtain w1 s1 where 1: "handle_timer clock s = (w1, s1)" by (cases "handle_timer clock s")
  obtain w2 s2 where 2: "handle_tasks s1 = (w2, s2)" by (cases "handle_tasks s1")
  have "tk_lost s2 = tk_lost s" using t [OF 1] h [OF 2] by simp
  with a 1 2 p [of s2 w s'] show ?thesis by (auto simp: tk_advance_rt_def tk_advance_def split: if_splits)
qed

definition full_preemptive :: "task_sched \<Rightarrow> bool" where
  "full_preemptive s \<longleftrightarrow> length (mq_contents (pe_tasks (tk_pre s))) = mq_room (pe_tasks (tk_pre s))
     \<or> length (mq_contents (pe_timers (tk_pre s))) = mq_room (pe_timers (tk_pre s))"

lemma mpmc_refuses_full: "mq_inv q \<Longrightarrow> mpmc_enq x q = (False, q') \<Longrightarrow> length (mq_contents q) = mq_room q"
  using mpmc.enq_room [of q x] by (cases "length (mq_contents q) < mq_room q") (auto simp: mq_inv_def mq_room_def)

lemma step_loses:
  assumes "tk_step clock s s'" "tk_inv s"
  shows "tk_lost s' = tk_lost s \<or> full_preemptive s \<and> (\<exists>cb. tk_lost s' = tk_lost s @ [cb] \<and> tk_issued s' = tk_issued s @ [cb])"
  using assms
proof (induction rule: tk_step.induct)
  case (tk_pre_task cb s ok s')
  then show ?case using mpmc_refuses_full [of "pe_tasks (tk_pre s)" cb]
    by (auto simp: pre_schedule_task_def full_preemptive_def tk_inv_def Let_def split: prod.splits if_splits)
next
  case (tk_pre_timer r s ok s')
  then show ?case using mpmc_refuses_full [of "pe_timers (tk_pre s)" r]
    by (auto simp: pre_schedule_timer_def full_preemptive_def tk_inv_def Let_def split: prod.splits if_splits)
next
  case (tk_turn has_pre s worked s')
  then show ?case using turn_loses_nothing by blast
qed (auto simp: schedule_task_def schedule_timer_def Let_def split: prod.splits if_splits)

text \<open>
  C13: of all tasks and timers given to the task scheduler, from any core or through the
  preemptive queue, each runs exactly once, is still pending, or was lost, in every
  reachable state; a step loses at most the one request it makes, and only when one of the two
  preemptive queues is full (\<open>op::start\<close> ignores their answer), so without a full queue all run
  or are pending; no timer runs before the time its request carries.
\<close>

theorem task_requests_run_once:
  assumes "pe_new pdepth = Some pre" "tk_new c depth pre = Some s0" "2 \<le> unat pdepth" "unat pdepth \<le> 2 ^ 31"
    "depth \<noteq> 0" "tk_reach clock s0 s"
  shows "mset (tk_ran s) + tk_pending s + mset (tk_lost s) = mset (tk_issued s)
    \<and> (\<forall>s'. tk_step clock s s' \<longrightarrow> tk_lost s' = tk_lost s
        \<or> full_preemptive s \<and> (\<exists>cb. tk_lost s' = tk_lost s @ [cb] \<and> tk_issued s' = tk_issued s @ [cb]))
    \<and> (\<forall>(t, now) \<in> set (tk_fired s). tm_timestamp t \<le> now)"
  using tk.settled [OF assms(6) tk_new_inv [OF assms(1-5)]] tk_reach_inv [OF assms(6) tk_new_inv [OF assms(1-5)]]
    step_loses by (simp add: tk_inv_def ac_simps)

text \<open>A task, a timer, and three tasks for a preemptive queue of two places: the last is lost.\<close>

lemma task_requests_run_once_witness:
  "\<exists>s0 s. tk_reach (\<lambda>n. if n = 0 then 3 else 9) s0 s \<and> tk_issued s = [1, 2, 3, 4, 5] \<and> tk_lost s = [5]
     \<and> mset (tk_ran s) + tk_pending s = {#1, 2, 3, 4#}"
proof -
  let ?clock = "\<lambda>n::nat. if n = 0 then 3 else 9 :: u64" and ?r = "\<lparr>tm_ptr = 40, tm_timestamp = 5, tm_cb = 2\<rparr>"
  obtain pre where pre: "pe_new 2 = Some pre" by (simp add: pe_new_def mq_new_def)
  obtain s0 where s0: "tk_new 0 4 pre = Some s0" by (simp add: tk_new_def pc_new_def lq_new_def sp_new_def)
  have f: "pc_owner (tk_tasks s0) = 0" "pc_owner (tk_timers s0) = 0" "tk_issued s0 = []" "tk_lost s0 = []" "tk_timer_set s0 = []"
    "pc_items (tk_timers s0) = []" "mq_contents (pe_timers (tk_pre s0)) = []"
    and q0: "mq_inv (pe_tasks (tk_pre s0))" "mq_contents (pe_tasks (tk_pre s0)) = []" "mq_room (pe_tasks (tk_pre s0)) = 2"
    using pre s0 by (auto simp: tk_new_def pe_new_def dest!: pc_new_items mq_new_inv split: option.splits)
  have e: "fst (pc_try_enqueue True 0 1 (tk_tasks s0)) = Pc_Ok" "fst (pc_try_enqueue True 0 ?r (tk_timers s0)) = Pc_Ok"
    using s0 by (auto simp: tk_new_def pc_new_def lq_new_def sp_new_def pc_try_enqueue_def lq_try_enqueue_def Let_def)
  obtain q1 where q1: "mpmc_enq 3 (pe_tasks (tk_pre s0)) = (True, q1)" "mq_inv q1" "mq_contents q1 = [3]" "mq_room q1 = 2"
    using mpmc.enq_room [OF q0(1), of 3] q0 by auto
  obtain q2 where q2: "mpmc_enq 4 q1 = (True, q2)" "mq_inv q2" "mq_contents q2 = [3, 4]" "mq_room q2 = 2"
    using mpmc.enq_room [OF q1(2), of 4] q1 by auto
  obtain q3 where q3: "mpmc_enq 5 q2 = (False, q3)" using mpmc.enq_full [OF q2(2), of 5] q2 by auto
  let ?s1 = "s0\<lparr>tk_tasks := snd (pc_try_enqueue True 0 1 (tk_tasks s0)), tk_issued := [1]\<rparr>"
  let ?s2 = "?s1\<lparr>tk_timers := snd (pc_try_enqueue True 0 ?r (tk_timers s0)), tk_issued := [1, 2]\<rparr>"
  let ?s3 = "snd (pre_schedule_task 5 (snd (pre_schedule_task 4 (snd (pre_schedule_task 3 ?s2)))))"
  have "schedule_task 0 1 s0 = Some ?s1" using e(1) by (simp add: schedule_task_def split_def f)
  moreover have "schedule_timer 0 ?r ?s1 = Some ?s2" using e(2) by (simp add: schedule_timer_def split_def)
  ultimately have "tk_reach ?clock s0 ?s2"
    by (intro tk_go [OF tk_go [OF tk_start tk_task] tk_timer]) (auto simp: core_ok_def live_ptrs_def live_timers_def f)
  then have r: "tk_reach ?clock s0 ?s3" by (blast intro: tk_go tk_pre_task surjective_pairing)
  have h: "tk_issued ?s3 = [1, 2, 3, 4, 5]" "tk_lost ?s3 = [5]"
    using q1 q2 q3 f by (simp_all add: pre_schedule_task_def)
  have "mset (tk_ran ?s3) + tk_pending ?s3 + mset (tk_lost ?s3) = mset (tk_issued ?s3)"
    using task_requests_run_once [OF pre s0 _ _ _ r] by simp
  then have "mset (tk_ran ?s3) + tk_pending ?s3 = {#1, 2, 3, 4#}" unfolding h by simp
  with r h show ?thesis by (intro exI conjI)
qed

subsection \<open>Where timers and tasks do not run as meant\<close>

text \<open>Whatever delay is asked for, the request is due at time 0: it runs in the next turn.\<close>

lemma delay_is_lost: "tm_timestamp (timer_start p cb (timer_make_op (sched_delay now ms))) = 0"
  by (simp add: timer_start_def timer_make_op_def)

text \<open>
  The set is ordered by address: a timer that is due waits behind one at a lower
  address that is not.
\<close>

lemma due_timer_waits:
  assumes "tm_ptr a < tm_ptr b" "clock (tk_clock s) < tm_timestamp a"
  shows "fire_timers clock (timer_emplace b (timer_emplace a [])) worked s
    = (worked, s\<lparr>tk_clock := Suc (tk_clock s), tk_timer_set := [a, b]\<rparr>)"
  using assms by (simp add: Let_def)

text \<open>
  The drain of the core's own ring with callbacks that schedule tasks on the same
  core: \<open>spawn cb\<close> are the tasks \<open>cb\<close> schedules. A task that schedules itself again
  keeps the drain, and so the core, busy for ever: no number of turns is enough.
\<close>

fun drain_tasks :: "nat \<Rightarrow> (nat \<Rightarrow> nat list) \<Rightarrow> nat lqueue \<Rightarrow> (nat list \<times> nat lqueue) option" where
  "drain_tasks 0 spawn q = None"
| "drain_tasks (Suc n) spawn q =
     (case lq_try_dequeue q of
        (None, q') \<Rightarrow> Some ([], q')
      | (Some cb, q') \<Rightarrow>
          Option.bind (drain_tasks n spawn (fold (\<lambda>x q. snd (lq_try_enqueue x q)) (spawn cb) q'))
            (\<lambda>(cbs, q''). Some (cb # cbs, q'')))"

lemma self_scheduling_task_starves:
  assumes "lq_inv q" "lq_contents q = [cb]" "spawn cb = [cb]" "2 \<le> unat (lq_capacity q)"
  shows "drain_tasks n spawn q = None"
  using assms(1,2,4)
proof (induction n arbitrary: q)
  case (Suc n)
  from lq.deq_some [OF Suc.prems(1,2)] obtain q1 where q1: "lq_try_dequeue q = (Some cb, q1)" "lq_inv q1"
    "lq_contents q1 = []" "lq_room q1 = lq_room q" by blast
  then have "length (lq_contents q1) < lq_room q1" using Suc.prems(3) by (simp add: lq_room_def)
  from lq.enq_room [OF q1(2) this, of cb] obtain q2 where q2: "lq_try_enqueue cb q1 = (True, q2)" "lq_inv q2"
    "lq_contents q2 = [cb]" "lq_room q2 = lq_room q1" using q1(3) by auto
  then have "2 \<le> unat (lq_capacity q2)" using q1(4) Suc.prems(3) by (simp add: lq_room_def)
  with Suc.IH [OF q2(2,3)] q1(1) q2(1) assms(3) show ?case by simp
qed simp

end
