(* ===== verification/Dgram_Epoll.thy ===== *)
theory Dgram_Epoll
  imports Prelude
begin

section \<open>The datagram transport over epoll\<close>

text \<open>
  \<^verbatim>\<open>src/env/scheduler/net/dgram/common.hh\<close> and \<^verbatim>\<open>dgram/epoll.hh\<close>: one UDP socket,
  watched edge-triggered. The kernel is a parameter: the results of \<^verbatim>\<open>socket\<close>, \<^verbatim>\<open>bind\<close>
  and \<^verbatim>\<open>epoll_create1\<close> are arguments; \<open>dg_rx\<close> is the socket's receive queue, from which
  \<^verbatim>\<open>recvfrom\<close> takes one datagram at a time, cut to the size of the buffer; an event of
  \<^verbatim>\<open>epoll_wait\<close> comes with the datagrams that arrived since the one before. A peer
  address is a number. \<open>dg_sent\<close> is what \<^verbatim>\<open>sendto\<close> and \<^verbatim>\<open>sendmsg\<close> were given and took,
  \<open>dg_closed\<close> the descriptors closed.
\<close>

type_synonym dgram = "byte list \<times> nat"

record dgram_transport =
  dg_fd :: int
  dg_epoll_fd :: int
  dg_buf :: bool
  dg_max :: nat
  dg_rx :: "dgram list"
  dg_sent :: "dgram list"
  dg_closed :: "int list"

record dgram_event =
  ev_arrived :: "dgram list"
  ev_in :: bool
  ev_out :: bool

definition dg_none :: dgram_transport where
  "dg_none = \<lparr>dg_fd = - 1, dg_epoll_fd = - 1, dg_buf = False, dg_max = 65536, dg_rx = [], dg_sent = [], dg_closed = []\<rparr>"

text \<open>The descriptor, and what was closed on the way.\<close>

definition create_bound_udp_socket :: "int \<Rightarrow> bool \<Rightarrow> int \<times> int list" where
  "create_bound_udp_socket fd bound =
     (if fd < 0 then (- 1, []) else if \<not> bound then (- 1, [fd]) else (fd, []))"

definition dg_init :: "int \<Rightarrow> bool \<Rightarrow> int \<Rightarrow> nat \<Rightarrow> dgram_transport \<Rightarrow> int \<times> dgram_transport" where
  "dg_init fd bound epoll_fd max_dgram_size t =
     (let (sock, closed) = create_bound_udp_socket fd bound;
          t1 = t\<lparr>dg_fd := sock, dg_closed := dg_closed t @ closed\<rparr> in
      if sock < 0 then (- 1, t1)
      else
        (let t2 = t1\<lparr>dg_max := max_dgram_size, dg_buf := True, dg_epoll_fd := epoll_fd\<rparr> in
         if epoll_fd < 0 then (- 1, t2\<lparr>dg_buf := False, dg_closed := dg_closed t2 @ [sock], dg_fd := - 1\<rparr>)
         else (0, t2)))"

definition dg_destroy :: "dgram_transport \<Rightarrow> dgram_transport" where
  "dg_destroy t =
     (let c1 = (if 0 \<le> dg_epoll_fd t then [dg_epoll_fd t] else []); c2 = (if 0 \<le> dg_fd t then [dg_fd t] else [])
      in t\<lparr>dg_buf := False, dg_closed := dg_closed t @ c1 @ c2\<rparr>)"

definition dg_sendto :: "byte list \<Rightarrow> nat \<Rightarrow> dgram_transport \<Rightarrow> dgram_transport" where
  "dg_sendto d dest t = t\<lparr>dg_sent := dg_sent t @ [(d, dest)]\<rparr>"

text \<open>
  The read loop: the datagrams handed to the handler, and what stays in the socket. It
  ends at \<^verbatim>\<open>res <= 0\<close>, on an empty socket and on an empty datagram alike.
\<close>

fun read_dgrams :: "nat \<Rightarrow> dgram list \<Rightarrow> dgram list \<times> dgram list" where
  "read_dgrams m [] = ([], [])"
| "read_dgrams m ((d, src) # q) =
     (if take m d = [] then ([], q)
      else (let (hs, rest) = read_dgrams m q in ((take m d, src) # hs, rest)))"

text \<open>
  \<open>advance\<close>: the datagrams for the handler in their order, whether the socket became
  writable, and the transport. The handlers do not change the receive queue.
\<close>

fun dg_advance :: "dgram_event list \<Rightarrow> dgram_transport \<Rightarrow> dgram list \<times> bool \<times> dgram_transport" where
  "dg_advance [] t = ([], False, t)"
| "dg_advance (ev # evs) t =
     (let q = dg_rx t @ ev_arrived ev;
          (hs, q') = (if ev_in ev then read_dgrams (dg_max t) q else ([], q));
          (hs', w, t') = dg_advance evs (t\<lparr>dg_rx := q'\<rparr>)
      in (hs @ hs', ev_out ev \<or> w, t'))"

subsection \<open>What is read\<close>

definition cut :: "nat \<Rightarrow> dgram \<Rightarrow> dgram" where
  "cut m d = (take m (fst d), snd d)"

lemma read_dgrams_all:
  "0 < m \<Longrightarrow> \<forall>d \<in> set q. fst d \<noteq> [] \<Longrightarrow> read_dgrams m q = (map (cut m) q, [])"
  by (induction m q rule: read_dgrams.induct) (auto simp: cut_def)

lemma dg_advance_keeps:
  "dg_advance evs t = (hs, w, t') \<Longrightarrow> t' = t\<lparr>dg_rx := dg_rx t'\<rparr>"
proof (induction evs t arbitrary: hs w t' rule: dg_advance.induct)
  case (2 ev evs t)
  obtain hs1 q' where r: "(if ev_in ev then read_dgrams (dg_max t) (dg_rx t @ ev_arrived ev) else ([], dg_rx t @ ev_arrived ev)) = (hs1, q')"
    by fastforce
  obtain hs2 w2 t2 where a: "dg_advance evs (t\<lparr>dg_rx := q'\<rparr>) = (hs2, w2, t2)"
    by (cases "dg_advance evs (t\<lparr>dg_rx := q'\<rparr>)")
  from "2.IH" [OF refl r [symmetric] refl, OF a] 2 r a show ?case by (simp add: Let_def)
qed simp

text \<open>
  When every event announces input and no datagram is empty, the handler gets all that
  was queued and arrived, in order, and the socket is left empty, as the edge trigger
  requires.
\<close>

lemma dg_advance_reads_all:
  assumes "dg_advance evs t = (hs, w, t')" "evs \<noteq> []" "\<forall>ev \<in> set evs. ev_in ev" "0 < dg_max t"
    "\<forall>d \<in> set (dg_rx t @ concat (map ev_arrived evs)). fst d \<noteq> []"
  shows "hs = map (cut (dg_max t)) (dg_rx t @ concat (map ev_arrived evs)) \<and> dg_rx t' = []"
  using assms
proof (induction evs t arbitrary: hs w t' rule: dg_advance.induct)
  case (2 ev evs t)
  have r: "read_dgrams (dg_max t) (dg_rx t @ ev_arrived ev) = (map (cut (dg_max t)) (dg_rx t @ ev_arrived ev), [])"
    by (rule read_dgrams_all) (use "2.prems" in auto)
  obtain hs2 w2 t2 where a: "dg_advance evs (t\<lparr>dg_rx := []\<rparr>) = (hs2, w2, t2)"
    by (cases "dg_advance evs (t\<lparr>dg_rx := []\<rparr>)")
  have e: "hs = map (cut (dg_max t)) (dg_rx t @ ev_arrived ev) @ hs2" "t' = t2"
    using "2.prems"(1,3) by (simp_all add: r a Let_def)
  show ?case
  proof (cases "evs = []")
    case True
    with a e show ?thesis by auto
  next
    case False
    with "2.IH" [OF refl _ refl, of "map (cut (dg_max t)) (dg_rx t @ ev_arrived ev)" "[]" hs2 w2 t2] a r "2.prems" e
    show ?thesis by simp
  qed
qed simp

text \<open>
  An empty datagram, which UDP allows, ends the loop: the datagrams behind it stay in
  the socket, and the edge trigger reports them only when another one arrives.
\<close>

lemma empty_datagram_stalls:
  "dg_advance [\<lparr>ev_arrived = [([1], 5), ([], 5), ([2], 5)], ev_in = True, ev_out = False\<rparr>] dg_none
     = ([([1], 5)], False, dg_none\<lparr>dg_rx := [([2], 5)]\<rparr>)"
  by (simp add: dg_none_def)

text \<open>A failed \<open>init\<close> leaves no descriptor open and no buffer behind.\<close>

lemma dg_init_failure_cleans:
  assumes "dg_init fd bound epoll_fd m dg_none = (r, t)" "r < 0"
  shows "dg_fd t < 0 \<and> dg_epoll_fd t < 0 \<and> \<not> dg_buf t \<and> (0 \<le> fd \<longrightarrow> dg_closed t = [fd])"
  using assms by (auto simp: dg_init_def create_bound_udp_socket_def dg_none_def Let_def split: if_splits)

lemma dg_init_destroy_closes:
  assumes "dg_init fd bound epoll_fd m dg_none = (0, t)"
  shows "dg_closed (dg_destroy t) = [epoll_fd, fd] \<and> \<not> dg_buf (dg_destroy t)"
  using assms by (auto simp: dg_init_def dg_destroy_def create_bound_udp_socket_def dg_none_def Let_def split: if_splits)

end
