(* ===== verification/Kcp_Epoll.thy ===== *)
theory Kcp_Epoll
  imports Dgram_Epoll Ikcp_Connection Tcp_Session Queue_Accounting
begin

section \<open>The KCP scheduler\<close>

text \<open>
  \<^verbatim>\<open>src/env/scheduler/net/kcp/epoll/scheduler.hh\<close>: one UDP socket carries many KCP
  connections, told apart by their number \<open>conv\<close>. A client proposes a number in a SYN
  packet and repeats it until the ACK arrives; a server creates the connection on the
  SYN and matches it with an accept request. \<^verbatim>\<open>std::unordered_map\<close> is a finite map, the
  order in which \<open>update_all_kcp\<close> visits it is an argument. A request is its fields with
  the callback as an identifier, and calling it appends to \<open>kx_answers\<close>. A session is
  built by the factory of the program; the one here is \<^verbatim>\<open>session_t<kcp_bind,
  frame_receiver>\<close>. \<open>kx_issued\<close>, \<open>kx_sent\<close> (messages \<open>send\<close> took) and \<open>kx_frames\<close>
  (frames given to a session) are history.
\<close>

definition HANDSHAKE_SYN :: u8 where "HANDSHAKE_SYN = 0xF0"
definition HANDSHAKE_ACK :: u8 where "HANDSHAKE_ACK = 0xF1"
definition HANDSHAKE_PKT_SIZE :: nat where "HANDSHAKE_PKT_SIZE = 5"

definition handshake_pkt :: "u8 \<Rightarrow> u32 \<Rightarrow> byte list" where
  "handshake_pkt type conv = type # encode32u conv"

record kcp_session =
  ks_conv :: u32
  ks_recv :: "nat frame_receiver"
  ks_events :: "nat recv_event list"

record kcp_connection =
  kc_kcp :: ikcp
  kc_peer :: nat
  kc_connected :: bool
  kc_session :: kcp_session

record kcp_send_req =
  kq_conv :: u32
  kq_data :: "byte list"
  kq_cb :: nat

record kcp_connect_req =
  kn_target :: nat
  kn_cb :: nat

record pending_connect =
  pn_req :: kcp_connect_req
  pn_conv :: u32
  pn_target :: nat
  pn_retries :: u32
  pn_next_retry_ts :: u32

datatype kcp_answer = K_Session "u32 option" | K_Timeout | K_Sent bool

record kcp_sched =
  kx_transport :: dgram_transport
  kx_send_q :: "kcp_send_req pcqueue"
  kx_accept_q :: "nat pcqueue"
  kx_connect_q :: "kcp_connect_req pcqueue"
  kx_connections :: "u32 \<rightharpoonup> kcp_connection"
  kx_pending_accepts :: "nat list"
  kx_ready_accepts :: "u32 list"
  kx_pending_connects :: "pending_connect list"
  kx_next_conv :: u32
  kx_answers :: "(nat \<times> kcp_answer) list"
  kx_issued :: "nat list"
  kx_sent :: "(u32 \<times> byte list) list"
  kx_frames :: "(u32 \<times> byte list) list"

definition kx_new :: "u64 \<Rightarrow> dgram_transport \<Rightarrow> kcp_sched option" where
  "kx_new queue_depth t =
     (case (pc_new \<lparr>kq_conv = 0, kq_data = [], kq_cb = 0\<rparr> queue_depth (- 1), pc_new 0 queue_depth (- 1),
         pc_new \<lparr>kn_target = 0, kn_cb = 0\<rparr> queue_depth (- 1)) of
        (Some sq, Some aq, Some cq) \<Rightarrow>
          Some \<lparr>kx_transport = t, kx_send_q = sq, kx_accept_q = aq, kx_connect_q = cq,
            kx_connections = (\<lambda>_. None), kx_pending_accepts = [], kx_ready_accepts = [], kx_pending_connects = [],
            kx_next_conv = 1, kx_answers = [], kx_issued = [], kx_sent = [], kx_frames = []\<rparr>
      | _ \<Rightarrow> None)"

subsection \<open>The session\<close>

fun kcp_bind_layer :: "net_tag \<Rightarrow> (kcp_session \<Rightarrow> kcp_session) option" where
  "kcp_bind_layer Do_Close = Some (\<lambda>s. s)"
| "kcp_bind_layer On_Error = Some (\<lambda>s. s)"
| "kcp_bind_layer _ = None"

definition kcp_recv_step :: "nat fr_op \<Rightarrow> kcp_session \<Rightarrow> kcp_session" where
  "kcp_recv_step op s = (let (es, r) = fr_step (ks_recv s) op in s\<lparr>ks_recv := r, ks_events := ks_events s @ es\<rparr>)"

fun kcp_recv_layer :: "net_tag \<Rightarrow> (kcp_session \<Rightarrow> kcp_session) option" where
  "kcp_recv_layer (On_Frame f) = Some (kcp_recv_step (Fr_Frame f))"
| "kcp_recv_layer (Do_Recv r) = Some (kcp_recv_step (Fr_Recv r))"
| "kcp_recv_layer On_Error = Some (kcp_recv_step Fr_Error)"
| "kcp_recv_layer _ = None"

definition kcp_layers :: "(net_tag \<Rightarrow> (kcp_session \<Rightarrow> kcp_session) option) list" where
  "kcp_layers = [kcp_bind_layer, kcp_recv_layer]"

definition ks_invoke :: "net_tag \<Rightarrow> kcp_session \<Rightarrow> kcp_session" where
  "ks_invoke tag s = (case session_invoke kcp_layers tag s of Some s' \<Rightarrow> s' | None \<Rightarrow> s)"

definition make_session :: "u32 \<Rightarrow> kcp_session" where
  "make_session conv = \<lparr>ks_conv = conv, ks_recv = fr_new 0, ks_events = []\<rparr>"

definition get_session :: "u32 \<Rightarrow> kcp_sched \<Rightarrow> kcp_session option" where
  "get_session conv s = map_option kc_session (kx_connections s conv)"

subsection \<open>Requests\<close>

definition kx_answer :: "nat \<Rightarrow> kcp_answer \<Rightarrow> kcp_sched \<Rightarrow> kcp_sched" where
  "kx_answer cb a s = s\<lparr>kx_answers := kx_answers s @ [(cb, a)]\<rparr>"

text \<open>
  The requests enter queues that abort the process when they are full; the functions
  ignore the result.
\<close>

definition kx_issue :: "pc_result \<Rightarrow> nat \<Rightarrow> kcp_sched \<Rightarrow> kcp_sched option" where
  "kx_issue res cb s = (if res = Pc_Abort then None else Some (s\<lparr>kx_issued := kx_issued s @ [cb]\<rparr>))"

definition schedule_accept :: "u32 \<Rightarrow> nat \<Rightarrow> kcp_sched \<Rightarrow> kcp_sched option" where
  "schedule_accept core cb s =
     (let (res, q) = pc_try_enqueue True core cb (kx_accept_q s) in kx_issue res cb (s\<lparr>kx_accept_q := q\<rparr>))"

definition schedule_connect :: "u32 \<Rightarrow> kcp_connect_req \<Rightarrow> kcp_sched \<Rightarrow> kcp_sched option" where
  "schedule_connect core r s =
     (let (res, q) = pc_try_enqueue True core r (kx_connect_q s) in kx_issue res (kn_cb r) (s\<lparr>kx_connect_q := q\<rparr>))"

definition kx_schedule_send :: "u32 \<Rightarrow> kcp_send_req \<Rightarrow> kcp_sched \<Rightarrow> kcp_sched option" where
  "kx_schedule_send core r s =
     (let (res, q) = pc_try_enqueue True core r (kx_send_q s) in kx_issue res (kq_cb r) (s\<lparr>kx_send_q := q\<rparr>))"

text \<open>The send of a session, through its bind layer.\<close>

definition ks_do_send :: "u32 \<Rightarrow> byte list \<Rightarrow> nat \<Rightarrow> kcp_session \<Rightarrow> kcp_sched \<Rightarrow> kcp_sched option" where
  "ks_do_send core d cb ses s = kx_schedule_send core \<lparr>kq_conv = ks_conv ses, kq_data = d, kq_cb = cb\<rparr> s"

subsection \<open>The handlers\<close>

definition send_handshake :: "u8 \<Rightarrow> u32 \<Rightarrow> nat \<Rightarrow> kcp_sched \<Rightarrow> kcp_sched" where
  "send_handshake type conv addr s =
     s\<lparr>kx_transport := dg_sendto (handshake_pkt type conv) addr (kx_transport s)\<rparr>"

definition new_connection :: "u32 \<Rightarrow> nat \<Rightarrow> kcp_connection" where
  "new_connection conv peer =
     \<lparr>kc_kcp = set_wndsize 128 128 (set_nodelay 1 10 2 1 (ikcp_create conv)), kc_peer = peer, kc_connected = True,
       kc_session = make_session conv\<rparr>"

definition create_connection :: "u32 \<Rightarrow> nat \<Rightarrow> kcp_sched \<Rightarrow> kcp_sched" where
  "create_connection conv peer s = s\<lparr>kx_connections := (kx_connections s)(conv \<mapsto> new_connection conv peer)\<rparr>"

text \<open>The callbacks of the accept and connect operators ask for the session of the connection.\<close>

definition answer_session :: "nat \<Rightarrow> u32 \<Rightarrow> kcp_sched \<Rightarrow> kcp_sched" where
  "answer_session cb conv s = kx_answer cb (K_Session (map_option ks_conv (get_session conv s))) s"

definition accept_one :: "nat \<Rightarrow> kcp_sched \<Rightarrow> kcp_sched" where
  "accept_one cb s =
     (case kx_ready_accepts s of
        conv # rest \<Rightarrow> answer_session cb conv (s\<lparr>kx_ready_accepts := rest\<rparr>)
      | [] \<Rightarrow> s\<lparr>kx_pending_accepts := kx_pending_accepts s @ [cb]\<rparr>)"

definition drain_accept_q :: "kcp_sched \<Rightarrow> kcp_sched" where
  "drain_accept_q s = (let (_, cbs, q) = pc_drain (kx_accept_q s) in fold accept_one cbs (s\<lparr>kx_accept_q := q\<rparr>))"

definition connect_one :: "u32 \<Rightarrow> kcp_connect_req \<Rightarrow> kcp_sched \<Rightarrow> kcp_sched" where
  "connect_one now r s =
     (let conv = kx_next_conv s; s1 = send_handshake HANDSHAKE_SYN conv (kn_target r) (s\<lparr>kx_next_conv := conv + 1\<rparr>)
      in s1\<lparr>kx_pending_connects := kx_pending_connects s1
            @ [\<lparr>pn_req = r, pn_conv = conv, pn_target = kn_target r, pn_retries = 1, pn_next_retry_ts = now + 500\<rparr>]\<rparr>)"

definition drain_connect_q :: "u32 \<Rightarrow> kcp_sched \<Rightarrow> kcp_sched" where
  "drain_connect_q now s =
     (let (_, rs, q) = pc_drain (kx_connect_q s) in fold (connect_one now) rs (s\<lparr>kx_connect_q := q\<rparr>))"

definition send_one :: "kcp_send_req \<Rightarrow> kcp_sched \<Rightarrow> kcp_sched" where
  "send_one r s =
     (case kx_connections s (kq_conv r) of
        None \<Rightarrow> kx_answer (kq_cb r) (K_Sent False) s
      | Some c \<Rightarrow>
          (let (ret, k) = kcp_send (kq_data r) (kc_kcp c);
               s1 = s\<lparr>kx_connections := (kx_connections s)(kq_conv r \<mapsto> c\<lparr>kc_kcp := k\<rparr>)\<rparr>;
               s2 = (if ret = 0 then s1\<lparr>kx_sent := kx_sent s1 @ [(kq_conv r, kq_data r)]\<rparr> else s1)
           in kx_answer (kq_cb r) (K_Sent (ret = 0)) s2))"

definition drain_send_q :: "kcp_sched \<Rightarrow> kcp_sched" where
  "drain_send_q s = (let (_, rs, q) = pc_drain (kx_send_q s) in fold send_one rs (s\<lparr>kx_send_q := q\<rparr>))"

definition handle_syn :: "u32 \<Rightarrow> nat \<Rightarrow> kcp_sched \<Rightarrow> kcp_sched" where
  "handle_syn client_conv peer s =
     (if kx_connections s client_conv \<noteq> None then send_handshake HANDSHAKE_ACK client_conv peer s
      else
        (let s1 = send_handshake HANDSHAKE_ACK client_conv peer (create_connection client_conv peer s) in
         case kx_pending_accepts s1 of
           cb # rest \<Rightarrow> answer_session cb client_conv (s1\<lparr>kx_pending_accepts := rest\<rparr>)
         | [] \<Rightarrow> s1\<lparr>kx_ready_accepts := kx_ready_accepts s1 @ [client_conv]\<rparr>))"

text \<open>The first pending connect of the number, and the list without it.\<close>

fun take_pending :: "u32 \<Rightarrow> pending_connect list \<Rightarrow> (pending_connect \<times> pending_connect list) option" where
  "take_pending conv [] = None"
| "take_pending conv (p # ps) =
     (if pn_conv p = conv then Some (p, ps) else map_option (apsnd ((#) p)) (take_pending conv ps))"

definition handle_ack :: "u32 \<Rightarrow> nat \<Rightarrow> kcp_sched \<Rightarrow> kcp_sched" where
  "handle_ack conv peer s =
     (case take_pending conv (kx_pending_connects s) of
        None \<Rightarrow> s
      | Some (p, ps) \<Rightarrow>
          answer_session (kn_cb (pn_req p)) conv (create_connection conv peer (s\<lparr>kx_pending_connects := ps\<rparr>)))"


text \<open>The pop loop of \<open>recv\<close> makes progress, and the window move only shifts segments.\<close>

lemma recv_loop_shorter: "q \<noteq> [] \<Longrightarrow> length (snd (recv_loop q)) < length q"
  by (induction q rule: recv_loop.induct) (force simp: split_def Let_def less_Suc_eq)+

lemma move_loop_length:
  "move_loop w buf q n = (buf', q', n') \<Longrightarrow> length buf' + length q' = length buf + length q"
  by (induction w buf q n arbitrary: buf' q' n' rule: move_loop.induct) (auto split: if_splits)

lemma recv_shrinks:
  assumes "0 < peeksize k" "peeksize k \<le> len"
  shows "length (rcv_queue (snd (snd (kcp_recv len k)))) + length (rcv_buf (snd (snd (kcp_recv len k))))
    < length (rcv_queue k) + length (rcv_buf k)"
proof -
  have ne: "rcv_queue k \<noteq> []" using assms(1) by (auto simp: peeksize_def)
  obtain bytes rest where r: "recv_loop (rcv_queue k) = (bytes, rest)" by (cases "recv_loop (rcv_queue k)")
  obtain b q n where m: "move_loop (rcv_wnd k) (rcv_buf k) rest (rcv_nxt k) = (b, q, n)"
    by (cases "move_loop (rcv_wnd k) (rcv_buf k) rest (rcv_nxt k)")
  have "length b + length q < length (rcv_queue k) + length (rcv_buf k)"
    using recv_loop_shorter [OF ne] move_loop_length [OF m] by (simp add: r)
  then show ?thesis using assms by (simp add: kcp_recv_def Let_def r move_rcv_buf_to_queue_def m)
qed

text \<open>The loop of \<open>deliver_received\<close>: the frames it builds and the control block.\<close>

function deliver_loop :: "ikcp \<Rightarrow> net_frame list \<times> ikcp" where
  "deliver_loop k =
     (let peeklen = peeksize k in
      if peeklen \<le> 0 then ([], k)
      else
        (let (ret, bytes, k') = kcp_recv peeklen k in
         if ret \<le> 0 then ([], k')
         else (let (fs, k'') = deliver_loop k' in (\<lparr>nf_data = bytes, nf_len = of_int ret\<rparr> # fs, k''))))"
  by pat_completeness auto
termination
proof (relation "measure (\<lambda>k. length (rcv_queue k) + length (rcv_buf k))", goal_cases)
  case (2 k x xa y xb ya)
  then show ?case using recv_shrinks [of k "peeksize k"] by auto (metis prod.sel(2))
qed simp

declare deliver_loop.simps [simp del]

definition deliver_received :: "u32 \<Rightarrow> kcp_connection \<Rightarrow> kcp_sched \<Rightarrow> kcp_sched" where
  "deliver_received conv c s =
     (let (fs, k) = deliver_loop (kc_kcp c);
          c' = c\<lparr>kc_kcp := k, kc_session := fold (\<lambda>f. ks_invoke (On_Frame f)) fs (kc_session c)\<rparr>
      in s\<lparr>kx_connections := (kx_connections s)(conv \<mapsto> c'),
           kx_frames := kx_frames s @ map (\<lambda>f. (conv, nf_data f)) fs\<rparr>)"

definition on_raw_packet :: "byte list \<Rightarrow> nat \<Rightarrow> kcp_sched \<Rightarrow> kcp_sched" where
  "on_raw_packet buf src s =
     (if length buf = HANDSHAKE_PKT_SIZE \<and> buf ! 0 = HANDSHAKE_SYN then handle_syn (decode32u (drop 1 buf)) src s
      else if length buf = HANDSHAKE_PKT_SIZE \<and> buf ! 0 = HANDSHAKE_ACK then handle_ack (decode32u (drop 1 buf)) src s
      else if length buf < IKCP_OVERHEAD then s
      else
        (let conv = decode32u buf in
         case kx_connections s conv of
           None \<Rightarrow> s
         | Some c \<Rightarrow> deliver_received conv (c\<lparr>kc_kcp := snd (kcp_input buf (kc_kcp c))\<rparr>) s))"

fun retry_connects :: "u32 \<Rightarrow> pending_connect list \<Rightarrow> kcp_sched \<Rightarrow> pending_connect list \<times> kcp_sched" where
  "retry_connects now [] s = ([], s)"
| "retry_connects now (p # ps) s =
     (if 0 \<le> itimediff now (pn_next_retry_ts p) then
        (if 10 \<le> pn_retries p then retry_connects now ps (kx_answer (kn_cb (pn_req p)) K_Timeout s)
         else
           (let (ps', s') = retry_connects now ps (send_handshake HANDSHAKE_SYN (pn_conv p) (pn_target p) s)
            in (p\<lparr>pn_retries := pn_retries p + 1, pn_next_retry_ts := now + 500\<rparr> # ps', s')))
      else (let (ps', s') = retry_connects now ps s in (p # ps', s')))"

definition kx_retry :: "u32 \<Rightarrow> kcp_sched \<Rightarrow> kcp_sched" where
  "kx_retry now s =
     (let (ps, s') = retry_connects now (kx_pending_connects s) s in s'\<lparr>kx_pending_connects := ps\<rparr>)"

text \<open>One turn of \<open>update_all_kcp\<close>; the output callback sends to the peer of the connection.\<close>

definition update_one :: "u32 \<Rightarrow> u32 \<Rightarrow> kcp_sched \<Rightarrow> kcp_sched" where
  "update_one now conv s =
     (case kx_connections s conv of
        None \<Rightarrow> s
      | Some c \<Rightarrow>
          (let (outs, k) = kcp_update now (kc_kcp c) in
           s\<lparr>kx_connections := (kx_connections s)(conv \<mapsto> c\<lparr>kc_kcp := k\<rparr>),
             kx_transport := fold (\<lambda>d. dg_sendto d (kc_peer c)) outs (kx_transport s)\<rparr>))"

definition update_all_kcp :: "u32 list \<Rightarrow> u32 \<Rightarrow> kcp_sched \<Rightarrow> kcp_sched" where
  "update_all_kcp order now s = fold (update_one now) order s"

definition kx_input :: "dgram_event list \<Rightarrow> kcp_sched \<Rightarrow> kcp_sched" where
  "kx_input evs s =
     (let (hs, w, t) = dg_advance evs (kx_transport s) in
      fold (\<lambda>(d, src). on_raw_packet d src) hs (s\<lparr>kx_transport := t\<rparr>))"

definition kx_advance :: "u32 list \<Rightarrow> u32 \<Rightarrow> dgram_event list \<Rightarrow> kcp_sched \<Rightarrow> bool \<times> kcp_sched" where
  "kx_advance order now evs s =
     (True, update_all_kcp order now (kx_retry now (kx_input evs (drain_send_q (drain_connect_q now (drain_accept_q s))))))"

text \<open>
  The destructor: the sessions hear of the error and are deleted; the pending requests
  are deleted without an answer.
\<close>

definition kx_destroy :: "kcp_sched \<Rightarrow> (u32 \<rightharpoonup> kcp_session) \<times> nat list" where
  "kx_destroy s =
     (\<lambda>conv. map_option (\<lambda>c. session_broadcast kcp_layers On_Error (kc_session c)) (kx_connections s conv),
      kx_pending_accepts s @ map (kn_cb \<circ> pn_req) (kx_pending_connects s))"

subsection \<open>Every request is answered once\<close>

text \<open>
  The convs of the sessions handed to accept and connect requests; the requests answered
  or held outside the queues.
\<close>

fun session_of :: "nat \<times> kcp_answer \<Rightarrow> u32 list" where
  "session_of (cb, K_Session (Some conv)) = [conv]"
| "session_of _ = []"

definition kx_handed :: "kcp_sched \<Rightarrow> u32 list" where
  "kx_handed s = concat (map session_of (kx_answers s))"

definition kx_held :: "kcp_sched \<Rightarrow> nat multiset" where
  "kx_held s = mset (kx_pending_accepts s) + image_mset (kn_cb \<circ> pn_req) (mset (kx_pending_connects s))"

definition kx_queued :: "kcp_sched \<Rightarrow> nat multiset" where
  "kx_queued s = mset (pc_items (kx_accept_q s)) + image_mset kn_cb (mset (pc_items (kx_connect_q s)))
     + image_mset kq_cb (mset (pc_items (kx_send_q s)))"

definition kx_answered :: "kcp_sched \<Rightarrow> nat multiset" where
  "kx_answered s = image_mset fst (mset (kx_answers s))"

definition kx_mid :: "bool \<Rightarrow> nat multiset \<Rightarrow> kcp_sched \<Rightarrow> bool" where
  "kx_mid client m s \<longleftrightarrow> kx_answered s + kx_held s = m
     \<and> (\<forall>conv c. kx_connections s conv = Some c \<longrightarrow> ks_conv (kc_session c) = conv)
     \<and> dom (kx_connections s) = set (kx_handed s @ kx_ready_accepts s)
     \<and> (\<forall>cb. (cb, K_Session None) \<notin> set (kx_answers s))
     \<and> (client \<or> kx_pending_connects s = [] \<and> distinct (kx_handed s @ kx_ready_accepts s))"

abbreviation kx_queues :: "kcp_sched \<Rightarrow> kcp_send_req pcqueue \<times> nat pcqueue \<times> kcp_connect_req pcqueue \<times> nat list" where
  "kx_queues s \<equiv> (kx_send_q s, kx_accept_q s, kx_connect_q s, kx_issued s)"

lemma fold_keeps: "(\<And>x s. P (f x s) = P s) \<Longrightarrow> P (fold f xs s) = P s"
  by (induction xs arbitrary: s) simp_all

lemma fold_collects:
  "(\<And>x m s. I m s \<Longrightarrow> I (add_mset (g x) m) (f x s)) \<Longrightarrow> I m s \<Longrightarrow> I (image_mset g (mset xs) + m) (fold f xs s)"
proof (induction xs arbitrary: m s)
  case (Cons x xs)
  from Cons.IH [OF Cons.prems(1) Cons.prems(1) [OF Cons.prems(2)]] show ?case by simp
qed simp

lemma fold_preserves: "(\<And>x s. I s \<Longrightarrow> I (f x s)) \<Longrightarrow> I s \<Longrightarrow> I (fold f xs s)"
  by (induction xs arbitrary: s) simp_all

lemma ks_conv_invoke [simp]: "ks_conv (ks_invoke tag s) = ks_conv s"
  by (cases tag) (simp_all add: ks_invoke_def kcp_layers_def kcp_recv_step_def split_def Let_def)

lemma ks_conv_fold [simp]: "ks_conv (fold (\<lambda>f. ks_invoke (On_Frame f)) fs s) = ks_conv s"
  by (rule fold_keeps) simp

lemmas kx_handler_defs = accept_one_def connect_one_def send_one_def handle_syn_def handle_ack_def
  deliver_received_def update_one_def send_handshake_def create_connection_def answer_session_def kx_answer_def
  on_raw_packet_def Let_def split_def

lemma kx_queues_keep [simp]:
  "kx_queues (accept_one cb s) = kx_queues s" "kx_queues (connect_one now r s) = kx_queues s"
  "kx_queues (send_one sr s) = kx_queues s" "kx_queues (update_one now conv s) = kx_queues s"
  "kx_queues (on_raw_packet d src s) = kx_queues s"
  by (simp_all add: kx_handler_defs split: list.splits option.splits)

lemma retry_queues [simp]: "kx_queues (snd (retry_connects now ps s)) = kx_queues s"
  by (induction now ps s rule: retry_connects.induct)
    (auto simp: kx_answer_def send_handshake_def split_def Let_def)

lemma take_pending_split:
  "take_pending conv ps = Some (p, qs) \<Longrightarrow> pn_conv p = conv \<and> mset ps = add_mset p (mset qs)"
  by (induction ps arbitrary: qs) (auto split: if_splits)

text \<open>Answering with a session whose connection exists names that connection.\<close>

lemma kx_handed_append [simp]: "kx_handed (s\<lparr>kx_answers := as @ [a]\<rparr>) = concat (map session_of as) @ session_of a"
  by (simp add: kx_handed_def)

lemma answer_session_eq:
  assumes "kx_connections s conv = Some c" "ks_conv (kc_session c) = conv"
  shows "answer_session cb conv s = s\<lparr>kx_answers := kx_answers s @ [(cb, K_Session (Some conv))]\<rparr>"
  using assms by (simp add: answer_session_def kx_answer_def get_session_def)

lemmas kx_mid_simps = kx_mid_def kx_answered_def kx_held_def kx_handed_def

lemma kx_mid_accept:
  assumes mid: "kx_mid client m s"
  shows "kx_mid client (add_mset cb m) (accept_one cb s)"
proof (cases "kx_ready_accepts s")
  case Nil
  with mid show ?thesis by (simp add: accept_one_def kx_mid_simps)
next
  case (Cons conv rest)
  then have "conv \<in> dom (kx_connections s)" using mid by (simp add: kx_mid_def)
  then obtain c where c: "kx_connections s conv = Some c" by blast
  moreover have "ks_conv (kc_session c) = conv" using mid c by (simp add: kx_mid_def)
  ultimately have "accept_one cb s
    = s\<lparr>kx_ready_accepts := rest, kx_answers := kx_answers s @ [(cb, K_Session (Some conv))]\<rparr>"
    using Cons by (simp add: accept_one_def answer_session_eq)
  with mid Cons show ?thesis by (auto simp: kx_mid_simps)
qed

lemma kx_mid_connect: "kx_mid True m s \<Longrightarrow> kx_mid True (add_mset (kn_cb r) m) (connect_one now r s)"
  by (simp add: connect_one_def kx_mid_simps send_handshake_def Let_def)

lemma kx_mid_update_conn:
  assumes "kx_mid client m s" "kx_connections s conv = Some c" "ks_conv (kc_session c') = conv"
  shows "kx_mid client m (s\<lparr>kx_connections := (kx_connections s)(conv \<mapsto> c')\<rparr>)"
proof -
  have "dom ((kx_connections s)(conv \<mapsto> c')) = dom (kx_connections s)" using assms(2) by auto
  with assms show ?thesis by (simp add: kx_mid_simps)
qed

lemma kx_mid_history [simp]:
  "kx_mid client m (s\<lparr>kx_sent := x\<rparr>) = kx_mid client m s"
  "kx_mid client m (s\<lparr>kx_frames := y\<rparr>) = kx_mid client m s"
  "kx_mid client m (s\<lparr>kx_transport := t\<rparr>) = kx_mid client m s"
  "kx_mid client m (s\<lparr>kx_issued := is\<rparr>) = kx_mid client m s"
  by (simp_all add: kx_mid_simps)

lemma kx_mid_sent: "kx_mid client m s \<Longrightarrow> kx_mid client (add_mset cb m) (kx_answer cb (K_Sent b) s)"
  by (simp add: kx_mid_simps kx_answer_def)

lemma kx_mid_send:
  assumes mid: "kx_mid client m s"
  shows "kx_mid client (add_mset (kq_cb r) m) (send_one r s)"
proof (cases "kx_connections s (kq_conv r)")
  case None
  with kx_mid_sent [OF mid] show ?thesis by (simp add: send_one_def)
next
  case (Some c)
  obtain ret k where k: "kcp_send (kq_data r) (kc_kcp c) = (ret, k)" by (cases "kcp_send (kq_data r) (kc_kcp c)")
  have "ks_conv (kc_session (c\<lparr>kc_kcp := k\<rparr>)) = kq_conv r" using mid Some by (simp add: kx_mid_def)
  note conn = kx_mid_update_conn [OF mid Some this]
  let ?s1 = "s\<lparr>kx_connections := (kx_connections s)(kq_conv r \<mapsto> c\<lparr>kc_kcp := k\<rparr>)\<rparr>"
  have "kx_mid client m (if ret = 0 then ?s1\<lparr>kx_sent := kx_sent ?s1 @ [(kq_conv r, kq_data r)]\<rparr> else ?s1)"
    using conn by simp
  from kx_mid_sent [OF this] show ?thesis by (simp add: send_one_def Some k Let_def)
qed

lemma kx_mid_syn:
  assumes mid: "kx_mid client m s"
  shows "kx_mid client m (handle_syn conv peer s)"
proof (cases "kx_connections s conv")
  case (Some c)
  with mid show ?thesis by (simp add: handle_syn_def send_handshake_def)
next
  case None
  let ?s = "send_handshake HANDSHAKE_ACK conv peer (create_connection conv peer s)"
  have c: "kx_connections ?s conv = Some (new_connection conv peer)" "ks_conv (kc_session (new_connection conv peer)) = conv"
    by (simp_all add: send_handshake_def create_connection_def new_connection_def make_session_def)
  have new: "conv \<notin> set (kx_handed s @ kx_ready_accepts s)" using mid None by (auto simp: kx_mid_def)
  show ?thesis
  proof (cases "kx_pending_accepts s")
    case Nil
    with None mid new c(2) show ?thesis
      by (auto simp: handle_syn_def kx_mid_simps send_handshake_def create_connection_def)
  next
    case (Cons cb rest)
    let ?t = "?s\<lparr>kx_pending_accepts := rest\<rparr>"
    have "answer_session cb conv ?t = ?t\<lparr>kx_answers := kx_answers s @ [(cb, K_Session (Some conv))]\<rparr>"
      using c by (subst answer_session_eq) (auto simp: send_handshake_def create_connection_def)
    with Cons None mid new c(2) show ?thesis
      by (auto simp: handle_syn_def kx_mid_simps send_handshake_def create_connection_def)
  qed
qed

lemma kx_mid_ack:
  assumes mid: "kx_mid client m s"
  shows "kx_mid client m (handle_ack conv peer s)"
proof (cases "take_pending conv (kx_pending_connects s)")
  case None
  with mid show ?thesis by (simp add: handle_ack_def)
next
  case (Some a)
  obtain p ps where a: "a = (p, ps)" by (cases a)
  let ?s = "create_connection conv peer (s\<lparr>kx_pending_connects := ps\<rparr>)"
  have c: "kx_connections ?s conv = Some (new_connection conv peer)" "ks_conv (kc_session (new_connection conv peer)) = conv"
    by (simp_all add: create_connection_def new_connection_def make_session_def)
  have p: "mset (kx_pending_connects s) = add_mset p (mset ps)" using take_pending_split Some a by blast
  then have "client" using mid by (auto simp: kx_mid_def)
  moreover have "answer_session (kn_cb (pn_req p)) conv ?s
    = ?s\<lparr>kx_answers := kx_answers s @ [(kn_cb (pn_req p), K_Session (Some conv))]\<rparr>"
    using c by (subst answer_session_eq) (auto simp: create_connection_def)
  ultimately show ?thesis using mid p c(2)
    by (auto simp: handle_ack_def Some a kx_mid_simps create_connection_def)
qed

lemma kx_mid_deliver:
  assumes mid: "kx_mid client m s" and c: "kx_connections s conv = Some c0" "ks_conv (kc_session c) = conv"
  shows "kx_mid client m (deliver_received conv c s)"
  using kx_mid_update_conn [OF mid c(1)] c(2) by (simp add: deliver_received_def split_def Let_def)

lemma kx_mid_packet:
  assumes mid: "kx_mid client m s"
  shows "kx_mid client m (on_raw_packet d src s)"
proof -
  have "kx_mid client m (case kx_connections s conv of None \<Rightarrow> s
      | Some c \<Rightarrow> deliver_received conv (c\<lparr>kc_kcp := k c\<rparr>) s)" for conv k
  proof (cases "kx_connections s conv")
    case (Some c)
    have "ks_conv (kc_session (c\<lparr>kc_kcp := k c\<rparr>)) = conv" using mid Some by (simp add: kx_mid_def)
    from kx_mid_deliver [OF mid Some this] Some show ?thesis by simp
  qed (use mid in simp)
  with kx_mid_syn [OF mid] kx_mid_ack [OF mid] mid show ?thesis by (simp add: on_raw_packet_def Let_def)
qed

lemma kx_mid_update:
  assumes mid: "kx_mid client m s"
  shows "kx_mid client m (update_one now conv s)"
proof (cases "kx_connections s conv")
  case (Some c)
  obtain outs k where k: "kcp_update now (kc_kcp c) = (outs, k)" by (cases "kcp_update now (kc_kcp c)")
  have "ks_conv (kc_session (c\<lparr>kc_kcp := k\<rparr>)) = conv" using mid Some by (simp add: kx_mid_def)
  from kx_mid_update_conn [OF mid Some this] show ?thesis
    by (simp add: update_one_def Some k kx_mid_simps)
qed (use mid in \<open>simp add: update_one_def\<close>)

lemma retry_accounts:
  "retry_connects now ps s = (ps', s') \<Longrightarrow>
    image_mset (kn_cb \<circ> pn_req) (mset ps') + kx_answered s' = image_mset (kn_cb \<circ> pn_req) (mset ps) + kx_answered s
    \<and> kx_connections s' = kx_connections s \<and> kx_pending_accepts s' = kx_pending_accepts s
    \<and> kx_ready_accepts s' = kx_ready_accepts s \<and> kx_handed s' = kx_handed s
    \<and> ((\<forall>cb. (cb, K_Session None) \<notin> set (kx_answers s)) \<longrightarrow> (\<forall>cb. (cb, K_Session None) \<notin> set (kx_answers s')))"
proof (induction now ps s arbitrary: ps' s' rule: retry_connects.induct)
  case (2 now p ps s)
  obtain ps1 s1 where a: "retry_connects now ps (kx_answer (kn_cb (pn_req p)) K_Timeout s) = (ps1, s1)"
    by (cases "retry_connects now ps (kx_answer (kn_cb (pn_req p)) K_Timeout s)")
  obtain ps2 s2 where b: "retry_connects now ps (send_handshake HANDSHAKE_SYN (pn_conv p) (pn_target p) s) = (ps2, s2)"
    by (cases "retry_connects now ps (send_handshake HANDSHAKE_SYN (pn_conv p) (pn_target p) s)")
  obtain ps3 s3 where c: "retry_connects now ps s = (ps3, s3)" by (cases "retry_connects now ps s")
  show ?case
  proof (cases "0 \<le> itimediff now (pn_next_retry_ts p)")
    case due: True
    show ?thesis
    proof (cases "10 \<le> pn_retries p")
      case True
      from "2.IH"(1) [OF due True a] "2.prems" due True a show ?thesis
        by (simp add: kx_answer_def kx_answered_def kx_handed_def)
    next
      case False
      from "2.IH"(2) [OF due False b] "2.prems" due False b show ?thesis
        by (auto simp: send_handshake_def kx_answered_def kx_handed_def)
    qed
  next
    case False
    from "2.IH"(3) [OF False c] "2.prems" False c show ?thesis by auto
  qed
qed simp

lemma kx_mid_retry:
  assumes mid: "kx_mid client m s"
  shows "kx_mid client m (kx_retry now s)"
proof -
  obtain ps s' where r: "retry_connects now (kx_pending_connects s) s = (ps, s')"
    by (cases "retry_connects now (kx_pending_connects s) s")
  have "client \<or> ps = []" using mid r by (auto simp: kx_mid_def)
  with retry_accounts [OF r] mid show ?thesis by (auto simp: kx_retry_def r kx_mid_simps ac_simps)
qed

definition kx_inv :: "bool \<Rightarrow> kcp_sched \<Rightarrow> bool" where
  "kx_inv client s \<longleftrightarrow> pcq_inv (kx_send_q s) \<and> pcq_inv (kx_accept_q s) \<and> pcq_inv (kx_connect_q s)
     \<and> (client \<or> pc_items (kx_connect_q s) = [])
     \<and> (\<exists>m. kx_mid client m s \<and> m + kx_queued s = mset (kx_issued s))"

lemma kx_inv_mid:
  assumes inv: "kx_inv client s" and keep: "kx_queues s' = kx_queues s"
    and mid: "\<And>m. kx_mid client m s \<Longrightarrow> kx_mid client m s'"
  shows "kx_inv client s'"
  using assms by (auto simp: kx_inv_def kx_queued_def)

lemma packet_inv: "kx_inv client s \<Longrightarrow> kx_inv client (on_raw_packet d src s)"
  by (rule kx_inv_mid [OF _ kx_queues_keep(5) kx_mid_packet])

lemma update_one_inv: "kx_inv client s \<Longrightarrow> kx_inv client (update_one now conv s)"
  by (rule kx_inv_mid [OF _ kx_queues_keep(4) kx_mid_update])

lemma kx_mid_queues [simp]:
  "kx_mid client m (s\<lparr>kx_send_q := q1\<rparr>) = kx_mid client m s" "kx_mid client m (s\<lparr>kx_accept_q := q2\<rparr>) = kx_mid client m s"
  "kx_mid client m (s\<lparr>kx_connect_q := q3\<rparr>) = kx_mid client m s"
  by (simp_all add: kx_mid_simps)

lemma drain_accept_inv:
  assumes inv: "kx_inv client s"
  shows "kx_inv client (drain_accept_q s)"
proof -
  obtain w cbs q where d: "pc_drain (kx_accept_q s) = (w, cbs, q)" by (cases "pc_drain (kx_accept_q s)")
  from inv have q: "cbs = pc_items (kx_accept_q s)" "pcq_inv q" "pc_items q = []"
    using pc_drain_items [OF _ d] by (auto simp: kx_inv_def)
  have "kx_queues (fold accept_one cbs (s\<lparr>kx_accept_q := q\<rparr>)) = kx_queues (s\<lparr>kx_accept_q := q\<rparr>)" by (rule fold_keeps) simp
  moreover obtain m where m: "kx_mid client m s" "m + kx_queued s = mset (kx_issued s)" using inv by (auto simp: kx_inv_def)
  have "kx_mid client (image_mset (\<lambda>x. x) (mset cbs) + m) (fold accept_one cbs (s\<lparr>kx_accept_q := q\<rparr>))"
    by (rule fold_collects [where I = "kx_mid client"]) (use m(1) kx_mid_accept in auto)
  ultimately show ?thesis using m inv q unfolding kx_inv_def
    by (auto simp: drain_accept_q_def d kx_queued_def ac_simps intro!: exI [of _ "mset cbs + m"])
qed

lemma drain_connect_inv:
  assumes inv: "kx_inv client s"
  shows "kx_inv client (drain_connect_q now s)"
proof -
  obtain w rs q where d: "pc_drain (kx_connect_q s) = (w, rs, q)" by (cases "pc_drain (kx_connect_q s)")
  from inv have q: "rs = pc_items (kx_connect_q s)" "pcq_inv q" "pc_items q = []"
    using pc_drain_items [OF _ d] by (auto simp: kx_inv_def)
  have "kx_queues (fold (connect_one now) rs (s\<lparr>kx_connect_q := q\<rparr>)) = kx_queues (s\<lparr>kx_connect_q := q\<rparr>)"
    by (rule fold_keeps) simp
  moreover obtain m where m: "kx_mid client m s" "m + kx_queued s = mset (kx_issued s)" using inv by (auto simp: kx_inv_def)
  have "kx_mid client (image_mset kn_cb (mset rs) + m) (fold (connect_one now) rs (s\<lparr>kx_connect_q := q\<rparr>))"
  proof (cases client)
    case True
    with m(1) show ?thesis by (intro fold_collects [where I = "kx_mid client"]) (auto intro: kx_mid_connect)
  next
    case False
    with inv q m(1) show ?thesis by (simp add: kx_inv_def)
  qed
  ultimately show ?thesis using m inv q unfolding kx_inv_def
    by (auto simp: drain_connect_q_def d kx_queued_def ac_simps intro!: exI [of _ "image_mset kn_cb (mset rs) + m"])
qed

lemma drain_send_inv:
  assumes inv: "kx_inv client s"
  shows "kx_inv client (drain_send_q s)"
proof -
  obtain w rs q where d: "pc_drain (kx_send_q s) = (w, rs, q)" by (cases "pc_drain (kx_send_q s)")
  from inv have q: "rs = pc_items (kx_send_q s)" "pcq_inv q" "pc_items q = []"
    using pc_drain_items [OF _ d] by (auto simp: kx_inv_def)
  have "kx_queues (fold send_one rs (s\<lparr>kx_send_q := q\<rparr>)) = kx_queues (s\<lparr>kx_send_q := q\<rparr>)" by (rule fold_keeps) simp
  moreover obtain m where m: "kx_mid client m s" "m + kx_queued s = mset (kx_issued s)" using inv by (auto simp: kx_inv_def)
  have "kx_mid client (image_mset kq_cb (mset rs) + m) (fold send_one rs (s\<lparr>kx_send_q := q\<rparr>))"
    by (rule fold_collects [where I = "kx_mid client"]) (use m(1) kx_mid_send in auto)
  ultimately show ?thesis using m inv q unfolding kx_inv_def
    by (auto simp: drain_send_q_def d kx_queued_def ac_simps intro!: exI [of _ "image_mset kq_cb (mset rs) + m"])
qed

lemma kx_input_inv:
  assumes inv: "kx_inv client s"
  shows "kx_inv client (kx_input evs s)"
proof -
  obtain hs w t where d: "dg_advance evs (kx_transport s) = (hs, w, t)" by (cases "dg_advance evs (kx_transport s)")
  have "kx_inv client (s\<lparr>kx_transport := t\<rparr>)" using inv by (rule kx_inv_mid) auto
  then have "kx_inv client (fold (\<lambda>(d, src). on_raw_packet d src) hs (s\<lparr>kx_transport := t\<rparr>))"
    by (rule fold_preserves [rotated]) (auto intro: packet_inv)
  then show ?thesis by (simp add: kx_input_def d)
qed

lemma kx_advance_inv:
  assumes inv: "kx_inv client s" and a: "kx_advance order now evs s = (alive, s')"
  shows "kx_inv client s'"
proof -
  have retry: "kx_inv client (kx_retry now u)" if "kx_inv client u" for u
    using that by (rule kx_inv_mid) (auto simp: kx_retry_def split_def Let_def intro: kx_mid_retry [unfolded kx_retry_def split_def Let_def])
  have "kx_inv client (update_all_kcp order now u)" if "kx_inv client u" for u
    unfolding update_all_kcp_def using that by (rule fold_preserves [rotated]) (rule update_one_inv)
  from this [OF retry [OF kx_input_inv [OF drain_send_inv [OF drain_connect_inv [OF drain_accept_inv [OF inv]]]]]] a
  show ?thesis by (auto simp: kx_advance_def)
qed

text \<open>
  The steps: requests of any core, reads of a session, turns of the scheduler with any
  events, any clock and any order of \<open>update_all_kcp\<close>. \<open>client\<close> tells whether connect
  requests are made; a pure server makes none.
\<close>

inductive kx_step :: "bool \<Rightarrow> kcp_sched \<Rightarrow> kcp_sched \<Rightarrow> bool" for client where
  kx_accept: "core_ok (kx_accept_q s) core \<Longrightarrow> schedule_accept core cb s = Some s' \<Longrightarrow> kx_step client s s'"
| kx_connect: "client \<Longrightarrow> core_ok (kx_connect_q s) core \<Longrightarrow> schedule_connect core r s = Some s' \<Longrightarrow> kx_step client s s'"
| kx_send: "core_ok (kx_send_q s) core \<Longrightarrow> kx_schedule_send core sr s = Some s' \<Longrightarrow> kx_step client s s'"
| kx_recv: "kx_connections s conv = Some c \<Longrightarrow>
    s' = s\<lparr>kx_connections := (kx_connections s)(conv \<mapsto> c\<lparr>kc_session := ks_invoke (Do_Recv cb) (kc_session c)\<rparr>)\<rparr> \<Longrightarrow>
    kx_step client s s'"
| kx_turn: "kx_advance order now evs s = (alive, s') \<Longrightarrow> kx_step client s s'"

inductive kx_reach :: "bool \<Rightarrow> kcp_sched \<Rightarrow> kcp_sched \<Rightarrow> bool" for client s0 where
  kx_start: "kx_reach client s0 s0"
| kx_go: "kx_reach client s0 s \<Longrightarrow> kx_step client s s' \<Longrightarrow> kx_reach client s0 s'"

lemma kx_new_inv:
  assumes "kx_new depth t = Some s" "depth \<noteq> 0"
  shows "kx_inv client s"
  using assms
  by (auto simp: kx_new_def kx_inv_def kx_mid_simps kx_queued_def dest!: pc_new_items split: option.splits
      intro!: exI [of _ "{#}"])

lemma kx_step_inv: "kx_step client s s' \<Longrightarrow> kx_inv client s \<Longrightarrow> kx_inv client s'"
proof (induction rule: kx_step.induct)
  case (kx_accept s core cb s')
  obtain res q where e: "pc_try_enqueue True core cb (kx_accept_q s) = (res, q)"
    by (cases "pc_try_enqueue True core cb (kx_accept_q s)")
  have "pcq_inv (kx_accept_q s)" using kx_accept.prems by (simp add: kx_inv_def)
  from pc_try_enqueue_items [OF this kx_accept.hyps(1) e] pc_enqueue_aborts [OF e] kx_accept show ?case
    by (cases res) (auto simp: schedule_accept_def e kx_issue_def kx_inv_def kx_queued_def split: if_splits)
next
  case (kx_connect s core r s')
  obtain res q where e: "pc_try_enqueue True core r (kx_connect_q s) = (res, q)"
    by (cases "pc_try_enqueue True core r (kx_connect_q s)")
  have "pcq_inv (kx_connect_q s)" using kx_connect.prems by (simp add: kx_inv_def)
  from pc_try_enqueue_items [OF this kx_connect.hyps(2) e] pc_enqueue_aborts [OF e] kx_connect show ?case
    by (cases res) (auto simp: schedule_connect_def e kx_issue_def kx_inv_def kx_queued_def split: if_splits)
next
  case (kx_send s core r s')
  obtain res q where e: "pc_try_enqueue True core r (kx_send_q s) = (res, q)"
    by (cases "pc_try_enqueue True core r (kx_send_q s)")
  have "pcq_inv (kx_send_q s)" using kx_send.prems by (simp add: kx_inv_def)
  from pc_try_enqueue_items [OF this kx_send.hyps(1) e] pc_enqueue_aborts [OF e] kx_send show ?case
    by (cases res) (auto simp: kx_schedule_send_def e kx_issue_def kx_inv_def kx_queued_def split: if_splits)
next
  case (kx_recv s conv c s' cb)
  have "kx_mid client m s \<Longrightarrow> kx_mid client m s'" for m
    unfolding kx_recv.hyps(2) by (rule kx_mid_update_conn [OF _ kx_recv.hyps(1)]) (use kx_recv in \<open>auto simp: kx_mid_def\<close>)
  with kx_recv show ?case by (intro kx_inv_mid [of client s s']) auto
next
  case (kx_turn order now evs s alive s')
  then show ?case by (blast intro: kx_advance_inv)
qed

lemma kx_reach_inv: "kx_reach client s0 s \<Longrightarrow> kx_inv client s0 \<Longrightarrow> kx_inv client s"
  by (induction rule: kx_reach.induct) (auto intro: kx_step_inv)

interpretation kx: request_contract "kx_reach client" "kx_inv client" "\<lambda>s. mset (kx_issued s)" kx_answered
    "\<lambda>s. kx_held s + kx_queued s" for client
  by unfold_locales (erule (1) kx_reach_inv, auto simp: kx_inv_def kx_mid_def ac_simps)

text \<open>
  C8: every accept, connect and send request is answered exactly once or still waits in
  the scheduler or its queues; every connection was handed to a request or waits for an
  accept request, every session handed out is that of an existing connection; and a
  pure server hands each of its connections to one accept request only.
\<close>

theorem kcp_requests_answered_once:
  assumes "kx_new depth t = Some s0" "depth \<noteq> 0" "kx_reach client s0 s"
  shows "kx_answered s + kx_held s + kx_queued s = mset (kx_issued s)
    \<and> dom (kx_connections s) = set (kx_handed s @ kx_ready_accepts s)
    \<and> (\<forall>cb. (cb, K_Session None) \<notin> set (kx_answers s))
    \<and> (client \<or> distinct (kx_handed s @ kx_ready_accepts s))"
  using kx_reach_inv [OF assms(3) kx_new_inv [OF assms(1,2)]] unfolding kx_inv_def kx_mid_def by blast

text \<open>An accept request and the SYN of connection 9 from peer 5.\<close>

lemma kx_new_some:
  "\<exists>sq aq cq. kx_new 4 dg_none = Some \<lparr>kx_transport = dg_none, kx_send_q = sq, kx_accept_q = aq, kx_connect_q = cq,
     kx_connections = (\<lambda>_. None), kx_pending_accepts = [], kx_ready_accepts = [], kx_pending_connects = [],
     kx_next_conv = 1, kx_answers = [], kx_issued = [], kx_sent = [], kx_frames = []\<rparr>
   \<and> pcq_inv sq \<and> pc_items sq = [] \<and> pcq_inv aq \<and> pc_items aq = [] \<and> pc_capacity aq = 4
   \<and> pcq_inv cq \<and> pc_items cq = []"
proof -
  have "pc_new d 4 (- 1) \<noteq> None" for d :: 'x by (simp add: pc_new_def lq_new_def sp_new_def)
  then obtain sq aq cq where q: "pc_new \<lparr>kq_conv = 0, kq_data = [], kq_cb = 0\<rparr> 4 (- 1) = Some sq"
    "pc_new (0 :: nat) 4 (- 1) = Some aq" "pc_new \<lparr>kn_target = 0, kn_cb = 0\<rparr> 4 (- 1) = Some cq" by (metis option.exhaust)
  from q [THEN pc_new_items] show ?thesis by (simp add: kx_new_def q)
qed

definition syn_event :: "u32 \<Rightarrow> nat \<Rightarrow> dgram_event" where
  "syn_event conv src = \<lparr>ev_arrived = [(handshake_pkt HANDSHAKE_SYN conv, src)], ev_in = True, ev_out = False\<rparr>"

lemma handshake_pkt_read [simp]:
  "length (handshake_pkt t conv) = HANDSHAKE_PKT_SIZE" "handshake_pkt t conv ! 0 = t"
  "handshake_pkt t conv ! Suc 0 = encode32u conv ! 0"
  "decode32u (drop (Suc 0) (handshake_pkt t conv)) = conv" "take 65536 (handshake_pkt t conv) = handshake_pkt t conv"
  "handshake_pkt t conv \<noteq> []"
  using decode32u_encode32u [of conv "[]"]
  by (simp_all add: handshake_pkt_def HANDSHAKE_PKT_SIZE_def encode32u_def)

lemma syn_dispatch: "on_raw_packet (handshake_pkt HANDSHAKE_SYN conv) src s = handle_syn conv src s"
  by (simp add: on_raw_packet_def)

lemma kcp_requests_answered_once_witness:
  "\<exists>s0 s. kx_reach False s0 s \<and> kx_answers s = [(7, K_Session (Some 9))]
     \<and> kx_answered s + kx_held s + kx_queued s = {#7#} \<and> dom (kx_connections s) = {9}"
proof -
  obtain sq aq cq where s0: "kx_new 4 dg_none = Some \<lparr>kx_transport = dg_none, kx_send_q = sq, kx_accept_q = aq, kx_connect_q = cq,
     kx_connections = (\<lambda>_. None), kx_pending_accepts = [], kx_ready_accepts = [], kx_pending_connects = [],
     kx_next_conv = 1, kx_answers = [], kx_issued = [], kx_sent = [], kx_frames = []\<rparr>" (is "_ = Some ?s0")
   and q: "pcq_inv sq" "pc_items sq = []" "pcq_inv aq" "pc_items aq = []" "pc_capacity aq = 4" "pcq_inv cq" "pc_items cq = []"
    using kx_new_some by blast
  have c: "core_ok aq 0" by (simp add: core_ok_def MAX_CORES_def)
  obtain aq1 where e: "pc_try_enqueue True 0 7 aq = (Pc_Ok, aq1)"
    using pc_enqueue_room [OF q(3) c, of True 7] q by auto
  have aq1: "pcq_inv aq1" "mset (pc_items aq1) = {#7#}" using pc_try_enqueue_items [OF q(3) c e] q by auto
  then have items: "pc_items aq1 = [7]" by (simp add: mset_single_iff_right)
  let ?s1 = "?s0\<lparr>kx_accept_q := aq1, kx_issued := [7]\<rparr>"
  have "schedule_accept 0 7 ?s0 = Some ?s1" by (simp add: schedule_accept_def e kx_issue_def)
  from kx_go [OF kx_start kx_accept [OF _ this]] c have r1: "kx_reach False ?s0 ?s1" by simp
  obtain wa aq2 where da: "pc_drain aq1 = (wa, [7], aq2)" using pc_drain_items [OF aq1(1)] items by (metis prod_cases3)
  obtain wc cq2 where dc: "pc_drain cq = (wc, [], cq2)" using pc_drain_items [OF q(6)] q by (metis prod_cases3)
  obtain ws sq2 where ds: "pc_drain sq = (ws, [], sq2)" using pc_drain_items [OF q(1)] q by (metis prod_cases3)
  let ?s2 = "snd (kx_advance [] 0 [syn_event 9 5] ?s1)"
  have "kx_advance [] 0 [syn_event 9 5] ?s1 = (True, ?s2)" by (simp add: kx_advance_def)
  from kx_go [OF r1 kx_turn [OF this]] have r2: "kx_reach False ?s0 ?s2" .
  have s2: "kx_answers ?s2 = [(7, K_Session (Some 9))]" "dom (kx_connections ?s2) = {9}" "kx_issued ?s2 = [7]"
    by (simp_all add: kx_advance_def update_all_kcp_def kx_retry_def kx_input_def drain_send_q_def drain_connect_q_def
        drain_accept_q_def da dc ds accept_one_def syn_event_def dg_none_def syn_dispatch handle_syn_def
        send_handshake_def create_connection_def new_connection_def make_session_def answer_session_eq)
  from kcp_requests_answered_once [OF s0 _ r2] s2 r2 show ?thesis
    by (intro exI [of _ ?s0] exI [of _ ?s2]) simp
qed

end
