(* ===== verification/Kcp_Network.thy ===== *)
theory Kcp_Network
  imports Kcp_Epoll
begin

section \<open>Two KCP schedulers and the network between them\<close>

text \<open>
  The schedulers of two processes that talk to each other. Every handler of \<open>advance\<close> is
  a step of its own, so the two interleave in any way; the network keeps every datagram
  either side has sent and delivers any of them, any number of times and in any order.
  The sides are \<open>True\<close> and \<open>False\<close>, each may connect and accept.
\<close>

subsection \<open>The handlers as steps\<close>

text \<open>The label of a step is the datagram it takes from the network.\<close>

inductive kx_micro :: "byte list option \<Rightarrow> kcp_sched \<Rightarrow> kcp_sched \<Rightarrow> bool" where
  m_accepts: "kx_micro None s (drain_accept_q s)"
| m_connects: "kx_micro None s (drain_connect_q now s)"
| m_queue: "kx_micro None s (s\<lparr>kx_send_q := q\<rparr>)"
| m_send: "kx_micro None s (send_one r s)"
| m_poll: "dg_advance evs (kx_transport s) = (hs, w, t) \<Longrightarrow> kx_micro None s (s\<lparr>kx_transport := t\<rparr>)"
| m_packet: "kx_micro (Some d) s (on_raw_packet d src s)"
| m_retry: "kx_micro None s (kx_retry now s)"
| m_update: "kx_micro None s (update_one now conv s)"
| m_accept: "schedule_accept core cb s = Some s' \<Longrightarrow> kx_micro None s s'"
| m_connect: "schedule_connect core cr s = Some s' \<Longrightarrow> kx_micro None s s'"
| m_schedule: "kx_schedule_send core sr s = Some s' \<Longrightarrow> kx_micro None s s'"
| m_recv: "kx_connections s conv = Some c \<Longrightarrow>
    kx_micro None s (s\<lparr>kx_connections := (kx_connections s)(conv \<mapsto> c\<lparr>kc_session := ks_invoke (Do_Recv cb) (kc_session c)\<rparr>)\<rparr>)"

inductive kx_micros :: "byte list list \<Rightarrow> kcp_sched \<Rightarrow> kcp_sched \<Rightarrow> bool" where
  ms_nil: "kx_micros [] s s"
| ms_quiet: "kx_micros ds s t \<Longrightarrow> kx_micro None t u \<Longrightarrow> kx_micros ds s u"
| ms_packet: "kx_micros ds s t \<Longrightarrow> kx_micro (Some d) t u \<Longrightarrow> kx_micros (ds @ [d]) s u"

lemma kx_micros_fold:
  assumes "\<And>x s. kx_micro None s (f x s)"
  shows "kx_micros ds s t \<Longrightarrow> kx_micros ds s (fold f xs t)"
proof (induction xs arbitrary: t)
  case (Cons x xs)
  from Cons.IH [OF ms_quiet [OF Cons.prems assms [of t x]]] show ?case by simp
qed simp

lemma kx_micros_packets:
  "kx_micros ds s t \<Longrightarrow> kx_micros (ds @ map fst hs) s (fold (\<lambda>(d, src). on_raw_packet d src) hs t)"
proof (induction hs arbitrary: ds t)
  case (Cons h hs)
  obtain d src where h: "h = (d, src)" by (cases h)
  from Cons.IH [OF ms_packet [OF Cons.prems m_packet [of d t src]]] h show ?case by simp
qed simp

text \<open>A turn of the scheduler is a sequence of them, one for every datagram it reads.\<close>

lemma kx_advance_micros:
  assumes "dg_advance evs (kx_transport (drain_send_q (drain_connect_q now (drain_accept_q s)))) = (hs, w, t)"
  shows "kx_micros (map fst hs) s (snd (kx_advance order now evs s))"
proof -
  let ?s2 = "drain_connect_q now (drain_accept_q s)"
  have "kx_micros [] s ?s2" by (rule ms_quiet [OF ms_quiet [OF ms_nil m_accepts] m_connects])
  then have "kx_micros [] s (?s2\<lparr>kx_send_q := snd (snd (pc_drain (kx_send_q ?s2)))\<rparr>)" by (rule ms_quiet) (rule m_queue)
  then have 3: "kx_micros [] s (drain_send_q ?s2)"
    unfolding drain_send_q_def split_def Let_def by (rule kx_micros_fold [OF m_send])
  from kx_micros_packets [OF ms_quiet [OF this m_poll [OF assms]], of hs] assms
  have "kx_micros (map fst hs) s (kx_input evs (drain_send_q ?s2))" by (simp add: kx_input_def)
  from kx_micros_fold [OF m_update ms_quiet [OF this m_retry]] show ?thesis
    by (simp add: kx_advance_def update_all_kcp_def)
qed

subsection \<open>The world\<close>

text \<open>The control block of a connection; the one it would start with before it exists.\<close>

definition kcp_at :: "u32 \<Rightarrow> kcp_sched \<Rightarrow> ikcp" where
  "kcp_at conv s = (case kx_connections s conv of Some c \<Rightarrow> kc_kcp c | None \<Rightarrow> kc_kcp (new_connection conv 0))"

definition sent_on :: "u32 \<Rightarrow> kcp_sched \<Rightarrow> byte list list" where
  "sent_on conv s = map snd (filter (\<lambda>x. fst x = conv) (kx_sent s))"

definition frames_on :: "u32 \<Rightarrow> kcp_sched \<Rightarrow> byte list list" where
  "frames_on conv s = map snd (filter (\<lambda>x. fst x = conv) (kx_frames s))"

text \<open>How many fragments a side has numbered and accepted on a connection.\<close>

definition kx_numbered :: "u32 \<Rightarrow> kcp_sched \<Rightarrow> nat" where
  "kx_numbered conv s = length (stream MSS (sent_on conv s)) - length (snd_queue (kcp_at conv s))"

definition kx_accepted :: "u32 \<Rightarrow> kcp_sched \<Rightarrow> nat" where
  "kx_accepted conv s = length (stream MSS (frames_on conv s)) + length (rcv_queue (kcp_at conv s))"

text \<open>
  As history, the world remembers two events after which the numbers of a connection do not mean
  what they meant before: \<open>kw_replaced\<close> are the numbers of connections that \<open>handle_ack\<close> created anew
  while they were in use, on either side; \<open>kw_stale\<close> are those on which a datagram was received
  that is out of date by about 2^31 fragments, when the 32-bit numbers have wrapped around.
\<close>

record kcp_world =
  kw_end :: "bool \<Rightarrow> kcp_sched"
  kw_net :: "bool \<Rightarrow> (nat \<times> byte list) set"
  kw_replaced :: "u32 set"
  kw_stale :: "u32 set"

definition new_dgrams :: "kcp_sched \<Rightarrow> kcp_sched \<Rightarrow> byte list list" where
  "new_dgrams s s' = map fst (drop (length (dg_sent (kx_transport s))) (dg_sent (kx_transport s')))"

text \<open>Side \<open>e\<close> moves to \<open>s\<close>; the network notes with a datagram how many fragments were numbered.\<close>

definition kw_put :: "bool \<Rightarrow> kcp_sched \<Rightarrow> kcp_world \<Rightarrow> kcp_world" where
  "kw_put e s w = w\<lparr>kw_end := (kw_end w)(e := s),
     kw_net := (kw_net w)(e := kw_net w e \<union> (\<lambda>d. (kx_numbered (decode32u d) s, d)) ` set (new_dgrams (kw_end w e) s))\<rparr>"

text \<open>What the world notes when side \<open>e\<close> receives \<open>d\<close>, sent when \<open>n\<close> fragments were numbered.\<close>

definition ack_replaces :: "byte list \<Rightarrow> kcp_sched \<Rightarrow> bool" where
  "ack_replaces d s \<longleftrightarrow> length d = HANDSHAKE_PKT_SIZE \<and> d ! 0 = HANDSHAKE_ACK
     \<and> take_pending (decode32u (drop 1 d)) (kx_pending_connects s) \<noteq> None \<and> kx_connections s (decode32u (drop 1 d)) \<noteq> None"

definition out_of_date :: "nat \<Rightarrow> byte list \<Rightarrow> kcp_sched \<Rightarrow> bool" where
  "out_of_date n d s \<longleftrightarrow> IKCP_OVERHEAD \<le> length d \<and> kx_connections s (decode32u d) \<noteq> None
     \<and> \<not> not_stale n (kx_accepted (decode32u d) s) (kcp_at (decode32u d) s)"

definition kw_note :: "bool \<Rightarrow> nat \<Rightarrow> byte list \<Rightarrow> kcp_world \<Rightarrow> kcp_world" where
  "kw_note e n d w = w\<lparr>kw_replaced := kw_replaced w \<union> (if ack_replaces d (kw_end w e) then {decode32u (drop 1 d)} else {}),
     kw_stale := kw_stale w \<union> (if out_of_date n d (kw_end w e) then {decode32u d} else {})\<rparr>"

abbreviation kw_spoiled :: "kcp_world \<Rightarrow> u32 set" where
  "kw_spoiled w \<equiv> kw_replaced w \<union> kw_stale w"

inductive kw_step :: "kcp_world \<Rightarrow> kcp_world \<Rightarrow> bool" where
  kw_works: "kx_micro None (kw_end w e) s \<Longrightarrow> kw_step w (kw_put e s w)"
| kw_receives: "(n, d) \<in> kw_net w (\<not> e) \<Longrightarrow> kx_micro (Some d) (kw_end w e) s \<Longrightarrow>
    kw_step w (kw_put e s (kw_note e n d w))"

inductive kw_reach :: "kcp_world \<Rightarrow> bool" where
  kw_start: "kx_new depth0 t0 = Some s0 \<Longrightarrow> kx_new depth1 t1 = Some s1 \<Longrightarrow> dg_sent t0 = [] \<Longrightarrow> dg_sent t1 = [] \<Longrightarrow>
    kw_reach \<lparr>kw_end = (\<lambda>e. if e then s1 else s0), kw_net = (\<lambda>_. {}), kw_replaced = {}, kw_stale = {}\<rparr>"
| kw_go: "kw_reach w \<Longrightarrow> kw_step w w' \<Longrightarrow> kw_reach w'"

subsection \<open>A connection of the world\<close>

definition data_net :: "u32 \<Rightarrow> (nat \<times> byte list) set \<Rightarrow> (nat \<times> byte list) set" where
  "data_net conv N = {(n, d) \<in> N. IKCP_OVERHEAD \<le> length d \<and> decode32u d = conv}"

text \<open>Connection \<open>conv\<close> from side \<open>e\<close> to the other, as a system of \<open>Ikcp_Connection\<close>.\<close>

definition kcp_sys_of :: "bool \<Rightarrow> u32 \<Rightarrow> kcp_world \<Rightarrow> kcp_sys" where
  "kcp_sys_of e conv w = \<lparr>side_a = kcp_at conv (kw_end w e), side_b = kcp_at conv (kw_end w (\<not> e)),
     net = data_net conv (kw_net w e), msgs = sent_on conv (kw_end w e), got = frames_on conv (kw_end w (\<not> e)),
     numbered = kx_numbered conv (kw_end w e), acc = kx_accepted conv (kw_end w (\<not> e))\<rparr>"

text \<open>
  A control block is the sending half of some run of its connection, also after it has replaced
  another; unless something spoiled the connection, it is the one of this world.
\<close>

definition own_stream :: "u32 \<Rightarrow> ikcp \<Rightarrow> bool" where
  "own_stream conv k \<longleftrightarrow> (\<exists>S. conn_inv conv S \<and> side_a S = k)"

definition kw_inv :: "kcp_world \<Rightarrow> bool" where
  "kw_inv w \<longleftrightarrow> (\<forall>e conv. own_stream conv (kcp_at conv (kw_end w e))
     \<and> (conv \<notin> kw_spoiled w \<longrightarrow> conn_inv conv (kcp_sys_of e conv w)))"

text \<open>The two counts are determined by the rest of the system.\<close>

lemma conn_inv_counts:
  assumes "conn_inv conv S"
  shows "numbered S = length (stream MSS (msgs S)) - length (snd_queue (side_a S))"
    and "acc S = length (stream MSS (got S)) + length (rcv_queue (side_b S))"
proof -
  from assms obtain "is" where "tx_stream (msgs S) (numbered S) is (side_a S)" by (auto simp: conn_inv_def)
  then have "numbered S \<le> length (stream MSS (msgs S))"
    "map seg_frag (snd_queue (side_a S)) = drop (numbered S) (stream MSS (msgs S))" by (simp_all add: tx_stream_def)
  from this(1) arg_cong [OF this(2), of length] show "numbered S = length (stream MSS (msgs S)) - length (snd_queue (side_a S))"
    by simp
  have r: "reads MSS (msgs S) (length (got S)) (acc S) (side_b S)" "got S = take (length (got S)) (msgs S)"
    using assms by (auto simp: conn_inv_def)
  have "length (stream MSS (take (length (got S)) (msgs S))) \<le> acc S"
    "list_all2 (carries (stream MSS (msgs S))) [length (stream MSS (take (length (got S)) (msgs S)))..<acc S] (rcv_queue (side_b S))"
    using r(1) by (auto simp: reads_def rx_inv_def)
  with list_all2_lengthD [OF this(2)] show "acc S = length (stream MSS (got S)) + length (rcv_queue (side_b S))"
    unfolding r(2) [symmetric] by simp
qed

lemma conn_inv_transfer:
  assumes T: "conn_inv conv T"
    and eq: "side_a T = side_a S" "side_b T = side_b S" "msgs T = msgs S" "got T = got S"
    and counts: "numbered S = length (stream MSS (msgs S)) - length (snd_queue (side_a S))"
      "acc S = length (stream MSS (got S)) + length (rcv_queue (side_b S))"
    and net: "net S \<subseteq> net T"
  shows "conn_inv conv S"
proof -
  have "numbered S = numbered T" "acc S = acc T" using conn_inv_counts [OF T] eq counts by simp_all
  with T eq net show ?thesis unfolding conn_inv_def by (auto 0 3)
qed

lemma sys_of_transfer:
  assumes "conn_inv conv T" "side_a T = kcp_at conv (kw_end w e)" "side_b T = kcp_at conv (kw_end w (\<not> e))"
    "msgs T = sent_on conv (kw_end w e)" "got T = frames_on conv (kw_end w (\<not> e))" "data_net conv (kw_net w e) \<subseteq> net T"
  shows "conn_inv conv (kcp_sys_of e conv w)"
  by (rule conn_inv_transfer [OF assms(1)])
    (use assms in \<open>auto simp: kcp_sys_of_def kx_numbered_def kx_accepted_def\<close>)

lemma kw_put_fields [simp]:
  "kw_replaced (kw_put e s w) = kw_replaced w" "kw_stale (kw_put e s w) = kw_stale w"
  by (simp_all add: kw_put_def)

lemma kw_put_inv:
  assumes inv: "kw_inv w" and own: "\<And>c. own_stream c (kcp_at c s)"
    and a: "\<And>c. c \<notin> kw_spoiled w \<Longrightarrow> \<exists>T. conn_inv c T \<and> side_a T = kcp_at c s \<and> side_b T = kcp_at c (kw_end w (\<not> e)) \<and> msgs T = sent_on c s
      \<and> got T = frames_on c (kw_end w (\<not> e)) \<and> data_net c (kw_net (kw_put e s w) e) \<subseteq> net T"
    and b: "\<And>c. c \<notin> kw_spoiled w \<Longrightarrow> \<exists>T. conn_inv c T \<and> side_a T = kcp_at c (kw_end w (\<not> e)) \<and> side_b T = kcp_at c s
      \<and> msgs T = sent_on c (kw_end w (\<not> e)) \<and> got T = frames_on c s \<and> data_net c (kw_net w (\<not> e)) \<subseteq> net T"
  shows "kw_inv (kw_put e s w)"
proof -
  have "conn_inv c (kcp_sys_of e c (kw_put e s w))" if "c \<notin> kw_spoiled w" for c
    using a [OF that] by (elim exE conjE, intro sys_of_transfer) (simp_all add: kw_put_def)
  moreover have "conn_inv c (kcp_sys_of (\<not> e) c (kw_put e s w))" if "c \<notin> kw_spoiled w" for c
    using b [OF that] by (elim exE conjE, intro sys_of_transfer) (simp_all add: kw_put_def)
  ultimately have "conn_inv c (kcp_sys_of e' c (kw_put e s w))" if "c \<notin> kw_spoiled w" for e' c
    using that by (cases "e' = e") simp_all
  moreover have "own_stream c (kcp_at c (kw_end (kw_put e s w) e'))" for e' c
    using inv own by (simp add: kw_inv_def kw_put_def)
  ultimately show ?thesis by (simp add: kw_inv_def)
qed

lemma kw_invD:
  assumes "kw_inv w"
  shows "c \<notin> kw_spoiled w \<Longrightarrow> conn_inv c (kcp_sys_of e c w)" "c \<notin> kw_spoiled w \<Longrightarrow> conn_inv c (kcp_sys_of (\<not> e) c w)"
    "own_stream c (kcp_at c (kw_end w e))"
  using assms by (simp_all add: kw_inv_def)

lemma kcp_sys_of_sel [simp]:
  "side_a (kcp_sys_of e c w) = kcp_at c (kw_end w e)" "side_b (kcp_sys_of e c w) = kcp_at c (kw_end w (\<not> e))"
  "net (kcp_sys_of e c w) = data_net c (kw_net w e)" "msgs (kcp_sys_of e c w) = sent_on c (kw_end w e)"
  "got (kcp_sys_of e c w) = frames_on c (kw_end w (\<not> e))"
  "numbered (kcp_sys_of e c w) = kx_numbered c (kw_end w e)" "acc (kcp_sys_of e c w) = kx_accepted c (kw_end w (\<not> e))"
  by (simp_all add: kcp_sys_of_def)

text \<open>A handler that leaves all but spoiled connections as they are.\<close>

definition data_dgrams :: "u32 \<Rightarrow> kcp_sched \<Rightarrow> kcp_sched \<Rightarrow> byte list set" where
  "data_dgrams c s s' = {d \<in> set (new_dgrams s s'). IKCP_OVERHEAD \<le> length d \<and> decode32u d = c}"

lemma data_net_put:
  "data_net c (kw_net (kw_put e s w) e) = data_net c (kw_net w e) \<union> {kx_numbered c s} \<times> data_dgrams c (kw_end w e) s"
  by (auto simp: data_net_def kw_put_def data_dgrams_def)

lemma kw_put_frame:
  assumes inv: "kw_inv w" and own: "\<And>c. own_stream c (kcp_at c s)"
    and same: "\<And>c. c \<notin> kw_spoiled w \<Longrightarrow> kcp_at c s = kcp_at c (kw_end w e) \<and> sent_on c s = sent_on c (kw_end w e)
      \<and> frames_on c s = frames_on c (kw_end w e) \<and> data_dgrams c (kw_end w e) s = {}"
  shows "kw_inv (kw_put e s w)"
proof (rule kw_put_inv [OF inv own])
  fix c assume c: "c \<notin> kw_spoiled w"
  show "\<exists>T. conn_inv c T \<and> side_a T = kcp_at c s \<and> side_b T = kcp_at c (kw_end w (\<not> e)) \<and> msgs T = sent_on c s
      \<and> got T = frames_on c (kw_end w (\<not> e)) \<and> data_net c (kw_net (kw_put e s w) e) \<subseteq> net T"
    using kw_invD(1) [OF inv c] same [OF c] by (intro exI [of _ "kcp_sys_of e c w"]) (simp add: data_net_put)
  show "\<exists>T. conn_inv c T \<and> side_a T = kcp_at c (kw_end w (\<not> e)) \<and> side_b T = kcp_at c s
      \<and> msgs T = sent_on c (kw_end w (\<not> e)) \<and> got T = frames_on c s \<and> data_net c (kw_net w (\<not> e)) \<subseteq> net T"
    using kw_invD(2) [OF inv c] same [OF c] by (intro exI [of _ "kcp_sys_of (\<not> e) c w"]) simp
qed

text \<open>
  A handler that touches at most the control block of connection \<open>c0\<close>: the sending half
  of that connection goes to \<open>T\<close>, the receiving half to \<open>U\<close>, and the network gets
  handshake packets and the datagrams of \<open>T\<close>.
\<close>

definition touches :: "u32 \<Rightarrow> kcp_sched \<Rightarrow> kcp_sched \<Rightarrow> bool" where
  "touches c0 s s' \<longleftrightarrow> (\<forall>c. c \<noteq> c0 \<longrightarrow> kcp_at c s' = kcp_at c s \<and> sent_on c s' = sent_on c s \<and> frames_on c s' = frames_on c s)"

lemma kw_put_touches:
  assumes inv: "kw_inv w" and own: "\<And>c. own_stream c (kcp_at c s)" and tc: "touches c0 (kw_end w e) s"
    and quiet: "\<And>c. c \<noteq> c0 \<Longrightarrow> data_dgrams c (kw_end w e) s = {}"
    and T: "conn_inv c0 T" "side_a T = kcp_at c0 s" "side_b T = kcp_at c0 (kw_end w (\<not> e))" "msgs T = sent_on c0 s"
      "got T = frames_on c0 (kw_end w (\<not> e))" "data_net c0 (kw_net w e) \<subseteq> net T"
      "{numbered T} \<times> data_dgrams c0 (kw_end w e) s \<subseteq> net T"
    and U: "conn_inv c0 U" "side_a U = kcp_at c0 (kw_end w (\<not> e))" "side_b U = kcp_at c0 s"
      "msgs U = sent_on c0 (kw_end w (\<not> e))" "got U = frames_on c0 s" "data_net c0 (kw_net w (\<not> e)) \<subseteq> net U"
  shows "kw_inv (kw_put e s w)"
proof (rule kw_put_inv [OF inv own])
  fix c assume c: "c \<notin> kw_spoiled w"
  have num: "numbered T = kx_numbered c0 s" using conn_inv_counts(1) [OF T(1)] T by (simp add: kx_numbered_def)
  show "\<exists>T. conn_inv c T \<and> side_a T = kcp_at c s \<and> side_b T = kcp_at c (kw_end w (\<not> e)) \<and> msgs T = sent_on c s
      \<and> got T = frames_on c (kw_end w (\<not> e)) \<and> data_net c (kw_net (kw_put e s w) e) \<subseteq> net T"
  proof (cases "c = c0")
    case True
    with T num show ?thesis by (intro exI [of _ T]) (simp add: data_net_put)
  next
    case False
    with tc quiet kw_invD(1) [OF inv c] show ?thesis
      by (intro exI [of _ "kcp_sys_of e c w"]) (simp add: data_net_put touches_def)
  qed
  show "\<exists>T. conn_inv c T \<and> side_a T = kcp_at c (kw_end w (\<not> e)) \<and> side_b T = kcp_at c s
      \<and> msgs T = sent_on c (kw_end w (\<not> e)) \<and> got T = frames_on c s \<and> data_net c (kw_net w (\<not> e)) \<subseteq> net T"
  proof (cases "c = c0")
    case True
    with U show ?thesis by blast
  next
    case False
    with tc kw_invD(2) [OF inv c] show ?thesis
      by (intro exI [of _ "kcp_sys_of (\<not> e) c w"]) (simp add: touches_def)
  qed
qed

text \<open>Handlers that leave every control block as it is and send at most handshake packets.\<close>

definition calm :: "kcp_sched \<Rightarrow> kcp_sched \<Rightarrow> bool" where
  "calm s s' \<longleftrightarrow> (\<forall>c. kcp_at c s' = kcp_at c s) \<and> kx_sent s' = kx_sent s \<and> kx_frames s' = kx_frames s
     \<and> (\<exists>ps. dg_sent (kx_transport s') = dg_sent (kx_transport s) @ ps \<and> (\<forall>p \<in> set ps. length (fst p) = HANDSHAKE_PKT_SIZE))"

lemma calm_refl [simp]: "calm s s" by (simp add: calm_def)

lemma calm_trans: "calm s t \<Longrightarrow> calm t u \<Longrightarrow> calm s u"
  unfolding calm_def by (metis (no_types, lifting) Un_iff append.assoc set_append)

lemma calm_fold: "(\<And>x s. calm s (f x s)) \<Longrightarrow> calm s (fold f xs s)"
  by (induction xs arbitrary: s) (auto intro: calm_trans)

lemma calm_same:
  assumes "\<And>c. map_option kc_kcp (kx_connections s' c) = map_option kc_kcp (kx_connections s c)"
    "kx_sent s' = kx_sent s" "kx_frames s' = kx_frames s" "dg_sent (kx_transport s') = dg_sent (kx_transport s)"
  shows "calm s s'"
proof -
  have "kcp_at c s' = kcp_at c s" for c
    using assms(1) [of c] by (auto simp: kcp_at_def split: option.splits)
  with assms show ?thesis by (simp add: calm_def)
qed

lemma calm_inv:
  assumes inv: "kw_inv w" and calm: "calm (kw_end w e) s"
  shows "kw_inv (kw_put e s w)"
proof -
  obtain ps where ps: "dg_sent (kx_transport s) = dg_sent (kx_transport (kw_end w e)) @ ps"
    "\<forall>p \<in> set ps. length (fst p) = HANDSHAKE_PKT_SIZE" using calm by (auto simp: calm_def)
  then have "data_dgrams c (kw_end w e) s = {}" for c
    by (auto simp: data_dgrams_def new_dgrams_def HANDSHAKE_PKT_SIZE_def IKCP_OVERHEAD_def)
  with calm kw_invD(3) [OF inv] show ?thesis
    by (intro kw_put_frame [OF inv]) (simp_all add: calm_def sent_on_def frames_on_def)
qed

lemma calm_handshake [simp]: "calm s (send_handshake type conv addr s)"
  by (simp add: calm_def kcp_at_def send_handshake_def dg_sendto_def)

lemma calm_answer [simp]:
  "calm s (kx_answer cb a s)" "calm s (answer_session cb conv s)"
  by (rule calm_same; simp add: kx_answer_def answer_session_def)+

lemma calm_fields [simp]:
  "calm s (s\<lparr>kx_ready_accepts := a\<rparr>)" "calm s (s\<lparr>kx_pending_accepts := b\<rparr>)" "calm s (s\<lparr>kx_pending_connects := c\<rparr>)"
  "calm s (s\<lparr>kx_next_conv := d\<rparr>)" "calm s (s\<lparr>kx_send_q := q1\<rparr>)" "calm s (s\<lparr>kx_accept_q := q2\<rparr>)"
  "calm s (s\<lparr>kx_connect_q := q3\<rparr>)" "calm s (s\<lparr>kx_issued := i\<rparr>)"
  by (rule calm_same; simp)+

lemma calm_create: "kx_connections s conv = None \<Longrightarrow> calm s (create_connection conv peer s)"
  by (auto simp: calm_def kcp_at_def create_connection_def new_connection_def)

lemma calm_accept: "calm s (accept_one cb s)"
  by (auto simp: accept_one_def intro: calm_trans [OF calm_fields(1) calm_answer(2)] split: list.splits)

lemma calm_connect: "calm s (connect_one now r s)"
  unfolding connect_one_def Let_def
  by (rule calm_trans [OF calm_trans [OF calm_fields(4) calm_handshake] calm_fields(3)])

lemma calm_syn: "calm s (handle_syn conv peer s)"
proof (cases "kx_connections s conv")
  case None
  from calm_trans [OF calm_create [OF None] calm_handshake]
  have c: "calm s (send_handshake HANDSHAKE_ACK conv peer (create_connection conv peer s))" .
  show ?thesis
    using None calm_trans [OF c calm_fields(1)] calm_trans [OF calm_trans [OF c calm_fields(2)] calm_answer(2)]
    by (simp add: handle_syn_def Let_def split: list.split)
qed (simp add: handle_syn_def)

lemma calm_ack:
  assumes "take_pending conv (kx_pending_connects s) = None \<or> kx_connections s conv = None"
  shows "calm s (handle_ack conv peer s)"
proof (cases "take_pending conv (kx_pending_connects s)")
  case (Some a)
  with assms have "kx_connections (s\<lparr>kx_pending_connects := snd a\<rparr>) conv = None" by simp
  from calm_trans [OF calm_trans [OF calm_fields(3) calm_create [OF this]] calm_answer(2)] Some show ?thesis
    by (simp add: handle_ack_def split_def)
qed (simp add: handle_ack_def)

lemma calm_retry: "calm s (snd (retry_connects now ps s))"
proof (induction now ps s rule: retry_connects.induct)
  case (2 now p ps s)
  then show ?case by (auto simp: split_def Let_def intro: calm_trans [OF calm_handshake] calm_trans [OF calm_answer(1)])
qed simp

lemma calm_micro:
  assumes "kx_micro None s s'" "\<And>r. s' \<noteq> send_one r s" "\<And>now conv. s' \<noteq> update_one now conv s"
  shows "calm s s'"
  using assms
proof (cases rule: kx_micro.cases)
  case m_accepts
  have "calm (s\<lparr>kx_accept_q := q\<rparr>) (fold accept_one cbs (s\<lparr>kx_accept_q := q\<rparr>))" for q cbs by (rule calm_fold) (rule calm_accept)
  from calm_trans [OF calm_fields(6) this] m_accepts show ?thesis by (simp add: drain_accept_q_def split_def Let_def)
next
  case (m_connects now)
  have "calm (s\<lparr>kx_connect_q := q\<rparr>) (fold (connect_one now) rs (s\<lparr>kx_connect_q := q\<rparr>))" for q rs
    by (rule calm_fold) (rule calm_connect)
  from calm_trans [OF calm_fields(7) this] m_connects show ?thesis by (simp add: drain_connect_q_def split_def Let_def)
next
  case (m_poll evs hs w t)
  have "dg_sent t = dg_sent (kx_transport s)"
    using arg_cong [OF dg_advance_keeps [OF m_poll(2)], of dg_sent] by simp
  with m_poll show ?thesis by (intro calm_same) simp_all
next
  case (m_retry now)
  from calm_trans [OF calm_retry calm_fields(3)] m_retry show ?thesis by (simp add: kx_retry_def split_def Let_def)
next
  case (m_accept core cb)
  then show ?thesis
    by (auto simp: schedule_accept_def kx_issue_def split_def Let_def intro: calm_trans [OF calm_fields(6) calm_fields(8)] split: if_splits)
next
  case (m_connect core cr)
  then show ?thesis
    by (auto simp: schedule_connect_def kx_issue_def split_def Let_def intro: calm_trans [OF calm_fields(7) calm_fields(8)] split: if_splits)
next
  case (m_schedule core sr)
  then show ?thesis
    by (auto simp: kx_schedule_send_def kx_issue_def split_def Let_def intro: calm_trans [OF calm_fields(5) calm_fields(8)] split: if_splits)
next
  case (m_recv conv c cb)
  then show ?thesis by (intro calm_same) (auto split: if_splits)
qed auto

subsection \<open>The handlers that work on a control block\<close>

lemma kcp_at_upd:
  "kcp_at c (s\<lparr>kx_connections := (kx_connections s)(conv \<mapsto> con)\<rparr>) = (if c = conv then kc_kcp con else kcp_at c s)"
  by (simp add: kcp_at_def)

lemma kcp_at_keep [simp]:
  "kcp_at c (s\<lparr>kx_answers := a\<rparr>) = kcp_at c s" "kcp_at c (s\<lparr>kx_sent := b\<rparr>) = kcp_at c s"
  "kcp_at c (s\<lparr>kx_transport := t\<rparr>) = kcp_at c s" "kcp_at c (s\<lparr>kx_frames := f\<rparr>) = kcp_at c s"
  by (simp_all add: kcp_at_def)

lemma new_own: "own_stream c (kc_kcp (new_connection c p))"
  unfolding own_stream_def new_connection_def kcp_connection.simps
  by (rule exI, rule conjI, rule conn_start_inv [OF refl refl, of 128]) (simp_all add: conn_start_def)

lemma own_step: "conn_inv c S \<Longrightarrow> conn_step S S' \<Longrightarrow> side_a S' = k \<Longrightarrow> own_stream c k"
  using conn_step_inv unfolding own_stream_def by blast

lemma own_steps:
  assumes "own_stream c k"
  shows "kcp_send m k = (r, k') \<Longrightarrow> own_stream c k'" "kcp_input d k = (r, k') \<Longrightarrow> own_stream c k'"
proof -
  from assms obtain S where S: "conn_inv c S" "side_a S = k" by (auto simp: own_stream_def)
  show "own_stream c k'" if "kcp_send m k = (r, k')" by (rule own_step [OF S(1) a_send]) (use that S(2) in auto)
  show "own_stream c k'" if "kcp_input d k = (r, k')" by (rule own_step [OF S(1) a_input]) (use that S(2) in auto)
qed

lemma send_inv:
  assumes inv: "kw_inv w"
  shows "kw_inv (kw_put e (send_one r (kw_end w e)) w)"
proof (cases "kx_connections (kw_end w e) (kq_conv r)")
  case None
  then show ?thesis by (intro calm_inv [OF inv]) (simp add: send_one_def)
next
  case (Some c)
  let ?s = "kw_end w e" and ?conv = "kq_conv r"
  obtain ret k where k: "kcp_send (kq_data r) (kc_kcp c) = (ret, k)" by (cases "kcp_send (kq_data r) (kc_kcp c)")
  then have k': "kcp_send (kq_data r) (kcp_at ?conv ?s) = (ret, k)" by (simp add: kcp_at_def Some)
  have eq: "send_one r ?s = (let s1 = ?s\<lparr>kx_connections := (kx_connections ?s)(?conv \<mapsto> c\<lparr>kc_kcp := k\<rparr>)\<rparr> in
      kx_answer (kq_cb r) (K_Sent (ret = 0)) (if ret = 0 then s1\<lparr>kx_sent := kx_sent s1 @ [(?conv, kq_data r)]\<rparr> else s1))"
    by (simp add: send_one_def Some k)
  have s': "kcp_at c' (send_one r ?s) = (if c' = ?conv then k else kcp_at c' ?s)"
    "sent_on c' (send_one r ?s) = sent_on c' ?s @ (if ret = 0 \<and> c' = ?conv then [kq_data r] else [])"
    "frames_on c' (send_one r ?s) = frames_on c' ?s" "data_dgrams c' ?s (send_one r ?s) = {}" for c'
    by (auto simp: eq Let_def kx_answer_def kcp_at_upd sent_on_def frames_on_def data_dgrams_def new_dgrams_def)
  have own: "own_stream c' (kcp_at c' (send_one r ?s))" for c'
    using own_steps(1) [OF kw_invD(3) [OF inv] k'] kw_invD(3) [OF inv] by (simp add: s')
  show ?thesis
  proof (cases "?conv \<in> kw_spoiled w")
    case True
    then show ?thesis by (intro kw_put_frame [OF inv own]) (auto simp: s')
  next
    case False
    let ?T = "kcp_sys_of e ?conv w" and ?U = "kcp_sys_of (\<not> e) ?conv w"
    let ?msgs = "if ret = 0 then msgs ?T @ [kq_data r] else msgs ?T"
    have T: "conn_inv ?conv (?T\<lparr>side_a := k, msgs := ?msgs\<rparr>)"
      using k' by (intro conn_step_inv [OF a_send kw_invD(1) [OF inv False]]) simp
    have U: "conn_inv ?conv (?U\<lparr>side_b := k\<rparr>)"
      using k' by (intro conn_step_inv [OF b_send kw_invD(1) [OF inv False]]) simp
    show ?thesis
      by (rule kw_put_touches [OF inv own _ _ T _ _ _ _ _ _ U]) (auto simp: touches_def s')
  qed
qed

text \<open>A datagram of a connection starts with its number.\<close>

lemma authentic_conv:
  assumes "authentic conv ms n d" "IKCP_OVERHEAD \<le> length d"
  shows "decode32u d = conv"
proof -
  obtain ss where ss: "d = concat (map wire ss)" "\<forall>s \<in> set ss. wf_seg conv s" using assms(1) by (auto simp: authentic_def)
  have "ss \<noteq> []" using ss(1) assms(2) by (auto simp: IKCP_OVERHEAD_def)
  then obtain s rest where "ss = s # rest" by (cases ss) auto
  with ss have "d = encode32u conv @ drop 4 (wire s) @ concat (map wire rest)"
    by (auto simp: wire_def ikcp_encode_seg_def encode32u_def wf_seg_def)
  then show ?thesis by simp
qed

lemma dg_sent_fold: "dg_sent (fold (\<lambda>d. dg_sendto d peer) outs t) = dg_sent t @ map (\<lambda>d. (d, peer)) outs"
  by (induction outs arbitrary: t) (simp_all add: dg_sendto_def)

text \<open>Also the datagrams of a spoiled connection start with its number.\<close>

lemma own_update:
  assumes "own_stream c k" "kcp_update now k = (outs, k')"
  shows "own_stream c k'" "d \<in> set outs \<Longrightarrow> IKCP_OVERHEAD \<le> length d \<Longrightarrow> decode32u d = c"
proof -
  from assms(1) obtain S where S: "conn_inv c S" "side_a S = k" by (auto simp: own_stream_def)
  let ?b = "numbered S + unat (snd_nxt k' - snd_nxt (side_a S))"
  let ?S = "S\<lparr>side_a := k', numbered := ?b, net := net S \<union> {?b} \<times> set outs\<rparr>"
  have S': "conn_inv c ?S" by (rule conn_step_inv [OF a_update S(1)]) (use assms(2) S(2) in auto)
  show "own_stream c k'" using S' unfolding own_stream_def by (intro exI [of _ ?S]) simp
  assume d: "d \<in> set outs" "IKCP_OVERHEAD \<le> length d"
  then have "authentic c (msgs S) ?b d" using S' by (auto simp: conn_inv_def)
  from authentic_conv [OF this d(2)] show "decode32u d = c" .
qed

lemma update_inv:
  assumes inv: "kw_inv w"
  shows "kw_inv (kw_put e (update_one now conv (kw_end w e)) w)"
proof (cases "kx_connections (kw_end w e) conv")
  case None
  then show ?thesis by (intro calm_inv [OF inv]) (simp add: update_one_def)
next
  case (Some c)
  let ?s = "kw_end w e"
  obtain outs k where k: "kcp_update now (kc_kcp c) = (outs, k)" by (cases "kcp_update now (kc_kcp c)")
  then have k': "kcp_update now (kcp_at conv ?s) = (outs, k)" by (simp add: kcp_at_def Some)
  have eq: "update_one now conv ?s = ?s\<lparr>kx_connections := (kx_connections ?s)(conv \<mapsto> c\<lparr>kc_kcp := k\<rparr>),
      kx_transport := fold (\<lambda>d. dg_sendto d (kc_peer c)) outs (kx_transport ?s)\<rparr>"
    by (simp add: update_one_def Some k)
  have s': "kcp_at c' (update_one now conv ?s) = (if c' = conv then k else kcp_at c' ?s)"
    "sent_on c' (update_one now conv ?s) = sent_on c' ?s" "frames_on c' (update_one now conv ?s) = frames_on c' ?s"
    "data_dgrams c' ?s (update_one now conv ?s) = {d \<in> set outs. IKCP_OVERHEAD \<le> length d \<and> decode32u d = c'}" for c'
    by (auto simp: eq kcp_at_def sent_on_def frames_on_def data_dgrams_def new_dgrams_def dg_sent_fold)
  note num = own_update(2) [OF kw_invD(3) [OF inv] k']
  have own: "own_stream c' (kcp_at c' (update_one now conv ?s))" for c'
    using own_update(1) [OF kw_invD(3) [OF inv] k'] kw_invD(3) [OF inv] by (simp add: s')
  show ?thesis
  proof (cases "conv \<in> kw_spoiled w")
    case True
    then show ?thesis by (intro kw_put_frame [OF inv own]) (use num in \<open>auto simp: s'\<close>)
  next
    case False
    let ?T = "kcp_sys_of e conv w" and ?U = "kcp_sys_of (\<not> e) conv w"
    let ?b = "numbered ?T + unat (snd_nxt k - snd_nxt (side_a ?T))"
    have T: "conn_inv conv (?T\<lparr>side_a := k, numbered := ?b, net := net ?T \<union> {?b} \<times> set outs\<rparr>)"
      using k' by (intro conn_step_inv [OF a_update kw_invD(1) [OF inv False]]) simp_all
    have U: "conn_inv conv (?U\<lparr>side_b := k\<rparr>)"
      using k' by (intro conn_step_inv [OF b_update kw_invD(1) [OF inv False]]) simp
    show ?thesis
      by (rule kw_put_touches [OF inv own _ _ T _ _ _ _ _ _ U]) (use num in \<open>auto simp: touches_def s'\<close>)
  qed
qed

lemma deliver_loop_a:
  "conn_inv conv S \<Longrightarrow> side_a S = k \<Longrightarrow> conn_inv conv (S\<lparr>side_a := snd (deliver_loop k)\<rparr>)"
proof (induction k arbitrary: S rule: deliver_loop.induct)
  case (1 k)
  obtain ret bytes k' where r: "kcp_recv (peeksize k) k = (ret, bytes, k')" by (cases "kcp_recv (peeksize k) k")
  have S': "conn_inv conv (S\<lparr>side_a := k'\<rparr>)"
    using r "1.prems" by (intro conn_step_inv [OF a_recv "1.prems"(1)]) simp
  show ?case
  proof (cases "peeksize k \<le> 0")
    case True
    with "1.prems" show ?thesis by (subst deliver_loop.simps) auto
  next
    case ne: False
    show ?thesis
    proof (cases "ret \<le> 0")
      case True
      with ne S' r show ?thesis by (subst deliver_loop.simps) simp
    next
      case False
      from "1.IH" [OF refl ne refl r [symmetric] refl False S'] ne False r show ?thesis
        by (subst deliver_loop.simps) (simp add: split_def Let_def)
    qed
  qed
qed

text \<open>On the receiving side every frame of the loop is the next message.\<close>

lemma recv_positive:
  assumes "conn_inv conv S" "side_b S = k" "\<not> peeksize k \<le> 0" "kcp_recv (peeksize k) k = (ret, bytes, k')"
  shows "0 < ret"
proof -
  have r: "reads MSS (msgs S) (length (got S)) (acc S) k" "sendable MSS (msgs S)"
    using assms(1,2) by (auto simp: conn_inv_def)
  have "\<not> (length (rcv_queue k) < frag_count MSS (msgs S ! length (got S)) \<or> rcv_queue k = [])"
    using peeksize_incomplete [OF r] assms(3) by fastforce
  then have full: "frag_count MSS (msgs S ! length (got S)) \<le> length (rcv_queue k)" "rcv_queue k \<noteq> []" by auto
  from carries_stream_len(1) [OF r full] kcp_recv_message [OF r _ full, of "peeksize k"] assms(3,4) show ?thesis by auto
qed

lemma deliver_loop_b:
  "conn_inv conv S \<Longrightarrow> side_b S = k \<Longrightarrow>
    \<exists>n. conn_inv conv (S\<lparr>side_b := snd (deliver_loop k), got := got S @ map nf_data (fst (deliver_loop k)), acc := n\<rparr>)"
proof (induction k arbitrary: S rule: deliver_loop.induct)
  case (1 k)
  obtain ret bytes k' where r: "kcp_recv (peeksize k) k = (ret, bytes, k')" by (cases "kcp_recv (peeksize k) k")
  show ?case
  proof (cases "peeksize k \<le> 0")
    case True
    have "conn_inv conv (S\<lparr>side_b := k, got := got S @ [], acc := acc S\<rparr>)" using "1.prems" by (cases S) simp
    then show ?thesis using True by (subst deliver_loop.simps, subst (2) deliver_loop.simps, intro exI [of _ "acc S"]) simp
  next
    case ne: False
    have ret: "0 < ret" by (rule recv_positive [OF "1.prems" ne r])
    let ?S = "S\<lparr>side_b := k', got := got S @ [bytes], acc := acc S + unat (rcv_nxt k' - rcv_nxt k)\<rparr>"
    have "conn_step S (S\<lparr>side_b := k', got := if 0 \<le> ret then got S @ [bytes] else got S,
        acc := acc S + unat (rcv_nxt k' - rcv_nxt (side_b S))\<rparr>)"
      using r "1.prems"(2) by (intro b_recv) simp
    then have S': "conn_inv conv ?S" using conn_step_inv [OF _ "1.prems"(1)] ret "1.prems"(2) by fastforce
    from ret have "\<not> ret \<le> 0" by simp
    from "1.IH" [OF refl ne refl r [symmetric] refl this S'] obtain n where
      "conn_inv conv (?S\<lparr>side_b := snd (deliver_loop k'), got := got ?S @ map nf_data (fst (deliver_loop k')), acc := n\<rparr>)" by auto
    moreover have "deliver_loop k = (\<lparr>nf_data = bytes, nf_len = of_int ret\<rparr> # fst (deliver_loop k'), snd (deliver_loop k'))"
      using ne ret r by (subst deliver_loop.simps) (simp add: split_def Let_def)
    ultimately show ?thesis by auto
  qed
qed

lemma own_deliver: "own_stream c k \<Longrightarrow> own_stream c (snd (deliver_loop k))"
proof -
  assume "own_stream c k"
  then obtain S where S: "conn_inv c S" "side_a S = k" by (auto simp: own_stream_def)
  from deliver_loop_a [OF S] show ?thesis
    unfolding own_stream_def by (intro exI [of _ "S\<lparr>side_a := snd (deliver_loop k)\<rparr>"] conjI) simp_all
qed

lemma data_packet_inv:
  assumes inv: "kw_inv w" and net: "(n, d) \<in> kw_net w (\<not> e)" and len: "IKCP_OVERHEAD \<le> length d"
    and fresh: "decode32u d \<notin> kw_spoiled w \<Longrightarrow> not_stale n (kx_accepted (decode32u d) (kw_end w e)) (kcp_at (decode32u d) (kw_end w e))"
    and c: "kx_connections (kw_end w e) (decode32u d) = Some c"
  shows "kw_inv (kw_put e (deliver_received (decode32u d) (c\<lparr>kc_kcp := snd (kcp_input d (kc_kcp c))\<rparr>) (kw_end w e)) w)"
proof -
  let ?s = "kw_end w e" and ?conv = "decode32u d"
  obtain r k where k: "kcp_input d (kc_kcp c) = (r, k)" by (cases "kcp_input d (kc_kcp c)")
  then have k': "kcp_input d (kcp_at ?conv ?s) = (r, k)" by (simp add: kcp_at_def c)
  obtain fs k2 where d: "deliver_loop k = (fs, k2)" by (cases "deliver_loop k")
  let ?s' = "deliver_received ?conv (c\<lparr>kc_kcp := k\<rparr>) ?s"
  have eq: "?s' = ?s\<lparr>kx_connections := (kx_connections ?s)(?conv \<mapsto>
      c\<lparr>kc_kcp := k2, kc_session := fold (\<lambda>f. ks_invoke (On_Frame f)) fs (kc_session c)\<rparr>),
      kx_frames := kx_frames ?s @ map (\<lambda>f. (?conv, nf_data f)) fs\<rparr>"
    by (simp add: deliver_received_def d)
  have s': "kcp_at c' ?s' = (if c' = ?conv then k2 else kcp_at c' ?s)" "sent_on c' ?s' = sent_on c' ?s"
    "frames_on c' ?s' = frames_on c' ?s @ (if c' = ?conv then map nf_data fs else [])" "data_dgrams c' ?s ?s' = {}" for c'
    by (auto simp: eq kcp_at_def sent_on_def frames_on_def data_dgrams_def new_dgrams_def filter_map comp_def)
  have "own_stream ?conv k2" using own_deliver [OF own_steps(2) [OF kw_invD(3) [OF inv] k']] d by simp
  then have own: "own_stream c' (kcp_at c' ?s')" for c' using kw_invD(3) [OF inv] by (simp add: s')
  show ?thesis unfolding k snd_conv
  proof (cases "?conv \<in> kw_spoiled w")
    case True
    then show "kw_inv (kw_put e ?s' w)" by (intro kw_put_frame [OF inv own]) (auto simp: s')
  next
    case False
    let ?T = "kcp_sys_of e ?conv w" and ?U = "kcp_sys_of (\<not> e) ?conv w"
    have "conn_inv ?conv (?T\<lparr>side_a := k\<rparr>)"
      using k' by (intro conn_step_inv [OF a_input kw_invD(1) [OF inv False]]) simp
    from deliver_loop_a [OF this] d have T: "conn_inv ?conv (?T\<lparr>side_a := k2\<rparr>)" by simp
    have "(n, d) \<in> net ?U" using net len by (simp add: data_net_def)
    from conn_step_inv [OF b_input [OF this] kw_invD(2) [OF inv False]] fresh [OF False] k'
    have "conn_inv ?conv (?U\<lparr>side_b := k, acc := acc ?U + unat (rcv_nxt k - rcv_nxt (side_b ?U))\<rparr>)" by simp
    from deliver_loop_b [OF this] d obtain m where
      U: "conn_inv ?conv (?U\<lparr>side_b := k2, got := got ?U @ map nf_data fs, acc := m\<rparr>)" by auto
    show "kw_inv (kw_put e ?s' w)"
      by (rule kw_put_touches [OF inv own _ _ T _ _ _ _ _ _ U]) (auto simp: touches_def s')
  qed
qed

text \<open>An ACK that replaces a connection changes nothing else.\<close>

lemma ack_replaced:
  "kcp_at c (handle_ack conv peer s) \<in> {kcp_at c s, kc_kcp (new_connection c peer)}"
  "c \<noteq> conv \<Longrightarrow> kcp_at c (handle_ack conv peer s) = kcp_at c s"
  "sent_on c (handle_ack conv peer s) = sent_on c s" "frames_on c (handle_ack conv peer s) = frames_on c s"
  "data_dgrams c s (handle_ack conv peer s) = {}"
  by (auto simp: handle_ack_def answer_session_def kx_answer_def create_connection_def kcp_at_def sent_on_def frames_on_def
      data_dgrams_def new_dgrams_def split: option.split)

lemma packet_inv_world:
  assumes inv: "kw_inv w" and net: "(n, d) \<in> kw_net w (\<not> e)"
    and ack: "ack_replaces d (kw_end w e) \<Longrightarrow> decode32u (drop 1 d) \<in> kw_spoiled w"
    and old: "out_of_date n d (kw_end w e) \<Longrightarrow> decode32u d \<in> kw_spoiled w"
  shows "kw_inv (kw_put e (on_raw_packet d src (kw_end w e)) w)"
proof -
  let ?s = "kw_end w e"
  consider (syn) "length d = HANDSHAKE_PKT_SIZE" "d ! 0 = HANDSHAKE_SYN"
    | (ack) "length d = HANDSHAKE_PKT_SIZE" "d ! 0 = HANDSHAKE_ACK"
    | (short) "length d < IKCP_OVERHEAD" "\<not> (length d = HANDSHAKE_PKT_SIZE \<and> d ! 0 \<in> {HANDSHAKE_SYN, HANDSHAKE_ACK})"
    | (data) "IKCP_OVERHEAD \<le> length d"
    by (cases "length d < IKCP_OVERHEAD") (blast, simp add: not_less)
  then show ?thesis
  proof cases
    case syn
    then show ?thesis by (intro calm_inv [OF inv]) (simp add: on_raw_packet_def calm_syn)
  next
    case ack: ack
    let ?conv = "decode32u (drop 1 d)"
    have eq: "on_raw_packet d src ?s = handle_ack ?conv src ?s"
      using ack by (simp add: on_raw_packet_def HANDSHAKE_SYN_def HANDSHAKE_ACK_def)
    show ?thesis unfolding eq
    proof (cases "ack_replaces d ?s")
      case True
      have "own_stream c (kcp_at c (handle_ack ?conv src ?s))" for c
        using ack_replaced(1) [of c ?conv src ?s] new_own kw_invD(3) [OF inv] by (elim insertE emptyE) simp_all
      then show "kw_inv (kw_put e (handle_ack ?conv src ?s) w)"
      proof (rule kw_put_frame [OF inv])
        fix c assume "c \<notin> kw_spoiled w"
        then have "c \<noteq> ?conv" using assms(3) True by blast
        with ack_replaced(2-5) show "kcp_at c (handle_ack ?conv src ?s) = kcp_at c ?s \<and> sent_on c (handle_ack ?conv src ?s) = sent_on c ?s
          \<and> frames_on c (handle_ack ?conv src ?s) = frames_on c ?s \<and> data_dgrams c ?s (handle_ack ?conv src ?s) = {}" by blast
      qed
    next
      case False
      with ack have "take_pending ?conv (kx_pending_connects ?s) = None \<or> kx_connections ?s ?conv = None"
        unfolding ack_replaces_def by blast
      then show "kw_inv (kw_put e (handle_ack ?conv src ?s) w)" by (intro calm_inv [OF inv] calm_ack)
    qed
  next
    case short
    then show ?thesis by (intro calm_inv [OF inv]) (auto simp: on_raw_packet_def)
  next
    case data
    then have no: "length d \<noteq> HANDSHAKE_PKT_SIZE" by (simp add: IKCP_OVERHEAD_def HANDSHAKE_PKT_SIZE_def)
    with data have eq: "on_raw_packet d src ?s = (case kx_connections ?s (decode32u d) of None \<Rightarrow> ?s
        | Some c \<Rightarrow> deliver_received (decode32u d) (c\<lparr>kc_kcp := snd (kcp_input d (kc_kcp c))\<rparr>) ?s)"
      by (simp add: on_raw_packet_def Let_def)
    show ?thesis
    proof (cases "kx_connections ?s (decode32u d)")
      case None
      then show ?thesis unfolding eq by (intro calm_inv [OF inv]) simp
    next
      case (Some c)
      have "not_stale n (kx_accepted (decode32u d) ?s) (kcp_at (decode32u d) ?s)" if "decode32u d \<notin> kw_spoiled w"
        using old that data Some by (auto simp: out_of_date_def)
      from data_packet_inv [OF inv net data this Some] Some show ?thesis unfolding eq by simp
    qed
  qed
qed

lemma kw_note_inv: "kw_inv w \<Longrightarrow> kw_inv (kw_note e n d w)"
  by (auto simp: kw_inv_def kw_note_def kcp_sys_of_def)

lemma kw_step_inv: "kw_step w w' \<Longrightarrow> kw_inv w \<Longrightarrow> kw_inv w'"
proof (induction rule: kw_step.induct)
  case (kw_works w e s)
  show ?case
  proof (cases "(\<exists>r. s = send_one r (kw_end w e)) \<or> (\<exists>now conv. s = update_one now conv (kw_end w e))")
    case True
    with send_inv update_inv kw_works show ?thesis by blast
  next
    case False
    with kw_works calm_inv calm_micro [OF kw_works(1)] show ?thesis by blast
  qed
next
  case (kw_receives n d w e s)
  let ?w = "kw_note e n d w"
  from kw_receives(2) obtain src where s: "s = on_raw_packet d src (kw_end w e)" by (cases rule: kx_micro.cases) auto
  have w: "kw_end ?w = kw_end w" "kw_net ?w = kw_net w" by (simp_all add: kw_note_def)
  have "kw_inv (kw_put e (on_raw_packet d src (kw_end ?w e)) ?w)"
  proof (rule packet_inv_world [OF kw_note_inv [OF kw_receives(3)]])
    show "(n, d) \<in> kw_net ?w (\<not> e)" using kw_receives(1) by (simp add: w)
    show "ack_replaces d (kw_end ?w e) \<Longrightarrow> decode32u (drop 1 d) \<in> kw_spoiled ?w"
      "out_of_date n d (kw_end ?w e) \<Longrightarrow> decode32u d \<in> kw_spoiled ?w" by (simp_all add: kw_note_def)
  qed
  then show ?case by (simp add: w s)
qed

lemma kw_start_inv:
  assumes "kx_new depth0 t0 = Some s0" "kx_new depth1 t1 = Some s1"
  shows "kw_inv \<lparr>kw_end = (\<lambda>e. if e then s1 else s0), kw_net = (\<lambda>_. {}), kw_replaced = {}, kw_stale = {}\<rparr>"
proof -
  have new: "kcp_at c s = kc_kcp (new_connection c 0)" "sent_on c s = []" "frames_on c s = []"
    if "kx_new depth t = Some s" for depth t s c
    using that by (auto simp: kx_new_def kcp_at_def sent_on_def frames_on_def split: option.splits)
  have k: "conn_inv c (conn_start (kc_kcp (new_connection c 0)) (kc_kcp (new_connection c 0)))" for c
    unfolding new_connection_def kcp_connection.simps by (rule conn_start_inv [OF refl refl]) simp
  have own: "own_stream c (kcp_at c s)" if "kx_new depth t = Some s" for depth t s c using new(1) [OF that] new_own by simp
  show ?thesis unfolding kw_inv_def
  proof (intro allI conjI impI)
    fix e c
    show "own_stream c (kcp_at c (kw_end \<lparr>kw_end = (\<lambda>e. if e then s1 else s0), kw_net = (\<lambda>_. {}), kw_replaced = {}, kw_stale = {}\<rparr> e))"
      using own [OF assms(1)] own [OF assms(2)] by simp
    show "conn_inv c (kcp_sys_of e c \<lparr>kw_end = (\<lambda>e. if e then s1 else s0), kw_net = (\<lambda>_. {}), kw_replaced = {}, kw_stale = {}\<rparr>)"
      by (rule sys_of_transfer [OF k]) (use new [OF assms(1)] new [OF assms(2)] in \<open>auto simp: conn_start_def data_net_def\<close>)
  qed
qed

lemma kw_reach_inv: "kw_reach w \<Longrightarrow> kw_inv w"
  by (induction rule: kw_reach.induct) (auto intro: kw_start_inv kw_step_inv)

text \<open>
  C1: between two KCP schedulers, whatever the network loses, repeats, delays and
  reorders and however the two are scheduled, the frames a side hands to the session
  of a connection are the first messages the other side's \<open>send\<close> accepted on that
  connection: whole, in order, none twice; in both directions, no matter which side
  connected, on every connection number with which neither of two things has happened: that an
  ACK replaced a connection in use under this number (\<open>ack_replaces_connection\<close>
  below: when both sides connect, both begin with number 1), or that a datagram was received on it that is
  about 2^31 fragments out of date, when its 32-bit numbers mean other fragments.
\<close>

theorem kcp_sessions_in_order:
  assumes "kw_reach w" "conv \<notin> kw_replaced w" "conv \<notin> kw_stale w"
  shows "frames_on conv (kw_end w (\<not> e)) = take (length (frames_on conv (kw_end w (\<not> e)))) (sent_on conv (kw_end w e))"
  using kw_reach_inv [OF assms(1)] assms(2,3) unfolding kw_inv_def conn_inv_def kcp_sys_of_def by fastforce

subsection \<open>A run\<close>

text \<open>
  Side \<open>True\<close> connects to side \<open>False\<close>, which gives the connection number 1, and sends
  the byte 7.
\<close>

definition net_kcp :: ikcp where
  "net_kcp = set_wndsize 128 128 (set_nodelay 1 10 2 1 (ikcp_create 1))"

definition net_queued :: ikcp where
  "net_queued = net_kcp\<lparr>snd_queue := [ikcp_seg0\<lparr>seg_conv := 1, seg_cmd := IKCP_CMD_PUSH, seg_len := 1, seg_data := [7]\<rparr>]\<rparr>"

definition net_seg :: ikcp_seg where
  "net_seg = ikcp_seg0\<lparr>seg_conv := 1, seg_cmd := IKCP_CMD_PUSH, seg_wnd := 128, seg_len := 1, seg_data := [7],
     seg_resendts := 200, seg_rto := 200, seg_xmit := 1\<rparr>"

lemmas net_eval = net_kcp_def set_wndsize_def set_nodelay_def ikcp_create_def Let_def ikcp_consts ikcp_seg0_def
  clamp_word_def max_def

lemma net_send: "kcp_send [7] net_kcp = (0, net_queued)"
  by (simp add: kcp_send_def net_queued_def net_eval)

lemma net_update: "fst (kcp_update 0 net_queued) = [wire net_seg] \<and> snd_queue (snd (kcp_update 0 net_queued)) = []"
  by (simp add: kcp_update_def kcp_flush_def net_queued_def net_eval ack_seg_def probe_window_def flush_probes_def
      send_window_def itimediff_def flush_seg_def resend_seg_def put_def make_room_def net_seg_def wire_def congestion_def)

lemma net_input: "snd (kcp_input (wire net_seg) net_kcp)
    = net_kcp\<lparr>rcv_queue := [header_of net_seg\<lparr>seg_data := [7]\<rparr>], rcv_nxt := 1, acklist := [(0, 0)]\<rparr>"
proof -
  have "parse_segs 1 (ikcp_encode_seg net_seg @ [7] @ []) = (0, [(header_of net_seg, [7] @ [])])"
    by (subst parse_segs_encode) (simp_all add: net_seg_def)
  then have p: "parse_segs 1 (wire net_seg) = (0, [(header_of net_seg, [7])])" by (simp add: wire_def net_seg_def)
  have "kcp_conv net_kcp = 1" by (simp add: net_eval)
  then have "snd (kcp_input (wire net_seg) net_kcp) =
    (let st = input_segment (header_of net_seg) [7] (False, 0, net_kcp);
         k2 = (if fst st then parse_fastack (fst (snd st)) (snd (snd st)) else snd (snd st))
     in (if 0 < itimediff (snd_una k2) (snd_una net_kcp) then grow_cwnd k2 else k2))"
    by (simp add: kcp_input_def input_loop_eq p Let_def split_def) (simp add: wire_def)
  then show ?thesis by (simp add: net_eval net_seg_def demo_eval)
qed

lemma net_deliver: "fst (deliver_loop (net_kcp\<lparr>rcv_queue := [header_of net_seg\<lparr>seg_data := [7]\<rparr>], rcv_nxt := 1, acklist := [(0, 0)]\<rparr>))
    = [\<lparr>nf_data = [7], nf_len = 1\<rparr>]"
proof -
  let ?k1 = "net_kcp\<lparr>rcv_queue := [header_of net_seg\<lparr>seg_data := [7]\<rparr>], rcv_nxt := 1, acklist := [(0, 0)]\<rparr>"
  let ?k2 = "net_kcp\<lparr>rcv_queue := [], rcv_nxt := 1, acklist := [(0, 0)]\<rparr>"
  have "peeksize ?k1 = 1" "kcp_recv 1 ?k1 = (1, [7], ?k2)"
    by (simp_all add: net_eval net_seg_def demo_eval peeksize_def kcp_recv_def move_rcv_buf_to_queue_def)
  moreover have "deliver_loop ?k2 = ([], ?k2)" by (subst deliver_loop.simps) (simp add: peeksize_def)
  ultimately show ?thesis by (subst deliver_loop.simps) simp
qed

lemma net_dgram: "decode32u (wire net_seg) = 1" "length (wire net_seg) = 25"
  using decode32u_encode32u [of 1 "drop 4 (wire net_seg)"]
  by (simp_all add: wire_def ikcp_encode_seg_def net_seg_def encode32u_def encode16u_def encode8u_def)

text \<open>One step of a side, as a change of its scheduler and of the network.\<close>

lemma work_step:
  assumes "kw_reach w" "kw_spoiled w = {}" "kw_end w e = s" "kx_micro None s s'"
  obtains w' where "kw_reach w'" "kw_spoiled w' = {}" "kw_end w' e = s'" "kw_end w' (\<not> e) = kw_end w (\<not> e)" "kw_net w' (\<not> e) = kw_net w (\<not> e)"
    "\<forall>d \<in> set (new_dgrams s s'). (kx_numbered (decode32u d) s', d) \<in> kw_net w' e" "kw_net w e \<subseteq> kw_net w' e"
  using that [of "kw_put e s' w"] kw_go [OF assms(1) kw_works [of w e s']] assms by (auto simp: kw_put_def)

lemma receive_step:
  assumes "kw_reach w" "kw_spoiled w = {}" "kw_end w e = s" "(n, d) \<in> kw_net w (\<not> e)" "\<not> ack_replaces d s" "\<not> out_of_date n d s"
  obtains w' where "kw_reach w'" "kw_spoiled w' = {}" "kw_end w' e = on_raw_packet d src s" "kw_end w' (\<not> e) = kw_end w (\<not> e)"
    "kw_net w' (\<not> e) = kw_net w (\<not> e)"
    "\<forall>d' \<in> set (new_dgrams s (on_raw_packet d src s)). (kx_numbered (decode32u d') (on_raw_packet d src s), d') \<in> kw_net w' e"
proof (rule that [of "kw_put e (on_raw_packet d src s) (kw_note e n d w)"])
  show "kw_reach (kw_put e (on_raw_packet d src s) (kw_note e n d w))"
    by (rule kw_go [OF assms(1) kw_receives [OF assms(4)]]) (use assms m_packet in auto)
qed (use assms in \<open>auto simp: kw_put_def kw_note_def\<close>)

lemma ack_dispatch: "on_raw_packet (handshake_pkt HANDSHAKE_ACK conv) src s = handle_ack conv src s"
  by (simp add: on_raw_packet_def HANDSHAKE_SYN_def HANDSHAKE_ACK_def)

lemma kcp_sessions_in_order_witness:
  "\<exists>w. kw_reach w \<and> kw_replaced w = {} \<and> kw_stale w = {} \<and> frames_on 1 (kw_end w False) = [[7]]
     \<and> frames_on 1 (kw_end w False) = take 1 (sent_on 1 (kw_end w True))"
proof -
  obtain sq aq cq where s0: "kx_new 4 dg_none = Some \<lparr>kx_transport = dg_none, kx_send_q = sq, kx_accept_q = aq, kx_connect_q = cq,
     kx_connections = (\<lambda>_. None), kx_pending_accepts = [], kx_ready_accepts = [], kx_pending_connects = [],
     kx_next_conv = 1, kx_answers = [], kx_issued = [], kx_sent = [], kx_frames = []\<rparr>" (is "_ = Some ?s0")
   and q: "pcq_inv sq" "pc_items sq = []" "pcq_inv cq" "pc_items cq = []"
    using kx_new_some by blast
  let ?r = "\<lparr>kn_target = 5, kn_cb = 7\<rparr>" and ?syn = "handshake_pkt HANDSHAKE_SYN 1" and ?ack = "handshake_pkt HANDSHAKE_ACK 1"
  have cap: "pc_capacity cq = 4" using s0 by (auto simp: kx_new_def dest: pc_new_capacity split: option.splits)
  have "core_ok cq 0" by (simp add: core_ok_def MAX_CORES_def)
  then obtain cq1 where e: "pc_try_enqueue True 0 ?r cq = (Pc_Ok, cq1)"
    using pc_enqueue_room [OF q(3), of 0 True ?r] q cap by auto
  from pc_try_enqueue_items [OF q(3) \<open>core_ok cq 0\<close> this] q(4) have "pcq_inv cq1" "pc_items cq1 = [?r]"
    by (simp_all add: mset_single_iff_right)
  then obtain wc cq2 where d: "pc_drain cq1 = (wc, [?r], cq2)" using pc_drain_items by (metis prod_cases3)
  define ca where "ca = ?s0\<lparr>kx_connect_q := cq1, kx_issued := [7]\<rparr>"
  define cb where "cb = ?s0\<lparr>kx_connect_q := cq2, kx_issued := [7], kx_next_conv := 2, kx_transport := dg_sendto ?syn 5 dg_none,
    kx_pending_connects := [\<lparr>pn_req = ?r, pn_conv = 1, pn_target = 5, pn_retries = 1, pn_next_retry_ts = 500\<rparr>]\<rparr>"
  define sb where "sb = ?s0\<lparr>kx_connections := [1 \<mapsto> new_connection 1 8], kx_transport := dg_sendto ?ack 8 dg_none, kx_ready_accepts := [1]\<rparr>"
  define cc where "cc = cb\<lparr>kx_pending_connects := [], kx_connections := [1 \<mapsto> new_connection 1 9], kx_answers := [(7, K_Session (Some 1))]\<rparr>"
  define cd where "cd = cc\<lparr>kx_connections := [1 \<mapsto> (new_connection 1 9)\<lparr>kc_kcp := net_queued\<rparr>], kx_sent := [(1, [7])],
    kx_answers := [(7, K_Session (Some 1)), (8, K_Sent True)]\<rparr>"
  let ?ce = "update_one 0 1 cd" and ?se = "on_raw_packet (wire net_seg) 8 sb"
  have kcp: "kc_kcp (new_connection 1 p) = net_kcp" for p by (simp add: new_connection_def net_kcp_def)
  have 1: "schedule_connect 0 ?r ?s0 = Some ca" by (simp add: schedule_connect_def e kx_issue_def ca_def)
  have 2: "drain_connect_q 0 ca = cb"
    by (simp add: drain_connect_q_def ca_def d connect_one_def send_handshake_def cb_def)
  have 3: "on_raw_packet ?syn 8 ?s0 = sb"
    by (simp add: syn_dispatch handle_syn_def send_handshake_def create_connection_def sb_def)
  have 4: "on_raw_packet ?ack 9 cb = cc"
    by (simp add: ack_dispatch handle_ack_def cb_def create_connection_def answer_session_eq new_connection_def
        make_session_def cc_def)
  have 5: "send_one \<lparr>kq_conv = 1, kq_data = [7], kq_cb = 8\<rparr> cc = cd"
    by (simp add: send_one_def cc_def kcp net_send kx_answer_def cd_def cb_def)
  obtain k where u: "kcp_update 0 net_queued = ([wire net_seg], k)" "snd_queue k = []"
    using net_update by (metis prod.collapse)
  have ce: "new_dgrams cd ?ce = [wire net_seg]" "kx_numbered 1 ?ce = 1" "sent_on 1 ?ce = [[7]]"
    by (simp_all add: update_one_def cd_def u new_dgrams_def cc_def cb_def dg_sendto_def dg_none_def kx_numbered_def
        sent_on_def kcp_at_def stream_def msg_frags_def frag_count_def MSS_def Let_def)
  have se: "frames_on 1 ?se = [[7]]"
    by (simp add: on_raw_packet_def net_dgram HANDSHAKE_PKT_SIZE_def IKCP_OVERHEAD_def sb_def deliver_received_def kcp
        net_input net_deliver split_def Let_def frames_on_def)
  let ?w0 = "\<lparr>kw_end = (\<lambda>e. if e then ?s0 else ?s0), kw_net = (\<lambda>_. {}), kw_replaced = {}, kw_stale = {}\<rparr>"
  have "kw_reach ?w0" by (rule kw_start [OF s0 s0]) (simp_all add: dg_none_def)
  then obtain w1 where w1: "kw_reach w1" "kw_spoiled w1 = {}" "kw_end w1 True = ca" "kw_end w1 False = ?s0"
    by (rule work_step [of ?w0 True ?s0 ca]) (use m_connect [OF 1] in auto)
  obtain w2 where w2: "kw_reach w2" "kw_spoiled w2 = {}" "kw_end w2 True = cb" "kw_end w2 False = ?s0" "\<exists>n. (n, ?syn) \<in> kw_net w2 True"
    by (rule work_step [OF w1(1-3), of cb])
      (use m_connects [of ca 0] 2 w1(4) in \<open>auto simp: new_dgrams_def ca_def cb_def dg_sendto_def dg_none_def\<close>)
  then obtain n where n: "(n, ?syn) \<in> kw_net w2 (\<not> False)" by auto
  obtain w3 where w3: "kw_reach w3" "kw_spoiled w3 = {}" "kw_end w3 True = cb" "kw_end w3 False = sb" "\<exists>n. (n, ?ack) \<in> kw_net w3 False"
    by (rule receive_step [OF w2(1,2,4) n, where src = 8])
      (use 3 w2(3) in \<open>auto simp: ack_replaces_def out_of_date_def HANDSHAKE_SYN_def HANDSHAKE_ACK_def new_dgrams_def sb_def dg_sendto_def dg_none_def\<close>)
  then obtain m where m: "(m, ?ack) \<in> kw_net w3 (\<not> True)" by auto
  obtain w4 where w4: "kw_reach w4" "kw_spoiled w4 = {}" "kw_end w4 True = cc" "kw_end w4 False = sb"
    by (rule receive_step [OF w3(1-3) m, where src = 9]) (use 4 w3(4) in \<open>auto simp: ack_replaces_def out_of_date_def cb_def\<close>)
  obtain w5 where w5: "kw_reach w5" "kw_spoiled w5 = {}" "kw_end w5 True = cd" "kw_end w5 False = sb"
    by (rule work_step [OF w4(1-3), of cd]) (use m_send [of cc] 5 w4(4) in auto)
  obtain w6 where w6: "kw_reach w6" "kw_spoiled w6 = {}" "kw_end w6 True = ?ce" "kw_end w6 False = sb" "(1, wire net_seg) \<in> kw_net w6 (\<not> False)"
    by (rule work_step [OF w5(1-3) m_update [of cd 0 1]]) (use w5(4) ce in \<open>auto simp: net_dgram\<close>)
  have "\<not> ack_replaces (wire net_seg) sb" by (simp add: ack_replaces_def net_dgram HANDSHAKE_PKT_SIZE_def)
  moreover have "not_stale 1 (kx_accepted 1 sb) (kcp_at 1 sb)"
    by (simp add: not_stale_def kx_accepted_def frames_on_def kcp_at_def sb_def kcp stream_def) (simp add: net_eval)
  then have "\<not> out_of_date 1 (wire net_seg) sb" by (simp add: out_of_date_def net_dgram)
  ultimately obtain w7 where w7: "kw_reach w7" "kw_spoiled w7 = {}" "kw_end w7 False = ?se" "kw_end w7 True = ?ce"
    by (rule receive_step [OF w6(1,2,4,5), where src = 8]) (use w6(3) in auto)
  then have "1 \<notin> kw_replaced w7" "1 \<notin> kw_stale w7" by auto
  from kcp_sessions_in_order [OF w7(1) this, of True] w7 se show ?thesis by (intro exI [of _ w7]) simp
qed

subsection \<open>Numbers in use twice\<close>

text \<open>
  A side that both connects and accepts: its own first connect proposes number 1, and so
  does the first connect of the other process. The ACK then replaces a connection that is
  in use; its control block and its session, which a pipeline may hold, are gone.
\<close>

lemma ack_replaces_connection:
  assumes "kx_connections s conv = Some c" "take_pending conv (kx_pending_connects s) = Some (p, ps)"
  shows "kx_connections (on_raw_packet (handshake_pkt HANDSHAKE_ACK conv) peer s) conv = Some (new_connection conv peer)"
  using assms by (simp add: ack_dispatch handle_ack_def answer_session_def kx_answer_def create_connection_def)

text \<open>
  A connection is found by its number alone. The first connection of every client process
  has number 1: a second client is acknowledged like a repeated SYN of the first, no accept
  request sees it, and its datagrams enter the control block of the first.
\<close>

lemma first_connect_number:
  assumes "kx_new depth t = Some s"
  shows "dg_sent (kx_transport (connect_one now r s)) = dg_sent (kx_transport s) @ [(handshake_pkt HANDSHAKE_SYN 1, kn_target r)]"
  using assms by (auto simp: kx_new_def connect_one_def send_handshake_def dg_sendto_def Let_def split: option.splits)

lemma second_client_merges:
  assumes "kx_connections s conv = Some c"
  shows "on_raw_packet (handshake_pkt HANDSHAKE_SYN conv) other s = send_handshake HANDSHAKE_ACK conv other s"
    and "length d \<noteq> HANDSHAKE_PKT_SIZE \<Longrightarrow> on_raw_packet d other s = on_raw_packet d (kc_peer c) s"
  using assms by (simp_all add: syn_dispatch handle_syn_def on_raw_packet_def)

text \<open>A segment without data at the head of the queue ends every delivery: \<^verbatim>\<open>peeksize\<close> stays 0.\<close>

lemma empty_segment_blocks:
  assumes "rcv_queue k = seg # rest" "seg_frg seg = 0" "seg_len seg = 0"
  shows "deliver_loop k = ([], k)"
  using assms by (subst deliver_loop.simps) (simp add: peeksize_def)

end
