(* ===== verification/Scope_Slab.thy ===== *)
theory Scope_Slab
  imports Prelude
begin

section \<open>Scopes and their memory\<close>

text \<open>
  \<^verbatim>\<open>src/pump/core/scope.hh\<close>: the scopes of running pipelines live in blocks of a few size
  classes. Every thread keeps one list of free blocks per class, linked through the first
  word of the blocks themselves, so an owner of a block overwrites the link. \<open>slab_alloc\<close>,
  \<open>slab_dealloc\<close>, \<open>scope_new\<close> and \<open>scope_delete\<close> are the code's functions; the block that
  \<^verbatim>\<open>::operator new\<close> would return is an argument. The step relation lets any threads
  create, write and delete scopes, a scope often on another thread than the one that made it.
\<close>

definition SLAB_ALIGN :: nat where "SLAB_ALIGN = 64"
definition SLAB_MAX_SIZE :: nat where "SLAB_MAX_SIZE = 4096"

definition scope_size_class :: "nat \<Rightarrow> nat" where
  "scope_size_class n = (if n > SLAB_MAX_SIZE then 0 else (n + SLAB_ALIGN - 1) div SLAB_ALIGN * SLAB_ALIGN)"

text \<open>The thread-local variables, by thread and size class; \<open>slab_next\<close> is the first word of every block.\<close>

record slab =
  slab_head :: "nat \<Rightarrow> nat \<Rightarrow> nat"
  slab_free_count :: "nat \<Rightarrow> nat \<Rightarrow> u32"
  slab_next :: "nat \<Rightarrow> nat"
  slab_total_allocs :: "nat \<Rightarrow> u64"
  slab_pool_hits :: "nat \<Rightarrow> u64"

definition set2 :: "nat \<Rightarrow> nat \<Rightarrow> 'a \<Rightarrow> (nat \<Rightarrow> nat \<Rightarrow> 'a) \<Rightarrow> nat \<Rightarrow> nat \<Rightarrow> 'a" where
  "set2 t c v f = f(t := (f t)(c := v))"

lemma set2_simps [simp]: "set2 t c v f t' c' = (if t' = t \<and> c' = c then v else f t' c')"
  by (simp add: set2_def)

definition stats_reset :: "nat \<Rightarrow> slab \<Rightarrow> slab" where
  "stats_reset t s = s\<lparr>slab_total_allocs := (slab_total_allocs s)(t := 0), slab_pool_hits := (slab_pool_hits s)(t := 0)\<rparr>"

text \<open>\<open>scope_slab<c>::alloc\<close> on thread \<open>t\<close>; \<open>a\<close> is what the system allocator returns if it is asked.\<close>

definition slab_alloc :: "nat \<Rightarrow> nat \<Rightarrow> nat \<Rightarrow> slab \<Rightarrow> nat \<times> slab" where
  "slab_alloc t c a s =
     (let s = s\<lparr>slab_total_allocs := (slab_total_allocs s)(t := slab_total_allocs s t + 1)\<rparr>; p = slab_head s t c in
      if p \<noteq> 0 then
        (p, s\<lparr>slab_pool_hits := (slab_pool_hits s)(t := slab_pool_hits s t + 1),
             slab_head := set2 t c (slab_next s p) (slab_head s),
             slab_free_count := set2 t c (slab_free_count s t c - 1) (slab_free_count s)\<rparr>)
      else (a, s))"

text \<open>\<open>dealloc\<close>; the flag says that the block went back to the system, \<open>mf\<close> is \<^verbatim>\<open>PUMP_SCOPE_SLAB_MAX_FREE\<close>.\<close>

definition slab_dealloc :: "nat \<Rightarrow> nat \<Rightarrow> nat \<Rightarrow> nat \<Rightarrow> slab \<Rightarrow> bool \<times> slab" where
  "slab_dealloc mf t c p s =
     (if 0 < mf \<and> mf \<le> unat (slab_free_count s t c) then (True, s)
      else (False, s\<lparr>slab_next := (slab_next s)(p := slab_head s t c), slab_head := set2 t c p (slab_head s),
                    slab_free_count := set2 t c (slab_free_count s t c + 1) (slab_free_count s)\<rparr>))"

text \<open>\<^verbatim>\<open>operator new\<close> and \<^verbatim>\<open>operator delete\<close> of a scope type of \<open>n\<close> bytes.\<close>

definition scope_new :: "nat \<Rightarrow> nat \<Rightarrow> nat \<Rightarrow> slab \<Rightarrow> nat \<times> slab" where
  "scope_new t n a s = (if scope_size_class n > 0 then slab_alloc t (scope_size_class n) a s else (a, s))"

definition scope_delete :: "nat \<Rightarrow> nat \<Rightarrow> nat \<Rightarrow> nat \<Rightarrow> slab \<Rightarrow> bool \<times> slab" where
  "scope_delete mf t n p s = (if scope_size_class n > 0 then slab_dealloc mf t (scope_size_class n) p s else (True, s))"

text \<open>The bytes asked of the system for a scope of \<open>n\<close> bytes.\<close>

definition block_size :: "nat \<Rightarrow> nat" where
  "block_size n = (if scope_size_class n > 0 then scope_size_class n else n)"

text \<open>The heap: the blocks the system gave, with their sizes, and the scopes in them.\<close>

record scope_heap =
  sh_slab :: slab
  sh_sys :: "nat \<Rightarrow> nat option"
  sh_live :: "nat \<Rightarrow> nat option"

definition scope_heap0 :: scope_heap where
  "scope_heap0 = \<lparr>sh_slab = \<lparr>slab_head = \<lambda>t c. 0, slab_free_count = \<lambda>t c. 0, slab_next = \<lambda>p. 0,
       slab_total_allocs = \<lambda>t. 0, slab_pool_hits = \<lambda>t. 0\<rparr>, sh_sys = \<lambda>p. None, sh_live = \<lambda>p. None\<rparr>"

inductive scope_step :: "nat \<Rightarrow> scope_heap \<Rightarrow> scope_heap \<Rightarrow> bool" for mf where
  sc_new: "0 < n \<Longrightarrow> a \<noteq> 0 \<Longrightarrow> sh_sys h a = None \<Longrightarrow> scope_new t n a (sh_slab h) = (p, s) \<Longrightarrow>
    scope_step mf h (h\<lparr>sh_slab := s, sh_live := (sh_live h)(p := Some n),
      sh_sys := (if p = a then (sh_sys h)(a := Some (block_size n)) else sh_sys h)\<rparr>)"
| sc_write: "sh_live h p = Some n \<Longrightarrow>
    scope_step mf h (h\<lparr>sh_slab := (sh_slab h)\<lparr>slab_next := (slab_next (sh_slab h))(p := v)\<rparr>\<rparr>)"
| sc_delete: "sh_live h p = Some n \<Longrightarrow> scope_delete mf t n p (sh_slab h) = (gone, s) \<Longrightarrow>
    scope_step mf h (h\<lparr>sh_slab := s, sh_live := (sh_live h)(p := None),
      sh_sys := (if gone then (sh_sys h)(p := None) else sh_sys h)\<rparr>)"
| sc_reset: "scope_step mf h (h\<lparr>sh_slab := stats_reset t (sh_slab h)\<rparr>)"

inductive scope_run :: "nat \<Rightarrow> scope_heap \<Rightarrow> bool" for mf where
  "scope_run mf scope_heap0"
| "scope_run mf h \<Longrightarrow> scope_step mf h h' \<Longrightarrow> scope_run mf h'"

text \<open>
  A scope holds a tuple of operators and points to its base scope, down to the root.
  \<open>find_stream_starter\<close> and \<open>pop_to_loop_starter\<close> walk down at compile time; on a chain
  without a stream starter they do not compile (\<open>None\<close>). The second deletes the starter
  (the first component) and returns its base.
\<close>

datatype runtime_scope_type = Scope_Root | Scope_Stream_Starter | Scope_Other

datatype 'op scope = Root_Scope "'op list" | Runtime_Scope runtime_scope_type "'op list" "'op scope"

primrec get_scope_type :: "'op scope \<Rightarrow> runtime_scope_type" where
  "get_scope_type (Root_Scope ops) = Scope_Root"
| "get_scope_type (Runtime_Scope ty ops base) = ty"

primrec get_scope_level_id :: "'op scope \<Rightarrow> nat" where
  "get_scope_level_id (Root_Scope ops) = 0"
| "get_scope_level_id (Runtime_Scope ty ops base) = get_scope_level_id base + 1"

primrec find_stream_starter :: "'op scope \<Rightarrow> 'op scope option" where
  "find_stream_starter (Root_Scope ops) = None"
| "find_stream_starter (Runtime_Scope ty ops base) =
     (if ty = Scope_Stream_Starter then Some (Runtime_Scope ty ops base) else find_stream_starter base)"

primrec pop_to_loop_starter :: "'op scope \<Rightarrow> ('op scope \<times> 'op scope) option" where
  "pop_to_loop_starter (Root_Scope ops) = None"
| "pop_to_loop_starter (Runtime_Scope ty ops base) =
     (if ty = Scope_Stream_Starter then Some (Runtime_Scope ty ops base, base) else pop_to_loop_starter base)"

text \<open>The scopes of a chain that neither the walk deletes nor the continuation refers to any more.\<close>

primrec left_behind :: "'op scope \<Rightarrow> 'op scope list" where
  "left_behind (Root_Scope ops) = []"
| "left_behind (Runtime_Scope ty ops base) =
     (if ty = Scope_Stream_Starter then [] else Runtime_Scope ty ops base # left_behind base)"

lemma pop_to_loop_starter_finds:
  "pop_to_loop_starter s = Some (d, b) \<Longrightarrow> find_stream_starter s = Some d
     \<and> get_scope_level_id d = get_scope_level_id b + 1 \<and> get_scope_level_id d + length (left_behind s) = get_scope_level_id s"
  by (induction s) (auto split: if_splits)

subsection \<open>Size classes\<close>

lemma size_class_bounds:
  "scope_size_class n \<le> SLAB_MAX_SIZE" "scope_size_class n mod SLAB_ALIGN = 0"
  using div_le_mono [of "n + 63" "4096 + 63" 64] by (auto simp: scope_size_class_def SLAB_MAX_SIZE_def SLAB_ALIGN_def)

lemma size_class_fits: "n \<le> block_size n"
proof -
  have "n \<le> (n + 63) div 64 * 64" using mod_less_divisor [of 64 "n + 63"] div_mult_mod_eq [of "n + 63" 64] by linarith
  then show ?thesis by (simp add: block_size_def scope_size_class_def SLAB_ALIGN_def add.commute)
qed

lemma size_class_tight: "0 < n \<Longrightarrow> n \<le> SLAB_MAX_SIZE \<Longrightarrow> 0 < scope_size_class n \<and> scope_size_class n < n + SLAB_ALIGN"
proof -
  assume "0 < n" "n \<le> SLAB_MAX_SIZE"
  moreover have "(n + 63) div 64 * 64 \<le> n + 63" by simp
  moreover have "1 \<le> (n + 63) div 64" using \<open>0 < n\<close> div_le_mono [of 64 "n + 63" 64] by simp
  ultimately show ?thesis by (auto simp: scope_size_class_def SLAB_ALIGN_def SLAB_MAX_SIZE_def)
qed

lemma block_size_class: "0 < scope_size_class n \<Longrightarrow> block_size n = scope_size_class n"
  by (simp add: block_size_def)

subsection \<open>The invariant\<close>

text \<open>\<open>xs\<close> are the blocks of the list that starts at \<open>h\<close>; \<open>F\<close> gives the list of each thread and class.\<close>

primrec chain :: "(nat \<Rightarrow> nat) \<Rightarrow> nat \<Rightarrow> nat list \<Rightarrow> bool" where
  "chain nx h [] \<longleftrightarrow> h = 0"
| "chain nx h (x # xs) \<longleftrightarrow> h = x \<and> x \<noteq> 0 \<and> chain nx (nx x) xs"

lemma chain_upd [simp]: "p \<notin> set xs \<Longrightarrow> chain (nx(p := v)) h xs \<longleftrightarrow> chain nx h xs"
  by (induction xs arbitrary: h) auto

lemma chain_unique: "chain nx h xs \<Longrightarrow> chain nx h ys \<Longrightarrow> xs = ys"
proof (induction xs arbitrary: h ys)
  case Nil
  then show ?case by (cases ys) auto
next
  case (Cons x xs)
  then show ?case by (cases ys) auto
qed

lemma chain_head: "chain nx h xs \<Longrightarrow> h \<noteq> 0 \<Longrightarrow> xs = h # tl xs \<and> chain nx (nx h) (tl xs)"
  by (cases xs) auto

definition lists_apart :: "(nat \<Rightarrow> nat \<Rightarrow> nat list) \<Rightarrow> bool" where
  "lists_apart F \<longleftrightarrow> (\<exists>place. \<forall>t c. \<forall>p \<in> set (F t c). place p = (t, c))"

lemma lists_apart_subset: "lists_apart F \<Longrightarrow> (\<And>t c. set (G t c) \<subseteq> set (F t c)) \<Longrightarrow> lists_apart G"
  unfolding lists_apart_def by blast

definition lists_ok :: "(nat \<Rightarrow> nat \<Rightarrow> nat list) \<Rightarrow> slab \<Rightarrow> bool" where
  "lists_ok F s \<longleftrightarrow> lists_apart F \<and> (\<forall>t c. chain (slab_next s) (slab_head s t c) (F t c)
     \<and> slab_free_count s t c = of_nat (length (F t c)) \<and> distinct (F t c))"

definition heap_ok :: "(nat \<Rightarrow> nat \<Rightarrow> nat list) \<Rightarrow> scope_heap \<Rightarrow> bool" where
  "heap_ok F h \<longleftrightarrow> lists_ok F (sh_slab h)
     \<and> (\<forall>t c p. p \<in> set (F t c) \<longrightarrow> sh_sys h p = Some c \<and> sh_live h p = None)
     \<and> (\<forall>p n. sh_live h p = Some n \<longrightarrow> sh_sys h p = Some (block_size n))
     \<and> (\<forall>p k. sh_sys h p = Some k \<longrightarrow> p \<noteq> 0 \<and> (sh_live h p \<noteq> None \<or> (\<exists>t c. p \<in> set (F t c))))"

lemma lists_pop:
  assumes ok: "lists_ok F s" and p: "p = slab_head s t c" "p \<noteq> 0"
  shows "p \<in> set (F t c)" "set (tl (F t c)) = set (F t c) - {p}"
    "lists_ok (set2 t c (tl (F t c)) F) (s\<lparr>slab_head := set2 t c (slab_next s p) (slab_head s),
       slab_free_count := set2 t c (slab_free_count s t c - 1) (slab_free_count s)\<rparr>)"
proof -
  have "chain (slab_next s) p (F t c)" and d: "distinct (F t c)" using ok p by (auto simp: lists_ok_def)
  then obtain ys where F: "F t c = p # ys" "chain (slab_next s) (slab_next s p) ys" using chain_head p(2) by blast
  then show "p \<in> set (F t c)" "set (tl (F t c)) = set (F t c) - {p}" using d by auto
  have "lists_apart F" using ok by (simp add: lists_ok_def)
  then have "lists_apart (set2 t c ys F)" using F(1) by (rule_tac lists_apart_subset) auto
  moreover have "slab_free_count s t c = of_nat (length (F t c))" using ok by (simp add: lists_ok_def)
  ultimately show "lists_ok (set2 t c (tl (F t c)) F) (s\<lparr>slab_head := set2 t c (slab_next s p) (slab_head s),
       slab_free_count := set2 t c (slab_free_count s t c - 1) (slab_free_count s)\<rparr>)"
    using ok F d by (simp add: lists_ok_def)
qed

lemma lists_push:
  assumes ok: "lists_ok F s" and p: "\<forall>t c. p \<notin> set (F t c)" "p \<noteq> 0"
  shows "lists_ok (set2 t c (p # F t c) F) (s\<lparr>slab_next := (slab_next s)(p := slab_head s t c),
       slab_head := set2 t c p (slab_head s), slab_free_count := set2 t c (slab_free_count s t c + 1) (slab_free_count s)\<rparr>)"
proof -
  obtain place where "\<forall>t c. \<forall>p \<in> set (F t c). place p = (t, c)" using ok by (auto simp: lists_ok_def lists_apart_def)
  then have "\<forall>t' c'. \<forall>r \<in> set (set2 t c (p # F t c) F t' c'). (place(p := (t, c))) r = (t', c')" using p(1) by auto
  then have "lists_apart (set2 t c (p # F t c) F)" unfolding lists_apart_def by blast
  then show ?thesis using ok p by (simp add: lists_ok_def)
qed

lemma heap_ok_new:
  assumes ok: "heap_ok F h" and a: "a \<noteq> 0" "sh_sys h a = None" and new: "scope_new t n a (sh_slab h) = (p, s)"
  shows "\<exists>F'. heap_ok F' (h\<lparr>sh_slab := s, sh_live := (sh_live h)(p := Some n),
      sh_sys := (if p = a then (sh_sys h)(a := Some (block_size n)) else sh_sys h)\<rparr>)"
    and "sh_live h p = None" "p \<noteq> 0"
proof -
  let ?c = "scope_size_class n" and ?s = "sh_slab h"
  have fresh: "sh_live h a = None" "\<forall>t c. a \<notin> set (F t c)" using ok a(2) by (force simp: heap_ok_def)+
  consider (pool) "0 < ?c" "slab_head ?s t ?c \<noteq> 0" | (sys) "p = a" "slab_head s = slab_head ?s" "slab_next s = slab_next ?s"
      "slab_free_count s = slab_free_count ?s"
    using new by (cases "0 < ?c \<and> slab_head ?s t ?c \<noteq> 0") (auto simp: scope_new_def slab_alloc_def Let_def split: if_splits)
  then have "(\<exists>F'. heap_ok F' (h\<lparr>sh_slab := s, sh_live := (sh_live h)(p := Some n),
      sh_sys := (if p = a then (sh_sys h)(a := Some (block_size n)) else sh_sys h)\<rparr>)) \<and> sh_live h p = None \<and> p \<noteq> 0"
  proof cases
    case pool
    let ?G = "set2 t ?c (tl (F t ?c)) F"
    have p: "p = slab_head ?s t ?c" using new pool by (simp add: scope_new_def slab_alloc_def Let_def)
    have "lists_ok F ?s" using ok by (simp add: heap_ok_def)
    note pop = lists_pop [OF this p pool(2) [folded p]]
    have "lists_ok ?G s" using pop(3) new pool by (auto simp: scope_new_def slab_alloc_def Let_def lists_ok_def simp del: set2_simps)
    moreover have G: "set (?G t' c') = set (F t' c') - {p}" for t' c'
    proof (cases "t' = t \<and> c' = ?c")
      case False
      obtain place where "\<forall>t c. \<forall>r \<in> set (F t c). place r = (t, c)" using ok by (auto simp: heap_ok_def lists_ok_def lists_apart_def)
      with pop(1) have "place p = (t, ?c)" "p \<in> set (F t' c') \<Longrightarrow> place p = (t', c')" by blast+
      with False have "p \<notin> set (F t' c')" by auto
      with False show ?thesis by auto
    qed (use pop(2) in simp)
    moreover have "sh_sys h p = Some ?c" "sh_live h p = None" using ok pop(1) by (auto simp: heap_ok_def)
    ultimately show ?thesis using ok a(2) pool(1) p pool(2) by (intro conjI exI [of _ ?G]) (auto simp: heap_ok_def block_size_class G simp del: set2_simps)
  next
    case sys
    then have "heap_ok F (h\<lparr>sh_slab := s, sh_live := (sh_live h)(a := Some n), sh_sys := (sh_sys h)(a := Some (block_size n))\<rparr>)"
      using ok a fresh by (auto simp: heap_ok_def lists_ok_def)
    then show ?thesis using sys(1) fresh(1) a(1) by auto
  qed
  then show "\<exists>F'. heap_ok F' (h\<lparr>sh_slab := s, sh_live := (sh_live h)(p := Some n),
      sh_sys := (if p = a then (sh_sys h)(a := Some (block_size n)) else sh_sys h)\<rparr>)" "sh_live h p = None" "p \<noteq> 0"
    by simp_all
qed

lemma heap_ok_delete:
  assumes ok: "heap_ok F h" and live: "sh_live h p = Some n" and del: "scope_delete mf t n p (sh_slab h) = (gone, s)"
  shows "\<exists>F'. heap_ok F' (h\<lparr>sh_slab := s, sh_live := (sh_live h)(p := None),
      sh_sys := (if gone then (sh_sys h)(p := None) else sh_sys h)\<rparr>)"
proof -
  let ?c = "scope_size_class n" and ?s = "sh_slab h"
  have p: "\<forall>t c. p \<notin> set (F t c)" "sh_sys h p = Some (block_size n)" "p \<noteq> 0" using ok live by (auto simp: heap_ok_def)
  show ?thesis
  proof (cases gone)
    case True
    then have "s = ?s" using del by (auto simp: scope_delete_def slab_dealloc_def split: if_splits)
    then have "heap_ok F (h\<lparr>sh_slab := s, sh_live := (sh_live h)(p := None), sh_sys := (sh_sys h)(p := None)\<rparr>)"
      using ok p by (auto simp: heap_ok_def)
    then show ?thesis using True by auto
  next
    case False
    let ?G = "set2 t ?c (p # F t ?c) F"
    have c: "0 < ?c" using del False by (auto simp: scope_delete_def split: if_splits)
    have "lists_ok F ?s" using ok by (simp add: heap_ok_def)
    from lists_push [OF this p(1,3), of t ?c] have "lists_ok ?G s"
      using del False c by (auto simp: scope_delete_def slab_dealloc_def split: if_splits)
    moreover have "set (?G t' c') = (if t' = t \<and> c' = ?c then insert p (set (F t' c')) else set (F t' c'))" for t' c' by simp
    moreover have "(\<exists>t' c'. r \<in> set (?G t' c')) \<longleftrightarrow> r = p \<or> (\<exists>t c. r \<in> set (F t c))" for r by auto metis
    ultimately have "heap_ok ?G (h\<lparr>sh_slab := s, sh_live := (sh_live h)(p := None)\<rparr>)"
      using ok p c by (auto simp: heap_ok_def block_size_class split: if_splits simp del: set2_simps)
    then show ?thesis using False by auto
  qed
qed

lemma scope_step_ok:
  assumes "scope_step mf h h'" "heap_ok F h"
  shows "\<exists>F'. heap_ok F' h'"
  using assms(1)
proof cases
  case (sc_new n a t p s)
  then show ?thesis using heap_ok_new(1) [OF assms(2) sc_new(3-5)] by simp
next
  case (sc_write p n v)
  then have "p \<notin> set (F t c)" for t c using assms(2) by (auto simp: heap_ok_def)
  then have "heap_ok F h'" using assms(2) sc_write(1) by (simp add: heap_ok_def lists_ok_def)
  then show ?thesis by blast
next
  case (sc_delete p n t gone s)
  then show ?thesis using heap_ok_delete [OF assms(2) sc_delete(2,3)] by simp
next
  case (sc_reset t)
  then have "heap_ok F h'" using assms(2) by (simp add: heap_ok_def lists_ok_def stats_reset_def)
  then show ?thesis by blast
qed

lemma scope_run_ok: "scope_run mf h \<Longrightarrow> \<exists>F. heap_ok F h"
proof (induction rule: scope_run.induct)
  case 1
  have "heap_ok (\<lambda>t c. []) scope_heap0" by (auto simp: heap_ok_def lists_ok_def lists_apart_def scope_heap0_def)
  then show ?case by blast
next
  case (2 h h')
  then show ?case using scope_step_ok by blast
qed

subsection \<open>Memory safety\<close>

text \<open>C21: the memory of scopes, whichever threads create and delete them and whatever owners write to
  their blocks: a new scope never gets a block that another scope lives in, every block is large enough
  for its scope, every free list is a chain of distinct blocks as long as its counter (modulo 2^32) in
  which no scope lives, and every block taken from the system and not given back is either a scope's or in
  a free list, so that none is lost.\<close>

theorem scope_memory_safe:
  assumes "scope_run mf h"
  shows "(\<forall>t n a. a \<noteq> 0 \<longrightarrow> sh_sys h a = None \<longrightarrow>
           fst (scope_new t n a (sh_slab h)) \<noteq> 0 \<and> sh_live h (fst (scope_new t n a (sh_slab h))) = None)
    \<and> (\<forall>p n. sh_live h p = Some n \<longrightarrow> (\<exists>k. sh_sys h p = Some k \<and> n \<le> k))
    \<and> (\<forall>t c. \<exists>xs. chain (slab_next (sh_slab h)) (slab_head (sh_slab h) t c) xs \<and> distinct xs
          \<and> slab_free_count (sh_slab h) t c = of_nat (length xs) \<and> (\<forall>p \<in> set xs. sh_live h p = None \<and> sh_sys h p = Some c))
    \<and> (\<forall>p k. sh_sys h p = Some k \<longrightarrow> sh_live h p \<noteq> None \<or>
          (\<exists>t c xs. chain (slab_next (sh_slab h)) (slab_head (sh_slab h) t c) xs \<and> p \<in> set xs))"
proof -
  obtain F where ok: "heap_ok F h" using scope_run_ok [OF assms] by blast
  have lists: "chain (slab_next (sh_slab h)) (slab_head (sh_slab h) t c) (F t c) \<and> distinct (F t c)
      \<and> slab_free_count (sh_slab h) t c = of_nat (length (F t c)) \<and> (\<forall>p \<in> set (F t c). sh_live h p = None \<and> sh_sys h p = Some c)" for t c
    using ok by (simp add: heap_ok_def lists_ok_def)
  moreover have "\<forall>t n a. a \<noteq> 0 \<longrightarrow> sh_sys h a = None \<longrightarrow>
      fst (scope_new t n a (sh_slab h)) \<noteq> 0 \<and> sh_live h (fst (scope_new t n a (sh_slab h))) = None"
    using heap_ok_new(2,3) [OF ok] by (metis prod.collapse)
  moreover have "\<forall>p n. sh_live h p = Some n \<longrightarrow> (\<exists>k. sh_sys h p = Some k \<and> n \<le> k)"
    using ok size_class_fits by (auto simp: heap_ok_def)
  moreover have "\<forall>p k. sh_sys h p = Some k \<longrightarrow> sh_live h p \<noteq> None \<or>
      (\<exists>t c xs. chain (slab_next (sh_slab h)) (slab_head (sh_slab h) t c) xs \<and> p \<in> set xs)"
    using ok lists unfolding heap_ok_def by blast
  ultimately show ?thesis by blast
qed

text \<open>A scope of 100 bytes made on thread 0 and deleted on thread 1.\<close>

theorem scope_memory_safe_witness:
  "\<exists>h. scope_run 0 h \<and> sh_sys h 5 = Some 128 \<and> sh_live h 5 = None
     \<and> (\<exists>t c xs. chain (slab_next (sh_slab h)) (slab_head (sh_slab h) t c) xs \<and> 5 \<in> set xs)"
proof -
  let ?h1 = "scope_heap0\<lparr>sh_slab := snd (scope_new 0 100 5 (sh_slab scope_heap0)), sh_live := [5 \<mapsto> 100], sh_sys := [5 \<mapsto> 128]\<rparr>"
  let ?h2 = "?h1\<lparr>sh_slab := snd (scope_delete 0 1 100 5 (sh_slab ?h1)), sh_live := Map.empty\<rparr>"
  note simps = scope_heap0_def scope_new_def scope_delete_def slab_alloc_def slab_dealloc_def scope_size_class_def
    SLAB_ALIGN_def SLAB_MAX_SIZE_def block_size_def Let_def
  have "scope_run 0 ?h1"
    using scope_run.intros(2) [OF scope_run.intros(1) sc_new [of 100 5 scope_heap0 0 5 "snd (scope_new 0 100 5 (sh_slab scope_heap0))"]]
    by (simp add: simps)
  then have run: "scope_run 0 ?h2"
    using scope_run.intros(2) [of 0 ?h1, OF _ sc_delete [of ?h1 5 100 0 1 False "snd (scope_delete 0 1 100 5 (sh_slab ?h1))"]]
    by (simp add: simps)
  have "sh_sys ?h2 5 = Some 128" "sh_live ?h2 5 = None" by simp_all
  with scope_memory_safe [OF run] show ?thesis using run by blast
qed

subsection \<open>Reuse\<close>

text \<open>A block freed on a thread is the next one handed out there for its class, without the system.\<close>

lemma slab_reuses:
  assumes "slab_dealloc mf t c p s = (False, s1)" "p \<noteq> 0"
  shows "\<exists>s2. slab_alloc t c a s1 = (p, s2) \<and> slab_head s2 t c = slab_head s t c \<and> slab_free_count s2 t c = slab_free_count s t c
    \<and> slab_pool_hits s2 t = slab_pool_hits s t + 1"
  using assms by (auto simp: slab_dealloc_def slab_alloc_def Let_def split: if_splits)

text \<open>
  Scopes that are made on one thread and deleted on another are never reused: the first thread asks the
  system every time and, with the default of no limit, the list of the second grows by one each time.
\<close>

primrec pass_on :: "nat \<Rightarrow> nat \<Rightarrow> nat \<Rightarrow> nat list \<Rightarrow> slab \<Rightarrow> nat list \<times> slab" where
  "pass_on t u c [] s = ([], s)"
| "pass_on t u c (a # as) s =
     (let (p, s1) = slab_alloc t c a s; (ps, s2) = pass_on t u c as (snd (slab_dealloc 0 u c p s1)) in (p # ps, s2))"

lemma passed_on_blocks_pile_up:
  assumes "t \<noteq> u" "slab_head s t c = 0"
  shows "fst (pass_on t u c as s) = as
    \<and> slab_free_count (snd (pass_on t u c as s)) u c = slab_free_count s u c + of_nat (length as)
    \<and> slab_pool_hits (snd (pass_on t u c as s)) t = slab_pool_hits s t"
  using assms(2)
proof (induction as arbitrary: s)
  case (Cons a as)
  let ?s1 = "snd (slab_dealloc 0 u c a (snd (slab_alloc t c a s)))"
  have "slab_head ?s1 t c = 0" "slab_free_count ?s1 u c = slab_free_count s u c + 1" "slab_pool_hits ?s1 t = slab_pool_hits s t"
    "fst (slab_alloc t c a s) = a"
    using Cons.prems assms(1) by (simp_all add: slab_alloc_def slab_dealloc_def Let_def)
  with Cons.IH [OF this(1)] show ?case by (simp add: split_def Let_def)
qed simp

end
