(* ===== verification/Await.thy ===== *)
theory Await
  imports Prelude
begin

section \<open>Awaiting a sender in a coroutine\<close>

text \<open>
  \<^verbatim>\<open>src/pump/sender/await_sender.hh\<close>: \<^verbatim>\<open>co_await\<close> on a sender connects it to a receiver
  that stores the signals of the pipeline in the state of the awaitable and resumes the
  coroutine. \<open>await_suspend\<close> starts the pipeline; signals that arrive before it returns are
  found by it (it answers false and the coroutine goes on at once), a later signal resumes
  the coroutine through its handle. The second half interleaves the end of \<open>await_suspend\<close>
  with a completion on another core. Resumptions through the handle are counted.
\<close>

datatype ('v, 'e) await_signal = Sig_Value 'v | Sig_No_Value | Sig_Exception 'e | Sig_Skip | Sig_Done

record ('v, 'e) await_state =
  aw_value :: "'v option"
  aw_exception :: "'e option"
  aw_skipped :: bool
  aw_completed :: bool
  aw_in_suspend :: bool
  aw_continuation :: "nat option"
  aw_resumed :: "nat list"

definition await_state0 :: "('v, 'e) await_state" where
  "await_state0 = \<lparr>aw_value = None, aw_exception = None, aw_skipped = False, aw_completed = False,
     aw_in_suspend = False, aw_continuation = None, aw_resumed = []\<rparr>"

definition aw_complete :: "('v, 'e) await_state \<Rightarrow> ('v, 'e) await_state" where
  "aw_complete s =
     (if aw_completed s then s
      else let s = s\<lparr>aw_completed := True\<rparr> in
        if aw_in_suspend s then s
        else case aw_continuation s of None \<Rightarrow> s
          | Some h \<Rightarrow> s\<lparr>aw_continuation := None, aw_resumed := aw_resumed s @ [h]\<rparr>)"

text \<open>\<open>set_value\<close> with and without a value, \<open>set_exception\<close>, \<open>set_skip\<close> and \<open>set_done\<close>.\<close>

fun aw_signal :: "('v, 'e) await_signal \<Rightarrow> ('v, 'e) await_state \<Rightarrow> ('v, 'e) await_state" where
  "aw_signal (Sig_Value v) s = aw_complete (s\<lparr>aw_value := Some v\<rparr>)"
| "aw_signal Sig_No_Value s = aw_complete s"
| "aw_signal (Sig_Exception e) s = aw_complete (s\<lparr>aw_exception := Some e\<rparr>)"
| "aw_signal Sig_Skip s = aw_complete (s\<lparr>aw_skipped := True\<rparr>)"
| "aw_signal Sig_Done s = aw_complete s"

text \<open>\<open>await_suspend\<close>; \<open>sigs\<close> are the signals pushed while the sender is started. The result says whether the coroutine stays suspended.\<close>

definition aw_await_suspend ::
  "nat \<Rightarrow> ('v, 'e) await_signal list \<Rightarrow> ('v, 'e) await_state \<Rightarrow> bool \<times> ('v, 'e) await_state" where
  "aw_await_suspend h sigs s =
     (let s = s\<lparr>aw_continuation := Some h, aw_in_suspend := True\<rparr>;
          s = fold aw_signal sigs s;
          s = s\<lparr>aw_in_suspend := False\<rparr> in
      (\<not> aw_completed s, s))"

datatype 'e await_error = Await_Rethrown 'e | Await_Skipped | Await_Bad_Optional

text \<open>\<open>await_resume\<close> of an awaitable with a value, and without.\<close>

definition aw_await_resume :: "('v, 'e) await_state \<Rightarrow> 'e await_error + 'v" where
  "aw_await_resume s = (case aw_exception s of Some e \<Rightarrow> Inl (Await_Rethrown e)
     | None \<Rightarrow> if aw_skipped s then Inl Await_Skipped
         else case aw_value s of Some v \<Rightarrow> Inr v | None \<Rightarrow> Inl Await_Bad_Optional)"

definition aw_await_resume_void :: "(unit, 'e) await_state \<Rightarrow> 'e await_error + unit" where
  "aw_await_resume_void s = (case aw_exception s of Some e \<Rightarrow> Inl (Await_Rethrown e)
     | None \<Rightarrow> if aw_skipped s then Inl Await_Skipped else Inr ())"

subsection \<open>On one core\<close>

fun sig_value :: "('v, 'e) await_signal \<Rightarrow> 'v option" where
  "sig_value (Sig_Value v) = Some v"
| "sig_value _ = None"

fun sig_exception :: "('v, 'e) await_signal \<Rightarrow> 'e option" where
  "sig_exception (Sig_Exception e) = Some e"
| "sig_exception _ = None"

text \<open>The last element for which \<open>f\<close> is defined, or else \<open>d\<close>.\<close>

definition latest :: "('a \<Rightarrow> 'b option) \<Rightarrow> 'a list \<Rightarrow> 'b option \<Rightarrow> 'b option" where
  "latest f xs d = fold (\<lambda>x r. case f x of None \<Rightarrow> r | Some y \<Rightarrow> Some y) xs d"

lemma latest_simps [simp]:
  "latest f [] d = d" "latest f (x # xs) d = latest f xs (case f x of None \<Rightarrow> d | Some y \<Rightarrow> Some y)"
  by (simp_all add: latest_def)

lemma aw_complete_fields [simp]:
  "aw_value (aw_complete s) = aw_value s" "aw_exception (aw_complete s) = aw_exception s"
  "aw_skipped (aw_complete s) = aw_skipped s" "aw_completed (aw_complete s)" "aw_in_suspend (aw_complete s) = aw_in_suspend s"
  by (auto simp: aw_complete_def Let_def split: option.split)

lemma aw_signals_fields:
  "aw_value (fold aw_signal xs s) = latest sig_value xs (aw_value s)
   \<and> aw_exception (fold aw_signal xs s) = latest sig_exception xs (aw_exception s)
   \<and> aw_skipped (fold aw_signal xs s) = (aw_skipped s \<or> Sig_Skip \<in> set xs)
   \<and> aw_completed (fold aw_signal xs s) = (aw_completed s \<or> xs \<noteq> [])
   \<and> aw_in_suspend (fold aw_signal xs s) = aw_in_suspend s"
proof (induction xs arbitrary: s)
  case (Cons x xs)
  then show ?case by (cases x) auto
qed simp

lemma aw_signals_quiet:
  "aw_in_suspend s \<or> aw_completed s \<Longrightarrow>
     aw_resumed (fold aw_signal xs s) = aw_resumed s \<and> aw_continuation (fold aw_signal xs s) = aw_continuation s"
proof (induction xs arbitrary: s)
  case (Cons x xs)
  then show ?case by (cases x) (auto simp: aw_complete_def Let_def)
qed simp

lemma aw_signals_wake:
  assumes "\<not> aw_in_suspend s" "\<not> aw_completed s" "aw_continuation s = Some h"
  shows "aw_resumed (fold aw_signal xs s) = aw_resumed s @ (if xs = [] then [] else [h])"
proof (cases xs)
  case (Cons x ys)
  have "aw_resumed (aw_signal x s) = aw_resumed s @ [h]" "aw_completed (aw_signal x s)"
    using assms by (cases x; simp add: aw_complete_def Let_def)+
  then show ?thesis using aw_signals_quiet [of "aw_signal x s" ys] Cons by simp
qed simp

text \<open>What the signals that came first mean to the coroutine.\<close>

definition await_outcome :: "('v, 'e) await_signal list \<Rightarrow> 'e await_error + 'v" where
  "await_outcome sigs = (case latest sig_exception sigs None of Some e \<Rightarrow> Inl (Await_Rethrown e)
     | None \<Rightarrow> if Sig_Skip \<in> set sigs then Inl Await_Skipped
         else case latest sig_value sigs None of Some v \<Rightarrow> Inr v | None \<Rightarrow> Inl Await_Bad_Optional)"

lemma outcome_fields:
  assumes "aw_value s = latest sig_value sigs None" "aw_exception s = latest sig_exception sigs None" "aw_skipped s \<longleftrightarrow> Sig_Skip \<in> set sigs"
  shows "aw_await_resume s = await_outcome sigs"
  using assms by (auto simp: aw_await_resume_def await_outcome_def split: option.split)

text \<open>C20: when all signals of the awaited sender arrive on the core of the awaiting coroutine, so that none
  comes between two statements of \<open>await_suspend\<close> (with a completion on another core the coroutine can
  be resumed twice, see \<open>await_resumed_twice\<close>), it goes on exactly once, at the first signal, however
  the signals are split into those during the start of the pipeline (\<open>xs\<close>) and later ones (\<open>ys\<close>): at
  once when there is one during the start, by its handle otherwise, and never when there is none. The
  state it finds is that after the signals of the start, or else after the first later one: the value
  last pushed, an exception before a skip before a value.\<close>

theorem await_goes_on_once:
  "let (suspended, s) = aw_await_suspend h xs (await_state0 :: ('v, 'e) await_state) in
     suspended = (xs = [])
     \<and> aw_resumed (fold aw_signal ys s) = (if xs = [] \<and> ys \<noteq> [] then [h] else [])
     \<and> aw_await_resume (fold aw_signal (if xs = [] then [y] else []) s) = await_outcome (if xs = [] then [y] else xs)"
proof -
  let ?start = "await_state0\<lparr>aw_continuation := Some h, aw_in_suspend := True\<rparr> :: ('v, 'e) await_state"
  let ?s = "(fold aw_signal xs ?start)\<lparr>aw_in_suspend := False\<rparr>"
  have r: "aw_await_suspend h xs await_state0 = (\<not> aw_completed ?s, ?s)" by (simp add: aw_await_suspend_def Let_def)
  have quiet: "aw_resumed ?s = []" "aw_continuation ?s = Some h" using aw_signals_quiet [of ?start xs] by (simp_all add: await_state0_def)
  note f = aw_signals_fields [of xs ?start]
  have comp: "aw_completed ?s \<longleftrightarrow> xs \<noteq> []" using f by (simp add: await_state0_def)
  then have "aw_resumed (fold aw_signal ys ?s) = (if xs = [] \<and> ys \<noteq> [] then [h] else [])"
    using aw_signals_quiet [of ?s ys] aw_signals_wake [of ?s h ys] quiet
    by (cases "xs = []") (auto simp: await_state0_def)
  moreover have "aw_await_resume (fold aw_signal (if xs = [] then [y] else []) ?s) = await_outcome (if xs = [] then [y] else xs)"
  proof (cases "xs = []")
    case True
    then show ?thesis using aw_signals_fields [of "[y]" ?s] by (auto intro!: outcome_fields simp: await_state0_def)
  next
    case False
    then show ?thesis using f by (auto intro!: outcome_fields simp: await_state0_def)
  qed
  ultimately show ?thesis using comp by (simp add: r)
qed

text \<open>A sender that ends without a value (a stream without \<^verbatim>\<open>reduce\<close> that is empty) gives the coroutine the
  exception of an empty optional, and of several synchronous values the last one.\<close>

lemma done_is_bad_optional: "await_outcome [Sig_Done] = Inl Await_Bad_Optional"
  by (simp add: await_outcome_def)

lemma last_value_wins: "await_outcome [Sig_Value v, Sig_Value w, Sig_Done] = Inr w"
  by (simp add: await_outcome_def)

subsection \<open>A completion on another core\<close>

text \<open>
  The awaiting core has started the pipeline; another core delivers the one signal. Steps
  of the awaiting core: it clears \<open>in_await_suspend\<close>, then reads \<open>completed\<close> and goes on by
  itself when it is set. Steps of the other core in \<open>complete\<close>: it reads \<open>completed\<close>, sets it,
  then reads the flag and the handle and resumes.
\<close>

datatype waiter = W_Starting | W_Cleared | W_Suspended | W_Went_On
datatype signaller = S_Before | S_Reading | S_Set | S_Finished

record await_race =
  ar_waiter :: waiter
  ar_signaller :: signaller
  ar_in_suspend :: bool
  ar_completed :: bool
  ar_resumes :: nat

definition await_race0 :: await_race where
  "await_race0 = \<lparr>ar_waiter = W_Starting, ar_signaller = S_Before, ar_in_suspend = True, ar_completed = False, ar_resumes = 0\<rparr>"

inductive race_step :: "await_race \<Rightarrow> await_race \<Rightarrow> bool" where
  w_clear: "ar_waiter s = W_Starting \<Longrightarrow> race_step s (s\<lparr>ar_waiter := W_Cleared, ar_in_suspend := False\<rparr>)"
| w_read: "ar_waiter s = W_Cleared \<Longrightarrow>
    race_step s (if ar_completed s then s\<lparr>ar_waiter := W_Went_On, ar_resumes := ar_resumes s + 1\<rparr> else s\<lparr>ar_waiter := W_Suspended\<rparr>)"
| s_test: "ar_signaller s = S_Before \<Longrightarrow> race_step s (s\<lparr>ar_signaller := (if ar_completed s then S_Finished else S_Reading)\<rparr>)"
| s_set: "ar_signaller s = S_Reading \<Longrightarrow> race_step s (s\<lparr>ar_signaller := S_Set, ar_completed := True\<rparr>)"
| s_wake: "ar_signaller s = S_Set \<Longrightarrow>
    race_step s (s\<lparr>ar_signaller := S_Finished, ar_resumes := ar_resumes s + (if ar_in_suspend s then 0 else 1)\<rparr>)"

inductive race_run :: "await_race \<Rightarrow> bool" where
  "race_run await_race0"
| "race_run s \<Longrightarrow> race_step s s' \<Longrightarrow> race_run s'"

definition race_inv :: "await_race \<Rightarrow> bool" where
  "race_inv s \<longleftrightarrow> (ar_in_suspend s \<longleftrightarrow> ar_waiter s = W_Starting) \<and> (ar_completed s \<longleftrightarrow> ar_signaller s \<in> {S_Set, S_Finished})
     \<and> ar_resumes s \<le> (if ar_waiter s = W_Went_On then 1 else 0) + (if ar_signaller s = S_Finished \<and> ar_waiter s \<noteq> W_Starting then 1 else 0)
     \<and> (ar_waiter s = W_Went_On \<longrightarrow> 1 \<le> ar_resumes s) \<and> (ar_waiter s = W_Suspended \<and> ar_signaller s = S_Finished \<longrightarrow> 1 \<le> ar_resumes s)"

lemma race_run_inv: "race_run s \<Longrightarrow> race_inv s"
proof (induction rule: race_run.induct)
  case (2 s s')
  from 2(2,3) show ?case by cases (auto simp: race_inv_def split: if_splits)
qed (simp add: race_inv_def await_race0_def)

text \<open>The wake-up is never lost, but the coroutine may be resumed twice.\<close>

lemma await_never_lost:
  assumes "race_run s" "ar_waiter s \<in> {W_Suspended, W_Went_On}" "ar_signaller s = S_Finished"
  shows "ar_resumes s \<in> {1, 2}"
  using race_run_inv [OF assms(1)] assms(2,3) by (auto simp: race_inv_def split: if_splits)

lemma await_resumed_twice: "\<exists>s. race_run s \<and> ar_waiter s = W_Went_On \<and> ar_signaller s = S_Finished \<and> ar_resumes s = 2"
proof -
  let ?s = "\<lambda>w g i c n. \<lparr>ar_waiter = w, ar_signaller = g, ar_in_suspend = i, ar_completed = c, ar_resumes = n\<rparr>"
  have "race_run (?s W_Starting S_Before True False 0)" using race_run.intros(1) by (simp add: await_race0_def)
  from race_run.intros(2) [OF this w_clear] have "race_run (?s W_Cleared S_Before False False 0)" by simp
  from race_run.intros(2) [OF this s_test] have "race_run (?s W_Cleared S_Reading False False 0)" by simp
  from race_run.intros(2) [OF this s_set] have "race_run (?s W_Cleared S_Set False True 0)" by simp
  from race_run.intros(2) [OF this s_wake] have "race_run (?s W_Cleared S_Finished False True 1)" by simp
  from race_run.intros(2) [OF this w_read] have "race_run (?s W_Went_On S_Finished False True 2)" by (simp add: numeral_2_eq_2)
  then show ?thesis by (intro exI) auto
qed

end
