(* ===== verification/Coroutine.thy ===== *)
theory Coroutine
  imports Prelude
begin

section \<open>Generators\<close>

text \<open>
  \<^verbatim>\<open>src/pump/coro\<close>: the promise types, the owner of a coroutine (\<^verbatim>\<open>co_object\<close>), the iterator
  and the view over a generator that \<^verbatim>\<open>for_each\<close> takes as its range, and the awaiting of one
  coroutine by another (\<^verbatim>\<open>await_co_handle\<close>). The body of a coroutine is a parameter: from
  each of its states it yields a value, returns one or throws. \<open>None\<close> is undefined behaviour
  (a finished coroutine resumed, an empty pointer read).
\<close>

datatype ('s, 'v, 'e) co_action = Co_Yield 'v 's | Co_Return 'v | Co_Throw 'e

record ('s, 'v, 'e) coroutine =
  co_state :: 's
  co_done :: bool
  co_value :: "'v option"
  co_exception :: "'e option"

text \<open>The coroutine is created suspended (\<^verbatim>\<open>initial_suspend\<close>).\<close>

definition co_create :: "'s \<Rightarrow> ('s, 'v, 'e) coroutine" where
  "co_create s = \<lparr>co_state = s, co_done = False, co_value = None, co_exception = None\<rparr>"

definition co_resume ::
  "('s \<Rightarrow> ('s, 'v, 'e) co_action) \<Rightarrow> ('s, 'v, 'e) coroutine \<Rightarrow> ('s, 'v, 'e) coroutine option" where
  "co_resume body c = (if co_done c then None
     else Some (case body (co_state c) of
         Co_Yield v s \<Rightarrow> c\<lparr>co_state := s, co_value := Some v\<rparr>
       | Co_Return v \<Rightarrow> c\<lparr>co_done := True, co_value := Some v\<rparr>
       | Co_Throw e \<Rightarrow> c\<lparr>co_done := True, co_exception := Some e\<rparr>))"

definition co_take :: "('s, 'v, 'e) coroutine \<Rightarrow> 'v option" where
  "co_take c = co_value c"

text \<open>\<open>co_view_able::begin\<close> and \<^verbatim>\<open>operator++\<close> of the iterator resume and rethrow.\<close>

definition co_next ::
  "('s \<Rightarrow> ('s, 'v, 'e) co_action) \<Rightarrow> ('s, 'v, 'e) coroutine \<Rightarrow> ('e + ('s, 'v, 'e) coroutine) option" where
  "co_next body c = (case co_resume body c of None \<Rightarrow> None
     | Some c \<Rightarrow> Some (if co_done c then case co_exception c of Some e \<Rightarrow> Inl e | None \<Rightarrow> Inr c else Inr c))"

definition co_at_end :: "('s, 'v, 'e) coroutine \<Rightarrow> bool" where
  "co_at_end c = co_done c"

text \<open>A range loop over a view: the values it sees and how it ends; \<open>None\<close> at the end is the fuel used up.\<close>

datatype 'e loop_end = Loop_Done | Loop_Threw 'e | Loop_Undefined

fun co_loop :: "nat \<Rightarrow> ('s \<Rightarrow> ('s, 'v, 'e) co_action) \<Rightarrow> ('s, 'v, 'e) coroutine \<Rightarrow> 'v list \<times> 'e loop_end option" where
  "co_loop 0 body c = ([], None)"
| "co_loop (Suc n) body c = (case co_next body c of
      None \<Rightarrow> ([], Some Loop_Undefined)
    | Some (Inl e) \<Rightarrow> ([], Some (Loop_Threw e))
    | Some (Inr c) \<Rightarrow> if co_at_end c then ([], Some Loop_Done)
        else case co_take c of None \<Rightarrow> ([], Some Loop_Undefined)
          | Some v \<Rightarrow> let (vs, r) = co_loop n body c in (v # vs, r))"

text \<open>\<^verbatim>\<open>await_co_handle::await_resume\<close>: \<^verbatim>\<open>await_suspend\<close> never suspends, so it runs whether or not the coroutine was done.\<close>

definition co_await ::
  "('s \<Rightarrow> ('s, 'v, 'e) co_action) \<Rightarrow> ('s, 'v, 'e) coroutine \<Rightarrow> ('v \<times> ('s, 'v, 'e) coroutine) option" where
  "co_await body c = (case co_resume body c of None \<Rightarrow> None
     | Some c \<Rightarrow> (case co_take c of None \<Rightarrow> None | Some v \<Rightarrow> Some (v, c)))"

text \<open>The values a body yields and how it ends.\<close>

inductive co_runs :: "('s \<Rightarrow> ('s, 'v, 'e) co_action) \<Rightarrow> 's \<Rightarrow> 'v list \<Rightarrow> 'v + 'e \<Rightarrow> bool" for body where
  "body s = Co_Return v \<Longrightarrow> co_runs body s [] (Inl v)"
| "body s = Co_Throw e \<Longrightarrow> co_runs body s [] (Inr e)"
| "body s = Co_Yield v s' \<Longrightarrow> co_runs body s' vs r \<Longrightarrow> co_runs body s (v # vs) r"

inductive_cases co_runs_nilE: "co_runs body s [] r"
inductive_cases co_runs_consE: "co_runs body s (v # vs) r"

lemma co_loop_runs:
  assumes "co_runs body s vs r" "length vs < n"
  shows "co_loop n body \<lparr>co_state = s, co_done = False, co_value = w, co_exception = None\<rparr>
    = (vs, Some (case r of Inl _ \<Rightarrow> Loop_Done | Inr e \<Rightarrow> Loop_Threw e))"
  using assms
proof (induction vs arbitrary: s n w)
  case Nil
  then show ?case by (cases n) (auto elim!: co_runs_nilE simp: co_next_def co_resume_def co_at_end_def)
next
  case (Cons v vs)
  from Cons.prems(1) obtain s' where s': "body s = Co_Yield v s'" "co_runs body s' vs r" by (auto elim: co_runs_consE)
  from Cons.prems(2) obtain m where "n = Suc m" "length vs < m" by (cases n) auto
  with Cons.IH [OF s'(2) this(2)] s'(1) show ?case by (simp add: co_next_def co_resume_def co_at_end_def co_take_def)
qed

text \<open>
  A loop over a generator sees the yielded values in order, then the exception of the
  body if it ends with one; the value it returns is not seen. It is never undefined.
\<close>

lemma generator_loop:
  "co_runs body s vs r \<Longrightarrow> co_loop (Suc (length vs)) body (co_create s)
     = (vs, Some (case r of Inl _ \<Rightarrow> Loop_Done | Inr e \<Rightarrow> Loop_Threw e))"
  using co_loop_runs [of body s vs r "Suc (length vs)" None] by (simp add: co_create_def)

text \<open>An endless generator feeds the loop as long as it runs.\<close>

lemma endless_generator:
  assumes "\<And>k. body (f k) = Co_Yield (g k) (f (Suc k))"
  shows "co_loop n body \<lparr>co_state = f k, co_done = False, co_value = w, co_exception = None\<rparr> = (map g [k..<k + n], None)"
proof (induction n arbitrary: k w)
  case (Suc n)
  have "[k..<k + Suc n] = k # [Suc k..<Suc k + n]" by (simp add: upt_rec)
  with Suc.IH [of "Suc k"] show ?case by (simp add: co_next_def co_resume_def co_at_end_def co_take_def assms)
qed simp

text \<open>Awaiting a coroutine that is done is undefined, and so is awaiting one that throws: the exception is not rethrown.\<close>

lemma await_done_undefined: "co_done c \<Longrightarrow> co_await body c = None"
  by (simp add: co_await_def co_resume_def)

lemma await_throwing_undefined: "body s = Co_Throw e \<Longrightarrow> co_await body (co_create s) = None"
  by (simp add: co_await_def co_resume_def co_create_def co_take_def)

lemma await_returns: "body s = Co_Return v \<Longrightarrow> \<exists>c. co_await body (co_create s) = Some (v, c) \<and> co_done c"
  by (simp add: co_await_def co_resume_def co_create_def co_take_def)

text \<open>
  \<^verbatim>\<open>check_rpc_state\<close> of \<^verbatim>\<open>rpc/server/serv.hh\<close> yields \<open>true\<close> as long as the session is open when
  it is asked; its states are the answers of \<^verbatim>\<open>is_closed\<close> still to come.
\<close>

fun check_rpc_state :: "bool list \<Rightarrow> (bool list, bool, unit) co_action" where
  "check_rpc_state [] = Co_Return False"
| "check_rpc_state (closed # later) = (if closed then Co_Return False else Co_Yield True later)"

lemma check_rpc_state_runs:
  "co_runs check_rpc_state answers (map (\<lambda>_. True) (takeWhile (\<lambda>closed. \<not> closed) answers)) (Inl False)"
  by (induction answers) (auto intro: co_runs.intros)

lemma server_loop_turns:
  "fst (co_loop (Suc (length answers)) check_rpc_state (co_create answers)) = map (\<lambda>_. True) (takeWhile (\<lambda>closed. \<not> closed) answers)"
  using co_loop_runs [OF check_rpc_state_runs, of answers "Suc (length answers)" None] length_takeWhile_le [of "\<lambda>closed. \<not> closed" answers]
  by (simp add: co_create_def del: co_loop.simps)

end
