(* ===== verification/Udp_Epoll.thy ===== *)
theory Udp_Epoll
  imports Dgram_Epoll Queue_Accounting "HOL-Library.Sublist"
begin

section \<open>The UDP epoll scheduler\<close>

text \<open>
  \<^verbatim>\<open>src/env/scheduler/net/udp/epoll/scheduler.hh\<close> on the transport of \<open>Dgram_Epoll\<close>: receive
  requests wait in \<open>ud_pending_recv\<close> for datagrams, datagrams in \<open>ud_ready_q\<close> for requests,
  both rings of 1024 cells. The results of \<^verbatim>\<open>sendmsg\<close> are a function of a call counter. A
  callback is a number; its call is recorded in \<open>ud_recv_answers\<close> or \<open>ud_send_answers\<close>.
  History: the requests issued, the datagrams the transport handed over (\<open>ud_received\<close>), and
  what a full ring made the scheduler drop (\<open>ud_lost\<close>, \<open>ud_dropped\<close>).
\<close>

datatype udp_recv_result = Recv_Datagram dgram | Recv_Queue_Full | Recv_Shutdown

record udp_send =
  us_target :: nat
  us_frame :: "byte list"
  us_cb :: nat

datatype sendmsg_result = Msg_Sent | Msg_Again | Msg_Failed

record udp_sched =
  ud_transport :: dgram_transport
  ud_recv_q :: "nat pcqueue"
  ud_send_q :: "udp_send pcqueue"
  ud_pending_recv :: "nat lqueue"
  ud_ready_q :: "dgram lqueue"
  ud_pending_sends :: "udp_send list"
  ud_shutdown :: bool
  ud_calls :: nat
  ud_recv_answers :: "(nat \<times> udp_recv_result) list"
  ud_send_answers :: "(nat \<times> bool) list"
  ud_recv_issued :: "nat list"
  ud_send_issued :: "nat list"
  ud_received :: "dgram list"
  ud_lost :: "nat list"
  ud_dropped :: "dgram list"

definition ud_new :: "u64 \<Rightarrow> udp_sched option" where
  "ud_new depth =
     (case (pc_new 0 depth (- 1), pc_new \<lparr>us_target = 0, us_frame = [], us_cb = 0\<rparr> depth (- 1), lq_new 0 1024, lq_new ([], 0) 1024) of
        (Some rq, Some sq, Some pq, Some dq) \<Rightarrow>
          Some \<lparr>ud_transport = dg_none, ud_recv_q = rq, ud_send_q = sq, ud_pending_recv = pq, ud_ready_q = dq,
            ud_pending_sends = [], ud_shutdown = False, ud_calls = 0, ud_recv_answers = [], ud_send_answers = [],
            ud_recv_issued = [], ud_send_issued = [], ud_received = [], ud_lost = [], ud_dropped = []\<rparr>
      | _ \<Rightarrow> None)"

definition ud_init :: "int \<Rightarrow> bool \<Rightarrow> int \<Rightarrow> nat \<Rightarrow> udp_sched \<Rightarrow> int \<times> udp_sched" where
  "ud_init fd bound epoll_fd max_datagram_size s =
     (let (res, t) = dg_init fd bound epoll_fd max_datagram_size (ud_transport s) in (res, s\<lparr>ud_transport := t\<rparr>))"

definition recv_answer :: "nat \<Rightarrow> udp_recv_result \<Rightarrow> udp_sched \<Rightarrow> udp_sched" where
  "recv_answer cb r s = s\<lparr>ud_recv_answers := ud_recv_answers s @ [(cb, r)]\<rparr>"

definition send_answer :: "nat \<Rightarrow> bool \<Rightarrow> udp_sched \<Rightarrow> udp_sched" where
  "send_answer cb ok s = s\<lparr>ud_send_answers := ud_send_answers s @ [(cb, ok)]\<rparr>"

text \<open>Requests from any core; a full queue ends the process (\<open>None\<close>) when it is declared with \<open>abort_on_full\<close>.\<close>

definition ud_schedule_recv :: "bool \<Rightarrow> u32 \<Rightarrow> nat \<Rightarrow> udp_sched \<Rightarrow> udp_sched option" where
  "ud_schedule_recv ab core cb s =
     (let (res, q) = pc_try_enqueue ab core cb (ud_recv_q s);
          s = s\<lparr>ud_recv_q := q, ud_recv_issued := ud_recv_issued s @ [cb]\<rparr> in
      case res of Pc_Ok \<Rightarrow> Some s | Pc_Full \<Rightarrow> Some (recv_answer cb Recv_Queue_Full s) | Pc_Abort \<Rightarrow> None)"

definition ud_schedule_send :: "bool \<Rightarrow> u32 \<Rightarrow> udp_send \<Rightarrow> udp_sched \<Rightarrow> udp_sched option" where
  "ud_schedule_send ab core r s =
     (let (res, q) = pc_try_enqueue ab core r (ud_send_q s);
          s = s\<lparr>ud_send_q := q, ud_send_issued := ud_send_issued s @ [us_cb r]\<rparr> in
      case res of Pc_Ok \<Rightarrow> Some s | Pc_Full \<Rightarrow> Some (send_answer (us_cb r) False s) | Pc_Abort \<Rightarrow> None)"

definition ud_take_recv :: "nat \<Rightarrow> udp_sched \<Rightarrow> udp_sched" where
  "ud_take_recv cb s =
     (let (d, q) = lq_try_dequeue (ud_ready_q s) in
      case d of
        Some dg \<Rightarrow> recv_answer cb (Recv_Datagram dg) (s\<lparr>ud_ready_q := q\<rparr>)
      | None \<Rightarrow> (let (ok, p) = lq_try_enqueue cb (ud_pending_recv s) in
                 if ok then s\<lparr>ud_pending_recv := p\<rparr> else s\<lparr>ud_lost := ud_lost s @ [cb]\<rparr>))"

definition ud_drain_recv_q :: "udp_sched \<Rightarrow> udp_sched" where
  "ud_drain_recv_q s = (let (_, rs, q) = pc_drain (ud_recv_q s) in fold ud_take_recv rs (s\<lparr>ud_recv_q := q\<rparr>))"

definition us_prepare :: "udp_send \<Rightarrow> dgram" where
  "us_prepare r = (us_frame r, us_target r)"

definition ud_try_send :: "(nat \<Rightarrow> sendmsg_result) \<Rightarrow> udp_send \<Rightarrow> udp_sched \<Rightarrow> bool \<times> udp_sched" where
  "ud_try_send k r s =
     (let res = k (ud_calls s); s = s\<lparr>ud_calls := ud_calls s + 1\<rparr> in
      if res = Msg_Sent then
        (True, send_answer (us_cb r) True (s\<lparr>ud_transport := dg_sendto (fst (us_prepare r)) (snd (us_prepare r)) (ud_transport s)\<rparr>))
      else if res = Msg_Again then (False, s)
      else (True, send_answer (us_cb r) False s))"

definition ud_send_one :: "(nat \<Rightarrow> sendmsg_result) \<Rightarrow> udp_send \<Rightarrow> udp_sched \<Rightarrow> udp_sched" where
  "ud_send_one k r s = (let (ok, s) = ud_try_send k r s in if ok then s else s\<lparr>ud_pending_sends := ud_pending_sends s @ [r]\<rparr>)"

definition ud_drain_send_q :: "(nat \<Rightarrow> sendmsg_result) \<Rightarrow> udp_sched \<Rightarrow> udp_sched" where
  "ud_drain_send_q k s = (let (_, rs, q) = pc_drain (ud_send_q s) in fold (ud_send_one k) rs (s\<lparr>ud_send_q := q\<rparr>))"

text \<open>The loop over \<open>pending_sends\<close>: what stays in the list, and the state.\<close>

fun flush_loop :: "(nat \<Rightarrow> sendmsg_result) \<Rightarrow> udp_send list \<Rightarrow> udp_sched \<Rightarrow> udp_send list \<times> udp_sched" where
  "flush_loop k [] s = ([], s)"
| "flush_loop k (r # rs) s = (let (ok, s) = ud_try_send k r s in if ok then flush_loop k rs s else (r # rs, s))"

definition flush_pending_sends :: "(nat \<Rightarrow> sendmsg_result) \<Rightarrow> udp_sched \<Rightarrow> udp_sched" where
  "flush_pending_sends k s = (let (rest, s) = flush_loop k (ud_pending_sends s) s in s\<lparr>ud_pending_sends := rest\<rparr>)"

definition ud_on_recv :: "dgram \<Rightarrow> udp_sched \<Rightarrow> udp_sched" where
  "ud_on_recv dg s =
     (let s = s\<lparr>ud_received := ud_received s @ [dg]\<rparr>; (cb, p) = lq_try_dequeue (ud_pending_recv s) in
      case cb of
        Some cb \<Rightarrow> recv_answer cb (Recv_Datagram dg) (s\<lparr>ud_pending_recv := p\<rparr>)
      | None \<Rightarrow> (let (ok, q) = lq_try_enqueue dg (ud_ready_q s) in
                 if ok then s\<lparr>ud_ready_q := q\<rparr> else s\<lparr>ud_dropped := ud_dropped s @ [dg]\<rparr>))"

text \<open>The dequeue loops empty rings of less than 1024 items.\<close>

definition ud_drain_on_shutdown :: "udp_sched \<Rightarrow> udp_sched" where
  "ud_drain_on_shutdown s =
     (let (ps, p) = drain_loop 1024 lq_try_dequeue (ud_pending_recv s); (_, rs, rq) = pc_drain (ud_recv_q s);
          (_, ss, sq) = pc_drain (ud_send_q s); (ds, dq) = drain_loop 1024 lq_try_dequeue (ud_ready_q s);
          s1 = fold (\<lambda>cb. recv_answer cb Recv_Shutdown) (ps @ rs) s;
          s2 = fold (\<lambda>cb. send_answer cb False) (map us_cb (ss @ ud_pending_sends s)) s1 in
      s2\<lparr>ud_pending_recv := p, ud_recv_q := rq, ud_send_q := sq, ud_pending_sends := [], ud_ready_q := dq,
        ud_dropped := ud_dropped s @ ds\<rparr>)"

definition ud_shut_down :: "udp_sched \<Rightarrow> udp_sched" where
  "ud_shut_down s = s\<lparr>ud_shutdown := True\<rparr>"

definition ud_advance :: "(nat \<Rightarrow> sendmsg_result) \<Rightarrow> dgram_event list \<Rightarrow> udp_sched \<Rightarrow> bool \<times> udp_sched" where
  "ud_advance k events s =
     (if ud_shutdown s then (False, ud_drain_on_shutdown s)
      else (let s = ud_drain_send_q k (ud_drain_recv_q s); (ds, writable, t) = dg_advance events (ud_transport s);
                s = fold ud_on_recv ds (s\<lparr>ud_transport := t\<rparr>) in
            (True, if writable then flush_pending_sends k s else s)))"

inductive ud_step :: "bool \<Rightarrow> (nat \<Rightarrow> sendmsg_result) \<Rightarrow> udp_sched \<Rightarrow> udp_sched \<Rightarrow> bool" for ab k where
  ud_recv: "core_ok (ud_recv_q s) core \<Longrightarrow> ud_schedule_recv ab core cb s = Some s' \<Longrightarrow> ud_step ab k s s'"
| ud_send: "core_ok (ud_send_q s) core \<Longrightarrow> ud_schedule_send ab core r s = Some s' \<Longrightarrow> ud_step ab k s s'"
| ud_shut: "ud_step ab k s (ud_shut_down s)"
| ud_turn: "ud_step ab k s (snd (ud_advance k events s))"

inductive ud_reach :: "bool \<Rightarrow> (nat \<Rightarrow> sendmsg_result) \<Rightarrow> udp_sched \<Rightarrow> udp_sched \<Rightarrow> bool" for ab k s0 where
  ud_start: "ud_reach ab k s0 s0"
| ud_go: "ud_reach ab k s0 s \<Longrightarrow> ud_step ab k s s' \<Longrightarrow> ud_reach ab k s0 s'"

subsection \<open>What is owed\<close>

definition ud_recv_owed :: "udp_sched \<Rightarrow> nat multiset" where
  "ud_recv_owed s = mset (pc_items (ud_recv_q s)) + mset (lq_contents (ud_pending_recv s))"

definition ud_send_owed :: "udp_sched \<Rightarrow> nat multiset" where
  "ud_send_owed s = image_mset us_cb (mset (pc_items (ud_send_q s)) + mset (ud_pending_sends s))"

definition delivered :: "(nat \<times> udp_recv_result) list \<Rightarrow> dgram list" where
  "delivered as = List.map_filter (\<lambda>(cb, r). case r of Recv_Datagram d \<Rightarrow> Some d | _ \<Rightarrow> None) as"

lemma delivered_append [simp]:
  "delivered (as @ [(cb, r)]) = delivered as @ (case r of Recv_Datagram d \<Rightarrow> [d] | _ \<Rightarrow> [])"
  by (simp add: delivered_def map_filter_def split: udp_recv_result.split)

definition ud_queues_ok :: "udp_sched \<Rightarrow> bool" where
  "ud_queues_ok s \<longleftrightarrow> pcq_inv (ud_recv_q s) \<and> pcq_inv (ud_send_q s) \<and> lq_inv (ud_pending_recv s) \<and> lq_inv (ud_ready_q s)
     \<and> lq_room (ud_pending_recv s) = 1023 \<and> lq_room (ud_ready_q s) = 1023"

text \<open>\<open>R\<close> and \<open>S\<close> are receive and send requests that a loop of the scheduler has in hand.\<close>

definition ud_inv_with :: "nat multiset \<Rightarrow> nat multiset \<Rightarrow> udp_sched \<Rightarrow> bool" where
  "ud_inv_with R S s \<longleftrightarrow> ud_queues_ok s
     \<and> image_mset fst (mset (ud_recv_answers s)) + ud_recv_owed s + mset (ud_lost s) + R = mset (ud_recv_issued s)
     \<and> image_mset fst (mset (ud_send_answers s)) + ud_send_owed s + S = mset (ud_send_issued s)
     \<and> subseq (delivered (ud_recv_answers s) @ lq_contents (ud_ready_q s)) (ud_received s)
     \<and> mset (delivered (ud_recv_answers s) @ lq_contents (ud_ready_q s)) + mset (ud_dropped s) = mset (ud_received s)
     \<and> (lq_contents (ud_pending_recv s) = [] \<or> lq_contents (ud_ready_q s) = [])"

lemmas ud_account = ud_inv_with_def ud_recv_owed_def ud_send_owed_def ud_queues_ok_def

lemma lq_enq_contents:
  assumes "lq_inv q" "lq_try_enqueue x q = (ok, q')"
  shows "lq_inv q' \<and> lq_contents q' = lq_contents q @ (if ok then [x] else []) \<and> lq_room q' = lq_room q
    \<and> ok = (length (lq_contents q) < lq_room q)"
  using lq.enq_room [OF assms(1), of x] lq.enq_full [OF assms(1), of x] assms(2)
  by (cases "length (lq_contents q) < lq_room q") auto

lemma lq_deq_contents:
  assumes "lq_inv q" "lq_try_dequeue q = (res, q')"
  shows "lq_inv q' \<and> lq_room q' = lq_room q
    \<and> (case res of None \<Rightarrow> lq_contents q = [] \<and> lq_contents q' = [] | Some x \<Rightarrow> lq_contents q = x # lq_contents q')"
  using lq.deq_none [OF assms(1)] lq.deq_some [OF assms(1)] assms(2)
  by (cases "lq_contents q") auto

lemma ud_take_recv_inv: "ud_inv_with (add_mset cb R) S s \<Longrightarrow> ud_inv_with R S (ud_take_recv cb s)"
proof -
  assume inv: "ud_inv_with (add_mset cb R) S s"
  obtain d q where d: "lq_try_dequeue (ud_ready_q s) = (d, q)" by (cases "lq_try_dequeue (ud_ready_q s)")
  obtain ok p where e: "lq_try_enqueue cb (ud_pending_recv s) = (ok, p)" by (cases "lq_try_enqueue cb (ud_pending_recv s)")
  have "lq_inv (ud_ready_q s)" "lq_inv (ud_pending_recv s)" using inv by (auto simp: ud_account)
  from lq_deq_contents [OF this(1) d] lq_enq_contents [OF this(2) e] inv show ?thesis
    by (cases d; cases ok) (auto simp: ud_take_recv_def d e recv_answer_def ud_account ac_simps)
qed

lemma ud_take_recvs_inv: "ud_inv_with (mset rs + R) S s \<Longrightarrow> ud_inv_with R S (fold ud_take_recv rs s)"
  by (induction rs arbitrary: s) (auto intro: ud_take_recv_inv)

lemma ud_drain_recv_q_inv:
  assumes "ud_inv_with R S s"
  shows "ud_inv_with R S (ud_drain_recv_q s)"
proof -
  obtain w rs q where d: "pc_drain (ud_recv_q s) = (w, rs, q)" by (cases "pc_drain (ud_recv_q s)")
  have "pcq_inv (ud_recv_q s)" using assms by (simp add: ud_account)
  from pc_drain_items [OF this d] assms have "ud_inv_with (mset rs + R) S (s\<lparr>ud_recv_q := q\<rparr>)" by (simp add: ud_account ac_simps)
  from ud_take_recvs_inv [OF this] show ?thesis by (simp add: ud_drain_recv_q_def d)
qed

text \<open>\<open>try_send\<close> answers or not, and changes nothing the invariant speaks of but the answers.\<close>

lemma ud_try_send_effect:
  "ud_try_send k r s = (ok, s') \<Longrightarrow> \<exists>t res. s' = s\<lparr>ud_calls := ud_calls s + 1, ud_transport := t,
     ud_send_answers := ud_send_answers s @ (if ok then [(us_cb r, res)] else [])\<rparr>"
  by (cases s) (auto simp: ud_try_send_def Let_def send_answer_def split: if_splits)

lemma ud_send_one_inv: "ud_inv_with R (add_mset (us_cb r) S) s \<Longrightarrow> ud_inv_with R S (ud_send_one k r s)"
proof -
  assume inv: "ud_inv_with R (add_mset (us_cb r) S) s"
  obtain ok s' where t: "ud_try_send k r s = (ok, s')" by (cases "ud_try_send k r s")
  from ud_try_send_effect [OF this] inv show ?thesis by (cases ok) (auto simp: ud_send_one_def t ud_account)
qed

lemma ud_send_all_inv: "ud_inv_with R (image_mset us_cb (mset rs) + S) s \<Longrightarrow> ud_inv_with R S (fold (ud_send_one k) rs s)"
  by (induction rs arbitrary: s) (auto intro: ud_send_one_inv)

lemma ud_drain_send_q_inv:
  assumes "ud_inv_with R {#} s"
  shows "ud_inv_with R {#} (ud_drain_send_q k s)"
proof -
  obtain w rs q where d: "pc_drain (ud_send_q s) = (w, rs, q)" by (cases "pc_drain (ud_send_q s)")
  have "pcq_inv (ud_send_q s)" using assms by (simp add: ud_account)
  from pc_drain_items [OF this d] assms have "ud_inv_with R (image_mset us_cb (mset rs) + {#}) (s\<lparr>ud_send_q := q\<rparr>)" by (simp add: ud_account ac_simps)
  from ud_send_all_inv [OF this] show ?thesis by (simp add: ud_drain_send_q_def d)
qed

lemma flush_loop_effect:
  "flush_loop k rs s = (rest, s') \<Longrightarrow> \<exists>c t as. s' = s\<lparr>ud_calls := c, ud_transport := t, ud_send_answers := ud_send_answers s @ as\<rparr>
     \<and> image_mset fst (mset as) + image_mset us_cb (mset rest) = image_mset us_cb (mset rs)"
proof (induction rs arbitrary: s)
  case Nil
  then show ?case by (intro exI [of _ "ud_calls s"] exI [of _ "ud_transport s"] exI [of _ "[]"]) simp
next
  case (Cons r rs)
  obtain ok u where u: "ud_try_send k r s = (ok, u)" by (cases "ud_try_send k r s")
  then obtain t res where e: "u = s\<lparr>ud_calls := ud_calls s + 1, ud_transport := t,
     ud_send_answers := ud_send_answers s @ (if ok then [(us_cb r, res)] else [])\<rparr>" using ud_try_send_effect by blast
  show ?case
  proof (cases ok)
    case True
    with Cons.prems u have "flush_loop k rs u = (rest, s')" by simp
    from Cons.IH [OF this] obtain c t2 as where a: "s' = u\<lparr>ud_calls := c, ud_transport := t2, ud_send_answers := ud_send_answers u @ as\<rparr>"
      "image_mset fst (mset as) + image_mset us_cb (mset rest) = image_mset us_cb (mset rs)" by blast
    show ?thesis
      by (intro exI [of _ c] exI [of _ t2] exI [of _ "(us_cb r, res) # as"]) (use a e True in simp)
  next
    case False
    with Cons.prems u have "rest = r # rs" "s' = u" by auto
    then show ?thesis
      by (intro exI [of _ "ud_calls s + 1"] exI [of _ t] exI [of _ "[]"]) (use e False in simp)
  qed
qed

lemma flush_pending_sends_inv:
  assumes "ud_inv_with R {#} s"
  shows "ud_inv_with R {#} (flush_pending_sends k s)"
proof -
  obtain rest s' where f: "flush_loop k (ud_pending_sends s) s = (rest, s')" by (cases "flush_loop k (ud_pending_sends s) s")
  from flush_loop_effect [OF this] obtain c t as where
    s': "s' = s\<lparr>ud_calls := c, ud_transport := t, ud_send_answers := ud_send_answers s @ as\<rparr>"
    and as: "image_mset us_cb (mset (ud_pending_sends s)) = image_mset fst (mset as) + image_mset us_cb (mset rest)" by metis
  show ?thesis using assms by (simp add: flush_pending_sends_def f s' ud_account as ac_simps)
qed

lemma ud_on_recv_inv: "ud_inv_with R S s \<Longrightarrow> ud_inv_with R S (ud_on_recv dg s)"
proof -
  assume inv: "ud_inv_with R S s"
  obtain cb p where d: "lq_try_dequeue (ud_pending_recv s) = (cb, p)" by (cases "lq_try_dequeue (ud_pending_recv s)")
  obtain ok q where e: "lq_try_enqueue dg (ud_ready_q s) = (ok, q)" by (cases "lq_try_enqueue dg (ud_ready_q s)")
  have "lq_inv (ud_ready_q s)" "lq_inv (ud_pending_recv s)" using inv by (auto simp: ud_account)
  note dq = lq_deq_contents [OF this(2) d] and eq = lq_enq_contents [OF this(1) e]
  have sub: "subseq (delivered (ud_recv_answers s) @ lq_contents (ud_ready_q s)) (ud_received s)" using inv by (simp add: ud_account)
  show ?thesis
  proof (cases cb)
    case (Some c)
    then have "lq_contents (ud_ready_q s) = []" using dq inv by (auto simp: ud_account)
    with sub have "subseq (delivered (ud_recv_answers s) @ [dg]) (ud_received s @ [dg])" by simp
    then show ?thesis using Some dq inv \<open>lq_contents (ud_ready_q s) = []\<close>
      by (simp add: ud_on_recv_def d recv_answer_def ud_account ac_simps)
  next
    case None
    have "subseq (delivered (ud_recv_answers s) @ lq_contents (ud_ready_q s) @ [dg]) (ud_received s @ [dg])"
      using list_emb_append_mono [OF sub, of "[dg]" "[dg]"] by simp
    moreover have "subseq (delivered (ud_recv_answers s) @ lq_contents (ud_ready_q s)) (ud_received s @ [dg])"
      using list_emb_append_mono [OF sub, of "[]" "[dg]"] by simp
    ultimately show ?thesis using None dq eq inv
      by (cases ok) (simp_all add: ud_on_recv_def d e ud_account ac_simps)
  qed
qed

lemma ud_on_recvs_inv: "ud_inv_with R S s \<Longrightarrow> ud_inv_with R S (fold ud_on_recv ds s)"
  by (induction ds arbitrary: s) (auto intro: ud_on_recv_inv)

lemma ud_schedule_inv:
  assumes inv: "ud_inv_with R S s"
    and s': "core_ok (ud_recv_q s) core \<and> ud_schedule_recv ab core cb s = Some s'
      \<or> core_ok (ud_send_q s) core \<and> ud_schedule_send ab core r s = Some s'"
  shows "ud_inv_with R S s'"
  using s'
proof (elim disjE conjE)
  assume c: "core_ok (ud_recv_q s) core" "ud_schedule_recv ab core cb s = Some s'"
  obtain res q where e: "pc_try_enqueue ab core cb (ud_recv_q s) = (res, q)" by (cases "pc_try_enqueue ab core cb (ud_recv_q s)")
  have "pcq_inv (ud_recv_q s)" using inv by (simp add: ud_account)
  from pc_try_enqueue_items [OF this c(1) e] c(2) inv show ?thesis
    by (cases res) (auto simp: ud_schedule_recv_def e recv_answer_def ud_account)
next
  assume c: "core_ok (ud_send_q s) core" "ud_schedule_send ab core r s = Some s'"
  obtain res q where e: "pc_try_enqueue ab core r (ud_send_q s) = (res, q)" by (cases "pc_try_enqueue ab core r (ud_send_q s)")
  have "pcq_inv (ud_send_q s)" using inv by (simp add: ud_account)
  from pc_try_enqueue_items [OF this c(1) e] c(2) inv show ?thesis
    by (cases res) (auto simp: ud_schedule_send_def e send_answer_def ud_account)
qed

lemma answer_folds:
  "fold (\<lambda>cb. recv_answer cb r) cbs s = s\<lparr>ud_recv_answers := ud_recv_answers s @ map (\<lambda>cb. (cb, r)) cbs\<rparr>"
  "fold (\<lambda>cb. send_answer cb ok) cbs s = s\<lparr>ud_send_answers := ud_send_answers s @ map (\<lambda>cb. (cb, ok)) cbs\<rparr>"
  by (induction cbs arbitrary: s) (simp_all add: recv_answer_def send_answer_def)

lemma lq_drain_all:
  assumes "lq_inv q" "lq_room q = 1023" "drain_loop 1024 lq_try_dequeue q = (xs, q')"
  shows "xs = lq_contents q \<and> lq_inv q' \<and> lq_contents q' = [] \<and> lq_room q' = 1023"
proof -
  have cap: "lq_count q < unat (lq_capacity q)" using assms(1) by (auto simp: lq_inv_def lq_count_def intro!: ring_dist_less)
  then have "length (lq_contents q) < 1024" using assms(2) by (simp add: lq_contents_def lq_room_def)
  from lq.drain_all [OF assms(1) this] assms(2,3) show ?thesis by auto
qed

lemma ud_drain_on_shutdown_inv:
  assumes inv: "ud_inv_with R S s"
  shows "ud_inv_with R S (ud_drain_on_shutdown s) \<and> ud_recv_owed (ud_drain_on_shutdown s) = {#}
    \<and> ud_send_owed (ud_drain_on_shutdown s) = {#}"
proof -
  obtain ps p where p: "drain_loop 1024 lq_try_dequeue (ud_pending_recv s) = (ps, p)" by (cases "drain_loop 1024 lq_try_dequeue (ud_pending_recv s)")
  obtain ds dq where d: "drain_loop 1024 lq_try_dequeue (ud_ready_q s) = (ds, dq)" by (cases "drain_loop 1024 lq_try_dequeue (ud_ready_q s)")
  obtain w rs rq where r: "pc_drain (ud_recv_q s) = (w, rs, rq)" by (cases "pc_drain (ud_recv_q s)")
  obtain w2 ss sq where q: "pc_drain (ud_send_q s) = (w2, ss, sq)" by (cases "pc_drain (ud_send_q s)")
  have ok: "pcq_inv (ud_recv_q s)" "pcq_inv (ud_send_q s)" "lq_inv (ud_pending_recv s)" "lq_room (ud_pending_recv s) = 1023"
    "lq_inv (ud_ready_q s)" "lq_room (ud_ready_q s) = 1023" using inv by (simp_all add: ud_account)
  note items = pc_drain_items [OF ok(1) r] pc_drain_items [OF ok(2) q] lq_drain_all [OF ok(3,4) p] lq_drain_all [OF ok(5,6) d]
  have none: "delivered (as @ map (\<lambda>cb. (cb, Recv_Shutdown)) cbs) = delivered as" for as and cbs :: "nat list"
    by (induction cbs arbitrary: as) (simp_all add: delivered_def map_filter_def)
  have none2: "delivered (as @ map (\<lambda>cb. (cb, Recv_Shutdown)) cs @ map (\<lambda>cb. (cb, Recv_Shutdown)) cbs) = delivered as"
    for as and cs cbs :: "nat list" using none [of "as @ map (\<lambda>cb. (cb, Recv_Shutdown)) cs" cbs] none [of as cs] by simp
  have sub: "subseq (delivered (ud_recv_answers s)) (ud_received s)"
    using inv subseq_order.order_trans [of "delivered (ud_recv_answers s)" "delivered (ud_recv_answers s) @ lq_contents (ud_ready_q s)"]
    by (auto simp: ud_account)
  show ?thesis using inv items sub
    by (simp add: ud_drain_on_shutdown_def p d r q answer_folds none none2 ud_account multiset.map_comp comp_def ac_simps)
qed

lemma ud_advance_inv:
  assumes inv: "ud_inv_with {#} {#} s"
  shows "ud_inv_with {#} {#} (snd (ud_advance k events s))"
proof (cases "ud_shutdown s")
  case False
  let ?s = "ud_drain_send_q k (ud_drain_recv_q s)"
  obtain ds w t where a: "dg_advance events (ud_transport ?s) = (ds, w, t)" by (cases "dg_advance events (ud_transport ?s)")
  have "ud_inv_with {#} {#} ?s" by (intro ud_drain_send_q_inv ud_drain_recv_q_inv inv)
  then have "ud_inv_with {#} {#} (?s\<lparr>ud_transport := t\<rparr>)" by (simp add: ud_account)
  then have "ud_inv_with {#} {#} (fold ud_on_recv ds (?s\<lparr>ud_transport := t\<rparr>))" by (rule ud_on_recvs_inv)
  with flush_pending_sends_inv show ?thesis using False by (simp add: ud_advance_def a Let_def)
qed (use ud_drain_on_shutdown_inv [OF inv] in \<open>simp add: ud_advance_def\<close>)

lemma ud_reach_inv: "ud_reach ab k s0 s \<Longrightarrow> ud_inv_with {#} {#} s0 \<Longrightarrow> ud_inv_with {#} {#} s"
proof (induction rule: ud_reach.induct)
  case (ud_go s s')
  then have "ud_inv_with {#} {#} s" by blast
  with ud_go(2) show ?case
  proof cases
    case (ud_recv core cb)
    then show ?thesis using ud_schedule_inv [OF \<open>ud_inv_with {#} {#} s\<close>] by blast
  next
    case (ud_send core r)
    then show ?thesis using ud_schedule_inv [OF \<open>ud_inv_with {#} {#} s\<close>] by blast
  qed (use \<open>ud_inv_with {#} {#} s\<close> ud_advance_inv in \<open>auto simp: ud_shut_down_def ud_account\<close>)
qed

interpretation ur: request_contract "ud_reach ab k" "ud_inv_with {#} {#}" "\<lambda>s. mset (ud_recv_issued s)"
    "\<lambda>s. image_mset fst (mset (ud_recv_answers s))" "\<lambda>s. ud_recv_owed s + mset (ud_lost s)" for ab k
  by unfold_locales (erule (1) ud_reach_inv, simp add: ud_inv_with_def ac_simps)

interpretation us: request_contract "ud_reach ab k" "ud_inv_with {#} {#}" "\<lambda>s. mset (ud_send_issued s)"
    "\<lambda>s. image_mset fst (mset (ud_send_answers s))" ud_send_owed for ab k
  by unfold_locales (erule (1) ud_reach_inv, simp add: ud_inv_with_def)

lemma ud_new_inv: "ud_new depth = Some s \<Longrightarrow> depth \<noteq> 0 \<Longrightarrow> ud_inv_with {#} {#} s"
  using lq_new_inv [of "0 :: nat" 1024] lq_new_inv [of "([], 0) :: dgram" 1024]
  by (auto simp: ud_new_def ud_account delivered_def dest!: pc_new_items split: option.splits)

text \<open>C12: the UDP scheduler, whatever cores issue requests and whatever the network does: every receive
  request is answered once, is queued, waits, or was lost on a full ring, and every send request is
  answered once, queued or waiting for the socket; the datagrams given to requests and those still waiting
  are, in order, those the socket delivered but for the dropped ones; requests and datagrams never wait for
  each other; a request is only lost when 1023 wait already; and a turn after the shutdown answers all.\<close>

theorem udp_requests_answered_once:
  assumes "ud_new depth = Some s0" "depth \<noteq> 0" "ud_reach ab k s0 s"
  shows "image_mset fst (mset (ud_recv_answers s)) + ud_recv_owed s + mset (ud_lost s) = mset (ud_recv_issued s)
    \<and> image_mset fst (mset (ud_send_answers s)) + ud_send_owed s = mset (ud_send_issued s)
    \<and> subseq (delivered (ud_recv_answers s) @ lq_contents (ud_ready_q s)) (ud_received s)
    \<and> mset (delivered (ud_recv_answers s) @ lq_contents (ud_ready_q s)) + mset (ud_dropped s) = mset (ud_received s)
    \<and> (lq_contents (ud_pending_recv s) = [] \<or> lq_contents (ud_ready_q s) = [])
    \<and> (length (lq_contents (ud_pending_recv s)) < 1023 \<longrightarrow> ud_lost (ud_take_recv cb s) = ud_lost s)
    \<and> ud_recv_owed (snd (ud_advance k events (ud_shut_down s))) = {#} \<and> ud_send_owed (snd (ud_advance k events (ud_shut_down s))) = {#}"
proof -
  have inv: "ud_inv_with {#} {#} s" by (rule ud_reach_inv [OF assms(3) ud_new_inv [OF assms(1,2)]])
  then have "ud_inv_with {#} {#} (ud_shut_down s)" by (simp add: ud_shut_down_def ud_account)
  from ud_drain_on_shutdown_inv [OF this] have "ud_recv_owed (snd (ud_advance k events (ud_shut_down s))) = {#}
    \<and> ud_send_owed (snd (ud_advance k events (ud_shut_down s))) = {#}" by (simp add: ud_advance_def ud_shut_down_def)
  moreover have "ud_lost (ud_take_recv cb s) = ud_lost s" if room: "length (lq_contents (ud_pending_recv s)) < 1023"
  proof -
    have "lq_inv (ud_pending_recv s)" "lq_room (ud_pending_recv s) = 1023" using inv by (simp_all add: ud_account)
    then obtain p where "lq_try_enqueue cb (ud_pending_recv s) = (True, p)" using lq.enq_room [of "ud_pending_recv s" cb] room by auto
    then show ?thesis by (simp add: ud_take_recv_def recv_answer_def split: prod.split option.split)
  qed
  ultimately show ?thesis using inv by (simp add: ud_inv_with_def)
qed

text \<open>A receive request of core 0, and the shutdown.\<close>

theorem udp_requests_answered_once_witness:
  "\<exists>s0 s. ud_reach True (\<lambda>_. Msg_Again) s0 s \<and> ud_recv_issued s = [7]
     \<and> image_mset fst (mset (ud_recv_answers s)) + ud_recv_owed s + mset (ud_lost s) = {#7#}
     \<and> ud_recv_owed (snd (ud_advance (\<lambda>_. Msg_Again) [] (ud_shut_down s))) = {#}"
proof -
  have "lq_new (0 :: nat) 1024 \<noteq> None" "lq_new ([], 0 :: nat) 1024 \<noteq> (None :: dgram lqueue option)" by (simp_all add: lq_new_def)
  moreover have "pc_new (0 :: nat) 4 (- 1) \<noteq> None" "pc_new \<lparr>us_target = 0, us_frame = [], us_cb = 0\<rparr> 4 (- 1) \<noteq> None"
    by (simp_all add: pc_new_def lq_new_def sp_new_def)
  ultimately obtain s0 where s0: "ud_new 4 = Some s0" by (force simp: ud_new_def)
  then have f: "pcq_inv (ud_recv_q s0)" "pc_items (ud_recv_q s0) = []" "pc_capacity (ud_recv_q s0) = 4" "ud_recv_issued s0 = []"
    by (auto simp: ud_new_def dest!: pc_new_items split: option.splits)
  have c: "core_ok (ud_recv_q s0) 0" by (simp add: core_ok_def MAX_CORES_def)
  obtain q where q: "pc_try_enqueue True 0 7 (ud_recv_q s0) = (Pc_Ok, q)" using pc_enqueue_room [OF f(1) c, of True 7] f by auto
  let ?s = "s0\<lparr>ud_recv_q := q, ud_recv_issued := [7]\<rparr>"
  have "ud_schedule_recv True 0 7 s0 = Some ?s" by (simp add: ud_schedule_recv_def q f(4))
  then have r: "ud_reach True (\<lambda>_. Msg_Again) s0 ?s" by (intro ud_go [OF ud_start ud_recv [OF c]])
  show ?thesis using r udp_requests_answered_once [OF s0 _ r, of 0 "[]"] by (intro exI [of _ s0] exI [of _ ?s]) simp
qed

text \<open>What a full ring does: the 1024th waiting request is neither kept nor answered, the 1024th waiting datagram is dropped.\<close>

lemma receive_request_lost:
  assumes "ud_inv_with R S s" "lq_contents (ud_ready_q s) = []" "length (lq_contents (ud_pending_recv s)) = 1023"
  shows "ud_take_recv cb s = s\<lparr>ud_lost := ud_lost s @ [cb]\<rparr>"
proof -
  have i: "lq_inv (ud_ready_q s)" "lq_inv (ud_pending_recv s)" "lq_room (ud_pending_recv s) = 1023" using assms(1) by (simp_all add: ud_account)
  obtain q where "lq_try_dequeue (ud_ready_q s) = (None, q)" using lq.deq_none [OF i(1) assms(2)] by auto
  moreover obtain p where "lq_try_enqueue cb (ud_pending_recv s) = (False, p)" using lq.enq_full [OF i(2), of cb] assms(3) i(3) by auto
  ultimately show ?thesis by (simp add: ud_take_recv_def)
qed

end
