(* ===== verification/Tcp_Uring.thy ===== *)
theory Tcp_Uring
  imports Tcp_Epoll Tcp_Accept
begin

section \<open>The io_uring schedulers of TCP\<close>

text \<open>
  \<^verbatim>\<open>src/env/scheduler/net/tcp/io_uring/scheduler.hh\<close>. The queues, the requests and the
  shutdown of \<open>session_scheduler\<close> are those of the epoll scheduler, so its state holds an
  \<open>epoll_sched\<close>; reads and writes are submitted to a ring and complete later, in any order.
  \<open>tu_flight\<close> lists the submitted operations. The kernel is a parameter: whether
  \<^verbatim>\<open>io_uring_get_sqe\<close> finds a free entry is a function of a call counter, the completions
  of a turn are an argument. \<open>None\<close> is a null entry written to. The buffer space of a read
  is read off at its completion, which is the space at its submission as long as a session
  has one read in flight.
\<close>

datatype uring_req = U_Read nat | U_Write sched_send

text \<open>The completed operation by its place in \<open>tu_flight\<close>, the result, and the bytes of a read.\<close>

record uring_cqe =
  cq_req :: nat
  cq_res :: int
  cq_bytes :: "byte list"

record uring_sched =
  tu_core :: epoll_sched
  tu_flight :: "uring_req list"

definition tu_new :: "u64 \<Rightarrow> (nat \<Rightarrow> tcp_session) \<Rightarrow> uring_sched option" where
  "tu_new depth sessions = (case es_new depth sessions of Some s \<Rightarrow> Some \<lparr>tu_core = s, tu_flight = []\<rparr> | None \<Rightarrow> None)"

definition on_core :: "(epoll_sched \<Rightarrow> epoll_sched) \<Rightarrow> uring_sched \<Rightarrow> uring_sched" where
  "on_core f s = s\<lparr>tu_core := f (tu_core s)\<rparr>"

text \<open>One call of \<^verbatim>\<open>io_uring_get_sqe\<close>, and the submission of an operation on the entry.\<close>

definition tu_submit :: "(nat \<Rightarrow> bool) \<Rightarrow> uring_req \<Rightarrow> uring_sched \<Rightarrow> bool \<times> uring_sched" where
  "tu_submit sqe r s =
     (let s1 = on_core (\<lambda>c. c\<lparr>es_calls := Suc (es_calls c)\<rparr>) s in
      if sqe (es_calls (tu_core s)) then (True, s1\<lparr>tu_flight := tu_flight s1 @ [r]\<rparr>) else (False, s1))"

definition submit_read :: "(nat \<Rightarrow> bool) \<Rightarrow> nat \<Rightarrow> uring_sched \<Rightarrow> uring_sched option" where
  "submit_read sqe p s = (let (ok, s1) = tu_submit sqe (U_Read p) s in if ok then Some s1 else None)"

definition tu_handle_join :: "(nat \<Rightarrow> bool) \<Rightarrow> session_req \<Rightarrow> uring_sched \<Rightarrow> uring_sched option" where
  "tu_handle_join sqe r s =
     (case sq_session r of
        None \<Rightarrow> Some (on_core (es_answer (sq_cb r) False) s)
      | Some p \<Rightarrow>
          if \<not> session_usable (Some p) (tu_core s) then Some (on_core (es_answer (sq_cb r) False) s)
          else map_option (on_core (es_answer (sq_cb r) True)) (submit_read sqe p s))"

fun tu_joins :: "(nat \<Rightarrow> bool) \<Rightarrow> session_req list \<Rightarrow> uring_sched \<Rightarrow> uring_sched option" where
  "tu_joins sqe [] s = Some s"
| "tu_joins sqe (r # rs) s = Option.bind (tu_handle_join sqe r s) (tu_joins sqe rs)"

definition handle_join_request :: "(nat \<Rightarrow> bool) \<Rightarrow> uring_sched \<Rightarrow> uring_sched option" where
  "handle_join_request sqe s =
     (let (_, rs, q) = pc_drain (es_join_q (tu_core s)) in tu_joins sqe rs (on_core (\<lambda>c. c\<lparr>es_join_q := q\<rparr>) s))"

definition tu_handle_stop :: "session_req \<Rightarrow> uring_sched \<Rightarrow> uring_sched" where
  "tu_handle_stop r s =
     (case sq_session r of
        None \<Rightarrow> on_core (es_answer (sq_cb r) False) s
      | Some p \<Rightarrow>
          if \<not> session_usable (Some p) (tu_core s) then on_core (es_answer (sq_cb r) False) s
          else on_core (es_answer (sq_cb r) True \<circ> on_session p handle_session_error) s)"

definition handle_stop_request :: "uring_sched \<Rightarrow> uring_sched" where
  "handle_stop_request s =
     (let (_, rs, q) = pc_drain (es_stop_q (tu_core s)) in fold tu_handle_stop rs (on_core (\<lambda>c. c\<lparr>es_stop_q := q\<rparr>) s))"

text \<open>The loop over \<open>send_list\<close>: what no entry was found for stays.\<close>

fun submit_writes :: "(nat \<Rightarrow> bool) \<Rightarrow> sched_send list \<Rightarrow> uring_sched \<Rightarrow> sched_send list \<times> uring_sched" where
  "submit_writes sqe [] s = ([], s)"
| "submit_writes sqe (r # rs) s =
     (let (ok, s1) = tu_submit sqe (U_Write r) s in if ok then submit_writes sqe rs s1 else (r # rs, s1))"

definition tu_handle_send_request :: "(nat \<Rightarrow> bool) \<Rightarrow> uring_sched \<Rightarrow> uring_sched" where
  "tu_handle_send_request sqe s =
     (let (_, rs, q) = pc_drain (es_send_q (tu_core s));
          (kept, s1) = submit_writes sqe (es_send_list (tu_core s) @ rs) (on_core (\<lambda>c. c\<lparr>es_send_q := q\<rparr>) s) in
      on_core (\<lambda>c. c\<lparr>es_send_list := kept\<rparr>) s1)"

subsection \<open>Completions\<close>

text \<open>The end of a session's reading, after an error and after the end of the stream.\<close>

definition read_failed :: "nat \<Rightarrow> uring_sched \<Rightarrow> uring_sched" where
  "read_failed p = on_core (on_session p (ts_broadcast Read_End \<circ> handle_session_error))"

definition on_read_event :: "nat \<Rightarrow> byte list \<Rightarrow> uring_sched \<Rightarrow> uring_sched option" where
  "on_read_event p bs s =
     (let t = es_sessions (tu_core s) p in
      map_option (\<lambda>t'. on_core (on_session p (\<lambda>_. t')) s) (ts_on_recv (of_nat (length bs)) (t\<lparr>ts_buf := pb_readv bs (ts_buf t)\<rparr>)))"

definition on_write_event :: "sched_send \<Rightarrow> nat \<Rightarrow> uring_sched \<Rightarrow> uring_sched" where
  "on_write_event r res s =
     on_core (\<lambda>c. es_answer (ss_cb r) (res = send_len r)
       (if 0 \<le> sr_fd r then c\<lparr>es_wire := es_wire c @ [(sr_fd r, take res (send_bytes (send_req.truncate r)))]\<rparr> else c)) s"

definition process_err :: "uring_req \<Rightarrow> uring_sched \<Rightarrow> uring_sched" where
  "process_err u s = (case u of U_Read p \<Rightarrow> read_failed p s | U_Write r \<Rightarrow> on_core (es_answer (ss_cb r) False) s)"

text \<open>A read of the bytes \<open>bs\<close>; none is the end of the stream (or no space in the buffer).\<close>

definition process_read :: "(nat \<Rightarrow> bool) \<Rightarrow> nat \<Rightarrow> byte list \<Rightarrow> uring_sched \<Rightarrow> uring_sched option" where
  "process_read sqe p bs s =
     (if bs = [] then Some (read_failed p s)
      else Option.bind (on_read_event p bs s) (\<lambda>s1.
        if session_usable (Some p) (tu_core s1) then submit_read sqe p s1
        else Some (on_core (on_session p (ts_broadcast Read_End)) s1)))"

definition read_space :: "nat \<Rightarrow> uring_sched \<Rightarrow> nat" where
  "read_space p s = sum_list (map (unat \<circ> snd) (make_iovec (ts_buf (es_sessions (tu_core s) p))))"

definition process_cqe :: "(nat \<Rightarrow> bool) \<Rightarrow> uring_req \<Rightarrow> uring_cqe \<Rightarrow> uring_sched \<Rightarrow> uring_sched option" where
  "process_cqe sqe u e s = (case u of
       U_Read p \<Rightarrow> process_read sqe p (take (min (nat (cq_res e)) (read_space p s)) (cq_bytes e)) s
     | U_Write r \<Rightarrow> Some (on_write_event r (min (nat (cq_res e)) (send_len r)) s))"

fun handle_io :: "(nat \<Rightarrow> bool) \<Rightarrow> uring_cqe list \<Rightarrow> uring_sched \<Rightarrow> uring_sched option" where
  "handle_io sqe [] s = Some s"
| "handle_io sqe (e # es) s =
     (if cq_req e < length (tu_flight s) then
        (let u = tu_flight s ! cq_req e; s1 = s\<lparr>tu_flight := drop_at (cq_req e) (tu_flight s)\<rparr> in
         Option.bind (if 0 \<le> cq_res e then process_cqe sqe u e s1 else Some (process_err u s1)) (handle_io sqe es))
      else handle_io sqe es s)"

definition tu_advance :: "(nat \<Rightarrow> bool) \<Rightarrow> uring_cqe list \<Rightarrow> uring_sched \<Rightarrow> (bool \<times> uring_sched) option" where
  "tu_advance sqe es s =
     (if es_shutdown (tu_core s) then Some (False, on_core drain_on_shutdown s)
      else Option.bind (handle_join_request sqe s) (\<lambda>s1.
        map_option (Pair True) (handle_io sqe es (tu_handle_send_request sqe (handle_stop_request s1)))))"

text \<open>Requests are scheduled as in the epoll scheduler; the application uses its sessions between turns.\<close>

inductive tu_step :: "bool \<Rightarrow> (nat \<Rightarrow> bool) \<Rightarrow> uring_sched \<Rightarrow> uring_sched \<Rightarrow> bool" for ab sqe where
  tu_join: "core_ok (es_join_q (tu_core s)) core \<Longrightarrow> schedule_join ab core r (tu_core s) = Some c \<Longrightarrow> tu_step ab sqe s (s\<lparr>tu_core := c\<rparr>)"
| tu_stop: "core_ok (es_stop_q (tu_core s)) core \<Longrightarrow> schedule_stop ab core r (tu_core s) = Some c \<Longrightarrow> tu_step ab sqe s (s\<lparr>tu_core := c\<rparr>)"
| tu_send: "core_ok (es_send_q (tu_core s)) core \<Longrightarrow> schedule_send ab core sr (tu_core s) = Some c \<Longrightarrow> tu_step ab sqe s (s\<lparr>tu_core := c\<rparr>)"
| tu_shut: "tu_step ab sqe s (on_core es_shut_down s)"
| tu_app: "tu_step ab sqe s (on_core (\<lambda>c. c\<lparr>es_sessions := sessions\<rparr>) s)"
| tu_turn: "tu_advance sqe es s = Some (alive, s') \<Longrightarrow> tu_step ab sqe s s'"

inductive tu_reach :: "bool \<Rightarrow> (nat \<Rightarrow> bool) \<Rightarrow> uring_sched \<Rightarrow> uring_sched \<Rightarrow> bool" for ab sqe s0 where
  tu_start: "tu_reach ab sqe s0 s0"
| tu_go: "tu_reach ab sqe s0 s \<Longrightarrow> tu_step ab sqe s s' \<Longrightarrow> tu_reach ab sqe s0 s'"

subsection \<open>Accounting\<close>

fun u_write :: "uring_req \<Rightarrow> sched_send list" where
  "u_write (U_Write r) = [r]"
| "u_write (U_Read p) = []"

definition writing :: "uring_sched \<Rightarrow> nat multiset" where
  "writing s = image_mset ss_cb (mset (concat (map u_write (tu_flight s))))"

definition tu_inv :: "uring_sched \<Rightarrow> bool" where
  "tu_inv s \<longleftrightarrow> pcq_inv (es_join_q (tu_core s)) \<and> pcq_inv (es_stop_q (tu_core s)) \<and> pcq_inv (es_send_q (tu_core s))
     \<and> es_answered (tu_core s) + es_owed (tu_core s) + writing s = mset (es_issued (tu_core s))"

text \<open>Between \<open>s\<close> and \<open>s'\<close> the requests \<open>cbs\<close> are answered, the writes in flight grow by \<open>w\<close>, and the queues stay.\<close>

definition tu_answers :: "nat multiset \<Rightarrow> nat multiset \<Rightarrow> uring_sched \<Rightarrow> uring_sched \<Rightarrow> bool" where
  "tu_answers cbs w s s' \<longleftrightarrow> answers_only cbs (tu_core s) (tu_core s') \<and> writing s' = writing s + w"

lemma tu_answers_trans: "tu_answers a v s s1 \<Longrightarrow> tu_answers b w s1 s2 \<Longrightarrow> tu_answers (a + b) (v + w) s s2"
  by (auto simp: tu_answers_def intro: answers_only_trans)

lemma tu_answers_refl [simp]: "tu_answers {#} {#} s s"
  by (simp add: tu_answers_def)

lemma on_core_answers: "answers_only cbs (tu_core s) (f (tu_core s)) \<Longrightarrow> tu_answers cbs {#} s (on_core f s)"
  by (simp add: tu_answers_def on_core_def writing_def)

lemma calls_only [simp]: "answers_only {#} c (c\<lparr>es_calls := n\<rparr>)"
  by (simp add: answers_only_def es_answered_def)

lemma tu_submit_answers:
  "tu_submit sqe r s = (ok, s') \<Longrightarrow> tu_answers {#} (if ok then image_mset ss_cb (mset (u_write r)) else {#}) s s'"
  by (auto simp: tu_submit_def Let_def tu_answers_def on_core_def writing_def split: if_splits)

lemma submit_read_answers: "submit_read sqe p s = Some s' \<Longrightarrow> tu_answers {#} {#} s s'"
  using tu_submit_answers [of sqe "U_Read p" s] by (fastforce simp: submit_read_def split: prod.splits if_splits)

lemma tu_handle_join_answers: "tu_handle_join sqe r s = Some s' \<Longrightarrow> tu_answers {#sq_cb r#} {#} s s'"
proof -
  assume j: "tu_handle_join sqe r s = Some s'"
  have a: "tu_answers {#sq_cb r#} {#} t (on_core (es_answer (sq_cb r) ok) t)" for t ok by (rule on_core_answers) (rule es_answer_only)
  show ?thesis
  proof (cases "\<exists>p t. submit_read sqe p s = Some t \<and> s' = on_core (es_answer (sq_cb r) True) t")
    case True
    then obtain p t where "submit_read sqe p s = Some t" "s' = on_core (es_answer (sq_cb r) True) t" by blast
    with tu_answers_trans [OF submit_read_answers a] show ?thesis by fastforce
  next
    case False
    with j a show ?thesis by (auto simp: tu_handle_join_def split: option.splits if_splits)
  qed
qed

lemma tu_joins_answers: "tu_joins sqe rs s = Some s' \<Longrightarrow> tu_answers (image_mset sq_cb (mset rs)) {#} s s'"
proof (induction rs arbitrary: s)
  case (Cons r rs)
  then obtain t where "tu_handle_join sqe r s = Some t" "tu_joins sqe rs t = Some s'" by (auto split: Option.bind_splits)
  from tu_answers_trans [OF tu_handle_join_answers [OF this(1)] Cons.IH [OF this(2)]] show ?case by simp
qed simp

lemma tu_handle_stop_answers: "tu_answers {#sq_cb r#} {#} s (tu_handle_stop r s)"
proof -
  have "answers_only {#sq_cb r#} c (es_answer (sq_cb r) ok (on_session p f c))" for c ok p f
    by (simp add: answers_only_def es_answer_def es_answered_def on_session_def)
  then show ?thesis using es_answer_only by (auto simp: tu_handle_stop_def intro!: on_core_answers split: option.split)
qed

lemma tu_stops_answers: "tu_answers (image_mset sq_cb (mset rs)) {#} s (fold tu_handle_stop rs s)"
proof (induction rs arbitrary: s)
  case (Cons r rs)
  from tu_answers_trans [OF tu_handle_stop_answers [of r s] Cons.IH [of "tu_handle_stop r s"]] show ?case by simp
qed simp

lemma submit_writes_answers:
  "submit_writes sqe rs s = (kept, s') \<Longrightarrow> \<exists>w. tu_answers {#} w s s' \<and> w + image_mset ss_cb (mset kept) = image_mset ss_cb (mset rs)"
proof (induction rs arbitrary: s)
  case (Cons r rs)
  obtain ok t where t: "tu_submit sqe (U_Write r) s = (ok, t)" by (cases "tu_submit sqe (U_Write r) s")
  note a = tu_submit_answers [OF t]
  show ?case
  proof (cases ok)
    case True
    with Cons.IH [of t] Cons.prems t obtain w where w: "tu_answers {#} w t s'" "w + image_mset ss_cb (mset kept) = image_mset ss_cb (mset rs)" by auto
    with tu_answers_trans [OF a w(1)] True show ?thesis by (intro exI [of _ "add_mset (ss_cb r) w"]) simp
  next
    case False
    with a Cons.prems t show ?thesis by (intro exI [of _ "{#}"]) auto
  qed
qed (auto intro: exI [of _ "{#}"])

lemma handle_join_request_inv:
  assumes inv: "tu_inv s" and h: "handle_join_request sqe s = Some s'"
  shows "tu_inv s' \<and> es_shutdown (tu_core s') = es_shutdown (tu_core s)"
proof -
  obtain w rs q where d: "pc_drain (es_join_q (tu_core s)) = (w, rs, q)" by (cases "pc_drain (es_join_q (tu_core s))")
  note q = pc_drain_items [OF _ d]
  have "tu_answers (image_mset sq_cb (mset rs)) {#} (on_core (\<lambda>c. c\<lparr>es_join_q := q\<rparr>) s) s'"
    by (rule tu_joins_answers) (use h in \<open>simp add: handle_join_request_def d\<close>)
  with q inv show ?thesis by (simp add: tu_answers_def answers_only_def tu_inv_def es_account on_core_def writing_def ac_simps)
qed

lemma handle_stop_request_inv: "tu_inv s \<Longrightarrow> tu_inv (handle_stop_request s)"
proof -
  assume inv: "tu_inv s"
  obtain w rs q where d: "pc_drain (es_stop_q (tu_core s)) = (w, rs, q)" by (cases "pc_drain (es_stop_q (tu_core s))")
  note q = pc_drain_items [OF _ d]
  have "tu_answers (image_mset sq_cb (mset rs)) {#} (on_core (\<lambda>c. c\<lparr>es_stop_q := q\<rparr>) s) (handle_stop_request s)"
    using tu_stops_answers [of rs "on_core (\<lambda>c. c\<lparr>es_stop_q := q\<rparr>) s"] by (simp add: handle_stop_request_def d)
  with q inv show ?thesis by (simp add: tu_answers_def answers_only_def tu_inv_def es_account on_core_def writing_def ac_simps)
qed

lemma tu_handle_send_request_inv: "tu_inv s \<Longrightarrow> tu_inv (tu_handle_send_request sqe s)"
proof -
  assume inv: "tu_inv s"
  obtain w rs q where d: "pc_drain (es_send_q (tu_core s)) = (w, rs, q)" by (cases "pc_drain (es_send_q (tu_core s))")
  note q = pc_drain_items [OF _ d]
  let ?s = "on_core (\<lambda>c. c\<lparr>es_send_q := q\<rparr>) s"
  obtain kept t where p: "submit_writes sqe (es_send_list (tu_core s) @ rs) ?s = (kept, t)"
    by (cases "submit_writes sqe (es_send_list (tu_core s) @ rs) ?s")
  from submit_writes_answers [OF this] obtain v where v: "tu_answers {#} v ?s t"
    "image_mset ss_cb (mset (es_send_list (tu_core s) @ rs)) = v + image_mset ss_cb (mset kept)" by metis
  have r: "tu_handle_send_request sqe s = on_core (\<lambda>c. c\<lparr>es_send_list := kept\<rparr>) t" by (simp add: tu_handle_send_request_def d p)
  let ?jt = "image_mset sq_cb (mset (pc_items (es_join_q (tu_core s)))) + image_mset sq_cb (mset (pc_items (es_stop_q (tu_core s))))"
  have items: "rs = pc_items (es_send_q (tu_core s))" "pcq_inv q" "pc_items q = []" using q inv by (simp_all add: tu_inv_def)
  have "es_owed (tu_core s) = ?jt + image_mset ss_cb (mset (es_send_list (tu_core s) @ rs))" by (simp add: es_owed_def items ac_simps)
  also have "\<dots> = ?jt + (v + image_mset ss_cb (mset kept))" by (simp only: v(2))
  finally have owed: "es_owed (tu_core s) = ?jt + (v + image_mset ss_cb (mset kept))" .
  have "es_owed ((tu_core t)\<lparr>es_send_list := kept\<rparr>) = ?jt + image_mset ss_cb (mset kept)"
    using v(1) by (simp add: es_owed_def tu_answers_def answers_only_def on_core_def items)
  with owed v(1) inv items show ?thesis
    by (simp add: r tu_inv_def tu_answers_def answers_only_def on_core_def writing_def es_answered_def ac_simps)
qed

text \<open>A completion answers the write it is for, and never needs more than one free entry.\<close>

lemma read_failed_answers: "tu_answers {#} {#} s (read_failed p s)"
  by (simp add: read_failed_def on_core_answers)

lemma process_err_answers: "tu_answers (image_mset ss_cb (mset (u_write u))) {#} s (process_err u s)"
  by (cases u) (auto simp: process_err_def read_failed_answers intro!: on_core_answers es_answer_only)

lemma process_read_answers: "process_read sqe p bs s = Some s' \<Longrightarrow> tu_answers {#} {#} s s'"
proof (cases "bs = [] \<or> on_read_event p bs s = None")
  case True
  assume "process_read sqe p bs s = Some s'"
  with True read_failed_answers [of s p] show ?thesis by (auto simp: process_read_def split: if_splits)
next
  case False
  assume r: "process_read sqe p bs s = Some s'"
  from False obtain s1 where s1: "on_read_event p bs s = Some s1" by blast
  have a: "tu_answers {#} {#} s s1" using s1 by (auto simp: on_read_event_def Let_def intro!: on_core_answers)
  have "tu_answers {#} {#} s1 (on_core (on_session p (ts_broadcast Read_End)) s1)" by (rule on_core_answers) simp
  then have "tu_answers {#} {#} s1 s'" using r s1 False submit_read_answers by (auto simp: process_read_def split: if_splits)
  from tu_answers_trans [OF a this] show ?thesis by simp
qed

lemma process_cqe_answers: "process_cqe sqe u e s = Some s' \<Longrightarrow> tu_answers (image_mset ss_cb (mset (u_write u))) {#} s s'"
proof (cases u)
  case (U_Write r)
  assume "process_cqe sqe u e s = Some s'"
  with U_Write show ?thesis
    by (auto simp: process_cqe_def on_write_event_def intro!: on_core_answers) (simp_all add: answers_only_def es_answer_def es_answered_def)
next
  case (U_Read p)
  assume "process_cqe sqe u e s = Some s'"
  with U_Read process_read_answers show ?thesis by (auto simp: process_cqe_def)
qed

lemma writing_drop:
  assumes "i < length (tu_flight s)"
  shows "writing s = image_mset ss_cb (mset (u_write (tu_flight s ! i))) + writing (s\<lparr>tu_flight := drop_at i (tu_flight s)\<rparr>)"
proof -
  let ?f = "tu_flight s"
  have "concat (map u_write ?f) = concat (map u_write (take i ?f @ ?f ! i # drop (Suc i) ?f))" using id_take_nth_drop [OF assms] by simp
  then show ?thesis by (simp add: writing_def drop_at_def ac_simps)
qed

lemma tu_answers_inv:
  assumes inv: "tu_inv s" and i: "i < length (tu_flight s)"
    and a: "tu_answers (image_mset ss_cb (mset (u_write (tu_flight s ! i)))) {#} (s\<lparr>tu_flight := drop_at i (tu_flight s)\<rparr>) s'"
  shows "tu_inv s'"
  using inv a writing_drop [OF i] by (simp add: tu_inv_def tu_answers_def answers_only_def es_owed_def ac_simps)

lemma handle_io_inv: "handle_io sqe es s = Some s' \<Longrightarrow> tu_inv s \<Longrightarrow> tu_inv s'"
proof (induction es arbitrary: s)
  case (Cons e es)
  show ?case
  proof (cases "cq_req e < length (tu_flight s)")
    case True
    let ?u = "tu_flight s ! cq_req e" and ?s1 = "s\<lparr>tu_flight := drop_at (cq_req e) (tu_flight s)\<rparr>"
    obtain t where t: "(if 0 \<le> cq_res e then process_cqe sqe ?u e ?s1 else Some (process_err ?u ?s1)) = Some t" "handle_io sqe es t = Some s'"
      using Cons.prems(1) True by (auto simp: Let_def split: Option.bind_splits)
    have "tu_answers (image_mset ss_cb (mset (u_write ?u))) {#} ?s1 t"
      using t(1) process_cqe_answers process_err_answers by (auto split: if_splits)
    from tu_answers_inv [OF Cons.prems(2) True this] Cons.IH [OF t(2)] show ?thesis by blast
  qed (use Cons in simp)
qed simp

lemma tu_advance_inv:
  assumes inv: "tu_inv s" and a: "tu_advance sqe es s = Some (alive, s')"
  shows "tu_inv s'"
proof (cases "es_shutdown (tu_core s)")
  case True
  then have "s' = on_core drain_on_shutdown s" using a by (simp add: tu_advance_def)
  with drain_on_shutdown_answers [of "tu_core s"] inv show ?thesis by (simp add: tu_inv_def on_core_def writing_def)
next
  case False
  then obtain s1 where s1: "handle_join_request sqe s = Some s1" "handle_io sqe es (tu_handle_send_request sqe (handle_stop_request s1)) = Some s'"
    using a by (auto simp: tu_advance_def split: Option.bind_splits)
  from handle_join_request_inv [OF inv s1(1)] have "tu_inv s1" by blast
  then show ?thesis using handle_io_inv [OF s1(2)] handle_stop_request_inv tu_handle_send_request_inv by blast
qed

text \<open>The requests of other cores: the epoll scheduler's lemma, with the writes in flight put behind the list of sends.\<close>

definition padded :: "uring_sched \<Rightarrow> epoll_sched" where
  "padded s = (tu_core s)\<lparr>es_send_list := es_send_list (tu_core s) @ concat (map u_write (tu_flight s))\<rparr>"

lemma padded_inv: "es_inv (padded s) = tu_inv s"
  by (simp add: padded_def tu_inv_def es_account writing_def ac_simps)

lemma schedule_padded:
  "schedule_join ab core r (c\<lparr>es_send_list := L\<rparr>) = map_option (\<lambda>c'. c'\<lparr>es_send_list := L\<rparr>) (schedule_join ab core r c)"
  "schedule_stop ab core r (c\<lparr>es_send_list := L\<rparr>) = map_option (\<lambda>c'. c'\<lparr>es_send_list := L\<rparr>) (schedule_stop ab core r c)"
  "schedule_send ab core sr (c\<lparr>es_send_list := L\<rparr>) = map_option (\<lambda>c'. c'\<lparr>es_send_list := L\<rparr>) (schedule_send ab core sr c)"
  by (auto simp: schedule_join_def schedule_stop_def schedule_send_def issue_def es_answer_def Let_def split: prod.split pc_result.split)

lemma schedule_keeps_list:
  "schedule_join ab core r c = Some c' \<Longrightarrow> es_send_list c' = es_send_list c"
  "schedule_stop ab core r c = Some c' \<Longrightarrow> es_send_list c' = es_send_list c"
  "schedule_send ab core sr c = Some c' \<Longrightarrow> es_send_list c' = es_send_list c"
  by (auto simp: schedule_join_def schedule_stop_def schedule_send_def issue_def es_answer_def Let_def split: prod.splits pc_result.splits)

lemma tu_step_inv: "tu_step ab sqe s s' \<Longrightarrow> tu_inv s \<Longrightarrow> tu_inv s'"
proof (induction rule: tu_step.induct)
  case (tu_join s core r c)
  then have "schedule_join ab core r (padded s) = Some (padded (s\<lparr>tu_core := c\<rparr>))"
    by (simp add: padded_def schedule_padded schedule_keeps_list)
  moreover have "core_ok (es_join_q (padded s)) core" using tu_join(1) by (simp add: padded_def)
  ultimately have "es_inv (padded (s\<lparr>tu_core := c\<rparr>))" using arrive_keeps_inv [of "padded s"] tu_join(3) padded_inv by blast
  then show ?case by (simp only: padded_inv)
next
  case (tu_stop s core r c)
  then have "schedule_stop ab core r (padded s) = Some (padded (s\<lparr>tu_core := c\<rparr>))"
    by (simp add: padded_def schedule_padded schedule_keeps_list)
  moreover have "core_ok (es_stop_q (padded s)) core" using tu_stop(1) by (simp add: padded_def)
  ultimately have "es_inv (padded (s\<lparr>tu_core := c\<rparr>))" using arrive_keeps_inv [of "padded s"] tu_stop(3) padded_inv by blast
  then show ?case by (simp only: padded_inv)
next
  case (tu_send s core sr c)
  then have "schedule_send ab core sr (padded s) = Some (padded (s\<lparr>tu_core := c\<rparr>))"
    by (simp add: padded_def schedule_padded schedule_keeps_list)
  moreover have "core_ok (es_send_q (padded s)) core" using tu_send(1) by (simp add: padded_def)
  ultimately have "es_inv (padded (s\<lparr>tu_core := c\<rparr>))" using arrive_keeps_inv [of "padded s"] tu_send(3) padded_inv by blast
  then show ?case by (simp only: padded_inv)
next
  case (tu_turn es s alive s')
  then show ?case using tu_advance_inv by blast
qed (simp_all add: tu_inv_def on_core_def es_shut_down_def es_owed_def es_answered_def writing_def)

lemma tu_reach_inv: "tu_reach ab sqe s0 s \<Longrightarrow> tu_inv s0 \<Longrightarrow> tu_inv s"
  by (induction rule: tu_reach.induct) (auto intro: tu_step_inv)

interpretation tu: request_contract "tu_reach ab sqe" tu_inv "\<lambda>s. mset (es_issued (tu_core s))"
    "\<lambda>s. es_answered (tu_core s)" "\<lambda>s. es_owed (tu_core s) + writing s" for ab sqe
  by unfold_locales (erule (1) tu_reach_inv, simp add: tu_inv_def ac_simps)

lemma tu_new_inv: "tu_new depth sessions = Some s \<Longrightarrow> depth \<noteq> 0 \<Longrightarrow> tu_inv s"
  using es_new_inv by (fastforce simp: tu_new_def tu_inv_def es_inv_def writing_def split: option.splits)

text \<open>While \<^verbatim>\<open>io_uring_get_sqe\<close> finds entries, a turn comes back.\<close>

lemma submit_read_total: "sqe (es_calls (tu_core s)) \<Longrightarrow> \<exists>s'. submit_read sqe p s = Some s'"
  by (simp add: submit_read_def tu_submit_def Let_def)

lemma tu_joins_total: "\<forall>n. sqe n \<Longrightarrow> \<exists>s'. tu_joins sqe rs s = Some s'"
proof (induction rs arbitrary: s)
  case (Cons r rs)
  have "\<exists>t. tu_handle_join sqe r s = Some t"
    using submit_read_total [of sqe s] Cons.prems by (auto simp: tu_handle_join_def split: option.split)
  with Cons show ?case by fastforce
qed simp

lemma process_read_total: "\<forall>n. sqe n \<Longrightarrow> \<exists>s'. process_read sqe p bs s = Some s'"
proof -
  assume sqe: "\<forall>n. sqe n"
  obtain s1 where "on_read_event p bs s = Some s1" using ts_on_recv_total by (fastforce simp: on_read_event_def Let_def)
  with submit_read_total [of sqe s1 p] sqe show ?thesis by (simp add: process_read_def)
qed

lemma handle_io_total: "\<forall>n. sqe n \<Longrightarrow> \<exists>s'. handle_io sqe es s = Some s'"
proof (induction es arbitrary: s)
  case (Cons e es)
  have "\<exists>s'. process_cqe sqe u e t = Some s'" for u t
    using process_read_total [OF Cons.prems] by (cases u) (simp_all add: process_cqe_def)
  then have "\<exists>s'. (if 0 \<le> cq_res e then process_cqe sqe u e t else Some (process_err u t)) = Some s'" for u t by simp
  then obtain t where "(if 0 \<le> cq_res e then process_cqe sqe (tu_flight s ! cq_req e) e (s\<lparr>tu_flight := drop_at (cq_req e) (tu_flight s)\<rparr>)
      else Some (process_err (tu_flight s ! cq_req e) (s\<lparr>tu_flight := drop_at (cq_req e) (tu_flight s)\<rparr>))) = Some t" by blast
  moreover have "\<exists>s'. handle_io sqe es t = Some s'" "\<exists>s'. handle_io sqe es s = Some s'" using Cons by blast+
  ultimately show ?case by (simp add: Let_def)
qed simp

text \<open>C10: every join, stop and send request given to the io_uring TCP scheduler is answered exactly once,
  still owed, or a write in flight, in every reachable state, whichever calls of \<^verbatim>\<open>io_uring_get_sqe\<close> find
  an entry (a write for which none is found waits in \<open>send_list\<close> and is owed); a turn after the shutdown
  always comes back and answers all but the writes in flight; and when \<^verbatim>\<open>io_uring_get_sqe\<close> always finds an
  entry, every turn comes back. (When it fails for a read, the scheduler writes to a null entry, see
  \<open>no_entry_crashes\<close> below.)\<close>

theorem tcp_uring_requests_answered_once:
  assumes "tu_new depth sessions = Some s0" "depth \<noteq> 0" "tu_reach ab sqe s0 s"
  shows "es_answered (tu_core s) + es_owed (tu_core s) + writing s = mset (es_issued (tu_core s))
    \<and> (es_shutdown (tu_core s) \<longrightarrow> (\<exists>alive s'. tu_advance sqe es s = Some (alive, s')
        \<and> es_answered (tu_core s') + writing s' = mset (es_issued (tu_core s'))))
    \<and> ((\<forall>n. sqe n) \<longrightarrow> (\<exists>alive s'. tu_advance sqe es s = Some (alive, s')))"
proof (intro conjI impI)
  have inv: "tu_inv s" using tu.settled assms(3) tu_new_inv [OF assms(1,2)] tu_reach_inv by blast
  then show "es_answered (tu_core s) + es_owed (tu_core s) + writing s = mset (es_issued (tu_core s))"
    by (simp add: tu_inv_def)
  {
    assume down: "es_shutdown (tu_core s)"
    then have a: "tu_advance sqe es s = Some (False, on_core drain_on_shutdown s)" by (simp add: tu_advance_def)
    have "es_owed (drain_on_shutdown (tu_core s)) = {#}"
      using drain_on_shutdown_answers [of "tu_core s"] inv by (auto simp: tu_inv_def)
    with tu_advance_inv [OF inv a] a show "\<exists>alive s'. tu_advance sqe es s = Some (alive, s')
        \<and> es_answered (tu_core s') + writing s' = mset (es_issued (tu_core s'))"
      by (auto simp: tu_inv_def on_core_def)
  }
  assume sqe: "\<forall>n. sqe n"
  obtain w rs q where "pc_drain (es_join_q (tu_core s)) = (w, rs, q)" by (cases "pc_drain (es_join_q (tu_core s))")
  then obtain s1 where "handle_join_request sqe s = Some s1"
    using tu_joins_total [OF sqe, of rs] by (fastforce simp: handle_join_request_def)
  moreover obtain s2 where "handle_io sqe es (tu_handle_send_request sqe (handle_stop_request s1)) = Some s2"
    using handle_io_total [OF sqe] by blast
  ultimately show "\<exists>alive s'. tu_advance sqe es s = Some (alive, s')" by (simp add: tu_advance_def)
qed

text \<open>A ring without a free entry: a send request of core 0 arrives, a turn keeps it in \<open>send_list\<close>, the
  scheduler is shut down, and the next turn answers it. With free entries a turn comes back.\<close>

theorem tcp_uring_requests_answered_once_witness:
  "\<exists>s0 s. tu_reach True (\<lambda>_. False) s0 s \<and> map ss_cb (es_send_list (tu_core s)) = [9] \<and> es_issued (tu_core s) = [9]
     \<and> es_answered (tu_core s) + es_owed (tu_core s) + writing s = {#9#}
     \<and> (\<exists>alive s'. tu_advance (\<lambda>_. False) [] s = Some (alive, s') \<and> es_answered (tu_core s') + writing s' = mset (es_issued (tu_core s')))
     \<and> (\<exists>alive s'. tu_advance (\<lambda>_. True) [] s0 = Some (alive, s'))"
proof -
  let ?r = "no_send\<lparr>ss_cb := 9\<rparr>" and ?no = "\<lambda>_ :: nat. False"
  let ?t = "ts_new 3 \<lparr>pb_data = [], pb_size = 0, pb_head = 0, pb_tail = 0\<rparr>"
  obtain c0 where c0: "es_new 4 (\<lambda>_. ?t) = Some c0"
    by (simp add: es_new_def pc_new_def lq_new_def sp_new_def)
  then have f: "pcq_inv (es_send_q c0)" "pc_items (es_send_q c0) = []" "pc_capacity (es_send_q c0) = 4" "es_issued c0 = []"
      "pcq_inv (es_join_q c0)" "pc_items (es_join_q c0) = []" "pcq_inv (es_stop_q c0)" "pc_items (es_stop_q c0) = []"
      "es_send_list c0 = []" "es_shutdown c0 = False"
    by (auto simp: es_new_def dest!: pc_new_items split: option.splits)
  then have c: "core_ok (es_send_q c0) 0" by (simp add: core_ok_def MAX_CORES_def)
  obtain q where q: "pc_try_enqueue True 0 ?r (es_send_q c0) = (Pc_Ok, q)" and qi: "pcq_inv q"
    using pc_enqueue_room [OF f(1) c, of True ?r] f by auto
  have "mset (pc_items q) = {#?r#}" using pc_try_enqueue_items [OF f(1) c q] f(2) by simp
  then have items: "pc_items q = [?r]" by simp
  let ?c1 = "c0\<lparr>es_send_q := q, es_issued := [9]\<rparr>"
  let ?start = "\<lparr>tu_core = c0, tu_flight = []\<rparr>" and ?s1 = "\<lparr>tu_core = ?c1, tu_flight = []\<rparr>"
  have s0: "tu_new 4 (\<lambda>_. ?t) = Some ?start" by (simp add: tu_new_def c0)
  have sent: "schedule_send True 0 ?r c0 = Some ?c1" unfolding schedule_send_def by (subst q) (simp add: issue_def f(4))
  obtain wj qj where dj: "pc_drain (es_join_q c0) = (wj, [], qj)"
    using pc_drain_items [OF f(5)] f(6) by (cases "pc_drain (es_join_q c0)") fastforce
  obtain wp qp where dp: "pc_drain (es_stop_q c0) = (wp, [], qp)"
    using pc_drain_items [OF f(7)] f(8) by (cases "pc_drain (es_stop_q c0)") fastforce
  obtain ws qs where ds: "pc_drain q = (ws, [?r], qs)"
    using pc_drain_items [OF qi] items by (cases "pc_drain q") fastforce
  let ?s2 = "\<lparr>tu_core = ?c1\<lparr>es_join_q := qj, es_stop_q := qp, es_send_q := qs, es_calls := Suc (es_calls c0), es_send_list := [?r]\<rparr>, tu_flight = []\<rparr>"
  have turn: "tu_advance ?no [] ?s1 = Some (True, ?s2)"
    by (simp add: tu_advance_def handle_join_request_def handle_stop_request_def tu_handle_send_request_def tu_submit_def
        dj dp ds f(9,10) on_core_def Let_def)
  let ?s = "on_core es_shut_down ?s2"
  have "tu_reach True ?no ?start (?start\<lparr>tu_core := ?c1\<rparr>)" using tu_go [OF tu_start tu_send [of ?start 0 True ?r ?c1 ?no]] c sent by simp
  then have "tu_reach True ?no ?start ?s1" by simp
  from tu_go [OF tu_go [OF this tu_turn [OF turn]] tu_shut] have r: "tu_reach True ?no ?start ?s" .
  note w = tcp_uring_requests_answered_once [OF s0 _ r, of "[]"]
  from w have "es_answered (tu_core ?s) + es_owed (tu_core ?s) + writing ?s = {#9#}"
    "\<exists>alive s'. tu_advance ?no [] ?s = Some (alive, s') \<and> es_answered (tu_core s') + writing s' = mset (es_issued (tu_core s'))"
    by (simp_all add: es_shut_down_def on_core_def)
  moreover have "\<exists>alive s'. tu_advance (\<lambda>_. True) [] ?start = Some (alive, s')"
    using tcp_uring_requests_answered_once [OF s0 _ tu_start [of True "\<lambda>_. True"], of "[]"] by simp
  moreover have "es_issued (tu_core ?s) = [9]" "map ss_cb (es_send_list (tu_core ?s)) = [9]" by (simp_all add: es_shut_down_def on_core_def)
  ultimately show ?thesis using r by (intro exI [of _ ?start] exI [of _ ?s] conjI)
qed

subsection \<open>What goes wrong\<close>

text \<open>A read is submitted without looking whether an entry was found.\<close>

lemma no_entry_crashes:
  "sq_session r = Some p \<Longrightarrow> session_usable (Some p) (tu_core s) \<Longrightarrow> \<not> sqe (es_calls (tu_core s)) \<Longrightarrow> tu_handle_join sqe r s = None"
  by (simp add: tu_handle_join_def submit_read_def tu_submit_def Let_def)

text \<open>After the shutdown completions are not looked at any more: the writes in flight are never answered.\<close>

lemma shutdown_leaves_writes: "es_shutdown (tu_core s) \<Longrightarrow> tu_advance sqe es s = Some (alive, s') \<Longrightarrow> tu_flight s' = tu_flight s"
  by (auto simp: tu_advance_def on_core_def)

text \<open>A session joined twice has two reads in flight into the same space, and both joins succeed.\<close>

lemma joined_twice:
  assumes "session_usable (Some p) (tu_core s)" "\<forall>n. sqe n"
  shows "\<exists>s'. tu_joins sqe [\<lparr>sq_session = Some p, sq_cb = a\<rparr>, \<lparr>sq_session = Some p, sq_cb = b\<rparr>] s = Some s'
    \<and> tu_flight s' = tu_flight s @ [U_Read p, U_Read p] \<and> es_answers (tu_core s') = es_answers (tu_core s) @ [(a, True), (b, True)]"
  using assms by (simp add: tu_handle_join_def submit_read_def tu_submit_def Let_def on_core_def es_answer_def session_usable_def)

subsection \<open>Accepting\<close>

text \<open>
  \<open>accept_scheduler\<close> differs from the epoll one in how descriptors arrive: one accept is in
  flight (\<open>ua_armed\<close>) and every completion submits the next. \<open>entries\<close> are the answers of
  \<^verbatim>\<open>io_uring_get_sqe\<close>, one for each completion.
\<close>

record uring_accept =
  ua_base :: accept_sched
  ua_armed :: bool

definition submit_accept :: "bool \<Rightarrow> uring_accept \<Rightarrow> uring_accept" where
  "submit_accept entry s = (if \<not> entry then s else s\<lparr>ua_armed := True\<rparr>)"

definition accept_completion :: "int \<times> bool \<Rightarrow> uring_accept \<Rightarrow> uring_accept" where
  "accept_completion e s =
     (let (res, entry) = e; s = s\<lparr>ua_armed := False\<rparr> in
      if res < 0 then submit_accept entry s
      else
        (let b = ua_base s; b = b\<lparr>ac_accepted := ac_accepted b @ [res]\<rparr>; (matched, b) = maybe_accept res b;
             b = (if matched then b
                  else (let (ok, q) = mpmc_enq res (ac_fd_q b); b = b\<lparr>ac_fd_q := q\<rparr> in
                        if ok then b else b\<lparr>ac_closed := ac_closed b @ [res]\<rparr>)) in
         submit_accept entry (s\<lparr>ua_base := b\<rparr>)))"

fun ua_handle_io_uring :: "(int \<times> bool) list \<Rightarrow> uring_accept \<Rightarrow> uring_accept" where
  "ua_handle_io_uring [] s = s"
| "ua_handle_io_uring (e # es) s = (if ua_armed s then ua_handle_io_uring es (accept_completion e s) else s)"

definition ua_advance :: "(int \<times> bool) list \<Rightarrow> uring_accept \<Rightarrow> bool \<times> uring_accept" where
  "ua_advance es s =
     (if ac_shutdown (ua_base s) then (False, s\<lparr>ua_base := ac_drain_on_shutdown (ua_base s)\<rparr>)
      else (True, ua_handle_io_uring es s))"

text \<open>A completion with a descriptor does to requests and descriptors what the epoll scheduler does.\<close>

lemma accept_completion_refines:
  "ua_base (accept_completion (res, entry) s) = (if 0 < res then handle_new_connections res (ua_base s) else ua_base s)" if "res \<noteq> 0"
  using that by (auto simp: accept_completion_def handle_new_connections_def submit_accept_def Let_def split: prod.split)

lemma ua_advance_inv:
  assumes "ac_inv (ua_base s)" "\<forall>e \<in> set es. fst e \<noteq> 0"
  shows "ac_inv (ua_base (snd (ua_advance es s)))"
proof -
  have "ac_inv (ua_base (ua_handle_io_uring es s))"
    using assms by (induction es s rule: ua_handle_io_uring.induct) (auto simp: accept_completion_refines handle_new_connections_inv)
  then show ?thesis using ac_drain_inv [OF assms(1)] by (simp add: ua_advance_def)
qed

text \<open>Once no entry is found, no connection is accepted any more.\<close>

lemma accepting_stops: "\<not> ua_armed (accept_completion (res, False) s)"
  "\<not> ua_armed s \<Longrightarrow> ua_handle_io_uring es s = s"
  by (auto simp: accept_completion_def submit_accept_def Let_def split: prod.split) (cases es; simp)

subsection \<open>Connecting\<close>

text \<open>
  \<^verbatim>\<open>io_uring/connect_scheduler.hh\<close> on the state of the epoll one: every connect is submitted
  to the ring and its completion names its entry of \<open>cn_pending\<close>. \<open>sock\<close> is the result of
  \<^verbatim>\<open>socket\<close>, \<open>entry\<close> says whether an entry of the ring was free.
\<close>

definition uc_initiate_connect :: "nat \<Rightarrow> int \<Rightarrow> bool \<Rightarrow> connect_sched \<Rightarrow> connect_sched" where
  "uc_initiate_connect cb sock entry s =
     (if sock < 0 then cn_answer cb (- 1) s
      else (let s = s\<lparr>cn_opened := cn_opened s @ [sock]\<rparr> in
        if \<not> entry then cn_close sock (cn_answer cb (- 1) s) else s\<lparr>cn_pending := cn_pending s @ [(sock, cb)]\<rparr>))"

definition uc_schedule :: "nat \<Rightarrow> int \<Rightarrow> bool \<Rightarrow> connect_sched \<Rightarrow> connect_sched" where
  "uc_schedule cb sock entry s =
     (let (found, q) = mpmc_deq (cn_fd_q s); s = s\<lparr>cn_fd_q := q, cn_issued := cn_issued s @ [cb]\<rparr> in
      case found of Some fd \<Rightarrow> cn_answer cb fd s | None \<Rightarrow> uc_initiate_connect cb sock entry s)"

definition uc_completion :: "nat \<times> int \<Rightarrow> connect_sched \<Rightarrow> connect_sched" where
  "uc_completion e s =
     (let (i, res) = e in
      if i < length (cn_pending s) then
        (let (fd, cb) = cn_pending s ! i; s = (if res = 0 then cn_answer cb fd s else cn_close fd (cn_answer cb (- 1) s)) in
         s\<lparr>cn_pending := drop_at i (cn_pending s)\<rparr>)
      else s)"

definition uc_advance :: "(nat \<times> int) list \<Rightarrow> connect_sched \<Rightarrow> bool \<times> connect_sched" where
  "uc_advance es s = (if cn_shutdown s then (False, cn_drain_on_shutdown s) else (True, fold uc_completion es s))"

text \<open>The requests are the epoll scheduler's with a connect in progress or refused.\<close>

lemma uc_schedule_refines: "uc_schedule cb sock entry s = cn_schedule cb sock (if entry then C_In_Progress else C_Failed) s"
proof -
  have "uc_initiate_connect cb sock entry t = initiate_connect cb sock (if entry then C_In_Progress else C_Failed) t" for t
    by (auto simp: uc_initiate_connect_def initiate_connect_def Let_def)
  then show ?thesis by (simp only: uc_schedule_def cn_schedule_def)
qed

lemma uc_completion_inv: "cn_inv s \<Longrightarrow> cn_inv (uc_completion e s)"
proof -
  assume inv: "cn_inv s"
  obtain i res where e: "e = (i, res)" by (cases e)
  show ?thesis
  proof (cases "i < length (cn_pending s)")
    case True
    obtain fd cb where p: "cn_pending s ! i = (fd, cb)" by (cases "cn_pending s ! i")
    have "(fd, cb) \<in> set (cn_pending s)" using True p by (metis nth_mem)
    then have "0 \<le> fd" using inv by (auto simp: cn_inv_def)
    moreover have "mset (cn_pending s) = add_mset (fd, cb) (mset (drop_at i (cn_pending s)))" using mset_drop_at [OF True] p by simp
    moreover have "set (drop_at i (cn_pending s)) \<subseteq> set (cn_pending s)" by (auto simp: drop_at_def dest: in_set_takeD in_set_dropD)
    ultimately show ?thesis using inv True
      by (auto simp: uc_completion_def e p Let_def cn_answer_def cn_close_def cn_inv_def)
  qed (use inv in \<open>simp add: uc_completion_def e\<close>)
qed

lemma uc_steps_inv:
  assumes "cn_inv s"
  shows "cn_inv (uc_schedule cb sock entry s) \<and> cn_inv (snd (uc_advance es s))
    \<and> (cn_shutdown s \<longrightarrow> cn_pending (snd (uc_advance es s)) = [])"
proof -
  have "cn_inv (fold uc_completion es s)" using assms by (induction es arbitrary: s) (auto intro: uc_completion_inv)
  with assms cn_drain_inv [OF assms] cn_schedule_inv show ?thesis by (simp add: uc_schedule_refines uc_advance_def)
qed

end
