(* ===== verification/Lock_Free_State.thy ===== *)
theory Lock_Free_State
  imports Prelude
begin

section \<open>Bit fields and the lock-free state machine\<close>

text \<open>
  \<^verbatim>\<open>src/pump/core/lock_free_state.hh\<close>: fields of a 64-bit word, and a word that threads
  update with a function they compute on a snapshot. A field is given by its offset and its
  width. A shift by 64, which a field of width 64 or at offset 64 computes, is undefined (\<open>None\<close>).
\<close>

definition field_mask :: "nat \<Rightarrow> u64 option" where
  "field_mask w = (if w < 64 then Some (push_bit w 1 - 1) else None)"

definition field_decode :: "nat \<Rightarrow> nat \<Rightarrow> u64 \<Rightarrow> u64 option" where
  "field_decode off w raw = (if off < 64 then map_option (\<lambda>m. drop_bit off raw AND m) (field_mask w) else None)"

definition field_update :: "nat \<Rightarrow> nat \<Rightarrow> u64 \<Rightarrow> u64 \<Rightarrow> u64 option" where
  "field_update off w raw val =
     (if off < 64 then map_option (\<lambda>m. (raw AND NOT (push_bit off m)) OR push_bit off (val AND m)) (field_mask w) else None)"

lemma field_mask_bit: "field_mask w = Some m \<Longrightarrow> bit m n \<longleftrightarrow> n < w"
proof -
  assume "field_mask w = Some m"
  then have w: "w < 64" and m: "m = mask w" by (auto simp: field_mask_def mask_eq_exp_minus_1 push_bit_eq_mult split: if_splits)
  then show ?thesis by (auto simp: bit_mask_iff)
qed

lemma field_mask_some: "w < 64 \<Longrightarrow> \<exists>m. field_mask w = Some m"
  by (simp add: field_mask_def)

text \<open>Bit by bit: what reading and writing a field do.\<close>

lemma field_decode_bit:
  "field_decode off w raw = Some x \<Longrightarrow> bit x n \<longleftrightarrow> n < w \<and> bit raw (off + n)"
  using field_mask_bit by (auto simp: field_decode_def bit_and_iff bit_drop_bit_eq split: if_splits)

lemma field_update_bit:
  assumes "field_update off w raw val = Some r" "off + w \<le> 64"
  shows "bit r n \<longleftrightarrow> (if off \<le> n \<and> n < off + w then bit val (n - off) else bit raw n)"
proof -
  obtain m where m: "field_mask w = Some m" "r = (raw AND NOT (push_bit off m)) OR push_bit off (val AND m)"
    using assms(1) by (auto simp: field_update_def split: if_splits)
  have raw: "bit raw n \<Longrightarrow> n < 64" using bit_imp_le_length [of raw n] by simp
  have "bit r n \<longleftrightarrow> bit raw n \<and> n < 64 \<and> \<not> (off \<le> n \<and> n - off < w) \<or> off \<le> n \<and> n < 64 \<and> bit val (n - off) \<and> n - off < w"
    unfolding m(2) bit_or_iff bit_and_iff bit_not_iff bit_push_bit_iff field_mask_bit [OF m(1)] by auto
  moreover have "off \<le> n \<and> n - off < w \<longleftrightarrow> off \<le> n \<and> n < off + w" by auto
  ultimately show ?thesis using raw assms(2) by (cases "off \<le> n \<and> n < off + w") auto
qed

text \<open>A field reads back what was written to it, cut to its width, and other fields keep their value.\<close>

lemma field_roundtrip:
  assumes "off + w \<le> 64" "w < 64" "off < 64"
  shows "Option.bind (field_update off w raw val) (field_decode off w) = Some (take_bit w val)"
proof -
  obtain m where m: "field_mask w = Some m" using field_mask_some [OF assms(2)] by blast
  obtain r x where r: "field_update off w raw val = Some r" "field_decode off w r = Some x"
    by (simp add: field_update_def field_decode_def m assms(3))
  have "bit x n = bit (take_bit w val) n" for n
    using field_decode_bit [OF r(2), of n] field_update_bit [OF r(1) assms(1), of "off + n"] by (auto simp: bit_take_bit_iff)
  then have "x = take_bit w val" by (simp add: bit_eq_iff)
  with r show ?thesis by simp
qed

lemma field_apart:
  assumes "field_update off w raw val = Some r" "off + w \<le> 64" "off + w \<le> off' \<or> off' + w' \<le> off"
  shows "field_decode off' w' r = field_decode off' w' raw"
proof (cases "if off' < 64 then field_mask w' else None")
  case (Some m)
  obtain x y where xy: "field_decode off' w' r = Some x" "field_decode off' w' raw = Some y" using Some by (auto simp: field_decode_def split: if_splits)
  have "bit x n = bit y n" for n
    using field_decode_bit [OF xy(1)] field_decode_bit [OF xy(2)] field_update_bit [OF assms(1,2)] assms(3) by auto
  with xy show ?thesis by (simp add: bit_eq_iff)
qed (simp add: field_decode_def split: if_splits)

subsection \<open>Transitions\<close>

datatype lf_action = Lf_Abort | Lf_Try_Once | Lf_Retry

text \<open>
  Threads in \<open>transition\<close>: a thread holds the value it loaded, decides with its function, and
  swaps. The word, the results of finished calls and, as history, the updates made.
\<close>

datatype lf_thread = Lf_Idle | Lf_Loaded "u64 \<Rightarrow> u64 \<times> lf_action" u64

record lf_state =
  lf_word :: u64
  lf_threads :: "lf_thread list"
  lf_results :: "bool list"
  lf_updates :: "((u64 \<Rightarrow> u64 \<times> lf_action) \<times> u64) list"

definition lf_set :: "nat \<Rightarrow> lf_thread \<Rightarrow> lf_state \<Rightarrow> lf_state" where
  "lf_set j t s = s\<lparr>lf_threads := (lf_threads s)[j := t]\<rparr>"

definition lf_return :: "nat \<Rightarrow> bool \<Rightarrow> lf_state \<Rightarrow> lf_state" where
  "lf_return j r s = lf_set j Lf_Idle s\<lparr>lf_results := lf_results s @ [r]\<rparr>"

inductive lf_step :: "nat \<Rightarrow> lf_thread \<Rightarrow> lf_state \<Rightarrow> lf_state \<Rightarrow> bool" for j where
  lf_call: "lf_step j Lf_Idle s (lf_set j (Lf_Loaded f (lf_word s)) s)"
| lf_abort: "snd (f old) = Lf_Abort \<Longrightarrow> lf_step j (Lf_Loaded f old) s (lf_return j False s)"
| lf_same: "snd (f old) \<noteq> Lf_Abort \<Longrightarrow> fst (f old) = old \<Longrightarrow> lf_step j (Lf_Loaded f old) s (lf_return j True s)"
| lf_swap: "snd (f old) \<noteq> Lf_Abort \<Longrightarrow> fst (f old) \<noteq> old \<Longrightarrow> lf_word s = old \<Longrightarrow>
    lf_step j (Lf_Loaded f old) s (lf_return j True (s\<lparr>lf_word := fst (f old), lf_updates := lf_updates s @ [(f, old)]\<rparr>))"
| lf_fail: "snd (f old) \<noteq> Lf_Abort \<Longrightarrow> fst (f old) \<noteq> old \<Longrightarrow>
    lf_step j (Lf_Loaded f old) s (if snd (f old) = Lf_Try_Once then lf_return j False s else lf_set j (Lf_Loaded f (lf_word s)) s)"

inductive lf_run :: "u64 \<Rightarrow> nat \<Rightarrow> lf_state \<Rightarrow> bool" for init n where
  "lf_run init n \<lparr>lf_word = init, lf_threads = replicate n Lf_Idle, lf_results = [], lf_updates = []\<rparr>"
| "lf_run init n s \<Longrightarrow> j < n \<Longrightarrow> lf_step j (lf_threads s ! j) s s' \<Longrightarrow> lf_run init n s'"

text \<open>The updates one after the other, each on the value the one before it left.\<close>

fun lf_chain :: "u64 \<Rightarrow> ((u64 \<Rightarrow> u64 \<times> lf_action) \<times> u64) list \<Rightarrow> u64 \<Rightarrow> bool" where
  "lf_chain v [] w \<longleftrightarrow> v = w"
| "lf_chain v ((f, old) # us) w \<longleftrightarrow> old = v \<and> lf_chain (fst (f old)) us w"

lemma lf_chain_append: "lf_chain v (us @ [(f, old)]) w \<longleftrightarrow> lf_chain v us old \<and> w = fst (f old)"
  by (induction us arbitrary: v) auto

lemmas lf_defs = lf_return_def lf_set_def

text \<open>
  Whatever the threads do, the word is the result of the successful updates in sequence,
  each computed on the value it replaced: no update is lost and none is computed on a
  stale value.
\<close>

lemma lf_run_chain: "lf_run init n s \<Longrightarrow> lf_chain init (lf_updates s) (lf_word s)"
proof (induction rule: lf_run.induct)
  case (2 s j s')
  from 2(3,4) show ?case by cases (auto simp: lf_defs lf_chain_append)
qed simp

text \<open>Threads that only count never lose a count (modulo 2^64).\<close>

lemma lf_counts:
  assumes "lf_run init n s" "\<forall>(f, old) \<in> set (lf_updates s). fst (f old) = old + 1"
  shows "lf_word s = init + of_nat (length (lf_updates s))"
proof -
  have "lf_chain v us w \<Longrightarrow> \<forall>(f, old) \<in> set us. fst (f old) = old + 1 \<Longrightarrow> w = v + of_nat (length us)" for v us w
    by (induction v us w rule: lf_chain.induct) (auto simp: algebra_simps)
  then show ?thesis using lf_run_chain [OF assms(1)] assms(2) by blast
qed

end
