(* ===== verification/Runtime.thy ===== *)
theory Runtime
  imports Prelude
begin

section \<open>The runtime: schedulers by core and the loop that advances them\<close>

text \<open>
  \<^verbatim>\<open>src/env/runtime/runner.hh\<close> and \<^verbatim>\<open>share_nothing.hh\<close>, with the lists of types of
  \<^verbatim>\<open>pump/core/meta.hh\<close> they are built with and \<^verbatim>\<open>pump/core/random.hh\<close>. The scheduler types
  of a runtime are numbered; a scheduler is a number, \<open>None\<close> the null pointer. What \<^verbatim>\<open>advance\<close>
  of a scheduler does to the state of the program is a parameter.
\<close>

subsection \<open>Lists of types\<close>

definition meta_contains :: "'t \<Rightarrow> 't list \<Rightarrow> bool" where
  "meta_contains t ts \<longleftrightarrow> list_ex (\<lambda>u. t = u) ts"

definition meta_concat :: "'t list list \<Rightarrow> 't list" where
  "meta_concat = concat"

text \<open>\<open>unique\<close>: every type is kept unless one before it is the same.\<close>

fun unique_impl :: "'t list \<Rightarrow> 't list \<Rightarrow> 't list" where
  "unique_impl prev [] = []"
| "unique_impl prev (v # args) = meta_concat [if \<not> meta_contains v prev then [v] else [], unique_impl (prev @ [v]) args]"

definition unique_t :: "'t list \<Rightarrow> 't list" where
  "unique_t ts = unique_impl [] ts"

lemma unique_impl_props:
  "set (unique_impl prev ts) = set ts - set prev \<and> distinct (unique_impl prev ts)"
  by (induction prev ts rule: unique_impl.induct) (auto simp: meta_concat_def meta_contains_def list_ex_iff)

text \<open>The same types, each once, in the order of their first occurrence.\<close>

lemma unique_first:
  "unique_impl prev ts = rev (remdups (rev (filter (\<lambda>t. t \<notin> set prev) ts)))"
proof (induction prev ts rule: unique_impl.induct)
  case (2 prev v args)
  have r: "rev (remdups (rev (x # xs))) = x # rev (remdups (rev (filter (\<lambda>t. t \<noteq> x) xs)))" for x :: 'a and xs
  proof -
    have "remdups (ys @ [x]) = remdups (filter (\<lambda>t. t \<noteq> x) ys) @ [x]" for ys :: "'a list"
      by (induction ys) auto
    then show ?thesis by (simp add: rev_filter)
  qed
  let ?F = "filter (\<lambda>t. t \<notin> set prev) args"
  have IH: "unique_impl (prev @ [v]) args = rev (remdups (rev (filter (\<lambda>t. t \<notin> set (prev @ [v])) args)))" by (rule 2)
  show ?case
  proof (cases "v \<in> set prev")
    case True
    then have "(\<lambda>t. t \<notin> set (prev @ [v])) = (\<lambda>t. t \<notin> set prev)" by auto
    with True IH show ?thesis by (simp add: meta_concat_def meta_contains_def list_ex_iff del: set_append)
  next
    case False
    have "filter (\<lambda>t. t \<notin> set (prev @ [v])) args = filter (\<lambda>t. t \<noteq> v) ?F" by (induction args) auto
    then have "unique_impl prev (v # args) = v # rev (remdups (rev (filter (\<lambda>t. t \<noteq> v) ?F)))"
      using False IH by (simp add: meta_concat_def meta_contains_def list_ex_iff del: set_append)
    also have "\<dots> = rev (remdups (rev (v # ?F)))" by (rule r [symmetric])
    finally show ?thesis using False by simp
  qed
qed simp

lemma unique_t_reference: "unique_t ts = rev (remdups (rev ts))"
  by (simp add: unique_t_def unique_first)

subsection \<open>The schedulers of a runtime\<close>

text \<open>\<open>pre\<close> gives the type of the preemption queue that a scheduler type declares, if it does.\<close>

definition get_preemptive_scheduler :: "(nat \<Rightarrow> 'q option) \<Rightarrow> nat \<Rightarrow> 'q list" where
  "get_preemptive_scheduler pre t = (case pre t of None \<Rightarrow> [] | Some q \<Rightarrow> [q])"

definition runtime_preemption_queues :: "(nat \<Rightarrow> 'q option) \<Rightarrow> nat list \<Rightarrow> 'q list" where
  "runtime_preemption_queues pre types = unique_t (meta_concat (map (get_preemptive_scheduler pre) types))"

record runtime =
  rt_by_core :: "nat option list list"
  rt_schedulers :: "nat option list list"
  rt_running :: "bool list"

text \<open>For \<open>k\<close> scheduler types on a machine with \<open>n\<close> hardware threads.\<close>

definition rt_new :: "nat \<Rightarrow> nat \<Rightarrow> runtime" where
  "rt_new k n = \<lparr>rt_by_core = replicate n (replicate k None), rt_schedulers = replicate k [], rt_running = replicate n False\<rparr>"

text \<open>The two assertions are the precondition (\<open>None\<close> ends the process).\<close>

definition add_core_schedulers :: "nat \<Rightarrow> nat option list \<Rightarrow> runtime \<Rightarrow> runtime option" where
  "add_core_schedulers core scheds rt =
     (if core < length (rt_by_core rt) \<and> list_all (\<lambda>s. s = None) (rt_by_core rt ! core) then
        Some (rt\<lparr>rt_by_core := (rt_by_core rt)[core := scheds],
                rt_schedulers := map (\<lambda>(l, s). l @ [s]) (zip (rt_schedulers rt) scheds)\<rparr>)
      else None)"

definition get_by_core :: "nat \<Rightarrow> nat \<Rightarrow> runtime \<Rightarrow> nat option" where
  "get_by_core t core rt = rt_by_core rt ! core ! t"

definition get_by_index :: "nat \<Rightarrow> nat \<Rightarrow> runtime \<Rightarrow> nat option" where
  "get_by_index t i rt = rt_schedulers rt ! t ! i"

text \<open>\<^verbatim>\<open>pump/core/random.hh\<close>: the seed is a thread-local constant. A remainder by zero is undefined.\<close>

definition fast_random_uint32 :: "u32 \<Rightarrow> u32 \<Rightarrow> u32 option" where
  "fast_random_uint32 seed n = (if n = 0 then None else Some (((1664525 * seed + 1013904223) mod 2 ^ 31) mod n))"

datatype ('q) any_scheduler_result = Preemption_Queue 'q | Scheduler "nat option"

definition any_scheduler :: "(nat \<Rightarrow> 'q option) \<Rightarrow> u32 \<Rightarrow> nat \<Rightarrow> runtime \<Rightarrow> 'q any_scheduler_result option" where
  "any_scheduler pre seed t rt =
     (case pre t of
        Some q \<Rightarrow> Some (Preemption_Queue q)
      | None \<Rightarrow> map_option (\<lambda>r. Scheduler (rt_schedulers rt ! t ! unat r))
          (fast_random_uint32 seed (of_nat (length (rt_schedulers rt ! t)))))"

subsection \<open>The loop of a core\<close>

text \<open>\<open>advance_one\<close> on every scheduler of the core, without short cut; whether one of them worked.\<close>

fun advance_all :: "(nat \<Rightarrow> 's \<Rightarrow> bool \<times> 's) \<Rightarrow> nat option list \<Rightarrow> 's \<Rightarrow> bool \<times> 's" where
  "advance_all adv [] s = (False, s)"
| "advance_all adv (None # ss) s = advance_all adv ss s"
| "advance_all adv (Some p # ss) s = (let (w, s) = adv p s; (w', s) = advance_all adv ss s in (w \<or> w', s))"

text \<open>
  The loop of \<open>run\<close>: \<open>running i\<close> is what the \<open>i\<close>-th load of the flag reads. The result is the
  number of turns in which the core yielded, and the state; \<open>None\<close> never returns.
\<close>

partial_function (option) run_loop ::
  "(nat \<Rightarrow> 's \<Rightarrow> bool \<times> 's) \<Rightarrow> nat option list \<Rightarrow> (nat \<Rightarrow> bool) \<Rightarrow> nat \<Rightarrow> nat \<Rightarrow> 's \<Rightarrow> (nat \<times> 's) option" where
  "run_loop adv ss running i yields s =
     (if running i then
        (let (w, s) = advance_all adv ss s in run_loop adv ss running (Suc i) (if w then yields else Suc yields) s)
      else Some (yields, s))"

text \<open>The flags: \<open>run\<close> sets its own before it enters the loop, a stop clears it.\<close>

definition run_enter :: "nat \<Rightarrow> runtime \<Rightarrow> runtime" where
  "run_enter core rt = rt\<lparr>rt_running := (rt_running rt)[core := True]\<rparr>"

definition rt_stop :: "nat \<Rightarrow> runtime \<Rightarrow> runtime" where
  "rt_stop core rt = rt\<lparr>rt_running := (rt_running rt)[core := False]\<rparr>"

text \<open>\<open>start\<close>: the cores that are launched, and the one that runs on the calling thread.\<close>

definition start_cores :: "nat list \<Rightarrow> nat \<Rightarrow> nat list" where
  "start_cores cores main_core = filter (\<lambda>c. c \<noteq> main_core) cores @ [main_core]"

text \<open>The older \<open>start\<close> launches every core of the runtime, with schedulers or without.\<close>

definition start_all :: "runtime \<Rightarrow> nat list" where
  "start_all rt = [0..<length (rt_by_core rt)]"

lemma start_cores_once: "distinct cores \<Longrightarrow> distinct (start_cores cores m) \<and> set (start_cores cores m) = insert m (set cores)"
  by (auto simp: start_cores_def)

text \<open>A core that is given twice runs two loops on one set of schedulers.\<close>

lemma start_cores_twice: "c \<noteq> m \<Longrightarrow> start_cores [c, c] m = [c, c, m]"
  by (simp add: start_cores_def)

lemma add_core_schedulers_lists:
  assumes "add_core_schedulers core scheds rt = Some rt'" "length scheds = length (rt_schedulers rt)" "t < length scheds"
  shows "get_by_core t core rt' = scheds ! t \<and> rt_schedulers rt' ! t = rt_schedulers rt ! t @ [scheds ! t]
    \<and> (\<forall>c. c \<noteq> core \<longrightarrow> get_by_core t c rt' = get_by_core t c rt)"
  using assms by (auto simp: add_core_schedulers_def get_by_core_def split: if_splits)

lemma advance_all_state:
  "snd (advance_all adv ss s) = fold (\<lambda>p s. snd (adv p s)) (List.map_filter id ss) s"
proof (induction ss arbitrary: s)
  case (Cons p ss)
  then show ?case by (cases p) (simp_all add: map_filter_simps split_def Let_def)
qed (simp add: map_filter_simps)

text \<open>
  While the flag is set the core goes round, and each turn advances every scheduler of the
  core once, whether or not the others had work; when it reads the flag cleared it returns.
\<close>

lemma run_loop_turns:
  assumes "\<forall>j < n. running (i + j)" "\<not> running (i + n)"
  shows "\<exists>y. run_loop adv ss running i yields s = Some (y, ((\<lambda>s. snd (advance_all adv ss s)) ^^ n) s)"
  using assms
proof (induction n arbitrary: i yields s)
  case 0
  then show ?case by (subst run_loop.simps) simp
next
  case (Suc n)
  obtain w s1 where a: "advance_all adv ss s = (w, s1)" by (cases "advance_all adv ss s")
  have "\<exists>y. run_loop adv ss running (Suc i) y0 s1 = Some (y, ((\<lambda>s. snd (advance_all adv ss s)) ^^ n) s1)" for y0
    by (rule Suc.IH) (use Suc.prems in auto)
  moreover have "running i" using Suc.prems(1) by (metis add.right_neutral zero_less_Suc)
  ultimately show ?case by (subst run_loop.simps) (simp add: a funpow_Suc_right del: funpow.simps(2)) 
qed

lemma start_runs_each_core: "main_core \<in> set cores \<Longrightarrow> set (start_cores cores main_core) = set cores"
  by (auto simp: start_cores_def)

subsection \<open>What goes wrong\<close>

text \<open>A core without a scheduler of a type registers a null pointer, which \<open>any_scheduler\<close> may return; without any core the remainder is by zero.\<close>

lemma null_scheduler_chosen:
  "\<exists>rt seed. add_core_schedulers 0 [None, Some 4] (rt_new 2 1) = Some rt
     \<and> any_scheduler (\<lambda>t. None :: unit option) seed 0 rt = Some (Scheduler None)"
  by (simp add: add_core_schedulers_def rt_new_def any_scheduler_def fast_random_uint32_def numeral_2_eq_2)

lemma no_scheduler_undefined: "any_scheduler (\<lambda>t. None :: unit option) seed 0 (rt_new 1 1) = None"
  by (simp add: rt_new_def any_scheduler_def fast_random_uint32_def)

text \<open>A stop that comes before the thread of the core has entered \<open>run\<close> is overwritten.\<close>

lemma early_stop_lost: "core < length (rt_running rt) \<Longrightarrow> rt_running (run_enter core (rt_stop core rt)) ! core"
  by (simp add: run_enter_def rt_stop_def)

end
