(* ===== verification/Dgram_Uring.thy ===== *)
theory Dgram_Uring
  imports Udp_Epoll
begin

section \<open>The datagram transport and the UDP scheduler over io_uring\<close>

text \<open>
  \<^verbatim>\<open>src/env/scheduler/net/dgram/io_uring.hh\<close> keeps one receive in flight for each of its
  slots; \<^verbatim>\<open>udp/io_uring/scheduler.hh\<close> also submits its sends to the ring. Whether
  \<^verbatim>\<open>io_uring_get_sqe\<close> finds an entry is a function of a call counter, the completions of a
  turn are an argument. Of the scheduler only the sends differ from \<open>Udp_Epoll\<close>, whose
  definitions serve for the rest: \<open>uu_base\<close> holds its state, with an unused transport and an
  empty list of pending sends.
\<close>

record 'r dgram_uring =
  du_fd :: int
  du_armed :: "bool list"
  du_sends :: "'r list"
  du_calls :: nat
  du_closed :: "int list"

datatype dgram_cqe = Cq_Recv nat int "byte list" nat | Cq_Send nat int

datatype 'r du_event = Du_Dgram dgram | Du_Sent 'r int

definition du_none :: "'r dgram_uring" where
  "du_none = \<lparr>du_fd = - 1, du_armed = [], du_sends = [], du_calls = 0, du_closed = []\<rparr>"

definition submit_recvmsg :: "(nat \<Rightarrow> bool) \<Rightarrow> nat \<Rightarrow> 'r dgram_uring \<Rightarrow> 'r dgram_uring" where
  "submit_recvmsg sqe slot t =
     (let t1 = t\<lparr>du_calls := Suc (du_calls t)\<rparr> in if \<not> sqe (du_calls t) then t1 else t1\<lparr>du_armed := (du_armed t1)[slot := True]\<rparr>)"

definition du_init :: "(nat \<Rightarrow> bool) \<Rightarrow> int \<Rightarrow> bool \<Rightarrow> int \<Rightarrow> nat \<Rightarrow> 'r dgram_uring \<Rightarrow> int \<times> 'r dgram_uring" where
  "du_init sqe fd bound ring recv_depth t =
     (let (sock, closed) = create_bound_udp_socket fd bound; t1 = t\<lparr>du_fd := sock, du_closed := du_closed t @ closed\<rparr> in
      if sock < 0 then (- 1, t1)
      else if ring < 0 then (- 1, t1\<lparr>du_closed := du_closed t1 @ [sock], du_fd := - 1\<rparr>)
      else (0, fold (submit_recvmsg sqe) [0..<recv_depth] (t1\<lparr>du_armed := replicate recv_depth False\<rparr>)))"

definition enqueue_sendmsg :: "(nat \<Rightarrow> bool) \<Rightarrow> 'r \<Rightarrow> 'r dgram_uring \<Rightarrow> bool \<times> 'r dgram_uring" where
  "enqueue_sendmsg sqe r t =
     (let t1 = t\<lparr>du_calls := Suc (du_calls t)\<rparr> in if \<not> sqe (du_calls t) then (False, t1) else (True, t1\<lparr>du_sends := du_sends t1 @ [r]\<rparr>))"

text \<open>
  \<open>advance\<close>: what the handlers are called with, in order. A completion names the slot of an
  armed receive or the place of a send in \<open>du_sends\<close>; others do not occur. \<open>m\<close> is the size
  of the slots' buffers.
\<close>

fun du_advance :: "(nat \<Rightarrow> bool) \<Rightarrow> nat \<Rightarrow> dgram_cqe list \<Rightarrow> 'r dgram_uring \<Rightarrow> 'r du_event list \<times> 'r dgram_uring" where
  "du_advance sqe m [] t = ([], t)"
| "du_advance sqe m (Cq_Recv slot res d src # es) t =
     (if slot < length (du_armed t) \<and> du_armed t ! slot then
        (let bs = take (min (nat res) m) d;
             (hs, t2) = du_advance sqe m es (submit_recvmsg sqe slot (t\<lparr>du_armed := (du_armed t)[slot := False]\<rparr>)) in
         ((if bs \<noteq> [] then [Du_Dgram (bs, src)] else []) @ hs, t2))
      else du_advance sqe m es t)"
| "du_advance sqe m (Cq_Send i res # es) t =
     (if i < length (du_sends t) then
        (let (hs, t2) = du_advance sqe m es (t\<lparr>du_sends := drop_at i (du_sends t)\<rparr>) in (Du_Sent (du_sends t ! i) res # hs, t2))
      else du_advance sqe m es t)"

text \<open>A slot whose receive finds no entry is never armed again.\<close>

lemma du_advance_unarmed:
  "du_advance sqe m es t = (hs, t') \<Longrightarrow> length (du_armed t') = length (du_armed t)
    \<and> (\<forall>i < length (du_armed t). \<not> du_armed t ! i \<longrightarrow> \<not> du_armed t' ! i)"
proof (induction sqe m es t arbitrary: hs t' rule: du_advance.induct)
  case (2 sqe m slot res d src es t)
  show ?case
  proof (cases "slot < length (du_armed t) \<and> du_armed t ! slot")
    case True
    obtain gs u where u: "du_advance sqe m es (submit_recvmsg sqe slot (t\<lparr>du_armed := (du_armed t)[slot := False]\<rparr>)) = (gs, u)" by fastforce
    with "2.IH"(1) [OF True refl u] "2.prems" True show ?thesis
      by (auto simp: submit_recvmsg_def Let_def nth_list_update split: if_splits)
  next
    case False
    with "2.IH"(2) "2.prems" show ?thesis by simp
  qed
next
  case (3 sqe m i res es t)
  then show ?case by (auto simp: Let_def split: if_splits prod.splits)
qed simp

lemma slot_lost: "\<not> sqe (du_calls t) \<Longrightarrow> du_armed (submit_recvmsg sqe slot t) = du_armed t"
  by (simp add: submit_recvmsg_def Let_def)

subsection \<open>The UDP scheduler\<close>

record udp_uring =
  uu_base :: udp_sched
  uu_transport :: "udp_send dgram_uring"

definition uu_drain_send_one :: "(nat \<Rightarrow> bool) \<Rightarrow> udp_send \<Rightarrow> udp_uring \<Rightarrow> udp_uring" where
  "uu_drain_send_one sqe r s =
     (let (ok, t) = enqueue_sendmsg sqe r (uu_transport s); s = s\<lparr>uu_transport := t\<rparr> in
      if ok then s else s\<lparr>uu_base := send_answer (us_cb r) False (uu_base s)\<rparr>)"

definition uu_drain_send_q :: "(nat \<Rightarrow> bool) \<Rightarrow> udp_uring \<Rightarrow> udp_uring" where
  "uu_drain_send_q sqe s =
     (let (_, rs, q) = pc_drain (ud_send_q (uu_base s)) in fold (uu_drain_send_one sqe) rs (s\<lparr>uu_base := (uu_base s)\<lparr>ud_send_q := q\<rparr>\<rparr>))"

text \<open>\<open>on_recv\<close> and \<open>on_send_complete\<close>.\<close>

fun uu_handle :: "udp_send du_event \<Rightarrow> udp_sched \<Rightarrow> udp_sched" where
  "uu_handle (Du_Dgram d) s = ud_on_recv d s"
| "uu_handle (Du_Sent r res) s = send_answer (us_cb r) (0 \<le> res) s"

definition uu_advance :: "(nat \<Rightarrow> bool) \<Rightarrow> nat \<Rightarrow> dgram_cqe list \<Rightarrow> udp_uring \<Rightarrow> bool \<times> udp_uring" where
  "uu_advance sqe m es s =
     (if ud_shutdown (uu_base s) then (False, s\<lparr>uu_base := ud_drain_on_shutdown (uu_base s)\<rparr>)
      else (let s = uu_drain_send_q sqe (s\<lparr>uu_base := ud_drain_recv_q (uu_base s)\<rparr>); (hs, t) = du_advance sqe m es (uu_transport s) in
            (True, s\<lparr>uu_base := fold uu_handle hs (uu_base s), uu_transport := t\<rparr>)))"

inductive uu_step :: "bool \<Rightarrow> (nat \<Rightarrow> bool) \<Rightarrow> nat \<Rightarrow> udp_uring \<Rightarrow> udp_uring \<Rightarrow> bool" for ab sqe m where
  uu_recv: "core_ok (ud_recv_q (uu_base s)) core \<Longrightarrow> ud_schedule_recv ab core cb (uu_base s) = Some b \<Longrightarrow> uu_step ab sqe m s (s\<lparr>uu_base := b\<rparr>)"
| uu_send: "core_ok (ud_send_q (uu_base s)) core \<Longrightarrow> ud_schedule_send ab core r (uu_base s) = Some b \<Longrightarrow> uu_step ab sqe m s (s\<lparr>uu_base := b\<rparr>)"
| uu_shut: "uu_step ab sqe m s (s\<lparr>uu_base := ud_shut_down (uu_base s)\<rparr>)"
| uu_turn: "uu_step ab sqe m s (snd (uu_advance sqe m es s))"

inductive uu_reach :: "bool \<Rightarrow> (nat \<Rightarrow> bool) \<Rightarrow> nat \<Rightarrow> udp_uring \<Rightarrow> udp_uring \<Rightarrow> bool" for ab sqe m s0 where
  uu_start: "uu_reach ab sqe m s0 s0"
| uu_go: "uu_reach ab sqe m s0 s \<Longrightarrow> uu_step ab sqe m s s' \<Longrightarrow> uu_reach ab sqe m s0 s'"

definition sending :: "udp_uring \<Rightarrow> nat multiset" where
  "sending s = image_mset us_cb (mset (du_sends (uu_transport s)))"

definition uu_inv :: "udp_uring \<Rightarrow> bool" where
  "uu_inv s \<longleftrightarrow> ud_inv_with {#} (sending s) (uu_base s)"

lemma send_answer_inv: "ud_inv_with R (add_mset cb S) s \<Longrightarrow> ud_inv_with R S (send_answer cb ok s)"
  by (simp add: send_answer_def ud_account)

lemma uu_drain_sends_inv:
  "ud_inv_with R (image_mset us_cb (mset rs) + sending s) (uu_base s) \<Longrightarrow>
     ud_inv_with R (sending (fold (uu_drain_send_one sqe) rs s)) (uu_base (fold (uu_drain_send_one sqe) rs s))"
proof (induction rs arbitrary: s R)
  case (Cons r rs)
  have "ud_inv_with R (image_mset us_cb (mset rs) + sending (uu_drain_send_one sqe r s)) (uu_base (uu_drain_send_one sqe r s))"
    using Cons.prems send_answer_inv
    by (auto simp: uu_drain_send_one_def enqueue_sendmsg_def sending_def Let_def ac_simps)
  from Cons.IH [OF this] show ?case by simp
qed simp

lemma du_advance_inv:
  "du_advance sqe m es t = (hs, t') \<Longrightarrow> ud_inv_with R (image_mset us_cb (mset (du_sends t))) b \<Longrightarrow>
     ud_inv_with R (image_mset us_cb (mset (du_sends t'))) (fold uu_handle hs b)"
proof (induction sqe m es t arbitrary: hs t' b rule: du_advance.induct)
  case (2 sqe m slot res d src es t)
  show ?case
  proof (cases "slot < length (du_armed t) \<and> du_armed t ! slot")
    case True
    let ?t = "submit_recvmsg sqe slot (t\<lparr>du_armed := (du_armed t)[slot := False]\<rparr>)"
    obtain gs u where u: "du_advance sqe m es ?t = (gs, u)" by fastforce
    have "du_sends ?t = du_sends t" by (simp add: submit_recvmsg_def Let_def)
    with "2.IH"(1) [OF True refl u] u "2.prems" True ud_on_recv_inv show ?thesis by (auto simp: Let_def split: if_splits)
  next
    case False
    with "2.IH"(2) "2.prems" show ?thesis by simp
  qed
next
  case (3 sqe m i res es t)
  show ?case
  proof (cases "i < length (du_sends t)")
    case True
    obtain gs u where u: "du_advance sqe m es (t\<lparr>du_sends := drop_at i (du_sends t)\<rparr>) = (gs, u)" by fastforce
    have "image_mset us_cb (mset (du_sends t)) = add_mset (us_cb (du_sends t ! i)) (image_mset us_cb (mset (drop_at i (du_sends t))))"
      using mset_drop_at [OF True, symmetric] by simp
    with "3.IH"(1) [OF True u, of "send_answer (us_cb (du_sends t ! i)) (0 \<le> res) b"] "3.prems" u True send_answer_inv show ?thesis by auto
  next
    case False
    with "3.IH"(2) "3.prems" show ?thesis by simp
  qed
qed simp

lemma uu_advance_inv:
  assumes inv: "uu_inv s"
  shows "uu_inv (snd (uu_advance sqe m es s))"
proof (cases "ud_shutdown (uu_base s)")
  case True
  then show ?thesis using ud_drain_on_shutdown_inv [of "{#}" "sending s" "uu_base s"] inv
    by (simp add: uu_advance_def uu_inv_def sending_def)
next
  case False
  let ?s = "s\<lparr>uu_base := ud_drain_recv_q (uu_base s)\<rparr>"
  obtain w rs q where d: "pc_drain (ud_send_q (uu_base ?s)) = (w, rs, q)" by (cases "pc_drain (ud_send_q (uu_base ?s))")
  let ?s1 = "?s\<lparr>uu_base := (uu_base ?s)\<lparr>ud_send_q := q\<rparr>\<rparr>"
  have b: "ud_inv_with {#} (sending s) (uu_base ?s)" using ud_drain_recv_q_inv inv by (simp add: uu_inv_def)
  then have "pcq_inv (ud_send_q (uu_base ?s))" by (simp add: ud_account)
  from pc_drain_items [OF this d] b have "ud_inv_with {#} (image_mset us_cb (mset rs) + sending ?s1) (uu_base ?s1)"
    by (simp add: ud_account sending_def ac_simps)
  from uu_drain_sends_inv [OF this] have "uu_inv (uu_drain_send_q sqe ?s)" using d by (simp add: uu_drain_send_q_def uu_inv_def)
  moreover obtain hs t where t: "du_advance sqe m es (uu_transport (uu_drain_send_q sqe ?s)) = (hs, t)" by fastforce
  ultimately show ?thesis using du_advance_inv [OF t, of "{#}" "uu_base (uu_drain_send_q sqe ?s)"] False
    by (simp add: uu_advance_def uu_inv_def sending_def t Let_def)
qed

lemma uu_reach_inv: "uu_reach ab sqe m s0 s \<Longrightarrow> uu_inv s0 \<Longrightarrow> uu_inv s"
proof (induction rule: uu_reach.induct)
  case (uu_go s s')
  then have inv: "ud_inv_with {#} (sending s) (uu_base s)" by (simp add: uu_inv_def)
  from uu_go(2) show ?case
  proof cases
    case (uu_recv core cb b)
    then have "ud_inv_with {#} (sending s) b" using ud_schedule_inv [OF inv, of core ab cb b] by blast
    with uu_recv(1) show ?thesis by (simp add: uu_inv_def sending_def)
  next
    case (uu_send core r b)
    then have "ud_inv_with {#} (sending s) b" using ud_schedule_inv [OF inv, of core ab _ b r] by blast
    with uu_send(1) show ?thesis by (simp add: uu_inv_def sending_def)
  next
    case uu_shut
    with inv show ?thesis by (simp add: uu_inv_def sending_def ud_shut_down_def ud_account)
  qed (use uu_go uu_advance_inv in blast)
qed simp

text \<open>
  The accounting of the epoll scheduler holds with the sends in flight added: every request
  is answered once, held, in flight, or (a receive request on a full ring) lost, and the
  datagrams come in the order of their completions.
\<close>

lemma udp_uring_requests_answered_once:
  assumes "ud_new depth = Some b0" "depth \<noteq> 0" "uu_reach ab sqe m \<lparr>uu_base = b0, uu_transport = du_none\<rparr> s"
  defines "b \<equiv> uu_base s"
  shows "image_mset fst (mset (ud_recv_answers b)) + ud_recv_owed b + mset (ud_lost b) = mset (ud_recv_issued b)
    \<and> image_mset fst (mset (ud_send_answers b)) + ud_send_owed b + sending s = mset (ud_send_issued b)
    \<and> subseq (delivered (ud_recv_answers b) @ lq_contents (ud_ready_q b)) (ud_received b)"
proof -
  have "uu_inv \<lparr>uu_base = b0, uu_transport = du_none\<rparr>" using ud_new_inv [OF assms(1,2)] by (simp add: uu_inv_def sending_def du_none_def)
  from uu_reach_inv [OF assms(3) this] show ?thesis by (simp add: uu_inv_def ud_inv_with_def b_def)
qed

text \<open>After the shutdown the ring is not looked at any more: sends in flight stay unanswered.\<close>

lemma shutdown_leaves_sends: "ud_shutdown (uu_base s) \<Longrightarrow> uu_transport (snd (uu_advance sqe m es s)) = uu_transport s"
  by (simp add: uu_advance_def)

end
