(* ===== verification/Kcp_Uring.thy ===== *)
theory Kcp_Uring
  imports Kcp_Network Dgram_Uring
begin

section \<open>The KCP scheduler over io_uring\<close>

text \<open>
  \<^verbatim>\<open>src/env/scheduler/net/kcp/io_uring/scheduler.hh\<close> is the scheduler of \<open>Kcp_Epoll\<close> on the
  other transport: the same members, drains, handshake and clocks; only \<open>advance\<close> takes the
  datagrams from the completions of the ring. Datagrams are sent with \<^verbatim>\<open>sendto\<close> on both:
  the transport inside \<open>ku_base\<close> records what was sent, \<open>ku_transport\<close> holds the ring. \<open>m\<close> is
  the size of the receive buffers.
\<close>

record kcp_uring =
  ku_base :: kcp_sched
  ku_transport :: "unit dgram_uring"

definition dgrams :: "unit du_event list \<Rightarrow> dgram list" where
  "dgrams hs = List.map_filter (\<lambda>h. case h of Du_Dgram d \<Rightarrow> Some d | Du_Sent u res \<Rightarrow> None) hs"

definition ku_advance :: "(nat \<Rightarrow> bool) \<Rightarrow> nat \<Rightarrow> u32 list \<Rightarrow> u32 \<Rightarrow> dgram_cqe list \<Rightarrow> kcp_uring \<Rightarrow> bool \<times> kcp_uring" where
  "ku_advance sqe m order now es s =
     (let b = drain_send_q (drain_connect_q now (drain_accept_q (ku_base s)));
          (hs, t) = du_advance sqe m es (ku_transport s);
          b = fold (\<lambda>(d, src). on_raw_packet d src) (dgrams hs) b in
      (True, \<lparr>ku_base = update_all_kcp order now (kx_retry now b), ku_transport = t\<rparr>))"

text \<open>Datagrams come out cut to the size of the buffers and never empty.\<close>

lemma du_advance_dgrams: "\<forall>d \<in> set (dgrams (fst (du_advance sqe m es t))). fst d \<noteq> [] \<and> length (fst d) \<le> m"
proof (induction sqe m es t rule: du_advance.induct)
  case (2 sqe m slot res d src es t)
  then show ?case by (auto simp: dgrams_def map_filter_simps Let_def split: prod.splits)
next
  case (3 sqe m i res es t)
  then show ?case by (auto simp: dgrams_def map_filter_simps Let_def split: prod.splits)
qed (simp add: dgrams_def map_filter_simps)

text \<open>
  A turn over io_uring is a turn over epoll in which one event announces the datagrams of
  the completions: what is proved of the epoll scheduler in \<open>Kcp_Epoll\<close> and
  \<open>Kcp_Network\<close> holds of this one.
\<close>

lemma ku_input_refines:
  assumes "\<forall>d \<in> set ds. fst d \<noteq> [] \<and> length (fst d) \<le> dg_max (kx_transport b)" "dg_rx (kx_transport b) = []" "0 < dg_max (kx_transport b)"
  shows "fold (\<lambda>(d, src). on_raw_packet d src) ds b = kx_input [\<lparr>ev_arrived = ds, ev_in = True, ev_out = False\<rparr>] b"
proof -
  have "read_dgrams (dg_max (kx_transport b)) ds = (map (cut (dg_max (kx_transport b))) ds, [])"
    using assms by (intro read_dgrams_all) auto
  moreover have "map (cut (dg_max (kx_transport b))) ds = ds" using assms(1) by (intro map_idI) (auto simp: cut_def)
  moreover have same: "b\<lparr>kx_transport := (kx_transport b)\<lparr>dg_rx := []\<rparr>\<rparr> = b" using assms(2) by (cases b; cases "kx_transport b") simp
  ultimately show ?thesis using assms(2) by (simp add: kx_input_def same)
qed

text \<open>Nothing in a turn but the reading of datagrams touches the receive side of the socket.\<close>

abbreviation rx_side :: "kcp_sched \<Rightarrow> (byte list \<times> nat) list \<times> nat" where
  "rx_side s \<equiv> (dg_rx (kx_transport s), dg_max (kx_transport s))"

lemma rx_side_keep [simp]:
  "rx_side (accept_one cb s) = rx_side s" "rx_side (connect_one now r s) = rx_side s"
  "rx_side (send_one sr s) = rx_side s"
  by (simp_all add: kx_handler_defs dg_sendto_def split: list.splits option.splits)

lemma rx_side_drains [simp]:
  "rx_side (drain_accept_q s) = rx_side s" "rx_side (drain_connect_q now s) = rx_side s"
  "rx_side (drain_send_q s) = rx_side s"
proof -
  have "rx_side (fold accept_one xs (s\<lparr>kx_accept_q := q\<rparr>)) = rx_side (s\<lparr>kx_accept_q := q\<rparr>)" for xs q
    by (rule fold_keeps) simp
  then show "rx_side (drain_accept_q s) = rx_side s" by (simp add: drain_accept_q_def split_def Let_def)
  have "rx_side (fold (connect_one now) xs (s\<lparr>kx_connect_q := q\<rparr>)) = rx_side (s\<lparr>kx_connect_q := q\<rparr>)" for xs q
    by (rule fold_keeps) simp
  then show "rx_side (drain_connect_q now s) = rx_side s" by (simp add: drain_connect_q_def split_def Let_def)
  have "rx_side (fold send_one xs (s\<lparr>kx_send_q := q\<rparr>)) = rx_side (s\<lparr>kx_send_q := q\<rparr>)" for xs q
    by (rule fold_keeps) simp
  then show "rx_side (drain_send_q s) = rx_side s" by (simp add: drain_send_q_def split_def Let_def)
qed

lemma kcp_uring_refines_epoll:
  assumes "dg_rx (kx_transport (ku_base s)) = []" "dg_max (kx_transport (ku_base s)) = m" "0 < m"
    and t: "du_advance sqe m es (ku_transport s) = (hs, t)"
  shows "ku_base (snd (ku_advance sqe m order now es s))
    = snd (kx_advance order now [\<lparr>ev_arrived = dgrams hs, ev_in = True, ev_out = False\<rparr>] (ku_base s))"
proof -
  let ?b = "drain_send_q (drain_connect_q now (drain_accept_q (ku_base s)))"
  have "rx_side ?b = ([], m)" using assms(1,2) by (metis rx_side_drains)
  then have "dg_rx (kx_transport ?b) = []" "dg_max (kx_transport ?b) = m" by (simp_all only: prod.inject)
  with ku_input_refines [of "dgrams hs" ?b] du_advance_dgrams [of sqe m es "ku_transport s"] t \<open>0 < m\<close>
  have "fold (\<lambda>(d, src). on_raw_packet d src) (dgrams hs) ?b = kx_input [\<lparr>ev_arrived = dgrams hs, ev_in = True, ev_out = False\<rparr>] ?b"
    by simp
  then show ?thesis by (simp add: ku_advance_def kx_advance_def t Let_def)
qed

end
