(* ===== verification/Dgram_Dpdk.thy ===== *)
theory Dgram_Dpdk
  imports Dgram_Uring Ikcp_Seg
begin

section \<open>The datagram transport over DPDK\<close>

text \<open>
  \<^verbatim>\<open>src/env/scheduler/net/dgram/dpdk.hh\<close> builds and parses Ethernet frames itself. The DPDK
  library is the record \<open>dpdk_env\<close>: the IPv4 checksum of a header, whether an allocation of
  a packet buffer succeeds (by a call counter), how many bytes a buffer takes, how many frames
  a \<^verbatim>\<open>tx_burst\<close> accepts (by a call counter). A received burst is an argument. \<^verbatim>\<open>rte_pktmbuf_append\<close>
  takes the length as 16 bits; writing past what it gave is \<open>None\<close>. Addresses are numbers that
  hold the IP address and the port, both in network order. History: the frames handed to
  the device (\<open>dp_wire\<close>), the buffers allocated and freed.
\<close>

datatype mac = Mac u8 u8 u8 u8 u8 u8

fun mac_bytes :: "mac \<Rightarrow> byte list" where
  "mac_bytes (Mac a b c d e f) = [a, b, c, d, e, f]"

record dpdk_config =
  cg_port_id :: u16
  cg_queue_id :: u16
  cg_local_ip :: u32
  cg_local_port :: u16
  cg_max_dgram_size :: u32
  cg_rx_burst :: u16
  cg_tx_burst :: u16

record dpdk_env =
  de_cksum :: "byte list \<Rightarrow> u16"
  de_alloc :: "nat \<Rightarrow> bool"
  de_room :: nat
  de_tx :: "nat \<Rightarrow> nat"

record 'r dpdk_transport =
  dp_port_id :: u16
  dp_queue_id :: u16
  dp_local_ip :: u32
  dp_local_port_be :: u16
  dp_rx_burst :: u16
  dp_tx_burst :: u16
  dp_pool :: "nat option"
  dp_own_pool :: bool
  dp_local_mac :: mac
  dp_arp :: "u32 \<rightharpoonup> mac"
  dp_tx :: "(byte list \<times> 'r) list"
  dp_calls :: nat
  dp_bursts :: nat
  dp_wire :: "byte list list"
  dp_allocs :: nat
  dp_frees :: nat

definition DPDK_HEADER_SIZE :: nat where "DPDK_HEADER_SIZE = 14 + 20 + 8"
definition IPPROTO_UDP :: u8 where "IPPROTO_UDP = 17"
definition RTE_ETHER_TYPE_IPV4 :: u16 where "RTE_ETHER_TYPE_IPV4 = 0x0800"

text \<open>\<^verbatim>\<open>rte_cpu_to_be_16\<close> and \<^verbatim>\<open>htons\<close> on a little-endian machine.\<close>

definition cpu_to_be_16 :: "u16 \<Rightarrow> u16" where
  "cpu_to_be_16 v = push_bit 8 v OR drop_bit 8 v"

definition sockaddr_in :: "u32 \<Rightarrow> u16 \<Rightarrow> nat" where
  "sockaddr_in ip port = unat ip * 65536 + unat port"

definition sin_addr :: "nat \<Rightarrow> u32" where "sin_addr a = of_nat (a div 65536)"
definition sin_port :: "nat \<Rightarrow> u16" where "sin_port a = of_nat (a mod 65536)"

definition dp_new :: "'r dpdk_transport" where
  "dp_new = \<lparr>dp_port_id = 0, dp_queue_id = 0, dp_local_ip = 0, dp_local_port_be = 0, dp_rx_burst = 32, dp_tx_burst = 32,
     dp_pool = None, dp_own_pool = False, dp_local_mac = Mac 0 0 0 0 0 0, dp_arp = (\<lambda>_. None), dp_tx = [], dp_calls = 0,
     dp_bursts = 0, dp_wire = [], dp_allocs = 0, dp_frees = 0\<rparr>"

text \<open>\<open>mac\<close> and \<open>pool\<close>: what the library gives for the address of the port and the pool.\<close>

definition dp_init :: "dpdk_config \<Rightarrow> mac \<Rightarrow> nat option \<Rightarrow> 'r dpdk_transport \<Rightarrow> int \<times> 'r dpdk_transport" where
  "dp_init cfg mac pool t =
     (let t = t\<lparr>dp_port_id := cg_port_id cfg, dp_queue_id := cg_queue_id cfg, dp_local_ip := cg_local_ip cfg,
            dp_local_port_be := cpu_to_be_16 (cg_local_port cfg), dp_rx_burst := cg_rx_burst cfg,
            dp_tx_burst := cg_tx_burst cfg, dp_local_mac := mac, dp_pool := pool\<rparr> in
      if pool = None then (- 1, t) else (0, t\<lparr>dp_own_pool := True\<rparr>))"

definition set_mempool :: "nat option \<Rightarrow> 'r dpdk_transport \<Rightarrow> 'r dpdk_transport" where
  "set_mempool pool t = t\<lparr>dp_pool := pool, dp_own_pool := False\<rparr>"

definition add_arp :: "u32 \<Rightarrow> mac \<Rightarrow> 'r dpdk_transport \<Rightarrow> 'r dpdk_transport" where
  "add_arp ip mac t = t\<lparr>dp_arp := (dp_arp t)(ip \<mapsto> mac)\<rparr>"

subsection \<open>Frames\<close>

text \<open>The IPv4 header with the given checksum.\<close>

definition ipv4_header :: "u32 \<Rightarrow> u32 \<Rightarrow> u32 \<Rightarrow> u16 \<Rightarrow> byte list" where
  "ipv4_header src dst payload_len cksum =
     [0x45, 0] @ encode16u (cpu_to_be_16 (ucast (20 + 8 + payload_len))) @ encode16u 0 @ encode16u 0 @ [64, IPPROTO_UDP]
       @ encode16u cksum @ encode32u src @ encode32u dst"

definition udp_header :: "u16 \<Rightarrow> u16 \<Rightarrow> u32 \<Rightarrow> byte list" where
  "udp_header src_be dst_be payload_len =
     encode16u src_be @ encode16u dst_be @ encode16u (cpu_to_be_16 (ucast (8 + payload_len))) @ encode16u 0"

definition fill_headers :: "dpdk_env \<Rightarrow> 'r dpdk_transport \<Rightarrow> u32 \<Rightarrow> u16 \<Rightarrow> u32 \<Rightarrow> byte list" where
  "fill_headers E t dst_ip dst_port_be payload_len =
     (case dp_arp t dst_ip of Some mac \<Rightarrow> mac_bytes mac | None \<Rightarrow> replicate 6 0xFF)
     @ mac_bytes (dp_local_mac t) @ encode16u (cpu_to_be_16 RTE_ETHER_TYPE_IPV4)
     @ ipv4_header (dp_local_ip t) dst_ip payload_len (de_cksum E (ipv4_header (dp_local_ip t) dst_ip payload_len 0))
     @ udp_header (dp_local_port_be t) dst_port_be payload_len"

text \<open>
  A buffer with room for the frame, filled: the common part of \<open>build_udp_packet\<close>,
  \<open>enqueue_sendmsg\<close> and \<open>try_sendmsg\<close>. \<open>Some (None, t)\<close> is the null pointer.
\<close>

definition build_udp_packet ::
    "dpdk_env \<Rightarrow> byte list \<Rightarrow> nat \<Rightarrow> 'r dpdk_transport \<Rightarrow> (byte list option \<times> 'r dpdk_transport) option" where
  "build_udp_packet E d dest t =
     (let ok = de_alloc E (dp_calls t); t = t\<lparr>dp_calls := Suc (dp_calls t)\<rparr>; total = DPDK_HEADER_SIZE + length d in
      if \<not> ok then Some (None, t)
      else
        (let t = t\<lparr>dp_allocs := Suc (dp_allocs t)\<rparr> in
         if de_room E < total mod 2 ^ 16 then Some (None, t\<lparr>dp_frees := Suc (dp_frees t)\<rparr>)
         else if total mod 2 ^ 16 < total then None
         else Some (Some (fill_headers E t (sin_addr dest) (sin_port dest) (of_nat (length d)) @ d), t)))"

definition parse_udp_packet :: "'r dpdk_transport \<Rightarrow> byte list \<Rightarrow> dgram option" where
  "parse_udp_packet t pkt =
     (if length pkt < DPDK_HEADER_SIZE then None
      else if decode16u (drop 12 pkt) \<noteq> cpu_to_be_16 RTE_ETHER_TYPE_IPV4 then None
      else if pkt ! (14 + 9) \<noteq> IPPROTO_UDP then None
      else if decode16u (drop (14 + 20 + 2) pkt) \<noteq> dp_local_port_be t then None
      else Some (drop DPDK_HEADER_SIZE pkt, sockaddr_in (decode32u (drop (14 + 12) pkt)) (decode16u (drop (14 + 20) pkt))))"

subsection \<open>Sending and receiving\<close>

definition tx_one :: "dpdk_env \<Rightarrow> byte list \<Rightarrow> 'r dpdk_transport \<Rightarrow> bool \<times> 'r dpdk_transport" where
  "tx_one E pkt t =
     (let sent = min 1 (de_tx E (dp_bursts t)); t = t\<lparr>dp_bursts := Suc (dp_bursts t)\<rparr> in
      if sent = 0 then (False, t\<lparr>dp_frees := Suc (dp_frees t)\<rparr>) else (True, t\<lparr>dp_wire := dp_wire t @ [pkt]\<rparr>))"

definition dp_sendto :: "dpdk_env \<Rightarrow> byte list \<Rightarrow> nat \<Rightarrow> 'r dpdk_transport \<Rightarrow> 'r dpdk_transport option" where
  "dp_sendto E d dest t =
     (case build_udp_packet E d dest t of
        None \<Rightarrow> None
      | Some (None, t) \<Rightarrow> Some t
      | Some (Some pkt, t) \<Rightarrow> Some (snd (tx_one E pkt t)))"

definition dp_enqueue_sendmsg ::
    "dpdk_env \<Rightarrow> byte list list \<Rightarrow> nat \<Rightarrow> 'r \<Rightarrow> 'r dpdk_transport \<Rightarrow> (bool \<times> 'r dpdk_transport) option" where
  "dp_enqueue_sendmsg E iov dest r t =
     (if 64 \<le> length (dp_tx t) then Some (False, t)
      else case build_udp_packet E (concat iov) dest t of
        None \<Rightarrow> None
      | Some (None, t) \<Rightarrow> Some (False, t)
      | Some (Some pkt, t) \<Rightarrow> Some (True, t\<lparr>dp_tx := dp_tx t @ [(pkt, r)]\<rparr>))"

text \<open>A burst of the batch: how many frames the device took; the others are freed.\<close>

definition tx_batch :: "dpdk_env \<Rightarrow> 'r dpdk_transport \<Rightarrow> nat \<times> 'r dpdk_transport" where
  "tx_batch E t =
     (let sent = min (length (dp_tx t)) (de_tx E (dp_bursts t)) in
      (sent, t\<lparr>dp_bursts := Suc (dp_bursts t), dp_wire := dp_wire t @ map fst (take sent (dp_tx t)),
         dp_frees := dp_frees t + (length (dp_tx t) - sent), dp_tx := []\<rparr>))"

definition dp_flush :: "dpdk_env \<Rightarrow> 'r dpdk_transport \<Rightarrow> 'r dpdk_transport" where
  "dp_flush E t = (if dp_tx t = [] then t else snd (tx_batch E t))"

definition dp_try_sendmsg ::
    "dpdk_env \<Rightarrow> byte list list \<Rightarrow> nat \<Rightarrow> 'r dpdk_transport \<Rightarrow> (sendmsg_result \<times> 'r dpdk_transport) option" where
  "dp_try_sendmsg E iov dest t =
     (case build_udp_packet E (concat iov) dest t of
        None \<Rightarrow> None
      | Some (None, t) \<Rightarrow> Some (Msg_Again, t)
      | Some (Some pkt, t) \<Rightarrow> (let (ok, t) = tx_one E pkt t in Some (if ok then Msg_Sent else Msg_Again, t)))"

definition rx_burst :: "'r dpdk_transport \<Rightarrow> byte list list \<Rightarrow> dgram list" where
  "rx_burst t pkts = List.map_filter (parse_udp_packet t) (take (min 64 (unat (dp_rx_burst t))) pkts)"

text \<open>The two forms of \<open>advance\<close>: what the handlers are called with, in order.\<close>

definition dp_advance :: "dpdk_env \<Rightarrow> byte list list \<Rightarrow> 'r dpdk_transport \<Rightarrow> 'r du_event list \<times> 'r dpdk_transport" where
  "dp_advance E pkts t =
     (let hs = map Du_Dgram (rx_burst t pkts) in
      if dp_tx t = [] then (hs, t)
      else (let (sent, t2) = tx_batch E t in
            (hs @ map (\<lambda>(_, r). Du_Sent r 1) (take sent (dp_tx t)) @ map (\<lambda>(_, r). Du_Sent r (- 1)) (drop sent (dp_tx t)), t2)))"

definition dp_advance_recv :: "byte list list \<Rightarrow> 'r dpdk_transport \<Rightarrow> dgram list \<times> bool" where
  "dp_advance_recv pkts t = (rx_burst t pkts, True)"

subsection \<open>What one side builds the other side reads\<close>

lemma length_ipv4_header [simp]: "length (ipv4_header a b c d) = 20"
  by (simp add: ipv4_header_def)

lemma length_udp_header [simp]: "length (udp_header a b c) = 8"
  by (simp add: udp_header_def)

lemma length_mac_bytes [simp]: "length (mac_bytes m) = 6"
  by (cases m) simp

lemma length_fill_headers [simp]: "length (fill_headers E t ip port n) = DPDK_HEADER_SIZE"
  by (simp add: fill_headers_def DPDK_HEADER_SIZE_def split: option.splits)

text \<open>The fields of the headers at the places the parser reads them.\<close>

lemma drop_encode32_more [simp]: "n \<ge> 4 \<Longrightarrow> drop n (encode32u v @ bs) = drop (n - 4) bs"
  by simp

lemma fill_headers_fields:
  "\<exists>e1 e2. length e1 = 12 \<and> length e2 = 9 \<and> fill_headers E t ip port n @ d
     = e1 @ encode16u (cpu_to_be_16 RTE_ETHER_TYPE_IPV4) @ e2 @ [IPPROTO_UDP]
       @ encode16u (de_cksum E (ipv4_header (dp_local_ip t) ip n 0)) @ encode32u (dp_local_ip t) @ encode32u ip
       @ encode16u (dp_local_port_be t) @ encode16u port @ encode16u (cpu_to_be_16 (ucast (8 + n))) @ encode16u 0 @ d"
proof -
  let ?e1 = "(case dp_arp t ip of Some mac \<Rightarrow> mac_bytes mac | None \<Rightarrow> replicate 6 0xFF) @ mac_bytes (dp_local_mac t)"
  let ?e2 = "[0x45, 0] @ encode16u (cpu_to_be_16 (ucast (20 + 8 + n))) @ encode16u 0 @ encode16u 0 @ [64]"
  have "length ?e1 = 12" "length ?e2 = 9" by (simp_all split: option.splits)
  moreover have "fill_headers E t ip port n @ d
     = ?e1 @ encode16u (cpu_to_be_16 RTE_ETHER_TYPE_IPV4) @ ?e2 @ [IPPROTO_UDP]
       @ encode16u (de_cksum E (ipv4_header (dp_local_ip t) ip n 0)) @ encode32u (dp_local_ip t) @ encode32u ip
       @ encode16u (dp_local_port_be t) @ encode16u port @ encode16u (cpu_to_be_16 (ucast (8 + n))) @ encode16u 0 @ d"
    by (simp add: fill_headers_def ipv4_header_def [of _ _ _ "de_cksum _ _"] udp_header_def)
  ultimately show ?thesis by blast
qed

lemma parse_fill_headers:
  "parse_udp_packet r (fill_headers E t ip port n @ d)
     = (if port = dp_local_port_be r then Some (d, sockaddr_in (dp_local_ip t) (dp_local_port_be t)) else None)"
proof -
  obtain e1 e2 where e: "length e1 = 12" "length e2 = 9" "fill_headers E t ip port n @ d
     = e1 @ encode16u (cpu_to_be_16 RTE_ETHER_TYPE_IPV4) @ e2 @ [IPPROTO_UDP]
       @ encode16u (de_cksum E (ipv4_header (dp_local_ip t) ip n 0)) @ encode32u (dp_local_ip t) @ encode32u ip
       @ encode16u (dp_local_port_be t) @ encode16u port @ encode16u (cpu_to_be_16 (ucast (8 + n))) @ encode16u 0 @ d"
    using fill_headers_fields by blast
  show ?thesis unfolding parse_udp_packet_def e(3)
    by (simp add: e(1,2) DPDK_HEADER_SIZE_def nth_append)
qed

lemma build_udp_packet_result:
  "build_udp_packet E d dest t = Some (Some pkt, t') \<Longrightarrow>
     pkt = fill_headers E t' (sin_addr dest) (sin_port dest) (of_nat (length d)) @ d \<and> length d < 65494
     \<and> (\<exists>n. t' = t\<lparr>dp_calls := n, dp_allocs := Suc (dp_allocs t)\<rparr>)"
  by (auto simp: build_udp_packet_def Let_def DPDK_HEADER_SIZE_def split: if_splits)

text \<open>
  C23: (roundtrip) A datagram that one transport turns into a frame is read by the transport
  with the destination port as the same bytes with the address of the sender; a transport with
  another port ignores it. A frame that is built has less than 65536 bytes, so that no length in
  it has wrapped around. The parser takes the length of the payload from the length of the
  received frame and not from the UDP header: bytes \<open>pad\<close> that the link put behind the frame
  (Ethernet hardware fills short frames up to its minimum; \<open>pad\<close> is empty where nothing does)
  are read as the end of the payload.
\<close>

theorem dpdk_datagram_roundtrip:
  assumes "build_udp_packet E d dest t = Some (Some pkt, t')"
  shows "parse_udp_packet r (pkt @ pad)
      = (if sin_port dest = dp_local_port_be r
         then Some (d @ pad, sockaddr_in (dp_local_ip t) (dp_local_port_be t)) else None)
    \<and> length pkt = 42 + length d \<and> length pkt < 2 ^ 16"
  using build_udp_packet_result [OF assms] by (auto simp: parse_fill_headers DPDK_HEADER_SIZE_def)

definition plain_env :: dpdk_env where
  "plain_env = \<lparr>de_cksum = (\<lambda>_. 0), de_alloc = (\<lambda>_. True), de_room = 2000, de_tx = (\<lambda>_. 1)\<rparr>"

text \<open>Two bytes from port 0 to port 9: a frame of 44 bytes, read as it was sent, and with 16 bytes of filling.\<close>

theorem dpdk_datagram_roundtrip_witness:
  "\<exists>pkt t'. build_udp_packet plain_env [1, 2] (sockaddr_in 7 9) (dp_new :: unit dpdk_transport) = Some (Some pkt, t')
     \<and> length pkt = 44
     \<and> parse_udp_packet (dp_new\<lparr>dp_local_port_be := 9\<rparr> :: unit dpdk_transport) pkt = Some ([1, 2], 0)
     \<and> parse_udp_packet (dp_new\<lparr>dp_local_port_be := 9\<rparr> :: unit dpdk_transport) (pkt @ replicate 16 0) = Some ([1, 2] @ replicate 16 0, 0)
     \<and> parse_udp_packet (dp_new\<lparr>dp_local_port_be := 8\<rparr> :: unit dpdk_transport) pkt = None"
proof -
  obtain pkt t' where b: "build_udp_packet plain_env [1, 2] (sockaddr_in 7 9) (dp_new :: unit dpdk_transport) = Some (Some pkt, t')"
    by (simp add: build_udp_packet_def plain_env_def DPDK_HEADER_SIZE_def Let_def)
  have "sin_port (sockaddr_in 7 9) = 9" by (simp add: sin_port_def sockaddr_in_def)
  then have r: "parse_udp_packet (dp_new\<lparr>dp_local_port_be := 9\<rparr> :: unit dpdk_transport) (pkt @ pad) = Some ([1, 2] @ pad, 0)"
    "parse_udp_packet (dp_new\<lparr>dp_local_port_be := 8\<rparr> :: unit dpdk_transport) (pkt @ []) = None" "length pkt = 44" for pad
    using dpdk_datagram_roundtrip [OF b, of "dp_new\<lparr>dp_local_port_be := 9\<rparr> :: unit dpdk_transport" pad]
      dpdk_datagram_roundtrip [OF b, of "dp_new\<lparr>dp_local_port_be := 8\<rparr> :: unit dpdk_transport" "[]"]
    by (simp_all add: dp_new_def sockaddr_in_def)
  show ?thesis using b r(1) [of "[]"] r(1) [of "replicate 16 0"] r(2,3)
    by (intro exI [of _ pkt] exI [of _ t'] conjI) (simp_all only: append_Nil2)
qed

lemma sockaddr_in_parts [simp]: "sin_addr (sockaddr_in ip port) = ip" "sin_port (sockaddr_in ip port) = port"
proof -
  have "unat port < 65536" using unsigned_less [of port, where ?'a = nat] by simp
  then show "sin_addr (sockaddr_in ip port) = ip" "sin_port (sockaddr_in ip port) = port"
    by (simp_all add: sin_addr_def sin_port_def sockaddr_in_def)
qed

text \<open>A payload of 65494 bytes or more wraps the length around: the frame is written past its buffer.\<close>

lemma long_payload_overruns:
  "65494 \<le> length d \<Longrightarrow> length d < 65536 \<Longrightarrow> de_alloc E (dp_calls t) \<Longrightarrow> length d + 42 - 65536 \<le> de_room E \<Longrightarrow> build_udp_packet E d dest t = None"
  by (simp add: build_udp_packet_def DPDK_HEADER_SIZE_def Let_def mod_if)

subsection \<open>Packet buffers and completions\<close>

text \<open>Every buffer is in the batch, with the device, or freed.\<close>

definition mbufs_ok :: "'r dpdk_transport \<Rightarrow> bool" where
  "mbufs_ok t \<longleftrightarrow> dp_allocs t = dp_frees t + length (dp_wire t) + length (dp_tx t)"

lemma build_mbufs:
  "build_udp_packet E d dest t = Some (p, t') \<Longrightarrow> mbufs_ok t \<Longrightarrow>
     dp_allocs t' = dp_frees t' + length (dp_wire t') + length (dp_tx t') + (case p of None \<Rightarrow> 0 | Some _ \<Rightarrow> 1)
     \<and> dp_tx t' = dp_tx t"
  by (auto simp: build_udp_packet_def mbufs_ok_def Let_def split: if_splits)

lemma mbufs_not_lost:
  assumes "mbufs_ok t"
  shows "dp_sendto E d dest t = Some t' \<Longrightarrow> mbufs_ok t'"
    "dp_enqueue_sendmsg E iov dest r t = Some (ok, t') \<Longrightarrow> mbufs_ok t'"
    "dp_try_sendmsg E iov dest t = Some (res, t') \<Longrightarrow> mbufs_ok t'"
    "mbufs_ok (dp_flush E t)" "mbufs_ok (snd (dp_advance E pkts t))"
proof -
  show "dp_sendto E d dest t = Some t' \<Longrightarrow> mbufs_ok t'"
    by (auto simp: dp_sendto_def tx_one_def mbufs_ok_def Let_def split: option.splits dest!: build_mbufs [OF _ assms])
  show "dp_enqueue_sendmsg E iov dest r t = Some (ok, t') \<Longrightarrow> mbufs_ok t'"
    using assms by (auto simp: dp_enqueue_sendmsg_def mbufs_ok_def split: option.splits if_splits dest!: build_mbufs [OF _ assms])
  show "dp_try_sendmsg E iov dest t = Some (res, t') \<Longrightarrow> mbufs_ok t'"
    by (auto simp: dp_try_sendmsg_def tx_one_def mbufs_ok_def Let_def split: option.splits if_splits dest!: build_mbufs [OF _ assms])
  show "mbufs_ok (dp_flush E t)" using assms by (auto simp: dp_flush_def tx_batch_def mbufs_ok_def Let_def)
  show "mbufs_ok (snd (dp_advance E pkts t))" using assms by (auto simp: dp_advance_def tx_batch_def mbufs_ok_def Let_def)
qed

text \<open>One \<open>advance\<close> reports every send of the batch, once and in order, and empties the batch.\<close>

definition reported :: "'r du_event list \<Rightarrow> 'r list" where
  "reported hs = List.map_filter (\<lambda>h. case h of Du_Dgram d \<Rightarrow> None | Du_Sent r res \<Rightarrow> Some r) hs"

lemma reported_simps [simp]:
  "reported [] = []" "reported (Du_Dgram d # hs) = reported hs" "reported (Du_Sent r res # hs) = r # reported hs"
  by (simp_all add: reported_def map_filter_simps)

lemma reported_append [simp]: "reported (xs @ ys) = reported xs @ reported ys"
  by (induction xs) (simp_all add: reported_def map_filter_def)

lemma reported_maps [simp]:
  "reported (map Du_Dgram ds) = []" "reported (map (\<lambda>(p, r). Du_Sent r (f p)) qs) = map snd qs"
  by (induction ds; simp) (induction qs; auto)

lemma dp_advance_reports: "dp_advance E pkts t = (hs, t') \<Longrightarrow> reported hs = map snd (dp_tx t) \<and> dp_tx t' = []"
  by (auto simp: dp_advance_def tx_batch_def Let_def simp flip: map_append split: if_splits)

text \<open>\<open>flush\<close> empties the batch as well, but reports nothing: no send of it is ever completed.\<close>

lemma flush_forgets: "dp_tx (dp_flush E t) = []"
  by (simp add: dp_flush_def tx_batch_def Let_def)

text \<open>A pool that is set before \<open>init\<close> is replaced by it.\<close>

lemma init_drops_pool: "dp_init cfg mac pool (set_mempool p t) = (res, t') \<Longrightarrow> dp_pool t' = pool"
  by (auto simp: dp_init_def Let_def split: if_splits)

end
