(* ===== verification/Udp_Dpdk.thy ===== *)
theory Udp_Dpdk
  imports Dgram_Dpdk
begin

section \<open>The UDP scheduler over DPDK\<close>

text \<open>
  \<^verbatim>\<open>src/env/scheduler/net/udp/dpdk/scheduler.hh\<close>: the members of
  the epoll scheduler (\<open>Udp_Epoll\<close>) on the transport of \<open>Dgram_Dpdk\<close>. Sends go into the batch of the transport, which the same turn transmits and
  reports. \<open>None\<close> is a write past a packet buffer.
\<close>

record udp_dpdk =
  vd_base :: udp_sched
  vd_transport :: "udp_send dpdk_transport"

definition vd_init :: "dpdk_config \<Rightarrow> mac \<Rightarrow> nat option \<Rightarrow> udp_dpdk \<Rightarrow> int \<times> udp_dpdk" where
  "vd_init cfg mac pool s = (let (res, t) = dp_init cfg mac pool (vd_transport s) in (res, s\<lparr>vd_transport := t\<rparr>))"

definition vd_add_arp :: "u32 \<Rightarrow> mac \<Rightarrow> udp_dpdk \<Rightarrow> udp_dpdk" where
  "vd_add_arp ip mac s = s\<lparr>vd_transport := add_arp ip mac (vd_transport s)\<rparr>"

definition vd_send_one :: "dpdk_env \<Rightarrow> udp_send \<Rightarrow> udp_dpdk \<Rightarrow> udp_dpdk option" where
  "vd_send_one E r s =
     (case dp_enqueue_sendmsg E [fst (us_prepare r)] (snd (us_prepare r)) r (vd_transport s) of
        None \<Rightarrow> None
      | Some (ok, t) \<Rightarrow>
          (let s = s\<lparr>vd_transport := t\<rparr> in Some (if ok then s else s\<lparr>vd_base := send_answer (us_cb r) False (vd_base s)\<rparr>)))"

fun vd_send_all :: "dpdk_env \<Rightarrow> udp_send list \<Rightarrow> udp_dpdk \<Rightarrow> udp_dpdk option" where
  "vd_send_all E [] s = Some s"
| "vd_send_all E (r # rs) s = (case vd_send_one E r s of None \<Rightarrow> None | Some s \<Rightarrow> vd_send_all E rs s)"

definition vd_drain_send_q :: "dpdk_env \<Rightarrow> udp_dpdk \<Rightarrow> udp_dpdk option" where
  "vd_drain_send_q E s =
     (let (_, rs, q) = pc_drain (ud_send_q (vd_base s)) in vd_send_all E rs (s\<lparr>vd_base := (vd_base s)\<lparr>ud_send_q := q\<rparr>\<rparr>))"

definition vd_advance :: "dpdk_env \<Rightarrow> byte list list \<Rightarrow> udp_dpdk \<Rightarrow> (bool \<times> udp_dpdk) option" where
  "vd_advance E pkts s =
     (if ud_shutdown (vd_base s) then Some (False, s\<lparr>vd_base := ud_drain_on_shutdown (vd_base s)\<rparr>)
      else
        (case vd_drain_send_q E (s\<lparr>vd_base := ud_drain_recv_q (vd_base s)\<rparr>) of
           None \<Rightarrow> None
         | Some s \<Rightarrow>
             (let (hs, t) = dp_advance E pkts (vd_transport s) in
              Some (True, \<lparr>vd_base = fold uu_handle hs (vd_base s), vd_transport = t\<rparr>))))"

inductive vd_step :: "bool \<Rightarrow> dpdk_env \<Rightarrow> udp_dpdk \<Rightarrow> udp_dpdk \<Rightarrow> bool" for ab E where
  vd_recv: "core_ok (ud_recv_q (vd_base s)) core \<Longrightarrow> ud_schedule_recv ab core cb (vd_base s) = Some b \<Longrightarrow> vd_step ab E s (s\<lparr>vd_base := b\<rparr>)"
| vd_send: "core_ok (ud_send_q (vd_base s)) core \<Longrightarrow> ud_schedule_send ab core r (vd_base s) = Some b \<Longrightarrow> vd_step ab E s (s\<lparr>vd_base := b\<rparr>)"
| vd_shut: "vd_step ab E s (s\<lparr>vd_base := ud_shut_down (vd_base s)\<rparr>)"
| vd_turn: "vd_advance E pkts s = Some (b, s') \<Longrightarrow> vd_step ab E s s'"

inductive vd_reach :: "bool \<Rightarrow> dpdk_env \<Rightarrow> udp_dpdk \<Rightarrow> udp_dpdk \<Rightarrow> bool" for ab E s0 where
  vd_start: "vd_reach ab E s0 s0"
| vd_go: "vd_reach ab E s0 s \<Longrightarrow> vd_step ab E s s' \<Longrightarrow> vd_reach ab E s0 s'"

subsection \<open>Every request is answered, no send stays in flight\<close>

definition vd_flight :: "udp_dpdk \<Rightarrow> nat multiset" where
  "vd_flight s = image_mset us_cb (mset (map snd (dp_tx (vd_transport s))))"

lemma handle_all_inv:
  "ud_inv_with R (image_mset us_cb (mset (reported hs))) b \<Longrightarrow> ud_inv_with R {#} (fold uu_handle hs b)"
proof (induction hs arbitrary: b)
  case (Cons h hs)
  then show ?case by (cases h) (auto intro: ud_on_recv_inv send_answer_inv)
qed simp

lemma enqueue_effect:
  "dp_enqueue_sendmsg E iov dest r t = Some (ok, t') \<Longrightarrow> dp_tx t' = (if ok then dp_tx t @ [(fill_headers E t' (sin_addr dest) (sin_port dest) (of_nat (length (concat iov))) @ concat iov, r)] else dp_tx t)"
  by (auto simp: dp_enqueue_sendmsg_def build_udp_packet_def fill_headers_def Let_def split: option.splits if_splits)

lemma vd_send_one_inv:
  "vd_send_one E r s = Some s' \<Longrightarrow> ud_inv_with R (add_mset (us_cb r) (S + vd_flight s)) (vd_base s) \<Longrightarrow>
     ud_inv_with R (S + vd_flight s') (vd_base s')"
  by (auto simp: vd_send_one_def vd_flight_def Let_def ac_simps dest!: enqueue_effect intro: send_answer_inv split: option.splits if_splits)

lemma vd_send_all_inv:
  "vd_send_all E rs s = Some s' \<Longrightarrow> ud_inv_with R (image_mset us_cb (mset rs) + vd_flight s) (vd_base s) \<Longrightarrow>
     ud_inv_with R (vd_flight s') (vd_base s')"
proof (induction rs arbitrary: s)
  case (Cons r rs)
  then obtain s1 where s1: "vd_send_one E r s = Some s1" "vd_send_all E rs s1 = Some s'" by (auto split: option.splits)
  from vd_send_one_inv [OF s1(1), of R "image_mset us_cb (mset rs)"] Cons.prems(2)
  have "ud_inv_with R (image_mset us_cb (mset rs) + vd_flight s1) (vd_base s1)" by simp
  from Cons.IH [OF s1(2) this] show ?case .
qed simp

definition vd_inv :: "udp_dpdk \<Rightarrow> bool" where
  "vd_inv s \<longleftrightarrow> ud_inv_with {#} {#} (vd_base s) \<and> dp_tx (vd_transport s) = []"

lemma vd_advance_inv:
  assumes inv: "vd_inv s" and a: "vd_advance E pkts s = Some (b, s')"
  shows "vd_inv s'"
proof (cases "ud_shutdown (vd_base s)")
  case True
  with a inv ud_drain_on_shutdown_inv show ?thesis by (auto simp: vd_advance_def vd_inv_def)
next
  case False
  let ?s = "s\<lparr>vd_base := ud_drain_recv_q (vd_base s)\<rparr>"
  obtain w rs q where d: "pc_drain (ud_send_q (vd_base ?s)) = (w, rs, q)" by (cases "pc_drain (ud_send_q (vd_base ?s))")
  let ?s1 = "?s\<lparr>vd_base := (vd_base ?s)\<lparr>ud_send_q := q\<rparr>\<rparr>"
  from False a obtain s2 where s2: "vd_send_all E rs ?s1 = Some s2"
    and s': "s' = \<lparr>vd_base = fold uu_handle (fst (dp_advance E pkts (vd_transport s2))) (vd_base s2),
      vd_transport = snd (dp_advance E pkts (vd_transport s2))\<rparr>"
    using d by (auto simp: vd_advance_def vd_drain_send_q_def split_def Let_def split: option.splits)
  have i: "ud_inv_with {#} {#} (vd_base ?s)" using ud_drain_recv_q_inv inv by (simp add: vd_inv_def)
  then have "pcq_inv (ud_send_q (vd_base ?s))" by (simp add: ud_account)
  from pc_drain_items [OF this d] i have "ud_inv_with {#} (image_mset us_cb (mset rs) + vd_flight ?s1) (vd_base ?s1)"
    using inv by (simp add: ud_account vd_flight_def vd_inv_def ac_simps)
  from vd_send_all_inv [OF s2 this] have i2: "ud_inv_with {#} (vd_flight s2) (vd_base s2)" .
  obtain hs t where h: "dp_advance E pkts (vd_transport s2) = (hs, t)" by (cases "dp_advance E pkts (vd_transport s2)")
  from dp_advance_reports [OF h] i2 have "ud_inv_with {#} (image_mset us_cb (mset (reported hs))) (vd_base s2)" "dp_tx t = []"
    by (simp_all add: vd_flight_def)
  with handle_all_inv show ?thesis by (simp add: vd_inv_def s' h)
qed

lemma vd_reach_inv: "vd_reach ab E s0 s \<Longrightarrow> vd_inv s0 \<Longrightarrow> vd_inv s"
proof (induction rule: vd_reach.induct)
  case (vd_go s s')
  then have inv: "ud_inv_with {#} {#} (vd_base s)" "dp_tx (vd_transport s) = []" by (simp_all add: vd_inv_def)
  from vd_go(2) show ?case
  proof cases
    case (vd_recv core cb b)
    then have "ud_inv_with {#} {#} b" using ud_schedule_inv [OF inv(1), of core ab cb b] by blast
    with vd_recv(1) inv show ?thesis by (simp add: vd_inv_def)
  next
    case (vd_send core r b)
    then have "ud_inv_with {#} {#} b" using ud_schedule_inv [OF inv(1), of core ab _ b r] by blast
    with vd_send(1) inv show ?thesis by (simp add: vd_inv_def)
  next
    case vd_shut
    with inv show ?thesis by (simp add: vd_inv_def ud_shut_down_def ud_account)
  qed (use vd_go vd_advance_inv in blast)
qed simp

text \<open>Unlike over io_uring nothing is in flight between turns, so a turn after the shutdown answers all.\<close>

lemma udp_dpdk_requests_answered_once:
  assumes "ud_new depth = Some b0" "depth \<noteq> 0" "vd_reach ab E \<lparr>vd_base = b0, vd_transport = dp_new\<rparr> s"
  shows "image_mset fst (mset (ud_send_answers (vd_base s))) + ud_send_owed (vd_base s) = mset (ud_send_issued (vd_base s))
    \<and> image_mset fst (mset (ud_recv_answers (vd_base s))) + ud_recv_owed (vd_base s) + mset (ud_lost (vd_base s)) = mset (ud_recv_issued (vd_base s))
    \<and> (ud_shutdown (vd_base s) \<longrightarrow> vd_advance E pkts s = Some (False, s\<lparr>vd_base := ud_drain_on_shutdown (vd_base s)\<rparr>)
       \<and> ud_send_owed (ud_drain_on_shutdown (vd_base s)) = {#} \<and> ud_recv_owed (ud_drain_on_shutdown (vd_base s)) = {#})"
proof -
  have "vd_inv \<lparr>vd_base = b0, vd_transport = dp_new\<rparr>" using ud_new_inv [OF assms(1,2)] by (simp add: vd_inv_def dp_new_def)
  from vd_reach_inv [OF assms(3) this] have i: "ud_inv_with {#} {#} (vd_base s)" by (simp add: vd_inv_def)
  with ud_drain_on_shutdown_inv [OF i] show ?thesis by (simp add: ud_inv_with_def vd_advance_def)
qed

end
