(* ===== verification/Kcp_Dpdk.thy ===== *)
theory Kcp_Dpdk
  imports Kcp_Uring Udp_Dpdk
begin

section \<open>The KCP scheduler over DPDK\<close>

text \<open>
  \<^verbatim>\<open>src/env/scheduler/net/kcp/dpdk/scheduler.hh\<close>: the members of \<open>Kcp_Epoll\<close> on the transport
  of \<open>Dgram_Dpdk\<close>. The transport inside \<open>kd_base\<close> records the calls of \<open>sendto\<close>; the frames of
  a turn are built from them at its end, which makes no difference because receiving reads
  only the port of the transport.
\<close>

record kcp_dpdk =
  kd_base :: kcp_sched
  kd_transport :: "unit dpdk_transport"

fun kd_send_all :: "dpdk_env \<Rightarrow> dgram list \<Rightarrow> unit dpdk_transport \<Rightarrow> unit dpdk_transport option" where
  "kd_send_all E [] t = Some t"
| "kd_send_all E ((d, dest) # ds) t = (case dp_sendto E d dest t of None \<Rightarrow> None | Some t \<Rightarrow> kd_send_all E ds t)"

definition kd_advance :: "dpdk_env \<Rightarrow> u32 list \<Rightarrow> u32 \<Rightarrow> byte list list \<Rightarrow> kcp_dpdk \<Rightarrow> (bool \<times> kcp_dpdk) option" where
  "kd_advance E order now pkts s =
     (let b = drain_send_q (drain_connect_q now (drain_accept_q (kd_base s)));
          b = fold (\<lambda>(d, src). on_raw_packet d src) (fst (dp_advance_recv pkts (kd_transport s))) b;
          b = update_all_kcp order now (kx_retry now b) in
      case kd_send_all E (drop (length (dg_sent (kx_transport (kd_base s)))) (dg_sent (kx_transport b))) (kd_transport s) of
        None \<Rightarrow> None
      | Some t \<Rightarrow> Some (True, \<lparr>kd_base = b, kd_transport = t\<rparr>))"

text \<open>A turn is a turn of the epoll scheduler with the received datagrams that are not empty.\<close>

lemma on_raw_packet_empty: "on_raw_packet [] src s = s"
  by (simp add: on_raw_packet_def HANDSHAKE_PKT_SIZE_def IKCP_OVERHEAD_def)

lemma fold_not_empty:
  "fold (\<lambda>(d, src). on_raw_packet d src) ds b = fold (\<lambda>(d, src). on_raw_packet d src) (filter (\<lambda>d. fst d \<noteq> []) ds) b"
  by (induction ds arbitrary: b) (auto simp: on_raw_packet_empty)

lemma kcp_dpdk_refines_epoll:
  assumes "dg_rx (kx_transport (kd_base s)) = []" "dg_max (kx_transport (kd_base s)) = m" "0 < m"
    and "\<forall>d \<in> set (fst (dp_advance_recv pkts (kd_transport s))). length (fst d) \<le> m"
    and a: "kd_advance E order now pkts s = Some (b, s')"
  shows "kd_base s' = snd (kx_advance order now
    [\<lparr>ev_arrived = filter (\<lambda>d. fst d \<noteq> []) (fst (dp_advance_recv pkts (kd_transport s))), ev_in = True, ev_out = False\<rparr>] (kd_base s))"
proof -
  let ?b = "drain_send_q (drain_connect_q now (drain_accept_q (kd_base s)))"
  let ?ds = "filter (\<lambda>d. fst d \<noteq> []) (fst (dp_advance_recv pkts (kd_transport s)))"
  have "rx_side ?b = ([], m)" using assms(1,2) by (metis rx_side_drains)
  then have "dg_rx (kx_transport ?b) = []" "dg_max (kx_transport ?b) = m" by (simp_all only: prod.inject)
  then have "fold (\<lambda>(d, src). on_raw_packet d src) ?ds ?b = kx_input [\<lparr>ev_arrived = ?ds, ev_in = True, ev_out = False\<rparr>] ?b"
    using assms(3,4) by (intro ku_input_refines) auto
  then show ?thesis using a by (auto simp: kd_advance_def kx_advance_def fold_not_empty [symmetric] Let_def split: option.splits)
qed

text \<open>
  The handshake does not survive a link that fills short frames up: its packets have 5 bytes and
  come out of the frame with the filling (18 bytes at the 60 of Ethernet), and are then neither a
  handshake packet nor long enough for a segment.
\<close>

lemma kcp_dpdk_handshake_lost:
  assumes "build_udp_packet E (handshake_pkt type conv) dest t = Some (Some pkt, t')"
    and "parse_udp_packet r (pkt @ pad) = Some (d, src)" "pad \<noteq> []" "length pad < 19"
  shows "on_raw_packet d src s = s"
proof -
  have "length d = 5 + length pad" using build_udp_packet_result [OF assms(1)] assms(2)
    by (auto simp: parse_fill_headers handshake_pkt_def split: if_splits)
  with assms(3,4) show ?thesis by (simp add: on_raw_packet_def HANDSHAKE_PKT_SIZE_def IKCP_OVERHEAD_def)
qed

end
