(* ===== verification/Cuda_Pool.thy ===== *)
theory Cuda_Pool
  imports Queue_Accounting
begin

section \<open>The memory pools of the CUDA scheduler\<close>

text \<open>
  \<^verbatim>\<open>src/env/scheduler/cuda/scheduler.hh\<close>: \<open>device_memory_pool\<close> and \<open>pinned_memory_pool\<close> keep freed
  blocks in one list for each of ten size classes; \<open>scoped_device_mem\<close> and \<open>scoped_pinned_mem\<close> own
  one block. The two pools and the two wrappers differ in the driver functions they call and share
  the definitions here. The driver (\<^verbatim>\<open>cuMemAlloc\<close>) is a function of the blocks it has given out, a
  call counter and the size: it gives a result code and a block. \<open>mp_driver\<close> holds the blocks
  the driver counts as allocated, with their sizes.
\<close>

type_synonym mem_driver = "(u64 \<rightharpoonup> u64) \<Rightarrow> nat \<Rightarrow> u64 \<Rightarrow> int \<times> u64"

record mem_pool =
  mp_free :: "u64 list list"
  mp_driver :: "u64 \<rightharpoonup> u64"
  mp_calls :: nat

definition class_sizes :: "u64 list" where
  "class_sizes = [256, 1024, 4096, 16384, 65536, 262144, 1048576, 4194304, 16777216, 67108864]"

definition UINT32_MAX :: u32 where "UINT32_MAX = - 1"

fun search_class :: "u64 list \<Rightarrow> u32 \<Rightarrow> u64 \<Rightarrow> u32" where
  "search_class [] i bytes = UINT32_MAX"
| "search_class (c # cs) i bytes = (if bytes \<le> c then i else search_class cs (i + 1) bytes)"

definition size_to_class :: "u64 \<Rightarrow> u32" where
  "size_to_class bytes = search_class class_sizes 0 bytes"

definition mp_new :: mem_pool where
  "mp_new = \<lparr>mp_free = replicate 10 [], mp_driver = (\<lambda>_. None), mp_calls = 0\<rparr>"

text \<open>\<open>check_cu\<close>: any code but \<^verbatim>\<open>CUDA_SUCCESS\<close> becomes an exception that carries the code.\<close>

definition check_cu :: "int \<Rightarrow> int + unit" where
  "check_cu result = (if result \<noteq> 0 then Inl result else Inr ())"

definition alloc_size :: "u64 \<Rightarrow> u64" where
  "alloc_size bytes =
     (let cls = size_to_class bytes in if cls \<noteq> UINT32_MAX then class_sizes ! unat cls else bytes)"

definition mp_alloc :: "mem_driver \<Rightarrow> u64 \<Rightarrow> mem_pool \<Rightarrow> (int + u64) \<times> mem_pool" where
  "mp_alloc drv bytes p =
     (let cls = size_to_class bytes in
      if cls \<noteq> UINT32_MAX \<and> mp_free p ! unat cls \<noteq> [] then
        (let l = mp_free p ! unat cls in (Inr (last l), p\<lparr>mp_free := (mp_free p)[unat cls := butlast l]\<rparr>))
      else
        (let (res, ptr) = drv (mp_driver p) (mp_calls p) (alloc_size bytes); p = p\<lparr>mp_calls := Suc (mp_calls p)\<rparr> in
         case check_cu res of
           Inl e \<Rightarrow> (Inl e, p)
         | Inr _ \<Rightarrow> (Inr ptr, p\<lparr>mp_driver := (mp_driver p)(ptr \<mapsto> alloc_size bytes)\<rparr>)))"

definition mp_give :: "u64 \<Rightarrow> u64 \<Rightarrow> mem_pool \<Rightarrow> mem_pool" where
  "mp_give ptr bytes p =
     (let cls = size_to_class bytes in
      if cls \<noteq> UINT32_MAX then p\<lparr>mp_free := (mp_free p)[unat cls := mp_free p ! unat cls @ [ptr]]\<rparr>
      else p\<lparr>mp_driver := (mp_driver p)(ptr := None)\<rparr>)"

definition mp_trim :: "mem_pool \<Rightarrow> mem_pool" where
  "mp_trim p = p\<lparr>mp_driver := mp_driver p |` (- set (concat (mp_free p))), mp_free := replicate 10 []\<rparr>"

subsection \<open>The owning wrappers\<close>

record scoped_mem =
  sm_ptr :: u64
  sm_bytes :: u64

definition sm_new :: "mem_driver \<Rightarrow> u64 \<Rightarrow> mem_pool \<Rightarrow> (int + scoped_mem) \<times> mem_pool" where
  "sm_new drv sz p =
     (case mp_alloc drv sz p of (Inl e, p) \<Rightarrow> (Inl e, p) | (Inr ptr, p) \<Rightarrow> (Inr \<lparr>sm_ptr = ptr, sm_bytes = sz\<rparr>, p))"

definition sm_destroy :: "scoped_mem \<Rightarrow> mem_pool \<Rightarrow> mem_pool" where
  "sm_destroy h p = (if sm_ptr h \<noteq> 0 then mp_give (sm_ptr h) (sm_bytes h) p else p)"

text \<open>A move: the new wrapper and what is left of the old one.\<close>

definition sm_move :: "scoped_mem \<Rightarrow> scoped_mem \<times> scoped_mem" where
  "sm_move h = (h, h\<lparr>sm_ptr := 0\<rparr>)"

text \<open>\<open>this = std::move(o)\<close> for two different wrappers: both afterwards, and the pool.\<close>

definition sm_assign :: "scoped_mem \<Rightarrow> scoped_mem \<Rightarrow> mem_pool \<Rightarrow> scoped_mem \<times> scoped_mem \<times> mem_pool" where
  "sm_assign this h p =
     (let p = (if sm_ptr this \<noteq> 0 then mp_give (sm_ptr this) (sm_bytes this) p else p) in
      (\<lparr>sm_ptr = sm_ptr h, sm_bytes = sm_bytes h\<rparr>, h\<lparr>sm_ptr := 0\<rparr>, p))"

definition sm_release :: "scoped_mem \<Rightarrow> u64 \<times> scoped_mem" where
  "sm_release h = (sm_ptr h, h\<lparr>sm_ptr := 0\<rparr>)"

subsection \<open>Programs that use a pool\<close>

text \<open>
  The program holds wrappers and bare blocks with the sizes they were asked for; it frees a
  bare block with that size, once.
\<close>

record pool_world =
  pw_pool :: mem_pool
  pw_scoped :: "scoped_mem list"
  pw_raw :: "(u64 \<times> u64) list"

inductive pool_step :: "mem_driver \<Rightarrow> pool_world \<Rightarrow> pool_world \<Rightarrow> bool" for drv where
  ps_alloc: "mp_alloc drv bytes (pw_pool w) = (Inr ptr, p) \<Longrightarrow>
    pool_step drv w (w\<lparr>pw_pool := p, pw_raw := pw_raw w @ [(ptr, bytes)]\<rparr>)"
| ps_alloc_fails: "mp_alloc drv bytes (pw_pool w) = (Inl e, p) \<Longrightarrow> pool_step drv w (w\<lparr>pw_pool := p\<rparr>)"
| ps_free: "i < length (pw_raw w) \<Longrightarrow> pw_raw w ! i = (ptr, bytes) \<Longrightarrow>
    pool_step drv w (w\<lparr>pw_pool := mp_give ptr bytes (pw_pool w), pw_raw := drop_at i (pw_raw w)\<rparr>)"
| ps_scoped: "sm_new drv bytes (pw_pool w) = (Inr h, p) \<Longrightarrow>
    pool_step drv w (w\<lparr>pw_pool := p, pw_scoped := pw_scoped w @ [h]\<rparr>)"
| ps_destroy: "i < length (pw_scoped w) \<Longrightarrow>
    pool_step drv w (w\<lparr>pw_pool := sm_destroy (pw_scoped w ! i) (pw_pool w), pw_scoped := drop_at i (pw_scoped w)\<rparr>)"
| ps_move: "i < length (pw_scoped w) \<Longrightarrow> sm_move (pw_scoped w ! i) = (h, h') \<Longrightarrow>
    pool_step drv w (w\<lparr>pw_scoped := (pw_scoped w)[i := h'] @ [h]\<rparr>)"
| ps_assign: "i < length (pw_scoped w) \<Longrightarrow> j < length (pw_scoped w) \<Longrightarrow> i \<noteq> j \<Longrightarrow>
    sm_assign (pw_scoped w ! i) (pw_scoped w ! j) (pw_pool w) = (h, h', p) \<Longrightarrow>
    pool_step drv w (w\<lparr>pw_pool := p, pw_scoped := (pw_scoped w)[i := h, j := h']\<rparr>)"
| ps_release: "i < length (pw_scoped w) \<Longrightarrow> sm_release (pw_scoped w ! i) = (ptr, h') \<Longrightarrow> ptr \<noteq> 0 \<Longrightarrow>
    pool_step drv w (w\<lparr>pw_scoped := (pw_scoped w)[i := h'], pw_raw := pw_raw w @ [(ptr, sm_bytes (pw_scoped w ! i))]\<rparr>)"
| ps_trim: "pool_step drv w (w\<lparr>pw_pool := mp_trim (pw_pool w)\<rparr>)"

inductive pool_reach :: "mem_driver \<Rightarrow> pool_world \<Rightarrow> pool_world \<Rightarrow> bool" for drv w0 where
  pw_start: "pool_reach drv w0 w0"
| pw_go: "pool_reach drv w0 w \<Longrightarrow> pool_step drv w w' \<Longrightarrow> pool_reach drv w0 w'"

text \<open>What the driver promises: a block it gives is not null and not given out already.\<close>

definition good_driver :: "mem_driver \<Rightarrow> bool" where
  "good_driver drv \<longleftrightarrow> (\<forall>m n size. fst (drv m n size) = 0 \<longrightarrow> snd (drv m n size) \<noteq> 0 \<and> snd (drv m n size) \<notin> dom m)"

subsection \<open>No block is given to two owners, none is lost, all are large enough\<close>

lemma size_to_class_bound:
  assumes "size_to_class bytes \<noteq> UINT32_MAX"
  shows "unat (size_to_class bytes) < 10 \<and> bytes \<le> class_sizes ! unat (size_to_class bytes)"
  using assms by (simp add: size_to_class_def class_sizes_def split: if_splits)

lemma alloc_size_enough: "bytes \<le> alloc_size bytes"
  using size_to_class_bound [of bytes] by (simp add: alloc_size_def Let_def)

lemma mset_concat_update:
  "i < length xss \<Longrightarrow> mset (concat (xss[i := ys])) + mset (xss ! i) = mset (concat xss) + mset ys"
proof (induction xss arbitrary: i)
  case (Cons xs xss)
  then show ?case by (cases i) (auto simp: ac_simps)
qed simp

text \<open>\<open>M\<close>: the blocks that have an owner, with the sizes they were asked for.\<close>

definition pool_ok :: "mem_pool \<Rightarrow> (u64 \<times> u64) multiset \<Rightarrow> bool" where
  "pool_ok p M \<longleftrightarrow> length (mp_free p) = 10 \<and> finite (dom (mp_driver p)) \<and> 0 \<notin> dom (mp_driver p)
     \<and> mset (concat (mp_free p)) + image_mset fst M = mset_set (dom (mp_driver p))
     \<and> (\<forall>i < 10. \<forall>ptr \<in> set (mp_free p ! i). mp_driver p ptr = Some (class_sizes ! i))
     \<and> (\<forall>ptr bytes. (ptr, bytes) \<in># M \<longrightarrow> mp_driver p ptr = Some (alloc_size bytes))"

lemma mp_alloc_ok:
  assumes ok: "pool_ok p M" and drv: "good_driver drv" and a: "mp_alloc drv bytes p = (Inr ptr, p')"
  shows "pool_ok p' (add_mset (ptr, bytes) M) \<and> ptr \<noteq> 0"
proof -
  let ?i = "unat (size_to_class bytes)" and ?l = "mp_free p ! unat (size_to_class bytes)"
  show ?thesis
  proof (cases "size_to_class bytes \<noteq> UINT32_MAX \<and> ?l \<noteq> []")
    case True
    then have i: "?i < 10" using size_to_class_bound by blast
    have p': "ptr = last ?l" "p' = p\<lparr>mp_free := (mp_free p)[?i := butlast ?l]\<rparr>" using a True by (auto simp: mp_alloc_def Let_def)
    have l: "mset ?l = add_mset ptr (mset (butlast ?l))" using True p'(1)
      by (metis append_butlast_last_id mset.simps union_mset_add_mset_right add_0_right mset_append)
    have "mset (concat (mp_free p')) + mset ?l = mset (concat (mp_free p)) + mset (butlast ?l)"
      using mset_concat_update [of ?i "mp_free p" "butlast ?l"] ok i by (simp add: p' pool_ok_def)
    then have "add_mset ptr (mset (concat (mp_free p'))) = mset (concat (mp_free p))" using l by simp
    then have sum: "add_mset ptr (mset (concat (mp_free p')) + image_mset fst M) = mset (concat (mp_free p)) + image_mset fst M"
      by (metis union_mset_add_mset_left)
    moreover have "mp_driver p ptr = Some (alloc_size bytes)"
      using ok i True p'(1) last_in_set [of ?l] by (auto simp: pool_ok_def alloc_size_def Let_def)
    moreover have "ptr \<noteq> 0" using ok \<open>mp_driver p ptr = Some (alloc_size bytes)\<close> by (auto simp: pool_ok_def)
    moreover have "\<forall>j < 10. \<forall>q \<in> set (mp_free p' ! j). mp_driver p q = Some (class_sizes ! j)"
      using ok i by (auto simp: p' pool_ok_def nth_list_update dest: in_set_butlastD)
    ultimately show ?thesis using ok sum unfolding p'(2) by (simp add: pool_ok_def del: mset_concat)
  next
    case False
    then obtain res where d: "drv (mp_driver p) (mp_calls p) (alloc_size bytes) = (res, ptr)" "res = 0"
      "p' = p\<lparr>mp_calls := Suc (mp_calls p), mp_driver := (mp_driver p)(ptr \<mapsto> alloc_size bytes)\<rparr>"
      using a by (auto simp: mp_alloc_def Let_def check_cu_def split: prod.splits sum.splits if_splits)
    have n: "ptr \<noteq> 0" "ptr \<notin> dom (mp_driver p)" using drv d(1,2) by (auto simp: good_driver_def dest!: spec [of _ "mp_driver p"]
      spec [of _ "mp_calls p"] spec [of _ "alloc_size bytes"])
    have "set_mset (mset (concat (mp_free p)) + image_mset fst M) = dom (mp_driver p)"
      using ok by (metis finite_set_mset_mset_set pool_ok_def)
    then have "\<forall>q \<in> set (concat (mp_free p)). q \<noteq> ptr" "\<forall>q b. (q, b) \<in># M \<longrightarrow> q \<noteq> ptr" using n(2) by (auto, force)
    then show ?thesis using ok n by (auto simp: pool_ok_def d(3) dest: nth_mem)
  qed
qed

lemma mp_alloc_fails_ok: "pool_ok p M \<Longrightarrow> mp_alloc drv bytes p = (Inl e, p') \<Longrightarrow> pool_ok p' M"
  by (auto simp: mp_alloc_def Let_def pool_ok_def split: prod.splits sum.splits if_splits)

lemma mp_give_ok:
  assumes ok: "pool_ok p (add_mset (ptr, bytes) M)"
  shows "pool_ok (mp_give ptr bytes p) M"
proof (cases "size_to_class bytes = UINT32_MAX")
  case False
  let ?i = "unat (size_to_class bytes)"
  have i: "?i < 10" using size_to_class_bound False by blast
  have "mset (concat ((mp_free p)[?i := mp_free p ! ?i @ [ptr]])) = add_mset ptr (mset (concat (mp_free p)))"
    using mset_concat_update [of ?i "mp_free p" "mp_free p ! ?i @ [ptr]"] ok i by (simp add: pool_ok_def)
  moreover have "mp_driver p ptr = Some (class_sizes ! ?i)" using ok False by (auto simp: pool_ok_def alloc_size_def Let_def)
  ultimately show ?thesis using ok False i by (auto simp: mp_give_def pool_ok_def nth_list_update Let_def)
next
  case True
  have "ptr \<in> dom (mp_driver p)" using ok by (auto simp: pool_ok_def)
  moreover have m: "mset (concat (mp_free p)) + image_mset fst (add_mset (ptr, bytes) M) = mset_set (dom (mp_driver p))"
    and f: "finite (dom (mp_driver p))" using ok by (simp_all add: pool_ok_def)
  ultimately have r: "mset (concat (mp_free p)) + image_mset fst M = mset_set (dom (mp_driver p) - {ptr})"
    by (simp add: mset_set_Diff) (metis add_mset_remove_trivial)
  have "q \<in># mset (concat (mp_free p)) + image_mset fst M \<Longrightarrow> q \<noteq> ptr" for q unfolding r using f by simp
  then have "\<forall>q \<in> set (concat (mp_free p)). q \<noteq> ptr" "\<forall>q b. (q, b) \<in># M \<longrightarrow> q \<noteq> ptr" by (auto, force)
  then show ?thesis using ok True r by (auto simp: mp_give_def pool_ok_def Let_def dest: nth_mem)
qed

lemma rest_of_one: "a + b = (if P then 1 else 0) \<Longrightarrow> (Q \<longleftrightarrow> 0 < a) \<Longrightarrow> b = (if P \<and> \<not> Q then 1 else 0 :: nat)"
  by (auto split: if_splits)

lemma mp_trim_ok:
  assumes ok: "pool_ok p M"
  shows "pool_ok (mp_trim p) M"
proof -
  let ?F = "mset (concat (mp_free p))"
  have m: "?F + image_mset fst M = mset_set (dom (mp_driver p))" and f: "finite (dom (mp_driver p))"
    using ok by (simp_all add: pool_ok_def)
  have c: "count ?F x + count (image_mset fst M) x = (if x \<in> dom (mp_driver p) then 1 else 0)" for x
    using arg_cong [OF m, of "\<lambda>A. count A x"] f by (simp add: count_mset_set')
  define S where "S = set (concat (mp_free p))"
  have in_F: "x \<in> S \<longleftrightarrow> 0 < count ?F x" for x by (metis S_def count_greater_zero_iff set_mset_mset)
  have "count (image_mset fst M) x = count (mset_set (dom (mp_driver p) \<inter> - S)) x" for x
    using rest_of_one [OF c in_F, of x] f by (simp add: count_mset_set')
  then have "image_mset fst M = mset_set (dom (mp_driver p) \<inter> - set (concat (mp_free p)))"
    unfolding S_def by (rule multiset_eqI)
  moreover have "mp_driver (mp_trim p) ptr = Some (alloc_size bytes)" if "(ptr, bytes) \<in># M" for ptr bytes
  proof -
    have pos: "0 < count (image_mset fst M) ptr" using that by (force simp: image_iff)
    have "ptr \<notin> S"
    proof
      assume "ptr \<in> S"
      with rest_of_one [OF c in_F, of ptr] pos show False by simp
    qed
    then have "ptr \<notin> set (concat (mp_free p))" by (simp only: S_def not_False_eq_True)
    then show ?thesis using ok that by (simp add: mp_trim_def pool_ok_def)
  qed
  ultimately show ?thesis using ok by (auto simp: mp_trim_def pool_ok_def)
qed


definition pw_owned :: "pool_world \<Rightarrow> (u64 \<times> u64) multiset" where
  "pw_owned w = mset (pw_raw w)
     + image_mset (\<lambda>h. (sm_ptr h, sm_bytes h)) (filter_mset (\<lambda>h. sm_ptr h \<noteq> 0) (mset (pw_scoped w)))"

abbreviation live :: "scoped_mem multiset \<Rightarrow> (u64 \<times> u64) multiset" where
  "live H \<equiv> image_mset (\<lambda>h. (sm_ptr h, sm_bytes h)) (filter_mset (\<lambda>h. sm_ptr h \<noteq> 0) H)"

text \<open>The list without one entry, as a multiset, for the updates of the list of wrappers.\<close>

lemma mset_update_split: "i < length xs \<Longrightarrow> mset xs = add_mset (xs ! i) A \<Longrightarrow> mset (xs[i := y]) = add_mset y A"
  by (simp add: mset_update)

lemma mset_nth_split: "i < length xs \<Longrightarrow> \<exists>A. mset xs = add_mset (xs ! i) A"
  by (metis insert_DiffM nth_mem_mset)

lemma pool_step_ok:
  assumes "pool_step drv w w'" "good_driver drv" "pool_ok (pw_pool w) (pw_owned w)"
  shows "pool_ok (pw_pool w') (pw_owned w')"
  using assms(1)
proof cases
  case (ps_alloc bytes ptr p)
  with mp_alloc_ok [OF assms(3,2) ps_alloc(2)] show ?thesis by (simp add: pw_owned_def)
next
  case (ps_alloc_fails bytes e p)
  with mp_alloc_fails_ok [OF assms(3)] show ?thesis by (simp add: pw_owned_def)
next
  case (ps_free i ptr bytes)
  have "mset (pw_raw w) = add_mset (ptr, bytes) (mset (drop_at i (pw_raw w)))" using mset_drop_at [OF ps_free(2)] ps_free(3) by simp
  with assms(3) show ?thesis by (auto simp: ps_free(1) pw_owned_def intro!: mp_give_ok)
next
  case (ps_scoped bytes h p)
  then obtain ptr where a: "mp_alloc drv bytes (pw_pool w) = (Inr ptr, p)" "h = \<lparr>sm_ptr = ptr, sm_bytes = bytes\<rparr>"
    by (auto simp: sm_new_def split: prod.splits sum.splits)
  with mp_alloc_ok [OF assms(3,2) a(1)] show ?thesis by (simp add: ps_scoped(1) pw_owned_def)
next
  case (ps_destroy i)
  have "mset (pw_scoped w) = add_mset (pw_scoped w ! i) (mset (drop_at i (pw_scoped w)))" using mset_drop_at [OF ps_destroy(2)] by simp
  with assms(3) show ?thesis by (auto simp: ps_destroy(1) pw_owned_def sm_destroy_def intro!: mp_give_ok)
next
  case (ps_move i h h')
  obtain A where A: "mset (pw_scoped w) = add_mset (pw_scoped w ! i) A" using mset_nth_split [OF ps_move(2)] by blast
  with mset_update_split [OF ps_move(2) A] assms(3) ps_move show ?thesis by (auto simp: pw_owned_def sm_move_def)
next
  case (ps_assign i j h h' p)
  let ?t = "pw_scoped w ! i" and ?o = "pw_scoped w ! j"
  obtain A where A: "mset (pw_scoped w) = add_mset ?t A" using mset_nth_split [OF ps_assign(2)] by blast
  have Ah: "mset ((pw_scoped w)[i := h]) = add_mset h A" by (rule mset_update_split [OF ps_assign(2) A])
  have "(pw_scoped w)[i := h] ! j = ?o" using ps_assign by simp
  moreover obtain B where B: "mset ((pw_scoped w)[i := h]) = add_mset ((pw_scoped w)[i := h] ! j) B"
    using mset_nth_split [of j "(pw_scoped w)[i := h]"] ps_assign(3) by auto
  ultimately have e: "add_mset h A = add_mset ?o B" using Ah by simp
  have "mset ((pw_scoped w)[i := h, j := h']) = add_mset h' B" using mset_update_split [OF _ B, of h'] ps_assign(3) by simp
  moreover have h: "h = ?o" "sm_ptr h' = 0" using ps_assign(5) by (auto simp: sm_assign_def Let_def)
  ultimately have o: "pw_owned w' = mset (pw_raw w) + live A" using e by (simp add: ps_assign(1) pw_owned_def)
  show ?thesis
  proof (cases "sm_ptr ?t = 0")
    case True
    then show ?thesis using assms(3) A o ps_assign(1,5) by (simp add: pw_owned_def sm_assign_def)
  next
    case False
    then have "pool_ok (pw_pool w) (add_mset (sm_ptr ?t, sm_bytes ?t) (mset (pw_raw w) + live A))" using assms(3) A by (simp add: pw_owned_def)
    from mp_give_ok [OF this] False o ps_assign(1,5) show ?thesis by (auto simp: sm_assign_def Let_def)
  qed
next
  case (ps_release i ptr h')
  obtain A where A: "mset (pw_scoped w) = add_mset (pw_scoped w ! i) A" using mset_nth_split [OF ps_release(2)] by blast
  with mset_update_split [OF ps_release(2) A] assms(3) ps_release show ?thesis by (auto simp: pw_owned_def sm_release_def)
next
  case ps_trim
  with mp_trim_ok [OF assms(3)] show ?thesis by (simp add: pw_owned_def)
qed

lemma pool_reach_ok:
  "pool_reach drv w0 w \<Longrightarrow> good_driver drv \<Longrightarrow> pool_ok (pw_pool w0) (pw_owned w0) \<Longrightarrow> pool_ok (pw_pool w) (pw_owned w)"
  by (induction rule: pool_reach.induct) (auto intro: pool_step_ok)

definition pw_new :: pool_world where "pw_new = \<lparr>pw_pool = mp_new, pw_scoped = [], pw_raw = []\<rparr>"

lemma pw_new_ok: "pool_ok (pw_pool pw_new) (pw_owned pw_new)"
  by (simp add: pw_new_def pool_ok_def mp_new_def pw_owned_def)


definition owners :: "pool_world \<Rightarrow> (u64 \<times> u64) list" where
  "owners w = pw_raw w @ map (\<lambda>h. (sm_ptr h, sm_bytes h)) (filter (\<lambda>h. sm_ptr h \<noteq> 0) (pw_scoped w))"

lemma mset_owners: "mset (owners w) = pw_owned w"
  by (simp add: owners_def pw_owned_def)

lemma distinct_of_mset_set: "mset xs = mset_set A \<Longrightarrow> finite A \<Longrightarrow> distinct xs \<and> set xs = A"
  by (metis count_mset_set' distinct_count_atmost_1 finite_set_mset_mset_set set_mset_mset)

text \<open>
  C26: (safety) Whatever a program does with a pool and its wrappers, in any order and with any
  failures of the driver: no block has two owners or is owned and in a free list, every block the
  driver gave is with an owner or in a free list, every owner has at least the bytes it asked
  for, and once no block has an owner \<open>trim\<close> gives everything back to the driver.
\<close>

theorem cuda_pool_sound:
  assumes "good_driver drv" "pool_reach drv pw_new w"
  shows "distinct (concat (mp_free (pw_pool w)) @ map fst (owners w))
    \<and> set (concat (mp_free (pw_pool w)) @ map fst (owners w)) = dom (mp_driver (pw_pool w))
    \<and> (\<forall>(ptr, bytes) \<in> set (owners w). ptr \<noteq> 0 \<and> (\<exists>size. mp_driver (pw_pool w) ptr = Some size \<and> bytes \<le> size))
    \<and> (owners w = [] \<longrightarrow> mp_driver (mp_trim (pw_pool w)) = (\<lambda>_. None))"
proof -
  have ok: "pool_ok (pw_pool w) (mset (owners w))" using pool_reach_ok [OF assms(2,1) pw_new_ok] by (simp add: mset_owners)
  let ?xs = "concat (mp_free (pw_pool w)) @ map fst (owners w)"
  have x: "distinct ?xs \<and> set ?xs = dom (mp_driver (pw_pool w))"
    by (rule distinct_of_mset_set) (use ok in \<open>simp_all add: pool_ok_def\<close>)
  have "ptr \<noteq> 0 \<and> (\<exists>size. mp_driver (pw_pool w) ptr = Some size \<and> bytes \<le> size)" if "(ptr, bytes) \<in> set (owners w)" for ptr bytes
    using ok that alloc_size_enough [of bytes] by (auto simp: pool_ok_def)
  moreover have "mp_driver (mp_trim (pw_pool w)) = (\<lambda>_. None)" if "owners w = []"
    using x that by (auto simp: mp_trim_def restrict_map_def)
  ultimately show ?thesis using x by blast
qed

text \<open>Two blocks are allocated and one is freed; the next request of its class takes it again.\<close>

definition counting_driver :: mem_driver where
  "counting_driver m n bytes = (let ptr = of_nat (Suc n) in if ptr = 0 \<or> ptr \<in> dom m then (2, 0) else (0, ptr))"

lemma replicate_ten: "replicate 10 x = x # replicate 9 x"
  by (simp add: numeral_eq_Suc)

lemma cuda_pool_sound_witness:
  "\<exists>w. pool_reach counting_driver pw_new w \<and> owners w = [(2, 70000), (1, 200)]
     \<and> distinct (concat (mp_free (pw_pool w)) @ map fst (owners w))"
proof -
  have g: "good_driver counting_driver" by (auto simp: good_driver_def counting_driver_def Let_def)
  let ?p1 = "\<lparr>mp_free = replicate 10 [], mp_driver = [1 \<mapsto> 256], mp_calls = 1\<rparr>"
  let ?p2 = "\<lparr>mp_free = replicate 10 [], mp_driver = [1 \<mapsto> 256, 2 \<mapsto> 262144], mp_calls = 2\<rparr>"
  let ?p3 = "?p2\<lparr>mp_free := [1] # replicate 9 []\<rparr>"
  note defs = mp_alloc_def mp_give_def size_to_class_def class_sizes_def alloc_size_def UINT32_MAX_def counting_driver_def check_cu_def Let_def
  have "mp_alloc counting_driver 100 mp_new = (Inr 1, ?p1)" by (simp add: defs mp_new_def)
  then have 1: "pool_reach counting_driver pw_new \<lparr>pw_pool = ?p1, pw_scoped = [], pw_raw = [(1, 100)]\<rparr>"
    using pw_go [OF pw_start ps_alloc, of counting_driver 100 pw_new 1 ?p1] by (simp add: pw_new_def)
  have "mp_alloc counting_driver 70000 ?p1 = (Inr 2, ?p2)" by (simp add: defs)
  with pw_go [OF 1 ps_alloc, of 70000 2 ?p2]
  have 2: "pool_reach counting_driver pw_new \<lparr>pw_pool = ?p2, pw_scoped = [], pw_raw = [(1, 100), (2, 70000)]\<rparr>" by simp
  have "mp_give 1 100 ?p2 = ?p3" by (simp add: defs replicate_ten)
  with pw_go [OF 2 ps_free, of 0 1 100]
  have 3: "pool_reach counting_driver pw_new \<lparr>pw_pool = ?p3, pw_scoped = [], pw_raw = [(2, 70000)]\<rparr>" by (simp add: drop_at_def)
  have "mp_alloc counting_driver 200 ?p3 = (Inr 1, ?p2)" by (simp add: defs replicate_ten)
  with pw_go [OF 3 ps_alloc, of 200 1 ?p2]
  have r: "pool_reach counting_driver pw_new \<lparr>pw_pool = ?p2, pw_scoped = [], pw_raw = [(2, 70000), (1, 200)]\<rparr>" (is "pool_reach _ _ ?w") by simp
  have "owners ?w = [(2, 70000), (1, 200)]" by (simp add: owners_def)
  with r conjunct1 [OF cuda_pool_sound [OF g r]] show ?thesis by blast
qed

text \<open>A block given back with another size goes to the wrong list: the next owner gets too few bytes.\<close>

lemma wrong_size_given_back:
  "\<exists>p. mp_alloc counting_driver 70000 (mp_give 1 70000 \<lparr>mp_free = replicate 10 [], mp_driver = [1 \<mapsto> 256], mp_calls = 1\<rparr>) = (Inr 1, p)"
  by (simp add: mp_alloc_def mp_give_def size_to_class_def class_sizes_def UINT32_MAX_def Let_def)

end
