(* ===== verification/Cuda.thy ===== *)
theory Cuda
  imports Cuda_Pool "HOL-Library.Sublist"
begin

section \<open>The CUDA scheduler\<close>

text \<open>
  \<^verbatim>\<open>src/env/scheduler/cuda/scheduler.hh\<close>, \<open>scheduler\<close>: requests from other cores run functions that
  put commands on one stream of the device; an event recorded behind them tells when the device
  is through. The driver is the record \<open>gpu_driver\<close>: result codes by a call counter, and how
  many commands of the stream the device has executed at a call. A query of an event answers
  \<^verbatim>\<open>CUDA_SUCCESS\<close> if the device has passed the place where the event was last recorded, or
  if it was never recorded. The functions of the requests are an argument \<open>work\<close>: what such a
  function does with the two pools, the commands it puts on the stream, and the exception
  it ends with, if any. History: the requests issued, the stream with all its commands,
  the commands and the place of a pending request, and for each callback called after the
  device was done its commands and the progress of the device at that moment (\<open>gs_finished\<close>).
\<close>

record gpu_driver =
  gd_bind :: "nat \<Rightarrow> int"
  gd_create :: "nat \<Rightarrow> int"
  gd_record :: "nat \<Rightarrow> int"
  gd_query :: "nat \<Rightarrow> int"
  gd_progress :: "nat \<Rightarrow> nat"

record gpu_req =
  gr_work :: nat
  gr_cb :: nat

datatype gpu_answer = Gpu_Done | Gpu_Error int

record pending_op =
  po_event :: nat
  po_cb :: nat
  po_cmds :: "nat list"
  po_mark :: nat

record gpu_sched =
  gs_ctx_bound :: bool
  gs_dev_pool :: mem_pool
  gs_pin_pool :: mem_pool
  gs_req_q :: "gpu_req pcqueue"
  gs_pending :: "pending_op list"
  gs_event_pool :: "nat list"
  gs_events :: nat
  gs_recorded :: "nat \<rightharpoonup> nat"
  gs_calls :: nat
  gs_capturing :: bool
  gs_graphs :: nat
  gs_stream :: "nat list"
  gs_answers :: "(nat \<times> gpu_answer) list"
  gs_issued :: "nat list"
  gs_finished :: "(nat \<times> nat list \<times> nat) list"

type_synonym gpu_work = "nat \<Rightarrow> mem_pool \<times> mem_pool \<Rightarrow> int option \<times> (mem_pool \<times> mem_pool) \<times> nat list"

text \<open>The constructor, with the results of getting the device, its context and the stream.\<close>

definition gs_new :: "int \<Rightarrow> int \<Rightarrow> int \<Rightarrow> (int + gpu_sched) option" where
  "gs_new dev ctx stream =
     map_option
       (\<lambda>q. case check_cu dev of Inl e \<Rightarrow> Inl e | Inr _ \<Rightarrow> (case check_cu ctx of Inl e \<Rightarrow> Inl e | Inr _ \<Rightarrow>
         (case check_cu stream of Inl e \<Rightarrow> Inl e | Inr _ \<Rightarrow>
            Inr \<lparr>gs_ctx_bound = False, gs_dev_pool = mp_new, gs_pin_pool = mp_new, gs_req_q = q, gs_pending = [],
              gs_event_pool = [], gs_events = 0, gs_recorded = (\<lambda>_. None), gs_calls = 0, gs_capturing = False,
              gs_graphs = 0, gs_stream = [], gs_answers = [], gs_issued = [], gs_finished = []\<rparr>)))
       (pc_new \<lparr>gr_work = 0, gr_cb = 0\<rparr> 1024 (- 1))"

definition gs_answer :: "nat \<Rightarrow> gpu_answer \<Rightarrow> gpu_sched \<Rightarrow> gpu_sched" where
  "gs_answer cb a s = s\<lparr>gs_answers := gs_answers s @ [(cb, a)]\<rparr>"

definition gs_call :: "gpu_sched \<Rightarrow> gpu_sched" where
  "gs_call s = s\<lparr>gs_calls := Suc (gs_calls s)\<rparr>"

definition gs_schedule :: "u32 \<Rightarrow> gpu_req \<Rightarrow> gpu_sched \<Rightarrow> gpu_sched option" where
  "gs_schedule core r s =
     (let (res, q) = pc_try_enqueue True core r (gs_req_q s) in
      if res = Pc_Abort then None else Some (s\<lparr>gs_req_q := q, gs_issued := gs_issued s @ [gr_cb r]\<rparr>))"

definition acquire_event :: "gpu_driver \<Rightarrow> gpu_sched \<Rightarrow> (int + nat) \<times> gpu_sched" where
  "acquire_event D s =
     (if gs_event_pool s \<noteq> [] then
        (Inr (last (gs_event_pool s)), s\<lparr>gs_event_pool := butlast (gs_event_pool s)\<rparr>)
      else
        (case check_cu (gd_create D (gs_calls s)) of
           Inl e \<Rightarrow> (Inl e, gs_call s)
         | Inr _ \<Rightarrow> (Inr (gs_events s), (gs_call s)\<lparr>gs_events := Suc (gs_events s)\<rparr>)))"

definition release_event :: "nat \<Rightarrow> gpu_sched \<Rightarrow> gpu_sched" where
  "release_event e s = s\<lparr>gs_event_pool := gs_event_pool s @ [e]\<rparr>"

definition ensure_ctx_bound :: "gpu_driver \<Rightarrow> gpu_sched \<Rightarrow> (int + unit) \<times> gpu_sched" where
  "ensure_ctx_bound D s =
     (if gs_ctx_bound s then (Inr (), s)
      else (case check_cu (gd_bind D (gs_calls s)) of
              Inl e \<Rightarrow> (Inl e, gs_call s) | Inr _ \<Rightarrow> (Inr (), (gs_call s)\<lparr>gs_ctx_bound := True\<rparr>)))"

text \<open>\<^verbatim>\<open>cuEventRecord\<close>, whose result is ignored, and \<^verbatim>\<open>cuEventQuery\<close>.\<close>

definition event_record :: "gpu_driver \<Rightarrow> nat \<Rightarrow> gpu_sched \<Rightarrow> gpu_sched" where
  "event_record D e s =
     (if gd_record D (gs_calls s) = 0 then (gs_call s)\<lparr>gs_recorded := (gs_recorded s)(e \<mapsto> length (gs_stream s))\<rparr>
      else gs_call s)"

definition event_query :: "gpu_driver \<Rightarrow> nat \<Rightarrow> gpu_sched \<Rightarrow> int" where
  "event_query D e s =
     (if gd_query D (gs_calls s) \<noteq> 0 then gd_query D (gs_calls s)
      else (case gs_recorded s e of None \<Rightarrow> 0 | Some m \<Rightarrow> if m \<le> gd_progress D (gs_calls s) then 0 else 600))"

text \<open>The work of one request, with the commands it leaves on the stream.\<close>

definition run_work :: "gpu_work \<Rightarrow> nat \<Rightarrow> gpu_sched \<Rightarrow> int option \<times> nat list \<times> gpu_sched" where
  "run_work work w s =
     (let (ex, (d, p), cmds) = work w (gs_dev_pool s, gs_pin_pool s) in (ex, cmds, s\<lparr>gs_dev_pool := d, gs_pin_pool := p\<rparr>))"

definition submit_req :: "gpu_driver \<Rightarrow> gpu_work \<Rightarrow> gpu_req \<Rightarrow> gpu_sched \<Rightarrow> gpu_sched" where
  "submit_req D work r s =
     (let (ex, cmds, s) = run_work work (gr_work r) s; s = s\<lparr>gs_stream := gs_stream s @ cmds\<rparr> in
      case ex of
        Some e \<Rightarrow> gs_answer (gr_cb r) (Gpu_Error e) s
      | None \<Rightarrow>
          (case acquire_event D s of
             (Inl e, s) \<Rightarrow> gs_answer (gr_cb r) (Gpu_Error e) s
           | (Inr ev, s) \<Rightarrow>
               (let s = event_record D ev s in
                s\<lparr>gs_pending := gs_pending s
                  @ [\<lparr>po_event = ev, po_cb = gr_cb r, po_cmds = cmds, po_mark = length (gs_stream s)\<rparr>]\<rparr>)))"

definition drain_reqs :: "gpu_driver \<Rightarrow> gpu_work \<Rightarrow> gpu_sched \<Rightarrow> bool \<times> gpu_sched" where
  "drain_reqs D work s =
     (let (w, rs, q) = pc_drain (gs_req_q s) in (w, fold (submit_req D work) rs (s\<lparr>gs_req_q := q\<rparr>)))"

definition finish_op :: "gpu_driver \<Rightarrow> pending_op \<Rightarrow> gpu_sched \<Rightarrow> gpu_sched" where
  "finish_op D p s =
     release_event (po_event p) (gs_answer (po_cb p) Gpu_Done
       (gs_call s\<lparr>gs_finished := gs_finished s @ [(po_cb p, po_cmds p, gd_progress D (gs_calls s))]\<rparr>))"

text \<open>The loop over the pending operations: whether one was done, those that stay, and the state.\<close>

fun poll_pending :: "gpu_driver \<Rightarrow> pending_op list \<Rightarrow> gpu_sched \<Rightarrow> bool \<times> pending_op list \<times> gpu_sched" where
  "poll_pending D [] s = (False, [], s)"
| "poll_pending D (p # ps) s =
     (if event_query D (po_event p) s = 0 then (let (_, ks, s) = poll_pending D ps (finish_op D p s) in (True, ks, s))
      else (let (w, ks, s) = poll_pending D ps (gs_call s) in (w, p # ks, s)))"

definition gs_advance :: "gpu_driver \<Rightarrow> gpu_work \<Rightarrow> gpu_sched \<Rightarrow> (int + bool) \<times> gpu_sched" where
  "gs_advance D work s =
     (case ensure_ctx_bound D s of
        (Inl e, s) \<Rightarrow> (Inl e, s)
      | (Inr _, s) \<Rightarrow>
          (let (w, s) = drain_reqs D work s; (w2, ks, s) = poll_pending D (gs_pending s) s in
           (Inr (w \<or> w2), s\<lparr>gs_pending := ks\<rparr>)))"

text \<open>
  \<open>capture\<close>, with the results of beginning and ending the capture and of instantiating the
  graph; the commands of the function go into the graph. \<open>gs_graphs\<close> counts the graphs that
  nobody will destroy.
\<close>

definition gs_capture :: "gpu_driver \<Rightarrow> gpu_work \<Rightarrow> int \<Rightarrow> int \<Rightarrow> int \<Rightarrow> nat \<Rightarrow> gpu_sched \<Rightarrow> (int + nat list) \<times> gpu_sched" where
  "gs_capture D work b e i w s =
     (case ensure_ctx_bound D s of
        (Inl c, s) \<Rightarrow> (Inl c, s)
      | (Inr _, s) \<Rightarrow>
          (case check_cu b of
             Inl c \<Rightarrow> (Inl c, s)
           | Inr _ \<Rightarrow>
               (let (ex, cmds, s) = run_work work w (s\<lparr>gs_capturing := True\<rparr>) in
                case ex of
                  Some c \<Rightarrow> (Inl c, s)
                | None \<Rightarrow>
                    (let s = s\<lparr>gs_capturing := False\<rparr> in
                     case check_cu e of
                       Inl c \<Rightarrow> (Inl c, s)
                     | Inr _ \<Rightarrow>
                         (case check_cu i of Inl c \<Rightarrow> (Inl c, s\<lparr>gs_graphs := Suc (gs_graphs s)\<rparr>) | Inr _ \<Rightarrow> (Inr cmds, s))))))"

inductive gs_step :: "gpu_driver \<Rightarrow> gpu_work \<Rightarrow> gpu_sched \<Rightarrow> gpu_sched \<Rightarrow> bool" for D work where
  gs_issue: "core_ok (gs_req_q s) core \<Longrightarrow> gs_schedule core r s = Some s' \<Longrightarrow> gs_step D work s s'"
| gs_turn: "gs_step D work s (snd (gs_advance D work s))"
| gs_cap: "gs_step D work s (snd (gs_capture D work b e i w s))"

inductive gs_reach :: "gpu_driver \<Rightarrow> gpu_work \<Rightarrow> gpu_sched \<Rightarrow> gpu_sched \<Rightarrow> bool" for D work s0 where
  gs_start: "gs_reach D work s0 s0"
| gs_go: "gs_reach D work s0 s \<Longrightarrow> gs_step D work s s' \<Longrightarrow> gs_reach D work s0 s'"

subsection \<open>Graphs\<close>

text \<open>\<open>graph_handle\<close> owns a graph and its instance; destroying it lists what the driver destroys.\<close>

datatype gpu_object = Graph_Exec nat | Graph nat

record graph_handle =
  gh_exec :: "nat option"
  gh_graph :: "nat option"

definition gh_destroy :: "graph_handle \<Rightarrow> gpu_object list" where
  "gh_destroy h =
     (case gh_exec h of Some e \<Rightarrow> [Graph_Exec e] | None \<Rightarrow> []) @ (case gh_graph h of Some g \<Rightarrow> [Graph g] | None \<Rightarrow> [])"

definition gh_move :: "graph_handle \<Rightarrow> graph_handle \<times> graph_handle" where
  "gh_move h = (h, \<lparr>gh_exec = None, gh_graph = None\<rparr>)"

definition gh_assign :: "graph_handle \<Rightarrow> graph_handle \<Rightarrow> gpu_object list \<times> graph_handle \<times> graph_handle" where
  "gh_assign this h = (gh_destroy this, \<lparr>gh_exec = gh_exec h, gh_graph = gh_graph h\<rparr>, \<lparr>gh_exec = None, gh_graph = None\<rparr>)"

text \<open>Moves and assignments destroy every object exactly once in the end.\<close>

lemma graph_handles_conserve:
  "gh_move h = (a, b) \<Longrightarrow> gh_destroy a @ gh_destroy b = gh_destroy h"
  "gh_assign this h = (ds, a, b) \<Longrightarrow> ds @ gh_destroy a @ gh_destroy b = gh_destroy this @ gh_destroy h"
  by (auto simp: gh_move_def gh_assign_def gh_destroy_def)

subsection \<open>Every request is answered once, and not before the device is through\<close>

text \<open>
  \<open>R\<close>: requests a loop has in hand; \<open>P\<close>: the pending operations, which the loop of \<open>advance\<close>
  takes out of the list one by one.
\<close>

definition gs_inv_with :: "nat multiset \<Rightarrow> pending_op list \<Rightarrow> gpu_sched \<Rightarrow> bool" where
  "gs_inv_with R P s \<longleftrightarrow> pcq_inv (gs_req_q s)
     \<and> image_mset fst (mset (gs_answers s)) + image_mset po_cb (mset P) + image_mset gr_cb (mset (pc_items (gs_req_q s))) + R
        = mset (gs_issued s)
     \<and> distinct (map po_event P @ gs_event_pool s)
     \<and> (\<forall>e \<in> set (map po_event P @ gs_event_pool s). e < gs_events s)
     \<and> map fst (gs_finished s) = map fst (filter (\<lambda>a. snd a = Gpu_Done) (gs_answers s))"

definition gs_order :: "pending_op list \<Rightarrow> gpu_sched \<Rightarrow> bool" where
  "gs_order P s \<longleftrightarrow>
     (\<forall>p \<in> set P. gs_recorded s (po_event p) = Some (po_mark p) \<and> po_mark p \<le> length (gs_stream s)
        \<and> suffix (po_cmds p) (take (po_mark p) (gs_stream s)))
     \<and> (\<forall>(cb, cmds, n) \<in> set (gs_finished s). sublist cmds (take n (gs_stream s)))"

abbreviation gs_good :: "gpu_driver \<Rightarrow> nat multiset \<Rightarrow> pending_op list \<Rightarrow> gpu_sched \<Rightarrow> bool" where
  "gs_good D R P s \<equiv> gs_inv_with R P s \<and> ((\<forall>n. gd_record D n = 0) \<longrightarrow> gs_order P s)"

lemma gs_answer_inv: "gs_inv_with (add_mset cb R) P s \<Longrightarrow> gs_inv_with R P (gs_answer cb (Gpu_Error e) s)"
  by (simp add: gs_inv_with_def gs_answer_def)

text \<open>New commands leave what was in front of them.\<close>

lemma take_extends: "sublist xs (take n ys) \<Longrightarrow> sublist xs (take n (ys @ zs))"
  by (auto intro: sublist_order.order_trans)

lemma gs_order_stream: "gs_order P s \<Longrightarrow> gs_order P (s\<lparr>gs_stream := gs_stream s @ cmds\<rparr>)"
  by (fastforce simp: gs_order_def dest: take_extends)

lemma acquire_event_inv:
  assumes "gs_inv_with R P s" "acquire_event D s = (Inr ev, s')"
  shows "ev < gs_events s' \<and> ev \<notin> set (map po_event P) \<and> gs_inv_with R P s' \<and> ev \<notin> set (gs_event_pool s')
    \<and> gs_stream s' = gs_stream s \<and> gs_recorded s' = gs_recorded s \<and> gs_finished s' = gs_finished s \<and> gs_pending s' = gs_pending s"
proof (cases "gs_event_pool s = []")
  case False
  then obtain es where es: "gs_event_pool s = es @ [ev]" "s' = s\<lparr>gs_event_pool := es\<rparr>"
    using assms(2) by (auto simp: acquire_event_def) (metis append_butlast_last_id)
  then show ?thesis using assms(1) by (auto simp: gs_inv_with_def)
next
  case True
  then have "ev = gs_events s" "s' = (gs_call s)\<lparr>gs_events := Suc (gs_events s)\<rparr>"
    using assms(2) by (auto simp: acquire_event_def split: sum.splits)
  then show ?thesis using assms(1) True by (force simp: gs_inv_with_def gs_call_def)
qed

lemma acquire_event_fails:
  "acquire_event D s = (Inl e, s') \<Longrightarrow> s' = gs_call s"
  by (auto simp: acquire_event_def split: if_splits sum.splits)

lemma gs_call_keeps [simp]: "gs_inv_with R P (gs_call s) = gs_inv_with R P s" "gs_order P (gs_call s) = gs_order P s"
  "gs_inv_with R P (s\<lparr>gs_stream := x\<rparr>) = gs_inv_with R P s"
  "gs_pending (gs_call s) = gs_pending s" "gs_stream (gs_call s) = gs_stream s" "gs_calls (gs_call s) = Suc (gs_calls s)"
  by (simp_all add: gs_inv_with_def gs_order_def gs_call_def)

lemma gs_answer_order [simp]: "gs_order P (gs_answer cb a s) = gs_order P s" "gs_pending (gs_answer cb a s) = gs_pending s"
  by (simp_all add: gs_order_def gs_answer_def)

lemma run_work_keeps:
  "run_work work w s = (ex, cmds, s') \<Longrightarrow> gs_inv_with R P s' = gs_inv_with R P s \<and> gs_order P s' = gs_order P s \<and> gs_pending s' = gs_pending s"
  by (auto simp: run_work_def gs_inv_with_def gs_order_def split: prod.splits)

lemma submit_req_good:
  assumes "gs_good D (add_mset (gr_cb r) R) (gs_pending s) s"
  shows "gs_good D R (gs_pending (submit_req D work r s)) (submit_req D work r s)"
proof -
  obtain ex cmds s0 where w: "run_work work (gr_work r) s = (ex, cmds, s0)" by (cases "run_work work (gr_work r) s")
  let ?s1 = "s0\<lparr>gs_stream := gs_stream s0 @ cmds\<rparr>"
  have p: "gs_pending ?s1 = gs_pending s" using run_work_keeps [OF w] by simp
  have g: "gs_good D (add_mset (gr_cb r) R) (gs_pending s) ?s1"
    using assms run_work_keeps [OF w] gs_order_stream [of _ s0 cmds] by simp
  consider (failed) e where "ex = Some e" | (no_event) e s2 where "ex = None" "acquire_event D ?s1 = (Inl e, s2)"
    | (recorded) ev s2 where "ex = None" "acquire_event D ?s1 = (Inr ev, s2)"
    by (cases ex; cases "acquire_event D ?s1"; cases "fst (acquire_event D ?s1)") auto
  then show ?thesis
  proof cases
    case failed
    then show ?thesis using g p gs_answer_inv by (simp add: submit_req_def w)
  next
    case no_event
    then show ?thesis using g p gs_answer_inv acquire_event_fails [OF no_event(2)] by (simp add: submit_req_def w)
  next
    case recorded
    note a = acquire_event_inv [OF conjunct1 [OF g] recorded(2)]
    let ?p = "\<lparr>po_event = ev, po_cb = gr_cb r, po_cmds = cmds, po_mark = length (gs_stream s2)\<rparr>"
    let ?s3 = "(event_record D ev s2)\<lparr>gs_pending := gs_pending s @ [?p]\<rparr>"
    have s3: "submit_req D work r s = ?s3" using recorded a p by (simp add: submit_req_def w event_record_def)
    have "gs_inv_with R (gs_pending s @ [?p]) ?s3" using a by (auto simp: gs_inv_with_def event_record_def gs_call_def)
    moreover have "gs_order (gs_pending s @ [?p]) ?s3" if r: "\<forall>n. gd_record D n = 0"
    proof -
      have "suffix cmds (gs_stream s2)" using a by (simp add: suffix_def)
      moreover have "gs_order (gs_pending s) s2" using g r a by (simp add: gs_order_def)
      ultimately show ?thesis using r a by (auto simp: gs_order_def event_record_def gs_call_def)
    qed
    ultimately show ?thesis by (simp add: s3)
  qed
qed

lemma submit_all_good:
  "gs_good D (image_mset gr_cb (mset rs) + R) (gs_pending s) s \<Longrightarrow>
     gs_good D R (gs_pending (fold (submit_req D work) rs s)) (fold (submit_req D work) rs s)"
proof (induction rs arbitrary: s)
  case (Cons r rs)
  from submit_req_good [where D = D and r = r and R = "image_mset gr_cb (mset rs) + R" and s = s and work = work] Cons.prems
  have "gs_good D (image_mset gr_cb (mset rs) + R) (gs_pending (submit_req D work r s)) (submit_req D work r s)" by simp
  from Cons.IH [OF this] show ?case by simp
qed simp

lemma finish_op_good:
  assumes g: "gs_good D R (ks @ p # ps) s" and q: "event_query D (po_event p) s = 0"
  shows "gs_good D R (ks @ ps) (finish_op D p s)"
proof -
  have "gs_inv_with R (ks @ ps) (finish_op D p s)"
    using g by (auto simp: gs_inv_with_def finish_op_def release_event_def gs_answer_def gs_call_def)
  moreover have "gs_order (ks @ ps) (finish_op D p s)" if "\<forall>n. gd_record D n = 0"
  proof -
    have o: "gs_order (ks @ p # ps) s" using g that by blast
    then have m: "gs_recorded s (po_event p) = Some (po_mark p)" "suffix (po_cmds p) (take (po_mark p) (gs_stream s))"
      by (simp_all add: gs_order_def)
    have "po_mark p \<le> gd_progress D (gs_calls s)" using q m(1) by (simp add: event_query_def split: if_splits)
    then have "prefix (take (po_mark p) (gs_stream s)) (take (gd_progress D (gs_calls s)) (gs_stream s))"
      by (metis min.absorb1 take_is_prefix take_take)
    with m(2) have "sublist (po_cmds p) (take (gd_progress D (gs_calls s)) (gs_stream s))"
      by (meson prefix_imp_sublist suffix_imp_sublist sublist_order.order_trans)
    with o show ?thesis by (auto simp: gs_order_def finish_op_def release_event_def gs_answer_def gs_call_def)
  qed
  ultimately show ?thesis by blast
qed

lemma poll_pending_good:
  "poll_pending D ps s = (w, ks, s') \<Longrightarrow> gs_good D R (ks0 @ ps) s \<Longrightarrow> gs_good D R (ks0 @ ks) s'"
proof (induction D ps s arbitrary: w ks s' ks0 rule: poll_pending.induct)
  case (2 D p ps s)
  show ?case
  proof (cases "event_query D (po_event p) s = 0")
    case True
    obtain w1 ks1 s1 where r: "poll_pending D ps (finish_op D p s) = (w1, ks1, s1)" by (cases "poll_pending D ps (finish_op D p s)")
    with "2.prems"(1) True have "ks = ks1" "s' = s1" by auto
    with "2.IH"(1) [OF True r finish_op_good [OF "2.prems"(2) True]] show ?thesis by simp
  next
    case False
    obtain w1 ks1 s1 where r: "poll_pending D ps (gs_call s) = (w1, ks1, s1)" by (cases "poll_pending D ps (gs_call s)")
    with "2.prems"(1) False have "ks = p # ks1" "s' = s1" by auto
    with "2.IH"(2) [OF False r, of "ks0 @ [p]"] "2.prems"(2) show ?thesis by simp
  qed
qed simp

lemma ensure_ctx_bound_keeps:
  "ensure_ctx_bound D s = (r, s') \<Longrightarrow> gs_inv_with R P s' = gs_inv_with R P s \<and> gs_order P s' = gs_order P s \<and> gs_pending s' = gs_pending s"
  by (auto simp: ensure_ctx_bound_def gs_inv_with_def gs_order_def gs_call_def split: if_splits sum.splits)

lemma gs_advance_good:
  assumes "gs_good D {#} (gs_pending s) s"
  shows "gs_good D {#} (gs_pending (snd (gs_advance D work s))) (snd (gs_advance D work s))"
proof -
  obtain b s0 where b: "ensure_ctx_bound D s = (b, s0)" by (cases "ensure_ctx_bound D s")
  then have g0: "gs_good D {#} (gs_pending s0) s0" using assms ensure_ctx_bound_keeps [OF b] by simp
  show ?thesis
  proof (cases b)
    case Inl
    then show ?thesis using g0 by (simp add: gs_advance_def b)
  next
    case Inr
    obtain w rs q where d: "pc_drain (gs_req_q s0) = (w, rs, q)" by (cases "pc_drain (gs_req_q s0)")
    let ?s = "s0\<lparr>gs_req_q := q\<rparr>" and ?s1 = "fold (submit_req D work) rs (s0\<lparr>gs_req_q := q\<rparr>)"
    have "pcq_inv (gs_req_q s0)" using g0 by (simp add: gs_inv_with_def)
    from pc_drain_items [OF this d] g0 have "gs_good D (image_mset gr_cb (mset rs) + {#}) (gs_pending ?s) ?s"
      by (auto simp: gs_inv_with_def gs_order_def ac_simps)
    from submit_all_good [OF this] have g1: "gs_good D {#} (gs_pending ?s1) ?s1" .
    obtain w2 ks s2 where p: "poll_pending D (gs_pending ?s1) ?s1 = (w2, ks, s2)" by (cases "poll_pending D (gs_pending ?s1) ?s1")
    from poll_pending_good [OF p, of "{#}" "[]"] g1 have "gs_good D {#} ks s2" by simp
    moreover have "snd (gs_advance D work s) = s2\<lparr>gs_pending := ks\<rparr>" using Inr by (simp add: gs_advance_def b drain_reqs_def d p)
    ultimately show ?thesis by (simp add: gs_inv_with_def gs_order_def)
  qed
qed

lemma gs_capture_keeps [simp]:
  "gs_inv_with R P (s\<lparr>gs_capturing := c\<rparr>) = gs_inv_with R P s" "gs_order P (s\<lparr>gs_capturing := c\<rparr>) = gs_order P s"
  "gs_inv_with R P (s\<lparr>gs_graphs := n\<rparr>) = gs_inv_with R P s" "gs_order P (s\<lparr>gs_graphs := n\<rparr>) = gs_order P s"
  by (simp_all add: gs_inv_with_def gs_order_def)

lemma gs_capture_good:
  assumes "gs_good D {#} (gs_pending s) s"
  shows "gs_good D {#} (gs_pending (snd (gs_capture D work b e i w s))) (snd (gs_capture D work b e i w s))"
proof -
  obtain c s0 where c: "ensure_ctx_bound D s = (c, s0)" by (cases "ensure_ctx_bound D s")
  then have g0: "gs_good D {#} (gs_pending s0) s0" using assms ensure_ctx_bound_keeps [OF c] by simp
  obtain ex cmds s1 where r: "run_work work w (s0\<lparr>gs_capturing := True\<rparr>) = (ex, cmds, s1)"
    by (cases "run_work work w (s0\<lparr>gs_capturing := True\<rparr>)")
  have "gs_good D {#} (gs_pending s1) s1" using g0 run_work_keeps [OF r] by simp
  with g0 show ?thesis
    by (cases c; cases "check_cu b"; cases ex; cases "check_cu e"; cases "check_cu i")
      (simp_all add: gs_capture_def c r Let_def)
qed

lemma gs_reach_good:
  "gs_reach D work s0 s \<Longrightarrow> gs_good D {#} (gs_pending s0) s0 \<Longrightarrow> gs_good D {#} (gs_pending s) s"
proof (induction rule: gs_reach.induct)
  case (gs_go s s')
  from gs_go(2) show ?case
  proof cases
    case (gs_issue core r)
    obtain res q where q: "pc_try_enqueue True core r (gs_req_q s) = (res, q)" by (cases "pc_try_enqueue True core r (gs_req_q s)")
    then have r: "res = Pc_Ok" "s' = s\<lparr>gs_req_q := q, gs_issued := gs_issued s @ [gr_cb r]\<rparr>"
      using gs_issue(2) pc_enqueue_aborts [OF q] by (cases res; auto simp: gs_schedule_def)+
    have g: "gs_good D {#} (gs_pending s) s" using gs_go by blast
    then have "pcq_inv (gs_req_q s)" by (simp add: gs_inv_with_def)
    from pc_try_enqueue_items [OF this gs_issue(1) q] r g show ?thesis by (auto simp: gs_inv_with_def gs_order_def ac_simps)
  next
    case gs_turn
    then show ?thesis using gs_go gs_advance_good by blast
  next
    case (gs_cap b e i w)
    then show ?thesis using gs_go gs_capture_good by blast
  qed
qed simp

interpretation gs: request_contract "gs_reach D work" "\<lambda>s. gs_good D {#} (gs_pending s) s" "\<lambda>s. mset (gs_issued s)"
    "\<lambda>s. image_mset fst (mset (gs_answers s))"
    "\<lambda>s. image_mset po_cb (mset (gs_pending s)) + image_mset gr_cb (mset (pc_items (gs_req_q s)))" for D work
  by unfold_locales (erule (1) gs_reach_good, simp add: gs_inv_with_def ac_simps)

lemma gs_new_good: "gs_new dev ctx stream = Some (Inr s0) \<Longrightarrow> gs_good D {#} (gs_pending s0) s0"
  by (auto simp: gs_new_def check_cu_def gs_inv_with_def gs_order_def dest!: pc_new_items split: if_splits)

text \<open>
  C25: (safety) Whatever the functions of the requests do, and whatever calls of the driver fail: every
  request of the CUDA scheduler is answered once, pending or queued; an event never marks two pending
  requests, and none that is pending is in the pool; when recording an event never fails, a request that
  is told it is done has had all its commands executed by the device at that moment.
\<close>

theorem gpu_requests_answered_once:
  assumes "gs_new dev ctx stream = Some (Inr s0)" "gs_reach D work s0 s"
  shows "image_mset fst (mset (gs_answers s)) + image_mset po_cb (mset (gs_pending s))
        + image_mset gr_cb (mset (pc_items (gs_req_q s))) = mset (gs_issued s)
    \<and> distinct (map po_event (gs_pending s) @ gs_event_pool s)
    \<and> map fst (gs_finished s) = map fst (filter (\<lambda>a. snd a = Gpu_Done) (gs_answers s))
    \<and> ((\<forall>n. gd_record D n = 0) \<longrightarrow> (\<forall>(cb, cmds, n) \<in> set (gs_finished s). sublist cmds (take n (gs_stream s))))"
  using gs.settled [OF assms(2) gs_new_good [OF assms(1)]] gs.reach_inv [OF assms(2) gs_new_good [OF assms(1)]]
  by (simp add: gs_inv_with_def gs_order_def ac_simps)


text \<open>A request of core 1.\<close>

definition plain_gpu :: gpu_driver where
  "plain_gpu = \<lparr>gd_bind = (\<lambda>_. 0), gd_create = (\<lambda>_. 0), gd_record = (\<lambda>_. 0), gd_query = (\<lambda>_. 0), gd_progress = (\<lambda>_. 1)\<rparr>"

definition one_command :: gpu_work where
  "one_command w pools = (None, pools, [w])"

lemma gpu_requests_answered_once_witness:
  "\<exists>s0 s. gs_reach plain_gpu one_command s0 s \<and> gs_issued s = [7]
     \<and> image_mset fst (mset (gs_answers s)) + image_mset po_cb (mset (gs_pending s))
        + image_mset gr_cb (mset (pc_items (gs_req_q s))) = {#7#}"
proof -
  have "pc_new \<lparr>gr_work = 0, gr_cb = 0\<rparr> 1024 (- 1) \<noteq> None" by (simp add: pc_new_def lq_new_def sp_new_def)
  then obtain s0 where s0: "gs_new 0 0 0 = Some (Inr s0)" by (auto simp: gs_new_def check_cu_def)
  then have f: "pcq_inv (gs_req_q s0)" "pc_items (gs_req_q s0) = []" "pc_capacity (gs_req_q s0) = 1024" "gs_issued s0 = []"
    by (auto simp: gs_new_def check_cu_def dest!: pc_new_items)
  let ?r = "\<lparr>gr_work = 3, gr_cb = 7\<rparr>"
  have c: "core_ok (gs_req_q s0) 1" by (simp add: core_ok_def MAX_CORES_def)
  obtain q where q: "pc_try_enqueue True 1 ?r (gs_req_q s0) = (Pc_Ok, q)" using pc_enqueue_room [OF f(1) c, of True ?r] f by auto
  let ?s = "s0\<lparr>gs_req_q := q, gs_issued := [7]\<rparr>"
  have "gs_schedule 1 ?r s0 = Some ?s" by (simp add: gs_schedule_def q f(4))
  then have r: "gs_reach plain_gpu one_command s0 ?s" by (intro gs_go [OF gs_start gs_issue [OF c]])
  show ?thesis using r gpu_requests_answered_once [OF s0 r] by (intro exI [of _ s0] exI [of _ ?s]) simp
qed

subsection \<open>Where failures of the driver go wrong\<close>

text \<open>
  The result of recording an event is not looked at. If it fails for an event that is used
  again, the event still says that its old place was passed: the request is told it is done at
  once, whatever its commands.
\<close>

lemma failed_record_goes_on:
  assumes "gs_event_pool s = [ev]" "gs_recorded s ev = Some m" "\<forall>n. m \<le> gd_progress D n" "\<forall>n. gd_record D n \<noteq> 0"
    "\<forall>n. gd_query D n = 0" "work (gr_work r) (gs_dev_pool s, gs_pin_pool s) = (None, pools, cmds)" "gs_pending s = []"
  shows "gs_answers (snd (snd (poll_pending D (gs_pending (submit_req D work r s)) (submit_req D work r s))))
    = gs_answers s @ [(gr_cb r, Gpu_Done)]"
  using assms by (cases pools) (simp add: submit_req_def run_work_def acquire_event_def event_record_def event_query_def
    gs_call_def finish_op_def release_event_def gs_answer_def)

text \<open>When no event can be created the request is told it failed, but its commands are on the stream and run.\<close>

lemma failed_request_still_runs:
  assumes "gs_event_pool s = []" "gd_create D (gs_calls s) = e" "e \<noteq> 0"
    "work (gr_work r) (gs_dev_pool s, gs_pin_pool s) = (None, pools, cmds)"
  shows "gs_answers (submit_req D work r s) = gs_answers s @ [(gr_cb r, Gpu_Error e)]
    \<and> gs_stream (submit_req D work r s) = gs_stream s @ cmds"
  using assms by (cases pools) (simp add: submit_req_def run_work_def acquire_event_def check_cu_def gs_call_def gs_answer_def)

text \<open>A query that fails counts as not ready: after an error of the device no pending request is ever answered.\<close>

lemma device_error_hangs:
  "\<forall>n. gd_query D n \<noteq> 0 \<Longrightarrow> fst (snd (poll_pending D ps s)) = ps \<and> gs_answers (snd (snd (poll_pending D ps s))) = gs_answers s"
  by (induction D ps s rule: poll_pending.induct) (auto simp: event_query_def gs_call_def split: prod.splits)

text \<open>A function that throws inside \<open>capture\<close> leaves the stream capturing; a graph that cannot be instantiated is lost.\<close>

lemma capture_left_open:
  "gs_ctx_bound s \<Longrightarrow> work w (gs_dev_pool s, gs_pin_pool s) = (Some c, pools, cmds) \<Longrightarrow> gs_capturing (snd (gs_capture D work 0 e i w s))"
  by (cases pools) (simp add: gs_capture_def ensure_ctx_bound_def check_cu_def run_work_def)

lemma graph_lost:
  "gs_ctx_bound s \<Longrightarrow> work w (gs_dev_pool s, gs_pin_pool s) = (None, pools, cmds) \<Longrightarrow> i \<noteq> 0 \<Longrightarrow>
     gs_graphs (snd (gs_capture D work 0 0 i w s)) = Suc (gs_graphs s)"
  by (cases pools) (simp add: gs_capture_def ensure_ctx_bound_def check_cu_def run_work_def)

end
