(* ===== verification/Sched_Senders.thy ===== *)
theory Sched_Senders
  imports Pipeline Kcp_Epoll Udp_Epoll Nvme Cuda
begin

section \<open>Operators that wait for a scheduler\<close>


subsection \<open>What the callbacks push\<close>

definition session_closed_error :: exc where "session_closed_error = Std_Exc 1"
definition enqueue_failed_error :: exc where "enqueue_failed_error = Std_Exc 2"
definition join_failed_error :: exc where "join_failed_error = Std_Exc 3"
definition stop_failed_error :: exc where "stop_failed_error = Std_Exc 4"
definition runtime_error :: exc where "runtime_error = Std_Exc 5"

definition task_signal :: signal where "task_signal = S_Value []"
definition timer_signal :: signal where "timer_signal = S_Value []"

definition gpu_run_signal :: "gpu_answer \<Rightarrow> signal" where
  "gpu_run_signal a = (case a of Gpu_Done \<Rightarrow> S_Value [] | Gpu_Error e \<Rightarrow> S_Exc (Std_Exc (nat \<bar>e\<bar>)))"

definition join_signal :: "bool \<Rightarrow> signal" where
  "join_signal res = (if res then S_Value [] else S_Exc join_failed_error)"

definition stop_signal :: "bool \<Rightarrow> signal" where
  "stop_signal res = (if res then S_Value [] else S_Exc stop_failed_error)"

definition conn_signal :: "int \<Rightarrow> signal" where "conn_signal fd = S_Value [V_Int fd]"
definition connect_signal :: "int \<Rightarrow> signal" where "connect_signal fd = S_Value [V_Int fd]"

text \<open>\<open>ptr\<close>: where the bytes of a frame are.\<close>

definition recv_signal :: "(net_frame \<Rightarrow> nat) \<Rightarrow> 'r recv_event \<Rightarrow> signal" where
  "recv_signal ptr ev =
     (case ev of
        Recv_Value r f \<Rightarrow> S_Value [V_Ptr (ptr f)]
      | Recv_Closed r \<Rightarrow> S_Exc session_closed_error
      | Recv_Failed r \<Rightarrow> S_Exc enqueue_failed_error)"

definition send_signal :: "bool \<Rightarrow> signal" where "send_signal ok = S_Value [V_Bool ok]"

definition session_value :: "u32 option \<Rightarrow> val" where
  "session_value ses = (case ses of Some conv \<Rightarrow> V_Ptr (unat conv) | None \<Rightarrow> V_Null)"

definition kcp_accept_signal :: "u32 option \<Rightarrow> signal" where "kcp_accept_signal ses = S_Value [session_value ses]"

definition kcp_connect_signal :: "u32 option + exc \<Rightarrow> signal" where
  "kcp_connect_signal res = (case res of Inl ses \<Rightarrow> S_Value [session_value ses] | Inr e \<Rightarrow> S_Exc e)"

text \<open>What the callbacks of KCP requests make of an answer of the scheduler; other answers do not reach them.\<close>

definition kcp_signal :: "kcp_answer \<Rightarrow> signal" where
  "kcp_signal a =
     (case a of
        K_Session ses \<Rightarrow> kcp_connect_signal (Inl ses)
      | K_Timeout \<Rightarrow> kcp_connect_signal (Inr runtime_error)
      | K_Sent ok \<Rightarrow> send_signal ok)"

definition udp_recv_signal :: "(byte list \<Rightarrow> nat) \<Rightarrow> udp_recv_result \<Rightarrow> signal" where
  "udp_recv_signal ptr res =
     (case res of
        Recv_Datagram (d, src) \<Rightarrow> S_Value [V_Ptr (ptr d), V_Ptr src]
      | Recv_Queue_Full \<Rightarrow> S_Exc runtime_error
      | Recv_Shutdown \<Rightarrow> S_Exc runtime_error)"

definition udp_send_signal :: "bool \<Rightarrow> signal" where "udp_send_signal ok = S_Value [V_Bool ok]"

text \<open>The results of NVMe requests are one value that holds the page and the status.\<close>

definition put_signal :: "nat \<Rightarrow> u8 \<Rightarrow> signal" where "put_signal page status = S_Value [V_Obj page (uint status)]"
definition get_signal :: "nat \<Rightarrow> u8 \<Rightarrow> signal" where "get_signal page status = S_Value [V_Obj page (uint status)]"
definition flush_signal :: "u8 \<Rightarrow> signal" where "flush_signal status = S_Value [V_Int (uint status)]"
definition trim_signal :: "u8 \<Rightarrow> signal" where "trim_signal status = S_Value [V_Int (uint status)]"

definition nvme_signal :: "nv_answer \<Rightarrow> signal" where
  "nvme_signal a =
     (case a of
        Got cb page status \<Rightarrow> get_signal page status
      | Was_Put cb page status \<Rightarrow> put_signal page status
      | Flushed cb status \<Rightarrow> flush_signal status
      | Trimmed cb status \<Rightarrow> trim_signal status)"

text \<open>Which failures travel as exceptions and which as values.\<close>

lemma failures_as_exceptions:
  "join_signal False = S_Exc join_failed_error" "stop_signal False = S_Exc stop_failed_error"
  "recv_signal ptr (Recv_Closed r) = S_Exc session_closed_error" "kcp_signal K_Timeout = S_Exc runtime_error"
  "udp_recv_signal uptr Recv_Shutdown = S_Exc runtime_error" "gpu_run_signal (Gpu_Error 2) = S_Exc (Std_Exc 2)"
  by (simp_all add: join_signal_def stop_signal_def recv_signal_def kcp_signal_def kcp_connect_signal_def
      udp_recv_signal_def gpu_run_signal_def)

lemma failures_as_values:
  "conn_signal (- 1) = S_Value [V_Int (- 1)]" "connect_signal (- 1) = S_Value [V_Int (- 1)]"
  "send_signal False = S_Value [V_Bool False]" "udp_send_signal False = S_Value [V_Bool False]"
  "kcp_signal (K_Session None) = S_Value [V_Null]" "nvme_signal (Got cb page 1) = S_Value [V_Obj page 1]"
  by (simp_all add: conn_signal_def connect_signal_def send_signal_def udp_send_signal_def kcp_signal_def
      kcp_connect_signal_def session_value_def nvme_signal_def get_signal_def)

subsection \<open>Pipelines that wait\<close>









subsection \<open>The direct reading\<close>











subsection \<open>The pushers implement the reading\<close>























end
