(* ===== verification/Tcp_Listen.thy ===== *)
theory Tcp_Listen
  imports Tcp_Uring
begin

unbundle bit_operations_syntax

section \<open>Opening and closing the TCP schedulers\<close>

text \<open>
  The \<open>init\<close> functions and destructors of \<open>accept_scheduler\<close>, in
  \<^verbatim>\<open>src/env/scheduler/net/tcp/epoll/scheduler.hh\<close> and \<^verbatim>\<open>tcp/io_uring/scheduler.hh\<close>, and the
  destructors of the connect schedulers. \<open>listen_kernel\<close> holds what the system calls of one \<open>init\<close>
  answer; \<open>sys_call\<close> is a call as the kernel sees it, with its answer where the code reads
  it, and \<open>li_calls\<close> is the history of calls. \<open>inet_pton\<close> is a function from texts
  to addresses that is undefined on texts that are no address. The option numbers are those of
  Linux on x86.
\<close>

record listen_kernel =
  lk_socket :: int
  lk_pton :: "string \<rightharpoonup> u32"
  lk_bind :: int
  lk_listen :: int
  lk_ring :: int
  lk_sqe :: bool

datatype sys_call =
  Sys_Socket int
| Sys_Sockopt int u32
| Sys_Bind int u16 u32
| Sys_Listen int
| Sys_Watch int
| Sys_Ring int
| Sys_Accept int
| Sys_Close int
| Sys_Ring_Exit

text \<open>The descriptor of the listening socket (\<open>listen_fd\<close>, \<open>server_socket\<close>).\<close>

record listener =
  li_fd :: int
  li_calls :: "sys_call list"

definition li_new :: listener where
  "li_new = \<lparr>li_fd = - 1, li_calls = []\<rparr>"

definition sys :: "sys_call \<Rightarrow> listener \<Rightarrow> listener" where
  "sys c l = l\<lparr>li_calls := li_calls l @ [c]\<rparr>"

definition htons :: "u16 \<Rightarrow> u16" where
  "htons p = push_bit 8 p OR drop_bit 8 p"

definition SO_REUSEADDR :: u32 where "SO_REUSEADDR = 2"
definition SO_REUSEPORT :: u32 where "SO_REUSEPORT = 15"

text \<open>\<open>sin_addr\<close> of an address that was zeroed before \<open>inet_pton\<close>, whose answer is not read.\<close>

definition bind_addr :: "listen_kernel \<Rightarrow> string \<Rightarrow> u32" where
  "bind_addr k address = (case lk_pton k address of Some a \<Rightarrow> a | None \<Rightarrow> 0)"

definition close_listener :: "listener \<Rightarrow> listener" where
  "close_listener l = (sys (Sys_Close (li_fd l)) l)\<lparr>li_fd := - 1\<rparr>"

text \<open>The part the two schedulers share: a socket that is bound and listens, or nothing.\<close>

definition open_listener :: "listen_kernel \<Rightarrow> string \<Rightarrow> u16 \<Rightarrow> listener \<Rightarrow> bool \<times> listener" where
  "open_listener k address port l =
     (let l = (sys (Sys_Socket (lk_socket k)) l)\<lparr>li_fd := lk_socket k\<rparr> in
      if li_fd l < 0 then (False, l)
      else
        (let l = sys (Sys_Sockopt (li_fd l) (SO_REUSEADDR OR SO_REUSEPORT)) l;
             l = sys (Sys_Bind (li_fd l) (htons port) (bind_addr k address)) l in
         if lk_bind k < 0 then (False, close_listener l)
         else
           (let l = sys (Sys_Listen (li_fd l)) l in
            if lk_listen k < 0 then (False, close_listener l) else (True, l))))"

definition epoll_listen_init :: "listen_kernel \<Rightarrow> string \<Rightarrow> u16 \<Rightarrow> listener \<Rightarrow> int \<times> listener" where
  "epoll_listen_init k address port l =
     (let (ok, l) = open_listener k address port l in
      if \<not> ok then (- 1, l) else (0, sys (Sys_Watch (li_fd l)) l))"

definition uring_listen_init :: "listen_kernel \<Rightarrow> string \<Rightarrow> u16 \<Rightarrow> listener \<Rightarrow> int \<times> listener" where
  "uring_listen_init k address port l =
     (let (ok, l) = open_listener k address port l in
      if \<not> ok then (- 1, l)
      else
        (let l = sys (Sys_Ring (lk_ring k)) l in
         if lk_ring k < 0 then (- 1, close_listener l)
         else (0, if lk_sqe k then sys (Sys_Accept (li_fd l)) l else l)))"

definition epoll_listen_destroy :: "listener \<Rightarrow> listener" where
  "epoll_listen_destroy l = (if 0 \<le> li_fd l then sys (Sys_Close (li_fd l)) l else l)"

definition uring_listen_destroy :: "listener \<Rightarrow> listener" where
  "uring_listen_destroy l = (if 0 \<le> li_fd l then sys Sys_Ring_Exit (sys (Sys_Close (li_fd l)) l) else l)"

text \<open>
  The connect and session schedulers over io_uring make a ring in \<open>init\<close> and leave it in the
  destructor, the first with -1 for an error and the second with the kernel's answer.
\<close>

definition uring_connect_init :: "listen_kernel \<Rightarrow> listener \<Rightarrow> int \<times> listener" where
  "uring_connect_init k l = (let l = sys (Sys_Ring (lk_ring k)) l in if lk_ring k < 0 then (- 1, l) else (0, l))"

definition uring_session_init :: "listen_kernel \<Rightarrow> listener \<Rightarrow> int \<times> listener" where
  "uring_session_init k l = (lk_ring k, sys (Sys_Ring (lk_ring k)) l)"

definition uring_session_destroy :: "listener \<Rightarrow> listener" where
  "uring_session_destroy l = sys Sys_Ring_Exit l"

text \<open>
  The destructors of the connect schedulers close the sockets of the connects that are pending;
  their requests are neither answered nor freed. The second also leaves the ring.
\<close>

definition cn_destroy :: "connect_sched \<Rightarrow> connect_sched" where
  "cn_destroy s = s\<lparr>cn_closed := cn_closed s @ map fst (cn_pending s)\<rparr>"

definition uring_connect_destroy :: "connect_sched \<times> listener \<Rightarrow> connect_sched \<times> listener" where
  "uring_connect_destroy = (\<lambda>(s, l). (cn_destroy s, sys Sys_Ring_Exit l))"

subsection \<open>Descriptors and rings\<close>

fun opened_by :: "sys_call \<Rightarrow> int list" where
  "opened_by (Sys_Socket fd) = (if 0 \<le> fd then [fd] else [])"
| "opened_by _ = []"

fun closed_by :: "sys_call \<Rightarrow> int list" where
  "closed_by (Sys_Close fd) = [fd]"
| "closed_by _ = []"

definition opened :: "listener \<Rightarrow> int list" where "opened l = concat (map opened_by (li_calls l))"
definition closed :: "listener \<Rightarrow> int list" where "closed l = concat (map closed_by (li_calls l))"

text \<open>Rings that were made and not left.\<close>

fun ring_change :: "sys_call \<Rightarrow> int" where
  "ring_change (Sys_Ring r) = (if 0 \<le> r then 1 else 0)"
| "ring_change Sys_Ring_Exit = - 1"
| "ring_change _ = 0"

definition rings :: "listener \<Rightarrow> int" where "rings l = sum_list (map ring_change (li_calls l))"

text \<open>What is open is the descriptor the scheduler holds.\<close>

definition li_inv :: "listener \<Rightarrow> bool" where
  "li_inv l \<longleftrightarrow> mset (opened l) = mset (closed l) + (if 0 \<le> li_fd l then {#li_fd l#} else {#})"

lemma li_fd_sys [simp]: "li_fd (sys c l) = li_fd l"
  by (simp add: sys_def)

lemma li_calls_sys [simp]: "li_calls (sys c l) = li_calls l @ [c]"
  by (simp add: sys_def)

lemmas listen_defs = open_listener_def epoll_listen_init_def uring_listen_init_def close_listener_def
  epoll_listen_destroy_def uring_listen_destroy_def Let_def opened_def closed_def rings_def li_inv_def

lemma open_listener_inv:
  "li_inv l \<Longrightarrow> li_fd l < 0 \<Longrightarrow> open_listener k address port l = (ok, l') \<Longrightarrow>
     li_inv l' \<and> rings l' = rings l \<and> (ok \<longleftrightarrow> 0 \<le> li_fd l')"
  by (auto simp: listen_defs split: if_splits)

lemma epoll_init_inv:
  assumes "li_inv l" "li_fd l < 0" "epoll_listen_init k address port l = (r, l')"
  shows "li_inv l' \<and> (r = 0 \<and> 0 \<le> li_fd l' \<or> r = - 1 \<and> li_fd l' < 0)"
  using assms open_listener_inv [OF assms(1,2)]
  by (cases "open_listener k address port l") (auto simp: epoll_listen_init_def li_inv_def opened_def closed_def split: if_splits)

lemma uring_init_inv:
  assumes "li_inv l" "li_fd l < 0" "uring_listen_init k address port l = (r, l')"
  shows "li_inv l' \<and> (r = 0 \<and> 0 \<le> li_fd l' \<and> rings l' = rings l + 1 \<or> r = - 1 \<and> li_fd l' < 0 \<and> rings l' = rings l)"
  using assms open_listener_inv [OF assms(1,2)]
  by (cases "open_listener k address port l")
    (auto simp: uring_listen_init_def close_listener_def li_inv_def opened_def closed_def rings_def Let_def split: if_splits)

text \<open>
  Whatever the system calls answer, an initialised and then destroyed scheduler has closed what it
  opened, and left the ring it made.
\<close>

lemma epoll_listener_closes:
  "mset (closed (epoll_listen_destroy (snd (epoll_listen_init k address port li_new))))
     = mset (opened (epoll_listen_destroy (snd (epoll_listen_init k address port li_new))))"
proof -
  obtain r l where i: "epoll_listen_init k address port li_new = (r, l)" by fastforce
  have "li_inv li_new" "li_fd li_new < 0" by (simp_all add: li_inv_def li_new_def opened_def closed_def)
  from epoll_init_inv [OF this i] show ?thesis
    by (auto simp: i epoll_listen_destroy_def li_inv_def opened_def closed_def)
qed

lemma uring_listener_closes:
  fixes k address port
  defines "l \<equiv> uring_listen_destroy (snd (uring_listen_init k address port li_new))"
  shows "mset (closed l) = mset (opened l)" "rings l = 0"
proof -
  obtain r l' where i: "uring_listen_init k address port li_new = (r, l')" by fastforce
  have n: "li_inv li_new" "li_fd li_new < 0" "rings li_new = 0"
    by (simp_all add: li_inv_def li_new_def opened_def closed_def rings_def)
  from uring_init_inv [OF n(1,2) i] n(3) show "mset (closed l) = mset (opened l)" "rings l = 0"
    by (auto simp: l_def i uring_listen_destroy_def li_inv_def opened_def closed_def rings_def)
qed

text \<open>When \<open>init\<close> answers 0, and the address it is bound to: network byte order.\<close>

lemma epoll_listen_init_result:
  "fst (epoll_listen_init k address port l) = (if 0 \<le> lk_socket k \<and> 0 \<le> lk_bind k \<and> 0 \<le> lk_listen k then 0 else - 1)"
  by (simp add: listen_defs)

lemma uring_listen_init_result:
  "fst (uring_listen_init k address port l)
     = (if 0 \<le> lk_socket k \<and> 0 \<le> lk_bind k \<and> 0 \<le> lk_listen k \<and> 0 \<le> lk_ring k then 0 else - 1)"
  by (simp add: listen_defs)

lemma listener_bound:
  assumes "fst (epoll_listen_init k address port l) = 0"
  shows "Sys_Bind (lk_socket k) (htons port) (bind_addr k address) \<in> set (li_calls (snd (epoll_listen_init k address port l)))"
    and "Sys_Watch (lk_socket k) \<in> set (li_calls (snd (epoll_listen_init k address port l)))"
  using assms by (auto simp: listen_defs split: if_splits)

lemma htons_bytes: "ucast (htons p) = (ucast (drop_bit 8 p) :: 8 word)" "ucast (drop_bit 8 (htons p)) = (ucast p :: 8 word)"
  by (rule bit_word_eqI; auto simp: htons_def bit_simps)+

lemma htons_htons: "htons (htons p) = p"
proof (rule bit_word_eqI)
  fix n assume "n < LENGTH(16)"
  then show "bit (htons (htons p)) n = bit p n"
    by (cases "n < 8") (auto simp: htons_def bit_simps dest: bit_imp_le_length)
qed

subsection \<open>What goes wrong\<close>

text \<open>
  The two option numbers are combined as if they were flags: the number that results is that of
  \<open>SO_REUSEPORT\<close>, and \<open>SO_REUSEADDR\<close> is never set.
\<close>

lemma only_reuse_port: "SO_REUSEADDR OR SO_REUSEPORT = SO_REUSEPORT" "SO_REUSEADDR \<noteq> SO_REUSEPORT"
  by (simp_all add: SO_REUSEADDR_def SO_REUSEPORT_def)

lemma reuse_addr_never_set:
  "Sys_Sockopt fd SO_REUSEADDR \<notin> set (li_calls (snd (epoll_listen_init k address port li_new)))"
  by (auto simp: listen_defs li_new_def only_reuse_port)

text \<open>A text that is no address is not an error: the socket listens on every interface.\<close>

lemma bad_address_binds_any:
  assumes "lk_pton k address = None" "0 \<le> lk_socket k" "0 \<le> lk_bind k" "0 \<le> lk_listen k"
  shows "fst (epoll_listen_init k address port l) = 0"
    and "Sys_Bind (lk_socket k) (htons port) 0 \<in> set (li_calls (snd (epoll_listen_init k address port l)))"
  using assms by (simp_all add: listen_defs bind_addr_def)

text \<open>A second \<open>init\<close> loses the descriptor of the first.\<close>

lemma init_twice_leaks:
  fixes k a p
  defines "l \<equiv> epoll_listen_destroy (snd (epoll_listen_init (k\<lparr>lk_socket := 4\<rparr>) a p (snd (epoll_listen_init (k\<lparr>lk_socket := 3\<rparr>) a p li_new))))"
  assumes "lk_bind k = 0" "lk_listen k = 0"
  shows "3 \<in> set (opened l)" "3 \<notin> set (closed l)"
  using assms(2,3) by (simp_all add: l_def listen_defs li_new_def)

text \<open>A full ring at \<open>init\<close> is success, and nothing is ever accepted (see \<open>accepting_stops\<close>).\<close>

lemma no_entry_no_accept:
  assumes "\<not> lk_sqe k" "0 \<le> lk_socket k" "0 \<le> lk_bind k" "0 \<le> lk_listen k" "0 \<le> lk_ring k"
  shows "fst (uring_listen_init k address port li_new) = 0"
    and "Sys_Accept fd \<notin> set (li_calls (snd (uring_listen_init k address port li_new)))"
  using assms by (simp_all add: listen_defs li_new_def)

text \<open>
  The ring is left also when it was never made: \<^verbatim>\<open>io_uring_queue_exit\<close> on a zeroed ring.
\<close>

lemma ring_left_twice:
  "lk_ring k < 0 \<Longrightarrow> rings (uring_session_destroy (snd (uring_session_init k li_new))) = - 1"
  "lk_ring k < 0 \<Longrightarrow> rings (snd (uring_connect_destroy (s, snd (uring_connect_init k li_new)))) = - 1"
  "rings (uring_session_destroy li_new) = - 1"
  by (simp_all add: uring_session_init_def uring_session_destroy_def uring_connect_init_def uring_connect_destroy_def
      rings_def li_new_def Let_def)

lemma ring_left_once:
  "0 \<le> lk_ring k \<Longrightarrow> rings (uring_session_destroy (snd (uring_session_init k li_new))) = 0"
  "0 \<le> lk_ring k \<Longrightarrow> rings (snd (uring_connect_destroy (s, snd (uring_connect_init k li_new)))) = 0"
  by (simp_all add: uring_session_init_def uring_session_destroy_def uring_connect_init_def uring_connect_destroy_def
      rings_def li_new_def Let_def)

text \<open>A destroyed connect scheduler has closed its pending sockets and answered nobody.\<close>

lemma cn_destroy_leaves_requests: "cn_answers (cn_destroy s) = cn_answers s"
  "set (map fst (cn_pending s)) \<subseteq> set (cn_closed (cn_destroy s))"
  by (auto simp: cn_destroy_def)

end
