(* ===== verification/Nvme_Init.thy ===== *)
theory Nvme_Init
  imports Queue_Accounting
begin

section \<open>Attaching the NVMe devices, and their memory\<close>

text \<open>
  \<^verbatim>\<open>src/env/scheduler/nvme/ssd.hh\<close>: \<open>init_ssds\<close> makes an \<open>ssd\<close> for every
  configuration and lets SPDK probe the bus. SPDK is a parameter: \<open>spdk_ctrlr\<close> holds what
  it answers about a controller, and a run of \<^verbatim>\<open>spdk_nvme_probe\<close> is the list of the callbacks
  it makes with its result. \<open>probe_run_ok\<close> is what SPDK documents of such a run:
  \<^verbatim>\<open>attach_cb\<close> is called only for a device for which \<^verbatim>\<open>probe_cb\<close> returned true before. A
  controller and a namespace are numbers, the null pointer is \<open>None\<close>, an exception is the left
  value of a sum.

  \<^verbatim>\<open>src/env/scheduler/nvme/dma.hh\<close>: \<open>page_dma\<close> gives out pages of a pool of SPDK. Which page
  the pool gives, and whether the allocator has memory, are parameters.
\<close>

subsection \<open>Probing\<close>

datatype trtype = Trtype_Pcie | Trtype_Other

record transport_id =
  trtype :: trtype
  traddr :: string

record ctrlr_opts =
  num_io_queues :: u32
  io_queue_size :: u32

record ssd_config =
  cf_sn :: string
  cf_qpair_count :: u32
  cf_qpair_depth :: u32

record ssd =
  sn :: string
  sd_ctrlr :: "nat option"
  sd_ns :: "nat option"
  sector_size :: u32
  max_sector :: u64
  cfg_qpair_count :: u32
  cfg_qpair_depth :: u32

record spdk_ctrlr =
  sp_reset :: "nat \<Rightarrow> int"
  sp_first_ns :: "nat \<Rightarrow> nat"
  sp_sector_size :: "nat \<Rightarrow> u32"
  sp_num_sectors :: "nat \<Rightarrow> u64"

definition UINT16_MAX :: u32 where "UINT16_MAX = 65535"

fun probe_any :: "string \<Rightarrow> ssd list \<Rightarrow> ctrlr_opts \<Rightarrow> bool \<times> ctrlr_opts" where
  "probe_any addr [] opts = (False, opts)"
| "probe_any addr (ctx # cs) opts =
     (if sn ctx = addr then (True, opts\<lparr>num_io_queues := cfg_qpair_count ctx, io_queue_size := UINT16_MAX\<rparr>)
      else probe_any addr cs opts)"

definition probe_cb :: "transport_id \<Rightarrow> ssd list \<Rightarrow> ctrlr_opts \<Rightarrow> bool \<times> ctrlr_opts" where
  "probe_cb trid ssds opts = (if trtype trid \<noteq> Trtype_Pcie then (False, opts) else probe_any (traddr trid) ssds opts)"

definition attach_one :: "spdk_ctrlr \<Rightarrow> nat \<Rightarrow> ctrlr_opts \<Rightarrow> ssd \<Rightarrow> ssd" where
  "attach_one sp ctrlr opts ctx =
     (let ns = sp_first_ns sp ctrlr in
      ctx\<lparr>sd_ctrlr := Some ctrlr, sd_ns := Some ns, sector_size := sp_sector_size sp ns,
         max_sector := sp_num_sectors sp ns, cfg_qpair_count := min (cfg_qpair_count ctx) (num_io_queues opts)\<rparr>)"

fun attach_any :: "spdk_ctrlr \<Rightarrow> string \<Rightarrow> nat \<Rightarrow> ctrlr_opts \<Rightarrow> ssd list \<Rightarrow> ssd list option" where
  "attach_any sp addr ctrlr opts [] = None"
| "attach_any sp addr ctrlr opts (ctx # cs) =
     (if sn ctx = addr then Some (attach_one sp ctrlr opts ctx # cs)
      else map_option (Cons ctx) (attach_any sp addr ctrlr opts cs))"

definition attach_cb :: "spdk_ctrlr \<Rightarrow> transport_id \<Rightarrow> nat \<Rightarrow> ctrlr_opts \<Rightarrow> ssd list \<Rightarrow> string + ssd list" where
  "attach_cb sp trid ctrlr opts ssds =
     (if sp_reset sp ctrlr < 0 then Inl ''spdk_nvme_ctrlr_reset return failed''
      else case attach_any sp (traddr trid) ctrlr opts ssds of
        None \<Rightarrow> Inl ''spdk_nvme_ctrlr_reset return failed''
      | Some ssds' \<Rightarrow> Inr ssds')"

datatype probe_call = Probe transport_id ctrlr_opts | Attach transport_id nat ctrlr_opts

fun run_probe :: "spdk_ctrlr \<Rightarrow> probe_call list \<Rightarrow> ssd list \<Rightarrow> string + ssd list" where
  "run_probe sp [] ssds = Inr ssds"
| "run_probe sp (Probe trid opts # cs) ssds = run_probe sp cs ssds"
| "run_probe sp (Attach trid ctrlr opts # cs) ssds =
     (case attach_cb sp trid ctrlr opts ssds of Inl e \<Rightarrow> Inl e | Inr ssds' \<Rightarrow> run_probe sp cs ssds')"

definition new_ssd :: "ssd_config \<Rightarrow> ssd" where
  "new_ssd config = \<lparr>sn = cf_sn config, sd_ctrlr = None, sd_ns = None, sector_size = 0, max_sector = 0,
     cfg_qpair_count = cf_qpair_count config, cfg_qpair_depth = cf_qpair_depth config\<rparr>"

definition init_ssds :: "spdk_ctrlr \<Rightarrow> probe_call list \<Rightarrow> int \<Rightarrow> ssd_config list \<Rightarrow> ssd list \<Rightarrow> string + ssd list" where
  "init_ssds sp calls rc configs res =
     (case run_probe sp calls (res @ map new_ssd configs) of
        Inl e \<Rightarrow> Inl e
      | Inr ssds \<Rightarrow> if 0 \<noteq> rc then Inl ''spdk_nvme_probe failed'' else Inr ssds)"

fun probe_run_ok :: "ssd list \<Rightarrow> string set \<Rightarrow> probe_call list \<Rightarrow> bool" where
  "probe_run_ok ssds asked [] \<longleftrightarrow> True"
| "probe_run_ok ssds asked (Probe trid opts # cs) \<longleftrightarrow>
     probe_run_ok ssds (if fst (probe_cb trid ssds opts) then insert (traddr trid) asked else asked) cs"
| "probe_run_ok ssds asked (Attach trid ctrlr opts # cs) \<longleftrightarrow> traddr trid \<in> asked \<and> probe_run_ok ssds asked cs"

fun attach_calls :: "probe_call list \<Rightarrow> (string \<times> nat) list" where
  "attach_calls [] = []"
| "attach_calls (Probe trid opts # cs) = attach_calls cs"
| "attach_calls (Attach trid ctrlr opts # cs) = (traddr trid, ctrlr) # attach_calls cs"

subsection \<open>What is attached\<close>

lemma probe_any_iff: "fst (probe_any addr ssds opts) \<longleftrightarrow> addr \<in> set (map sn ssds)"
  by (induction ssds) auto

lemma attach_any_None: "attach_any sp addr ctrlr opts ssds = None \<longleftrightarrow> addr \<notin> set (map sn ssds)"
  by (induction ssds) auto

lemma probe_cb_found: "fst (probe_cb trid ssds opts) \<Longrightarrow> traddr trid \<in> set (map sn ssds)"
  by (auto simp: probe_cb_def probe_any_iff split: if_splits)

lemma attach_one_keeps [simp]: "sn (attach_one sp c opts ctx) = sn ctx"
  "cfg_qpair_depth (attach_one sp c opts ctx) = cfg_qpair_depth ctx"
  "cfg_qpair_count (attach_one sp c opts ctx) \<le> cfg_qpair_count ctx"
  by (simp_all add: attach_one_def Let_def)

text \<open>An entry of the result: its configuration, and the controller if its address is new in the list.\<close>

definition ssd_of :: "ssd \<Rightarrow> ssd \<Rightarrow> bool" where
  "ssd_of c d \<longleftrightarrow> sn d = sn c \<and> cfg_qpair_depth d = cfg_qpair_depth c \<and> cfg_qpair_count d \<le> cfg_qpair_count c"

lemma ssd_of_refl [simp]: "ssd_of c c"
  by (simp add: ssd_of_def)

lemma ssd_of_trans: "ssd_of c d \<Longrightarrow> ssd_of d e \<Longrightarrow> ssd_of c e"
  by (auto simp: ssd_of_def intro: order_trans)

lemma attach_any_ssd: "attach_any sp addr c opts ssds = Some ssds' \<Longrightarrow> list_all2 ssd_of ssds ssds'"
  by (induction ssds arbitrary: ssds') (auto simp: ssd_of_def list_all2_refl split: if_splits)

lemma list_all2_ssd_sn: "list_all2 ssd_of ss ts \<Longrightarrow> map sn ts = map sn ss"
  by (induction rule: list_all2_induct) (auto simp: ssd_of_def)

lemma run_probe_ssd: "run_probe sp calls ssds = Inr ssds' \<Longrightarrow> list_all2 ssd_of ssds ssds'"
proof (induction sp calls ssds rule: run_probe.induct)
  case (3 sp trid c opts cs ssds)
  then obtain t where t: "attach_cb sp trid c opts ssds = Inr t" "run_probe sp cs t = Inr ssds'"
    by (auto split: sum.splits)
  then have "list_all2 ssd_of ssds t" by (auto simp: attach_cb_def attach_any_ssd split: if_splits option.splits)
  moreover have "list_all2 ssd_of t ssds'" using 3 t by simp
  ultimately show ?case by (rule list_all2_trans [rotated]) (rule ssd_of_trans)
qed (auto simp: list_all2_refl)

text \<open>In a run as documented the only exception of the callbacks is a failed reset.\<close>

lemma run_probe_no_unknown:
  "probe_run_ok ssds asked calls \<Longrightarrow> asked \<subseteq> set (map sn ssds) \<Longrightarrow> map sn ts = map sn ssds \<Longrightarrow>
     (\<forall>(a, c) \<in> set (attach_calls calls). 0 \<le> sp_reset sp c) \<Longrightarrow> \<exists>ssds'. run_probe sp calls ts = Inr ssds'"
proof (induction ssds asked calls arbitrary: ts rule: probe_run_ok.induct)
  case (2 ssds asked trid opts cs)
  then show ?case using probe_cb_found [of trid ssds opts] by (auto split: if_splits)
next
  case (3 ssds asked trid c opts cs)
  then have "traddr trid \<in> set (map sn ts)" by auto
  then obtain t where t: "attach_any sp (traddr trid) c opts ts = Some t" using attach_any_None by fastforce
  then have "map sn t = map sn ssds" using attach_any_ssd [OF t] 3 by (simp add: list_all2_ssd_sn)
  then show ?case using 3 t by (auto simp: attach_cb_def)
qed auto

text \<open>
  The first entry with the address of an attached device gets its controller; an entry behind
  another with its address, or whose device was not attached, keeps the null pointer.
\<close>

fun attached_in :: "string set \<Rightarrow> string set \<Rightarrow> ssd list \<Rightarrow> bool" where
  "attached_in A seen [] \<longleftrightarrow> True"
| "attached_in A seen (d # ds) \<longleftrightarrow> (sd_ctrlr d \<noteq> None \<longleftrightarrow> sn d \<in> A \<and> sn d \<notin> seen) \<and> attached_in A (insert (sn d) seen) ds"

lemma attached_in_congs: "attached_in (insert a A) seen ds = attached_in A seen ds" if "a \<in> seen"
  using that by (induction A seen ds rule: attached_in.induct) auto

lemma attach_any_attached:
  "attach_any sp a c opts ds = Some ds' \<Longrightarrow> attached_in A seen ds \<Longrightarrow> a \<notin> seen \<Longrightarrow> attached_in (insert a A) seen ds'"
proof (induction ds arbitrary: ds' seen)
  case (Cons d ds)
  then show ?case
    by (auto simp: attach_one_def Let_def attached_in_congs split: if_splits)
qed simp

lemma run_probe_attached:
  "run_probe sp calls ds = Inr ds' \<Longrightarrow> attached_in A {} ds \<Longrightarrow> attached_in (fst ` set (attach_calls calls) \<union> A) {} ds'"
proof (induction sp calls ds arbitrary: A rule: run_probe.induct)
  case (3 sp trid c opts cs ds)
  then obtain t where t: "attach_cb sp trid c opts ds = Inr t" "run_probe sp cs t = Inr ds'"
    by (auto split: sum.splits)
  then have "attached_in (insert (traddr trid) A) {} t"
    using 3 by (auto simp: attach_cb_def intro: attach_any_attached split: if_splits option.splits)
  then show ?case using 3(1) [OF t(1) t(2)] by (fastforce simp: insert_commute)
qed auto

lemma attached_in_new: "attached_in {} seen (map new_ssd configs)"
  by (induction configs arbitrary: seen) (auto simp: new_ssd_def)

theorem init_ssds_attaches:
  assumes "init_ssds sp calls rc configs [] = Inr ssds"
  shows "list_all2 (\<lambda>c d. ssd_of (new_ssd c) d) configs ssds"
    and "attached_in (fst ` set (attach_calls calls)) {} ssds"
proof -
  have r: "run_probe sp calls (map new_ssd configs) = Inr ssds"
    using assms by (auto simp: init_ssds_def split: sum.splits if_splits)
  show "list_all2 (\<lambda>c d. ssd_of (new_ssd c) d) configs ssds"
    using run_probe_ssd [OF r] by (simp add: list.rel_map)
  show "attached_in (fst ` set (attach_calls calls)) {} ssds"
    using run_probe_attached [OF r attached_in_new] by simp
qed

theorem init_ssds_succeeds:
  assumes "probe_run_ok (map new_ssd configs) {} calls" and "\<forall>(a, c) \<in> set (attach_calls calls). 0 \<le> sp_reset sp c"
  shows "\<exists>ssds. init_ssds sp calls 0 configs [] = Inr ssds"
  using run_probe_no_unknown [OF assms(1) _ refl assms(2)] by (auto simp: init_ssds_def)

text \<open>A device that is not there is not an error: its entry keeps null pointers.\<close>

lemma missing_device_unnoticed: "init_ssds sp [] 0 [c] [] = Inr [new_ssd c]" "sd_ns (new_ssd c) = None"
  by (simp_all add: init_ssds_def new_ssd_def)

subsection \<open>Pages\<close>

text \<open>
  \<open>dm_pool\<close> is the pool, \<open>dm_made\<close> the number of calls of \<^verbatim>\<open>spdk_dma_malloc\<close>. \<open>alloc\<close>
  gives its answers and \<open>pick\<close> the place of the page the pool gives next.
\<close>

record page_dma =
  dm_pool :: "nat list"
  dm_made :: nat

definition dm_make :: "(nat \<Rightarrow> nat option) \<Rightarrow> page_dma \<Rightarrow> nat option \<times> page_dma" where
  "dm_make alloc d = (alloc (dm_made d), d\<lparr>dm_made := Suc (dm_made d)\<rparr>)"

fun dm_fill :: "(nat \<Rightarrow> nat option) \<Rightarrow> nat \<Rightarrow> page_dma \<Rightarrow> page_dma option" where
  "dm_fill alloc 0 d = Some d"
| "dm_fill alloc (Suc n) d =
     (case dm_make alloc d of
        (None, _) \<Rightarrow> None
      | (Some p, d') \<Rightarrow> dm_fill alloc n (d'\<lparr>dm_pool := dm_pool d' @ [p]\<rparr>))"

text \<open>
  \<open>created\<close> is what \<^verbatim>\<open>spdk_mempool_create\<close> answers, with the elements it put into the pool.
  A null page put into the pool is \<open>None\<close>.
\<close>

definition dm_init :: "(nat \<Rightarrow> nat option) \<Rightarrow> nat list option \<Rightarrow> string + page_dma option" where
  "dm_init alloc created =
     (case created of
        None \<Rightarrow> Inl ''spdk_mempool_create failed: not enough hugepages or pool_size too large''
      | Some ps \<Rightarrow> Inr (dm_fill alloc 1024 \<lparr>dm_pool = ps, dm_made = 0\<rparr>))"

definition malloc_page :: "(nat \<Rightarrow> nat option) \<Rightarrow> nat \<Rightarrow> page_dma \<Rightarrow> nat option \<times> page_dma" where
  "malloc_page alloc pick d =
     (if dm_pool d = [] then dm_make alloc d
      else (let i = pick mod length (dm_pool d) in (Some (dm_pool d ! i), d\<lparr>dm_pool := drop_at i (dm_pool d)\<rparr>)))"

definition free_page :: "nat option \<Rightarrow> page_dma \<Rightarrow> page_dma" where
  "free_page dma d = (case dma of None \<Rightarrow> d | Some p \<Rightarrow> d\<lparr>dm_pool := dm_pool d @ [p]\<rparr>)"

text \<open>
  \<open>req_pool\<close> has the same operations on blocks of the C library, without the test of a pool that
  could not be created, and \<open>free_req\<close> without the test of a null pointer: both are \<open>None\<close>.
\<close>

definition req_init :: "(nat \<Rightarrow> nat option) \<Rightarrow> nat list option \<Rightarrow> page_dma option" where
  "req_init alloc created = Option.bind created (\<lambda>ps. dm_fill alloc 1024 \<lparr>dm_pool = ps, dm_made = 0\<rparr>)"

definition malloc_req :: "(nat \<Rightarrow> nat option) \<Rightarrow> nat \<Rightarrow> page_dma \<Rightarrow> nat option \<times> page_dma" where
  "malloc_req alloc pick d =
     (if dm_pool d = [] then dm_make alloc d
      else (let i = pick mod length (dm_pool d) in (Some (dm_pool d ! i), d\<lparr>dm_pool := drop_at i (dm_pool d)\<rparr>)))"

definition free_req :: "nat option \<Rightarrow> page_dma \<Rightarrow> page_dma option" where
  "free_req dma d = map_option (\<lambda>p. d\<lparr>dm_pool := dm_pool d @ [p]\<rparr>) dma"

text \<open>The users of the pages: each frees only what it holds.\<close>

inductive dm_reach :: "(nat \<Rightarrow> nat option) \<Rightarrow> page_dma \<Rightarrow> page_dma \<Rightarrow> nat list \<Rightarrow> bool" for alloc d0 where
  dm_start: "dm_reach alloc d0 d0 []"
| dm_take: "dm_reach alloc d0 d held \<Longrightarrow> malloc_page alloc pick d = (Some p, d') \<Longrightarrow> dm_reach alloc d0 d' (held @ [p])"
| dm_none: "dm_reach alloc d0 d held \<Longrightarrow> malloc_page alloc pick d = (None, d') \<Longrightarrow> dm_reach alloc d0 d' held"
| dm_give: "dm_reach alloc d0 d held \<Longrightarrow> i < length held \<Longrightarrow> dm_reach alloc d0 (free_page (Some (held ! i)) d) (drop_at i held)"
| dm_null: "dm_reach alloc d0 d held \<Longrightarrow> dm_reach alloc d0 (free_page None d) held"

text \<open>The allocator gives pages that are new, as it is never given one to free.\<close>

definition alloc_fresh :: "(nat \<Rightarrow> nat option) \<Rightarrow> nat set \<Rightarrow> bool" where
  "alloc_fresh alloc S \<longleftrightarrow> (\<forall>i p. alloc i = Some p \<longrightarrow> p \<notin> S \<and> (\<forall>j. alloc j = Some p \<longrightarrow> j = i))"

definition made :: "(nat \<Rightarrow> nat option) \<Rightarrow> nat \<Rightarrow> nat set" where
  "made alloc n = {p. \<exists>i < n. alloc i = Some p}"

lemma made_Suc [simp]: "made alloc (Suc n) = set_option (alloc n) \<union> made alloc n" "made alloc 0 = {}"
  by (auto simp: made_def less_Suc_eq)

definition dm_ok :: "(nat \<Rightarrow> nat option) \<Rightarrow> nat set \<Rightarrow> page_dma \<Rightarrow> nat list \<Rightarrow> bool" where
  "dm_ok alloc S d held \<longleftrightarrow> distinct (dm_pool d @ held)
     \<and> set (dm_pool d @ held) \<subseteq> S \<union> made alloc (dm_made d)"

text \<open>Pages that change hands.\<close>

lemma dm_ok_moves:
  "dm_ok alloc S d held \<Longrightarrow> mset (dm_pool d' @ held') = mset (dm_pool d @ held) \<Longrightarrow> dm_made d' = dm_made d \<Longrightarrow> dm_ok alloc S d' held'"
  unfolding dm_ok_def by (metis mset_eq_imp_distinct_iff mset_eq_setD)

lemma dm_make_ok:
  assumes "dm_ok alloc S d held" "alloc_fresh alloc S" "dm_make alloc d = (r, d')"
  shows "dm_ok alloc S d' (case r of None \<Rightarrow> held | Some p \<Rightarrow> held @ [p])"
proof (cases r)
  case None
  then show ?thesis using assms by (auto simp: dm_make_def dm_ok_def)
next
  case (Some p)
  then have a: "alloc (dm_made d) = Some p" "d' = d\<lparr>dm_made := Suc (dm_made d)\<rparr>" using assms(3) by (auto simp: dm_make_def)
  have "p \<notin> S \<union> made alloc (dm_made d)" using assms(2) a(1) by (fastforce simp: alloc_fresh_def made_def)
  then have "p \<notin> set (dm_pool d @ held)" using assms(1) unfolding dm_ok_def by blast
  then show ?thesis using assms(1) a Some by (auto simp: dm_ok_def)
qed

lemma malloc_page_ok:
  assumes "dm_ok alloc S d held" "alloc_fresh alloc S" "malloc_page alloc pick d = (r, d')"
  shows "dm_ok alloc S d' (case r of None \<Rightarrow> held | Some p \<Rightarrow> held @ [p])"
proof (cases "dm_pool d = []")
  case False
  define i where "i = pick mod length (dm_pool d)"
  have i: "i < length (dm_pool d)" using False by (simp add: i_def)
  have "r = Some (dm_pool d ! i)" "d' = d\<lparr>dm_pool := drop_at i (dm_pool d)\<rparr>"
    using assms(3) False by (auto simp: malloc_page_def i_def Let_def)
  then show ?thesis using dm_ok_moves [OF assms(1)] mset_drop_at [OF i] by simp
qed (use assms dm_make_ok in \<open>auto simp: malloc_page_def\<close>)

lemma dm_reach_ok: "dm_reach alloc d0 d held \<Longrightarrow> dm_ok alloc S d0 [] \<Longrightarrow> alloc_fresh alloc S \<Longrightarrow> dm_ok alloc S d held"
proof (induction rule: dm_reach.induct)
  case (dm_take d held pick p d')
  then show ?case using malloc_page_ok [of alloc S d held pick "Some p" d'] by simp
next
  case (dm_none d held pick d')
  then show ?case using malloc_page_ok [of alloc S d held pick None d'] by simp
next
  case (dm_give d held i)
  have "mset (dm_pool (free_page (Some (held ! i)) d) @ drop_at i held) = mset (dm_pool d @ held)"
    using mset_drop_at [OF dm_give.hyps(2)] by (simp add: free_page_def)
  with dm_give show ?case by (auto simp: free_page_def intro: dm_ok_moves)
qed (auto simp: free_page_def)

text \<open>No page is with two users, or with a user and in the pool.\<close>

theorem pages_are_exclusive:
  assumes "distinct (dm_pool d0)" "alloc_fresh alloc (set (dm_pool d0))" "dm_made d0 = 0" "dm_reach alloc d0 d held"
  shows "distinct (dm_pool d @ held)"
  using dm_reach_ok [OF assms(4) _ assms(2)] assms(1,3) by (simp add: dm_ok_def)

text \<open>A pool of requests behaves as one of pages, but for the null pointers.\<close>

lemma req_pool_as_page_dma:
  "malloc_req = malloc_page" "free_req (Some p) d = Some (free_page (Some p) d)"
  "created \<noteq> None \<Longrightarrow> dm_init alloc created = Inr (req_init alloc created)"
  by (auto simp: fun_eq_iff malloc_req_def malloc_page_def free_req_def free_page_def dm_init_def req_init_def)

lemma null_not_tested: "req_init alloc None = None" "free_req None d = None" "free_page None d = d"
  by (simp_all add: req_init_def free_req_def free_page_def)

text \<open>Memory that was once allocated stays in the pool for ever.\<close>

lemma pool_never_shrinks:
  "dm_reach alloc d0 d held \<Longrightarrow> length (dm_pool d0) \<le> length (dm_pool d) + length held \<and> dm_made d0 \<le> dm_made d"
  by (induction rule: dm_reach.induct)
    (auto simp: malloc_page_def dm_make_def free_page_def drop_at_def Let_def split: if_splits)

end
