(* ===== verification/Llm_Scheduler.thy ===== *)
theory Llm_Scheduler
  imports Queue_Accounting
begin

section \<open>The inference server\<close>

text \<open>
  \<^verbatim>\<open>src/apps/example/inference\<close>: a scheduler that wraps a language model (\<^verbatim>\<open>llm/scheduler.hh\<close>),
  the bytes of its answers (\<^verbatim>\<open>server/protocol.hh\<close>) and the callback \<^verbatim>\<open>main.cc\<close> gives to a request.
  The library \<^verbatim>\<open>llama.cpp\<close> is a parameter: decoding and sampling answer by a call counter, so that
  they may depend on all calls before. A request is its prompt, its bound on tokens and a number for
  its callback; a call of the callback is an entry of \<open>ls_out\<close>. \<open>ls_issued\<close> is history.
\<close>

record gen_req =
  gq_id :: nat
  gq_prompt :: string
  gq_max_tokens :: u32

record llama =
  ll_tokenize :: "string \<Rightarrow> int"
  ll_decode :: "nat \<Rightarrow> int"
  ll_sample :: "nat \<Rightarrow> int"
  ll_eog :: "int \<Rightarrow> bool"
  ll_piece :: "int \<Rightarrow> int \<times> string"

record inflight =
  if_req :: gen_req
  if_n_decoded :: int

record llm_sched =
  ls_req_q :: "gen_req pcqueue"
  ls_current :: "inflight option"
  ls_next_token :: int
  ls_pending :: "gen_req list"
  ls_calls :: nat
  ls_out :: "(nat \<times> string \<times> bool) list"
  ls_issued :: "gen_req list"

definition gen_none :: gen_req where
  "gen_none = \<lparr>gq_id = 0, gq_prompt = [], gq_max_tokens = 512\<rparr>"

definition llm_new :: "u64 \<Rightarrow> llm_sched option" where
  "llm_new depth = map_option (\<lambda>q. \<lparr>ls_req_q = q, ls_current = None, ls_next_token = 0, ls_pending = [], ls_calls = 0,
     ls_out = [], ls_issued = []\<rparr>) (pc_new gen_none depth (- 1))"

definition llm_schedule :: "u32 \<Rightarrow> gen_req \<Rightarrow> llm_sched \<Rightarrow> llm_sched option" where
  "llm_schedule core r s =
     (let (res, q) = pc_try_enqueue True core r (ls_req_q s) in
      if res = Pc_Abort then None else Some (s\<lparr>ls_req_q := q, ls_issued := ls_issued s @ [r]\<rparr>))"

definition on_token :: "gen_req \<Rightarrow> string \<Rightarrow> bool \<Rightarrow> llm_sched \<Rightarrow> llm_sched" where
  "on_token r text is_eos s = s\<lparr>ls_out := ls_out s @ [(gq_id r, text, is_eos)]\<rparr>"

definition llama_decode :: "llama \<Rightarrow> llm_sched \<Rightarrow> int \<times> llm_sched" where
  "llama_decode L s = (ll_decode L (ls_calls s), s\<lparr>ls_calls := Suc (ls_calls s)\<rparr>)"

definition llama_sample :: "llama \<Rightarrow> llm_sched \<Rightarrow> int \<times> llm_sched" where
  "llama_sample L s = (ll_sample L (ls_calls s), s\<lparr>ls_calls := Suc (ls_calls s)\<rparr>)"

definition emit_token :: "llama \<Rightarrow> gen_req \<Rightarrow> int \<Rightarrow> llm_sched \<Rightarrow> llm_sched" where
  "emit_token L r token s =
     (let (len, buf) = ll_piece L token in if 0 < len then on_token r (take (nat len) buf) False s else s)"

lemma calls_keep [simp]:
  "ls_pending (snd (llama_decode L s)) = ls_pending s" "ls_pending (snd (llama_sample L s)) = ls_pending s"
  "ls_pending (on_token r t e s) = ls_pending s" "ls_pending (emit_token L r k s) = ls_pending s"
  by (simp_all add: llama_decode_def llama_sample_def on_token_def emit_token_def split: prod.split)

text \<open>
  \<open>start_generation\<close> and \<open>finish_current\<close> call each other: a request that ends with its first token
  starts the next pending one, so that every call takes a request from \<open>pending\<close>. The recursion is
  written out in the first; \<open>start_generation_eq\<close> gives it the form of the code.
\<close>

function start_generation :: "llama \<Rightarrow> gen_req \<Rightarrow> llm_sched \<Rightarrow> llm_sched" where
  "start_generation L r s =
     (if ll_tokenize L (gq_prompt r) < 0 then on_token r ''tokenize failed'' True s
      else let d = llama_decode L s in
        if fst d \<noteq> 0 then on_token r ''prefill failed'' True (snd d)
        else let t = llama_sample L (snd d); s = (snd t)\<lparr>ls_current := Some \<lparr>if_req = r, if_n_decoded = 0\<rparr>\<rparr> in
          if ll_eog L (fst t) then
            (let s = on_token r [] True s in
             case ls_pending s of
               [] \<Rightarrow> s\<lparr>ls_current := None\<rparr>
             | nxt # rest \<Rightarrow> start_generation L nxt (s\<lparr>ls_current := None, ls_pending := rest\<rparr>))
          else (emit_token L r (fst t) s)\<lparr>ls_current := Some \<lparr>if_req = r, if_n_decoded = 1\<rparr>, ls_next_token := fst t\<rparr>)"
  by pat_completeness auto
termination
  by (relation "measure (\<lambda>(L, r, s). length (ls_pending s))") (auto simp: Let_def)

declare start_generation.simps [simp del]

definition finish_current :: "llama \<Rightarrow> llm_sched \<Rightarrow> llm_sched" where
  "finish_current L s =
     (case ls_pending s of
        [] \<Rightarrow> s\<lparr>ls_current := None\<rparr>
      | nxt # rest \<Rightarrow> start_generation L nxt (s\<lparr>ls_current := None, ls_pending := rest\<rparr>))"

lemma start_generation_eq:
  "start_generation L r s =
     (if ll_tokenize L (gq_prompt r) < 0 then on_token r ''tokenize failed'' True s
      else let d = llama_decode L s in
        if fst d \<noteq> 0 then on_token r ''prefill failed'' True (snd d)
        else let t = llama_sample L (snd d); s = (snd t)\<lparr>ls_current := Some \<lparr>if_req = r, if_n_decoded = 0\<rparr>\<rparr> in
          if ll_eog L (fst t) then finish_current L (on_token r [] True s)
          else (emit_token L r (fst t) s)\<lparr>ls_current := Some \<lparr>if_req = r, if_n_decoded = 1\<rparr>, ls_next_token := fst t\<rparr>)"
  by (subst start_generation.simps) (simp add: finish_current_def Let_def)

definition decode_one_step :: "llama \<Rightarrow> inflight \<Rightarrow> llm_sched \<Rightarrow> llm_sched" where
  "decode_one_step L f s =
     (let d = llama_decode L s in
      if fst d \<noteq> 0 then finish_current L (on_token (if_req f) ''decode failed'' True (snd d))
      else let t = llama_sample L (snd d); n = if_n_decoded f + 1;
               s = (snd t)\<lparr>ls_current := Some (f\<lparr>if_n_decoded := n\<rparr>)\<rparr> in
        if ll_eog L (fst t) \<or> sint (gq_max_tokens (if_req f)) \<le> n then finish_current L (on_token (if_req f) [] True s)
        else (emit_token L (if_req f) (fst t) s)\<lparr>ls_next_token := fst t\<rparr>)"

definition llm_pick :: "llama \<Rightarrow> gen_req \<Rightarrow> llm_sched \<Rightarrow> llm_sched" where
  "llm_pick L r s = (if ls_current s = None then start_generation L r s else s\<lparr>ls_pending := ls_pending s @ [r]\<rparr>)"

definition llm_advance :: "llama \<Rightarrow> llm_sched \<Rightarrow> bool \<times> llm_sched" where
  "llm_advance L s =
     (case ls_current s of
        Some f \<Rightarrow> (True, decode_one_step L f s)
      | None \<Rightarrow> (let (got, rs, q) = pc_drain (ls_req_q s) in (got, fold (llm_pick L) rs (s\<lparr>ls_req_q := q\<rparr>))))"

text \<open>Every request has its own number.\<close>

inductive llm_step :: "llama \<Rightarrow> llm_sched \<Rightarrow> llm_sched \<Rightarrow> bool" for L where
  llm_issue: "core_ok (ls_req_q s) core \<Longrightarrow> gq_id r \<notin> gq_id ` set (ls_issued s) \<Longrightarrow> llm_schedule core r s = Some s' \<Longrightarrow> llm_step L s s'"
| llm_turn: "llm_step L s (snd (llm_advance L s))"

inductive llm_reach :: "llama \<Rightarrow> llm_sched \<Rightarrow> llm_sched \<Rightarrow> bool" for L s0 where
  llm_start: "llm_reach L s0 s0"
| llm_go: "llm_reach L s0 s \<Longrightarrow> llm_step L s s' \<Longrightarrow> llm_reach L s0 s'"

subsection \<open>What the server sends\<close>

datatype flags = TOKEN | EOS | ERROR

fun flag_byte :: "flags \<Rightarrow> u8" where
  "flag_byte TOKEN = 0"
| "flag_byte EOS = 1"
| "flag_byte ERROR = 2"

definition encode_token :: "u8 list \<Rightarrow> u8 list" where
  "encode_token text = flag_byte TOKEN # text"

definition encode_eos :: "u8 list" where
  "encode_eos = [flag_byte EOS]"

definition encode_error :: "u8 list \<Rightarrow> u8 list" where
  "encode_error msg = flag_byte ERROR # msg"

text \<open>The callback of \<^verbatim>\<open>main.cc\<close>: the payload that is sent for a call.\<close>

definition token_reply :: "u8 list \<Rightarrow> bool \<Rightarrow> u8 list" where
  "token_reply text is_eos = (if is_eos then encode_eos else encode_token text)"

text \<open>A token can be told from the end and from an error; what the scheduler says of an error is lost.\<close>

lemma replies_distinct: "encode_token t = encode_token u \<longleftrightarrow> t = u" "encode_token t \<noteq> encode_eos"
  "encode_error t \<noteq> encode_token u" "encode_error t \<noteq> encode_eos"
  by (simp_all add: encode_token_def encode_eos_def encode_error_def)

lemma error_text_lost: "token_reply msg True = encode_eos" "token_reply msg e \<noteq> encode_error m"
  by (simp_all add: token_reply_def encode_token_def encode_eos_def encode_error_def)

subsection \<open>Accounting\<close>

definition replies :: "nat \<Rightarrow> llm_sched \<Rightarrow> (string \<times> bool) list" where
  "replies i s = map snd (filter (\<lambda>e. fst e = i) (ls_out s))"

definition ended :: "llm_sched \<Rightarrow> nat multiset" where
  "ended s = image_mset fst (mset (filter (\<lambda>e. snd (snd e)) (ls_out s)))"

definition llm_waiting :: "llm_sched \<Rightarrow> gen_req multiset" where
  "llm_waiting s = mset (ls_pending s) + mset (pc_items (ls_req_q s))"

definition llm_running :: "llm_sched \<Rightarrow> gen_req multiset" where
  "llm_running s = mset (map if_req (case ls_current s of None \<Rightarrow> [] | Some f \<Rightarrow> [f]))"

text \<open>The texts a request can get before its end, whatever the model does.\<close>

definition token_bound :: "gen_req \<Rightarrow> int" where
  "token_bound r = max 1 (sint (gq_max_tokens r) - 1)"

definition reply_ok :: "(string \<times> bool) list \<Rightarrow> gen_req \<Rightarrow> bool" where
  "reply_ok xs r \<longleftrightarrow> (\<forall>e \<in> set (butlast xs). \<not> snd e) \<and> int (length (filter (\<lambda>e. \<not> snd e) xs)) \<le> token_bound r"

text \<open>\<open>streaming r n xs\<close>: a request that got \<open>xs\<close> and decoded \<open>n\<close> tokens.\<close>

definition streaming :: "gen_req \<Rightarrow> int \<Rightarrow> (string \<times> bool) list \<Rightarrow> bool" where
  "streaming r n xs \<longleftrightarrow> (\<forall>e \<in> set xs. \<not> snd e) \<and> int (length xs) \<le> n \<and> n \<le> token_bound r"

text \<open>
  The requests \<open>R\<close> are in hand, neither queued nor started. What holds of the replies is a fact of
  each issued request.
\<close>

definition known :: "llm_sched \<Rightarrow> bool" where
  "known s \<longleftrightarrow> fst ` set (ls_out s) \<subseteq> gq_id ` set (ls_issued s)"

definition told :: "gen_req multiset \<Rightarrow> llm_sched \<Rightarrow> bool" where
  "told R s \<longleftrightarrow> (\<forall>r \<in># llm_waiting s + R. r \<in> set (ls_issued s) \<and> replies (gq_id r) s = [])
     \<and> (\<forall>f. ls_current s = Some f \<longrightarrow> if_req f \<in> set (ls_issued s) \<and> streaming (if_req f) (if_n_decoded f) (replies (gq_id (if_req f)) s))
     \<and> (\<forall>r \<in> set (ls_issued s). reply_ok (replies (gq_id r) s) r)
     \<and> known s"

definition llm_inv_with :: "gen_req multiset \<Rightarrow> llm_sched \<Rightarrow> bool" where
  "llm_inv_with R s \<longleftrightarrow> pcq_inv (ls_req_q s) \<and> distinct (map gq_id (ls_issued s))
     \<and> ended s + image_mset gq_id (llm_running s + llm_waiting s + R) = image_mset gq_id (mset (ls_issued s))
     \<and> told R s"

lemma token_bound_pos [simp]: "1 \<le> token_bound r"
  by (simp add: token_bound_def)

lemma reply_ok_Nil [simp]: "reply_ok [] r"
  using token_bound_pos [of r] by (simp add: reply_ok_def del: token_bound_pos)

lemma streaming_end: "streaming r n xs \<Longrightarrow> reply_ok (xs @ [(t, True)]) r"
  by (auto simp: streaming_def reply_ok_def filter_id_conv)

lemma streaming_more: "streaming r n xs \<Longrightarrow> n + 1 < sint (gq_max_tokens r) \<Longrightarrow>
    streaming r (n + 1) (xs @ [(t, False)]) \<and> streaming r (n + 1) xs"
  by (auto simp: streaming_def token_bound_def)

lemma streaming_first: "streaming r 1 [(t, False)]" "streaming r 1 []"
  by (simp_all add: streaming_def)

lemma streaming_ok: "streaming r n xs \<Longrightarrow> reply_ok xs r"
  by (auto simp: streaming_def reply_ok_def filter_id_conv dest: in_set_butlastD)

lemma replies_state [simp]: "replies i (s\<lparr>ls_current := c\<rparr>) = replies i s" "ended (s\<lparr>ls_current := c\<rparr>) = ended s"
  "replies i (s\<lparr>ls_pending := p\<rparr>) = replies i s" "ended (s\<lparr>ls_pending := p\<rparr>) = ended s"
  "replies i (s\<lparr>ls_req_q := q\<rparr>) = replies i s" "ended (s\<lparr>ls_req_q := q\<rparr>) = ended s"
  "replies i (s\<lparr>ls_issued := is\<rparr>) = replies i s" "ended (s\<lparr>ls_issued := is\<rparr>) = ended s"
  by (simp_all add: replies_def ended_def)

lemma known_state [simp]: "known (s\<lparr>ls_current := c\<rparr>) = known s" "known (s\<lparr>ls_pending := p\<rparr>) = known s"
  "known (s\<lparr>ls_req_q := q\<rparr>) = known s" "known s \<Longrightarrow> known (s\<lparr>ls_issued := ls_issued s @ [r]\<rparr>)"
  by (auto simp: known_def)

lemma known_on_token: "r \<in> set (ls_issued s) \<Longrightarrow> known s \<Longrightarrow> known (on_token r t e s)"
  by (auto simp: known_def on_token_def)

lemma replies_on_token: "replies i (on_token r t e s) = replies i s @ (if gq_id r = i then [(t, e)] else [])"
  by (simp add: replies_def on_token_def)

lemma ended_on_token: "ended (on_token r t e s) = ended s + (if e then {#gq_id r#} else {#})"
  by (simp add: ended_def on_token_def)

lemma on_token_fields [simp]:
  "ls_req_q (on_token r t e s) = ls_req_q s" "ls_current (on_token r t e s) = ls_current s"
  "ls_issued (on_token r t e s) = ls_issued s" "ls_out (on_token r t e s) = ls_out s @ [(gq_id r, t, e)]"
  by (simp_all add: on_token_def)

text \<open>Two requests in hand, waiting or running have different numbers.\<close>

lemma same_request: "distinct (map gq_id rs) \<Longrightarrow> a \<in> set rs \<Longrightarrow> b \<in> set rs \<Longrightarrow> gq_id a = gq_id b \<Longrightarrow> a = b"
  by (metis distinct_map inj_onD)

lemma issued_once:
  assumes "llm_inv_with R s"
  shows "count (ended s + image_mset gq_id (llm_running s + llm_waiting s + R)) i \<le> 1"
proof -
  have "count (mset (map gq_id (ls_issued s))) i \<le> 1"
    using assms distinct_count_atmost_1 [of "map gq_id (ls_issued s)"] by (simp add: llm_inv_with_def del: mset_map)
  then show ?thesis using assms by (simp add: llm_inv_with_def)
qed

lemma in_hand_once:
  assumes "llm_inv_with (add_mset r R) s"
  shows "gq_id r \<notin># ended s + image_mset gq_id (llm_running s + llm_waiting s + R)"
proof -
  have "count (ended s + image_mset gq_id (llm_running s + llm_waiting s + R)) (gq_id r) = 0"
    using issued_once [OF assms, of "gq_id r"] by simp
  then show ?thesis unfolding count_eq_zero_iff .
qed

lemma in_hand_other:
  assumes "llm_inv_with (add_mset r R) s"
  shows "ls_current s = Some f \<Longrightarrow> gq_id r \<noteq> gq_id (if_req f)"
    and "\<forall>x \<in> set (ls_pending s) \<union> set (pc_items (ls_req_q s)) \<union> set_mset R. gq_id r \<noteq> gq_id x"
proof -
  have "gq_id r \<notin> gq_id ` set_mset (llm_running s + llm_waiting s + R)" using in_hand_once [OF assms] by (simp add: image_Un)
  then have "gq_id r \<noteq> gq_id x" if "x \<in> set_mset (llm_running s + llm_waiting s + R)" for x using that by (metis image_eqI)
  then show "ls_current s = Some f \<Longrightarrow> gq_id r \<noteq> gq_id (if_req f)"
    and "\<forall>x \<in> set (ls_pending s) \<union> set (pc_items (ls_req_q s)) \<union> set_mset R. gq_id r \<noteq> gq_id x"
    by (auto simp: llm_running_def llm_waiting_def)
qed

text \<open>The calls of the library and the token kept for the next one do not matter.\<close>

lemma llm_inv_calls [simp]:
  "llm_inv_with R (s\<lparr>ls_calls := c\<rparr>) = llm_inv_with R s" "llm_inv_with R (s\<lparr>ls_next_token := t\<rparr>) = llm_inv_with R s"
  by (simp_all add: llm_inv_with_def told_def ended_def llm_waiting_def llm_running_def replies_def known_def)

lemma running_other:
  assumes inv: "llm_inv_with R s" and cur: "ls_current s = Some f"
  shows "\<forall>x \<in> set (ls_pending s) \<union> set (pc_items (ls_req_q s)) \<union> set_mset R. gq_id (if_req f) \<noteq> gq_id x"
proof -
  have "count (image_mset gq_id (llm_waiting s + R)) (gq_id (if_req f)) = 0"
    using issued_once [OF inv, of "gq_id (if_req f)"] cur by (simp add: llm_running_def)
  then have "gq_id (if_req f) \<notin> gq_id ` set_mset (llm_waiting s + R)" unfolding count_eq_zero_iff by (simp add: image_Un)
  then have "gq_id (if_req f) \<noteq> gq_id x" if "x \<in> set_mset (llm_waiting s + R)" for x using that by (metis image_eqI)
  then show ?thesis by (auto simp: llm_waiting_def)
qed

text \<open>A step gives texts to one request.\<close>

lemma one_request_told:
  assumes inv: "llm_inv_with R s" and r: "r \<in> set (ls_issued s)" and ok: "reply_ok (replies (gq_id r) s') r"
    and same: "\<And>i. i \<noteq> gq_id r \<Longrightarrow> replies i s' = replies i s" and x: "x \<in> set (ls_issued s)"
  shows "reply_ok (replies (gq_id x) s') x"
proof (cases "gq_id x = gq_id r")
  case True
  then have "x = r" using same_request inv x r by (auto simp: llm_inv_with_def)
  then show ?thesis using ok by simp
next
  case False
  then show ?thesis using inv same x by (simp add: llm_inv_with_def told_def)
qed

lemma replies_other: "i \<noteq> gq_id r \<Longrightarrow> replies i (on_token r t e s) = replies i s"
  by (simp add: replies_on_token)

lemmas llm_step_simps = known_on_token llm_inv_with_def told_def ended_on_token replies_on_token llm_running_def llm_waiting_def

lemma hand_end:
  assumes inv: "llm_inv_with (add_mset r R) s"
  shows "llm_inv_with R (on_token r t True s)"
proof -
  have r: "r \<in> set (ls_issued s)" "replies (gq_id r) s = []" using inv by (auto simp: llm_inv_with_def told_def)
  have "reply_ok (replies (gq_id r) (on_token r t True s)) r"
    using r(2) streaming_end [OF streaming_first(2)] by (simp add: replies_on_token)
  from one_request_told [OF inv r(1) this replies_other] inv in_hand_other [OF inv] r show ?thesis
    by (auto simp: llm_step_simps)
qed

text \<open>The request in hand starts with at most one text.\<close>

lemma hand_start:
  assumes inv: "llm_inv_with (add_mset r R) s" and idle: "ls_current s = None"
    and s': "s' = s \<or> s' = on_token r t False s"
  shows "llm_inv_with R (s'\<lparr>ls_current := Some \<lparr>if_req = r, if_n_decoded = 1\<rparr>\<rparr>)"
proof -
  have r: "r \<in> set (ls_issued s)" "replies (gq_id r) s = []" using inv by (auto simp: llm_inv_with_def told_def)
  have str: "streaming r 1 (replies (gq_id r) s')" using s' r(2) by (auto simp: replies_on_token streaming_first)
  have "\<And>i. i \<noteq> gq_id r \<Longrightarrow> replies i s' = replies i s" using s' by (auto simp: replies_other)
  from one_request_told [OF inv r(1) streaming_ok [OF str] this] inv in_hand_other(2) [OF inv] r str s' idle show ?thesis
    by (auto simp: llm_step_simps)
qed

text \<open>A step of the running request: one more text or none, or its end.\<close>

lemma running_more:
  assumes inv: "llm_inv_with R s" and cur: "ls_current s = Some f" and n: "if_n_decoded f + 1 < sint (gq_max_tokens (if_req f))"
    and s': "s' = s \<or> s' = on_token (if_req f) t False s"
  shows "llm_inv_with R (s'\<lparr>ls_current := Some (f\<lparr>if_n_decoded := if_n_decoded f + 1\<rparr>)\<rparr>)"
proof -
  let ?r = "if_req f"
  have r: "?r \<in> set (ls_issued s)" and str: "streaming ?r (if_n_decoded f) (replies (gq_id ?r) s)"
    using inv cur by (auto simp: llm_inv_with_def told_def)
  have str': "streaming ?r (if_n_decoded f + 1) (replies (gq_id ?r) s')"
    using s' streaming_more [OF str n] by (auto simp: replies_on_token)
  have "\<And>i. i \<noteq> gq_id ?r \<Longrightarrow> replies i s' = replies i s" using s' by (auto simp: replies_other)
  from one_request_told [OF inv r streaming_ok [OF str'] this] inv running_other [OF inv cur] r str' s' cur show ?thesis
    by (auto simp: llm_step_simps)
qed

lemma running_end:
  assumes inv: "llm_inv_with R s" and cur: "ls_current s = Some f"
  shows "llm_inv_with R ((on_token (if_req f) t True s)\<lparr>ls_current := None\<rparr>)"
proof -
  let ?r = "if_req f"
  have r: "?r \<in> set (ls_issued s)" and str: "streaming ?r (if_n_decoded f) (replies (gq_id ?r) s)"
    using inv cur by (auto simp: llm_inv_with_def told_def)
  have "reply_ok (replies (gq_id ?r) (on_token ?r t True s)) ?r" using streaming_end [OF str] by (simp add: replies_on_token)
  from one_request_told [OF inv r this replies_other] inv running_other [OF inv cur] r cur show ?thesis
    by (auto simp: llm_step_simps)
qed

text \<open>The recursion.\<close>

lemma emit_cases: "emit_token L r k s = s \<or> (\<exists>t. emit_token L r k s = on_token r t False s)"
  by (auto simp: emit_token_def split: prod.split)

lemma calls_inv [simp]: "llm_inv_with R (snd (llama_decode L s)) = llm_inv_with R s" "llm_inv_with R (snd (llama_sample L s)) = llm_inv_with R s"
  by (simp_all add: llama_decode_def llama_sample_def)

lemma calls_current [simp]: "ls_current (snd (llama_decode L s)) = ls_current s" "ls_current (snd (llama_sample L s)) = ls_current s"
  by (simp_all add: llama_decode_def llama_sample_def)

lemma next_in_hand:
  "ls_pending s = r # rest \<Longrightarrow> llm_inv_with R (s\<lparr>ls_current := None\<rparr>) \<Longrightarrow>
     llm_inv_with (add_mset r R) (s\<lparr>ls_current := None, ls_pending := rest\<rparr>)"
  by (auto simp: llm_inv_with_def told_def llm_waiting_def llm_running_def)

lemma start_generation_inv:
  "llm_inv_with (add_mset r R) s \<Longrightarrow> ls_current s = None \<Longrightarrow> llm_inv_with R (start_generation L r s)"
proof (induction L r s rule: start_generation.induct)
  case (1 L r s)
  define d t where d: "d = llama_decode L s" and t: "t = llama_sample L (snd d)"
  have inv: "llm_inv_with (add_mset r R) (snd d)" "llm_inv_with (add_mset r R) (snd t)" and cur: "ls_current (snd t) = None"
    using 1(2,3) by (simp_all add: d t)
  consider "ll_tokenize L (gq_prompt r) < 0" | "\<not> ll_tokenize L (gq_prompt r) < 0" "fst d \<noteq> 0"
    | (eog) "\<not> ll_tokenize L (gq_prompt r) < 0" "fst d = 0" "ll_eog L (fst t)"
    | (go) "\<not> ll_tokenize L (gq_prompt r) < 0" "fst d = 0" "\<not> ll_eog L (fst t)" by blast
  then show ?case
  proof cases
    case eog
    define e where e: "e = on_token r [] True ((snd t)\<lparr>ls_current := Some \<lparr>if_req = r, if_n_decoded = 0\<rparr>\<rparr>)"
    have "e\<lparr>ls_current := None\<rparr> = on_token r [] True (snd t)" unfolding e using cur by (cases "snd t") (simp add: on_token_def)
    then have ended: "llm_inv_with R (e\<lparr>ls_current := None\<rparr>)" using hand_end [OF inv(2), of "[]"] by (simp only:)
    have "llm_inv_with R (finish_current L e)"
    proof (cases "ls_pending e")
      case (Cons nxt rest)
      then have "llm_inv_with (add_mset nxt R) (e\<lparr>ls_current := None, ls_pending := rest\<rparr>)"
        using ended by (rule next_in_hand)
      then show ?thesis using 1(1) [OF _ d _ t refl _ e Cons] eog Cons by (simp add: finish_current_def)
    qed (use ended in \<open>simp add: finish_current_def\<close>)
    then show ?thesis using eog by (simp add: start_generation_eq Let_def d t e)
  next
    case go
    have "emit_token L r (fst t) ((snd t)\<lparr>ls_current := c\<rparr>) = (emit_token L r (fst t) (snd t))\<lparr>ls_current := c\<rparr>" for c
      by (simp add: emit_token_def on_token_def split: prod.split)
    then show ?thesis using go hand_start [OF inv(2) cur] emit_cases [of L r "fst t" "snd t"]
      by (auto simp: start_generation_eq Let_def d t)
  qed (use 1(2) inv hand_end in \<open>simp_all add: start_generation_eq Let_def d\<close>)
qed

lemma finish_current_inv:
  assumes "llm_inv_with R (s\<lparr>ls_current := None\<rparr>)"
  shows "llm_inv_with R (finish_current L s)"
proof (cases "ls_pending s")
  case (Cons nxt rest)
  from start_generation_inv [OF next_in_hand [OF Cons assms]] Cons show ?thesis by (simp add: finish_current_def)
qed (use assms in \<open>simp add: finish_current_def\<close>)

lemma decode_one_step_inv:
  assumes inv: "llm_inv_with R s" and cur: "ls_current s = Some f"
  shows "llm_inv_with R (decode_one_step L f s)"
proof -
  define d t where d: "d = llama_decode L s" and t: "t = llama_sample L (snd d)"
  have d': "llm_inv_with R (snd d)" "ls_current (snd d) = Some f" and t': "llm_inv_with R (snd t)" "ls_current (snd t) = Some f"
    using assms by (simp_all add: d t)
  let ?f = "f\<lparr>if_n_decoded := if_n_decoded f + 1\<rparr>" and ?s = "(snd t)\<lparr>ls_current := Some (f\<lparr>if_n_decoded := if_n_decoded f + 1\<rparr>)\<rparr>"
  consider "fst d \<noteq> 0" | (fin) "fst d = 0" "ll_eog L (fst t) \<or> sint (gq_max_tokens (if_req f)) \<le> if_n_decoded f + 1"
    | (go) "fst d = 0" "\<not> (ll_eog L (fst t) \<or> sint (gq_max_tokens (if_req f)) \<le> if_n_decoded f + 1)" by blast
  then show ?thesis
  proof cases
    case fin
    have "(on_token (if_req f) [] True ?s)\<lparr>ls_current := None\<rparr> = (on_token (if_req f) [] True (snd t))\<lparr>ls_current := None\<rparr>"
      by (simp add: on_token_def)
    with finish_current_inv [of R "on_token (if_req f) [] True ?s" L] running_end [OF t', of "[]"] fin show ?thesis
      by (simp add: decode_one_step_def Let_def d t)
  next
    case go
    have "emit_token L (if_req f) (fst t) ?s = (emit_token L (if_req f) (fst t) (snd t))\<lparr>ls_current := Some ?f\<rparr>"
      by (simp add: emit_token_def on_token_def split: prod.split)
    then show ?thesis using go running_more [OF t'] emit_cases [of L "if_req f" "fst t" "snd t"]
      by (auto simp: decode_one_step_def Let_def d t)
  qed (use finish_current_inv running_end [OF d'] in \<open>simp add: decode_one_step_def Let_def d\<close>)
qed

lemma llm_pick_inv: "llm_inv_with (add_mset r R) s \<Longrightarrow> llm_inv_with R (llm_pick L r s)"
  by (cases "ls_current s")
    (auto simp: llm_pick_def intro: start_generation_inv, auto simp: llm_inv_with_def told_def llm_waiting_def llm_running_def)

lemma llm_picks_inv: "llm_inv_with (mset rs + R) s \<Longrightarrow> llm_inv_with R (fold (llm_pick L) rs s)"
  by (induction rs arbitrary: s) (auto intro: llm_pick_inv)

lemma llm_advance_inv:
  assumes inv: "llm_inv_with {#} s"
  shows "llm_inv_with {#} (snd (llm_advance L s))"
proof (cases "ls_current s")
  case None
  obtain got rs q where d: "pc_drain (ls_req_q s) = (got, rs, q)" by (cases "pc_drain (ls_req_q s)")
  have "pcq_inv (ls_req_q s)" using inv by (simp add: llm_inv_with_def)
  from pc_drain_items [OF this d] inv have "llm_inv_with (mset rs + {#}) (s\<lparr>ls_req_q := q\<rparr>)"
    by (auto simp: llm_inv_with_def told_def llm_waiting_def llm_running_def ac_simps)
  from llm_picks_inv [OF this] show ?thesis by (simp add: llm_advance_def None d)
qed (use decode_one_step_inv [OF inv] in \<open>simp add: llm_advance_def\<close>)

lemma llm_schedule_inv:
  assumes inv: "llm_inv_with {#} s" and core: "core_ok (ls_req_q s) core" and new: "gq_id r \<notin> gq_id ` set (ls_issued s)"
    and s': "llm_schedule core r s = Some s'"
  shows "llm_inv_with {#} s'"
proof -
  obtain res q where e: "pc_try_enqueue True core r (ls_req_q s) = (res, q)" by (cases "pc_try_enqueue True core r (ls_req_q s)")
  have queue: "pcq_inv (ls_req_q s)" using inv by (simp add: llm_inv_with_def)
  have res: "res = Pc_Ok" "s' = s\<lparr>ls_req_q := q, ls_issued := ls_issued s @ [r]\<rparr>"
    using s' e by (auto simp: llm_schedule_def pc_try_enqueue_def Let_def split: if_splits prod.splits)
  from pc_try_enqueue_items [OF queue core e] res have q: "pcq_inv q" "mset (pc_items q) = add_mset r (mset (pc_items (ls_req_q s)))" by auto
  then have set_q: "set (pc_items q) = insert r (set (pc_items (ls_req_q s)))" by (metis set_mset_add_mset_insert set_mset_mset)
  have "replies (gq_id r) s = []"
    using inv new by (auto simp: replies_def llm_inv_with_def told_def known_def filter_empty_conv)
  with inv q set_q new show ?thesis unfolding res(2)
    by (auto simp: llm_inv_with_def told_def llm_waiting_def llm_running_def known_def replies_def ended_def)
qed

lemma llm_step_inv: "llm_step L s s' \<Longrightarrow> llm_inv_with {#} s \<Longrightarrow> llm_inv_with {#} s'"
  by (induction rule: llm_step.induct) (blast intro: llm_schedule_inv llm_advance_inv)+

lemma llm_reach_inv: "llm_reach L s0 s \<Longrightarrow> llm_inv_with {#} s0 \<Longrightarrow> llm_inv_with {#} s"
  by (induction rule: llm_reach.induct) (auto intro: llm_step_inv)

interpretation llm: request_contract "llm_reach L" "llm_inv_with {#}" "\<lambda>s. image_mset gq_id (mset (ls_issued s))" ended
    "\<lambda>s. image_mset gq_id (llm_running s + llm_waiting s)" for L
  by unfold_locales (erule (1) llm_reach_inv, simp add: llm_inv_with_def)

lemma llm_new_inv: "llm_new depth = Some s \<Longrightarrow> depth \<noteq> 0 \<Longrightarrow> llm_inv_with {#} s"
  by (auto simp: llm_new_def llm_inv_with_def told_def llm_waiting_def llm_running_def ended_def known_def dest!: pc_new_items)

text \<open>
  C33: (safety) Whatever the model decodes and samples and whatever it refuses: every request given to the
  inference scheduler is ended once, is being generated or waits; its callback is called with texts, at
  most one less than its bound on tokens (and one at least), then with the end, and then no more; a request
  that waits was told nothing yet.
\<close>

theorem llm_requests_end_once:
  assumes "llm_new depth = Some s0" "depth \<noteq> 0" "llm_reach L s0 s"
  shows "ended s + image_mset gq_id (llm_running s + llm_waiting s) = image_mset gq_id (mset (ls_issued s))
    \<and> (\<forall>r \<in> set (ls_issued s). reply_ok (replies (gq_id r) s) r)
    \<and> (\<forall>r \<in># llm_waiting s. replies (gq_id r) s = [])
    \<and> (\<forall>r \<in># llm_running s. \<forall>e \<in> set (replies (gq_id r) s). \<not> snd e)"
proof -
  have new: "llm_inv_with {#} s0" by (rule llm_new_inv [OF assms(1,2)])
  have inv: "llm_inv_with {#} s" by (rule llm.reach_inv [OF assms(3) new])
  then have "\<forall>r \<in># llm_running s. \<forall>e \<in> set (replies (gq_id r) s). \<not> snd e"
    by (cases "ls_current s") (auto simp: llm_inv_with_def told_def llm_running_def streaming_def)
  with llm.settled [OF assms(3) new] inv show ?thesis by (auto simp: llm_inv_with_def told_def)
qed

definition picky :: llama where
  "picky = \<lparr>ll_tokenize = (\<lambda>p. if p = ''x'' then - 1 else 1), ll_decode = (\<lambda>_. 0), ll_sample = (\<lambda>n. int n),
     ll_eog = (\<lambda>t. t = 3), ll_piece = (\<lambda>t. (1, ''a''))\<rparr>"

definition three :: "gen_req list" where
  "three = map (\<lambda>(i, p). \<lparr>gq_id = i, gq_prompt = p, gq_max_tokens = 512\<rparr>) [(1, ''p''), (2, ''x''), (3, ''q'')]"

text \<open>A request arrives from another core and gets its first text.\<close>

lemma llm_requests_end_once_witness:
  "\<exists>s0 s. llm_reach picky s0 s \<and> ls_out s = [(7, ''a'', False)]
     \<and> ended s + image_mset gq_id (llm_running s + llm_waiting s) = {#7#}"
proof -
  let ?r = "\<lparr>gq_id = 7, gq_prompt = ''p'', gq_max_tokens = 512\<rparr>"
  obtain s0 where s0: "llm_new 4 = Some s0" by (auto simp: llm_new_def pc_new_def lq_new_def sp_new_def)
  then have f: "pcq_inv (ls_req_q s0)" "pc_items (ls_req_q s0) = []" "pc_capacity (ls_req_q s0) = 4"
    "s0 = \<lparr>ls_req_q = ls_req_q s0, ls_current = None, ls_next_token = 0, ls_pending = [], ls_calls = 0, ls_out = [], ls_issued = []\<rparr>"
    by (auto simp: llm_new_def dest!: pc_new_items)
  have c: "core_ok (ls_req_q s0) 1" by (simp add: core_ok_def MAX_CORES_def)
  obtain q where q: "pc_try_enqueue True 1 ?r (ls_req_q s0) = (Pc_Ok, q)" using pc_enqueue_room [OF f(1) c, of True ?r] f by auto
  have items: "pcq_inv q" "pc_items q = [?r]" using pc_try_enqueue_items [OF f(1) c q] f(2) by auto
  let ?s = "s0\<lparr>ls_req_q := q, ls_issued := [?r]\<rparr>"
  have "ls_issued s0 = []" by (subst f(4)) simp
  then have i: "llm_schedule 1 ?r s0 = Some ?s" "gq_id ?r \<notin> gq_id ` set (ls_issued s0)" by (simp_all add: llm_schedule_def q)
  then have r: "llm_reach picky s0 (snd (llm_advance picky ?s))" by (intro llm_go [OF llm_go [OF llm_start llm_issue [OF c]] llm_turn])
  obtain q' where d: "pc_drain q = (True, [?r], q')" using pc_drain_spec [OF items(1)] items(2) by auto
  have st: "ls_current s0 = None" "ls_calls s0 = 0" "ls_out s0 = []" by (subst f(4), simp)+
  have "ls_out (snd (llm_advance picky ?s)) = [(7, ''a'', False)]" "ls_issued (snd (llm_advance picky ?s)) = [?r]"
    by (simp_all add: llm_advance_def d llm_pick_def st start_generation_eq picky_def llama_decode_def llama_sample_def
        emit_token_def on_token_def Let_def)
  with r llm_requests_end_once [OF s0 _ r] show ?thesis by (intro exI [of _ s0] exI [of _ "snd (llm_advance picky ?s)"]) simp
qed

subsection \<open>A request that is never started\<close>

text \<open>
  When a request cannot be started because its prompt is not accepted, the pending ones behind it
  are not tried: with nothing running, \<open>advance\<close> looks only at the queue.
\<close>

lemma pending_not_tried:
  assumes "ls_current s = None" "pcq_inv (ls_req_q s)" "pc_items (ls_req_q s) = []"
  shows "\<exists>q. llm_advance L s = (False, s\<lparr>ls_req_q := q\<rparr>) \<and> pcq_inv q \<and> pc_items q = []"
proof -
  obtain got rs q where d: "pc_drain (ls_req_q s) = (got, rs, q)" by (cases "pc_drain (ls_req_q s)")
  from pc_drain_items [OF assms(2) this] assms(1,3) show ?thesis by (auto simp: llm_advance_def d)
qed

lemma pending_for_ever:
  assumes "ls_current s = None" "pcq_inv (ls_req_q s)" "pc_items (ls_req_q s) = []"
  shows "ls_pending (((snd \<circ> llm_advance L) ^^ n) s) = ls_pending s \<and> ls_out (((snd \<circ> llm_advance L) ^^ n) s) = ls_out s"
proof -
  have "\<exists>q. ((snd \<circ> llm_advance L) ^^ n) s = s\<lparr>ls_req_q := q\<rparr> \<and> pcq_inv q \<and> pc_items q = []"
  proof (induction n)
    case 0
    show ?case using assms by (intro exI [of _ "ls_req_q s"]) (cases s; simp)
  next
    case (Suc n)
    then obtain q where q: "((snd \<circ> llm_advance L) ^^ n) s = s\<lparr>ls_req_q := q\<rparr>" "pcq_inv q" "pc_items q = []" by blast
    obtain q' where "llm_advance L (s\<lparr>ls_req_q := q\<rparr>) = (False, s\<lparr>ls_req_q := q'\<rparr>)" "pcq_inv q'" "pc_items q' = []"
      using pending_not_tried [of "s\<lparr>ls_req_q := q\<rparr>" L] q assms(1) by auto
    moreover have "((snd \<circ> llm_advance L) ^^ Suc n) s = snd (llm_advance L (s\<lparr>ls_req_q := q\<rparr>))"
      by (simp only: funpow.simps o_apply flip: q(1))
    ultimately have "((snd \<circ> llm_advance L) ^^ Suc n) s = s\<lparr>ls_req_q := q'\<rparr>" by (simp only: snd_conv)
    then show ?case using \<open>pcq_inv q'\<close> \<open>pc_items q' = []\<close> by blast
  qed
  then show ?thesis by auto
qed

text \<open>
  Three requests arrive together. The first is answered by one token, the prompt of the second is
  not accepted; the third waits for ever.
\<close>

lemma third_stranded:
  fixes q
  defines "s \<equiv> decode_one_step picky \<lparr>if_req = three ! 0, if_n_decoded = 1\<rparr>
    (fold (llm_pick picky) three \<lparr>ls_req_q = q, ls_current = None, ls_next_token = 0, ls_pending = [], ls_calls = 0,
       ls_out = [], ls_issued = three\<rparr>)"
  shows "ls_current s = None" "ls_pending s = [three ! 2]"
    "ls_out s = [(1, ''a'', False), (1, [], True), (2, ''tokenize failed'', True)]"
  by (simp_all add: s_def three_def picky_def llm_pick_def start_generation_eq finish_current_def decode_one_step_def
      llama_decode_def llama_sample_def emit_token_def on_token_def Let_def)

text \<open>One token is always sent, and a bound of 2 to the 31 or more counts as a bound of one.\<close>

lemma bound_not_respected: "token_bound (r\<lparr>gq_max_tokens := 0\<rparr>) = 1" "token_bound (r\<lparr>gq_max_tokens := 2\<rparr>) = 1"
  "token_bound (r\<lparr>gq_max_tokens := 0x80000000\<rparr>) = 1" "token_bound (r\<lparr>gq_max_tokens := 512\<rparr>) = 511"
  by (simp_all add: token_bound_def)

end
