(* ===== verification/Rpc_Server.thy ===== *)
theory Rpc_Server
  imports Rpc_Frame Queue_Accounting "HOL-Library.Sublist"
begin

section \<open>The RPC server with concurrency\<close>

text \<open>
  \<open>serv_proc\<close> of \<^verbatim>\<open>src/env/scheduler/net/rpc/server/serv.hh\<close> as a state machine: \<open>check_rpc_state\<close>
  is polled for one element after another, and each element is a flow that receives a frame, waits
  for the handler of its service and sends the response. With \<^verbatim>\<open>concurrency > 0\<close> the stage
  \<^verbatim>\<open>concurrent\<close> lets as many flows run at once, without it there is one. A handler is a pipeline
  that may wait, so its outcome is an argument of the step that ends it. \<open>sv_received\<close> and \<open>sv_sent\<close>
  are the frames in their order. \<^verbatim>\<open>common/rpc_layer.hh\<close> is the layer of the session that says
  whether it is closed.
\<close>

record rpc_session_layer =
  rl_closed :: bool

definition rpc_is_closed :: "rpc_session_layer \<Rightarrow> bool" where
  "rpc_is_closed l = rl_closed l"

definition rpc_close :: "rpc_session_layer \<Rightarrow> rpc_session_layer" where
  "rpc_close l = l\<lparr>rl_closed := True\<rparr>"

definition rpc_on_error :: "rpc_session_layer \<Rightarrow> rpc_session_layer" where
  "rpc_on_error l = l\<lparr>rl_closed := True\<rparr>"

datatype serv_flow = F_Recv | F_Handle "byte list" | F_Send "byte list"

record rpc_serv =
  sv_layer :: rpc_session_layer
  sv_flows :: "serv_flow list"
  sv_done :: bool
  sv_received :: "byte list list"
  sv_sent :: "byte list list"

definition sv_new :: rpc_serv where
  "sv_new = \<lparr>sv_layer = \<lparr>rl_closed = False\<rparr>, sv_flows = [], sv_done = False, sv_received = [], sv_sent = []\<rparr>"

definition apply_concurrency :: "u16 \<Rightarrow> nat" where
  "apply_concurrency N = (if 0 < N then unat N else 1)"

text \<open>A poll of the generator: \<^verbatim>\<open>co_yield true\<close> while the session is not closed, then the end.\<close>

definition sv_poll :: "u16 \<Rightarrow> rpc_serv \<Rightarrow> rpc_serv" where
  "sv_poll N s =
     (if sv_done s \<or> apply_concurrency N \<le> length (sv_flows s) then s
      else if rpc_is_closed (sv_layer s) then s\<lparr>sv_done := True\<rparr>
      else s\<lparr>sv_flows := sv_flows s @ [F_Recv]\<rparr>)"

definition recv_req :: "nat \<Rightarrow> byte list \<Rightarrow> rpc_serv \<Rightarrow> rpc_serv" where
  "recv_req i bs s =
     (if sv_flows s ! i = F_Recv then s\<lparr>sv_flows := (sv_flows s)[i := F_Handle bs], sv_received := sv_received s @ [bs]\<rparr>
      else s)"

text \<open>\<open>handle_exception\<close>: what is thrown outside the handler closes the session and ends the flow.\<close>

definition handle_exception :: "nat \<Rightarrow> rpc_serv \<Rightarrow> rpc_serv" where
  "handle_exception i s =
     (if sv_flows s ! i = F_Recv then s\<lparr>sv_layer := rpc_close (sv_layer s), sv_flows := drop_at i (sv_flows s)\<rparr> else s)"

definition serve_handled :: "rpc_frame \<Rightarrow> u16 list \<Rightarrow> nat \<Rightarrow> exn option \<times> rpc_frame option \<Rightarrow> rpc_serv \<Rightarrow> rpc_serv" where
  "serve_handled fresh services i outcome s =
     (case sv_flows s ! i of
        F_Handle bs \<Rightarrow> s\<lparr>sv_flows := (sv_flows s)[i := F_Send (serve_frame fresh services (\<lambda>_ _. outcome) bs)]\<rparr>
      | _ \<Rightarrow> s)"

text \<open>The answer of \<^verbatim>\<open>net::send\<close> is dropped (\<open>reduce\<close>), so the flow ends whether it was sent or not.\<close>

definition send_res :: "nat \<Rightarrow> rpc_serv \<Rightarrow> rpc_serv" where
  "send_res i s =
     (case sv_flows s ! i of
        F_Send r \<Rightarrow> s\<lparr>sv_flows := drop_at i (sv_flows s), sv_sent := sv_sent s @ [r]\<rparr>
      | _ \<Rightarrow> s)"

text \<open>
  What a handler may leave behind: a frame it leaves has the length it says, and one that ends well
  leaves a frame.
\<close>

definition outcome_ok :: "exn option \<times> rpc_frame option \<Rightarrow> bool" where
  "outcome_ok out \<longleftrightarrow> (case out of (e, Some r) \<Rightarrow> rpc_wf r | (e, None) \<Rightarrow> e \<noteq> None)"

inductive serv_step :: "u16 \<Rightarrow> u16 list \<Rightarrow> rpc_serv \<Rightarrow> rpc_serv \<Rightarrow> bool" for N services where
  sv_polls: "serv_step N services s (sv_poll N s)"
| sv_frame: "i < length (sv_flows s) \<Longrightarrow> serv_step N services s (recv_req i bs s)"
| sv_fails: "i < length (sv_flows s) \<Longrightarrow> serv_step N services s (handle_exception i s)"
| sv_handled: "i < length (sv_flows s) \<Longrightarrow> outcome_ok out \<Longrightarrow> serv_step N services s (serve_handled fresh services i out s)"
| sv_sends: "i < length (sv_flows s) \<Longrightarrow> serv_step N services s (send_res i s)"
| sv_error: "serv_step N services s (s\<lparr>sv_layer := rpc_on_error (sv_layer s)\<rparr>)"

inductive serv_reach :: "u16 \<Rightarrow> u16 list \<Rightarrow> rpc_serv \<Rightarrow> rpc_serv \<Rightarrow> bool" for N services s0 where
  sv_start: "serv_reach N services s0 s0"
| sv_go: "serv_reach N services s0 s \<Longrightarrow> serv_step N services s s' \<Longrightarrow> serv_reach N services s0 s'"

subsection \<open>Responses carry the identity of their requests\<close>

lemma serve_frame_id:
  assumes "outcome_ok out"
  shows "get_request_id_from (serve_frame fresh services (\<lambda>_ _. out) bs) = rf_request_id (rpc_view bs)"
    and "rf_flags (rpc_view (serve_frame fresh services (\<lambda>_ _. out) bs)) \<in> {flag_response, flag_error}"
proof -
  let ?req = "rpc_view bs"
  have fail: "get_request_id_from (rpc_sent (build_error_response fresh ?req res e)) = rf_request_id ?req
      \<and> rf_flags (rpc_view (rpc_sent (build_error_response fresh ?req res e))) = flag_error"
    if "case res of None \<Rightarrow> True | Some r \<Rightarrow> rpc_wf r" for res e
    using error_response [OF that, of fresh ?req e] by (simp add: get_request_id_from_def)
  have done_ok: "get_request_id_from (rpc_sent f) = rf_request_id f \<and> rf_flags (rpc_view (rpc_sent f)) = rf_flags f"
    if "rpc_wf f" for f
    using that by (simp add: get_request_id_from_def rpc_sent_wf rpc_view_bytes)
  obtain e r where out: "out = (e, r)" by (cases out)
  have "get_request_id_from (serve_frame fresh services (\<lambda>_ _. out) bs) = rf_request_id ?req
      \<and> rf_flags (rpc_view (serve_frame fresh services (\<lambda>_ _. out) bs)) \<in> {flag_response, flag_error}"
  proof (cases "rf_service_id ?req \<in> set services")
    case False
    then show ?thesis using fail [of None Logic_Error] by (simp add: serve_frame_def dispatch_def service_lookup Let_def)
  next
    case True
    show ?thesis
    proof (cases e)
      case None
      then obtain res where r: "r = Some res" "rpc_wf res" using assms out by (cases r) (auto simp: outcome_ok_def)
      let ?f = "res\<lparr>rf_flags := flag_response, rf_request_id := rf_request_id ?req, rf_service_id := rf_service_id ?req\<rparr>"
      have "rpc_wf ?f" using r(2) by (simp add: rpc_wf_def)
      from done_ok [OF this] show ?thesis
        using True out None r by (simp add: serve_frame_def dispatch_def service_lookup Let_def)
    next
      case (Some x)
      have "case r of None \<Rightarrow> True | Some r \<Rightarrow> rpc_wf r" using assms out by (cases r) (auto simp: outcome_ok_def)
      from fail [OF this, of x] show ?thesis
        using True out Some by (cases r) (simp_all add: serve_frame_def dispatch_def service_lookup Let_def)
    qed
  qed
  then show "get_request_id_from (serve_frame fresh services (\<lambda>_ _. out) bs) = rf_request_id ?req"
    and "rf_flags (rpc_view (serve_frame fresh services (\<lambda>_ _. out) bs)) \<in> {flag_response, flag_error}" by auto
qed

subsection \<open>Accounting\<close>

definition req_id :: "byte list \<Rightarrow> u64" where
  "req_id bs = rf_request_id (rpc_view bs)"

text \<open>The requests a flow still has to answer.\<close>

fun flow_ids :: "serv_flow \<Rightarrow> u64 list" where
  "flow_ids F_Recv = []"
| "flow_ids (F_Handle bs) = [req_id bs]"
| "flow_ids (F_Send r) = [get_request_id_from r]"

fun flow_flags :: "serv_flow \<Rightarrow> bool" where
  "flow_flags (F_Send r) = (rf_flags (rpc_view r) \<in> {flag_response, flag_error})"
| "flow_flags _ = True"

definition sv_owed :: "rpc_serv \<Rightarrow> u64 multiset" where
  "sv_owed s = mset (concat (map flow_ids (sv_flows s)))"

definition sv_inv :: "u16 \<Rightarrow> rpc_serv \<Rightarrow> bool" where
  "sv_inv N s \<longleftrightarrow> mset (map get_request_id_from (sv_sent s)) + sv_owed s = mset (map req_id (sv_received s))
     \<and> length (sv_flows s) \<le> apply_concurrency N
     \<and> (\<forall>f \<in> set (sv_flows s). flow_flags f)
     \<and> (\<forall>r \<in> set (sv_sent s). rf_flags (rpc_view r) \<in> {flag_response, flag_error})
     \<and> (sv_done s \<longrightarrow> rpc_is_closed (sv_layer s))
     \<and> (apply_concurrency N = 1 \<longrightarrow>
          map get_request_id_from (sv_sent s) @ concat (map flow_ids (sv_flows s)) = map req_id (sv_received s))"

lemma apply_concurrency_pos: "1 \<le> apply_concurrency N"
  by (simp add: apply_concurrency_def Suc_le_eq unat_gt_0 word_neq_0_conv)

lemma owed_update:
  assumes "i < length fs"
  shows "mset (concat (map flow_ids (fs[i := f]))) + mset (flow_ids (fs ! i)) = mset (concat (map flow_ids fs)) + mset (flow_ids f)"
    and "mset (concat (map flow_ids (drop_at i fs))) + mset (flow_ids (fs ! i)) = mset (concat (map flow_ids fs))"
proof -
  have "fs = take i fs @ fs ! i # drop (Suc i) fs" using assms by (rule id_take_nth_drop)
  then have "mset (concat (map flow_ids fs)) = mset (concat (map flow_ids (take i fs @ fs ! i # drop (Suc i) fs)))" by simp
  then show "mset (concat (map flow_ids (fs[i := f]))) + mset (flow_ids (fs ! i)) = mset (concat (map flow_ids fs)) + mset (flow_ids f)"
    and "mset (concat (map flow_ids (drop_at i fs))) + mset (flow_ids (fs ! i)) = mset (concat (map flow_ids fs))"
    using assms by (simp_all add: upd_conv_take_nth_drop drop_at_def)
qed

lemma drop_at_flows: "i < length fs \<Longrightarrow> length (drop_at i fs) = length fs - 1 \<and> set (drop_at i fs) \<subseteq> set fs"
  by (auto simp: drop_at_def dest: in_set_takeD in_set_dropD)

lemma drop_only_flow [simp]: "drop_at 0 [x] = []"
  by (simp add: drop_at_def)

text \<open>With one flow the lists themselves agree.\<close>

lemma one_flow: "length fs \<le> n \<Longrightarrow> n = 1 \<Longrightarrow> i < length fs \<Longrightarrow> fs = [fs ! i] \<and> i = 0"
  by (cases fs) auto

lemma sv_poll_inv: "sv_inv N s \<Longrightarrow> sv_inv N (sv_poll N s)"
  by (auto simp: sv_inv_def sv_poll_def sv_owed_def)

lemma recv_req_inv:
  assumes inv: "sv_inv N s" and i: "i < length (sv_flows s)"
  shows "sv_inv N (recv_req i bs s)"
proof (cases "sv_flows s ! i = F_Recv")
  case True
  have "\<forall>f \<in> set ((sv_flows s)[i := F_Handle bs]). flow_flags f"
    using inv by (auto simp: sv_inv_def dest!: set_update_subset_insert [THEN subsetD])
  moreover have "sv_flows s = [F_Recv]" "i = 0" if "apply_concurrency N = 1"
    using one_flow [of "sv_flows s" "apply_concurrency N" i] inv i that True by (auto simp: sv_inv_def)
  ultimately show ?thesis using inv owed_update(1) [OF i, of "F_Handle bs"] True
    by (auto simp: sv_inv_def recv_req_def sv_owed_def)
qed (use inv in \<open>simp add: recv_req_def\<close>)

lemma serve_handled_inv:
  assumes inv: "sv_inv N s" and i: "i < length (sv_flows s)" and out: "outcome_ok out"
  shows "sv_inv N (serve_handled fresh services i out s)"
proof (cases "sv_flows s ! i")
  case (F_Handle bs)
  let ?r = "serve_frame fresh services (\<lambda>_ _. out) bs"
  note r = serve_frame_id [OF out, of fresh services bs]
  have "\<forall>f \<in> set ((sv_flows s)[i := F_Send ?r]). flow_flags f"
    using inv r(2) by (auto simp: sv_inv_def dest!: set_update_subset_insert [THEN subsetD])
  moreover have "sv_flows s = [F_Handle bs]" "i = 0" if "apply_concurrency N = 1"
    using one_flow [of "sv_flows s" "apply_concurrency N" i] inv i that F_Handle by (auto simp: sv_inv_def)
  ultimately show ?thesis using inv owed_update(1) [OF i, of "F_Send ?r"] F_Handle r(1)
    by (auto simp: sv_inv_def serve_handled_def sv_owed_def req_id_def)
qed (use inv in \<open>simp_all add: serve_handled_def\<close>)

lemma send_res_inv:
  assumes inv: "sv_inv N s" and i: "i < length (sv_flows s)"
  shows "sv_inv N (send_res i s)"
proof (cases "sv_flows s ! i")
  case (F_Send r)
  have "flow_flags (F_Send r)" using inv i F_Send nth_mem [OF i] by (auto simp: sv_inv_def)
  moreover have "sv_flows s = [F_Send r]" "i = 0" if "apply_concurrency N = 1"
    using one_flow [of "sv_flows s" "apply_concurrency N" i] inv i that F_Send by (auto simp: sv_inv_def)
  moreover note owed_update(2) [OF i, symmetric] drop_at_flows [OF i]
  ultimately show ?thesis using inv F_Send
    by (auto simp: sv_inv_def send_res_def sv_owed_def)
qed (use inv in \<open>simp_all add: send_res_def\<close>)

lemma handle_exception_inv:
  assumes inv: "sv_inv N s" and i: "i < length (sv_flows s)"
  shows "sv_inv N (handle_exception i s)"
proof (cases "sv_flows s ! i = F_Recv")
  case True
  have "sv_flows s = [F_Recv]" "i = 0" if "apply_concurrency N = 1"
    using one_flow [of "sv_flows s" "apply_concurrency N" i] inv i that True by (auto simp: sv_inv_def)
  with inv True owed_update(2) [OF i, symmetric] drop_at_flows [OF i] show ?thesis
    by (auto simp: sv_inv_def handle_exception_def sv_owed_def rpc_close_def rpc_is_closed_def)
qed (use inv in \<open>simp add: handle_exception_def\<close>)

lemma serv_step_inv: "serv_step N services s s' \<Longrightarrow> sv_inv N s \<Longrightarrow> sv_inv N s'"
  by (induction rule: serv_step.induct)
    (auto intro: sv_poll_inv recv_req_inv handle_exception_inv serve_handled_inv send_res_inv,
     auto simp: sv_inv_def sv_owed_def rpc_on_error_def rpc_is_closed_def)

lemma serv_reach_inv: "serv_reach N services s0 s \<Longrightarrow> sv_inv N s0 \<Longrightarrow> sv_inv N s"
  by (induction rule: serv_reach.induct) (auto intro: serv_step_inv)

lemma sv_new_inv: "sv_inv N sv_new"
  by (simp add: sv_inv_def sv_new_def sv_owed_def)

interpretation sv: request_contract "serv_reach N services" "sv_inv N" "\<lambda>s. mset (map req_id (sv_received s))"
    "\<lambda>s. mset (map get_request_id_from (sv_sent s))" sv_owed for N services
  by unfold_locales (erule (1) serv_reach_inv, simp add: sv_inv_def)

text \<open>
  C35: (safety) Whatever the handlers do and however long they take: every request the server received is answered
  once, under its own identity and marked as a response or an error, or is in one of at most
  \<open>concurrency\<close> flows; without concurrency the answers keep the order of the requests.
\<close>

theorem rpc_server_answers_once:
  assumes "serv_reach N services sv_new s"
  shows "mset (map get_request_id_from (sv_sent s)) + sv_owed s = mset (map req_id (sv_received s))
    \<and> length (sv_flows s) \<le> apply_concurrency N
    \<and> (\<forall>r \<in> set (sv_sent s). rf_flags (rpc_view r) \<in> {flag_response, flag_error})
    \<and> (N \<le> 1 \<longrightarrow> prefix (map get_request_id_from (sv_sent s)) (map req_id (sv_received s)))
    \<and> (sv_flows s = [] \<longrightarrow> mset (map get_request_id_from (sv_sent s)) = mset (map req_id (sv_received s)))"
proof -
  have inv: "sv_inv N s" by (rule sv.reach_inv [OF assms sv_new_inv])
  have "apply_concurrency N = 1" if "N \<le> 1"
  proof -
    have "unat N \<le> unat (1 :: u16)" using that by (simp only: word_le_nat_alt)
    then have "unat N = 0 \<or> unat N = 1" by auto
    then show ?thesis by (auto simp: apply_concurrency_def unat_eq_zero)
  qed
  then have "prefix (map get_request_id_from (sv_sent s)) (map req_id (sv_received s))" if "N \<le> 1"
    using inv that unfolding sv_inv_def prefix_def by metis
  moreover have "sv_owed s = {#}" if "sv_flows s = []" using that by (simp add: sv_owed_def)
  ultimately show ?thesis using inv sv.none_left [OF inv] by (auto simp: sv_inv_def)
qed

text \<open>Two requests are taken, and the second is answered first.\<close>

lemma rpc_server_answers_once_witness:
  "\<exists>s. serv_reach 2 [3] sv_new s \<and> length (sv_received s) = 2 \<and> length (sv_sent s) = 1
     \<and> mset (map get_request_id_from (sv_sent s)) + sv_owed s = mset (map req_id (sv_received s))"
proof -
  define out where "out = (Some Other_Error, None :: rpc_frame option)"
  define p where "p = sv_poll 2 (sv_poll 2 sv_new)"
  define a where "a = recv_req 1 [5] (recv_req 0 [4] p)"
  define h where "h = serve_handled undefined [3] 1 out a"
  have p: "sv_flows p = [F_Recv, F_Recv]" "sv_received p = []" "sv_sent p = []"
    by (simp_all add: p_def sv_new_def sv_poll_def apply_concurrency_def rpc_is_closed_def)
  then have a: "sv_flows a = [F_Handle [4], F_Handle [5]]" "sv_received a = [[4], [5]]" "sv_sent a = []"
    by (simp_all add: a_def recv_req_def)
  then have h: "length (sv_flows h) = 2" "length (sv_sent (send_res 1 h)) = 1" "length (sv_received (send_res 1 h)) = 2"
    by (simp_all add: h_def serve_handled_def send_res_def)
  have "serv_reach 2 [3] sv_new p" unfolding p_def by (intro sv_go [OF sv_go [OF sv_start sv_polls] sv_polls])
  then have "serv_reach 2 [3] sv_new a" unfolding a_def by (rule sv_go [OF sv_go [OF _ sv_frame] sv_frame]) (simp_all add: p recv_req_def)
  then have "serv_reach 2 [3] sv_new h" unfolding h_def by (rule sv_go [OF _ sv_handled]) (simp_all add: a out_def outcome_ok_def)
  then have r: "serv_reach 2 [3] sv_new (send_res 1 h)" by (rule sv_go [OF _ sv_sends]) (simp add: h)
  from rpc_server_answers_once [OF r] r h show ?thesis by blast
qed

text \<open>A closed session takes no new request, and a server that is done never takes one again.\<close>

lemma closed_takes_no_request:
  "rpc_is_closed (sv_layer s) \<Longrightarrow> length (sv_flows s) < apply_concurrency N \<Longrightarrow> sv_flows (sv_poll N s) = sv_flows s \<and> sv_done (sv_poll N s)"
  "sv_done s \<Longrightarrow> sv_poll N s = s"
  by (auto simp: sv_poll_def)

subsection \<open>What goes wrong\<close>

text \<open>A handler that throws a logic error is reported as a service that does not exist.\<close>

lemma logic_error_misreported:
  assumes "rf_service_id (rpc_view bs) \<in> set services"
  shows "read_result (serve_frame fresh services (\<lambda>_ _. (Some Logic_Error, None)) bs) = Inl unknown_service"
  using error_response [of None fresh "rpc_view bs" Logic_Error] assms decode16u_encode16u [where bs = "[]"]
  by (simp add: serve_frame_def dispatch_def service_lookup Let_def read_result_def)

text \<open>
  A session that fails while a handler waits: the response is built and given to a session that is
  closed; nothing tells the handler to stop.
\<close>

lemma handler_outlives_session:
  assumes "sv_flows s = [F_Handle bs]" "rpc_is_closed (sv_layer s)" "outcome_ok out"
  shows "sv_sent (send_res 0 (serve_handled fresh services 0 out s)) = sv_sent s @ [serve_frame fresh services (\<lambda>_ _. out) bs]"
  using assms by (simp add: serve_handled_def send_res_def)

end
