(* ===== verification/Spec2Isabelle.thy ===== *)
theory Spec2Isabelle
  imports Local_Queue Ring_Queue Mpmc_Threads Spsc_Queue Per_Core_Queue Ikcp_Clock
    Frame_Receiver Rpc_Client Senders Concurrent Sequential When_Any Nvme Tcp_Epoll Tcp_Accept Task
    Kcp_Network Scope_Slab Await Coroutine Udp_Epoll Tcp_Uring Lock_Free_State Runtime
    Dgram_Uring Kcp_Uring Kcp_Dpdk Sched_Senders Tcp_Listen Nvme_Init Llm_Scheduler Rpc_Server
begin

text \<open>
  A verification library for pump, a C++ framework in which asynchronous programs
  are pipelines of operators (\<^verbatim>\<open>src/src/pump\<close>) run by schedulers, one set of them per
  core (\<^verbatim>\<open>src/src/env\<close>). Paths below are relative to \<^verbatim>\<open>src/src\<close>.

  \<^bold>\<open>The parts of the program and how they interact.\<close>
  A pipeline is written with \<^verbatim>\<open>>>\<close> from senders; \<^verbatim>\<open>connect\<close> turns it into a tuple of
  operators, and \<^verbatim>\<open>submit\<close> pushes a first signal into it. Every operator pushes a
  value, an exception, a skip or the end of a stream to its successor. Stream
  operators (\<^verbatim>\<open>for_each\<close>, \<^verbatim>\<open>concurrent\<close>, \<^verbatim>\<open>sequential\<close>, \<^verbatim>\<open>reduce\<close>) pull elements from a
  runner; \<^verbatim>\<open>when_all\<close> and \<^verbatim>\<open>when_any\<close> run several pipelines at once. An operator that
  has to wait leaves a request with a callback in a queue of a scheduler. The queues
  are lock-free rings (\<^verbatim>\<open>pump/core/lock_free_queue.hh\<close>); a scheduler drains its own
  in \<^verbatim>\<open>advance\<close>, which the loop of its core calls over and over, and calls the
  callback, which pushes the pipeline on. The schedulers are those of tasks and
  timers, of NVMe devices, of CUDA streams, of TCP connections (over epoll and over
  io_uring), and of UDP datagrams and KCP connections (over epoll, io_uring and DPDK).
  A coroutine can await a sender; what a pipeline keeps while it runs lives in scopes,
  given out by a lock-free allocator. A network session is a list of layers (byte
  buffer and framing, a matching of frames with receive requests, the end of its
  life); remote procedure calls run on top of a session. An example program serves a
  language model over such sessions.

  \<^bold>\<open>Which theory models what.\<close>
  \<^item> \<open>Prelude\<close>: machine words, masks, circular slices, lists with one entry removed.
  \<^item> Queues, \<^verbatim>\<open>pump/core/lock_free_queue.hh\<close> and \<^verbatim>\<open>ring_queue.hh\<close>. \<open>Bounded_Fifo\<close> is
    the contract (locale \<open>bounded_fifo\<close>) that \<open>Local_Queue\<close>, \<open>Ring_Queue\<close>,
    \<open>Mpmc_Queue\<close> and \<open>Spsc_Queue\<close> interpret on the code's rings; \<open>Mpmc_Threads\<close> runs the
    mpmc ring's loops on many threads; \<open>Per_Core_Queue\<close> is the bundle of rings with its
    bitmap of active cores; \<open>Queue_Accounting\<close> is what the schedulers need of it, the
    requests in a queue as a multiset. \<open>Request_Contract\<close> is what a scheduler promises
    (locales \<open>request_contract\<close> and \<open>shutdown_contract\<close>), interpreted on the schedulers of
    TCP, UDP, KCP, CUDA, NVMe, tasks and the language model, and on the RPC server.
  \<^item> KCP, \<^verbatim>\<open>env/scheduler/net/kcp/common/ikcp.hh\<close>: \<open>Ikcp_Seg\<close> (segments and bytes),
    \<open>Ikcp\<close> (the control block, one definition per member function), \<open>Ikcp_Recv\<close> and
    \<open>Ikcp_Link\<close> (fragments, reordering, reassembly), \<open>Ikcp_Send\<close> (datagrams),
    \<open>Ikcp_Window\<close> (the send window), \<open>Ikcp_Connection\<close> (two peers and a network),
    \<open>Ikcp_Clock\<close> (timeouts).
  \<^item> TCP, \<^verbatim>\<open>env/scheduler/net/tcp\<close>: \<open>Packet_Buffer\<close> and \<open>Tcp_Framing\<close>
    (\<^verbatim>\<open>common/struct.hh\<close>, \<^verbatim>\<open>detail.hh\<close>, \<^verbatim>\<open>layers.hh\<close>), \<open>Frame_Receiver\<close>
    (\<^verbatim>\<open>net/common\<close>), \<open>Tcp_Session\<close> (the layers composed), \<open>Tcp_Epoll\<close> and
    \<open>Tcp_Accept\<close> (the epoll schedulers of sessions, of listening and of connecting),
    \<open>Tcp_Uring\<close> (the same over io_uring), \<open>Tcp_Listen\<close> (\<open>init\<close> and the destructors).
  \<^item> Datagrams, \<^verbatim>\<open>env/scheduler/net/dgram\<close>, \<^verbatim>\<open>net/udp\<close> and \<^verbatim>\<open>net/kcp\<close>: the transports
    \<open>Dgram_Epoll\<close>, \<open>Dgram_Uring\<close> and \<open>Dgram_Dpdk\<close> (Ethernet, IP and UDP headers, ARP); the
    UDP schedulers \<open>Udp_Epoll\<close>, \<open>Dgram_Uring\<close> and \<open>Udp_Dpdk\<close>; the KCP schedulers \<open>Kcp_Epoll\<close>,
    \<open>Kcp_Uring\<close> and \<open>Kcp_Dpdk\<close>, of which the last two are shown to do what the first does;
    \<open>Kcp_Network\<close> is two KCP schedulers with a network between them; it keeps a history
    of the connections that an answer to a second connect replaced and of those to which
    a late answer of an earlier connect came, for which order is not guaranteed.
  \<^item> RPC, \<^verbatim>\<open>env/scheduler/net/rpc\<close>: \<open>Rpc_Frame\<close> (frames and the server's turn),
    \<open>Rpc_Server\<close> (the server with several requests at once) and \<open>Rpc_Client\<close> (matching
    of responses with calls, one table of waiting calls per service).
  \<^item> Pipelines, \<^verbatim>\<open>pump/sender\<close>: \<open>Pipeline\<close> (the pushers of the single-value
    operators and the context stack), \<open>Senders\<close> (sender types, \<^verbatim>\<open>connect\<close>, \<^verbatim>\<open>bind_back\<close>
    and derived stages), \<open>For_Each\<close> (\<^verbatim>\<open>for_each.hh\<close>, \<^verbatim>\<open>reduce.hh\<close>), \<open>Concurrent\<close>,
    \<open>Sequential\<close>, \<open>When_All\<close>, \<open>When_Any\<close>; \<open>Sched_Senders\<close>: the operators that wait for a
    scheduler, which begin a pipeline, and pipelines that flatten such pipelines into
    their own, to any depth.
  \<^item> \<open>Await\<close> (\<^verbatim>\<open>pump/sender/await_sender.hh\<close>) and \<open>Coroutine\<close> (\<^verbatim>\<open>pump/coro\<close>);
    \<open>Scope_Slab\<close> (\<^verbatim>\<open>pump/core/scope.hh\<close>), \<open>Lock_Free_State\<close> (\<^verbatim>\<open>lock_free_state.hh\<close>).
  \<^item> \<open>Nvme_Merge\<close> and \<open>Nvme\<close>: the scheduler of \<^verbatim>\<open>env/scheduler/nvme\<close>; \<open>Nvme_Init\<close>: its
    devices and memory; \<open>Cuda_Pool\<close> and \<open>Cuda\<close>: \<^verbatim>\<open>env/scheduler/cuda\<close>; \<open>Task\<close>: tasks, timers
    and the preemptive queue of \<^verbatim>\<open>env/scheduler/task/tasks_scheduler.hh\<close>.
  \<^item> \<open>Runtime\<close>: the tables of schedulers and the loop of a core (\<^verbatim>\<open>env/runtime\<close>).
  \<^item> \<open>Llm_Scheduler\<close>: the inference server of \<^verbatim>\<open>src/apps/example/inference\<close>.

  \<^bold>\<open>How the code is represented.\<close>
  A struct is a record with the code's fields, an enum or a \<^verbatim>\<open>std::variant\<close> a
  datatype, a fixed-width integer a word (\<open>u8\<close> to \<open>u64\<close>), so that wrap-around is that
  of the code; an \<^verbatim>\<open>int\<close> of the code is an integer where its values stay small. Byte
  order is little-endian. Deques, lists and buffers are lists. An operation is a
  function on the record; \<open>None\<close> is an abort of the process or, in \<open>Pipeline\<close> and
  \<open>Senders\<close>, a program that does not compile; an exception is the left value of a sum.
  A request is its fields with the callback as an identifier; calling a callback
  appends to a list of answers in the state. Kernel, io_uring, DPDK, SPDK, the CUDA
  driver, the language model, clock, remote peers, user functions and user handlers are
  parameters. Fields that only record history
  (\<open>_issued\<close>, \<open>_accepted\<close>, \<open>_answers\<close>) are named as such in their theory.

  \<^bold>\<open>Concurrency.\<close>
  \<open>Spsc_Queue\<close>, \<open>Mpmc_Threads\<close>, \<open>For_Each\<close>, \<open>Concurrent\<close>, \<open>Sequential\<close>, \<open>When_All\<close>,
  \<open>When_Any\<close>, \<open>Await\<close>, \<open>Scope_Slab\<close> and \<open>Lock_Free_State\<close> are inductive step relations in which one step is one access to a shared word (or one
  compare-and-swap loop), so every interleaving is a path. Acquire and release
  accesses are read as sequentially consistent; \<open>spsc_no_data_race\<close> shows that the
  plain accesses of the SPSC ring are never concurrent. The reduce operator's result is
  not protected at all: \<open>Concurrent\<close> reads and writes it in two steps, records whether
  the runs of two elements overlapped, and shows that then an element can be lost. In the schedulers a step is
  an operation on a queue or one \<^verbatim>\<open>advance\<close>; what a callback requests while it runs is
  a step of its own.

  \<^bold>\<open>What the lemmas show.\<close>
  The queues refine bounded lists, under interleaving for the SPSC and MPMC rings. KCP keeps,
  whatever the network loses, repeats or delays, the sender's order without
  gaps or repetitions, resends until acknowledged, respects the window, and bounds its
  timeouts, which grow at each expiry with any setting of nodelay. The framing of a byte stream is undone for any split of the stream into
  reads. Pipelines end with exactly one signal and leave the context stack as it
  was; streams poll each element once, \<open>concurrent\<close> respects its limit and runs every
  element before its only result, \<open>sequential\<close>
  runs one element at a time, and every stream ends. The schedulers' theorems are
  accounting invariants over all reachable states: what was issued is, as a multiset,
  what was answered and what is still queued or in flight, so no request is answered
  twice, and what the code drops (a task that finds the preemptive queue full, a
  datagram that finds no room) is counted as such. Memory that is given out (scopes, blocks of CUDA memory, pages) has
  one owner at a time. Where the code breaks an expected property, a lemma shows the
  failing run.

  \<^bold>\<open>Termination and fuel.\<close>
  Loops are total functions with a measure (bytes left, items left, cells of a ring,
  pending requests)
  except two: the retry loops of \<^verbatim>\<open>mpmc::queue\<close> (\<open>partial_function\<close>, shown to return
  for capacities from 2 on) and the drain of a per-core queue, whose fuel is the
  number of items it holds (\<open>per_core_drain_delivers\<close> and \<open>pc_drain_loop\<close> show that
  the loop ends by itself). \<open>stream_terminates\<close> bounds the runs of a stream.

  \<^bold>\<open>Not modelled.\<close>
  The queues of moodycamel and popl in \<^verbatim>\<open>src/3rd\<close> are third-party code. The other examples
  and the tests have no logic of their own. \<^verbatim>\<open>compute_sender_type\<close> and the type traits
  are computations of the compiler that leave nothing at run time; \<^verbatim>\<open>get_op_flow\<close> does
  not compile in a pipeline. Setting up a DPDK port, loading a language model, creating
  threads and binding them to cores are calls into the system whose results the code
  does not use further. Destructors are modelled where they answer requests, close
  descriptors or give back memory that is counted; those that only free are not, nor are
  moves of ownership without effect on the state, printing, and the memory orders weaker
  than sequential consistency.
\<close>

end
